(* ===== verification/Prelude.thy ===== *)
theory Prelude
  imports Main "HOL-Library.Word" "HOL-Library.Multiset"
begin

unbundle bit_operations_syntax

section \<open>Shared types, collections and lemmas\<close>

text \<open>
  The machine types of the C++ sources (\<open>uint8_t\<close>, \<open>uint32_t\<close>, \<open>uint64_t\<close> and their signed
  readings), byte strings with the terminating NUL of \<open>c_str()\<close>, and the generic facts on words,
  lists and multisets that several components use.  The collections \<open>word_nat\<close> (a word expression
  read as a natural number) and \<open>bytes\<close> (reading a NUL terminated string) are passed to \<open>simp\<close>
  by the component theories.
\<close>

type_synonym u8 = "8 word"
type_synonym u16 = "16 word"
type_synonym u32 = "32 word"
type_synonym u64 = "64 word"

named_theorems word_nat \<open>reading word expressions as natural numbers\<close>
named_theorems bytes \<open>reading NUL terminated byte strings\<close>

subsection \<open>NUL terminated byte strings\<close>

text \<open>
  \<open>std::string::c_str()\<close> is the contents followed by a NUL byte.  \<open>byte_at s i\<close> is the read
  \<open>str[i]\<close> for \<open>i \<le> size()\<close>; \<open>c_str s\<close> is what a loop that stops at the first NUL sees.
\<close>

definition byte_at :: "u8 list \<Rightarrow> nat \<Rightarrow> u8" where
  "byte_at s i = (if i < length s then s ! i else 0)"

definition c_str :: "u8 list \<Rightarrow> u8 list" where
  "c_str s = takeWhile (\<lambda>c. c \<noteq> 0) s"

lemma byte_at_Nil [simp, bytes]: "byte_at [] i = 0"
  by (simp add: byte_at_def)

lemma byte_at_Cons_0 [simp, bytes]: "byte_at (c # s) 0 = c"
  by (simp add: byte_at_def)

lemma byte_at_Cons_Suc [simp, bytes]: "byte_at (c # s) (Suc i) = byte_at s i"
  by (simp add: byte_at_def)

lemma byte_at_Cons_numeral [simp, bytes]:
  "byte_at (c # s) (numeral k) = byte_at s (pred_numeral k)"
  by (simp add: numeral_eq_Suc)

lemma byte_at_Cons_1 [simp, bytes]: "byte_at (c # s) 1 = byte_at s 0"
  using byte_at_Cons_Suc [of c s 0] by simp

lemma byte_at_append: "byte_at (s @ t) i = (if i < length s then s ! i else byte_at t (i - length s))"
  by (auto simp: byte_at_def nth_append)

lemma byte_at_nonzero_length: "byte_at s i \<noteq> 0 \<Longrightarrow> i < length s"
  by (simp add: byte_at_def split: if_splits)

lemma byte_at_0_cases: obtains "s = []" | c t where "s = c # t"
  by (cases s) auto

lemma c_str_Nil [simp]: "c_str [] = []"
  by (simp add: c_str_def)

lemma c_str_Cons [simp]: "c_str (c # s) = (if c = 0 then [] else c # c_str s)"
  by (simp add: c_str_def)

lemma c_str_append:
  "c_str (s @ t) = (if 0 \<in> set s then c_str s else s @ c_str t)"
  by (induction s) auto

lemma c_str_ident: "0 \<notin> set s \<Longrightarrow> c_str s = s"
  using c_str_append [of s "[]"] by simp

lemma zero_notin_c_str [simp]: "0 \<notin> set (c_str s)"
  by (induction s) auto

lemma length_c_str: "length (c_str s) \<le> length s"
  by (simp add: c_str_def length_takeWhile_le)

subsection \<open>Words read as natural numbers\<close>

lemma unat_and_mask_eq: "unat (w AND mask n) = unat w mod 2 ^ n" for w :: "'a::len word"
  by (metis take_bit_eq_mask take_bit_eq_mod unsigned_take_bit_eq)

lemma unat_drop_bit_div [word_nat]: "unat (drop_bit n w) = unat w div 2 ^ n" for w :: "'a::len word"
  by (metis drop_bit_eq_div unat_drop_bit_eq)

lemma unat_push_bit_mod [word_nat]:
  "unat (push_bit n w) = (unat w * 2 ^ n) mod 2 ^ LENGTH('a)" for w :: "'a::len word"
  by (metis push_bit_eq_mult take_bit_eq_mod unsigned_push_bit_eq)

lemma unat_ucast_mod [word_nat]:
  "unat (ucast w :: 'b::len word) = unat w mod 2 ^ LENGTH('b)" for w :: "'a::len word"
  by (simp add: unsigned_ucast_eq take_bit_eq_mod)

lemma unat_add_mod [word_nat]:
  "unat (v + w) = (unat v + unat w) mod 2 ^ LENGTH('a)" for v w :: "'a::len word"
  by (simp add: unat_word_ariths)

lemma unat_and_not_mask:
  "unat (w AND NOT (mask n)) = unat w div 2 ^ n * 2 ^ n" for w :: "'a::len word"
proof -
  have "w AND NOT (mask n) = push_bit n (drop_bit n w)"
    by (rule bit_word_eqI) (auto simp: bit_simps)
  moreover have "unat w div 2 ^ n * 2 ^ n < 2 ^ LENGTH('a)"
    by (metis div_mult_mod_eq le_add1 order_le_less_trans unsigned_less)
  ultimately show ?thesis
    by (simp only: unat_push_bit_mod unat_drop_bit_div mod_less)
qed

text \<open>The concrete masks of the UTF-8 codec, on 8 and on 32 bits.\<close>

lemma unat_and_low_masks [word_nat]:
  fixes w :: "'a::len word"
  shows "unat (w AND 0x07) = unat w mod 8" and "unat (w AND 0x0F) = unat w mod 16"
    and "unat (w AND 0x1F) = unat w mod 32" and "unat (w AND 0x3F) = unat w mod 64"
    and "unat (w AND 0x7F) = unat w mod 128" and "unat (w AND 0xFF) = unat w mod 256"
  using unat_and_mask_eq [of w 3] unat_and_mask_eq [of w 4] unat_and_mask_eq [of w 5]
    unat_and_mask_eq [of w 6] unat_and_mask_eq [of w 7] unat_and_mask_eq [of w 8]
  by (simp_all add: mask_eq_exp_minus_1)

lemma unat_and_high_masks [word_nat]:
  fixes w :: u8
  shows "unat (w AND 0xF8) = unat w div 8 * 8" and "unat (w AND 0xC0) = unat w div 64 * 64"
proof -
  have m: "(0xF8 :: u8) = NOT (mask 3)" "(0xC0 :: u8) = NOT (mask 6)"
    by (simp_all add: mask_eq_exp_minus_1)
  show "unat (w AND 0xF8) = unat w div 8 * 8" "unat (w AND 0xC0) = unat w div 64 * 64"
    unfolding m unat_and_not_mask by simp_all
qed

lemmas word_nat_iff = word_unat_eq_iff word_le_nat_alt word_less_nat_alt

lemma unat_u8_less [intro]: "unat (w :: u8) < 256"
  using unsigned_less [of w] by simp

lemma unat_u32_less [intro]: "unat (w :: u32) < 4294967296"
  using unsigned_less [of w] by simp

subsection \<open>Vectors: erasing and overwriting an index\<close>

text \<open>\<open>v.erase (v.begin() + i)\<close>, and the erase that moves the last element into the hole.\<close>

definition erase_at :: "nat \<Rightarrow> 'a list \<Rightarrow> 'a list" where
  "erase_at i xs = take i xs @ drop (Suc i) xs"

definition swap_erase :: "nat \<Rightarrow> 'a list \<Rightarrow> 'a list" where
  "swap_erase i xs = butlast (xs[i := last xs])"

lemma length_erase_at: "i < length xs \<Longrightarrow> length (erase_at i xs) = length xs - 1"
  by (simp add: erase_at_def)

lemma mset_erase_at: "i < length xs \<Longrightarrow> mset (erase_at i xs) = mset xs - {#xs ! i#}"
proof -
  assume i: "i < length xs"
  have "mset xs = mset (take i xs @ xs ! i # drop (Suc i) xs)"
    using id_take_nth_drop [OF i] by simp
  then show ?thesis by (simp add: erase_at_def)
qed

lemma mset_swap_erase: "i < length xs \<Longrightarrow> mset (swap_erase i xs) = mset xs - {#xs ! i#}"
proof -
  assume i: "i < length xs"
  let ?ys = "xs[i := last xs]"
  have ne: "?ys \<noteq> []" using i by auto
  have last: "last ?ys = last xs"
    using i by (metis i last_list_update length_greater_0_conv less_zeroE list.size(3))
  have "mset ?ys = mset (butlast ?ys @ [last xs])"
    using append_butlast_last_id [OF ne] last by simp
  then have "mset ?ys = add_mset (last xs) (mset (butlast ?ys))" by simp
  moreover have "mset ?ys = add_mset (last xs) (mset xs - {#xs ! i#})"
    using i by (simp add: mset_update)
  ultimately show ?thesis by (simp add: swap_erase_def)
qed

lemma set_mset_remove_distinct: "distinct xs \<Longrightarrow> set_mset (mset xs - {#x#}) = set xs - {x}"
  by (metis distinct_remove1 mset_remove1 set_mset_mset set_remove1_eq)

lemma set_erase_at: "distinct xs \<Longrightarrow> i < length xs \<Longrightarrow> set (erase_at i xs) = set xs - {xs ! i}"
  by (metis mset_erase_at set_mset_mset set_mset_remove_distinct)

lemma set_swap_erase: "distinct xs \<Longrightarrow> i < length xs \<Longrightarrow> set (swap_erase i xs) = set xs - {xs ! i}"
  by (metis mset_swap_erase set_mset_mset set_mset_remove_distinct)

lemma distinct_erase_at: "distinct xs \<Longrightarrow> distinct (erase_at i xs)"
  by (auto simp: erase_at_def distinct_append dest: in_set_takeD in_set_dropD)
    (metis disjoint_iff le_SucI order_refl set_take_disj_set_drop_if_distinct)

lemma distinct_swap_erase: "distinct xs \<Longrightarrow> i < length xs \<Longrightarrow> distinct (swap_erase i xs)"
  by (metis distinct_remove1 mset_eq_imp_distinct_iff mset_remove1 mset_swap_erase)

lemma sorted_wrt_erase_at:
  assumes "sorted_wrt P v"
  shows "sorted_wrt P (erase_at i v)"
proof -
  have "sorted_wrt P (take i v @ drop i v)" using assms by simp
  then have "\<forall>x\<in>set (take i v). \<forall>y\<in>set (drop i v). P x y"
    unfolding sorted_wrt_append by blast
  moreover have "set (drop (Suc i) v) \<subseteq> set (drop i v)" by (simp add: set_drop_subset_set_drop)
  ultimately show ?thesis
    using assms by (auto simp: erase_at_def sorted_wrt_append sorted_wrt_take sorted_wrt_drop)
qed

end
