(* ===== verification/Unicode.thy ===== *)
theory Unicode
  imports Prelude
begin

section \<open>UTF-8 codec and file name escaping (ase/unicode.cc, ase/unicode.hh)\<close>

text \<open>
  Strings are byte lists.  \<open>utf8character\<close> is the forgiving decoder template with its mode
  \<open>CODEPOINT\<close> as first argument; it returns the number of bytes consumed and the code point written
  to \<open>*unicode\<close> (\<open>None\<close> when the mode does not write it).  The loops over a C string stop at
  the first NUL, those over a \<open>std::string\<close> at its size.  \<open>isalpha\<close> is the one of the C locale.
\<close>

subsection \<open>The decoder\<close>

definition utf8_one_byte :: "nat \<Rightarrow> u8 \<Rightarrow> nat \<times> u32 option" where
  "utf8_one_byte CODEPOINT c =
     (1, if CODEPOINT \<ge> 2 \<and> c \<ge> 0x80 then Some (0xef80 - 0x80 + ucast c)
         else if CODEPOINT \<noteq> 0 then Some (ucast c) else None)"

definition utf8_cont :: "u8 \<Rightarrow> bool" where
  "utf8_cont d \<longleftrightarrow> d AND 0xC0 = 0x80"

definition utf8_reject :: "nat \<Rightarrow> u32 \<Rightarrow> bool" where
  "utf8_reject CODEPOINT u \<longleftrightarrow>
     CODEPOINT \<ge> 2 \<and> u \<ge> 0xd800 \<and> u \<le> 0xdfff \<or> CODEPOINT \<ge> 3 \<and> u \<ge> 0xef80 \<and> u \<le> 0xefff"

definition utf8_join2 :: "u8 \<Rightarrow> u8 \<Rightarrow> u32" where
  "utf8_join2 c d = push_bit 6 (ucast (c AND 0x1f)) + ucast (d AND 0x3f)"

definition utf8_join3 :: "u8 \<Rightarrow> u8 \<Rightarrow> u8 \<Rightarrow> u32" where
  "utf8_join3 c d e =
     push_bit 12 (ucast (c AND 0x0f)) + push_bit 6 (ucast (d AND 0x3f)) + ucast (e AND 0x3f)"

definition utf8_join4 :: "u8 \<Rightarrow> u8 \<Rightarrow> u8 \<Rightarrow> u8 \<Rightarrow> u32" where
  "utf8_join4 c d e f =
     push_bit 18 (ucast (c AND 0x07)) + push_bit 12 (ucast (d AND 0x3f)) +
     push_bit 6 (ucast (e AND 0x3f)) + ucast (f AND 0x3f)"

definition utf8character :: "nat \<Rightarrow> u8 list \<Rightarrow> nat \<times> u32 option" where
  "utf8character CODEPOINT str =
    (let c = byte_at str 0; d = byte_at str 1; e = byte_at str 2; f = byte_at str 3 in
     if CODEPOINT \<le> 1 \<and> c < 0xc0 then (1, if CODEPOINT \<noteq> 0 then Some (ucast c) else None)
     else let k = c AND 0xF8 in
       if k = 0xC0 \<or> k = 0xC8 \<or> k = 0xD0 \<or> k = 0xD8 then
         (if \<not> utf8_cont d then utf8_one_byte CODEPOINT c
          else (2, if CODEPOINT \<noteq> 0 then Some (utf8_join2 c d) else None))
       else if k = 0xE0 \<or> k = 0xE8 then
         (if \<not> utf8_cont d \<or> \<not> utf8_cont e then utf8_one_byte CODEPOINT c
          else if utf8_reject CODEPOINT (utf8_join3 c d e) then utf8_one_byte CODEPOINT c
          else (3, if CODEPOINT \<noteq> 0 then Some (utf8_join3 c d e) else None))
       else if k = 0xF0 then
         (if \<not> utf8_cont d \<or> \<not> utf8_cont e \<or> \<not> utf8_cont f then utf8_one_byte CODEPOINT c
          else if utf8_reject CODEPOINT (utf8_join4 c d e f) then utf8_one_byte CODEPOINT c
          else (4, if CODEPOINT \<noteq> 0 then Some (utf8_join4 c d e f) else None))
       else utf8_one_byte CODEPOINT c)"

definition utf8_width :: "nat \<Rightarrow> u8 list \<Rightarrow> nat" where
  "utf8_width CODEPOINT str = fst (utf8character CODEPOINT str)"

text \<open>The value in \<open>*unicode\<close> after a call in a mode that writes it.\<close>

definition utf8_value :: "nat \<Rightarrow> u8 list \<Rightarrow> u32" where
  "utf8_value CODEPOINT str = the (snd (utf8character CODEPOINT str))"

lemmas utf8_defs = utf8_width_def utf8_value_def utf8character_def utf8_one_byte_def Let_def

lemma utf8_writes_unicode: "CODEPOINT \<noteq> 0 \<Longrightarrow> snd (utf8character CODEPOINT str) \<noteq> None"
  by (simp add: utf8character_def utf8_one_byte_def Let_def)

lemma utf8_cont_nonzero: "utf8_cont d \<Longrightarrow> d \<noteq> 0"
  by (auto simp: utf8_cont_def)

lemma utf8_width_pos: "utf8_width CODEPOINT str \<ge> 1"
  by (simp add: utf8_defs)

lemma utf8_width_le_4: "utf8_width CODEPOINT str \<le> 4"
  by (simp add: utf8_defs)

lemma cont_at_length: "utf8_cont (byte_at s i) \<Longrightarrow> i < length s"
  by (rule byte_at_nonzero_length) (rule utf8_cont_nonzero)

lemma utf8_width_le_length: "str \<noteq> [] \<Longrightarrow> utf8_width CODEPOINT str \<le> length str"
proof -
  assume "str \<noteq> []"
  then have "length str \<ge> 1" by (cases str) auto
  then show ?thesis
    by (auto simp: utf8_defs dest!: cont_at_length)
qed

subsection \<open>Counting and decoding\<close>

definition utf8codepoint :: "u8 list \<Rightarrow> nat \<times> u32" where
  "utf8codepoint str = (utf8_width 1 str, utf8_value 1 str)"

definition utf8skip :: "u8 list \<Rightarrow> nat" where
  "utf8skip str = utf8_width 0 str"

lemma utf8skip_pos: "0 < utf8skip str"
  using utf8_width_pos [of 0 str] by (simp add: utf8skip_def)

text \<open>\<open>utf8len (const std::string&)\<close>: the loop \<open>while (c < e)\<close>.\<close>

function utf8len :: "u8 list \<Rightarrow> nat" where
  "utf8len str = (if str = [] then 0 else Suc (utf8len (drop (utf8skip str) str)))"
  by pat_completeness auto
termination
  by (relation "measure length") (auto simp: utf8skip_pos)

text \<open>\<open>utf8len (const char*)\<close>: the loop \<open>for (l = 0; *str != 0; l++)\<close>.\<close>

function utf8len_cstr :: "u8 list \<Rightarrow> nat" where
  "utf8len_cstr str =
     (if byte_at str 0 = 0 then 0 else Suc (utf8len_cstr (drop (utf8skip str) str)))"
  by pat_completeness auto
termination
  by (relation "measure length") (auto simp: utf8skip_pos dest: byte_at_nonzero_length)

function utf8_to_unicode :: "u8 list \<Rightarrow> u32 list" where
  "utf8_to_unicode str =
     (if str = [] then []
      else snd (utf8codepoint str) # utf8_to_unicode (drop (fst (utf8codepoint str)) str))"
  by pat_completeness auto
termination
  by (relation "measure length") (auto simp: utf8codepoint_def less_le_trans [OF _ utf8_width_pos])

function utf8_to_unicode_cstr :: "u8 list \<Rightarrow> u32 list" where
  "utf8_to_unicode_cstr str =
     (if byte_at str 0 = 0 then []
      else snd (utf8codepoint str) # utf8_to_unicode_cstr (drop (fst (utf8codepoint str)) str))"
  by pat_completeness auto
termination
  by (relation "measure length")
    (auto simp: utf8codepoint_def less_le_trans [OF _ utf8_width_pos] dest: byte_at_nonzero_length)

text \<open>
  \<open>utf8decode\<close> resizes a vector to \<open>size()\<close> elements, lets the C string version fill it and cuts
  it to the number of code points written.
\<close>

definition utf8decode :: "u8 list \<Rightarrow> u32 list" where
  "utf8decode utf8str =
     (let filled = utf8_to_unicode_cstr utf8str; codepoints = replicate (length utf8str) 0
      in take (length filled) (filled @ drop (length filled) codepoints))"

subsection \<open>Encoding\<close>

definition utf8encode1 :: "u32 \<Rightarrow> u8 list" where
  "utf8encode1 u =
     (if u \<le> 0x7F then [ucast u]
      else if u \<ge> 0x80 \<and> u \<le> 0x7FF then
        [ucast (0xC0 + drop_bit 6 u), ucast (0x80 + (u AND 0x3F))]
      else if u \<ge> 0x800 \<and> u \<le> 0xFFFF then
        [ucast (0xE0 + drop_bit 12 u), ucast (0x80 + (drop_bit 6 u AND 0x3F)),
         ucast (0x80 + (u AND 0x3F))]
      else if u \<ge> 0x10000 \<and> u \<le> 0x10FFFF then
        [ucast (0xF0 + drop_bit 18 u), ucast (0x80 + (drop_bit 12 u AND 0x3F)),
         ucast (0x80 + (drop_bit 6 u AND 0x3F)), ucast (0x80 + (u AND 0x3F))]
      else [])"

definition utf8encode :: "u32 list \<Rightarrow> u8 list" where
  "utf8encode codepoints = concat (map utf8encode1 codepoints)"

subsection \<open>File system names\<close>

definition is_escape_code :: "u32 \<Rightarrow> bool" where
  "is_escape_code unicode \<longleftrightarrow> unicode \<ge> 0xef80 \<and> unicode \<le> 0xefff"

function encodefs_loop :: "u8 list \<Rightarrow> u8 list" where
  "encodefs_loop fstr =
     (if byte_at fstr 0 = 0 then []
      else let w = utf8_width 3 fstr; unicode = utf8_value 3 fstr in
        (if is_escape_code unicode then utf8encode [unicode] else take w fstr)
        @ encodefs_loop (drop w fstr))"
  by pat_completeness auto
termination
  by (relation "measure length")
    (auto simp: less_le_trans [OF _ utf8_width_pos] dest: byte_at_nonzero_length)

definition encodefs :: "u8 list \<Rightarrow> u8 list" where
  "encodefs fschars = encodefs_loop fschars"

function decodefs_loop :: "u8 list \<Rightarrow> u8 list" where
  "decodefs_loop ustr =
     (if byte_at ustr 0 = 0 then []
      else let w = utf8_width 1 ustr; unicode = utf8_value 1 ustr in
        (if is_escape_code unicode then [ucast (unicode - (0xef80 - 0x80))] else take w ustr)
        @ decodefs_loop (drop w ustr))"
  by pat_completeness auto
termination
  by (relation "measure length")
    (auto simp: less_le_trans [OF _ utf8_width_pos] dest: byte_at_nonzero_length)

definition decodefs :: "u8 list \<Rightarrow> u8 list" where
  "decodefs utf8str = decodefs_loop utf8str"

function displayfs_loop :: "u8 list \<Rightarrow> u8 list" where
  "displayfs_loop ustr =
     (if byte_at ustr 0 = 0 then []
      else let w = utf8_width 2 ustr; unicode = utf8_value 2 ustr in
        (if is_escape_code unicode then utf8encode [unicode - (0xef80 - 0x80)] else take w ustr)
        @ displayfs_loop (drop w ustr))"
  by pat_completeness auto
termination
  by (relation "measure length")
    (auto simp: less_le_trans [OF _ utf8_width_pos] dest: byte_at_nonzero_length)

definition displayfs :: "u8 list \<Rightarrow> u8 list" where
  "displayfs utf8str = displayfs_loop utf8str"

subsection \<open>Code point classes and NCNames\<close>

definition unicode_is_assigned :: "u32 \<Rightarrow> bool" where
  "unicode_is_assigned u \<longleftrightarrow>
     u \<le> 0xD7FF \<or> (u \<ge> 0xE000 \<and> u \<le> 0xFFFF) \<or> (u \<ge> 0x10000 \<and> u \<le> 0x14FFF) \<or>
     (u \<ge> 0x16000 \<and> u \<le> 0x18FFF) \<or> (u \<ge> 0x1B000 \<and> u \<le> 0x1BFFF) \<or>
     (u \<ge> 0x1D000 \<and> u \<le> 0x1FFFF) \<or> (u \<ge> 0x20000 \<and> u \<le> 0x2FFFF) \<or>
     (u \<ge> 0xE0000 \<and> u \<le> 0xE0FFF) \<or> (u \<ge> 0xF0000 \<and> u \<le> 0xFFFFF) \<or>
     (u \<ge> 0x100000 \<and> u \<le> 0x10FFFF)"

definition unicode_is_valid :: "u32 \<Rightarrow> bool" where
  "unicode_is_valid u \<longleftrightarrow> u \<le> 0x10FFFF \<and> u AND 0x1FF800 \<noteq> 0xD800"

definition unicode_is_noncharacter :: "u32 \<Rightarrow> bool" where
  "unicode_is_noncharacter u \<longleftrightarrow> (u \<ge> 0xFDD0 \<and> u \<le> 0xFDEF) \<or> u AND 0xFFFE = 0xFFFE"

definition unicode_is_character :: "u32 \<Rightarrow> bool" where
  "unicode_is_character u \<longleftrightarrow> \<not> unicode_is_noncharacter u"

definition unicode_is_control_code :: "u32 \<Rightarrow> bool" where
  "unicode_is_control_code u \<longleftrightarrow> u \<le> 0x1F \<or> (u \<ge> 0x7F \<and> u \<le> 0x9f)"

definition unicode_is_private :: "u32 \<Rightarrow> bool" where
  "unicode_is_private u \<longleftrightarrow>
     (u \<ge> 0xE000 \<and> u \<le> 0xF8FF) \<or> (u \<ge> 0xF0000 \<and> u \<le> 0xFFFFD) \<or>
     (u \<ge> 0x100000 \<and> u \<le> 0x10FFFD)"

definition isalpha_u32 :: "u32 \<Rightarrow> bool" where
  "isalpha_u32 c \<longleftrightarrow> (c \<ge> 0x41 \<and> c \<le> 0x5A) \<or> (c \<ge> 0x61 \<and> c \<le> 0x7A)"

definition codepoint_is_namestartchar :: "u32 \<Rightarrow> bool" where
  "codepoint_is_namestartchar c \<longleftrightarrow>
     isalpha_u32 c \<or> c = 0x5F \<or>
     (c \<ge> 0xC0 \<and> c \<le> 0xD6) \<or> (c \<ge> 0xD8 \<and> c \<le> 0xF6) \<or>
     (c \<ge> 0xF8 \<and> c \<le> 0x2FF) \<or> (c \<ge> 0x370 \<and> c \<le> 0x37D) \<or> (c \<ge> 0x37F \<and> c \<le> 0x1FFF) \<or>
     (c \<ge> 0x200C \<and> c \<le> 0x200D) \<or> (c \<ge> 0x2070 \<and> c \<le> 0x218F) \<or> (c \<ge> 0x2C00 \<and> c \<le> 0x2FEF) \<or>
     (c \<ge> 0x3001 \<and> c \<le> 0xD7FF) \<or> (c \<ge> 0xF900 \<and> c \<le> 0xFDCF) \<or> (c \<ge> 0xFDF0 \<and> c \<le> 0xFFFD) \<or>
     (c \<ge> 0x10000 \<and> c \<le> 0xEFFFF)"

definition codepoint_is_ncname :: "u32 \<Rightarrow> bool" where
  "codepoint_is_ncname c \<longleftrightarrow>
     codepoint_is_namestartchar c \<or> c = 0x2D \<or> c = 0x2E \<or> (c \<ge> 0x30 \<and> c \<le> 0x39) \<or>
     c = 0xB7 \<or> (c \<ge> 0x0300 \<and> c \<le> 0x036F) \<or> (c \<ge> 0x203F \<and> c \<le> 0x2040)"

definition string_is_ncname :: "u8 list \<Rightarrow> bool" where
  "string_is_ncname input = list_all codepoint_is_ncname (utf8_to_unicode input)"

text \<open>The iterator loop of \<open>string_to_ncname\<close>: substitute or erase every other code point.\<close>

fun ncname_loop :: "u32 \<Rightarrow> u32 list \<Rightarrow> u32 list" where
  "ncname_loop substitute [] = []"
| "ncname_loop substitute (c # cs) =
     (if \<not> codepoint_is_ncname c
      then if substitute \<noteq> 0 then substitute # ncname_loop substitute cs
           else ncname_loop substitute cs
      else c # ncname_loop substitute cs)"

definition string_to_ncname :: "u8 list \<Rightarrow> u32 \<Rightarrow> u8 list" where
  "string_to_ncname input substitute =
    (let ucstring = ncname_loop substitute (utf8_to_unicode input);
         named = (if ucstring \<noteq> [] \<and> \<not> codepoint_is_namestartchar (hd ucstring)
                  then 0x5F # ucstring else ucstring)
     in utf8encode named)"

subsection \<open>The decoder step\<close>

lemma utf8_cont_iff: "utf8_cont d \<longleftrightarrow> 128 \<le> unat d \<and> unat d < 192"
  by (auto simp: utf8_cont_def word_nat_iff word_nat)

lemma utf8_cont_zero [simp]: "\<not> utf8_cont 0"
  by (simp add: utf8_cont_def)

lemma unat_join2: "unat (utf8_join2 c d) = unat c mod 32 * 64 + unat d mod 64"
proof -
  have "unat c mod 32 < 32" "unat d mod 64 < 64" by simp_all
  then show ?thesis unfolding utf8_join2_def by (simp only: word_nat) simp
qed

lemma unat_join3:
  "unat (utf8_join3 c d e) = unat c mod 16 * 4096 + unat d mod 64 * 64 + unat e mod 64"
proof -
  have "unat c mod 16 < 16" "unat d mod 64 < 64" "unat e mod 64 < 64" by simp_all
  then show ?thesis unfolding utf8_join3_def by (simp only: word_nat) simp
qed

lemma unat_join4:
  "unat (utf8_join4 c d e f) =
     unat c mod 8 * 262144 + unat d mod 64 * 4096 + unat e mod 64 * 64 + unat f mod 64"
proof -
  have "unat c mod 8 < 8" "unat d mod 64 < 64" "unat e mod 64 < 64" "unat f mod 64 < 64" by simp_all
  then show ?thesis unfolding utf8_join4_def by (simp only: word_nat) simp
qed

lemma unat_cont_byte: "unat (ucast (0x80 + (x AND 0x3F)) :: u8) = 128 + unat x mod 64" for x :: u32
proof -
  have "unat x mod 64 < 64" by simp
  then show ?thesis by (simp only: word_nat) simp
qed

lemma unat_lead_byte:
  "k + unat u div 2 ^ n < 256 \<Longrightarrow> unat (ucast (of_nat k + drop_bit n u) :: u8) = k + unat u div 2 ^ n" for u :: u32
  by (simp only: word_nat) (simp add: unat_of_nat)


lemma lead_class:
  fixes c :: u8
  shows "c AND 0xF8 = 0xC0 \<longleftrightarrow> 192 \<le> unat c \<and> unat c < 200"
    and "c AND 0xF8 = 0xC8 \<longleftrightarrow> 200 \<le> unat c \<and> unat c < 208"
    and "c AND 0xF8 = 0xD0 \<longleftrightarrow> 208 \<le> unat c \<and> unat c < 216"
    and "c AND 0xF8 = 0xD8 \<longleftrightarrow> 216 \<le> unat c \<and> unat c < 224"
    and "c AND 0xF8 = 0xE0 \<longleftrightarrow> 224 \<le> unat c \<and> unat c < 232"
    and "c AND 0xF8 = 0xE8 \<longleftrightarrow> 232 \<le> unat c \<and> unat c < 240"
    and "c AND 0xF8 = 0xF0 \<longleftrightarrow> 240 \<le> unat c \<and> unat c < 248"
  by (auto simp: word_nat_iff word_nat)

lemma utf8character_eq:
  "utf8character CODEPOINT str =
    (let c = byte_at str 0; d = byte_at str 1; e = byte_at str 2; f = byte_at str 3; n = unat c in
     if 192 \<le> n \<and> n < 224 \<and> utf8_cont d then
       (2, if CODEPOINT \<noteq> 0 then Some (utf8_join2 c d) else None)
     else if 224 \<le> n \<and> n < 240 \<and> utf8_cont d \<and> utf8_cont e \<and>
        \<not> utf8_reject CODEPOINT (utf8_join3 c d e) then
       (3, if CODEPOINT \<noteq> 0 then Some (utf8_join3 c d e) else None)
     else if 240 \<le> n \<and> n < 248 \<and> utf8_cont d \<and> utf8_cont e \<and> utf8_cont f \<and>
        \<not> utf8_reject CODEPOINT (utf8_join4 c d e f) then
       (4, if CODEPOINT \<noteq> 0 then Some (utf8_join4 c d e f) else None)
     else utf8_one_byte CODEPOINT c)"
proof -
  let ?n = "unat (byte_at str 0)"
  have k: "byte_at str 0 < 0xc0 \<longleftrightarrow> ?n < 192" by (simp add: word_nat_iff)
  have b: "?n < 256" by (rule unat_u8_less)
  consider "?n < 192" | "192 \<le> ?n \<and> ?n < 224" | "224 \<le> ?n \<and> ?n < 240" | "240 \<le> ?n \<and> ?n < 248"
    | "248 \<le> ?n" by linarith
  then show ?thesis
    by cases (auto simp: utf8character_def utf8_one_byte_def Let_def lead_class k)
qed

lemma mod_offset: "x < m \<Longrightarrow> (m * k + x) mod m = x" for x m k :: nat
  by simp

lemma lead_mods:
  fixes x :: nat
  shows "x < 32 \<Longrightarrow> (192 + x) mod 32 = x" and "x < 16 \<Longrightarrow> (224 + x) mod 16 = x"
    and "x < 8 \<Longrightarrow> (240 + x) mod 8 = x" and "x < 64 \<Longrightarrow> (128 + x) mod 64 = x"
  using mod_offset [of x 32 6] mod_offset [of x 16 14] mod_offset [of x 8 30] mod_offset [of x 64 2]
  by simp_all

lemma utf8character_cases:
  fixes s m
  defines "c \<equiv> byte_at s 0" and "d \<equiv> byte_at s 1" and "e \<equiv> byte_at s 2" and "f \<equiv> byte_at s 3"
  obtains (one) "utf8character m s = utf8_one_byte m c"
    | (two) "192 \<le> unat c" "unat c < 224" "utf8_cont d"
        "utf8character m s = (2, if m \<noteq> 0 then Some (utf8_join2 c d) else None)"
    | (three) "224 \<le> unat c" "unat c < 240" "utf8_cont d" "utf8_cont e"
        "\<not> utf8_reject m (utf8_join3 c d e)"
        "utf8character m s = (3, if m \<noteq> 0 then Some (utf8_join3 c d e) else None)"
    | (four) "240 \<le> unat c" "unat c < 248" "utf8_cont d" "utf8_cont e" "utf8_cont f"
        "\<not> utf8_reject m (utf8_join4 c d e f)"
        "utf8character m s = (4, if m \<noteq> 0 then Some (utf8_join4 c d e f) else None)"
proof -
  note eq = utf8character_eq [of m s, unfolded Let_def, folded c_def d_def e_def f_def]
  let ?b = "224 \<le> unat c \<and> unat c < 240 \<and> utf8_cont d \<and> utf8_cont e \<and>
    \<not> utf8_reject m (utf8_join3 c d e)"
  show thesis
  proof (cases "192 \<le> unat c \<and> unat c < 224 \<and> utf8_cont d")
    case True
    then show ?thesis using eq by (intro two) simp_all
  next
    case False
    note F = this
    show ?thesis
    proof (cases ?b)
      case True
      then show ?thesis using eq by (intro three) simp_all
    next
      case False
      note eq' = eq [unfolded if_not_P [OF F] if_not_P [OF False]]
      show ?thesis
      proof (cases "240 \<le> unat c \<and> unat c < 248 \<and> utf8_cont d \<and> utf8_cont e \<and> utf8_cont f \<and>
          \<not> utf8_reject m (utf8_join4 c d e f)")
        case True
        then show ?thesis using eq' by (intro four) simp_all
      next
        case False
        then show ?thesis using eq' by (intro one) (simp only: if_not_P [OF False] if_False)
      qed
    qed
  qed
qed

lemma utf8_cont_made: "utf8_cont (ucast (0x80 + (x AND 0x3F)))" for x :: u32
  by (simp only: utf8_cont_iff unat_cont_byte) simp

lemmas utf8_decode_eqs = utf8_one_byte_def utf8codepoint_def utf8_width_def utf8_value_def utf8character_eq Let_def
  utf8_cont_made utf8_reject_def

lemma decode_encode_2:
  assumes "128 \<le> unat u" "unat u < 2048"
  shows "utf8codepoint (utf8encode1 u @ t) = (length (utf8encode1 u), u)"
proof -
  define n where "n = unat u"
  have bound: "128 \<le> n" "n < 2048" using assms by (simp_all add: n_def)
  define q r where "q = n div 64" and "r = n mod 64"
  have qr: "n = q * 64 + r" "r < 64" "q < 32" using bound by (auto simp: q_def r_def)
  have c: "unat (ucast (0xC0 + drop_bit 6 u) :: u8) = 192 + q"
    using unat_lead_byte [of 192 u 6] bound by (simp add: n_def q_def)
  have d: "unat (ucast (0x80 + (u AND 0x3F)) :: u8) = 128 + r"
    by (simp only: unat_cont_byte r_def n_def)
  have "unat (utf8_join2 (ucast (0xC0 + drop_bit 6 u)) (ucast (0x80 + (u AND 0x3F)))) = n"
    using qr by (simp only: unat_join2 c d) (simp add: lead_mods)
  then have j: "utf8_join2 (ucast (0xC0 + drop_bit 6 u)) (ucast (0x80 + (u AND 0x3F))) = u"
    by (simp add: word_unat_eq_iff n_def)
  have e: "utf8encode1 u = [ucast (0xC0 + drop_bit 6 u), ucast (0x80 + (u AND 0x3F))]"
    using bound by (simp add: utf8encode1_def word_nat_iff n_def)
  show ?thesis
    unfolding e using qr
    by (simp add: utf8_decode_eqs c j)
qed

lemma decode_encode_3:
  assumes "2048 \<le> unat u" "unat u < 65536"
  shows "utf8codepoint (utf8encode1 u @ t) = (length (utf8encode1 u), u)"
proof -
  define n where "n = unat u"
  have bound: "2048 \<le> n" "n < 65536" using assms by (simp_all add: n_def)
  define q r s where "q = n div 4096" and "r = n div 64 mod 64" and "s = n mod 64"
  have "n div 64 = q * 64 + r"
    using div_mult_mod_eq [of "n div 64" 64] by (simp add: q_def r_def flip: div_mult2_eq)
  then have n: "n = q * 4096 + r * 64 + s" using div_mult_mod_eq [of n 64] by (simp add: s_def)
  have qr: "r < 64" "s < 64" "q < 16" using bound by (auto simp: q_def r_def s_def)
  have c: "unat (ucast (0xE0 + drop_bit 12 u) :: u8) = 224 + q"
    using unat_lead_byte [of 224 u 12] bound by (simp add: n_def q_def)
  have d: "unat (ucast (0x80 + (drop_bit 6 u AND 0x3F)) :: u8) = 128 + r"
    by (simp only: unat_cont_byte r_def n_def unat_drop_bit_div) simp
  have e: "unat (ucast (0x80 + (u AND 0x3F)) :: u8) = 128 + s"
    by (simp only: unat_cont_byte s_def n_def)
  have "unat (utf8_join3 (ucast (0xE0 + drop_bit 12 u)) (ucast (0x80 + (drop_bit 6 u AND 0x3F)))
      (ucast (0x80 + (u AND 0x3F)))) = n"
    using qr by (simp only: unat_join3 c d e) (simp add: lead_mods n)
  then have j: "utf8_join3 (ucast (0xE0 + drop_bit 12 u)) (ucast (0x80 + (drop_bit 6 u AND 0x3F)))
      (ucast (0x80 + (u AND 0x3F))) = u"
    by (simp add: word_unat_eq_iff n_def)
  have enc: "utf8encode1 u = [ucast (0xE0 + drop_bit 12 u), ucast (0x80 + (drop_bit 6 u AND 0x3F)),
      ucast (0x80 + (u AND 0x3F))]"
    using bound by (simp add: utf8encode1_def word_nat_iff n_def)
  show ?thesis
    unfolding enc using qr
    by (simp add: utf8_decode_eqs c j)
qed

lemma decode_encode_4:
  assumes "65536 \<le> unat u" "unat u \<le> 1114111"
  shows "utf8codepoint (utf8encode1 u @ t) = (length (utf8encode1 u), u)"
proof -
  define n where "n = unat u"
  have bound: "65536 \<le> n" "n \<le> 1114111" using assms by (simp_all add: n_def)
  define q r s v where "q = n div 262144" and "r = n div 4096 mod 64" and "s = n div 64 mod 64"
    and "v = n mod 64"
  have "n div 4096 = q * 64 + r"
    using div_mult_mod_eq [of "n div 4096" 64] by (simp add: q_def r_def flip: div_mult2_eq)
  then have "n div 64 = (q * 64 + r) * 64 + s"
    using div_mult_mod_eq [of "n div 64" 64] by (simp add: s_def flip: div_mult2_eq)
  then have n: "n = q * 262144 + r * 4096 + s * 64 + v"
    using div_mult_mod_eq [of n 64] by (simp add: v_def)
  have qr: "r < 64" "s < 64" "v < 64" "q < 8" using bound by (auto simp: q_def r_def s_def v_def)
  have c: "unat (ucast (0xF0 + drop_bit 18 u) :: u8) = 240 + q"
    using unat_lead_byte [of 240 u 18] bound by (simp add: n_def q_def)
  have d: "unat (ucast (0x80 + (drop_bit 12 u AND 0x3F)) :: u8) = 128 + r"
    by (simp only: unat_cont_byte r_def n_def unat_drop_bit_div) simp
  have e: "unat (ucast (0x80 + (drop_bit 6 u AND 0x3F)) :: u8) = 128 + s"
    by (simp only: unat_cont_byte s_def n_def unat_drop_bit_div) simp
  have f: "unat (ucast (0x80 + (u AND 0x3F)) :: u8) = 128 + v"
    by (simp only: unat_cont_byte v_def n_def)
  have "unat (utf8_join4 (ucast (0xF0 + drop_bit 18 u)) (ucast (0x80 + (drop_bit 12 u AND 0x3F)))
      (ucast (0x80 + (drop_bit 6 u AND 0x3F))) (ucast (0x80 + (u AND 0x3F)))) = n"
    using qr by (simp only: unat_join4 c d e f) (simp add: lead_mods n)
  then have j: "utf8_join4 (ucast (0xF0 + drop_bit 18 u)) (ucast (0x80 + (drop_bit 12 u AND 0x3F)))
      (ucast (0x80 + (drop_bit 6 u AND 0x3F))) (ucast (0x80 + (u AND 0x3F))) = u"
    by (simp add: word_unat_eq_iff n_def)
  have enc: "utf8encode1 u = [ucast (0xF0 + drop_bit 18 u), ucast (0x80 + (drop_bit 12 u AND 0x3F)),
      ucast (0x80 + (drop_bit 6 u AND 0x3F)), ucast (0x80 + (u AND 0x3F))]"
    using bound by (simp add: utf8encode1_def word_nat_iff n_def)
  show ?thesis
    unfolding enc using qr
    by (simp add: utf8_decode_eqs c j)
qed

lemma decode_encode1:
  assumes "u \<le> 0x10FFFF"
  shows "utf8codepoint (utf8encode1 u @ t) = (length (utf8encode1 u), u)"
proof -
  have u: "unat u \<le> 1114111" using assms by (simp add: word_nat_iff)
  consider "unat u < 128" | "unat u \<ge> 128" "unat u < 2048" | "unat u \<ge> 2048" "unat u < 65536"
    | "unat u \<ge> 65536" by linarith
  then show ?thesis
  proof cases
    case 1
    then show ?thesis
      by (simp add: utf8_decode_eqs utf8encode1_def word_nat_iff word_nat)
  qed (use u decode_encode_2 decode_encode_3 decode_encode_4 in blast)+
qed


subsection \<open>Decoding inverts encoding\<close>

lemma utf8encode1_nonempty: "u \<le> 0x10FFFF \<Longrightarrow> utf8encode1 u \<noteq> []"
  by (auto simp: utf8encode1_def word_nat_iff)

lemma decode_encode_list:
  "list_all (\<lambda>u. u \<le> 0x10FFFF) us \<Longrightarrow> utf8_to_unicode (utf8encode us) = us"
proof (induction us)
  case Nil
  show ?case by (simp add: utf8encode_def)
next
  case (Cons u us)
  have cp: "utf8codepoint (utf8encode1 u @ utf8encode us) = (length (utf8encode1 u), u)"
    using Cons.prems by (intro decode_encode1) simp
  have "utf8encode (u # us) = utf8encode1 u @ utf8encode us"
    by (simp add: utf8encode_def)
  moreover have "utf8encode1 u @ utf8encode us \<noteq> []"
    using Cons.prems utf8encode1_nonempty by simp
  ultimately show ?case
    using Cons by (subst utf8_to_unicode.simps) (simp add: cp del: utf8_to_unicode.simps)
qed

declare utf8len.simps [simp del] utf8len_cstr.simps [simp del] utf8_to_unicode.simps [simp del]
  utf8_to_unicode_cstr.simps [simp del] encodefs_loop.simps [simp del] decodefs_loop.simps [simp del]
  displayfs_loop.simps [simp del]

text \<open>All modes below 2 consume the same number of bytes.\<close>

lemma utf8skip_width: "utf8skip str = fst (utf8codepoint str)"
  by (simp add: utf8skip_def utf8codepoint_def utf8_defs utf8_reject_def)

lemma utf8len_eq: "utf8len str = length (utf8_to_unicode str)"
proof (induction str rule: utf8len.induct)
  case (1 str)
  show ?case
  proof (cases "str = []")
    case False
    with 1 show ?thesis
      by (simp add: utf8len.simps [of str] utf8_to_unicode.simps [of str] utf8skip_width)
  qed (simp add: utf8len.simps utf8_to_unicode.simps)
qed

lemma utf8len_le: "utf8len str \<le> length str"
proof (induction str rule: utf8len.induct)
  case (1 str)
  show ?case
  proof (cases "str = []")
    case False
    have "utf8skip str \<le> length str" using False by (simp add: utf8skip_def utf8_width_le_length)
    with 1 False utf8skip_pos [of str] show ?thesis
      by (simp add: utf8len.simps [of str])
  qed (simp add: utf8len.simps)
qed


text \<open>A decoder step looks past a byte only when that byte is not NUL.\<close>

lemma utf8character_c_str:
  assumes "byte_at s 0 \<noteq> 0"
  shows "utf8character m (c_str s) = utf8character m s"
proof -
  obtain c t where s: "s = c # t" "c \<noteq> 0" using assms by (cases s) auto
  show ?thesis
  proof (cases "byte_at t 0 = 0")
    case True
    then show ?thesis using s by (cases t) (simp_all add: utf8character_eq Let_def)
  next
    case False
    then obtain d t' where t: "t = d # t'" "d \<noteq> 0" by (cases t) auto
    show ?thesis
    proof (cases "byte_at t' 0 = 0")
      case True
      then show ?thesis using s t by (cases t') (simp_all add: utf8character_eq Let_def)
    next
      case False
      then obtain e t'' where "t' = e # t''" "e \<noteq> 0" by (cases t') auto
      then show ?thesis using s t by (cases t'') (auto simp add: utf8character_eq Let_def)
    qed
  qed
qed

text \<open>The bytes a step consumes from a string that does not start with NUL are not NUL.\<close>

lemma utf8_take_nonzero:
  assumes "byte_at s 0 \<noteq> 0"
  shows "0 \<notin> set (take (utf8_width m s) s)"
proof -
  obtain c t where s: "s = c # t" "c \<noteq> 0" using assms by (cases s) auto
  note conts = utf8_cont_nonzero cont_at_length
  show ?thesis
  proof (cases rule: utf8character_cases [of m s])
    case one
    then show ?thesis using s by (simp add: utf8_width_def utf8_one_byte_def)
  next
    case two
    then obtain d u where "t = d # u" "d \<noteq> 0"
      using s conts(2) [of s 1] by (cases t) (auto simp: conts(1))
    then show ?thesis using s two by (simp add: utf8_width_def numeral_eq_Suc)
  next
    case three
    then obtain d e u where "t = d # e # u" "d \<noteq> 0" "e \<noteq> 0"
      using s by (cases t; cases "tl t") (auto simp: conts(1))
    then show ?thesis using s three by (simp add: utf8_width_def numeral_eq_Suc)
  next
    case four
    then obtain d e f u where "t = d # e # f # u" "d \<noteq> 0" "e \<noteq> 0" "f \<noteq> 0"
      using s by (cases t; cases "tl t"; cases "tl (tl t)") (auto simp: conts(1))
    then show ?thesis using s four by (simp add: utf8_width_def numeral_eq_Suc)
  qed
qed

lemma c_str_drop:
  assumes "byte_at s 0 \<noteq> 0"
  shows "c_str (drop (utf8_width m s) s) = drop (utf8_width m s) (c_str s)"
proof -
  have "c_str (take (utf8_width m s) s @ drop (utf8_width m s) s) =
      take (utf8_width m s) s @ c_str (drop (utf8_width m s) s)"
    using utf8_take_nonzero [OF assms] by (simp only: c_str_append if_False)
  moreover have "s \<noteq> []" using assms by auto
  then have "length (take (utf8_width m s) s) = utf8_width m s"
    by (simp add: utf8_width_le_length min_absorb2)
  ultimately show ?thesis
    by (metis append_eq_conv_conj append_take_drop_id)
qed

lemma utf8_to_unicode_cstr_eq: "utf8_to_unicode_cstr s = utf8_to_unicode (c_str s)"
proof (induction s rule: utf8_to_unicode_cstr.induct)
  case (1 s)
  show ?case
  proof (cases "byte_at s 0 = 0")
    case True
    then show ?thesis
      by (cases s) (simp_all add: utf8_to_unicode_cstr.simps utf8_to_unicode.simps)
  next
    case False
    then have ne: "c_str s \<noteq> []" by (cases s) auto
    have "utf8codepoint (c_str s) = utf8codepoint s"
      by (simp add: utf8codepoint_def utf8_width_def utf8_value_def utf8character_c_str False)
    then show ?thesis
      using 1 False ne c_str_drop [OF False, of 1]
      by (simp add: utf8_to_unicode_cstr.simps [of s] utf8_to_unicode.simps [of "c_str s"])
        (simp add: utf8codepoint_def)
  qed
qed

lemma utf8len_cstr_eq: "utf8len_cstr s = utf8len (c_str s)"
proof -
  have "utf8len_cstr s = length (utf8_to_unicode_cstr s)"
  proof (induction s rule: utf8len_cstr.induct)
    case (1 s)
    then show ?case
      by (cases "byte_at s 0 = 0")
        (simp_all add: utf8len_cstr.simps [of s] utf8_to_unicode_cstr.simps [of s] utf8skip_width)
  qed
  then show ?thesis by (simp add: utf8_to_unicode_cstr_eq utf8len_eq)
qed

lemma utf8decode_eq: "utf8decode s = utf8_to_unicode (c_str s)"
  by (simp add: utf8decode_def Let_def utf8_to_unicode_cstr_eq)

subsection \<open>Escaped file names\<close>


lemma escape_one_byte:
  "c \<ge> 0x80 \<Longrightarrow> is_escape_code (0xef80 - 0x80 + ucast c)" for c :: u8
  using unat_u8_less [of c] by (simp add: is_escape_code_def word_nat_iff word_nat)

lemma plain_one_byte: "c < 0x80 \<Longrightarrow> \<not> is_escape_code (ucast c)" for c :: u8
  by (simp add: is_escape_code_def word_nat_iff word_nat)

lemma not_escape_join2: "\<not> is_escape_code (utf8_join2 c d)"
proof -
  have "unat c mod 32 < 32" "unat d mod 64 < 64" by simp_all
  then show ?thesis by (simp only: is_escape_code_def word_nat_iff unat_join2) simp
qed

lemma mode3_cases:
  assumes "byte_at s 0 \<noteq> 0"
  obtains (escaped) "byte_at s 0 \<ge> 0x80" "utf8_width 3 s = 1"
      "utf8_value 3 s = 0xef80 - 0x80 + ucast (byte_at s 0)" "is_escape_code (utf8_value 3 s)"
    | (kept) "\<not> is_escape_code (utf8_value 3 s)"
      "\<And>t. utf8_width 1 (take (utf8_width 3 s) s @ t) = utf8_width 3 s"
      "\<And>t. utf8_value 1 (take (utf8_width 3 s) s @ t) = utf8_value 3 s"
proof (cases rule: utf8character_cases [of 3 s])
  case one
  show ?thesis
  proof (cases "byte_at s 0 \<ge> 0x80")
    case True
    with one show ?thesis
      by (intro escaped) (simp_all add: utf8_width_def utf8_value_def utf8_one_byte_def
          escape_one_byte [simplified])
  next
    case False
    obtain c u where "s = c # u" using assms by (cases s) auto
    with one False show ?thesis
      by (intro kept) (simp_all add: utf8_width_def utf8_value_def utf8_one_byte_def plain_one_byte
          utf8character_eq Let_def word_nat_iff)
  qed
next
  case two
  then obtain c d u where "s = c # d # u"
    using assms by (cases s; cases "tl s") auto
  with two show ?thesis
    by (intro kept) (simp_all add: utf8_width_def utf8_value_def not_escape_join2 utf8character_eq
        Let_def numeral_eq_Suc)
next
  case three
  then obtain c d e u where "s = c # d # e # u"
    using assms by (cases s; cases "tl s"; cases "tl (tl s)") auto
  with three show ?thesis
    by (intro kept) (simp_all add: utf8_width_def utf8_value_def utf8_reject_def is_escape_code_def
        utf8character_eq Let_def numeral_eq_Suc)
next
  case four
  then obtain c d e f u where "s = c # d # e # f # u"
    using assms by (cases s; cases "tl s"; cases "tl (tl s)"; cases "tl (tl (tl s))") auto
  with four show ?thesis
    by (intro kept) (simp_all add: utf8_width_def utf8_value_def utf8_reject_def is_escape_code_def
        utf8character_eq Let_def numeral_eq_Suc)
qed


text \<open>The escape of a byte decodes to the code point it was made of.\<close>

lemma decode_escape:
  assumes "is_escape_code u"
  shows "utf8_width 1 (utf8encode [u] @ t) = length (utf8encode [u])"
    and "utf8_value 1 (utf8encode [u] @ t) = u"
    and "byte_at (utf8encode [u] @ t) 0 \<noteq> 0"
proof -
  have u: "u \<le> 0x10FFFF" using assms by (simp add: is_escape_code_def word_nat_iff)
  show "utf8_width 1 (utf8encode [u] @ t) = length (utf8encode [u])"
    "utf8_value 1 (utf8encode [u] @ t) = u"
    using decode_encode1 [OF u, of t] by (simp_all add: utf8codepoint_def utf8encode_def)
  have "61312 \<le> unat u" "unat u \<le> 61439" using assms by (simp_all add: is_escape_code_def word_nat_iff)
  then have "unat (ucast (0xE0 + drop_bit 12 u) :: u8) = 224 + unat u div 4096"
    using unat_lead_byte [of 224 u 12] by simp
  then have "(ucast (0xE0 + drop_bit 12 u) :: u8) \<noteq> 0" by (auto simp: word_unat_eq_iff)
  then show "byte_at (utf8encode [u] @ t) 0 \<noteq> 0"
    using \<open>61312 \<le> unat u\<close> \<open>unat u \<le> 61439\<close>
    by (simp add: utf8encode_def utf8encode1_def word_nat_iff)
qed

lemma ucast_u8_u32 [simp]: "ucast (ucast c :: u32) = c" for c :: u8
proof -
  have "unat c mod 4294967296 = unat c" "unat c mod 256 = unat c"
    by (rule mod_less, use unat_u8_less [of c] in linarith)+
  then show ?thesis by (simp only: word_unat_eq_iff word_nat) simp
qed

text \<open>\<open>decodefs\<close> undoes one chunk of \<open>encodefs\<close>, whatever follows.\<close>

lemma decode_chunk:
  assumes nz: "byte_at s 0 \<noteq> 0"
  defines "w \<equiv> utf8_width 3 s" and "u \<equiv> utf8_value 3 s"
  defines "chunk \<equiv> if is_escape_code u then utf8encode [u] else take w s"
  shows "decodefs_loop (chunk @ t) = take w s @ decodefs_loop t"
  using nz
proof (cases rule: mode3_cases)
  case escaped
  obtain c r where s: "s = c # r" using nz by (cases s) auto
  have ch: "chunk = utf8encode [u]" using escaped by (simp add: chunk_def u_def)
  have "decodefs_loop (chunk @ t) = ucast (u - (0xef80 - 0x80)) # decodefs_loop t"
    using escaped decode_escape [of u t]
    by (subst decodefs_loop.simps) (simp add: ch u_def Let_def)
  also have "ucast (u - (0xef80 - 0x80)) = c"
    using escaped(3) by (simp add: u_def s)
  finally show ?thesis using escaped by (simp add: w_def s)
next
  case kept
  have ch: "chunk = take w s" using kept by (simp add: chunk_def u_def)
  have "s \<noteq> []" using nz by auto
  then have l: "length (take w s) = w" by (simp add: w_def utf8_width_le_length min_absorb2)
  obtain c r where s: "s = c # r" "c \<noteq> 0" using nz by (cases s) auto
  have b: "byte_at (take w s @ t) 0 \<noteq> 0"
    using s utf8_width_pos [of 3 s] by (cases w) (simp_all add: w_def)
  have v: "utf8_width 1 (take w s @ t) = w" "\<not> is_escape_code (utf8_value 1 (take w s @ t))"
    using kept by (simp_all add: w_def u_def)
  have "decodefs_loop (take w s @ t) = take w (take w s @ t) @ decodefs_loop (drop w (take w s @ t))"
    using b v by (subst decodefs_loop.simps) (simp only: Let_def if_False)
  then show ?thesis using l by (simp add: ch)
qed

lemma decode_encodefs_loop: "decodefs_loop (encodefs_loop s) = c_str s"
proof (induction s rule: encodefs_loop.induct)
  case (1 s)
  show ?case
  proof (cases "byte_at s 0 = 0")
    case True
    then show ?thesis by (cases s) (simp_all add: encodefs_loop.simps decodefs_loop.simps)
  next
    case False
    let ?w = "utf8_width 3 s"
    have "decodefs_loop (encodefs_loop s) = take ?w s @ decodefs_loop (encodefs_loop (drop ?w s))"
      using decode_chunk [OF False] False by (simp add: encodefs_loop.simps [of s] Let_def)
    also have "\<dots> = take ?w s @ c_str (drop ?w s)" using 1 False by simp
    also have "\<dots> = c_str (take ?w s @ drop ?w s)"
      using utf8_take_nonzero [OF False, of 3] by (simp only: c_str_append if_False)
    finally show ?thesis by simp
  qed
qed


subsection \<open>NCNames\<close>

lemma ncname_le: "codepoint_is_ncname c \<Longrightarrow> c \<le> 0x10FFFF"
  by (auto simp: codepoint_is_ncname_def codepoint_is_namestartchar_def isalpha_u32_def word_nat_iff)

lemma ncname_underscore [simp]: "codepoint_is_ncname 0x5F" "codepoint_is_namestartchar 0x5F"
  by (simp_all add: codepoint_is_ncname_def codepoint_is_namestartchar_def)

lemma ncname_zero [simp]: "\<not> codepoint_is_ncname 0"
  by (simp add: codepoint_is_ncname_def codepoint_is_namestartchar_def isalpha_u32_def word_nat_iff)

lemma ncname_loop_all:
  "substitute = 0 \<or> codepoint_is_ncname substitute \<Longrightarrow>
   list_all codepoint_is_ncname (ncname_loop substitute cs)"
  by (induction substitute cs rule: ncname_loop.induct) auto

lemma ncname_loop_ident: "list_all codepoint_is_ncname cs \<Longrightarrow> ncname_loop substitute cs = cs"
  by (induction substitute cs rule: ncname_loop.induct) auto

lemma decode_ncname_list:
  "list_all codepoint_is_ncname cs \<Longrightarrow> utf8_to_unicode (utf8encode cs) = cs"
  by (rule decode_encode_list) (auto simp: list_all_iff intro: ncname_le)

lemma string_to_ncname_chars:
  assumes "substitute = 0 \<or> codepoint_is_ncname substitute"
  obtains cs where "string_to_ncname input substitute = utf8encode cs"
    "list_all codepoint_is_ncname cs" "cs \<noteq> [] \<Longrightarrow> codepoint_is_namestartchar (hd cs)"
proof -
  let ?u = "ncname_loop substitute (utf8_to_unicode input)"
  let ?cs = "if ?u \<noteq> [] \<and> \<not> codepoint_is_namestartchar (hd ?u) then 0x5F # ?u else ?u"
  show thesis
    using ncname_loop_all [OF assms, of "utf8_to_unicode input"]
    by (intro that [of ?cs]) (auto simp: string_to_ncname_def Let_def)
qed

subsection \<open>Properties\<close>

text \<open>
  C4: escaping a file name and unescaping it gives back its bytes (up to the NUL that ends it), for
  every byte string, valid UTF-8 or not.
\<close>

theorem decodefs_encodefs: "decodefs (encodefs fschars) = c_str fschars"
  by (simp add: decodefs_def encodefs_def decode_encodefs_loop)

text \<open>
  C10: decoding an encoded list of code points gives the list back, without the values above
  \<open>0x10FFFF\<close>, which the encoder drops.
\<close>

theorem utf8_roundtrip:
  "utf8_to_unicode (utf8encode codepoints) = filter (\<lambda>u. u \<le> 0x10FFFF) codepoints"
proof -
  have drop: "utf8encode1 u = []" if "\<not> u \<le> 0x10FFFF" for u
    using that by (auto simp: utf8encode1_def word_nat_iff)
  have "utf8encode codepoints = utf8encode (filter (\<lambda>u. u \<le> 0x10FFFF) codepoints)"
    by (induction codepoints) (auto simp: utf8encode_def drop)
  then show ?thesis by (simp add: decode_encode_list list_all_iff)
qed

text \<open>
  \<open>utf8len\<close> counts exactly the code points that decoding writes, for both string types, and
  never more than there are bytes, so the vector of \<open>utf8decode\<close> is never overrun.
\<close>

theorem utf8len_counts:
  "utf8len str = length (utf8_to_unicode str) \<and> utf8len str \<le> length str \<and>
   utf8len_cstr str = length (utf8decode str) \<and> length (utf8_to_unicode_cstr str) \<le> length str"
proof -
  have "utf8len (c_str str) \<le> length str"
    using utf8len_le [of "c_str str"] length_c_str [of str] by linarith
  then show ?thesis
    using utf8len_le [of str]
    by (simp add: utf8len_eq utf8len_cstr_eq utf8decode_eq utf8_to_unicode_cstr_eq)
qed

text \<open>
  \<open>string_to_ncname\<close> yields a string of name characters that starts with a name start
  character, and converting it again changes nothing.
\<close>

theorem string_to_ncname_is_ncname:
  assumes "substitute = 0 \<or> codepoint_is_ncname substitute"
  shows "string_is_ncname (string_to_ncname input substitute) \<and>
    (string_to_ncname input substitute \<noteq> [] \<longrightarrow>
      codepoint_is_namestartchar (hd (utf8_to_unicode (string_to_ncname input substitute)))) \<and>
    string_to_ncname (string_to_ncname input substitute) again = string_to_ncname input substitute"
proof -
  obtain cs where cs: "string_to_ncname input substitute = utf8encode cs"
    "list_all codepoint_is_ncname cs" "cs \<noteq> [] \<Longrightarrow> codepoint_is_namestartchar (hd cs)"
    using string_to_ncname_chars [OF assms, of input] by blast
  moreover have "cs = [] \<Longrightarrow> utf8encode cs = []" by (simp add: utf8encode_def)
  ultimately show ?thesis
    by (auto simp: string_is_ncname_def decode_ncname_list string_to_ncname_def [of "utf8encode cs"]
        ncname_loop_ident Let_def)
qed

theorem string_to_ncname_is_ncname_witness:
  "string_is_ncname (string_to_ncname [0x30, 0x61, 0x40, 0x62] 0x5F)"
  using string_to_ncname_is_ncname [of "0x5F" "[0x30, 0x61, 0x40, 0x62]" 0] by simp

text \<open>An overlong form of NUL is not escaped: the encoded name is then not valid UTF-8.\<close>

lemma encodefs_keeps_overlong: "encodefs [0xC0, 0x80] = [0xC0, 0x80]"
  by (simp add: encodefs_def encodefs_loop.simps utf8_defs utf8_cont_def utf8_join2_def
      is_escape_code_def)

text \<open>A digit at the start passes \<open>string_is_ncname\<close>, which tests every character alike.\<close>

lemma string_is_ncname_digit: "string_is_ncname [0x30, 0x61]"
  by (simp add: string_is_ncname_def utf8_to_unicode.simps utf8codepoint_def utf8_defs
      codepoint_is_ncname_def codepoint_is_namestartchar_def isalpha_u32_def)

end
