(* ===== verification/Pool.thy ===== *)
theory Pool
  imports Prelude
begin

section \<open>The contract of a block allocator\<close>

text \<open>
  What a client of an allocator relies on: a block it gets was free and is not free any more, and a
  block it gives back becomes free.  From these laws alone the locale proves that no sequence of
  allocations and releases ever hands out overlapping memory or loses any.  \<open>Memory\<close> interprets it
  on the arena of \<open>ase/memory.cc\<close>.
\<close>

datatype 'n pool_op = Allocate 'n | Free nat

text \<open>A run of a client that keeps the list of its live blocks and frees them by position.\<close>

fun run_pool ::
  "('p \<Rightarrow> 'n \<Rightarrow> ('b \<times> 'p) option) \<Rightarrow> ('p \<Rightarrow> 'b \<Rightarrow> 'p) \<Rightarrow> 'n pool_op list \<Rightarrow> 'p \<times> 'b list \<Rightarrow>
   'p \<times> 'b list" where
  "run_pool alloc release [] s = s"
| "run_pool alloc release (Allocate n # ops) (p, live) =
     (case alloc p n of
        None \<Rightarrow> run_pool alloc release ops (p, live)
      | Some (b, p') \<Rightarrow> run_pool alloc release ops (p', live @ [b]))"
| "run_pool alloc release (Free i # ops) (p, live) =
     (if i < length live
      then run_pool alloc release ops (release p (live ! i), erase_at i live)
      else run_pool alloc release ops (p, live))"

locale block_pool =
  fixes invar :: "'p \<Rightarrow> bool"
    and alloc :: "'p \<Rightarrow> 'n \<Rightarrow> ('b \<times> 'p) option"
    and release :: "'p \<Rightarrow> 'b \<Rightarrow> 'p"
    and free :: "'p \<Rightarrow> nat set"
    and region :: "'b \<Rightarrow> nat set"
    and valid :: "'p \<Rightarrow> 'b \<Rightarrow> bool"
    and admissible :: "'p \<Rightarrow> 'n \<Rightarrow> bool"
  assumes alloc_law: "invar p \<Longrightarrow> admissible p n \<Longrightarrow> alloc p n = Some (b, p') \<Longrightarrow>
      invar p' \<and> valid p b \<and> region b \<noteq> {} \<and> region b \<subseteq> free p \<and> free p' = free p - region b"
    and release_law: "invar p \<Longrightarrow> valid p b \<Longrightarrow> region b \<inter> free p = {} \<Longrightarrow>
      invar (release p b) \<and> free (release p b) = free p \<union> region b"
    and alloc_stable: "alloc p n = Some (b, p') \<Longrightarrow> valid p' c = valid p c \<and> admissible p' m = admissible p m"
    and release_stable: "valid (release p b) c = valid p c \<and> admissible (release p b) m = admissible p m"
begin

definition live_ok :: "nat set \<Rightarrow> 'p \<times> 'b list \<Rightarrow> bool" where
  "live_ok area s \<longleftrightarrow>
    (case s of (p, live) \<Rightarrow> invar p \<and> (\<forall>b \<in> set live. valid p b \<and> region b \<inter> free p = {}) \<and>
       sorted_wrt (\<lambda>b c. region b \<inter> region c = {}) live \<and>
       free p \<union> (\<Union>b \<in> set live. region b) = area)"

lemma live_ok_alloc:
  assumes "live_ok area (p, live)" and "admissible p n" and "alloc p n = Some (b, p')"
  shows "live_ok area (p', live @ [b])"
proof -
  have "invar p" using assms(1) by (simp add: live_ok_def)
  note law = alloc_law [OF this assms(2,3)]
  have "\<forall>c \<in> set live. region c \<inter> region b = {} \<and> region c \<inter> free p' = {}"
    using law assms(1) by (simp add: live_ok_def) blast
  then show ?thesis
    using law assms(1) alloc_stable [OF assms(3)] by (auto simp: live_ok_def sorted_wrt_append)
qed

lemma live_ok_release:
  assumes "live_ok area (p, live)" and i: "i < length live"
  shows "live_ok area (release p (live ! i), erase_at i live)"
proof -
  define xs b ys where "xs = take i live" and "b = live ! i" and "ys = drop (Suc i) live"
  have live: "live = xs @ b # ys" using id_take_nth_drop [OF i] by (simp add: xs_def b_def ys_def)
  have e: "erase_at i live = xs @ ys" by (simp add: erase_at_def xs_def ys_def)
  have "live_ok area (p, xs @ b # ys)" using assms(1) live by simp
  then have "live_ok area (release p b, xs @ ys)"
    using release_law [of p b] release_stable [of p b]
    by (auto simp: live_ok_def sorted_wrt_append)
  then show ?thesis by (simp add: e b_def)
qed

lemma run_live_ok:
  assumes "live_ok area (p, live)" and "\<forall>n. Allocate n \<in> set ops \<longrightarrow> admissible p n"
  shows "live_ok area (run_pool alloc release ops (p, live))"
  using assms
proof (induction ops arbitrary: p live)
  case (Cons op ops)
  show ?case
  proof (cases op)
    case (Allocate n)
    then show ?thesis
      using Cons.prems Cons.IH live_ok_alloc [OF Cons.prems(1), of n] alloc_stable [of p n]
      by (auto split: option.splits)
  next
    case (Free i)
    then show ?thesis
      using Cons.prems Cons.IH live_ok_release [OF Cons.prems(1), of i] release_stable by auto
  qed
qed simp

lemma run_live_ok_disjoint:
  assumes "invar p" and "\<forall>n. Allocate n \<in> set ops \<longrightarrow> admissible p n"
    and "run_pool alloc release ops (p, []) = (p', live)"
  shows "sorted_wrt (\<lambda>b c. region b \<inter> region c = {}) live"
    and "free p' \<union> (\<Union>b \<in> set live. region b) = free p"
    and "\<And>b. b \<in> set live \<Longrightarrow> region b \<inter> free p' = {}"
    and "invar p'"
  using run_live_ok [of "free p" p "[]" ops] assms by (auto simp: live_ok_def)

end

end
