(* ===== verification/Memory.thy ===== *)
theory Memory
  imports Pool
begin

section \<open>The arena allocator and the string table (ase/memory.cc, ase/memory.hh)\<close>

text \<open>
  \<open>SequentialFitAllocator\<close> keeps a free list of \<open>Extent32\<close> over one huge page; \<open>Arena\<close> wraps it
  with addresses, \<open>fast_mem_alloc\<close>/\<open>fast_mem_free\<close> keep a vector of arenas and a hash table of the
  blocks handed out, and \<open>CStringTable\<close> interns strings.  Extents keep their 32 bit width; the
  memory contents are a function from offsets to bytes, so that the zeroing in \<open>Extent32::zero\<close> is
  visible.  \<open>assert_return\<close> returns from the function as it does in the code.  The huge page itself
  (\<open>mmap\<close>, \<open>madvise\<close>) is a parameter: the base address and size it returned.
\<close>

subsection \<open>Extents and the free list\<close>

record Extent32 =
  ext_start :: u32
  ext_length :: u32

definition MEM_ALIGN :: "nat \<Rightarrow> nat \<Rightarrow> nat" where
  "MEM_ALIGN addr alignment = alignment * ((addr + alignment - 1) div alignment)"

record SequentialFitAllocator =
  blob_mem :: nat
  blob_size :: nat
  blob_bytes :: "nat \<Rightarrow> u8"
  mem_alignment :: u32
  extents :: "Extent32 list"

definition extent_zero :: "Extent32 \<Rightarrow> (nat \<Rightarrow> u8) \<Rightarrow> (nat \<Rightarrow> u8)" where
  "extent_zero ext area =
     (\<lambda>i. if unat (ext_start ext) \<le> i \<and> i < unat (ext_start ext) + unat (ext_length ext)
          then 0 else area i)"

definition fit_sum :: "SequentialFitAllocator \<Rightarrow> nat" where
  "fit_sum a = sum_list (map (\<lambda>b. unat (ext_length b)) (extents a))"

text \<open>
  The scan of \<open>release_ext\<close>: the index of a listed extent that overlaps, of one that starts where
  \<open>ext\<close> ends (\<open>before\<close>) and of one that ends where it starts (\<open>after\<close>), leaving the loop once both
  neighbours are known.  \<open>check\<close> is the macro \<open>CHECK_FREE_OVERLAPS\<close>.
\<close>

record release_scan =
  overlaps_existing :: "nat option"
  before_idx :: "nat option"
  after_idx :: "nat option"

fun release_loop :: "bool \<Rightarrow> Extent32 \<Rightarrow> Extent32 list \<Rightarrow> nat \<Rightarrow> release_scan \<Rightarrow> release_scan" where
  "release_loop check ext [] i r = r"
| "release_loop check ext (e # es) i r =
     (if ext_start ext = ext_start e + ext_length e then
        (let r' = r\<lparr>after_idx := Some i\<rparr>
         in if before_idx r \<noteq> None then r' else release_loop check ext es (Suc i) r')
      else if ext_start ext + ext_length ext = ext_start e then
        (let r' = r\<lparr>before_idx := Some i\<rparr>
         in if after_idx r \<noteq> None then r' else release_loop check ext es (Suc i) r')
      else if check \<and> ext_start ext + ext_length ext > ext_start e \<and>
              ext_start ext < ext_start e + ext_length e then
        release_loop check ext es (Suc i) (r\<lparr>overlaps_existing := Some i\<rparr>)
      else release_loop check ext es (Suc i) r)"

definition grow_extent :: "u32 \<Rightarrow> Extent32 \<Rightarrow> Extent32" where
  "grow_extent n e = e\<lparr>ext_length := ext_length e + n\<rparr>"

definition merge_extents :: "Extent32 \<Rightarrow> release_scan \<Rightarrow> Extent32 list \<Rightarrow> Extent32 list" where
  "merge_extents ext r es =
    (case after_idx r of
       Some after \<Rightarrow>
         (let es1 = es[after := grow_extent (ext_length ext) (es ! after)] in
          case before_idx r of
            Some before \<Rightarrow>
              erase_at before (es1[after := grow_extent (ext_length (es1 ! before)) (es1 ! after)])
          | None \<Rightarrow> es1)
     | None \<Rightarrow>
        (case before_idx r of
           Some before \<Rightarrow>
             es[before := (grow_extent (ext_length ext) (es ! before))\<lparr>ext_start := ext_start ext\<rparr>]
         | None \<Rightarrow> es @ [ext]))"

definition release_ext :: "bool \<Rightarrow> SequentialFitAllocator \<Rightarrow> Extent32 \<Rightarrow> SequentialFitAllocator" where
  "release_ext check a ext =
    (if \<not> ext_length ext > 0 then a
     else if \<not> unat (ext_start ext + ext_length ext) \<le> blob_size a then a
     else
       let a1 = a\<lparr>blob_bytes := extent_zero ext (blob_bytes a)\<rparr>;
           r = release_loop check ext (extents a1) 0
                 \<lparr>overlaps_existing = None, before_idx = None, after_idx = None\<rparr>
       in if overlaps_existing r \<noteq> None then a1
          else a1\<lparr>extents := merge_extents ext r (extents a1)\<rparr>)"

text \<open>The loop of \<open>best_fit\<close> visits the recent blocks at the end first.\<close>

fun best_fit_loop :: "Extent32 list \<Rightarrow> nat \<Rightarrow> nat \<Rightarrow> nat option \<Rightarrow> nat option" where
  "best_fit_loop es len 0 candidate = candidate"
| "best_fit_loop es len (Suc i) candidate =
     (if len > unat (ext_length (es ! i)) then best_fit_loop es len i candidate
      else if len = unat (ext_length (es ! i)) then Some i
      else best_fit_loop es len i
        (case candidate of None \<Rightarrow> Some i
         | Some c \<Rightarrow>
             if ext_length (es ! i) < ext_length (es ! c) \<or>
                (ext_length (es ! i) = ext_length (es ! c) \<and> ext_start (es ! i) < ext_start (es ! c))
             then Some i else Some c))"

definition best_fit :: "SequentialFitAllocator \<Rightarrow> nat \<Rightarrow> nat option" where
  "best_fit a len = best_fit_loop (extents a) len (length (extents a)) None"

definition aligned_length :: "SequentialFitAllocator \<Rightarrow> Extent32 \<Rightarrow> u32" where
  "aligned_length a ext = of_nat (MEM_ALIGN (unat (ext_length ext)) (unat (mem_alignment a)))"

definition alloc_ext ::
  "SequentialFitAllocator \<Rightarrow> Extent32 \<Rightarrow> bool \<times> Extent32 \<times> SequentialFitAllocator" where
  "alloc_ext a ext =
    (if ext_start ext \<noteq> 0 then (False, ext, a)
     else if \<not> ext_length ext > 0 then (False, ext, a)
     else let n = aligned_length a ext in
       case best_fit a (unat n) of
         None \<Rightarrow> (False, ext, a)
       | Some c \<Rightarrow>
           let e = extents a ! c; ext' = \<lparr>ext_start = ext_start e, ext_length = n\<rparr> in
           if ext_length e > n then
             (True, ext', a\<lparr>extents := (extents a)
                [c := \<lparr>ext_start = ext_start e + n, ext_length = ext_length e - n\<rparr>]\<rparr>)
           else (True, ext', a\<lparr>extents := swap_erase c (extents a)\<rparr>))"

text \<open>
  \<open>HugePage::alignment\<close> is the lowest set bit of the address, found with \<open>__builtin_ctz\<close> on its low
  32 bits (a count of 32 stands for the undefined result of a zero low half).
\<close>

fun ctz_loop :: "nat \<Rightarrow> nat \<Rightarrow> nat" where
  "ctz_loop 0 n = 0"
| "ctz_loop (Suc k) n = (if odd n then 0 else Suc (ctz_loop k (n div 2)))"

definition blob_alignment :: "nat \<Rightarrow> nat" where
  "blob_alignment start = (if start \<noteq> 0 then 2 ^ ctz_loop 32 (start mod 2 ^ 32) else 0)"

text \<open>
  The constructor: its checks return early and leave the free list empty; \<open>newblob\<close> is the address,
  the size and the contents of the page.
\<close>

definition new_allocator ::
  "bool \<Rightarrow> nat \<times> nat \<times> (nat \<Rightarrow> u8) \<Rightarrow> u32 \<Rightarrow> SequentialFitAllocator" where
  "new_allocator check newblob alignment =
    (case newblob of (mem, sz, cont) \<Rightarrow>
      let a = \<lparr>blob_mem = mem, blob_size = sz, blob_bytes = cont, mem_alignment = alignment,
               extents = []\<rparr> in
      if \<not> sz > 0 then a
      else if \<not> unat alignment \<le> blob_alignment mem then a
      else if mem mod blob_alignment mem \<noteq> 0 then a
      else if \<not> sz \<le> 4294967295 then a
      else let area = \<lparr>ext_start = 0, ext_length = of_nat sz\<rparr>;
               a1 = a\<lparr>blob_bytes := extent_zero area (blob_bytes a)\<rparr>
           in release_ext check a1 area)"

subsection \<open>Arenas\<close>

text \<open>
  \<open>Arena\<close> is a shared pointer to an allocator; \<open>None\<close> is the null pointer of \<open>EmptyArena\<close>.
  A block is its address and length; the address 0 is \<open>nullptr\<close>.
\<close>

record Block =
  block_start :: nat
  block_length :: u32

definition zeroblock :: Block where
  "zeroblock = \<lparr>block_start = 0, block_length = 0\<rparr>"

definition arena_location :: "SequentialFitAllocator option \<Rightarrow> nat" where
  "arena_location fma = (case fma of Some a \<Rightarrow> blob_mem a | None \<Rightarrow> 0)"

definition arena_reserved :: "SequentialFitAllocator option \<Rightarrow> nat" where
  "arena_reserved fma = (case fma of Some a \<Rightarrow> blob_size a | None \<Rightarrow> 0)"

definition arena_alignment :: "SequentialFitAllocator option \<Rightarrow> nat" where
  "arena_alignment fma = (case fma of Some a \<Rightarrow> unat (mem_alignment a) | None \<Rightarrow> 0)"

definition arena_allocate_nothrow ::
  "SequentialFitAllocator option \<Rightarrow> u32 \<Rightarrow> Block \<times> SequentialFitAllocator option" where
  "arena_allocate_nothrow fma len =
    (case fma of
       None \<Rightarrow> (zeroblock, fma)
     | Some a \<Rightarrow>
         if \<not> len > 0 then (zeroblock, fma)
         else (case alloc_ext a \<lparr>ext_start = 0, ext_length = len\<rparr> of
             (ok, ext, a') \<Rightarrow>
               if ok then
                 (\<lparr>block_start = blob_mem a + unat (ext_start ext), block_length = ext_length ext\<rparr>,
                  Some a')
               else (zeroblock, fma)))"

datatype mem_error = bad_alloc | fatal_error string | out_of_range

definition arena_allocate ::
  "SequentialFitAllocator option \<Rightarrow> u32 \<Rightarrow> mem_error + Block \<times> SequentialFitAllocator option" where
  "arena_allocate fma len =
    (case arena_allocate_nothrow fma len of
       (ab, fma') \<Rightarrow> if block_start ab = 0 then Inl bad_alloc else Inr (ab, fma'))"

definition arena_release ::
  "bool \<Rightarrow> SequentialFitAllocator option \<Rightarrow> Block \<Rightarrow> SequentialFitAllocator option" where
  "arena_release check fma ab =
    (case fma of
       None \<Rightarrow> fma
     | Some a \<Rightarrow>
         if \<not> block_start ab \<ge> blob_mem a then fma
         else if \<not> block_start ab < blob_mem a + blob_size a then fma
         else if block_start ab mod arena_alignment fma \<noteq> 0 then fma
         else if unat (block_length ab) mod arena_alignment fma \<noteq> 0 then fma
         else let block_offset = block_start ab - blob_mem a in
           if \<not> block_offset + unat (block_length ab) \<le> blob_size a then fma
           else Some (release_ext check a
             \<lparr>ext_start = of_nat block_offset, ext_length = block_length ab\<rparr>))"

text \<open>
  \<open>create_arena\<close> and the \<open>Arena\<close> constructor.  \<open>page\<close> is what \<open>HugePage::allocate\<close> returned for
  the alignment and size it was asked for.
\<close>

definition cache_line_size :: u32 where
  "cache_line_size = 64"

definition create_arena ::
  "bool \<Rightarrow> (u32 \<Rightarrow> u32 \<Rightarrow> nat \<times> nat \<times> (nat \<Rightarrow> u8)) \<Rightarrow> u32 \<Rightarrow> u32 \<Rightarrow>
   mem_error + SequentialFitAllocator" where
  "create_arena check page alignment0 mem_size0 =
    (let alignment = max alignment0 cache_line_size;
         mem_size = of_nat (MEM_ALIGN (unat mem_size0) (unat alignment));
         blob = page alignment mem_size
     in if fst blob = 0 then Inl (fatal_error ''failed to allocate aligned memory'')
        else Inr (new_allocator check blob alignment))"

definition new_arena ::
  "bool \<Rightarrow> (u32 \<Rightarrow> u32 \<Rightarrow> nat \<times> nat \<times> (nat \<Rightarrow> u8)) \<Rightarrow> u32 \<Rightarrow> u32 \<Rightarrow>
   mem_error + SequentialFitAllocator option" where
  "new_arena check page mem_size alignment =
    (if \<not> unat alignment \<le> 2147483648 then Inr None
     else if alignment AND (alignment - 1) \<noteq> 0 then Inr None
     else if \<not> unat mem_size \<le> 2147483648 then Inr None
     else map_sum id Some (create_arena check page alignment mem_size))"

subsection \<open>The global pool: \<open>fast_mem_alloc\<close> and \<open>fast_mem_free\<close>\<close>

text \<open>
  The state guarded by the two mutexes: the vector of arenas and the 1024 buckets of
  \<open>MemoryMetaInfo\<close>.  Each operation runs under its lock, so it is one step on this state.
\<close>

record ArenaBlock =
  ab_start :: nat
  ab_length :: u32
  ab_index :: nat

record fast_mem =
  fast_mem_arenas :: "SequentialFitAllocator list"
  mm_info :: "nat \<Rightarrow> ArenaBlock list"

definition ab_block :: "ArenaBlock \<Rightarrow> Block" where
  "ab_block ab = \<lparr>block_start = ab_start ab, block_length = ab_length ab\<rparr>"

text \<open>The bucket of a pointer: an FNV style hash over its eight bytes, lowest first.\<close>

definition hash_step :: "u64 \<Rightarrow> nat \<Rightarrow> nat \<Rightarrow> u64" where
  "hash_step hash ptr k = (of_nat (ptr div 256 ^ k mod 256) XOR hash) * 11400714819323198487"

definition mm_info_lookup :: "nat \<Rightarrow> nat" where
  "mm_info_lookup ptr = unat (foldl (\<lambda>h k. hash_step h ptr k) 0xcbf29ce484222325 [0..<8]) mod 1024"

definition mm_info_push_mt :: "ArenaBlock \<Rightarrow> fast_mem \<Rightarrow> fast_mem" where
  "mm_info_push_mt ablock s =
    (let b = mm_info_lookup (ab_start ablock)
     in s\<lparr>mm_info := (mm_info s)(b := mm_info s b @ [ablock])\<rparr>)"

fun find_index :: "('a \<Rightarrow> bool) \<Rightarrow> 'a list \<Rightarrow> nat option" where
  "find_index p [] = None"
| "find_index p (x # xs) = (if p x then Some 0 else map_option Suc (find_index p xs))"

definition mm_info_pop_mt :: "nat \<Rightarrow> fast_mem \<Rightarrow> ArenaBlock option \<times> fast_mem" where
  "mm_info_pop_mt start s =
    (let b = mm_info_lookup start; ablocks = mm_info s b in
     case find_index (\<lambda>ab. ab_start ab = start) ablocks of
       Some i \<Rightarrow> (Some (ablocks ! i), s\<lparr>mm_info := (mm_info s)(b := swap_erase i ablocks)\<rparr>)
     | None \<Rightarrow> (None, s))"

text \<open>The loop over the existing arenas: the first one that can serve the request.\<close>

fun alloc_existing ::
  "u32 \<Rightarrow> nat \<Rightarrow> SequentialFitAllocator list \<Rightarrow> (ArenaBlock \<times> SequentialFitAllocator list) option" where
  "alloc_existing len i [] = None"
| "alloc_existing len i (a # as) =
     (case alloc_ext a \<lparr>ext_start = 0, ext_length = len\<rparr> of
        (ok, ext, a') \<Rightarrow>
          if ok then
            Some (\<lparr>ab_start = blob_mem a + unat (ext_start ext), ab_length = ext_length ext, ab_index = i\<rparr>,
                  a' # as)
          else map_option (map_prod id (Cons a)) (alloc_existing len (Suc i) as))"

definition MINIMUM_ARENA_SIZE :: nat where
  "MINIMUM_ARENA_SIZE = 4 * 1024 * 1024"

definition fast_mem_allocate_aligned_block_L ::
  "bool \<Rightarrow> (u32 \<Rightarrow> u32 \<Rightarrow> nat \<times> nat \<times> (nat \<Rightarrow> u8)) \<Rightarrow> u32 \<Rightarrow> fast_mem \<Rightarrow>
   mem_error + ArenaBlock \<times> fast_mem" where
  "fast_mem_allocate_aligned_block_L check page len s =
    (case alloc_existing len 0 (fast_mem_arenas s) of
       Some (ab, as) \<Rightarrow> Inr (ab, s\<lparr>fast_mem_arenas := as\<rparr>)
     | None \<Rightarrow>
        (case create_arena check page cache_line_size (of_nat (max (unat len) MINIMUM_ARENA_SIZE)) of
           Inl e \<Rightarrow> Inl e
         | Inr a \<Rightarrow>
             (case alloc_ext a \<lparr>ext_start = 0, ext_length = len\<rparr> of
                (ok, ext, a') \<Rightarrow>
                  if ok then
                    Inr (\<lparr>ab_start = blob_mem a + unat (ext_start ext), ab_length = ext_length ext,
                          ab_index = List.length (fast_mem_arenas s)\<rparr>,
                         s\<lparr>fast_mem_arenas := fast_mem_arenas s @ [a']\<rparr>)
                  else Inl (fatal_error ''newly allocated arena too short for request''))))"

definition fast_mem_alloc ::
  "bool \<Rightarrow> (u32 \<Rightarrow> u32 \<Rightarrow> nat \<times> nat \<times> (nat \<Rightarrow> u8)) \<Rightarrow> nat \<Rightarrow> fast_mem \<Rightarrow>
   mem_error + nat \<times> fast_mem" where
  "fast_mem_alloc check page sz s =
    (case fast_mem_allocate_aligned_block_L check page (of_nat sz) s of
       Inl e \<Rightarrow> Inl e
     | Inr (ab, s') \<Rightarrow>
         if ab_start ab \<noteq> 0 then Inr (ab_start ab, mm_info_push_mt ab s')
         else Inl (fatal_error ''failed to allocate bytes''))"

definition fast_mem_free :: "bool \<Rightarrow> nat \<Rightarrow> fast_mem \<Rightarrow> mem_error + fast_mem" where
  "fast_mem_free check mem s =
    (if mem = 0 then Inr s
     else case mm_info_pop_mt mem s of
       (None, _) \<Rightarrow> Inl (fatal_error ''invalid memory pointer'')
     | (Some ab, s') \<Rightarrow>
         Inr (s'\<lparr>fast_mem_arenas := (fast_mem_arenas s')
           [ab_index ab := the (arena_release check (Some (fast_mem_arenas s' ! ab_index ab)) (ab_block ab))]\<rparr>))"

text \<open>\<open>NewDeleteBase::new_\<close>: larger alignments are refused, a null pointer throws.\<close>

definition new_delete_new ::
  "bool \<Rightarrow> (u32 \<Rightarrow> u32 \<Rightarrow> nat \<times> nat \<times> (nat \<Rightarrow> u8)) \<Rightarrow> nat \<Rightarrow> nat \<Rightarrow> fast_mem \<Rightarrow>
   mem_error + nat \<times> fast_mem" where
  "new_delete_new check page sz al s =
    (if al \<le> unat cache_line_size then
       (case fast_mem_alloc check page sz s of
          Inl e \<Rightarrow> Inl e
        | Inr (ptr, s') \<Rightarrow> if ptr = 0 then Inl bad_alloc else Inr (ptr, s'))
     else Inl bad_alloc)"

text \<open>\<open>FastMemArray::at\<close>: the range check throws.\<close>

definition fast_mem_array_at :: "'a list \<Rightarrow> nat \<Rightarrow> mem_error + 'a" where
  "fast_mem_array_at dat n = (if n \<ge> List.length dat then Inl out_of_range else Inr (dat ! n))"

subsection \<open>Interned strings\<close>

record CStringTable =
  quarks :: "string \<Rightarrow> nat option"
  strings :: "string list"

definition cstring_init :: CStringTable where
  "cstring_init = \<lparr>quarks = [[] \<mapsto> 0], strings = [[]]\<rparr>"

definition cstring_add :: "string \<Rightarrow> CStringTable \<Rightarrow> nat \<times> CStringTable" where
  "cstring_add s t =
    (case quarks t s of
       Some q \<Rightarrow> (q, t)
     | None \<Rightarrow> let quark = List.length (strings t)
               in (quark, t\<lparr>strings := strings t @ [s], quarks := (quarks t)(s \<mapsto> quark)\<rparr>))"

definition cstring_find :: "string \<Rightarrow> CStringTable \<Rightarrow> nat" where
  "cstring_find s t = (case quarks t s of None \<Rightarrow> 0 | Some q \<Rightarrow> q)"

definition cstring_lookup :: "nat \<Rightarrow> CStringTable \<Rightarrow> string" where
  "cstring_lookup quark t = (if quark < List.length (strings t) then strings t ! quark else strings t ! 0)"

definition cstring_temp_quark :: "nat \<Rightarrow> CStringTable \<Rightarrow> nat" where
  "cstring_temp_quark maybequark t = (if cstring_lookup maybequark t = [] then 0 else maybequark)"

subsection \<open>Well-formed free lists\<close>

definition ext_end :: "Extent32 \<Rightarrow> nat" where
  "ext_end e = unat (ext_start e) + unat (ext_length e)"

definition ext_set :: "Extent32 \<Rightarrow> nat set" where
  "ext_set e = {unat (ext_start e) ..< ext_end e}"

definition separate :: "Extent32 \<Rightarrow> Extent32 \<Rightarrow> bool" where
  "separate e f \<longleftrightarrow> ext_end e < unat (ext_start f) \<or> ext_end f < unat (ext_start e)"

definition ext_ok :: "SequentialFitAllocator \<Rightarrow> Extent32 \<Rightarrow> bool" where
  "ext_ok a e \<longleftrightarrow> 0 < unat (ext_length e) \<and> ext_end e \<le> blob_size a \<and>
     unat (mem_alignment a) dvd unat (ext_start e) \<and> unat (mem_alignment a) dvd unat (ext_length e)"

definition free_set :: "SequentialFitAllocator \<Rightarrow> nat set" where
  "free_set a = (\<Union>e \<in> set (extents a). ext_set e)"

definition fit_inv :: "SequentialFitAllocator \<Rightarrow> bool" where
  "fit_inv a \<longleftrightarrow> blob_size a < 2 ^ 32 \<and> 0 < unat (mem_alignment a) \<and> distinct (extents a) \<and>
     (\<forall>e \<in> set (extents a). ext_ok a e) \<and> pairwise separate (set (extents a)) \<and>
     (\<forall>i \<in> free_set a. blob_bytes a i = 0)"

lemma separate_sym: "separate e f \<longleftrightarrow> separate f e"
  by (auto simp: separate_def)

lemma separate_disjoint: "separate e f \<Longrightarrow> ext_set e \<inter> ext_set f = {}"
  by (auto simp: separate_def ext_set_def)

lemma ext_end_split:
  assumes "n < ext_length e" and "ext_end e < 2 ^ 32"
  shows "ext_end \<lparr>ext_start = ext_start e + n, ext_length = ext_length e - n\<rparr> = ext_end e"
    and "unat (ext_start e + n) = unat (ext_start e) + unat n"
    and "unat (ext_length e - n) = unat (ext_length e) - unat n"
proof -
  have n: "unat n < unat (ext_length e)" using assms by (simp add: word_nat_iff)
  have l: "unat (ext_length e - n) = unat (ext_length e) - unat n"
    using n by (simp add: unat_sub word_nat_iff)
  have s: "unat (ext_start e + n) = unat (ext_start e) + unat n"
    using n assms(2) by (simp add: unat_add_mod ext_end_def)
  show "ext_end \<lparr>ext_start = ext_start e + n, ext_length = ext_length e - n\<rparr> = ext_end e"
    using n by (simp add: ext_end_def s l)
  show "unat (ext_start e + n) = unat (ext_start e) + unat n"
    "unat (ext_length e - n) = unat (ext_length e) - unat n" by (fact s, fact l)
qed

subsection \<open>Best fit\<close>

definition fits_from :: "Extent32 list \<Rightarrow> nat \<Rightarrow> nat \<Rightarrow> nat option \<Rightarrow> bool" where
  "fits_from es len i candidate \<longleftrightarrow>
    (case candidate of
       None \<Rightarrow> (\<forall>e \<in> set (drop i es). unat (ext_length e) < len)
     | Some c \<Rightarrow> c < length es \<and> len \<le> unat (ext_length (es ! c)) \<and>
         (\<forall>e \<in> set (drop i es). len \<le> unat (ext_length e) \<longrightarrow> ext_length (es ! c) \<le> ext_length e))"

lemma set_drop_step: "i < length es \<Longrightarrow> set (drop i es) = insert (es ! i) (set (drop (Suc i) es))"
  by (metis Cons_nth_drop_Suc list.simps(15))

lemma best_fit_loop_fits:
  "i \<le> length es \<Longrightarrow> fits_from es len i candidate \<Longrightarrow>
   fits_from es len 0 (best_fit_loop es len i candidate)"
proof (induction es len i candidate rule: best_fit_loop.induct)
  case (2 es len i candidate)
  note step = set_drop_step [of i es]
  consider "unat (ext_length (es ! i)) < len" | "len = unat (ext_length (es ! i))"
    | "len < unat (ext_length (es ! i))" by linarith
  then show ?case
  proof cases
    case 1
    then show ?thesis using 2 step by (auto simp: fits_from_def split: option.splits)
  next
    case 2
    then show ?thesis using "2.prems" by (simp add: fits_from_def word_nat_iff)
  next
    case 3
    let ?c = "case candidate of None \<Rightarrow> Some i
         | Some c \<Rightarrow>
             if ext_length (es ! i) < ext_length (es ! c) \<or>
                (ext_length (es ! i) = ext_length (es ! c) \<and> ext_start (es ! i) < ext_start (es ! c))
             then Some i else Some c"
    have "fits_from es len i ?c"
    proof (cases candidate)
      case None
      then show ?thesis using "2.prems" 3 step by (auto simp: fits_from_def)
    next
      case (Some c)
      have "ext_length (es ! i) \<le> ext_length e"
        if "ext_length (es ! i) \<le> ext_length (es ! c)" "e \<in> set (drop (Suc i) es)"
          "len \<le> unat (ext_length e)" for e
        using that "2.prems" Some order_trans by (auto simp: fits_from_def)
      then show ?thesis using "2.prems" 3 step Some by (auto simp: fits_from_def)
    qed
    then show ?thesis using 2 3 by auto
  qed
qed simp

lemma best_fit_None: "best_fit a len = None \<Longrightarrow> e \<in> set (extents a) \<Longrightarrow> unat (ext_length e) < len"
  using best_fit_loop_fits [of "length (extents a)" "extents a" len None]
  by (auto simp: best_fit_def fits_from_def)

lemma best_fit_Some:
  assumes "best_fit a len = Some c"
  shows "c < length (extents a)" and "len \<le> unat (ext_length (extents a ! c))"
    and "\<And>e. e \<in> set (extents a) \<Longrightarrow> len \<le> unat (ext_length e) \<Longrightarrow>
      ext_length (extents a ! c) \<le> ext_length e"
  using assms best_fit_loop_fits [of "length (extents a)" "extents a" len None]
  by (auto simp: best_fit_def fits_from_def)


subsection \<open>Allocation\<close>

lemma fit_invD:
  assumes "fit_inv a" and "e \<in> set (extents a)"
  shows "0 < unat (ext_length e)" and "ext_end e \<le> blob_size a" and "ext_end e < 2 ^ 32"
    and "unat (mem_alignment a) dvd unat (ext_start e)"
    and "unat (mem_alignment a) dvd unat (ext_length e)"
  using assms by (auto simp: fit_inv_def ext_ok_def intro: order_le_less_trans)

lemma MEM_ALIGN_bounds:
  assumes "0 < al"
  shows "n \<le> MEM_ALIGN n al" and "MEM_ALIGN n al < n + al" and "al dvd MEM_ALIGN n al"
proof -
  have m: "(n + al - 1) mod al < al" using assms by simp
  have e: "MEM_ALIGN n al + (n + al - 1) mod al = n + al - 1"
    by (simp add: MEM_ALIGN_def)
  show "n \<le> MEM_ALIGN n al" "MEM_ALIGN n al < n + al" using m e assms by linarith+
  show "al dvd MEM_ALIGN n al" by (simp add: MEM_ALIGN_def)
qed

lemma MEM_ALIGN_least:
  assumes "0 < al" and "al dvd m" and "n \<le> m"
  shows "MEM_ALIGN n al \<le> m"
proof -
  obtain k where m: "m = al * k" using assms(2) by blast
  have "(n + al - 1) div al < Suc k"
    using assms m by (intro div_less_iff_less_mult [THEN iffD2]) (auto simp: algebra_simps)
  then show ?thesis by (simp add: MEM_ALIGN_def m)
qed

lemma unat_aligned_length:
  "MEM_ALIGN (unat (ext_length ext)) (unat (mem_alignment a)) < 2 ^ 32 \<Longrightarrow>
   unat (aligned_length a ext) = MEM_ALIGN (unat (ext_length ext)) (unat (mem_alignment a))"
  by (simp add: aligned_length_def unat_of_nat)

text \<open>What a successful allocation does to the free list, as sets.\<close>

lemma alloc_ext_success:
  assumes "alloc_ext a ext = (True, ext', a')" and inv: "fit_inv a"
    and n: "unat (aligned_length a ext) > 0"
  obtains e where "e \<in> set (extents a)" "ext_start ext' = ext_start e"
    "ext_length ext' = aligned_length a ext" "aligned_length a ext \<le> ext_length e"
    "\<And>f. f \<in> set (extents a) \<Longrightarrow> aligned_length a ext \<le> ext_length f \<Longrightarrow> ext_length e \<le> ext_length f"
    "distinct (extents a')" "a' = a\<lparr>extents := extents a'\<rparr>"
    "aligned_length a ext < ext_length e \<Longrightarrow> set (extents a') =
       insert \<lparr>ext_start = ext_start e + aligned_length a ext,
               ext_length = ext_length e - aligned_length a ext\<rparr> (set (extents a) - {e})"
    "\<not> aligned_length a ext < ext_length e \<Longrightarrow> set (extents a') = set (extents a) - {e}"
proof -
  let ?n = "aligned_length a ext"
  have d: "distinct (extents a)" using inv by (simp add: fit_inv_def)
  obtain c where c: "best_fit a (unat ?n) = Some c"
    using assms(1) by (auto simp: alloc_ext_def Let_def split: if_splits option.splits)
  note bf = best_fit_Some [OF c]
  define e where "e = extents a ! c"
  have e: "e \<in> set (extents a)" using bf(1) by (simp add: e_def)
  define rest where "rest = \<lparr>ext_start = ext_start e + ?n, ext_length = ext_length e - ?n\<rparr>"
  have rest_new: "rest \<notin> set (extents a)" if "?n < ext_length e"
  proof
    assume "rest \<in> set (extents a)"
    moreover have "ext_end rest = ext_end e" "unat (ext_start rest) = unat (ext_start e) + unat ?n"
      using ext_end_split [OF that fit_invD(3) [OF inv e]] by (simp_all add: rest_def)
    moreover have "unat ?n < unat (ext_length e)" using that by (simp add: word_nat_iff)
    ultimately have "rest \<noteq> e" "\<not> separate rest e"
      using n by (auto simp: separate_def ext_end_def)
    then show False using inv e \<open>rest \<in> set (extents a)\<close> by (auto simp: fit_inv_def pairwise_def)
  qed
  have ext': "ext_start ext' = ext_start e" "ext_length ext' = ?n"
    and a': "?n < ext_length e \<Longrightarrow> a' = a\<lparr>extents := (extents a)[c := rest]\<rparr>"
    "\<not> ?n < ext_length e \<Longrightarrow> a' = a\<lparr>extents := swap_erase c (extents a)\<rparr>"
    using assms(1) c by (auto simp: alloc_ext_def Let_def e_def rest_def split: if_splits)
  have le: "?n \<le> ext_length e" using bf(2) by (simp add: e_def word_nat_iff)
  have least: "ext_length e \<le> ext_length f" if "f \<in> set (extents a)" "?n \<le> ext_length f" for f
    using bf(3) [OF that(1)] that(2) by (simp add: e_def word_nat_iff)
  show thesis
  proof (cases "?n < ext_length e")
    case True
    have "distinct ((extents a)[c := rest])" "set ((extents a)[c := rest]) = insert rest (set (extents a) - {e})"
      using d rest_new [OF True] bf(1) by (auto simp: distinct_list_update set_update_distinct e_def)
    then show ?thesis
      using True a'(1) [OF True] by (intro that [OF e ext' le least]) (auto simp: rest_def)
  next
    case False
    then show ?thesis
      using a'(2) [OF False] d bf(1)
      by (intro that [OF e ext' le least]) (auto simp: set_swap_erase distinct_swap_erase e_def)
  qed
qed

lemma free_set_Diff:
  assumes "fit_inv a" and "e \<in> set (extents a)"
  shows "(\<Union>f \<in> set (extents a) - {e}. ext_set f) = free_set a - ext_set e"
proof -
  have "ext_set f \<inter> ext_set e = {}" if "f \<in> set (extents a) - {e}" for f
    using that assms by (intro separate_disjoint) (auto simp: fit_inv_def pairwise_def)
  then show ?thesis using assms(2) by (auto simp: free_set_def)
qed


lemma alloc_ext_inv:
  assumes "alloc_ext a ext = (True, ext', a')" and inv: "fit_inv a"
    and n: "unat (aligned_length a ext) > 0"
    and al: "unat (mem_alignment a) dvd unat (aligned_length a ext)"
  shows "fit_inv a' \<and> ext_set ext' \<subseteq> free_set a \<and> free_set a' = free_set a - ext_set ext' \<and>
    ext_ok a ext'"
proof -
  let ?n = "aligned_length a ext"
  obtain e where e: "e \<in> set (extents a)" "ext_start ext' = ext_start e" "ext_length ext' = ?n"
    "?n \<le> ext_length e" and d: "distinct (extents a')" and a': "a' = a\<lparr>extents := extents a'\<rparr>"
    and split: "?n < ext_length e \<Longrightarrow> set (extents a') =
       insert \<lparr>ext_start = ext_start e + ?n, ext_length = ext_length e - ?n\<rparr> (set (extents a) - {e})"
    and drop: "\<not> ?n < ext_length e \<Longrightarrow> set (extents a') = set (extents a) - {e}"
    by (rule alloc_ext_success [OF assms(1) inv n]) blast
  have ext'_set: "ext_set ext' = {unat (ext_start e) ..< unat (ext_start e) + unat ?n}"
    using e by (simp add: ext_set_def ext_end_def)
  have sub: "ext_set ext' \<subseteq> ext_set e"
    using e by (auto simp: ext_set_def ext_end_def word_nat_iff)
  have okE: "ext_ok a e" using inv e(1) by (simp add: fit_inv_def)
  have ok': "ext_ok a ext'"
    using okE n al e by (simp add: ext_ok_def ext_end_def word_nat_iff)
  note same = arg_cong [OF a', of blob_size] arg_cong [OF a', of mem_alignment]
    arg_cong [OF a', of blob_bytes]
  have ok_eq: "ext_ok a' f = ext_ok a f" for f by (simp add: ext_ok_def same)
  have "fit_inv a' \<and> free_set a' = free_set a - ext_set ext'"
  proof (cases "?n < ext_length e")
    case True
    define rest where "rest = \<lparr>ext_start = ext_start e + ?n, ext_length = ext_length e - ?n\<rparr>"
    note r = ext_end_split [OF True fit_invD(3) [OF inv e(1)], folded rest_def]
    have rest: "ext_end rest = ext_end e" "unat (ext_start rest) = unat (ext_start e) + unat ?n"
      "unat (ext_length rest) = unat (ext_length e) - unat ?n"
      using r by (simp_all add: rest_def)
    have S: "set (extents a') = insert rest (set (extents a) - {e})" using split [OF True] by (simp add: rest_def)
    have "ext_set e - ext_set ext' = ext_set rest"
      using e by (auto simp: ext_set_def rest ext_end_def)
    then have fs: "free_set a' = free_set a - ext_set ext'"
      using free_set_Diff [OF inv e(1)] sub e(1) by (auto simp: S free_set_def)
    have "ext_ok a rest"
      using okE al e(4) True by (auto simp: ext_ok_def rest word_nat_iff dvd_diff_nat)
    moreover have "separate rest f" if "f \<in> set (extents a) - {e}" for f
    proof -
      have "separate e f" using that inv e(1) by (auto simp: fit_inv_def pairwise_def)
      then show ?thesis by (auto simp: separate_def rest)
    qed
    ultimately have "fit_inv a'"
      using inv d fs by (auto simp: fit_inv_def ok_eq S pairwise_insert separate_sym same
          intro: pairwise_mono)
    then show ?thesis using fs by blast
  next
    case False
    then have "ext_set ext' = ext_set e"
      using e by (simp add: ext_set_def ext_end_def)
    then have fs: "free_set a' = free_set a - ext_set ext'"
      using free_set_Diff [OF inv e(1)] by (simp add: free_set_def [of a'] drop [OF False])
    have "fit_inv a'"
      using inv d fs by (auto simp: fit_inv_def ok_eq drop [OF False] same intro: pairwise_mono)
    then show ?thesis using fs by blast
  qed
  moreover have "ext_set ext' \<subseteq> free_set a" using sub e(1) by (auto simp: free_set_def)
  ultimately show ?thesis using ok' by blast
qed


subsection \<open>Release\<close>

text \<open>An extent that may be released: inside the area, and none of its bytes is free.\<close>

definition releasable :: "SequentialFitAllocator \<Rightarrow> Extent32 \<Rightarrow> bool" where
  "releasable a ext \<longleftrightarrow> ext_ok a ext \<and> ext_set ext \<inter> free_set a = {}"

lemma ext_set_disjoint_iff:
  "0 < unat (ext_length e) \<Longrightarrow> 0 < unat (ext_length f) \<Longrightarrow>
   ext_set e \<inter> ext_set f = {} \<longleftrightarrow> ext_end e \<le> unat (ext_start f) \<or> ext_end f \<le> unat (ext_start e)"
  unfolding ext_set_def ext_end_def by (subst disjoint_iff) (auto, presburger)

lemma unat_ext_sum: "ext_end e < 2 ^ 32 \<Longrightarrow> unat (ext_start e + ext_length e) = ext_end e"
  by (simp add: unat_add_mod ext_end_def)

definition scan_ok :: "Extent32 \<Rightarrow> Extent32 list \<Rightarrow> nat \<Rightarrow> release_scan \<Rightarrow> release_scan \<Rightarrow> bool" where
  "scan_ok ext es i r r' \<longleftrightarrow>
    overlaps_existing r' = overlaps_existing r \<and>
    (\<forall>j. after_idx r' = Some j \<longrightarrow> after_idx r = Some j \<or>
       (i \<le> j \<and> j < i + length es \<and> ext_end (es ! (j - i)) = unat (ext_start ext))) \<and>
    (\<forall>j. before_idx r' = Some j \<longrightarrow> before_idx r = Some j \<or>
       (i \<le> j \<and> j < i + length es \<and> unat (ext_start (es ! (j - i))) = ext_end ext)) \<and>
    (after_idx r' = None \<longrightarrow> after_idx r = None \<and> (\<forall>e \<in> set es. ext_end e \<noteq> unat (ext_start ext))) \<and>
    (before_idx r' = None \<longrightarrow> before_idx r = None \<and> (\<forall>e \<in> set es. unat (ext_start e) \<noteq> ext_end ext))"

lemma nth_Cons_shift: "Suc i \<le> j \<Longrightarrow> (e # es) ! (j - i) = es ! (j - Suc i)"
  by (metis Suc_diff_Suc Suc_le_eq nth_Cons_Suc)

lemma scan_ok_Cons:
  assumes "scan_ok ext es (Suc i) r1 r'"
    and "r1 = r \<or> (r1 = r\<lparr>after_idx := Some i\<rparr> \<and> ext_end e = unat (ext_start ext)) \<or>
      (r1 = r\<lparr>before_idx := Some i\<rparr> \<and> unat (ext_start e) = ext_end ext)"
    and "ext_end e = unat (ext_start ext) \<Longrightarrow> after_idx r1 \<noteq> None"
    and "unat (ext_start e) = ext_end ext \<Longrightarrow> before_idx r1 \<noteq> None"
  shows "scan_ok ext (e # es) i r r'"
  using assms unfolding scan_ok_def
  by (elim disjE conjE) (auto simp: nth_Cons_shift Suc_le_eq)

lemma release_loop_scan:
  assumes "ext_end ext < 2 ^ 32" and "0 < unat (ext_length ext)"
    and "\<forall>e \<in> set es. ext_end e < 2 ^ 32 \<and> 0 < unat (ext_length e) \<and> ext_set ext \<inter> ext_set e = {}"
  shows "scan_ok ext es i r (release_loop check ext es i r)"
  using assms(3)
proof (induction es arbitrary: i r)
  case Nil
  then show ?case by (simp add: scan_ok_def)
next
  case (Cons e es)
  have e: "ext_end e < 2 ^ 32" "0 < unat (ext_length e)" "ext_set ext \<inter> ext_set e = {}"
    using Cons.prems by auto
  have A: "ext_start ext = ext_start e + ext_length e \<longleftrightarrow> ext_end e = unat (ext_start ext)"
    using unat_ext_sum [OF e(1)] by (auto simp: word_unat_eq_iff)
  have B: "ext_start ext + ext_length ext = ext_start e \<longleftrightarrow> unat (ext_start e) = ext_end ext"
    using unat_ext_sum [OF assms(1)] by (auto simp: word_unat_eq_iff)
  have C: "\<not> (ext_start ext + ext_length ext > ext_start e \<and> ext_start ext < ext_start e + ext_length e)"
    using e assms(1,2) unat_ext_sum [OF e(1)] unat_ext_sum [OF assms(1)]
    by (simp add: ext_set_disjoint_iff word_less_nat_alt not_less)
  have AB: "ext_end e = unat (ext_start ext) \<Longrightarrow> unat (ext_start e) \<noteq> ext_end ext"
    using e(2) assms(2) by (simp add: ext_end_def)
  have IH: "scan_ok ext es (Suc i) r1 (release_loop check ext es (Suc i) r1)" for r1
    using Cons by simp
  consider "ext_end e = unat (ext_start ext)" | "unat (ext_start e) = ext_end ext"
    | "ext_end e \<noteq> unat (ext_start ext)" "unat (ext_start e) \<noteq> ext_end ext" by blast
  then show ?case
  proof cases
    case 1
    show ?thesis
    proof (cases "before_idx r = None")
      case True
      then show ?thesis using 1 A AB IH [of "r\<lparr>after_idx := Some i\<rparr>"]
        by (intro scan_ok_Cons [of ext es i "r\<lparr>after_idx := Some i\<rparr>"]) (auto simp: Let_def)
    next
      case False
      then show ?thesis using 1 A by (auto simp: scan_ok_def Let_def)
    qed
  next
    case 2
    then have nA: "ext_end e \<noteq> unat (ext_start ext)" using AB by blast
    show ?thesis
    proof (cases "after_idx r = None")
      case True
      then show ?thesis using 2 nA A B IH [of "r\<lparr>before_idx := Some i\<rparr>"]
        by (intro scan_ok_Cons [of ext es i "r\<lparr>before_idx := Some i\<rparr>"]) (auto simp: Let_def)
    next
      case False
      then show ?thesis using 2 nA A B by (auto simp: scan_ok_def Let_def)
    qed
  next
    case 3
    then show ?thesis using A B C IH [of r]
      by (intro scan_ok_Cons [of ext es i r]) auto
  qed
qed


text \<open>Replacing some listed extents \<open>R\<close> and \<open>ext\<close> by one extent that covers them.\<close>

lemma fit_inv_merge:
  assumes inv: "fit_inv a" and rel: "releasable a ext"
    and a': "a' = a\<lparr>blob_bytes := extent_zero ext (blob_bytes a), extents := es'\<rparr>"
    and es': "distinct es'" "set es' = insert M (set (extents a) - R)" and R: "R \<subseteq> set (extents a)"
    and M: "ext_ok a M" "ext_set M = ext_set ext \<union> (\<Union>e \<in> R. ext_set e)"
    and sep: "\<And>g. g \<in> set (extents a) - R \<Longrightarrow> separate M g"
  shows "fit_inv a' \<and> free_set a' = free_set a \<union> ext_set ext"
proof -
  have fs: "free_set a' = free_set a \<union> ext_set ext"
    using R by (auto simp: free_set_def a' es' M)
  have ok_eq: "ext_ok a' f = ext_ok a f" for f by (simp add: ext_ok_def a')
  have "pairwise separate (set es')"
    using inv sep by (auto simp: es' pairwise_insert separate_sym fit_inv_def intro: pairwise_mono)
  moreover have "blob_bytes a' i = 0" if "i \<in> free_set a'" for i
  proof -
    from that have "i \<in> free_set a \<or> i \<in> ext_set ext" by (simp only: fs Un_iff)
    then show ?thesis using inv by (auto simp: a' extent_zero_def ext_set_def ext_end_def fit_inv_def)
  qed
  ultimately have "fit_inv a'"
    using inv M es' by (auto simp: fit_inv_def ok_eq) (auto simp: a')
  then show ?thesis using fs by blast
qed

lemma unat_grow:
  assumes "unat (ext_length e) + unat n < 2 ^ 32"
  shows "unat (ext_length (grow_extent n e)) = unat (ext_length e) + unat n"
    and "ext_start (grow_extent n e) = ext_start e"
  using assms by (simp_all add: grow_extent_def unat_add_mod)

definition merges :: "SequentialFitAllocator \<Rightarrow> Extent32 \<Rightarrow> Extent32 list \<Rightarrow> bool" where
  "merges a ext es' \<longleftrightarrow> (\<exists>M R. distinct es' \<and> set es' = insert M (set (extents a) - R) \<and>
     R \<subseteq> set (extents a) \<and> ext_ok a M \<and> ext_set M = ext_set ext \<union> (\<Union>e \<in> R. ext_set e) \<and>
     (\<forall>g \<in> set (extents a) - R. separate M g))"

lemma mergesI:
  "distinct es' \<Longrightarrow> set es' = insert M (set (extents a) - R) \<Longrightarrow> R \<subseteq> set (extents a) \<Longrightarrow>
   ext_ok a M \<Longrightarrow> ext_set M = ext_set ext \<union> (\<Union>e \<in> R. ext_set e) \<Longrightarrow>
   (\<And>g. g \<in> set (extents a) - R \<Longrightarrow> separate M g) \<Longrightarrow> merges a ext es'"
  unfolding merges_def by (intro exI [of _ M] exI [of _ R] conjI ballI) simp_all

text \<open>What the invariant says of the listed extents around one that is released.\<close>

lemma releasable_facts:
  assumes "fit_inv a" and "releasable a ext"
  shows "\<And>e f. e \<in> set (extents a) \<Longrightarrow> f \<in> set (extents a) \<Longrightarrow> e \<noteq> f \<Longrightarrow>
      ext_end e < unat (ext_start f) \<or> ext_end f < unat (ext_start e)"
    and "\<And>g. g \<in> set (extents a) \<Longrightarrow>
      ext_end ext \<le> unat (ext_start g) \<or> ext_end g \<le> unat (ext_start ext)"
    and "\<And>g. g \<in> set (extents a) \<Longrightarrow> unat (ext_start g) < ext_end g"
    and "\<And>g. g \<in> set (extents a) \<Longrightarrow> ext_ok a g"
    and "unat (ext_start ext) < ext_end ext"
proof -
  have ok: "ext_ok a g" if "g \<in> set (extents a)" for g
    using assms that by (simp add: fit_inv_def)
  show "ext_end e < unat (ext_start f) \<or> ext_end f < unat (ext_start e)"
    if "e \<in> set (extents a)" "f \<in> set (extents a)" "e \<noteq> f" for e f
    using assms that by (auto simp: fit_inv_def pairwise_def separate_def)
  show "ext_end ext \<le> unat (ext_start g) \<or> ext_end g \<le> unat (ext_start ext)"
    if "g \<in> set (extents a)" for g
    using assms that ok [OF that]
    by (subst ext_set_disjoint_iff [symmetric]) (auto simp: releasable_def free_set_def ext_ok_def)
  show "unat (ext_start g) < ext_end g" "ext_ok a g" if "g \<in> set (extents a)" for g
    using ok [OF that] by (simp_all add: ext_ok_def ext_end_def)
  show "unat (ext_start ext) < ext_end ext"
    using assms by (simp add: releasable_def ext_ok_def ext_end_def)
qed

lemma separate_not_listed: "0 < unat (ext_length M) \<Longrightarrow> (\<And>g. g \<in> S \<Longrightarrow> separate M g) \<Longrightarrow> M \<notin> S"
  by (auto simp: separate_def ext_end_def)

lemma merge_isolated:
  assumes "fit_inv a" and "releasable a ext"
    and "\<forall>g \<in> set (extents a). ext_end g \<noteq> unat (ext_start ext) \<and> unat (ext_start g) \<noteq> ext_end ext"
  shows "merges a ext (extents a @ [ext])"
proof -
  have sep: "separate ext g" if "g \<in> set (extents a)" for g
    using releasable_facts(2) [OF assms(1,2) that] assms(3) that by (auto simp: separate_def)
  have "ext_ok a ext" using assms(2) by (simp add: releasable_def)
  moreover have "ext \<notin> set (extents a)"
    using separate_not_listed [OF _ sep] calculation by (simp add: ext_ok_def)
  ultimately show ?thesis
    using sep assms(1) by (intro mergesI [of _ ext _ "{}"]) (auto simp: fit_inv_def)
qed

text \<open>One neighbour, at index \<open>i\<close>, is replaced by the covering extent \<open>M\<close>.\<close>

lemma merge_one:
  assumes inv: "fit_inv a" and rel: "releasable a ext" and i: "i < length (extents a)"
    and M: "ext_ok a M" "ext_set M = ext_set ext \<union> ext_set (extents a ! i)"
    and sep: "\<And>g. g \<in> set (extents a) - {extents a ! i} \<Longrightarrow> separate M g"
  shows "merges a ext ((extents a)[i := M])"
proof -
  have d: "distinct (extents a)" using inv by (simp add: fit_inv_def)
  have "M \<notin> set (extents a) - {extents a ! i}"
    by (rule separate_not_listed) (use sep M in \<open>auto simp: ext_ok_def\<close>)
  then show ?thesis
    using d i M sep
    by (intro mergesI [of _ M _ "{extents a ! i}"])
      (auto simp: set_update_distinct distinct_list_update)
qed

lemma merge_two:
  assumes inv: "fit_inv a" and rel: "releasable a ext" and i: "i < length (extents a)"
    and j: "j < length (extents a)" "i \<noteq> j"
    and M: "ext_ok a M" "ext_set M = ext_set ext \<union> (ext_set (extents a ! i) \<union> ext_set (extents a ! j))"
    and sep: "\<And>g. g \<in> set (extents a) - {extents a ! i, extents a ! j} \<Longrightarrow> separate M g"
  shows "merges a ext (erase_at j ((extents a)[i := M]))"
proof -
  let ?es = "extents a"
  have d: "distinct ?es" using inv by (simp add: fit_inv_def)
  have ij: "?es ! i \<noteq> ?es ! j" using d i j by (simp add: nth_eq_iff_index_eq)
  have nM: "M \<notin> set ?es - {?es ! i, ?es ! j}"
    by (rule separate_not_listed) (use sep M in \<open>auto simp: ext_ok_def\<close>)
  have "M \<noteq> ?es ! j"
  proof
    assume "M = ?es ! j"
    then have "ext_set (?es ! i) \<subseteq> ext_set (?es ! j)" using M(2) by auto
    moreover have "ext_set (?es ! i) \<inter> ext_set (?es ! j) = {}"
      using inv i j ij by (intro separate_disjoint) (simp add: fit_inv_def pairwise_def)
    ultimately show False using releasable_facts(3) [OF inv rel, of "?es ! i"] i
      by (auto simp: ext_set_def)
  qed
  then have d1: "distinct (?es[i := M])" and s1: "set (?es[i := M]) = insert M (set ?es - {?es ! i})"
    using d i nM by (auto simp: set_update_distinct intro!: distinct_list_update)
  have "set (erase_at j (?es[i := M])) = insert M (set ?es - {?es ! i, ?es ! j})"
    using set_erase_at [OF d1, of j] j i s1 \<open>M \<noteq> ?es ! j\<close> by auto
  then show ?thesis
    using d1 i j M sep
    by (intro mergesI [of _ M _ "{?es ! i, ?es ! j}"]) (auto simp: distinct_erase_at)
qed

lemma merge_before:
  assumes inv: "fit_inv a" and rel: "releasable a ext" and j: "j < length (extents a)"
    and f: "unat (ext_start (extents a ! j)) = ext_end ext"
    and nA: "\<forall>g \<in> set (extents a). ext_end g \<noteq> unat (ext_start ext)"
  shows "merges a ext ((extents a)
    [j := (grow_extent (ext_length ext) (extents a ! j))\<lparr>ext_start := ext_start ext\<rparr>])"
proof (rule merge_one [OF inv rel j])
  let ?f = "extents a ! j" and ?M = "(grow_extent (ext_length ext) (extents a ! j))\<lparr>ext_start := ext_start ext\<rparr>"
  note facts = releasable_facts [OF inv rel]
  have f_in: "?f \<in> set (extents a)" using j by simp
  have fit: "unat (ext_length ?f) + unat (ext_length ext) < 2 ^ 32"
    using fit_invD(3) [OF inv f_in] f by (simp add: ext_end_def)
  have M: "ext_start ?M = ext_start ext" "ext_end ?M = ext_end ?f"
    "unat (ext_length ?M) = unat (ext_length ?f) + unat (ext_length ext)"
    using unat_grow [OF fit] f by (simp_all add: ext_end_def)
  show "ext_ok a ?M"
    using facts(4) [OF f_in] rel unat_grow(1) [OF fit] by (auto simp: ext_ok_def M releasable_def)
  show "ext_set ?M = ext_set ext \<union> ext_set ?f"
    using f facts(3) [OF f_in] facts(5) by (auto simp: ext_set_def M)
  show "separate ?M g" if "g \<in> set (extents a) - {?f}" for g
    using that facts(1) [of ?f g] facts(2,3) [of g] facts(3) [OF f_in] facts(5) f_in f nA
    by (auto simp: separate_def M)
qed

lemma merge_after:
  assumes inv: "fit_inv a" and rel: "releasable a ext" and i: "i < length (extents a)"
    and e: "ext_end (extents a ! i) = unat (ext_start ext)"
    and nB: "\<forall>g \<in> set (extents a). unat (ext_start g) \<noteq> ext_end ext"
  shows "merges a ext ((extents a)[i := grow_extent (ext_length ext) (extents a ! i)])"
proof (rule merge_one [OF inv rel i])
  let ?e = "extents a ! i" and ?M = "grow_extent (ext_length ext) (extents a ! i)"
  note facts = releasable_facts [OF inv rel]
  have e_in: "?e \<in> set (extents a)" using i by simp
  have end_small: "ext_end ext < 2 ^ 32"
    using inv rel by (auto simp: fit_inv_def releasable_def ext_ok_def)
  then have fit: "unat (ext_length ?e) + unat (ext_length ext) < 2 ^ 32"
    using e by (simp add: ext_end_def)
  have M: "ext_start ?M = ext_start ?e" "ext_end ?M = ext_end ext"
    "unat (ext_length ?M) = unat (ext_length ?e) + unat (ext_length ext)"
    using unat_grow [OF fit] e by (simp_all add: ext_end_def)
  show "ext_ok a ?M"
    using facts(4) [OF e_in] rel by (auto simp: ext_ok_def M releasable_def)
  show "ext_set ?M = ext_set ext \<union> ext_set ?e"
    using e facts(3) [OF e_in] facts(5) by (auto simp: ext_set_def M)
  show "separate ?M g" if "g \<in> set (extents a) - {?e}" for g
    using that facts(1) [of ?e g] facts(2,3) [of g] facts(3) [OF e_in] facts(5) e_in e nB
    by (auto simp: separate_def M)
qed

lemma merge_both:
  assumes inv: "fit_inv a" and rel: "releasable a ext"
    and i: "i < length (extents a)" and j: "j < length (extents a)"
    and e: "ext_end (extents a ! i) = unat (ext_start ext)"
    and f: "unat (ext_start (extents a ! j)) = ext_end ext"
  shows "i \<noteq> j \<and> merges a ext (erase_at j ((extents a)
    [i := grow_extent (ext_length (extents a ! j)) (grow_extent (ext_length ext) (extents a ! i))]))"
proof
  let ?e = "extents a ! i" and ?f = "extents a ! j"
    and ?M = "grow_extent (ext_length (extents a ! j)) (grow_extent (ext_length ext) (extents a ! i))"
  note facts = releasable_facts [OF inv rel]
  have e_in: "?e \<in> set (extents a)" and f_in: "?f \<in> set (extents a)" using i j by simp_all
  show ij: "i \<noteq> j" using e f facts(3) [OF e_in] facts(3) [OF f_in] facts(5) by auto
  have fit: "unat (ext_length ?e) + unat (ext_length ext) + unat (ext_length ?f) < 2 ^ 32"
    using fit_invD(3) [OF inv f_in] e f by (simp add: ext_end_def)
  have M: "ext_start ?M = ext_start ?e" "ext_end ?M = ext_end ?f"
    "unat (ext_length ?M) = unat (ext_length ?e) + unat (ext_length ext) + unat (ext_length ?f)"
    using unat_grow [of ?e "ext_length ext"] unat_grow [of "grow_extent (ext_length ext) ?e" "ext_length ?f"]
      fit e f by (simp_all add: ext_end_def)
  show "merges a ext (erase_at j ((extents a)[i := ?M]))"
  proof (rule merge_two [OF inv rel i j ij])
    show "ext_ok a ?M"
      using facts(4) [OF e_in] facts(4) [OF f_in] rel by (auto simp: ext_ok_def M releasable_def)
    show "ext_set ?M = ext_set ext \<union> (ext_set ?e \<union> ext_set ?f)"
      using e f facts(3) [OF e_in] facts(3) [OF f_in] facts(5) by (auto simp: ext_set_def M)
    show "separate ?M g" if "g \<in> set (extents a) - {?e, ?f}" for g
      using that facts(1) [of ?e g] facts(1) [of ?f g] facts(2,3) [of g] facts(3) [OF e_in] facts(3) [OF f_in]
        facts(5) e_in f_in e f
      by (auto simp: separate_def M)
  qed
qed

lemma merge_extents_merges:
  assumes inv: "fit_inv a" and rel: "releasable a ext"
    and scan: "scan_ok ext (extents a) 0
      \<lparr>overlaps_existing = None, before_idx = None, after_idx = None\<rparr> r"
  shows "merges a ext (merge_extents ext r (extents a))"
proof (cases "after_idx r"; cases "before_idx r")
  assume r: "after_idx r = None" "before_idx r = None"
  then show ?thesis
    using scan merge_isolated [OF inv rel] by (auto simp: scan_ok_def merge_extents_def)
next
  fix j assume r: "after_idx r = None" "before_idx r = Some j"
  then show ?thesis
    using scan merge_before [OF inv rel, of j] by (simp add: scan_ok_def merge_extents_def)
next
  fix i assume r: "after_idx r = Some i" "before_idx r = None"
  then show ?thesis
    using scan merge_after [OF inv rel, of i] by (simp add: scan_ok_def merge_extents_def)
next
  fix i j assume r: "after_idx r = Some i" "before_idx r = Some j"
  then show ?thesis
    using scan merge_both [OF inv rel, of i j] by (auto simp: scan_ok_def merge_extents_def Let_def)
qed

lemma release_ext_inv:
  assumes inv: "fit_inv a" and rel: "releasable a ext"
  shows "fit_inv (release_ext check a ext) \<and>
    free_set (release_ext check a ext) = free_set a \<union> ext_set ext \<and>
    blob_bytes (release_ext check a ext) = extent_zero ext (blob_bytes a)"
proof -
  let ?r0 = "\<lparr>overlaps_existing = None, before_idx = None, after_idx = None\<rparr>"
  define r where "r = release_loop check ext (extents a) 0 ?r0"
  have ok: "ext_ok a ext" using rel by (simp add: releasable_def)
  have small: "ext_end ext < 2 ^ 32" using ok inv by (auto simp: fit_inv_def ext_ok_def)
  have "scan_ok ext (extents a) 0 ?r0 r"
    unfolding r_def using small ok fit_invD [OF inv] rel
    by (intro release_loop_scan) (auto simp: ext_ok_def releasable_def free_set_def)
  moreover from this have "overlaps_existing r = None" by (simp add: scan_ok_def)
  moreover have "unat (ext_start ext + ext_length ext) \<le> blob_size a" "0 < ext_length ext"
    using ok unat_ext_sum [OF small] by (auto simp: ext_ok_def word_less_nat_alt)
  ultimately have eq: "release_ext check a ext = a\<lparr>blob_bytes := extent_zero ext (blob_bytes a),
      extents := merge_extents ext r (extents a)\<rparr>" and "merges a ext (merge_extents ext r (extents a))"
    using merge_extents_merges [OF inv rel]
    by (simp_all add: release_ext_def Let_def r_def [symmetric])
  then show ?thesis
    using fit_inv_merge [OF inv rel eq] by (auto simp: merges_def)
qed


subsection \<open>Arenas as block pools\<close>

definition arena_inv :: "SequentialFitAllocator \<Rightarrow> bool" where
  "arena_inv a \<longleftrightarrow> fit_inv a \<and> 0 < blob_mem a \<and> unat (mem_alignment a) dvd blob_mem a"

definition block_region :: "Block \<Rightarrow> nat set" where
  "block_region ab = {block_start ab ..< block_start ab + unat (block_length ab)}"

definition arena_free :: "SequentialFitAllocator \<Rightarrow> nat set" where
  "arena_free a = (+) (blob_mem a) ` free_set a"

definition block_extent :: "SequentialFitAllocator \<Rightarrow> Block \<Rightarrow> Extent32" where
  "block_extent a ab = \<lparr>ext_start = of_nat (block_start ab - blob_mem a), ext_length = block_length ab\<rparr>"

definition block_valid :: "SequentialFitAllocator \<Rightarrow> Block \<Rightarrow> bool" where
  "block_valid a ab \<longleftrightarrow> blob_mem a \<le> block_start ab \<and> 0 < unat (block_length ab) \<and>
     block_start ab - blob_mem a + unat (block_length ab) \<le> blob_size a \<and>
     unat (mem_alignment a) dvd block_start ab - blob_mem a \<and>
     unat (mem_alignment a) dvd unat (block_length ab)"

text \<open>A request whose aligned size still fits 32 bits.\<close>

definition admissible_request :: "SequentialFitAllocator \<Rightarrow> u32 \<Rightarrow> bool" where
  "admissible_request a len \<longleftrightarrow> MEM_ALIGN (unat len) (unat (mem_alignment a)) < 2 ^ 32"

text \<open>\<open>Arena::allocate\<close> and \<open>Arena::release\<close> on an arena that has an allocator.\<close>

definition pool_alloc :: "SequentialFitAllocator \<Rightarrow> u32 \<Rightarrow> (Block \<times> SequentialFitAllocator) option" where
  "pool_alloc a len =
    (case arena_allocate_nothrow (Some a) len of
       (ab, Some a') \<Rightarrow> if block_start ab = 0 then None else Some (ab, a')
     | (ab, None) \<Rightarrow> None)"

definition pool_release :: "bool \<Rightarrow> SequentialFitAllocator \<Rightarrow> Block \<Rightarrow> SequentialFitAllocator" where
  "pool_release check a ab = (case arena_release check (Some a) ab of Some a' \<Rightarrow> a' | None \<Rightarrow> a)"

lemma alloc_ext_geometry:
  "alloc_ext a ext = (ok, ext', a') \<Longrightarrow>
   blob_mem a' = blob_mem a \<and> blob_size a' = blob_size a \<and> mem_alignment a' = mem_alignment a \<and>
   blob_bytes a' = blob_bytes a"
  by (auto simp: alloc_ext_def Let_def split: if_splits option.splits)

lemma release_ext_geometry:
  "blob_mem (release_ext check a ext) = blob_mem a" "blob_size (release_ext check a ext) = blob_size a"
  "mem_alignment (release_ext check a ext) = mem_alignment a"
  by (simp_all add: release_ext_def Let_def)

lemma pool_alloc_ext:
  assumes "pool_alloc a len = Some (ab, a')"
  obtains ext where "0 < len" "alloc_ext a \<lparr>ext_start = 0, ext_length = len\<rparr> = (True, ext, a')"
    "ab = \<lparr>block_start = blob_mem a + unat (ext_start ext), block_length = ext_length ext\<rparr>"
  using assms
  by (auto simp: pool_alloc_def arena_allocate_nothrow_def zeroblock_def split: if_splits prod.splits)

lemma pool_alloc_law:
  assumes inv: "arena_inv a" and adm: "admissible_request a len"
    and ok: "pool_alloc a len = Some (ab, a')"
  shows "arena_inv a' \<and> block_valid a ab \<and> block_region ab \<noteq> {} \<and> block_region ab \<subseteq> arena_free a \<and>
    arena_free a' = arena_free a - block_region ab"
proof -
  obtain ext where len: "0 < len"
    and al: "alloc_ext a \<lparr>ext_start = 0, ext_length = len\<rparr> = (True, ext, a')"
    and ab: "ab = \<lparr>block_start = blob_mem a + unat (ext_start ext), block_length = ext_length ext\<rparr>"
    using pool_alloc_ext [OF ok] .
  let ?req = "\<lparr>ext_start = 0, ext_length = len\<rparr>"
  have pos: "0 < unat (mem_alignment a)" and fit: "fit_inv a" using inv by (simp_all add: arena_inv_def fit_inv_def)
  have n: "unat (aligned_length a ?req) = MEM_ALIGN (unat len) (unat (mem_alignment a))"
    using adm by (subst unat_aligned_length) (simp_all add: admissible_request_def)
  have "fit_inv a'" and sub: "ext_set ext \<subseteq> free_set a" and fs: "free_set a' = free_set a - ext_set ext"
    and okx: "ext_ok a ext"
    using alloc_ext_inv [OF al fit] MEM_ALIGN_bounds [OF pos, of "unat len"] len n
    by (auto simp: word_less_nat_alt)
  moreover note geo = alloc_ext_geometry [OF al]
  moreover have reg: "block_region ab = (+) (blob_mem a) ` ext_set ext"
    by (simp add: block_region_def ab ext_set_def ext_end_def add_ac)
  moreover have "block_region ab \<noteq> {}" using okx by (simp add: reg ext_set_def ext_ok_def ext_end_def)
  moreover have "block_valid a ab" using okx by (simp add: block_valid_def ab ext_ok_def ext_end_def)
  ultimately show ?thesis
    using inv by (simp add: arena_inv_def arena_free_def image_mono image_set_diff)
qed

lemma pool_release_law:
  assumes inv: "arena_inv a" and valid: "block_valid a ab" and dis: "block_region ab \<inter> arena_free a = {}"
  shows "arena_inv (pool_release check a ab) \<and>
    arena_free (pool_release check a ab) = arena_free a \<union> block_region ab"
proof -
  let ?e = "block_extent a ab"
  have fit: "fit_inv a" and small: "blob_size a < 2 ^ 32" using inv by (auto simp: arena_inv_def fit_inv_def)
  have st: "unat (ext_start ?e) = block_start ab - blob_mem a"
    using valid small
    by (simp add: block_extent_def block_valid_def unat_of_nat del: of_nat_diff)
  have len: "unat (ext_length ?e) = unat (block_length ab)" by (simp add: block_extent_def)
  have ok: "ext_ok a ?e" using valid unfolding ext_ok_def ext_end_def block_valid_def st len by blast
  have "blob_mem a + (block_start ab - blob_mem a) = block_start ab"
    using valid by (simp add: block_valid_def)
  then have reg: "block_region ab = (+) (blob_mem a) ` ext_set ?e"
    by (simp add: block_region_def ext_set_def ext_end_def st len add.assoc [symmetric])
  have "releasable a ?e"
    using dis ok by (auto simp: releasable_def reg arena_free_def)
  then have "fit_inv (release_ext check a ?e)" "free_set (release_ext check a ?e) = free_set a \<union> ext_set ?e"
    using release_ext_inv [OF fit] by auto
  moreover have "pool_release check a ab = release_ext check a ?e"
  proof -
    let ?al = "unat (mem_alignment a)"
    have "?al dvd block_start ab"
      using valid inv dvd_diffD [of ?al "block_start ab" "blob_mem a"]
      by (auto simp: block_valid_def arena_inv_def)
    moreover have "block_start ab < blob_mem a + blob_size a"
      using valid unfolding block_valid_def by linarith
    moreover have "block_start ab + unat (block_length ab) - blob_mem a \<le> blob_size a"
      using valid unfolding block_valid_def by linarith
    ultimately show ?thesis
      using valid unfolding pool_release_def arena_release_def arena_alignment_def block_extent_def block_valid_def
      by (simp add: Let_def mod_eq_0_iff_dvd del: of_nat_diff)
  qed
  ultimately show ?thesis
    using inv reg by (auto simp: arena_inv_def release_ext_geometry arena_free_def)
qed

lemma pool_alloc_stable:
  assumes "pool_alloc a len = Some (ab, a')"
  shows "block_valid a' = block_valid a" and "admissible_request a' = admissible_request a"
proof -
  obtain ext where "alloc_ext a \<lparr>ext_start = 0, ext_length = len\<rparr> = (True, ext, a')"
    using pool_alloc_ext [OF assms] by blast
  note geo = alloc_ext_geometry [OF this]
  show "block_valid a' = block_valid a" by (rule ext) (simp add: geo block_valid_def)
  show "admissible_request a' = admissible_request a"
    by (rule ext) (simp add: geo admissible_request_def)
qed

lemma pool_release_stable:
  "block_valid (pool_release check a b) = block_valid a"
  "admissible_request (pool_release check a b) = admissible_request a"
  by (auto simp: pool_release_def arena_release_def block_valid_def admissible_request_def Let_def
      release_ext_geometry fun_eq_iff)

interpretation arena: block_pool arena_inv pool_alloc "pool_release check" arena_free block_region
  block_valid admissible_request
  by unfold_locales
    (use pool_alloc_law pool_release_law pool_alloc_stable pool_release_stable in \<open>simp_all\<close>)

subsection \<open>The fresh arena\<close>

lemma ctz_loop_numeral [simp]:
  "ctz_loop (numeral k) n = (if odd n then 0 else Suc (ctz_loop (pred_numeral k) (n div 2)))"
  by (simp add: numeral_eq_Suc)

lemma new_allocator_inv:
  assumes "0 < mem" "0 < sz" "sz < 2 ^ 32" "0 < unat al" "unat al dvd mem" "unat al dvd sz"
    and "unat al \<le> blob_alignment mem" "mem mod blob_alignment mem = 0"
  shows "arena_inv (new_allocator check (mem, sz, cont) al) \<and>
    arena_free (new_allocator check (mem, sz, cont) al) = {mem ..< mem + sz}"
proof -
  define area :: Extent32 where "area = \<lparr>ext_start = 0, ext_length = of_nat sz\<rparr>"
  define a0 where "a0 = \<lparr>blob_mem = mem, blob_size = sz, blob_bytes = extent_zero area cont,
    mem_alignment = al, extents = []\<rparr>"
  have new: "new_allocator check (mem, sz, cont) al = release_ext check a0 area"
    using assms by (simp add: new_allocator_def Let_def a0_def area_def)
  have len: "unat (ext_length area) = sz" using assms(3) by (simp add: area_def unat_of_nat)
  have inv: "fit_inv a0" using assms by (simp add: fit_inv_def a0_def free_set_def)
  have "releasable a0 area"
    using assms len by (simp add: releasable_def ext_ok_def ext_end_def a0_def free_set_def)
      (simp add: area_def)
  note rel = release_ext_inv [OF inv this, of check]
  have "ext_set area = {0..<sz}" using len by (simp add: ext_set_def ext_end_def) (simp add: area_def)
  then have "arena_free (release_ext check a0 area) = {mem ..< mem + sz}"
    using rel by (simp add: arena_free_def release_ext_geometry free_set_def [of a0]) (simp add: a0_def add.commute)
  moreover have "arena_inv (release_ext check a0 area)"
    using rel assms by (simp add: arena_inv_def release_ext_geometry) (simp add: a0_def)
  ultimately show ?thesis by (simp add: new)
qed

subsection \<open>The table of blocks\<close>

lemma find_index_append_new:
  "\<forall>x \<in> set xs. \<not> p x \<Longrightarrow> p y \<Longrightarrow> find_index p (xs @ [y]) = Some (List.length xs)"
  by (induction xs) auto

lemma swap_erase_last: "swap_erase (List.length xs) (xs @ [y]) = xs"
  by (simp add: swap_erase_def)

text \<open>Popping a block that was just pushed, when its address was not listed, restores the table.\<close>

lemma mm_pop_push:
  assumes "\<forall>ab \<in> set (mm_info s (mm_info_lookup (ab_start ablock))). ab_start ab \<noteq> ab_start ablock"
  shows "mm_info_pop_mt (ab_start ablock) (mm_info_push_mt ablock s) = (Some ablock, s)"
proof -
  let ?b = "mm_info_lookup (ab_start ablock)"
  have "find_index (\<lambda>ab. ab_start ab = ab_start ablock) (mm_info s ?b @ [ablock]) =
      Some (List.length (mm_info s ?b))"
    using assms by (intro find_index_append_new) auto
  then show ?thesis
    by (simp add: mm_info_pop_mt_def mm_info_push_mt_def Let_def swap_erase_last)
qed

lemma mm_pop_None:
  "\<forall>ab \<in> set (mm_info s (mm_info_lookup ptr)). ab_start ab \<noteq> ptr \<Longrightarrow> mm_info_pop_mt ptr s = (None, s)"
proof -
  have "\<forall>x \<in> set xs. \<not> p x \<Longrightarrow> find_index p xs = None" for p :: "ArenaBlock \<Rightarrow> bool" and xs
    by (induction xs) auto
  then show "\<forall>ab \<in> set (mm_info s (mm_info_lookup ptr)). ab_start ab \<noteq> ptr \<Longrightarrow> ?thesis"
    by (simp add: mm_info_pop_mt_def Let_def)
qed

text \<open>The first arena that can serve a request.\<close>

lemma alloc_existing_Some:
  "alloc_existing len i as = Some (ab, as') \<Longrightarrow>
   \<exists>k ext a'. k < List.length as \<and> alloc_ext (as ! k) \<lparr>ext_start = 0, ext_length = len\<rparr> = (True, ext, a') \<and>
     as' = as[k := a'] \<and> ab_index ab = i + k \<and> ab_start ab = blob_mem (as ! k) + unat (ext_start ext) \<and>
     ab_length ab = ext_length ext"
proof (induction as arbitrary: i as')
  case (Cons a as)
  obtain ok ext a' where al: "alloc_ext a \<lparr>ext_start = 0, ext_length = len\<rparr> = (ok, ext, a')"
    by (cases "alloc_ext a \<lparr>ext_start = 0, ext_length = len\<rparr>")
  show ?case
  proof (cases ok)
    case True
    with Cons.prems al show ?thesis by (intro exI [of _ 0]) auto
  next
    case False
    with Cons.prems al obtain as'' where "alloc_existing len (Suc i) as = Some (ab, as'')" "as' = a # as''"
      by auto
    with Cons.IH obtain k ext a' where "k < List.length as"
      "alloc_ext (as ! k) \<lparr>ext_start = 0, ext_length = len\<rparr> = (True, ext, a')" "as'' = as[k := a']"
      "ab_index ab = Suc i + k" "ab_start ab = blob_mem (as ! k) + unat (ext_start ext)"
      "ab_length ab = ext_length ext" by blast
    with \<open>as' = a # as''\<close> show ?thesis by (intro exI [of _ "Suc k"]) auto
  qed
qed simp

lemma pool_alloc_of_ext:
  assumes "arena_inv a" "alloc_ext a \<lparr>ext_start = 0, ext_length = len\<rparr> = (True, ext, a')"
  shows "pool_alloc a len = Some (\<lparr>block_start = blob_mem a + unat (ext_start ext), block_length = ext_length ext\<rparr>, a')"
proof -
  have "0 < len" using assms(2) by (auto simp: alloc_ext_def split: if_splits)
  then show ?thesis
    using assms by (simp add: pool_alloc_def arena_allocate_nothrow_def arena_inv_def)
qed

lemma release_restores:
  assumes inv: "arena_inv a" and adm: "admissible_request a len" and al: "pool_alloc a len = Some (ab, a')"
  shows "arena_inv (pool_release check a' ab) \<and> arena_free (pool_release check a' ab) = arena_free a"
proof -
  note law = pool_alloc_law [OF inv adm al]
  have "block_valid a' ab" using law pool_alloc_stable(1) [OF al] by simp
  moreover have "block_region ab \<inter> arena_free a' = {}" using law by auto
  ultimately show ?thesis using pool_release_law [of a' ab check] law by auto
qed


subsection \<open>Interned strings: the invariant\<close>

definition cstring_inv :: "CStringTable \<Rightarrow> bool" where
  "cstring_inv t \<longleftrightarrow> strings t \<noteq> [] \<and> strings t ! 0 = [] \<and>
     (\<forall>s q. quarks t s = Some q \<longleftrightarrow> q < List.length (strings t) \<and> strings t ! q = s)"

lemma cstring_init_inv: "cstring_inv cstring_init"
  by (auto simp: cstring_inv_def cstring_init_def)

lemma cstring_add_inv:
  assumes inv: "cstring_inv t"
  shows "cstring_inv (snd (cstring_add s t))"
proof (cases "quarks t s")
  case None
  then have "\<forall>q < List.length (strings t). strings t ! q \<noteq> s"
    using inv by (metis cstring_inv_def option.distinct(1))
  then show ?thesis
    using inv None by (auto simp: cstring_inv_def cstring_add_def Let_def nth_append less_Suc_eq)
next
  case (Some q)
  then show ?thesis using inv by (simp add: cstring_add_def)
qed

subsection \<open>Properties\<close>


definition sample_arena :: SequentialFitAllocator where
  "sample_arena = \<lparr>blob_mem = 4096, blob_size = 256, blob_bytes = (\<lambda>_. 0), mem_alignment = 64,
     extents = [\<lparr>ext_start = 0, ext_length = 256\<rparr>]\<rparr>"

lemma sample_arena_inv: "arena_inv sample_arena" "fit_inv sample_arena"
  by (simp_all add: arena_inv_def fit_inv_def sample_arena_def ext_ok_def ext_end_def pairwise_def)


text \<open>
  The constructor over a suitably aligned page establishes the invariant with every byte free.
\<close>

theorem new_allocator_all_free:
  assumes "0 < mem" "0 < sz" "sz < 2 ^ 32" "0 < unat al" "unat al dvd mem" "unat al dvd sz"
    and "unat al \<le> blob_alignment mem" "mem mod blob_alignment mem = 0"
  shows "arena_inv (new_allocator check (mem, sz, cont) al) \<and>
    arena_free (new_allocator check (mem, sz, cont) al) = {mem ..< mem + sz}"
  using assms by (rule new_allocator_inv)

theorem new_allocator_all_free_witness:
  "arena_free (new_allocator True (4096, 1024, \<lambda>_. 7) 64) = {4096 ..< 5120}"
proof -
  have b: "blob_alignment 4096 = 4096" by (simp add: blob_alignment_def)
  show ?thesis
    using new_allocator_all_free [of 4096 1024 64 True "\<lambda>_. 7"] by (simp add: b)
qed



text \<open>
  Releasing a range that is not free makes exactly its bytes free and zero, and keeps the free
  list sorted into separate extents with a gap between any two, so neighbours are always merged.
\<close>

theorem release_ext_coalesces:
  assumes "fit_inv a" and "releasable a ext"
  shows "free_set (release_ext check a ext) = free_set a \<union> ext_set ext \<and>
    pairwise separate (set (extents (release_ext check a ext))) \<and>
    blob_bytes (release_ext check a ext) = extent_zero ext (blob_bytes a) \<and>
    fit_inv (release_ext check a ext)"
  using release_ext_inv [OF assms, of check] unfolding fit_inv_def by blast

theorem release_ext_coalesces_witness:
  "pairwise separate (set (extents (release_ext False
     (sample_arena\<lparr>extents := [\<lparr>ext_start = 128, ext_length = 128\<rparr>]\<rparr>) \<lparr>ext_start = 64, ext_length = 64\<rparr>)))"
  by (rule release_ext_coalesces [THEN conjunct2, THEN conjunct1])
    (auto simp: fit_inv_def sample_arena_def ext_ok_def ext_end_def pairwise_def releasable_def
      free_set_def ext_set_def)

text \<open>
  A request within one alignment unit of 4 GiB wraps to length 0: it ``succeeds'' on any
  non-empty free list without taking a byte of it.
\<close>

theorem alloc_ext_wraps:
  assumes "mem_alignment a = 64" and "4294967232 < unat len" and "extents a \<noteq> []"
    and "\<forall>e \<in> set (extents a). 0 < ext_length e"
  shows "\<exists>ext a'. alloc_ext a \<lparr>ext_start = 0, ext_length = len\<rparr> = (True, ext, a') \<and>
    ext_length ext = 0 \<and> free_set a' = free_set a"
proof -
  let ?req = "\<lparr>ext_start = 0, ext_length = len\<rparr>"
  have "(unat len + 63) div 64 = 67108864"
    by (rule div_nat_eqI) (use assms(2) unat_u32_less [of len] in simp_all)
  then have "MEM_ALIGN (unat len) 64 = 4294967296" by (simp add: MEM_ALIGN_def add.commute)
  then have n: "aligned_length a ?req = 0" by (simp add: aligned_length_def assms(1))
  obtain c where c: "best_fit a 0 = Some c"
    using best_fit_None [of a 0 "hd (extents a)"] assms(3) by (cases "best_fit a 0") auto
  have "0 < ext_length (extents a ! c)" using best_fit_Some(1) [OF c] assms(4) by simp
  have "alloc_ext a ?req =
      (True, \<lparr>ext_start = ext_start (extents a ! c), ext_length = 0\<rparr>, a)"
  proof -
    have e: "\<lparr>ext_start = ext_start (extents a ! c), ext_length = ext_length (extents a ! c)\<rparr> = extents a ! c"
      by (cases "extents a ! c") simp
    have "a\<lparr>extents := (extents a)[c := extents a ! c]\<rparr> = a" by simp
    then show ?thesis
      using assms(2) n c \<open>0 < ext_length (extents a ! c)\<close>
      by (simp add: alloc_ext_def Let_def word_less_nat_alt e)
  qed
  then show ?thesis by simp
qed

theorem alloc_ext_wraps_witness:
  "\<exists>ext a'. alloc_ext sample_arena \<lparr>ext_start = 0, ext_length = 4294967295\<rparr> = (True, ext, a') \<and>
    ext_length ext = 0 \<and> free_set a' = free_set sample_arena"
  by (rule alloc_ext_wraps) (simp_all add: sample_arena_def)

text \<open>
  What \<open>fast_mem_alloc\<close> took from an existing arena, \<open>fast_mem_free\<close> gives back: the call does
  not fail, the table of blocks is as before, and every arena has the same free bytes.
\<close>

theorem fast_mem_free_alloc:
  assumes inv: "\<forall>a \<in> set (fast_mem_arenas s). arena_inv a \<and> admissible_request a (of_nat sz)"
    and al: "fast_mem_alloc check page sz s = Inr (ptr, s')"
    and existing: "List.length (fast_mem_arenas s') = List.length (fast_mem_arenas s)"
    and fresh: "\<forall>ab \<in> set (mm_info s (mm_info_lookup ptr)). ab_start ab \<noteq> ptr"
  shows "\<exists>s''. fast_mem_free check ptr s' = Inr s'' \<and> mm_info s'' = mm_info s \<and>
    map arena_free (fast_mem_arenas s'') = map arena_free (fast_mem_arenas s)"
proof -
  let ?n = "of_nat sz :: u32" and ?as = "fast_mem_arenas s"
  obtain ab s1 where ab: "fast_mem_allocate_aligned_block_L check page ?n s = Inr (ab, s1)"
    "ptr = ab_start ab" "ptr \<noteq> 0" "s' = mm_info_push_mt ab s1"
    using al by (auto simp: fast_mem_alloc_def split: sum.splits if_splits)
  obtain as' where as': "alloc_existing ?n 0 ?as = Some (ab, as')" "s1 = s\<lparr>fast_mem_arenas := as'\<rparr>"
    using ab existing
    by (auto simp: fast_mem_allocate_aligned_block_L_def mm_info_push_mt_def Let_def
        split: option.splits sum.splits prod.splits if_splits)
  obtain k ext a' where k: "k < List.length ?as" "as' = ?as[k := a']" "ab_index ab = k"
    and ext: "alloc_ext (?as ! k) \<lparr>ext_start = 0, ext_length = ?n\<rparr> = (True, ext, a')"
      "ab_start ab = blob_mem (?as ! k) + unat (ext_start ext)" "ab_length ab = ext_length ext"
    using alloc_existing_Some [OF as'(1)] by auto
  let ?a = "?as ! k"
  have a: "arena_inv ?a" "admissible_request ?a ?n" using inv k(1) by simp_all
  have pa: "pool_alloc ?a ?n = Some (ab_block ab, a')"
    using pool_alloc_of_ext [OF a(1) ext(1)] ext by (simp add: ab_block_def)
  have pop: "mm_info_pop_mt ptr s' = (Some ab, s1)"
    using mm_pop_push [of s1 ab] fresh ab as'(2) by simp
  let ?r = "the (arena_release check (Some a') (ab_block ab))"
  have r: "?r = pool_release check a' (ab_block ab)"
    by (auto simp: pool_release_def arena_release_def Let_def)
  have "fast_mem_free check ptr s' = Inr (s1\<lparr>fast_mem_arenas := as'[k := ?r]\<rparr>)"
    using ab(3) pop k as'(2) by (simp add: fast_mem_free_def)
  moreover have "arena_free ?r = arena_free ?a"
    using release_restores [OF a pa, of check] r by simp
  then have "map arena_free (as'[k := ?r]) = map arena_free ?as"
    using k by (simp add: map_update list_update_overwrite) (metis k(1) list_update_id map_update nth_map)
  ultimately show ?thesis using as'(2) by auto
qed

definition sample_pool :: fast_mem where
  "sample_pool = \<lparr>fast_mem_arenas = [sample_arena], mm_info = (\<lambda>_. [])\<rparr>"

theorem fast_mem_free_alloc_witness:
  "\<exists>ptr s' s''. fast_mem_alloc True (\<lambda>_ _. (0, 0, \<lambda>_. 0)) 100 sample_pool = Inr (ptr, s') \<and>
     fast_mem_free True ptr s' = Inr s'' \<and> mm_info s'' = mm_info sample_pool"
proof -
  let ?page = "\<lambda>(_ :: u32) (_ :: u32). (0 :: nat, 0 :: nat, \<lambda>_ :: nat. 0 :: u8)"
  let ?s' = "mm_info_push_mt \<lparr>ab_start = 4096, ab_length = 128, ab_index = 0\<rparr> (sample_pool\<lparr>fast_mem_arenas :=
      [sample_arena\<lparr>extents := [\<lparr>ext_start = 128, ext_length = 128\<rparr>]\<rparr>]\<rparr>)"
  have al: "fast_mem_alloc True ?page 100 sample_pool = Inr (4096, ?s')"
    by (simp add: fast_mem_alloc_def fast_mem_allocate_aligned_block_L_def sample_pool_def
        sample_arena_def alloc_ext_def aligned_length_def MEM_ALIGN_def best_fit_def Let_def)
  have "\<exists>s''. fast_mem_free True 4096 ?s' = Inr s'' \<and> mm_info s'' = mm_info sample_pool \<and>
    map arena_free (fast_mem_arenas s'') = map arena_free (fast_mem_arenas sample_pool)"
    by (rule fast_mem_free_alloc [OF _ al])
      (use sample_arena_inv in \<open>simp_all add: sample_pool_def admissible_request_def MEM_ALIGN_def
        mm_info_push_mt_def Let_def\<close>, simp add: sample_arena_def)
  then show ?thesis using al by blast
qed

text \<open>
  An interned string resolves to itself, two strings get the same number exactly when they are
  equal, numbers handed out before keep their meaning, and \<open>find\<close> agrees with \<open>add\<close>.
\<close>

theorem cstring_add_correct:
  assumes inv: "cstring_inv t" and add: "cstring_add s t = (q, t')"
  shows "cstring_inv t' \<and> cstring_lookup q t' = s \<and> cstring_find s t' = q \<and>
    (\<forall>p < List.length (strings t). cstring_lookup p t' = cstring_lookup p t) \<and>
    (\<forall>p < List.length (strings t'). cstring_lookup p t' = s \<longrightarrow> p = q) \<and>
    cstring_temp_quark q t' = q"
proof -
  have inv': "cstring_inv t'" using cstring_add_inv [OF inv, of s] add by simp
  have q: "quarks t' s = Some q"
    using add by (auto simp: cstring_add_def Let_def split: option.splits)
  have r: "quarks t' r = Some p \<longleftrightarrow> p < List.length (strings t') \<and> strings t' ! p = r" for r p
    using inv' by (simp add: cstring_inv_def)
  have qs: "q < List.length (strings t')" "strings t' ! q = s" using q r by auto
  have "quarks t' [] = Some 0" using inv' by (simp add: cstring_inv_def)
  then have "q = 0" if "s = []" using q that by simp
  then have "cstring_temp_quark q t' = q" using qs by (auto simp: cstring_temp_quark_def cstring_lookup_def)
  moreover have "p = q" if "p < List.length (strings t')" "cstring_lookup p t' = s" for p
    using that q r [of s p] by (simp add: cstring_lookup_def)
  moreover have "cstring_lookup p t' = cstring_lookup p t" if "p < List.length (strings t)" for p
    using that add by (auto simp: cstring_lookup_def cstring_add_def Let_def nth_append split: option.splits)
  moreover have "cstring_lookup q t' = s" "cstring_find s t' = q"
    using q qs by (simp_all add: cstring_lookup_def cstring_find_def)
  ultimately show ?thesis using inv' by blast
qed

theorem cstring_add_correct_witness:
  "cstring_lookup 1 (snd (cstring_add ''volume'' cstring_init)) = ''volume''"
proof -
  have "cstring_add ''volume'' cstring_init = (1, snd (cstring_add ''volume'' cstring_init))"
    by (simp add: cstring_add_def cstring_init_def)
  from cstring_add_correct [OF cstring_init_inv this, THEN conjunct2, THEN conjunct1]
  show ?thesis .
qed

end
