(* ===== verification/QueueMux.thy ===== *)
theory QueueMux
  imports Prelude
begin

section \<open>Queue multiplexer (ase/queuemux.hh)\<close>

text \<open>
  \<open>QueueMultiplexer\<close> pops from several queues in priority order.  A \<open>Ptr\<close> is the list of the elements
  between its \<open>it\<close> and its \<open>end\<close>; \<open>ptrs\<close> is the array of \<open>MAXQUEUES\<close> of them, of which the first
  \<open>n_queues\<close> are in use.  The priority function and the maximum of its type are arguments.
\<close>

subsection \<open>State and operations\<close>

record 'a mux =
  n_queues :: nat
  current :: int
  first_prio :: int
  next_prio :: int
  ptrs :: "'a list list"

definition new_mux :: "nat \<Rightarrow> 'a mux" where
  "new_mux maxqueues =
     \<lparr>n_queues = 0, current = -1, first_prio = 0, next_prio = 0, ptrs = replicate maxqueues []\<rparr>"

definition more :: "'a mux \<Rightarrow> bool" where
  "more m \<longleftrightarrow> n_queues m > 0"

fun seek_loop :: "('a \<Rightarrow> int) \<Rightarrow> nat \<Rightarrow> 'a list list \<Rightarrow> int \<times> int \<times> int \<Rightarrow> int \<times> int \<times> int" where
  "seek_loop prio i [] s = s"
| "seek_loop prio i (q # qs) (cur, fst_p, nxt_p) =
     (let p = prio (hd q) in
      seek_loop prio (Suc i) qs
        (if p < fst_p then (int i, p, fst_p)
         else if p < nxt_p then (cur, fst_p, p)
         else (cur, fst_p, nxt_p)))"

definition seek :: "('a \<Rightarrow> int) \<Rightarrow> int \<Rightarrow> 'a mux \<Rightarrow> 'a mux" where
  "seek prio pmax m =
     (if n_queues m = 0 then m
      else (case seek_loop prio 0 (take (n_queues m) (ptrs m)) (0, pmax, pmax) of
              (c, f, n) \<Rightarrow> m\<lparr>current := c, first_prio := f, next_prio := n\<rparr>))"

fun assign_loop :: "'a list option list \<Rightarrow> 'a mux \<Rightarrow> 'a mux" where
  "assign_loop [] m = m"
| "assign_loop (None # qs) m = assign_loop qs m"
| "assign_loop (Some q # qs) m =
     assign_loop qs (m\<lparr>ptrs := (ptrs m)[n_queues m := q],
                       n_queues := (if q \<noteq> [] then n_queues m + 1 else n_queues m)\<rparr>)"

definition mux_assign :: "('a \<Rightarrow> int) \<Rightarrow> int \<Rightarrow> 'a list option list \<Rightarrow> 'a mux \<Rightarrow> bool \<times> 'a mux" where
  "mux_assign prio pmax queues m =
     (let m' = seek prio pmax (assign_loop queues (m\<lparr>n_queues := 0\<rparr>)) in (more m', m'))"

definition count_pending :: "'a mux \<Rightarrow> nat" where
  "count_pending m = sum_list (map length (take (n_queues m) (ptrs m)))"

text \<open>\<open>empty_\<close> is the default constructed value that \<open>peek\<close> and \<open>pop\<close> return at the end.\<close>

definition peek :: "'a \<Rightarrow> 'a mux \<Rightarrow> 'a" where
  "peek dflt m = (if \<not> more m then dflt else hd (ptrs m ! nat (current m)))"

definition pop :: "('a \<Rightarrow> int) \<Rightarrow> int \<Rightarrow> 'a \<Rightarrow> 'a mux \<Rightarrow> 'a \<times> 'a mux" where
  "pop prio pmax dflt m =
     (if \<not> more m then (dflt, m)
      else
        let c = nat (current m); result = hd (ptrs m ! c); rest = tl (ptrs m ! c);
            m1 = m\<lparr>ptrs := (ptrs m)[c := rest]\<rparr> in
        if rest = [] then
          let m2 = (if int c < int (n_queues m) - 1
                    then m1\<lparr>ptrs := (ptrs m1)[c := ptrs m1 ! (n_queues m - 1)]\<rparr> else m1) in
          (result, seek prio pmax (m2\<lparr>n_queues := n_queues m - 1\<rparr>))
        else if prio (hd rest) > next_prio m then (result, seek prio pmax m1)
        else (result, m1))"

text \<open>
  \<open>Iter\<close> holds the multiplexer or \<open>nullptr\<close>; two iterators are equal when both or none have more.
  \<open>for_each\<close> is a range based for loop over the multiplexer, with fuel for its iterations.
\<close>

definition iter_begin :: "'a mux \<Rightarrow> 'a mux option" where
  "iter_begin m = (if more m then Some m else None)"

definition iter_more :: "'a mux option \<Rightarrow> bool" where
  "iter_more it = (case it of Some m \<Rightarrow> more m | None \<Rightarrow> False)"

definition iter_deref :: "'a \<Rightarrow> 'a mux option \<Rightarrow> 'a" where
  "iter_deref dflt it = (case it of Some m \<Rightarrow> peek dflt m | None \<Rightarrow> dflt)"

definition iter_next :: "('a \<Rightarrow> int) \<Rightarrow> int \<Rightarrow> 'a \<Rightarrow> 'a mux option \<Rightarrow> 'a mux option" where
  "iter_next prio pmax dflt it =
     (case it of None \<Rightarrow> None
      | Some m \<Rightarrow> if more m then Some (snd (pop prio pmax dflt m)) else None)"

fun for_each :: "('a \<Rightarrow> int) \<Rightarrow> int \<Rightarrow> 'a \<Rightarrow> nat \<Rightarrow> 'a mux option \<Rightarrow> 'a list option" where
  "for_each prio pmax dflt 0 it = (if iter_more it then None else Some [])"
| "for_each prio pmax dflt (Suc fuel) it =
     (if iter_more it then
        map_option ((#) (iter_deref dflt it))
          (for_each prio pmax dflt fuel (iter_next prio pmax dflt it))
      else Some [])"

subsection \<open>Invariant\<close>

text \<open>
  The queues in use are not empty and ascend in priority; the current one has the least head, and
  no other head comes before \<open>next\<close>.
\<close>

definition queues :: "'a mux \<Rightarrow> 'a list list" where
  "queues m = take (n_queues m) (ptrs m)"

definition queues_ok :: "('a \<Rightarrow> int) \<Rightarrow> int \<Rightarrow> 'a mux \<Rightarrow> bool" where
  "queues_ok prio pmax m \<longleftrightarrow>
     n_queues m \<le> length (ptrs m) \<and>
     (\<forall>q\<in>set (queues m). q \<noteq> [] \<and> sorted (map prio q) \<and> (\<forall>x\<in>set q. prio x \<le> pmax))"

definition least_head :: "('a \<Rightarrow> int) \<Rightarrow> int \<Rightarrow> int \<Rightarrow> 'a list list \<Rightarrow> bool" where
  "least_head prio c n qs \<longleftrightarrow>
     0 \<le> c \<and> nat c < length qs \<and>
     (\<forall>i<length qs. prio (hd (qs ! nat c)) \<le> prio (hd (qs ! i)) \<and>
        (i \<noteq> nat c \<longrightarrow> n \<le> prio (hd (qs ! i))))"

definition mux_inv :: "('a \<Rightarrow> int) \<Rightarrow> int \<Rightarrow> 'a mux \<Rightarrow> bool" where
  "mux_inv prio pmax m \<longleftrightarrow>
     queues_ok prio pmax m \<and> (more m \<longrightarrow> least_head prio (current m) (next_prio m) (queues m))"

definition pending :: "'a mux \<Rightarrow> 'a multiset" where
  "pending m = mset (concat (queues m))"

lemma length_queues: "queues_ok prio pmax m \<Longrightarrow> length (queues m) = n_queues m"
  by (simp add: queues_ok_def queues_def)

lemma count_pending_size: "count_pending m = size (pending m)"
  by (simp add: count_pending_def pending_def queues_def length_concat)

text \<open>The loop of \<open>seek\<close> over the queues \<open>ps @ qs\<close> after the prefix \<open>ps\<close>.\<close>

definition seek_state :: "('a \<Rightarrow> int) \<Rightarrow> int \<Rightarrow> 'a list list \<Rightarrow> int \<times> int \<times> int \<Rightarrow> bool" where
  "seek_state prio pmax ps s = (case s of (c, f, n) \<Rightarrow>
     f \<le> n \<and> 0 \<le> c \<and> (\<forall>i<length ps. f \<le> prio (hd (ps ! i)) \<and> (i \<noteq> nat c \<longrightarrow> n \<le> prio (hd (ps ! i)))) \<and>
     (f = pmax \<and> c = 0 \<or> nat c < length ps \<and> f = prio (hd (ps ! nat c))))"

lemma seek_loop_state:
  "seek_state prio pmax ps s \<Longrightarrow> i = length ps \<Longrightarrow>
     seek_state prio pmax (ps @ qs) (seek_loop prio i qs s)"
proof (induction prio i qs s arbitrary: ps rule: seek_loop.induct)
  case (2 prio i q qs cur f n)
  have "seek_state prio pmax (ps @ [q])
          (if prio (hd q) < f then (int i, prio (hd q), f)
           else if prio (hd q) < n then (cur, f, prio (hd q)) else (cur, f, n))"
    using 2(2,3) by (auto simp: seek_state_def nth_append less_Suc_eq)
  then show ?case using "2.IH" [OF refl, of "ps @ [q]"] unfolding 2(3) by (simp add: Let_def split del: if_split)
qed simp

lemma seek_least_head:
  assumes "qs \<noteq> []" and "\<forall>q\<in>set qs. prio (hd q) \<le> pmax"
    and "seek_loop prio 0 qs (0, pmax, pmax) = (c, f, n)"
  shows "least_head prio c n qs"
proof -
  have "seek_state prio pmax ([] @ qs) (seek_loop prio 0 qs (0, pmax, pmax))"
    by (rule seek_loop_state) (auto simp: seek_state_def)
  then have s: "seek_state prio pmax qs (c, f, n)" using assms(3) by simp
  moreover have "prio (hd (qs ! 0)) \<le> pmax" using assms(1,2) by simp
  ultimately show ?thesis using assms(1) by (auto simp: seek_state_def least_head_def)
qed

lemma seek_inv:
  assumes "queues_ok prio pmax m"
  shows "mux_inv prio pmax (seek prio pmax m)" and "pending (seek prio pmax m) = pending m"
    and "n_queues (seek prio pmax m) = n_queues m"
proof -
  obtain c f n where s: "seek_loop prio 0 (queues m) (0, pmax, pmax) = (c, f, n)" by (metis prod_cases3)
  show "pending (seek prio pmax m) = pending m" "n_queues (seek prio pmax m) = n_queues m"
    using s by (auto simp: seek_def pending_def queues_def)
  show "mux_inv prio pmax (seek prio pmax m)"
  proof (cases "n_queues m = 0")
    case True
    then show ?thesis using assms by (simp add: seek_def mux_inv_def more_def)
  next
    case False
    have "queues m \<noteq> []" using length_queues [OF assms] False by force
    moreover have "\<forall>q\<in>set (queues m). prio (hd q) \<le> pmax" using assms by (simp add: queues_ok_def)
    ultimately have "least_head prio c n (queues m)" using s by (rule seek_least_head)
    then show ?thesis
      using assms False s by (simp add: seek_def mux_inv_def queues_ok_def queues_def)
  qed
qed

subsection \<open>Popping\<close>

lemma mset_concat_eq: "mset (concat qs) = sum_mset (image_mset mset (mset qs))"
  by (induction qs) auto

lemma pending_remove:
  "i < length qs \<Longrightarrow> mset (concat qs) = mset (qs ! i) + sum_mset (image_mset mset (mset qs - {#qs ! i#}))"
  unfolding mset_concat_eq by (subst mset_add [of "qs ! i" "mset qs"]) auto

lemma pending_swap_erase:
  "i < length qs \<Longrightarrow> mset (concat qs) = mset (qs ! i) + mset (concat (swap_erase i qs))"
  using pending_remove [of i qs] by (simp add: mset_concat_eq mset_swap_erase)

lemma pending_update:
  "i < length qs \<Longrightarrow> mset (concat (qs[i := q])) + mset (qs ! i) = mset (concat qs) + mset q"
  using pending_remove [of i qs] by (simp add: mset_concat_eq mset_update)

lemma set_swap_erase_subset: "i < length xs \<Longrightarrow> set (swap_erase i xs) \<subseteq> set xs"
  by (metis diff_subset_eq_self mset_swap_erase set_mset_mono set_mset_mset)

text \<open>The removal of an emptied queue: the last queue in use moves into its place.\<close>

lemma queues_remove:
  assumes "c < n" and "n \<le> length ps"
  shows "take (n - 1) (if int c < int n - 1 then (ps[c := q])[c := ps[c := q] ! (n - 1)] else ps[c := q]) =
         swap_erase c (take n ps)"
proof -
  have last: "last (take n ps) = ps ! (n - 1)" using assms by (subst last_conv_nth) auto
  show ?thesis
  proof (cases "int c < int n - 1")
    case True
    then have "c \<noteq> n - 1" by auto
    then show ?thesis
      using True assms last by (simp add: swap_erase_def butlast_conv_take take_update_swap min_def)
  next
    case False
    then have "c = n - 1" using assms by auto
    then show ?thesis using False assms last by (simp add: swap_erase_def butlast_conv_take min_def)
  qed
qed

lemma pop_correct:
  assumes inv: "mux_inv prio pmax m" and more: "more m"
    and p: "pop prio pmax dflt m = (x, m')"
  shows "x = peek dflt m \<and> x \<in># pending m \<and> (\<forall>y\<in>#pending m. prio x \<le> prio y) \<and>
         pending m' = pending m - {#x#} \<and> mux_inv prio pmax m'"
proof -
  have ok: "queues_ok prio pmax m" and lh: "least_head prio (current m) (next_prio m) (queues m)"
    using inv more by (simp_all add: mux_inv_def)
  let ?c = "nat (current m)" and ?qs = "queues m"
  have len: "length ?qs = n_queues m" by (rule length_queues [OF ok])
  have c: "?c < length ?qs" using lh by (simp add: least_head_def)
  have nth: "ptrs m ! ?c = ?qs ! ?c" using c len by (simp add: queues_def)
  define rest where "rest = tl (ptrs m ! ?c)"
  have q: "?qs ! ?c \<noteq> []" "sorted (map prio (?qs ! ?c))" "\<forall>y\<in>set (?qs ! ?c). prio y \<le> pmax"
    using ok nth_mem [OF c] by (auto simp: queues_ok_def)
  have "x = hd (?qs ! ?c)" using p more nth by (auto simp: pop_def Let_def split: if_splits)
  then have x: "x = hd (?qs ! ?c)" "?qs ! ?c = x # rest" using q(1) nth by (simp_all add: rest_def)
  have least: "prio x \<le> prio y" if y: "y \<in># pending m" for y
  proof -
    obtain q where q: "q \<in> set ?qs" "y \<in> set q" using y by (auto simp: pending_def)
    then obtain i where i: "i < length ?qs" "q = ?qs ! i" unfolding in_set_conv_nth by auto
    have "sorted (map prio q)" "q \<noteq> []" using ok q by (auto simp: queues_ok_def)
    then have "prio (hd q) \<le> prio y" using q(2) by (cases q) auto
    moreover have "prio x \<le> prio (hd q)" using lh i x(1) by (simp add: least_head_def)
    ultimately show ?thesis by simp
  qed
  have mem: "x \<in># pending m" using pending_remove [OF c] x(2) by (simp add: pending_def)
  have pk: "x = peek dflt m" using more x(1) nth by (simp add: peek_def)
  have "pending m' = pending m - {#x#} \<and> mux_inv prio pmax m'"
  proof (cases "rest = []")
    case True
    define m2 where "m2 = m\<lparr>ptrs := (if int ?c < int (n_queues m) - 1
        then ((ptrs m)[?c := []])[?c := (ptrs m)[?c := []] ! (n_queues m - 1)] else (ptrs m)[?c := []]),
        n_queues := n_queues m - 1\<rparr>"
    have m': "m' = seek prio pmax m2"
      using p more True by (simp add: pop_def Let_def rest_def m2_def split: if_splits)
    have qs: "queues m2 = swap_erase ?c ?qs"
      using queues_remove [of ?c "n_queues m" "ptrs m" "[]"] c len ok
      by (simp add: queues_def m2_def queues_ok_def)
    have "queues_ok prio pmax m2"
      using ok set_swap_erase_subset [OF c] qs unfolding queues_ok_def by (auto simp: m2_def)
    moreover have "pending m = add_mset x (pending m2)"
      using pending_swap_erase [OF c] x(2) True qs by (simp add: pending_def)
    ultimately show ?thesis using seek_inv [of prio pmax m2] m' by simp
  next
    case False
    define m1 where "m1 = m\<lparr>ptrs := (ptrs m)[?c := rest]\<rparr>"
    have m': "m' = (if prio (hd rest) > next_prio m then seek prio pmax m1 else m1)"
      using p more False by (auto simp: pop_def Let_def rest_def m1_def split: if_splits)
    have qs: "queues m1 = ?qs[?c := rest]" by (simp add: queues_def m1_def take_update_swap)
    have "rest \<noteq> [] \<and> sorted (map prio rest) \<and> (\<forall>y\<in>set rest. prio y \<le> pmax)"
      using False q x(2) by simp
    then have ok1: "queues_ok prio pmax m1"
      using ok qs set_update_subset_insert [of ?qs ?c rest] unfolding queues_ok_def m1_def by auto
    have pend: "pending m = add_mset x (pending m1)"
      using pending_update [OF c, of rest] x(2) qs by (simp add: pending_def)
    show ?thesis
    proof (cases "prio (hd rest) > next_prio m")
      case True
      then show ?thesis using seek_inv [OF ok1] m' pend by simp
    next
      case small: False
      have "least_head prio (current m) (next_prio m) (?qs[?c := rest])"
        using lh small c by (auto simp: least_head_def nth_list_update intro: order_trans)
      then have "mux_inv prio pmax m1"
        using ok1 qs by (simp add: mux_inv_def m1_def more_def)
      then show ?thesis using small m' pend by simp
    qed
  qed
  with pk mem least show ?thesis by blast
qed

lemma assign_loop_queues:
  assumes "n_queues m + length qs \<le> length (ptrs m)"
  shows "queues (assign_loop qs m) = queues m @ filter (\<lambda>q. q \<noteq> []) (map the (filter (\<lambda>q. q \<noteq> None) qs))"
    and "length (ptrs (assign_loop qs m)) = length (ptrs m)"
    and "n_queues (assign_loop qs m) \<le> length (ptrs m)"
  using assms
proof (induction qs m rule: assign_loop.induct)
  case (3 q qs m)
  let ?m = "m\<lparr>ptrs := (ptrs m)[n_queues m := q], n_queues := (if q \<noteq> [] then n_queues m + 1 else n_queues m)\<rparr>"
  case 1
  then have "queues ?m = queues m @ filter (\<lambda>q. q \<noteq> []) [q]"
    by (auto simp: queues_def take_Suc_conv_app_nth take_update_swap list_update_append list_update_beyond)
  then show ?case using 3(1) 1 by simp
next
  case (3 q qs m)
  note ih = 3
  case 2
  then show ?case using ih(2) by simp
next
  case (3 q qs m)
  note ih = 3
  case 3
  then show ?case using ih(3) by simp
qed (simp_all add: queues_def)

text \<open>The whole iteration: a sorted merge of the queues, in as many steps as there are elements.\<close>

lemma pending_empty: "mux_inv prio pmax m \<Longrightarrow> pending m = {#} \<longleftrightarrow> \<not> more m"
proof -
  assume inv: "mux_inv prio pmax m"
  then have ok: "queues_ok prio pmax m" by (simp add: mux_inv_def)
  have "\<not> more m \<Longrightarrow> queues m = []" by (simp add: more_def queues_def)
  moreover have "more m \<Longrightarrow> queues m ! 0 \<in> set (queues m)"
    using length_queues [OF ok] by (simp add: more_def)
  then have "more m \<Longrightarrow> \<exists>q\<in>set (queues m). q \<noteq> []" using ok by (auto simp: queues_ok_def)
  ultimately show ?thesis by (auto simp: pending_def)
qed

lemma for_each_merges:
  "mux_inv prio pmax m \<Longrightarrow> count_pending m = k \<Longrightarrow>
     \<exists>out. for_each prio pmax dflt k (iter_begin m) = Some out \<and> for_each prio pmax dflt k (Some m) = Some out \<and>
           sorted (map prio out) \<and> mset out = pending m"
proof (induction k arbitrary: m)
  case 0
  then have "\<not> more m" using pending_empty [OF 0(1)] by (simp add: count_pending_size)
  then show ?case using 0 by (simp add: iter_begin_def iter_more_def count_pending_size)
next
  case (Suc k)
  then have more: "more m" using pending_empty [OF Suc.prems(1)] by (auto simp: count_pending_size)
  obtain x m' where p: "pop prio pmax dflt m = (x, m')" by (cases "pop prio pmax dflt m")
  note c = pop_correct [OF Suc.prems(1) more p]
  have "count_pending m' = k"
    using c Suc.prems(2) unfolding count_pending_size by (metis diff_Suc_1 size_Diff_singleton)
  then obtain out where out: "for_each prio pmax dflt k (Some m') = Some out" "sorted (map prio out)"
      "mset out = pending m'"
    using Suc.IH [of m'] c by blast
  have "set out \<subseteq> set_mset (pending m)" using out(3) c by (metis in_diffD set_mset_mset subsetI)
  then have "sorted (map prio (x # out))" using out(2) c by auto
  moreover have "mset (x # out) = pending m" using out(3) c by (metis insert_DiffM mset.simps(2))
  moreover have "for_each prio pmax dflt (Suc k) (Some m) = Some (x # out)"
    using more p out(1) c by (simp add: iter_more_def iter_deref_def iter_next_def)
  moreover have "iter_begin m = Some m" using more by (simp add: iter_begin_def)
  ultimately show ?case by metis
qed

lemma assign_inv:
  assumes "length qs \<le> length (ptrs m)"
    and "\<forall>q\<in>set qs. \<forall>v. q = Some v \<longrightarrow> sorted (map prio v) \<and> (\<forall>x\<in>set v. prio x \<le> pmax)"
    and "mux_assign prio pmax qs m = (r, m')"
  shows "mux_inv prio pmax m'" and "pending m' = mset (concat (map the (filter (\<lambda>q. q \<noteq> None) qs)))"
    and "r = more m'"
proof -
  let ?a = "assign_loop qs (m\<lparr>n_queues := 0\<rparr>)"
  have q: "queues ?a = filter (\<lambda>q. q \<noteq> []) (map the (filter (\<lambda>q. q \<noteq> None) qs))"
    and n: "n_queues ?a \<le> length (ptrs ?a)"
    using assign_loop_queues [of "m\<lparr>n_queues := 0\<rparr>" qs] assms(1) by (simp_all add: queues_def)
  have "queues_ok prio pmax ?a" using q n assms(2) by (auto simp: queues_ok_def)
  moreover have "m' = seek prio pmax ?a" "r = more m'" using assms(3) by (auto simp: mux_assign_def Let_def)
  moreover have "concat (filter (\<lambda>q. q \<noteq> []) l) = concat l" for l :: "'a list list" by (induction l) auto
  ultimately show "mux_inv prio pmax m'" and "pending m' = mset (concat (map the (filter (\<lambda>q. q \<noteq> None) qs)))"
    and "r = more m'"
    using seek_inv [of prio pmax ?a] q by (simp_all add: pending_def)
qed

subsection \<open>Properties\<close>

text \<open>
  C21: after \<open>assign\<close> of up to \<open>MAXQUEUES\<close> queues that each ascend in priority, iterating over the
  multiplexer ends after \<open>count_pending()\<close> steps and yields all the elements of all the queues, in
  ascending priority.
\<close>

theorem mux_merges_sorted:
  assumes "length qs \<le> length (ptrs m)"
    and "\<forall>q\<in>set qs. \<forall>v. q = Some v \<longrightarrow> sorted (map prio v) \<and> (\<forall>x\<in>set v. prio x \<le> pmax)"
    and "mux_assign prio pmax qs m = (r, m')"
  shows "\<exists>out. for_each prio pmax dflt (count_pending m') (iter_begin m') = Some out \<and>
           sorted (map prio out) \<and> mset out = mset (concat (map the (filter (\<lambda>q. q \<noteq> None) qs))) \<and>
           (r \<longleftrightarrow> out \<noteq> [])"
proof -
  note a = assign_inv [OF assms]
  obtain out where "for_each prio pmax dflt (count_pending m') (iter_begin m') = Some out"
    "sorted (map prio out)" "mset out = pending m'"
    using for_each_merges [OF a(1) refl] by blast
  moreover from this have "r \<longleftrightarrow> out \<noteq> []" using pending_empty [OF a(1)] a(3) by auto
  ultimately show ?thesis using a(2) by auto
qed

theorem mux_merges_sorted_witness:
  "for_each id 2147483647 0 5 (iter_begin (snd (mux_assign id 2147483647 [Some [1, 4], None, Some [2, 2, 9 :: int]]
     (new_mux 3)))) = Some [1, 2, 2, 4, 9] \<and>
   sorted (map id [1, 2, 2, 4, 9 :: int])"
proof -
  let ?qs = "[Some [1, 4], None, Some [2, 2, 9 :: int]]"
  obtain r m' where a: "mux_assign id 2147483647 ?qs (new_mux 3) = (r, m')" by (metis prod.exhaust)
  have p: "\<forall>q\<in>set ?qs. \<forall>v. q = Some v \<longrightarrow> sorted (map id v) \<and> (\<forall>x\<in>set v. id x \<le> 2147483647)" by simp
  have n: "length ?qs \<le> length (ptrs (new_mux 3 :: int mux))" by (simp add: new_mux_def)
  obtain out where o: "for_each id 2147483647 0 (count_pending m') (iter_begin m') = Some out"
    "sorted (map id out)" "mset out = mset [1, 2, 2, 4, 9]"
    using mux_merges_sorted [OF n p a, of 0] by auto
  have "out = [1, 2, 2, 4, 9]"
    using properties_for_sort [OF o(3) [symmetric]] properties_for_sort [of out "[1, 2, 2, 4, 9]"] o(2,3) by simp
  moreover have "count_pending m' = 5"
    using assign_inv(2) [OF n p a] by (simp add: count_pending_size)
  ultimately show ?thesis using o a by simp
qed

end
