(* ===== verification/Lookup.thy ===== *)
theory Lookup
  imports Prelude
begin

section \<open>Binary lookups and vector utilities (ase/utils.hh, namespace Aux)\<close>

text \<open>
  The algorithms of \<open>Ase::Aux\<close> over random access ranges and vectors.  An iterator is its index in
  the range, \<open>end\<close> is the length of the range.  A three way comparison \<open>cmp_elements (arg, elem)\<close> is
  an integer valued function; its contract, which the ordered containers of the program rely on, is
  the locale \<open>total_compare\<close>, and that of a boolean \<open>lesser\<close> functor the locale \<open>strict_weak\<close>.
\<close>

subsection \<open>Comparison functions\<close>

definition compare_lesser :: "'v::linorder \<Rightarrow> 'v \<Rightarrow> int" where
  "compare_lesser v1 v2 = (if v1 < v2 then -1 else 0) OR (if v2 < v1 then 1 else 0)"

definition compare_greater :: "'v::linorder \<Rightarrow> 'v \<Rightarrow> int" where
  "compare_greater v1 v2 = (if v1 < v2 then 1 else 0) OR (if v2 < v1 then -1 else 0)"

lemma compare_lesser_cases [simp]:
  "compare_lesser v1 v2 < 0 \<longleftrightarrow> v1 < v2" "0 < compare_lesser v1 v2 \<longleftrightarrow> v2 < v1"
  "compare_lesser v1 v2 = 0 \<longleftrightarrow> v1 = v2" "compare_lesser v1 v2 \<le> 0 \<longleftrightarrow> v1 \<le> v2"
  "0 \<le> compare_lesser v1 v2 \<longleftrightarrow> v2 \<le> v1"
  by (auto simp: compare_lesser_def)

lemma compare_greater_eq [simp]: "compare_greater v1 v2 = compare_lesser v2 v1"
  by (auto simp: compare_lesser_def compare_greater_def)

subsection \<open>Contracts of comparison functors\<close>

text \<open>\<open>lesser\<close> is a strict weak order: what \<open>std::sort\<close>, \<open>std::lower_bound\<close> and the containers ask for.\<close>

locale strict_weak =
  fixes lesser :: "'a \<Rightarrow> 'a \<Rightarrow> bool"
  assumes lesser_irrefl: "\<not> lesser x x"
    and lesser_trans: "lesser x y \<Longrightarrow> lesser y z \<Longrightarrow> lesser x z"
    and lesser_incomp: "lesser x z \<Longrightarrow> lesser x y \<or> lesser y z"
begin

lemma lesser_asym: "lesser x y \<Longrightarrow> \<not> lesser y x"
  using lesser_irrefl lesser_trans by blast

lemma le_trans: "\<not> lesser y x \<Longrightarrow> \<not> lesser z y \<Longrightarrow> \<not> lesser z x"
  using lesser_incomp by blast

lemma le_less_trans: "\<not> lesser y x \<Longrightarrow> lesser y z \<Longrightarrow> lesser x z"
  using lesser_incomp by blast

lemma less_le_trans: "lesser x y \<Longrightarrow> \<not> lesser z y \<Longrightarrow> lesser x z"
  using lesser_incomp by blast

lemma transp_le: "transp (\<lambda>x y. \<not> lesser y x)"
  by (rule transpI) (rule le_trans)

lemma transp_lesser: "transp lesser"
  by (rule transpI) (rule lesser_trans)

end

text \<open>A three way comparison: a total preorder, read from the sign of the result.\<close>

locale total_compare =
  fixes cmp :: "'a \<Rightarrow> 'a \<Rightarrow> int"
  assumes cmp_flip: "cmp x y < 0 \<longleftrightarrow> 0 < cmp y x"
    and cmp_trans: "cmp x y \<le> 0 \<Longrightarrow> cmp y z \<le> 0 \<Longrightarrow> cmp x z \<le> 0"

text \<open>Every three way comparison yields a strict weak order, \<open>compare (a, b) < 0\<close>.\<close>

sublocale total_compare \<subseteq> by_cmp: strict_weak "\<lambda>a b. cmp a b < 0"
proof
  fix x y z
  have flip: "(0 < cmp u v) = (cmp v u < 0)" "(0 \<le> cmp u v) = (cmp v u \<le> 0)" for u v
    using cmp_flip [of v u] cmp_flip [of u v] by auto
  show "\<not> cmp x x < 0" using cmp_flip [of x x] by auto
  show "cmp x z < 0" if "cmp x y < 0" "cmp y z < 0"
    using that cmp_trans [of z x y] cmp_flip [of y z] cmp_flip [of z x] cmp_flip [of x z]
    by (smt (verit) cmp_flip cmp_trans)
  show "cmp x y < 0 \<or> cmp y z < 0" if "cmp x z < 0"
    using that cmp_trans [of z y x] flip [of z y] flip [of y x] flip [of z x] flip
    by (smt (verit) cmp_flip cmp_trans)
qed

context total_compare
begin

lemma cmp_self [simp]: "cmp x x = 0"
  using cmp_flip [of x x] by linarith

lemma cmp_flip_le: "cmp x y \<le> 0 \<longleftrightarrow> 0 \<le> cmp y x"
  using cmp_flip [of y x] by auto

lemma cmp_flip_eq: "cmp x y = 0 \<longleftrightarrow> cmp y x = 0"
  using cmp_flip [of x y] cmp_flip [of y x] by linarith

lemma cmp_eq_left: "cmp x y = 0 \<Longrightarrow> sgn (cmp x z) = sgn (cmp y z)"
  by (smt (verit) cmp_flip cmp_trans sgn_if)

lemma cmp_eq_right: "cmp x y = 0 \<Longrightarrow> sgn (cmp z x) = sgn (cmp z y)"
  by (smt (verit) cmp_flip cmp_trans sgn_if)

end

subsection \<open>Binary lookup\<close>

text \<open>
  The loop of \<open>binary_lookup_fuzzy\<close>: the interval is \<open>[offs, n_elements)\<close>, \<open>current\<close> and \<open>cm\<close> are the
  last visited position and comparison.  \<open>Inl\<close> is the early return of an exact match.
\<close>

function fuzzy_loop :: "('a \<Rightarrow> int) \<Rightarrow> 'a list \<Rightarrow> nat \<Rightarrow> nat \<Rightarrow> nat \<Rightarrow> int \<Rightarrow> nat + (nat \<times> int)" where
  "fuzzy_loop c v offs n_elements current cm =
     (if offs < n_elements then
        let i = (offs + n_elements) div 2; cm' = c (v ! i) in
        if cm' = 0 then Inl i
        else if cm' < 0 then fuzzy_loop c v offs i i cm'
        else fuzzy_loop c v (i + 1) n_elements i cm'
      else Inr (current, cm))"
  by pat_completeness auto
termination
  by (relation "measure (\<lambda>(c, v, offs, n, _). n - offs)") auto

declare fuzzy_loop.simps [simp del]

definition binary_lookup_fuzzy :: "nat \<Rightarrow> ('a \<Rightarrow> int) \<Rightarrow> 'a list \<Rightarrow> nat \<times> bool" where
  "binary_lookup_fuzzy lookup_case c v =
     (let want_lookup = lookup_case = 0; want_insertion_pos = lookup_case > 1 in
      case fuzzy_loop c v 0 (length v) (length v) 0 of
        Inl i \<Rightarrow> if want_insertion_pos then (i, True) else (i, False)
      | Inr (current, cm) \<Rightarrow>
          if want_lookup then (length v, False)
          else if want_insertion_pos \<and> cm > 0 then (current + 1, False)
          else (current, False))"

definition binary_lookup_insertion_pos :: "('a \<Rightarrow> int) \<Rightarrow> 'a list \<Rightarrow> nat \<times> bool" where
  "binary_lookup_insertion_pos c v = binary_lookup_fuzzy 2 c v"

definition binary_lookup_sibling :: "('a \<Rightarrow> int) \<Rightarrow> 'a list \<Rightarrow> nat" where
  "binary_lookup_sibling c v = fst (binary_lookup_fuzzy 1 c v)"

definition binary_lookup :: "('a \<Rightarrow> int) \<Rightarrow> 'a list \<Rightarrow> nat" where
  "binary_lookup c v = fst (binary_lookup_fuzzy 0 c v)"

text \<open>\<open>vec.insert (it, value)\<close> and \<open>insert_sorted\<close>.\<close>

definition insert_at :: "nat \<Rightarrow> 'a \<Rightarrow> 'a list \<Rightarrow> 'a list" where
  "insert_at i x v = take i v @ x # drop i v"

definition insert_sorted :: "('a \<Rightarrow> 'a \<Rightarrow> int) \<Rightarrow> 'a \<Rightarrow> 'a list \<Rightarrow> nat \<times> 'a list" where
  "insert_sorted cmp x v =
     (let it = fst (binary_lookup_insertion_pos (cmp x) v) in (it, insert_at it x v))"

subsection \<open>Linear vector utilities\<close>

fun erase_first :: "('a \<Rightarrow> bool) \<Rightarrow> 'a list \<Rightarrow> nat \<times> 'a list" where
  "erase_first pred [] = (0, [])"
| "erase_first pred (x # v) =
     (if pred x then (1, v) else let (n, v') = erase_first pred v in (n, x # v'))"

fun erase_all :: "('a \<Rightarrow> bool) \<Rightarrow> 'a list \<Rightarrow> nat \<times> 'a list" where
  "erase_all pred [] = (0, [])"
| "erase_all pred (x # v) =
     (let (c, v') = erase_all pred v in if pred x then (c + 1, v') else (c, x # v'))"

fun contains :: "('a \<Rightarrow> bool) \<Rightarrow> 'a list \<Rightarrow> bool" where
  "contains pred [] = False"
| "contains pred (x # v) = (if pred x then True else contains pred v)"

fun index_of_from :: "int \<Rightarrow> ('a \<Rightarrow> bool) \<Rightarrow> 'a list \<Rightarrow> int" where
  "index_of_from index match [] = -1"
| "index_of_from index match (x # v) = (if match x then index else index_of_from (index + 1) match v)"

definition index_of :: "('a \<Rightarrow> bool) \<Rightarrow> 'a list \<Rightarrow> int" where
  "index_of match v = index_of_from 0 match v"

subsection \<open>Correctness of the binary lookup\<close>

text \<open>
  The range is ordered for the searched argument: the sign of the comparison never rises along it.
\<close>

definition descends :: "('a \<Rightarrow> int) \<Rightarrow> 'a list \<Rightarrow> bool" where
  "descends c v \<longleftrightarrow> sorted_wrt (\<lambda>x y. sgn (c y) \<le> sgn (c x)) v"

lemma descends_nth: "descends c v \<Longrightarrow> i \<le> j \<Longrightarrow> j < length v \<Longrightarrow> sgn (c (v ! j)) \<le> sgn (c (v ! i))"
  by (cases "i = j") (auto simp: descends_def sorted_wrt_iff_nth_less)

lemma descends_neg: "descends c v \<Longrightarrow> c (v ! i) < 0 \<Longrightarrow> i \<le> j \<Longrightarrow> j < length v \<Longrightarrow> c (v ! j) < 0"
  using descends_nth [of c v i j] by (auto simp: sgn_if split: if_splits)

lemma descends_pos: "descends c v \<Longrightarrow> 0 < c (v ! j) \<Longrightarrow> i \<le> j \<Longrightarrow> j < length v \<Longrightarrow> 0 < c (v ! i)"
  using descends_nth [of c v i j] by (auto simp: sgn_if split: if_splits)

definition splits_at :: "('a \<Rightarrow> int) \<Rightarrow> 'a list \<Rightarrow> nat \<Rightarrow> nat \<Rightarrow> bool" where
  "splits_at c v p q \<longleftrightarrow>
     p \<le> q \<and> q \<le> length v \<and> (\<forall>i<p. 0 < c (v ! i)) \<and> (\<forall>i. q \<le> i \<longrightarrow> i < length v \<longrightarrow> c (v ! i) < 0)"

lemma fuzzy_loop_result:
  assumes "descends c v" and "splits_at c v offs n"
    and "(cm < 0 \<and> current = n) \<or> (cm > 0 \<and> current + 1 = offs) \<or> (cm = 0 \<and> current = length v \<and> offs = 0 \<and> n = length v)"
  shows "case fuzzy_loop c v offs n current cm of
           Inl i \<Rightarrow> i < length v \<and> c (v ! i) = 0
         | Inr (cur, cm') \<Rightarrow> (\<exists>p. splits_at c v p p \<and>
              ((cm' < 0 \<and> cur = p) \<or> (cm' > 0 \<and> cur + 1 = p) \<or> (cm' = 0 \<and> cur = p \<and> v = [])))"
  using assms
proof (induction c v offs n current cm rule: fuzzy_loop.induct)
  case (1 c v offs n current cm)
  define i where "i = (offs + n) div 2"
  show ?case
  proof (cases "offs < n")
    case False
    then have "splits_at c v n n" using "1.prems"(2) by (auto simp: splits_at_def)
    then show ?thesis
      using False "1.prems"(2,3) by (subst fuzzy_loop.simps) (auto simp: splits_at_def)
  next
    case True
    then have i: "offs \<le> i" "i < n" by (auto simp: i_def)
    have n: "n \<le> length v" using "1.prems"(2) by (simp add: splits_at_def)
    consider "c (v ! i) = 0" | "c (v ! i) < 0" | "0 < c (v ! i)" by linarith
    then show ?thesis
    proof cases
      case 1
      then show ?thesis using True i n by (subst fuzzy_loop.simps) (simp add: i_def [symmetric] Let_def)
    next
      case 2
      have "splits_at c v offs i"
        using "1.prems"(1,2) i n 2 descends_neg [OF "1.prems"(1) 2] by (auto simp: splits_at_def)
      then show ?thesis
        using "1.IH"(1) [OF True i_def refl] "1.prems"(1) 2 True
        by (subst fuzzy_loop.simps) (simp add: i_def [symmetric] Let_def)
    next
      case 3
      have "splits_at c v (i + 1) n"
        using "1.prems"(1,2) i n 3 descends_pos [OF "1.prems"(1) 3] by (auto simp: splits_at_def)
      then show ?thesis
        using "1.IH"(2) [OF True i_def refl] "1.prems"(1) 3 True
        by (subst fuzzy_loop.simps) (simp add: i_def [symmetric] Let_def)
    qed
  qed
qed

lemma splits_at_whole: "splits_at c v 0 (length v)"
  by (simp add: splits_at_def)

lemma binary_lookup_insertion_pos_cases:
  assumes "descends c v"
  obtains (exact) i where "binary_lookup_insertion_pos c v = (i, True)" "i < length v" "c (v ! i) = 0"
    | (between) p where "binary_lookup_insertion_pos c v = (p, False)" "splits_at c v p p"
proof -
  note r = fuzzy_loop_result [OF assms splits_at_whole, of 0 "length v"]
  show thesis
  proof (cases "fuzzy_loop c v 0 (length v) (length v) 0")
    case (Inl i)
    then show thesis using r that(1) [of i]
      by (simp add: binary_lookup_insertion_pos_def binary_lookup_fuzzy_def)
  next
    case (Inr a)
    obtain cur cm where a: "a = (cur, cm)" by (cases a)
    then obtain p where p: "splits_at c v p p"
      "(cm < 0 \<and> cur = p) \<or> (cm > 0 \<and> cur + 1 = p) \<or> (cm = 0 \<and> cur = p \<and> v = [])"
      using r Inr by auto
    then have "binary_lookup_insertion_pos c v = (p, False)"
      using Inr a by (auto simp: binary_lookup_insertion_pos_def binary_lookup_fuzzy_def)
    then show thesis using p(1) that(2) by blast
  qed
qed

lemma splits_at_no_match: "splits_at c v p p \<Longrightarrow> i < length v \<Longrightarrow> c (v ! i) \<noteq> 0"
  by (metis linorder_not_le order_less_irrefl splits_at_def)

lemma binary_lookup_cases:
  assumes "descends c v"
  obtains (exact) i where "binary_lookup c v = i" "i < length v" "c (v ! i) = 0"
    | (none) "binary_lookup c v = length v" "\<forall>x\<in>set v. c x \<noteq> 0"
proof -
  note r = fuzzy_loop_result [OF assms splits_at_whole, of 0 "length v"]
  show thesis
  proof (cases "fuzzy_loop c v 0 (length v) (length v) 0")
    case (Inl i)
    then show thesis using r that(1) [of i] by (simp add: binary_lookup_def binary_lookup_fuzzy_def)
  next
    case (Inr a)
    obtain cur cm where a: "a = (cur, cm)" by (cases a)
    then obtain p where "splits_at c v p p" using r Inr by auto
    then have "\<forall>x\<in>set v. c x \<noteq> 0" by (auto simp: in_set_conv_nth dest: splits_at_no_match)
    moreover have "binary_lookup c v = length v"
      using Inr a by (simp add: binary_lookup_def binary_lookup_fuzzy_def)
    ultimately show thesis using that(2) by blast
  qed
qed

lemma length_insert_at [simp]: "length (insert_at i x v) = Suc (length v)"
  by (simp add: insert_at_def min_def)

lemma mset_insert_at [simp]: "mset (insert_at i x v) = add_mset x (mset v)"
proof -
  have "mset (insert_at i x v) = add_mset x (mset (take i v) + mset (drop i v))"
    unfolding insert_at_def by simp
  also have "mset (take i v) + mset (drop i v) = mset v"
    by (metis append_take_drop_id mset_append)
  finally show ?thesis .
qed

lemma set_insert_at [simp]: "set (insert_at i x v) = insert x (set v)"
  by (metis mset_insert_at set_mset_add_mset_insert set_mset_mset)

lemma sorted_wrt_insert_at:
  assumes "sorted_wrt P v" and "\<forall>y\<in>set (take i v). P y x" and "\<forall>y\<in>set (drop i v). P x y"
  shows "sorted_wrt P (insert_at i x v)"
proof -
  have "sorted_wrt P (take i v @ drop i v)" using assms(1) by simp
  then have "sorted_wrt P (take i v)" "sorted_wrt P (drop i v)"
    "\<forall>a\<in>set (take i v). \<forall>b\<in>set (drop i v). P a b"
    by (auto simp only: sorted_wrt_append)
  then show ?thesis using assms(2,3) by (auto simp: insert_at_def sorted_wrt_append)
qed

lemma splits_at_take: "splits_at c v p p \<Longrightarrow> y \<in> set (take p v) \<Longrightarrow> 0 < c y"
  by (auto simp: splits_at_def in_set_conv_nth)

lemma splits_at_drop: "splits_at c v p p \<Longrightarrow> y \<in> set (drop p v) \<Longrightarrow> c y < 0"
  by (auto simp: splits_at_def in_set_conv_nth)

lemma erase_first_spec:
  "snd (erase_first pred v) = takeWhile (\<lambda>x. \<not> pred x) v @ tl (dropWhile (\<lambda>x. \<not> pred x) v)"
  "fst (erase_first pred v) = (if \<exists>x\<in>set v. pred x then 1 else 0)"
  by (induction v) (auto split: prod.splits)

lemma erase_all_spec:
  "erase_all pred v = (length (filter pred v), filter (\<lambda>x. \<not> pred x) v)"
  by (induction v) auto

lemma contains_iff [simp]: "contains pred v \<longleftrightarrow> (\<exists>x\<in>set v. pred x)"
  by (induction v) auto

lemma index_of_from_spec:
  "(\<forall>x\<in>set v. \<not> match x) \<and> index_of_from k match v = -1 \<or>
   (\<exists>i<length v. index_of_from k match v = k + int i \<and> match (v ! i) \<and> (\<forall>j<i. \<not> match (v ! j)))"
proof (induction v arbitrary: k)
  case (Cons x v)
  consider "match x" | "\<not> match x" "\<forall>y\<in>set v. \<not> match y" "index_of_from (k + 1) match v = -1"
    | i where "\<not> match x" "i < length v" "index_of_from (k + 1) match v = k + 1 + int i" "match (v ! i)"
      "\<forall>j<i. \<not> match (v ! j)"
    using Cons.IH [of "k + 1"] by blast
  then show ?case
  proof cases
    case 3
    then show ?thesis by (intro disjI2 exI [of _ "Suc i"]) (auto simp: less_Suc_eq_0_disj)
  qed auto
qed simp

subsection \<open>Sorted ranges\<close>

definition ordered :: "('a \<Rightarrow> 'a \<Rightarrow> int) \<Rightarrow> 'a list \<Rightarrow> bool" where
  "ordered cmp v \<longleftrightarrow> sorted_wrt (\<lambda>x y. cmp x y \<le> 0) v"

definition unique_by :: "('a \<Rightarrow> 'a \<Rightarrow> int) \<Rightarrow> 'a list \<Rightarrow> bool" where
  "unique_by cmp v \<longleftrightarrow> sorted_wrt (\<lambda>x y. cmp x y < 0) v"

context total_compare
begin

lemma unique_ordered: "unique_by cmp v \<Longrightarrow> ordered cmp v"
  unfolding ordered_def unique_by_def by (erule sorted_wrt_mono_rel [rotated]) auto

lemma ordered_descends: "ordered cmp v \<Longrightarrow> descends (cmp x) v"
  unfolding ordered_def descends_def
proof (erule sorted_wrt_mono_rel [rotated])
  fix y z assume "cmp y z \<le> 0"
  then show "sgn (cmp x z) \<le> sgn (cmp x y)"
    using cmp_trans [of x y z] cmp_flip [of x y] cmp_flip_le [of y z] cmp_trans [of y z x]
      cmp_flip_le [of z x] cmp_flip_le [of y x] cmp_flip [of y x] cmp_flip [of x z] cmp_trans [of z x y] cmp_flip
    by (smt (verit) cmp_trans sgn_if)
qed

lemma unique_insert:
  assumes "unique_by cmp v" and "splits_at (cmp x) v p p"
  shows "unique_by cmp (insert_at p x v)"
  unfolding unique_by_def
  using assms splits_at_take [OF assms(2)] splits_at_drop [OF assms(2)] cmp_flip
  by (auto intro!: sorted_wrt_insert_at simp: unique_by_def)

lemma ordered_insert_sorted:
  assumes "ordered cmp v"
  shows "ordered cmp (snd (insert_sorted cmp x v))" and "mset (snd (insert_sorted cmp x v)) = add_mset x (mset v)"
proof -
  show "mset (snd (insert_sorted cmp x v)) = add_mset x (mset v)"
    by (simp add: insert_sorted_def Let_def)
  from ordered_descends [OF assms, of x] show "ordered cmp (snd (insert_sorted cmp x v))"
  proof (cases rule: binary_lookup_insertion_pos_cases)
    case (exact i)
    have "cmp y x \<le> 0" if y: "y \<in> set (take i v)" for y
    proof -
      obtain j where "j < i" "y = v ! j" using y exact(2) unfolding in_set_conv_nth by auto
      then have "cmp y (v ! i) \<le> 0" using assms exact(2) by (auto simp: ordered_def sorted_wrt_iff_nth_less)
      then show ?thesis using cmp_trans [of y "v ! i" x] exact(3) cmp_flip_eq [of x "v ! i"] by simp
    qed
    moreover have "cmp x y \<le> 0" if y: "y \<in> set (drop i v)" for y
    proof -
      obtain k where "k < length v - i" "y = v ! (i + k)" using y exact(2) by (auto simp: in_set_conv_nth)
      then have "cmp (v ! i) y \<le> 0"
        using assms by (cases k) (auto simp: ordered_def sorted_wrt_iff_nth_less)
      then show ?thesis using cmp_trans [of x "v ! i" y] exact(3) by simp
    qed
    ultimately show ?thesis
      using assms exact by (auto simp: ordered_def insert_sorted_def intro!: sorted_wrt_insert_at)
  next
    case (between p)
    have "cmp y x \<le> 0" if "y \<in> set (take p v)" for y
      using splits_at_take [OF between(2) that] cmp_flip_le [of y x] by simp
    moreover have "cmp x y \<le> 0" if "y \<in> set (drop p v)" for y
      using splits_at_drop [OF between(2) that] by simp
    ultimately show ?thesis
      using assms between by (auto simp: ordered_def insert_sorted_def intro!: sorted_wrt_insert_at)
  qed
qed

end

end
