(* ===== verification/EventList.thy ===== *)
theory EventList
  imports Lookup
begin

section \<open>Sorted event containers (ase/eventlist.hh)\<close>

text \<open>
  \<open>EventList\<close> keeps unique events in the order of its \<open>Compare\<close> functor and reports every change
  through its notification; \<open>OrderedEventList\<close> is the read only copy in another order.  The state of
  an event list is its vector, the cached ordered copy (\<open>None\<close> after \<open>uncache\<close>) and the log of the
  notifications sent so far, each the event and \<open>+1\<close> (inserted), \<open>0\<close> (changed) or \<open>-1\<close> (removed).
  The functors are arguments; the contract of \<open>Compare\<close> is the locale \<open>total_compare\<close>, inside which
  the operations are proved once for every instance of the template.
\<close>

record 'e event_list =
  events :: "'e list"
  ordered_copy :: "'e list option"
  notified :: "('e \<times> int) list"

definition notify :: "'e \<Rightarrow> int \<Rightarrow> 'e event_list \<Rightarrow> 'e event_list" where
  "notify event change el = el\<lparr>notified := notified el @ [(event, change)]\<rparr>"

definition new_event_list :: "'e event_list" where
  "new_event_list = \<lparr>events = [], ordered_copy = None, notified = []\<rparr>"

definition clear_silently :: "'e event_list \<Rightarrow> 'e event_list" where
  "clear_silently el = el\<lparr>events := [], ordered_copy := None\<rparr>"

definition uncache :: "'e event_list \<Rightarrow> 'e event_list" where
  "uncache el = el\<lparr>ordered_copy := None\<rparr>"

text \<open>\<open>insert (event, &replaced)\<close>: the result, the value stored into \<open>replaced\<close>, the new list.\<close>

definition el_insert ::
    "('e \<Rightarrow> 'e \<Rightarrow> int) \<Rightarrow> 'e \<Rightarrow> 'e event_list \<Rightarrow> bool \<times> 'e option \<times> 'e event_list" where
  "el_insert compare event el0 =
     (let el = uncache el0; v = events el in
      if v \<noteq> [] \<and> compare event (last v) > 0
      then (False, None, notify event 1 (el\<lparr>events := v @ [event]\<rparr>))
      else
        (case binary_lookup_insertion_pos (compare event) v of
           (it, True) \<Rightarrow> (True, Some (v ! it), notify event 0 (el\<lparr>events := v[it := event]\<rparr>))
         | (it, False) \<Rightarrow> (False, None, notify event 1 (el\<lparr>events := insert_at it event v\<rparr>))))"

definition el_replace ::
    "('e \<Rightarrow> 'e \<Rightarrow> int) \<Rightarrow> 'e \<Rightarrow> 'e event_list \<Rightarrow> bool \<times> 'e option \<times> 'e event_list" where
  "el_replace compare event el =
     (case binary_lookup_insertion_pos (compare event) (events el) of
        (it, True) \<Rightarrow>
          (True, Some (events el ! it),
           notify event 0 ((uncache el)\<lparr>events := (events el)[it := event]\<rparr>))
      | (it, False) \<Rightarrow> (False, None, el))"

text \<open>
  \<open>remove\<close> looks up the event in \<open>[begin, end - 1)\<close>, so a failing \<open>binary_lookup\<close> yields the position
  \<open>end - 1\<close>, and compares that result with \<open>end\<close>.
\<close>

definition el_remove ::
    "('e \<Rightarrow> 'e \<Rightarrow> int) \<Rightarrow> 'e \<Rightarrow> 'e event_list \<Rightarrow> bool \<times> 'e option \<times> 'e event_list" where
  "el_remove compare event el0 =
     (let el = uncache el0; v = events el;
          cmp = (if v = [] then 1 else compare event (last v)) in
      if cmp = 0 then (True, Some (last v), notify event (-1) (el\<lparr>events := butlast v\<rparr>))
      else if cmp < 0 then
        (let it = binary_lookup (compare event) (butlast v) in
         if it \<noteq> length v
         then (True, Some (v ! it), notify event (-1) (el\<lparr>events := erase_at it v\<rparr>))
         else (False, None, el))
      else (False, None, el))"

definition el_first :: "'e event_list \<Rightarrow> 'e option" where
  "el_first el = (if events el = [] then None else Some (hd (events el)))"

definition el_last :: "'e event_list \<Rightarrow> 'e option" where
  "el_last el = (if events el = [] then None else Some (last (events el)))"

definition el_size :: "'e event_list \<Rightarrow> nat" where
  "el_size el = length (events el)"

text \<open>The lookups return a pointer into the vector: an index, \<open>None\<close> for \<open>nullptr\<close>.\<close>

definition el_lookup :: "('e \<Rightarrow> 'e \<Rightarrow> int) \<Rightarrow> 'e \<Rightarrow> 'e list \<Rightarrow> nat option" where
  "el_lookup compare event v =
     (let it = binary_lookup (compare event) v in if it \<noteq> length v then Some it else None)"

definition el_lookup_after :: "('e \<Rightarrow> 'e \<Rightarrow> int) \<Rightarrow> 'e \<Rightarrow> 'e list \<Rightarrow> nat option" where
  "el_lookup_after compare event v =
     (let it = fst (binary_lookup_insertion_pos (compare event) v) in
      if it \<noteq> length v then Some it else None)"

text \<open>\<open>std::stable_sort\<close> by \<open>compare (a, b) < 0\<close>, and the constructor of \<open>OrderedEventList\<close>.\<close>

fun stable_insert :: "('a \<Rightarrow> 'a \<Rightarrow> bool) \<Rightarrow> 'a \<Rightarrow> 'a list \<Rightarrow> 'a list" where
  "stable_insert lesser x [] = [x]"
| "stable_insert lesser x (y # ys) = (if lesser y x then y # stable_insert lesser x ys else x # y # ys)"

fun stable_sort :: "('a \<Rightarrow> 'a \<Rightarrow> bool) \<Rightarrow> 'a list \<Rightarrow> 'a list" where
  "stable_sort lesser [] = []"
| "stable_sort lesser (x # xs) = stable_insert lesser x (stable_sort lesser xs)"

definition OrderedEventList :: "('e \<Rightarrow> 'e \<Rightarrow> int) \<Rightarrow> 'e list \<Rightarrow> 'e list" where
  "OrderedEventList compare ve = stable_sort (\<lambda>a b. compare a b < 0) ve"

definition ordered_events :: "('e \<Rightarrow> 'e \<Rightarrow> int) \<Rightarrow> 'e event_list \<Rightarrow> 'e list \<times> 'e event_list" where
  "ordered_events order el =
     (case ordered_copy el of
        Some oe \<Rightarrow> (oe, el)
      | None \<Rightarrow> let oe = OrderedEventList order (events el) in (oe, el\<lparr>ordered_copy := Some oe\<rparr>))"

subsection \<open>Stable sorting\<close>

lemma mset_stable_insert [simp]: "mset (stable_insert lesser x xs) = add_mset x (mset xs)"
  by (induction xs) auto

lemma mset_stable_sort [simp]: "mset (stable_sort lesser xs) = mset xs"
  by (induction xs) auto

lemma set_stable_sort [simp]: "set (stable_sort lesser xs) = set xs"
  by (metis mset_stable_sort set_mset_mset)

lemma set_stable_insert [simp]: "set (stable_insert lesser x xs) = insert x (set xs)"
  by (metis mset_stable_insert set_mset_add_mset_insert set_mset_mset)

lemma length_stable_sort [simp]: "length (stable_sort lesser xs) = length xs"
  by (metis mset_stable_sort size_mset)

context strict_weak
begin

lemma sorted_stable_insert:
  "sorted_wrt (\<lambda>x y. \<not> lesser y x) xs \<Longrightarrow> sorted_wrt (\<lambda>x y. \<not> lesser y x) (stable_insert lesser x xs)"
  by (induction xs) (auto dest: lesser_asym le_trans intro: le_trans)

lemma sorted_stable_sort: "sorted_wrt (\<lambda>x y. \<not> lesser y x) (stable_sort lesser xs)"
  by (induction xs) (auto intro: sorted_stable_insert)

text \<open>Elements that compare equal keep their order.\<close>

lemma filter_stable_insert:
  assumes "\<And>y z. P y \<Longrightarrow> P z \<Longrightarrow> \<not> lesser y z"
  shows "filter P (stable_insert lesser x xs) = filter P (x # xs)"
  using assms by (induction xs) auto

lemma stable_sort_stable:
  assumes "\<And>y z. P y \<Longrightarrow> P z \<Longrightarrow> \<not> lesser y z"
  shows "filter P (stable_sort lesser xs) = filter P xs"
  using filter_stable_insert [of P, OF assms] by (induction xs) auto

end

subsection \<open>The operations on a unique, sorted vector\<close>

context total_compare
begin

lemma lookup_unique_exact:
  assumes "unique_by cmp v" and "i < length v" and "cmp x (v ! i) = 0" and "y \<in> set v" and "cmp x y = 0"
  shows "y = v ! i"
proof -
  obtain j where j: "j < length v" "y = v ! j" using assms(4) by (auto simp: in_set_conv_nth)
  have "cmp (v ! i) (v ! j) = 0"
    using assms(3,5) j cmp_eq_left [of x "v ! i" "v ! j"] by (auto simp: sgn_if split: if_splits)
  then have "i = j"
    using assms(1,2) j cmp_flip_eq [of "v ! i" "v ! j"] unfolding unique_by_def sorted_wrt_iff_nth_less
    by (metis less_irrefl linorder_neqE_nat)
  with j show ?thesis by simp
qed

lemma unique_butlast: "unique_by cmp v \<Longrightarrow> unique_by cmp (butlast v)"
  by (cases v rule: rev_cases) (auto simp: unique_by_def sorted_wrt_append)

lemma unique_update:
  assumes "unique_by cmp v" and "i < length v" and "cmp x (v ! i) = 0"
  shows "unique_by cmp (v[i := x])"
proof -
  have "cmp (v[i := x] ! j) (v[i := x] ! k) < 0" if "j < k" "k < length v" for j k
  proof -
    have "cmp (v ! j) (v ! k) < 0" using assms(1) that by (simp add: unique_by_def sorted_wrt_iff_nth_less)
    then show ?thesis
      using that assms(2,3) cmp_eq_left [of x "v ! i" "v ! k"] cmp_eq_right [of x "v ! i" "v ! j"]
      by (cases "j = i"; cases "k = i") (auto simp: nth_list_update sgn_if split: if_splits)
  qed
  then show ?thesis by (simp add: unique_by_def sorted_wrt_iff_nth_less)
qed

lemma unique_append_last:
  assumes "unique_by cmp v" and "v \<noteq> []" and "cmp x (last v) > 0"
  shows "unique_by cmp (v @ [x])"
proof -
  have "cmp y x < 0" if "y \<in> set v" for y
  proof -
    obtain w z where v: "v = w @ [z]" using assms(2) by (cases v rule: rev_cases) auto
    then have "cmp y z \<le> 0" using assms(1) that by (auto simp: unique_by_def sorted_wrt_append intro: less_imp_le)
    moreover have "cmp z x < 0" using assms(3) v cmp_flip [of z x] by simp
    ultimately show ?thesis using by_cmp.le_less_trans [of z y x] cmp_flip_le [of y z] by simp
  qed
  then show ?thesis using assms(1) by (simp add: unique_by_def sorted_wrt_append)
qed

lemma unique_erase: "unique_by cmp v \<Longrightarrow> unique_by cmp (erase_at i v)"
  unfolding unique_by_def by (rule sorted_wrt_erase_at)

lemma unique_distinct:
  assumes "unique_by cmp v"
  shows "distinct v"
proof -
  have "v ! i \<noteq> v ! j" if "i < j" "j < length v" for i j
    using assms that cmp_self [of "v ! i"] by (metis less_irrefl sorted_wrt_iff_nth_less unique_by_def)
  then show ?thesis unfolding distinct_conv_nth by (metis linorder_neqE_nat)
qed

lemma set_unique_update:
  assumes "unique_by cmp v" and "i < length v" and "cmp x (v ! i) = 0"
  shows "set (v[i := x]) = insert x {y \<in> set v. cmp x y \<noteq> 0}"
proof -
  have "{y \<in> set v. cmp x y \<noteq> 0} = set v - {v ! i}"
    using lookup_unique_exact [OF assms] assms(3) by auto
  then show ?thesis using set_update_distinct [OF unique_distinct [OF assms(1)] assms(2)] by simp
qed

text \<open>What the vector holds after an insertion: the matching event is replaced, all others stay.\<close>

lemma el_insert_correct:
  assumes "unique_by cmp (events el)"
  shows "unique_by cmp (events (snd (snd (el_insert cmp x el))))" (is ?U)
    and "set (events (snd (snd (el_insert cmp x el)))) = insert x {y \<in> set (events el). cmp x y \<noteq> 0}" (is ?S)
    and "fst (el_insert cmp x el) \<longleftrightarrow> (\<exists>y\<in>set (events el). cmp x y = 0)" (is ?R)
    and "notified (snd (snd (el_insert cmp x el))) =
           notified el @ [(x, if \<exists>y\<in>set (events el). cmp x y = 0 then 0 else 1)]" (is ?N)
proof -
  let ?v = "events el"
  have none: "\<forall>y\<in>set ?v. cmp x y \<noteq> 0" if f: "?v \<noteq> []" "cmp x (last ?v) > 0"
    using unique_append_last [OF assms f] cmp_flip [of _ x] by (force simp: unique_by_def sorted_wrt_append)
  have "?U \<and> ?S \<and> ?R \<and> ?N"
  proof (cases "?v \<noteq> [] \<and> cmp x (last ?v) > 0")
    case True
    then show ?thesis
      using none unique_append_last [OF assms, of x] by (auto simp: el_insert_def uncache_def notify_def)
  next
    case False
    note d = ordered_descends [OF unique_ordered [OF assms], of x]
    from d show ?thesis
    proof (cases rule: binary_lookup_insertion_pos_cases)
      case (exact i)
      have "\<exists>y\<in>set ?v. cmp x y = 0" using exact(2,3) by auto
      moreover have "el_insert cmp x el =
          (True, Some (?v ! i), notify x 0 ((uncache el)\<lparr>events := ?v[i := x]\<rparr>))"
        using False exact(1) by (simp add: el_insert_def uncache_def Let_def)
      ultimately show ?thesis
        using set_unique_update [OF assms exact(2,3)] unique_update [OF assms exact(2,3)]
        by (simp add: uncache_def notify_def)
    next
      case (between p)
      have "\<forall>y\<in>set ?v. cmp x y \<noteq> 0"
        using splits_at_no_match [OF between(2)] by (auto simp: in_set_conv_nth)
      then show ?thesis
        using False between unique_insert [OF assms between(2)]
        by (auto simp: el_insert_def uncache_def notify_def)
    qed
  qed
  then show ?U ?S ?R ?N by blast+
qed

lemma el_replace_correct:
  assumes "unique_by cmp (events el)"
  shows "unique_by cmp (events (snd (snd (el_replace cmp x el))))" (is ?U)
    and "fst (el_replace cmp x el) \<longleftrightarrow> (\<exists>y\<in>set (events el). cmp x y = 0)" (is ?R)
    and "set (events (snd (snd (el_replace cmp x el)))) =
           (if \<exists>y\<in>set (events el). cmp x y = 0 then insert x {y \<in> set (events el). cmp x y \<noteq> 0}
            else set (events el))" (is ?S)
proof -
  let ?v = "events el"
  note d = ordered_descends [OF unique_ordered [OF assms], of x]
  from d have "?U \<and> ?R \<and> ?S"
  proof (cases rule: binary_lookup_insertion_pos_cases)
    case (exact i)
    have "\<exists>y\<in>set ?v. cmp x y = 0" using exact by auto
    then show ?thesis
      using exact(1) set_unique_update [OF assms exact(2,3)] unique_update [OF assms exact(2,3)] by (simp add: el_replace_def uncache_def notify_def)
  next
    case (between p)
    have "\<forall>y\<in>set ?v. cmp x y \<noteq> 0"
      using splits_at_no_match [OF between(2)] by (auto simp: in_set_conv_nth)
    then show ?thesis using between assms by (auto simp: el_replace_def)
  qed
  then show ?U ?R ?S by blast+
qed

text \<open>\<open>lookup_after\<close> finds the first event that is not before the argument.\<close>

lemma el_lookup_after_correct:
  assumes "unique_by cmp v"
  shows "el_lookup_after cmp x v = (let p = length (takeWhile (\<lambda>y. cmp y x < 0) v) in
           if p < length v then Some p else None)"
proof -
  have tw: "length (takeWhile (\<lambda>y. cmp y x < 0) v) = p"
    if "p \<le> length v" "\<forall>i<p. cmp (v ! i) x < 0" "p < length v \<longrightarrow> \<not> cmp (v ! p) x < 0" for p
  proof -
    have "takeWhile (\<lambda>y. cmp y x < 0) v = take p v"
      using that by (intro takeWhile_eq_take_P_nth) auto
    then show ?thesis using that(1) by simp
  qed
  from ordered_descends [OF unique_ordered [OF assms], of x] show ?thesis
  proof (cases rule: binary_lookup_insertion_pos_cases)
    case (exact i)
    have "length (takeWhile (\<lambda>y. cmp y x < 0) v) = i"
    proof (rule tw)
      have "cmp (v ! j) x < 0" if "j < i" for j
      proof -
        have "cmp (v ! j) (v ! i) < 0"
          using assms exact(2) that by (simp add: unique_by_def sorted_wrt_iff_nth_less)
        then show ?thesis using cmp_eq_right [OF exact(3), of "v ! j"] by (simp add: sgn_if split: if_splits)
      qed
      then show "\<forall>j<i. cmp (v ! j) x < 0" by blast
      show "i < length v \<longrightarrow> \<not> cmp (v ! i) x < 0" using exact(3) cmp_flip_eq [of x "v ! i"] by simp
    qed (use exact in simp)
    then show ?thesis using exact by (simp add: el_lookup_after_def)
  next
    case (between p)
    have "length (takeWhile (\<lambda>y. cmp y x < 0) v) = p"
    proof (rule tw)
      show "p \<le> length v" using between(2) by (simp add: splits_at_def)
      show "\<forall>i<p. cmp (v ! i) x < 0" using between(2) cmp_flip by (simp add: splits_at_def)
      show "p < length v \<longrightarrow> \<not> cmp (v ! p) x < 0"
        using between(2) cmp_flip [of "v ! p" x] unfolding splits_at_def by (metis less_asym order_refl)
    qed
    then show ?thesis using between by (auto simp: el_lookup_after_def splits_at_def)
  qed
qed

lemma filter_other:
  assumes "unique_by cmp v" and "i < length v" and "cmp x (v ! i) = 0"
  shows "filter (\<lambda>y. cmp x y \<noteq> 0) v = erase_at i v"
proof -
  have v: "v = take i v @ v ! i # drop (Suc i) v" using assms(2) by (rule id_take_nth_drop)
  have d: "distinct v" by (rule unique_distinct [OF assms(1)])
  have "cmp x y \<noteq> 0" if y: "y \<in> set (take i v @ drop (Suc i) v)" for y
  proof
    assume "cmp x y = 0"
    then have "y = v ! i" using lookup_unique_exact [OF assms] y by (auto dest: in_set_takeD in_set_dropD)
    moreover have "v ! i \<notin> set (take i v @ drop (Suc i) v)" using d v by (metis distinct_append
          distinct.simps(2) not_distinct_conv_prefix set_append Un_iff disjoint_insert(1) list.simps(15))
    ultimately show False using y by simp
  qed
  then have "filter (\<lambda>y. cmp x y \<noteq> 0) (take i v) = take i v"
    and "filter (\<lambda>y. cmp x y \<noteq> 0) (drop (Suc i) v) = drop (Suc i) v"
    by (simp_all add: filter_id_conv)
  then show ?thesis
    using assms(3) by (subst (1) v) (simp add: erase_at_def)
qed

text \<open>Removing an event that is in the list removes it and nothing else.\<close>

lemma el_remove_present:
  assumes u: "unique_by cmp (events el)" and m: "y \<in> set (events el)" "cmp x y = 0"
  shows "el_remove cmp x el =
           (True, Some y, notify x (-1) ((uncache el)\<lparr>events := filter (\<lambda>z. cmp x z \<noteq> 0) (events el)\<rparr>))"
proof -
  let ?v = "events el"
  obtain w z where v: "?v = w @ [z]" using m by (cases ?v rule: rev_cases) auto
  have wz: "cmp a z < 0" if "a \<in> set w" for a using u v that by (auto simp: unique_by_def sorted_wrt_append)
  show ?thesis
  proof (cases "y = z")
    case True
    have "filter (\<lambda>b. cmp x b \<noteq> 0) ?v = w"
      using filter_other [OF u, of "length w" x] v True m by (simp add: erase_at_def)
    then show ?thesis using v True m by (simp add: el_remove_def uncache_def)
  next
    case False
    then have y: "y \<in> set w" using m v by auto
    then have lt: "cmp x z < 0" using wz [OF y] cmp_eq_left [OF m(2), of z] by (simp add: sgn_if split: if_splits)
    have uw: "unique_by cmp w" using u v unique_butlast [OF u] by simp
    from ordered_descends [OF unique_ordered [OF uw], of x] show ?thesis
    proof (cases rule: binary_lookup_cases)
      case (exact i)
      have "w ! i = y" using lookup_unique_exact [OF uw exact(2,3) y m(2)] by simp
      moreover have "filter (\<lambda>b. cmp x b \<noteq> 0) ?v = erase_at i ?v"
        using filter_other [OF u, of i x] v exact by (simp add: nth_append)
      ultimately show ?thesis
        using v lt exact by (simp add: el_remove_def uncache_def nth_append)
    next
      case none
      then show ?thesis using y m(2) by auto
    qed
  qed
qed

text \<open>
  An event that is not in the list: nothing happens when it sorts behind the last one, but when it
  sorts before the last one, the last event is removed in its place.
\<close>

lemma el_remove_absent_behind:
  assumes "events el \<noteq> [] \<Longrightarrow> 0 < cmp x (last (events el))"
  shows "el_remove cmp x el = (False, None, uncache el)"
proof (cases "events el = []")
  case False
  then show ?thesis using assms [OF False] by (simp add: el_remove_def uncache_def Let_def)
qed (simp add: el_remove_def uncache_def)

lemma el_remove_absent_before:
  assumes u: "unique_by cmp (events el)" and "events el \<noteq> []" and "cmp x (last (events el)) < 0"
    and n: "\<forall>y\<in>set (events el). cmp x y \<noteq> 0"
  shows "el_remove cmp x el =
           (True, Some (last (events el)), notify x (-1) ((uncache el)\<lparr>events := butlast (events el)\<rparr>))"
proof -
  obtain w z where v: "events el = w @ [z]" using assms(2) by (cases "events el" rule: rev_cases) auto
  have uw: "unique_by cmp w" using v unique_butlast [OF u] by simp
  have "binary_lookup (cmp x) w = length w"
    using ordered_descends [OF unique_ordered [OF uw], of x]
  proof (cases rule: binary_lookup_cases)
    case (exact i)
    then show ?thesis using n v by auto
  qed
  then show ?thesis using assms(3) v by (simp add: el_remove_def uncache_def erase_at_def nth_append)
qed

lemma unique_el_remove:
  assumes "unique_by cmp (events el)"
  shows "unique_by cmp (events (snd (snd (el_remove cmp x el))))"
  using assms unique_butlast [OF assms] unique_erase [OF assms]
  by (cases "events el = []") (simp_all add: el_remove_def uncache_def notify_def Let_def)

end

end
