(* ===== verification/Sortnet.thy ===== *)
theory Sortnet
  imports EventList
begin

section \<open>Sorting networks and sorted vectors (ase/sortnet.hh)\<close>

text \<open>
  \<open>fixed_sort\<close> sorts up to 16 elements by a fixed sequence of compare-and-swap steps and longer ranges
  by \<open>std::sort\<close>.  The sequences are those of \<open>sort_3\<close> to \<open>sort_16\<close>; a \<open>lesser\<close> functor is an argument and
  its contract the locale \<open>strict_weak\<close>.  The networks are proved by the zero-one principle: the set of
  boolean vectors that can reach each step is computed by the kernel as a list of independent groups
  of wires, each with a binary trie of its reachable values.
\<close>

subsection \<open>The networks\<close>

definition srt :: "('a \<Rightarrow> 'a \<Rightarrow> bool) \<Rightarrow> nat \<Rightarrow> nat \<Rightarrow> 'a list \<Rightarrow> 'a list" where
  "srt lesser i j v = (if lesser (v ! j) (v ! i) then v[i := v ! j, j := v ! i] else v)"

definition run_net :: "('a \<Rightarrow> 'a \<Rightarrow> bool) \<Rightarrow> (nat \<times> nat) list \<Rightarrow> 'a list \<Rightarrow> 'a list" where
  "run_net c net v = fold (\<lambda>(i, j). srt c i j) net v"

definition net_3 :: "(nat \<times> nat) list" where
  "net_3 =
    [(0,1), (0,2), (1,2)]"

definition net_4 :: "(nat \<times> nat) list" where
  "net_4 =
    [(0,1), (2,3), (0,2), (1,3), (1,2)]"

definition net_5 :: "(nat \<times> nat) list" where
  "net_5 =
    [(0,1), (3,4), (2,4), (2,3), (1,4), (1,2), (0,3), (0,1), (2,3)]"

definition net_6 :: "(nat \<times> nat) list" where
  "net_6 =
    [(0,1), (2,3), (4,5), (0,2), (1,3), (1,2), (0,4), (2,4), (1,5), (3,5),
     (1,2), (3,4)]"

definition net_7 :: "(nat \<times> nat) list" where
  "net_7 =
    [(0,1), (2,3), (4,5), (0,2), (1,3), (4,6), (1,2), (5,6), (0,4), (2,6),
     (1,5), (2,4), (3,5), (1,2), (3,4), (5,6)]"

definition net_8 :: "(nat \<times> nat) list" where
  "net_8 =
    [(0,1), (2,3), (4,5), (6,7), (0,2), (1,3), (4,6), (5,7), (1,2), (5,6),
     (0,4), (3,7), (2,6), (1,5), (2,4), (3,5), (1,2), (3,4), (5,6)]"

definition net_9 :: "(nat \<times> nat) list" where
  "net_9 =
    [(0,1), (2,3), (4,5), (6,7), (1,3), (5,7), (0,2), (4,6), (1,5), (3,7),
     (0,4), (2,6), (1,8), (2,4), (3,5), (1,2), (4,8), (2,4), (6,8), (0,1),
     (5,8), (3,6), (3,4), (5,6), (7,8)]"

definition net_10 :: "(nat \<times> nat) list" where
  "net_10 =
    [(0,8), (1,9), (2,7), (3,5), (4,6), (0,2), (1,4), (5,8), (7,9), (0,3),
     (2,4), (5,7), (6,9), (0,1), (3,6), (8,9), (1,5), (2,3), (4,8), (6,7),
     (1,2), (3,5), (4,6), (7,8), (2,3), (4,5), (6,7), (3,4), (5,6)]"

definition net_11 :: "(nat \<times> nat) list" where
  "net_11 =
    [(0,9), (1,6), (2,4), (3,7), (5,8), (0,1), (3,5), (4,10), (6,9), (7,8),
     (1,3), (2,5), (4,7), (8,10), (0,4), (1,2), (3,7), (5,9), (6,8), (0,1),
     (2,6), (4,5), (7,8), (9,10), (2,4), (3,6), (5,7), (8,9), (1,2), (3,4),
     (5,6), (7,8), (2,3), (4,5), (6,7)]"

definition net_12 :: "(nat \<times> nat) list" where
  "net_12 =
    [(0,8), (1,7), (2,6), (3,11), (4,10), (5,9), (0,1), (2,5), (3,4), (6,9),
     (7,8), (10,11), (0,2), (1,6), (5,10), (9,11), (0,3), (1,2), (4,6), (5,7),
     (8,11), (9,10), (1,4), (3,5), (6,8), (7,10), (1,3), (2,5), (6,9), (8,10),
     (2,3), (4,5), (6,7), (8,9), (4,6), (5,7), (3,4), (5,6), (7,8)]"

definition net_13 :: "(nat \<times> nat) list" where
  "net_13 =
    [(0,12), (1,10), (2,9), (3,7), (5,11), (6,8), (1,6), (2,3), (4,11), (7,9),
     (8,10), (0,4), (1,2), (3,6), (7,8), (9,10), (11,12), (4,6), (5,9), (8,11),
     (10,12), (0,5), (3,8), (4,7), (6,11), (9,10), (0,1), (2,5), (6,9), (7,8),
     (10,11), (1,3), (2,4), (5,6), (9,10), (1,2), (3,4), (5,7), (6,8), (2,3),
     (4,5), (6,7), (8,9), (3,4), (5,6)]"

definition net_14 :: "(nat \<times> nat) list" where
  "net_14 =
    [(0,6), (1,11), (2,12), (3,10), (4,5), (7,13), (8,9), (1,2), (3,7), (4,8),
     (5,9), (6,10), (11,12), (0,4), (1,3), (5,6), (7,8), (9,13), (10,12), (0,1),
     (2,9), (3,7), (4,11), (6,10), (12,13), (2,5), (4,7), (6,9), (8,11), (1,2),
     (3,4), (6,7), (9,10), (11,12), (1,3), (2,4), (5,6), (7,8), (9,11), (10,12),
     (2,3), (4,7), (6,9), (10,11), (4,5), (6,7), (8,9), (3,4), (5,6), (7,8),
     (9,10)]"

definition net_15 :: "(nat \<times> nat) list" where
  "net_15 =
    [(1,2), (3,10), (4,14), (5,8), (6,13), (7,12), (9,11), (0,14), (1,5), (2,8),
     (3,7), (6,9), (10,12), (11,13), (0,7), (1,6), (2,9), (4,10), (5,11), (8,13),
     (12,14), (0,6), (2,4), (3,5), (7,11), (8,10), (9,12), (13,14), (0,3), (1,2),
     (4,7), (5,9), (6,8), (10,11), (12,13), (0,1), (2,3), (4,6), (7,9), (10,12),
     (11,13), (1,2), (3,5), (8,10), (11,12), (3,4), (5,6), (7,8), (9,10), (2,3),
     (4,5), (6,7), (8,9), (10,11), (5,6), (7,8)]"

definition net_16 :: "(nat \<times> nat) list" where
  "net_16 =
    [(0,13), (1,12), (2,15), (3,14), (4,8), (5,6), (7,11), (9,10), (0,5), (1,7),
     (2,9), (3,4), (6,13), (8,14), (10,15), (11,12), (0,1), (2,3), (4,5), (6,8),
     (7,9), (10,11), (12,13), (14,15), (0,2), (1,3), (4,10), (5,11), (6,7), (8,9),
     (12,14), (13,15), (1,2), (3,12), (4,6), (5,7), (8,10), (9,11), (13,14), (1,4),
     (2,6), (5,8), (7,10), (9,13), (11,14), (2,4), (3,6), (9,12), (11,13), (3,5),
     (6,8), (7,9), (10,12), (3,4), (5,6), (7,8), (9,10), (11,12), (6,7), (8,9)]"


definition sort_3 :: "('a \<Rightarrow> 'a \<Rightarrow> bool) \<Rightarrow> 'a list \<Rightarrow> 'a list" where
  "sort_3 c v = run_net c net_3 v"

definition sort_4 :: "('a \<Rightarrow> 'a \<Rightarrow> bool) \<Rightarrow> 'a list \<Rightarrow> 'a list" where
  "sort_4 c v = run_net c net_4 v"

definition sort_5 :: "('a \<Rightarrow> 'a \<Rightarrow> bool) \<Rightarrow> 'a list \<Rightarrow> 'a list" where
  "sort_5 c v = run_net c net_5 v"

definition sort_6 :: "('a \<Rightarrow> 'a \<Rightarrow> bool) \<Rightarrow> 'a list \<Rightarrow> 'a list" where
  "sort_6 c v = run_net c net_6 v"

definition sort_7 :: "('a \<Rightarrow> 'a \<Rightarrow> bool) \<Rightarrow> 'a list \<Rightarrow> 'a list" where
  "sort_7 c v = run_net c net_7 v"

definition sort_8 :: "('a \<Rightarrow> 'a \<Rightarrow> bool) \<Rightarrow> 'a list \<Rightarrow> 'a list" where
  "sort_8 c v = run_net c net_8 v"

definition sort_9 :: "('a \<Rightarrow> 'a \<Rightarrow> bool) \<Rightarrow> 'a list \<Rightarrow> 'a list" where
  "sort_9 c v = run_net c net_9 v"

definition sort_10 :: "('a \<Rightarrow> 'a \<Rightarrow> bool) \<Rightarrow> 'a list \<Rightarrow> 'a list" where
  "sort_10 c v = run_net c net_10 v"

definition sort_11 :: "('a \<Rightarrow> 'a \<Rightarrow> bool) \<Rightarrow> 'a list \<Rightarrow> 'a list" where
  "sort_11 c v = run_net c net_11 v"

definition sort_12 :: "('a \<Rightarrow> 'a \<Rightarrow> bool) \<Rightarrow> 'a list \<Rightarrow> 'a list" where
  "sort_12 c v = run_net c net_12 v"

definition sort_13 :: "('a \<Rightarrow> 'a \<Rightarrow> bool) \<Rightarrow> 'a list \<Rightarrow> 'a list" where
  "sort_13 c v = run_net c net_13 v"

definition sort_14 :: "('a \<Rightarrow> 'a \<Rightarrow> bool) \<Rightarrow> 'a list \<Rightarrow> 'a list" where
  "sort_14 c v = run_net c net_14 v"

definition sort_15 :: "('a \<Rightarrow> 'a \<Rightarrow> bool) \<Rightarrow> 'a list \<Rightarrow> 'a list" where
  "sort_15 c v = run_net c net_15 v"

definition sort_16 :: "('a \<Rightarrow> 'a \<Rightarrow> bool) \<Rightarrow> 'a list \<Rightarrow> 'a list" where
  "sort_16 c v = run_net c net_16 v"

text \<open>\<open>std::sort\<close>: one of the results the standard allows (it leaves the order of equals open).\<close>

definition std_sort :: "('a \<Rightarrow> 'a \<Rightarrow> bool) \<Rightarrow> 'a list \<Rightarrow> 'a list" where
  "std_sort lesser v = stable_sort lesser v"

definition fixed_sort :: "('a \<Rightarrow> 'a \<Rightarrow> bool) \<Rightarrow> 'a list \<Rightarrow> 'a list" where
  "fixed_sort lesser v =
     (let n = length v in
      if n = 0 then v
      else if n = 1 then v
      else if n = 2 then srt lesser 0 1 v
      else if n = 3 then sort_3 lesser v
      else if n = 4 then sort_4 lesser v
      else if n = 5 then sort_5 lesser v
      else if n = 6 then sort_6 lesser v
      else if n = 7 then sort_7 lesser v
      else if n = 8 then sort_8 lesser v
      else if n = 9 then sort_9 lesser v
      else if n = 10 then sort_10 lesser v
      else if n = 11 then sort_11 lesser v
      else if n = 12 then sort_12 lesser v
      else if n = 13 then sort_13 lesser v
      else if n = 14 then sort_14 lesser v
      else if n = 15 then sort_15 lesser v
      else if n = 16 then sort_16 lesser v
      else std_sort lesser v)"

subsection \<open>Reachable boolean vectors\<close>

text \<open>
  A set of boolean vectors of one length, as a trie: the left child is \<open>False\<close>, the right \<open>True\<close>.
  \<open>Any\<close>, the set of all vectors, is the value of the operations on tries of different depths.
\<close>

datatype bits = Emp | Lf | Any | Nd bits bits

fun mem_bits :: "bits \<Rightarrow> bool list \<Rightarrow> bool" where
  "mem_bits Lf [] = True"
| "mem_bits Any xs = True"
| "mem_bits (Nd a b) (x # xs) = mem_bits (if x then b else a) xs"
| "mem_bits _ _ = False"

fun nd :: "bits \<Rightarrow> bits \<Rightarrow> bits" where
  "nd Emp Emp = Emp"
| "nd a b = Nd a b"

fun cat_bits :: "bits \<Rightarrow> bits \<Rightarrow> bits" where
  "cat_bits Emp s = Emp"
| "cat_bits Lf s = s"
| "cat_bits Any s = Any"
| "cat_bits (Nd a b) s = nd (cat_bits a s) (cat_bits b s)"

fun union_bits :: "bits \<Rightarrow> bits \<Rightarrow> bits" where
  "union_bits Emp t = t"
| "union_bits t Emp = t"
| "union_bits (Nd a b) (Nd c d) = nd (union_bits a c) (union_bits b d)"
| "union_bits Lf Lf = Lf"
| "union_bits _ _ = Any"

text \<open>Vectors with value \<open>x\<close> at a position; \<open>flip_bits\<close> also negates that value.\<close>

fun keep_bits :: "bool \<Rightarrow> nat \<Rightarrow> bits \<Rightarrow> bits" where
  "keep_bits x 0 (Nd a b) = (if x then nd Emp b else nd a Emp)"
| "keep_bits x (Suc k) (Nd a b) = nd (keep_bits x k a) (keep_bits x k b)"
| "keep_bits x _ t = t"

fun flip_bits :: "bool \<Rightarrow> nat \<Rightarrow> bits \<Rightarrow> bits" where
  "flip_bits x 0 (Nd a b) = (if x then nd b Emp else nd Emp a)"
| "flip_bits x (Suc k) (Nd a b) = nd (flip_bits x k a) (flip_bits x k b)"
| "flip_bits x _ t = t"

text \<open>All vectors after a compare-and-swap of the positions \<open>p\<close> and \<open>q\<close>.\<close>

fun cmp_bits :: "nat \<Rightarrow> nat \<Rightarrow> bits \<Rightarrow> bits" where
  "cmp_bits 0 (Suc q) (Nd a b) = nd (union_bits a (flip_bits False q b)) (keep_bits True q b)"
| "cmp_bits (Suc p) 0 (Nd a b) = nd (keep_bits False p a) (union_bits b (flip_bits True p a))"
| "cmp_bits (Suc p) (Suc q) (Nd a b) = nd (cmp_bits p q a) (cmp_bits p q b)"
| "cmp_bits _ _ t = t"

definition bsrt :: "nat \<Rightarrow> nat \<Rightarrow> bool list \<Rightarrow> bool list" where
  "bsrt p q bs = (if bs ! p \<and> \<not> bs ! q then bs[p := False, q := True] else bs)"

lemma mem_nd [simp]: "mem_bits (nd a b) xs = mem_bits (Nd a b) xs"
proof (cases "a = Emp \<and> b = Emp")
  case True
  then show ?thesis by (cases xs) auto
next
  case False
  then have "nd a b = Nd a b" by (cases a; cases b) auto
  then show ?thesis by simp
qed

lemma mem_Nd: "mem_bits (Nd a b) xs \<longleftrightarrow> (\<exists>x ys. xs = x # ys \<and> mem_bits (if x then b else a) ys)"
  by (cases xs) auto

lemma mem_Lf: "mem_bits Lf xs \<longleftrightarrow> xs = []"
  by (cases xs) auto

lemma mem_union: "mem_bits a xs \<or> mem_bits b xs \<Longrightarrow> mem_bits (union_bits a b) xs"
proof (induction a b arbitrary: xs rule: union_bits.induct)
  case (3 a b c d)
  then obtain x ys where "xs = x # ys" "mem_bits (if x then b else a) ys \<or> mem_bits (if x then d else c) ys"
    by (auto simp: mem_Nd)
  then show ?case using "3.IH"(1) [of ys] "3.IH"(2) [of ys] by (cases x) auto
qed (auto simp: mem_Lf)

lemma mem_cat: "mem_bits a xs \<Longrightarrow> mem_bits b ys \<Longrightarrow> mem_bits (cat_bits a b) (xs @ ys)"
proof (induction a b arbitrary: xs rule: cat_bits.induct)
  case (4 a b s)
  then obtain x zs where "xs = x # zs" "mem_bits (if x then b else a) zs" by (auto simp: mem_Nd)
  then show ?case using "4.IH" [of zs] "4.prems"(2) by (cases x) auto
qed (auto simp: mem_Lf)

lemma mem_keep: "mem_bits t xs \<Longrightarrow> k < length xs \<Longrightarrow> xs ! k = x \<Longrightarrow> mem_bits (keep_bits x k t) xs"
proof (induction x k t arbitrary: xs rule: keep_bits.induct)
  case (1 x a b)
  then show ?case by (cases xs) auto
next
  case (2 x k a b)
  then obtain y ys where "xs = y # ys" "mem_bits (if y then b else a) ys" by (auto simp: mem_Nd)
  then show ?case using "2.IH" [of ys] "2.prems" by (cases y) auto
qed (auto simp: mem_Lf)

lemma mem_flip: "mem_bits t xs \<Longrightarrow> k < length xs \<Longrightarrow> xs ! k = x \<Longrightarrow> mem_bits (flip_bits x k t) (xs[k := \<not> x])"
proof (induction x k t arbitrary: xs rule: flip_bits.induct)
  case (1 x a b)
  then show ?case by (cases xs) auto
next
  case (2 x k a b)
  then obtain y ys where "xs = y # ys" "mem_bits (if y then b else a) ys" by (auto simp: mem_Nd)
  then show ?case using "2.IH" [of ys] "2.prems" by (cases y) auto
qed (auto simp: mem_Lf)

lemma mem_cmp:
  "mem_bits t xs \<Longrightarrow> p < length xs \<Longrightarrow> q < length xs \<Longrightarrow> p \<noteq> q \<Longrightarrow> mem_bits (cmp_bits p q t) (bsrt p q xs)"
proof (induction p q t arbitrary: xs rule: cmp_bits.induct)
  case (1 q a b)
  then obtain x ys where "xs = x # ys" "mem_bits (if x then b else a) ys" "q < length ys" by (auto simp: mem_Nd)
  then show ?case
    using mem_keep [of b ys q True] mem_flip [of b ys q False] mem_union
    by (cases x; cases "ys ! q") (auto simp: bsrt_def)
next
  case (2 p a b)
  then obtain x ys where "xs = x # ys" "mem_bits (if x then b else a) ys" "p < length ys" by (auto simp: mem_Nd)
  then show ?case
    using mem_keep [of a ys p False] mem_flip [of a ys p True] mem_union
    by (cases x; cases "ys ! p") (auto simp: bsrt_def)
next
  case (3 p q a b)
  then obtain x ys where "xs = x # ys" "mem_bits (if x then b else a) ys" "p < length ys" "q < length ys"
    by (auto simp: mem_Nd)
  then show ?case
    using "3.IH"(1) [of ys] "3.IH"(2) [of ys] "3.prems"(4)
    by (cases x) (auto simp: bsrt_def split: if_splits)
qed (auto simp: mem_Lf bsrt_def)

subsection \<open>Checking a network\<close>

text \<open>Groups of wires with the values they can have together; a step merges the groups it touches.\<close>

type_synonym groups = "(nat list \<times> bits) list"

fun pos_of :: "nat \<Rightarrow> nat list \<Rightarrow> nat" where
  "pos_of w [] = 0"
| "pos_of w (x # xs) = (if w = x then 0 else Suc (pos_of w xs))"

fun merge_groups :: "groups \<Rightarrow> nat list \<times> bits" where
  "merge_groups [] = ([], Lf)"
| "merge_groups ((ws, t) # gs) = (case merge_groups gs of (ws', t') \<Rightarrow> (ws @ ws', cat_bits t t'))"

definition touches :: "nat \<Rightarrow> nat \<Rightarrow> nat list \<times> bits \<Rightarrow> bool" where
  "touches i j g = (i \<in> set (fst g) \<or> j \<in> set (fst g))"

fun step_group :: "nat \<Rightarrow> nat \<Rightarrow> nat list \<times> bits \<Rightarrow> nat list \<times> bits" where
  "step_group i j (ws, t) = (ws, cmp_bits (pos_of i ws) (pos_of j ws) t)"

definition step_groups :: "nat \<Rightarrow> nat \<Rightarrow> groups \<Rightarrow> groups" where
  "step_groups i j gs = step_group i j (merge_groups (filter (touches i j) gs)) # filter (\<lambda>g. \<not> touches i j g) gs"

fun run_groups :: "nat \<Rightarrow> (nat \<times> nat) list \<Rightarrow> groups \<Rightarrow> groups" where
  "run_groups n [] gs = gs"
| "run_groups n ((i, j) # net) gs = (if i < j \<and> j < n then run_groups n net (step_groups i j gs) else [])"

fun proper :: "bits \<Rightarrow> bool" where
  "proper Any = False"
| "proper (Nd a b) = (proper a \<and> proper b)"
| "proper _ = True"

fun paths :: "bits \<Rightarrow> bool list list" where
  "paths Emp = []"
| "paths Lf = [[]]"
| "paths Any = []"
| "paths (Nd a b) = map ((#) False) (paths a) @ map ((#) True) (paths b)"

fun ascending :: "bool list \<Rightarrow> bool" where
  "ascending (x # y # xs) = ((x \<longrightarrow> y) \<and> ascending (y # xs))"
| "ascending _ = True"

definition net_ok :: "nat \<Rightarrow> (nat \<times> nat) list \<Rightarrow> bool" where
  "net_ok n net =
     (case run_groups n net (map (\<lambda>w. ([w], Nd Lf Lf)) [0..<n]) of
        [(ws, t)] \<Rightarrow> set [0..<n] \<subseteq> set ws \<and> proper t \<and> list_all (\<lambda>bs. ascending (map (\<lambda>k. bs ! pos_of k ws) [0..<n])) (paths t)
      | _ \<Rightarrow> False)"

lemmas net_eval = net_ok_def step_groups_def touches_def upt_rec

lemma net_3_ok: "net_ok 3 net_3"
  by (simp add: net_eval net_3_def)

lemma net_4_ok: "net_ok 4 net_4"
  by (simp add: net_eval net_4_def)

lemma net_5_ok: "net_ok 5 net_5"
  by (simp add: net_eval net_5_def)

lemma net_6_ok: "net_ok 6 net_6"
  by (simp add: net_eval net_6_def)

lemma net_7_ok: "net_ok 7 net_7"
  by (simp add: net_eval net_7_def)

lemma net_8_ok: "net_ok 8 net_8"
  by (simp add: net_eval net_8_def)

lemma net_9_ok: "net_ok 9 net_9"
  by (simp add: net_eval net_9_def)

lemma net_10_ok: "net_ok 10 net_10"
  by (simp add: net_eval net_10_def)

lemma net_11_ok: "net_ok 11 net_11"
  by (simp add: net_eval net_11_def)

lemma net_12_ok: "net_ok 12 net_12"
  by (simp add: net_eval net_12_def)

lemma net_13_ok: "net_ok 13 net_13"
  by (simp add: net_eval net_13_def)

lemma net_14_ok: "net_ok 14 net_14"
  by (simp add: net_eval net_14_def)

lemma net_15_ok: "net_ok 15 net_15"
  by (simp add: net_eval net_15_def)

lemma net_16_ok: "net_ok 16 net_16"
  by (simp add: net_eval net_16_def)

subsection \<open>Soundness of the check\<close>

definition agrees :: "bool list \<Rightarrow> nat list \<times> bits \<Rightarrow> bool" where
  "agrees bs g \<longleftrightarrow> mem_bits (snd g) (map ((!) bs) (fst g))"

definition group_wires :: "groups \<Rightarrow> nat multiset" where
  "group_wires gs = mset (concat (map fst gs))"

lemma pos_of_less: "w \<in> set ws \<Longrightarrow> pos_of w ws < length ws"
  by (induction ws) auto

lemma nth_pos_of: "w \<in> set ws \<Longrightarrow> ws ! pos_of w ws = w"
  by (induction ws) auto

lemma fst_merge_groups: "fst (merge_groups gs) = concat (map fst gs)"
  by (induction gs rule: merge_groups.induct) (auto split: prod.splits)

lemma agrees_merge: "\<forall>g\<in>set gs. agrees bs g \<Longrightarrow> agrees bs (merge_groups gs)"
  by (induction gs rule: merge_groups.induct) (auto simp: agrees_def mem_cat split: prod.splits)

lemma group_wires_split:
  "group_wires (filter P gs) + group_wires (filter (\<lambda>g. \<not> P g) gs) = group_wires gs"
  by (induction gs) (auto simp: group_wires_def)

lemma fst_step_group [simp]: "fst (step_group i j g) = fst g"
  by (cases g) simp

lemma group_wires_step: "group_wires (step_groups i j gs) = group_wires gs"
  using group_wires_split [of "touches i j" gs]
  by (simp add: step_groups_def group_wires_def fst_merge_groups)

lemma wire_in_touched:
  "w \<in># group_wires gs \<Longrightarrow> w = i \<or> w = j \<Longrightarrow> w \<in> set (concat (map fst (filter (touches i j) gs)))"
  by (auto simp: group_wires_def touches_def)

lemma bsrt_nth_other: "w \<noteq> i \<Longrightarrow> w \<noteq> j \<Longrightarrow> bsrt i j bs ! w = bs ! w"
  by (simp add: bsrt_def)

lemma length_bsrt [simp]: "length (bsrt i j bs) = length bs"
  by (simp add: bsrt_def)

lemma map_bsrt:
  assumes "distinct ws" and "i \<in> set ws" "j \<in> set ws" "i \<noteq> j" and "\<forall>w\<in>set ws. w < length bs"
  shows "map ((!) (bsrt i j bs)) ws = bsrt (pos_of i ws) (pos_of j ws) (map ((!) bs) ws)"
proof (rule nth_equalityI)
  fix k assume "k < length (map ((!) (bsrt i j bs)) ws)"
  then have k: "k < length ws" by simp
  have p: "k = pos_of w ws \<longleftrightarrow> ws ! k = w" if "w \<in> set ws" for w
    using assms(1) k that pos_of_less nth_pos_of by (metis nth_eq_iff_index_eq)
  show "map ((!) (bsrt i j bs)) ws ! k = bsrt (pos_of i ws) (pos_of j ws) (map ((!) bs) ws) ! k"
    using k assms p [OF assms(2)] p [OF assms(3)] pos_of_less [OF assms(2)] pos_of_less [OF assms(3)]
      nth_pos_of [OF assms(2)] nth_pos_of [OF assms(3)]
    by (auto simp: bsrt_def nth_list_update)
qed simp

lemma agrees_step:
  assumes a: "\<forall>g\<in>set gs. agrees bs g" and w: "group_wires gs = mset [0..<n]" and n: "length bs = n"
    and ij: "i < j" "j < n"
  shows "\<forall>g\<in>set (step_groups i j gs). agrees (bsrt i j bs) g"
proof -
  obtain ws t where m: "merge_groups (filter (touches i j) gs) = (ws, t)" by (metis prod.exhaust)
  have ws: "ws = concat (map fst (filter (touches i j) gs))"
    using fst_merge_groups [of "filter (touches i j) gs"] m by simp
  define ws' where "ws' = concat (map fst (filter (\<lambda>g. \<not> touches i j g) gs))"
  have perm: "mset (ws @ ws') = mset [0..<n]"
    using group_wires_split [of "touches i j" gs] w unfolding ws ws'_def group_wires_def by simp
  have in_ws: "i \<in> set ws" "j \<in> set ws"
    using wire_in_touched [of i gs i j] wire_in_touched [of j gs i j] w ij unfolding ws by auto
  have "distinct ws" using mset_eq_imp_distinct_iff [OF perm] by simp
  moreover have "\<forall>w\<in>set ws. w < length bs" using mset_eq_setD [OF perm] n by auto
  ultimately have "map ((!) (bsrt i j bs)) ws = bsrt (pos_of i ws) (pos_of j ws) (map ((!) bs) ws)"
    using in_ws ij by (intro map_bsrt) auto
  moreover have "agrees bs (ws, t)"
    using agrees_merge [of "filter (touches i j) gs" bs] a m by simp
  moreover have "pos_of i ws \<noteq> pos_of j ws" using nth_pos_of in_ws ij by (metis less_irrefl)
  ultimately have "agrees (bsrt i j bs) (step_group i j (ws, t))"
    using mem_cmp [of t "map ((!) bs) ws" "pos_of i ws" "pos_of j ws"] pos_of_less in_ws
    by (simp add: agrees_def)
  moreover have "agrees (bsrt i j bs) g" if "g \<in> set gs" "\<not> touches i j g" for g
  proof -
    have "map ((!) (bsrt i j bs)) (fst g) = map ((!) bs) (fst g)"
      using that(2) by (intro map_cong refl bsrt_nth_other) (auto simp: touches_def)
    then show ?thesis using a that(1) unfolding agrees_def by metis
  qed
  ultimately show ?thesis by (simp add: step_groups_def m)
qed

definition run_bits :: "(nat \<times> nat) list \<Rightarrow> bool list \<Rightarrow> bool list" where
  "run_bits net bs = fold (\<lambda>(i, j). bsrt i j) net bs"

lemma run_groups_sound:
  assumes "\<forall>g\<in>set gs. agrees bs g" and "group_wires gs = mset [0..<n]" and "length bs = n"
    and "run_groups n net gs \<noteq> []"
  shows "(\<forall>g\<in>set (run_groups n net gs). agrees (run_bits net bs) g) \<and>
         group_wires (run_groups n net gs) = mset [0..<n] \<and> length (run_bits net bs) = n \<and>
         list_all (\<lambda>(i, j). i < j \<and> j < n) net"
  using assms
proof (induction n net gs arbitrary: bs rule: run_groups.induct)
  case (2 n i j net gs)
  then have ij: "i < j \<and> j < n" by (auto split: if_splits)
  show ?case
    using "2.IH" [OF ij agrees_step [OF "2.prems"(1-3) ij [THEN conjunct1] ij [THEN conjunct2]]] "2.prems" ij
    by (simp add: group_wires_step run_bits_def)
qed (simp add: run_bits_def)

lemma mem_paths: "mem_bits t xs \<Longrightarrow> proper t \<Longrightarrow> xs \<in> set (paths t)"
proof (induction t arbitrary: xs)
  case (Nd a b)
  then obtain x ys where "xs = x # ys" "mem_bits (if x then b else a) ys" by (auto simp: mem_Nd)
  then show ?case using Nd.IH(1) [of ys] Nd.IH(2) [of ys] Nd.prems(2) by (cases x) auto
qed (auto simp: mem_Lf)

lemma ascending_sorted: "ascending bs \<longleftrightarrow> sorted_wrt (\<longrightarrow>) bs"
proof (induction bs rule: ascending.induct)
  case (1 x y xs)
  then show ?case by auto
qed auto

lemma group_wires_initial: "group_wires (map (\<lambda>w. ([w], t)) ws) = mset ws"
  by (induction ws) (auto simp: group_wires_def)

text \<open>A checked network sorts every boolean vector.\<close>

lemma net_ok_bits:
  assumes "net_ok n net" and "length bs = n"
  shows "sorted_wrt (\<longrightarrow>) (run_bits net bs)" and "list_all (\<lambda>(i, j). i < j \<and> j < n) net"
proof -
  let ?g0 = "map (\<lambda>w. ([w], Nd Lf Lf)) [0..<n]"
  obtain ws t where r: "run_groups n net ?g0 = [(ws, t)]" "proper t"
    "list_all (\<lambda>bs. ascending (map (\<lambda>k. bs ! pos_of k ws) [0..<n])) (paths t)"
    using assms(1) unfolding net_ok_def
    by (cases "run_groups n net ?g0"; cases "tl (run_groups n net ?g0)") (auto split: prod.splits)
  have "\<forall>g\<in>set ?g0. agrees bs g" by (auto simp: agrees_def)
  then have s: "agrees (run_bits net bs) (ws, t)" "group_wires [(ws, t)] = mset [0..<n]"
    "length (run_bits net bs) = n" "list_all (\<lambda>(i, j). i < j \<and> j < n) net"
    using run_groups_sound [of ?g0 bs n net] r(1) group_wires_initial [of "Nd Lf Lf" "[0..<n]"] assms(2) by auto
  then show "list_all (\<lambda>(i, j). i < j \<and> j < n) net" by blast
  let ?p = "map ((!) (run_bits net bs)) ws"
  have ws: "set ws = {0..<n}" using s(2) by (metis group_wires_def concat.simps fst_conv list.simps(8,9)
        append_Nil2 mset_eq_setD set_upt atLeastLessThan_upt)
  have "map (\<lambda>k. ?p ! pos_of k ws) [0..<n] = run_bits net bs"
    using ws s(3) by (intro nth_equalityI) (auto simp: pos_of_less nth_pos_of)
  then show "sorted_wrt (\<longrightarrow>) (run_bits net bs)"
    using r(3) mem_paths [of t ?p] s(1) r(2) by (auto simp: agrees_def ascending_sorted list_all_iff)
qed

subsection \<open>The zero-one principle\<close>

lemma length_srt [simp]: "length (srt lesser i j v) = length v"
  by (simp add: srt_def)

lemma mset_srt [simp]: "i < length v \<Longrightarrow> j < length v \<Longrightarrow> mset (srt lesser i j v) = mset v"
  by (simp add: srt_def mset_swap)

lemma map_srt:
  assumes "\<And>x y. \<not> lesser y x \<Longrightarrow> f x \<Longrightarrow> f y" and "\<And>x y. lesser x y \<Longrightarrow> f x \<Longrightarrow> f y"
    and "i < length v" "j < length v" "i \<noteq> j"
  shows "map f (srt lesser i j v) = bsrt i j (map f v)"
proof (cases "lesser (v ! j) (v ! i)")
  case True
  then have "f (v ! j) \<Longrightarrow> f (v ! i)" using assms(2) by blast
  then have "map f (v[i := v ! j, j := v ! i]) ! k = bsrt i j (map f v) ! k" if "k < length v" for k
    using that assms(3-5) by (cases "k = j"; cases "k = i") (auto simp: bsrt_def)
  then show ?thesis using True by (intro nth_equalityI) (simp_all add: srt_def)
next
  case False
  then have "f (v ! i) \<Longrightarrow> f (v ! j)" using assms(1) by blast
  then show ?thesis using False assms(3-5) by (auto simp: srt_def bsrt_def)
qed

lemma run_net_mset:
  "list_all (\<lambda>(i, j). i < j \<and> j < n) net \<Longrightarrow> length v = n \<Longrightarrow>
     mset (run_net lesser net v) = mset v \<and> length (run_net lesser net v) = n"
  unfolding run_net_def by (induction net arbitrary: v) auto

lemma map_run_net:
  assumes "\<And>x y. \<not> lesser y x \<Longrightarrow> f x \<Longrightarrow> f y" and "\<And>x y. lesser x y \<Longrightarrow> f x \<Longrightarrow> f y"
  shows "list_all (\<lambda>(i, j). i < j \<and> j < n) net \<Longrightarrow> length v = n \<Longrightarrow>
     map f (run_net lesser net v) = run_bits net (map f v)"
  unfolding run_net_def run_bits_def
  by (induction net arbitrary: v) (auto simp: map_srt [OF assms])

context strict_weak
begin

lemma network_sorts:
  assumes "net_ok n net" and "length v = n"
  shows "sorted_wrt (\<lambda>x y. \<not> lesser y x) (run_net lesser net v)" and "mset (run_net lesser net v) = mset v"
proof -
  have net: "list_all (\<lambda>(i, j). i < j \<and> j < n) net"
    using net_ok_bits(2) [OF assms(1), of "replicate n True"] by simp
  show "mset (run_net lesser net v) = mset v" using run_net_mset [OF net assms(2)] by blast
  let ?r = "run_net lesser net v"
  have "\<not> lesser (?r ! j) (?r ! i)" if ij: "i < j" "j < length ?r" for i j
  proof
    assume bad: "lesser (?r ! j) (?r ! i)"
    let ?f = "lesser (?r ! j)"
    have "map ?f ?r = run_bits net (map ?f v)"
      by (rule map_run_net [OF _ _ net assms(2)]) (auto intro: less_le_trans lesser_trans)
    then have "sorted_wrt (\<longrightarrow>) (map ?f ?r)"
      using net_ok_bits(1) [OF assms(1), of "map ?f v"] assms(2) by simp
    then have "?f (?r ! i) \<longrightarrow> ?f (?r ! j)"
      using ij by (simp add: sorted_wrt_iff_nth_less)
    then show False using bad lesser_irrefl by blast
  qed
  then show "sorted_wrt (\<lambda>x y. \<not> lesser y x) ?r" by (simp add: sorted_wrt_iff_nth_less)
qed

lemmas networks_sort =
  network_sorts [OF net_3_ok] network_sorts [OF net_4_ok] network_sorts [OF net_5_ok]
  network_sorts [OF net_6_ok] network_sorts [OF net_7_ok] network_sorts [OF net_8_ok]
  network_sorts [OF net_9_ok] network_sorts [OF net_10_ok] network_sorts [OF net_11_ok]
  network_sorts [OF net_12_ok] network_sorts [OF net_13_ok] network_sorts [OF net_14_ok]
  network_sorts [OF net_15_ok] network_sorts [OF net_16_ok]

lemma srt_two: "length v = 2 \<Longrightarrow> sorted_wrt (\<lambda>x y. \<not> lesser y x) (srt lesser 0 1 v)"
  by (auto simp: srt_def length_Suc_conv numeral_2_eq_2 dest: lesser_asym)

lemmas sort_defs = sort_3_def sort_4_def sort_5_def sort_6_def sort_7_def sort_8_def sort_9_def
  sort_10_def sort_11_def sort_12_def sort_13_def sort_14_def sort_15_def sort_16_def

lemma sorted_short: "length v = 0 \<or> length v = 1 \<Longrightarrow> sorted_wrt P v"
  by (cases v) auto

lemma fixed_sort_sorts: "sorted_wrt (\<lambda>x y. \<not> lesser y x) (fixed_sort lesser v)"
  by (simp add: fixed_sort_def Let_def sort_defs std_sort_def sorted_short srt_two [unfolded One_nat_def]
      networks_sort sorted_stable_sort)

lemma fixed_sort_mset [simp]: "mset (fixed_sort lesser v) = mset v"
  by (simp add: fixed_sort_def Let_def sort_defs std_sort_def networks_sort)

lemma fixed_sort_set [simp]: "set (fixed_sort lesser v) = set v"
  by (metis fixed_sort_mset set_mset_mset)

lemma fixed_sort_length [simp]: "length (fixed_sort lesser v) = length v"
  by (metis fixed_sort_mset size_mset)

end

subsection \<open>SortedVector\<close>

text \<open>
  The vector \<open>v_\<close> is a list, an iterator its index and \<open>end()\<close> the length.  Every operation that takes
  foreign contents sorts them; \<open>resize\<close> sorts when it grew.
\<close>

function lower_bound_loop :: "('a \<Rightarrow> 'a \<Rightarrow> bool) \<Rightarrow> 'a \<Rightarrow> 'a list \<Rightarrow> nat \<Rightarrow> nat \<Rightarrow> nat" where
  "lower_bound_loop lesser val v first len =
     (if 0 < len then
        let half = len div 2; middle = first + half in
        if lesser (v ! middle) val then lower_bound_loop lesser val v (middle + 1) (len - half - 1)
        else lower_bound_loop lesser val v first half
      else first)"
  by pat_completeness auto
termination
  by (relation "measure (\<lambda>(_, _, _, _, len). len)") auto

declare lower_bound_loop.simps [simp del]

definition lower_bound :: "('a \<Rightarrow> 'a \<Rightarrow> bool) \<Rightarrow> 'a \<Rightarrow> 'a list \<Rightarrow> nat" where
  "lower_bound lesser val v = lower_bound_loop lesser val v 0 (length v)"

definition sv_sort :: "('a \<Rightarrow> 'a \<Rightarrow> bool) \<Rightarrow> 'a list \<Rightarrow> 'a list" where
  "sv_sort lesser v = fixed_sort lesser v"

definition sv_assign :: "('a \<Rightarrow> 'a \<Rightarrow> bool) \<Rightarrow> 'a list \<Rightarrow> 'a list" where
  "sv_assign lesser l = sv_sort lesser l"

definition sv_swap :: "('a \<Rightarrow> 'a \<Rightarrow> bool) \<Rightarrow> 'a list \<Rightarrow> 'a list \<Rightarrow> 'a list \<times> 'a list" where
  "sv_swap lesser v other = (sv_sort lesser other, v)"

definition sv_move_assign :: "('a \<Rightarrow> 'a \<Rightarrow> bool) \<Rightarrow> 'a list \<Rightarrow> 'a list \<Rightarrow> 'a list \<times> 'a list" where
  "sv_move_assign lesser v other = (let (v', other') = (other, []) in (sv_sort lesser v', other'))"

definition sv_resize :: "('a \<Rightarrow> 'a \<Rightarrow> bool) \<Rightarrow> nat \<Rightarrow> 'a \<Rightarrow> 'a list \<Rightarrow> 'a list" where
  "sv_resize lesser n el v =
     (let old = length v; v' = take n v @ replicate (n - old) el in
      if length v' > old then sv_sort lesser v' else v')"

definition sv_find :: "('a \<Rightarrow> 'a \<Rightarrow> bool) \<Rightarrow> 'a \<Rightarrow> 'a list \<Rightarrow> nat" where
  "sv_find lesser val v =
     (let it = lower_bound lesser val v in
      if it = length v \<or> lesser val (v ! it) then length v else it)"

definition sv_contains :: "('a \<Rightarrow> 'a \<Rightarrow> bool) \<Rightarrow> 'a \<Rightarrow> 'a list \<Rightarrow> bool" where
  "sv_contains lesser val v \<longleftrightarrow> length v \<noteq> sv_find lesser val v"

text \<open>\<open>insert (val, replace)\<close>: the returned iterator and the vector; \<open>end()\<close> of the old vector on a duplicate.\<close>

definition sv_insert :: "('a \<Rightarrow> 'a \<Rightarrow> bool) \<Rightarrow> 'a \<Rightarrow> bool \<Rightarrow> 'a list \<Rightarrow> nat \<times> 'a list" where
  "sv_insert lesser val replace v =
     (let it = lower_bound lesser val v in
      if it \<noteq> length v \<and> \<not> lesser val (v ! it) then
        (if \<not> replace then (length v, v) else (it, v[it := val]))
      else (it, insert_at it val v))"

definition sv_replace :: "('a \<Rightarrow> 'a \<Rightarrow> bool) \<Rightarrow> 'a \<Rightarrow> 'a list \<Rightarrow> nat \<times> 'a list" where
  "sv_replace lesser val v = sv_insert lesser val True v"

fun sv_sorted :: "('a \<Rightarrow> 'a \<Rightarrow> bool) \<Rightarrow> bool \<Rightarrow> 'a list \<Rightarrow> bool" where
  "sv_sorted lesser allow_multiple (x # y # v) =
     (if lesser x y = False then
        (if allow_multiple \<and> lesser y x = False then sv_sorted lesser allow_multiple (y # v) else False)
      else sv_sorted lesser allow_multiple (y # v))"
| "sv_sorted lesser allow_multiple _ = True"

function collapse_loop :: "('a \<Rightarrow> 'a \<Rightarrow> bool) \<Rightarrow> bool \<Rightarrow> nat \<Rightarrow> 'a list \<Rightarrow> 'a list" where
  "collapse_loop lesser delete_first i v =
     (if i < length v then
        if lesser (v ! (i - 1)) (v ! i) = False
        then collapse_loop lesser delete_first i (erase_at (i - (if delete_first then 1 else 0)) v)
        else collapse_loop lesser delete_first (i + 1) v
      else v)"
  by pat_completeness auto
termination
  by (relation "measure (\<lambda>(_, _, i, v). length v - i)") (auto simp: length_erase_at split: if_splits)

declare collapse_loop.simps [simp del]

definition sv_collapse :: "('a \<Rightarrow> 'a \<Rightarrow> bool) \<Rightarrow> bool \<Rightarrow> 'a list \<Rightarrow> nat \<times> 'a list" where
  "sv_collapse lesser delete_first v =
     (let v' = collapse_loop lesser delete_first 1 v in (length v - length v', v'))"

function erase_if_loop :: "('a \<Rightarrow> bool) \<Rightarrow> nat \<Rightarrow> 'a list \<Rightarrow> 'a list" where
  "erase_if_loop pred it v =
     (if it < length v then
        if pred (v ! it) then erase_if_loop pred it (erase_at it v) else erase_if_loop pred (it + 1) v
      else v)"
  by pat_completeness auto
termination
  by (relation "measure (\<lambda>(_, i, v). length v - i)") (auto simp: length_erase_at)

declare erase_if_loop.simps [simp del]

definition sv_erase_if :: "('a \<Rightarrow> bool) \<Rightarrow> 'a list \<Rightarrow> nat \<times> 'a list" where
  "sv_erase_if pred v = (let v' = erase_if_loop pred 0 v in (length v - length v', v'))"

subsection \<open>Operations on a sorted vector\<close>

lemma erase_if_loop_filter:
  "it \<le> length v \<Longrightarrow> erase_if_loop pred it v = take it v @ filter (\<lambda>x. \<not> pred x) (drop it v)"
proof (induction pred it v rule: erase_if_loop.induct)
  case (1 pred it v)
  show ?case
  proof (cases "it < length v")
    case False
    then show ?thesis using 1 by (subst erase_if_loop.simps) simp
  next
    case True
    then have d: "drop it v = v ! it # drop (Suc it) v" by (simp add: Cons_nth_drop_Suc)
    show ?thesis
    proof (cases "pred (v ! it)")
      case True
      then show ?thesis
        using "1.IH"(1) \<open>it < length v\<close> d by (subst erase_if_loop.simps) (simp add: erase_at_def)
    next
      case False
      then show ?thesis
        using "1.IH"(2) \<open>it < length v\<close> d
        by (subst erase_if_loop.simps) (simp add: take_Suc_conv_app_nth)
    qed
  qed
qed

lemma sv_erase_if_spec: "snd (sv_erase_if pred v) = filter (\<lambda>x. \<not> pred x) v"
  by (simp add: sv_erase_if_def erase_if_loop_filter Let_def)

text \<open>\<open>std::lower_bound\<close> on a range partitioned by \<open>element < val\<close>.\<close>

lemma lower_bound_loop_correct:
  assumes "\<And>i j. i \<le> j \<Longrightarrow> j < length v \<Longrightarrow> lesser (v ! j) val \<Longrightarrow> lesser (v ! i) val"
    and "first + len \<le> length v" and "\<forall>i<first. lesser (v ! i) val"
    and "\<forall>i. first + len \<le> i \<longrightarrow> i < length v \<longrightarrow> \<not> lesser (v ! i) val"
  shows "let p = lower_bound_loop lesser val v first len in
           p \<le> length v \<and> (\<forall>i<p. lesser (v ! i) val) \<and> (\<forall>i. p \<le> i \<longrightarrow> i < length v \<longrightarrow> \<not> lesser (v ! i) val)"
  using assms
proof (induction lesser val v first len rule: lower_bound_loop.induct)
  case (1 lesser val v first len)
  define middle where "middle = first + len div 2"
  note mono = "1.prems"(1)
  show ?case
  proof (cases "0 < len")
    case False
    then show ?thesis using "1.prems" by (subst lower_bound_loop.simps) simp
  next
    case len: True
    then have m: "middle < length v" "first \<le> middle" "middle < first + len"
      using "1.prems"(2) by (auto simp: middle_def)
    show ?thesis
    proof (cases "lesser (v ! middle) val")
      case True
      have "\<forall>i<middle + 1. lesser (v ! i) val" using mono [OF _ m(1) True] by auto
      moreover have "middle + 1 + (len - len div 2 - 1) = first + len" using len by (simp add: middle_def)
      ultimately show ?thesis
        using "1.IH"(1) [OF len refl middle_def True mono] "1.prems"(2,4) len True
        by (subst lower_bound_loop.simps) (simp add: middle_def [symmetric] Let_def)
    next
      case False
      have "\<forall>i. first + len div 2 \<le> i \<longrightarrow> i < length v \<longrightarrow> \<not> lesser (v ! i) val"
        using mono [of middle] False by (auto simp: middle_def [symmetric])
      then show ?thesis
        using "1.IH"(2) [OF len refl middle_def False mono] "1.prems"(2,3) len False m
        by (subst lower_bound_loop.simps) (simp add: middle_def [symmetric] Let_def)
    qed
  qed
qed

context strict_weak
begin

lemma strictly_weakly: "sorted_wrt lesser v \<Longrightarrow> sorted_wrt (\<lambda>x y. \<not> lesser y x) v"
  by (erule sorted_wrt_mono_rel [rotated]) (auto dest: lesser_asym)

lemma sv_sorted_strict: "sv_sorted lesser False v \<longleftrightarrow> sorted_wrt lesser v"
  by (induction v rule: induct_list012) (auto simp: sorted_wrt2 [OF transp_lesser] simp del: sorted_wrt.simps(2) simp add: sorted_wrt1)

lemma sv_sorted_weak: "sv_sorted lesser True v \<longleftrightarrow> sorted_wrt (\<lambda>x y. \<not> lesser y x) v"
  by (induction v rule: induct_list012)
    (auto simp: sorted_wrt2 [OF transp_le] simp add: sorted_wrt1 simp del: sorted_wrt.simps(2) dest: lesser_asym)

lemma sv_sort_sorted: "sv_sorted lesser True (sv_sort lesser v)" "mset (sv_sort lesser v) = mset v"
  by (simp_all add: sv_sorted_weak sv_sort_def fixed_sort_sorts)

lemma lower_bound_correct:
  assumes "sorted_wrt (\<lambda>x y. \<not> lesser y x) v"
  shows "lower_bound lesser val v \<le> length v"
    and "i < lower_bound lesser val v \<Longrightarrow> lesser (v ! i) val"
    and "lower_bound lesser val v \<le> i \<Longrightarrow> i < length v \<Longrightarrow> \<not> lesser (v ! i) val"
proof -
  have mono: "lesser (v ! i) val" if "i \<le> j" "j < length v" "lesser (v ! j) val" for i j
    using assms that le_less_trans [of "v ! j" "v ! i" val]
    by (cases "i = j") (auto simp: sorted_wrt_iff_nth_less)
  note r = lower_bound_loop_correct [of v lesser val 0 "length v", OF mono, simplified, folded lower_bound_def]
  show "lower_bound lesser val v \<le> length v" using r by (simp add: Let_def)
  show "lesser (v ! i) val" if "i < lower_bound lesser val v" using r that by (simp add: Let_def)
  show "\<not> lesser (v ! i) val" if "lower_bound lesser val v \<le> i" "i < length v"
    using r that by (simp add: Let_def)
qed

text \<open>Two values are equivalent when neither is lesser.\<close>

lemma sv_find_correct:
  assumes "sorted_wrt lesser v"
  shows "sv_find lesser val v < length v \<Longrightarrow>
           \<not> lesser val (v ! sv_find lesser val v) \<and> \<not> lesser (v ! sv_find lesser val v) val"
    and "sv_contains lesser val v \<longleftrightarrow> (\<exists>x\<in>set v. \<not> lesser val x \<and> \<not> lesser x val)"
proof -
  note lb = lower_bound_correct [OF strictly_weakly [OF assms], where val = val]
  let ?p = "lower_bound lesser val v"
  show found: "\<not> lesser val (v ! sv_find lesser val v) \<and> \<not> lesser (v ! sv_find lesser val v) val"
    if "sv_find lesser val v < length v"
    using that lb(1) lb(3) [of ?p] by (auto simp: sv_find_def Let_def split: if_splits)
  have "?p < length v \<and> \<not> lesser val (v ! ?p)" if x: "x \<in> set v" "\<not> lesser val x" "\<not> lesser x val" for x
  proof -
    obtain i where i: "i < length v" "x = v ! i" using x(1) by (auto simp: in_set_conv_nth)
    then have p: "?p \<le> i" using lb(2) [of i] x(3) by force
    then have "\<not> lesser val (v ! ?p)"
      using assms x(2) i by (cases "?p = i") (auto simp: sorted_wrt_iff_nth_less intro: lesser_trans)
    with p i show ?thesis by simp
  qed
  then have "\<exists>x\<in>set v. \<not> lesser val x \<and> \<not> lesser x val \<Longrightarrow> ?p < length v \<and> \<not> lesser val (v ! ?p)"
    by blast
  then have "\<exists>x\<in>set v. \<not> lesser val x \<and> \<not> lesser x val \<Longrightarrow> sv_contains lesser val v"
    by (auto simp: sv_contains_def sv_find_def Let_def)
  moreover have "sv_find lesser val v < length v" if "sv_contains lesser val v"
    using that lb(1) by (auto simp: sv_contains_def sv_find_def Let_def split: if_splits)
  ultimately show "sv_contains lesser val v \<longleftrightarrow> (\<exists>x\<in>set v. \<not> lesser val x \<and> \<not> lesser x val)"
    using found nth_mem by blast
qed

lemma sv_insert_sorted:
  assumes "sorted_wrt lesser v"
  shows "sorted_wrt lesser (snd (sv_insert lesser val replace v))"
proof -
  note lb = lower_bound_correct [OF strictly_weakly [OF assms], where val = val]
  let ?p = "lower_bound lesser val v"
  have nth: "lesser (v ! i) (v ! j)" if "i < j" "j < length v" for i j
    using assms that by (simp add: sorted_wrt_iff_nth_less)
  show ?thesis
  proof (cases "?p \<noteq> length v \<and> \<not> lesser val (v ! ?p)")
    case True
    then have p: "?p < length v" "\<not> lesser val (v ! ?p)" "\<not> lesser (v ! ?p) val"
      using lb(1) lb(3) [of ?p] by auto
    have "lesser (v[?p := val] ! i) (v[?p := val] ! j)" if "i < j" "j < length v" for i j
      using nth [OF that] that p less_le_trans [of "v ! i" "v ! ?p" val] le_less_trans [of "v ! ?p" val "v ! j"]
      by (cases "i = ?p"; cases "j = ?p") auto
    then have "sorted_wrt lesser (v[?p := val])" by (simp add: sorted_wrt_iff_nth_less)
    then show ?thesis using True assms by (simp add: sv_insert_def Let_def)
  next
    case False
    have "lesser y val" if "y \<in> set (take ?p v)" for y
      using that lb(2) unfolding in_set_conv_nth by auto
    moreover have "lesser val y" if y: "y \<in> set (drop ?p v)" for y
    proof -
      obtain k where k: "k < length v - ?p" "y = v ! (?p + k)" using y unfolding in_set_conv_nth by auto
      then have "lesser val (v ! ?p)" using False by auto
      then show ?thesis using k nth [of ?p "?p + k"] by (cases k) (auto intro: lesser_trans)
    qed
    ultimately show ?thesis
      using False assms by (auto simp: sv_insert_def Let_def intro: sorted_wrt_insert_at)
  qed
qed

lemma sv_insert_set:
  assumes "sorted_wrt lesser v"
  shows "set (snd (sv_insert lesser val replace v)) =
           (if sv_contains lesser val v
            then if replace then insert val {x \<in> set v. lesser val x \<or> lesser x val} else set v
            else insert val (set v))"
proof -
  note lb = lower_bound_correct [OF strictly_weakly [OF assms], where val = val]
  let ?p = "lower_bound lesser val v"
  show ?thesis
  proof (cases "?p \<noteq> length v \<and> \<not> lesser val (v ! ?p)")
    case False
    then have "\<not> sv_contains lesser val v" by (auto simp: sv_contains_def sv_find_def Let_def)
    then show ?thesis using False by (auto simp: sv_insert_def Let_def)
  next
    case True
    then have p: "?p < length v" "\<not> lesser val (v ! ?p)" "\<not> lesser (v ! ?p) val"
      using lb(1) lb(3) [of ?p] by auto
    have c: "sv_contains lesser val v" using True by (auto simp: sv_contains_def sv_find_def Let_def)
    have eq: "lesser val (v ! i) \<or> lesser (v ! i) val \<longleftrightarrow> i \<noteq> ?p" if "i < length v" for i
    proof (cases i ?p rule: linorder_cases)
      case less
      then show ?thesis using lb(2) [of i] by simp
    next
      case greater
      then have "lesser (v ! ?p) (v ! i)" using assms that by (simp add: sorted_wrt_iff_nth_less)
      then show ?thesis using greater p le_less_trans [of "v ! ?p" val "v ! i"] by simp
    qed (use p in simp)
    have "set (v[?p := val]) = insert val {x \<in> set v. lesser val x \<or> lesser x val}"
    proof (rule set_eqI)
      fix x
      have "x \<in> set (v[?p := val]) \<longleftrightarrow> x = val \<or> (\<exists>i<length v. i \<noteq> ?p \<and> x = v ! i)"
        using p(1) unfolding in_set_conv_nth
        by (metis length_list_update nth_list_update_eq nth_list_update_neq)
      then show "x \<in> set (v[?p := val]) \<longleftrightarrow> x \<in> insert val {x \<in> set v. lesser val x \<or> lesser x val}"
        using eq unfolding insert_iff mem_Collect_eq in_set_conv_nth [of x v] by metis
    qed
    then show ?thesis using True c by (simp add: sv_insert_def Let_def)
  qed
qed

text \<open>\<open>collapse\<close> leaves one element of every run of equivalent ones.\<close>

lemma take_erase_at: "i < length v \<Longrightarrow> take i (erase_at i v) = take i v"
  by (simp add: erase_at_def)

lemma erase_at_nth: "i < length v \<Longrightarrow> j < length v - 1 \<Longrightarrow> erase_at i v ! j = (if j < i then v ! j else v ! Suc j)"
  by (auto simp: erase_at_def nth_append min_def)

lemma equivalent_below:
  assumes "sorted_wrt (\<lambda>x y. \<not> lesser y x) v" and "i \<le> j" and "j < length v"
  shows "\<not> lesser (v ! j) (v ! i)"
  using assms by (cases "i = j") (auto simp: sorted_wrt_iff_nth_less lesser_irrefl)

lemma collapse_loop_result:
  assumes "sorted_wrt (\<lambda>x y. \<not> lesser y x) v" and "1 \<le> i" and "sorted_wrt lesser (take i v)"
    and "v \<noteq> [] \<Longrightarrow> i \<le> length v"
  shows "sorted_wrt lesser (collapse_loop lesser delete_first i v) \<and>
         set (collapse_loop lesser delete_first i v) \<subseteq> set v \<and>
         (\<forall>x\<in>set v. \<exists>y\<in>set (collapse_loop lesser delete_first i v). \<not> lesser x y \<and> \<not> lesser y x)"
  using assms
proof (induction "length v - i" arbitrary: i v)
  case 0
  then have "\<not> i < length v" by simp
  then show ?case using 0 lesser_irrefl by (subst (1 2 3) collapse_loop.simps) (auto simp: take_all)
next
  case (Suc m)
  then have i: "i < length v" by simp
  note [simp] = length_erase_at
  show ?case
  proof (cases "lesser (v ! (i - 1)) (v ! i)")
    case True
    have "sorted_wrt lesser (take (i + 1) v)"
    proof -
      have "lesser x (v ! i)" if "x \<in> set (take i v)" for x
      proof -
        obtain k where k: "k < i" "x = v ! k" using \<open>x \<in> set (take i v)\<close> i unfolding in_set_conv_nth by auto
        show ?thesis
          using k equivalent_below [OF Suc.prems(1), of k "i - 1"] i le_less_trans [OF _ True, of x] by simp
      qed
      then show ?thesis using Suc.prems(3) i by (simp add: take_Suc_conv_app_nth sorted_wrt_append)
    qed
    then show ?thesis
      using Suc.hyps(1) [of v "i + 1"] Suc.hyps(2) Suc.prems True i
      by (subst (1 2 3) collapse_loop.simps) simp
  next
    case False
    then have eq: "\<not> lesser (v ! (i - 1)) (v ! i)" "\<not> lesser (v ! i) (v ! (i - 1))"
      using equivalent_below [OF Suc.prems(1), of "i - 1" i] i by auto
    let ?k = "i - (if delete_first then 1 else 0)"
    let ?w = "erase_at ?k v"
    have k: "?k < length v" using i by simp
    have nth: "?w ! j = (if j < ?k then v ! j else v ! Suc j)" if "j < length v - 1" for j
      using erase_at_nth [OF k that] .
    have sw: "sorted_wrt (\<lambda>x y. \<not> lesser y x) ?w" using sorted_wrt_erase_at [OF Suc.prems(1)] .
    have st: "sorted_wrt lesser (take i ?w)"
    proof -
      have "lesser (?w ! a) (?w ! b)" if ab: "a < b" "b < i" "b < length v - 1" for a b
      proof -
        have l: "lesser (v ! a) (v ! b)" 
          using Suc.prems(3) ab i by (auto simp: sorted_wrt_iff_nth_less)
        show ?thesis
        proof (cases "delete_first \<and> b = i - 1")
          case True
          then have "?w ! b = v ! i" "?w ! a = v ! a" using nth [of a] nth [of b] ab i by auto
          then show ?thesis using less_le_trans [OF l, of "v ! i"] eq(2) True by simp
        next
          case False
          then have "?w ! b = v ! b" "?w ! a = v ! a" using nth [of a] nth [of b] ab by auto
          then show ?thesis using l by simp
        qed
      qed
      then show ?thesis using k by (simp add: sorted_wrt_iff_nth_less)
    qed
    have IH: "sorted_wrt lesser (collapse_loop lesser delete_first i ?w) \<and>
        set (collapse_loop lesser delete_first i ?w) \<subseteq> set ?w \<and>
        (\<forall>x\<in>set ?w. \<exists>y\<in>set (collapse_loop lesser delete_first i ?w). \<not> lesser x y \<and> \<not> lesser y x)"
      using Suc.hyps(2) k i by (intro Suc.hyps(1) sw st Suc.prems(2)) auto
    have sub: "set ?w \<subseteq> set v" using set_erase_at by (auto simp: erase_at_def dest: in_set_takeD in_set_dropD)
    have keep: "\<exists>y\<in>set ?w. \<not> lesser x y \<and> \<not> lesser y x" if x: "x \<in> set v" for x
    proof -
      obtain j where j: "j < length v" "x = v ! j" using x unfolding in_set_conv_nth by auto
      consider "j = ?k" | "j < ?k" | "?k < j" by linarith
      then show ?thesis
      proof cases
        case at: 1
        let ?o = "if delete_first then v ! i else v ! (i - 1)"
        have "?w ! (i - 1) = ?o" using nth [of "i - 1"] i Suc.prems(2) by auto
        moreover have "i - 1 < length ?w" using k i Suc.prems(2) by simp
        ultimately have "?o \<in> set ?w" using nth_mem [of "i - 1" ?w] by metis
        then show ?thesis using at j eq by (auto split: if_splits)
      next
        case 2
        then have "j < length ?w" using k i by simp
        moreover from this 2 have "x = ?w ! j" using nth [of j] j k by simp
        ultimately show ?thesis using lesser_irrefl nth_mem by metis
      next
        case 3
        then have "x = ?w ! (j - 1)" "j - 1 < length ?w" using nth [of "j - 1"] j k by auto
        then show ?thesis using lesser_irrefl nth_mem by metis
      qed
    qed
    have step: "collapse_loop lesser delete_first i v = collapse_loop lesser delete_first i ?w"
      using False i by (subst collapse_loop.simps) simp
    show ?thesis
      unfolding step using IH sub keep by (meson le_trans subset_trans)
  qed
qed

lemma sv_collapse_correct:
  assumes "sorted_wrt (\<lambda>x y. \<not> lesser y x) v"
  shows "sorted_wrt lesser (snd (sv_collapse lesser delete_first v))"
    and "set (snd (sv_collapse lesser delete_first v)) \<subseteq> set v"
    and "x \<in> set v \<Longrightarrow> \<exists>y\<in>set (snd (sv_collapse lesser delete_first v)). \<not> lesser x y \<and> \<not> lesser y x"
proof -
  have "sorted_wrt lesser (take 1 v)" by (cases v) auto
  moreover have "v \<noteq> [] \<Longrightarrow> 1 \<le> length v" by (cases v) auto
  ultimately have "sorted_wrt lesser (collapse_loop lesser delete_first 1 v) \<and>
         set (collapse_loop lesser delete_first 1 v) \<subseteq> set v \<and>
         (\<forall>x\<in>set v. \<exists>y\<in>set (collapse_loop lesser delete_first 1 v). \<not> lesser x y \<and> \<not> lesser y x)"
    by (intro collapse_loop_result [OF assms]) auto
  then show "sorted_wrt lesser (snd (sv_collapse lesser delete_first v))"
    and "set (snd (sv_collapse lesser delete_first v)) \<subseteq> set v"
    and "x \<in> set v \<Longrightarrow> \<exists>y\<in>set (snd (sv_collapse lesser delete_first v)). \<not> lesser x y \<and> \<not> lesser y x"
    by (simp_all add: sv_collapse_def Let_def)
qed

end

subsection \<open>Properties\<close>

text \<open>
  C19: \<open>fixed_sort\<close> sorts every range by every strict weak order and keeps its elements: the fifteen
  hard coded networks for 2 to 16 elements as well as the general case.
\<close>

theorem fixed_sort_correct:
  assumes "strict_weak lesser"
  shows "sorted_wrt (\<lambda>x y. \<not> lesser y x) (fixed_sort lesser v) \<and> mset (fixed_sort lesser v) = mset v"
  by (intro conjI strict_weak.fixed_sort_sorts [OF assms] strict_weak.fixed_sort_mset [OF assms])

lemma strict_weak_less: "strict_weak ((<) :: int \<Rightarrow> int \<Rightarrow> bool)"
  by unfold_locales auto

theorem fixed_sort_correct_witness:
  "sorted_wrt (\<lambda>x y. \<not> y < x) (fixed_sort (<) [3, -1, 4, 1, -5 :: int]) \<and>
   mset (fixed_sort (<) [3, -1, 4, 1, -5 :: int]) = {#-5, -1, 1, 3, 4#} \<and>
   fixed_sort (<) [3, -1, 4, 1, -5 :: int] = [-5, -1, 1, 3, 4]"
  using fixed_sort_correct [OF strict_weak_less, of "[3, -1, 4, 1, -5]"]
  by (simp add: fixed_sort_def sort_5_def net_5_def run_net_def srt_def add_mset_commute)

text \<open>
  \<open>SortedVector::insert\<close> keeps the vector strictly sorted; a value equivalent to an element is
  refused, or replaces that element when \<open>replace\<close> is given; any other value is added; and \<open>contains\<close>
  tells the cases apart.
\<close>

theorem sv_insert_correct:
  assumes "strict_weak lesser" and "sv_sorted lesser False v"
  shows "sv_sorted lesser False (snd (sv_insert lesser val replace v)) \<and>
         set (snd (sv_insert lesser val replace v)) =
           (if \<exists>x\<in>set v. \<not> lesser val x \<and> \<not> lesser x val
            then if replace then insert val {x \<in> set v. lesser val x \<or> lesser x val} else set v
            else insert val (set v)) \<and>
         (sv_contains lesser val v \<longleftrightarrow> (\<exists>x\<in>set v. \<not> lesser val x \<and> \<not> lesser x val))"
proof -
  note sw = assms(1)
  have sorted: "sorted_wrt lesser v" using assms(2) strict_weak.sv_sorted_strict [OF sw] by blast
  note c = strict_weak.sv_find_correct(2) [OF sw sorted, of val]
  show ?thesis
    using strict_weak.sv_insert_sorted [OF sw sorted, of val replace]
      strict_weak.sv_insert_set [OF sw sorted, of val replace, unfolded c] c
      strict_weak.sv_sorted_strict [OF sw, of "snd (sv_insert lesser val replace v)"] by blast
qed

theorem sv_insert_correct_witness:
  "sv_sorted (<) False (snd (sv_insert (<) 5 False [1, 4, 9 :: int])) \<and>
   set (snd (sv_insert (<) 5 False [1, 4, 9 :: int])) = {1, 4, 5, 9} \<and> \<not> sv_contains (<) 5 [1, 4, 9 :: int]"
  using sv_insert_correct [OF strict_weak_less, of "[1, 4, 9]" 5 False] by auto

text \<open>
  \<open>SortedVector::collapse\<close> on a vector sorted with duplicates leaves it strictly sorted, keeps only
  elements that were there, and keeps one for every element that was there.
\<close>

theorem sv_collapse_strict:
  assumes "strict_weak lesser" and "sv_sorted lesser True v"
  shows "sv_sorted lesser False (snd (sv_collapse lesser delete_first v)) \<and>
         set (snd (sv_collapse lesser delete_first v)) \<subseteq> set v \<and>
         (\<forall>x\<in>set v. \<exists>y\<in>set (snd (sv_collapse lesser delete_first v)). \<not> lesser x y \<and> \<not> lesser y x)"
proof -
  note sw = assms(1)
  have "sorted_wrt (\<lambda>x y. \<not> lesser y x) v" using assms(2) strict_weak.sv_sorted_weak [OF sw] by blast
  note c = strict_weak.sv_collapse_correct [OF sw this, where delete_first = delete_first]
  show ?thesis
    using c strict_weak.sv_sorted_strict [OF sw, of "snd (sv_collapse lesser delete_first v)"] by blast
qed

theorem sv_collapse_strict_witness:
  "sv_sorted (<) False (snd (sv_collapse (<) True [1, 1, 2, 3, 3 :: int])) \<and>
   set (snd (sv_collapse (<) True [1, 1, 2, 3, 3 :: int])) = {1, 2, 3}"
proof -
  have "sv_sorted (<) True [1, 1, 2, 3, 3 :: int]" by simp
  note c = sv_collapse_strict [OF strict_weak_less this, of True]
  let ?s = "set (snd (sv_collapse (<) True [1, 1, 2, 3, 3 :: int]))"
  have "x \<in> ?s" if x: "x \<in> set [1, 1, 2, 3, 3]" for x
  proof -
    from c x obtain y where "y \<in> ?s" "\<not> x < y" "\<not> y < x" by blast
    then show ?thesis by (metis linorder_neqE)
  qed
  then have "set [1, 1, 2, 3, 3] \<subseteq> ?s" by blast
  then have "?s = set [1, 1, 2, 3, 3]" using c by (intro subset_antisym) blast+
  then show ?thesis using c by simp
qed

end
