(* ===== verification/MidiEvent.thy ===== *)
theory MidiEvent
  imports Complex_Main QueueMux Sortnet
begin

section \<open>MIDI events and event streams (ase/midievent.hh, ase/midievent.cc)\<close>

text \<open>
  A \<open>MidiEvent\<close> with its bit fields at their width and its unions: \<open>param\<close> stands for the union of
  \<open>length\<close>, \<open>param\<close> and \<open>noteid\<close>, \<open>key\<close> for that of \<open>key\<close> and \<open>fragment\<close>, and \<open>data\<close> for the last one.
  Floating point values are reals; \<open>f32\<close> and \<open>f64\<close> are the roundings of \<open>float\<close> and \<open>double\<close> results
  and arguments of the definitions that compute with them.
\<close>

datatype MidiEventType =
  NO_TYPE | PARAM_VALUE | NOTE_OFF | NOTE_ON | AFTERTOUCH | CONTROL_CHANGE | PROGRAM_CHANGE |
  CHANNEL_PRESSURE | PITCH_BEND | SYSEX

fun type_code :: "MidiEventType \<Rightarrow> int" where
  "type_code NO_TYPE = 0"
| "type_code PARAM_VALUE = 0x70"
| "type_code NOTE_OFF = 0x80"
| "type_code NOTE_ON = 0x90"
| "type_code AFTERTOUCH = 0xA0"
| "type_code CONTROL_CHANGE = 0xB0"
| "type_code PROGRAM_CHANGE = 0xC0"
| "type_code CHANNEL_PRESSURE = 0xD0"
| "type_code PITCH_BEND = 0xE0"
| "type_code SYSEX = 0xF0"

text \<open>The extended messages of controllers 120 to 127.\<close>

definition ALL_SOUND_OFF :: u32 where "ALL_SOUND_OFF = 120"
definition POLY_MODE_ON :: u32 where "POLY_MODE_ON = 127"

datatype midi_data =
  Zeroed | PValue real | ValueCval real u32 | VelocityTuning real real

record MidiEvent =
  frame :: "12 word"
  channel :: "4 word"
  ev_type :: MidiEventType
  key :: u8
  param :: u32
  data :: midi_data

definition new_event :: "MidiEventType \<Rightarrow> MidiEvent" where
  "new_event etype = \<lparr>frame = 0, channel = 0, ev_type = etype, key = 0, param = 0, data = Zeroed\<rparr>"

definition message :: "MidiEvent \<Rightarrow> int" where
  "message ev =
     (if ev_type ev = CONTROL_CHANGE \<and> param ev \<ge> ALL_SOUND_OFF \<and> param ev \<le> POLY_MODE_ON
      then uint (param ev) else type_code (ev_type ev))"

definition note_event :: "MidiEventType \<Rightarrow> u16 \<Rightarrow> u8 \<Rightarrow> real \<Rightarrow> real \<Rightarrow> u32 \<Rightarrow> MidiEvent" where
  "note_event etype chnl mkey velo tune nid =
     (new_event etype)\<lparr>channel := ucast chnl, key := mkey, data := VelocityTuning velo tune, param := nid\<rparr>"

definition make_note_on :: "u16 \<Rightarrow> u8 \<Rightarrow> real \<Rightarrow> real \<Rightarrow> u32 \<Rightarrow> MidiEvent" where
  "make_note_on chnl mkey velo tune nid =
     note_event (if velo > 0 then NOTE_ON else NOTE_OFF) chnl mkey velo tune nid"

definition make_note_off :: "u16 \<Rightarrow> u8 \<Rightarrow> real \<Rightarrow> real \<Rightarrow> u32 \<Rightarrow> MidiEvent" where
  "make_note_off chnl mkey velo tune nid = note_event NOTE_OFF chnl mkey velo tune nid"

definition make_aftertouch :: "u16 \<Rightarrow> u8 \<Rightarrow> real \<Rightarrow> real \<Rightarrow> u32 \<Rightarrow> MidiEvent" where
  "make_aftertouch chnl mkey velo tune nid = note_event AFTERTOUCH chnl mkey velo tune nid"

definition make_pressure :: "u16 \<Rightarrow> real \<Rightarrow> MidiEvent" where
  "make_pressure chnl velo =
     (new_event CHANNEL_PRESSURE)\<lparr>channel := ucast chnl, data := VelocityTuning velo 0\<rparr>"

definition make_control :: "(real \<Rightarrow> real) \<Rightarrow> u16 \<Rightarrow> u32 \<Rightarrow> real \<Rightarrow> MidiEvent" where
  "make_control f32 chnl prm val =
     (new_event CONTROL_CHANGE)\<lparr>channel := ucast chnl, param := prm,
        data := ValueCval val (of_int \<lfloor>f32 (val * 127)\<rfloor>)\<rparr>"

definition make_control8 :: "(real \<Rightarrow> real) \<Rightarrow> (real \<Rightarrow> real) \<Rightarrow> u16 \<Rightarrow> u32 \<Rightarrow> u8 \<Rightarrow> MidiEvent" where
  "make_control8 f32 f64 chnl prm cval =
     (new_event CONTROL_CHANGE)\<lparr>channel := ucast chnl, param := prm,
        data := ValueCval (f32 (f64 (real (unat cval) * f64 (1 / 127)))) (ucast cval)\<rparr>"

definition make_program :: "u16 \<Rightarrow> u32 \<Rightarrow> MidiEvent" where
  "make_program chnl prgrm = (new_event PROGRAM_CHANGE)\<lparr>channel := ucast chnl, param := prgrm\<rparr>"

definition make_pitch_bend :: "u16 \<Rightarrow> real \<Rightarrow> MidiEvent" where
  "make_pitch_bend chnl val = (new_event PITCH_BEND)\<lparr>channel := ucast chnl, data := ValueCval val 0\<rparr>"

definition make_param_value :: "u32 \<Rightarrow> real \<Rightarrow> MidiEvent" where
  "make_param_value prm pvalue = (new_event PARAM_VALUE)\<lparr>channel := 0xf, param := prm, data := PValue pvalue\<rparr>"

subsection \<open>MidiEventOutput and MidiEventReader\<close>

text \<open>
  The output is its vector.  The frame argument is an \<open>int16_t\<close>, to which a caller's wider integer is
  narrowed, and is stored into the 12 bits of \<open>frame\<close>.
\<close>

definition int16 :: "int \<Rightarrow> int" where
  "int16 i = sint (word_of_int i :: u16)"

definition last_frame :: "MidiEvent list \<Rightarrow> int" where
  "last_frame evs = (if evs \<noteq> [] then uint (frame (last evs)) else 0)"

definition append_unsorted :: "int \<Rightarrow> MidiEvent \<Rightarrow> MidiEvent list \<Rightarrow> bool \<times> MidiEvent list" where
  "append_unsorted fr event evs =
     (let f = max (int16 fr) 0; last_event_stamp = (if evs \<noteq> [] then uint (frame (last evs)) else 0) in
      (f < last_event_stamp, evs @ [event\<lparr>frame := word_of_int f\<rparr>]))"

text \<open>\<open>append\<close> warns when the event is out of order (the assertion result is the flag).\<close>

definition midi_append :: "int \<Rightarrow> MidiEvent \<Rightarrow> MidiEvent list \<Rightarrow> bool \<times> MidiEvent list" where
  "midi_append fr event evs = (let (out_of_order, evs') = append_unsorted fr event evs in (\<not> out_of_order, evs'))"

definition lesser_frame :: "MidiEvent \<Rightarrow> MidiEvent \<Rightarrow> bool" where
  "lesser_frame a b \<longleftrightarrow> frame a < frame b"

definition ensure_order :: "MidiEvent list \<Rightarrow> MidiEvent list" where
  "ensure_order evs = fixed_sort lesser_frame evs"

definition QueueMultiplexer_priority :: "MidiEvent \<Rightarrow> int" where
  "QueueMultiplexer_priority e = uint (frame e)"

definition int_max :: int where
  "int_max = 2147483647"

definition MidiEventReader :: "MidiEvent list option list \<Rightarrow> MidiEvent mux" where
  "MidiEventReader vectors =
     snd (mux_assign QueueMultiplexer_priority int_max vectors (new_mux (length vectors)))"

definition read_events :: "MidiEvent mux \<Rightarrow> MidiEvent list option" where
  "read_events m =
     for_each QueueMultiplexer_priority int_max (new_event NO_TYPE) (count_pending m) (iter_begin m)"

subsection \<open>Lemmas\<close>

interpretation by_frame: strict_weak lesser_frame
  by unfold_locales (auto simp: lesser_frame_def)

lemma int16_small: "-32768 \<le> i \<Longrightarrow> i < 32768 \<Longrightarrow> int16 i = i"
  by (simp add: int16_def sint_sbintrunc' signed_take_bit_int_eq_self)

lemma frame_bound: "0 \<le> uint (w :: 12 word) \<and> uint w < 4096"
  using uint_lt2p [of w] by simp

lemma frame_le_iff: "\<not> lesser_frame b a \<longleftrightarrow> QueueMultiplexer_priority a \<le> QueueMultiplexer_priority b"
  by (simp add: lesser_frame_def QueueMultiplexer_priority_def word_less_def not_less)

lemma ensure_order_sorted:
  "sorted (map QueueMultiplexer_priority (ensure_order evs))" and mset_ensure_order: "mset (ensure_order evs) = mset evs"
  using by_frame.fixed_sort_sorts [of evs]
  by (simp_all add: ensure_order_def frame_le_iff sorted_map)

lemma uint_word12: "0 \<le> f \<Longrightarrow> f < 4096 \<Longrightarrow> uint (word_of_int f :: 12 word) = f"
  by (simp add: uint_word_of_int_eq take_bit_int_eq_self)

subsection \<open>Properties\<close>

text \<open>
  Appending an event at a frame of the block (or before it, which counts as frame 0) stores that
  frame, keeps all earlier events, and keeps the stream ascending exactly when \<open>append\<close> does not warn.
\<close>

theorem append_keeps_order:
  assumes "sorted (map QueueMultiplexer_priority evs)" and "-32768 \<le> fr" and "fr < 4096"
    and "midi_append fr event evs = (ok, evs')"
  shows "evs' = evs @ [event\<lparr>frame := word_of_int (max fr 0)\<rparr>] \<and>
         QueueMultiplexer_priority (last evs') = max fr 0 \<and>
         (ok \<longleftrightarrow> sorted (map QueueMultiplexer_priority evs'))"
proof -
  have f: "int16 fr = fr" using assms(2,3) by (intro int16_small) auto
  have e: "evs' = evs @ [event\<lparr>frame := word_of_int (max fr 0)\<rparr>]" and ok: "ok \<longleftrightarrow> last_frame evs \<le> max fr 0"
    using assms(4) f by (auto simp: midi_append_def append_unsorted_def Let_def last_frame_def)
  have p: "QueueMultiplexer_priority (last evs') = max fr 0"
    using e uint_word12 [of "max fr 0"] assms(3) by (simp add: QueueMultiplexer_priority_def)
  have "sorted (map QueueMultiplexer_priority evs') \<longleftrightarrow> (\<forall>x\<in>set evs. QueueMultiplexer_priority x \<le> max fr 0)"
    using assms(1) p e by (simp add: sorted_append)
  also have "\<dots> \<longleftrightarrow> last_frame evs \<le> max fr 0"
    using assms(1) by (cases evs rule: rev_cases)
      (auto simp: last_frame_def sorted_append QueueMultiplexer_priority_def)
  finally show ?thesis using e p ok by blast
qed

theorem append_keeps_order_witness:
  "midi_append 7 (new_event NOTE_ON) [(new_event NOTE_ON)\<lparr>frame := 5\<rparr>] =
     (True, [(new_event NOTE_ON)\<lparr>frame := 5\<rparr>, (new_event NOTE_ON)\<lparr>frame := 7\<rparr>])"
proof -
  let ?evs = "[(new_event NOTE_ON)\<lparr>frame := 5\<rparr>]"
  obtain ok evs' where m: "midi_append 7 (new_event NOTE_ON) ?evs = (ok, evs')" by (metis prod.exhaust)
  have "sorted (map QueueMultiplexer_priority ?evs)" by simp
  from append_keeps_order [OF this _ _ m] show ?thesis
    using m by (simp add: QueueMultiplexer_priority_def new_event_def)
qed

text \<open>
  \<open>ensure_order\<close> brings any event stream into ascending frame order and loses no event.
\<close>

theorem ensure_order_correct:
  "sorted (map QueueMultiplexer_priority (ensure_order evs)) \<and> mset (ensure_order evs) = mset evs"
  using ensure_order_sorted mset_ensure_order by blast

text \<open>
  An event reader over streams that were brought into order delivers every event of every stream
  once, in ascending frame order.
\<close>

theorem reader_merges_streams:
  "\<exists>out. read_events (MidiEventReader (map (\<lambda>evs. Some (ensure_order evs)) streams)) = Some out \<and>
         sorted (map QueueMultiplexer_priority out) \<and> mset out = mset (concat streams)"
proof -
  let ?qs = "map (\<lambda>evs. Some (ensure_order evs)) streams"
  obtain r m' where a: "mux_assign QueueMultiplexer_priority int_max ?qs (new_mux (length ?qs)) = (r, m')"
    by (metis prod.exhaust)
  have bound: "QueueMultiplexer_priority x \<le> int_max" for x
    using frame_bound [of "frame x"] by (simp add: QueueMultiplexer_priority_def int_max_def)
  have ok: "\<forall>q\<in>set ?qs. \<forall>v. q = Some v \<longrightarrow>
      sorted (map QueueMultiplexer_priority v) \<and> (\<forall>x\<in>set v. QueueMultiplexer_priority x \<le> int_max)"
    using ensure_order_sorted bound by auto
  have n: "length ?qs \<le> length (ptrs (new_mux (length ?qs) :: MidiEvent mux))" by (simp add: new_mux_def)
  note inv = assign_inv [OF n ok a]
  have "mset (concat (map the (filter (\<lambda>q. q \<noteq> None) ?qs))) = mset (concat streams)"
    by (induction streams) (auto simp: mset_ensure_order)
  then show ?thesis
    using for_each_merges [OF inv(1) refl, of "new_event NO_TYPE"] inv(2) a
    by (auto simp: read_events_def MidiEventReader_def)
qed

end
