(* ===== verification/Clip.thy ===== *)
theory Clip
  imports MidiEvent
begin

section \<open>Clips: notes, editing and playback (ase/clip.hh, ase/clip.cc)\<close>

text \<open>
  A clip keeps its notes in an \<open>EventList\<close> ordered by id, edits them in batches with undo images, and
  plays them through a \<open>Generator\<close> that walks ticks through the loop of the clip.  The signed integers
  of the code (\<open>int8\<close>, \<open>int32\<close>, \<open>int64\<close>) are integers; note ids are allocated from a 32 bit counter.
\<close>

subsection \<open>Notes and their orders\<close>

record ClipNote =
  id :: int
  channel :: int
  key :: int
  selected :: bool
  tick :: int
  duration :: int
  velocity :: real
  fine_tune :: real

definition default_note :: ClipNote where
  "default_note = \<lparr>id = 0, channel = 0, key = 0, selected = False, tick = 0, duration = 0,
                    velocity = 0, fine_tune = 0\<rparr>"

definition note_eq :: "ClipNote \<Rightarrow> ClipNote \<Rightarrow> bool" where
  "note_eq n o' \<longleftrightarrow>
     tick n = tick o' \<and> id n = id o' \<and> channel n = channel o' \<and> key n = key o' \<and>
     selected n = selected o' \<and> duration n = duration o' \<and> velocity n = velocity o' \<and>
     fine_tune n = fine_tune o'"

definition CmpNoteIds :: "ClipNote \<Rightarrow> ClipNote \<Rightarrow> int" where
  "CmpNoteIds a b = compare_lesser (id a) (id b)"

definition CmpNoteTicks :: "ClipNote \<Rightarrow> ClipNote \<Rightarrow> int" where
  "CmpNoteTicks a b =
     (let tcmp = compare_lesser (tick a) (tick b) in
      if tcmp \<noteq> 0 then tcmp
      else let kcmp = compare_lesser (key a) (key b) in
      if kcmp \<noteq> 0 then kcmp
      else let ccmp = compare_lesser (channel a) (channel b) in
      if ccmp \<noteq> 0 then ccmp
      else let scmp = compare_lesser (selected a) (selected b) in
      if scmp \<noteq> 0 then scmp
      else compare_lesser (id a) (id b))"

text \<open>Both functors are total comparisons, so the contracts of the containers hold for them.\<close>

interpretation note_ids: total_compare CmpNoteIds
  by unfold_locales (auto simp: CmpNoteIds_def)

interpretation note_ticks: total_compare CmpNoteTicks
  by unfold_locales (auto simp: CmpNoteTicks_def Let_def split: if_splits)

lemma note_eq_iff: "note_eq a b \<longleftrightarrow> a = b"
  by (cases a; cases b) (auto simp: note_eq_def)

subsection \<open>Clip state\<close>

text \<open>
  \<open>undo_queue\<close> is what \<open>push_undo\<close> added to the undo scopes of the project: the group and the compressed
  image of the notes.  \<open>emitted\<close> logs the notifications.  \<open>next_noteid\<close> is the static counter.
\<close>

record 'z clip =
  clip_notes :: "ClipNote event_list"
  starttick :: int
  stoptick :: int
  endtick :: int
  undo_queue :: "(string \<times> 'z) list"
  emitted :: "string list"
  next_noteid :: u32

definition MIDI_NOTE_ID_FIRST :: u32 where "MIDI_NOTE_ID_FIRST = 0x10000001"
definition MIDI_NOTE_ID_LAST :: u32 where "MIDI_NOTE_ID_LAST = 0xfffffffe"

definition new_clip :: "'z clip" where
  "new_clip = \<lparr>clip_notes = new_event_list, starttick = 0, stoptick = 0, endtick = 0, undo_queue = [],
                emitted = [], next_noteid = MIDI_NOTE_ID_FIRST\<rparr>"

definition emit :: "string \<Rightarrow> 'z clip \<Rightarrow> 'z clip" where
  "emit what c = c\<lparr>emitted := emitted c @ [what]\<rparr>"

definition needs_serialize :: "'z clip \<Rightarrow> bool" where
  "needs_serialize c \<longleftrightarrow> el_size (clip_notes c) > 0"

text \<open>\<open>assign_range\<close>: the assertions return early; every changed tick is notified.\<close>

definition assign_range :: "int \<Rightarrow> int \<Rightarrow> 'z clip \<Rightarrow> 'z clip" where
  "assign_range start stop c =
     (if \<not> start \<ge> 0 then c
      else if \<not> stop \<ge> start then c
      else
        let c1 = c\<lparr>starttick := start, stoptick := stop, endtick := max start stop\<rparr>;
            c2 = (if endtick c \<noteq> endtick c1 then emit ''end_tick'' c1 else c1);
            c3 = (if stoptick c \<noteq> stoptick c1 then emit ''stop_tick'' c2 else c2) in
        (if starttick c \<noteq> starttick c1 then emit ''start_tick'' c3 else c3))"

definition tick_events :: "'z clip \<Rightarrow> ClipNote list \<times> 'z clip" where
  "tick_events c = (let (oe, el) = ordered_events CmpNoteTicks (clip_notes c) in (oe, c\<lparr>clip_notes := el\<rparr>))"

definition list_all_notes :: "'z clip \<Rightarrow> ClipNote list \<times> 'z clip" where
  "list_all_notes c = tick_events c"

subsection \<open>Undo images\<close>

text \<open>
  \<open>EventImage\<close> stores the notes zstd compressed; \<open>compress\<close> and \<open>uncompress\<close> stand for that library,
  \<open>uncompress\<close> giving \<open>None\<close> where the size assertions of \<open>apply_undo\<close> fail.
\<close>

definition push_undo :: "(ClipNote list \<Rightarrow> 'z) \<Rightarrow> ClipNote list \<Rightarrow> string \<Rightarrow> 'z clip \<Rightarrow> 'z clip" where
  "push_undo compress clipnotes undogroup c =
     c\<lparr>undo_queue := undo_queue c @ [(undogroup, compress clipnotes)]\<rparr>"

definition insert_note :: "ClipNote \<Rightarrow> 'z clip \<Rightarrow> bool \<times> 'z clip" where
  "insert_note note c = (case el_insert CmpNoteIds note (clip_notes c) of (r, _, el) \<Rightarrow> (r, c\<lparr>clip_notes := el\<rparr>))"

definition apply_undo ::
    "(ClipNote list \<Rightarrow> 'z) \<Rightarrow> ('z \<Rightarrow> ClipNote list option) \<Rightarrow> 'z \<Rightarrow> string \<Rightarrow> 'z clip \<Rightarrow> 'z clip" where
  "apply_undo compress uncompress img undogroup c =
     (let c1 = push_undo compress (events (clip_notes c)) undogroup c in
      case uncompress img of
        None \<Rightarrow> c1
      | Some onotes \<Rightarrow>
          let c2 = c1\<lparr>clip_notes := clear_silently (clip_notes c1)\<rparr>;
              c3 = fold (\<lambda>note c. snd (insert_note note c)) onotes c2 in
          emit ''all_notes'' (emit ''notes'' c3))"

subsection \<open>Editing\<close>

definition remove_note :: "ClipNote \<Rightarrow> 'z clip \<Rightarrow> bool \<times> 'z clip" where
  "remove_note note c = (case el_remove CmpNoteIds note (clip_notes c) of (r, _, el) \<Rightarrow> (r, c\<lparr>clip_notes := el\<rparr>))"

text \<open>
  \<open>collapse_notes\<close>: the inner loop over the later copies of the same tick, which removes the note once
  for every later copy with the same key and channel.
\<close>

fun collapse_inner ::
    "bool \<Rightarrow> ClipNote \<Rightarrow> ClipNote list \<Rightarrow> nat \<times> ClipNote event_list \<Rightarrow> nat \<times> ClipNote event_list" where
  "collapse_inner preserve_selected note [] s = s"
| "collapse_inner preserve_selected note (n # rest) (collapsed, el) =
     (if tick note \<noteq> tick n then (collapsed, el)
      else if key note = key n \<and> channel note = channel n then
        (if selected note \<noteq> selected n \<and> preserve_selected
         then collapse_inner preserve_selected note rest (collapsed, el)
         else case el_remove CmpNoteIds note el of
                (r, _, el') \<Rightarrow> collapse_inner preserve_selected note rest (collapsed + (if r then 1 else 0), el'))
      else collapse_inner preserve_selected note rest (collapsed, el))"

fun collapse_outer ::
    "bool \<Rightarrow> ClipNote list \<Rightarrow> nat \<times> ClipNote event_list \<Rightarrow> nat \<times> ClipNote event_list" where
  "collapse_outer preserve_selected [] s = s"
| "collapse_outer preserve_selected (note # rest) s =
     collapse_outer preserve_selected rest (collapse_inner preserve_selected note rest s)"

definition collapse_notes :: "bool \<Rightarrow> ClipNote event_list \<Rightarrow> nat \<times> ClipNote event_list" where
  "collapse_notes preserve_selected inotes =
     collapse_outer preserve_selected (stable_sort (\<lambda>a b. tick a < tick b) (events inotes)) (0, inotes)"

text \<open>The three loops of \<open>change_batch\<close>: delete, modify, insert.\<close>

fun delete_loop :: "ClipNote list \<Rightarrow> bool \<times> 'z clip \<Rightarrow> bool \<times> 'z clip" where
  "delete_loop [] s = s"
| "delete_loop (note # batch) (changes, c) =
     (if id note > 0 \<and> (duration note = 0 \<or> channel note < 0)
      then let (r, c') = remove_note note c in delete_loop batch (changes \<or> r, c')
      else delete_loop batch (changes, c))"

fun modify_loop :: "ClipNote list \<Rightarrow> bool \<times> bool \<times> 'z clip \<Rightarrow> bool \<times> bool \<times> 'z clip" where
  "modify_loop [] s = s"
| "modify_loop (note # batch) (changes, selections, c) =
     (if id note > 0 \<and> duration note > 0 \<and> channel note \<ge> 0 then
        (case el_replace CmpNoteIds note (clip_notes c) of
           (True, Some replaced, el) \<Rightarrow>
             (if \<not> note_eq note replaced then
                let replaced' = replaced\<lparr>selected := \<not> selected replaced\<rparr> in
                if note_eq note replaced' then modify_loop batch (changes, True, c\<lparr>clip_notes := el\<rparr>)
                else modify_loop batch (True, selections, c\<lparr>clip_notes := el\<rparr>)
              else modify_loop batch (changes, selections, c\<lparr>clip_notes := el\<rparr>))
         | (_, _, el) \<Rightarrow> modify_loop batch (changes, selections, c\<lparr>clip_notes := el\<rparr>))
      else modify_loop batch (changes, selections, c))"

fun insert_loop :: "ClipNote list \<Rightarrow> bool \<times> 'z clip \<Rightarrow> bool \<times> 'z clip" where
  "insert_loop [] s = s"
| "insert_loop (note # batch) (changes, c) =
     (if id note \<le> 0 \<and> duration note > 0 \<and> channel note \<ge> 0
      then let ev = note\<lparr>id := sint (next_noteid c)\<rparr>;
               (replaced, c') = insert_note ev (c\<lparr>next_noteid := next_noteid c + 1\<rparr>) in
           insert_loop batch (changes \<or> \<not> replaced, c')
      else insert_loop batch (changes, c))"

definition change_batch :: "(ClipNote list \<Rightarrow> 'z) \<Rightarrow> ClipNote list \<Rightarrow> string \<Rightarrow> 'z clip \<Rightarrow> 'z clip" where
  "change_batch compress batch undogroup c0 =
     (let orig_notes = events (clip_notes c0);
          (changes1, c1) = delete_loop batch (False, c0);
          (changes2, selections, c2) = modify_loop batch (changes1, False, c1);
          (changes3, c3) = insert_loop batch (changes2, c2);
          (changes, c4) =
            (if changes3 \<or> selections
             then let (collapsed, el) = collapse_notes True (clip_notes c3) in (changes3 \<or> collapsed \<noteq> 0, c3\<lparr>clip_notes := el\<rparr>)
             else (changes3, c3)) in
      if events (clip_notes c4) \<noteq> orig_notes
      then emit ''all_notes'' (emit ''notes''
             (if changes then push_undo compress orig_notes (if undogroup = [] then ''Change Notes'' else undogroup) c4
              else c4))
      else c4)"

subsection \<open>Generator\<close>

definition M52MAX :: int where "M52MAX = 9007199254740992"
definition I63MAX :: int where "I63MAX = 9223372036854775807"

record Generator =
  last_tick :: int
  xtick :: int
  itick :: int
  start_offset :: int
  loop_start :: int
  loop_end :: int
  gen_events :: "ClipNote list"
  muted :: bool

definition new_generator :: Generator where
  "new_generator = \<lparr>last_tick = I63MAX, xtick = 0, itick = 0, start_offset = 0, loop_start = 0,
                     loop_end = I63MAX, gen_events = [], muted = False\<rparr>"

definition play_length :: "Generator \<Rightarrow> int" where "play_length g = last_tick g"
definition play_position :: "Generator \<Rightarrow> int" where "play_position g = xtick g"
definition clip_position :: "Generator \<Rightarrow> int" where "clip_position g = itick g"
definition gen_done :: "Generator \<Rightarrow> bool" where "gen_done g \<longleftrightarrow> play_position g \<ge> play_length g"

text \<open>\<open>setup\<close>: \<open>bar_ticks\<close> is that of the tick signature of the project.\<close>

definition gen_setup :: "ClipNote list \<Rightarrow> int \<Rightarrow> Generator \<Rightarrow> Generator" where
  "gen_setup clip_events bar_ticks g =
     (let g1 = g\<lparr>gen_events := clip_events, muted := False, start_offset := 0, loop_start := 0,
                 loop_end := bar_ticks * 2\<rparr>;
          loops = 2;
          g2 = g1\<lparr>last_tick := loop_end g1 - start_offset g1 + loops * (loop_end g1 - loop_start g1)\<rparr> in
      if True then g2\<lparr>last_tick := M52MAX\<rparr> else g2)"

definition jumpto :: "int \<Rightarrow> Generator \<Rightarrow> Generator" where
  "jumpto target_tick g =
     (if target_tick < 0 then g\<lparr>xtick := target_tick, itick := target_tick\<rparr>
      else
        let g1 = g\<lparr>xtick := min target_tick (play_length g), itick := start_offset g\<rparr> in
        if \<not> xtick g1 > 0 then g1
        else if itick g1 \<ge> loop_end g1 then g1\<lparr>itick := xtick g1\<rparr>
        else
          let delta0 = xtick g1; frag = min delta0 (loop_end g1 - itick g1);
              delta = delta0 - frag; it = itick g1 + frag in
          if it = loop_end g1
          then (if delta \<noteq> 0
                then g1\<lparr>itick := loop_start g1 + delta mod (loop_end g1 - loop_start g1)\<rparr>
                else g1\<lparr>itick := loop_start g1\<rparr>)
          else g1\<lparr>itick := it\<rparr>)"

text \<open>The inner loop of \<open>generate\<close>: a note-on and its note-off for every note before tick \<open>b\<close>.\<close>

definition note_on_event :: "ClipNote \<Rightarrow> MidiEvent" where
  "note_on_event n =
     make_note_on (word_of_int (channel n)) (word_of_int (key n)) (velocity n) (fine_tune n) (word_of_int (id n))"

fun note_loop :: "int \<Rightarrow> int \<Rightarrow> int \<Rightarrow> ClipNote list \<Rightarrow> (int \<times> MidiEvent) list" where
  "note_loop x a b [] = []"
| "note_loop x a b (event # evs) =
     (if tick event < b then
        let midievent = note_on_event event; noteon_tick = x + tick event - a in
        (noteon_tick, midievent) # (noteon_tick + duration event, midievent\<lparr>ev_type := NOTE_OFF\<rparr>) #
          note_loop x a b evs
      else [])"

definition emit_range :: "ClipNote list \<Rightarrow> int \<Rightarrow> int \<Rightarrow> int \<Rightarrow> (int \<times> MidiEvent) list" where
  "emit_range evs x a b =
     (case el_lookup_after CmpNoteTicks (default_note\<lparr>tick := a\<rparr>) evs of
        None \<Rightarrow> []
      | Some p \<Rightarrow> note_loop x a b (drop p evs))"

function generate_loop :: "int \<Rightarrow> Generator \<Rightarrow> (int \<times> MidiEvent) list \<times> Generator" where
  "generate_loop ticks g =
     (if ticks > 0 then
        let delta = (if itick g < loop_end g then min ticks (loop_end g - itick g) else ticks);
            x = xtick g; a = itick g; b = itick g + delta;
            g' = g\<lparr>xtick := xtick g + delta, itick := (if b = loop_end g then loop_start g else b)\<rparr>;
            emitted = (if \<not> muted g then emit_range (gen_events g) x a b else []);
            (later, g'') = generate_loop (ticks - delta) g' in
        (emitted @ later, g'')
      else ([], g))"
  by pat_completeness auto
termination
  by (relation "measure (\<lambda>(ticks, g). nat ticks)") auto

declare generate_loop.simps [simp del]

text \<open>\<open>generate\<close>: the ticks advanced, the events the receiver got, the generator.\<close>

definition generate :: "int \<Rightarrow> Generator \<Rightarrow> int \<times> (int \<times> MidiEvent) list \<times> Generator" where
  "generate target_tick g =
     (let old_xtick = xtick g in
      if \<not> (xtick g < last_tick g \<and> target_tick > xtick g) then (xtick g - old_xtick, [], g)
      else
        let ticks0 = min target_tick (last_tick g) - xtick g;
            (ticks, g1) =
              (if xtick g < 0 then
                 let delta = min ticks0 (- xtick g);
                     g' = g\<lparr>xtick := xtick g + delta, itick := itick g + delta\<rparr> in
                 (ticks0 - delta, if itick g' = 0 then g'\<lparr>itick := start_offset g'\<rparr> else g')
               else (ticks0, g));
            (evs, g2) = generate_loop ticks g1 in
        (xtick g2 - old_xtick, evs, g2))"

subsection \<open>The events of a range of ticks\<close>

text \<open>Well-formed events: ordered, without duplicates, ids, keys and channels not negative.\<close>

definition notes_ok :: "ClipNote list \<Rightarrow> bool" where
  "notes_ok evs \<longleftrightarrow> unique_by CmpNoteTicks evs \<and> (\<forall>n\<in>set evs. 0 \<le> id n \<and> 0 \<le> key n \<and> 0 \<le> channel n)"

definition note_pair :: "int \<Rightarrow> ClipNote \<Rightarrow> (int \<times> MidiEvent) list" where
  "note_pair d n =
     [(d + tick n, note_on_event n), (d + tick n + duration n, (note_on_event n)\<lparr>ev_type := NOTE_OFF\<rparr>)]"

definition notes_between :: "ClipNote list \<Rightarrow> int \<Rightarrow> int \<Rightarrow> ClipNote list" where
  "notes_between evs a b = filter (\<lambda>n. a \<le> tick n \<and> tick n < b) evs"

lemma unique_ticks_sorted: "unique_by CmpNoteTicks evs \<Longrightarrow> sorted (map tick evs)"
  unfolding unique_by_def sorted_map
  by (erule sorted_wrt_mono_rel [rotated]) (auto simp: CmpNoteTicks_def Let_def split: if_splits)

lemma before_index:
  "0 \<le> id n \<Longrightarrow> 0 \<le> key n \<Longrightarrow> 0 \<le> channel n \<Longrightarrow>
     CmpNoteTicks n (default_note\<lparr>tick := a\<rparr>) < 0 \<longleftrightarrow> tick n < a"
  by (auto simp: CmpNoteTicks_def default_note_def Let_def)

lemma note_loop_takeWhile:
  "note_loop x a b evs = concat (map (note_pair (x - a)) (takeWhile (\<lambda>n. tick n < b) evs))"
  by (induction evs) (auto simp: note_pair_def Let_def)

lemma sorted_range:
  "sorted (map f xs) \<Longrightarrow> takeWhile (\<lambda>n. f n < b) (dropWhile (\<lambda>n. f n < a) xs) = filter (\<lambda>n. a \<le> f n \<and> f n < b) xs"
  for f :: "'a \<Rightarrow> int"
proof (induction xs)
  case (Cons x xs)
  have tw: "sorted (map f ys) \<Longrightarrow> takeWhile (\<lambda>n. f n < b) ys = filter (\<lambda>n. f n < b) ys" for ys
    by (induction ys) (auto intro!: filter_False [symmetric])
  show ?case
  proof (cases "f x < a")
    case True
    then show ?thesis using Cons by simp
  next
    case False
    then have "\<forall>y\<in>set (x # xs). a \<le> f y" using Cons.prems by auto
    then have "filter (\<lambda>n. a \<le> f n \<and> f n < b) (x # xs) = filter (\<lambda>n. f n < b) (x # xs)"
      by (intro filter_cong) auto
    then show ?thesis using False tw [OF Cons.prems] by simp
  qed
qed simp

lemma emit_range_eq:
  assumes "notes_ok evs"
  shows "emit_range evs x a b = concat (map (note_pair (x - a)) (notes_between evs a b))"
proof -
  let ?P = "\<lambda>n. tick n < a"
  have u: "unique_by CmpNoteTicks evs" using assms by (simp add: notes_ok_def)
  have tw: "takeWhile (\<lambda>y. CmpNoteTicks y (default_note\<lparr>tick := a\<rparr>) < 0) evs = takeWhile ?P evs"
    using assms by (intro takeWhile_cong refl before_index) (auto simp: notes_ok_def)
  have "emit_range evs x a b = note_loop x a b (dropWhile ?P evs)"
    using note_ticks.el_lookup_after_correct [OF u, of "default_note\<lparr>tick := a\<rparr>"]
    by (auto simp: emit_range_def tw Let_def dropWhile_eq_drop not_less split: option.splits if_splits)
  then show ?thesis
    using sorted_range [OF unique_ticks_sorted [OF u]] by (simp add: note_loop_takeWhile notes_between_def)
qed

lemma notes_between_split:
  assumes "sorted (map tick evs)" and "a \<le> c" and "c \<le> b"
  shows "notes_between evs a b = notes_between evs a c @ notes_between evs c b"
  using assms(1) unfolding notes_between_def
proof (induction evs)
  case (Cons n evs)
  show ?case
  proof (cases "tick n < c")
    case True
    then show ?thesis using Cons assms by auto
  next
    case False
    then have "\<forall>m\<in>set (n # evs). \<not> tick m < c" using Cons.prems by auto
    then have "filter (\<lambda>m. a \<le> tick m \<and> tick m < c) (n # evs) = []"
      by (simp only: filter_empty_conv) auto
    moreover have "filter (\<lambda>m. a \<le> tick m \<and> tick m < b) (n # evs) = filter (\<lambda>m. c \<le> tick m \<and> tick m < b) (n # evs)"
      using \<open>\<forall>m\<in>set (n # evs). \<not> tick m < c\<close> assms(2) by (intro filter_cong) force+
    ultimately show ?thesis by simp
  qed
qed simp

lemma emit_range_split:
  assumes "notes_ok evs" and "a \<le> c" and "c \<le> b"
  shows "emit_range evs x a b = emit_range evs x a c @ emit_range evs (x + (c - a)) c b"
  using assms notes_between_split [OF unique_ticks_sorted assms(2,3)]
  by (simp add: emit_range_eq notes_ok_def algebra_simps)

subsection \<open>The playback loop\<close>

lemma generate_loop_0 [simp]: "ticks \<le> 0 \<Longrightarrow> generate_loop ticks g = ([], g)"
  by (subst generate_loop.simps) simp

definition gen_step :: "int \<Rightarrow> Generator \<Rightarrow> Generator" where
  "gen_step delta g = g\<lparr>xtick := xtick g + delta,
     itick := (if itick g + delta = loop_end g then loop_start g else itick g + delta)\<rparr>"

definition gen_emit :: "int \<Rightarrow> Generator \<Rightarrow> (int \<times> MidiEvent) list" where
  "gen_emit delta g = (if \<not> muted g then emit_range (gen_events g) (xtick g) (itick g) (itick g + delta) else [])"

definition gen_delta :: "int \<Rightarrow> Generator \<Rightarrow> int" where
  "gen_delta ticks g = (if itick g < loop_end g then min ticks (loop_end g - itick g) else ticks)"

lemma generate_loop_step:
  "ticks > 0 \<Longrightarrow> generate_loop ticks g =
     (gen_emit (gen_delta ticks g) g @ fst (generate_loop (ticks - gen_delta ticks g) (gen_step (gen_delta ticks g) g)),
      snd (generate_loop (ticks - gen_delta ticks g) (gen_step (gen_delta ticks g) g)))"
  by (subst generate_loop.simps) (simp add: gen_emit_def gen_step_def gen_delta_def Let_def case_prod_beta)

lemma gen_step_simps [simp]:
  "gen_events (gen_step d g) = gen_events g" "muted (gen_step d g) = muted g"
  "loop_end (gen_step d g) = loop_end g" "loop_start (gen_step d g) = loop_start g"
  "last_tick (gen_step d g) = last_tick g" "start_offset (gen_step d g) = start_offset g"
  "xtick (gen_step d g) = xtick g + d"
  "itick (gen_step d g) = (if itick g + d = loop_end g then loop_start g else itick g + d)"
  by (simp_all add: gen_step_def)

lemma gen_step_add: "itick g + d \<noteq> loop_end g \<Longrightarrow> gen_step e (gen_step d g) = gen_step (d + e) g"
  by (simp add: gen_step_def add.assoc)

lemma gen_emit_add:
  assumes "notes_ok (gen_events g)" and "0 \<le> d" "0 \<le> e" and "itick g + d \<noteq> loop_end g"
  shows "gen_emit d g @ gen_emit e (gen_step d g) = gen_emit (d + e) g"
  using emit_range_split [OF assms(1), of "itick g" "itick g + d" "itick g + d + e" "xtick g"] assms(2-4)
  by (simp add: gen_emit_def add.assoc)

lemma gen_delta_pos: "ticks > 0 \<Longrightarrow> 0 < gen_delta ticks g \<and> gen_delta ticks g \<le> ticks"
  by (auto simp: gen_delta_def)

lemma generate_loop_fields:
  "gen_events (snd (generate_loop ticks g)) = gen_events g \<and> muted (snd (generate_loop ticks g)) = muted g \<and>
   loop_end (snd (generate_loop ticks g)) = loop_end g \<and> loop_start (snd (generate_loop ticks g)) = loop_start g \<and>
   last_tick (snd (generate_loop ticks g)) = last_tick g \<and> start_offset (snd (generate_loop ticks g)) = start_offset g \<and>
   xtick (snd (generate_loop ticks g)) = xtick g + max ticks 0"
proof (induction "nat ticks" arbitrary: ticks g rule: less_induct)
  case less
  show ?case
  proof (cases "ticks > 0")
    case True
    then show ?thesis
      using less [of "ticks - gen_delta ticks g" "gen_step (gen_delta ticks g) g"] gen_delta_pos [OF True, of g]
      by (subst (1 2 3 4 5 6 7) generate_loop_step) simp_all
  qed simp
qed

text \<open>Playing \<open>m\<close> ticks and then \<open>n\<close> ticks is playing \<open>m + n\<close> ticks.\<close>

lemma generate_loop_add:
  assumes "notes_ok (gen_events g)" and "0 \<le> m" and "0 \<le> n"
  shows "generate_loop (m + n) g =
    (fst (generate_loop m g) @ fst (generate_loop n (snd (generate_loop m g))),
     snd (generate_loop n (snd (generate_loop m g))))"
  using assms
proof (induction "nat m" arbitrary: m g rule: less_induct)
  case less
  show ?case
  proof (cases "0 < m \<and> 0 < n")
    case False
    then show ?thesis using less.prems by auto
  next
    case True
    let ?r = "loop_end g - itick g"
    show ?thesis
    proof (cases "itick g < loop_end g \<and> ?r \<le> m")
      case wrap: True
      then have d: "gen_delta m g = ?r" "gen_delta (m + n) g = ?r" using True by (auto simp: gen_delta_def)
      have e: "m + n - ?r = m - ?r + n" by simp
      show ?thesis
        using less.hyps [of "m - ?r" "gen_step ?r g"] less.prems wrap True
        by (simp add: generate_loop_step [of m] generate_loop_step [of "m + n"] d e)
    next
      case False
      then have dm: "gen_delta m g = m" and ne: "itick g + m \<noteq> loop_end g"
        using True by (auto simp: gen_delta_def)
      have dn: "gen_delta (m + n) g = m + gen_delta n (gen_step m g)"
        using False True ne by (auto simp: gen_delta_def)
      let ?d = "gen_delta n (gen_step m g)"
      have "gen_emit (m + ?d) g = gen_emit m g @ gen_emit ?d (gen_step m g)"
        using gen_emit_add [OF less.prems(1), of m ?d] gen_delta_pos [of n "gen_step m g"] True ne by simp
      moreover have "m + n - (m + ?d) = n - ?d" by simp
      ultimately show ?thesis
        using True gen_step_add [OF ne]
        by (simp add: generate_loop_step [of m] generate_loop_step [of "m + n"] generate_loop_step [of n] dm dn)
    qed
  qed
qed

text \<open>\<open>generate\<close> while a delay is pending: the clip position equals the play position.\<close>

definition delay_ok :: "Generator \<Rightarrow> bool" where
  "delay_ok g \<longleftrightarrow> (xtick g < 0 \<longrightarrow> itick g = xtick g)"

definition start_gen :: "Generator \<Rightarrow> Generator" where
  "start_gen g = (if xtick g < 0 then g\<lparr>xtick := 0, itick := start_offset g\<rparr> else g)"

lemma started: "\<not> xtick g < 0 \<Longrightarrow> delay_ok g \<and> start_gen g = g"
  by (simp add: delay_ok_def start_gen_def)

lemma generate_idle: "\<not> (xtick g < last_tick g \<and> t > xtick g) \<Longrightarrow> generate t g = (0, [], g)"
  by (simp add: generate_def)

lemma generate_delay:
  assumes "delay_ok g" and "xtick g < last_tick g" "xtick g < t" and "min t (last_tick g) < 0"
  shows "generate t g = (min t (last_tick g) - xtick g, [],
           g\<lparr>xtick := min t (last_tick g), itick := min t (last_tick g)\<rparr>)"
proof -
  have "xtick g < 0" "itick g = xtick g" using assms by (auto simp: delay_ok_def)
  then show ?thesis using assms(2-4) by (simp add: generate_def Let_def)
qed

lemma generate_active:
  assumes "delay_ok g" and "xtick g < last_tick g" "xtick g < t" and "0 \<le> min t (last_tick g)"
  shows "generate t g =
    (min t (last_tick g) - xtick g,
     generate_loop (min t (last_tick g) - xtick (start_gen g)) (start_gen g))"
proof -
  let ?T = "min t (last_tick g)"
  have x: "xtick (snd (generate_loop (?T - xtick (start_gen g)) (start_gen g))) = ?T"
    using generate_loop_fields [of "?T - xtick (start_gen g)" "start_gen g"] assms(2-4)
    by (simp add: start_gen_def)
  show ?thesis
  proof (cases "xtick g < 0")
    case True
    then have "itick g = xtick g" using assms(1) by (simp add: delay_ok_def)
    then show ?thesis
      using True assms(2-4) x by (simp add: generate_def Let_def start_gen_def case_prod_beta)
  next
    case False
    then show ?thesis using assms(2,3) x by (simp add: generate_def Let_def start_gen_def case_prod_beta)
  qed
qed

lemma generate_split_lemma:
  assumes ok: "notes_ok (gen_events g)" and dl: "delay_ok g" and t: "t1 \<le> t2"
  shows "generate t2 g =
    (let (d1, e1, g1) = generate t1 g; (d2, e2, g2) = generate t2 g1 in (d1 + d2, e1 @ e2, g2))"
proof (cases "xtick g < last_tick g \<and> t1 > xtick g")
  case False
  then show ?thesis using generate_idle [OF False] by simp
next
  case True
  let ?L = "last_tick g" and ?x = "xtick g"
  let ?T1 = "min t1 ?L" and ?T2 = "min t2 ?L"
  have act: "?x < ?L" "?x < t1" "?x < t2" using True t by auto
  show ?thesis
  proof (cases "?T1 < 0")
    case neg: True
    let ?g1 = "g\<lparr>xtick := ?T1, itick := ?T1\<rparr>"
    have g1: "generate t1 g = (?T1 - ?x, [], ?g1)" by (rule generate_delay [OF dl act(1,2) neg])
    have xneg: "?x < 0" using neg act by linarith
    have dl1: "delay_ok ?g1" by (simp add: delay_ok_def)
    show ?thesis
    proof (cases "?T1 < ?L \<and> ?T1 < t2")
      case False
      then have "?T2 = ?T1" using t by auto
      then have "generate t2 g = (?T1 - ?x, [], ?g1)" using generate_delay [OF dl act(1,3)] neg by simp
      moreover have "generate t2 ?g1 = (0, [], ?g1)" using False by (intro generate_idle) simp
      ultimately show ?thesis using g1 by simp
    next
      case more: True
      show ?thesis
      proof (cases "?T2 < 0")
        case True
        then show ?thesis
          using g1 generate_delay [OF dl act(1,3) True] generate_delay [OF dl1, of t2] more by simp
      next
        case False
        then have p2: "0 \<le> ?T2" by linarith
        have "start_gen ?g1 = start_gen g" using xneg neg by (simp add: start_gen_def)
        then have "generate t2 ?g1 = (?T2 - ?T1, generate_loop (?T2 - xtick (start_gen g)) (start_gen g))"
          using generate_active [OF dl1, of t2] more p2 by simp
        then show ?thesis using g1 generate_active [OF dl act(1,3) p2] by (simp add: case_prod_beta)
      qed
    qed
  next
    case pos: False
    let ?s = "start_gen g"
    have p1: "0 \<le> ?T1" and p2: "0 \<le> ?T2" using pos t by auto
    have s: "gen_events ?s = gen_events g" "last_tick ?s = ?L" "0 \<le> xtick ?s" "xtick ?s \<le> ?T1"
      using act p1 by (auto simp: start_gen_def)
    let ?r1 = "generate_loop (?T1 - xtick ?s) ?s"
    let ?g1 = "snd ?r1"
    have g1: "generate t1 g = (?T1 - ?x, ?r1)" by (rule generate_active [OF dl act(1,2) p1])
    have f: "xtick ?g1 = ?T1" "last_tick ?g1 = ?L" "gen_events ?g1 = gen_events g"
      using generate_loop_fields [of "?T1 - xtick ?s" ?s] s by simp_all
    have nn: "\<not> xtick ?g1 < 0" using p1 f(1) by linarith
    have dl1: "delay_ok ?g1" and st1: "start_gen ?g1 = ?g1" using started [OF nn] by blast+
    have g2: "generate t2 g = (?T2 - ?x, generate_loop (?T2 - xtick ?s) ?s)"
      by (rule generate_active [OF dl act(1,3) p2])
    have add: "generate_loop (?T2 - xtick ?s) ?s =
       (fst ?r1 @ fst (generate_loop (?T2 - ?T1) ?g1), snd (generate_loop (?T2 - ?T1) ?g1))"
      using generate_loop_add [of ?s "?T1 - xtick ?s" "?T2 - ?T1"] ok s t by simp
    show ?thesis
    proof (cases "?T1 < ?L \<and> ?T1 < t2")
      case False
      then have "?T2 = ?T1" using t by auto
      then show ?thesis using g1 g2 add generate_idle [of ?g1 t2] f False by (simp add: case_prod_beta)
    next
      case True
      then have "generate t2 ?g1 = (?T2 - ?T1, generate_loop (?T2 - ?T1) ?g1)"
        using generate_active [OF dl1, of t2] f st1 p2 by simp
      then show ?thesis using g1 g2 add by (simp add: case_prod_beta)
    qed
  qed
qed

text \<open>The clip position after playing, in closed form.\<close>

definition loop_position :: "Generator \<Rightarrow> int \<Rightarrow> int" where
  "loop_position g ticks =
     (if ticks < loop_end g - itick g then itick g + ticks
      else loop_start g + (ticks - (loop_end g - itick g)) mod (loop_end g - loop_start g))"

lemma loop_position_correct:
  assumes "0 \<le> ticks" and "itick g < loop_end g" and "loop_start g < loop_end g"
  shows "itick (snd (generate_loop ticks g)) = loop_position g ticks"
  using assms
proof (induction "nat ticks" arbitrary: ticks g rule: less_induct)
  case less
  show ?case
  proof (cases "ticks > 0")
    case False
    then show ?thesis using less.prems by (simp add: loop_position_def)
  next
    case True
    show ?thesis
    proof (cases "ticks < loop_end g - itick g")
      case short: True
      then have "gen_delta ticks g = ticks" by (simp add: gen_delta_def)
      then show ?thesis using True short by (simp add: generate_loop_step loop_position_def)
    next
      case False
      let ?r = "loop_end g - itick g" and ?n = "loop_end g - loop_start g"
      have d: "gen_delta ticks g = ?r" using False less.prems(2) by (simp add: gen_delta_def)
      have "itick (snd (generate_loop (ticks - ?r) (gen_step ?r g))) = loop_position (gen_step ?r g) (ticks - ?r)"
        using less.prems False True by (intro less.hyps) auto
      also have "\<dots> = loop_start g + (ticks - ?r) mod ?n"
      proof (cases "ticks - ?r < ?n")
        case True
        then show ?thesis using False less.prems by (simp add: loop_position_def)
      next
        case big: False
        then have "(ticks - ?r - ?n) mod ?n = (ticks - ?r) mod ?n" by (metis mod_diff_right_eq mod_self diff_zero)
        then show ?thesis using big by (simp add: loop_position_def)
      qed
      finally show ?thesis using True False d by (simp add: generate_loop_step loop_position_def)
    qed
  qed
qed

subsection \<open>Ordered events of a clip\<close>

lemma ordered_notes_unique:
  assumes "unique_by CmpNoteIds v"
  shows "unique_by CmpNoteTicks (OrderedEventList CmpNoteTicks v)"
proof -
  let ?s = "OrderedEventList CmpNoteTicks v"
  have le: "sorted_wrt (\<lambda>x y. \<not> CmpNoteTicks y x < 0) ?s"
    using note_ticks.by_cmp.sorted_stable_sort by (simp add: OrderedEventList_def)
  have d: "distinct ?s"
    using note_ids.unique_distinct [OF assms]
    by (metis OrderedEventList_def mset_eq_imp_distinct_iff mset_stable_sort)
  have ids: "x = y" if xy: "x \<in> set v" "y \<in> set v" "id x = id y" for x y
  proof -
    obtain i where "i < length v" "x = v ! i" using xy(1) by (auto simp: in_set_conv_nth)
    then show ?thesis
      using note_ids.lookup_unique_exact [OF assms, of i x y] xy(2,3) by (simp add: CmpNoteIds_def)
  qed
  have "CmpNoteTicks (?s ! i) (?s ! j) < 0" if ij: "i < j" "j < length ?s" for i j
  proof -
    have "\<not> CmpNoteTicks (?s ! j) (?s ! i) < 0" using le ij by (simp add: sorted_wrt_iff_nth_less)
    moreover have "?s ! i \<noteq> ?s ! j" using d ij by (simp add: nth_eq_iff_index_eq)
    moreover have "?s ! i \<in> set v" "?s ! j \<in> set v"
      using ij nth_mem [of i ?s] nth_mem [of j ?s] by (simp_all add: OrderedEventList_def)
    ultimately have "id (?s ! i) \<noteq> id (?s ! j)" using ids by blast
    then show ?thesis
      using \<open>\<not> CmpNoteTicks (?s ! j) (?s ! i) < 0\<close>
      by (auto simp: CmpNoteTicks_def Let_def split: if_splits)
  qed
  then show ?thesis by (simp add: unique_by_def sorted_wrt_iff_nth_less)
qed

subsection \<open>Properties of playback\<close>

text \<open>
  C11: playback does not depend on the block size: generating up to a tick in two calls delivers the
  same events, in the same order, and ends in the same state, as one call, also while a start delay
  runs and across loop ends.
\<close>

theorem generate_split:
  assumes "notes_ok (gen_events g)" and "xtick g < 0 \<longrightarrow> itick g = xtick g" and "t1 \<le> t2"
    and "generate t1 g = (d1, e1, g1)" and "generate t2 g1 = (d2, e2, g2)"
  shows "generate t2 g = (d1 + d2, e1 @ e2, g2)"
  using generate_split_lemma [OF assms(1) _ assms(3)] assms(2,4,5) by (simp add: delay_ok_def)

definition sample_note :: ClipNote where
  "sample_note = default_note\<lparr>id := 7, key := 60, tick := 3, duration := 2, velocity := 1\<rparr>"

lemma notes_ok_sample: "notes_ok [sample_note]"
  by (simp add: notes_ok_def unique_by_def sample_note_def default_note_def)

theorem generate_split_witness:
  "let g = gen_setup [sample_note] 4 new_generator;
       (d1, e1, g1) = generate 5 g; (d2, e2, g2) = generate 12 g1 in
   generate 12 g = (d1 + d2, e1 @ e2, g2)"
  using generate_split [of "gen_setup [sample_note] 4 new_generator" 5 12] notes_ok_sample
  by (auto simp: gen_setup_def new_generator_def Let_def split: prod.splits)

text \<open>
  C16: on the way to the loop end, \<open>generate\<close> plays exactly the notes whose tick lies in the advanced
  range of the clip, each once and in tick order: the note-on at its tick in the caller's timeline and
  the note-off one duration later; a muted generator plays nothing.
\<close>

theorem generate_plays_range:
  assumes "notes_ok (gen_events g)" and "0 \<le> xtick g" and "xtick g < t" and "t \<le> last_tick g"
    and "itick g + (t - xtick g) < loop_end g"
  shows "generate t g =
    (t - xtick g,
     (if muted g then []
      else concat (map (note_pair (xtick g - itick g))
             (notes_between (gen_events g) (itick g) (itick g + (t - xtick g))))),
     g\<lparr>xtick := t, itick := itick g + (t - xtick g)\<rparr>)"
proof -
  have d: "gen_delta (t - xtick g) g = t - xtick g" using assms(5) by (simp add: gen_delta_def)
  have "generate t g = (t - xtick g, generate_loop (t - xtick g) g)"
    using generate_active [of g t] assms(2-4) by (simp add: delay_ok_def start_gen_def min_def)
  then show ?thesis
    using assms by (simp add: generate_loop_step d gen_emit_def emit_range_eq gen_step_def)
qed

theorem generate_plays_range_witness:
  "generate 5 (gen_setup [sample_note] 4 new_generator) =
     (5, [(3, note_on_event sample_note), (5, (note_on_event sample_note)\<lparr>ev_type := NOTE_OFF\<rparr>)],
      (gen_setup [sample_note] 4 new_generator)\<lparr>xtick := 5, itick := 5\<rparr>)"
  using generate_plays_range [of "gen_setup [sample_note] 4 new_generator" 5] notes_ok_sample
  by (simp add: gen_setup_def new_generator_def M52MAX_def notes_between_def note_pair_def sample_note_def
      default_note_def)

text \<open>
  C22: \<open>jumpto\<close> lands where playing from the start would have: the generator after \<open>jumpto (t)\<close> equals,
  in its play position and clip position, the one after \<open>jumpto (0)\<close> and \<open>generate (t)\<close>.
\<close>

theorem jumpto_is_playing:
  assumes "0 \<le> t" and "0 \<le> last_tick g" and "start_offset g < loop_end g" and "loop_start g < loop_end g"
    and "generate t (jumpto 0 g) = (d, e, g')"
  shows "play_position (jumpto t g) = play_position g' \<and> clip_position (jumpto t g) = clip_position g'"
proof -
  let ?s = "jumpto 0 g"
  have s: "?s = g\<lparr>xtick := 0, itick := start_offset g\<rparr>"
    using assms(2) by (simp add: jumpto_def play_length_def Let_def)
  show ?thesis
  proof (cases "0 < t \<and> 0 < last_tick g")
    case False
    then have "g' = ?s" using generate_idle [of ?s t] assms(5) s by auto
    moreover have "min t (last_tick g) = 0" using False assms(1,2) by auto
    ultimately show ?thesis
      using assms(1) s by (simp add: jumpto_def play_length_def play_position_def clip_position_def Let_def)
  next
    case True
    let ?T = "min t (last_tick g)"
    have T: "0 < ?T" using True by simp
    have "generate t ?s = (?T, generate_loop ?T ?s)"
      using generate_active [of ?s t] True s by (simp add: delay_ok_def start_gen_def)
    then have g': "g' = snd (generate_loop ?T ?s)" using assms(5) by (metis snd_conv)
    have "xtick g' = ?T" using generate_loop_fields [of ?T ?s] g' s T by simp
    moreover have "itick g' = loop_position ?s ?T"
      using loop_position_correct [of ?T ?s] g' s T assms(3,4) by simp
    moreover have "xtick (jumpto t g) = ?T \<and> itick (jumpto t g) = loop_position ?s ?T"
      using T assms(1,3,4) s
      by (auto simp: jumpto_def play_length_def Let_def loop_position_def min_def not_less)
    ultimately show ?thesis by (simp add: play_position_def clip_position_def)
  qed
qed

theorem jumpto_is_playing_witness:
  "let g = gen_setup [sample_note] 4 new_generator; (d, e, g') = generate 21 (jumpto 0 g) in
   clip_position (jumpto 21 g) = clip_position g' \<and> clip_position (jumpto 21 g) = 5"
  using jumpto_is_playing [of 21 "gen_setup [sample_note] 4 new_generator"]
  by (auto simp: gen_setup_def new_generator_def M52MAX_def Let_def jumpto_def play_length_def
      clip_position_def split: prod.splits)

subsection \<open>Editing keeps the notes unique\<close>

definition clip_ok :: "'z clip \<Rightarrow> bool" where
  "clip_ok c \<longleftrightarrow> unique_by CmpNoteIds (events (clip_notes c))"

lemma emit_simps [simp]:
  "clip_notes (emit w c) = clip_notes c" "undo_queue (emit w c) = undo_queue c"
  by (simp_all add: emit_def)

lemma push_undo_simps [simp]:
  "clip_notes (push_undo compress ns g c) = clip_notes c"
  "undo_queue (push_undo compress ns g c) = undo_queue c @ [(g, compress ns)]"
  by (simp_all add: push_undo_def)

lemma insert_note_ok: "clip_ok c \<Longrightarrow> clip_ok (snd (insert_note n c))"
  using note_ids.el_insert_correct(1) [of "clip_notes c" n]
  by (auto simp: clip_ok_def insert_note_def split: prod.splits)

lemma remove_note_ok: "clip_ok c \<Longrightarrow> clip_ok (snd (remove_note n c))"
  using note_ids.unique_el_remove [of "clip_notes c" n]
  by (auto simp: clip_ok_def remove_note_def split: prod.splits)

lemma insert_note_undo [simp]: "undo_queue (snd (insert_note n c)) = undo_queue c"
  by (simp add: insert_note_def split: prod.splits)

lemma remove_note_undo [simp]: "undo_queue (snd (remove_note n c)) = undo_queue c"
  by (simp add: remove_note_def split: prod.splits)

lemma delete_loop_ok:
  "clip_ok (snd s) \<Longrightarrow> clip_ok (snd (delete_loop batch s)) \<and> undo_queue (snd (delete_loop batch s)) = undo_queue (snd s)"
proof (induction batch s rule: delete_loop.induct)
  case (2 nt batch changes c)
  obtain r c' where rn: "remove_note nt c = (r, c')" by (metis prod.exhaust)
  then have "clip_ok c \<Longrightarrow> clip_ok c'" "undo_queue c' = undo_queue c"
    using remove_note_ok [of c nt] remove_note_undo [of nt c] by simp_all
  then show ?case using 2 rn by simp
qed simp

lemma modify_loop_ok:
  "clip_ok (snd (snd s)) \<Longrightarrow>
     clip_ok (snd (snd (modify_loop batch s))) \<and> undo_queue (snd (snd (modify_loop batch s))) = undo_queue (snd (snd s))"
proof (induction batch arbitrary: s)
  case (Cons nt batch)
  obtain changes selections c where s: "s = (changes, selections, c)" by (metis prod_cases3)
  obtain r rep el where rp: "el_replace CmpNoteIds nt (clip_notes c) = (r, rep, el)" by (metis prod_cases3)
  have ok: "clip_ok (c\<lparr>clip_notes := el\<rparr>)" "clip_ok c"
    using note_ids.el_replace_correct(1) [of "clip_notes c" nt] Cons.prems rp s by (simp_all add: clip_ok_def)
  have "\<exists>x y d. modify_loop (nt # batch) s = modify_loop batch (x, y, d) \<and> (d = c \<or> d = c\<lparr>clip_notes := el\<rparr>)"
    by (cases r; cases rep) (simp_all add: s rp Let_def, blast+)
  then obtain x y d where "modify_loop (nt # batch) s = modify_loop batch (x, y, d)" "clip_ok d" "undo_queue d = undo_queue c"
    using ok by auto
  then show ?case using Cons.IH [of "(x, y, d)"] s by simp
qed simp

lemma insert_loop_ok:
  "clip_ok (snd s) \<Longrightarrow> clip_ok (snd (insert_loop batch s)) \<and> undo_queue (snd (insert_loop batch s)) = undo_queue (snd s)"
proof (induction batch s rule: insert_loop.induct)
  case (2 nt batch changes c)
  let ?c = "c\<lparr>next_noteid := next_noteid c + 1\<rparr>" and ?ev = "nt\<lparr>id := sint (next_noteid c)\<rparr>"
  obtain r c' where rn: "insert_note ?ev ?c = (r, c')" by (metis prod.exhaust)
  have "clip_ok ?c" using 2(3) by (simp add: clip_ok_def)
  then have "clip_ok c'" "undo_queue c' = undo_queue c"
    using insert_note_ok [of ?c ?ev] insert_note_undo [of ?ev ?c] rn by simp_all
  then show ?case using 2 rn by (simp add: Let_def)
qed simp

lemma collapse_inner_ok:
  "unique_by CmpNoteIds (events (snd s)) \<Longrightarrow> unique_by CmpNoteIds (events (snd (collapse_inner p nt ns s)))"
proof (induction p nt ns s rule: collapse_inner.induct)
  case (2 p nt n rest collapsed el)
  then show ?case
    using note_ids.unique_el_remove [of el nt] by (auto split: prod.splits)
qed simp

lemma collapse_outer_ok:
  "unique_by CmpNoteIds (events (snd s)) \<Longrightarrow> unique_by CmpNoteIds (events (snd (collapse_outer p ns s)))"
  by (induction p ns s rule: collapse_outer.induct) (simp_all add: collapse_inner_ok)

lemma change_batch_ok:
  assumes "clip_ok c"
  shows "clip_ok (change_batch compress batch undogroup c)"
    and "undo_queue (change_batch compress batch undogroup c) = undo_queue c \<or>
         (\<exists>g. g \<noteq> [] \<and> undo_queue (change_batch compress batch undogroup c) =
                undo_queue c @ [(g, compress (events (clip_notes c)))])"
proof -
  obtain ch1 c1 where d: "delete_loop batch (False, c) = (ch1, c1)" by (metis prod.exhaust)
  obtain ch2 sel c2 where m: "modify_loop batch (ch1, False, c1) = (ch2, sel, c2)" by (metis prod_cases3)
  obtain ch3 c3 where i: "insert_loop batch (ch2, c2) = (ch3, c3)" by (metis prod.exhaust)
  obtain k el where l: "collapse_notes True (clip_notes c3) = (k, el)" by (metis prod.exhaust)
  have c1: "clip_ok c1" "undo_queue c1 = undo_queue c" using delete_loop_ok [of "(False, c)" batch] assms d by auto
  then have c2: "clip_ok c2" "undo_queue c2 = undo_queue c"
    using modify_loop_ok [of "(ch1, False, c1)" batch] m by auto
  then have c3: "clip_ok c3" "undo_queue c3 = undo_queue c" using insert_loop_ok [of "(ch2, c2)" batch] i by auto
  have "unique_by CmpNoteIds (events el)"
    using collapse_outer_ok [of "(0, clip_notes c3)"] c3 l by (simp add: collapse_notes_def clip_ok_def) (metis snd_conv)
  then show "clip_ok (change_batch compress batch undogroup c)"
    using c3(1) d m i l by (auto simp: change_batch_def Let_def clip_ok_def)
  show "undo_queue (change_batch compress batch undogroup c) = undo_queue c \<or>
         (\<exists>g. g \<noteq> [] \<and> undo_queue (change_batch compress batch undogroup c) =
                undo_queue c @ [(g, compress (events (clip_notes c)))])"
    using c3 d m i l by (simp add: change_batch_def Let_def)
qed

text \<open>Inserting an ascending list of notes behind the existing ones appends it.\<close>

lemma insert_ascending:
  "unique_by CmpNoteIds (events (clip_notes c) @ ns) \<Longrightarrow>
     events (clip_notes (fold (\<lambda>note c. snd (insert_note note c)) ns c)) = events (clip_notes c) @ ns"
proof (induction ns arbitrary: c)
  case (Cons n ns)
  let ?v = "events (clip_notes c)"
  have lt: "CmpNoteIds y n < 0" if "y \<in> set ?v" for y
    using Cons.prems that by (auto simp: unique_by_def sorted_wrt_append)
  have "events (clip_notes (snd (insert_note n c))) = ?v @ [n]"
  proof (cases "?v = []")
    case True
    then show ?thesis
      by (simp add: insert_note_def el_insert_def uncache_def notify_def Let_def binary_lookup_insertion_pos_def
          binary_lookup_fuzzy_def fuzzy_loop.simps insert_at_def)
  next
    case False
    then have "CmpNoteIds n (last ?v) > 0" using lt [of "last ?v"] note_ids.cmp_flip by simp
    then show ?thesis using False by (simp add: insert_note_def el_insert_def uncache_def notify_def Let_def)
  qed
  then show ?case using Cons.IH [of "snd (insert_note n c)"] Cons.prems by simp
qed simp

lemma apply_undo_restores:
  assumes "uncompress img = Some ns" and "unique_by CmpNoteIds ns"
  shows "events (clip_notes (apply_undo compress uncompress img g c)) = ns"
    and "undo_queue (apply_undo compress uncompress img g c) = undo_queue c @ [(g, compress (events (clip_notes c)))]"
proof -
  let ?c1 = "push_undo compress (events (clip_notes c)) g c"
  let ?c2 = "?c1\<lparr>clip_notes := clear_silently (clip_notes ?c1)\<rparr>"
  have f: "undo_queue (fold (\<lambda>note c. snd (insert_note note c)) ns d) = undo_queue d" for ns and d :: "'a clip"
    by (induction ns arbitrary: d) auto
  have "events (clip_notes ?c2) = []" by (simp add: clear_silently_def)
  then have "events (clip_notes (fold (\<lambda>note c. snd (insert_note note c)) ns ?c2)) = ns"
    using insert_ascending [of ?c2 ns] assms(2) by simp
  then show "events (clip_notes (apply_undo compress uncompress img g c)) = ns"
    "undo_queue (apply_undo compress uncompress img g c) = undo_queue c @ [(g, compress (events (clip_notes c)))]"
    using assms(1) by (simp_all add: apply_undo_def Let_def f)
qed

subsection \<open>Properties of editing\<close>

text \<open>
  \<open>EventList::remove\<close> of a note that is in the list removes exactly that note, reports it, and
  notifies the removal.
\<close>

theorem remove_present:
  assumes "unique_by CmpNoteIds (events el)" and "old \<in> set (events el)" and "id note = id old"
  shows "el_remove CmpNoteIds note el =
    (True, Some old, notify note (-1) ((uncache el)\<lparr>events := filter (\<lambda>n. id n \<noteq> id note) (events el)\<rparr>))"
proof -
  have "(\<lambda>n. CmpNoteIds note n \<noteq> 0) = (\<lambda>n. id n \<noteq> id note)" by (auto simp: CmpNoteIds_def)
  then show ?thesis
    using note_ids.el_remove_present [OF assms(1,2), of "note"] assms(3) by (simp add: CmpNoteIds_def)
qed

definition note_at :: "int \<Rightarrow> int \<Rightarrow> ClipNote" where
  "note_at k t = default_note\<lparr>id := k, key := 60, tick := t, duration := 10, velocity := 1\<rparr>"

definition list_of :: "ClipNote list \<Rightarrow> ClipNote event_list" where
  "list_of ns = new_event_list\<lparr>events := ns\<rparr>"

lemmas note_simps = note_at_def default_note_def list_of_def new_event_list_def unique_by_def CmpNoteIds_def

theorem remove_present_witness:
  "el_remove CmpNoteIds (note_at 2 0) (list_of [note_at 1 0, note_at 2 5, note_at 3 9]) =
     (True, Some (note_at 2 5), (list_of [note_at 1 0, note_at 3 9])\<lparr>notified := [(note_at 2 0, -1)]\<rparr>)"
  using remove_present [of "list_of [note_at 1 0, note_at 2 5, note_at 3 9]" "note_at 2 5" "note_at 2 0"]
  by (simp add: note_simps uncache_def notify_def)

text \<open>
  \<open>EventList::remove\<close> of a note that is not in the list, but sorts before its last element, erases
  the last element instead and reports a successful removal.
\<close>

theorem remove_absent_erases_last:
  assumes "unique_by CmpNoteIds (events el)" and "events el \<noteq> []" and "id note < id (last (events el))"
    and "\<forall>n\<in>set (events el). id n \<noteq> id note"
  shows "el_remove CmpNoteIds note el =
    (True, Some (last (events el)), notify note (-1) ((uncache el)\<lparr>events := butlast (events el)\<rparr>))"
proof (rule note_ids.el_remove_absent_before [OF assms(1,2)])
  show "CmpNoteIds note (last (events el)) < 0" using assms(3) by (simp add: CmpNoteIds_def)
  show "\<forall>y\<in>set (events el). CmpNoteIds note y \<noteq> 0" using assms(4) by (auto simp: CmpNoteIds_def)
qed

theorem remove_absent_erases_last_witness:
  "el_remove CmpNoteIds (note_at 2 0) (list_of [note_at 1 0, note_at 3 9]) =
     (True, Some (note_at 3 9), (list_of [note_at 1 0])\<lparr>notified := [(note_at 2 0, -1)]\<rparr>)"
  using remove_absent_erases_last [of "list_of [note_at 1 0, note_at 3 9]" "note_at 2 0"]
  by (simp add: note_simps uncache_def notify_def)

text \<open>
  Of two notes stacked at one tick, key and channel, \<open>collapse_notes\<close> keeps the one with the newer
  id; of three it keeps none, since the oldest is removed a second time.
\<close>

theorem collapse_stacked_notes:
  "fst (collapse_notes True (list_of [note_at 1 0, note_at 2 0])) = 1 \<and>
   events (snd (collapse_notes True (list_of [note_at 1 0, note_at 2 0]))) = [note_at 2 0] \<and>
   fst (collapse_notes True (list_of [note_at 1 0, note_at 2 0, note_at 3 0])) = 3 \<and>
   events (snd (collapse_notes True (list_of [note_at 1 0, note_at 2 0, note_at 3 0]))) = []"
  by (simp add: collapse_notes_def note_simps el_remove_def uncache_def notify_def Let_def
      binary_lookup_def binary_lookup_fuzzy_def fuzzy_loop.simps erase_at_def)

text \<open>
  Every batch edit keeps the notes of the clip sorted by id without duplicates, and undoing it with
  the image it queued brings back the notes from before.
\<close>

theorem change_batch_undo:
  assumes "clip_ok c" and "\<And>ns. uncompress (compress ns) = Some ns"
    and "c' = change_batch compress batch undogroup c"
    and "undo_queue c' = undo_queue c @ [(g, img)]"
  shows "clip_ok c' \<and> events (clip_notes (apply_undo compress uncompress img g c')) = events (clip_notes c) \<and>
         undo_queue (apply_undo compress uncompress img g c') = undo_queue c' @ [(g, compress (events (clip_notes c')))]"
proof -
  have ok: "clip_ok c'" using change_batch_ok(1) [OF assms(1)] assms(3) by blast
  have "img = compress (events (clip_notes c))"
    using change_batch_ok(2) [OF assms(1), of compress batch undogroup] assms(3,4) by auto
  then have u: "uncompress img = Some (events (clip_notes c))" using assms(2) by simp
  show ?thesis
    using ok apply_undo_restores [of uncompress img "events (clip_notes c)" compress g c'] u assms(1)
    by (simp add: clip_ok_def)
qed

theorem change_batch_undo_witness:
  "let c = (new_clip :: ClipNote list clip)\<lparr>clip_notes := list_of [note_at 1 0]\<rparr>;
       c' = change_batch (\<lambda>ns. ns) [(note_at 1 0)\<lparr>duration := 0\<rparr>] '''' c in
   events (clip_notes c') = [] \<and>
   events (clip_notes (apply_undo (\<lambda>ns. ns) Some [note_at 1 0] ''Change Notes'' c')) = [note_at 1 0]"
proof -
  let ?c = "(new_clip :: ClipNote list clip)\<lparr>clip_notes := list_of [note_at 1 0]\<rparr>"
  let ?c' = "change_batch (\<lambda>ns. ns) [(note_at 1 0)\<lparr>duration := 0\<rparr>] '''' ?c"
  have c': "events (clip_notes ?c') = []" "undo_queue ?c' = [(''Change Notes'', [note_at 1 0])]"
    by (simp_all add: change_batch_def remove_note_def el_remove_def new_clip_def note_simps uncache_def
        notify_def collapse_notes_def push_undo_def emit_def)
  have "clip_ok ?c" by (simp add: clip_ok_def note_simps)
  from change_batch_undo [OF this, of Some "\<lambda>ns. ns" ?c' "[(note_at 1 0)\<lparr>duration := 0\<rparr>]" "''''" "''Change Notes''" "[note_at 1 0]"] c'
  show ?thesis by (simp add: Let_def new_clip_def list_of_def)
qed

end
