(* ===== verification/Transport.thy ===== *)
theory Transport
  imports Complex_Main Prelude
begin

section \<open>Musical time and the audio transport (ase/transport.hh, ase/transport.cc)\<close>

text \<open>
  \<open>TickSignature\<close> converts between ticks, bars, beats, minutes and samples; \<open>AudioTransport\<close> advances the
  play position.  A \<open>double\<close> is a real and \<open>f\<close>, the rounding of a result to the nearest double, is an
  argument of every definition that computes one (\<open>f x = x\<close> would be exact arithmetic).  A division of
  integers by zero, which traps, is the result \<open>None\<close>.
\<close>

subsection \<open>Constants and conversions\<close>

definition TRANSPORT_PPQN :: int where "TRANSPORT_PPQN = 4838400"
definition SEMIQUAVER_TICKS :: int where "SEMIQUAVER_TICKS = TRANSPORT_PPQN div 4"
definition MIN_BPM :: int where "MIN_BPM = 10"
definition MAX_BPM :: int where "MAX_BPM = 1776"
definition MIN_SAMPLERATE :: int where "MIN_SAMPLERATE = 8000"
definition MAX_SAMPLERATE :: int where "MAX_SAMPLERATE = 192000"

definition clamp :: "'a::linorder \<Rightarrow> 'a \<Rightarrow> 'a \<Rightarrow> 'a" where
  "clamp v mi ma = (if v < mi then mi else if v > ma then ma else v)"

text \<open>C++ integer division and remainder truncate towards zero, as does the conversion of a double.\<close>

definition c_div :: "int \<Rightarrow> int \<Rightarrow> int" where
  "c_div a b = sgn a * sgn b * (\<bar>a\<bar> div \<bar>b\<bar>)"

definition c_mod :: "int \<Rightarrow> int \<Rightarrow> int" where
  "c_mod a b = a - c_div a b * b"

definition divmod :: "int \<Rightarrow> int \<Rightarrow> (int \<times> int) option" where
  "divmod dividend divisor =
     (if divisor = 0 then None else Some (c_div dividend divisor, c_mod dividend divisor))"

definition trunc :: "real \<Rightarrow> int" where
  "trunc x = (if x \<ge> 0 then \<lfloor>x\<rfloor> else \<lceil>x\<rceil>)"

definition to_int32 :: "int \<Rightarrow> int" where
  "to_int32 i = sint (word_of_int i :: u32)"

definition to_int8 :: "int \<Rightarrow> int" where
  "to_int8 i = sint (word_of_int i :: u8)"

subsection \<open>TickSignature\<close>

record TickSignature =
  beats_per_bar :: int
  beat_unit :: int
  beat_ticks :: int
  bar_ticks :: int
  samplerate :: int
  bpm :: real
  ticks_per_minute :: int
  ticks_per_second :: real
  inv_ticks_per_second :: real
  ticks_per_sample :: real
  sample_per_ticks :: real
  inv_samplerate :: real

record Beat =
  bar :: int
  beat :: int
  semiquaver :: real

record Time =
  minutes :: int
  seconds :: real

definition initial_signature :: TickSignature where
  "initial_signature = \<lparr>beats_per_bar = 4, beat_unit = 4, beat_ticks = 0, bar_ticks = 0, samplerate = 0,
     bpm = 0, ticks_per_minute = 0, ticks_per_second = 0, inv_ticks_per_second = 0, ticks_per_sample = 0,
     sample_per_ticks = 0, inv_samplerate = 0\<rparr>"

definition per_sample :: "(real \<Rightarrow> real) \<Rightarrow> TickSignature \<Rightarrow> TickSignature" where
  "per_sample f t =
     (let ticks_per_minute_d = f (real_of_int TRANSPORT_PPQN * bpm t) in
      t\<lparr>ticks_per_sample := (if samplerate t > 0 then f (ticks_per_minute_d / f (60 * real_of_int (samplerate t))) else 0),
        sample_per_ticks :=
          (if ticks_per_minute_d > 0 then f (f (60 * real_of_int (samplerate t)) / ticks_per_minute_d) else 0)\<rparr>)"

definition set_samplerate :: "(real \<Rightarrow> real) \<Rightarrow> int \<Rightarrow> TickSignature \<Rightarrow> TickSignature" where
  "set_samplerate f rate t =
     (if \<not> (rate \<ge> MIN_SAMPLERATE \<and> rate \<le> MAX_SAMPLERATE) then t
      else per_sample f (t\<lparr>samplerate := rate, inv_samplerate := f (1 / real_of_int rate)\<rparr>))"

definition set_bpm :: "(real \<Rightarrow> real) \<Rightarrow> real \<Rightarrow> TickSignature \<Rightarrow> TickSignature" where
  "set_bpm f b t =
     (if \<not> b \<ge> 0 then t
      else
        let ticks_per_minute_d = f (real_of_int TRANSPORT_PPQN * b);
            tps = f (ticks_per_minute_d * f (1 / 60)) in
        per_sample f (t\<lparr>bpm := b, ticks_per_minute := trunc ticks_per_minute_d, ticks_per_second := tps,
          inv_ticks_per_second := (if b > 0 then f (1 / tps) else 0)\<rparr>))"

definition set_signature :: "int \<Rightarrow> int \<Rightarrow> TickSignature \<Rightarrow> bool \<times> TickSignature" where
  "set_signature bpb unit t =
     (let t1 = t\<lparr>beats_per_bar := clamp bpb 1 64\<rparr>;
          t2 = (if unit = 1 \<or> unit = 2 \<or> unit = 4 \<or> unit = 8 \<or> unit = 16 then t1\<lparr>beat_unit := unit\<rparr> else t1);
          semiquavers_per_beat = c_div 16 (beat_unit t2);
          t3 = t2\<lparr>beat_ticks := SEMIQUAVER_TICKS * semiquavers_per_beat\<rparr>;
          t4 = t3\<lparr>bar_ticks := beat_ticks t3 * beats_per_bar t3\<rparr> in
      (beats_per_bar t \<noteq> beats_per_bar t4 \<or> beat_unit t \<noteq> beat_unit t4, t4))"

definition new_signature :: "(real \<Rightarrow> real) \<Rightarrow> real \<Rightarrow> int \<Rightarrow> int \<Rightarrow> TickSignature" where
  "new_signature f b bpb unit = set_bpm f b (snd (set_signature bpb unit initial_signature))"

text \<open>The copy constructor starts afresh from the tempo and the signature of \<open>other\<close>; assignment keeps the rate.\<close>

definition copy_signature :: "(real \<Rightarrow> real) \<Rightarrow> TickSignature \<Rightarrow> TickSignature" where
  "copy_signature f other = new_signature f (bpm other) (beats_per_bar other) (beat_unit other)"

definition assign_signature :: "(real \<Rightarrow> real) \<Rightarrow> TickSignature \<Rightarrow> TickSignature \<Rightarrow> TickSignature" where
  "assign_signature f src t = set_bpm f (bpm src) (snd (set_signature (beats_per_bar src) (beat_unit src) t))"

definition time_from_tick :: "(real \<Rightarrow> real) \<Rightarrow> TickSignature \<Rightarrow> int \<Rightarrow> Time option" where
  "time_from_tick f t tick =
     (case divmod tick (ticks_per_minute t) of
        None \<Rightarrow> None
      | Some (m, minutereminder) \<Rightarrow>
          Some \<lparr>minutes = to_int32 m, seconds = f (f (real_of_int minutereminder) * inv_ticks_per_second t)\<rparr>)"

definition time_to_tick :: "(real \<Rightarrow> real) \<Rightarrow> TickSignature \<Rightarrow> Time \<Rightarrow> int" where
  "time_to_tick f t time =
     (let tick = minutes time * ticks_per_minute t in
      trunc (f (f (real_of_int tick) + f (seconds time * ticks_per_second t))))"

definition INVERSE_SEMIQUAVER :: "(real \<Rightarrow> real) \<Rightarrow> real" where
  "INVERSE_SEMIQUAVER f = f (1 / real_of_int SEMIQUAVER_TICKS)"

definition beat_from_tick :: "(real \<Rightarrow> real) \<Rightarrow> TickSignature \<Rightarrow> int \<Rightarrow> Beat option" where
  "beat_from_tick f t tick =
     (case divmod tick (bar_ticks t) of
        None \<Rightarrow> None
      | Some (b, bar_reminder) \<Rightarrow>
          (case divmod (to_int32 bar_reminder) (beat_ticks t) of
             None \<Rightarrow> None
           | Some (bt, beat_reminder) \<Rightarrow>
               Some \<lparr>bar = to_int32 b, beat = to_int8 bt,
                     semiquaver = f (real_of_int beat_reminder * INVERSE_SEMIQUAVER f)\<rparr>))"

definition beat_to_tick :: "(real \<Rightarrow> real) \<Rightarrow> TickSignature \<Rightarrow> Beat \<Rightarrow> int" where
  "beat_to_tick f t b =
     (let tick = bar b * bar_ticks t + beat b * beat_ticks t in
      trunc (f (f (real_of_int tick) + f (semiquaver b * real_of_int SEMIQUAVER_TICKS))))"

definition bar_from_tick :: "TickSignature \<Rightarrow> int \<Rightarrow> int option" where
  "bar_from_tick t tick = (if bar_ticks t = 0 then None else Some (to_int32 (c_div tick (bar_ticks t))))"

definition bar_to_tick :: "TickSignature \<Rightarrow> int \<Rightarrow> int" where
  "bar_to_tick t b = b * bar_ticks t"

definition sample_to_tick :: "(real \<Rightarrow> real) \<Rightarrow> TickSignature \<Rightarrow> int \<Rightarrow> int" where
  "sample_to_tick f t sample = trunc (f (ticks_per_sample t * f (real_of_int sample)))"

definition sample_from_tick :: "(real \<Rightarrow> real) \<Rightarrow> TickSignature \<Rightarrow> int \<Rightarrow> int" where
  "sample_from_tick f t tick = trunc (f (sample_per_ticks t * f (real_of_int tick)))"

subsection \<open>AudioTransport\<close>

record AudioTransport =
  rate :: int
  tick_sig :: TickSignature
  current_frame :: int
  current_tick :: int
  current_tick_d :: real
  current_bar :: int
  current_beat :: int
  current_semiquaver :: real
  current_bpm :: real
  current_minutes :: int
  current_seconds :: real
  current_bar_tick :: int
  next_bar_tick :: int

definition running :: "AudioTransport \<Rightarrow> bool" where
  "running a \<longleftrightarrow> current_bpm a \<noteq> 0"

text \<open>\<open>current_bpm\<close> is a single precision float, \<open>f32\<close> rounds to it.\<close>

definition set_running :: "(real \<Rightarrow> real) \<Rightarrow> bool \<Rightarrow> AudioTransport \<Rightarrow> AudioTransport" where
  "set_running f32 r a = a\<lparr>current_bpm := (if r then f32 (bpm (tick_sig a)) else 0)\<rparr>"

definition update_current :: "(real \<Rightarrow> real) \<Rightarrow> AudioTransport \<Rightarrow> AudioTransport option" where
  "update_current f a =
     (case beat_from_tick f (tick_sig a) (max (current_tick a) 0) of
        None \<Rightarrow> None
      | Some b \<Rightarrow>
          let bar_tick = bar_to_tick (tick_sig a) (bar b);
              a1 = a\<lparr>current_bar := bar b, current_beat := beat b, current_semiquaver := semiquaver b,
                     current_bar_tick := bar_tick, next_bar_tick := bar_tick + bar_ticks (tick_sig a)\<rparr> in
          (case time_from_tick f (tick_sig a) (current_tick a) of
             None \<Rightarrow> None
           | Some t \<Rightarrow> Some (a1\<lparr>current_minutes := minutes t, current_seconds := seconds t\<rparr>)))"

definition set_tick :: "(real \<Rightarrow> real) \<Rightarrow> int \<Rightarrow> AudioTransport \<Rightarrow> AudioTransport option" where
  "set_tick f newtick a = update_current f (a\<lparr>current_tick := newtick, current_tick_d := f (real_of_int newtick)\<rparr>)"

definition set_beat :: "(real \<Rightarrow> real) \<Rightarrow> Beat \<Rightarrow> AudioTransport \<Rightarrow> AudioTransport option" where
  "set_beat f b a =
     (let newtick = beat_to_tick f (tick_sig a) b in
      if newtick \<noteq> current_tick a then set_tick f newtick a else Some a)"

definition tempo :: "(real \<Rightarrow> real) \<Rightarrow> (real \<Rightarrow> real) \<Rightarrow> real \<Rightarrow> int \<Rightarrow> int \<Rightarrow> AudioTransport \<Rightarrow> AudioTransport option" where
  "tempo f f32 newbpm numerator denominator a =
     (let ts1 = set_bpm f (clamp newbpm (real_of_int MIN_BPM) (real_of_int MAX_BPM)) (tick_sig a);
          ts2 = snd (set_signature numerator denominator ts1) in
      update_current f (a\<lparr>tick_sig := ts2, current_bpm := (if current_bpm a \<noteq> 0 then f32 newbpm else 0)\<rparr>))"

definition tempo_signature :: "(real \<Rightarrow> real) \<Rightarrow> (real \<Rightarrow> real) \<Rightarrow> TickSignature \<Rightarrow> AudioTransport \<Rightarrow> AudioTransport option" where
  "tempo_signature f f32 ts a = tempo f f32 (bpm ts) (beats_per_bar ts) (beat_unit ts) a"

definition advance :: "(real \<Rightarrow> real) \<Rightarrow> int \<Rightarrow> AudioTransport \<Rightarrow> AudioTransport option" where
  "advance f nsamples a =
     (let a1 = a\<lparr>current_frame := current_frame a + nsamples\<rparr> in
      if current_bpm a1 > 0 then
        let d = f (current_tick_d a1 + f (real_of_int nsamples * ticks_per_sample (tick_sig a1))) in
        update_current f (a1\<lparr>current_tick_d := d, current_tick := trunc d\<rparr>)
      else Some a1)"

definition new_transport :: "(real \<Rightarrow> real) \<Rightarrow> int \<Rightarrow> AudioTransport option" where
  "new_transport f sample_rate =
     (let a = \<lparr>rate = sample_rate, tick_sig = set_samplerate f sample_rate (new_signature f 60 4 4),
               current_frame = 0, current_tick = 0, current_tick_d = 0, current_bar = 0, current_beat = 0,
               current_semiquaver = 0, current_bpm = 0, current_minutes = 0, current_seconds = 0,
               current_bar_tick = 0, next_bar_tick = 0\<rparr> in
      if \<not> (sample_rate \<ge> MIN_SAMPLERATE \<and> sample_rate \<le> MAX_SAMPLERATE) then Some a
      else update_current f a)"

subsection \<open>Signatures\<close>

definition sig_ok :: "TickSignature \<Rightarrow> bool" where
  "sig_ok t \<longleftrightarrow>
     1 \<le> beats_per_bar t \<and> beats_per_bar t \<le> 64 \<and> beat_unit t \<in> {1, 2, 4, 8, 16} \<and>
     beat_ticks t * beat_unit t = 4 * TRANSPORT_PPQN \<and> bar_ticks t = beat_ticks t * beats_per_bar t"

lemma semiquaver_ticks: "SEMIQUAVER_TICKS = 1209600"
  by (simp add: SEMIQUAVER_TICKS_def TRANSPORT_PPQN_def)

lemma set_signature_ok:
  assumes "beat_unit t \<in> {1, 2, 4, 8, 16}"
  shows "sig_ok (snd (set_signature bpb unit t))"
  using assms by (auto simp: sig_ok_def set_signature_def clamp_def Let_def c_div_def semiquaver_ticks TRANSPORT_PPQN_def)

lemma sig_ok_cong:
  "sig_ok t \<Longrightarrow> beats_per_bar t' = beats_per_bar t \<Longrightarrow> beat_unit t' = beat_unit t \<Longrightarrow> beat_ticks t' = beat_ticks t \<Longrightarrow>
     bar_ticks t' = bar_ticks t \<Longrightarrow> sig_ok t'"
  by (simp add: sig_ok_def)

lemma set_bpm_fields [simp]:
  "beats_per_bar (set_bpm f b t) = beats_per_bar t" "beat_unit (set_bpm f b t) = beat_unit t"
  "beat_ticks (set_bpm f b t) = beat_ticks t" "bar_ticks (set_bpm f b t) = bar_ticks t"
  by (simp_all add: set_bpm_def per_sample_def Let_def)

lemma set_samplerate_fields [simp]:
  "beats_per_bar (set_samplerate f r t) = beats_per_bar t" "beat_unit (set_samplerate f r t) = beat_unit t"
  "beat_ticks (set_samplerate f r t) = beat_ticks t" "bar_ticks (set_samplerate f r t) = bar_ticks t"
  by (simp_all add: set_samplerate_def per_sample_def Let_def)

lemma set_bpm_ok: "sig_ok t \<Longrightarrow> sig_ok (set_bpm f b t)"
  by (erule sig_ok_cong) simp_all

lemma set_samplerate_ok: "sig_ok t \<Longrightarrow> sig_ok (set_samplerate f r t)"
  by (erule sig_ok_cong) simp_all

lemma new_signature_ok: "sig_ok (new_signature f b bpb unit)"
  by (simp add: new_signature_def set_bpm_ok set_signature_ok initial_signature_def)

lemma beat_ticks_range:
  assumes "sig_ok t"
  shows "1209600 \<le> beat_ticks t" "beat_ticks t \<le> 19353600" "0 < bar_ticks t" "bar_ticks t < 2 ^ 31"
proof -
  show b: "1209600 \<le> beat_ticks t" "beat_ticks t \<le> 19353600"
    using assms by (auto simp: sig_ok_def TRANSPORT_PPQN_def)
  have "beat_ticks t * beats_per_bar t \<le> 19353600 * 64"
    using assms b by (intro mult_mono) (auto simp: sig_ok_def)
  moreover have "0 < beat_ticks t * beats_per_bar t" using assms b by (simp add: sig_ok_def)
  ultimately show "0 < bar_ticks t" "bar_ticks t < 2 ^ 31" using assms by (auto simp: sig_ok_def)
qed

lemma c_div_nonneg: "0 \<le> a \<Longrightarrow> 0 < b \<Longrightarrow> c_div a b = a div b"
  by (cases "a = 0") (simp_all add: c_div_def)

lemma c_mod_nonneg: "0 \<le> a \<Longrightarrow> 0 < b \<Longrightarrow> c_mod a b = a mod b"
  by (simp add: c_mod_def c_div_nonneg minus_div_mult_eq_mod)

lemma to_int32_small: "- (2 ^ 31) \<le> i \<Longrightarrow> i < 2 ^ 31 \<Longrightarrow> to_int32 i = i"
  by (simp add: to_int32_def sint_sbintrunc' signed_take_bit_int_eq_self)

lemma to_int8_small: "-128 \<le> i \<Longrightarrow> i < 128 \<Longrightarrow> to_int8 i = i"
  by (simp add: to_int8_def sint_sbintrunc' signed_take_bit_int_eq_self)

lemma div_less_of_less_mult: "0 < c \<Longrightarrow> a < b * c \<Longrightarrow> a div c < b" for a b c :: int
proof (rule ccontr)
  assume c: "0 < c" and ab: "a < b * c" and "\<not> a div c < b"
  then have "b * c \<le> a div c * c" by (intro mult_right_mono) auto
  also have "\<dots> \<le> a" using c by (metis div_mult_mod_eq le_add_same_cancel1 pos_mod_sign)
  finally show False using ab by simp
qed

lemma beat_from_tick_parts:
  assumes "sig_ok t" and "0 \<le> tick" and "tick div bar_ticks t < 2 ^ 31"
  shows "tick mod bar_ticks t div beat_ticks t < beats_per_bar t"
    and "beat_from_tick f t tick = Some
     \<lparr>bar = tick div bar_ticks t, beat = tick mod bar_ticks t div beat_ticks t,
      semiquaver = f (real_of_int (tick mod bar_ticks t mod beat_ticks t) * INVERSE_SEMIQUAVER f)\<rparr>"
proof -
  note r = beat_ticks_range [OF assms(1)]
  let ?m = "tick mod bar_ticks t"
  have m: "0 \<le> ?m" "?m < bar_ticks t" using r by auto
  have d: "0 \<le> tick div bar_ticks t" using assms(2) r(3) by (simp add: pos_imp_zdiv_nonneg_iff)
  show lt: "?m div beat_ticks t < beats_per_bar t"
    using m(2) r assms(1) by (intro div_less_of_less_mult) (auto simp: sig_ok_def mult.commute)
  have q: "0 \<le> ?m div beat_ticks t" using m r by (simp add: pos_imp_zdiv_nonneg_iff)
  have b64: "beats_per_bar t \<le> 64" using assms(1) by (simp add: sig_ok_def)
  have i32: "to_int32 ?m = ?m" by (rule to_int32_small) (use m r in linarith)+
  have i8: "to_int8 (?m div beat_ticks t) = ?m div beat_ticks t" by (rule to_int8_small) (use q lt b64 in linarith)+
  have bar: "to_int32 (tick div bar_ticks t) = tick div bar_ticks t" by (rule to_int32_small) (use d assms(3) in linarith)+
  show "beat_from_tick f t tick = Some
     \<lparr>bar = tick div bar_ticks t, beat = ?m div beat_ticks t,
      semiquaver = f (real_of_int (?m mod beat_ticks t) * INVERSE_SEMIQUAVER f)\<rparr>"
    using assms(2) m r i32 i8 bar by (simp add: beat_from_tick_def divmod_def c_div_nonneg c_mod_nonneg)
qed

subsection \<open>Rounding\<close>

text \<open>The documented accuracy of IEEE-754 double results: a relative error of at most \<open>2 powr -53\<close>.\<close>

definition rounds :: "(real \<Rightarrow> real) \<Rightarrow> bool" where
  "rounds f \<longleftrightarrow> (\<forall>x. \<bar>f x - x\<bar> \<le> \<bar>x\<bar> / 2 ^ 53)"

lemma rounds_error: "rounds f \<Longrightarrow> \<bar>f x - x\<bar> \<le> \<bar>x\<bar> / 2 ^ 53"
  by (simp add: rounds_def)

lemma rounds_factor:
  assumes "rounds f"
  obtains e where "f x = x * (1 + e)" "\<bar>e\<bar> \<le> 1 / 2 ^ 53"
proof (cases "x = 0")
  case True
  then have "f x = x * (1 + 0)" using rounds_error [OF assms, of x] by simp
  then show ?thesis by (rule that) simp
next
  case False
  have "f x = x * (1 + (f x - x) / x)" using False by (simp add: field_simps)
  moreover have "\<bar>(f x - x) / x\<bar> \<le> 1 / 2 ^ 53"
    using rounds_error [OF assms, of x] False by (simp add: abs_divide field_simps)
  ultimately show ?thesis by (rule that)
qed

lemma three_factors:
  fixes a b c u :: real
  assumes "\<bar>a\<bar> \<le> u" "\<bar>b\<bar> \<le> u" "\<bar>c\<bar> \<le> u" and "u \<le> 1"
  shows "\<bar>(1 + a) * (1 + b) * (1 + c) - 1\<bar> \<le> 8 * u"
proof -
  have m: "\<bar>x * y\<bar> \<le> u" if "\<bar>x\<bar> \<le> u" "\<bar>y\<bar> \<le> u" for x y
    using mult_mono [of "\<bar>x\<bar>" u "\<bar>y\<bar>" 1] that assms(4) by (simp add: abs_mult)
  have "\<bar>a * b\<bar> \<le> u" "\<bar>b * c\<bar> \<le> u" "\<bar>a * c\<bar> \<le> u" "\<bar>a * b * c\<bar> \<le> u"
    using m assms by blast+
  moreover have "(1 + a) * (1 + b) * (1 + c) - 1 = a + b + c + a * b + b * c + a * c + a * b * c"
    by (simp add: algebra_simps)
  ultimately show ?thesis using assms(1-3) unfolding abs_le_iff by linarith
qed

lemma three_roundings:
  fixes a b c :: real
  assumes "\<bar>a\<bar> \<le> 1 / 2 ^ 53" "\<bar>b\<bar> \<le> 1 / 2 ^ 53" "\<bar>c\<bar> \<le> 1 / 2 ^ 53"
  shows "\<bar>(1 + a) * (1 + b) * (1 + c) - 1\<bar> \<le> 1 / 2 ^ 50"
  using three_factors [OF assms] by simp

lemma semiquaver_roundtrip:
  assumes "rounds f" and "0 \<le> r" "r < 2 ^ 25"
  shows "\<bar>f (f (real_of_int r * INVERSE_SEMIQUAVER f) * real_of_int SEMIQUAVER_TICKS) - real_of_int r\<bar> \<le> 1 / 2 ^ 25"
proof -
  let ?s = "real_of_int SEMIQUAVER_TICKS"
  obtain a where a: "INVERSE_SEMIQUAVER f = 1 / ?s * (1 + a)" "\<bar>a\<bar> \<le> 1 / 2 ^ 53"
    unfolding INVERSE_SEMIQUAVER_def by (rule rounds_factor [OF assms(1)])
  obtain b where b: "f (real_of_int r * INVERSE_SEMIQUAVER f) = real_of_int r * INVERSE_SEMIQUAVER f * (1 + b)"
    "\<bar>b\<bar> \<le> 1 / 2 ^ 53" by (rule rounds_factor [OF assms(1)])
  let ?y = "f (real_of_int r * INVERSE_SEMIQUAVER f) * ?s"
  obtain c where c: "f ?y = ?y * (1 + c)" "\<bar>c\<bar> \<le> 1 / 2 ^ 53" by (rule rounds_factor [OF assms(1)])
  have "?y = real_of_int r * (1 / ?s * (1 + a)) * (1 + b) * ?s" using b(1) a(1) by metis
  also have "\<dots> = real_of_int r * ((1 + a) * (1 + b))" by (simp add: semiquaver_ticks)
  finally have "f ?y = real_of_int r * ((1 + a) * (1 + b)) * (1 + c)" using c(1) by metis
  then have "f ?y = real_of_int r * ((1 + a) * (1 + b) * (1 + c))" by (simp only: mult.assoc)
  then have "f ?y - real_of_int r = real_of_int r * ((1 + a) * (1 + b) * (1 + c) - 1)"
    by (simp add: algebra_simps)
  then have "\<bar>f ?y - real_of_int r\<bar> = real_of_int r * \<bar>(1 + a) * (1 + b) * (1 + c) - 1\<bar>"
    using assms(2) by (simp add: abs_mult)
  also have "\<dots> \<le> 2 ^ 25 * (1 / 2 ^ 50)"
    using three_roundings [OF a(2) b(2) c(2)] assms(2,3) by (intro mult_mono) auto
  finally show ?thesis by simp
qed

lemma trunc_near:
  assumes "\<bar>y - real_of_int t\<bar> \<le> 1 / 2" and "0 < t"
  shows "trunc y = t \<or> trunc y = t - 1"
proof -
  have "1 \<le> real_of_int t" using assms(2) by simp
  then have "0 \<le> y" using assms(1) unfolding abs_le_iff by linarith
  moreover have "\<lfloor>y\<rfloor> = t \<or> \<lfloor>y\<rfloor> = t - 1" using assms(1) by linarith
  ultimately show ?thesis by (simp add: trunc_def)
qed

subsection \<open>Properties\<close>

text \<open>
  \<open>beat_from_tick\<close> splits a tick exactly: the bars, the beats within the bar and the remaining ticks
  add up to it, the beat is below the beats per bar, \<open>bar_from_tick\<close> gives the same bar, and
  \<open>bar_to_tick\<close> of that bar is at or before the tick and less than one bar away.
\<close>

theorem beat_from_tick_exact:
  assumes "0 \<le> tick" and "tick div bar_ticks (new_signature f b bpb unit) < 2 ^ 31"
    and "t = new_signature f b bpb unit"
  shows "\<exists>bt rem. beat_from_tick f t tick = Some bt \<and>
     tick = bar bt * bar_ticks t + beat bt * beat_ticks t + rem \<and>
     0 \<le> rem \<and> rem < beat_ticks t \<and> 0 \<le> beat bt \<and> beat bt < beats_per_bar t \<and>
     semiquaver bt = f (real_of_int rem * INVERSE_SEMIQUAVER f) \<and>
     bar_from_tick t tick = Some (bar bt) \<and> bar_to_tick t (bar bt) \<le> tick \<and> tick < bar_to_tick t (bar bt) + bar_ticks t"
proof -
  have ok: "sig_ok t" using assms(3) new_signature_ok by simp
  note r = beat_ticks_range [OF ok]
  have small: "tick div bar_ticks t < 2 ^ 31" using assms(2,3) by simp
  note p = beat_from_tick_parts [OF ok assms(1) small]
  let ?m = "tick mod bar_ticks t"
  have m: "0 \<le> ?m" "?m < bar_ticks t" using r by auto
  have d: "0 \<le> tick div bar_ticks t" using assms(1) r(3) by (simp add: pos_imp_zdiv_nonneg_iff)
  have "?m = ?m div beat_ticks t * beat_ticks t + ?m mod beat_ticks t" by simp
  moreover have "tick = tick div bar_ticks t * bar_ticks t + ?m" by simp
  moreover have "0 \<le> ?m mod beat_ticks t" "?m mod beat_ticks t < beat_ticks t" "0 \<le> ?m div beat_ticks t"
    using r m by (auto simp: pos_imp_zdiv_nonneg_iff)
  moreover have "bar_from_tick t tick = Some (tick div bar_ticks t)"
    using r assms(1) d small by (simp add: bar_from_tick_def c_div_nonneg to_int32_small)
  moreover have "tick div bar_ticks t * bar_ticks t = tick - ?m" by (simp add: minus_mod_eq_div_mult)
  ultimately show ?thesis
    using p(1) p(2) [of f] m
    by (intro exI [of _ "the (beat_from_tick f t tick)"] exI [of _ "?m mod beat_ticks t"])
      (simp add: bar_to_tick_def)
qed

text \<open>
  Converting a tick of the first \<open>2 ^ 50\<close> to a beat and back, in double precision arithmetic,
  yields the tick or the one before it.
\<close>

theorem beat_roundtrip:
  assumes "rounds f" and "0 \<le> tick" "tick \<le> 2 ^ 50" and "t = new_signature f b bpb unit"
    and "beat_from_tick f t tick = Some bt"
  shows "beat_to_tick f t bt = tick \<or> beat_to_tick f t bt = tick - 1"
proof -
  have ok: "sig_ok t" using assms(4) new_signature_ok by simp
  note r = beat_ticks_range [OF ok]
  let ?m = "tick mod bar_ticks t" and ?d = "tick div bar_ticks t"
  have "1 * 1209600 \<le> beats_per_bar t * beat_ticks t"
    using ok r by (intro mult_mono) (auto simp: sig_ok_def)
  then have "1209600 \<le> bar_ticks t" using ok by (simp add: sig_ok_def mult.commute)
  then have "?d \<le> tick div 1209600" using assms(2) r(3) by (intro zdiv_mono2) auto
  also have "\<dots> \<le> 2 ^ 50 div 1209600" using assms(3) by (intro zdiv_mono1) auto
  finally have "?d < 2 ^ 31" by simp
  note p = beat_from_tick_parts [OF ok assms(2) this]
  let ?rem = "?m mod beat_ticks t"
  have bt: "bt = \<lparr>bar = ?d, beat = ?m div beat_ticks t,
      semiquaver = f (real_of_int ?rem * INVERSE_SEMIQUAVER f)\<rparr>" using p(2) [of f] assms(5) by simp
  define base where "base = ?d * bar_ticks t + ?m div beat_ticks t * beat_ticks t"
  have "?m = ?m div beat_ticks t * beat_ticks t + ?rem" "tick = ?d * bar_ticks t + ?m" by simp_all
  then have split: "tick = base + ?rem" by (simp add: base_def)
  have m: "0 \<le> ?m" using r by simp
  have rem: "0 \<le> ?rem" "?rem < beat_ticks t" using r by auto
  then have rem25: "?rem < 2 ^ 25" using r(2) by simp
  have base0: "0 \<le> base"
    using r m assms(2) by (simp add: base_def pos_imp_zdiv_nonneg_iff)
  let ?y = "f (real_of_int base) + f (f (real_of_int ?rem * INVERSE_SEMIQUAVER f) * real_of_int SEMIQUAVER_TICKS)"
  have e1: "\<bar>f (real_of_int base) - real_of_int base\<bar> \<le> 1 / 8"
  proof -
    have "base \<le> tick" using split rem(1) by linarith
    then have "base \<le> 2 ^ 50" using assms(3) by (rule order_trans)
    then have "real_of_int base \<le> real_of_int (2 ^ 50)" by (simp only: of_int_le_iff)
    then have "real_of_int base \<le> 2 ^ 50" by simp
    then show ?thesis using rounds_error [OF assms(1), of "real_of_int base"] base0 by simp
  qed
  have rt: "real_of_int tick = real_of_int base + real_of_int ?rem" using split by (metis of_int_add)
  define y where "y = ?y"
  have y: "\<bar>y - real_of_int tick\<bar> \<le> 1 / 8 + 1 / 2 ^ 25"
    using e1 semiquaver_roundtrip [OF assms(1) rem(1) rem25] rt unfolding y_def abs_le_iff by linarith
  have "real_of_int tick \<le> real_of_int (2 ^ 50)" "0 \<le> real_of_int tick"
    using assms(2,3) by (simp_all only: of_int_le_iff of_int_0_le_iff)
  then have "\<bar>y\<bar> \<le> 2 ^ 51" using y unfolding abs_le_iff by simp
  then have "\<bar>f y - y\<bar> \<le> 1 / 4" using rounds_error [OF assms(1), of y] by (simp add: field_simps)
  then have near: "\<bar>f ?y - real_of_int tick\<bar> \<le> 1 / 2"
    using y unfolding y_def [symmetric] abs_le_iff by simp
  have to: "beat_to_tick f t bt = trunc (f ?y)" by (simp add: beat_to_tick_def bt base_def Let_def)
  show ?thesis
  proof (cases "tick = 0")
    case False
    then show ?thesis using trunc_near [OF near] assms(2) to by simp
  next
    case True
    then have "base = 0" "?rem = 0" using split base0 rem by auto
    moreover have "f 0 = 0" using rounds_error [OF assms(1), of 0] by simp
    ultimately show ?thesis using to True by (simp add: trunc_def)
  qed
qed

lemma rounds_exact: "rounds (\<lambda>x. x)"
  by (simp add: rounds_def)

lemma sample_signature:
  "bar_ticks (new_signature f b 3 8) = 7257600" "beat_ticks (new_signature f b 3 8) = 2419200"
  "beats_per_bar (new_signature f b 3 8) = 3"
  by (simp_all add: new_signature_def set_signature_def initial_signature_def clamp_def c_div_def semiquaver_ticks)

theorem beat_from_tick_exact_witness:
  "\<exists>bt. beat_from_tick (\<lambda>x. x) (new_signature (\<lambda>x. x) 120 3 8) 10000000 = Some bt \<and>
     0 \<le> beat bt \<and> beat bt < 3 \<and> bar bt * 7257600 \<le> 10000000"
  using beat_from_tick_exact [of 10000000 "\<lambda>x. x" 120 3 8, OF _ _ refl]
  by (auto simp: sample_signature bar_to_tick_def)

theorem beat_roundtrip_witness:
  "let t = new_signature (\<lambda>x. x) 120 3 8; b = the (beat_from_tick (\<lambda>x. x) t 10000000) in
   beat_to_tick (\<lambda>x. x) t b = 10000000 \<or> beat_to_tick (\<lambda>x. x) t b = 9999999"
proof -
  let ?t = "new_signature (\<lambda>x. x) 120 3 8"
  obtain b where b: "beat_from_tick (\<lambda>x. x) ?t 10000000 = Some b"
    using beat_from_tick_parts(2) [OF new_signature_ok, of 10000000 "\<lambda>x. x" 120 3 8] by (simp add: sample_signature)
  from beat_roundtrip [OF rounds_exact _ _ refl b] show ?thesis by (simp add: b)
qed

lemma set_bpm_value [simp]: "0 \<le> b \<Longrightarrow> bpm (set_bpm f b t) = b"
  by (simp add: set_bpm_def per_sample_def Let_def)

lemma set_signature_bpm [simp]: "bpm (snd (set_signature bpb unit t)) = bpm t"
  "ticks_per_minute (snd (set_signature bpb unit t)) = ticks_per_minute t"
  by (simp_all add: set_signature_def Let_def)

lemma update_current_keeps:
  "update_current f a = Some a' \<Longrightarrow>
     tick_sig a' = tick_sig a \<and> current_tick a' = current_tick a \<and> current_tick_d a' = current_tick_d a \<and>
     current_frame a' = current_frame a \<and> current_bpm a' = current_bpm a"
  by (auto simp: update_current_def Let_def split: option.splits)

text \<open>
  After \<open>set_tick\<close> to a tick of the song the transport is in the bar that holds the tick:
  \<open>current_bar_tick\<close> is at or before it, \<open>next_bar_tick\<close> is one bar later and behind it, and both are
  multiples of the bar length.
\<close>

theorem set_tick_bar:
  assumes "sig_ok (tick_sig a)" and "ticks_per_minute (tick_sig a) \<noteq> 0"
    and "0 \<le> tick" and "tick div bar_ticks (tick_sig a) < 2 ^ 31"
  shows "\<exists>a'. set_tick f tick a = Some a' \<and> current_tick a' = tick \<and>
     current_bar_tick a' = current_bar a' * bar_ticks (tick_sig a) \<and>
     current_bar_tick a' \<le> tick \<and> tick < next_bar_tick a' \<and>
     next_bar_tick a' = current_bar_tick a' + bar_ticks (tick_sig a) \<and>
     0 \<le> current_beat a' \<and> current_beat a' < beats_per_bar (tick_sig a)"
proof -
  let ?t = "tick_sig a"
  note p = beat_from_tick_parts [OF assms(1,3,4)]
  note r = beat_ticks_range [OF assms(1)]
  have m: "0 \<le> tick mod bar_ticks ?t" "tick mod bar_ticks ?t < bar_ticks ?t" using r by auto
  have "tick div bar_ticks ?t * bar_ticks ?t = tick - tick mod bar_ticks ?t" by (simp add: minus_mod_eq_div_mult)
  moreover have "0 \<le> tick mod bar_ticks ?t div beat_ticks ?t" using r m by (simp add: pos_imp_zdiv_nonneg_iff)
  ultimately show ?thesis
    using p(1) p(2) [of f] m assms(2,3)
    by (simp add: set_tick_def update_current_def time_from_tick_def divmod_def bar_to_tick_def Let_def)
qed

lemma ticks_per_minute_120: "ticks_per_minute (new_signature (\<lambda>x. x) 120 3 8) = 580608000"
  by (simp add: new_signature_def set_bpm_def per_sample_def TRANSPORT_PPQN_def trunc_def Let_def)

definition sample_transport :: AudioTransport where
  "sample_transport = \<lparr>rate = 48000, tick_sig = new_signature (\<lambda>x. x) 120 3 8, current_frame = 0, current_tick = 0,
     current_tick_d = 0, current_bar = 0, current_beat = 0, current_semiquaver = 0, current_bpm = 120,
     current_minutes = 0, current_seconds = 0, current_bar_tick = 0, next_bar_tick = 0\<rparr>"

theorem set_tick_bar_witness:
  "\<exists>a'. set_tick (\<lambda>x. x) 10000000 sample_transport = Some a' \<and>
     current_bar_tick a' \<le> 10000000 \<and> 10000000 < next_bar_tick a'"
  using set_tick_bar [of sample_transport 10000000 "\<lambda>x. x"] new_signature_ok
  by (auto simp: sample_transport_def sample_signature ticks_per_minute_120)

lemma update_current_runs:
  assumes "sig_ok (tick_sig a)" and "ticks_per_minute (tick_sig a) \<noteq> 0"
  shows "\<exists>a'. update_current f a = Some a'"
  using beat_ticks_range [OF assms(1)] assms(2)
  by (auto simp: update_current_def beat_from_tick_def time_from_tick_def divmod_def Let_def)

text \<open>
  \<open>tempo\<close> of a running transport clamps the tempo of the tick signature to the limits, while the
  published \<open>current_bpm\<close> keeps the value that was asked for.
\<close>

theorem tempo_clamps_signature_only:
  assumes "running a" and "tempo f f32 newbpm num den a = Some a'"
  shows "bpm (tick_sig a') = clamp newbpm 10 1776 \<and> current_bpm a' = f32 newbpm"
proof -
  have "0 \<le> clamp newbpm 10 1776" by (simp add: clamp_def)
  then show ?thesis
    using assms update_current_keeps [of f _ a'] unfolding tempo_def running_def Let_def
    by (auto simp: MIN_BPM_def MAX_BPM_def)
qed

theorem tempo_clamps_signature_only_witness:
  "\<exists>a'. tempo (\<lambda>x. x) (\<lambda>x. x) 5 4 4 sample_transport = Some a' \<and> bpm (tick_sig a') = 10 \<and> current_bpm a' = 5"
proof -
  have b: "beat_unit (tick_sig sample_transport) \<in> {1, 2, 4, 8, 16}"
    using new_signature_ok by (simp add: sample_transport_def sig_ok_def)
  have t: "ticks_per_minute (set_bpm (\<lambda>x. x) 10 t) = 48384000" for t
    by (simp add: set_bpm_def per_sample_def TRANSPORT_PPQN_def trunc_def Let_def)
  have "\<exists>a'. tempo (\<lambda>x. x) (\<lambda>x. x) 5 4 4 sample_transport = Some a'"
    unfolding tempo_def Let_def
    by (rule update_current_runs) (use b set_signature_ok t in \<open>simp_all add: clamp_def MIN_BPM_def\<close>)
  then obtain a' where a': "tempo (\<lambda>x. x) (\<lambda>x. x) 5 4 4 sample_transport = Some a'" by blast
  have "running sample_transport" by (simp add: running_def sample_transport_def)
  from tempo_clamps_signature_only [OF this a'] a' show ?thesis by (simp add: clamp_def)
qed

end
