(* ===== verification/MidiLib.thy ===== *)
theory MidiLib
  imports Clip Transport
begin

section \<open>MIDI producer and clip succession (ase/midilib.cc, ase/track.hh, ase/track.cc)\<close>

text \<open>
  A track hands its clips to a \<open>MidiProducerImpl\<close> as a feed: one generator per clip and a \<open>ClipScout\<close>
  that names the successor of every clip.  The producer renders blocks: it merges pending note-offs,
  MIDI input and newly generated events into its event output.
\<close>

subsection \<open>ClipScout and the clips of a track\<close>

record ClipScout =
  indices :: "int list"
  scout_last :: int

definition new_scout :: ClipScout where
  "new_scout = \<lparr>indices = [], scout_last = -1\<rparr>"

definition scout_setup :: "int list \<Rightarrow> ClipScout \<Rightarrow> ClipScout" where
  "scout_setup ixs s = s\<lparr>indices := ixs\<rparr>"

definition scout_advance :: "int \<Rightarrow> ClipScout \<Rightarrow> int \<times> ClipScout" where
  "scout_advance previous s =
     (if previous \<ge> 0 \<and> previous < int (length (indices s))
      then (indices s ! nat previous, s\<lparr>scout_last := previous\<rparr>)
      else (-1, s))"

definition scout_reset :: "ClipScout \<Rightarrow> ClipScout" where
  "scout_reset s = s\<lparr>scout_last := -1\<rparr>"

definition scout_update :: "ClipScout \<Rightarrow> ClipScout \<Rightarrow> ClipScout" where
  "scout_update other s = s\<lparr>indices := indices other\<rparr>"

text \<open>The clips are pointers, \<open>None\<close> for null; \<open>MAX_LAUNCHER_CLIPS\<close> of them are created on demand.\<close>

definition MAX_LAUNCHER_CLIPS :: nat where "MAX_LAUNCHER_CLIPS = 8"

definition clip_index :: "'p option list \<Rightarrow> 'p \<Rightarrow> int" where
  "clip_index clips clip = index_of (\<lambda>c. c = Some clip) clips"

definition clip_succession :: "'p option list \<Rightarrow> 'p \<Rightarrow> int" where
  "clip_succession clips clip =
     (let index = clip_index clips clip in
      if \<not> index \<ge> 0 then -1
      else let index1 = index + 1; index2 = (if index1 \<ge> int (length clips) then 0 else index1) in
           if clips ! nat index2 \<noteq> None then index2 else -1)"

definition scout_indices :: "'p option list \<Rightarrow> int list" where
  "scout_indices clips = map (\<lambda>c. case c of Some clip \<Rightarrow> clip_succession clips clip | None \<Rightarrow> -1) clips"

subsection \<open>Producer state\<close>

type_synonym TickEvent = "int \<times> MidiEvent"

definition backward_cmp_ticks :: "TickEvent \<Rightarrow> TickEvent \<Rightarrow> int" where
  "backward_cmp_ticks a b = fst b - fst a"

definition forward_cmp_ticks :: "TickEvent \<Rightarrow> TickEvent \<Rightarrow> int" where
  "forward_cmp_ticks a b = fst a - fst b"

record MidiFeed =
  generators :: "Generator list"
  scout :: ClipScout

record producer =
  feed :: "MidiFeed option"
  pos_next :: int
  pos_current :: int
  pos_tick :: int
  generator_start :: int
  must_flush :: bool
  future_stack :: "TickEvent list"

definition new_producer :: producer where
  "new_producer = \<lparr>feed = None, pos_next = -1, pos_current = -1, pos_tick = -1, generator_start = -1,
                   must_flush = False, future_stack = []\<rparr>"

definition feed_generators :: "producer \<Rightarrow> Generator list" where
  "feed_generators p = (case feed p of Some fd \<Rightarrow> generators fd | None \<Rightarrow> [])"

definition current_generator :: "producer \<Rightarrow> Generator" where
  "current_generator p = feed_generators p ! nat (pos_current p)"

definition set_current_generator :: "Generator \<Rightarrow> producer \<Rightarrow> producer" where
  "set_current_generator g p =
     p\<lparr>feed := map_option (\<lambda>fd. fd\<lparr>generators := (generators fd)[nat (pos_current p) := g]\<rparr>) (feed p)\<rparr>"

definition update_feed :: "MidiFeed option \<Rightarrow> producer \<Rightarrow> producer" where
  "update_feed fd p =
     (let last_play_position = (if pos_current p \<ge> 0 then play_position (current_generator p) else 0);
          p1 = p\<lparr>feed := fd\<rparr> in
      if pos_current p1 \<ge> 0 then
        (if fd \<noteq> None \<and> nat (pos_current p1) < length (feed_generators p1)
         then set_current_generator (jumpto last_play_position (current_generator p1)) p1
         else p1\<lparr>must_flush := must_flush p1 \<or> pos_current p1 \<noteq> -1, pos_current := -1\<rparr>)
      else p1)"

definition producer_reset :: "producer \<Rightarrow> producer" where
  "producer_reset p =
     p\<lparr>pos_next := -1, pos_current := -1, pos_tick := - M52MAX, future_stack := [], must_flush := False\<rparr>"

definition producer_start :: "AudioTransport \<Rightarrow> producer \<Rightarrow> producer" where
  "producer_start tr p =
     (if feed p \<noteq> None \<and> feed_generators p \<noteq> [] \<and> pos_current p < 0
      then let p1 = p\<lparr>pos_current := 0, generator_start := current_bar_tick tr\<rparr> in
           set_current_generator (jumpto 0 (current_generator p1)) p1
      else p)"

definition producer_stop :: "bool \<Rightarrow> producer \<Rightarrow> producer" where
  "producer_stop restart p =
     (let p1 = p\<lparr>pos_tick := - M52MAX, must_flush := True\<rparr> in
      if restart then p1\<lparr>pos_current := -1, generator_start := -1\<rparr> else p1)"

subsection \<open>Rendering a block\<close>

text \<open>Flushing: the pending note-offs, newest first, at frame 0.\<close>

fun flush_notes :: "TickEvent list \<Rightarrow> MidiEvent list \<Rightarrow> MidiEvent list" where
  "flush_notes [] evout = evout"
| "flush_notes (tnote # rest) evout =
     flush_notes rest (if ev_type (snd tnote) = NOTE_OFF then snd (append_unsorted 0 (snd tnote) evout) else evout)"

text \<open>Pending events, popped from the back of the stack while they are before \<open>end_tick\<close>.\<close>

function pop_pending ::
    "(int \<Rightarrow> int) \<Rightarrow> int \<Rightarrow> int \<Rightarrow> TickEvent list \<times> MidiEvent list \<Rightarrow> TickEvent list \<times> MidiEvent list" where
  "pop_pending from_tick begin_tick end_tick (stack, evout) =
     (if stack \<noteq> [] \<and> fst (last stack) < end_tick
      then pop_pending from_tick begin_tick end_tick
             (butlast stack, snd (append_unsorted (from_tick (fst (last stack) - begin_tick)) (snd (last stack)) evout))
      else (stack, evout))"
  by pat_completeness auto
termination
  by (relation "measure (\<lambda>(_, _, _, stack, _). length stack)") auto

declare pop_pending.simps [simp del]

text \<open>The receiver \<open>qevent\<close>: an event of this block is output, a later one is kept.\<close>

definition qevent ::
    "(int \<Rightarrow> int) \<Rightarrow> int \<Rightarrow> int \<Rightarrow> int \<Rightarrow> TickEvent \<Rightarrow> TickEvent list \<times> MidiEvent list \<Rightarrow> TickEvent list \<times> MidiEvent list" where
  "qevent from_tick begin_tick end_tick gstart te s =
     (let etick = gstart + fst te in
      if etick < end_tick
      then (fst s, snd (append_unsorted (from_tick (etick - begin_tick)) (snd te) (snd s)))
      else (snd (insert_sorted backward_cmp_ticks (etick, snd te) (fst s)), snd s))"

text \<open>The next bar at or after \<open>play_point\<close>; without a positive bar length the loop would not end.\<close>

function next_bar_start :: "int \<Rightarrow> int \<Rightarrow> int \<Rightarrow> int option" where
  "next_bar_start gstart play_point bar_len =
     (if gstart < play_point
      then if 0 < bar_len then next_bar_start (gstart + bar_len) play_point bar_len else None
      else Some gstart)"
  by pat_completeness auto
termination
  by (relation "measure (\<lambda>(s, p, _). nat (p - s))") auto

declare next_bar_start.simps [simp del]

text \<open>The end of a clip: its successor starts at the next bar, and playback stops without one.\<close>

definition succeed_clip :: "AudioTransport \<Rightarrow> producer \<Rightarrow> producer option" where
  "succeed_clip tr p =
     (let play_point = generator_start p + play_position (current_generator p);
          (nxt, sc) = (case feed p of Some fd \<Rightarrow> scout_advance (pos_current p) (scout fd)
                                    | None \<Rightarrow> (-1, new_scout));
          p1 = p\<lparr>pos_current := nxt, feed := map_option (\<lambda>fd. fd\<lparr>scout := sc\<rparr>) (feed p)\<rparr> in
      if pos_current p1 \<ge> 0 then
        (case next_bar_start (current_bar_tick tr) play_point (bar_ticks (tick_sig tr)) of
           None \<Rightarrow> None
         | Some gs \<Rightarrow>
             let p2 = set_current_generator (jumpto 0 (current_generator p1)) (p1\<lparr>generator_start := gs\<rparr>);
                 p3 = (if gen_done (current_generator p2) then p2\<lparr>pos_current := -1\<rparr> else p2) in
             Some ((if pos_current p3 = -1 then p3\<lparr>generator_start := -1\<rparr> else p3)\<lparr>pos_next := -1\<rparr>))
      else Some ((if pos_current p1 = -1 then p1\<lparr>generator_start := -1\<rparr> else p1)\<lparr>pos_next := -1\<rparr>))"

text \<open>
  The generating loop.  \<open>None\<close> is a run out of fuel or an endless \<open>next_bar_start\<close>; the properties show
  when two rounds of fuel are enough.
\<close>

fun play_loop ::
    "nat \<Rightarrow> AudioTransport \<Rightarrow> (int \<Rightarrow> int) \<Rightarrow> int \<Rightarrow> int \<Rightarrow> producer \<times> MidiEvent list \<Rightarrow> (producer \<times> MidiEvent list) option" where
  "play_loop fuel tr from_tick begin_tick end_tick (p, evout) =
     (if pos_current p \<ge> 0 \<and> generator_start p + play_position (current_generator p) < end_tick then
        (case fuel of
           0 \<Rightarrow> None
         | Suc fuel' \<Rightarrow>
             let (_, evs, g) = generate (end_tick - generator_start p) (current_generator p);
                 (stack, evout') =
                   fold (qevent from_tick begin_tick end_tick (generator_start p)) evs (future_stack p, evout);
                 p1 = set_current_generator g (p\<lparr>future_stack := stack\<rparr>) in
             (case (if gen_done (current_generator p1) then succeed_clip tr p1 else Some p1) of
                None \<Rightarrow> None
              | Some p2 \<Rightarrow>
                  let p3 = p2\<lparr>pos_tick := (if pos_current p2 \<ge> 0 then clip_position (current_generator p2) else - M52MAX)\<rparr> in
                  play_loop fuel' tr from_tick begin_tick end_tick (p3, evout')))
      else Some (p, evout))"

declare play_loop.simps [simp del]

definition render ::
    "nat \<Rightarrow> (real \<Rightarrow> real) \<Rightarrow> AudioTransport \<Rightarrow> int \<Rightarrow> MidiEvent list \<Rightarrow> producer \<Rightarrow> (producer \<times> MidiEvent list) option" where
  "render fuel f tr n_frames evinput p =
     (let begin_tick = current_tick tr;
          end_tick = current_tick tr + sample_to_tick f (tick_sig tr) n_frames;
          from_tick = sample_from_tick f (tick_sig tr);
          cur_bpm = trunc (current_bpm tr);
          (p1, out1) =
            (if must_flush p \<or> cur_bpm \<le> 0
             then (p\<lparr>must_flush := False, future_stack := []\<rparr>, flush_notes (rev (future_stack p)) [])
             else (p, []));
          (stack, out2) = pop_pending from_tick begin_tick end_tick (future_stack p1, out1);
          p2 = p1\<lparr>future_stack := stack\<rparr>;
          out3 = fold (\<lambda>mevent out. snd (midi_append (uint (frame mevent)) mevent out)) evinput out2;
          played =
            (if feed p2 \<noteq> None \<and> feed_generators p2 \<noteq> [] \<and> cur_bpm > 0 \<and> pos_current p2 \<ge> 0 \<and> generator_start p2 \<ge> 0
             then play_loop fuel tr from_tick begin_tick end_tick (p2, out3)
             else Some (p2, out3)) in
      case played of None \<Rightarrow> None | Some (p3, out4) \<Rightarrow> Some (p3, ensure_order out4))"

interpretation future_order: total_compare backward_cmp_ticks
  by unfold_locales (auto simp: backward_cmp_ticks_def)

subsection \<open>The stack of future events\<close>

definition stack_from :: "int \<Rightarrow> TickEvent list \<Rightarrow> bool" where
  "stack_from end_tick stack \<longleftrightarrow> ordered backward_cmp_ticks stack \<and> (\<forall>e\<in>set stack. end_tick \<le> fst e)"

lemma descending: "ordered backward_cmp_ticks stack \<longleftrightarrow> sorted_wrt (\<lambda>x y. fst y \<le> fst x) stack"
  by (simp add: ordered_def backward_cmp_ticks_def)

lemma pop_pending_stack:
  "ordered backward_cmp_ticks (fst s) \<Longrightarrow> stack_from end_tick (fst (pop_pending ft bt end_tick s))"
proof (induction ft bt end_tick s rule: pop_pending.induct)
  case (1 ft bt end_tick stack evout)
  show ?case
  proof (cases "stack \<noteq> [] \<and> fst (last stack) < end_tick")
    case True
    have "ordered backward_cmp_ticks (butlast stack)"
      using 1(2) by (cases stack rule: rev_cases) (auto simp: descending sorted_wrt_append)
    then show ?thesis using 1(1) [OF True] True by (subst pop_pending.simps) simp
  next
    case False
    have "end_tick \<le> fst e" if "e \<in> set stack" for e
      using False 1(2) that by (cases stack rule: rev_cases) (auto simp: descending sorted_wrt_append)
    then show ?thesis using False 1(2) by (subst pop_pending.simps) (auto simp: stack_from_def)
  qed
qed

lemma qevent_stack:
  assumes "stack_from end_tick (fst s)"
  shows "stack_from end_tick (fst (qevent ft bt end_tick gs te s))"
proof -
  have o: "ordered backward_cmp_ticks (fst s)" using assms by (simp add: stack_from_def)
  have "set (snd (insert_sorted backward_cmp_ticks e (fst s))) = insert e (set (fst s))" for e
    using future_order.ordered_insert_sorted(2) [OF o, of e] by (metis set_mset_add_mset_insert set_mset_mset)
  then show ?thesis
    using assms future_order.ordered_insert_sorted(1) [OF o] by (auto simp: qevent_def stack_from_def Let_def)
qed

lemma qevents_stack:
  "stack_from end_tick (fst s) \<Longrightarrow> stack_from end_tick (fst (fold (qevent ft bt end_tick gs) evs s))"
  by (induction evs arbitrary: s) (simp_all add: qevent_stack)

lemma set_current_generator_stack [simp]: "future_stack (set_current_generator g p) = future_stack p"
  by (simp add: set_current_generator_def)

lemma succeed_clip_stack: "succeed_clip tr p = Some p' \<Longrightarrow> future_stack p' = future_stack p"
  by (auto simp: succeed_clip_def Let_def split: prod.splits option.splits if_splits)

lemma play_loop_stack:
  "play_loop fuel tr ft bt end_tick (p, out) = Some (p', out') \<Longrightarrow> stack_from end_tick (future_stack p) \<Longrightarrow>
     stack_from end_tick (future_stack p')"
proof (induction fuel arbitrary: p out)
  case 0
  then show ?case by (subst (asm) play_loop.simps) (auto split: if_splits)
next
  case (Suc fuel)
  show ?case
  proof (cases "pos_current p \<ge> 0 \<and> generator_start p + play_position (current_generator p) < end_tick")
    case False
    then show ?thesis using Suc.prems by (subst (asm) play_loop.simps) auto
  next
    case True
    obtain d evs g where g: "generate (end_tick - generator_start p) (current_generator p) = (d, evs, g)"
      by (metis prod_cases3)
    obtain stack evout where q: "fold (qevent ft bt end_tick (generator_start p)) evs (future_stack p, out) = (stack, evout)"
      by (metis prod.exhaust)
    let ?p1 = "set_current_generator g (p\<lparr>future_stack := stack\<rparr>)"
    obtain p2 where p2: "(if gen_done (current_generator ?p1) then succeed_clip tr ?p1 else Some ?p1) = Some p2"
      using Suc.prems(1) True g q by (subst (asm) play_loop.simps) (auto simp: Let_def split: option.splits)
    then have "future_stack p2 = stack" using succeed_clip_stack [of tr ?p1] by (auto split: if_splits)
    moreover have "stack_from end_tick stack" using qevents_stack [of end_tick "(future_stack p, out)"] q Suc.prems(2)
      by (metis fst_conv)
    ultimately show ?thesis
      using Suc.IH Suc.prems(1) True g q p2
      by (subst (asm) (2) play_loop.simps) (auto simp: Let_def split: option.splits)
  qed
qed

subsection \<open>Termination of the generating loop\<close>

lemma next_bar_start_ge:
  "next_bar_start gs pp bl = Some s \<Longrightarrow> pp \<le> s"
  by (induction gs pp bl rule: next_bar_start.induct) (subst (asm) (2) next_bar_start.simps, auto split: if_splits)

lemma next_bar_start_some: "0 < bl \<Longrightarrow> \<exists>s. next_bar_start gs pp bl = Some s"
  by (induction gs pp bl rule: next_bar_start.induct) (subst next_bar_start.simps, auto)

definition feed_ok :: "producer \<Rightarrow> bool" where
  "feed_ok p \<longleftrightarrow>
     (\<forall>g\<in>set (feed_generators p). 1 \<le> last_tick g) \<and>
     (case feed p of None \<Rightarrow> True | Some fd \<Rightarrow> \<forall>i\<in>set (indices (scout fd)). i < int (length (generators fd))) \<and>
     (pos_current p \<ge> 0 \<longrightarrow> nat (pos_current p) < length (feed_generators p))"

lemma feed_generators_set [simp]:
  "feed_generators (set_current_generator g p) = (feed_generators p)[nat (pos_current p) := g]"
  by (simp add: feed_generators_def set_current_generator_def split: option.splits)

lemma set_current_generator_fields [simp]:
  "pos_current (set_current_generator g p) = pos_current p"
  "generator_start (set_current_generator g p) = generator_start p"
  "(feed (set_current_generator g p) = None) = (feed p = None)"
  by (simp_all add: set_current_generator_def)

lemma current_generator_set [simp]:
  "nat (pos_current p) < length (feed_generators p) \<Longrightarrow> current_generator (set_current_generator g p) = g"
  by (simp add: current_generator_def)

lemma feed_ok_set: "feed_ok p \<Longrightarrow> 1 \<le> last_tick g \<Longrightarrow> feed_ok (set_current_generator g p)"
  using set_update_subset_insert [of "feed_generators p" "nat (pos_current p)" g]
  by (auto simp: feed_ok_def set_current_generator_def feed_generators_def split: option.splits)

lemma feed_ok_cong:
  "feed p' = feed p \<Longrightarrow> pos_current p' = pos_current p \<or> pos_current p' < 0 \<Longrightarrow> feed_ok p \<Longrightarrow> feed_ok p'"
  by (auto simp: feed_ok_def feed_generators_def)

lemma last_tick_jumpto [simp]: "last_tick (jumpto t g) = last_tick g"
  by (simp add: jumpto_def Let_def)

lemma generate_result:
  assumes "generate t g = (d, e, g')"
  shows "last_tick g' = last_tick g"
    and "xtick g < last_tick g \<Longrightarrow> xtick g < t \<Longrightarrow> xtick g' = min t (last_tick g)"
    and "\<not> (xtick g < last_tick g \<and> xtick g < t) \<Longrightarrow> g' = g"
proof -
  note f = generate_loop_fields
  show "\<not> (xtick g < last_tick g \<and> xtick g < t) \<Longrightarrow> g' = g" using assms by (auto simp: generate_def)
  show "last_tick g' = last_tick g"
    using assms by (auto simp: generate_def Let_def f split: prod.splits if_splits
        dest!: arg_cong [where f = "\<lambda>p. last_tick (snd p)"])
  show "xtick g' = min t (last_tick g)" if "xtick g < last_tick g" "xtick g < t"
    using assms that by (auto simp: generate_def Let_def f min_def split: prod.splits if_splits
        dest!: arg_cong [where f = "\<lambda>p. xtick (snd p)"])
qed

lemma succeed_clip_returns:
  assumes "feed_ok p" and "0 < bar_ticks (tick_sig tr)" and "feed p \<noteq> None"
  shows "\<exists>p'. succeed_clip tr p = Some p' \<and> feed_ok p' \<and> feed p' \<noteq> None \<and>
    (pos_current p' \<ge> 0 \<longrightarrow> generator_start p + play_position (current_generator p) \<le> generator_start p')"
proof -
  obtain fd where fd: "feed p = Some fd" using assms(3) by auto
  obtain nxt sc where a: "scout_advance (pos_current p) (scout fd) = (nxt, sc)" by (metis prod.exhaust)
  let ?pp = "generator_start p + play_position (current_generator p)"
  let ?p1 = "p\<lparr>pos_current := nxt, feed := Some (fd\<lparr>scout := sc\<rparr>)\<rparr>"
  have sc: "indices sc = indices (scout fd)" using a by (auto simp: scout_advance_def split: if_splits)
  have nxt: "nxt < int (length (generators fd))"
    using a assms(1) fd nth_mem [of "nat (pos_current p)" "indices (scout fd)"]
    by (auto simp: scout_advance_def feed_ok_def split: if_splits)
  have ok1: "feed_ok ?p1"
    using assms(1) fd sc nxt by (auto simp: feed_ok_def feed_generators_def)
  show ?thesis
  proof (cases "nxt \<ge> 0")
    case False
    then have "succeed_clip tr p =
        Some ((if nxt = -1 then ?p1\<lparr>generator_start := -1\<rparr> else ?p1)\<lparr>pos_next := -1\<rparr>)"
      unfolding succeed_clip_def Let_def fd option.case a prod.case by simp
    then show ?thesis using False ok1 by (auto simp: feed_ok_def feed_generators_def)
  next
    case True
    obtain gs where gs: "next_bar_start (current_bar_tick tr) ?pp (bar_ticks (tick_sig tr)) = Some gs"
      using next_bar_start_some [OF assms(2)] by blast
    let ?p1' = "?p1\<lparr>generator_start := gs\<rparr>"
    have gens: "feed_generators ?p1' = feed_generators ?p1" "feed_generators ?p1 = generators fd"
      by (simp_all add: feed_generators_def)
    have "generators fd ! nat nxt \<in> set (feed_generators ?p1)" using True nxt gens by simp
    then have "1 \<le> last_tick (current_generator ?p1)"
      using ok1 gens by (simp add: feed_ok_def current_generator_def)
    moreover have "feed_ok ?p1'" using ok1 by (simp add: feed_ok_def feed_generators_def)
    ultimately have ok2: "feed_ok (set_current_generator (jumpto 0 (current_generator ?p1)) ?p1')"
      by (intro feed_ok_set) simp_all
    let ?p2 = "set_current_generator (jumpto 0 (current_generator ?p1)) ?p1'"
    define p3 where "p3 = (if gen_done (current_generator ?p2) then ?p2\<lparr>pos_current := -1\<rparr> else ?p2)"
    define p4 where "p4 = (if pos_current p3 = -1 then p3\<lparr>generator_start := -1\<rparr> else p3)\<lparr>pos_next := -1\<rparr>"
    have r: "succeed_clip tr p = Some p4"
      unfolding succeed_clip_def Let_def fd option.case a prod.case
      using True gs by (simp add: p3_def p4_def)
    have "feed p4 = feed ?p2" "pos_current p4 = pos_current ?p2 \<or> pos_current p4 < 0"
      by (simp_all add: p4_def p3_def)
    then have "feed_ok p4 \<and> feed p4 \<noteq> None" using feed_ok_cong [OF _ _ ok2] by simp
    moreover have "pos_current p4 \<ge> 0 \<longrightarrow> generator_start p4 = gs" by (auto simp: p4_def p3_def)
    ultimately show ?thesis using r next_bar_start_ge [OF gs] by auto
  qed
qed

lemma play_loop_idle:
  "\<not> (pos_current p \<ge> 0 \<and> generator_start p + play_position (current_generator p) < end_tick) \<Longrightarrow>
     play_loop fuel tr ft bt end_tick (p, out) = Some (p, out)"
  by (subst play_loop.simps, rule if_not_P)

lemma play_loop_returns:
  assumes "0 < bar_ticks (tick_sig tr)"
  shows "feed_ok p \<Longrightarrow> feed p \<noteq> None \<Longrightarrow> nat (end_tick - generator_start p) < fuel \<Longrightarrow>
     \<exists>r. play_loop fuel tr ft bt end_tick (p, out) = Some r"
proof (induction fuel arbitrary: p out)
  case (Suc fuel)
  show ?case
  proof (cases "pos_current p \<ge> 0 \<and> generator_start p + play_position (current_generator p) < end_tick")
    case False
    then show ?thesis using play_loop_idle by blast
  next
    case True
    let ?c = "current_generator p"
    have ix: "nat (pos_current p) < length (feed_generators p)" using Suc.prems(1) True by (simp add: feed_ok_def)
    then have l1: "1 \<le> last_tick ?c" using Suc.prems(1) by (simp add: feed_ok_def current_generator_def)
    obtain d evs g where g: "generate (end_tick - generator_start p) ?c = (d, evs, g)" by (metis prod_cases3)
    obtain stack evout where q: "fold (qevent ft bt end_tick (generator_start p)) evs (future_stack p, out) = (stack, evout)"
      by (metis prod.exhaust)
    note gr = generate_result [OF g]
    let ?p0 = "p\<lparr>future_stack := stack\<rparr>"
    let ?p1 = "set_current_generator g ?p0"
    have p0: "feed_ok ?p0" "feed_generators ?p0 = feed_generators p"
      using Suc.prems(1) by (simp_all add: feed_ok_def feed_generators_def)
    have ok1: "feed_ok ?p1" using feed_ok_set [OF p0(1), of g] l1 gr(1) by simp
    have cg: "current_generator ?p1 = g" using ix p0(2) by (subst current_generator_set) simp_all
    have f1: "feed ?p1 \<noteq> None" using Suc.prems(2) by simp
    have active: "xtick ?c < end_tick - generator_start p" using True by (simp add: play_position_def)
    show ?thesis
    proof (cases "gen_done g")
      case False
      then have "\<not> last_tick ?c \<le> xtick g" using gr(1) by (simp add: gen_done_def play_position_def play_length_def)
      then have "xtick g = end_tick - generator_start p" using gr active by (cases "xtick ?c < last_tick ?c") auto
      then have "play_loop fuel tr ft bt end_tick
          (?p1\<lparr>pos_tick := (if pos_current ?p1 \<ge> 0 then clip_position g else - M52MAX)\<rparr>, evout) \<noteq> None"
        using cg by (subst play_loop_idle) (auto simp: play_position_def current_generator_def feed_generators_def)
      then show ?thesis
        using True g q False cg by (subst play_loop.simps) (auto simp: Let_def)
    next
      case fin: True
      obtain p2 where p2: "succeed_clip tr ?p1 = Some p2" "feed_ok p2" "feed p2 \<noteq> None"
        "pos_current p2 \<ge> 0 \<longrightarrow> generator_start p + play_position g \<le> generator_start p2"
        using succeed_clip_returns [OF ok1 assms f1] cg by auto
      let ?p3 = "p2\<lparr>pos_tick := (if pos_current p2 \<ge> 0 then clip_position (current_generator p2) else - M52MAX)\<rparr>"
      have "\<exists>r. play_loop fuel tr ft bt end_tick (?p3, evout) = Some r"
      proof (cases "pos_current p2 \<ge> 0")
        case False
        then show ?thesis by (subst play_loop_idle) auto
      next
        case pos: True
        have "1 \<le> play_position g" using fin gr(1) l1 by (simp add: gen_done_def play_length_def)
        then have later: "generator_start p + 1 \<le> generator_start p2" using p2(4) pos by simp
        have "xtick ?c < end_tick - generator_start p \<and> 1 \<le> end_tick - generator_start p"
        proof (cases "xtick ?c < last_tick ?c")
          case True
          then have "xtick g = min (end_tick - generator_start p) (last_tick ?c)" using gr(2) active by blast
          then show ?thesis using \<open>1 \<le> play_position g\<close> active by (simp add: play_position_def)
        next
          case False
          then show ?thesis using active l1 by linarith
        qed
        then have "nat (end_tick - generator_start p2) < fuel" using later Suc.prems(3) by arith
        then have "nat (end_tick - generator_start ?p3) < fuel" by simp
        moreover have "feed_ok ?p3" "feed ?p3 \<noteq> None" using p2(2,3) by (simp_all add: feed_ok_def feed_generators_def)
        ultimately show ?thesis using Suc.IH by blast
      qed
      then show ?thesis
        using True g q fin cg p2(1) by (subst play_loop.simps) (simp add: Let_def)
    qed
  qed
qed simp

subsection \<open>Flushing\<close>

lemma append_unsorted_snd: "snd (append_unsorted fr e out) = out @ [e\<lparr>frame := word_of_int (max (int16 fr) 0)\<rparr>]"
  by (simp add: append_unsorted_def Let_def)

lemma flush_notes_eq:
  "flush_notes stack out = out @ map (\<lambda>e. (snd e)\<lparr>frame := 0\<rparr>) (filter (\<lambda>e. ev_type (snd e) = NOTE_OFF) stack)"
  by (induction stack arbitrary: out) (simp_all add: append_unsorted_snd int16_small)

lemma pop_pending_appends: "\<exists>more. snd (pop_pending ft bt et s) = snd s @ more"
proof (induction ft bt et s rule: pop_pending.induct)
  case (1 ft bt et stack evout)
  then show ?case by (subst pop_pending.simps) (auto simp: append_unsorted_snd)
qed

lemma through_appends: "\<exists>more. fold (\<lambda>mevent out. snd (midi_append (fr mevent) mevent out)) evs out = out @ more"
proof (induction evs arbitrary: out)
  case (Cons e evs)
  have "snd (midi_append (fr e) e out) = out @ [e\<lparr>frame := word_of_int (max (int16 (fr e)) 0)\<rparr>]"
    by (simp add: midi_append_def append_unsorted_def Let_def)
  then show ?case using Cons [of "snd (midi_append (fr e) e out)"] by auto
qed simp

lemma qevents_append: "\<exists>more. snd (fold (qevent ft bt et gs) evs s) = snd s @ more"
proof (induction evs arbitrary: s)
  case (Cons te evs)
  have "\<exists>more. snd (qevent ft bt et gs te s) = snd s @ more"
    by (auto simp: qevent_def Let_def append_unsorted_snd)
  then show ?case using Cons [of "qevent ft bt et gs te s"] by auto
qed simp

lemma play_loop_appends:
  "play_loop fuel tr ft bt et (p, out) = Some (p', out') \<Longrightarrow> \<exists>more. out' = out @ more"
proof (induction fuel arbitrary: p out)
  case 0
  then show ?case by (subst (asm) play_loop.simps) (auto split: if_splits)
next
  case (Suc fuel)
  show ?case
  proof (cases "pos_current p \<ge> 0 \<and> generator_start p + play_position (current_generator p) < et")
    case False
    then show ?thesis using Suc.prems by (simp add: play_loop_idle)
  next
    case True
    obtain d evs g where g: "generate (et - generator_start p) (current_generator p) = (d, evs, g)"
      by (metis prod_cases3)
    obtain stack evout where q: "fold (qevent ft bt et (generator_start p)) evs (future_stack p, out) = (stack, evout)"
      by (metis prod.exhaust)
    obtain p3 where "play_loop fuel tr ft bt et (p3, evout) = Some (p', out')"
      using Suc.prems True g q by (subst (asm) play_loop.simps) (auto simp: Let_def split: option.splits)
    then obtain m1 where "out' = evout @ m1" using Suc.IH by blast
    moreover obtain m2 where "evout = out @ m2" using qevents_append [of ft bt et _ evs "(future_stack p, out)"] q
      by (metis snd_conv)
    ultimately show ?thesis by simp
  qed
qed

subsection \<open>Properties\<close>

definition block_end :: "(real \<Rightarrow> real) \<Rightarrow> AudioTransport \<Rightarrow> int \<Rightarrow> int" where
  "block_end f tr n_frames = current_tick tr + sample_to_tick f (tick_sig tr) n_frames"


text \<open>
  After a stop, the next block ends every sounding note: each pending note-off is sent at frame 0
  and leaves the stack of future events.
\<close>

theorem render_flushes_note_offs:
  assumes "must_flush p" and "render fuel f tr n_frames evinput p = Some (p', out)"
    and "e \<in> set (future_stack p)" and "ev_type (snd e) = NOTE_OFF"
  shows "(snd e)\<lparr>frame := 0\<rparr> \<in> set out"
proof -
  let ?et = "block_end f tr n_frames" and ?ft = "sample_from_tick f (tick_sig tr)" and ?bt = "current_tick tr"
  let ?out1 = "flush_notes (rev (future_stack p)) []" and ?p1 = "p\<lparr>must_flush := False, future_stack := []\<rparr>"
  obtain stack out2 where 2: "pop_pending ?ft ?bt ?et ([], ?out1) = (stack, out2)" by (metis prod.exhaust)
  let ?out3 = "fold (\<lambda>mevent out. snd (midi_append (uint (frame mevent)) mevent out)) evinput out2"
  obtain p3 out4 where "play_loop fuel tr ?ft ?bt ?et (?p1\<lparr>future_stack := stack\<rparr>, ?out3) = Some (p3, out4) \<or>
      out4 = ?out3" and o: "out = ensure_order out4"
    using assms(1,2) 2 unfolding render_def block_end_def [symmetric] by (auto simp: Let_def split: if_splits option.splits)
  then obtain m where "out4 = ?out3 @ m" using play_loop_appends by fastforce
  moreover obtain m2 where "?out3 = out2 @ m2" using through_appends [of "\<lambda>e. uint (frame e)" evinput out2] by blast
  moreover obtain m3 where "out2 = ?out1 @ m3" using pop_pending_appends [of ?ft ?bt ?et "([], ?out1)"] 2 by auto
  moreover have "(snd e)\<lparr>frame := 0\<rparr> \<in> set ?out1" using assms(3,4) by (auto simp: flush_notes_eq)
  ultimately have "(snd e)\<lparr>frame := 0\<rparr> \<in> set out4" by simp
  then show ?thesis using o mset_ensure_order [of out4] by (metis set_mset_mset)
qed


definition sample_off :: MidiEvent where
  "sample_off = new_event NOTE_OFF"

definition sample_producer :: producer where
  "sample_producer = new_producer\<lparr>future_stack := [(9, sample_off), (5, sample_off)], must_flush := True\<rparr>"

lemma sample_render:
  "render 0 (\<lambda>x. x) sample_transport 64 [] sample_producer =
     Some (sample_producer\<lparr>must_flush := False, future_stack := []\<rparr>, [sample_off, sample_off])"
  by (simp add: render_def sample_producer_def new_producer_def sample_transport_def pop_pending.simps
      flush_notes_eq sample_off_def new_event_def ensure_order_def fixed_sort_def srt_def lesser_frame_def)

lemma sample_block_end: "block_end (\<lambda>x. x) sample_transport 64 = 0"
  by (simp add: block_end_def sample_transport_def sample_to_tick_def new_signature_def set_bpm_def
      per_sample_def set_signature_def initial_signature_def trunc_def Let_def)


theorem render_flushes_note_offs_witness:
  "sample_off\<lparr>frame := 0\<rparr> \<in> set [sample_off, sample_off]"
  using render_flushes_note_offs [OF _ sample_render, of "(9, sample_off)"]
  by (simp add: sample_producer_def sample_off_def new_event_def)


end
