(* ===== verification/MpmcStack.thy ===== *)
theory MpmcStack
  imports Prelude
begin

section \<open>Lock-free stacks: linked nodes and \<open>MpmcStack\<close> (ase/atomics.hh)\<close>

text \<open>
  The nodes of an intrusive stack are addresses, linked through one atomic pointer per node.
  \<open>MpmcStack\<close> is modelled at the granularity of its atomic operations: every thread is at one point of
  \<open>push\<close> or \<open>pop\<close>, and a step is one load, one store or one compare-and-exchange of one thread.  The
  weak compare-and-exchange may fail spuriously.  The last part shows that the interleaved steps refine
  an atomic stack, as long as fewer than \<open>2 ^ 64\<close> nodes are popped in a run (the width of the ABA counter).
\<close>

subsection \<open>Paths through linked nodes\<close>

datatype 'n ptr = Nullptr | Tail | Node 'n

primrec path :: "('n \<Rightarrow> 'n ptr) \<Rightarrow> 'n ptr \<Rightarrow> 'n list \<Rightarrow> 'n ptr \<Rightarrow> bool" where
  "path h p [] q \<longleftrightarrow> p = q"
| "path h p (n # ns) q \<longleftrightarrow> p = Node n \<and> path h (h n) ns q"

lemma path_upd [simp]: "n \<notin> set ns \<Longrightarrow> path (h(n := r)) p ns q = path h p ns q"
  by (induction ns arbitrary: p) auto

lemma path_append: "path h p (ns @ ms) q \<longleftrightarrow> (\<exists>r. path h p ns r \<and> path h r ms q)"
  by (induction ns arbitrary: p) auto

lemma path_tail [simp]: "path h Tail ns Tail \<longleftrightarrow> ns = []"
  by (cases ns) auto

lemma path_nullptr [simp]: "path h Nullptr ns Nullptr \<longleftrightarrow> ns = []" "\<not> path h Nullptr ns Tail"
  by (cases ns; simp)+

lemma path_node: "path h (Node n) ns q \<Longrightarrow> q \<noteq> Node n \<Longrightarrow> \<exists>ms. ns = n # ms \<and> path h (h n) ms q"
  by (cases ns) auto

subsection \<open>State and steps\<close>

text \<open>
  \<open>Head\<close> is the pair that the double-width atomic \<open>head_\<close> holds.  A thread is idle or inside a call: the
  program points carry the local variables (\<open>node\<close>, \<open>ohead\<close> and \<open>nhead.next\<close>).  \<open>Abort\<close> is a failed
  \<open>assert\<close>.  \<open>node_owner\<close> records which thread owns a node that is not on the stack: \<open>push\<close> is only
  called by the owner (the contract of the class), and the thread that pops a node owns it.
\<close>

record 'n Head =
  next_ptr :: "'n ptr"
  aba_counter :: u64

datatype 'n pc =
    Idle
  | Push_load 'n
  | Push_link 'n "'n Head"
  | Push_cas 'n "'n Head"
  | Pop_load
  | Pop_read "'n Head"
  | Pop_cas "'n Head" 'n "'n ptr"
  | Pop_clear 'n
  | Abort

record ('t, 'n) mpmc =
  stack_head :: "'n Head"
  intr_ptr :: "'n \<Rightarrow> 'n ptr"
  threads :: "'t \<Rightarrow> 'n pc"
  node_owner :: "'n \<Rightarrow> 't option"

definition new_stack :: "('n \<Rightarrow> 't option) \<Rightarrow> ('t, 'n) mpmc" where
  "new_stack own =
     \<lparr>stack_head = \<lparr>next_ptr = Tail, aba_counter = 0\<rparr>, intr_ptr = \<lambda>_. Nullptr,
      threads = \<lambda>_. Idle, node_owner = own\<rparr>"

definition stack_empty :: "('t, 'n) mpmc \<Rightarrow> bool" where
  "stack_empty s \<longleftrightarrow> next_ptr (stack_head s) = Tail"

text \<open>What a call returns is the event of its linearization point.\<close>

datatype ('t, 'n) event = Pushed 't 'n (was_empty: bool) | Popped 't 'n | Found_empty 't

text \<open>
  The loops of \<open>push\<close> and \<open>pop\<close>.  A \<open>pop\<close> that loads \<open>TAIL_\<close> will return \<open>nullptr\<close>; after a failed
  compare-and-exchange \<open>ohead\<close> is the head it found.
\<close>

definition set_pc :: "'t \<Rightarrow> 'n pc \<Rightarrow> ('t, 'n) mpmc \<Rightarrow> ('t, 'n) mpmc" where
  "set_pc t c s = s\<lparr>threads := (threads s)(t := c)\<rparr>"

definition pop_loaded :: "'t \<Rightarrow> ('t, 'n) mpmc \<Rightarrow> ('t, 'n) event list \<times> ('t, 'n) mpmc" where
  "pop_loaded t s =
     (if next_ptr (stack_head s) = Tail then ([Found_empty t], set_pc t Idle s)
      else ([], set_pc t (Pop_read (stack_head s)) s))"

inductive mpmc_step :: "('t, 'n) mpmc \<Rightarrow> ('t, 'n) event list \<Rightarrow> ('t, 'n) mpmc \<Rightarrow> bool" where
  push_call: "threads s t = Idle \<Longrightarrow> node_owner s n = Some t \<Longrightarrow>
     mpmc_step s [] (set_pc t (if intr_ptr s n \<noteq> Nullptr then Abort else Push_load n) s)"
| push_load: "threads s t = Push_load n \<Longrightarrow>
     mpmc_step s [] (set_pc t (if next_ptr (stack_head s) = Nullptr then Abort else Push_link n (stack_head s)) s)"
| push_link: "threads s t = Push_link n ohead \<Longrightarrow>
     mpmc_step s [] (set_pc t (Push_cas n ohead) (s\<lparr>intr_ptr := (intr_ptr s)(n := next_ptr ohead)\<rparr>))"
| push_cas: "threads s t = Push_cas n ohead \<Longrightarrow> stack_head s = ohead \<Longrightarrow>
     mpmc_step s [Pushed t n (next_ptr ohead = Tail)]
       (set_pc t Idle (s\<lparr>stack_head := \<lparr>next_ptr = Node n, aba_counter = aba_counter ohead\<rparr>,
                         node_owner := (node_owner s)(n := None)\<rparr>))"
| push_fail: "threads s t = Push_cas n ohead \<Longrightarrow>
     mpmc_step s [] (set_pc t (Push_link n (stack_head s)) s)"
| pop_call: "threads s t = Idle \<Longrightarrow> mpmc_step s [] (set_pc t Pop_load s)"
| pop_load: "threads s t = Pop_load \<Longrightarrow> next_ptr (stack_head s) \<noteq> Nullptr \<Longrightarrow>
     pop_loaded t s = (es, s') \<Longrightarrow> mpmc_step s es s'"
| pop_abort: "threads s t = Pop_load \<Longrightarrow> next_ptr (stack_head s) = Nullptr \<Longrightarrow>
     mpmc_step s [] (set_pc t Abort s)"
| pop_read: "threads s t = Pop_read ohead \<Longrightarrow> next_ptr ohead = Node n \<Longrightarrow>
     mpmc_step s [] (set_pc t (Pop_cas ohead n (intr_ptr s n)) s)"
| pop_cas: "threads s t = Pop_cas ohead n r \<Longrightarrow> stack_head s = ohead \<Longrightarrow>
     mpmc_step s [Popped t n]
       (set_pc t (Pop_clear n) (s\<lparr>stack_head := \<lparr>next_ptr = r, aba_counter = aba_counter ohead + 1\<rparr>,
                                  node_owner := (node_owner s)(n := Some t)\<rparr>))"
| pop_fail: "threads s t = Pop_cas ohead n r \<Longrightarrow>
     pop_loaded t s = (es, s') \<Longrightarrow> mpmc_step s es s'"
| pop_clear: "threads s t = Pop_clear n \<Longrightarrow>
     mpmc_step s [] (set_pc t Idle (s\<lparr>intr_ptr := (intr_ptr s)(n := Nullptr)\<rparr>))"

text \<open>A run collects the events in the order they take effect.\<close>

inductive mpmc_run :: "('t, 'n) mpmc \<Rightarrow> ('t, 'n) event list \<Rightarrow> ('t, 'n) mpmc \<Rightarrow> bool" where
  run_start: "mpmc_run s [] s"
| run_step: "mpmc_run s es s' \<Longrightarrow> mpmc_step s' fs s'' \<Longrightarrow> mpmc_run s (es @ fs) s''"

subsection \<open>The atomic stack\<close>

text \<open>The specification: each event happens at once on a list of nodes.\<close>

fun spec_event :: "('t, 'n) event \<Rightarrow> 'n list \<Rightarrow> 'n list option" where
  "spec_event (Pushed t n e) st = (if e = (st = []) then Some (n # st) else None)"
| "spec_event (Popped t n) st = (case st of m # ms \<Rightarrow> if m = n then Some ms else None | [] \<Rightarrow> None)"
| "spec_event (Found_empty t) st = (if st = [] then Some [] else None)"

fun spec_run :: "('t, 'n) event list \<Rightarrow> 'n list \<Rightarrow> 'n list option" where
  "spec_run [] st = Some st"
| "spec_run (e # es) st = Option.bind (spec_event e st) (spec_run es)"

lemma spec_run_append: "spec_run (es @ fs) st = Option.bind (spec_run es st) (spec_run fs)"
  by (induction es arbitrary: st) (auto split: Option.bind_split)

fun is_pop :: "('t, 'n) event \<Rightarrow> bool" where
  "is_pop (Popped t n) = True"
| "is_pop _ = False"

definition pop_count :: "('t, 'n) event list \<Rightarrow> nat" where
  "pop_count es = length (filter is_pop es)"

lemma pop_count_simps [simp]:
  "pop_count [] = 0" "pop_count (e # es) = (if is_pop e then Suc (pop_count es) else pop_count es)"
  "pop_count (es @ fs) = pop_count es + pop_count fs"
  by (simp_all add: pop_count_def)

definition destroy :: "('t, 'n) mpmc \<Rightarrow> ('t, 'n) mpmc option" where
  "destroy s =
     (if stack_empty s then Some (s\<lparr>stack_head := (stack_head s)\<lparr>next_ptr := Nullptr\<rparr>\<rparr>) else None)"

subsection \<open>The invariant\<close>

text \<open>
  The stack's list hangs off the head and holds no owned node; the counter is the number of pops.  A
  thread inside \<open>pop\<close> holds an old counter value: if nothing was popped since, its node is still on the
  stack and the successor it read is still the successor.
\<close>

definition tagged :: "u64 \<Rightarrow> nat \<Rightarrow> bool \<Rightarrow> bool" where
  "tagged c n P \<longleftrightarrow> (\<exists>k\<le>n. c = of_nat k \<and> (k = n \<longrightarrow> P))"

lemma tagged_mono: "tagged c n P \<Longrightarrow> (P \<Longrightarrow> Q) \<Longrightarrow> tagged c n Q"
  by (auto simp: tagged_def)

lemma tagged_Suc: "tagged c n P \<Longrightarrow> tagged c (Suc n) Q"
  unfolding tagged_def by (metis Suc_n_not_le_n le_SucI)

lemma tagged_self: "P \<Longrightarrow> tagged (of_nat n) n P"
  by (auto simp: tagged_def)

lemma tagged_now:
  assumes "tagged (of_nat n) n P" and "n < 2 ^ 64"
  shows P
proof -
  obtain k where k: "k \<le> n" "(of_nat n :: u64) = of_nat k" "k = n \<longrightarrow> P" using assms(1) by (auto simp: tagged_def)
  have "LENGTH(64) = 64" by simp
  then have n: "n < 2 ^ LENGTH(64)" using assms(2) by (simp only:)
  then have kl: "k < 2 ^ LENGTH(64)" using k(1) by (rule le_less_trans [rotated])
  have "n = k" using of_nat_inverse [OF k(2) n] of_nat_inverse [OF refl kl] by (rule trans [OF sym])
  then show ?thesis using k(3) by blast
qed

fun pc_ok :: "('t, 'n) mpmc \<Rightarrow> 'n list \<Rightarrow> nat \<Rightarrow> 't \<Rightarrow> 'n pc \<Rightarrow> bool" where
  "pc_ok s st n t Idle = True"
| "pc_ok s st n t (Push_load m) = (node_owner s m = Some t \<and> intr_ptr s m = Nullptr)"
| "pc_ok s st n t (Push_link m ohead) = (node_owner s m = Some t)"
| "pc_ok s st n t (Push_cas m ohead) = (node_owner s m = Some t \<and> intr_ptr s m = next_ptr ohead)"
| "pc_ok s st n t Pop_load = True"
| "pc_ok s st n t (Pop_read ohead) =
     (\<exists>m. next_ptr ohead = Node m \<and> tagged (aba_counter ohead) n (m \<in> set st))"
| "pc_ok s st n t (Pop_cas ohead m r) =
     (next_ptr ohead = Node m \<and> tagged (aba_counter ohead) n (m \<in> set st \<and> r = intr_ptr s m))"
| "pc_ok s st n t (Pop_clear m) = (node_owner s m = Some t)"
| "pc_ok s st n t Abort = False"

fun busy :: "'n pc \<Rightarrow> 'n \<Rightarrow> bool" where
  "busy (Push_link m _) n = (m = n)"
| "busy (Push_cas m _) n = (m = n)"
| "busy (Pop_clear m) n = (m = n)"
| "busy _ _ = False"

definition stack_inv :: "('t, 'n) mpmc \<Rightarrow> 'n list \<Rightarrow> nat \<Rightarrow> bool" where
  "stack_inv s st n \<longleftrightarrow>
     path (intr_ptr s) (next_ptr (stack_head s)) st Tail \<and> distinct st \<and>
     aba_counter (stack_head s) = of_nat n \<and>
     (\<forall>m\<in>set st. node_owner s m = None) \<and>
     (\<forall>t. pc_ok s st n t (threads s t)) \<and>
     (\<forall>m t. node_owner s m = Some t \<longrightarrow> busy (threads s t) m \<or> intr_ptr s m = Nullptr)"

lemma new_stack_inv: "stack_inv (new_stack own) [] 0"
  by (simp add: stack_inv_def new_stack_def)

lemma set_pc_simps [simp]:
  "stack_head (set_pc t c s) = stack_head s" "intr_ptr (set_pc t c s) = intr_ptr s"
  "node_owner (set_pc t c s) = node_owner s" "threads (set_pc t c s) = (threads s)(t := c)"
  by (simp_all add: set_pc_def)

lemma pc_ok_cong:
  "intr_ptr s' = intr_ptr s \<Longrightarrow> node_owner s' = node_owner s \<Longrightarrow> pc_ok s' st n t c = pc_ok s st n t c"
  by (cases c) auto

lemma pc_ok_set_pc [simp]: "pc_ok (set_pc t c s) st n u d = pc_ok s st n u d"
  by (rule pc_ok_cong) simp_all

lemma pc_ok_link:
  assumes "pc_ok s st n u d" and "node_owner s m = Some t" and "u \<noteq> t" and "\<forall>m\<in>set st. node_owner s m = None"
  shows "pc_ok (s\<lparr>intr_ptr := (intr_ptr s)(m := p)\<rparr>) st n u d"
  using assms by (cases d) (auto elim!: tagged_mono)

lemma pc_ok_push:
  assumes "pc_ok s st n u d" and "node_owner s m = Some t" and "u \<noteq> t"
  shows "pc_ok (s\<lparr>stack_head := h, node_owner := (node_owner s)(m := None)\<rparr>) (m # st) n u d"
  using assms by (cases d) (auto elim!: tagged_mono)

lemma pc_ok_pop:
  assumes "pc_ok s (m # st) n u d" and "node_owner s m = None"
  shows "pc_ok (s\<lparr>stack_head := h, node_owner := (node_owner s)(m := Some t)\<rparr>) st (Suc n) u d"
  using assms by (cases d) (auto elim!: tagged_Suc)

text \<open>A step within one thread that changes only its program point.\<close>

lemma inv_set_pc:
  assumes "stack_inv s st n" and "pc_ok s st n t c"
    and "\<forall>m. node_owner s m = Some t \<longrightarrow> busy c m \<or> intr_ptr s m = Nullptr"
  shows "stack_inv (set_pc t c s) st n"
  using assms by (auto simp: stack_inv_def)

lemma inv_pop_loaded:
  assumes inv: "stack_inv s st n" and pc: "\<forall>m. \<not> busy (threads s t) m" and l: "pop_loaded t s = (es, s')"
  shows "spec_run es st = Some st \<and> pop_count es = 0 \<and> stack_inv s' st n"
proof -
  have nb: "\<forall>m. node_owner s m = Some t \<longrightarrow> intr_ptr s m = Nullptr"
    using inv pc unfolding stack_inv_def by blast
  have p: "path (intr_ptr s) (next_ptr (stack_head s)) st Tail" and a: "aba_counter (stack_head s) = of_nat n"
    using inv by (auto simp: stack_inv_def)
  show ?thesis
  proof (cases st)
    case Nil
    then show ?thesis using l p inv_set_pc [OF inv, of t Idle] nb by (auto simp: pop_loaded_def)
  next
    case (Cons m ms)
    have "stack_inv (set_pc t (Pop_read (stack_head s)) s) st n"
      using inv_set_pc [OF inv, of t "Pop_read (stack_head s)"] nb Cons p a by (auto intro: tagged_self)
    then show ?thesis using l p Cons by (auto simp: pop_loaded_def)
  qed
qed

lemma not_busyD: "stack_inv s st n \<Longrightarrow> \<not> busy (threads s t) m \<Longrightarrow> node_owner s m = Some t \<Longrightarrow> intr_ptr s m = Nullptr"
  by (auto simp: stack_inv_def)

lemma pcD: "stack_inv s st n \<Longrightarrow> threads s t = c \<Longrightarrow> pc_ok s st n t c"
  by (auto simp: stack_inv_def)

subsection \<open>Every step refines the atomic stack\<close>

definition refines_step :: "('n list \<Rightarrow> nat \<Rightarrow> bool) \<Rightarrow> ('t, 'n) event list \<Rightarrow> 'n list \<Rightarrow> nat \<Rightarrow> bool" where
  "refines_step J es st n \<longleftrightarrow> (\<exists>st'. spec_run es st = Some st' \<and> J st' (n + pop_count es))"

lemma refines_silent: "J st n \<Longrightarrow> refines_step J [] st n"
  by (simp add: refines_step_def)

lemma refines_loaded:
  assumes "stack_inv s st n" and "\<forall>m. \<not> busy (threads s t) m" and "pop_loaded t s = (es, s')"
  shows "refines_step (stack_inv s') es st n"
  using inv_pop_loaded [OF assms] by (auto simp: refines_step_def)

lemma inv_push_link:
  assumes inv: "stack_inv s st n" and pc: "threads s t = Push_link m ohead"
  shows "stack_inv (set_pc t (Push_cas m ohead) (s\<lparr>intr_ptr := (intr_ptr s)(m := next_ptr ohead)\<rparr>)) st n"
proof -
  have o: "node_owner s m = Some t" using pcD [OF inv pc] by simp
  have st: "\<forall>m\<in>set st. node_owner s m = None" using inv by (simp add: stack_inv_def)
  then have "m \<notin> set st" using o by auto
  moreover have "pc_ok (s\<lparr>intr_ptr := (intr_ptr s)(m := next_ptr ohead)\<rparr>) st n u (threads s u)" if "u \<noteq> t" for u
    by (rule pc_ok_link [OF _ o that st]) (use inv in \<open>simp add: stack_inv_def\<close>)
  moreover have "intr_ptr s k = Nullptr" if "k \<noteq> m" "node_owner s k = Some t" for k
    using not_busyD [OF inv _ that(2)] pc that(1) by simp
  ultimately show ?thesis using inv o pc unfolding stack_inv_def by auto
qed

lemma inv_push_cas:
  assumes inv: "stack_inv s st n" and pc: "threads s t = Push_cas m (stack_head s)"
  shows "stack_inv (set_pc t Idle (s\<lparr>stack_head := \<lparr>next_ptr = Node m, aba_counter = aba_counter (stack_head s)\<rparr>,
           node_owner := (node_owner s)(m := None)\<rparr>)) (m # st) n"
    and "st = [] \<longleftrightarrow> next_ptr (stack_head s) = Tail"
proof -
  have o: "node_owner s m = Some t" "intr_ptr s m = next_ptr (stack_head s)" using pcD [OF inv pc] by simp_all
  have p: "path (intr_ptr s) (next_ptr (stack_head s)) st Tail" using inv by (simp add: stack_inv_def)
  then show "st = [] \<longleftrightarrow> next_ptr (stack_head s) = Tail" by (cases st) auto
  have "m \<notin> set st" using o(1) inv by (auto simp: stack_inv_def)
  moreover have "pc_ok (s\<lparr>stack_head := h, node_owner := (node_owner s)(m := None)\<rparr>) (m # st) n u (threads s u)"
    if "u \<noteq> t" for u h by (rule pc_ok_push [OF _ o(1) that]) (use inv in \<open>simp add: stack_inv_def\<close>)
  moreover have "busy (threads s u) k \<or> intr_ptr s k = Nullptr" if "k \<noteq> m" "node_owner s k = Some u" for k u
    using inv that by (auto simp: stack_inv_def)
  moreover have "\<not> busy (threads s t) k" if "k \<noteq> m" for k using pc that by simp
  ultimately show "stack_inv (set_pc t Idle (s\<lparr>stack_head := \<lparr>next_ptr = Node m, aba_counter = aba_counter (stack_head s)\<rparr>,
           node_owner := (node_owner s)(m := None)\<rparr>)) (m # st) n"
    using inv o p unfolding stack_inv_def by (auto split: if_splits) (metis)+
qed

lemma inv_pop_cas:
  assumes inv: "stack_inv s st n" and pc: "threads s t = Pop_cas (stack_head s) m r" and n: "n < 2 ^ 64"
  obtains st' where "st = m # st'"
    and "stack_inv (set_pc t (Pop_clear m) (s\<lparr>stack_head := \<lparr>next_ptr = r, aba_counter = aba_counter (stack_head s) + 1\<rparr>,
           node_owner := (node_owner s)(m := Some t)\<rparr>)) st' (Suc n)"
proof -
  have a: "aba_counter (stack_head s) = of_nat n" using inv by (simp add: stack_inv_def)
  have "next_ptr (stack_head s) = Node m" "m \<in> set st \<and> r = intr_ptr s m"
    using pcD [OF inv pc] tagged_now [OF _ n] by (auto simp: a)
  moreover have p: "path (intr_ptr s) (next_ptr (stack_head s)) st Tail" using inv by (simp add: stack_inv_def)
  ultimately obtain st' where st: "st = m # st'" "path (intr_ptr s) r st' Tail" by (cases st) auto
  have o: "node_owner s m = None" "m \<notin> set st'" using inv st(1) by (auto simp: stack_inv_def)
  have pcs: "pc_ok (s\<lparr>stack_head := h, node_owner := (node_owner s)(m := Some t)\<rparr>) st' (Suc n) u (threads s u)" for u h
    by (rule pc_ok_pop [OF _ o(1)]) (use inv st(1) in \<open>simp add: stack_inv_def\<close>)
  have own: "busy (threads s u) k \<or> intr_ptr s k = Nullptr" if "node_owner s k = Some u" for k u
    using inv that by (auto simp: stack_inv_def)
  have "\<not> busy (threads s t) k" for k using pc by simp
  then have "stack_inv (set_pc t (Pop_clear m) (s\<lparr>stack_head := \<lparr>next_ptr = r, aba_counter = aba_counter (stack_head s) + 1\<rparr>,
           node_owner := (node_owner s)(m := Some t)\<rparr>)) st' (Suc n)"
    using inv st o a pcs own unfolding stack_inv_def by (auto split: if_splits) (metis)+
  then show ?thesis using st(1) that by blast
qed

lemma inv_pop_clear:
  assumes inv: "stack_inv s st n" and pc: "threads s t = Pop_clear m"
  shows "stack_inv (set_pc t Idle (s\<lparr>intr_ptr := (intr_ptr s)(m := Nullptr)\<rparr>)) st n"
proof -
  have o: "node_owner s m = Some t" using pcD [OF inv pc] by simp
  have st: "\<forall>m\<in>set st. node_owner s m = None" using inv by (simp add: stack_inv_def)
  then have "m \<notin> set st" using o by auto
  moreover have "pc_ok (s\<lparr>intr_ptr := (intr_ptr s)(m := Nullptr)\<rparr>) st n u (threads s u)" if "u \<noteq> t" for u
    by (rule pc_ok_link [OF _ o that st]) (use inv in \<open>simp add: stack_inv_def\<close>)
  moreover have "intr_ptr s k = Nullptr" if "k \<noteq> m" "node_owner s k = Some t" for k
    using not_busyD [OF inv _ that(2)] pc that(1) by simp
  ultimately show ?thesis using inv o pc unfolding stack_inv_def by auto
qed

lemma mpmc_step_refines:
  assumes "mpmc_step s es s'" and inv: "stack_inv s st n" and bound: "n + pop_count es \<le> 2 ^ 64"
  shows "refines_step (stack_inv s') es st n"
  using assms(1)
proof cases
  case (push_call t m)
  then have "intr_ptr s m = Nullptr" using not_busyD [OF inv, of t m] by simp
  then show ?thesis
    using push_call not_busyD [OF inv, of t] by (auto intro!: refines_silent inv_set_pc [OF inv])
next
  case (push_load t m)
  have "next_ptr (stack_head s) \<noteq> Nullptr" using inv by (auto simp: stack_inv_def)
  then show ?thesis
    using push_load not_busyD [OF inv, of t] pcD [OF inv push_load(3)]
    by (auto intro!: refines_silent inv_set_pc [OF inv])
next
  case (push_link t m ohead)
  then show ?thesis using inv_push_link [OF inv] by (auto intro!: refines_silent)
next
  case (push_cas t m ohead)
  then show ?thesis using inv_push_cas [OF inv, of t m] by (auto simp: refines_step_def)
next
  case (push_fail t m ohead)
  have "\<forall>k. node_owner s k = Some t \<longrightarrow> busy (threads s t) k \<or> intr_ptr s k = Nullptr"
    using inv by (auto simp: stack_inv_def)
  then show ?thesis
    using push_fail pcD [OF inv push_fail(3)] by (auto intro!: refines_silent inv_set_pc [OF inv])
next
  case (pop_call t)
  then show ?thesis using not_busyD [OF inv, of t] by (auto intro!: refines_silent inv_set_pc [OF inv])
next
  case (pop_load t)
  then show ?thesis using refines_loaded [OF inv _ pop_load(3)] by simp
next
  case (pop_abort t)
  then show ?thesis using inv by (auto simp: stack_inv_def)
next
  case (pop_read t ohead m)
  have "pc_ok s st n t (Pop_cas ohead m (intr_ptr s m))"
    using pcD [OF inv pop_read(3)] pop_read(4) by (auto elim: tagged_mono)
  then show ?thesis
    using pop_read not_busyD [OF inv, of t] by (auto intro!: refines_silent inv_set_pc [OF inv])
next
  case (pop_cas t ohead m r)
  then have "n < 2 ^ 64" using bound by simp
  then show ?thesis using pop_cas inv_pop_cas [OF inv, of t m r] by (force simp: refines_step_def)
next
  case (pop_fail t ohead m r)
  then show ?thesis using refines_loaded [OF inv _ pop_fail(2)] by simp
next
  case (pop_clear t m)
  then show ?thesis using inv_pop_clear [OF inv] by (auto intro!: refines_silent)
qed

lemma mpmc_run_refines:
  "mpmc_run s es s' \<Longrightarrow> stack_inv s [] 0 \<Longrightarrow> pop_count es \<le> 2 ^ 64 \<Longrightarrow>
     \<exists>st. spec_run es [] = Some st \<and> stack_inv s' st (pop_count es)"
proof (induction rule: mpmc_run.induct)
  case (run_step s es s' fs s'')
  then obtain st where "spec_run es [] = Some st" "stack_inv s' st (pop_count es)" by auto
  then show ?case
    using mpmc_step_refines [OF run_step.hyps(2)] run_step.prems(2) by (auto simp: refines_step_def spec_run_append)
qed simp

subsection \<open>A thread that runs alone finishes its call\<close>

lemma mpmc_run_prepend:
  assumes "mpmc_step s fs s1" and "mpmc_run s1 es s2"
  shows "mpmc_run s (fs @ es) s2"
  using assms(2,1)
proof (induction rule: mpmc_run.induct)
  case (run_start s1)
  then show ?case using mpmc_run.run_step [OF mpmc_run.run_start] by fastforce
next
  case (run_step s1 es s' gs s'')
  then show ?case using mpmc_run.run_step [of s "fs @ es" s' gs s''] by simp
qed

definition finishes :: "'t \<Rightarrow> ('t, 'n) mpmc \<Rightarrow> bool" where
  "finishes t s \<longleftrightarrow>
     (\<exists>es s'. mpmc_run s es s' \<and> threads s' t = Idle \<and> (\<forall>u. u \<noteq> t \<longrightarrow> threads s' u = threads s u))"

lemma finishes_idle: "threads s t = Idle \<Longrightarrow> finishes t s"
  unfolding finishes_def using mpmc_run.run_start by blast

lemma finishes_step:
  "mpmc_step s fs s' \<Longrightarrow> finishes t s' \<Longrightarrow> \<forall>u. u \<noteq> t \<longrightarrow> threads s' u = threads s u \<Longrightarrow> finishes t s"
  unfolding finishes_def using mpmc_run_prepend by metis

lemma finishes_pop_clear: "threads s t = Pop_clear m \<Longrightarrow> finishes t s"
  by (erule finishes_step [OF mpmc_step.pop_clear]) (auto intro: finishes_idle)

lemma finishes_pop_cas: "threads s t = Pop_cas (stack_head s) m r \<Longrightarrow> finishes t s"
  by (erule finishes_step [OF mpmc_step.pop_cas]) (auto intro: finishes_pop_clear)

lemma finishes_pop_read: "threads s t = Pop_read (stack_head s) \<Longrightarrow> next_ptr (stack_head s) = Node m \<Longrightarrow> finishes t s"
  by (erule finishes_step [OF mpmc_step.pop_read]) (auto intro: finishes_pop_cas)

lemma finishes_loaded:
  "pop_loaded t s = (es, s') \<Longrightarrow> next_ptr (stack_head s) \<noteq> Nullptr \<Longrightarrow>
     finishes t s' \<and> (\<forall>u. u \<noteq> t \<longrightarrow> threads s' u = threads s u)"
  by (cases "next_ptr (stack_head s)") (auto simp: pop_loaded_def intro: finishes_idle finishes_pop_read)

lemma finishes_push_cas_now: "threads s t = Push_cas m (stack_head s) \<Longrightarrow> finishes t s"
  by (erule finishes_step [OF mpmc_step.push_cas]) (auto intro: finishes_idle)

lemma finishes_push_link: "threads s t = Push_link m (stack_head s) \<Longrightarrow> finishes t s"
  by (erule finishes_step [OF mpmc_step.push_link]) (auto intro: finishes_push_cas_now)

lemma finishes_push_cas: "threads s t = Push_cas m ohead \<Longrightarrow> finishes t s"
  by (erule finishes_step [OF mpmc_step.push_fail]) (auto intro: finishes_push_link)

lemma finishes_pc:
  assumes "threads s t \<noteq> Abort" and head: "next_ptr (stack_head s) \<noteq> Nullptr" and ok: "pc_ok s st n t (threads s t)"
  shows "finishes t s"
proof -
  obtain es s' where l: "pop_loaded t s = (es, s')" by fastforce
  show ?thesis
  proof (cases "threads s t")
    case (Push_load m)
    then show ?thesis using head
      by (intro finishes_step [OF mpmc_step.push_load [OF Push_load]]) (auto intro: finishes_push_link)
  next
    case (Push_link m ohead)
    then show ?thesis
      by (intro finishes_step [OF mpmc_step.push_link [OF Push_link]]) (auto intro: finishes_push_cas)
  next
    case Pop_load
    then show ?thesis
      using finishes_step [OF mpmc_step.pop_load [OF Pop_load head l]] finishes_loaded [OF l head] by blast
  next
    case (Pop_read ohead)
    then obtain m where m: "next_ptr ohead = Node m" using ok by auto
    obtain fs s2 where l2: "pop_loaded t (set_pc t (Pop_cas ohead m (intr_ptr s m)) s) = (fs, s2)" by fastforce
    have "finishes t (set_pc t (Pop_cas ohead m (intr_ptr s m)) s)"
      using finishes_step [OF mpmc_step.pop_fail [OF _ l2]] finishes_loaded [OF l2] head by auto
    then show ?thesis using finishes_step [OF mpmc_step.pop_read [OF Pop_read m]] by auto
  next
    case (Pop_cas ohead m r)
    then show ?thesis
      using finishes_step [OF mpmc_step.pop_fail [OF Pop_cas l]] finishes_loaded [OF l head] by blast
  qed (use assms(1) in \<open>auto intro: finishes_idle finishes_push_cas finishes_pop_clear\<close>)
qed

subsection \<open>Properties\<close>

text \<open>
  C7: whatever threads interleave, the stack behaves like an atomic one: the events of a run, in the order
  of their linearization points, are a run of a list of nodes (each pop yields the node last pushed,
  \<open>was_empty\<close> and \<open>nullptr\<close> are returned exactly on an empty list), the nodes linked from the head are that
  list, and no assertion fails; with the 64 bit counter, for runs of at most \<open>2 ^ 64\<close> pops.
\<close>

theorem mpmc_refines_stack:
  assumes "mpmc_run (new_stack own) es s" and "pop_count es \<le> 2 ^ 64"
  shows "\<exists>st. spec_run es [] = Some st \<and> path (intr_ptr s) (next_ptr (stack_head s)) st Tail \<and>
    distinct st \<and> (\<forall>t. threads s t \<noteq> Abort)"
proof -
  obtain st where st: "spec_run es [] = Some st" "stack_inv s st (pop_count es)"
    using mpmc_run_refines [OF assms(1) new_stack_inv assms(2)] by blast
  then have "pc_ok s st (pop_count es) t (threads s t)" for t by (simp add: stack_inv_def)
  then have "threads s t \<noteq> Abort" for t by (metis pc_ok.simps(9))
  then show ?thesis using st by (auto simp: stack_inv_def)
qed


text \<open>
  An executable scheduler: \<open>Start_push\<close> and \<open>Start_pop\<close> begin a call of an idle thread, \<open>Next\<close> makes the next
  step of a thread, with a compare-and-exchange that fails only on a different head.
\<close>

datatype ('t, 'n) action = Start_push 't 'n | Start_pop 't | Next 't

fun act :: "('t, 'n) action \<Rightarrow> ('t, 'n) mpmc \<Rightarrow> (('t, 'n) event list \<times> ('t, 'n) mpmc) option" where
  "act (Start_push t n) s =
     (if threads s t = Idle \<and> node_owner s n = Some t
      then Some ([], set_pc t (if intr_ptr s n \<noteq> Nullptr then Abort else Push_load n) s) else None)"
| "act (Start_pop t) s = (if threads s t = Idle then Some ([], set_pc t Pop_load s) else None)"
| "act (Next t) s =
     (case threads s t of
        Push_load n \<Rightarrow>
          Some ([], set_pc t (if next_ptr (stack_head s) = Nullptr then Abort else Push_link n (stack_head s)) s)
      | Push_link n ohead \<Rightarrow>
          Some ([], set_pc t (Push_cas n ohead) (s\<lparr>intr_ptr := (intr_ptr s)(n := next_ptr ohead)\<rparr>))
      | Push_cas n ohead \<Rightarrow>
          if stack_head s = ohead
          then Some ([Pushed t n (next_ptr ohead = Tail)],
                 set_pc t Idle (s\<lparr>stack_head := \<lparr>next_ptr = Node n, aba_counter = aba_counter ohead\<rparr>,
                                  node_owner := (node_owner s)(n := None)\<rparr>))
          else Some ([], set_pc t (Push_link n (stack_head s)) s)
      | Pop_load \<Rightarrow>
          if next_ptr (stack_head s) = Nullptr then Some ([], set_pc t Abort s) else Some (pop_loaded t s)
      | Pop_read ohead \<Rightarrow>
          (case next_ptr ohead of Node n \<Rightarrow> Some ([], set_pc t (Pop_cas ohead n (intr_ptr s n)) s) | _ \<Rightarrow> None)
      | Pop_cas ohead n r \<Rightarrow>
          if stack_head s = ohead
          then Some ([Popped t n],
                 set_pc t (Pop_clear n) (s\<lparr>stack_head := \<lparr>next_ptr = r, aba_counter = aba_counter ohead + 1\<rparr>,
                                           node_owner := (node_owner s)(n := Some t)\<rparr>))
          else Some (pop_loaded t s)
      | Pop_clear n \<Rightarrow> Some ([], set_pc t Idle (s\<lparr>intr_ptr := (intr_ptr s)(n := Nullptr)\<rparr>))
      | _ \<Rightarrow> None)"

fun acts :: "('t, 'n) action list \<Rightarrow> ('t, 'n) mpmc \<Rightarrow> (('t, 'n) event list \<times> ('t, 'n) mpmc) option" where
  "acts [] s = Some ([], s)"
| "acts (a # as) s =
     (case act a s of None \<Rightarrow> None
      | Some (es, s') \<Rightarrow> map_option (\<lambda>(fs, s''). (es @ fs, s'')) (acts as s'))"

lemma act_step: "act a s = Some (es, s') \<Longrightarrow> mpmc_step s es s'"
proof (induction a s rule: act.induct)
  case (1 t n s)
  then show ?case using mpmc_step.push_call [of s t n] by (auto split: if_splits)
next
  case (3 t s)
  then show ?case using mpmc_step.push_load [of s t]
    by (cases "threads s t") (auto intro: mpmc_step.intros split: if_splits ptr.splits)
qed (auto intro: mpmc_step.pop_call split: if_splits)

lemma acts_run: "acts as s = Some (es, s') \<Longrightarrow> mpmc_run s es s'"
proof (induction as s arbitrary: es s' rule: acts.induct)
  case (2 a as s)
  then obtain es1 s1 es2 where 1: "act a s = Some (es1, s1)" "acts as s1 = Some (es2, s')" "es = es1 @ es2"
    by (auto split: option.splits)
  then show ?case using mpmc_run_prepend [OF act_step [OF 1(1)] "2.IH" [OF 1(1) refl 1(2)]] by simp
qed (simp add: mpmc_run.run_start)

text \<open>Thread 1 pops the node of thread 0 while thread 0 is inside its second push, which must then retry.\<close>

definition sample_actions :: "(nat, nat) action list" where
  "sample_actions =
     [Start_push 0 5, Next 0, Next 0, Next 0, Start_push 0 6, Next 0, Next 0,
      Start_pop 1, Next 1, Next 1, Next 1, Next 0]"

definition sample_stack :: "(nat, nat) mpmc" where
  "sample_stack = snd (the (acts sample_actions (new_stack (\<lambda>n. Some 0))))"

lemma sample_stack_run:
  "mpmc_run (new_stack (\<lambda>n. Some 0)) [Pushed 0 5 True, Popped 1 5] sample_stack"
proof -
  have "acts sample_actions (new_stack (\<lambda>n. Some 0)) = Some ([Pushed 0 5 True, Popped 1 5], sample_stack)"
    unfolding sample_stack_def by (simp add: sample_actions_def new_stack_def pop_loaded_def)
  then show ?thesis by (rule acts_run)
qed

lemma sample_stack_threads: "threads sample_stack 0 = Push_link 6 \<lparr>next_ptr = Tail, aba_counter = 1\<rparr>"
  by (simp add: sample_stack_def sample_actions_def new_stack_def pop_loaded_def)

theorem mpmc_refines_stack_witness:
  "\<exists>st. spec_run [Pushed (0 :: nat) 5 True, Popped 1 5] [] = Some st \<and>
     path (intr_ptr sample_stack) (next_ptr (stack_head sample_stack)) st Tail \<and>
     distinct st \<and> (\<forall>t. threads sample_stack t \<noteq> Abort)"
  by (rule mpmc_refines_stack [OF sample_stack_run]) simp


end
