(* ===== verification/IntrusiveStack.thy ===== *)
theory IntrusiveStack
  imports MpmcStack
begin

section \<open>The intrusive stack of chains: \<open>AtomicIntrusiveStack\<close> (ase/atomics.hh)\<close>

text \<open>
  Producers push whole chains of nodes, a consumer takes everything at once and may reverse it into the
  order of the pushes.  Steps are single atomic operations as for \<open>MpmcStack\<close>; the
  compare-and-exchange is the strong one.  A chain is written as the list of its nodes, from \<open>first\<close> to
  \<open>last\<close>; \<open>holder\<close> is the thread that owns a node (the caller of a push, then the thread that popped it).
\<close>

subsection \<open>State and steps\<close>

datatype 'n ipc =
    I_idle
  | I_push_load "'n list"
  | I_push_link "'n list" "'n ptr"
  | I_push_cas "'n list" "'n ptr"
  | I_pop_load
  | I_pop_cas "'n ptr"

record ('t, 'n) istack =
  top :: "'n ptr"
  next_of :: "'n \<Rightarrow> 'n ptr"
  ithreads :: "'t \<Rightarrow> 'n ipc"
  holder :: "'n \<Rightarrow> 't option"

definition new_istack :: "('n \<Rightarrow> 'n ptr) \<Rightarrow> ('n \<Rightarrow> 't option) \<Rightarrow> ('t, 'n) istack" where
  "new_istack nx own = \<lparr>top = Nullptr, next_of = nx, ithreads = \<lambda>_. I_idle, holder = own\<rparr>"

definition istack_empty :: "('t, 'n) istack \<Rightarrow> bool" where
  "istack_empty s \<longleftrightarrow> top s = Nullptr"

definition set_ipc :: "'t \<Rightarrow> 'n ipc \<Rightarrow> ('t, 'n) istack \<Rightarrow> ('t, 'n) istack" where
  "set_ipc t c s = s\<lparr>ithreads := (ithreads s)(t := c)\<rparr>"

text \<open>The nodes of a chain from \<open>first\<close> up to \<open>last\<close>; the pointer of \<open>last\<close> is not looked at.\<close>

definition chain :: "('n \<Rightarrow> 'n ptr) \<Rightarrow> 'n list \<Rightarrow> bool" where
  "chain nx ns \<longleftrightarrow> ns \<noteq> [] \<and> distinct ns \<and> path nx (Node (hd ns)) (butlast ns) (Node (last ns))"

datatype ('t, 'n) ievent = Chain_pushed 't "'n list" bool | All_popped 't "'n list"

definition give :: "'t option \<Rightarrow> 'n list \<Rightarrow> ('n \<Rightarrow> 't option) \<Rightarrow> 'n \<Rightarrow> 't option" where
  "give w ns h = (\<lambda>n. if n \<in> set ns then w else h n)"

text \<open>
  \<open>push_chain\<close> returns \<open>false\<close> at once when the chain is not terminated (the assertion); \<open>pop_all\<close> returns
  \<open>nullptr\<close> at once when it loads \<open>nullptr\<close>.
\<close>

definition ipop_loaded :: "'t \<Rightarrow> ('t, 'n) istack \<Rightarrow> ('t, 'n) ievent list \<times> ('t, 'n) istack" where
  "ipop_loaded t s =
     (if top s = Nullptr then ([All_popped t []], set_ipc t I_idle s) else ([], set_ipc t (I_pop_cas (top s)) s))"

inductive istep :: "('t, 'n) istack \<Rightarrow> ('t, 'n) ievent list \<Rightarrow> ('t, 'n) istack \<Rightarrow> bool" where
  ipush_call: "ithreads s t = I_idle \<Longrightarrow> chain (next_of s) ns \<Longrightarrow> (\<forall>n\<in>set ns. holder s n = Some t) \<Longrightarrow>
     istep s [] (set_ipc t (if next_of s (last ns) \<noteq> Nullptr then I_idle else I_push_load ns) s)"
| ipush_load: "ithreads s t = I_push_load ns \<Longrightarrow> istep s [] (set_ipc t (I_push_link ns (top s)) s)"
| ipush_link: "ithreads s t = I_push_link ns exchange \<Longrightarrow>
     istep s [] (set_ipc t (I_push_cas ns exchange) (s\<lparr>next_of := (next_of s)(last ns := exchange)\<rparr>))"
| ipush_cas: "ithreads s t = I_push_cas ns exchange \<Longrightarrow> top s = exchange \<Longrightarrow>
     istep s [Chain_pushed t ns (exchange = Nullptr)]
       (set_ipc t I_idle (s\<lparr>top := Node (hd ns), holder := give None ns (holder s)\<rparr>))"
| ipush_fail: "ithreads s t = I_push_cas ns exchange \<Longrightarrow> top s \<noteq> exchange \<Longrightarrow>
     istep s [] (set_ipc t (I_push_link ns (top s)) s)"
| ipop_call: "ithreads s t = I_idle \<Longrightarrow> istep s [] (set_ipc t I_pop_load s)"
| ipop_load: "ithreads s t = I_pop_load \<Longrightarrow> ipop_loaded t s = (es, s') \<Longrightarrow> istep s es s'"
| ipop_fail: "ithreads s t = I_pop_cas exchange \<Longrightarrow> top s \<noteq> exchange \<Longrightarrow>
     ipop_loaded t s = (es, s') \<Longrightarrow> istep s es s'"
| ipop_cas: "ithreads s t = I_pop_cas exchange \<Longrightarrow> top s = exchange \<Longrightarrow> path (next_of s) exchange ns Nullptr \<Longrightarrow>
     istep s [All_popped t ns] (set_ipc t I_idle (s\<lparr>top := Nullptr, holder := give (Some t) ns (holder s)\<rparr>))"

inductive irun :: "('t, 'n) istack \<Rightarrow> ('t, 'n) ievent list \<Rightarrow> ('t, 'n) istack \<Rightarrow> bool" where
  irun_start: "irun s [] s"
| irun_step: "irun s es s' \<Longrightarrow> istep s' fs s'' \<Longrightarrow> irun s (es @ fs) s''"

text \<open>The loop of \<open>pop_reversed\<close> on the nodes that \<open>pop_all\<close> returned.\<close>

partial_function (option) reverse_loop :: "'n ptr \<Rightarrow> 'n ptr \<Rightarrow> ('n \<Rightarrow> 'n ptr) \<Rightarrow> ('n ptr \<times> ('n \<Rightarrow> 'n ptr)) option" where
  "reverse_loop current prev nx =
     (case current of
        Node el \<Rightarrow> reverse_loop (nx el) (Node el) (nx(el := prev))
      | _ \<Rightarrow> Some (prev, nx))"

subsection \<open>The atomic stack of chains\<close>

fun ispec :: "('t, 'n) ievent \<Rightarrow> 'n list \<Rightarrow> 'n list option" where
  "ispec (Chain_pushed t ns e) st = (if e = (st = []) then Some (ns @ st) else None)"
| "ispec (All_popped t ns) st = (if st = ns then Some [] else None)"

fun ispec_run :: "('t, 'n) ievent list \<Rightarrow> 'n list \<Rightarrow> 'n list option" where
  "ispec_run [] st = Some st"
| "ispec_run (e # es) st = Option.bind (ispec e st) (ispec_run es)"

lemma ispec_run_append: "ispec_run (es @ fs) st = Option.bind (ispec_run es st) (ispec_run fs)"
  by (induction es arbitrary: st) (auto split: Option.bind_split)

text \<open>What was pushed, last node of a chain first, and what consumers got by reversing each \<open>pop_all\<close>.\<close>

fun pushed_nodes :: "('t, 'n) ievent list \<Rightarrow> 'n list" where
  "pushed_nodes [] = []"
| "pushed_nodes (Chain_pushed t ns e # es) = rev ns @ pushed_nodes es"
| "pushed_nodes (All_popped t ns # es) = pushed_nodes es"

fun reversed_pops :: "('t, 'n) ievent list \<Rightarrow> 'n list" where
  "reversed_pops [] = []"
| "reversed_pops (Chain_pushed t ns e # es) = reversed_pops es"
| "reversed_pops (All_popped t ns # es) = rev ns @ reversed_pops es"

lemma ispec_fifo: "ispec_run es st = Some st' \<Longrightarrow> rev st @ pushed_nodes es = reversed_pops es @ rev st'"
proof (induction es arbitrary: st)
  case (Cons e es)
  then show ?case by (cases e) (fastforce split: if_splits)+
qed simp

subsection \<open>The invariant\<close>

lemma path_cong: "(\<And>n. n \<in> set ns \<Longrightarrow> h n = g n) \<Longrightarrow> path h p ns q = path g p ns q"
  by (induction ns arbitrary: p) auto

lemma path_nullptr_unique: "path h p ns Nullptr \<Longrightarrow> path h p ms Nullptr \<Longrightarrow> ns = ms"
proof (induction ns arbitrary: p ms)
  case (Cons n ns)
  then show ?case by (cases ms) auto
qed simp

lemma chain_upd [simp]: "m \<notin> set ns \<Longrightarrow> chain (h(m := p)) ns = chain h ns"
  unfolding chain_def by (metis in_set_butlastD path_upd)

lemma chain_upd_last:
  assumes "chain h ns"
  shows "chain (h(last ns := p)) ns"
proof -
  have "distinct (butlast ns @ [last ns])" using assms by (simp add: chain_def)
  then have "last ns \<notin> set (butlast ns)" by simp
  then show ?thesis using assms by (simp add: chain_def)
qed

lemma chain_path: "chain h ns \<Longrightarrow> path h (h (last ns)) ms q \<Longrightarrow> path h (Node (hd ns)) (ns @ ms) q"
proof -
  assume c: "chain h ns" and p: "path h (h (last ns)) ms q"
  then have "path h (Node (hd ns)) (butlast ns @ [last ns]) (h (last ns))"
    unfolding path_append chain_def by auto
  then have "path h (Node (hd ns)) ns (h (last ns))" using c by (simp add: chain_def)
  then show ?thesis using p unfolding path_append by blast
qed

fun ipc_ok :: "('t, 'n) istack \<Rightarrow> 't \<Rightarrow> 'n ipc \<Rightarrow> bool" where
  "ipc_ok s t I_idle = True"
| "ipc_ok s t (I_push_load ns) = (chain (next_of s) ns \<and> (\<forall>n\<in>set ns. holder s n = Some t))"
| "ipc_ok s t (I_push_link ns exchange) = (chain (next_of s) ns \<and> (\<forall>n\<in>set ns. holder s n = Some t))"
| "ipc_ok s t (I_push_cas ns exchange) =
     (chain (next_of s) ns \<and> (\<forall>n\<in>set ns. holder s n = Some t) \<and> next_of s (last ns) = exchange)"
| "ipc_ok s t I_pop_load = True"
| "ipc_ok s t (I_pop_cas exchange) = (exchange \<noteq> Nullptr)"

definition istack_inv :: "('t, 'n) istack \<Rightarrow> 'n list \<Rightarrow> bool" where
  "istack_inv s st \<longleftrightarrow>
     path (next_of s) (top s) st Nullptr \<and> distinct st \<and> (\<forall>m\<in>set st. holder s m = None) \<and>
     (\<forall>t. ipc_ok s t (ithreads s t))"

lemma set_ipc_simps [simp]:
  "top (set_ipc t c s) = top s" "next_of (set_ipc t c s) = next_of s"
  "holder (set_ipc t c s) = holder s" "ithreads (set_ipc t c s) = (ithreads s)(t := c)"
  by (simp_all add: set_ipc_def)

lemma ipc_ok_set_ipc [simp]: "ipc_ok (set_ipc t c s) u d = ipc_ok s u d"
  by (cases d) auto

lemma inv_set_ipc: "istack_inv s st \<Longrightarrow> ipc_ok s t c \<Longrightarrow> istack_inv (set_ipc t c s) st"
  by (auto simp: istack_inv_def)

lemma ipcD: "istack_inv s st \<Longrightarrow> ithreads s t = c \<Longrightarrow> ipc_ok s t c"
  by (auto simp: istack_inv_def)

lemma ipc_ok_link:
  assumes "ipc_ok s u d" and "holder s m = Some t" and "u \<noteq> t"
  shows "ipc_ok (s\<lparr>next_of := (next_of s)(m := p)\<rparr>) u d"
proof -
  have "m \<notin> set ns" if "\<forall>n\<in>set ns. holder s n = Some u" for ns using assms(2,3) that by auto
  moreover have "last ns \<noteq> m" if "\<forall>n\<in>set ns. holder s n = Some u" "chain (next_of s) ns" for ns
    using assms(2,3) that by (auto simp: chain_def)
  ultimately show ?thesis using assms(1) by (cases d) auto
qed

lemma ipc_ok_give:
  assumes "ipc_ok s u d" and "\<forall>n\<in>set ns. holder s n \<noteq> Some u"
  shows "ipc_ok (s\<lparr>top := p, holder := give w ns (holder s)\<rparr>) u d"
  using assms by (cases d) (auto simp: give_def)

definition irefines :: "('n list \<Rightarrow> bool) \<Rightarrow> ('t, 'n) ievent list \<Rightarrow> 'n list \<Rightarrow> bool" where
  "irefines J es st \<longleftrightarrow> (\<exists>st'. ispec_run es st = Some st' \<and> J st')"

lemma irefines_silent: "J st \<Longrightarrow> irefines J [] st"
  by (simp add: irefines_def)

lemma ipop_loaded_refines:
  assumes inv: "istack_inv s st" and l: "ipop_loaded t s = (es, s')"
  shows "irefines (istack_inv s') es st"
proof (cases st)
  case Nil
  then have "top s = Nullptr" using inv by (simp add: istack_inv_def)
  then show ?thesis using l Nil inv_set_ipc [OF inv, of t I_idle] by (auto simp: ipop_loaded_def irefines_def)
next
  case (Cons m ms)
  then have "top s \<noteq> Nullptr" using inv by (simp add: istack_inv_def)
  then show ?thesis
    using l inv_set_ipc [OF inv, of t "I_pop_cas (top s)"] by (auto simp: ipop_loaded_def intro!: irefines_silent)
qed

lemma inv_ipush_link:
  assumes inv: "istack_inv s st" and pc: "ithreads s t = I_push_link ns exchange"
  shows "istack_inv (set_ipc t (I_push_cas ns exchange) (s\<lparr>next_of := (next_of s)(last ns := exchange)\<rparr>)) st"
proof -
  have c: "chain (next_of s) ns" "\<forall>n\<in>set ns. holder s n = Some t" using ipcD [OF inv pc] by simp_all
  then have o: "holder s (last ns) = Some t" by (auto simp: chain_def)
  then have "last ns \<notin> set st" using inv by (auto simp: istack_inv_def)
  moreover have "ipc_ok (s\<lparr>next_of := (next_of s)(last ns := exchange)\<rparr>) u (ithreads s u)" if "u \<noteq> t" for u
    by (rule ipc_ok_link [OF _ o that]) (use inv in \<open>simp add: istack_inv_def\<close>)
  ultimately show ?thesis using inv c chain_upd_last [OF c(1)] by (auto simp: istack_inv_def)
qed

lemma inv_ipush_cas:
  assumes inv: "istack_inv s st" and pc: "ithreads s t = I_push_cas ns (top s)"
  shows "istack_inv (set_ipc t I_idle (s\<lparr>top := Node (hd ns), holder := give None ns (holder s)\<rparr>)) (ns @ st)"
    and "st = [] \<longleftrightarrow> top s = Nullptr"
proof -
  have c: "chain (next_of s) ns" "\<forall>n\<in>set ns. holder s n = Some t" "next_of s (last ns) = top s"
    using ipcD [OF inv pc] by simp_all
  have p: "path (next_of s) (top s) st Nullptr" using inv by (simp add: istack_inv_def)
  then show "st = [] \<longleftrightarrow> top s = Nullptr" by (cases st) auto
  have "path (next_of s) (Node (hd ns)) (ns @ st) Nullptr" using chain_path [OF c(1)] p c(3) by simp
  moreover have "distinct (ns @ st)" using c inv by (auto simp: istack_inv_def chain_def)
  moreover have "ipc_ok (s\<lparr>top := Node (hd ns), holder := give None ns (holder s)\<rparr>) u (ithreads s u)" if "u \<noteq> t" for u
    by (rule ipc_ok_give) (use inv c(2) that in \<open>auto simp: istack_inv_def\<close>)
  ultimately show "istack_inv (set_ipc t I_idle (s\<lparr>top := Node (hd ns), holder := give None ns (holder s)\<rparr>)) (ns @ st)"
    using inv by (auto simp: istack_inv_def give_def)
qed

lemma istep_refines:
  assumes "istep s es s'" and inv: "istack_inv s st"
  shows "irefines (istack_inv s') es st"
  using assms(1)
proof cases
  case (ipush_call t ns)
  then show ?thesis by (auto intro!: irefines_silent inv_set_ipc [OF inv])
next
  case (ipush_load t ns)
  then show ?thesis using ipcD [OF inv ipush_load(3)] by (auto intro!: irefines_silent inv_set_ipc [OF inv])
next
  case (ipush_link t ns exchange)
  then show ?thesis using inv_ipush_link [OF inv] by (auto intro!: irefines_silent)
next
  case (ipush_cas t ns exchange)
  then show ?thesis using inv_ipush_cas [OF inv, of t ns] by (auto simp: irefines_def)
next
  case (ipush_fail t ns exchange)
  then show ?thesis using ipcD [OF inv ipush_fail(3)] by (auto intro!: irefines_silent inv_set_ipc [OF inv])
next
  case (ipop_call t)
  then show ?thesis by (auto intro!: irefines_silent inv_set_ipc [OF inv])
next
  case (ipop_load t)
  then show ?thesis using ipop_loaded_refines [OF inv] by simp
next
  case (ipop_fail t exchange)
  then show ?thesis using ipop_loaded_refines [OF inv] by simp
next
  case (ipop_cas t exchange ns)
  have "ns = st" using ipop_cas(4,5) inv path_nullptr_unique by (auto simp: istack_inv_def)
  moreover have "ipc_ok (s\<lparr>top := Nullptr, holder := give (Some t) st (holder s)\<rparr>) u (ithreads s u)" for u
    by (rule ipc_ok_give) (use inv in \<open>auto simp: istack_inv_def\<close>)
  ultimately show ?thesis using ipop_cas inv by (auto simp: irefines_def istack_inv_def)
qed

lemma irun_refines:
  "irun s es s' \<Longrightarrow> istack_inv s st \<Longrightarrow> irefines (istack_inv s') es st"
proof (induction rule: irun.induct)
  case (irun_step s es s' fs s'')
  then obtain st' where "ispec_run es st = Some st'" "istack_inv s' st'" by (auto simp: irefines_def)
  then show ?case using istep_refines [OF irun_step.hyps(2)] by (auto simp: irefines_def ispec_run_append)
qed (simp add: irefines_silent)

lemma new_istack_inv: "istack_inv (new_istack nx own) []"
  by (simp add: istack_inv_def new_istack_def)

text \<open>The guard of \<open>pop_cas\<close> can always be met: the nodes from the head are a finite list.\<close>

lemma ipop_cas_enabled: "istack_inv s st \<Longrightarrow> \<exists>ns. path (next_of s) (top s) ns Nullptr"
  by (auto simp: istack_inv_def)

subsection \<open>\<open>pop_reversed\<close>\<close>

lemma reverse_loop_path:
  "path nx current ns Nullptr \<Longrightarrow> path nx prev ms Nullptr \<Longrightarrow> distinct (ns @ ms) \<Longrightarrow>
     \<exists>q nx'. reverse_loop current prev nx = Some (q, nx') \<and> path nx' q (rev ns @ ms) Nullptr \<and>
       (\<forall>n. n \<notin> set ns \<longrightarrow> nx' n = nx n)"
proof (induction ns arbitrary: current prev ms nx)
  case (Cons n ns)
  then have p: "current = Node n" "path nx (nx n) ns Nullptr" by auto
  let ?nx = "nx(n := prev)"
  have "path ?nx (nx n) ns Nullptr" "path ?nx (Node n) (n # ms) Nullptr" "distinct (ns @ n # ms)"
    using Cons.prems p(2) by simp_all
  from Cons.IH [OF this] obtain q nx' where
    q: "reverse_loop (nx n) (Node n) ?nx = Some (q, nx')" "path nx' q (rev ns @ n # ms) Nullptr"
      "\<forall>m. m \<notin> set ns \<longrightarrow> nx' m = ?nx m" by blast
  have "reverse_loop current prev nx = Some (q, nx')" using q(1) by (subst reverse_loop.simps) (simp add: p(1))
  then show ?case using q(2,3) by auto
qed (simp add: reverse_loop.simps)


text \<open>Thread 0 pushes one node, thread 1 takes it.\<close>

lemma sample_irun:
  obtains s where "irun (new_istack (\<lambda>_. Nullptr) (\<lambda>_. Some 0)) [Chain_pushed 0 [7 :: nat] True, All_popped (1 :: nat) [7]] s"
proof -
  define s0 :: "(nat, nat) istack" where "s0 = new_istack (\<lambda>_. Nullptr) (\<lambda>_. Some 0)"
  define s1 where "s1 = set_ipc 0 (I_push_load [7]) s0"
  define s2 where "s2 = set_ipc 0 (I_push_link [7] Nullptr) s1"
  define s3 where "s3 = set_ipc 0 (I_push_cas [7] Nullptr) (s2\<lparr>next_of := (next_of s2)(7 := Nullptr)\<rparr>)"
  define s4 where "s4 = set_ipc 0 I_idle (s3\<lparr>top := Node 7, holder := give None [7] (holder s3)\<rparr>)"
  define s5 where "s5 = set_ipc 1 I_pop_load s4"
  define s6 where "s6 = set_ipc 1 (I_pop_cas (Node 7)) s5"
  define s7 where "s7 = set_ipc 1 I_idle (s6\<lparr>top := Nullptr, holder := give (Some 1) [7] (holder s6)\<rparr>)"
  note d = s0_def s1_def s2_def s3_def s4_def s5_def s6_def s7_def new_istack_def chain_def
  have i1: "istep s0 [] s1" using ipush_call [of s0 0 "[7]"] by (simp add: d)
  have i2: "istep s1 [] s2" using ipush_load [of s1 0 "[7]"] by (simp add: d)
  have i3: "istep s2 [] s3" using ipush_link [of s2 0 "[7]" Nullptr] by (simp add: d)
  have i4: "istep s3 [Chain_pushed 0 [7] True] s4" using ipush_cas [of s3 0 "[7]" Nullptr] by (simp add: d)
  have i5: "istep s4 [] s5" using ipop_call [of s4 1] by (simp add: d)
  have i6: "istep s5 [] s6" using ipop_load [of s5 1 "[]" s6] by (simp add: d ipop_loaded_def)
  have i7: "istep s6 [All_popped 1 [7]] s7" using ipop_cas [of s6 1 "Node 7" "[7]"] by (simp add: d)
  note r4 = irun_step [OF irun_step [OF irun_step [OF irun_step [OF irun_start i1] i2] i3] i4]
  have "irun s0 [Chain_pushed 0 [7] True, All_popped 1 [7]] s7"
    using irun_step [OF irun_step [OF irun_step [OF r4 i5] i6] i7] by simp
  then show ?thesis using that by (simp add: s0_def)
qed


text \<open>
  \<open>pop_reversed\<close> ends and links exactly the popped nodes in reverse order, and writes to no other
  node.
\<close>

theorem pop_reversed_correct:
  assumes "path nx p ns Nullptr" and "distinct ns"
  shows "\<exists>q nx'. reverse_loop p Nullptr nx = Some (q, nx') \<and> path nx' q (rev ns) Nullptr \<and>
    (\<forall>n. n \<notin> set ns \<longrightarrow> nx' n = nx n)"
  using reverse_loop_path [of nx p ns Nullptr "[]"] assms by simp

theorem pop_reversed_correct_witness:
  "\<exists>q nx'. reverse_loop (Node 1) Nullptr ((\<lambda>_. Nullptr)(1 := Node 2, 2 := Node (3 :: nat))) = Some (q, nx') \<and>
     path nx' q [3, 2, 1] Nullptr"
  using pop_reversed_correct [of "(\<lambda>_. Nullptr)(1 := Node 2, 2 := Node (3 :: nat))" "Node 1" "[1, 2, 3]"] by auto

end
