(* ===== verification/AtomicBits.thy ===== *)
theory AtomicBits
  imports Prelude
begin

section \<open>Vectors of atomic bits: \<open>AtomicBits\<close> (ase/atomics.hh)\<close>

text \<open>
  The bits live in 64 bit blocks; every operation is one atomic read or read-modify-write of one block, so
  it is a function on the list of blocks.  A block access out of range is \<open>None\<close>, and so is a failed
  assertion's early return, which leaves the blocks alone.
\<close>

subsection \<open>Blocks and iterators\<close>

type_synonym bits = "u64 list"

record bit_iter =
  atomics :: bool
  u_pos :: nat
  s_pos :: nat

definition new_bits :: "nat \<Rightarrow> bits" where
  "new_bits nbits = replicate ((nbits + 63) div 64) 0"

definition usize :: "bits \<Rightarrow> nat" where "usize b = length b"
definition bits_size :: "bits \<Rightarrow> nat" where "bits_size b = 64 * usize b"

definition u64_at :: "bits \<Rightarrow> nat \<Rightarrow> u64 option" where
  "u64_at b upos = (if upos < length b then Some (b ! upos) else None)"

definition bits_iter :: "nat \<Rightarrow> bit_iter" where
  "bits_iter pos = \<lparr>atomics = True, u_pos = pos div 64, s_pos = pos mod 64\<rparr>"

definition bits_end :: bit_iter where
  "bits_end = \<lparr>atomics = False, u_pos = 2 ^ 64 - 1, s_pos = 0\<rparr>"

definition position :: "bit_iter \<Rightarrow> nat" where
  "position i = u_pos i + s_pos i"

definition iter_valid :: "bits \<Rightarrow> bit_iter \<Rightarrow> bool" where
  "iter_valid b i \<longleftrightarrow> atomics i \<and> u_pos i < usize b"

definition iter_done :: "bits \<Rightarrow> bit_iter \<Rightarrow> bool" where
  "iter_done b i \<longleftrightarrow> \<not> iter_valid b i"

definition iter_eq :: "bits \<Rightarrow> bit_iter \<Rightarrow> bit_iter \<Rightarrow> bool" where
  "iter_eq b i j \<longleftrightarrow> iter_done b i \<and> iter_done b j \<or> position i = position j"

definition bit_mask :: "bit_iter \<Rightarrow> u64" where
  "bit_mask i = push_bit (s_pos i) 1"

definition iter_is_set :: "bits \<Rightarrow> bit_iter \<Rightarrow> bool" where
  "iter_is_set b i \<longleftrightarrow> iter_valid b i \<and> b ! u_pos i AND bit_mask i \<noteq> 0"

subsection \<open>Reading and writing bits\<close>

text \<open>
  The modifying operations return the result and the blocks.  \<open>set\<close> and \<open>xor_\<close> return the block before
  the change, converted to \<open>bool\<close>.
\<close>

definition iter_set :: "bool \<Rightarrow> bit_iter \<Rightarrow> bits \<Rightarrow> bool \<times> bits" where
  "iter_set toggle i b =
     (if iter_done b i then (False, b)
      else
        let u = b ! u_pos i in
        (u \<noteq> 0, b[u_pos i := (if toggle then u OR bit_mask i else u AND NOT (bit_mask i))]))"

definition iter_clear :: "bit_iter \<Rightarrow> bits \<Rightarrow> bool \<times> bits" where
  "iter_clear i b =
     (if iter_valid b i \<and> b ! u_pos i AND bit_mask i = 0 then (False, b) else iter_set False i b)"

definition iter_xor :: "bool \<Rightarrow> bit_iter \<Rightarrow> bits \<Rightarrow> bool \<times> bits" where
  "iter_xor toggle i b =
     (if iter_done b i then (False, b)
      else let u = b ! u_pos i in (u \<noteq> 0, b[u_pos i := u XOR (if toggle then bit_mask i else 0)]))"

definition iter_or :: "bool \<Rightarrow> bit_iter \<Rightarrow> bits \<Rightarrow> bits" where
  "iter_or toggle i b = (if toggle then snd (iter_set True i b) else b)"

definition iter_and :: "bool \<Rightarrow> bit_iter \<Rightarrow> bits \<Rightarrow> bits" where
  "iter_and toggle i b = (if \<not> toggle then snd (iter_set False i b) else b)"

definition bits_set :: "nat \<Rightarrow> bool \<Rightarrow> bits \<Rightarrow> bool \<times> bits" where
  "bits_set pos toggle b = iter_set toggle (bits_iter pos) b"

definition bits_get :: "bits \<Rightarrow> nat \<Rightarrow> bool" where
  "bits_get b pos = iter_is_set b (bits_iter pos)"

definition bits_all :: "bool \<Rightarrow> bits \<Rightarrow> bool" where
  "bits_all toggle b = list_all (\<lambda>u. u = (if toggle then NOT 0 else 0)) b"

definition bits_any :: "bool \<Rightarrow> bits \<Rightarrow> bool" where
  "bits_any toggle b = (if toggle then list_ex (\<lambda>u. u \<noteq> 0) b else list_ex (\<lambda>u. u \<noteq> NOT 0) b)"

subsection \<open>Moving an iterator\<close>

definition iter_inc :: "bits \<Rightarrow> bit_iter \<Rightarrow> bit_iter" where
  "iter_inc b i =
     (if \<not> iter_done b i
      then let s = (s_pos i + 1) mod 64 in i\<lparr>s_pos := s, u_pos := u_pos i + (if s = 0 then 1 else 0)\<rparr>
      else i)"

text \<open>
  The loop of \<open>big_inc1\<close> tests the block before its index: it reads block \<open>usize()\<close> when no block follows.
\<close>

function skip_blocks :: "bits \<Rightarrow> nat \<Rightarrow> nat option" where
  "skip_blocks b u =
     (case u64_at b u of
        None \<Rightarrow> None
      | Some w \<Rightarrow> if w = 0 \<and> u < usize b then skip_blocks b (Suc u) else Some u)"
  by pat_completeness auto
termination
  by (relation "measure (\<lambda>(b, u). length b - u)") (auto simp: usize_def)

declare skip_blocks.simps [simp del]

definition big_inc1 :: "bits \<Rightarrow> bit_iter \<Rightarrow> bit_iter option" where
  "big_inc1 b i =
     (if \<not> iter_valid b i then Some i
      else if b ! u_pos i \<noteq> 0 then Some (iter_inc b i)
      else map_option (\<lambda>u. i\<lparr>s_pos := 0, u_pos := u\<rparr>) (skip_blocks b (Suc (u_pos i))))"

subsection \<open>Bits by index\<close>

definition bit_pos :: "bit_iter \<Rightarrow> nat" where
  "bit_pos i = 64 * u_pos i + s_pos i"

lemma bits_iter_pos [simp]: "bit_pos (bits_iter n) = n"
  by (simp add: bit_pos_def bits_iter_def)

lemma bits_get_bit: "bits_get b n \<longleftrightarrow> n < bits_size b \<and> bit (b ! (n div 64)) (n mod 64)"
  by (auto simp: bits_get_def iter_is_set_def iter_valid_def bits_iter_def bit_mask_def bits_size_def usize_def
      bit_iff_and_push_bit_not_eq_0 less_mult_imp_div_less)

lemma bits_iter_valid: "iter_valid b (bits_iter n) \<longleftrightarrow> n < bits_size b"
  by (auto simp: iter_valid_def bits_iter_def bits_size_def usize_def less_mult_imp_div_less)

lemma bits_get_mod: "m mod 64 < 64" for m :: nat
  by simp

lemma div_mod_eq: "m div 64 = n div 64 \<Longrightarrow> m mod 64 = n mod 64 \<Longrightarrow> m = n" for m n :: nat
  by (metis div_mult_mod_eq)

definition put_block :: "nat \<Rightarrow> u64 \<Rightarrow> bits \<Rightarrow> bits" where
  "put_block m u b = b[m div 64 := u]"

lemma put_block_get:
  assumes "m < bits_size b" and "n < bits_size b"
    and "\<And>k. k < 64 \<Longrightarrow> bit u k = (if k = m mod 64 then v else bit (b ! (m div 64)) k)"
  shows "bits_get (put_block m u b) n = (if n = m then v else bits_get b n)"
proof -
  have l: "m div 64 < length b" "n div 64 < length b" using assms(1,2) by (simp_all add: bits_size_def usize_def less_mult_imp_div_less)
  have g: "bits_get (put_block m u b) n \<longleftrightarrow> bit (if n div 64 = m div 64 then u else b ! (n div 64)) (n mod 64)"
    using assms(1,2) l by (simp add: bits_get_bit put_block_def bits_size_def usize_def nth_list_update)
  show ?thesis
  proof (cases "n div 64 = m div 64")
    case True
    then show ?thesis
      using g assms(2) assms(3) [OF bits_get_mod [of n]] div_mod_eq [OF True] by (auto simp: bits_get_bit)
  next
    case False
    then show ?thesis using g assms(2) by (auto simp: bits_get_bit)
  qed
qed

lemma bits_set_put:
  "m < bits_size b \<Longrightarrow> snd (bits_set m toggle b) =
     put_block m (if toggle then b ! (m div 64) OR push_bit (m mod 64) 1
                  else b ! (m div 64) AND NOT (push_bit (m mod 64) 1)) b"
  unfolding bits_set_def iter_set_def iter_done_def bits_iter_valid
  by (simp add: Let_def bits_iter_def bit_mask_def put_block_def)

lemma bits_set_get:
  assumes "m < bits_size b" and "n < bits_size b"
  shows "bits_get (snd (bits_set m toggle b)) n = (if n = m then toggle else bits_get b n)"
  unfolding bits_set_put [OF assms(1)]
  by (rule put_block_get [OF assms]) (auto simp: bit_or_iff bit_and_iff bit_not_iff bit_exp_iff bit_push_bit_iff)

lemma bits_xor_get:
  assumes "m < bits_size b" and "n < bits_size b"
  shows "bits_get (snd (iter_xor toggle (bits_iter m) b)) n = (if n = m then bits_get b n \<noteq> toggle else bits_get b n)"
proof -
  have "snd (iter_xor toggle (bits_iter m) b) =
      put_block m (b ! (m div 64) XOR (if toggle then push_bit (m mod 64) 1 else 0)) b"
    using assms(1) unfolding iter_xor_def iter_done_def bits_iter_valid
    by (simp add: Let_def bits_iter_def bit_mask_def put_block_def)
  moreover have "bits_get (put_block m (b ! (m div 64) XOR (if toggle then push_bit (m mod 64) 1 else 0)) b) n =
      (if n = m then bits_get b m \<noteq> toggle else bits_get b n)"
    by (rule put_block_get [OF assms])
      (use assms(1) in \<open>auto simp: bits_get_bit bit_xor_iff bit_exp_iff\<close>)
  ultimately show ?thesis by simp
qed

lemma bits_get_new: "\<not> bits_get (new_bits n) m"
  unfolding bits_get_bit by (auto simp: new_bits_def bits_size_def usize_def less_mult_imp_div_less)

lemma bits_get_block: "u < usize b \<Longrightarrow> s < 64 \<Longrightarrow> bits_get b (64 * u + s) \<longleftrightarrow> bit (b ! u) s"
  by (simp add: bits_get_bit bits_size_def usize_def)

lemma block_zero: "b ! u = 0 \<Longrightarrow> u < usize b \<Longrightarrow> 64 * u \<le> n \<Longrightarrow> n < 64 * u + 64 \<Longrightarrow> \<not> bits_get b n"
  using bits_get_block [of u b "n - 64 * u"] by simp

subsection \<open>The big increment\<close>

lemma skip_blocks_some:
  "skip_blocks b u = Some v \<Longrightarrow> u \<le> v \<and> v < usize b \<and> b ! v \<noteq> 0 \<and> (\<forall>w. u \<le> w \<and> w < v \<longrightarrow> b ! w = 0)"
proof (induction b u rule: skip_blocks.induct)
  case (1 b u)
  then have u: "u < usize b" by (auto simp: skip_blocks.simps [of b u] u64_at_def usize_def split: if_splits)
  show ?case
  proof (cases "b ! u = 0")
    case True
    then have "skip_blocks b (Suc u) = Some v"
      using "1.prems" u by (simp add: skip_blocks.simps [of b u] u64_at_def usize_def)
    moreover have "u64_at b u = Some 0" using True u by (simp add: u64_at_def usize_def)
    ultimately have IH: "Suc u \<le> v \<and> v < usize b \<and> b ! v \<noteq> 0 \<and> (\<forall>w. Suc u \<le> w \<and> w < v \<longrightarrow> b ! w = 0)"
      using "1.IH" [of 0] u by simp
    then show ?thesis using True by (metis Suc_leD le_antisym not_less_eq_eq)
  next
    case False
    then have "v = u" using "1.prems" u by (simp add: skip_blocks.simps [of b u] u64_at_def usize_def)
    then show ?thesis using False u by auto
  qed
qed

lemma skip_blocks_none: "\<forall>w. u \<le> w \<and> w < usize b \<longrightarrow> b ! w = 0 \<Longrightarrow> skip_blocks b u = None"
proof (induction b u rule: skip_blocks.induct)
  case (1 b u)
  show ?case
  proof (cases "u < usize b")
    case True
    then have "u64_at b u = Some 0" using "1.prems" by (simp add: u64_at_def usize_def)
    then show ?thesis using "1.IH" [of 0] "1.prems" True by (simp add: skip_blocks.simps [of b u])
  next
    case False
    then show ?thesis by (simp add: skip_blocks.simps [of b u] u64_at_def usize_def)
  qed
qed

text \<open>
  From a valid iterator, \<open>big_inc1\<close> never skips a set bit: it moves forward and every bit it passes over
  is clear.
\<close>

theorem big_inc1_skips_clear_bits:
  assumes "iter_valid b i" and "s_pos i < 64" and "big_inc1 b i = Some j"
  shows "bit_pos i < bit_pos j \<and> (\<forall>n. bit_pos i < n \<and> n < bit_pos j \<longrightarrow> \<not> bits_get b n)"
proof (cases "b ! u_pos i = 0")
  case True
  then obtain v where v: "skip_blocks b (Suc (u_pos i)) = Some v" "j = i\<lparr>s_pos := 0, u_pos := v\<rparr>"
    using assms by (auto simp: big_inc1_def)
  note sk = skip_blocks_some [OF v(1)]
  have "\<not> bits_get b n" if n: "bit_pos i < n" "n < bit_pos j" for n
  proof -
    have w: "u_pos i \<le> n div 64" "n div 64 < v" using n v(2) assms(2) by (auto simp: bit_pos_def)
    then have "b ! (n div 64) = 0" using sk True by (metis Suc_leI le_neq_implies_less)
    moreover have "n div 64 < usize b" using w sk by linarith
    ultimately show ?thesis using block_zero [of b "n div 64" n] by linarith
  qed
  then show ?thesis using sk v(2) assms(2) by (auto simp: bit_pos_def)
next
  case False
  then have j: "j = iter_inc b i" using assms by (simp add: big_inc1_def)
  have "bit_pos j = Suc (bit_pos i)"
  proof (cases "s_pos i = 63")
    case False
    then have "(s_pos i + 1) mod 64 = s_pos i + 1" using assms(2) by simp
    then show ?thesis using j assms(1) by (simp add: iter_inc_def iter_done_def bit_pos_def Let_def)
  qed (use j assms(1) in \<open>simp add: iter_inc_def iter_done_def bit_pos_def Let_def\<close>)
  then show ?thesis by auto
qed

theorem big_inc1_skips_clear_bits_witness:
  "big_inc1 [1, 0, 0, 4] (bits_iter 64) = Some (bits_iter 192) \<and>
   (\<forall>n. 64 < n \<and> n < 192 \<longrightarrow> \<not> bits_get [1, 0, 0, 4] n)"
proof -
  have r: "big_inc1 [1, 0, 0, 4] (bits_iter 64) = Some (bits_iter 192)"
    by (simp add: big_inc1_def bits_iter_def iter_valid_def usize_def skip_blocks.simps u64_at_def)
  then show ?thesis
    using big_inc1_skips_clear_bits [OF _ _ r] bits_iter_pos [of 64] bits_iter_pos [of 192]
    by (simp add: bits_iter_def iter_valid_def usize_def del: bits_iter_pos)
qed

text \<open>
  Two defects of the iterator: when no later block has a bit set, \<open>big_inc1\<close> reads the block behind
  the last one; and \<open>position()\<close> adds the block number to the bit number, so the iterators of bit \<open>64\<close> and
  of bit \<open>1\<close> report the same position and compare equal.
\<close>

theorem bit_iter_defects:
  "big_inc1 [0] (bits_iter 0) = None \<and> position (bits_iter 64) = position (bits_iter 1) \<and>
   iter_eq [0, 0] (bits_iter 64) (bits_iter 1)"
  by (simp add: big_inc1_def bits_iter_def iter_valid_def usize_def skip_blocks.simps u64_at_def position_def
      iter_eq_def)

end
