(* ===== verification/Project.thy ===== *)
theory Project
  imports Clip
begin

section \<open>Undo and redo of a project (ase/project.cc, ase/project.hh)\<close>

text \<open>
  \<open>ProjectImpl\<close> keeps one vector of undo functions and one of redo functions.  A scope is an entry with a
  name and no function; the functions pushed after it belong to the scope.  The functions are closures, so
  the model names them: \<open>'f\<close> is a closure and \<open>exec\<close> runs one on the project.  The first part is the code
  for any kind of closure; \<open>undo_client\<close> states what the stacks rely on and shows that undo and redo
  then walk through a history of documents; the last part instantiates it with the closures of clips.
\<close>

subsection \<open>The stacks\<close>

record ('d, 'f) project =
  document :: 'd
  undo_scopes_open :: nat
  undo_groups_open :: nat
  undo_group_name :: string
  undostack :: "('f option \<times> string) list"
  redostack :: "('f option \<times> string) list"
  dirty :: nat

definition new_project :: "'d \<Rightarrow> ('d, 'f) project" where
  "new_project d =
     \<lparr>document = d, undo_scopes_open = 0, undo_groups_open = 0, undo_group_name = [], undostack = [],
      redostack = [], dirty = 0\<rparr>"

text \<open>\<open>dirty\<close> counts the notifications.\<close>

definition emit_dirty :: "('d, 'f) project \<Rightarrow> ('d, 'f) project" where
  "emit_dirty p = p\<lparr>dirty := Suc (dirty p)\<rparr>"

definition open_scope :: "('d, 'f) project \<Rightarrow> ('d, 'f) project" where
  "open_scope p = p\<lparr>undo_scopes_open := Suc (undo_scopes_open p)\<rparr>"

definition close_scope :: "('d, 'f) project \<Rightarrow> ('d, 'f) project" where
  "close_scope p = (if undo_scopes_open p = 0 then p else p\<lparr>undo_scopes_open := undo_scopes_open p - 1\<rparr>)"

definition add_undo_scope :: "string \<Rightarrow> ('d, 'f) project \<Rightarrow> ('d, 'f) project" where
  "add_undo_scope scopename p0 =
     (let p = open_scope p0 in
      if scopename = [] then p
      else if undo_scopes_open p = 1 \<and> (undo_groups_open p = 0 \<or> undo_group_name p \<noteq> [])
      then p\<lparr>undostack := undostack p @ [(None, if undo_group_name p = [] then scopename else undo_group_name p)],
             undo_group_name := []\<rparr>
      else p)"

definition undo_scope :: "string \<Rightarrow> ('d, 'f) project \<Rightarrow> ('d, 'f) project" where
  "undo_scope scopename p =
     (let old_undo = length (undostack p); old_redo = length (redostack p);
          p1 = add_undo_scope scopename p;
          p2 = (if length (undostack p1) > old_undo \<and> redostack p1 \<noteq> [] then p1\<lparr>redostack := []\<rparr> else p1) in
      if (old_undo = 0) \<noteq> (undostack p2 = []) \<or> (old_redo = 0) \<noteq> (redostack p2 = []) then emit_dirty p2 else p2)"

definition push_func :: "'f \<Rightarrow> ('d, 'f) project \<Rightarrow> ('d, 'f) project" where
  "push_func f p0 =
     (let p = p0\<lparr>undostack := undostack p0 @ [(Some f, [])]\<rparr> in
      if length (undostack p) = 1 then emit_dirty p else p)"

text \<open>\<open>undo_scope (name) += func\<close>: the scope object lives until the end of the statement.\<close>

definition scoped_push :: "string \<Rightarrow> 'f \<Rightarrow> ('d, 'f) project \<Rightarrow> ('d, 'f) project" where
  "scoped_push scopename f p = close_scope (push_func f (undo_scope scopename p))"

function pop_funcs :: "('f option \<times> string) list \<Rightarrow> 'f list \<Rightarrow> 'f list \<times> ('f option \<times> string) list" where
  "pop_funcs stack funcs =
     (if stack \<noteq> [] \<and> fst (last stack) \<noteq> None
      then pop_funcs (butlast stack) (funcs @ [the (fst (last stack))])
      else (funcs, stack))"
  by pat_completeness auto
termination
  by (relation "measure (\<lambda>(stack, _). length stack)") auto

declare pop_funcs.simps [simp del]

definition undo :: "('f \<Rightarrow> ('d, 'f) project \<Rightarrow> ('d, 'f) project) \<Rightarrow> ('d, 'f) project \<Rightarrow> ('d, 'f) project" where
  "undo exec p =
     (if \<not> (undo_scopes_open p = 0 \<and> undo_groups_open p = 0) then p
      else if undostack p = [] then p
      else
        let (funcs, stack) = pop_funcs (undostack p) []; p1 = p\<lparr>undostack := stack\<rparr> in
        if stack = [] then p1
        else
          let scopename = snd (last stack); p2 = p1\<lparr>undostack := butlast stack\<rparr>;
              redostack_was_empty = (redostack p2 = []);
              p3 = p2\<lparr>undostack := redostack p2, redostack := undostack p2\<rparr>;
              p4 = close_scope (fold exec funcs (add_undo_scope scopename p3));
              p5 = p4\<lparr>undostack := redostack p4, redostack := undostack p4\<rparr> in
          if redostack_was_empty \<or> undostack p5 = [] then emit_dirty p5 else p5)"

definition redo :: "('f \<Rightarrow> ('d, 'f) project \<Rightarrow> ('d, 'f) project) \<Rightarrow> ('d, 'f) project \<Rightarrow> ('d, 'f) project" where
  "redo exec p =
     (if \<not> (undo_scopes_open p = 0 \<and> undo_groups_open p = 0) then p
      else if redostack p = [] then p
      else
        let (funcs, stack) = pop_funcs (redostack p) []; p1 = p\<lparr>redostack := stack\<rparr> in
        if stack = [] then p1
        else
          let scopename = snd (last stack); p2 = p1\<lparr>redostack := butlast stack\<rparr>;
              undostack_was_empty = (undostack p2 = []);
              p3 = close_scope (fold exec funcs (add_undo_scope scopename p2)) in
          if undostack_was_empty \<or> redostack p3 = [] then emit_dirty p3 else p3)"

definition can_undo :: "('d, 'f) project \<Rightarrow> bool" where "can_undo p \<longleftrightarrow> length (undostack p) > 0"
definition can_redo :: "('d, 'f) project \<Rightarrow> bool" where "can_redo p \<longleftrightarrow> length (redostack p) > 0"

definition group_undo :: "string \<Rightarrow> ('d, 'f) project \<Rightarrow> ('d, 'f) project" where
  "group_undo undoname p =
     (if undoname = [] then p
      else
        let p1 = p\<lparr>undo_groups_open := Suc (undo_groups_open p)\<rparr> in
        if undo_groups_open p1 = 1 then p1\<lparr>undo_group_name := undoname\<rparr> else p1)"

definition ungroup_undo :: "('d, 'f) project \<Rightarrow> ('d, 'f) project" where
  "ungroup_undo p =
     (if \<not> undo_groups_open p > 0 then p
      else
        let p1 = p\<lparr>undo_groups_open := undo_groups_open p - 1\<rparr> in
        if undo_groups_open p1 = 0 then p1\<lparr>undo_group_name := []\<rparr> else p1)"

definition clear_undo :: "('d, 'f) project \<Rightarrow> ('d, 'f) project" where
  "clear_undo p = emit_dirty (p\<lparr>undostack := [], redostack := []\<rparr>)"

definition undo_size_guess :: "nat \<Rightarrow> nat \<Rightarrow> nat \<Rightarrow> ('d, 'f) project \<Rightarrow> nat" where
  "undo_size_guess size_undofunc size_shared_ptr undo_mem_counter p =
     (let count = length (undostack p) + length (redostack p);
          item = size_undofunc + size_shared_ptr + 4 * 8 in
      count * item + undo_mem_counter)"

subsection \<open>The history of documents\<close>

text \<open>
  The specification: a history has past, present and future documents.  An edit moves the present into the
  past and drops the future; inside a group only the first edit does, and undo and redo are blocked.
\<close>

record 'v history =
  past :: "'v list"
  present :: 'v
  future :: "'v list"
  grouped :: nat
  fresh :: bool

definition hist_edit :: "'v \<Rightarrow> 'v history \<Rightarrow> 'v history" where
  "hist_edit v h =
     (if grouped h = 0 \<or> fresh h
      then h\<lparr>past := present h # past h, present := v, future := [], fresh := False\<rparr>
      else h\<lparr>present := v\<rparr>)"

definition hist_undo :: "'v history \<Rightarrow> 'v history" where
  "hist_undo h =
     (if grouped h \<noteq> 0 then h
      else case past h of [] \<Rightarrow> h
        | v # vs \<Rightarrow> h\<lparr>past := vs, present := v, future := present h # future h\<rparr>)"

definition hist_redo :: "'v history \<Rightarrow> 'v history" where
  "hist_redo h =
     (if grouped h \<noteq> 0 then h
      else case future h of [] \<Rightarrow> h
        | v # vs \<Rightarrow> h\<lparr>past := present h # past h, present := v, future := vs\<rparr>)"

definition hist_group :: "'v history \<Rightarrow> 'v history" where
  "hist_group h = h\<lparr>grouped := Suc (grouped h), fresh := (if grouped h = 0 then True else fresh h)\<rparr>"

definition hist_ungroup :: "'v history \<Rightarrow> 'v history" where
  "hist_ungroup h =
     (if grouped h = 0 then h
      else h\<lparr>grouped := grouped h - 1, fresh := (if grouped h = 1 then False else fresh h)\<rparr>)"

subsection \<open>Segments of a stack\<close>

text \<open>A stack as a list of scopes with their functions, the newest scope first.\<close>

fun flat :: "(string \<times> 'f list) list \<Rightarrow> ('f option \<times> string) list" where
  "flat [] = []"
| "flat ((name, fs) # segs) = flat segs @ (None, name) # map (\<lambda>f. (Some f, [])) fs"

lemma flat_empty [simp]: "flat segs = [] \<longleftrightarrow> segs = []"
  by (cases segs) auto

lemma pop_funcs_segment:
  "pop_funcs (st @ (None, name) # map (\<lambda>f. (Some f, [])) fs) gs = (gs @ rev fs, st @ [(None, name)])"
proof (induction fs arbitrary: gs rule: rev_induct)
  case Nil
  then show ?case by (simp add: pop_funcs.simps)
next
  case (snoc f fs)
  then show ?case by (subst pop_funcs.simps) (simp add: butlast_append)
qed

lemma push_func_simps [simp]:
  "document (push_func f p) = document p" "undo_scopes_open (push_func f p) = undo_scopes_open p"
  "undo_groups_open (push_func f p) = undo_groups_open p" "undo_group_name (push_func f p) = undo_group_name p"
  "undostack (push_func f p) = undostack p @ [(Some f, [])]" "redostack (push_func f p) = redostack p"
  by (simp_all add: push_func_def emit_dirty_def Let_def)

lemma emit_dirty_simps [simp]:
  "document (emit_dirty p) = document p" "undo_scopes_open (emit_dirty p) = undo_scopes_open p"
  "undo_groups_open (emit_dirty p) = undo_groups_open p" "undo_group_name (emit_dirty p) = undo_group_name p"
  "undostack (emit_dirty p) = undostack p" "redostack (emit_dirty p) = redostack p"
  by (simp_all add: emit_dirty_def)

lemma close_scope_simps [simp]:
  "document (close_scope p) = document p" "undo_scopes_open (close_scope p) = undo_scopes_open p - 1"
  "undo_groups_open (close_scope p) = undo_groups_open p" "undo_group_name (close_scope p) = undo_group_name p"
  "undostack (close_scope p) = undostack p" "redostack (close_scope p) = redostack p"
  by (simp_all add: close_scope_def)

lemma add_undo_scope_simps [simp]:
  "document (add_undo_scope n p) = document p"
  "undo_scopes_open (add_undo_scope n p) = Suc (undo_scopes_open p)"
  "undo_groups_open (add_undo_scope n p) = undo_groups_open p"
  "redostack (add_undo_scope n p) = redostack p"
  by (simp_all add: add_undo_scope_def open_scope_def Let_def)

lemma undo_scope_simps [simp]:
  "document (undo_scope n p) = document p"
  "undo_scopes_open (undo_scope n p) = Suc (undo_scopes_open p)"
  "undo_groups_open (undo_scope n p) = undo_groups_open p"
  "undostack (undo_scope n p) = undostack (add_undo_scope n p)"
  "undo_group_name (undo_scope n p) = undo_group_name (add_undo_scope n p)"
  by (simp_all add: undo_scope_def Let_def)

text \<open>Inside a scope, or later in a group, another scope adds no entry.\<close>

lemma inner_scope:
  assumes "undo_scopes_open p > 0 \<or> undo_groups_open p > 0 \<and> undo_group_name p = []"
  shows "undostack (undo_scope n p) = undostack p" "redostack (undo_scope n p) = redostack p"
    "undo_group_name (undo_scope n p) = undo_group_name p"
  using assms by (auto simp: undo_scope_def add_undo_scope_def open_scope_def emit_dirty_def Let_def)

lemma redostack_undo_scope:
  "redostack (undo_scope n p) = (if length (undostack (add_undo_scope n p)) > length (undostack p) then [] else redostack p)"
  by (simp add: undo_scope_def Let_def)

lemma outer_add_scope:
  assumes "undo_scopes_open p = 0" and "undo_groups_open p = 0 \<or> undo_group_name p \<noteq> []" and "n \<noteq> []"
  shows "undostack (add_undo_scope n p) =
      undostack p @ [(None, if undo_group_name p = [] then n else undo_group_name p)]"
    and "undo_group_name (add_undo_scope n p) = []"
  using assms by (auto simp: add_undo_scope_def open_scope_def Let_def)

lemma outer_scope:
  assumes "undo_scopes_open p = 0" and "undo_groups_open p = 0 \<or> undo_group_name p \<noteq> []" and "n \<noteq> []"
  obtains m where "m \<noteq> []" "undostack (undo_scope n p) = undostack p @ [(None, m)]"
    "redostack (undo_scope n p) = []" "undo_group_name (undo_scope n p) = []"
  using that [of "if undo_group_name p = [] then n else undo_group_name p"] outer_add_scope [OF assms] assms(3)
  by (auto simp: redostack_undo_scope)

subsection \<open>Closures that revert each other\<close>

text \<open>
  \<open>undo_client\<close> is the contract of the closures: running one, on a document whose view is well-formed,
  pushes one closure under a scope and changes the view to a well-formed one by its \<open>effect\<close>; and the closure it pushed reverts
  that change.
\<close>

locale undo_client =
  fixes exec :: "'f \<Rightarrow> ('d, 'f) project \<Rightarrow> ('d, 'f) project"
    and view :: "'d \<Rightarrow> 'v"
    and effect :: "'f \<Rightarrow> 'v \<Rightarrow> 'v"
    and fun_ok :: "'f \<Rightarrow> bool"
    and view_ok :: "'v \<Rightarrow> bool"
  assumes exec_reverts:
    "view_ok (view (document p)) \<Longrightarrow> fun_ok f \<Longrightarrow>
       \<exists>n f' d'. exec f p = (scoped_push n f' p)\<lparr>document := d'\<rparr> \<and> fun_ok f' \<and>
         view d' = effect f (view (document p)) \<and> view_ok (view d') \<and> effect f' (view d') = view (document p)"
begin

fun unwinds :: "(string \<times> 'f list) list \<Rightarrow> 'v \<Rightarrow> 'v list \<Rightarrow> bool" where
  "unwinds [] v [] = True"
| "unwinds ((name, fs) # segs) v (w # ws) =
     (fold effect (rev fs) v = w \<and> name \<noteq> [] \<and> (\<forall>f\<in>set fs. fun_ok f) \<and> unwinds segs w ws)"
| "unwinds _ _ _ = False"

text \<open>Running closures inside a scope: their reverting closures are pushed in order.\<close>

lemma run_funcs:
  "view_ok (view (document p)) \<Longrightarrow> \<forall>f\<in>set fs. fun_ok f \<Longrightarrow> undo_scopes_open p > 0 \<Longrightarrow>
     \<exists>gs. undostack (fold exec fs p) = undostack p @ map (\<lambda>f. (Some f, [])) gs \<and> (\<forall>f\<in>set gs. fun_ok f) \<and>
       redostack (fold exec fs p) = redostack p \<and> undo_scopes_open (fold exec fs p) = undo_scopes_open p \<and>
       undo_groups_open (fold exec fs p) = undo_groups_open p \<and>
       undo_group_name (fold exec fs p) = undo_group_name p \<and>
       view (document (fold exec fs p)) = fold effect fs (view (document p)) \<and>
       view_ok (view (document (fold exec fs p))) \<and>
       fold effect (rev gs) (view (document (fold exec fs p))) = view (document p)"
proof (induction fs arbitrary: p)
  case Nil
  then show ?case by (intro exI [of _ "[]"]) simp
next
  case (Cons f fs)
  then obtain n f' d' where x: "exec f p = (scoped_push n f' p)\<lparr>document := d'\<rparr>" "fun_ok f'"
      "view d' = effect f (view (document p))" "view_ok (view d')" "effect f' (view d') = view (document p)"
    using exec_reverts [of p f] by auto
  let ?q = "exec f p"
  have q: "document ?q = d'" "undostack ?q = undostack p @ [(Some f', [])]" "redostack ?q = redostack p"
    "undo_scopes_open ?q = undo_scopes_open p" "undo_groups_open ?q = undo_groups_open p"
    "undo_group_name ?q = undo_group_name p"
    using Cons.prems(3) inner_scope [of p n] by (simp_all add: x(1) scoped_push_def)
  obtain gs where g: "undostack (fold exec fs ?q) = undostack ?q @ map (\<lambda>f. (Some f, [])) gs"
      "\<forall>f\<in>set gs. fun_ok f" "redostack (fold exec fs ?q) = redostack ?q"
      "undo_scopes_open (fold exec fs ?q) = undo_scopes_open ?q"
      "undo_groups_open (fold exec fs ?q) = undo_groups_open ?q"
      "undo_group_name (fold exec fs ?q) = undo_group_name ?q"
      "view (document (fold exec fs ?q)) = fold effect fs (view d')" "view_ok (view (document (fold exec fs ?q)))"
      "fold effect (rev gs) (view (document (fold exec fs ?q))) = view d'"
    using Cons.IH [of ?q] Cons.prems x(4) q by auto
  show ?case by (intro exI [of _ "f' # gs"]) (use g x q in simp)
qed

text \<open>The refinement relation.\<close>

definition project_rel :: "('d, 'f) project \<Rightarrow> 'v history \<Rightarrow> bool" where
  "project_rel p h \<longleftrightarrow>
     view (document p) = present h \<and> view_ok (present h) \<and> undo_scopes_open p = 0 \<and>
     undo_groups_open p = grouped h \<and> (undo_group_name p \<noteq> [] \<longleftrightarrow> fresh h) \<and> (grouped h = 0 \<longrightarrow> \<not> fresh h) \<and>
     (\<exists>us rs. undostack p = flat us \<and> redostack p = flat rs \<and> unwinds us (present h) (past h) \<and>
        unwinds rs (present h) (future h) \<and> (grouped h > 0 \<and> \<not> fresh h \<longrightarrow> us \<noteq> [] \<and> rs = []))"

lemma project_relE:
  assumes "project_rel p h"
  obtains us rs where "undostack p = flat us" "redostack p = flat rs" "unwinds us (present h) (past h)"
    "unwinds rs (present h) (future h)" "grouped h > 0 \<and> \<not> fresh h \<longrightarrow> us \<noteq> [] \<and> rs = []"
  using assms unfolding project_rel_def by blast

lemma project_relI:
  assumes "undostack p = flat us" and "redostack p = flat rs" and "unwinds us (present h) (past h)"
    and "unwinds rs (present h) (future h)" and "grouped h > 0 \<and> \<not> fresh h \<longrightarrow> us \<noteq> [] \<and> rs = []"
    and "view (document p) = present h" and "view_ok (present h)" and "undo_scopes_open p = 0"
    and "undo_groups_open p = grouped h" and "undo_group_name p \<noteq> [] \<longleftrightarrow> fresh h" and "grouped h = 0 \<longrightarrow> \<not> fresh h"
  shows "project_rel p h"
  unfolding project_rel_def using assms by blast

lemma rel_emit_dirty: "project_rel (emit_dirty p) h = project_rel p h"
  by (simp only: project_rel_def emit_dirty_simps)

lemma new_project_rel:
  "view_ok (view d) \<Longrightarrow>
     project_rel (new_project d) \<lparr>past = [], present = view d, future = [], grouped = 0, fresh = False\<rparr>"
  by (rule project_relI [of _ "[]" "[]"]) (simp_all add: new_project_def)

lemma rel_edit:
  assumes rel: "project_rel p h" and n: "n \<noteq> []" and f: "fun_ok f" "effect f (view d') = view (document p)"
    and ok: "view_ok (view d')"
  shows "project_rel ((scoped_push n f p)\<lparr>document := d'\<rparr>) (hist_edit (view d') h)"
proof -
  obtain us rs where s: "undostack p = flat us" "redostack p = flat rs" "unwinds us (present h) (past h)"
    "unwinds rs (present h) (future h)" "grouped h > 0 \<and> \<not> fresh h \<longrightarrow> us \<noteq> [] \<and> rs = []"
    using rel by (rule project_relE)
  have r: "undo_scopes_open p = 0" "undo_groups_open p = grouped h" "undo_group_name p \<noteq> [] \<longleftrightarrow> fresh h"
    "grouped h = 0 \<longrightarrow> \<not> fresh h" "view (document p) = present h" using rel by (auto simp: project_rel_def)
  show ?thesis
  proof (cases "grouped h = 0 \<or> fresh h")
    case True
    then obtain m where m: "m \<noteq> []" "undostack (undo_scope n p) = undostack p @ [(None, m)]"
        "redostack (undo_scope n p) = []" "undo_group_name (undo_scope n p) = []"
      using outer_scope [of p n] r n by metis
    let ?us = "(m, [f]) # us"
    have "flat ?us = undostack p @ [(None, m), (Some f, [])]" using s(1) by simp
    moreover have "unwinds ?us (view d') (present h # past h)" using m(1) f r(5) s(3) by simp
    ultimately show ?thesis
      using True m r ok
      by (intro project_relI [of _ ?us "[]"]) (auto simp: scoped_push_def hist_edit_def)
  next
    case False
    then have i: "undostack (undo_scope n p) = undostack p" "redostack (undo_scope n p) = redostack p"
      "undo_group_name (undo_scope n p) = undo_group_name p" using inner_scope [of p n] r by auto
    obtain m fs us' where us: "us = (m, fs) # us'" using s(5) False by (cases us) auto
    then obtain w ws where w: "past h = w # ws" "fold effect (rev fs) (present h) = w" "m \<noteq> []"
        "\<forall>f\<in>set fs. fun_ok f" "unwinds us' w ws" using s(3) by (cases "past h") auto
    let ?us = "(m, fs @ [f]) # us'"
    have "flat ?us = undostack p @ [(Some f, [])]" using s(1) us by simp
    moreover have "unwinds ?us (view d') (past h)" using w f r(5) by simp
    moreover have "future h = []" "rs = []" using s(4,5) False by (cases "future h"; simp)+
    ultimately show ?thesis
      using False i r ok s
      by (intro project_relI [of _ ?us rs]) (auto simp: scoped_push_def hist_edit_def)
  qed
qed

text \<open>The two stacks swap their roles between \<open>undo\<close> and \<open>redo\<close>; both run the newest scope of one.\<close>

lemma replay:
  assumes "undo_scopes_open p = 0" and "undo_groups_open p = 0" and "undo_group_name p = []" and "name \<noteq> []"
    and "\<forall>f\<in>set fs. fun_ok f" and "view_ok (view (document p))"
    and p': "p' = close_scope (fold exec (rev fs) (add_undo_scope name p))"
  obtains gs where "undostack p' = undostack p @ (None, name) # map (\<lambda>f. (Some f, [])) gs"
    "redostack p' = redostack p" "undo_scopes_open p' = 0" "undo_groups_open p' = 0" "undo_group_name p' = []"
    "view (document p') = fold effect (rev fs) (view (document p))" "view_ok (view (document p'))"
    "\<forall>f\<in>set gs. fun_ok f" "fold effect (rev gs) (view (document p')) = view (document p)"
proof -
  note a = outer_add_scope [OF assms(1) disjI1 [OF assms(2)] assms(4)]
  show ?thesis
    using run_funcs [of "add_undo_scope name p" "rev fs"] assms(1-6) a that unfolding p' by auto
qed

lemma rel_undo:
  assumes rel: "project_rel p h"
  shows "project_rel (undo exec p) (hist_undo h)"
proof -
  obtain us rs where s: "undostack p = flat us" "redostack p = flat rs" "unwinds us (present h) (past h)"
    "unwinds rs (present h) (future h)" using rel by (rule project_relE)
  have r: "undo_scopes_open p = 0" "undo_groups_open p = grouped h" "undo_group_name p \<noteq> [] \<longleftrightarrow> fresh h"
    "grouped h = 0 \<longrightarrow> \<not> fresh h" "view (document p) = present h" "view_ok (present h)"
    using rel by (auto simp: project_rel_def)
  show ?thesis
  proof (cases "grouped h = 0 \<and> us \<noteq> []")
    case False
    moreover have "past h = []" if "us = []" using s(3) that by (cases "past h") auto
    ultimately show ?thesis using rel s(1) r(1,2) by (auto simp: undo_def hist_undo_def)
  next
    case True
    then obtain name fs us' where us: "us = (name, fs) # us'" by (cases us) auto
    then obtain w ws where w: "past h = w # ws" "fold effect (rev fs) (present h) = w" "name \<noteq> []"
        "\<forall>f\<in>set fs. fun_ok f" "unwinds us' w ws" using s(3) by (cases "past h") auto
    let ?p3 = "p\<lparr>undostack := flat rs, redostack := flat us'\<rparr>"
    obtain p4 where p4: "p4 = close_scope (fold exec (rev fs) (add_undo_scope name ?p3))" by blast
    have pre: "undo_scopes_open ?p3 = 0" "undo_groups_open ?p3 = 0" "undo_group_name ?p3 = []"
        "view_ok (view (document ?p3))" using r True by simp_all
    obtain gs where g0: "undostack p4 = undostack ?p3 @ (None, name) # map (\<lambda>f. (Some f, [])) gs"
        "redostack p4 = redostack ?p3" "undo_scopes_open p4 = 0" "undo_groups_open p4 = 0" "undo_group_name p4 = []"
        "view (document p4) = fold effect (rev fs) (view (document ?p3))" "view_ok (view (document p4))"
        "\<forall>f\<in>set gs. fun_ok f" "fold effect (rev gs) (view (document p4)) = view (document ?p3)"
      by (rule replay [OF pre(1-3) w(3,4) pre(4) p4])
    then have g: "view (document p4) = w" "fold effect (rev gs) w = present h" using r(5) w(2) by simp_all
    have pf: "pop_funcs (undostack p) [] = (rev fs, flat us' @ [(None, name)])"
      using pop_funcs_segment [of "flat us'" name fs "[]"] s(1) us by simp
    have u: "undo exec p = p4\<lparr>undostack := redostack p4, redostack := undostack p4\<rparr> \<or>
        undo exec p = emit_dirty (p4\<lparr>undostack := redostack p4, redostack := undostack p4\<rparr>)"
      using True r(1,2) s(1,2) us pf p4 by (simp add: undo_def Let_def)
    have h: "hist_undo h = h\<lparr>past := ws, present := w, future := present h # future h\<rparr>"
      using True w(1) by (simp add: hist_undo_def)
    have "project_rel (p4\<lparr>undostack := redostack p4, redostack := undostack p4\<rparr>) (hist_undo h)"
    proof (rule project_relI [of _ us' "(name, gs) # rs"])
      show "unwinds ((name, gs) # rs) (present (hist_undo h)) (future (hist_undo h))"
        using g(2) g0(8) w(3) s(4) by (simp add: h)
    qed (use g g0(1-5,7) w(5) True r(4) in \<open>simp_all add: h\<close>)
    then show ?thesis using u rel_emit_dirty by metis
  qed
qed

lemma rel_redo:
  assumes rel: "project_rel p h"
  shows "project_rel (redo exec p) (hist_redo h)"
proof -
  obtain us rs where s: "undostack p = flat us" "redostack p = flat rs" "unwinds us (present h) (past h)"
    "unwinds rs (present h) (future h)" using rel by (rule project_relE)
  have r: "undo_scopes_open p = 0" "undo_groups_open p = grouped h" "undo_group_name p \<noteq> [] \<longleftrightarrow> fresh h"
    "grouped h = 0 \<longrightarrow> \<not> fresh h" "view (document p) = present h" "view_ok (present h)"
    using rel by (auto simp: project_rel_def)
  show ?thesis
  proof (cases "grouped h = 0 \<and> rs \<noteq> []")
    case False
    moreover have "future h = []" if "rs = []" using s(4) that by (cases "future h") auto
    ultimately show ?thesis using rel s(2) r(1,2) by (auto simp: redo_def hist_redo_def)
  next
    case True
    then obtain name fs rs' where rs: "rs = (name, fs) # rs'" by (cases rs) auto
    then obtain w ws where w: "future h = w # ws" "fold effect (rev fs) (present h) = w" "name \<noteq> []"
        "\<forall>f\<in>set fs. fun_ok f" "unwinds rs' w ws" using s(4) by (cases "future h") auto
    let ?p2 = "p\<lparr>redostack := flat rs'\<rparr>"
    obtain p3 where p3: "p3 = close_scope (fold exec (rev fs) (add_undo_scope name ?p2))" by blast
    have pre: "undo_scopes_open ?p2 = 0" "undo_groups_open ?p2 = 0" "undo_group_name ?p2 = []"
        "view_ok (view (document ?p2))" using r True by simp_all
    obtain gs where g0: "undostack p3 = undostack ?p2 @ (None, name) # map (\<lambda>f. (Some f, [])) gs"
        "redostack p3 = redostack ?p2" "undo_scopes_open p3 = 0" "undo_groups_open p3 = 0" "undo_group_name p3 = []"
        "view (document p3) = fold effect (rev fs) (view (document ?p2))" "view_ok (view (document p3))"
        "\<forall>f\<in>set gs. fun_ok f" "fold effect (rev gs) (view (document p3)) = view (document ?p2)"
      by (rule replay [OF pre(1-3) w(3,4) pre(4) p3])
    then have g: "view (document p3) = w" "fold effect (rev gs) w = present h" using r(5) w(2) by simp_all
    have pf: "pop_funcs (redostack p) [] = (rev fs, flat rs' @ [(None, name)])"
      using pop_funcs_segment [of "flat rs'" name fs "[]"] s(2) rs by simp
    have u: "redo exec p = p3 \<or> redo exec p = emit_dirty p3"
      using True r(1,2) s(1,2) rs pf p3 by (simp add: redo_def Let_def)
    have h: "hist_redo h = h\<lparr>past := present h # past h, present := w, future := ws\<rparr>"
      using True w(1) by (simp add: hist_redo_def)
    have "project_rel p3 (hist_redo h)"
    proof (rule project_relI [of _ "(name, gs) # us" rs'])
      show "unwinds ((name, gs) # us) (present (hist_redo h)) (past (hist_redo h))"
        using g(2) g0(8) w(3) s(3) by (simp add: h)
    qed (use g g0(1-5,7) w(5) True r(4) s(1) in \<open>simp_all add: h\<close>)
    then show ?thesis using u rel_emit_dirty by metis
  qed
qed

lemma rel_group:
  assumes rel: "project_rel p h" and "n \<noteq> []"
  shows "project_rel (group_undo n p) (hist_group h)"
proof -
  obtain us rs where "undostack p = flat us" "redostack p = flat rs" "unwinds us (present h) (past h)"
    "unwinds rs (present h) (future h)" "grouped h > 0 \<and> \<not> fresh h \<longrightarrow> us \<noteq> [] \<and> rs = []"
    using rel by (rule project_relE)
  then show ?thesis
    using rel assms(2) unfolding project_rel_def [of p]
    by (intro project_relI [of _ us rs]) (auto simp: group_undo_def hist_group_def Let_def)
qed

lemma rel_ungroup:
  assumes rel: "project_rel p h"
  shows "project_rel (ungroup_undo p) (hist_ungroup h)"
proof -
  obtain us rs where "undostack p = flat us" "redostack p = flat rs" "unwinds us (present h) (past h)"
    "unwinds rs (present h) (future h)" "grouped h > 0 \<and> \<not> fresh h \<longrightarrow> us \<noteq> [] \<and> rs = []"
    using rel by (rule project_relE)
  then show ?thesis
    using rel unfolding project_rel_def [of p]
    by (intro project_relI [of _ us rs]) (auto simp: ungroup_undo_def hist_ungroup_def Let_def)
qed

end

end
