(* ===== verification/ClipUndo.thy ===== *)
theory ClipUndo
  imports Project
begin

section \<open>Undo of clip edits (ase/clip.cc with ase/project.cc)\<close>

text \<open>
  The undo closures of the program are those of \<open>ClipImpl::push_undo\<close>: they restore the notes of one clip
  from an image.  Here the document of a project is its clips, and the closures of \<open>Project\<close> are triples of
  clip, group and image, run by \<open>apply_undo\<close>.  \<open>Clip\<close> logs what \<open>push_undo\<close> pushes in \<open>undo_queue\<close>; on the
  project each logged entry is pushed under a scope of its group.
\<close>

type_synonym 'z closure = "nat \<times> string \<times> 'z"
type_synonym 'z clips = "nat \<Rightarrow> 'z clip"
type_synonym note_view = "nat \<Rightarrow> ClipNote list"

definition push_queued :: "nat \<Rightarrow> (string \<times> 'z) list \<Rightarrow> ('z clips, 'z closure) project \<Rightarrow> ('z clips, 'z closure) project" where
  "push_queued c queue p = fold (\<lambda>(g, img). scoped_push g (c, g, img)) queue p"

text \<open>An operation on one clip of the project.\<close>

definition on_clip :: "nat \<Rightarrow> ('z clip \<Rightarrow> 'z clip) \<Rightarrow> ('z clips, 'z closure) project \<Rightarrow> ('z clips, 'z closure) project" where
  "on_clip c f p =
     (let clip = f ((document p c)\<lparr>undo_queue := []\<rparr>) in
      (push_queued c (undo_queue clip) p)\<lparr>document := (document p)(c := clip\<lparr>undo_queue := []\<rparr>)\<rparr>)"

definition run_closure ::
    "(ClipNote list \<Rightarrow> 'z) \<Rightarrow> ('z \<Rightarrow> ClipNote list option) \<Rightarrow> 'z closure \<Rightarrow>
     ('z clips, 'z closure) project \<Rightarrow> ('z clips, 'z closure) project" where
  "run_closure compress uncompress f p =
     (case f of (c, g, img) \<Rightarrow> on_clip c (apply_undo compress uncompress img g) p)"

definition edit_clip ::
    "(ClipNote list \<Rightarrow> 'z) \<Rightarrow> nat \<Rightarrow> ClipNote list \<Rightarrow> string \<Rightarrow>
     ('z clips, 'z closure) project \<Rightarrow> ('z clips, 'z closure) project" where
  "edit_clip compress c batch undogroup p = on_clip c (change_batch compress batch undogroup) p"

subsection \<open>What the closures do to the notes\<close>

definition notes_view :: "'z clips \<Rightarrow> note_view" where
  "notes_view d = (\<lambda>c. events (clip_notes (d c)))"

text \<open>Notes that are sorted by unique ids and survive the codec; an image that decompresses to such notes.\<close>

definition notes_kept :: "(ClipNote list \<Rightarrow> 'z) \<Rightarrow> ('z \<Rightarrow> ClipNote list option) \<Rightarrow> ClipNote list \<Rightarrow> bool" where
  "notes_kept compress uncompress ns \<longleftrightarrow> unique_by CmpNoteIds ns \<and> uncompress (compress ns) = Some ns"

definition clips_ok :: "(ClipNote list \<Rightarrow> 'z) \<Rightarrow> ('z \<Rightarrow> ClipNote list option) \<Rightarrow> note_view \<Rightarrow> bool" where
  "clips_ok compress uncompress v \<longleftrightarrow> (\<forall>c. notes_kept compress uncompress (v c))"

definition closure_ok :: "(ClipNote list \<Rightarrow> 'z) \<Rightarrow> ('z \<Rightarrow> ClipNote list option) \<Rightarrow> 'z closure \<Rightarrow> bool" where
  "closure_ok compress uncompress f \<longleftrightarrow>
     (case f of (c, g, img) \<Rightarrow> \<exists>ns. uncompress img = Some ns \<and> notes_kept compress uncompress ns)"

definition restore :: "('z \<Rightarrow> ClipNote list option) \<Rightarrow> 'z closure \<Rightarrow> note_view \<Rightarrow> note_view" where
  "restore uncompress f v = (case f of (c, g, img) \<Rightarrow> v(c := the (uncompress img)))"

lemma on_clip_single:
  assumes "undo_queue (f ((document p c)\<lparr>undo_queue := []\<rparr>)) = [(g, img)]"
  shows "on_clip c f p = (scoped_push g (c, g, img) p)\<lparr>document :=
           (document p)(c := (f ((document p c)\<lparr>undo_queue := []\<rparr>))\<lparr>undo_queue := []\<rparr>)\<rparr>"
  using assms by (simp add: on_clip_def push_queued_def Let_def)

lemma restore_image:
  "notes_kept compress uncompress (v c) \<Longrightarrow> restore uncompress (c, g, compress (v c)) (v(c := ns)) = v"
  by (auto simp: restore_def notes_kept_def)

interpretation clip_undo: undo_client
  "run_closure compress uncompress" notes_view "restore uncompress" "closure_ok compress uncompress"
  "clips_ok compress uncompress"
  for compress :: "ClipNote list \<Rightarrow> 'z" and uncompress
proof
  fix p :: "('z clips, 'z closure) project" and f :: "'z closure"
  let ?v = "notes_view (document p)"
  assume ok: "clips_ok compress uncompress ?v" "closure_ok compress uncompress f"
  obtain c g img where f: "f = (c, g, img)" by (metis prod_cases3)
  then obtain ns where ns: "uncompress img = Some ns" "notes_kept compress uncompress ns"
    using ok(2) by (auto simp: closure_ok_def)
  let ?k = "apply_undo compress uncompress img g ((document p c)\<lparr>undo_queue := []\<rparr>)"
  let ?d = "(document p)(c := ?k\<lparr>undo_queue := []\<rparr>)" and ?f' = "(c, g, compress (?v c))"
  have k: "events (clip_notes ?k) = ns" "undo_queue ?k = [(g, compress (?v c))]"
    using apply_undo_restores [of uncompress img ns compress g "(document p c)\<lparr>undo_queue := []\<rparr>"] ns
    by (simp_all add: notes_kept_def notes_view_def)
  have kept: "notes_kept compress uncompress (?v c)" using ok(1) by (simp add: clips_ok_def)
  have v: "notes_view ?d = ?v(c := ns)" using k(1) by (auto simp: notes_view_def)
  have "run_closure compress uncompress f p = (scoped_push g ?f' p)\<lparr>document := ?d\<rparr>"
    using on_clip_single [where f = "apply_undo compress uncompress img g", OF k(2)] by (simp add: run_closure_def f)
  moreover have "closure_ok compress uncompress ?f'"
    using kept unfolding closure_ok_def by (auto simp: notes_kept_def)
  moreover have "notes_view ?d = restore uncompress f ?v" using v by (simp add: restore_def f ns(1))
  moreover have "clips_ok compress uncompress (notes_view ?d)" using ok(1) ns(2) v by (simp add: clips_ok_def)
  moreover have "restore uncompress ?f' (notes_view ?d) = ?v" unfolding v by (rule restore_image [where v = ?v, OF kept])
  ultimately show "\<exists>n f' d'. run_closure compress uncompress f p = (scoped_push n f' p)\<lparr>document := d'\<rparr> \<and>
      closure_ok compress uncompress f' \<and> notes_view d' = restore uncompress f ?v \<and>
      clips_ok compress uncompress (notes_view d') \<and> restore uncompress f' (notes_view d') = ?v"
    by blast
qed

subsection \<open>Sessions of edits, undos and redos\<close>

datatype action =
    Edit nat "ClipNote list" string
  | Undo
  | Redo
  | Group string
  | Ungroup

fun project_step ::
    "(ClipNote list \<Rightarrow> 'z) \<Rightarrow> ('z \<Rightarrow> ClipNote list option) \<Rightarrow> action \<Rightarrow>
     ('z clips, 'z closure) project \<Rightarrow> ('z clips, 'z closure) project" where
  "project_step compress uncompress (Edit c batch g) p = edit_clip compress c batch g p"
| "project_step compress uncompress Undo p = undo (run_closure compress uncompress) p"
| "project_step compress uncompress Redo p = redo (run_closure compress uncompress) p"
| "project_step compress uncompress (Group n) p = group_undo n p"
| "project_step compress uncompress Ungroup p = ungroup_undo p"

text \<open>The history sees of an edit only the notes it leads to.\<close>

fun hist_step :: "action \<Rightarrow> note_view \<Rightarrow> note_view history \<Rightarrow> note_view history" where
  "hist_step (Edit c batch g) v h = hist_edit v h"
| "hist_step Undo v h = hist_undo h"
| "hist_step Redo v h = hist_redo h"
| "hist_step (Group n) v h = hist_group h"
| "hist_step Ungroup v h = hist_ungroup h"

text \<open>An edit that the project can undo: it pushes an image, and the new notes survive the codec.\<close>

fun undoable ::
    "(ClipNote list \<Rightarrow> 'z) \<Rightarrow> ('z \<Rightarrow> ClipNote list option) \<Rightarrow> action \<Rightarrow> ('z clips, 'z closure) project \<Rightarrow> bool" where
  "undoable compress uncompress (Edit c batch g) p =
     (let clip = change_batch compress batch g ((document p c)\<lparr>undo_queue := []\<rparr>) in
      undo_queue clip \<noteq> [] \<and> uncompress (compress (events (clip_notes clip))) = Some (events (clip_notes clip)))"
| "undoable compress uncompress (Group n) p = (n \<noteq> [])"
| "undoable compress uncompress _ p = True"

fun session ::
    "(ClipNote list \<Rightarrow> 'z) \<Rightarrow> ('z \<Rightarrow> ClipNote list option) \<Rightarrow> action list \<Rightarrow>
     ('z clips, 'z closure) project \<times> note_view history \<Rightarrow> (('z clips, 'z closure) project \<times> note_view history) option" where
  "session compress uncompress [] s = Some s"
| "session compress uncompress (a # as) (p, h) =
     (if undoable compress uncompress a p
      then let p' = project_step compress uncompress a p in
           session compress uncompress as (p', hist_step a (notes_view (document p')) h)
      else None)"

abbreviation related ::
    "(ClipNote list \<Rightarrow> 'z) \<Rightarrow> ('z \<Rightarrow> ClipNote list option) \<Rightarrow>
     ('z clips, 'z closure) project \<Rightarrow> note_view history \<Rightarrow> bool" where
  "related compress uncompress \<equiv>
     undo_client.project_rel notes_view (restore uncompress) (closure_ok compress uncompress) (clips_ok compress uncompress)"

definition start_history :: "note_view \<Rightarrow> note_view history" where
  "start_history v = \<lparr>past = [], present = v, future = [], grouped = 0, fresh = False\<rparr>"

lemma change_batch_queue:
  assumes "unique_by CmpNoteIds (events (clip_notes k))" and "undo_queue k = []"
    and "undo_queue (change_batch compress batch g k) \<noteq> []"
  shows "unique_by CmpNoteIds (events (clip_notes (change_batch compress batch g k)))"
    and "\<exists>n. n \<noteq> [] \<and> undo_queue (change_batch compress batch g k) = [(n, compress (events (clip_notes k)))]"
  using change_batch_ok [of k compress batch g] assms by (auto simp: clip_ok_def)

lemma rel_edit_clip:
  assumes rel: "related compress uncompress p h" and u: "undoable compress uncompress (Edit c batch g) p"
  shows "related compress uncompress (edit_clip compress c batch g p)
           (hist_edit (notes_view (document (edit_clip compress c batch g p))) h)"
proof -
  let ?v = "notes_view (document p)" and ?b = "(document p c)\<lparr>undo_queue := []\<rparr>"
  let ?k = "change_batch compress batch g ?b"
  let ?d = "(document p)(c := ?k\<lparr>undo_queue := []\<rparr>)"
  have ok: "clips_ok compress uncompress ?v" using rel by (simp add: clip_undo.project_rel_def)
  then have kept: "notes_kept compress uncompress (?v c)" by (simp add: clips_ok_def)
  then have "unique_by CmpNoteIds (events (clip_notes ?b))" by (simp add: notes_kept_def notes_view_def)
  then obtain n where n: "n \<noteq> []" "undo_queue ?k = [(n, compress (?v c))]"
      "unique_by CmpNoteIds (events (clip_notes ?k))"
    using change_batch_queue [of ?b compress batch g] u by (auto simp: notes_view_def Let_def)
  have e: "edit_clip compress c batch g p = (scoped_push n (c, n, compress (?v c)) p)\<lparr>document := ?d\<rparr>"
    using on_clip_single [where f = "change_batch compress batch g", OF n(2)] by (simp add: edit_clip_def)
  have v: "notes_view ?d = ?v(c := events (clip_notes ?k))" by (auto simp: notes_view_def)
  have "clips_ok compress uncompress (notes_view ?d)"
    using ok n(3) u unfolding v by (simp add: clips_ok_def notes_kept_def Let_def)
  moreover have "closure_ok compress uncompress (c, n, compress (?v c))"
    using kept unfolding closure_ok_def by (auto simp: notes_kept_def)
  moreover have "restore uncompress (c, n, compress (?v c)) (notes_view ?d) = ?v"
    unfolding v by (rule restore_image [where v = ?v, OF kept])
  ultimately show ?thesis using clip_undo.rel_edit [OF rel n(1)] unfolding e by simp
qed

lemma session_rel:
  "session compress uncompress acts (p, h) = Some (p', h') \<Longrightarrow> related compress uncompress p h \<Longrightarrow>
     related compress uncompress p' h'"
proof (induction acts arbitrary: p h)
  case (Cons a acts)
  then have u: "undoable compress uncompress a p" by (simp split: if_splits)
  have "related compress uncompress (project_step compress uncompress a p)
      (hist_step a (notes_view (document (project_step compress uncompress a p))) h)"
    using rel_edit_clip [OF Cons.prems(2)] clip_undo.rel_undo [OF Cons.prems(2)]
      clip_undo.rel_redo [OF Cons.prems(2)] clip_undo.rel_group [OF Cons.prems(2)]
      clip_undo.rel_ungroup [OF Cons.prems(2)] u
    by (cases a) auto
  then show ?case using Cons u by (simp add: Let_def)
qed simp

lemma unwinds_empty: "undo_client.unwinds (restore uncompress) (closure_ok compress uncompress) segs v vs \<Longrightarrow> segs = [] \<longleftrightarrow> vs = []"
  by (cases segs; cases vs) auto

lemma related_can:
  assumes "related compress uncompress p h"
  shows "can_undo p \<longleftrightarrow> past h \<noteq> []" and "can_redo p \<longleftrightarrow> future h \<noteq> []"
    and "notes_view (document p) = present h" and "undo_groups_open p = grouped h"
proof -
  obtain us rs where "undostack p = flat us" "redostack p = flat rs"
    "undo_client.unwinds (restore uncompress) (closure_ok compress uncompress) us (present h) (past h)"
    "undo_client.unwinds (restore uncompress) (closure_ok compress uncompress) rs (present h) (future h)"
    using clip_undo.project_relE [OF assms] by metis
  then show "can_undo p \<longleftrightarrow> past h \<noteq> []" "can_redo p \<longleftrightarrow> future h \<noteq> []"
    by (simp_all add: can_undo_def can_redo_def unwinds_empty)
  show "notes_view (document p) = present h" "undo_groups_open p = grouped h"
    using assms by (simp_all add: clip_undo.project_rel_def)
qed

subsection \<open>Properties\<close>


text \<open>
  After any session, grouping two edits and undoing the group brings back the notes from before the first
  edit, in one step; redo brings back the notes from after the second.
\<close>

theorem undo_redo_group:
  assumes "clips_ok compress uncompress (notes_view d)"
    and "session compress uncompress acts (new_project d, start_history (notes_view d)) = Some (p, h)"
    and "undo_groups_open p = 0"
    and "session compress uncompress [Group n, Edit c1 b1 g1, Edit c2 b2 g2, Ungroup] (p, h) = Some (p1, h1)"
  shows "notes_view (document (project_step compress uncompress Undo p1)) = notes_view (document p) \<and>
    notes_view (document (project_step compress uncompress Redo (project_step compress uncompress Undo p1))) =
      notes_view (document p1)"
proof -
  have "related compress uncompress (new_project d) (start_history (notes_view d))"
    unfolding start_history_def by (rule clip_undo.new_project_rel [OF assms(1)])
  then have r: "related compress uncompress p h" by (rule session_rel [OF assms(2)])
  then have r1: "related compress uncompress p1 h1" by (rule session_rel [OF assms(4)])
  have v: "notes_view (document p) = present h" "grouped h = 0" "notes_view (document p1) = present h1"
    using related_can [OF r] related_can [OF r1] assms(3) by simp_all
  have "past h1 = present h # past h \<and> grouped h1 = 0"
    using assms(4) v(2)
    by (auto simp: Let_def hist_group_def hist_edit_def hist_ungroup_def split: if_splits)
  then have "present (hist_undo h1) = present h" "present (hist_redo (hist_undo h1)) = present h1"
    by (simp_all add: hist_undo_def hist_redo_def)
  moreover have "related compress uncompress (project_step compress uncompress Undo p1) (hist_undo h1)"
    using clip_undo.rel_undo [OF r1] by simp
  moreover from this have "related compress uncompress (project_step compress uncompress Redo
      (project_step compress uncompress Undo p1)) (hist_redo (hist_undo h1))"
    using clip_undo.rel_redo by simp
  ultimately show ?thesis using related_can(3) v by metis
qed

text \<open>Two edits of a new project, with images that are not compressed.\<close>

definition sample_batch :: "ClipNote list" where
  "sample_batch = [default_note\<lparr>key := 60, duration := 1\<rparr>]"

definition sample_clips :: "ClipNote list clips" where
  "sample_clips = (\<lambda>_. new_clip)"

lemma sample_clips_ok: "clips_ok (\<lambda>ns. ns) Some (notes_view sample_clips)"
  by (simp add: clips_ok_def notes_kept_def notes_view_def sample_clips_def new_clip_def new_event_list_def unique_by_def)

lemma sample_undoable:
  "document p c = new_clip \<Longrightarrow> undoable (\<lambda>ns. ns) Some (Edit c sample_batch g) p"
  by (simp add: change_batch_def sample_batch_def default_note_def new_clip_def new_event_list_def Let_def
      insert_note_def el_insert_def uncache_def notify_def binary_lookup_insertion_pos_def binary_lookup_fuzzy_def
      fuzzy_loop.simps insert_at_def collapse_notes_def)

lemma sample_document: "c \<noteq> k \<Longrightarrow> document (edit_clip compress k b g p) c = document p c"
  by (simp add: edit_clip_def on_clip_def Let_def)

lemma sample_session:
  "session (\<lambda>ns. ns) Some [Edit 0 sample_batch [], Undo] (new_project sample_clips, h) \<noteq> None"
  using sample_undoable [of "new_project sample_clips" 0 "[]"]
  by (simp add: Let_def new_project_def sample_clips_def)

lemma sample_group:
  "session (\<lambda>ns. ns) Some [Group ''g'', Edit 0 sample_batch [], Edit 1 sample_batch [], Ungroup] (new_project sample_clips, h) \<noteq> None"
proof -
  let ?p = "group_undo ''g'' (new_project sample_clips)"
  have d: "document ?p c = new_clip" for c by (simp add: group_undo_def new_project_def sample_clips_def Let_def)
  have "undoable (\<lambda>ns. ns) Some (Edit 0 sample_batch []) ?p" by (rule sample_undoable [OF d])
  moreover have "undoable (\<lambda>ns. ns) Some (Edit 1 sample_batch []) (edit_clip (\<lambda>ns. ns) 0 sample_batch [] ?p)"
    by (rule sample_undoable) (simp add: sample_document d)
  ultimately show ?thesis by (simp add: Let_def del: undoable.simps) simp
qed


theorem undo_redo_group_witness:
  "\<exists>p1 h1. session (\<lambda>ns. ns) Some [Group ''g'', Edit 0 sample_batch [], Edit 1 sample_batch [], Ungroup]
        (new_project sample_clips, start_history (notes_view sample_clips)) = Some (p1, h1) \<and>
      notes_view (document (project_step (\<lambda>ns. ns) Some Undo p1)) = notes_view sample_clips"
proof -
  let ?p = "new_project sample_clips" and ?h = "start_history (notes_view sample_clips)"
  have s: "session (\<lambda>ns. ns) Some [] (?p, ?h) = Some (?p, ?h)" by simp
  obtain p1 h1 where ph: "session (\<lambda>ns. ns) Some
      [Group ''g'', Edit 0 sample_batch [], Edit 1 sample_batch [], Ungroup] (?p, ?h) = Some (p1, h1)"
    using sample_group by fastforce
  show ?thesis
    using undo_redo_group [OF sample_clips_ok s _ ph] ph by (auto simp: new_project_def)
qed

end
