(* ===== verification/Strings.thy ===== *)
theory Strings
  imports Prelude "HOL-Library.Char_ord"
begin

section \<open>String functions (ase/strings.cc)\<close>

text \<open>
  \<open>String\<close> is \<open>std::string\<close>: a list of 8 bit characters that may contain NUL.  Where the code passes a
  string through \<open>c_str()\<close> to \<open>strchr\<close> and its kind, the model reads it up to the first NUL.  Characters
  are compared as unsigned; the comparisons in the code with plain \<open>char\<close> are range tests with bounds
  below 128, where the signedness makes no difference.
\<close>

subsection \<open>C library helpers\<close>

abbreviation NUL :: char where "NUL \<equiv> CHR 0x00"

definition cstr :: "string \<Rightarrow> string" where
  "cstr s = takeWhile (\<lambda>c. c \<noteq> NUL) s"

text \<open>\<open>strchr (s.c_str(), c) != nullptr\<close>: the terminating NUL counts as part of the string.\<close>

definition strchr :: "string \<Rightarrow> char \<Rightarrow> bool" where
  "strchr s c \<longleftrightarrow> c \<in> set (cstr s) \<or> c = NUL"

definition substr :: "string \<Rightarrow> nat \<Rightarrow> nat \<Rightarrow> string" where
  "substr s i n = take n (drop i s)"

text \<open>\<open>std::string::find (needle, pos)\<close>; \<open>None\<close> is \<open>npos\<close>.\<close>

function string_find :: "string \<Rightarrow> string \<Rightarrow> nat \<Rightarrow> nat option" where
  "string_find s needle pos =
     (if pos + length needle \<le> length s
      then if substr s pos (length needle) = needle then Some pos else string_find s needle (Suc pos)
      else None)"
  by pat_completeness auto
termination
  by (relation "measure (\<lambda>(s, needle, pos). Suc (length s) - pos)") auto

declare string_find.simps [simp del]

definition c_isalnum :: "char \<Rightarrow> bool" where
  "c_isalnum c \<longleftrightarrow>
     CHR ''A'' \<le> c \<and> c \<le> CHR ''Z'' \<or> CHR ''a'' \<le> c \<and> c \<le> CHR ''z'' \<or> CHR ''0'' \<le> c \<and> c \<le> CHR ''9''"

definition c_isalpha :: "char \<Rightarrow> bool" where
  "c_isalpha c \<longleftrightarrow> CHR ''A'' \<le> c \<and> c \<le> CHR ''Z'' \<or> CHR ''a'' \<le> c \<and> c \<le> CHR ''z''"

subsection \<open>Building strings\<close>

function string_multiply :: "string \<Rightarrow> nat \<Rightarrow> string" where
  "string_multiply s cnt =
     (if cnt = 1 then s
      else if odd cnt then let tmp = string_multiply s (cnt - 1) in tmp @ s
      else if cnt \<noteq> 0 then let tmp = string_multiply s (cnt div 2) in tmp @ tmp
      else [])"
  by pat_completeness auto
termination
  by (relation "measure snd") (auto simp: odd_pos)

declare string_multiply.simps [simp del]

fun canonify_rest :: "string \<Rightarrow> string \<Rightarrow> string \<Rightarrow> string \<Rightarrow> string" where
  "canonify_rest valids substitute [] d = d"
| "canonify_rest valids substitute (c # p) d =
     canonify_rest valids substitute p (if strchr valids c then d @ [c] else d @ substitute)"

fun canonify_scan :: "string \<Rightarrow> string \<Rightarrow> nat option" where
  "canonify_scan valids [] = None"
| "canonify_scan valids (c # p) = (if \<not> strchr valids c then Some 0 else map_option Suc (canonify_scan valids p))"

definition string_canonify :: "string \<Rightarrow> string \<Rightarrow> string \<Rightarrow> string" where
  "string_canonify s valid_chars substitute =
     (case canonify_scan valid_chars s of
        None \<Rightarrow> s
      | Some i \<Rightarrow> canonify_rest valid_chars substitute (drop (Suc i) s) (substr s 0 i @ substitute))"

definition string_is_canonified :: "string \<Rightarrow> string \<Rightarrow> bool" where
  "string_is_canonified s valid_chars \<longleftrightarrow> list_all (strchr valid_chars) s"

definition string_set_a2z :: string where "string_set_a2z = ''abcdefghijklmnopqrstuvwxyz''"
definition string_set_A2Z :: string where "string_set_A2Z = ''ABCDEFGHIJKLMNOPQRSTUVWXYZ''"

definition string_set_ascii_alnum :: string where
  "string_set_ascii_alnum = ''0123456789'' @ ''ABCDEFGHIJKLMNOPQRSTUVWXYZ'' @ ''abcdefghijklmnopqrstuvwxyz''"

definition string_is_ascii_alnum :: "string \<Rightarrow> bool" where
  "string_is_ascii_alnum s \<longleftrightarrow> list_all (strchr string_set_ascii_alnum) s"

subsection \<open>Case conversion\<close>

text \<open>
  \<open>Unicode::tolower\<close> and its siblings are glib functions on code points: an argument \<open>conv\<close>.  A signed
  \<open>char\<close> is widened to \<open>unichar\<close> and the result is cut to 8 bits.
\<close>

definition unichar_of :: "char \<Rightarrow> u32" where
  "unichar_of c = word_of_int (sint (of_char c :: u8))"

definition char_of_unichar :: "u32 \<Rightarrow> char" where
  "char_of_unichar u = char_of (unat (ucast u :: u8))"

definition convert_char :: "(u32 \<Rightarrow> u32) \<Rightarrow> char \<Rightarrow> char" where
  "convert_char conv c = char_of_unichar (conv (unichar_of c))"

definition string_tolower :: "(u32 \<Rightarrow> u32) \<Rightarrow> string \<Rightarrow> string" where
  "string_tolower lower s = map (convert_char lower) s"

definition string_toupper :: "(u32 \<Rightarrow> u32) \<Rightarrow> string \<Rightarrow> string" where
  "string_toupper upper s = map (convert_char upper) s"

definition string_totitle :: "(u32 \<Rightarrow> u32) \<Rightarrow> string \<Rightarrow> string" where
  "string_totitle title s = map (convert_char title) s"

text \<open>The tests compare the widened character with the converted one.\<close>

definition string_islower :: "(u32 \<Rightarrow> u32) \<Rightarrow> string \<Rightarrow> bool" where
  "string_islower lower s \<longleftrightarrow> list_all (\<lambda>c. unichar_of c = lower (unichar_of c)) s"

definition string_isupper :: "(u32 \<Rightarrow> u32) \<Rightarrow> string \<Rightarrow> bool" where
  "string_isupper upper s \<longleftrightarrow> list_all (\<lambda>c. unichar_of c = upper (unichar_of c)) s"

fun capitalize_loop :: "(u32 \<Rightarrow> u32) \<Rightarrow> (u32 \<Rightarrow> u32) \<Rightarrow> nat \<Rightarrow> bool \<Rightarrow> bool \<Rightarrow> string \<Rightarrow> string" where
  "capitalize_loop upper lower maxn rest_tolower wasalpha [] = []"
| "capitalize_loop upper lower maxn rest_tolower wasalpha (c # s) =
     (let atalpha = c_isalpha c in
      if \<not> wasalpha \<and> atalpha then
        if maxn = 0 then c # s
        else convert_char upper c # capitalize_loop upper lower (maxn - 1) rest_tolower atalpha s
      else
        (if rest_tolower then convert_char lower c else c) #
          capitalize_loop upper lower maxn rest_tolower atalpha s)"

definition string_capitalize :: "(u32 \<Rightarrow> u32) \<Rightarrow> (u32 \<Rightarrow> u32) \<Rightarrow> string \<Rightarrow> nat \<Rightarrow> bool \<Rightarrow> string" where
  "string_capitalize upper lower s maxn rest_tolower = capitalize_loop upper lower maxn rest_tolower False s"

definition string_to_identifier :: "(u32 \<Rightarrow> u32) \<Rightarrow> string \<Rightarrow> string" where
  "string_to_identifier lower input =
     (let validset = ''0123456789'' @ ''abcdefghijklmnopqrstuvwxyz'' @ ''_'';
          ident = string_canonify (string_tolower lower input) validset ''_'' in
      if ident \<noteq> [] \<and> hd ident \<le> CHR ''9'' then CHR ''_'' # ident else ident)"

subsection \<open>Splitting and joining\<close>

text \<open>
  The loops over \<open>i\<close> keep the start \<open>l\<close> of the current piece and the pieces \<open>sv\<close>; they end at the end of
  the string or at \<open>maxn\<close> pieces, and the rest of the string becomes the last piece.
\<close>

definition whitespaces :: string where
  "whitespaces = [CHR 0x20, CHR 0x09, CHR 0x0A, CHR 0x0D, CHR 0x0C, CHR 0x0B]"

definition last_piece :: "string \<Rightarrow> nat \<Rightarrow> string list \<Rightarrow> string list" where
  "last_piece s l sv = (if length s \<ge> l then sv @ [substr s l (length s - l)] else sv)"

function whitesplit_loop :: "string \<Rightarrow> nat \<Rightarrow> nat \<Rightarrow> nat \<Rightarrow> string list \<Rightarrow> string list" where
  "whitesplit_loop s maxn i l sv =
     (if i < length s \<and> length sv < maxn then
        if strchr whitespaces (s ! i)
        then whitesplit_loop s maxn (Suc i) (Suc i) (if i > l then sv @ [substr s l (i - l)] else sv)
        else whitesplit_loop s maxn (Suc i) l sv
      else if length s > l then sv @ [substr s l (length s - l)] else sv)"
  by pat_completeness auto
termination
  by (relation "measure (\<lambda>(s, _, i, _, _). length s - i)") auto

definition string_whitesplit :: "string \<Rightarrow> nat \<Rightarrow> string list" where
  "string_whitesplit s maxn = whitesplit_loop s maxn 0 0 []"

function split_loop :: "string \<Rightarrow> string \<Rightarrow> nat \<Rightarrow> nat \<Rightarrow> nat \<Rightarrow> string list \<Rightarrow> string list" where
  "split_loop splitter s maxn i l sv =
     (if i < length s \<and> length sv < maxn then
        if substr s i (length splitter) = splitter
        then split_loop splitter s maxn (Suc i) (i + length splitter)
               (if i \<ge> l then sv @ [substr s l (i - l)] else sv)
        else split_loop splitter s maxn (Suc i) l sv
      else last_piece s l sv)"
  by pat_completeness auto
termination
  by (relation "measure (\<lambda>(_, s, _, i, _, _). length s - i)") auto

definition string_split :: "string \<Rightarrow> string \<Rightarrow> nat \<Rightarrow> string list" where
  "string_split s splitter maxn =
     (if splitter = [] then string_whitesplit s maxn else split_loop splitter s maxn 0 0 [])"

function split_any_loop :: "string \<Rightarrow> string \<Rightarrow> nat \<Rightarrow> nat \<Rightarrow> nat \<Rightarrow> string list \<Rightarrow> string list" where
  "split_any_loop splitchars s maxn i l sv =
     (if i < length s \<and> length sv < maxn then
        if strchr splitchars (s ! i)
        then split_any_loop splitchars s maxn (Suc i) (Suc i) (if i \<ge> l then sv @ [substr s l (i - l)] else sv)
        else split_any_loop splitchars s maxn (Suc i) l sv
      else last_piece s l sv)"
  by pat_completeness auto
termination
  by (relation "measure (\<lambda>(_, s, _, i, _, _). length s - i)") auto

definition split_chars :: "string \<Rightarrow> nat \<Rightarrow> string list" where
  "split_chars s maxn =
     (let i = min (length s) maxn; sv = map (\<lambda>c. [c]) (take i s) in
      if i < length s then sv @ [substr s i (length s - i)] else sv)"

definition string_split_any :: "string \<Rightarrow> string \<Rightarrow> nat \<Rightarrow> string list" where
  "string_split_any s splitchars maxn =
     (if splitchars = [] then split_chars s maxn else split_any_loop splitchars s maxn 0 0 [])"

declare whitesplit_loop.simps [simp del] split_loop.simps [simp del] split_any_loop.simps [simp del]

fun join_rest :: "string \<Rightarrow> string \<Rightarrow> string list \<Rightarrow> string" where
  "join_rest junctor s [] = s"
| "join_rest junctor s (x # xs) = join_rest junctor (s @ junctor @ x) xs"

definition string_join :: "string \<Rightarrow> string list \<Rightarrow> string" where
  "string_join junctor strvec = (case strvec of [] \<Rightarrow> [] | x # xs \<Rightarrow> join_rest junctor x xs)"

subsection \<open>Stripping and replacing\<close>

definition string_lstrip :: "string \<Rightarrow> string" where
  "string_lstrip input = dropWhile (strchr whitespaces) input"

definition strip_end :: "string \<Rightarrow> nat" where
  "strip_end input = length input - length (takeWhile (strchr whitespaces) (rev input))"

definition string_rstrip :: "string \<Rightarrow> string" where
  "string_rstrip input = substr input 0 (strip_end input)"

definition string_strip :: "string \<Rightarrow> string" where
  "string_strip input =
     (let a = length (takeWhile (strchr whitespaces) input); b = strip_end input in
      if a = 0 \<and> b = length input then input else if b = 0 then [] else substr input a (b - a))"

definition string_vector_lstrip :: "string list \<Rightarrow> string list" where
  "string_vector_lstrip svector = map string_lstrip svector"

definition string_vector_rstrip :: "string list \<Rightarrow> string list" where
  "string_vector_rstrip svector = map string_rstrip svector"

definition string_vector_strip :: "string list \<Rightarrow> string list" where
  "string_vector_strip svector = map string_strip svector"

fun erase_empty_loop :: "nat \<Rightarrow> string list \<Rightarrow> string list" where
  "erase_empty_loop 0 svector = svector"
| "erase_empty_loop (Suc idx) svector =
     erase_empty_loop idx (if svector ! idx = [] then erase_at idx svector else svector)"

definition string_vector_erase_empty :: "string list \<Rightarrow> string list" where
  "string_vector_erase_empty svector = erase_empty_loop (length svector) svector"

fun replace_loop :: "string \<Rightarrow> string \<Rightarrow> nat \<Rightarrow> nat option \<Rightarrow> string \<Rightarrow> string" where
  "replace_loop marker replacement 0 i s = s"
| "replace_loop marker replacement (Suc maxn) None s = s"
| "replace_loop marker replacement (Suc maxn) (Some i) s =
     (let s' = substr s 0 i @ replacement @ drop (i + length marker) s in
      replace_loop marker replacement maxn (string_find s' marker (i + length replacement)) s')"

definition string_replace :: "string \<Rightarrow> string \<Rightarrow> string \<Rightarrow> nat \<Rightarrow> string" where
  "string_replace input marker replacement maxn =
     replace_loop marker replacement maxn (string_find input marker 0) input"

definition string_substitute_char :: "string \<Rightarrow> char \<Rightarrow> char \<Rightarrow> string" where
  "string_substitute_char input match subst =
     (if match \<noteq> subst then map (\<lambda>c. if c = match then subst else c) input else input)"

subsection \<open>Tests of strings\<close>

definition string_startswith :: "string \<Rightarrow> string \<Rightarrow> bool" where
  "string_startswith s fragment \<longleftrightarrow> length fragment \<le> length s \<and> substr s 0 (length fragment) = fragment"

definition string_startswith_any :: "string \<Rightarrow> string list \<Rightarrow> bool" where
  "string_startswith_any s fragments \<longleftrightarrow> list_ex (string_startswith s) fragments"

definition string_endswith :: "string \<Rightarrow> string \<Rightarrow> bool" where
  "string_endswith s fragment \<longleftrightarrow>
     length fragment \<le> length s \<and> substr s (length s - length fragment) (length fragment) = fragment"

definition string_endswith_any :: "string \<Rightarrow> string list \<Rightarrow> bool" where
  "string_endswith_any s fragments \<longleftrightarrow> list_ex (string_endswith s) fragments"

definition is_hex_digit :: "char \<Rightarrow> bool" where
  "is_hex_digit c \<longleftrightarrow>
     CHR ''0'' \<le> c \<and> c \<le> CHR ''9'' \<or> CHR ''a'' \<le> c \<and> c \<le> CHR ''f'' \<or> CHR ''A'' \<le> c \<and> c \<le> CHR ''F''"

definition string_is_uuid :: "string \<Rightarrow> bool" where
  "string_is_uuid uuid \<longleftrightarrow>
     length uuid = 36 \<and>
     list_all (\<lambda>(i, c). if i = 8 \<or> i = 13 \<or> i = 18 \<or> i = 23 then c = CHR ''-'' else is_hex_digit c) (enumerate 0 uuid)"

definition identifier_char_canon :: "char \<Rightarrow> char" where
  "identifier_char_canon c =
     (if CHR ''0'' \<le> c \<and> c \<le> CHR ''9'' then c
      else if CHR ''A'' \<le> c \<and> c \<le> CHR ''Z'' then char_of (of_char c + (32 :: nat))
      else if CHR ''a'' \<le> c \<and> c \<le> CHR ''z'' then c
      else CHR ''-'')"

text \<open>Both arguments are C strings.\<close>

fun identifier_match :: "string \<Rightarrow> string \<Rightarrow> bool" where
  "identifier_match (a # s) (b # t) \<longleftrightarrow>
     identifier_char_canon a = identifier_char_canon b \<and> identifier_match s t"
| "identifier_match s t \<longleftrightarrow> s = [] \<and> t = []"

definition match_identifier_detailed :: "string \<Rightarrow> string \<Rightarrow> bool" where
  "match_identifier_detailed ident tail =
     (if \<not> length ident \<ge> length tail then False
      else
        let w = length ident - length tail; word = drop w ident in
        if w > 0 \<and> c_isalnum (ident ! (w - 1)) \<and> c_isalnum (if word = [] then NUL else hd word) then False
        else identifier_match (cstr word) (cstr tail))"

definition string_match_identifier_tail :: "string \<Rightarrow> string \<Rightarrow> bool" where
  "string_match_identifier_tail ident tail \<longleftrightarrow> length ident \<ge> length tail \<and> match_identifier_detailed ident tail"

definition string_match_identifier :: "string \<Rightarrow> string \<Rightarrow> bool" where
  "string_match_identifier ident1 ident2 \<longleftrightarrow> length ident1 = length ident2 \<and> match_identifier_detailed ident1 ident2"

subsection \<open>Facts about the pieces\<close>

lemma string_multiply_correct: "string_multiply s n = concat (replicate n s)"
proof (induction s n rule: string_multiply.induct)
  case (1 s n)
  show ?case
  proof (cases "n = 1 \<or> n = 0")
    case True
    then show ?thesis by (auto simp: string_multiply.simps [of s n])
  next
    case False
    show ?thesis
    proof (cases "odd n")
      case True
      then have "string_multiply s n = concat (replicate (n - 1) s) @ s"
        using False 1(1) by (simp add: string_multiply.simps [of s n] Let_def)
      also have "\<dots> = concat (replicate (n - 1) s @ [s])" by simp
      also have "replicate (n - 1) s @ [s] = replicate n s"
        using False by (cases n) (simp_all add: replicate_append_same)
      finally show ?thesis .
    next
      case even: False
      then have "string_multiply s n = concat (replicate (n div 2) s) @ concat (replicate (n div 2) s)"
        using False 1(2) by (simp add: string_multiply.simps [of s n] Let_def)
      also have "\<dots> = concat (replicate (n div 2 + n div 2) s)" by (simp add: replicate_add)
      also have "n div 2 + n div 2 = n" using even by presburger
      finally show ?thesis .
    qed
  qed
qed

lemma canonify_rest_map:
  "canonify_rest valids sub p d = d @ concat (map (\<lambda>c. if strchr valids c then [c] else sub) p)"
  by (induction valids sub p d rule: canonify_rest.induct) auto

lemma canonify_scan_take:
  "canonify_scan valids p = Some i \<Longrightarrow> i < length p \<and> \<not> strchr valids (p ! i) \<and> (\<forall>c\<in>set (take i p). strchr valids c)"
proof (induction valids p arbitrary: i rule: canonify_scan.induct)
  case (2 valids c p)
  then show ?case by (cases i) (auto split: if_splits)
qed simp

lemma canonify_scan_none: "canonify_scan valids p = None \<longleftrightarrow> (\<forall>c\<in>set p. strchr valids c)"
  by (induction valids p rule: canonify_scan.induct) auto

lemma concat_map_single: "\<forall>c\<in>set p. P c \<Longrightarrow> concat (map (\<lambda>c. if P c then [c] else q) p) = p"
  by (induction p) auto

lemma string_canonify_map:
  "string_canonify s valids sub = concat (map (\<lambda>c. if strchr valids c then [c] else sub) s)"
proof (cases "canonify_scan valids s")
  case None
  then show ?thesis using canonify_scan_none [of valids s] concat_map_single [of s "strchr valids" sub]
    by (simp add: string_canonify_def)
next
  case (Some i)
  note sc = canonify_scan_take [OF Some]
  have s: "s = take i s @ s ! i # drop (Suc i) s" using sc id_take_nth_drop by blast
  have "concat (map (\<lambda>c. if strchr valids c then [c] else sub) (take i s)) = take i s"
    using sc concat_map_single [of "take i s" "strchr valids" sub] by blast
  then have "concat (map (\<lambda>c. if strchr valids c then [c] else sub) s) =
      take i s @ sub @ concat (map (\<lambda>c. if strchr valids c then [c] else sub) (drop (Suc i) s))"
    using sc by (subst s) simp
  then show ?thesis using Some by (simp add: string_canonify_def canonify_rest_map substr_def)
qed

lemma string_canonify_canonified:
  "string_is_canonified sub valids \<Longrightarrow> string_is_canonified (string_canonify s valids sub) valids"
  by (auto simp: string_canonify_map string_is_canonified_def list_all_iff split: if_splits)

lemma string_is_canonified_iff: "string_is_canonified s valids \<Longrightarrow> string_canonify s valids sub = s"
  using concat_map_single [of s "strchr valids" sub]
  by (simp add: string_canonify_map string_is_canonified_def list_all_iff)

lemma join_rest_append: "join_rest j s (xs @ ys) = join_rest j (join_rest j s xs) ys"
  by (induction j s xs rule: join_rest.induct) auto

lemma string_join_snoc: "string_join j (xs @ [x]) = (if xs = [] then x else string_join j xs @ j @ x)"
  by (cases xs) (simp_all add: string_join_def join_rest_append)

lemma strip_end_le: "strip_end s \<le> length s"
  by (simp add: strip_end_def)

lemma rstrip_dropWhile: "string_rstrip s = rev (dropWhile (strchr whitespaces) (rev s))"
proof -
  let ?n = "length (takeWhile (strchr whitespaces) (rev s))"
  have "dropWhile (strchr whitespaces) (rev s) = drop ?n (rev s)" by (rule dropWhile_eq_drop)
  then show ?thesis by (simp add: string_rstrip_def strip_end_def substr_def rev_drop)
qed

lemma string_strip_both: "string_strip s = string_rstrip (string_lstrip s)"
proof -
  let ?P = "strchr whitespaces"
  let ?a = "length (takeWhile ?P s)" and ?t = "dropWhile ?P s"
  have d: "?t = drop ?a s" by (rule dropWhile_eq_drop)
  show ?thesis
  proof (cases "?t = []")
    case True
    then have "\<forall>c\<in>set s. ?P c" by (simp add: dropWhile_eq_Nil_conv)
    then have "strip_end s = 0" by (simp add: strip_end_def takeWhile_eq_all_conv [THEN iffD2])
    then show ?thesis using True by (auto simp: string_strip_def string_lstrip_def string_rstrip_def Let_def substr_def)
  next
    case False
    then have n: "\<not> ?P (hd ?t)" by (simp add: hd_dropWhile)
    have s: "s = takeWhile ?P s @ ?t" by simp
    have ex: "hd ?t \<in> set (rev ?t)" using False by simp
    then have tw: "takeWhile ?P (rev ?t @ rev (takeWhile ?P s)) = takeWhile ?P (rev ?t)" using n by (rule takeWhile_append1)
    have "rev s = rev ?t @ rev (takeWhile ?P s)" by (metis rev_append s)
    then have tw: "takeWhile ?P (rev s) = takeWhile ?P (rev ?t)" using tw by simp
    have l: "length s = ?a + length ?t" by (metis length_append s)
    have "dropWhile ?P (rev ?t) \<noteq> []" using ex n dropWhile_eq_Nil_conv [of ?P "rev ?t"] by blast
    then obtain u us where "dropWhile ?P (rev ?t) = u # us" by (cases "dropWhile ?P (rev ?t)") auto
    then have "rev ?t = takeWhile ?P (rev ?t) @ u # us" using takeWhile_dropWhile_id [of ?P "rev ?t"] by simp
    then have "length (rev ?t) = length (takeWhile ?P (rev ?t) @ u # us)" by (rule arg_cong)
    then have "length (takeWhile ?P (rev ?t)) < length ?t" unfolding length_append length_rev by simp
    then have e: "strip_end s = ?a + strip_end ?t" "strip_end ?t > 0" 
      unfolding strip_end_def tw l by linarith+
    show ?thesis
    proof (cases "?a = 0 \<and> strip_end s = length s")
      case True
      then have "?t = s" using d by (metis drop0)
      moreover have "string_strip s = s" using True unfolding string_strip_def Let_def by simp
      ultimately show ?thesis using True unfolding string_lstrip_def string_rstrip_def substr_def by simp
    next
      case False
      then have "string_strip s = substr s ?a (strip_end s - ?a)"
        using e unfolding string_strip_def Let_def by (metis add_is_0 less_irrefl)
      also have "\<dots> = substr ?t 0 (strip_end ?t)" unfolding e(1) substr_def d [symmetric] by simp
      finally show ?thesis unfolding string_lstrip_def string_rstrip_def .
    qed
  qed
qed

subsection \<open>Splitting at one character\<close>

definition split_state :: "char \<Rightarrow> string \<Rightarrow> nat \<Rightarrow> nat \<Rightarrow> nat \<Rightarrow> string list \<Rightarrow> bool" where
  "split_state c s maxn i l sv \<longleftrightarrow>
     l \<le> i \<and> i \<le> length s \<and> length sv \<le> maxn \<and> (\<forall>x\<in>set sv. c \<notin> set x) \<and> c \<notin> set (substr s l (i - l)) \<and>
     (if sv = [] then l = 0 else string_join [c] sv @ [c] = take l s)"

definition split_result :: "char \<Rightarrow> string \<Rightarrow> nat \<Rightarrow> string list \<Rightarrow> bool" where
  "split_result c s maxn r \<longleftrightarrow>
     string_join [c] r = s \<and> length r \<le> Suc maxn \<and> (\<forall>x\<in>set (butlast r). c \<notin> set x) \<and>
     (length r \<le> maxn \<longrightarrow> c \<notin> set (last r))"

lemma substr_snoc: "l \<le> i \<Longrightarrow> i < length s \<Longrightarrow> substr s l (Suc i - l) = substr s l (i - l) @ [s ! i]"
  by (simp add: substr_def Suc_diff_le take_Suc_conv_app_nth)

lemma split_loop_single:
  "split_state c s maxn i l sv \<Longrightarrow> split_result c s maxn (split_loop [c] s maxn i l sv)"
proof (induction "[c]" s maxn i l sv rule: split_loop.induct)
  case (1 s maxn i l sv)
  note st = "1.prems" [unfolded split_state_def]
  show ?case
  proof (cases "i < length s \<and> length sv < maxn")
    case True
    have sn: "substr s l (Suc i - l) = substr s l (i - l) @ [s ! i]" using substr_snoc st True by blast
    show ?thesis
    proof (cases "s ! i = c")
      case eq: True
      then have m: "substr s i (length [c]) = [c]" using True by (simp add: substr_def take_Suc_conv_app_nth)
      let ?x = "substr s l (i - l)"
      have t: "take l s @ ?x = take i s" using st by (simp add: substr_def) (metis le_add_diff_inverse take_add)
      have j: "string_join [c] (sv @ [?x]) = take i s"
      proof (cases "sv = []")
        case False
        then have "string_join [c] sv @ [c] = take l s" using st by simp
        then have "string_join [c] (sv @ [?x]) = take l s @ ?x" using False by (simp add: string_join_snoc)
        then show ?thesis using t by simp
      qed (use st t string_join_snoc [of "[c]" "[]" ?x] in simp)
      have "split_state c s maxn (Suc i) (Suc i) (sv @ [?x])"
        unfolding split_state_def using st True j eq
        by (auto simp: substr_def take_Suc_conv_app_nth)
      then have "split_result c s maxn (split_loop [c] s maxn (Suc i) (i + length [c]) (if i \<ge> l then sv @ [?x] else sv))"
        using "1.hyps"(1) [OF True m] st by simp
      then show ?thesis using True m by (subst split_loop.simps) simp
    next
      case neq: False
      then have m: "substr s i (length [c]) \<noteq> [c]" using True by (simp add: substr_def take_Suc_conv_app_nth)
      have "split_state c s maxn (Suc i) l sv"
        unfolding split_state_def using st True neq sn by auto
      then show ?thesis using "1.hyps"(2) [OF True m] True m by (subst split_loop.simps) simp
    qed
  next
    case False
    let ?x = "substr s l (length s - l)"
    have r: "split_loop [c] s maxn i l sv = sv @ [?x]"
      using False st by (subst split_loop.simps) (auto simp: last_piece_def)
    have t: "take l s @ ?x = s" by (simp add: substr_def)
    have "string_join [c] (sv @ [?x]) = s"
    proof (cases "sv = []")
      case False
      then have "string_join [c] sv @ [c] = take l s" using st by simp
      then have "(string_join [c] sv @ [c]) @ ?x = s" using t by simp
      then show ?thesis using False by (simp add: string_join_snoc)
    qed (use st t string_join_snoc [of "[c]" "[]" ?x] in simp)
    moreover have "c \<notin> set ?x" if "length sv < maxn" using False st that by auto
    ultimately show ?thesis using st unfolding r split_result_def by auto
  qed
qed

text \<open>
  Splitting at a single character and joining with it gives the string back, for every limit; there are
  at most \<open>maxn + 1\<close> pieces, and no piece contains the character except the last one when the limit was hit.
\<close>

theorem string_split_join:
  "string_join [c] (string_split s [c] maxn) = s \<and> length (string_split s [c] maxn) \<le> Suc maxn \<and>
   (\<forall>x\<in>set (butlast (string_split s [c] maxn)). c \<notin> set x)"
proof -
  have "split_state c s maxn 0 0 []" by (simp add: split_state_def substr_def)
  from split_loop_single [OF this] show ?thesis by (simp add: string_split_def split_result_def)
qed

text \<open>
  A longer splitter that overlaps itself loses characters: the three letters below are split into two
  empty pieces.
\<close>

lemma string_split_overlap: "string_split ''aaa'' ''aa'' 9 = [[], []]"
  by (simp add: string_split_def split_loop.simps substr_def last_piece_def)

text \<open>\<open>strchr\<close> finds the terminating NUL, so a NUL passes every character set and counts as white space.\<close>

lemma nul_passes: "string_is_ascii_alnum [NUL] \<and> string_strip [NUL] = []"
  by (simp add: string_is_ascii_alnum_def strchr_def string_strip_def strip_end_def Let_def)

end
