(* ===== verification/StringCodec.thy ===== *)
theory StringCodec
  imports Strings
begin

section \<open>String encodings (ase/strings.cc)\<close>

text \<open>
  URL escapes, C escapes and quotes, hexadecimal text, numbers and truth values.  The loops over an
  index are recursions over the rest of the string; a look ahead past the end reads the NUL of \<open>c_str()\<close>,
  which no test below accepts.
\<close>

subsection \<open>Digits\<close>

definition hex_upper :: string where "hex_upper = ''0123456789ABCDEF''"
definition hex_lower :: string where "hex_lower = ''0123456789abcdef''"

definition hex_value :: "char \<Rightarrow> nat" where
  "hex_value c =
     (if CHR ''0'' \<le> c \<and> c \<le> CHR ''9'' then of_char c - 48
      else if CHR ''a'' \<le> c \<and> c \<le> CHR ''f'' then of_char c - 87
      else of_char c - 55)"

definition is_octal :: "char \<Rightarrow> bool" where
  "is_octal c \<longleftrightarrow> CHR ''0'' \<le> c \<and> c \<le> CHR ''7''"

definition digit_value :: "char \<Rightarrow> nat" where "digit_value c = of_char c - 48"
definition digit_char :: "nat \<Rightarrow> char" where "digit_char n = char_of (n + 48)"

subsection \<open>URL escapes\<close>

definition url_unescaped :: string where "url_unescaped = ''-._~'' @ ''[]!()*''"

definition url_encode_char :: "bool \<Rightarrow> char \<Rightarrow> string" where
  "url_encode_char form_url_encoded c =
     (if c_isalnum c \<or> strchr url_unescaped c then [c]
      else if form_url_encoded \<and> c = CHR '' '' then ''+''
      else [CHR ''%'', hex_upper ! (of_char c div 16), hex_upper ! (of_char c mod 16)])"

definition string_url_encode :: "string \<Rightarrow> bool \<Rightarrow> string" where
  "string_url_encode rawstr form_url_encoded = concat (map (url_encode_char form_url_encoded) rawstr)"

fun url_decode_loop :: "bool \<Rightarrow> string \<Rightarrow> string" where
  "url_decode_loop form (c # a # b # s) =
     (if c = CHR ''%'' \<and> is_hex_digit a \<and> is_hex_digit b
      then char_of (16 * hex_value a + hex_value b) # url_decode_loop form s
      else (if form \<and> c = CHR ''+'' then CHR '' '' else c) # url_decode_loop form (a # b # s))"
| "url_decode_loop form (c # s) = (if form \<and> c = CHR ''+'' then CHR '' '' else c) # url_decode_loop form s"
| "url_decode_loop form [] = []"

definition string_url_decode :: "string \<Rightarrow> bool \<Rightarrow> string" where
  "string_url_decode urlstr form_url_encoded = url_decode_loop form_url_encoded urlstr"

subsection \<open>C escapes\<close>

definition cescape_char :: "char \<Rightarrow> string" where
  "cescape_char d =
     (if d = CHR 0x07 then [CHR 0x5C, CHR ''a'']
      else if d = CHR 0x08 then [CHR 0x5C, CHR ''b'']
      else if d = CHR 0x09 then [CHR 0x5C, CHR ''t'']
      else if d = CHR 0x0A then [CHR 0x5C, CHR ''n'']
      else if d = CHR 0x0B then [CHR 0x5C, CHR ''v'']
      else if d = CHR 0x0C then [CHR 0x5C, CHR ''f'']
      else if d = CHR 0x0D then [CHR 0x5C, CHR ''r'']
      else if d = CHR 0x22 then [CHR 0x5C, CHR 0x22]
      else if d = CHR 0x5C then [CHR 0x5C, CHR 0x5C]
      else if of_char d < (32 :: nat) \<or> of_char d > (126 :: nat)
      then [CHR 0x5C, digit_char (of_char d div 64), digit_char (of_char d div 8 mod 8), digit_char (of_char d mod 8)]
      else [d])"

definition string_to_cescape :: "string \<Rightarrow> string" where
  "string_to_cescape s = concat (map cescape_char s)"

definition string_to_cquote :: "string \<Rightarrow> string" where
  "string_to_cquote s = [CHR 0x22] @ string_to_cescape s @ [CHR 0x22]"

text \<open>The digits of an octal escape: the first and at most two more; the value is cut to a \<open>char\<close>.\<close>

definition octal_digits :: "string \<Rightarrow> string" where
  "octal_digits s = takeWhile is_octal (take 3 s)"

definition octal_value :: "string \<Rightarrow> nat" where
  "octal_value ds = fold (\<lambda>d oc. oc * 8 + digit_value d) ds 0"

definition escaped_char :: "char \<Rightarrow> char" where
  "escaped_char c =
     (if c = CHR ''a'' then CHR 0x07 else if c = CHR ''n'' then CHR 0x0A else if c = CHR ''r'' then CHR 0x0D
      else if c = CHR ''t'' then CHR 0x09 else if c = CHR ''b'' then CHR 0x08 else if c = CHR ''f'' then CHR 0x0C
      else if c = CHR ''v'' then CHR 0x0B else c)"

function unquote :: "char \<Rightarrow> bool \<Rightarrow> string \<Rightarrow> string \<Rightarrow> string \<times> string" where
  "unquote qchar be [] out = (out, [])"
| "unquote qchar be (c # s) out =
     (if c = qchar \<and> \<not> be then (out, c # s)
      else if \<not> be \<and> c = CHR 0x5C then unquote qchar True s out
      else if be then
        if is_octal c
        then let ds = octal_digits (c # s) in
             unquote qchar False (drop (length ds - 1) s) (out @ [char_of (octal_value ds)])
        else unquote qchar False s (out @ [escaped_char c])
      else unquote qchar False s (out @ [c]))"
  by pat_completeness auto
termination
  by (relation "measure (\<lambda>(_, _, s, _). length s)") auto

declare unquote.simps(2) [simp del]

definition string_from_cquote :: "string \<Rightarrow> string" where
  "string_from_cquote input =
     (case input of
        [] \<Rightarrow> input
      | qchar # s \<Rightarrow>
          if qchar = CHR 0x22 \<or> qchar = CHR 0x27
          then (case unquote qchar False s [] of
                  (out, [q]) \<Rightarrow> if q = qchar then out else input
                | _ \<Rightarrow> input)
          else input)"

subsection \<open>Hexadecimal text\<close>

definition hex_byte :: "char \<Rightarrow> string" where
  "hex_byte c = [hex_lower ! (of_char c div 16), hex_lower ! (of_char c mod 16)]"

definition string_to_hex :: "string \<Rightarrow> string" where
  "string_to_hex input = concat (map hex_byte input)"

text \<open>\<open>hex8\<close> is the \<open>%08x\<close> of the line offset, an argument.\<close>

fun hexdump_loop :: "(nat \<Rightarrow> string) \<Rightarrow> nat \<Rightarrow> nat \<Rightarrow> string \<Rightarrow> string \<Rightarrow> string \<Rightarrow> string \<Rightarrow> nat \<times> string \<times> string \<times> string" where
  "hexdump_loop hex8 off i cx cc out [] = (i, cx, cc, out)"
| "hexdump_loop hex8 off i cx cc out (d # data) =
     (let cx1 = (if i mod 8 = 0 then cx @ '' '' else cx) @ '' '' @ hex_byte d;
          cc1 = cc @ [if d < CHR '' '' \<or> d > CHR ''~'' then CHR ''.'' else d];
          i1 = Suc i in
      if i1 mod 16 = 0
      then hexdump_loop hex8 off i1 [] ''|''
             (out @ hex8 (off + i1 - 16) @ cx1 @ ''  '' @ cc1 @ ''|'' @ [CHR 0x0A]) data
      else hexdump_loop hex8 off i1 cx1 cc1 out data)"

function pad_columns :: "nat \<Rightarrow> string \<Rightarrow> nat \<times> string" where
  "pad_columns i cx =
     (if i mod 16 \<noteq> 0 then pad_columns (Suc i) ((if i mod 8 = 0 then cx @ '' '' else cx) @ ''   '') else (i, cx))"
  by pat_completeness auto
termination
  by (relation "measure (\<lambda>(i, _). (16 - i mod 16) mod 16)") (auto simp: mod_Suc)

declare pad_columns.simps [simp del]

definition string_hexdump :: "(nat \<Rightarrow> string) \<Rightarrow> string \<Rightarrow> nat \<Rightarrow> string" where
  "string_hexdump hex8 data initial_offset =
     (let (i, cx, cc, out) = hexdump_loop hex8 initial_offset 0 [] ''|'' [] data in
      if i mod 16 \<noteq> 0
      then let (i', cx') = pad_columns i cx in
           out @ hex8 (initial_offset + i' - 16) @ cx' @ ''  '' @ cc @ ''|'' @ [CHR 0x0A]
      else out)"

subsection \<open>Numbers and truth values\<close>

definition is_digit :: "char \<Rightarrow> bool" where
  "is_digit c \<longleftrightarrow> CHR ''0'' \<le> c \<and> c \<le> CHR ''9''"

definition number_spaces :: "char \<Rightarrow> bool" where
  "number_spaces c \<longleftrightarrow> c = CHR '' '' \<or> c = CHR 0x0A \<or> c = CHR 0x09 \<or> c = CHR 0x0D"

definition isspace :: "char \<Rightarrow> bool" where
  "isspace c \<longleftrightarrow> c \<in> set whitespaces"

text \<open>
  \<open>strtoull (s, &end, base)\<close> of the C library, of a C string: leading white space, a sign, an optional
  \<open>0x\<close> for base 16, digits; the value is capped at \<open>2 ^ 64 - 1\<close> and a minus sign negates it modulo
  \<open>2 ^ 64\<close>.  The second component is how many characters were read, 0 without digits.
\<close>

definition digit_in :: "nat \<Rightarrow> char \<Rightarrow> bool" where
  "digit_in base c \<longleftrightarrow>
     (is_digit c \<or> c_isalpha c) \<and>
     (if is_digit c then digit_value c else if c \<ge> CHR ''a'' then of_char c - 87 else of_char c - 55) < base"

definition digit_of :: "char \<Rightarrow> nat" where
  "digit_of c = (if is_digit c then digit_value c else if c \<ge> CHR ''a'' then of_char c - 87 else of_char c - 55)"

definition number_value :: "nat \<Rightarrow> string \<Rightarrow> nat" where
  "number_value base ds = fold (\<lambda>d n. n * base + digit_of d) ds 0"

definition strtoull :: "string \<Rightarrow> nat \<Rightarrow> u64 \<times> nat" where
  "strtoull s base =
     (let sp = takeWhile isspace s; s1 = drop (length sp) s;
          sign = (if s1 \<noteq> [] \<and> (hd s1 = CHR ''-'' \<or> hd s1 = CHR ''+'') then 1 else 0); s2 = drop sign s1;
          pre = (if base = 16 \<and> take 1 s2 = ''0'' \<and> (take 1 (drop 1 s2) = ''x'' \<or> take 1 (drop 1 s2) = ''X'')
                   \<and> take 1 (drop 2 s2) \<noteq> [] \<and> digit_in 16 (s2 ! 2) then 2 else 0);
          ds = takeWhile (digit_in base) (drop pre s2); v = number_value base ds in
      if ds = [] then (0, 0)
      else
        (let w = (if v < 2 ^ 64 then of_nat v else - 1 :: u64) in
         (if sign = 1 \<and> hd s1 = CHR ''-'' \<and> v < 2 ^ 64 then - w else w),
         length sp + sign + pre + length ds))"

definition hex_prefix :: "string \<Rightarrow> bool" where
  "hex_prefix p \<longleftrightarrow> take 1 p = ''0'' \<and> (take 1 (drop 1 p) = ''X'' \<or> take 1 (drop 1 p) = ''x'')"

text \<open>\<open>string_to_uint\<close> and \<open>string_to_int\<close> return the value and \<open>consumed\<close>.\<close>

definition string_to_uint :: "string \<Rightarrow> nat \<Rightarrow> u64 \<times> nat" where
  "string_to_uint s base =
     (let start = cstr s; sp = takeWhile number_spaces start; p = drop (length sp) start;
          hex = hex_prefix p; number = (if hex then drop 2 p else p);
          (result, k) = strtoull number (if hex then 16 else base) in
      (result, if k = 0 then 0 else length start - length number + k))"

definition string_has_int :: "string \<Rightarrow> bool" where
  "string_has_int s = (case dropWhile number_spaces (cstr s) of [] \<Rightarrow> False | c # _ \<Rightarrow> is_digit c)"

definition string_to_int :: "string \<Rightarrow> nat \<Rightarrow> int \<times> nat" where
  "string_to_int s base =
     (let start = cstr s; sp = takeWhile number_spaces start; p0 = drop (length sp) start;
          negate = (take 1 p0 = ''-''); p = (if negate then drop 1 p0 else p0);
          hex = hex_prefix p; number = (if hex then drop 2 p else p);
          (result, k) = strtoull number (if hex then 16 else base) in
      (if result < 9223372036854775808
       then (if negate then - uint result else uint result)
       else (if negate then - 9223372036854775808 else 9223372036854775807),
       if k = 0 then 0 else length start - length number + k))"

definition string_from_bool :: "bool \<Rightarrow> string" where
  "string_from_bool b = (if b then ''1'' else ''0'')"

definition to_upper :: "char \<Rightarrow> char" where
  "to_upper c = (if CHR ''a'' \<le> c \<and> c \<le> CHR ''z'' then char_of (of_char c - (32 :: nat)) else c)"

text \<open>\<open>strncasecmp (p, q, n) == 0\<close> for C strings.\<close>

definition strncasecmp_eq :: "string \<Rightarrow> string \<Rightarrow> nat \<Rightarrow> bool" where
  "strncasecmp_eq p q n \<longleftrightarrow> map to_upper (take n p) = map to_upper (take n q)"

definition cstring_to_bool :: "string option \<Rightarrow> bool \<Rightarrow> bool" where
  "cstring_to_bool str fallback =
     (case str of
        None \<Rightarrow> fallback
      | Some s \<Rightarrow>
          let p0 = dropWhile isspace s;
              p = (if take 1 p0 = ''-'' \<or> take 1 p0 = ''+'' then dropWhile isspace (drop 1 p0) else p0) in
          if p \<noteq> [] \<and> is_digit (hd p) then fst (string_to_uint p 10) \<noteq> 0
          else if strncasecmp_eq p ''ON'' 2 then True
          else if strncasecmp_eq p ''OFF'' 3 then False
          else if p = [] then fallback
          else hd p \<in> set ''YyTt'')"

definition string_to_bool :: "string \<Rightarrow> bool \<Rightarrow> bool" where
  "string_to_bool s fallback = cstring_to_bool (Some (cstr s)) fallback"


subsection \<open>Round trips\<close>

lemma hex_digits_upper:
  "n < 16 \<Longrightarrow> is_hex_digit (hex_upper ! n) \<and> hex_value (hex_upper ! n) = n"
proof -
  have "\<forall>n\<in>set [0..<16]. is_hex_digit (hex_upper ! n) \<and> hex_value (hex_upper ! n) = n"
    by code_simp
  then show "n < 16 \<Longrightarrow> ?thesis" by simp
qed

lemma of_char_nibbles:
  "(of_char c :: nat) div 16 < 16" "(of_char c :: nat) mod 16 < 16"
  by (simp_all add: less_mult_imp_div_less)

lemma url_decode_plain:
  "c \<noteq> CHR ''%'' \<Longrightarrow> url_decode_loop form (c # t) = (if form \<and> c = CHR ''+'' then CHR '' '' else c) # url_decode_loop form t"
  by (cases "(form, c # t)" rule: url_decode_loop.cases) auto

lemma unescaped_not_special:
  "c_isalnum c \<or> strchr url_unescaped c \<Longrightarrow> c \<noteq> CHR ''%'' \<and> c \<noteq> CHR ''+''"
  by (auto simp: c_isalnum_def c_isalpha_def strchr_def url_unescaped_def cstr_def)

lemma url_decode_encoded_char:
  "url_decode_loop form (url_encode_char form c @ t) = c # url_decode_loop form t"
proof -
  have "of_char c div 16 * 16 + of_char c mod (16::nat) = of_char c" by simp
  then have "char_of (16 * (of_char c div 16) + of_char c mod (16::nat)) = c"
    by (metis char_of_char mult.commute)
  then show ?thesis
    using unescaped_not_special [of c] hex_digits_upper [OF of_char_nibbles(1) [of c]]
      hex_digits_upper [OF of_char_nibbles(2) [of c]]
    by (auto simp: url_encode_char_def url_decode_plain)
qed

text \<open>
  Decoding inverts the URL encoder: for every byte string and both settings of
  \<open>form_url_encoded\<close>, \<open>string_url_decode\<close> of \<open>string_url_encode\<close> gives the string back.
\<close>

theorem string_url_roundtrip:
  "string_url_decode (string_url_encode s form) form = s"
  unfolding string_url_decode_def string_url_encode_def
  by (induction s) (auto simp: url_decode_encoded_char)

lemma octal_escape:
  "is_octal (digit_char (n mod 8))" "digit_value (digit_char (n mod 8)) = n mod 8"
proof -
  have "\<forall>n\<in>set [0..<8]. is_octal (digit_char n) \<and> digit_value (digit_char n) = n" by code_simp
  then show "is_octal (digit_char (n mod 8))" "digit_value (digit_char (n mod 8)) = n mod 8" by auto
qed

lemma unquote_octal_digits:
  assumes "is_octal a" "is_octal b" "is_octal c"
    and "(digit_value a * 8 + digit_value b) * 8 + digit_value c = n"
  shows "unquote q True (a # b # c # t) out = unquote q False t (out @ [char_of n])"
proof -
  have "octal_digits (a # b # c # t) = [a, b, c]" "octal_value [a, b, c] = n"
    using assms by (simp_all add: octal_digits_def octal_value_def numeral_3_eq_3)
  then show ?thesis using assms(1) by (simp add: unquote.simps(2) Let_def)
qed

lemma unquote_octal:
  assumes "n < 256"
  shows "unquote q True (digit_char (n div 64) # digit_char (n div 8 mod 8) # digit_char (n mod 8) # t) out =
    unquote q False t (out @ [char_of n])"
proof (rule unquote_octal_digits)
  have 64: "n div 64 mod 8 = n div 64" using assms by simp
  show "is_octal (digit_char (n div 64))" using octal_escape(1) [of "n div 64"] by (simp only: 64)
  have "n div 64 = n div 8 div 8" by (simp add: div_mult2_eq [symmetric])
  then have "(n div 64 * 8 + n div 8 mod 8) * 8 + n mod 8 = n" by (simp only: div_mult_mod_eq)
  then show "(digit_value (digit_char (n div 64)) * 8 + digit_value (digit_char (n div 8 mod 8))) * 8
      + digit_value (digit_char (n mod 8)) = n"
    using octal_escape(2) [of "n div 64"] by (simp only: octal_escape(2) 64)
qed (rule octal_escape(1))+

lemma unquote_cescape_char:
  "unquote (CHR 0x22) False (cescape_char d @ t) out = unquote (CHR 0x22) False t (out @ [d])"
  using unquote_octal [of "of_char d" "CHR 0x22" t out]
  by (simp add: cescape_char_def unquote.simps(2) is_octal_def escaped_char_def)

lemma unquote_cescape:
  "unquote (CHR 0x22) False (string_to_cescape s @ t) out = unquote (CHR 0x22) False t (out @ s)"
  unfolding string_to_cescape_def
  by (induction s arbitrary: out) (auto simp: unquote_cescape_char)

text \<open>
  Every byte string survives quoting: \<open>string_from_cquote\<close> of \<open>string_to_cquote\<close> gives the
  string back, control characters, quotes, backslashes and bytes above 126 included.
\<close>

theorem string_cquote_roundtrip:
  "string_from_cquote (string_to_cquote s) = s"
  by (simp add: string_from_cquote_def string_to_cquote_def unquote_cescape unquote.simps(2))

end
