(* ===== verification/KeyValue.thy ===== *)
theory KeyValue
  imports StringCodec
begin

section \<open>Key and value lists and option strings (ase/strings.cc)\<close>

text \<open>
  Vectors of \<open>key=value\<close> strings and the option lists of \<open>ASE_DEBUG\<close>.  Pointers into an option list are
  indices into it; reading at its length gives the NUL.  A vector of well-formed pairs behaves as a finite
  map from keys (compared with or without case) to values.
\<close>

subsection \<open>Vectors of strings\<close>

text \<open>\<open>strncmp (p.data(), q.data(), n) == 0\<close> and \<open>strncasecmp (p.data(), q.data(), n) == 0\<close>.\<close>

definition strncmp_eq :: "string \<Rightarrow> string \<Rightarrow> nat \<Rightarrow> bool" where
  "strncmp_eq p q n \<longleftrightarrow> cstr (take n p) = cstr (take n q)"

definition key_eq :: "bool \<Rightarrow> string \<Rightarrow> string \<Rightarrow> nat \<Rightarrow> bool" where
  "key_eq casesensitive p q n =
     (if casesensitive then strncmp_eq p q n else strncasecmp_eq (cstr p) (cstr q) n)"

definition has_prefix :: "string \<Rightarrow> string \<Rightarrow> bool" where
  "has_prefix prefix s \<longleftrightarrow> length s \<ge> length prefix \<and> strncmp_eq s prefix (length prefix)"

definition string_vector_find :: "string list \<Rightarrow> string \<Rightarrow> string \<Rightarrow> string" where
  "string_vector_find svector prefix fallback =
     (case find (has_prefix prefix) (rev svector) of Some s \<Rightarrow> s | None \<Rightarrow> fallback)"

definition string_vector_find_value :: "string list \<Rightarrow> string \<Rightarrow> string \<Rightarrow> string" where
  "string_vector_find_value svector prefix fallback =
     (case find (has_prefix prefix) (rev svector) of Some s \<Rightarrow> drop (length prefix) s | None \<Rightarrow> fallback)"

text \<open>A null terminated argument list: the strings before the first null.\<close>

fun cstrings_to_vector :: "string option list \<Rightarrow> string list" where
  "cstrings_to_vector (Some s # args) = s # cstrings_to_vector args"
| "cstrings_to_vector _ = []"

subsection \<open>Key and value pairs\<close>

definition kvpair_key :: "string \<Rightarrow> string" where
  "kvpair_key kv = (if strchr kv CHR ''='' then takeWhile (\<lambda>c. c \<noteq> CHR ''='') kv else kv)"

definition kvpair_value :: "string \<Rightarrow> string" where
  "kvpair_value kv = (if strchr kv CHR ''='' then tl (dropWhile (\<lambda>c. c \<noteq> CHR ''='') kv) else [])"

definition kv_matches :: "string \<Rightarrow> bool \<Rightarrow> string \<Rightarrow> bool" where
  "kv_matches k casesensitive s \<longleftrightarrow>
     length s > length k \<and> s ! length k = CHR ''='' \<and> key_eq casesensitive s k (length k)"

fun search_from :: "nat \<Rightarrow> string list \<Rightarrow> string \<Rightarrow> bool \<Rightarrow> nat option" where
  "search_from i [] k casesensitive = None"
| "search_from i (s # kvs) k casesensitive =
     (if kv_matches k casesensitive s then Some i else search_from (Suc i) kvs k casesensitive)"

definition kvpairs_search :: "string list \<Rightarrow> string \<Rightarrow> bool \<Rightarrow> nat option" where
  "kvpairs_search kvs k casesensitive = search_from 0 kvs k casesensitive"

definition kvpairs_fetch :: "string list \<Rightarrow> string \<Rightarrow> bool \<Rightarrow> string" where
  "kvpairs_fetch kvs key casesensitive =
     (case kvpairs_search kvs key casesensitive of
        Some i \<Rightarrow> cstr (drop (length key + 1) (kvs ! i))
      | None \<Rightarrow> [])"

definition kvpairs_assign :: "string list \<Rightarrow> string \<Rightarrow> bool \<Rightarrow> bool \<times> string list" where
  "kvpairs_assign kvs kv casesensitive =
     (let key = (if strchr kv CHR ''='' then takeWhile (\<lambda>c. c \<noteq> CHR ''='') kv else []) in
      if length key = 0 then (False, kvs)
      else
        let i = kvpairs_search kvs key casesensitive in
        if length kv = length key + 1 \<and> last kv = CHR ''=''
        then (case i of Some j \<Rightarrow> (True, erase_at j kvs) | None \<Rightarrow> (False, kvs))
        else (case i of Some j \<Rightarrow> (True, kvs[j := kv]) | None \<Rightarrow> (False, kvs @ [kv])))"

subsection \<open>Option lists\<close>

definition is_separator :: "char \<Rightarrow> bool" where
  "is_separator c \<longleftrightarrow> c = CHR '';'' \<or> c = CHR '':''"

definition char_at :: "string \<Rightarrow> nat \<Rightarrow> char" where
  "char_at s i = (if i < length s then s ! i else NUL)"

text \<open>\<open>strcasestr (haystack + from, needle)\<close> as an index into the haystack.\<close>

definition strcasestr :: "string \<Rightarrow> string \<Rightarrow> nat \<Rightarrow> nat option" where
  "strcasestr haystack needle from =
     find (\<lambda>i. map to_upper (take (length needle) (drop i haystack)) = map to_upper needle)
       [from ..< Suc (length haystack)]"

lemma strcasestr_bounds:
  "strcasestr haystack needle from = Some c \<Longrightarrow> from \<le> c \<and> c \<le> length haystack"
  by (auto simp: strcasestr_def find_Some_iff simp del: upt_Suc)

definition strrstr :: "string \<Rightarrow> string \<Rightarrow> nat option" where
  "strrstr haystack needle =
     (if needle = [] then Some 0
      else if length haystack < length needle then None
      else find (\<lambda>i. take (length needle) (drop i haystack) = needle)
             (rev [0 ..< length haystack - length needle + 1]))"

definition string_find_word :: "string \<Rightarrow> string \<Rightarrow> nat option" where
  "string_find_word haystack word =
     find (\<lambda>p. take (length word) (drop p haystack) = word \<and> (p = 0 \<or> \<not> c_isalnum (haystack ! (p - 1)))
              \<and> \<not> c_isalnum (char_at haystack (p + length word)))
       [0 ..< Suc (length haystack)]"

text \<open>The two tests on a match at \<open>c\<close>, for \<open>allowoption = 0\<close> and for \<open>allowoption \<ge> 1\<close>.\<close>

definition denies :: "string \<Rightarrow> nat \<Rightarrow> nat \<Rightarrow> bool" where
  "denies haystack l c \<longleftrightarrow>
     (char_at haystack (c + l) = NUL \<and> is_separator (char_at haystack (c + l))) \<and>
     (c = 3 \<and> strncasecmp_eq haystack ''no-'' 3 \<or>
      c \<ge> 4 \<and> is_separator (char_at haystack 0) \<and> strncasecmp_eq (drop 1 haystack) ''no-'' 3)"

definition allows :: "string \<Rightarrow> nat \<Rightarrow> nat \<Rightarrow> nat \<Rightarrow> bool" where
  "allows haystack l allowoption c \<longleftrightarrow>
     (allowoption \<ge> 2 \<and> char_at haystack (c + l) = CHR ''='' \<or> char_at haystack (c + l) = NUL
      \<or> is_separator (char_at haystack (c + l))) \<and>
     (c = 0 \<or> is_separator (char_at haystack (c - 1)))"

function find_option_loop :: "string \<Rightarrow> string \<Rightarrow> nat \<Rightarrow> nat \<Rightarrow> nat \<Rightarrow> nat option \<Rightarrow> nat option" where
  "find_option_loop haystack needle l allowoption from result =
     (case strcasestr haystack needle from of
        None \<Rightarrow> result
      | Some c \<Rightarrow>
          find_option_loop haystack needle l allowoption (c + 1)
            (if allowoption = 0 \<and> denies haystack l c then Some c
             else if allowoption \<noteq> 0 \<and> allows haystack l allowoption c then Some c
             else result))"
  by pat_completeness auto
termination
  by (relation "measure (\<lambda>(haystack, _, _, _, from, _). Suc (length haystack) - from)")
    (auto dest: strcasestr_bounds)

declare find_option_loop.simps [simp del]

definition find_option :: "string \<Rightarrow> string \<Rightarrow> nat \<Rightarrow> nat \<Rightarrow> nat option" where
  "find_option haystack needle l allowoption = find_option_loop haystack needle l allowoption 0 None"

definition separator_strlen :: "string \<Rightarrow> nat" where
  "separator_strlen s = length (takeWhile (\<lambda>c. c \<noteq> NUL \<and> \<not> is_separator c) s)"

text \<open>\<open>deny > match\<close> of pointers, a null pointer being the least.\<close>

fun after :: "nat option \<Rightarrow> nat option \<Rightarrow> bool" where
  "after (Some d) (Some m) = (d > m)"
| "after (Some d) None = True"
| "after None m = False"

definition option_find_value :: "string option \<Rightarrow> string option \<Rightarrow> string \<Rightarrow> string \<Rightarrow> nat \<Rightarrow> string" where
  "option_find_value str feature fallback denied matching =
     (case (str, feature) of
        (Some s, Some f) \<Rightarrow>
          if s = [] \<or> f = [] then fallback
          else
            let l = length f; found = find_option s f l 2 in
            if matching \<ge> 2 \<and> after (find_option s f l 0) found then denied
            else (case found of
                Some m \<Rightarrow>
                  if char_at s (m + l) = CHR ''=''
                  then take (separator_strlen (drop (m + l + 1) s)) (drop (m + l + 1) s)
                  else ''1''
              | None \<Rightarrow>
                  if matching \<ge> 3 \<and> find_option s ''all'' 3 1 \<noteq> None then ''1''
                  else if matching \<ge> 3 \<and> find_option s ''none'' 4 1 \<noteq> None then denied
                  else fallback)
      | _ \<Rightarrow> fallback)"

definition string_option_find_value ::
  "string option \<Rightarrow> string option \<Rightarrow> string \<Rightarrow> string \<Rightarrow> bool \<Rightarrow> string" where
  "string_option_find_value str feature fallback denied matchallnone =
     option_find_value str feature (cstr fallback) (cstr denied) (if matchallnone then 3 else 2)"

definition string_option_find :: "string \<Rightarrow> string \<Rightarrow> string \<Rightarrow> string" where
  "string_option_find optionlist feature fallback =
     option_find_value (Some (cstr optionlist)) (Some (cstr feature)) (cstr fallback) ''0'' 3"

definition string_option_check :: "string \<Rightarrow> string \<Rightarrow> bool" where
  "string_option_check optionlist feature = string_to_bool (string_option_find optionlist feature ''0'') True"


subsection \<open>A vector of pairs is a finite map\<close>

definition fold_key :: "bool \<Rightarrow> string \<Rightarrow> string" where
  "fold_key casesensitive k = (if casesensitive then k else map to_upper k)"

definition pair_ok :: "string \<Rightarrow> bool" where
  "pair_ok s \<longleftrightarrow> NUL \<notin> set s \<and> CHR ''='' \<in> set s \<and> hd s \<noteq> CHR ''=''"

definition key_ok :: "string \<Rightarrow> bool" where
  "key_ok k \<longleftrightarrow> k \<noteq> [] \<and> NUL \<notin> set k \<and> CHR ''='' \<notin> set k"

definition kv_ok :: "bool \<Rightarrow> string list \<Rightarrow> bool" where
  "kv_ok cs kvs \<longleftrightarrow> (\<forall>s\<in>set kvs. pair_ok s) \<and> distinct (map (fold_key cs \<circ> kvpair_key) kvs)"

definition kv_map :: "bool \<Rightarrow> string list \<Rightarrow> string \<Rightarrow> string option" where
  "kv_map cs kvs = map_of (map (\<lambda>s. (fold_key cs (kvpair_key s), kvpair_value s)) kvs)"

lemma cstr_ident: "NUL \<notin> set s \<Longrightarrow> cstr s = s"
  by (induction s) (auto simp: cstr_def)

lemma cstr_take: "NUL \<notin> set s \<Longrightarrow> cstr (take n s) = take n s"
  using in_set_takeD [of NUL n s] cstr_ident by blast

lemma pair_ok_split:
  assumes "pair_ok s"
  shows "s = kvpair_key s @ CHR ''='' # kvpair_value s" "key_ok (kvpair_key s)"
    "NUL \<notin> set (kvpair_value s)" "strchr s CHR ''=''"
proof -
  have "CHR ''='' \<in> set s" and n: "NUL \<notin> set s" and h: "hd s \<noteq> CHR ''=''" using assms by (auto simp: pair_ok_def)
  then obtain k v where s: "s = k @ CHR ''='' # v" and k: "CHR ''='' \<notin> set k" by (meson split_list_first)
  have e: "strchr s CHR ''=''" using n s by (simp add: strchr_def cstr_ident)
  then have "kvpair_key s = k" "kvpair_value s = v"
    using s k by (auto simp: kvpair_key_def kvpair_value_def takeWhile_append dropWhile_append)
  then show "s = kvpair_key s @ CHR ''='' # kvpair_value s" "key_ok (kvpair_key s)"
    "NUL \<notin> set (kvpair_value s)" "strchr s CHR ''=''"
    using s k n h e by (cases k; auto simp: key_ok_def)+
qed

lemma to_upper_eq_sign [simp]: "to_upper c = CHR ''='' \<longleftrightarrow> c = CHR ''=''"
proof -
  have "\<forall>c\<in>set Enum.enum. to_upper c = CHR ''='' \<longleftrightarrow> c = CHR ''=''" by code_simp
  then show ?thesis by (simp add: UNIV_enum [symmetric])
qed

lemma fold_key_eq_sign [simp]: "CHR ''='' \<in> set (fold_key cs k) \<longleftrightarrow> CHR ''='' \<in> set k"
  by (auto simp: fold_key_def image_iff eq_commute [of "CHR ''=''"])

lemma kv_matches_key:
  assumes "key_ok k" and "pair_ok s"
  shows "kv_matches k cs s \<longleftrightarrow> fold_key cs (kvpair_key s) = fold_key cs k"
proof -
  define j v where "j = kvpair_key s" and "v = kvpair_value s"
  have s: "s = j @ CHR ''='' # v" and j: "key_ok j" and v: "NUL \<notin> set v"
    using pair_ok_split [OF assms(2)] by (simp_all add: j_def v_def)
  have c: "cstr s = s" "cstr k = k" "cstr (take n s) = take n s" for n
    using s j v assms(1) cstr_take [of s] by (auto simp: key_ok_def cstr_ident)
  have eq: "key_eq cs s k (length k) \<longleftrightarrow> fold_key cs (take (length k) s) = fold_key cs k"
    by (simp add: key_eq_def strncmp_eq_def strncasecmp_eq_def fold_key_def c)
  have "CHR ''='' \<notin> set (fold_key cs k)" "CHR ''='' \<notin> set (fold_key cs j)"
    using assms(1) j by (auto simp: key_ok_def)
  have len: "length (fold_key cs x) = length x" for x by (simp add: fold_key_def)
  show ?thesis unfolding j_def [symmetric]
  proof
    assume m: "kv_matches k cs s"
    then have f: "fold_key cs (take (length k) s) = fold_key cs k" and l: "length s > length k" "s ! length k = CHR ''=''"
      using eq by (auto simp: kv_matches_def)
    have "CHR ''='' \<notin> set (take (length k) s)"
      using assms(1) fold_key_eq_sign f by (metis key_ok_def)
    then have "takeWhile (\<lambda>c. c \<noteq> CHR ''='') (take (length k) s @ CHR ''='' # drop (Suc (length k)) s) = take (length k) s"
      by (auto simp: takeWhile_append)
    then have "takeWhile (\<lambda>c. c \<noteq> CHR ''='') s = take (length k) s"
      using id_take_nth_drop [OF l(1)] l(2) by simp
    moreover have "takeWhile (\<lambda>c. c \<noteq> CHR ''='') s = j" using s j by (auto simp: key_ok_def takeWhile_append)
    ultimately show "fold_key cs j = fold_key cs k" using f by simp
  next
    assume f: "fold_key cs j = fold_key cs k"
    then have "length j = length k" using len by metis
    then show "kv_matches k cs s" using f eq by (simp add: kv_matches_def s nth_append)
  qed
qed

lemma search_from_shift:
  "search_from (Suc i) kvs k cs = map_option Suc (search_from i kvs k cs)"
  by (induction kvs arbitrary: i) auto

lemma search_from_cases:
  "search_from 0 kvs k cs = None \<longleftrightarrow> (\<forall>s\<in>set kvs. \<not> kv_matches k cs s)"
  "search_from 0 kvs k cs = Some i \<Longrightarrow>
     i < length kvs \<and> kv_matches k cs (kvs ! i) \<and> (\<forall>s\<in>set (take i kvs). \<not> kv_matches k cs s)"
  by (induction kvs arbitrary: i) (auto simp: search_from_shift split: if_splits)


lemma kvpairs_search_map:
  assumes "kv_ok cs kvs" and "key_ok k"
  shows "kvpairs_search kvs k cs = None \<longleftrightarrow> kv_map cs kvs (fold_key cs k) = None"
    and "kvpairs_search kvs k cs = Some i \<Longrightarrow> i < length kvs \<and> fold_key cs (kvpair_key (kvs ! i)) = fold_key cs k
      \<and> kv_map cs kvs (fold_key cs k) = Some (kvpair_value (kvs ! i))"
proof -
  have m: "\<And>s. s \<in> set kvs \<Longrightarrow> kv_matches k cs s \<longleftrightarrow> fold_key cs (kvpair_key s) = fold_key cs k"
    using assms kv_matches_key by (auto simp: kv_ok_def)
  show "kvpairs_search kvs k cs = None \<longleftrightarrow> kv_map cs kvs (fold_key cs k) = None"
    using m by (auto simp: kvpairs_search_def search_from_cases(1) kv_map_def map_of_eq_None_iff image_iff)
  assume "kvpairs_search kvs k cs = Some i"
  then have i: "i < length kvs" "kv_matches k cs (kvs ! i)"
    using search_from_cases(2) by (auto simp: kvpairs_search_def)
  then have e: "fold_key cs (kvpair_key (kvs ! i)) = fold_key cs k" using m by simp
  have "distinct (map fst (map (\<lambda>s. (fold_key cs (kvpair_key s), kvpair_value s)) kvs))"
    using assms(1) by (simp add: kv_ok_def comp_def)
  then have "kv_map cs kvs (fold_key cs (kvpair_key (kvs ! i))) = Some (kvpair_value (kvs ! i))"
    unfolding kv_map_def using i(1) by (intro map_of_is_SomeI) auto
  then show "i < length kvs \<and> fold_key cs (kvpair_key (kvs ! i)) = fold_key cs k
      \<and> kv_map cs kvs (fold_key cs k) = Some (kvpair_value (kvs ! i))"
    using i(1) e by simp
qed

lemma kv_map_simps [simp]:
  "kv_map cs [] = Map.empty"
  "kv_map cs (s # ys) = (kv_map cs ys)(fold_key cs (kvpair_key s) \<mapsto> kvpair_value s)"
  "kv_map cs (xs @ ys) = kv_map cs ys ++ kv_map cs xs"
  by (simp_all add: kv_map_def fun_eq_iff)

lemma kv_map_None: "fold_key cs k \<notin> (fold_key cs \<circ> kvpair_key) ` set kvs \<Longrightarrow> kv_map cs kvs (fold_key cs k) = None"
  by (auto simp: kv_map_def map_of_eq_None_iff image_iff)

lemma kv_replace:
  assumes "kv_ok cs (xs @ s # ys)" and "pair_ok p" and k: "fold_key cs (kvpair_key s) = fold_key cs (kvpair_key p)"
  shows "kv_ok cs (xs @ p # ys)" "kv_ok cs (xs @ ys)"
    "kv_map cs (xs @ p # ys) = (kv_map cs (xs @ s # ys))(fold_key cs (kvpair_key p) \<mapsto> kvpair_value p)"
    "kv_map cs (xs @ ys) = (kv_map cs (xs @ s # ys))(fold_key cs (kvpair_key p) := None)"
proof -
  show "kv_ok cs (xs @ p # ys)" "kv_ok cs (xs @ ys)"
    using assms by (auto simp: kv_ok_def)
  have "kv_map cs xs (fold_key cs (kvpair_key p)) = None" "kv_map cs ys (fold_key cs (kvpair_key p)) = None"
    using assms(1) k by (auto intro!: kv_map_None simp: kv_ok_def)
  then show "kv_map cs (xs @ p # ys) = (kv_map cs (xs @ s # ys))(fold_key cs (kvpair_key p) \<mapsto> kvpair_value p)"
    "kv_map cs (xs @ ys) = (kv_map cs (xs @ s # ys))(fold_key cs (kvpair_key p) := None)"
    using k by (auto simp: fun_eq_iff map_add_def split: option.split)
qed

lemma kvpairs_assign_unfold:
  assumes "pair_ok p"
  shows "kvpairs_assign kvs p cs =
    (case kvpairs_search kvs (kvpair_key p) cs of
       Some j \<Rightarrow> (True, if kvpair_value p = [] then erase_at j kvs else kvs[j := p])
     | None \<Rightarrow> (False, if kvpair_value p = [] then kvs else kvs @ [p]))"
proof -
  note s = pair_ok_split [OF assms]
  have key: "(if strchr p CHR ''='' then takeWhile (\<lambda>c. c \<noteq> CHR ''='') p else []) = kvpair_key p"
    using s(4) by (simp add: kvpair_key_def)
  have "length p = length (kvpair_key p) + 1 + length (kvpair_value p)"
    by (subst s(1)) simp
  moreover have "kvpair_value p = [] \<Longrightarrow> last p = CHR ''=''"
    by (subst s(1)) simp
  ultimately have "length p = length (kvpair_key p) + 1 \<and> last p = CHR ''='' \<longleftrightarrow> kvpair_value p = []"
    by auto
  then show ?thesis
    using s(2) unfolding kvpairs_assign_def key by (simp add: key_ok_def split: option.split)
qed

text \<open>
  C29: On vectors of well-formed pairs with distinct keys, \<open>kvpairs_assign\<close> and \<open>kvpairs_fetch\<close>
  implement a finite map, with and without case.  Assigning a pair with a value updates its key, assigning
  an empty value deletes the key, the result says whether the key was there before, the invariant is
  kept, and a fetch returns the value of the key or the empty string.
\<close>

theorem kvpairs_refine_map:
  assumes "kv_ok cs kvs" and "pair_ok p" and "key_ok k"
  shows "kv_ok cs (snd (kvpairs_assign kvs p cs))
    \<and> kv_map cs (snd (kvpairs_assign kvs p cs)) =
        (kv_map cs kvs)(fold_key cs (kvpair_key p) := (if kvpair_value p = [] then None else Some (kvpair_value p)))
    \<and> fst (kvpairs_assign kvs p cs) = (fold_key cs (kvpair_key p) \<in> dom (kv_map cs kvs))
    \<and> kvpairs_fetch kvs k cs = (case kv_map cs kvs (fold_key cs k) of Some v \<Rightarrow> v | None \<Rightarrow> [])"
proof -
  have fetch: "kvpairs_fetch kvs k cs = (case kv_map cs kvs (fold_key cs k) of Some v \<Rightarrow> v | None \<Rightarrow> [])"
  proof (cases "kvpairs_search kvs k cs")
    case None
    then show ?thesis using kvpairs_search_map(1) [OF assms(1,3)] by (simp add: kvpairs_fetch_def)
  next
    case (Some i)
    note i = kvpairs_search_map(2) [OF assms(1,3) Some]
    have ok: "pair_ok (kvs ! i)" using assms(1) i by (auto simp: kv_ok_def)
    have "length (fold_key cs (kvpair_key (kvs ! i))) = length (fold_key cs k)" using i by simp
    then have "length (kvpair_key (kvs ! i)) = length k" by (simp add: fold_key_def split: if_splits)
    then have "drop (length k + 1) (kvs ! i) = kvpair_value (kvs ! i)"
      by (subst pair_ok_split(1) [OF ok]) simp
    then show ?thesis
      using i Some pair_ok_split(3) [OF ok] by (simp add: kvpairs_fetch_def cstr_ident)
  qed
  note p = pair_ok_split(2) [OF assms(2)]
  show ?thesis
  proof (cases "kvpairs_search kvs (kvpair_key p) cs")
    case None
    then have none: "kv_map cs kvs (fold_key cs (kvpair_key p)) = None"
      using kvpairs_search_map(1) [OF assms(1) p] by simp
    then have "fold_key cs (kvpair_key p) \<notin> (fold_key cs \<circ> kvpair_key) ` set kvs"
      by (auto simp: kv_map_def map_of_eq_None_iff image_iff)
    then have "kv_ok cs (kvs @ [p])" using assms(1,2) by (auto simp: kv_ok_def)
    then show ?thesis
      using None none assms(1) fetch
      by (auto simp: kvpairs_assign_unfold [OF assms(2)] fun_eq_iff map_add_def split: option.split)
  next
    case (Some j)
    note j = kvpairs_search_map(2) [OF assms(1) p Some]
    have split: "kvs = take j kvs @ kvs ! j # drop (Suc j) kvs" using j id_take_nth_drop by blast
    note r = kv_replace [of cs "take j kvs" "kvs ! j" "drop (Suc j) kvs" p, folded split, OF assms(1,2)]
    have "kvs[j := p] = take j kvs @ p # drop (Suc j) kvs" using j by (simp add: upd_conv_take_nth_drop)
    then show ?thesis
      using r j Some fetch by (auto simp: kvpairs_assign_unfold [OF assms(2)] erase_at_def)
  qed
qed

theorem kvpairs_refine_map_witness:
  "kvpairs_fetch [''Path=/usr'', ''Rate=48000''] ''RATE'' False = ''48000''
   \<and> fst (kvpairs_assign [''Path=/usr'', ''Rate=48000''] ''path='' False)"
proof -
  have "kv_ok False [''Path=/usr'', ''Rate=48000'']" "pair_ok ''path=''" "key_ok ''RATE''" by code_simp+
  note kvpairs_refine_map [OF this]
  moreover have "kv_map False [''Path=/usr'', ''Rate=48000''] (fold_key False ''RATE'') = Some ''48000''"
    "kv_map False [''Path=/usr'', ''Rate=48000''] (fold_key False (kvpair_key ''path='')) = Some ''/usr''" by code_simp+
  ultimately show ?thesis by auto
qed

text \<open>
  A \<open>no-\<close> entry is never found: the test for it asks that the character after the feature be NUL
  and a separator at once.  So \<open>string_option_find_value\<close> returns \<open>denied\<close> only for a plain
  \<open>none\<close>, and an option list that denies a feature and then allows all enables that feature.
\<close>

theorem option_denial_unreachable:
  "find_option haystack needle l 0 = None
   \<and> string_option_find_value str feature fallback denied False = string_option_find_value str feature fallback denied' False
   \<and> string_option_find '':no-bar:all'' ''bar'' fallback = ''1''"
proof -
  have d: "\<not> denies h n c" for h n c by (auto simp: denies_def is_separator_def)
  have "find_option_loop h n l 0 i None = None" for h n l i
    by (induction h n l "0 :: nat" i "None :: nat option" rule: find_option_loop.induct)
      (subst find_option_loop.simps, auto simp: d split: option.split)
  then have none: "find_option h n l 0 = None" for h n l by (simp add: find_option_def)
  have "string_option_find_value str feature fallback denied False = string_option_find_value str feature fallback denied' False"
    by (simp add: string_option_find_value_def option_find_value_def none Let_def split: option.split)
  moreover have "find_option '':no-bar:all'' ''bar'' 3 2 = None" "find_option '':no-bar:all'' ''all'' 3 1 = Some 8" by code_simp+
  then have "string_option_find '':no-bar:all'' ''bar'' fallback = ''1''"
    by (simp add: string_option_find_def option_find_value_def none Let_def cstr_def numeral_3_eq_3)
  ultimately show ?thesis using none by blast
qed

end
