(* ===== verification/Charset.thy ===== *)
theory Charset
  imports StringCodec
begin

section \<open>Character set conversion (ase/strings.cc)\<close>

text \<open>
  The alias table of encoding names and the conversion loop of \<open>text_convert\<close>.  The converter of the C
  library is an argument: \<open>iconv_open\<close> gives a descriptor or fails, \<open>iconv\<close> consumes a part of the
  input, writes at most \<open>olength\<close> bytes and says how it stopped; its descriptor carries shift state.
\<close>

definition encoding_aliases :: "(string \<times> string) list" where
  "encoding_aliases =
  [(''UTF8'', ''UTF-8''), (''646'', ''ASCII''), (''ISO_646.IRV:1983'', ''ASCII''),
   (''CP20127'', ''ASCII''), (''LATIN1'', ''ISO-8859-1''), (''LATIN2'', ''ISO-8859-2''),
   (''LATIN3'', ''ISO-8859-3''), (''LATIN4'', ''ISO-8859-4''), (''LATIN5'', ''ISO-8859-9''),
   (''LATIN6'', ''ISO-8859-10''), (''LATIN7'', ''ISO-8859-13''), (''LATIN8'', ''ISO-8859-14''),
   (''LATIN9'', ''ISO-8859-15''), (''LATIN10'', ''ISO-8859-16''), (''ISO8859-1'', ''ISO-8859-1''),
   (''ISO8859-2'', ''ISO-8859-2''), (''ISO8859-3'', ''ISO-8859-3''), (''ISO8859-4'', ''ISO-8859-4''),
   (''ISO8859-5'', ''ISO-8859-5''), (''ISO8859-6'', ''ISO-8859-6''), (''ISO8859-7'', ''ISO-8859-7''),
   (''ISO8859-8'', ''ISO-8859-8''), (''ISO8859-9'', ''ISO-8859-9''), (''ISO8859-13'', ''ISO-8859-13''),
   (''ISO8859-15'', ''ISO-8859-15''), (''CP28591'', ''ISO-8859-1''), (''CP28592'', ''ISO-8859-2''),
   (''CP28593'', ''ISO-8859-3''), (''CP28594'', ''ISO-8859-4''), (''CP28595'', ''ISO-8859-5''),
   (''CP28596'', ''ISO-8859-6''), (''CP28597'', ''ISO-8859-7''), (''CP28598'', ''ISO-8859-8''),
   (''CP28599'', ''ISO-8859-9''), (''CP28603'', ''ISO-8859-13''), (''CP28605'', ''ISO-8859-15''),
   (''eucCN'', ''GB2312''), (''IBM-eucCN'', ''GB2312''), (''dechanzi'', ''GB2312''),
   (''eucJP'', ''EUC-JP''), (''IBM-eucJP'', ''EUC-JP''), (''sdeckanji'', ''EUC-JP''),
   (''eucKR'', ''EUC-KR''), (''IBM-eucKR'', ''EUC-KR''), (''deckorean'', ''EUC-KR''),
   (''eucTW'', ''EUC-TW''), (''IBM-eucTW'', ''EUC-TW''), (''CNS11643'', ''EUC-TW''),
   (''CP20866'', ''KOI8-R''), (''PCK'', ''SHIFT_JIS''), (''SJIS'', ''SHIFT_JIS'')]"

definition upcase :: "string \<Rightarrow> string" where
  "upcase name = map to_upper name"

text \<open>\<open>Some\<close>: the new name, where the function returns true.\<close>

definition unalias_encoding :: "string \<Rightarrow> string option" where
  "unalias_encoding name =
     (case find (\<lambda>(alias, _). upcase alias = upcase (cstr name)) encoding_aliases of
        Some (_, mime) \<Rightarrow> Some mime
      | None \<Rightarrow> if upcase name \<noteq> name then Some (upcase name) else None)"

definition aliased_iconv_open ::
  "(string \<Rightarrow> string \<Rightarrow> 'cd option) \<Rightarrow> string \<Rightarrow> string \<Rightarrow> 'cd option" where
  "aliased_iconv_open iconv_open tocode fromcode =
     (case iconv_open (cstr tocode) (cstr fromcode) of
        Some cd \<Rightarrow> Some cd
      | None \<Rightarrow>
          let from_only =
                (case unalias_encoding fromcode of
                   Some from_encoding \<Rightarrow> iconv_open (cstr tocode) (cstr from_encoding)
                 | None \<Rightarrow> None) in
          (case unalias_encoding tocode of
             None \<Rightarrow> from_only
           | Some to_encoding \<Rightarrow>
               (case iconv_open (cstr to_encoding) (cstr fromcode) of
                  Some cd \<Rightarrow> Some cd
                | None \<Rightarrow>
                    (case unalias_encoding fromcode of
                       None \<Rightarrow> from_only
                     | Some from_encoding \<Rightarrow>
                         (case iconv_open (cstr to_encoding) (cstr from_encoding) of
                            Some cd \<Rightarrow> Some cd
                          | None \<Rightarrow> from_only)))))"

text \<open>How a call of \<open>iconv\<close> ends: no error, \<open>EINVAL\<close> or \<open>EILSEQ\<close>, or another error such as \<open>E2BIG\<close>.\<close>

datatype iconv_end = Done | Invalid_Input | Other_Error

type_synonym 'cd converter = "'cd \<Rightarrow> string \<Rightarrow> nat \<Rightarrow> 'cd \<times> string \<times> string \<times> iconv_end"

definition obuffer_size :: nat where "obuffer_size = 1024"

text \<open>
  One turn of the loop on the input that is left: \<open>Inl\<close> with the output so far where the function returns
  false, \<open>Inr\<close> with the descriptors, the alternate charset, the input and the output for the next turn.
\<close>

definition convert_turn ::
  "(string \<Rightarrow> string \<Rightarrow> 'cd option) \<Rightarrow> 'cd converter \<Rightarrow> string \<Rightarrow> string \<Rightarrow>
   'cd \<times> 'cd option \<times> string \<times> string \<times> string \<Rightarrow> string + 'cd \<times> 'cd option \<times> string \<times> string \<times> string" where
  "convert_turn iconv_open iconv to_charset output_mark s =
     (case s of (cd, alt_cd, alt_charset, input, out) \<Rightarrow>
      (case iconv cd input obuffer_size of (cd, input, written, ending) \<Rightarrow>
       let out = out @ written in
       if input \<noteq> [] \<and> ending \<noteq> Done
       then
         if ending = Invalid_Input
         then
           let (alt_cd, alt_charset) =
                 (if alt_cd = None \<and> alt_charset \<noteq> []
                  then (aliased_iconv_open iconv_open to_charset alt_charset, [])
                  else (alt_cd, alt_charset));
               former_ilength = length input;
               (alt_cd, input, out) =
                 (case alt_cd of
                    Some alt \<Rightarrow>
                      (case iconv alt input obuffer_size of (alt, input, written, _) \<Rightarrow> (Some alt, input, out @ written))
                  | None \<Rightarrow> (None, input, out)) in
           if length input = former_ilength
           then Inr (cd, alt_cd, alt_charset, tl input, out @ output_mark)
           else Inr (cd, alt_cd, alt_charset, input, out)
         else Inl out
       else Inr (cd, alt_cd, alt_charset, input, out)))"

partial_function (option) convert_loop ::
  "(string \<Rightarrow> string \<Rightarrow> 'cd option) \<Rightarrow> 'cd converter \<Rightarrow> string \<Rightarrow> string \<Rightarrow>
   'cd \<times> 'cd option \<times> string \<times> string \<times> string \<Rightarrow> (bool \<times> string) option" where
  "convert_loop iconv_open iconv to_charset output_mark s =
     (if fst (snd (snd (snd s))) = [] then Some (True, snd (snd (snd (snd s))))
      else (case convert_turn iconv_open iconv to_charset output_mark s of
          Inl out \<Rightarrow> Some (False, out)
        | Inr s' \<Rightarrow> convert_loop iconv_open iconv to_charset output_mark s'))"

declare convert_loop.simps [code]

text \<open>The value \<open>None\<close> is a loop that does not end; otherwise the result and \<open>output_string\<close>.\<close>

definition text_convert ::
  "(string \<Rightarrow> string \<Rightarrow> 'cd option) \<Rightarrow> 'cd converter \<Rightarrow> string \<Rightarrow> string \<Rightarrow> string \<Rightarrow> string \<Rightarrow> string \<Rightarrow>
   (bool \<times> string) option" where
  "text_convert iconv_open iconv to_charset from_charset input_string fallback_charset output_mark =
     (case aliased_iconv_open iconv_open to_charset from_charset of
        None \<Rightarrow> Some (False, [])
      | Some cd \<Rightarrow> convert_loop iconv_open iconv to_charset output_mark (cd, None, fallback_charset, input_string, []))"

subsection \<open>The loop ends\<close>

text \<open>
  What the manual of \<open>iconv\<close> promises: the input left is a tail of the input given, no more than
  \<open>olength\<close> bytes are written, and a call that stops early reports an error.
\<close>

definition iconv_law :: "'cd converter \<Rightarrow> bool" where
  "iconv_law iconv \<longleftrightarrow>
     (\<forall>cd s n. case iconv cd s n of (_, rest, written, ending) \<Rightarrow>
        (\<exists>k. rest = drop k s) \<and> length written \<le> n \<and> (ending = Done \<longrightarrow> rest = []))"

lemma iconv_lawD:
  "iconv_law iconv \<Longrightarrow> iconv cd s n = (cd', rest, written, ending) \<Longrightarrow>
     (\<exists>k. rest = drop k s) \<and> length rest \<le> length s \<and> (ending = Done \<longrightarrow> rest = [])"
  unfolding iconv_law_def by (drule spec [of _ cd], drule spec [of _ s], drule spec [of _ n]) auto

lemma convert_turn_shrinks:
  assumes "iconv_law iconv" and "input \<noteq> []"
    and "convert_turn iconv_open iconv to_charset mark (cd, alt, alts, input, out) = Inr (cd', alt', alts', input', out')"
  shows "length input' < length input"
proof -
  obtain c rest w e where c: "iconv cd input obuffer_size = (c, rest, w, e)" by (metis surj_pair)
  note law = iconv_lawD [OF assms(1) c]
  have alt_law: "iconv a s n = (a', rest', w', e') \<Longrightarrow> length rest' \<le> length s" for a s n a' rest' w' e'
    using iconv_lawD [OF assms(1)] by blast
  show ?thesis
  proof (cases "rest = [] \<or> e = Done")
    case True
    then show ?thesis using law assms(2,3) by (auto simp: convert_turn_def c Let_def)
  next
    case False
    then show ?thesis
      using assms(2,3) law
      by (auto simp: convert_turn_def c Let_def split: if_splits option.splits prod.splits
          dest!: alt_law intro: le_less_trans)
  qed
qed

text \<open>
  Whatever the charsets and the input, \<open>text_convert\<close> returns when \<open>iconv\<close> keeps its promises:
  every turn of the loop converts, falls back or marks at least one byte.
\<close>

theorem text_convert_terminates:
  assumes "iconv_law iconv"
  shows "\<exists>r. text_convert iconv_open iconv to_charset from_charset input fallback mark = Some r"
proof -
  have "\<exists>r. convert_loop iconv_open iconv to_charset mark (cd, alt, alts, s, out) = Some r" for cd alt alts s out
  proof (induction "length s" arbitrary: cd alt alts s out rule: less_induct)
    case less
    show ?case
    proof (cases "s = []")
      case False
      then show ?thesis
        using less convert_turn_shrinks [OF assms False]
        by (subst convert_loop.simps) (fastforce split: sum.split)
    qed (subst convert_loop.simps, auto)
  qed
  then show ?thesis by (auto simp: text_convert_def split: option.split)
qed

theorem text_convert_terminates_witness:
  "\<exists>r. text_convert (\<lambda>_ _. Some ()) (\<lambda>_ s n. ((), drop n s, take n s, if length s \<le> n then Done else Other_Error))
     ''utf8'' ''latin1'' ''abc'' [] ''?'' = Some r"
  by (rule text_convert_terminates) (auto simp: iconv_law_def intro: exI [of _ "obuffer_size"])

text \<open>
  Output that does not fit the buffer of 1024 bytes is an \<open>E2BIG\<close> error, which the loop takes for a
  failed conversion: it returns false with the part written so far.
\<close>

lemma text_convert_output_limit:
  assumes "aliased_iconv_open iconv_open to_charset from_charset = Some cd"
    and "iconv cd input obuffer_size = (cd', rest, written, Other_Error)" and "rest \<noteq> []" "input \<noteq> []"
  shows "text_convert iconv_open iconv to_charset from_charset input fallback mark = Some (False, written)"
  using assms by (simp add: text_convert_def convert_loop.simps convert_turn_def Let_def)

end
