(* ===== verification/Formatter.thy ===== *)
theory Formatter
  imports Strings "HOL-Library.Sublist"
begin

section \<open>printf formatting (ase/formatter.cc)\<close>

text \<open>
  \<open>StringFormatter\<close>: the parser of format directives and the rendering of a format with its arguments.
  A format is a C string, given by the characters up to its NUL; a read of \<open>p[1]\<close> at the NUL does not
  happen.  \<open>Overrun\<close> is a step of \<open>p\<close> over the NUL.  The single conversions are done by \<open>asprintf\<close>, an
  argument, as are the strings that pointers point to and the conversions from floating point.
\<close>

subsection \<open>Numbers in a directive\<close>

definition digit :: "char \<Rightarrow> bool" where
  "digit c \<longleftrightarrow> CHR ''0'' \<le> c \<and> c \<le> CHR ''9''"

definition digit_u64 :: "char \<Rightarrow> u64" where
  "digit_u64 c = of_nat (of_char c - 48)"

text \<open>The digits after the first; \<open>None\<close> is the overflow that \<open>u < last\<close> detects.\<close>

fun rest_digits :: "u64 \<Rightarrow> string \<Rightarrow> (u64 \<times> string) option" where
  "rest_digits u [] = Some (u, [])"
| "rest_digits u (c # p) =
     (if digit c
      then let last = u; u = u * 10 + digit_u64 c in if u < last then None else rest_digits u p
      else Some (u, c # p))"

definition parse_unsigned_integer :: "string \<Rightarrow> (u64 \<times> string) option" where
  "parse_unsigned_integer p =
     (case p of
        [] \<Rightarrow> None
      | c # q \<Rightarrow>
          if c = CHR ''0'' \<and> \<not> (q \<noteq> [] \<and> digit (hd q)) then Some (0, q)
          else if \<not> (CHR ''1'' \<le> c \<and> c \<le> CHR ''9'') then None
          else rest_digits (digit_u64 c) q)"

definition parse_positional :: "string \<Rightarrow> (u64 \<times> string) option" where
  "parse_positional p =
     (case parse_unsigned_integer p of
        Some (ui64, c # q) \<Rightarrow> if c = CHR ''$'' then Some (ui64, q) else None
      | _ \<Rightarrow> None)"

subsection \<open>Directives\<close>

record Directive =
  conversion :: char
  adjust_left :: bool
  add_sign :: bool
  use_width :: bool
  use_precision :: bool
  alternate_form :: bool
  zero_padding :: bool
  add_space :: bool
  locale_grouping :: bool
  field_width :: u32
  precision :: u32
  dir_start :: nat
  dir_end :: nat
  value_index :: u32
  width_index :: u32
  precision_index :: u32

definition new_directive :: Directive where
  "new_directive =
     \<lparr>conversion = NUL, adjust_left = False, add_sign = False, use_width = False, use_precision = False,
      alternate_form = False, zero_padding = False, add_space = False, locale_grouping = False,
      field_width = 0, precision = 0, dir_start = 0, dir_end = 0, value_index = 0, width_index = 0,
      precision_index = 0\<rparr>"

datatype 'a parsed = Overrun | Malformed string | Parsed 'a

definition set_flag :: "char \<Rightarrow> Directive \<Rightarrow> Directive" where
  "set_flag c d =
     (if c = CHR ''-'' then d\<lparr>adjust_left := True\<rparr>
      else if c = CHR ''+'' then d\<lparr>add_sign := True\<rparr>
      else if c = CHR ''#'' then d\<lparr>alternate_form := True\<rparr>
      else if c = CHR ''0'' then d\<lparr>zero_padding := True\<rparr>
      else if c = CHR '' '' then d\<lparr>add_space := True\<rparr>
      else d\<lparr>locale_grouping := True\<rparr>)"

definition flag_chars :: string where "flag_chars = ''-+#0 '' @ [CHR 0x27]"

text \<open>\<open>strchr (flags, *p)\<close> finds the NUL too, so at the end of the format the loop goes over it.\<close>

fun parse_flags :: "string \<Rightarrow> Directive \<Rightarrow> (Directive \<times> string) parsed" where
  "parse_flags [] d = Overrun"
| "parse_flags (c # p) d = (if c \<in> set flag_chars then parse_flags p (set_flag c d) else Parsed (d, c # p))"

definition position_ok :: "u64 \<Rightarrow> bool" where
  "position_ok ui64 \<longleftrightarrow> 0 < ui64 \<and> ui64 \<le> 2147483647"

definition parse_width :: "string \<Rightarrow> nat \<Rightarrow> Directive \<Rightarrow> (Directive \<times> nat \<times> string) parsed" where
  "parse_width p index d =
     (if p \<noteq> [] \<and> hd p = CHR ''*''
      then (case parse_positional (tl p) of
          Some (ui64, q) \<Rightarrow>
            if position_ok ui64 then Parsed (d\<lparr>width_index := ucast ui64, use_width := True\<rparr>, index, q)
            else Malformed ''invalid positional specification''
        | None \<Rightarrow> Parsed (d\<lparr>width_index := of_nat index, use_width := True\<rparr>, index + 1, tl p))
      else (case parse_unsigned_integer p of
          Some (ui64, q) \<Rightarrow>
            if ui64 \<le> 2147483647 then Parsed (d\<lparr>field_width := ucast ui64, use_width := True\<rparr>, index, q)
            else Malformed ''invalid field width specification''
        | None \<Rightarrow> Parsed (d, index, p)))"

definition parse_precision :: "string \<Rightarrow> nat \<Rightarrow> Directive \<Rightarrow> (Directive \<times> nat \<times> string) parsed" where
  "parse_precision p0 index d0 =
     (let dot = (p0 \<noteq> [] \<and> hd p0 = CHR ''.'');
          d = (if dot then d0\<lparr>use_precision := True\<rparr> else d0); p = (if dot then tl p0 else p0) in
      if p \<noteq> [] \<and> hd p = CHR ''*''
      then (case parse_positional (tl p) of
          Some (ui64, q) \<Rightarrow>
            if position_ok ui64 then Parsed (d\<lparr>precision_index := ucast ui64\<rparr>, index, q)
            else Malformed ''invalid positional specification''
        | None \<Rightarrow> Parsed (d\<lparr>precision_index := of_nat index\<rparr>, index + 1, tl p))
      else (case parse_unsigned_integer p of
          Some (ui64, q) \<Rightarrow>
            if ui64 \<le> 2147483647 then Parsed (d\<lparr>precision := ucast ui64\<rparr>, index, q)
            else Malformed ''invalid precision specification''
        | None \<Rightarrow> Parsed (d, index, p)))"

definition modifier_chars :: string where "modifier_chars = ''hlLjztqZ''"
definition conversion_chars :: string where "conversion_chars = ''dioucCspmXxEeFfGgAa%''"

text \<open>The length modifiers, again with the NUL among them, and the conversion.\<close>

definition skip_modifiers :: "string \<Rightarrow> string parsed" where
  "skip_modifiers p =
     (case dropWhile (\<lambda>c. c \<in> set modifier_chars) p of [] \<Rightarrow> Overrun | c # q \<Rightarrow> Parsed (c # q))"

definition parse_conversion :: "string \<Rightarrow> nat \<Rightarrow> Directive \<Rightarrow> (Directive \<times> nat \<times> string) parsed" where
  "parse_conversion p index d =
     (case p of
        c # q \<Rightarrow>
          if c \<notin> set conversion_chars then Malformed ''missing conversion specifier''
          else
            let takes = (value_index d = 0 \<and> c \<notin> set ''m%'');
                d = (if takes then d\<lparr>value_index := of_nat index\<rparr> else d);
                index = (if takes then index + 1 else index) in
            Parsed (d\<lparr>conversion := (if c = CHR ''C'' then CHR ''c'' else c)\<rparr>, index, q)
      | [] \<Rightarrow> Overrun)"

fun bind_parsed :: "'a parsed \<Rightarrow> ('a \<Rightarrow> 'b parsed) \<Rightarrow> 'b parsed" where
  "bind_parsed Overrun f = Overrun"
| "bind_parsed (Malformed e) f = Malformed e"
| "bind_parsed (Parsed x) f = f x"

definition parse_value_position :: "string \<Rightarrow> (Directive \<times> string) parsed" where
  "parse_value_position p =
     (case parse_positional p of
        Some (ui64, q) \<Rightarrow>
          if position_ok ui64 then Parsed (new_directive\<lparr>value_index := ucast ui64\<rparr>, q)
          else Malformed ''invalid positional specification''
      | None \<Rightarrow> Parsed (new_directive, p))"

definition parse_directive :: "string \<Rightarrow> nat \<Rightarrow> (Directive \<times> nat \<times> string) parsed" where
  "parse_directive p index =
     (if p = [] \<or> hd p \<noteq> CHR ''%'' then Malformed (''missing '' @ [CHR 0x27] @ ''%'' @ [CHR 0x27] @ '' at start'')
      else
        bind_parsed (parse_value_position (tl p)) (\<lambda>(d, p).
        bind_parsed (parse_flags p d) (\<lambda>(d, p).
        bind_parsed (parse_width p index d) (\<lambda>(d, index, p).
        bind_parsed (parse_precision p index d) (\<lambda>(d, index, p).
        bind_parsed (skip_modifiers p) (\<lambda>p.
        parse_conversion p index d))))))"


subsection \<open>Arguments\<close>

text \<open>
  The tagged union of an argument: integers by size, \<open>double\<close>, \<open>long double\<close>, pointers and C strings by
  address.
\<close>

datatype 'f FormatArg = Arg1 u8 | Arg2 u16 | Arg4 u32 | Arg6 u64 | Arg8 u64 | ArgF 'f | ArgD 'f | ArgP u64 | ArgS u64

text \<open>What is passed on to \<open>asprintf\<close>.\<close>

datatype 'f vararg = Value "'f FormatArg" | Text string

text \<open>
  The outside world: \<open>asprintf\<close>, the string at an address, conversions between integers and floats, and
  the bytes of a union read as a pointer.
\<close>

record 'f libc =
  asprintf :: "string \<Rightarrow> 'f vararg list \<Rightarrow> string option"
  chars_at :: "u64 \<Rightarrow> string"
  float_to_int :: "'f \<Rightarrow> u64"
  int_to_float :: "int \<Rightarrow> 'f"
  union_ptr :: "'f FormatArg \<Rightarrow> u64"

definition format_arg :: "'f FormatArg list \<Rightarrow> u32 \<Rightarrow> 'f FormatArg option" where
  "format_arg fargs k = (if k \<noteq> 0 \<and> unat k \<le> length fargs then Some (fargs ! (unat k - 1)) else None)"

definition arg_as_longlong :: "'f libc \<Rightarrow> 'f FormatArg list \<Rightarrow> u32 \<Rightarrow> u64" where
  "arg_as_longlong lib fargs k =
     (case format_arg fargs k of
        Some (Arg1 w) \<Rightarrow> scast w
      | Some (Arg2 w) \<Rightarrow> scast w
      | Some (Arg4 w) \<Rightarrow> scast w
      | Some (Arg6 w) \<Rightarrow> w
      | Some (Arg8 w) \<Rightarrow> w
      | Some (ArgF f) \<Rightarrow> float_to_int lib f
      | Some (ArgD f) \<Rightarrow> float_to_int lib f
      | Some (ArgP a) \<Rightarrow> a
      | Some (ArgS a) \<Rightarrow> a
      | None \<Rightarrow> 0)"

definition arg_as_ldouble :: "'f libc \<Rightarrow> 'f FormatArg list \<Rightarrow> u32 \<Rightarrow> 'f" where
  "arg_as_ldouble lib fargs k =
     (case format_arg fargs k of
        Some (Arg1 w) \<Rightarrow> int_to_float lib (sint w)
      | Some (Arg2 w) \<Rightarrow> int_to_float lib (sint w)
      | Some (Arg4 w) \<Rightarrow> int_to_float lib (sint w)
      | Some (Arg6 w) \<Rightarrow> int_to_float lib (sint w)
      | Some (Arg8 w) \<Rightarrow> int_to_float lib (sint w)
      | Some (ArgF f) \<Rightarrow> f
      | Some (ArgD f) \<Rightarrow> f
      | Some (ArgP a) \<Rightarrow> int_to_float lib (uint a)
      | Some (ArgS a) \<Rightarrow> int_to_float lib (uint a)
      | None \<Rightarrow> int_to_float lib 0)"

definition arg_as_chars :: "'f libc \<Rightarrow> 'f FormatArg list \<Rightarrow> u32 \<Rightarrow> string" where
  "arg_as_chars lib fargs k =
     (case format_arg fargs k of
        Some (ArgS a) \<Rightarrow> if a = 0 then ''(null)'' else chars_at lib a
      | Some (ArgP a) \<Rightarrow> if a = 0 then ''(null)'' else chars_at lib a
      | _ \<Rightarrow> [])"

definition arg_as_ptr :: "'f libc \<Rightarrow> 'f FormatArg list \<Rightarrow> u32 \<Rightarrow> u64" where
  "arg_as_ptr lib fargs k =
     (case format_arg fargs k of Some (ArgP a) \<Rightarrow> a | Some (ArgS a) \<Rightarrow> a | Some a \<Rightarrow> union_ptr lib a | None \<Rightarrow> 0)"

definition abs32 :: "u32 \<Rightarrow> u32" where "abs32 w = (if sint w < 0 then - w else w)"

definition arg_as_width :: "'f libc \<Rightarrow> 'f FormatArg list \<Rightarrow> u32 \<Rightarrow> u32" where
  "arg_as_width lib fargs k =
     (let w = abs32 (ucast (arg_as_longlong lib fargs k)) in if sint w < 0 then abs32 (w + 1) else w)"

definition arg_as_precision :: "'f libc \<Rightarrow> 'f FormatArg list \<Rightarrow> u32 \<Rightarrow> u32" where
  "arg_as_precision lib fargs k =
     (let p = ucast (arg_as_longlong lib fargs k) :: u32 in if sint p < 0 then 0 else p)"

subsection \<open>Rendering a directive\<close>

definition system_string_printf :: "'f libc \<Rightarrow> string \<Rightarrow> 'f vararg list \<Rightarrow> string" where
  "system_string_printf lib fmt args = (case asprintf lib fmt args of Some s \<Rightarrow> s | None \<Rightarrow> fmt)"

definition arg_format :: "Directive \<Rightarrow> string \<Rightarrow> string" where
  "arg_format dir modifier =
     ''%'' @
     (if adjust_left dir then ''-'' else []) @
     (if add_sign dir then ''+'' else []) @
     (if add_space dir then '' '' else []) @
     (if zero_padding dir \<and> \<not> adjust_left dir \<and> strchr ''diouXxFfGgEeAa'' (conversion dir) then ''0'' else []) @
     (if alternate_form dir \<and> strchr ''oXxFfGgEeAa'' (conversion dir) then ''#'' else []) @
     (if locale_grouping dir \<and> strchr ''iduFfGg'' (conversion dir) then [CHR 0x27] else []) @
     (if use_width dir then ''*'' else []) @
     (if use_precision dir \<and> strchr ''smdiouXxFfGgEeAa'' (conversion dir) then ''.*'' else []) @
     modifier @ [conversion dir]"

definition render_arg :: "'f libc \<Rightarrow> 'f FormatArg list \<Rightarrow> Directive \<Rightarrow> string \<Rightarrow> 'f vararg \<Rightarrow> string" where
  "render_arg lib fargs dir modifier arg =
     (let width = (if \<not> use_width dir \<or> width_index dir = 0 then field_width dir
                   else arg_as_width lib fargs (width_index dir));
          prec = (if \<not> use_precision dir \<or> precision_index dir = 0 then precision dir
                  else arg_as_precision lib fargs (precision_index dir));
          fmt = arg_format dir modifier in
      if use_width dir \<and> use_precision dir then system_string_printf lib fmt [Value (Arg4 width), Value (Arg4 prec), arg]
      else if use_precision dir then system_string_printf lib fmt [Value (Arg4 prec), arg]
      else if use_width dir then system_string_printf lib fmt [Value (Arg4 width), arg]
      else system_string_printf lib fmt [arg])"

definition render_directive :: "'f libc \<Rightarrow> 'f FormatArg list \<Rightarrow> Directive \<Rightarrow> string" where
  "render_directive lib fargs dir =
     (let c = conversion dir; i = value_index dir in
      if c = CHR ''m'' then render_arg lib fargs dir [] (Value (Arg4 0))
      else if c = CHR ''p'' then render_arg lib fargs dir [] (Value (ArgP (arg_as_ptr lib fargs i)))
      else if c = CHR ''s'' then render_arg lib fargs dir [] (Text (arg_as_chars lib fargs i))
      else if c \<in> set ''cdiouXx'' then
        (case format_arg fargs i of
           Some (Arg1 w) \<Rightarrow> render_arg lib fargs dir ''hh'' (Value (Arg1 w))
         | Some (Arg2 w) \<Rightarrow> render_arg lib fargs dir ''h'' (Value (Arg2 w))
         | Some (Arg4 w) \<Rightarrow> render_arg lib fargs dir [] (Value (Arg4 w))
         | Some (Arg6 w) \<Rightarrow> render_arg lib fargs dir ''l'' (Value (Arg6 w))
         | Some (Arg8 w) \<Rightarrow> render_arg lib fargs dir ''ll'' (Value (Arg8 w))
         | _ \<Rightarrow> render_arg lib fargs dir ''ll'' (Value (Arg8 (arg_as_longlong lib fargs i))))
      else if c \<in> set ''fFeEgGaA'' then
        (case format_arg fargs i of
           Some (ArgF f) \<Rightarrow> render_arg lib fargs dir [] (Value (ArgF f))
         | _ \<Rightarrow> render_arg lib fargs dir ''L'' (Value (ArgD (arg_as_ldouble lib fargs i))))
      else if c = CHR ''%'' then ''%''
      else [CHR ''%'', c])"

subsection \<open>Formats\<close>

fun upper_directive_count :: "string \<Rightarrow> nat" where
  "upper_directive_count [] = 0"
| "upper_directive_count (c # p) =
     (if c = CHR ''%''
      then Suc (upper_directive_count (if p \<noteq> [] \<and> hd p = CHR ''%'' then tl p else p))
      else upper_directive_count p)"


lemma rest_digits_suffix: "rest_digits u p = Some (v, q) \<Longrightarrow> suffix q p"
  by (induction u p rule: rest_digits.induct) (auto simp: Let_def suffix_ConsI split: if_splits)

lemma parse_unsigned_suffix: "parse_unsigned_integer p = Some (v, q) \<Longrightarrow> suffix q p"
  by (auto simp: parse_unsigned_integer_def suffix_ConsI split: list.splits if_splits dest: rest_digits_suffix)

lemma parse_positional_suffix: "parse_positional p = Some (v, q) \<Longrightarrow> suffix q p"
  by (auto simp: parse_positional_def split: option.splits list.splits if_splits
      dest!: parse_unsigned_suffix suffix_ConsD)

lemma parse_value_suffix: "parse_value_position p = Parsed (d, q) \<Longrightarrow> suffix q p"
  by (auto simp: parse_value_position_def split: option.splits if_splits dest!: parse_positional_suffix)

lemma parse_flags_suffix: "parse_flags p d = Parsed (d', q) \<Longrightarrow> suffix q p"
  by (induction p d rule: parse_flags.induct) (auto simp: suffix_ConsI split: if_splits)

lemma suffix_tlD: "suffix q (tl p) \<Longrightarrow> suffix q p"
  by (cases p) (auto simp: suffix_ConsI)

lemma suffix_tl2: "suffix (tl (tl p)) p" "suffix q (tl (tl p)) \<Longrightarrow> suffix q p"
  by (meson suffix_tl suffix_order.trans)+

lemma parse_width_suffix: "parse_width p i d = Parsed (d', i', q) \<Longrightarrow> suffix q p"
  by (auto simp: parse_width_def split: option.splits if_splits
      dest!: parse_positional_suffix parse_unsigned_suffix dest: suffix_tlD)

lemma parse_precision_suffix: "parse_precision p i d = Parsed (d', i', q) \<Longrightarrow> suffix q p"
  by (auto simp: parse_precision_def Let_def split: option.splits if_splits
      dest!: parse_positional_suffix parse_unsigned_suffix dest: suffix_tlD suffix_tl2(2) intro: suffix_tl2(1))

lemma skip_modifiers_suffix: "skip_modifiers p = Parsed q \<Longrightarrow> suffix q p"
  by (auto simp: skip_modifiers_def split: list.splits) (metis suffix_dropWhile)

lemma parse_conversion_suffix: "parse_conversion p i d = Parsed (d', i', q) \<Longrightarrow> \<exists>c. p = c # q"
  by (auto simp: parse_conversion_def Let_def split: list.splits if_splits)

lemma bind_parsed_Parsed [simp]: "bind_parsed m f = Parsed y \<longleftrightarrow> (\<exists>x. m = Parsed x \<and> f x = Parsed y)"
  by (cases m) auto

text \<open>A directive takes the percent sign and at least one more character; a second percent sign ends it.\<close>

lemma parse_directive_suffix:
  assumes "parse_directive p i = Parsed (d, i', q)"
  shows "\<exists>c r. p = CHR ''%'' # c # r \<and> suffix q r \<and> (c = CHR ''%'' \<longrightarrow> q = r)"
proof -
  obtain r where p: "p = CHR ''%'' # r" using assms by (cases p) (auto simp: parse_directive_def split: if_splits)
  obtain d1 r1 d2 r2 d3 i3 r3 d4 i4 r4 r5 where
    s: "parse_value_position r = Parsed (d1, r1)" "parse_flags r1 d1 = Parsed (d2, r2)"
      "parse_width r2 i d2 = Parsed (d3, i3, r3)" "parse_precision r3 i3 d3 = Parsed (d4, i4, r4)"
      "skip_modifiers r4 = Parsed r5" "parse_conversion r5 i4 d4 = Parsed (d, i', q)"
    using assms unfolding p parse_directive_def by (auto split: prod.splits)
  obtain c5 where "r5 = c5 # q" using parse_conversion_suffix [OF s(6)] by blast
  moreover have "suffix r5 r"
    using parse_value_suffix [OF s(1)] parse_flags_suffix [OF s(2)] parse_width_suffix [OF s(3)]
      parse_precision_suffix [OF s(4)] skip_modifiers_suffix [OF s(5)] by (meson suffix_order.trans)
  ultimately have "suffix (c5 # q) r" by simp
  then obtain c r' where r: "r = c # r'" and q: "suffix q r'" by (cases r) (auto simp: suffix_Cons dest: suffix_ConsD)
  have "q = r'" if "c = CHR ''%''"
    using s unfolding r that
    by (auto simp: parse_value_position_def parse_positional_def parse_unsigned_integer_def flag_chars_def
        parse_width_def parse_precision_def skip_modifiers_def modifier_chars_def parse_conversion_def Let_def
        split: if_splits)
  then show ?thesis using p r q by blast
qed

text \<open>
  The directives of a format: the parsed directives with their positions, or the string the function
  returns with the warning it prints.
\<close>

datatype 'a outcome = Crash | Return string "(string \<times> nat) option" | Proceed 'a

lemma suffix_dropWhile_length: "suffix q r \<Longrightarrow> dropWhile P p = a # c # r \<Longrightarrow> length q < length p"
  using suffix_length_le [of q r] length_dropWhile_le [of P p] by simp

function parse_loop ::
  "string \<Rightarrow> nat \<Rightarrow> string \<Rightarrow> nat \<Rightarrow> Directive list \<Rightarrow> (Directive list \<times> nat) outcome" where
  "parse_loop fmt max_dirs p nextarg dirs =
     (let p = dropWhile (\<lambda>c. c \<noteq> CHR ''%'') p in
      if p = [] then Proceed (dirs, nextarg)
      else
        (case parse_directive p nextarg of
           Overrun \<Rightarrow> Crash
         | Malformed err \<Rightarrow> Return fmt (Some (err, length dirs + 1))
         | Parsed (d, nextarg, q) \<Rightarrow>
             let dirs = dirs @ [d\<lparr>dir_start := length fmt - length p, dir_end := length fmt - length q\<rparr>] in
             if \<not> length dirs < max_dirs then Return [] None else parse_loop fmt max_dirs q nextarg dirs))"
  by pat_completeness auto

termination
  by (relation "measure (\<lambda>(_, _, p, _, _). length p)")
    (auto dest!: parse_directive_suffix suffix_dropWhile_length)

declare parse_loop.simps [simp del]

fun render_pieces ::
  "'f libc \<Rightarrow> (string \<Rightarrow> string) \<Rightarrow> 'f FormatArg list \<Rightarrow> string \<Rightarrow> nat \<Rightarrow> Directive list \<Rightarrow> string" where
  "render_pieces lib arg_transform fargs fmt p [] = []"
| "render_pieces lib arg_transform fargs fmt p (d # dirs) =
     substr fmt p (dir_start d - p) @
     (if conversion d \<noteq> NUL then arg_transform (render_directive lib fargs d) else []) @
     render_pieces lib arg_transform fargs fmt (dir_end d) dirs"

definition max_reference :: "Directive list \<Rightarrow> nat \<Rightarrow> nat" where
  "max_reference dirs argcounter =
     fold (\<lambda>d m. max (max (max m (unat (value_index d))) (unat (width_index d))) (unat (precision_index d)))
       dirs argcounter"

text \<open>\<open>render_format (last, format)\<close> with \<open>last = nargs_\<close>; a missing transform is the identity.\<close>

definition render_format ::
  "'f libc \<Rightarrow> (string \<Rightarrow> string) \<Rightarrow> 'f FormatArg list \<Rightarrow> string \<Rightarrow> unit outcome" where
  "render_format lib arg_transform fargs fmt =
     (case parse_loop fmt (1 + upper_directive_count fmt) fmt 1 [] of
        Crash \<Rightarrow> Crash
      | Return s w \<Rightarrow> Return s w
      | Proceed (dirs, nextarg) \<Rightarrow>
          let argmaxref = max_reference dirs (nextarg - 1);
              final = new_directive\<lparr>dir_start := length fmt, dir_end := length fmt\<rparr> in
          if argmaxref > length fargs then Return fmt (Some (''too few arguments for format'', 0))
          else if argmaxref < length fargs then Return fmt (Some (''too many arguments for format'', 0))
          else Return (render_pieces lib arg_transform fargs fmt 0 (dirs @ [final])) None)"


subsection \<open>Numbers are exact\<close>

definition decimal :: "nat \<Rightarrow> string \<Rightarrow> nat" where
  "decimal n ds = fold (\<lambda>c n. n * 10 + (of_char c - 48)) ds n"

lemma digit_u64_unat: "digit c \<Longrightarrow> unat (digit_u64 c) = of_char c - 48 \<and> of_char c - (48 :: nat) < 10"
proof -
  assume "digit c"
  then have "of_char c \<le> (57 :: nat)" by (auto simp: digit_def less_eq_char_def)
  then show ?thesis by (simp add: digit_u64_def unsigned_of_nat take_bit_nat_eq_self)
qed

lemma next_digit_exact:
  assumes "digit c" and "unat u \<le> 2147483647"
  shows "unat (u * 10 + digit_u64 c) = unat u * 10 + (of_char c - 48)"
proof -
  note d = digit_u64_unat [OF assms(1)]
  have "unat (u * 10) = unat u * 10" using assms(2) by (simp add: unat_word_ariths)
  then show ?thesis using assms(2) d by (simp add: unat_word_ariths)
qed

lemma rest_digits_exact:
  assumes "rest_digits u p = Some (v, q)"
  shows "u \<le> v" and "v \<le> 2147483647 \<Longrightarrow>
    \<exists>ds. p = ds @ q \<and> list_all digit ds \<and> unat v = decimal (unat u) ds \<and> (q \<noteq> [] \<longrightarrow> \<not> digit (hd q))"
  using assms
proof (induction u p rule: rest_digits.induct)
  case (2 u c p)
  {
    case 1
    then show ?case using "2.IH"(1) by (auto simp: Let_def not_less split: if_splits intro: order_trans)
  next
    case 2
    show ?case
    proof (cases "digit c")
      case True
      let ?u = "u * 10 + digit_u64 c"
      have s: "\<not> ?u < u" "rest_digits ?u p = Some (v, q)" using 2 True by (auto simp: Let_def split: if_splits)
      note IH = "2.IH"(1) [OF True refl refl s] "2.IH"(2) [OF True refl refl s(1) 2(1) s(2)]
      have "u \<le> 2147483647" using s(1) IH(1) 2(1) by simp
      then have "unat ?u = unat u * 10 + (of_char c - 48)"
        using next_digit_exact [OF True, of u] by (simp add: word_le_nat_alt)
      then obtain ds where "p = ds @ q \<and> list_all digit ds \<and> unat v = decimal (unat u * 10 + (of_char c - 48)) ds
          \<and> (q \<noteq> [] \<longrightarrow> \<not> digit (hd q))"
        using IH(2) by auto
      then show ?thesis using True by (intro exI [of _ "c # ds"]) (simp add: decimal_def)
    next
      case False
      then show ?thesis using 2 by (intro exI [of _ "[]"]) (auto simp: decimal_def)
    qed
  }
qed (auto simp: decimal_def)

text \<open>
  \<open>parse_unsigned_integer\<close> misses some overflows (\<open>u < last\<close> is not a complete test), but every value
  that its callers accept, up to 2147483647, is the value of exactly the digits it read.
\<close>

theorem parse_unsigned_exact:
  assumes "parse_unsigned_integer p = Some (v, q)" and "v \<le> 2147483647"
  shows "\<exists>ds. ds \<noteq> [] \<and> p = ds @ q \<and> list_all digit ds \<and> unat v = decimal 0 ds \<and> (q \<noteq> [] \<longrightarrow> \<not> digit (hd q))"
proof -
  obtain c r where p: "p = c # r" using assms(1) by (cases p) (auto simp: parse_unsigned_integer_def)
  show ?thesis
  proof (cases "c = CHR ''0'' \<and> \<not> (r \<noteq> [] \<and> digit (hd r))")
    case True
    then show ?thesis using assms(1) p
      by (intro exI [of _ "''0''"]) (auto simp: parse_unsigned_integer_def decimal_def digit_def)
  next
    case False
    then have c: "CHR ''1'' \<le> c" "c \<le> CHR ''9''" and r: "rest_digits (digit_u64 c) r = Some (v, q)"
      using assms(1) p by (auto simp: parse_unsigned_integer_def split: if_splits)
    have d: "digit c" using c by (auto simp: digit_def less_eq_char_def)
    obtain ds where "r = ds @ q \<and> list_all digit ds \<and> unat v = decimal (unat (digit_u64 c)) ds \<and> (q \<noteq> [] \<longrightarrow> \<not> digit (hd q))"
      using rest_digits_exact(2) [OF r assms(2)] by blast
    then show ?thesis
      using p d digit_u64_unat [OF d] by (intro exI [of _ "c # ds"]) (simp add: decimal_def)
  qed
qed

theorem parse_unsigned_exact_witness:
  "parse_unsigned_integer ''480$d'' = Some (480, ''$d'') \<and>
   (\<exists>ds. ds \<noteq> [] \<and> ''480$d'' = ds @ ''$d'' \<and> unat (480 :: u64) = decimal 0 ds)"
proof -
  have p: "parse_unsigned_integer ''480$d'' = Some (480, ''$d'')"
    by (simp add: parse_unsigned_integer_def digit_def digit_u64_def)
  then show ?thesis using parse_unsigned_exact [OF p] by auto
qed

subsection \<open>The directive array is large enough\<close>

lemma count_Cons: "upper_directive_count p \<le> upper_directive_count (c # p)"
proof (induction "length p" arbitrary: p c rule: less_induct)
  case less
  show ?case
  proof (cases "c = CHR ''%'' \<and> p \<noteq> [] \<and> hd p = CHR ''%''")
    case True
    then obtain r where p: "p = CHR ''%'' # r" by (cases p) auto
    have "upper_directive_count (tl r) \<le> upper_directive_count r"
      using less [of "tl r" "hd r"] p by (cases r) auto
    then show ?thesis using True p by auto
  qed auto
qed

lemma count_suffix: "suffix q p \<Longrightarrow> upper_directive_count q \<le> upper_directive_count p"
proof -
  have "upper_directive_count q \<le> upper_directive_count (xs @ q)" for xs
  proof (induction xs)
    case (Cons x xs)
    then show ?case using order_trans [OF Cons.IH count_Cons] by (simp only: append_Cons)
  qed simp
  then show "suffix q p \<Longrightarrow> ?thesis" by (auto simp: suffix_def)
qed

lemma count_dropWhile: "upper_directive_count (dropWhile (\<lambda>c. c \<noteq> CHR ''%'') p) = upper_directive_count p"
  by (induction p) auto

lemma parse_directive_count:
  assumes "parse_directive p i = Parsed (d, i', q)"
  shows "upper_directive_count q < upper_directive_count p"
proof -
  obtain c r where p: "p = CHR ''%'' # c # r" "suffix q r" "c = CHR ''%'' \<longrightarrow> q = r"
    using parse_directive_suffix [OF assms] by blast
  then show ?thesis
    using count_suffix [OF p(2)] count_Cons [of r c] by (cases "c = CHR ''%''") auto
qed

lemma parse_loop_fits:
  "length dirs + upper_directive_count p < max_dirs \<Longrightarrow> parse_loop fmt max_dirs p nextarg dirs \<noteq> Return [] None"
proof (induction fmt max_dirs p nextarg dirs rule: parse_loop.induct)
  case (1 fmt max_dirs p nextarg dirs)
  let ?p = "dropWhile (\<lambda>c. c \<noteq> CHR ''%'') p"
  show ?case
  proof (cases "?p = []")
    case False
    show ?thesis
    proof (cases "parse_directive ?p nextarg")
      case (Parsed x)
      obtain d i q where x: "x = (d, i, q)" by (metis prod_cases3)
      have c: "upper_directive_count q < upper_directive_count p"
        using parse_directive_count [OF Parsed [unfolded x]] by (simp only: count_dropWhile)
      let ?dirs = "dirs @ [d\<lparr>dir_start := length fmt - length ?p, dir_end := length fmt - length q\<rparr>]"
      have l: "length ?dirs + upper_directive_count q < max_dirs" using c "1.prems" by simp
      have "parse_loop fmt max_dirs q i ?dirs \<noteq> Return [] None"
        using "1.IH" [OF refl False Parsed x [symmetric] refl refl] l by simp
      then show ?thesis
        using False Parsed x l by (subst parse_loop.simps) (simp add: Let_def)
    qed (use False in \<open>subst parse_loop.simps, simp add: Let_def\<close>)+
  qed (subst parse_loop.simps, simp)
qed

text \<open>
  The array of directives that \<open>render_format\<close> sizes with \<open>upper_directive_count\<close> is never too small:
  whatever the format, the branch for an invalid count is not reached.
\<close>

theorem directives_fit:
  "parse_loop fmt (1 + upper_directive_count fmt) fmt 1 [] \<noteq> Return [] None"
  by (rule parse_loop_fits) simp


subsection \<open>Escaped text\<close>

definition percent_escape :: "string \<Rightarrow> string" where
  "percent_escape s = concat (map (\<lambda>c. if c = CHR ''%'' then ''%%'' else [c]) s)"

lemma percent_escape_simps [simp]:
  "percent_escape [] = []"
  "percent_escape (c # s) = (if c = CHR ''%'' then CHR ''%'' # CHR ''%'' # percent_escape s else c # percent_escape s)"
  by (simp_all add: percent_escape_def)

lemma parse_percent:
  "parse_directive (CHR ''%'' # CHR ''%'' # p) i = Parsed (new_directive\<lparr>conversion := CHR ''%''\<rparr>, i, p)"
  by (simp add: parse_directive_def parse_value_position_def parse_positional_def parse_unsigned_integer_def
      flag_chars_def parse_width_def parse_precision_def skip_modifiers_def modifier_chars_def parse_conversion_def
      conversion_chars_def Let_def new_directive_def)

definition literal_dirs :: "Directive list \<Rightarrow> bool" where
  "literal_dirs ds \<longleftrightarrow> (\<forall>d\<in>set ds. value_index d = 0 \<and> width_index d = 0 \<and> precision_index d = 0)"

lemma max_reference_literal: "literal_dirs ds \<Longrightarrow> max_reference ds n = n"
  unfolding max_reference_def literal_dirs_def by (induction ds) auto

lemma parse_loop_escaped:
  assumes "fmt = pre @ lit @ percent_escape s" and "CHR ''%'' \<notin> set lit"
    and "length dirs + upper_directive_count (percent_escape s) < max_dirs"
  shows "\<exists>ds. parse_loop fmt max_dirs (lit @ percent_escape s) i dirs = Proceed (dirs @ ds, i) \<and> literal_dirs ds \<and>
    render_pieces lib (\<lambda>r. r) fargs fmt (length pre)
      (ds @ [new_directive\<lparr>dir_start := length fmt, dir_end := length fmt\<rparr>]) = lit @ s"
  using assms
proof (induction s arbitrary: pre lit dirs)
  case Nil
  then have "dropWhile (\<lambda>c. c \<noteq> CHR ''%'') lit = []" by auto
  then show ?case using Nil
    by (intro exI [of _ "[]"]) (auto simp: parse_loop.simps literal_dirs_def substr_def new_directive_def)
next
  case (Cons c s)
  show ?case
  proof (cases "c = CHR ''%''")
    case True
    let ?d = "new_directive\<lparr>conversion := CHR ''%'', dir_start := length pre + length lit, dir_end := length pre + length lit + 2\<rparr>"
    obtain ds where ds: "parse_loop fmt max_dirs (percent_escape s) i (dirs @ [?d]) = Proceed ((dirs @ [?d]) @ ds, i)"
      "literal_dirs ds"
      "render_pieces lib (\<lambda>r. r) fargs fmt (length (pre @ lit @ ''%%''))
        (ds @ [new_directive\<lparr>dir_start := length fmt, dir_end := length fmt\<rparr>]) = s"
      using Cons.IH [of "pre @ lit @ ''%%''" "[]" "dirs @ [?d]"] Cons.prems True by auto
    have "dropWhile (\<lambda>c. c \<noteq> CHR ''%'') (lit @ ''%%'' @ percent_escape s) = ''%%'' @ percent_escape s"
      using Cons.prems(2) by (subst dropWhile_append2) auto
    then have "parse_loop fmt max_dirs (lit @ percent_escape (c # s)) i dirs = Proceed (dirs @ ?d # ds, i)"
      using ds(1) Cons.prems True
      by (subst parse_loop.simps) (simp add: parse_percent Let_def new_directive_def)
    moreover have "substr fmt (length pre) (length lit) = lit" using Cons.prems(1) by (simp add: substr_def)
    ultimately show ?thesis
      using ds(2,3) True
      by (intro exI [of _ "?d # ds"]) (auto simp: literal_dirs_def new_directive_def render_directive_def Let_def)
  next
    case False
    then show ?thesis using Cons.IH [of pre "lit @ [c]" dirs] Cons.prems by simp
  qed
qed

text \<open>
  Formatting without arguments undoes the escape of percent signs: \<open>render_format\<close> of any text with each
  percent sign doubled gives the text, without a warning.
\<close>

theorem escaped_text_roundtrip:
  "render_format lib (\<lambda>r. r) [] (percent_escape s) = Return s None"
proof -
  let ?fmt = "percent_escape s"
  obtain ds where "parse_loop ?fmt (1 + upper_directive_count ?fmt) ?fmt 1 [] = Proceed (ds, 1)" "literal_dirs ds"
    "render_pieces lib (\<lambda>r. r) [] ?fmt 0 (ds @ [new_directive\<lparr>dir_start := length ?fmt, dir_end := length ?fmt\<rparr>]) = s"
    using parse_loop_escaped [of ?fmt "[]" "[]" s "[]" "1 + upper_directive_count ?fmt" 1 lib "[]"] by auto
  then show ?thesis by (simp add: render_format_def max_reference_literal)
qed

text \<open>
  Two defects.  A format that ends in a percent sign makes the parser run over the terminating NUL, since
  \<open>strchr\<close> finds the NUL among the flags.  A precision with \<open>%c\<close> or \<open>%p\<close> is left out of the format given
  to \<open>asprintf\<close> but passed as an argument, so it is printed in place of the value.
\<close>

theorem format_defects:
  "render_format lib t fargs (filter (\<lambda>c. c \<noteq> CHR ''%'') s @ ''%'') = Crash \<and>
   (let dir = new_directive\<lparr>conversion := CHR ''c'', use_precision := True, precision := 3, value_index := 1\<rparr> in
    render_directive lib [Arg4 65] dir = system_string_printf lib ''%c'' [Value (Arg4 3), Value (Arg4 65)])"
proof -
  have "dropWhile (\<lambda>c. c \<noteq> CHR ''%'') (filter (\<lambda>c. c \<noteq> CHR ''%'') s @ ''%'') = ''%''"
    by (subst dropWhile_append2) auto
  moreover have "parse_directive ''%'' 1 = Overrun"
    by (simp add: parse_directive_def parse_value_position_def parse_positional_def parse_unsigned_integer_def)
  ultimately have "render_format lib t fargs (filter (\<lambda>c. c \<noteq> CHR ''%'') s @ ''%'') = Crash"
    unfolding render_format_def by (subst parse_loop.simps) (simp add: Let_def)
  then show ?thesis
    by (simp add: Let_def new_directive_def render_directive_def render_arg_def arg_format_def format_arg_def strchr_def cstr_def)
qed

end
