(* ===== verification/CallbackList.thy ===== *)
theory CallbackList
  imports Prelude
begin

section \<open>Reentrant callback lists (ase/callback.hh)\<close>

text \<open>
  \<open>CallbackList\<close>: callbacks may add and delete callbacks and start calls of the same list while a call
  runs.  Each running call keeps its \<open>next\<close> index in \<open>iters_\<close> (the innermost call last), and \<open>del_id\<close>
  adjusts them.  A frame also records the ids it has called, which the code does not keep.
\<close>

record frame =
  next_index :: nat
  called :: "nat list"

record 'f callback_list =
  funcs :: "(nat \<times> 'f) list"
  iters :: "frame list"
  id_counter :: nat

definition new_callback_list :: "nat \<Rightarrow> 'f callback_list" where
  "new_callback_list n = \<lparr>funcs = [], iters = [], id_counter = n\<rparr>"

definition cb_empty :: "'f callback_list \<Rightarrow> bool" where
  "cb_empty l \<longleftrightarrow> funcs l = []"

text \<open>\<open>add_id\<close> with \<open>newid\<close>, whose counter is shared by all lists.\<close>

definition add_id :: "'f \<Rightarrow> 'f callback_list \<Rightarrow> nat \<times> 'f callback_list" where
  "add_id f l = (let i = Suc (id_counter l) in (i, l\<lparr>funcs := funcs l @ [(i, f)], id_counter := i\<rparr>))"

fun find_id :: "nat \<Rightarrow> nat \<Rightarrow> (nat \<times> 'f) list \<Rightarrow> nat option" where
  "find_id j i [] = None"
| "find_id j i (e # es) = (if fst e = i then Some j else find_id (Suc j) i es)"

definition adjust_next :: "nat \<Rightarrow> frame \<Rightarrow> frame" where
  "adjust_next j fr = (if j < next_index fr then fr\<lparr>next_index := next_index fr - 1\<rparr> else fr)"

definition del_id :: "nat \<Rightarrow> 'f callback_list \<Rightarrow> bool \<times> 'f callback_list" where
  "del_id i l =
     (case find_id 0 i (funcs l) of
        Some j \<Rightarrow>
          (True, l\<lparr>funcs := erase_at j (funcs l),
                   iters := map (adjust_next j) (iters l)\<rparr>)
      | None \<Rightarrow> (False, l))"

text \<open>The steps of \<open>call\<close> on its innermost frame: start, one call of a callback, and the end.\<close>

definition call_start :: "'f callback_list \<Rightarrow> 'f callback_list" where
  "call_start l = l\<lparr>iters := iters l @ [\<lparr>next_index = 0, called = []\<rparr>]\<rparr>"

definition call_next :: "'f callback_list \<Rightarrow> ('f \<times> 'f callback_list) option" where
  "call_next l =
     (let fr = last (iters l); k = next_index fr in
      if iters l \<noteq> [] \<and> k < length (funcs l)
      then Some (snd (funcs l ! k),
        l\<lparr>iters := butlast (iters l) @ [\<lparr>next_index = k + 1, called = called fr @ [fst (funcs l ! k)]\<rparr>]\<rparr>)
      else None)"

definition call_end :: "'f callback_list \<Rightarrow> 'f callback_list option" where
  "call_end l =
     (if iters l \<noteq> [] \<and> \<not> next_index (last (iters l)) < length (funcs l)
      then Some (l\<lparr>iters := butlast (iters l)\<rparr>) else None)"

text \<open>
  Any program over the list: additions and deletions at any time, from inside or outside a callback, and
  nested calls; ids of other lists may be handed out in between.
\<close>

inductive cb_step :: "'f callback_list \<Rightarrow> 'f callback_list \<Rightarrow> bool" where
  step_add: "cb_step l (snd (add_id f l))"
| step_del: "cb_step l (snd (del_id i l))"
| step_start: "cb_step l (call_start l)"
| step_next: "call_next l = Some (f, l') \<Longrightarrow> cb_step l l'"
| step_end: "call_end l = Some l' \<Longrightarrow> cb_step l l'"
| step_other: "cb_step l (l\<lparr>id_counter := Suc (id_counter l)\<rparr>)"

subsection \<open>The invariant\<close>

definition ids :: "'f callback_list \<Rightarrow> nat list" where
  "ids l = map fst (funcs l)"

text \<open>
  Of the callbacks a frame has called, those still in the list are exactly the ones before \<open>next\<close>; it called
  them in the order of their ids.
\<close>

definition frame_ok :: "nat list \<Rightarrow> nat \<Rightarrow> frame \<Rightarrow> bool" where
  "frame_ok is n fr \<longleftrightarrow>
     next_index fr \<le> length is \<and> sorted_wrt (<) (called fr) \<and> (\<forall>i\<in>set (called fr). i \<le> n) \<and>
     filter (\<lambda>i. i \<in> set is) (called fr) = take (next_index fr) is \<and>
     (\<forall>i\<in>set (called fr). \<forall>j\<in>set (drop (next_index fr) is). i < j)"

definition cb_ok :: "'f callback_list \<Rightarrow> bool" where
  "cb_ok l \<longleftrightarrow> sorted_wrt (<) (ids l) \<and> (\<forall>i\<in>set (ids l). i \<le> id_counter l) \<and>
     (\<forall>fr\<in>set (iters l). frame_ok (ids l) (id_counter l) fr)"

lemma cb_ok_iters:
  "cb_ok l \<Longrightarrow> (\<And>fr. fr \<in> set frs \<Longrightarrow> frame_ok (ids l) (id_counter l) fr) \<Longrightarrow> cb_ok (l\<lparr>iters := frs\<rparr>)"
  by (simp add: cb_ok_def ids_def)

lemma cb_ok_frame: "cb_ok l \<Longrightarrow> fr \<in> set (iters l) \<Longrightarrow> frame_ok (ids l) (id_counter l) fr"
  by (simp add: cb_ok_def)

lemma cb_ok_new: "cb_ok (new_callback_list n)"
  by (simp add: cb_ok_def new_callback_list_def ids_def)

lemma frame_ok_add:
  assumes "frame_ok is n fr" and "\<forall>i\<in>set is. i \<le> n"
  shows "frame_ok (is @ [Suc n]) (Suc n) fr"
proof -
  have "Suc n \<notin> set (called fr)" using assms(1) by (auto simp: frame_ok_def)
  then have "filter (\<lambda>i. i \<in> set (is @ [Suc n])) (called fr) = filter (\<lambda>i. i \<in> set is) (called fr)"
    by (auto intro!: filter_cong)
  then show ?thesis using assms by (auto simp: frame_ok_def less_Suc_eq_le le_SucI)
qed

lemma cb_ok_add: 
  assumes ok: "cb_ok l"
  shows "cb_ok (snd (add_id f l))"
proof -
  have "ids (snd (add_id f l)) = ids l @ [Suc (id_counter l)]" "id_counter (snd (add_id f l)) = Suc (id_counter l)"
    "iters (snd (add_id f l)) = iters l"
    by (simp_all add: add_id_def ids_def Let_def)
  then show ?thesis
    using ok frame_ok_add [of "ids l" "id_counter l"] by (auto simp: cb_ok_def sorted_wrt_append less_Suc_eq_le le_SucI)
qed

lemma find_id_Some: "find_id k i es = Some j \<Longrightarrow> k \<le> j \<and> j - k < length es \<and> fst (es ! (j - k)) = i"
  by (induction k i es rule: find_id.induct) (auto split: if_splits simp: nth_Cons' Suc_diff_le)

lemma filter_notin: "a \<notin> set xs \<Longrightarrow> filter (\<lambda>i. i \<noteq> a) xs = xs"
  by (rule filter_True) auto

lemma frame_ok_del:
  assumes ok: "frame_ok is n fr" and s: "sorted_wrt (<) is" and j: "j < length is"
  shows "frame_ok (erase_at j is) n (adjust_next j fr)"
proof -
  let ?k = "next_index fr" and ?is = "erase_at j is"
  have d: "distinct is" using s strict_sorted_iff by blast
  have set: "set ?is = set is - {is ! j}" using set_erase_at [OF d j] .
  have t: "take ?k is = filter (\<lambda>i. i \<in> set is) (called fr)" using ok by (simp add: frame_ok_def)
  have f: "filter (\<lambda>i. i \<in> set ?is) (called fr) = filter (\<lambda>i. i \<noteq> is ! j) (take ?k is)"
    unfolding t set filter_filter by (auto intro: filter_cong)
  show ?thesis
  proof (cases "j < ?k")
    case True
    define xs ys where "xs = take j is" and "ys = drop (Suc j) (take ?k is)"
    have e: "take ?k is = xs @ is ! j # ys"
      using id_take_nth_drop [of j "take ?k is"] True j ok by (simp add: frame_ok_def min_def xs_def ys_def)
    have "distinct (xs @ is ! j # ys)" using distinct_take [OF d, of ?k] unfolding e .
    then have "filter (\<lambda>i. i \<noteq> is ! j) (take ?k is) = xs @ ys" unfolding e by (simp add: filter_notin)
    also have "\<dots> = take (?k - 1) ?is"
      using True ok j by (cases "?k - 1 = j") (auto simp: erase_at_def frame_ok_def min_def drop_take xs_def ys_def)
    finally have "filter (\<lambda>i. i \<in> set ?is) (called fr) = take (?k - 1) ?is" using f by simp
    moreover have "drop (?k - 1) ?is = drop ?k is"
      using True ok j by (simp add: erase_at_def frame_ok_def)
    ultimately show ?thesis
      using ok True j by (auto simp: frame_ok_def length_erase_at adjust_next_def)
  next
    case False
    then have k: "?k \<le> j" by simp
    have "is ! j \<notin> set (take ?k is)"
      using d k j by (metis id_take_nth_drop distinct_append disjoint_iff list.set_intros(1) set_take_subset_set_take subsetD)
    then have "filter (\<lambda>i. i \<noteq> is ! j) (take ?k is) = take ?k is" by (auto intro!: filter_True)
    also have "\<dots> = take ?k ?is" using k j by (simp add: erase_at_def)
    finally have "filter (\<lambda>i. i \<in> set ?is) (called fr) = take ?k ?is" using f by simp
    moreover have "set (drop ?k ?is) \<subseteq> set (drop ?k is)"
      using k j set_drop_subset_set_drop [of ?k "Suc j" "is"] by (auto simp: erase_at_def drop_take dest: in_set_takeD)
    ultimately show ?thesis using ok False k j by (auto simp: frame_ok_def length_erase_at adjust_next_def)
  qed
qed

lemma cb_ok_del:
  assumes "cb_ok l"
  shows "cb_ok (snd (del_id i l))"
proof (cases "find_id 0 i (funcs l)")
  case (Some j)
  then have j: "j < length (ids l)" using find_id_Some [OF Some] by (simp add: ids_def)
  have "map fst (erase_at j (funcs l)) = erase_at j (ids l)"
    by (simp add: erase_at_def ids_def take_map drop_map)
  then have e: "ids (snd (del_id i l)) = erase_at j (ids l)" using Some by (simp add: del_id_def ids_def)
  have "sorted_wrt (<) (erase_at j (ids l))" using assms sorted_wrt_erase_at by (auto simp: cb_ok_def)
  moreover have "set (erase_at j (ids l)) \<subseteq> set (ids l)"
    by (auto simp: erase_at_def dest: in_set_takeD in_set_dropD)
  moreover have "\<forall>fr\<in>set (iters (snd (del_id i l))). frame_ok (erase_at j (ids l)) (id_counter l) fr"
    using assms frame_ok_del [OF _ _ j] Some by (auto simp: cb_ok_def del_id_def)
  moreover have "id_counter (snd (del_id i l)) = id_counter l" using Some by (simp add: del_id_def)
  ultimately show ?thesis
    using assms unfolding cb_ok_def e by auto
qed (use assms in \<open>simp add: del_id_def\<close>)


lemma frame_ok_next:
  assumes ok: "frame_ok is n fr" and s: "sorted_wrt (<) is" "\<forall>i\<in>set is. i \<le> n" and k: "next_index fr < length is"
  shows "frame_ok is n \<lparr>next_index = next_index fr + 1, called = called fr @ [is ! next_index fr]\<rparr>"
proof -
  let ?k = "next_index fr"
  have d: "drop ?k is = is ! ?k # drop (Suc ?k) is" using k by (simp add: Cons_nth_drop_Suc)
  have "sorted_wrt (<) (drop ?k is)" using s(1) by (simp add: sorted_wrt_drop)
  then have "\<forall>j\<in>set (drop (Suc ?k) is). is ! ?k < j" unfolding d by simp
  moreover have "\<forall>i\<in>set (called fr). i < is ! ?k" using ok unfolding frame_ok_def d by simp
  ultimately show ?thesis
    using ok k s(2) unfolding frame_ok_def d
    by (auto simp: sorted_wrt_append take_Suc_conv_app_nth)
qed

lemma cb_ok_next: "cb_ok l \<Longrightarrow> call_next l = Some (f, l') \<Longrightarrow> cb_ok l'"
proof -
  assume ok: "cb_ok l" and n: "call_next l = Some (f, l')"
  let ?fr = "last (iters l)"
  have k: "iters l \<noteq> []" "next_index ?fr < length (ids l)" "fst (funcs l ! next_index ?fr) = ids l ! next_index ?fr"
    and l': "l' = l\<lparr>iters := butlast (iters l) @
        [\<lparr>next_index = next_index ?fr + 1, called = called ?fr @ [ids l ! next_index ?fr]\<rparr>]\<rparr>"
    using n by (auto simp: call_next_def Let_def ids_def split: if_splits)
  have "frame_ok (ids l) (id_counter l) \<lparr>next_index = next_index ?fr + 1, called = called ?fr @ [ids l ! next_index ?fr]\<rparr>"
    using frame_ok_next [OF cb_ok_frame _ _ k(2)] ok k(1) by (simp add: cb_ok_def)
  then show "cb_ok l'"
    unfolding l' using cb_ok_frame [OF ok] by (intro cb_ok_iters [OF ok]) (auto dest: in_set_butlastD)
qed

lemma cb_ok_step: "cb_step l l' \<Longrightarrow> cb_ok l \<Longrightarrow> cb_ok l'"
proof (induction rule: cb_step.induct)
  case (step_start l)
  then show ?case
    unfolding call_start_def by (intro cb_ok_iters) (auto simp: frame_ok_def dest: cb_ok_frame)
next
  case (step_end l l')
  then have "l' = l\<lparr>iters := butlast (iters l)\<rparr>" by (auto simp: call_end_def split: if_splits)
  then show ?case using step_end.prems by (auto intro: cb_ok_iters cb_ok_frame dest: in_set_butlastD)
next
  case (step_other l)
  then show ?case by (auto simp: cb_ok_def ids_def frame_ok_def le_SucI)
qed (auto intro: cb_ok_add cb_ok_del cb_ok_next)

text \<open>
  C26: Whatever callbacks add, delete and call while a call of the list runs, each call invokes the callbacks in
  the order they were added, none twice, and when it ends it has invoked every callback that is then
  in the list.
\<close>

theorem callbacks_called_once:
  assumes "cb_step\<^sup>*\<^sup>* (new_callback_list n) l" and "call_end l = Some l'"
  shows "sorted_wrt (<) (called (last (iters l))) \<and> ids l = filter (\<lambda>i. i \<in> set (ids l)) (called (last (iters l)))"
proof -
  have "cb_ok l" using assms(1) by (induction rule: rtranclp_induct) (auto intro: cb_ok_new cb_ok_step)
  then have "frame_ok (ids l) (id_counter l) (last (iters l))" "length (ids l) \<le> next_index (last (iters l))"
    using assms(2) by (auto simp: cb_ok_def call_end_def ids_def split: if_splits)
  then show ?thesis by (simp add: frame_ok_def)
qed

text \<open>
  Two callbacks; the first deletes itself while it runs, the second is still called.
\<close>

definition sample_list :: "nat callback_list" where
  "sample_list =
     (let l = call_start (snd (add_id 8 (snd (add_id 7 (new_callback_list 0))))) in
      snd (the (call_next (snd (del_id 1 (snd (the (call_next l))))))))"

lemma sample_list_run: "cb_step\<^sup>*\<^sup>* (new_callback_list 0) sample_list"
proof -
  let ?l = "call_start (snd (add_id (8 :: nat) (snd (add_id 7 (new_callback_list 0)))))"
  have "cb_step\<^sup>*\<^sup>* (new_callback_list 0) ?l"
    by (meson r_into_rtranclp rtranclp.rtrancl_into_rtrancl step_add step_start)
  moreover have "call_next ?l = Some (7, snd (the (call_next ?l)))"
    by (simp add: call_next_def call_start_def add_id_def new_callback_list_def Let_def)
  moreover have "call_next (snd (del_id 1 (snd (the (call_next ?l))))) = Some (8, sample_list)"
    by (simp add: sample_list_def call_next_def call_start_def add_id_def new_callback_list_def del_id_def adjust_next_def erase_at_def Let_def)
  ultimately show ?thesis by (meson rtranclp.rtrancl_into_rtrancl step_next step_del)
qed

theorem callbacks_called_once_witness:
  "ids sample_list = [2] \<and> called (last (iters sample_list)) = [1, 2] \<and>
   ids sample_list = filter (\<lambda>i. i \<in> set (ids sample_list)) (called (last (iters sample_list)))"
proof -
  have e: "ids sample_list = [2]" "called (last (iters sample_list)) = [1, 2]"
    "call_end sample_list = Some (the (call_end sample_list))"
    by (simp_all add: sample_list_def call_next_def call_start_def add_id_def new_callback_list_def del_id_def adjust_next_def
        erase_at_def Let_def ids_def call_end_def)
  then show ?thesis using callbacks_called_once [OF sample_list_run e(3)] by simp
qed

end
