(* ===== verification/EventLoop.thy ===== *)
theory EventLoop
  imports Prelude
begin

section \<open>Event loops (ase/loop.cc)\<close>

text \<open>
  \<open>MainLoop\<close> with its sub loops and their sources, in an explicit store: sources and loops are numbers,
  loop 0 is the main loop itself.  What a source does in \<open>prepare\<close>, \<open>check\<close>, \<open>dispatch\<close> and \<open>destroy\<close>
  runs unlocked and may change anything, so it is an argument that maps states to states, as are
  \<open>poll\<close> and the clock.  Without a GLib context (\<open>gcontext_\<close> is null).
\<close>

datatype loop_state = WAITING | PREPARED | NEEDS_DISPATCH

datatype phase = NONE | COLLECT | PREPARE | CHECK | DISPATCH | DESTROY

record PollFD =
  pfd_fd :: int
  pfd_events :: u16
  pfd_revents :: u16

text \<open>The pair of \<open>pfds_\<close>: the descriptor and its index in the array given to \<open>poll\<close>, or \<open>UINT_MAX\<close>.\<close>

record event_source =
  src_loop :: "nat option"
  src_id :: u32
  src_priority :: int
  src_state :: loop_state
  may_recurse :: bool
  dispatching :: bool
  was_dispatching :: bool
  src_primary :: bool
  src_pfds :: "(PollFD \<times> nat) list"

record event_loop =
  attached :: bool
  sources :: "nat list"
  poll_sources :: "nat list"
  dispatch_priority :: int
  loop_primary :: bool

record 'w main_loop =
  source :: "nat \<Rightarrow> event_source"
  eloop :: "nat \<Rightarrow> event_loop"
  loops :: "nat list"
  rr_index :: u32
  running :: bool
  has_quit :: bool
  quit_code :: int
  id_counter :: u32
  wakeup_pending :: bool
  world :: 'w

record LoopState =
  lphase :: phase
  seen_primary :: bool
  current_time :: nat
  timeout_usecs :: int

text \<open>The virtual methods of the sources, the system call and the clock.\<close>

record 'w client =
  prepare_fn :: "nat \<Rightarrow> LoopState \<Rightarrow> 'w main_loop \<Rightarrow> bool \<times> int \<times> 'w main_loop"
  check_fn :: "nat \<Rightarrow> LoopState \<Rightarrow> 'w main_loop \<Rightarrow> bool \<times> 'w main_loop"
  dispatch_fn :: "nat \<Rightarrow> LoopState \<Rightarrow> 'w main_loop \<Rightarrow> bool \<times> 'w main_loop"
  destroy_fn :: "nat \<Rightarrow> 'w main_loop \<Rightarrow> 'w main_loop"
  poll_fn :: "PollFD list \<Rightarrow> int \<Rightarrow> 'w main_loop \<Rightarrow> bool \<times> PollFD list \<times> 'w main_loop"
  clock_fn :: "'w main_loop \<Rightarrow> nat \<times> 'w main_loop"

definition PRIORITY_CEILING :: int where "PRIORITY_CEILING = 999"
definition PRIORITY_ASCENT :: int where "PRIORITY_ASCENT = 800"
definition UNDEFINED_PRIORITY :: int where "UNDEFINED_PRIORITY = - 32768"
definition UINT_MAX :: nat where "UINT_MAX = 4294967295"
definition INT64_MAX :: int where "INT64_MAX = 9223372036854775807"

definition upd_source :: "nat \<Rightarrow> (event_source \<Rightarrow> event_source) \<Rightarrow> 'w main_loop \<Rightarrow> 'w main_loop" where
  "upd_source s f m = m\<lparr>source := (source m)(s := f (source m s))\<rparr>"

definition upd_loop :: "nat \<Rightarrow> (event_loop \<Rightarrow> event_loop) \<Rightarrow> 'w main_loop \<Rightarrow> 'w main_loop" where
  "upd_loop l f m = m\<lparr>eloop := (eloop m)(l := f (eloop m l))\<rparr>"

subsection \<open>Sources\<close>

text \<open>\<open>EventSource::EventSource\<close>, \<open>recursion\<close>, \<open>add_poll\<close> and \<open>remove_poll\<close>.\<close>

definition new_source :: event_source where
  "new_source =
     \<lparr>src_loop = None, src_id = 0, src_priority = UNDEFINED_PRIORITY, src_state = WAITING, may_recurse = False,
      dispatching = False, was_dispatching = False, src_primary = False, src_pfds = []\<rparr>"

definition recursion :: "event_source \<Rightarrow> bool" where
  "recursion s \<longleftrightarrow> dispatching s \<and> was_dispatching s"

definition add_poll :: "PollFD \<Rightarrow> event_source \<Rightarrow> event_source" where
  "add_poll pfd s = s\<lparr>src_pfds := src_pfds s @ [(pfd, UINT_MAX)]\<rparr>"

text \<open>The descriptor is identified by its position; the last one moves into its place.\<close>

definition remove_poll :: "nat \<Rightarrow> event_source \<Rightarrow> event_source" where
  "remove_poll i s =
     (if i < length (src_pfds s) then s\<lparr>src_pfds := swap_erase i (src_pfds s)\<rparr> else s)"

subsection \<open>Adding and removing sources\<close>

definition alloc_id :: "'w main_loop \<Rightarrow> (u32 \<times> 'w main_loop) option" where
  "alloc_id m = (if id_counter m = 0 then None else Some (id_counter m, m\<lparr>id_counter := id_counter m + 1\<rparr>))"

definition wakeup :: "'w main_loop \<Rightarrow> 'w main_loop" where
  "wakeup m = m\<lparr>wakeup_pending := True\<rparr>"

text \<open>\<open>None\<close> is the \<open>fatal_error\<close> of \<open>alloc_id\<close>; the id 0 is a failed assertion.\<close>

definition add :: "nat \<Rightarrow> nat \<Rightarrow> int \<Rightarrow> 'w main_loop \<Rightarrow> (u32 \<times> 'w main_loop) option" where
  "add l s priority m =
     (if \<not> (1 \<le> priority \<and> priority \<le> PRIORITY_CEILING) then Some (0, m)
      else if src_loop (source m s) \<noteq> None then Some (0, m)
      else (case alloc_id m of
          None \<Rightarrow> None
        | Some (i, m1) \<Rightarrow>
            let m2 = upd_source s (\<lambda>x. x\<lparr>src_loop := Some l, src_id := i, src_state := WAITING, src_priority := priority\<rparr>) m1;
                m3 = upd_loop l (\<lambda>e. e\<lparr>sources := sources e @ [s]\<rparr>) m2 in
            Some (i, wakeup m3)))"

definition find_source :: "nat \<Rightarrow> u32 \<Rightarrow> 'w main_loop \<Rightarrow> nat option" where
  "find_source l i m = find (\<lambda>s. i = src_id (source m s)) (sources (eloop m l))"

definition remove_source :: "'w client \<Rightarrow> nat \<Rightarrow> nat \<Rightarrow> 'w main_loop \<Rightarrow> 'w main_loop" where
  "remove_source c l s m =
     (if src_loop (source m s) \<noteq> Some l then m
      else
        let m1 = upd_source s (\<lambda>x. x\<lparr>src_loop := None, src_state := WAITING\<rparr>) m in
        if s \<notin> set (sources (eloop m1 l)) then m1
        else
          destroy_fn c s
            (upd_source s (\<lambda>x. x\<lparr>src_id := 0\<rparr>) (upd_loop l (\<lambda>e. e\<lparr>sources := remove1 s (sources e)\<rparr>) m1)))"

definition try_remove :: "'w client \<Rightarrow> nat \<Rightarrow> u32 \<Rightarrow> 'w main_loop \<Rightarrow> bool \<times> 'w main_loop" where
  "try_remove c l i m =
     (case find_source l i m of
        None \<Rightarrow> (False, m)
      | Some s \<Rightarrow> (True, wakeup (remove_source c l s m)))"

definition clear_source :: "'w client \<Rightarrow> nat \<Rightarrow> u32 option \<Rightarrow> 'w main_loop \<Rightarrow> bool \<times> u32 option \<times> 'w main_loop" where
  "clear_source c l id_pointer m =
     (case id_pointer of
        None \<Rightarrow> (False, None, m)
      | Some i \<Rightarrow> (case try_remove c l i m of (removal, m') \<Rightarrow> (removal, Some 0, m')))"

definition has_primary :: "nat \<Rightarrow> 'w main_loop \<Rightarrow> bool" where
  "has_primary l m \<longleftrightarrow> loop_primary (eloop m l) \<or> list_ex (\<lambda>s. src_primary (source m s)) (sources (eloop m l))"

definition flag_primary :: "nat \<Rightarrow> bool \<Rightarrow> 'w main_loop \<Rightarrow> bool \<times> 'w main_loop" where
  "flag_primary l on m =
     (let was_primary = loop_primary (eloop m l); m1 = upd_loop l (\<lambda>e. e\<lparr>loop_primary := on\<rparr>) m in
      (was_primary, if on \<noteq> was_primary then wakeup m1 else m1))"

definition finishable :: "'w main_loop \<Rightarrow> bool" where
  "finishable m \<longleftrightarrow> \<not> (loop_primary (eloop m 0) \<or> list_ex (\<lambda>l. has_primary l m) (loops m))"

definition quit :: "int \<Rightarrow> 'w main_loop \<Rightarrow> 'w main_loop" where
  "quit code m = wakeup (m\<lparr>quit_code := code, has_quit := True, running := False\<rparr>)"

subsection \<open>One iteration: collect\<close>

definition eligible :: "nat \<Rightarrow> event_source \<Rightarrow> bool" where
  "eligible l x \<longleftrightarrow> \<not> (src_loop x \<noteq> Some l \<or> dispatching x \<and> \<not> may_recurse x)"

definition selects :: "int \<Rightarrow> event_source \<Rightarrow> bool" where
  "selects p x \<longleftrightarrow> src_priority x > p \<or> src_priority x = p \<and> src_state x = NEEDS_DISPATCH"

text \<open>The loop over the sources: the running dispatch priority and the poll candidates.\<close>

fun collect_loop :: "(nat \<Rightarrow> event_source) \<Rightarrow> nat \<Rightarrow> nat list \<Rightarrow> int \<Rightarrow> nat list \<Rightarrow> int \<times> nat list" where
  "collect_loop src l [] p candidates = (p, candidates)"
| "collect_loop src l (s # ss) p candidates =
     (let x = src s in
      if \<not> eligible l x then collect_loop src l ss p candidates
      else
        let p = (if src_priority x > p \<and> src_state x = NEEDS_DISPATCH then src_priority x else p) in
        collect_loop src l ss p (if selects p x then candidates @ [s] else candidates))"

definition collect_sources :: "nat \<Rightarrow> LoopState \<times> 'w main_loop \<Rightarrow> LoopState \<times> 'w main_loop" where
  "collect_sources l sm =
     (case sm of (st, m) \<Rightarrow>
      let e = eloop m l;
          seen = (seen_primary st \<or> loop_primary e \<or> list_ex (\<lambda>s. src_primary (source m s)) (sources e));
          (p, candidates) = collect_loop (source m) l (sources e) UNDEFINED_PRIORITY [] in
      (st\<lparr>seen_primary := seen\<rparr>,
       upd_loop l (\<lambda>e. e\<lparr>dispatch_priority := p, poll_sources := filter (\<lambda>s. selects p (source m s)) candidates\<rparr>) m))"

subsection \<open>Prepare and check\<close>

text \<open>Enter the descriptors of a prepared source into the array for \<open>poll\<close>.\<close>

fun push_pfds :: "(PollFD \<times> nat) list \<Rightarrow> PollFD list \<Rightarrow> (PollFD \<times> nat) list \<times> PollFD list" where
  "push_pfds [] pfda = ([], pfda)"
| "push_pfds ((pfd, i) # ps) pfda =
     (if pfd_fd pfd \<ge> 0
      then (case push_pfds ps (pfda @ [pfd\<lparr>pfd_revents := 0\<rparr>]) of (qs, pfda') \<Rightarrow> ((pfd, length pfda) # qs, pfda'))
      else (case push_pfds ps pfda of (qs, pfda') \<Rightarrow> ((pfd, UINT_MAX) # qs, pfda')))"

definition raise_priority :: "nat \<Rightarrow> nat \<Rightarrow> 'w main_loop \<Rightarrow> 'w main_loop" where
  "raise_priority l s m =
     upd_source s (\<lambda>x. x\<lparr>src_state := NEEDS_DISPATCH\<rparr>)
       (upd_loop l (\<lambda>e. e\<lparr>dispatch_priority := max (dispatch_priority e) (src_priority (source m s))\<rparr>) m)"

text \<open>The bodies of the two loops over \<open>poll_sources_\<close>.\<close>

definition prepare_source ::
  "'w client \<Rightarrow> nat \<Rightarrow> nat \<Rightarrow> LoopState \<times> PollFD list \<times> 'w main_loop \<Rightarrow> LoopState \<times> PollFD list \<times> 'w main_loop" where
  "prepare_source c l s t =
     (case t of (st, pfda, m) \<Rightarrow>
        if src_loop (source m s) \<noteq> Some l then (st, pfda, m)
        else
          case prepare_fn c s st m of (need_dispatch, timeout, m) \<Rightarrow>
            if src_loop (source m s) \<noteq> Some l then (st, pfda, m)
            else if need_dispatch then (st, pfda, raise_priority l s m)
            else
              case push_pfds (src_pfds (source m s)) pfda of (pfds', pfda') \<Rightarrow>
                (if timeout \<ge> 0 then st\<lparr>timeout_usecs := min (timeout_usecs st) timeout\<rparr> else st, pfda',
                 upd_source s (\<lambda>x. x\<lparr>src_state := PREPARED, src_pfds := pfds'\<rparr>) m))"

definition prepare_sources ::
  "'w client \<Rightarrow> nat \<Rightarrow> LoopState \<Rightarrow> PollFD list \<Rightarrow> 'w main_loop \<Rightarrow> bool \<times> LoopState \<times> PollFD list \<times> 'w main_loop" where
  "prepare_sources c l st pfda m =
     (case fold (prepare_source c l) (poll_sources (eloop m l)) (st, pfda, m) of (st', pfda', m') \<Rightarrow>
        (dispatch_priority (eloop m' l) > UNDEFINED_PRIORITY, st', pfda', m'))"

definition read_revents :: "PollFD list \<Rightarrow> PollFD \<times> nat \<Rightarrow> PollFD \<times> nat" where
  "read_revents pfda p =
     (case p of (pfd, idx) \<Rightarrow>
        if idx < length pfda \<and> pfd_fd pfd = pfd_fd (pfda ! idx)
        then (pfd\<lparr>pfd_revents := pfd_revents (pfda ! idx)\<rparr>, idx) else (pfd, UINT_MAX))"

definition check_source :: "'w client \<Rightarrow> nat \<Rightarrow> LoopState \<Rightarrow> PollFD list \<Rightarrow> nat \<Rightarrow> 'w main_loop \<Rightarrow> 'w main_loop" where
  "check_source c l st pfda s m =
     (if src_loop (source m s) \<noteq> Some l \<and> src_state (source m s) \<noteq> PREPARED then m
      else
        case check_fn c s st (upd_source s (\<lambda>x. x\<lparr>src_pfds := map (read_revents pfda) (src_pfds x)\<rparr>) m) of
          (need_dispatch, m) \<Rightarrow>
            if src_loop (source m s) \<noteq> Some l then m
            else if need_dispatch then raise_priority l s m
            else upd_source s (\<lambda>x. x\<lparr>src_state := WAITING\<rparr>) m)"

definition check_sources :: "'w client \<Rightarrow> nat \<Rightarrow> LoopState \<Rightarrow> PollFD list \<Rightarrow> 'w main_loop \<Rightarrow> bool \<times> 'w main_loop" where
  "check_sources c l st pfda m =
     (let m' = fold (check_source c l st pfda) (poll_sources (eloop m l)) m in
      (dispatch_priority (eloop m' l) > UNDEFINED_PRIORITY, m'))"

subsection \<open>Dispatch\<close>

definition dispatch_candidate :: "nat \<Rightarrow> 'w main_loop \<Rightarrow> nat option" where
  "dispatch_candidate l m =
     find (\<lambda>s. src_loop (source m s) = Some l \<and> src_priority (source m s) = dispatch_priority (eloop m l)
               \<and> src_state (source m s) = NEEDS_DISPATCH) (poll_sources (eloop m l))"

definition dispatch_source :: "'w client \<Rightarrow> nat \<Rightarrow> LoopState \<Rightarrow> 'w main_loop \<Rightarrow> 'w main_loop" where
  "dispatch_source c l st m =
     (let m1 = upd_loop l (\<lambda>e. e\<lparr>dispatch_priority := UNDEFINED_PRIORITY\<rparr>) m in
      case dispatch_candidate l m of
        None \<Rightarrow> m1
      | Some s \<Rightarrow>
          let old_was_dispatching = was_dispatching (source m1 s);
              m2 = upd_source s (\<lambda>x. x\<lparr>src_state := WAITING, was_dispatching := dispatching x, dispatching := True\<rparr>) m1 in
          (case dispatch_fn c s st m2 of (keep_alive, m3) \<Rightarrow>
             let m4 = upd_source s (\<lambda>x. x\<lparr>dispatching := was_dispatching x, was_dispatching := old_was_dispatching\<rparr>) m3 in
             if src_loop (source m4 s) = Some l \<and> \<not> keep_alive then remove_source c l s m4 else m4))"


subsection \<open>The main loop\<close>

text \<open>A loop over all loops with its results.\<close>

fun prepare_all ::
  "'w client \<Rightarrow> nat list \<Rightarrow> LoopState \<Rightarrow> PollFD list \<Rightarrow> 'w main_loop \<Rightarrow> bool list \<times> LoopState \<times> PollFD list \<times> 'w main_loop" where
  "prepare_all c [] st pfda m = ([], st, pfda, m)"
| "prepare_all c (l # ls) st pfda m =
     (case prepare_sources c l st pfda m of (d, st, pfda, m) \<Rightarrow>
        case prepare_all c ls st pfda m of (ds, st, pfda, m) \<Rightarrow> (d # ds, st, pfda, m))"

text \<open>\<open>dispatchable[i] |= check_sources_Lm\<close>, and the maximum priority of the dispatchable loops.\<close>

fun check_all ::
  "'w client \<Rightarrow> (nat \<times> bool) list \<Rightarrow> LoopState \<Rightarrow> PollFD list \<Rightarrow> int \<Rightarrow> 'w main_loop \<Rightarrow> bool list \<times> int \<times> 'w main_loop" where
  "check_all c [] st pfda p m = ([], p, m)"
| "check_all c ((l, d) # ls) st pfda p m =
     (case check_sources c l st pfda m of (d', m) \<Rightarrow>
        let p = (if d \<or> d' then max p (dispatch_priority (eloop m l)) else p) in
        case check_all c ls st pfda p m of (ds, p, m) \<Rightarrow> ((d \<or> d') # ds, p, m))"

text \<open>Round-robin: the next loop that is dispatchable at the maximum priority, with the new \<open>rr_index_\<close>.\<close>

partial_function (option) pick_loop :: "bool list \<Rightarrow> int list \<Rightarrow> int \<Rightarrow> u32 \<Rightarrow> (nat \<times> u32) option" where
  "pick_loop dispatchable priorities max_priority rr =
     (let index = unat rr mod length dispatchable in
      if \<not> dispatchable ! index then pick_loop dispatchable priorities max_priority (rr + 1)
      else if priorities ! index < max_priority then pick_loop dispatchable priorities max_priority (rr + 1)
      else Some (index, rr + 1))"

declare pick_loop.simps [code]

definition poll_timeout :: "bool \<Rightarrow> int \<Rightarrow> int" where
  "poll_timeout may_block usecs =
     (let msecs = (if usecs > 0 \<and> usecs div 1000 \<le> 0 then 1 else usecs div 1000) in
      if \<not> may_block then 0 else min msecs 2147483647)"

definition new_state :: LoopState where
  "new_state = \<lparr>lphase = NONE, seen_primary = False, current_time = 0, timeout_usecs = 0\<rparr>"

definition collect_all :: "LoopState \<Rightarrow> 'w main_loop \<Rightarrow> LoopState \<times> 'w main_loop" where
  "collect_all st m = fold collect_sources (loops m) (st\<lparr>lphase := COLLECT, seen_primary := False\<rparr>, m)"

text \<open>
  \<open>iterate_loops_Lm\<close> up to the check phase, with the loops and their dispatchable flags; \<open>wake_fd\<close> is
  \<open>eventfd_.inputfd()\<close>.
\<close>

definition poll_phases ::
  "'w client \<Rightarrow> int \<Rightarrow> bool \<Rightarrow> LoopState \<Rightarrow> 'w main_loop \<Rightarrow> bool list \<times> int \<times> LoopState \<times> 'w main_loop" where
  "poll_phases c wake_fd may_block st0 m0 =
     (let ls = loops m0; wake = \<lparr>pfd_fd = wake_fd, pfd_events = 1, pfd_revents = 0\<rparr>;
          (st, m) = collect_all st0 m0; (now, m) = clock_fn c m;
          (prepared, st, pfda, m) =
            prepare_all c ls (st\<lparr>lphase := PREPARE, timeout_usecs := INT64_MAX, current_time := now\<rparr>) [wake] m;
          (failed, pfda, m) = poll_fn c pfda (poll_timeout (may_block \<and> True \<notin> set prepared) (timeout_usecs st)) m;
          m = (if \<not> failed \<and> pfd_revents (pfda ! 0) \<noteq> 0 then m\<lparr>wakeup_pending := False\<rparr> else m);
          (now, m) = clock_fn c m;
          st = st\<lparr>lphase := CHECK, timeout_usecs := 0, current_time := now\<rparr>;
          (dispatchable, max_priority, m) = check_all c (zip ls prepared) st pfda (- 32768) m in
      (dispatchable, max_priority, st, m))"

definition unpoll_all :: "nat list \<Rightarrow> 'w main_loop \<Rightarrow> 'w main_loop" where
  "unpoll_all ls m = fold (\<lambda>l. upd_loop l (\<lambda>e. e\<lparr>poll_sources := []\<rparr>)) ls m"

text \<open>\<open>None\<close> is a round-robin search that never ends.\<close>

definition iterate_loops ::
  "'w client \<Rightarrow> int \<Rightarrow> bool \<Rightarrow> bool \<Rightarrow> LoopState \<Rightarrow> 'w main_loop \<Rightarrow> (bool \<times> LoopState \<times> 'w main_loop) option" where
  "iterate_loops c wake_fd may_block may_dispatch st0 m0 =
     (if lphase st0 \<noteq> NONE then Some (False, st0, m0)
      else
        case poll_phases c wake_fd may_block st0 m0 of (dispatchable, max_priority, st, m) \<Rightarrow>
          if may_dispatch \<and> True \<in> set dispatchable
          then (case pick_loop dispatchable (map (\<lambda>l. dispatch_priority (eloop m l)) (loops m0)) max_priority (rr_index m) of
              None \<Rightarrow> None
            | Some (index, rr) \<Rightarrow>
                Some (True, st\<lparr>lphase := NONE\<rparr>,
                  unpoll_all (loops m0)
                    (dispatch_source c (loops m0 ! index) (st\<lparr>lphase := DISPATCH\<rparr>) (m\<lparr>rr_index := rr\<rparr>))))
          else Some (True \<in> set dispatchable, st\<lparr>lphase := NONE\<rparr>, unpoll_all (loops m0) m))"

definition iterate :: "'w client \<Rightarrow> int \<Rightarrow> bool \<Rightarrow> 'w main_loop \<Rightarrow> (bool \<times> 'w main_loop) option" where
  "iterate c wake_fd may_block m =
     (case iterate_loops c wake_fd may_block True new_state (m\<lparr>running := True\<rparr>) of
        None \<Rightarrow> None
      | Some (pending, _, m') \<Rightarrow> Some (pending, m'\<lparr>running := running m \<and> \<not> has_quit m'\<rparr>))"

definition pending :: "'w client \<Rightarrow> int \<Rightarrow> 'w main_loop \<Rightarrow> (bool \<times> 'w main_loop) option" where
  "pending c wake_fd m =
     map_option (\<lambda>(p, _, m'). (p, m')) (iterate_loops c wake_fd False False new_state m)"

partial_function (option) pending_loop :: "'w client \<Rightarrow> int \<Rightarrow> LoopState \<Rightarrow> 'w main_loop \<Rightarrow> 'w main_loop option" where
  "pending_loop c wake_fd st m =
     (if \<not> running m then Some m
      else (case iterate_loops c wake_fd False True st m of
          None \<Rightarrow> None
        | Some (again, st', m') \<Rightarrow> if again then pending_loop c wake_fd st' m' else Some m'))"

definition iterate_pending :: "'w client \<Rightarrow> int \<Rightarrow> 'w main_loop \<Rightarrow> 'w main_loop option" where
  "iterate_pending c wake_fd m =
     map_option (\<lambda>m'. m'\<lparr>running := running m \<and> \<not> has_quit m'\<rparr>)
       (pending_loop c wake_fd new_state (m\<lparr>running := True\<rparr>))"

partial_function (option) run_loop :: "'w client \<Rightarrow> int \<Rightarrow> LoopState \<Rightarrow> 'w main_loop \<Rightarrow> 'w main_loop option" where
  "run_loop c wake_fd st m =
     (if \<not> running m then Some m
      else (case iterate_loops c wake_fd True True st m of
          None \<Rightarrow> None
        | Some (_, st', m') \<Rightarrow> run_loop c wake_fd st' m'))"

definition run :: "'w client \<Rightarrow> int \<Rightarrow> 'w main_loop \<Rightarrow> (int \<times> 'w main_loop) option" where
  "run c wake_fd m =
     map_option (\<lambda>m'. (quit_code m', m'\<lparr>running := False, has_quit := False, quit_code := 0\<rparr>))
       (run_loop c wake_fd new_state (m\<lparr>running := \<not> has_quit m\<rparr>))"

subsection \<open>Creating and destroying loops\<close>

definition new_loop :: event_loop where
  "new_loop = \<lparr>attached = True, sources = [], poll_sources = [], dispatch_priority = 0, loop_primary = False\<rparr>"

definition new_main_loop :: "'w \<Rightarrow> 'w main_loop" where
  "new_main_loop w =
     \<lparr>source = \<lambda>_. new_source, eloop = \<lambda>_. new_loop, loops = [0], rr_index = 0, running = False, has_quit = False,
      quit_code = 0, id_counter = 65536, wakeup_pending = True, world = w\<rparr>"

definition create_sub_loop :: "nat \<Rightarrow> 'w main_loop \<Rightarrow> 'w main_loop" where
  "create_sub_loop l m = wakeup (upd_loop l (\<lambda>_. new_loop) (m\<lparr>loops := loops m @ [l]\<rparr>))"

partial_function (option) kill_sources :: "'w client \<Rightarrow> nat \<Rightarrow> 'w main_loop \<Rightarrow> 'w main_loop option" where
  "kill_sources c l m =
     (case sources (eloop m l) of
        [] \<Rightarrow> Some (upd_loop l (\<lambda>e. e\<lparr>poll_sources := []\<rparr>) m)
      | s # _ \<Rightarrow> kill_sources c l (remove_source c l s m))"

definition kill_loop :: "'w client \<Rightarrow> nat \<Rightarrow> 'w main_loop \<Rightarrow> 'w main_loop option" where
  "kill_loop c l m =
     (case kill_sources c l m of
        None \<Rightarrow> None
      | Some m1 \<Rightarrow>
          if \<not> attached (eloop m1 l) then Some m1
          else
            let m2 = upd_loop l (\<lambda>e. e\<lparr>attached := False\<rparr>) m1 in
            if l = 0 \<and> loops m2 \<noteq> [] \<and> hd (loops m2) \<noteq> 0 then Some m2
            else if l \<noteq> 0 \<and> l \<notin> set (loops m2) then Some m2
            else Some (wakeup (m2\<lparr>loops := remove1 l (loops m2)\<rparr>)))"

partial_function (option) kill_loops :: "'w client \<Rightarrow> 'w main_loop \<Rightarrow> 'w main_loop option" where
  "kill_loops c m =
     (if length (loops m) > 1 \<or> hd (loops m) \<noteq> 0
      then (case kill_loop c (if hd (loops m) \<noteq> 0 then hd (loops m) else last (loops m)) m of
          None \<Rightarrow> None
        | Some m' \<Rightarrow> kill_loops c m')
      else kill_loop c 0 m)"

definition destroy_loop :: "'w client \<Rightarrow> nat \<Rightarrow> 'w main_loop \<Rightarrow> 'w main_loop option" where
  "destroy_loop c l m =
     (if \<not> attached (eloop m l) then Some m else if l \<noteq> 0 then kill_loop c l m else kill_loops c m)"

text \<open>\<open>exec_once\<close> with its timed source \<open>s\<close>; the callback slot is the source's business.\<close>

definition exec_once ::
  "'w client \<Rightarrow> nat \<Rightarrow> bool \<Rightarrow> nat \<Rightarrow> u32 \<Rightarrow> int \<Rightarrow> 'w main_loop \<Rightarrow> (bool \<times> u32 \<times> 'w main_loop) option" where
  "exec_once c l has_func s once_id priority m =
     (if \<not> (1 \<le> priority \<and> priority \<le> PRIORITY_CEILING) then Some (False, once_id, m)
      else if \<not> has_func
      then (case clear_source c l (Some once_id) m of (_, _, m') \<Rightarrow> Some (False, 0, m'))
      else (case alloc_id m of
          None \<Rightarrow> None
        | Some (i, m1) \<Rightarrow>
            let m2 = upd_source s (\<lambda>x. x\<lparr>src_loop := Some l, src_id := i, src_state := WAITING, src_priority := priority\<rparr>) m1;
                m3 = (if once_id \<noteq> 0
                      then (case find_source l once_id m2 of Some t \<Rightarrow> remove_source c l t m2 | None \<Rightarrow> m2)
                      else m2);
                m4 = upd_loop l (\<lambda>e. e\<lparr>sources := sources e @ [s]\<rparr>) m3 in
            Some (True, i, wakeup m4)))"

end
