(* ===== verification/LoopSchedule.thy ===== *)
theory LoopSchedule
  imports EventLoop
begin

section \<open>Which source an event loop dispatches (ase/loop.cc)\<close>

text \<open>
  Properties of \<open>EventLoop\<close>: the two pass collection of sources is a plain filter, the round-robin search
  ends, a dispatched source has the highest priority of all that are ready, and ready sources of one priority
  are dispatched in turn.
\<close>

subsection \<open>Collecting\<close>

definition ready_priority :: "(nat \<Rightarrow> event_source) \<Rightarrow> nat \<Rightarrow> nat list \<Rightarrow> int" where
  "ready_priority src l ss =
     Max (insert UNDEFINED_PRIORITY {src_priority (src s) |s. s \<in> set ss \<and> eligible l (src s) \<and> src_state (src s) = NEEDS_DISPATCH})"

lemma selects_mono: "selects q x \<Longrightarrow> p \<le> q \<Longrightarrow> selects p x"
  by (auto simp: selects_def)

definition ready_set :: "(nat \<Rightarrow> event_source) \<Rightarrow> nat \<Rightarrow> nat list \<Rightarrow> int set" where
  "ready_set src l ss = {src_priority (src s) |s. s \<in> set ss \<and> eligible l (src s) \<and> src_state (src s) = NEEDS_DISPATCH}"

lemma ready_set_Cons: "ready_set src l (s # ss) =
    (if eligible l (src s) \<and> src_state (src s) = NEEDS_DISPATCH then {src_priority (src s)} else {}) \<union> ready_set src l ss"
  by (auto simp: ready_set_def)

lemma finite_ready_set [simp]: "finite (ready_set src l ss)"
  by (simp add: ready_set_def)

lemma Max_insert_le: "a \<le> b \<Longrightarrow> finite R \<Longrightarrow> Max (insert a (insert b R)) = Max (insert b R)"
proof -
  assume r: "a \<le> b" "finite R"
  then have "b \<le> Max (insert b R)" by (intro Max_ge) auto
  moreover have "Max (insert a (insert b R)) = max a (Max (insert b R))" using r by (intro Max_insert) auto
  ultimately show ?thesis using r(1) by (metis max.absorb2 order_trans)
qed

lemma collect_loop_priority:
  "collect_loop src l ss p cs = (q, ds) \<Longrightarrow> q = Max (insert p (ready_set src l ss))"
proof (induction ss arbitrary: p cs)
  case (Cons s ss)
  show ?case
  proof (cases "eligible l (src s)")
    case True
    let ?r = "if src_priority (src s) > p \<and> src_state (src s) = NEEDS_DISPATCH then src_priority (src s) else p"
    have "q = Max (insert ?r (ready_set src l ss))" using Cons True by (auto simp: Let_def split: if_splits)
    then show ?thesis unfolding ready_set_Cons using True
      using Max_insert_le [of p "src_priority (src s)" "ready_set src l ss"]
        Max_insert_le [of "src_priority (src s)" p "ready_set src l ss"]
      by (cases "src_state (src s) = NEEDS_DISPATCH") (auto simp: insert_commute not_less split: if_splits)
  next
    case False
    then show ?thesis using Cons by (simp add: ready_set_Cons)
  qed
qed (simp add: ready_set_def)

lemma collect_loop_filter:
  "collect_loop src l ss p cs = (q, ds) \<Longrightarrow> filter (\<lambda>s. selects q (src s)) ds =
      filter (\<lambda>s. selects q (src s)) cs @ filter (\<lambda>s. eligible l (src s) \<and> selects q (src s)) ss"
proof (induction ss arbitrary: p cs)
  case (Cons s ss)
  show ?case
  proof (cases "eligible l (src s)")
    case True
    let ?r = "if src_priority (src s) > p \<and> src_state (src s) = NEEDS_DISPATCH then src_priority (src s) else p"
    let ?cs = "if selects ?r (src s) then cs @ [s] else cs"
    have c: "collect_loop src l ss ?r ?cs = (q, ds)" using Cons.prems True by (simp add: Let_def)
    have "?r \<le> q" unfolding collect_loop_priority [OF c] by (rule Max_ge) auto
    then have "selects q (src s) \<Longrightarrow> selects ?r (src s)" using selects_mono by blast
    then show ?thesis using Cons.IH [OF c] True by auto
  next
    case False
    then show ?thesis using Cons by simp
  qed
qed auto

lemma collect_sources_eq:
  "snd (collect_sources l (st, m)) =
     upd_loop l (\<lambda>e. e\<lparr>dispatch_priority := ready_priority (source m) l (sources e),
       poll_sources := filter (\<lambda>s. eligible l (source m s) \<and> selects (ready_priority (source m) l (sources e)) (source m s))
         (sources e)\<rparr>) m"
proof -
  obtain q ds where c: "collect_loop (source m) l (sources (eloop m l)) UNDEFINED_PRIORITY [] = (q, ds)" by fastforce
  show ?thesis
    using collect_loop_filter [OF c] collect_loop_priority [OF c]
    by (simp add: collect_sources_def Let_def c upd_loop_def ready_priority_def ready_set_def)
qed

text \<open>
  One pass over the sources that raises the dispatch priority as it goes, and one over the candidates,
  collect exactly the sources that are not recursing and lie above the highest priority with a source that
  still needs dispatching, plus those of that priority that do.
\<close>

theorem collect_sources_spec:
  "snd (collect_sources l (st, m)) =
     upd_loop l (\<lambda>e. e\<lparr>dispatch_priority := ready_priority (source m) l (sources e),
       poll_sources := filter (\<lambda>s. eligible l (source m s) \<and> selects (ready_priority (source m) l (sources e)) (source m s))
         (sources e)\<rparr>) m"
  by (rule collect_sources_eq)

subsection \<open>The round-robin search ends\<close>

lemma pick_loop_step:
  "pick_loop ds ps p rr =
     (let index = unat rr mod length ds in
      if ds ! index \<and> \<not> ps ! index < p then Some (index, rr + 1) else pick_loop ds ps p (rr + 1))"
  by (subst pick_loop.simps) (simp add: Let_def)

lemma pick_loop_from_below:
  assumes "i < length ds" "ds ! i" "\<not> ps ! i < p" and "unat rr \<le> i" and "length ds < 2 ^ 32"
  shows "\<exists>j r. pick_loop ds ps p rr = Some (j, r)"
  using assms(4)
proof (induction "i - unat rr" arbitrary: rr)
  case 0
  then have "unat rr mod length ds = i" using assms(1) by simp
  then show ?case using assms by (subst pick_loop_step) simp
next
  case (Suc k)
  have "unat (rr + 1) = unat rr + 1"
    using Suc assms by (simp add: unat_word_ariths)
  then show ?case using Suc by (subst pick_loop_step) (simp add: Let_def)
qed

text \<open>The unsigned index wraps around; whatever its value, some later step finds a loop.\<close>

lemma pick_loop_ends:
  assumes "i < length ds" "ds ! i" "\<not> ps ! i < p" "length ds < 2 ^ 32"
  shows "\<exists>j r. pick_loop ds ps p rr = Some (j, r)"
proof (induction "2 ^ 32 - unat rr" arbitrary: rr rule: less_induct)
  case less
  show ?case
  proof (cases "unat rr + 1 < 2 ^ 32")
    case True
    then have "unat (rr + 1) = unat rr + 1" by (simp add: unat_word_ariths)
    then show ?thesis using less True by (subst pick_loop_step) (simp add: Let_def)
  next
    case False
    then have "unat rr = 2 ^ 32 - 1" using unat_u32_less [of rr] by simp
    then have "rr + 1 = 0" by (simp add: word_unat_eq_iff unat_word_ariths)
    then show ?thesis using pick_loop_from_below [OF assms(1-3), of 0] assms(4)
      by (subst pick_loop_step) (simp add: Let_def)
  qed
qed

lemma pick_loop_meets:
  assumes "pick_loop ds ps p rr = Some (j, r)" and "ds \<noteq> []"
  shows "j < length ds \<and> ds ! j \<and> \<not> ps ! j < p"
proof -
  have "ds \<noteq> [] \<longrightarrow> fst y < length ds \<and> ds ! fst y \<and> \<not> ps ! fst y < p"
    if "pick_loop ds ps p rr = Some y" for y
    using that
    by (induction rule: pick_loop.raw_induct [rotated 1, consumes 1]) (auto simp: Let_def split: if_splits)
  then show ?thesis using assms by fastforce
qed


subsection \<open>The dispatched source has the highest priority\<close>

text \<open>Sources whose \<open>prepare\<close> and \<open>check\<close> only touch the outside world, as do \<open>poll\<close> and the clock.\<close>

definition world_only :: "'w main_loop \<Rightarrow> 'w main_loop \<Rightarrow> bool" where
  "world_only m m' \<longleftrightarrow> (\<exists>w. m' = m\<lparr>world := w\<rparr>)"

definition quiet :: "'w client \<Rightarrow> bool" where
  "quiet c \<longleftrightarrow>
     (\<forall>s st m. world_only m (snd (snd (prepare_fn c s st m))) \<and> world_only m (snd (check_fn c s st m))) \<and>
     (\<forall>pfda t m. world_only m (snd (snd (poll_fn c pfda t m)))) \<and> (\<forall>m. world_only m (snd (clock_fn c m)))"

text \<open>\<open>ranked l m\<close>: every source of loop \<open>l\<close> that needs dispatching is at most at its dispatch priority.\<close>

definition needs :: "nat \<Rightarrow> nat \<Rightarrow> 'w main_loop \<Rightarrow> bool" where
  "needs l t m \<longleftrightarrow> t \<in> set (sources (eloop m l)) \<and> eligible l (source m t) \<and> src_state (source m t) = NEEDS_DISPATCH"

definition ranked :: "nat \<Rightarrow> 'w main_loop \<Rightarrow> bool" where
  "ranked l m \<longleftrightarrow> UNDEFINED_PRIORITY \<le> dispatch_priority (eloop m l) \<and> (\<forall>t. needs l t m \<longrightarrow> src_priority (source m t) \<le> dispatch_priority (eloop m l))"

text \<open>A step that works on other loops than \<open>l\<close>: the sources of \<open>l\<close> keep what \<open>ranked\<close> reads.\<close>

definition keeps :: "nat \<Rightarrow> 'w main_loop \<Rightarrow> 'w main_loop \<Rightarrow> bool" where
  "keeps l m m' \<longleftrightarrow> eloop m' l = eloop m l \<and>
     (\<forall>t. src_loop (source m' t) = src_loop (source m t) \<and> src_priority (source m' t) = src_priority (source m t) \<and>
        (src_loop (source m t) = Some l \<longrightarrow> src_state (source m' t) = src_state (source m t) \<and>
           dispatching (source m' t) = dispatching (source m t) \<and> may_recurse (source m' t) = may_recurse (source m t)))"

lemma keeps_refl [simp]: "keeps l m m" by (simp add: keeps_def)

lemma keeps_trans [trans]: "keeps l m m' \<Longrightarrow> keeps l m' m'' \<Longrightarrow> keeps l m m''"
  by (simp add: keeps_def)

lemma keeps_ranked: "keeps l m m' \<Longrightarrow> ranked l m \<Longrightarrow> ranked l m'"
  unfolding ranked_def needs_def keeps_def eligible_def by (metis option.inject)

lemma keeps_world: "world_only m m' \<Longrightarrow> keeps l m m'"
  by (auto simp: world_only_def keeps_def)

lemma ranked_world: "world_only m m' \<Longrightarrow> ranked l m' = ranked l m"
  by (auto simp: world_only_def ranked_def needs_def)

lemma keeps_upd_source:
  "src_loop (source m s) \<noteq> Some l \<Longrightarrow> (\<And>x. src_loop (f x) = src_loop x \<and> src_priority (f x) = src_priority x) \<Longrightarrow>
     keeps l m (upd_source s f m)"
  by (simp add: keeps_def upd_source_def)

lemma keeps_raise: "src_loop (source m s) = Some k \<Longrightarrow> k \<noteq> l \<Longrightarrow> keeps l m (raise_priority k s m)"
  by (simp add: keeps_def raise_priority_def upd_source_def upd_loop_def)

lemma ranked_raise: "ranked l m \<Longrightarrow> ranked l (raise_priority l s m)"
  unfolding ranked_def needs_def raise_priority_def upd_source_def upd_loop_def eligible_def by auto

lemma ranked_lower:
  "ranked l m \<Longrightarrow> (\<And>x. src_state (f x) \<noteq> NEEDS_DISPATCH) \<Longrightarrow> ranked l (upd_source s f m)"
  by (auto simp: ranked_def needs_def upd_source_def)


lemma quietD:
  assumes "quiet c"
  shows "prepare_fn c s st m = (b, t, m') \<Longrightarrow> world_only m m'" and "check_fn c s st m = (b, m') \<Longrightarrow> world_only m m'"
    and "poll_fn c pfda u m = (b, pfda', m') \<Longrightarrow> world_only m m'" and "clock_fn c m = (n, m') \<Longrightarrow> world_only m m'"
  using assms unfolding quiet_def by (metis snd_conv)+

lemma world_only_refl [simp]: "world_only m m"
  unfolding world_only_def by (rule exI [of _ "world m"]) simp

lemma world_only_same:
  "world_only m m' \<Longrightarrow> source m' = source m" "world_only m m' \<Longrightarrow> eloop m' = eloop m"
  "world_only m m' \<Longrightarrow> rr_index m' = rr_index m" "world_only m m' \<Longrightarrow> loops m' = loops m"
  by (auto simp: world_only_def)

lemma prepare_source_keeps:
  assumes "quiet c" and "k \<noteq> l"
  shows "keeps l m (snd (snd (prepare_source c k s (st, pfda, m))))"
proof (cases "src_loop (source m s) = Some k")
  case True
  obtain b t m1 where p: "prepare_fn c s st m = (b, t, m1)" by (metis prod_cases3)
  note w = quietD(1) [OF assms(1) p]
  have e: "src_loop (source m1 s) = Some k" using True by (simp add: world_only_same [OF w])
  obtain ps qs where q: "push_pfds (src_pfds (source m1 s)) pfda = (ps, qs)" by fastforce
  have "keeps l m1 (raise_priority k s m1)"
    "keeps l m1 (upd_source s (\<lambda>x. x\<lparr>src_state := PREPARED, src_pfds := ps\<rparr>) m1)"
    using e assms(2) by (auto intro: keeps_raise keeps_upd_source)
  then have "keeps l m (raise_priority k s m1)" "keeps l m (upd_source s (\<lambda>x. x\<lparr>src_state := PREPARED, src_pfds := ps\<rparr>) m1)"
    using keeps_trans keeps_world [OF w] by blast+
  then show ?thesis using True e p q by (simp add: prepare_source_def)
qed (simp add: prepare_source_def)

lemma prepare_source_ranked:
  assumes "quiet c" and "ranked l m"
  shows "ranked l (snd (snd (prepare_source c l s (st, pfda, m))))"
proof (cases "src_loop (source m s) = Some l")
  case True
  obtain b t m1 where p: "prepare_fn c s st m = (b, t, m1)" by (metis prod_cases3)
  note w = quietD(1) [OF assms(1) p]
  have r: "ranked l m1" using assms(2) ranked_world [OF w] by simp
  obtain ps qs where q: "push_pfds (src_pfds (source m1 s)) pfda = (ps, qs)" by fastforce
  have "ranked l (raise_priority l s m1)" "ranked l (upd_source s (\<lambda>x. x\<lparr>src_state := PREPARED, src_pfds := ps\<rparr>) m1)"
    using ranked_raise [OF r] ranked_lower [OF r] by auto
  then show ?thesis using True p q by (simp add: prepare_source_def world_only_same [OF w])
qed (use assms in \<open>simp add: prepare_source_def\<close>)

lemma ranked_revents: "ranked l (upd_source s (\<lambda>x. x\<lparr>src_pfds := f x\<rparr>) m) = ranked l m"
proof -
  let ?m = "upd_source s (\<lambda>x. x\<lparr>src_pfds := f x\<rparr>) m"
  have "needs l t ?m = needs l t m" "src_priority (source ?m t) = src_priority (source m t)" "eloop ?m = eloop m" for t
    by (simp_all add: needs_def upd_source_def eligible_def)
  then show ?thesis by (simp add: ranked_def)
qed

lemma check_source_keeps:
  assumes "quiet c" and "k \<noteq> l"
  shows "keeps l m (check_source c k st pfda s m)"
proof -
  let ?m = "upd_source s (\<lambda>x. x\<lparr>src_pfds := map (read_revents pfda) (src_pfds x)\<rparr>) m"
  obtain b m1 where p: "check_fn c s st ?m = (b, m1)" by fastforce
  have "keeps l m ?m" by (simp add: keeps_def upd_source_def)
  then have k: "keeps l m m1" using keeps_trans keeps_world [OF quietD(2) [OF assms(1) p]] by blast
  show ?thesis
  proof (cases "src_loop (source m1 s) = Some k")
    case True
    then have "keeps l m1 (raise_priority k s m1)" "keeps l m1 (upd_source s (\<lambda>x. x\<lparr>src_state := WAITING\<rparr>) m1)"
      using assms(2) by (auto intro: keeps_raise keeps_upd_source)
    then have "keeps l m (raise_priority k s m1)" "keeps l m (upd_source s (\<lambda>x. x\<lparr>src_state := WAITING\<rparr>) m1)"
      using keeps_trans [OF k] by blast+
    then show ?thesis using p by (simp add: check_source_def k)
  qed (use p k in \<open>simp add: check_source_def\<close>)
qed

lemma check_source_ranked:
  assumes "quiet c" and "ranked l m"
  shows "ranked l (check_source c l st pfda s m)"
proof -
  let ?m = "upd_source s (\<lambda>x. x\<lparr>src_pfds := map (read_revents pfda) (src_pfds x)\<rparr>) m"
  obtain b m1 where p: "check_fn c s st ?m = (b, m1)" by fastforce
  have r: "ranked l m1"
    using assms(2) by (simp add: ranked_world [OF quietD(2) [OF assms(1) p]] ranked_revents)
  then have "ranked l (raise_priority l s m1)" "ranked l (upd_source s (\<lambda>x. x\<lparr>src_state := WAITING\<rparr>) m1)"
    using ranked_raise [OF r] ranked_lower [OF r] by auto
  then show ?thesis using assms(2) r p by (simp add: check_source_def)
qed

lemma fold_prepare:
  assumes "quiet c"
  shows "k \<noteq> l \<Longrightarrow> keeps l (snd (snd t)) (snd (snd (fold (prepare_source c k) ss t)))"
    and "ranked l (snd (snd t)) \<Longrightarrow> ranked l (snd (snd (fold (prepare_source c l) ss t)))"
proof -
  show "k \<noteq> l \<Longrightarrow> keeps l (snd (snd t)) (snd (snd (fold (prepare_source c k) ss t)))"
  proof (induction ss arbitrary: t)
    case (Cons s ss)
    have "keeps l (snd (snd t)) (snd (snd (prepare_source c k s t)))"
      using prepare_source_keeps [OF assms Cons.prems, of "snd (snd t)" s "fst t" "fst (snd t)"] by simp
    then show ?case using keeps_trans [OF _ Cons.IH [OF Cons.prems]] by simp
  qed simp
  show "ranked l (snd (snd t)) \<Longrightarrow> ranked l (snd (snd (fold (prepare_source c l) ss t)))"
  proof (induction ss arbitrary: t)
    case (Cons s ss)
    then show ?case using prepare_source_ranked [OF assms, of l "snd (snd t)" s "fst t" "fst (snd t)"] by auto
  qed simp
qed

lemma fold_check:
  assumes "quiet c"
  shows "k \<noteq> l \<Longrightarrow> keeps l m (fold (check_source c k st pfda) ss m)"
    and "ranked l m \<Longrightarrow> ranked l (fold (check_source c l st pfda) ss m)"
proof -
  show "k \<noteq> l \<Longrightarrow> keeps l m (fold (check_source c k st pfda) ss m)"
  proof (induction ss arbitrary: m)
    case (Cons s ss)
    then show ?case using keeps_trans [OF check_source_keeps [OF assms Cons.prems] Cons.IH [OF Cons.prems]] by simp
  qed simp
  show "ranked l m \<Longrightarrow> ranked l (fold (check_source c l st pfda) ss m)"
    by (induction ss arbitrary: m) (auto intro: check_source_ranked [OF assms])
qed


lemma collect_ranked: "ranked l (snd (collect_sources l sm))"
proof -
  obtain st m where sm: "sm = (st, m)" by fastforce
  have "src_priority (source m t) \<le> ready_priority (source m) l (sources (eloop m l))" if "needs l t m" for t
    using that unfolding ready_priority_def by (intro Max_ge) (auto simp: needs_def)
  moreover have "UNDEFINED_PRIORITY \<le> ready_priority (source m) l (sources (eloop m l))"
    unfolding ready_priority_def by (intro Max_ge) auto
  ultimately show ?thesis
    unfolding sm collect_sources_eq by (simp add: ranked_def needs_def upd_loop_def)
qed

lemma collect_keeps: "k \<noteq> l \<Longrightarrow> keeps l (snd sm) (snd (collect_sources k sm))"
  by (cases sm) (simp add: collect_sources_eq keeps_def upd_loop_def)

lemma fold_collect_ranked:
  "l \<in> set ls \<or> ranked l (snd sm) \<Longrightarrow> ranked l (snd (fold collect_sources ls sm))"
proof (induction ls arbitrary: sm)
  case (Cons k ls)
  have "l \<in> set ls \<or> ranked l (snd (collect_sources k sm))"
    using Cons.prems collect_ranked [of l sm] keeps_ranked [OF collect_keeps [of k l sm]] by (cases "k = l") auto
  then show ?case using Cons.IH by simp
qed simp

lemma prepare_sources_ranked:
  assumes "quiet c" and "prepare_sources c k st pfda m = (d, st', pfda', m')" and "ranked l m"
  shows "ranked l m'"
proof -
  have m': "m' = snd (snd (fold (prepare_source c k) (poll_sources (eloop m k)) (st, pfda, m)))"
    using assms(2) by (auto simp: prepare_sources_def split: prod.splits)
  show ?thesis
    using fold_prepare(2) [OF assms(1), of l "(st, pfda, m)"] keeps_ranked [OF fold_prepare(1) [OF assms(1), of k l "(st, pfda, m)"]]
      assms(3) unfolding m' by (cases "k = l") auto
qed

lemma prepare_all_ranked:
  "quiet c \<Longrightarrow> prepare_all c ls st pfda m = (ds, st', pfda', m') \<Longrightarrow> ranked l m \<Longrightarrow> ranked l m' \<and> length ds = length ls"
proof (induction ls arbitrary: st pfda m ds st' pfda' m')
  case (Cons k ls)
  obtain d st1 pfda1 m1 where p: "prepare_sources c k st pfda m = (d, st1, pfda1, m1)" by (metis prod_cases4)
  obtain es st2 pfda2 m2 where q: "prepare_all c ls st1 pfda1 m1 = (es, st2, pfda2, m2)" by (metis prod_cases4)
  then show ?case
    using Cons.IH [OF Cons.prems(1) q prepare_sources_ranked [OF Cons.prems(1) p Cons.prems(3)]] Cons.prems(2) p q by auto
qed simp

lemma check_sources_keeps:
  assumes "quiet c" and "check_sources c k st pfda m = (d, m')"
  shows "k \<noteq> l \<Longrightarrow> keeps l m m'" and "ranked l m \<Longrightarrow> ranked l m'"
    and "d = (dispatch_priority (eloop m' k) > UNDEFINED_PRIORITY)"
proof -
  have m': "m' = fold (check_source c k st pfda) (poll_sources (eloop m k)) m"
    and "d = (dispatch_priority (eloop m' k) > UNDEFINED_PRIORITY)"
    using assms(2) by (auto simp: check_sources_def Let_def)
  then show "d = (dispatch_priority (eloop m' k) > UNDEFINED_PRIORITY)" by simp
  show k: "k \<noteq> l \<Longrightarrow> keeps l m m'" unfolding m' by (rule fold_check(1) [OF assms(1)])
  show "ranked l m \<Longrightarrow> ranked l m'"
    using fold_check(2) [OF assms(1), of l m] keeps_ranked [OF k] unfolding m' by (cases "k = l") auto
qed

lemma check_all_keeps:
  "quiet c \<Longrightarrow> check_all c xs st pfda p m = (ds, q, m') \<Longrightarrow> l \<notin> fst ` set xs \<Longrightarrow> keeps l m m'"
proof (induction xs arbitrary: p m ds)
  case (Cons x xs)
  obtain k d where x: "x = (k, d)" by fastforce
  obtain e m1 where p: "check_sources c k st pfda m = (e, m1)" by fastforce
  have "keeps l m m1" using check_sources_keeps(1) [OF Cons.prems(1) p] Cons.prems(3) x by auto
  moreover have "keeps l m1 m'" using Cons x p by (auto simp: Let_def split: prod.splits)
  ultimately show ?case by (rule keeps_trans)
qed simp

lemma check_all_ranked:
  "quiet c \<Longrightarrow> check_all c xs st pfda p m = (ds, q, m') \<Longrightarrow> ranked l m \<Longrightarrow> ranked l m'"
proof (induction xs arbitrary: p m ds)
  case (Cons x xs)
  obtain k d where x: "x = (k, d)" by fastforce
  obtain e m1 where p: "check_sources c k st pfda m = (e, m1)" by fastforce
  have "ranked l m1" using check_sources_keeps(2) [OF Cons.prems(1) p Cons.prems(3)] .
  then show ?case using Cons x p by (auto simp: Let_def split: prod.splits)
qed simp

text \<open>A loop with a dispatch priority is flagged, and the maximum is at least that of every flagged loop.\<close>

lemma check_all_flags:
  assumes "quiet c"
  shows "check_all c (zip ls ps) st pfda p m = (ds, q, m') \<Longrightarrow> distinct ls \<Longrightarrow> length ps = length ls \<Longrightarrow>
    length ds = length ls \<and> p \<le> q \<and> (\<forall>i<length ls. dispatch_priority (eloop m' (ls ! i)) > UNDEFINED_PRIORITY \<longrightarrow>
      ds ! i \<and> dispatch_priority (eloop m' (ls ! i)) \<le> q) \<and>
    (q = p \<or> (\<exists>i<length ls. ds ! i \<and> dispatch_priority (eloop m' (ls ! i)) = q))"
proof (induction ls arbitrary: ps p m ds q m')
  case (Cons k ls)
  obtain d ps' where ps: "ps = d # ps'" using Cons.prems(3) by (cases ps) auto
  obtain e m1 where c: "check_sources c k st pfda m = (e, m1)" by fastforce
  let ?p = "if d \<or> e then max p (dispatch_priority (eloop m1 k)) else p"
  obtain es q' m2 where r: "check_all c (zip ls ps') st pfda ?p m1 = (es, q', m2)" by (metis prod_cases3)
  have eq: "ds = (d \<or> e) # es" "q = q'" "m' = m2" using Cons.prems(1) ps c r by (auto simp: Let_def)
  have IH: "length es = length ls \<and> ?p \<le> q' \<and> (\<forall>i<length ls. dispatch_priority (eloop m2 (ls ! i)) > UNDEFINED_PRIORITY \<longrightarrow>
      es ! i \<and> dispatch_priority (eloop m2 (ls ! i)) \<le> q') \<and>
    (q' = ?p \<or> (\<exists>i<length ls. es ! i \<and> dispatch_priority (eloop m2 (ls ! i)) = q'))"
    using Cons.IH [OF r] Cons.prems ps by simp
  have "k \<notin> fst ` set (zip ls ps')" using Cons.prems(2) by (auto dest: set_zip_leftD)
  then have "eloop m2 k = eloop m1 k" using check_all_keeps [OF assms r] by (simp add: keeps_def)
  moreover have "dispatch_priority (eloop m1 k) > UNDEFINED_PRIORITY \<Longrightarrow> e"
    using check_sources_keeps(3) [OF assms c] by simp
  ultimately have "dispatch_priority (eloop m2 k) > UNDEFINED_PRIORITY \<Longrightarrow> e \<and> dispatch_priority (eloop m2 k) \<le> q'"
    using IH by auto
  moreover have "q' = p \<or> (\<exists>i<Suc (length ls). ((d \<or> e) # es) ! i \<and> dispatch_priority (eloop m2 ((k # ls) ! i)) = q')"
  proof (cases "q' = ?p")
    case True
    then show ?thesis using \<open>eloop m2 k = eloop m1 k\<close> by (auto simp: max_def split: if_splits)
  next
    case False
    then obtain i where "i < length ls" "es ! i" "dispatch_priority (eloop m2 (ls ! i)) = q'" using IH by blast
    then show ?thesis by (intro disjI2 exI [of _ "Suc i"]) simp
  qed
  ultimately show ?case using IH unfolding eq by (auto simp: nth_Cons' split: if_splits)
qed simp

lemma poll_phases_flags:
  assumes "quiet c" and "distinct (loops m0)" and "poll_phases c wake_fd may_block st0 m0 = (ds, q, st, m)"
  shows "length ds = length (loops m0)" and "\<And>l. l \<in> set (loops m0) \<Longrightarrow> ranked l m"
    and "\<And>i. i < length (loops m0) \<Longrightarrow> dispatch_priority (eloop m (loops m0 ! i)) > UNDEFINED_PRIORITY \<Longrightarrow>
      ds ! i \<and> dispatch_priority (eloop m (loops m0 ! i)) \<le> q"
    and "q = UNDEFINED_PRIORITY \<or> (\<exists>i<length (loops m0). ds ! i \<and> dispatch_priority (eloop m (loops m0 ! i)) = q)"
proof -
  let ?wake = "\<lparr>pfd_fd = wake_fd, pfd_events = 1, pfd_revents = 0\<rparr>"
  obtain st1 m1 where 1: "collect_all st0 m0 = (st1, m1)" by fastforce
  obtain n2 m2 where 2: "clock_fn c m1 = (n2, m2)" by fastforce
  let ?st2 = "st1\<lparr>lphase := PREPARE, timeout_usecs := INT64_MAX, current_time := n2\<rparr>"
  obtain prep st3 pfda3 m3 where 3: "prepare_all c (loops m0) ?st2 [?wake] m2 = (prep, st3, pfda3, m3)" by (metis prod_cases4)
  obtain f pfda4 m4 where 4: "poll_fn c pfda3 (poll_timeout (may_block \<and> True \<notin> set prep) (timeout_usecs st3)) m3 = (f, pfda4, m4)"
    by (metis prod_cases3)
  let ?m5 = "if \<not> f \<and> pfd_revents (pfda4 ! 0) \<noteq> 0 then m4\<lparr>wakeup_pending := False\<rparr> else m4"
  obtain n6 m6 where 6: "clock_fn c ?m5 = (n6, m6)" by fastforce
  let ?st6 = "st3\<lparr>lphase := CHECK, timeout_usecs := 0, current_time := n6\<rparr>"
  have 7: "check_all c (zip (loops m0) prep) ?st6 pfda4 (- 32768) m6 = (ds, q, m)"
    using assms(3) 6 unfolding poll_phases_def Let_def 1 case_prod_conv 2 3 4 by (auto split: prod.splits)
  have r3: "ranked l m3 \<and> length prep = length (loops m0)" if "l \<in> set (loops m0)" for l
  proof -
    have "ranked l m1" using fold_collect_ranked [of l "loops m0"] that 1 unfolding collect_all_def by (metis snd_conv)
    then have "ranked l m2" using ranked_world [OF quietD(4) [OF assms(1) 2]] by simp
    then show ?thesis by (rule prepare_all_ranked [OF assms(1) 3])
  qed
  have len: "length prep = length (loops m0)"
  proof (cases "loops m0")
    case Nil
    then show ?thesis using 3 by simp
  qed (use r3 in auto)
  have r6: "ranked l m6" if "l \<in> set (loops m0)" for l
  proof -
    have "ranked l m4" using r3 [OF that] ranked_world [OF quietD(3) [OF assms(1) 4]] by simp
    then have "ranked l ?m5" by (simp add: ranked_def needs_def)
    then show ?thesis using ranked_world [OF quietD(4) [OF assms(1) 6]] by simp
  qed
  show "\<And>l. l \<in> set (loops m0) \<Longrightarrow> ranked l m" using check_all_ranked [OF assms(1) 7] r6 by blast
  note fl = check_all_flags [OF assms(1) 7 assms(2) len]
  show "length ds = length (loops m0)" using fl by simp
  show "\<And>i. i < length (loops m0) \<Longrightarrow> dispatch_priority (eloop m (loops m0 ! i)) > UNDEFINED_PRIORITY \<Longrightarrow>
      ds ! i \<and> dispatch_priority (eloop m (loops m0 ! i)) \<le> q" using fl by blast
  show "q = UNDEFINED_PRIORITY \<or> (\<exists>i<length (loops m0). ds ! i \<and> dispatch_priority (eloop m (loops m0 ! i)) = q)"
    using fl by (auto simp: UNDEFINED_PRIORITY_def)
qed


lemma lphase_new [simp]: "lphase new_state = NONE"
  by (simp add: new_state_def)



subsection \<open>Sources of one priority take turns\<close>

text \<open>Sources that are always ready and stay alive; dispatching one logs it in the world.\<close>

definition eager :: "nat list client \<Rightarrow> bool" where
  "eager c \<longleftrightarrow>
     (\<forall>s st m. (\<exists>t. prepare_fn c s st m = (True, t, m)) \<and> check_fn c s st m = (True, m) \<and>
        dispatch_fn c s st m = (True, m\<lparr>world := world m @ [s]\<rparr>)) \<and>
     (\<forall>pfda t m. \<exists>f pfda'. poll_fn c pfda t m = (f, pfda', m)) \<and> (\<forall>m. \<exists>n. clock_fn c m = (n, m))"

text \<open>A main loop without sub loops whose sources all have the same priority and are not in dispatch.\<close>

definition uniform :: "nat list \<Rightarrow> int \<Rightarrow> 'w main_loop \<Rightarrow> bool" where
  "uniform ss p m \<longleftrightarrow> loops m = [0] \<and> sources (eloop m 0) = ss \<and> distinct ss \<and>
     (\<forall>s\<in>set ss. src_loop (source m s) = Some 0 \<and> src_priority (source m s) = p \<and>
        \<not> dispatching (source m s) \<and> \<not> was_dispatching (source m s))"

definition needing :: "'w main_loop \<Rightarrow> nat \<Rightarrow> bool" where
  "needing m s \<longleftrightarrow> src_state (source m s) = NEEDS_DISPATCH"

text \<open>A step of the poll phases that marks the sources in \<open>R\<close>.\<close>

definition marks :: "nat list \<Rightarrow> nat list \<Rightarrow> int \<Rightarrow> 'w main_loop \<Rightarrow> 'w main_loop \<Rightarrow> bool" where
  "marks R ss p m m' \<longleftrightarrow> uniform ss p m' \<and> world m' = world m \<and> poll_sources (eloop m' 0) = poll_sources (eloop m 0) \<and>
     (\<forall>s. needing m' s \<longleftrightarrow> s \<in> set R \<or> needing m s) \<and>
     dispatch_priority (eloop m' 0) = (if R = [] then dispatch_priority (eloop m 0) else max (dispatch_priority (eloop m 0)) p)"

lemma marks_Nil [simp]: "uniform ss p m \<Longrightarrow> marks [] ss p m m"
  by (simp add: marks_def)

lemma marks_trans: "marks R ss p m m' \<Longrightarrow> marks Q ss p m' m'' \<Longrightarrow> marks (R @ Q) ss p m m''"
  by (auto simp: marks_def)

lemma marks_raise: "uniform ss p m \<Longrightarrow> s \<in> set ss \<Longrightarrow> marks [s] ss p m (raise_priority 0 s m)"
  by (auto simp: marks_def uniform_def needing_def raise_priority_def upd_source_def upd_loop_def)

lemma marks_pfds: "uniform ss p m \<Longrightarrow> marks [] ss p m (upd_source s (\<lambda>x. x\<lparr>src_pfds := f x\<rparr>) m)"
  by (auto simp: marks_def uniform_def needing_def upd_source_def)

lemma marks_uniform: "marks R ss p m m' \<Longrightarrow> uniform ss p m'"
  by (simp add: marks_def)

lemma prepare_marks:
  assumes "eager c" and "set R \<subseteq> set ss" and "uniform ss p m"
  shows "marks R ss p m (snd (snd (fold (prepare_source c 0) R (st, pfda, m))))"
  using assms(2,3)
proof (induction R arbitrary: m)
  case (Cons s R)
  obtain t where "prepare_fn c s st m = (True, t, m)" using assms(1) unfolding eager_def by blast
  then have p: "prepare_source c 0 s (st, pfda, m) = (st, pfda, raise_priority 0 s m)"
    using Cons.prems by (simp add: prepare_source_def uniform_def)
  have r: "marks [s] ss p m (raise_priority 0 s m)" using Cons.prems by (intro marks_raise) auto
  show ?case using marks_trans [OF r Cons.IH [OF _ marks_uniform [OF r]]] Cons.prems by (simp add: p)
qed simp

lemma check_marks:
  assumes "eager c" and "set R \<subseteq> set ss" and "uniform ss p m"
  shows "marks R ss p m (fold (check_source c 0 st pfda) R m)"
  using assms(2,3)
proof (induction R arbitrary: m)
  case (Cons s R)
  let ?m = "upd_source s (\<lambda>x. x\<lparr>src_pfds := map (read_revents pfda) (src_pfds x)\<rparr>) m"
  have u: "marks [] ss p m ?m" using Cons.prems(2) by (rule marks_pfds)
  have "check_fn c s st ?m = (True, ?m)" using assms(1) unfolding eager_def by blast
  then have p: "check_source c 0 st pfda s m = raise_priority 0 s ?m"
    using Cons.prems marks_uniform [OF u] by (simp add: check_source_def uniform_def)
  have "marks [s] ss p ?m (raise_priority 0 s ?m)" using Cons.prems marks_uniform [OF u] by (intro marks_raise) auto
  then have r: "marks [s] ss p m (check_source c 0 st pfda s m)" using marks_trans [OF u] p by fastforce
  show ?case using marks_trans [OF r Cons.IH [OF _ marks_uniform [OF r]]] Cons.prems by simp
qed simp

definition turn :: "nat list \<Rightarrow> 'w main_loop \<Rightarrow> nat list" where
  "turn ss m = (if list_ex (needing m) ss then filter (needing m) ss else ss)"

lemma collect_turn:
  assumes "uniform ss p m" and "p \<ge> 1"
  obtains e where "snd (collect_sources 0 (st, m)) = upd_loop 0 (\<lambda>_. e) m" "poll_sources e = turn ss m"
    "sources e = ss" "dispatch_priority e \<le> p" "loop_primary e = loop_primary (eloop m 0)"
proof -
  have el: "s \<in> set ss \<Longrightarrow> eligible 0 (source m s) \<and> src_priority (source m s) = p" for s
    using assms(1) by (simp add: uniform_def eligible_def)
  have src: "sources (eloop m 0) = ss" using assms(1) by (simp add: uniform_def)
  let ?r = "ready_priority (source m) 0 ss"
  have set: "{src_priority (source m s) |s. s \<in> set ss \<and> eligible 0 (source m s) \<and> src_state (source m s) = NEEDS_DISPATCH} =
      (if list_ex (needing m) ss then {p} else {})"
    using el by (auto simp: needing_def list_ex_iff)
  have r: "?r = (if list_ex (needing m) ss then p else UNDEFINED_PRIORITY)"
    unfolding ready_priority_def set using assms(2) by (simp add: UNDEFINED_PRIORITY_def)
  have sel: "eligible 0 (source m s) \<and> selects ?r (source m s) \<longleftrightarrow> (list_ex (needing m) ss \<longrightarrow> needing m s)"
    if "s \<in> set ss" for s
    using el [OF that] assms(2) by (simp add: r selects_def needing_def UNDEFINED_PRIORITY_def)
  have "filter (\<lambda>s. eligible 0 (source m s) \<and> selects ?r (source m s)) ss =
      filter (\<lambda>s. list_ex (needing m) ss \<longrightarrow> needing m s) ss"
    by (rule filter_cong [OF refl sel])
  also have "\<dots> = turn ss m" by (cases "list_ex (needing m) ss") (simp_all add: turn_def)
  finally have "filter (\<lambda>s. eligible 0 (source m s) \<and> selects ?r (source m s)) ss = turn ss m" .
  then have "snd (collect_sources 0 (st, m)) =
      upd_loop 0 (\<lambda>_. (eloop m 0)\<lparr>dispatch_priority := ?r, poll_sources := turn ss m\<rparr>) m"
    unfolding collect_sources_eq by (simp add: upd_loop_def src)
  then show thesis using that r assms(2) src by (fastforce simp: UNDEFINED_PRIORITY_def)
qed


lemma poll_phases_turn:
  assumes "eager c" and "uniform ss p m" and "p \<ge> 1" and "turn ss m \<noteq> []"
    and "poll_phases c wake_fd may_block st0 m = (ds, q, st, m')"
  shows "ds = [True]" and "uniform ss p m'" and "world m' = world m" and "poll_sources (eloop m' 0) = turn ss m"
    and "\<And>s. needing m' s \<longleftrightarrow> s \<in> set (turn ss m) \<or> needing m s" and "dispatch_priority (eloop m' 0) = p" and "q = p"
proof -
  let ?R = "turn ss m"
  have R: "set ?R \<subseteq> set ss" by (auto simp: turn_def)
  have ls: "loops m = [0]" using assms(2) by (simp add: uniform_def)
  let ?wake = "\<lparr>pfd_fd = wake_fd, pfd_events = 1, pfd_revents = 0\<rparr>"
  obtain st1 m1 where 1: "collect_all st0 m = (st1, m1)" by fastforce
  obtain e where m1: "m1 = upd_loop 0 (\<lambda>_. e) m" and e: "poll_sources e = ?R" "sources e = ss" "dispatch_priority e \<le> p"
    using collect_turn [OF assms(2,3), of "st0\<lparr>lphase := COLLECT, seen_primary := False\<rparr>"] 1
    by (auto simp: collect_all_def ls)
  have u1: "uniform ss p m1" "world m1 = world m" "\<And>s. needing m1 s = needing m s" "eloop m1 0 = e"
    using assms(2) e(2) by (auto simp: m1 uniform_def upd_loop_def needing_def)
  obtain n2 where 2: "clock_fn c m1 = (n2, m1)" using assms(1) unfolding eager_def by blast
  let ?st2 = "st1\<lparr>lphase := PREPARE, timeout_usecs := INT64_MAX, current_time := n2\<rparr>"
  obtain st3 pfda3 m3 where f3: "fold (prepare_source c 0) ?R (?st2, [?wake], m1) = (st3, pfda3, m3)" by (metis prod_cases3)
  have k3: "marks ?R ss p m1 m3" using prepare_marks [OF assms(1) R u1(1), of ?st2 "[?wake]"] by (simp add: f3)
  have d3: "dispatch_priority (eloop m3 0) = p" using k3 e(3) u1(4) assms(4) by (simp add: marks_def)
  have 3: "prepare_all c (loops m) ?st2 [?wake] m1 = ([True], st3, pfda3, m3)"
    using f3 d3 assms(3) by (simp add: ls prepare_sources_def u1(4) e(1) UNDEFINED_PRIORITY_def)
  obtain f pfda4 where 4: "poll_fn c pfda3 (poll_timeout (may_block \<and> True \<notin> set [True]) (timeout_usecs st3)) m3 = (f, pfda4, m3)"
    using assms(1) unfolding eager_def by blast
  define m5 where "m5 = (if \<not> f \<and> pfd_revents (pfda4 ! 0) \<noteq> 0 then m3\<lparr>wakeup_pending := False\<rparr> else m3)"
  have k5: "marks ?R ss p m1 m5" using k3 by (simp add: m5_def marks_def uniform_def needing_def)
  obtain n6 where 6: "clock_fn c m5 = (n6, m5)" using assms(1) unfolding eager_def by blast
  let ?st6 = "st3\<lparr>lphase := CHECK, timeout_usecs := 0, current_time := n6\<rparr>"
  let ?m7 = "fold (check_source c 0 ?st6 pfda4) ?R m5"
  have k7: "marks ?R ss p m5 ?m7" using check_marks [OF assms(1) R marks_uniform [OF k5]] .
  have k: "marks (?R @ ?R) ss p m1 ?m7" by (rule marks_trans [OF k5 k7])
  have d7: "dispatch_priority (eloop ?m7 0) = p" using k e(3) u1(4) assms(4) by (simp add: marks_def)
  have p5: "poll_sources (eloop m5 0) = ?R" using k5 u1(4) e(1) by (simp add: marks_def)
  have "check_all c (zip (loops m) [True]) ?st6 pfda4 (- 32768) m5 = ([True], p, ?m7)"
    using d7 assms(3) by (simp add: ls check_sources_def p5 Let_def)
  then have r: "ds = [True] \<and> q = p \<and> m' = ?m7"
    using assms(5) 6 unfolding poll_phases_def Let_def 1 case_prod_conv 2 3 4 m5_def [symmetric] by (auto split: prod.splits)
  then show "ds = [True]" "q = p" "dispatch_priority (eloop m' 0) = p" using d7 by auto
  show "uniform ss p m'" "world m' = world m" "poll_sources (eloop m' 0) = ?R"
    "\<And>s. needing m' s \<longleftrightarrow> s \<in> set ?R \<or> needing m s"
    using k r u1 e(1) by (auto simp: marks_def)
qed


lemma pick_single: "\<not> p < q \<Longrightarrow> pick_loop [True] [p] q rr = Some (0, rr + 1)"
  by (subst pick_loop_step) simp

lemma dispatch_turn:
  assumes "eager c" and "uniform ss p m" and "poll_sources (eloop m 0) = s # R" and "s \<in> set ss"
    and "needing m s" and "dispatch_priority (eloop m 0) = p"
  shows "uniform ss p (dispatch_source c 0 st m)" "world (dispatch_source c 0 st m) = world m @ [s]"
    "needing (dispatch_source c 0 st m) t \<longleftrightarrow> t \<noteq> s \<and> needing m t"
proof -
  have "dispatch_candidate 0 m = Some s"
    using assms(2-6) by (simp add: dispatch_candidate_def uniform_def needing_def)
  moreover have "dispatch_fn c s st k = (True, k\<lparr>world := world k @ [s]\<rparr>)" for k
    using assms(1) unfolding eager_def by blast
  ultimately show "uniform ss p (dispatch_source c 0 st m)" "world (dispatch_source c 0 st m) = world m @ [s]"
    "needing (dispatch_source c 0 st m) t \<longleftrightarrow> t \<noteq> s \<and> needing m t"
    using assms(2,4) by (auto simp: dispatch_source_def Let_def upd_source_def upd_loop_def uniform_def needing_def)
qed

lemma unpoll_uniform:
  "uniform ss p m \<Longrightarrow> uniform ss p (unpoll_all ls m) \<and> world (unpoll_all ls m) = world m \<and> needing (unpoll_all ls m) t = needing m t"
  unfolding unpoll_all_def
proof (induction ls arbitrary: m)
  case (Cons l ls)
  have "uniform ss p (upd_loop l (\<lambda>e. e\<lparr>poll_sources := []\<rparr>) m)" using Cons.prems by (auto simp: uniform_def upd_loop_def)
  from Cons.IH [OF this] show ?case by (simp add: needing_def upd_loop_def)
qed simp

lemma iterate_turn:
  assumes "eager c" and "uniform ss p m" and "p \<ge> 1" and "turn ss m = s # R"
  shows "\<exists>m'. iterate c wake_fd may_block m = Some (True, m') \<and> uniform ss p m' \<and> world m' = world m @ [s] \<and>
    (\<forall>t. needing m' t \<longleftrightarrow> t \<noteq> s \<and> (t \<in> set R \<or> needing m t))"
proof -
  let ?m = "m\<lparr>running := True\<rparr>"
  have n: "needing ?m = needing m" by (simp add: fun_eq_iff needing_def)
  have u: "uniform ss p ?m" and t: "turn ss ?m = s # R" "needing ?m = needing m"
    using assms(2,4) by (auto simp: uniform_def turn_def n split: if_splits)
  obtain ds q st m1 where ph: "poll_phases c wake_fd may_block new_state ?m = (ds, q, st, m1)" by (metis prod_cases4)
  note ph1 = poll_phases_turn [OF assms(1) u assms(3) _ ph, unfolded t(1), simplified]
  have "s \<in> set ss" using assms(4) by (metis filter_is_subset list.set_intros(1) subsetD turn_def)
  define m2 where "m2 = m1\<lparr>rr_index := rr_index m1 + 1\<rparr>"
  let ?d = "dispatch_source c 0 (st\<lparr>lphase := DISPATCH\<rparr>) m2"
  have "uniform ss p m2" "poll_sources (eloop m2 0) = s # R" "needing m2 s" "dispatch_priority (eloop m2 0) = p"
    and m2: "world m2 = world m" "\<And>t. needing m2 t \<longleftrightarrow> t = s \<or> t \<in> set R \<or> needing m t"
    using ph1 t(2) by (auto simp: m2_def uniform_def needing_def)
  note d = dispatch_turn [OF assms(1) this(1,2) \<open>s \<in> set ss\<close> this(3,4), of "st\<lparr>lphase := DISPATCH\<rparr>"]
  have ls: "loops ?m = [0]" "loops m = [0]" using u assms(2) by (simp_all add: uniform_def)
  have "iterate_loops c wake_fd may_block True new_state ?m = Some (True, st\<lparr>lphase := NONE\<rparr>, unpoll_all [0] ?d)"
    using pick_single [of p p "rr_index m1"] ph1(1,6,7) by (simp add: iterate_loops_def ph ls m2_def)
  then have "iterate c wake_fd may_block m =
      Some (True, (unpoll_all [0] ?d)\<lparr>running := running m \<and> \<not> has_quit (unpoll_all [0] ?d)\<rparr>)"
    by (simp add: iterate_def)
  moreover have "uniform ss p (unpoll_all [0] ?d)" "world (unpoll_all [0] ?d) = world m @ [s]"
    "\<And>t. needing (unpoll_all [0] ?d) t \<longleftrightarrow> t \<noteq> s \<and> (t \<in> set R \<or> needing m t)"
    using unpoll_uniform [OF d(1)] d(2,3) m2 by auto
  ultimately show ?thesis by (auto simp: uniform_def needing_def)
qed

fun iterations :: "'w client \<Rightarrow> int \<Rightarrow> nat \<Rightarrow> 'w main_loop \<Rightarrow> 'w main_loop option" where
  "iterations c wake_fd 0 m = Some m"
| "iterations c wake_fd (Suc n) m =
     (case iterations c wake_fd n m of
        None \<Rightarrow> None
      | Some m' \<Rightarrow> map_option snd (iterate c wake_fd True m'))"



subsection \<open>Examples\<close>

definition eager_client :: "nat list client" where
  "eager_client =
     \<lparr>prepare_fn = \<lambda>s st m. (True, - 1, m), check_fn = \<lambda>s st m. (True, m),
      dispatch_fn = \<lambda>s st m. (True, m\<lparr>world := world m @ [s]\<rparr>), destroy_fn = \<lambda>s m. m,
      poll_fn = \<lambda>pfda t m. (False, pfda, m), clock_fn = \<lambda>m. (0, m)\<rparr>"

definition sample_main :: "nat list main_loop" where
  "sample_main = snd (the (add 0 8 500 (snd (the (add 0 7 500 (new_main_loop []))))))"

lemma sample_main_uniform: "uniform [7, 8] 500 sample_main" "\<not> list_ex (needing sample_main) [7, 8]"
  by (simp_all add: sample_main_def add_def alloc_id_def new_main_loop_def new_source_def new_loop_def wakeup_def
      upd_source_def upd_loop_def PRIORITY_CEILING_def Let_def uniform_def needing_def)

lemma eager_client_ok: "eager eager_client" "quiet eager_client"
  by (auto simp: eager_client_def eager_def quiet_def)

lemma sample_main_world: "world sample_main = []"
  by (simp add: sample_main_def add_def alloc_id_def new_main_loop_def new_source_def new_loop_def wakeup_def
      upd_source_def upd_loop_def PRIORITY_CEILING_def Let_def)




definition fickle_client :: "nat list client" where
  "fickle_client = eager_client\<lparr>check_fn := \<lambda>s st m. (False, m)\<rparr>"

definition fickle_main :: "nat list main_loop" where
  "fickle_main = snd (the (add 0 7 500 (new_main_loop [])))"

text \<open>
  The documentation of event sources promises a dispatch when \<open>prepare\<close> or \<open>check\<close> returns true, but
  \<open>check\<close> is called for sources that \<open>prepare\<close> already flagged, and takes the flag back: a source whose
  \<open>prepare\<close> returns true and whose \<open>check\<close> returns false is not dispatched, and the iteration still reports
  that it needs dispatching.
\<close>

theorem prepared_source_not_dispatched:
  "\<exists>m'. iterate fickle_client 3 True fickle_main = Some (True, m') \<and> world m' = [] \<and> fst (prepare_fn fickle_client 7 st fickle_main)"
proof -
  let ?m = "fickle_main\<lparr>running := True\<rparr>"
  obtain ds q st m where ph: "poll_phases fickle_client 3 True new_state ?m = (ds, q, st, m)" by (metis prod_cases4)
  have p: "ds = [True] \<and> q = 500 \<and> dispatch_priority (eloop m 0) = 500 \<and> world m = [] \<and>
      poll_sources (eloop m 0) = [7] \<and> src_state (source m 7) = WAITING"
    using ph
    by (auto simp: poll_phases_def collect_all_def fickle_main_def add_def alloc_id_def new_main_loop_def new_source_def
      new_loop_def wakeup_def upd_source_def upd_loop_def PRIORITY_CEILING_def Let_def collect_sources_def eligible_def
      selects_def UNDEFINED_PRIORITY_def fickle_client_def eager_client_def prepare_sources_def prepare_source_def
      raise_priority_def check_sources_def check_source_def)
  have ls: "loops ?m = [0]" "loops fickle_main = [0]"
    by (simp_all add: fickle_main_def add_def alloc_id_def new_main_loop_def new_source_def wakeup_def
      upd_source_def upd_loop_def PRIORITY_CEILING_def Let_def)
  have "dispatch_candidate 0 (m\<lparr>rr_index := rr_index m + 1\<rparr>) = None" using p by (simp add: dispatch_candidate_def)
  then have "\<exists>m'. iterate fickle_client 3 True fickle_main = Some (True, m') \<and> world m' = []"
    using p pick_single [of 500 500 "rr_index m"]
    by (simp add: iterate_def iterate_loops_def ph ls unpoll_all_def upd_loop_def dispatch_source_def Let_def)
  then show ?thesis by (simp add: fickle_client_def eager_client_def)
qed

end
