(* ===== verification/LoopSources.thy ===== *)
theory LoopSources
  imports EventLoop Strings
begin

section \<open>Kinds of event sources (ase/loop.cc)\<close>

text \<open>
  \<open>TimedSource\<close>, \<open>USignalSource\<close> and \<open>PollFDSource\<close>: what they answer in the phases of an iteration.  Times
  are unsigned 64 bit microseconds; callback slots and the system calls are arguments.
\<close>

subsection \<open>Timers\<close>

record timed_source =
  expiration_usecs :: u64
  interval_msecs :: u32
  first_interval :: bool
  oneshot :: bool

definition new_timed_source :: "bool \<Rightarrow> u64 \<Rightarrow> u32 \<Rightarrow> u32 \<Rightarrow> timed_source" where
  "new_timed_source once now initial_interval_msecs repeat_interval_msecs =
     \<lparr>expiration_usecs = now + 1000 * ucast initial_interval_msecs, interval_msecs = repeat_interval_msecs,
      first_interval = True, oneshot = once\<rparr>"

text \<open>\<open>prepare\<close> at the time of the iteration: the result, \<open>*timeout_usecs_p\<close> if it is written, the source.\<close>

definition timed_prepare :: "u64 \<Rightarrow> timed_source \<Rightarrow> bool \<times> int option \<times> timed_source" where
  "timed_prepare now t =
     (if now \<ge> expiration_usecs t then (True, None, t)
      else
        let interval = ucast (interval_msecs t) * 1000;
            t' = (if \<not> first_interval t \<and> now + interval < expiration_usecs t
                  then t\<lparr>expiration_usecs := now + interval\<rparr> else t);
            timeout = min (expiration_usecs t' - now) 2147483647 in
        (timeout = 0, Some (uint timeout), t'))"

definition timed_check :: "u64 \<Rightarrow> timed_source \<Rightarrow> bool" where
  "timed_check now t \<longleftrightarrow> now \<ge> expiration_usecs t"

text \<open>\<open>dispatch\<close> with what the slot returned (\<open>None\<close> for an empty slot) and the time after it.\<close>

definition timed_dispatch :: "bool option \<Rightarrow> u64 \<Rightarrow> timed_source \<Rightarrow> bool \<times> timed_source" where
  "timed_dispatch slot now t =
     (let t1 = t\<lparr>first_interval := False\<rparr>; again = (\<not> oneshot t \<and> slot = Some True) in
      (again, if again then t1\<lparr>expiration_usecs := now + 1000 * ucast (interval_msecs t1)\<rparr> else t1))"

subsection \<open>Signals\<close>

text \<open>The notification bits of 256 signal numbers, indexed by \<open>128 + signum\<close> for an \<open>int8\<close>.\<close>

definition signal_index :: "8 word \<Rightarrow> nat \<times> nat" where
  "signal_index signum = (let s = nat (128 + sint signum) in (s div 32, s mod 32))"

definition usignal_raise :: "8 word \<Rightarrow> u32 list \<Rightarrow> u32 list" where
  "usignal_raise signum notified =
     (case signal_index signum of (i, shift) \<Rightarrow> notified[i := notified ! i OR push_bit shift 1])"

definition usignal_ready :: "8 word \<Rightarrow> u32 list \<Rightarrow> bool" where
  "usignal_ready signum notified =
     (case signal_index signum of (i, shift) \<Rightarrow> notified ! i AND push_bit shift 1 \<noteq> 0)"

definition usignal_clear :: "8 word \<Rightarrow> u32 list \<Rightarrow> u32 list" where
  "usignal_clear signum notified =
     (case signal_index signum of (i, shift) \<Rightarrow> notified[i := notified ! i AND NOT (push_bit shift 1)])"

subsection \<open>File descriptors\<close>

record poll_source =
  poll_pfd :: PollFD
  never_close :: bool
  poll_oneshot :: bool

text \<open>The event bits of a mode string; \<open>IN\<close>, \<open>PRI\<close>, \<open>OUT\<close> and \<open>WRBAND\<close> of \<open>poll\<close>.\<close>

definition mode_events :: "string \<Rightarrow> u16" where
  "mode_events mode =
     (if strchr mode CHR ''w'' then 0x004 else 0) OR (if strchr mode CHR ''r'' then 0x001 else 0)
     OR (if strchr mode CHR ''p'' then 0x002 else 0) OR (if strchr mode CHR ''d'' then 0x200 else 0)"

definition new_poll_source :: "bool \<Rightarrow> int \<Rightarrow> string \<Rightarrow> poll_source" where
  "new_poll_source once fd mode =
     \<lparr>poll_pfd = \<lparr>pfd_fd = fd, pfd_events = mode_events mode, pfd_revents = 0\<rparr>, never_close = strchr mode CHR ''C'',
      poll_oneshot = once\<rparr>"

text \<open>The flags \<open>construct\<close> sets on the descriptor, if it changes them; \<open>nonblock\<close> is \<open>O_NONBLOCK\<close>.\<close>

definition mode_flags :: "u32 \<Rightarrow> string \<Rightarrow> u32 \<Rightarrow> u32 option" where
  "mode_flags nonblock mode lflags =
     (let nflags = (if strchr mode CHR ''b'' then lflags AND NOT nonblock
                    else if strchr mode CHR ''B'' then lflags OR nonblock else lflags) in
      if nflags \<noteq> lflags then Some nflags else None)"

definition poll_prepare :: "poll_source \<Rightarrow> bool \<times> poll_source" where
  "poll_prepare p = (pfd_fd (poll_pfd p) < 0, p\<lparr>poll_pfd := (poll_pfd p)\<lparr>pfd_revents := 0\<rparr>\<rparr>)"

definition poll_check :: "poll_source \<Rightarrow> bool" where
  "poll_check p \<longleftrightarrow> pfd_fd (poll_pfd p) < 0 \<or> pfd_revents (poll_pfd p) \<noteq> 0"

text \<open>Closing: the descriptors that \<open>close\<close> is called on, and the source.\<close>

definition poll_close :: "poll_source \<Rightarrow> int list \<times> poll_source" where
  "poll_close p =
     (if \<not> never_close p \<and> pfd_fd (poll_pfd p) \<ge> 0 then [pfd_fd (poll_pfd p)] else [],
      p\<lparr>poll_pfd := (poll_pfd p)\<lparr>pfd_fd := - 1\<rparr>\<rparr>)"

text \<open>The slot may change the descriptor; it returns whether to keep a source that is not one-shot.\<close>

definition poll_dispatch :: "(PollFD \<Rightarrow> bool \<times> PollFD) option \<Rightarrow> poll_source \<Rightarrow> bool \<times> int list \<times> poll_source" where
  "poll_dispatch slot p =
     (let (keep, pfd) = (case slot of Some f \<Rightarrow> f (poll_pfd p) | None \<Rightarrow> (True, poll_pfd p));
          keep_alive = (\<not> poll_oneshot p \<and> keep); p1 = p\<lparr>poll_pfd := pfd\<rparr> in
      if keep_alive then (True, [], p1) else (case poll_close p1 of (cs, p2) \<Rightarrow> (False, cs, p2)))"

subsection \<open>Properties\<close>

lemma interval_usecs: "unat (ucast w * 1000 :: u64) = unat (w :: u32) * 1000"
proof -
  have "unat w * 1000 < 2 ^ 64" using unat_u32_less [of w] by simp
  then show ?thesis by (simp add: unat_word_ariths unsigned_ucast_eq take_bit_eq_mod)
qed

text \<open>
  A timer is ready exactly at or after its expiration; until then it asks to be polled again within the
  time that is left, and a clock that jumps back delays a repeating timer by at most one interval.
\<close>

theorem timed_prepare_exact:
  assumes "timed_prepare now t = (ready, timeout, t')" and "unat now + unat (interval_msecs t) * 1000 < 2 ^ 64"
  shows "(ready \<longleftrightarrow> now \<ge> expiration_usecs t') \<and> expiration_usecs t' \<le> expiration_usecs t \<and>
    (\<not> ready \<longrightarrow> (\<exists>u. timeout = Some (int u) \<and> 0 < u \<and> unat now + u \<le> unat (expiration_usecs t')) \<and>
       (\<not> first_interval t \<longrightarrow> unat (expiration_usecs t') \<le> unat now + unat (interval_msecs t) * 1000))"
proof (cases "now \<ge> expiration_usecs t")
  case True
  then show ?thesis using assms(1) by (auto simp: timed_prepare_def)
next
  case False
  let ?i = "ucast (interval_msecs t) * 1000 :: u64"
  have i: "unat (now + ?i) = unat now + unat (interval_msecs t) * 1000"
    using assms(2) by (simp add: unat_add_mod interval_usecs)
  define x where "x = (if \<not> first_interval t \<and> now + ?i < expiration_usecs t then now + ?i else expiration_usecs t)"
  have x: "now \<le> x" "x \<le> expiration_usecs t"
    "\<not> first_interval t \<Longrightarrow> unat x \<le> unat now + unat (interval_msecs t) * 1000"
    using False i by (auto simp: x_def word_le_nat_alt word_less_nat_alt)
  have t': "expiration_usecs t' = x" "ready = (min (x - now) 2147483647 = 0)"
      "timeout = Some (uint (min (x - now) 2147483647))"
    using assms(1) False by (auto simp: timed_prepare_def Let_def x_def split: if_splits)
  have d: "unat (x - now) = unat x - unat now" using x(1) by (simp add: unat_sub)
  have "ready \<longleftrightarrow> x = now" unfolding t'(2) using d x(1)
    by (auto simp: min_def word_le_nat_alt word_unat_eq_iff split: if_splits)
  then have "ready \<longleftrightarrow> now \<ge> x" using x(1) by auto
  moreover have "unat (min (x - now) 2147483647) \<le> unat x - unat now" unfolding d [symmetric]
    by (auto simp: min_def word_le_nat_alt)
  then have "\<exists>u. timeout = Some (int u) \<and> 0 < u \<and> unat now + u \<le> unat x" if "\<not> ready"
    using that x(1) unfolding t'(2,3)
    by (intro exI [of _ "unat (min (x - now) 2147483647)"]) (simp add: word_le_nat_alt unat_gt_0)
  ultimately show ?thesis using x t'(1) by auto
qed

theorem timed_prepare_exact_witness:
  "timed_prepare 5000 (new_timed_source False 0 10 10) = (False, Some 5000, new_timed_source False 0 10 10) \<and>
   expiration_usecs (new_timed_source False 0 10 10) = 10000 \<and> (\<exists>u. Some (5000 :: int) = Some (int u) \<and> 0 < u)"
proof -
  have "timed_prepare 5000 (new_timed_source False 0 10 10) = (False, Some 5000, new_timed_source False 0 10 10)"
    by (simp add: timed_prepare_def new_timed_source_def Let_def)
  from timed_prepare_exact [OF this] this show ?thesis by (auto simp: new_timed_source_def)
qed

text \<open>Raising a signal makes its source ready, dispatching clears it, and other signals are not affected.\<close>

lemma signal_index_bounds: "signal_index s = (i, b) \<Longrightarrow> i < 8 \<and> b < 32"
  using sint_range_size [of s] by (auto simp: signal_index_def Let_def word_size)

lemma usignal_laws:
  assumes "length notified = 8"
  shows "usignal_ready s (usignal_raise s notified)" "\<not> usignal_ready s (usignal_clear s notified)"
    "signal_index r \<noteq> signal_index s \<Longrightarrow> usignal_ready r (usignal_raise s notified) = usignal_ready r notified"
    "signal_index r \<noteq> signal_index s \<Longrightarrow> usignal_ready r (usignal_clear s notified) = usignal_ready r notified"
proof -
  obtain i b j e where s: "signal_index s = (i, b)" "signal_index r = (j, e)" by fastforce
  note bs = signal_index_bounds [OF s(1)] signal_index_bounds [OF s(2)]
  show "usignal_ready s (usignal_raise s notified)" "\<not> usignal_ready s (usignal_clear s notified)"
    "signal_index r \<noteq> signal_index s \<Longrightarrow> usignal_ready r (usignal_raise s notified) = usignal_ready r notified"
    "signal_index r \<noteq> signal_index s \<Longrightarrow> usignal_ready r (usignal_clear s notified) = usignal_ready r notified"
    using assms bs
    by (auto simp: usignal_ready_def usignal_raise_def usignal_clear_def s and_exp_eq_0_iff_not_bit nth_list_update bit_simps)
qed

end
