(* ===== verification/ProcParams.thy ===== *)
theory ProcParams
  imports MidiEvent Strings
begin

section \<open>Parameters of an audio processor (ase/processor.hh, ase/processor.cc)\<close>

text \<open>
  \<open>AudioParams\<close>: arrays of \<open>count\<close> identifiers, values, parameter descriptions and property handles, and a
  bit field of changes.  A description is of any type \<open>'p\<close>; its initial value and its \<open>dconstrain\<close> are
  arguments.  A property handle is whether it is alive.  Reading outside of an array is \<open>None\<close>.
\<close>

record 'p AudioParams =
  ap_ids :: "u32 list"
  ap_values :: "real list"
  ap_bits :: "u64 list"
  ap_parameters :: "'p list"
  ap_wprops :: "bool list"
  ap_count :: u32
  ap_changed :: bool

definition no_params :: "'p AudioParams" where
  "no_params = \<lparr>ap_ids = [], ap_values = [], ap_bits = [], ap_parameters = [], ap_wprops = [], ap_count = 0,
     ap_changed = False\<rparr>"

definition clear_params :: "'p AudioParams \<Rightarrow> 'p AudioParams" where
  "clear_params ps = ps\<lparr>ap_changed := False, ap_count := 0, ap_ids := [], ap_values := [], ap_bits := [],
     ap_parameters := [], ap_wprops := []\<rparr>"

text \<open>The \<open>std::map\<close> of parameters is the list of its entries in the order of the keys.\<close>

definition install :: "('p \<Rightarrow> real) \<Rightarrow> (u32 \<times> 'p) list \<Rightarrow> 'p AudioParams \<Rightarrow> 'p AudioParams" where
  "install initial params ps =
     (let ps = (clear_params ps)\<lparr>ap_count := word_of_nat (length params)\<rparr> in
      if ap_count ps = 0 then ps
      else ps\<lparr>ap_ids := map fst params, ap_wprops := replicate (length params) False,
             ap_parameters := map snd params, ap_values := map (initial \<circ> snd) params,
             ap_bits := replicate ((length params + 64 - 1) div 64) 0\<rparr>)"

definition index :: "u32 \<Rightarrow> 'p AudioParams \<Rightarrow> int" where
  "index i ps =
     (if i - 1 < ap_count ps \<and> ap_ids ps ! unat (i - 1) = i then uint (i - 1)
      else if i < ap_count ps \<and> ap_ids ps ! unat i = i then uint (i - 1)
      else
        let (it, found) = binary_lookup_insertion_pos
              (\<lambda>e. if i < e then -1 else if i > e then 1 else 0) (ap_ids ps) in
        if found then int it else -1)"

definition at_index :: "'a list \<Rightarrow> int \<Rightarrow> 'a option" where
  "at_index xs i = (if 0 \<le> i \<and> nat i < length xs then Some (xs ! nat i) else None)"

definition param_value :: "u32 \<Rightarrow> 'p AudioParams \<Rightarrow> real option" where
  "param_value i ps = (let idx = index i ps in if idx < 0 then Some 0 else at_index (ap_values ps) idx)"

definition dirty_index :: "u32 \<Rightarrow> 'p AudioParams \<Rightarrow> bool" where
  "dirty_index idx ps \<longleftrightarrow> ap_bits ps ! unat (drop_bit 6 idx) AND push_bit (unat (idx AND 63)) 1 \<noteq> 0"

definition set_dirty_index :: "u32 \<Rightarrow> bool \<Rightarrow> 'p AudioParams \<Rightarrow> 'p AudioParams" where
  "set_dirty_index idx d ps =
     (let k = unat (drop_bit 6 idx); m = push_bit (unat (idx AND 63)) 1 in
      ps\<lparr>ap_bits := (ap_bits ps)[k := if d then ap_bits ps ! k OR m else ap_bits ps ! k AND NOT m]\<rparr>)"

definition set_param_value :: "u32 \<Rightarrow> real \<Rightarrow> 'p AudioParams \<Rightarrow> (real \<times> 'p AudioParams) option" where
  "set_param_value i newval ps =
     (let idx = index i ps in
      if idx < 0 then Some (0, ps)
      else case (at_index (ap_values ps) idx, at_index (ap_wprops ps) idx) of
        (Some old, Some alive) \<Rightarrow>
          let ps = ps\<lparr>ap_values := (ap_values ps)[nat idx := newval]\<rparr> in
          Some (old, if alive then (set_dirty_index (word_of_int idx) True ps)\<lparr>ap_changed := True\<rparr> else ps)
      | _ \<Rightarrow> None)"

definition check_dirty :: "u32 \<Rightarrow> 'p AudioParams \<Rightarrow> bool" where
  "check_dirty i ps = (let idx = index i ps in if idx < 0 then False else dirty_index (word_of_int idx) ps)"

definition parameter :: "u32 \<Rightarrow> 'p AudioParams \<Rightarrow> 'p option option" where
  "parameter i ps =
     (let idx = index i ps in if idx < 0 then Some None else map_option Some (at_index (ap_parameters ps) idx))"

text \<open>\<open>find_param\<close> searches the interned identifier; a name that was never interned has no match.\<close>

definition find_param :: "('p \<Rightarrow> string) \<Rightarrow> string \<Rightarrow> 'p AudioParams \<Rightarrow> u32 \<times> bool" where
  "find_param cident ident ps =
     (if ident = [] then (0, False)
      else case find (\<lambda>(i, p). cident p = ident) (zip (ap_ids ps) (ap_parameters ps)) of
        Some (i, p) \<Rightarrow> (i, True)
      | None \<Rightarrow> (0, False))"

subsection \<open>Events that set parameters\<close>

text \<open>
  \<open>t0events_\<close> holds the events for the next block, \<open>None\<close> is a null pointer.  \<open>modify_t0events\<close> takes the
  vector out, modifies it and puts it back unless it is empty.
\<close>

type_synonym t0events = "MidiEvent list option"

definition modify_t0events :: "(MidiEvent list \<Rightarrow> MidiEvent list) \<Rightarrow> t0events \<Rightarrow> t0events" where
  "modify_t0events f t0 =
     (let evs = f (case t0 of None \<Rightarrow> [] | Some evs \<Rightarrow> evs) in if evs \<noteq> [] then Some evs else None)"

definition install_params ::
  "('p \<Rightarrow> real) \<Rightarrow> (u32 \<times> 'p) list \<Rightarrow> 'p AudioParams \<times> t0events \<Rightarrow> 'p AudioParams \<times> t0events" where
  "install_params initial params s =
     (let ps = install initial params (fst s) in
      (ps, modify_t0events (\<lambda>evs. evs @
         map (\<lambda>(i, p). make_param_value i (initial p)) (zip (ap_ids ps) (ap_parameters ps))) (snd s)))"

fun assign_event :: "u32 \<Rightarrow> real \<Rightarrow> MidiEvent list \<Rightarrow> MidiEvent list" where
  "assign_event i v [] = [make_param_value i v]"
| "assign_event i v (ev # evs) =
     (if ev_type ev = PARAM_VALUE \<and> param ev = i then ev\<lparr>data := PValue v\<rparr> # evs
      else ev # assign_event i v evs)"

definition send_param ::
  "('p \<Rightarrow> real \<Rightarrow> real) \<Rightarrow> u32 \<Rightarrow> real \<Rightarrow> 'p AudioParams \<Rightarrow> t0events \<Rightarrow> (bool \<times> t0events) option" where
  "send_param dconstrain paramid value ps t0 =
     (let idx = index paramid ps in
      if idx < 0 then Some (False, t0)
      else case (at_index (ap_parameters ps) idx, at_index (ap_ids ps) idx) of
        (Some p, Some i) \<Rightarrow> Some (True, modify_t0events (assign_event i (dconstrain p value)) t0)
      | _ \<Rightarrow> None)"

definition apply_event :: "MidiEvent \<Rightarrow> 'p AudioParams \<Rightarrow> 'p AudioParams option" where
  "apply_event event ps =
     (case (ev_type event, data event) of
        (PARAM_VALUE, PValue v) \<Rightarrow> map_option snd (set_param_value (param event) v ps)
      | _ \<Rightarrow> Some ps)"

text \<open>
  \<open>apply_input_events\<close> in the order of the event reader; the second result lists the calls of
  \<open>adjust_param\<close>.
\<close>

fun apply_input_events :: "MidiEvent list \<Rightarrow> 'p AudioParams \<Rightarrow> ('p AudioParams \<times> u32 list) option" where
  "apply_input_events [] ps = Some (ps, [])"
| "apply_input_events (event # evs) ps =
     (if ev_type event = PARAM_VALUE then
        (case apply_event event ps of
           None \<Rightarrow> None
         | Some ps \<Rightarrow> map_option (\<lambda>(ps, is). (ps, param event # is)) (apply_input_events evs ps))
      else apply_input_events evs ps)"

subsection \<open>Dispatching changes\<close>

text \<open>
  The loop of \<open>enotify_dispatch\<close> over the words of the bit field: each word is fetched and cleared, and
  the set bits below \<open>bound\<close> notify the property of their parameter if it is alive.  The result lists the
  indices of the notified properties.
\<close>

definition dispatch_word :: "nat \<Rightarrow> 'p AudioParams \<Rightarrow> 'p AudioParams \<times> nat list" where
  "dispatch_word blockoffset ps =
     (let bitmask = ap_bits ps ! (blockoffset div 64);
          bound = min (unat (ap_count ps)) (blockoffset OR (64 - 1)) in
      if bitmask = 0 then (ps, [])
      else (ps\<lparr>ap_bits := (ap_bits ps)[blockoffset div 64 := 0]\<rparr>,
        filter (\<lambda>idx. bit bitmask (idx mod 64) \<and> ap_wprops ps ! idx) [blockoffset..<bound]))"

lemma dispatch_word_count [simp]: "ap_count (fst (dispatch_word b ps)) = ap_count ps"
  by (simp add: dispatch_word_def Let_def)

function dispatch_words :: "nat \<Rightarrow> 'p AudioParams \<Rightarrow> 'p AudioParams \<times> nat list" where
  "dispatch_words blockoffset ps =
     (if blockoffset < unat (ap_count ps) then
        let (ps', xs) = dispatch_word blockoffset ps; (ps'', ys) = dispatch_words (blockoffset + 64) ps' in
        (ps'', xs @ ys)
      else (ps, []))"
  by pat_completeness auto

termination
  by (relation "measure (\<lambda>(b, ps). unat (ap_count ps) - b)")
    (auto dest!: arg_cong [where f = fst] simp: prod.splits)

declare dispatch_words.simps [simp del]

subsection \<open>Finding a parameter\<close>

definition params_ok :: "'p AudioParams \<Rightarrow> bool" where
  "params_ok ps \<longleftrightarrow>
     sorted_wrt (<) (ap_ids ps) \<and> length (ap_ids ps) = unat (ap_count ps) \<and>
     length (ap_values ps) = unat (ap_count ps) \<and> length (ap_parameters ps) = unat (ap_count ps) \<and>
     length (ap_wprops ps) = unat (ap_count ps) \<and> length (ap_bits ps) = (unat (ap_count ps) + 64 - 1) div 64"

lemma unat_of_count: "n < 2 ^ 32 \<Longrightarrow> unat (word_of_nat n :: u32) = n"
  by (simp add: unat_of_nat)

lemma install_ok:
  assumes "sorted_wrt (<) (map fst params)" and "length params < 2 ^ 32"
  shows "params_ok (install initial params ps)" and "ap_ids (install initial params ps) = map fst params"
proof -
  define n where "n = (word_of_nat (length params) :: u32)"
  have n: "unat n = length params" unfolding n_def by (rule unat_of_count [OF assms(2)])
  then have "n = 0 \<longleftrightarrow> params = []" by (metis length_0_conv unat_eq_zero)
  then have "install initial params ps =
      (if params = [] then (clear_params ps)\<lparr>ap_count := 0\<rparr>
       else \<lparr>ap_ids = map fst params, ap_values = map (initial \<circ> snd) params,
             ap_bits = replicate ((length params + 64 - 1) div 64) 0, ap_parameters = map snd params,
             ap_wprops = replicate (length params) False, ap_count = n, ap_changed = False,
             \<dots> = AudioParams.more ps\<rparr>)"
    unfolding install_def clear_params_def n_def [symmetric] by (simp add: Let_def)
  then show "params_ok (install initial params ps)" "ap_ids (install initial params ps) = map fst params"
    using assms(1) n by (simp_all add: params_ok_def clear_params_def)
qed

lemma ascending_ge:
  fixes xs :: "u32 list"
  assumes "sorted_wrt (<) xs" and "k < length xs"
  shows "unat (xs ! k) \<ge> unat (xs ! 0) + k"
  using assms(2)
proof (induction k)
  case (Suc k)
  then have "xs ! k < xs ! Suc k" using assms(1) by (simp add: sorted_wrt_iff_nth_less)
  then show ?case using Suc by (simp add: word_less_nat_alt)
qed simp

lemma ascending_inj:
  fixes xs :: "u32 list"
  assumes "sorted_wrt (<) xs" "i < length xs" "j < length xs" "xs ! i = xs ! j"
  shows "i = j"
  using assms by (metis sorted_wrt_iff_nth_less nat_neq_iff order_less_irrefl)

lemma search_ids:
  fixes xs :: "u32 list" and i :: u32
  assumes sorted: "sorted_wrt (<) xs"
  defines "r \<equiv> binary_lookup_insertion_pos (\<lambda>e. if i < e then -1 else if i > e then 1 else (0::int)) xs"
  shows "(snd r \<and> fst r < length xs \<and> xs ! fst r = i) \<or> (\<not> snd r \<and> i \<notin> set xs)"
proof -
  let ?c = "\<lambda>e. if i < e then -1 else if i > e then 1 else (0::int)"
  have "descends ?c xs"
    unfolding descends_def by (rule sorted_wrt_mono_rel [OF _ sorted]) auto
  then show ?thesis
  proof (cases rule: binary_lookup_insertion_pos_cases)
    case (exact k)
    then show ?thesis unfolding r_def by (auto split: if_splits)
  next
    case (between p)
    have "i \<notin> set xs"
    proof
      assume "i \<in> set xs"
      then obtain k where "k < length xs" "xs ! k = i" by (auto simp: in_set_conv_nth)
      then show False using splits_at_no_match [OF between(2), of k] by simp
    qed
    then show ?thesis unfolding r_def using between by simp
  qed
qed

lemma index_cases:
  assumes ok: "params_ok ps" and pos: "0 \<notin> set (ap_ids ps)"
  shows "i \<in> set (ap_ids ps) \<and> (\<exists>k < length (ap_ids ps). ap_ids ps ! k = i \<and> index i ps = int k) \<or>
    i \<notin> set (ap_ids ps) \<and> index i ps = -1"
proof -
  let ?xs = "ap_ids ps"
  have sorted: "sorted_wrt (<) ?xs" and len: "length ?xs = unat (ap_count ps)"
    using ok by (auto simp: params_ok_def)
  have first: "i - 1 < ap_count ps \<Longrightarrow> unat (i - 1) < length ?xs"
    using len by (simp add: word_less_nat_alt)
  have second: "\<not> (i < ap_count ps \<and> ?xs ! unat i = i)"
  proof
    assume a: "i < ap_count ps \<and> ?xs ! unat i = i"
    then have k: "unat i < length ?xs" using len by (simp add: word_less_nat_alt)
    then have "unat (?xs ! 0) = 0" using ascending_ge [OF sorted k] a by simp
    then have "?xs ! 0 = 0" by (simp add: unat_eq_zero)
    then show False using pos k by (metis gr_zeroI length_greater_0_conv list.size(3) not_less_zero nth_mem)
  qed
  show ?thesis
  proof (cases "i - 1 < ap_count ps \<and> ?xs ! unat (i - 1) = i")
    case True
    then show ?thesis using first nth_mem [of "unat (i - 1)" ?xs] by (auto simp: index_def)
  next
    case False
    then have "index i ps = (let (it, found) = binary_lookup_insertion_pos
        (\<lambda>e. if i < e then -1 else if i > e then 1 else 0) ?xs in if found then int it else -1)"
      using second by (auto simp: index_def)
    then show ?thesis using search_ids [OF sorted, of i] by (auto simp: case_prod_unfold Let_def in_set_conv_nth)
  qed
qed

lemma index_at:
  assumes "params_ok ps" and "0 \<notin> set (ap_ids ps)" and "k < length (ap_ids ps)"
  shows "index (ap_ids ps ! k) ps = int k"
  using index_cases [OF assms(1,2), of "ap_ids ps ! k"] ascending_inj [of "ap_ids ps" _ k] assms
  by (auto simp: params_ok_def)

subsection \<open>Setting values\<close>

lemma index_cong: "ap_ids ps' = ap_ids ps \<Longrightarrow> ap_count ps' = ap_count ps \<Longrightarrow> index i ps' = index i ps"
  by (simp add: index_def)

lemma set_dirty_index_same [simp]:
  "ap_ids (set_dirty_index k d ps) = ap_ids ps" "ap_count (set_dirty_index k d ps) = ap_count ps"
  "ap_values (set_dirty_index k d ps) = ap_values ps" "ap_parameters (set_dirty_index k d ps) = ap_parameters ps"
  "ap_wprops (set_dirty_index k d ps) = ap_wprops ps" "length (ap_bits (set_dirty_index k d ps)) = length (ap_bits ps)"
  by (simp_all add: set_dirty_index_def Let_def)

lemma set_param_value_law:
  assumes ok: "params_ok ps" and pos: "0 \<notin> set (ap_ids ps)" and i: "i \<in> set (ap_ids ps)"
  obtains old ps' where "set_param_value i v ps = Some (old, ps')" "params_ok ps'" "ap_ids ps' = ap_ids ps"
    "ap_parameters ps' = ap_parameters ps" "\<And>j. param_value j ps' = (if j = i then Some v else param_value j ps)"
proof -
  obtain k where k: "k < length (ap_ids ps)" "ap_ids ps ! k = i" "index i ps = int k"
    using index_cases [OF ok pos, of i] i by auto
  have len: "k < length (ap_values ps)" "k < length (ap_wprops ps)" using ok k(1) by (auto simp: params_ok_def)
  define qs where "qs = ps\<lparr>ap_values := (ap_values ps)[k := v]\<rparr>"
  define ps' where "ps' = (if ap_wprops ps ! k then (set_dirty_index (word_of_int (int k)) True qs)\<lparr>ap_changed := True\<rparr> else qs)"
  have set: "set_param_value i v ps = Some (ap_values ps ! k, ps')"
    using len k(3) by (simp add: set_param_value_def at_index_def ps'_def qs_def Let_def)
  have same: "ap_ids ps' = ap_ids ps" "ap_count ps' = ap_count ps" "ap_parameters ps' = ap_parameters ps"
    "ap_wprops ps' = ap_wprops ps" "length (ap_bits ps') = length (ap_bits ps)" "ap_values ps' = (ap_values ps)[k := v]"
    by (auto simp: ps'_def qs_def)
  have "param_value j ps' = (if j = i then Some v else param_value j ps)" for j
    using index_cases [OF ok pos, of j] k len same
    by (auto simp: param_value_def at_index_def Let_def index_cong [OF same(1,2)] nth_list_update)
  moreover have "params_ok ps'" using ok same by (simp add: params_ok_def)
  ultimately show thesis using that set same by blast
qed

subsection \<open>Values that are sent arrive\<close>

definition event_value :: "MidiEvent \<Rightarrow> real" where
  "event_value ev = (case data ev of PValue v \<Rightarrow> v | _ \<Rightarrow> 0)"

abbreviation event_map :: "MidiEvent list \<Rightarrow> u32 \<rightharpoonup> real" where
  "event_map evs \<equiv> map_of (map (\<lambda>ev. (param ev, event_value ev)) evs)"

definition param_event :: "MidiEvent \<Rightarrow> bool" where
  "param_event ev \<longleftrightarrow> ev_type ev = PARAM_VALUE \<and> (\<exists>v. data ev = PValue v)"

definition sends_ok :: "'p AudioParams \<Rightarrow> MidiEvent list \<Rightarrow> bool" where
  "sends_ok ps evs \<longleftrightarrow> list_all param_event evs \<and> param ` set evs \<subseteq> set (ap_ids ps) \<and> distinct (map param evs)"

lemma make_param_value_event [simp]:
  "ev_type (make_param_value i v) = PARAM_VALUE" "data (make_param_value i v) = PValue v"
  "param (make_param_value i v) = i"
  by (simp_all add: make_param_value_def new_event_def)

lemma assign_event_law:
  assumes "list_all param_event evs" and "distinct (map param evs)"
  shows "list_all param_event (assign_event i v evs)" and "distinct (map param (assign_event i v evs))"
    and "param ` set (assign_event i v evs) = insert i (param ` set evs)"
    and "event_map (assign_event i v evs) = (event_map evs)(i \<mapsto> v)"
  using assms by (induction evs) (auto simp: param_event_def event_value_def fun_upd_twist)

lemma apply_events_law:
  assumes "params_ok ps" and "0 \<notin> set (ap_ids ps)" and "sends_ok ps evs"
  shows "\<exists>ps'. apply_input_events evs ps = Some (ps', map param evs) \<and>
    (\<forall>i. param_value i ps' = (case event_map evs i of Some v \<Rightarrow> Some v | None \<Rightarrow> param_value i ps))"
  using assms
proof (induction evs arbitrary: ps)
  case (Cons ev evs)
  then obtain v where ev: "ev_type ev = PARAM_VALUE" "data ev = PValue v" "param ev \<in> set (ap_ids ps)"
    by (auto simp: sends_ok_def param_event_def)
  obtain old qs where qs: "set_param_value (param ev) v ps = Some (old, qs)" "params_ok qs" "ap_ids qs = ap_ids ps"
      "\<And>j. param_value j qs = (if j = param ev then Some v else param_value j ps)"
    using set_param_value_law [OF Cons.prems(1,2) ev(3), of v] by metis
  have "sends_ok qs evs" using Cons.prems(3) qs(3) by (auto simp: sends_ok_def)
  then obtain ps' where ps': "apply_input_events evs qs = Some (ps', map param evs)"
      "\<And>i. param_value i ps' = (case event_map evs i of Some v \<Rightarrow> Some v | None \<Rightarrow> param_value i qs)"
    using Cons.IH [OF qs(2)] Cons.prems(2) qs(3) by metis
  have "event_map evs (param ev) = None" using Cons.prems(3) by (auto simp: sends_ok_def map_of_eq_None_iff)
  then have "\<forall>i. param_value i ps' = (case event_map (ev # evs) i of Some v \<Rightarrow> Some v | None \<Rightarrow> param_value i ps)"
    using ps'(2) qs(4) ev(2) by (auto simp: event_value_def split: option.splits)
  then show ?case using ps'(1) qs(1) ev(1,2) by (simp add: apply_event_def)
qed simp

text \<open>What a history of calls of \<open>send_param\<close> asks for: the last value of each parameter.\<close>

fun send_all ::
  "('p \<Rightarrow> real \<Rightarrow> real) \<Rightarrow> (u32 \<times> real) list \<Rightarrow> 'p AudioParams \<Rightarrow> t0events \<Rightarrow> t0events option" where
  "send_all dconstrain [] ps t0 = Some t0"
| "send_all dconstrain ((i, v) # sends) ps t0 =
     (case send_param dconstrain i v ps t0 of None \<Rightarrow> None | Some (_, t0) \<Rightarrow> send_all dconstrain sends ps t0)"

definition events_of :: "t0events \<Rightarrow> MidiEvent list" where
  "events_of t0 = (case t0 of None \<Rightarrow> [] | Some evs \<Rightarrow> evs)"

definition constrained :: "('p \<Rightarrow> real \<Rightarrow> real) \<Rightarrow> 'p AudioParams \<Rightarrow> u32 \<Rightarrow> real \<Rightarrow> real" where
  "constrained dconstrain ps i v = dconstrain (ap_parameters ps ! nat (index i ps)) v"

lemma events_of_None: "events_of None = []"
  by (simp add: events_of_def)

lemma events_of_modify: "events_of (modify_t0events f t0) = f (events_of t0)"
  by (cases t0) (simp_all add: events_of_def modify_t0events_def Let_def)

lemma send_param_law:
  assumes ok: "params_ok ps" and pos: "0 \<notin> set (ap_ids ps)" and t0: "sends_ok ps (events_of t0)"
  obtains b t1 where "send_param dconstrain i v ps t0 = Some (b, t1)" "sends_ok ps (events_of t1)"
    "event_map (events_of t1) =
       (if i \<in> set (ap_ids ps) then (event_map (events_of t0))(i \<mapsto> constrained dconstrain ps i v)
        else event_map (events_of t0))"
  using index_cases [OF ok pos, of i]
proof (elim disjE conjE exE)
  assume "i \<notin> set (ap_ids ps)" "index i ps = -1"
  then show thesis using that [of False t0] t0 by (simp add: send_param_def)
next
  fix k
  assume i: "i \<in> set (ap_ids ps)" and k: "k < length (ap_ids ps)" "ap_ids ps ! k = i" "index i ps = int k"
  define evs where "evs = assign_event i (constrained dconstrain ps i v) (events_of t0)"
  define t1 where "t1 = modify_t0events (assign_event i (constrained dconstrain ps i v)) t0"
  have "k < length (ap_parameters ps)" using ok k(1) by (simp add: params_ok_def)
  then have s: "send_param dconstrain i v ps t0 = Some (True, t1)"
    using k by (simp add: send_param_def at_index_def t1_def constrained_def Let_def)
  have law: "list_all param_event evs" "distinct (map param evs)"
      "param ` set evs = insert i (param ` set (events_of t0))"
      "event_map evs = (event_map (events_of t0))(i \<mapsto> constrained dconstrain ps i v)"
    unfolding evs_def using t0 by (simp_all only: assign_event_law sends_ok_def)
  have "events_of t1 = evs"
    by (simp add: t1_def events_of_modify evs_def)
  moreover have "sends_ok ps evs" using law(1-3) t0 i by (auto simp: sends_ok_def)
  ultimately show thesis using that [of True t1] s law(4) i by simp
qed

lemma send_all_law:
  assumes ok: "params_ok ps" "0 \<notin> set (ap_ids ps)" and "sends_ok ps (events_of t0)"
  shows "\<exists>t1. send_all dconstrain sends ps t0 = Some t1 \<and> sends_ok ps (events_of t1) \<and>
    (\<forall>i. event_map (events_of t1) i = (case map_of (rev sends) i of
       Some v \<Rightarrow> if i \<in> set (ap_ids ps) then Some (constrained dconstrain ps i v) else None
     | None \<Rightarrow> event_map (events_of t0) i))"
  using assms(3)
proof (induction sends arbitrary: t0)
  case (Cons iv sends)
  obtain i v where iv: "iv = (i, v)" by (cases iv)
  obtain b t1 where t1: "send_param dconstrain i v ps t0 = Some (b, t1)" "sends_ok ps (events_of t1)"
      "event_map (events_of t1) = (if i \<in> set (ap_ids ps)
        then (event_map (events_of t0))(i \<mapsto> constrained dconstrain ps i v) else event_map (events_of t0))"
    by (rule send_param_law [OF ok Cons.prems])
  have none: "event_map (events_of t0) j = None" if "j \<notin> set (ap_ids ps)" for j
    using Cons.prems that by (auto simp: sends_ok_def map_of_eq_None_iff)
  obtain t2 where t2: "send_all dconstrain sends ps t1 = Some t2" "sends_ok ps (events_of t2)"
      "\<And>j. event_map (events_of t2) j = (case map_of (rev sends) j of
         Some v \<Rightarrow> if j \<in> set (ap_ids ps) then Some (constrained dconstrain ps j v) else None
       | None \<Rightarrow> event_map (events_of t1) j)"
    using Cons.IH [OF t1(2)] by metis
  have "event_map (events_of t2) j = (case map_of (rev (iv # sends)) j of
       Some v \<Rightarrow> if j \<in> set (ap_ids ps) then Some (constrained dconstrain ps j v) else None
     | None \<Rightarrow> event_map (events_of t0) j)" for j
    using none [of j] unfolding t2(3) t1(3) iv by (cases "map_of (rev sends) j") (auto simp: map_add_def)
  then show ?case using t1(1) t2(1,2) by (simp add: iv)
qed simp

subsection \<open>Which changes are notified\<close>

lemma dirty_index_bit:
  "idx < 2 ^ 32 \<Longrightarrow> dirty_index (word_of_nat idx) ps \<longleftrightarrow> bit (ap_bits ps ! (idx div 64)) (idx mod 64)"
proof -
  assume "idx < 2 ^ 32"
  then have u: "unat (word_of_nat idx :: u32) = idx" by (rule unat_of_count)
  have "(63 :: u32) = mask 6" by (simp add: mask_eq_exp_minus_1)
  then show ?thesis
    by (simp only: dirty_index_def bit_iff_and_push_bit_not_eq_0 [symmetric] unat_drop_bit_div unat_and_mask_eq u) simp
qed

text \<open>The loop sees of every word all bits below its last one.\<close>

lemma or_63: "b mod 64 = 0 \<Longrightarrow> b OR 63 = b + (63::nat)"
proof -
  assume "b mod 64 = 0"
  then have "b AND 63 = 0" using take_bit_eq_mod [of 6 b] take_bit_eq_mask [of 6 b] by (simp add: mask_eq_exp_minus_1)
  then have "\<not> bit b n \<or> \<not> bit (63::nat) n" for n by (metis bit_0_eq bit_and_iff bot_apply bot_bool_def)
  then show ?thesis using disjunctive_add [of b 63] by simp
qed

definition notified :: "'p AudioParams \<Rightarrow> nat \<Rightarrow> bool" where
  "notified ps k \<longleftrightarrow> bit (ap_bits ps ! (k div 64)) (k mod 64) \<and> ap_wprops ps ! k \<and> k mod 64 \<noteq> 63"

lemma dispatch_word_law:
  assumes "b mod 64 = 0"
  shows "dispatch_word b ps = (ps\<lparr>ap_bits := (ap_bits ps)[b div 64 := 0]\<rparr>,
    filter (notified ps) [b..<min (unat (ap_count ps)) (b + 64)])"
proof -
  let ?w = "ap_bits ps ! (b div 64)" and ?n = "unat (ap_count ps)"
  let ?P = "\<lambda>idx. bit ?w (idx mod 64) \<and> ap_wprops ps ! idx"
  have k: "k div 64 = b div 64 \<and> k mod 64 = k - b" if "b \<le> k" "k < b + 64" for k
  proof -
    obtain q where q: "b = 64 * q" using assms by (metis mod_0_imp_dvd dvdE)
    define r where "r = k - b"
    have "k = 64 * q + r" "r < 64" using that q by (auto simp: r_def)
    then show ?thesis by (simp add: q div_mult_self4)
  qed
  have "filter ?P [b..<min ?n (b + 63)] = filter (notified ps) [b..<min ?n (b + 63)]"
  proof (rule filter_cong [OF refl])
    fix i assume "i \<in> set [b..<min ?n (b + 63)]"
    then have "b \<le> i" "i < b + 63" by auto
    then have "i div 64 = b div 64" "i mod 64 \<noteq> 63" using k [of i] by auto
    then show "?P i \<longleftrightarrow> notified ps i" by (simp add: notified_def)
  qed
  also have "\<dots> = filter (notified ps) [b..<min ?n (b + 64)]"
  proof (cases "?n \<le> b + 63")
    case False
    then have "min ?n (b + 64) = b + 64" "min ?n (b + 63) = b + 63" by auto
    moreover have "[b..<b + 64] = [b..<b + 63] @ [b + 63]" using upt_Suc_append [of b "b + 63"] by (simp add: add.commute)
    ultimately show ?thesis using k [of "b + 63"] by (simp only: filter_append) (simp add: notified_def)
  qed simp
  finally have f: "filter ?P [b..<min ?n (b + 63)] = filter (notified ps) [b..<min ?n (b + 64)]" .
  have zero: "?w = 0 \<Longrightarrow> filter ?P [b..<min ?n (b + 63)] = []" "?w = 0 \<Longrightarrow> (ap_bits ps)[b div 64 := 0] = ap_bits ps"
    using list_update_id [of "ap_bits ps" "b div 64"] by auto
  show ?thesis
    using zero by (auto simp: dispatch_word_def Let_def or_63 [OF assms] f [symmetric])
qed

lemma dispatch_words_law:
  assumes "b mod 64 = 0" and "length (ap_bits ps) = (unat (ap_count ps) + 64 - 1) div 64"
  shows "snd (dispatch_words b ps) = filter (notified ps) [b..<unat (ap_count ps)] \<and>
    (\<exists>bits. fst (dispatch_words b ps) = ps\<lparr>ap_bits := bits\<rparr> \<and> length bits = length (ap_bits ps) \<and>
       (\<forall>i < length bits. bits ! i = (if i < b div 64 then ap_bits ps ! i else 0)))"
  using assms
proof (induction b ps rule: dispatch_words.induct)
  case (1 b ps)
  let ?n = "unat (ap_count ps)" and ?ps = "ps\<lparr>ap_bits := (ap_bits ps)[b div 64 := 0]\<rparr>"
  have w: "dispatch_word b ps = (?ps, filter (notified ps) [b..<min ?n (b + 64)])"
    by (rule dispatch_word_law [OF 1(2)])
  show ?case
  proof (cases "b < ?n")
    case True
    have "snd (dispatch_words (b + 64) ?ps) = filter (notified ?ps) [b + 64..<?n]"
      "\<exists>bits. fst (dispatch_words (b + 64) ?ps) = ?ps\<lparr>ap_bits := bits\<rparr> \<and> length bits = length (ap_bits ?ps) \<and>
        (\<forall>i < length bits. bits ! i = (if i < (b + 64) div 64 then ap_bits ?ps ! i else 0))"
      using 1(1) [OF True w [symmetric] refl] 1(2,3) by auto
    moreover have "filter (notified ?ps) [b + 64..<?n] = filter (notified ps) [b + 64..<?n]"
    proof (rule filter_cong [OF refl])
      fix k assume "k \<in> set [b + 64..<?n]"
      then have "(b + 64) div 64 \<le> k div 64" by (intro div_le_mono) simp
      then show "notified ?ps k \<longleftrightarrow> notified ps k" by (simp add: notified_def)
    qed
    moreover have "[b..<?n] = [b..<min ?n (b + 64)] @ [b + 64..<?n]"
      using True upt_add_eq_append [of b "b + 64" "?n - (b + 64)"] by (cases "?n \<le> b + 64") (simp_all add: min_def)
    moreover have "dispatch_words b ps = (fst (dispatch_words (b + 64) ?ps),
        filter (notified ps) [b..<min ?n (b + 64)] @ snd (dispatch_words (b + 64) ?ps))"
      using True by (subst dispatch_words.simps) (simp add: w case_prod_unfold Let_def)
    ultimately show ?thesis by (auto simp: nth_list_update less_Suc_eq)
  next
    case False
    then have "\<forall>i < length (ap_bits ps). i < b div 64" using 1(2,3) by auto
    moreover have "dispatch_words b ps = (ps, [])" using False by (subst dispatch_words.simps) simp
    ultimately show ?thesis using False by (auto intro: exI [where x = "ap_bits ps"])
  qed
qed

subsection \<open>Properties\<close>

lemma install_values:
  assumes "length params < 2 ^ 32"
  shows "ap_values (install initial params ps) = map (initial \<circ> snd) params"
proof -
  define n where "n = (word_of_nat (length params) :: u32)"
  have "unat n = length params" unfolding n_def by (rule unat_of_count [OF assms])
  then have "n = 0 \<longleftrightarrow> params = []" by (metis length_0_conv unat_eq_zero)
  then show ?thesis unfolding install_def clear_params_def n_def [symmetric] by (simp add: Let_def)
qed

lemma index_installed:
  assumes "sorted_wrt (<) (map fst params)" and "length params < 2 ^ 32" and "0 \<notin> fst ` set params"
    and "k < length params"
  shows "index (fst (params ! k)) (install initial params old) = int k"
  using index_at [OF install_ok(1) [OF assms(1,2), of initial old], of k] assms install_ok(2) [OF assms(1,2), of initial old]
  by simp

text \<open>
  With identifiers above zero in the order of the map, \<open>index\<close> finds exactly the installed parameters, by
  the shortcut or by the binary lookup, and each has its initial value; other identifiers read as zero.
\<close>

theorem param_index_correct:
  assumes "sorted_wrt (<) (map fst params)" and "length params < 2 ^ 32" and "0 \<notin> fst ` set params"
  shows "(\<forall>k < length params. index (fst (params ! k)) (install initial params old) = int k \<and>
      param_value (fst (params ! k)) (install initial params old) = Some (initial (snd (params ! k)))) \<and>
    (\<forall>i. i \<notin> fst ` set params \<longrightarrow>
      index i (install initial params old) = -1 \<and> param_value i (install initial params old) = Some 0)"
proof -
  note ok = install_ok [OF assms(1,2), of initial old]
  have "index i (install initial params old) = -1" if "i \<notin> fst ` set params" for i
    using index_cases [OF ok(1), of i] that assms(3) by (auto simp: ok(2))
  then show ?thesis
    using index_installed [OF assms]
    by (simp add: param_value_def install_values [OF assms(2)] at_index_def Let_def)
qed

lemma param_index_correct_witness:
  "index 7 (install id [(2, 0.5), (7, 0.25)] no_params) = 1 \<and>
   param_value 3 (install id [(2, 0.5 :: real), (7, 0.25)] no_params) = Some 0"
  using param_index_correct [of "[(2, 0.5), (7, 0.25 :: real)]" id no_params] by force

text \<open>
  The branch of \<open>index\<close> that is to handle identifiers from zero on returns the index of the parameter before: the
  identifier 0 reads outside of the arrays and every other reads the value of its predecessor.
\<close>

theorem zero_based_ids_misread:
  assumes "0 < k" and "k < length ps" and "length ps < 2 ^ 32"
  shows "param_value (word_of_nat k) (install initial (zip (map word_of_nat [0..<length ps]) ps) old) =
      Some (initial (ps ! (k - 1))) \<and>
    param_value 0 (install initial (zip (map word_of_nat [0..<length ps]) ps) old) = None"
proof -
  let ?params = "zip (map word_of_nat [0..<length ps]) ps :: (u32 \<times> 'a) list"
  define qs where "qs = install initial ?params old"
  have u: "unat (word_of_nat i :: u32) = i" if "i \<le> length ps" for i using that assms(3) by (simp add: unat_of_count)
  have len: "length ?params < 2 ^ 32" using assms(3) by simp
  have "sorted_wrt (<) (map fst ?params)"
    using u by (auto simp: sorted_wrt_iff_nth_less word_less_nat_alt)
  note ok = install_ok [OF this len, of initial old, folded qs_def]
  have count: "unat (ap_count qs) = length ps" using ok by (simp add: params_ok_def)
  have k1: "word_of_nat k - 1 = (word_of_nat (k - 1) :: u32)" using assms(1) by (simp add: of_nat_diff)
  have "(word_of_nat (k - 1) :: u32) \<noteq> word_of_nat k" using u [of k] u [of "k - 1"] assms by (metis diff_less less_imp_le less_numeral_extra(1) less_imp_diff_less nat_neq_iff)
  moreover have uk: "unat (word_of_nat k :: u32) = k" "unat (word_of_nat (k - 1) :: u32) = k - 1"
    by (rule u, use assms in simp)+
  moreover have "word_of_nat k < ap_count qs"
    unfolding word_less_nat_alt count using assms uk(1) by (simp only:)
  moreover have "ap_ids qs ! k = word_of_nat k" "ap_ids qs ! (k - 1) = word_of_nat (k - 1)"
    using assms by (simp_all add: ok(2))
  ultimately have "index (word_of_nat k) qs = uint (word_of_nat (k - 1) :: u32)"
    by (simp only: index_def k1 simp_thms if_True if_False)
  also have "\<dots> = int (k - 1)" using u [of "k - 1"] assms by (simp add: uint_nat)
  finally have "index (word_of_nat k) qs = int (k - 1)" .
  moreover have "ap_values qs = map initial ps"
    unfolding qs_def by (simp add: install_values [OF len] map_map [symmetric] del: map_map)
  moreover have "index 0 qs = 4294967295"
  proof -
    have "0 < length ps" using assms(1,2) by (rule less_trans)
    then have "0 < ap_count qs" using count by (simp add: word_less_nat_alt)
    moreover have "ap_ids qs ! 0 = 0" using \<open>0 < length ps\<close> nth_map [of 0 "[0..<length ps]"] by (simp add: ok(2))
    moreover have "\<not> (0 - 1 < ap_count qs \<and> ap_ids qs ! unat (0 - 1 :: u32) = 0)"
    proof
      assume a: "0 - 1 < ap_count qs \<and> ap_ids qs ! unat (0 - 1 :: u32) = 0"
      then have "unat (- 1 :: u32) < length ps" by (simp only: word_less_nat_alt count diff_0)
      then show False using a u [of "unat (- 1 :: u32)"] by (simp add: ok(2))
    qed
    moreover have "uint (0 - 1 :: u32) = 4294967295" by code_simp
    ultimately show ?thesis by (simp only: index_def unat_0 if_True if_False simp_thms)
  qed
  moreover have "nat (int k - 1) = k - 1" "k - 1 < length ps" using assms by linarith+
  ultimately show ?thesis
    using assms by (simp add: param_value_def at_index_def Let_def qs_def [symmetric])
qed

lemma zero_based_ids_misread_witness:
  "param_value 1 (install id [(0, 0.5), (1, 0.25)] no_params) = Some (0.5 :: real) \<and>
   param_value 0 (install id [(0, 0.5 :: real), (1, 0.25)] no_params) = None"
  using zero_based_ids_misread [of 1 "[0.5, 0.25 :: real]" id no_params] by (simp add: upt_rec)



text \<open>
  C14: One dispatch clears all change bits and notifies, in order and once each, exactly the changed parameters with a
  property, except those at the last bit of a word: changes of parameters 63, 127, ... are dropped.
\<close>

theorem changes_notified_but_last:
  fixes ps :: "'p AudioParams"
  assumes "params_ok ps"
  shows "snd (dispatch_words 0 ps) = filter (\<lambda>k. dirty_index (word_of_nat k) ps \<and> ap_wprops ps ! k \<and> k mod 64 \<noteq> 63)
      [0..<unat (ap_count ps)] \<and>
    (\<forall>k < unat (ap_count ps). \<not> dirty_index (word_of_nat k) (fst (dispatch_words 0 ps)))"
proof -
  have len: "length (ap_bits ps) = (unat (ap_count ps) + 64 - 1) div 64" using assms by (simp add: params_ok_def)
  have small: "k < 2 ^ 32" if "k < unat (ap_count ps)" for k
    using that unat_u32_less [of "ap_count ps"] by simp
  have word: "k div 64 < length (ap_bits ps)" if "k < unat (ap_count ps)" for k
    using div_le_mono [of "k + 64" "unat (ap_count ps) + 64 - 1" 64] that by (simp add: len)
  have d: "dirty_index (word_of_nat k) qs \<longleftrightarrow> bit (ap_bits qs ! (k div 64)) (k mod 64)"
    if "k < unat (ap_count ps)" for k and qs :: "'p AudioParams" using dirty_index_bit [OF small [OF that]] .
  obtain bits where law: "snd (dispatch_words 0 ps) = filter (notified ps) [0..<unat (ap_count ps)]"
      "fst (dispatch_words 0 ps) = ps\<lparr>ap_bits := bits\<rparr>" "\<forall>i < length (ap_bits ps). bits ! i = 0"
    using dispatch_words_law [of 0 ps] len by auto
  have "filter (notified ps) [0..<unat (ap_count ps)] =
      filter (\<lambda>k. dirty_index (word_of_nat k) ps \<and> ap_wprops ps ! k \<and> k mod 64 \<noteq> 63) [0..<unat (ap_count ps)]"
    by (rule filter_cong) (simp_all add: notified_def d)
  moreover have "\<not> dirty_index (word_of_nat k) (fst (dispatch_words 0 ps))" if "k < unat (ap_count ps)" for k
    using d [OF that] law(3) word [OF that] by (simp add: law(2))
  ultimately show ?thesis using law(1) by simp
qed

definition sample_params :: "unit AudioParams" where
  "sample_params = \<lparr>ap_ids = map word_of_nat [1..<65], ap_values = replicate 64 0, ap_bits = [0x8000000000000001],
     ap_parameters = replicate 64 (), ap_wprops = replicate 64 True, ap_count = 64, ap_changed = True\<rparr>"

lemma sample_params_ok: "params_ok sample_params"
  by code_simp

lemma sample_params_dirty:
  "filter (\<lambda>k. dirty_index (word_of_nat k) sample_params \<and> ap_wprops sample_params ! k \<and> k mod 64 \<noteq> 63) [0..<64] = [0]"
  "dirty_index 63 sample_params" "unat (ap_count sample_params) = 64"
  by code_simp+

lemma changes_notified_but_last_witness:
  "dirty_index 63 sample_params \<and> snd (dispatch_words 0 sample_params) = [0]"
  using changes_notified_but_last [OF sample_params_ok] sample_params_dirty by simp

end
