(* ===== verification/Speakers.thy ===== *)
theory Speakers
  imports Prelude
begin

section \<open>Speaker arrangements (ase/transport.hh, ase/transport.cc)\<close>

text \<open>A \<open>SpeakerArrangement\<close> is a set of channel bits with a flag for side chains.\<close>

type_synonym SpeakerArrangement = u64

definition NONE :: SpeakerArrangement where "NONE = 0"
definition FRONT_LEFT :: SpeakerArrangement where "FRONT_LEFT = 0x1"
definition FRONT_RIGHT :: SpeakerArrangement where "FRONT_RIGHT = 0x2"
definition FRONT_CENTER :: SpeakerArrangement where "FRONT_CENTER = 0x4"
definition LOW_FREQUENCY :: SpeakerArrangement where "LOW_FREQUENCY = 0x8"
definition BACK_LEFT :: SpeakerArrangement where "BACK_LEFT = 0x10"
definition BACK_RIGHT :: SpeakerArrangement where "BACK_RIGHT = 0x20"
definition AUX :: SpeakerArrangement where "AUX = push_bit 63 1"
definition MONO :: SpeakerArrangement where "MONO = FRONT_LEFT"
definition STEREO :: SpeakerArrangement where "STEREO = FRONT_LEFT OR FRONT_RIGHT"
definition STEREO_21 :: SpeakerArrangement where "STEREO_21 = STEREO OR LOW_FREQUENCY"
definition STEREO_30 :: SpeakerArrangement where "STEREO_30 = STEREO OR FRONT_CENTER"
definition STEREO_31 :: SpeakerArrangement where "STEREO_31 = STEREO_30 OR LOW_FREQUENCY"
definition SURROUND_50 :: SpeakerArrangement where "SURROUND_50 = STEREO_30 OR BACK_LEFT OR BACK_RIGHT"
definition SURROUND_51 :: SpeakerArrangement where "SURROUND_51 = SURROUND_50 OR LOW_FREQUENCY"

lemmas speaker_bits =
  NONE_def FRONT_LEFT_def FRONT_RIGHT_def FRONT_CENTER_def LOW_FREQUENCY_def BACK_LEFT_def BACK_RIGHT_def
  AUX_def MONO_def STEREO_def STEREO_21_def STEREO_30_def STEREO_31_def SURROUND_50_def SURROUND_51_def

definition speaker_arrangement_channels_mask :: SpeakerArrangement where
  "speaker_arrangement_channels_mask = NOT AUX"

definition speaker_arrangement_channels :: "SpeakerArrangement \<Rightarrow> SpeakerArrangement" where
  "speaker_arrangement_channels spa = spa AND speaker_arrangement_channels_mask"

definition popcount :: "u64 \<Rightarrow> nat" where
  "popcount w = length (filter (bit w) [0..<64])"

definition speaker_arrangement_count_channels :: "SpeakerArrangement \<Rightarrow> nat" where
  "speaker_arrangement_count_channels spa = popcount (speaker_arrangement_channels spa)"

definition speaker_arrangement_is_aux :: "SpeakerArrangement \<Rightarrow> bool" where
  "speaker_arrangement_is_aux spa \<longleftrightarrow> spa AND AUX \<noteq> 0"

definition speaker_arrangement_bit_name :: "SpeakerArrangement \<Rightarrow> string option" where
  "speaker_arrangement_bit_name spa =
     (if spa = NONE then Some ''-'' else if spa = FRONT_LEFT then Some ''FL''
      else if spa = FRONT_RIGHT then Some ''FR'' else if spa = FRONT_CENTER then Some ''FC''
      else if spa = LOW_FREQUENCY then Some ''LFE'' else if spa = BACK_LEFT then Some ''BL''
      else if spa = BACK_RIGHT then Some ''BR'' else if spa = AUX then Some ''AUX''
      else if spa = STEREO then Some ''Stereo'' else if spa = STEREO_21 then Some ''Stereo-2.1''
      else if spa = STEREO_30 then Some ''Stereo-3.0'' else if spa = STEREO_31 then Some ''Stereo-3.1''
      else if spa = SURROUND_50 then Some ''Surround-5.0'' else if spa = SURROUND_51 then Some ''Surround-5.1''
      else None)"

definition speaker_arrangement_desc :: "SpeakerArrangement \<Rightarrow> string" where
  "speaker_arrangement_desc spa =
     (let isaux = speaker_arrangement_is_aux spa; chan = speaker_arrangement_channels spa;
          chname = if MONO = chan then Some ''Mono'' else speaker_arrangement_bit_name chan;
          s = (case chname of Some n \<Rightarrow> n | None \<Rightarrow> ''<INVALID>'') in
      if isaux then (case speaker_arrangement_bit_name AUX of Some n \<Rightarrow> n | None \<Rightarrow> []) @ ''('' @ s @ '')'' else s)"

subsection \<open>Channels\<close>

lemma bit_AUX: "bit AUX i \<longleftrightarrow> i = 63"
  unfolding AUX_def by (simp only: bit_push_bit_iff bit_1_iff) auto

lemma bit_channels:
  "bit (speaker_arrangement_channels spa) i \<longleftrightarrow> bit spa i \<and> i \<noteq> 63"
  using bit_imp_le_length [of spa i]
  by (auto simp: speaker_arrangement_channels_def speaker_arrangement_channels_mask_def bit_AUX bit_simps)

lemma channels_count_pos:
  assumes "speaker_arrangement_channels spa \<noteq> 0"
  shows "0 < speaker_arrangement_count_channels spa"
proof -
  obtain i where "bit (speaker_arrangement_channels spa) i" using assms bit_word_eqI [of _ "0::u64"] by auto
  moreover from this have "i < 64" using bit_imp_le_length [of "speaker_arrangement_channels spa" i] by simp
  ultimately have "i \<in> set (filter (bit (speaker_arrangement_channels spa)) [0..<64])" by simp
  then show ?thesis unfolding speaker_arrangement_count_channels_def popcount_def
    by (metis length_pos_if_in_set)
qed

text \<open>Side chain flags do not change what channels there are.\<close>

lemma channels_aux [simp]:
  "speaker_arrangement_channels (spa OR AUX) = speaker_arrangement_channels spa"
  by (rule bit_word_eqI) (auto simp: bit_channels bit_or_iff bit_AUX)

lemma channels_idem [simp]:
  "speaker_arrangement_channels (speaker_arrangement_channels spa) = speaker_arrangement_channels spa"
  by (rule bit_word_eqI) (auto simp: bit_channels)

lemma count_channels_values:
  "speaker_arrangement_count_channels NONE = 0" "speaker_arrangement_count_channels MONO = 1"
  "speaker_arrangement_count_channels STEREO = 2" "speaker_arrangement_count_channels SURROUND_51 = 6"
  by code_simp+

end
