(* ===== verification/Processor.thy ===== *)
theory Processor
  imports ProcParams Speakers
begin

section \<open>Audio processors and their connections (ase/processor.hh, ase/processor.cc)\<close>

text \<open>
  Processors are numbers, the store \<open>procs\<close> maps them to their members.  Bus ids count from 1; an
  \<open>IBusId\<close> and the index of an event stream share one type, with \<open>EVENT_ISTREAM\<close> for the latter.  The
  union in \<open>IOBus\<close> is a record with the fields of both variants, and \<open>fbuffer_index = ~0\<close> is \<open>None\<close>.  A pointer to
  floats is the block of a buffer of a processor, or one of the two constant blocks of zeros.  The members of
  derived classes are the field \<open>impl\<close>.  Flag words are sets of flags; frame stamps are natural numbers.
  A failed \<open>assert_return\<close> returns, without its message.
\<close>

type_synonym proc = nat

definition EVENT_ISTREAM :: nat where "EVENT_ISTREAM = 0xff01"

datatype IOTag = IBUS | OBUS

record IOBus =
  bus_ident :: string
  bus_label :: string
  bus_hints :: string
  bus_blurb :: string
  bus_speakers :: SpeakerArrangement
  iotag :: IOTag
  bus_obusid :: nat
  bus_oproc :: "proc option"
  fbuffer_concounter :: nat
  fbuffer_count :: nat
  fbuffer_index :: "nat option"

datatype float_ptr = Fblock proc nat | Const_float_zeros | Zero_buffer

record EventStreams =
  es_oproc :: "proc option"
  es_output :: "MidiEvent list"
  has_input :: bool
  has_output :: bool

datatype flag =
  INITIALIZED | SCHEDULED | PARAMCHANGE | BUSCONNECT | BUSDISCONNECT | INSERTION | REMOVAL | ENGINE_OUTPUT

definition NOTIFYMASK :: "flag set" where
  "NOTIFYMASK = {PARAMCHANGE, BUSCONNECT, BUSDISCONNECT, INSERTION, REMOVAL}"

datatype qlink = Unqueued | Qtail | Qproc proc

record ('p, 'c) processor =
  flags :: "flag set"
  output_offset :: nat
  fbuffers :: "float_ptr list option"
  iobuses :: "IOBus list"
  params :: "'p AudioParams"
  outputs :: "(proc \<times> nat) list"
  estreams :: "EventStreams option"
  render_stamp :: nat
  proc_t0events :: t0events
  sched_next :: "proc option"
  nqueue_next :: qlink
  has_device :: bool
  impl :: 'c

record ('p, 'c) world =
  procs :: "proc \<Rightarrow> ('p, 'c) processor"
  schedule_invalid :: bool
  enotify_head :: qlink

definition upd :: "proc \<Rightarrow> (('p, 'c) processor \<Rightarrow> ('p, 'c) processor) \<Rightarrow> ('p, 'c, 'x) world_scheme \<Rightarrow> ('p, 'c, 'x) world_scheme" where
  "upd p f w = w\<lparr>procs := (procs w)(p := f (procs w p))\<rparr>"

subsection \<open>Buses\<close>

definition new_bus :: "IOTag \<Rightarrow> string \<Rightarrow> string \<Rightarrow> SpeakerArrangement \<Rightarrow> IOBus" where
  "new_bus tag ident uilabel sa =
     \<lparr>bus_ident = ident, bus_label = uilabel, bus_hints = [], bus_blurb = [], bus_speakers = sa, iotag = tag,
      bus_obusid = 0, bus_oproc = None, fbuffer_concounter = 0, fbuffer_count = 0, fbuffer_index = None\<rparr>"

definition n_channels :: "IOBus \<Rightarrow> nat" where
  "n_channels bus = speaker_arrangement_count_channels (bus_speakers bus)"

definition n_ibuses :: "('p, 'c) processor \<Rightarrow> nat" where
  "n_ibuses P = output_offset P"

definition n_obuses :: "('p, 'c) processor \<Rightarrow> nat" where
  "n_obuses P = length (iobuses P) - output_offset P"

definition is_ibus :: "('p, 'c) processor \<Rightarrow> nat \<Rightarrow> bool" where
  "is_ibus P i \<longleftrightarrow> 0 < i \<and> i - 1 < n_ibuses P"

definition is_obus :: "('p, 'c) processor \<Rightarrow> nat \<Rightarrow> bool" where
  "is_obus P ob \<longleftrightarrow> 0 < ob \<and> ob - 1 < n_obuses P"

text \<open>The handles \<open>iobus\<close>; they are used after a check of the id.\<close>

definition ibus :: "('p, 'c) processor \<Rightarrow> nat \<Rightarrow> IOBus" where
  "ibus P i = iobuses P ! (i - 1)"

definition obus :: "('p, 'c) processor \<Rightarrow> nat \<Rightarrow> IOBus" where
  "obus P ob = iobuses P ! (output_offset P + (ob - 1))"

definition upd_ibus :: "nat \<Rightarrow> (IOBus \<Rightarrow> IOBus) \<Rightarrow> ('p, 'c) processor \<Rightarrow> ('p, 'c) processor" where
  "upd_ibus i f P = P\<lparr>iobuses := (iobuses P)[i - 1 := f (ibus P i)]\<rparr>"

definition upd_obus :: "nat \<Rightarrow> (IOBus \<Rightarrow> IOBus) \<Rightarrow> ('p, 'c) processor \<Rightarrow> ('p, 'c) processor" where
  "upd_obus ob f P = P\<lparr>iobuses := (iobuses P)[output_offset P + (ob - 1) := f (obus P ob)]\<rparr>"

definition is_initialized :: "('p, 'c) processor \<Rightarrow> bool" where
  "is_initialized P \<longleftrightarrow> INITIALIZED \<in> flags P"

definition has_event_input :: "('p, 'c) processor \<Rightarrow> bool" where
  "has_event_input P \<longleftrightarrow> (case estreams P of None \<Rightarrow> False | Some es \<Rightarrow> has_input es)"

definition has_event_output :: "('p, 'c) processor \<Rightarrow> bool" where
  "has_event_output P \<longleftrightarrow> (case estreams P of None \<Rightarrow> False | Some es \<Rightarrow> has_output es)"

definition add_input_bus ::
  "(u32 \<Rightarrow> u32) \<Rightarrow> string \<Rightarrow> SpeakerArrangement \<Rightarrow> string \<Rightarrow> string \<Rightarrow> ('p, 'c) processor \<Rightarrow> nat \<times> ('p, 'c) processor" where
  "add_input_bus lower uilabel sa hints blurb P =
     (if is_initialized P \<or> uilabel = [] \<or> speaker_arrangement_channels sa = 0 \<or> \<not> length (iobuses P) < 65535 \<or>
         n_ibuses P \<noteq> 0 \<and> uilabel = bus_label (ibus P (n_ibuses P)) then (0, P)
      else
        let bus = (new_bus IBUS (string_to_identifier lower uilabel) uilabel sa)\<lparr>bus_hints := hints, bus_blurb := blurb\<rparr>;
            P = P\<lparr>iobuses := insert_at (output_offset P) bus (iobuses P), output_offset := output_offset P + 1\<rparr> in
        (n_ibuses P, P))"

definition add_output_bus ::
  "(u32 \<Rightarrow> u32) \<Rightarrow> string \<Rightarrow> SpeakerArrangement \<Rightarrow> string \<Rightarrow> string \<Rightarrow> ('p, 'c) processor \<Rightarrow> nat \<times> ('p, 'c) processor" where
  "add_output_bus lower uilabel sa hints blurb P =
     (if is_initialized P \<or> uilabel = [] \<or> speaker_arrangement_channels sa = 0 \<or> \<not> length (iobuses P) < 65535 \<or>
         n_obuses P \<noteq> 0 \<and> uilabel = bus_label (obus P (n_obuses P)) then (0, P)
      else
        let bus = (new_bus OBUS (string_to_identifier lower uilabel) uilabel sa)\<lparr>bus_hints := hints, bus_blurb := blurb\<rparr>;
            P = P\<lparr>iobuses := iobuses P @ [bus]\<rparr> in
        (n_obuses P, P))"

text \<open>The searches for a bus compare the identifier with the interned argument.\<close>

definition find_ibus :: "string \<Rightarrow> ('p, 'c) processor \<Rightarrow> nat" where
  "find_ibus name P =
     (if name = [] then 0
      else case find (\<lambda>i. bus_ident (ibus P i) = name) [1..<n_ibuses P + 1] of Some i \<Rightarrow> i | None \<Rightarrow> 0)"

definition find_obus :: "string \<Rightarrow> ('p, 'c) processor \<Rightarrow> nat" where
  "find_obus name P =
     (if name = [] then 0
      else case find (\<lambda>ob. bus_ident (obus P ob) = name) [1..<n_obuses P + 1] of Some ob \<Rightarrow> ob | None \<Rightarrow> 0)"

definition prepare_event_input :: "('p, 'c) processor \<Rightarrow> ('p, 'c) processor" where
  "prepare_event_input P =
     (let es = (case estreams P of
            None \<Rightarrow> \<lparr>es_oproc = None, es_output = [], has_input = False, has_output = False\<rparr> | Some es \<Rightarrow> es) in
      P\<lparr>estreams := Some (es\<lparr>has_input := True\<rparr>)\<rparr>)"

definition prepare_event_output :: "('p, 'c) processor \<Rightarrow> ('p, 'c) processor" where
  "prepare_event_output P =
     (let es = (case estreams P of
            None \<Rightarrow> \<lparr>es_oproc = None, es_output = [], has_input = False, has_output = False\<rparr> | Some es \<Rightarrow> es) in
      P\<lparr>estreams := Some (es\<lparr>has_output := True\<rparr>)\<rparr>)"

subsection \<open>Connections\<close>

text \<open>
  A notification sets the flags of the mask and links the processor into the queue unless it is queued;
  the call is one step.
\<close>

definition enotify_enqueue :: "proc \<Rightarrow> flag set \<Rightarrow> ('p, 'c, 'x) world_scheme \<Rightarrow> ('p, 'c, 'x) world_scheme" where
  "enotify_enqueue p pushmask w =
     (if \<not> has_device (procs w p) then w
      else
        let prev = flags (procs w p); w = upd p (\<lambda>P. P\<lparr>flags := flags P \<union> (pushmask \<inter> NOTIFYMASK)\<rparr>) w in
        if prev = prev \<union> pushmask then w
        else if nqueue_next (procs w p) = Unqueued then
          (upd p (\<lambda>P. P\<lparr>nqueue_next := enotify_head w\<rparr>) w)\<lparr>enotify_head := Qproc p\<rparr>
        else w)"

definition reschedule :: "('p, 'c, 'x) world_scheme \<Rightarrow> ('p, 'c, 'x) world_scheme" where
  "reschedule w = w\<lparr>schedule_invalid := True\<rparr>"

definition erase_output :: "proc \<Rightarrow> nat \<Rightarrow> ('p, 'c) processor \<Rightarrow> ('p, 'c) processor" where
  "erase_output p i Q = Q\<lparr>outputs := snd (erase_first (\<lambda>e. e = (p, i)) (outputs Q))\<rparr>"

definition set_event_source :: "proc option \<Rightarrow> ('p, 'c) processor \<Rightarrow> ('p, 'c) processor" where
  "set_event_source src P = P\<lparr>estreams := map_option (\<lambda>es. es\<lparr>es_oproc := src\<rparr>) (estreams P)\<rparr>"

definition disconnect_event_input :: "proc \<Rightarrow> ('p, 'c, 'x) world_scheme \<Rightarrow> ('p, 'c, 'x) world_scheme" where
  "disconnect_event_input p w =
     (case estreams (procs w p) of
        None \<Rightarrow> w
      | Some es \<Rightarrow>
          (case es_oproc es of
             None \<Rightarrow> w
           | Some q \<Rightarrow>
               if estreams (procs w q) = None then w
               else
                 let backlink = (p, EVENT_ISTREAM) \<in> set (outputs (procs w q));
                     w = reschedule (upd p (set_event_source None) (upd q (erase_output p EVENT_ISTREAM) w)) in
                 if \<not> backlink then w
                 else enotify_enqueue q {BUSDISCONNECT} (enotify_enqueue p {BUSDISCONNECT} w)))"

definition connect_event_input :: "proc \<Rightarrow> proc \<Rightarrow> ('p, 'c, 'x) world_scheme \<Rightarrow> ('p, 'c, 'x) world_scheme" where
  "connect_event_input p q w =
     (if \<not> has_event_input (procs w p) \<or> \<not> has_event_output (procs w q) then w
      else
        let w = (if (case estreams (procs w p) of None \<Rightarrow> False | Some es \<Rightarrow> es_oproc es \<noteq> None)
                 then disconnect_event_input p w else w);
            w = upd p (set_event_source (Some q)) w;
            w = upd q (\<lambda>Q. Q\<lparr>outputs := outputs Q @ [(p, EVENT_ISTREAM)]\<rparr>) w in
        enotify_enqueue q {BUSCONNECT} (enotify_enqueue p {BUSCONNECT} (reschedule w)))"

definition disconnect :: "proc \<Rightarrow> nat \<Rightarrow> ('p, 'c, 'x) world_scheme \<Rightarrow> ('p, 'c, 'x) world_scheme" where
  "disconnect p i w =
     (if i = EVENT_ISTREAM then disconnect_event_input p w
      else if \<not> is_ibus (procs w p) i then w
      else case bus_oproc (ibus (procs w p) i) of
        None \<Rightarrow> w
      | Some q \<Rightarrow>
          let ob = bus_obusid (ibus (procs w p) i) in
          if \<not> is_obus (procs w q) ob \<or> fbuffer_concounter (obus (procs w q) ob) = 0 then w
          else
            let w = upd q (upd_obus ob (\<lambda>bus. bus\<lparr>fbuffer_concounter := fbuffer_concounter bus - 1\<rparr>)) w;
                backlink = (p, i) \<in> set (outputs (procs w q));
                w = upd q (erase_output p i) w;
                w = upd p (upd_ibus i (\<lambda>bus. bus\<lparr>bus_oproc := None, bus_obusid := 0\<rparr>)) w;
                w = reschedule w in
            if \<not> backlink then w
            else enotify_enqueue q {BUSDISCONNECT} (enotify_enqueue p {BUSDISCONNECT} w))"

definition channels_match :: "IOBus \<Rightarrow> IOBus \<Rightarrow> bool" where
  "channels_match ib ob \<longleftrightarrow>
     n_channels ib \<le> n_channels ob \<or> bus_speakers ib = STEREO \<and> bus_speakers ob = MONO"

definition connect :: "proc \<Rightarrow> nat \<Rightarrow> proc \<Rightarrow> nat \<Rightarrow> ('p, 'c, 'x) world_scheme \<Rightarrow> ('p, 'c, 'x) world_scheme" where
  "connect p i q ob w =
     (if \<not> is_ibus (procs w p) i \<or> \<not> is_obus (procs w q) ob then w
      else
        let w = disconnect p i w in
        if \<not> channels_match (ibus (procs w p) i) (obus (procs w q) ob) then w
        else
          let w = upd p (upd_ibus i (\<lambda>bus. bus\<lparr>bus_oproc := Some q, bus_obusid := ob\<rparr>)) w;
              w = upd q (upd_obus ob (\<lambda>bus. bus\<lparr>fbuffer_concounter := fbuffer_concounter bus + 1\<rparr>)) w;
              w = upd q (\<lambda>Q. Q\<lparr>outputs := outputs Q @ [(p, i)]\<rparr>) w in
          enotify_enqueue q {BUSCONNECT} (enotify_enqueue p {BUSCONNECT} (reschedule w)))"

definition disconnect_ibuses :: "proc \<Rightarrow> ('p, 'c, 'x) world_scheme \<Rightarrow> ('p, 'c, 'x) world_scheme" where
  "disconnect_ibuses p w =
     (let w = disconnect p EVENT_ISTREAM w; n = n_ibuses (procs w p) in
      fold (\<lambda>i. disconnect p (1 + i)) [0..<n] (if n \<noteq> 0 then reschedule w else w))"

text \<open>The loop of \<open>disconnect_obuses\<close> ends when the list of outputs is empty.\<close>

partial_function (option) disconnect_loop ::
  "proc \<Rightarrow> ('p, 'c, 'x) world_scheme \<Rightarrow> ('p, 'c, 'x) world_scheme option" where
  "disconnect_loop q w =
     (if outputs (procs w q) = [] then Some w
      else let (p, i) = last (outputs (procs w q)) in disconnect_loop q (disconnect p i w))"

definition disconnect_obuses :: "proc \<Rightarrow> ('p, 'c, 'x) world_scheme \<Rightarrow> ('p, 'c, 'x) world_scheme option" where
  "disconnect_obuses q w =
     (if fbuffers (procs w q) = None then Some w
      else disconnect_loop q (if outputs (procs w q) \<noteq> [] then reschedule w else w))"

definition connected :: "nat \<Rightarrow> ('p, 'c) processor \<Rightarrow> bool" where
  "connected ob P \<longleftrightarrow> is_obus P ob \<and> fbuffer_concounter (obus P ob) \<noteq> 0"

subsection \<open>Channel buffers\<close>

definition release_iobufs :: "proc \<Rightarrow> ('p, 'c, 'x) world_scheme \<Rightarrow> ('p, 'c, 'x) world_scheme option" where
  "release_iobufs p w =
     (case disconnect_obuses p (disconnect_ibuses p w) of
        None \<Rightarrow> None
      | Some w \<Rightarrow>
          Some (upd p (\<lambda>P.
            (fold (\<lambda>ob. upd_obus ob (\<lambda>bus. bus\<lparr>fbuffer_index := None, fbuffer_count := 0\<rparr>)) [1..<n_obuses P + 1] P)
              \<lparr>fbuffers := None\<rparr>) w))"

definition remove_all_buses :: "proc \<Rightarrow> ('p, 'c, 'x) world_scheme \<Rightarrow> ('p, 'c, 'x) world_scheme option" where
  "remove_all_buses p w =
     (case release_iobufs p w of
        None \<Rightarrow> None
      | Some w \<Rightarrow>
          let w = upd p (\<lambda>P. P\<lparr>iobuses := [], output_offset := 0\<rparr>) w in
          Some (case estreams (procs w p) of
              None \<Rightarrow> w
            | Some es \<Rightarrow>
                if es_oproc es \<noteq> None \<or> outputs (procs w p) \<noteq> [] then w
                else reschedule (upd p (\<lambda>P. P\<lparr>estreams := None\<rparr>) w)))"

text \<open>\<open>assign_iobufs\<close>: the channels of the output buses get consecutive buffers, each with its own block.\<close>

fun assign_buses :: "nat \<Rightarrow> nat list \<Rightarrow> ('p, 'c) processor \<Rightarrow> nat \<times> ('p, 'c) processor" where
  "assign_buses ochannel_count [] P = (ochannel_count, P)"
| "assign_buses ochannel_count (ob # obs) P =
     (let P = upd_obus ob (\<lambda>bus. bus\<lparr>fbuffer_index := Some ochannel_count, fbuffer_count := n_channels bus\<rparr>) P in
      assign_buses (ochannel_count + fbuffer_count (obus P ob)) obs P)"

definition assign_iobufs :: "proc \<Rightarrow> ('p, 'c) processor \<Rightarrow> ('p, 'c) processor" where
  "assign_iobufs p P =
     (let (ochannel_count, P) = assign_buses 0 [1..<n_obuses P + 1] P in
      P\<lparr>fbuffers := (if ochannel_count > 0 then Some (map (Fblock p) [0..<ochannel_count]) else None)\<rparr>)"

text \<open>
  The buffer of a channel: its owner and index, or \<open>None\<close> for the constant zero buffer.  \<open>ifloats\<close> and
  \<open>ofloats\<close> are the pointers in it.
\<close>

definition input_buffer :: "nat \<Rightarrow> nat \<Rightarrow> proc \<Rightarrow> ('p, 'c, 'x) world_scheme \<Rightarrow> (proc \<times> nat) option" where
  "input_buffer i channelindex p w =
     (if \<not> is_ibus (procs w p) i then None
      else case bus_oproc (ibus (procs w p) i) of
        None \<Rightarrow> None
      | Some q \<Rightarrow>
          let bus = obus (procs w q) (bus_obusid (ibus (procs w p) i));
              channelindex = (if channelindex \<ge> fbuffer_count bus then fbuffer_count bus - 1 else channelindex) in
          map_option (\<lambda>k. (q, k + channelindex)) (fbuffer_index bus))"

definition output_buffer :: "nat \<Rightarrow> nat \<Rightarrow> proc \<Rightarrow> ('p, 'c, 'x) world_scheme \<Rightarrow> (proc \<times> nat) option" where
  "output_buffer ob channelindex p w =
     (if \<not> is_obus (procs w p) ob \<or> \<not> channelindex < fbuffer_count (obus (procs w p) ob) then None
      else map_option (\<lambda>k. (p, k + channelindex)) (fbuffer_index (obus (procs w p) ob)))"

definition floats_at :: "(proc \<times> nat) option \<Rightarrow> ('p, 'c, 'x) world_scheme \<Rightarrow> float_ptr option" where
  "floats_at b w =
     (case b of
        None \<Rightarrow> Some Zero_buffer
      | Some (q, k) \<Rightarrow> (case fbuffers (procs w q) of None \<Rightarrow> None | Some bufs \<Rightarrow> if k < length bufs then Some (bufs ! k) else None))"

definition ifloats :: "nat \<Rightarrow> nat \<Rightarrow> proc \<Rightarrow> ('p, 'c, 'x) world_scheme \<Rightarrow> float_ptr option" where
  "ifloats i c p w = floats_at (input_buffer i c p w) w"

definition ofloats :: "nat \<Rightarrow> nat \<Rightarrow> proc \<Rightarrow> ('p, 'c, 'x) world_scheme \<Rightarrow> float_ptr option" where
  "ofloats ob c p w = floats_at (output_buffer ob c p w) w"

definition set_buffer :: "(proc \<times> nat) option \<Rightarrow> float_ptr \<Rightarrow> ('p, 'c, 'x) world_scheme \<Rightarrow> ('p, 'c, 'x) world_scheme" where
  "set_buffer b ptr w =
     (case b of None \<Rightarrow> w | Some (q, k) \<Rightarrow> upd q (\<lambda>Q. Q\<lparr>fbuffers := map_option (\<lambda>bufs. bufs[k := ptr]) (fbuffers Q)\<rparr>) w)"

definition redirect_oblock :: "nat \<Rightarrow> nat \<Rightarrow> float_ptr option \<Rightarrow> proc \<Rightarrow> ('p, 'c, 'x) world_scheme \<Rightarrow> ('p, 'c, 'x) world_scheme" where
  "redirect_oblock ob c block p w =
     set_buffer (output_buffer ob c p w) (case block of Some ptr \<Rightarrow> ptr | None \<Rightarrow> Const_float_zeros) w"

text \<open>\<open>oblock\<close> resets a redirection and returns the own block.\<close>

definition oblock :: "nat \<Rightarrow> nat \<Rightarrow> proc \<Rightarrow> ('p, 'c, 'x) world_scheme \<Rightarrow> float_ptr option \<times> ('p, 'c, 'x) world_scheme" where
  "oblock ob c p w =
     (let b = output_buffer ob c p w; w = (case b of None \<Rightarrow> w | Some (q, k) \<Rightarrow> set_buffer b (Fblock q k) w) in
      (floats_at b w, w))"

subsection \<open>Initialization and reset\<close>

definition reset_state ::
  "(proc \<Rightarrow> nat \<Rightarrow> ('p, 'c, 'x) world_scheme \<Rightarrow> ('p, 'c, 'x) world_scheme) \<Rightarrow> nat \<Rightarrow> proc \<Rightarrow>
   ('p, 'c, 'x) world_scheme \<Rightarrow> ('p, 'c, 'x) world_scheme" where
  "reset_state do_reset target_stamp p w =
     (if render_stamp (procs w p) \<noteq> target_stamp then
        let w = upd p (\<lambda>P. P\<lparr>estreams := map_option (\<lambda>es. es\<lparr>es_output := []\<rparr>) (estreams P)\<rparr>) w;
            w = do_reset p target_stamp w in
        upd p (\<lambda>P. P\<lparr>render_stamp := target_stamp\<rparr>) w
      else w)"

text \<open>The virtual \<open>initialize\<close> and \<open>reset\<close> are arguments.\<close>

definition ensure_initialized ::
  "(proc \<Rightarrow> ('p, 'c, 'x) world_scheme \<Rightarrow> ('p, 'c, 'x) world_scheme) \<Rightarrow>
   (proc \<Rightarrow> nat \<Rightarrow> ('p, 'c, 'x) world_scheme \<Rightarrow> ('p, 'c, 'x) world_scheme) \<Rightarrow> bool \<Rightarrow> nat \<Rightarrow> proc \<Rightarrow>
   ('p, 'c, 'x) world_scheme \<Rightarrow> ('p, 'c, 'x) world_scheme" where
  "ensure_initialized initialize do_reset device frame_counter p w =
     (if is_initialized (procs w p) \<or> n_ibuses (procs w p) + n_obuses (procs w p) \<noteq> 0 \<or> has_device (procs w p) then w
      else
        let w = initialize p (upd p (\<lambda>P. P\<lparr>has_device := device\<rparr>) w);
            w = upd p (\<lambda>P. P\<lparr>flags := insert INITIALIZED (flags P)\<rparr>) w in
        reset_state do_reset frame_counter p (upd p (assign_iobufs p) w))"

declare disconnect_loop.simps [code]

subsection \<open>What elementary updates change\<close>

text \<open>
  The links of the graph: the input \<open>i\<close> of a processor comes from an output bus, or with bus 0 from an event
  output.
\<close>

definition link_of :: "('p, 'c) processor \<Rightarrow> nat \<Rightarrow> (proc \<times> nat) option" where
  "link_of P i =
     (if i = EVENT_ISTREAM then (case estreams P of None \<Rightarrow> None | Some es \<Rightarrow> map_option (\<lambda>q. (q, 0)) (es_oproc es))
      else if is_ibus P i then map_option (\<lambda>q. (q, bus_obusid (ibus P i))) (bus_oproc (ibus P i)) else None)"

definition counter_of :: "('p, 'c) processor \<Rightarrow> nat \<Rightarrow> nat" where
  "counter_of P ob = fbuffer_concounter (obus P ob)"

text \<open>What connections leave alone.\<close>

definition shape_of :: "('p, 'c) processor \<Rightarrow> nat \<times> SpeakerArrangement list \<times> (bool \<times> bool) option" where
  "shape_of P = (output_offset P, map bus_speakers (iobuses P), map_option (\<lambda>es. (has_input es, has_output es)) (estreams P))"

named_theorems graph \<open>how updates change links, counters, outputs and shape\<close>

lemma procs_upd [simp]: "procs (upd p f w) q = (if q = p then f (procs w p) else procs w q)"
  by (simp add: upd_def)

lemma procs_reschedule [simp]: "procs (reschedule w) = procs w"
  by (simp add: reschedule_def)

lemma shape_eqD:
  assumes "shape_of P = shape_of Q"
  shows "output_offset P = output_offset Q" "length (iobuses P) = length (iobuses Q)"
    "is_ibus P i = is_ibus Q i" "is_obus P ob = is_obus Q ob" "n_ibuses P = n_ibuses Q" "n_obuses P = n_obuses Q"
    "estreams P = None \<longleftrightarrow> estreams Q = None" "has_event_input P = has_event_input Q"
    "has_event_output P = has_event_output Q"
proof -
  show o: "output_offset P = output_offset Q" and l: "length (iobuses P) = length (iobuses Q)"
    using assms by (auto simp: shape_of_def dest: map_eq_imp_length_eq)
  show "is_ibus P i = is_ibus Q i" "is_obus P ob = is_obus Q ob" "n_ibuses P = n_ibuses Q" "n_obuses P = n_obuses Q"
    by (simp_all add: is_ibus_def is_obus_def n_ibuses_def n_obuses_def o l)
  show "estreams P = None \<longleftrightarrow> estreams Q = None" "has_event_input P = has_event_input Q"
    "has_event_output P = has_event_output Q"
    using assms by (auto simp: shape_of_def has_event_input_def has_event_output_def split: option.splits)
qed

lemma speakers_shape:
  assumes "shape_of P = shape_of Q" and "output_offset Q \<le> length (iobuses Q)"
  shows "is_ibus Q i \<Longrightarrow> bus_speakers (ibus P i) = bus_speakers (ibus Q i)"
    and "is_obus Q ob \<Longrightarrow> bus_speakers (obus P ob) = bus_speakers (obus Q ob)"
proof -
  have eq: "map bus_speakers (iobuses P) = map bus_speakers (iobuses Q)" using assms(1) by (simp add: shape_of_def)
  have nth: "k < length (iobuses Q) \<Longrightarrow> bus_speakers (iobuses P ! k) = bus_speakers (iobuses Q ! k)" for k
    using eq by (metis length_map nth_map)
  show "is_ibus Q i \<Longrightarrow> bus_speakers (ibus P i) = bus_speakers (ibus Q i)"
    using assms(2) by (auto simp: ibus_def is_ibus_def n_ibuses_def intro: nth)
  show "is_obus Q ob \<Longrightarrow> bus_speakers (obus P ob) = bus_speakers (obus Q ob)"
    using assms(2) shape_eqD(1) [OF assms(1)] by (auto simp: obus_def is_obus_def n_obuses_def intro!: nth)
qed

lemma enotify_same [graph]:
  "link_of (procs (enotify_enqueue p m w) q) = link_of (procs w q)"
  "counter_of (procs (enotify_enqueue p m w) q) = counter_of (procs w q)"
  "outputs (procs (enotify_enqueue p m w) q) = outputs (procs w q)"
  "shape_of (procs (enotify_enqueue p m w) q) = shape_of (procs w q)"
  "fbuffers (procs (enotify_enqueue p m w) q) = fbuffers (procs w q)"
  by (auto simp: enotify_enqueue_def Let_def fun_eq_iff link_of_def counter_of_def shape_of_def is_ibus_def n_ibuses_def
      ibus_def obus_def)

lemma erase_output_same [graph]:
  "link_of (erase_output p i Q) = link_of Q" "counter_of (erase_output p i Q) = counter_of Q"
  "outputs (erase_output p i Q) = remove1 (p, i) (outputs Q)" "shape_of (erase_output p i Q) = shape_of Q"
  "estreams (erase_output p i Q) = estreams Q" "fbuffers (erase_output p i Q) = fbuffers Q"
proof -
  have "snd (erase_first (\<lambda>e. e = x) xs) = remove1 x xs" for x :: "proc \<times> nat" and xs
    by (induction xs) (auto simp: case_prod_unfold)
  then show "outputs (erase_output p i Q) = remove1 (p, i) (outputs Q)" by (simp add: erase_output_def)
qed (auto simp: erase_output_def fun_eq_iff link_of_def counter_of_def shape_of_def is_ibus_def n_ibuses_def ibus_def obus_def)

lemma append_output_same [graph]:
  "link_of (Q\<lparr>outputs := xs\<rparr>) = link_of Q" "counter_of (Q\<lparr>outputs := xs\<rparr>) = counter_of Q"
  "shape_of (Q\<lparr>outputs := xs\<rparr>) = shape_of Q"
  by (auto simp: fun_eq_iff link_of_def counter_of_def shape_of_def is_ibus_def n_ibuses_def ibus_def obus_def)

lemma set_event_source_same [graph]:
  "link_of (set_event_source src P) i =
     (if i = EVENT_ISTREAM then (case estreams P of None \<Rightarrow> None | Some es \<Rightarrow> map_option (\<lambda>q. (q, 0)) src) else link_of P i)"
  "counter_of (set_event_source src P) = counter_of P" "outputs (set_event_source src P) = outputs P"
  "shape_of (set_event_source src P) = shape_of P" "fbuffers (set_event_source src P) = fbuffers P"
  by (auto simp: set_event_source_def fun_eq_iff link_of_def counter_of_def shape_of_def is_ibus_def n_ibuses_def
      ibus_def obus_def option.map_comp comp_def split: option.splits)

lemma upd_ibus_same:
  fixes src :: "proc option" and ob :: nat
  assumes i: "is_ibus P i" and off: "output_offset P \<le> length (iobuses P)" "n_ibuses P < EVENT_ISTREAM"
  defines "P' \<equiv> upd_ibus i (\<lambda>bus. bus\<lparr>bus_oproc := src, bus_obusid := ob\<rparr>) P"
  shows "link_of P' j = (if j = i then map_option (\<lambda>q. (q, ob)) src else link_of P j)"
    and "counter_of P' = counter_of P" and "outputs P' = outputs P" and "shape_of P' = shape_of P"
    and "fbuffers P' = fbuffers P" and "estreams P' = estreams P"
proof -
  have k: "i - 1 < length (iobuses P)" "i \<noteq> EVENT_ISTREAM" "i - 1 < output_offset P"
    using i off by (auto simp: is_ibus_def n_ibuses_def)
  have ne: "j - 1 \<noteq> i - 1" if "is_ibus P j" "j \<noteq> i" using that i by (auto simp: is_ibus_def)
  have same: "is_ibus P' j = is_ibus P j" by (simp add: P'_def upd_ibus_def is_ibus_def n_ibuses_def)
  show "link_of P' j = (if j = i then map_option (\<lambda>q. (q, ob)) src else link_of P j)"
    using k i ne unfolding link_of_def same by (auto simp: P'_def upd_ibus_def ibus_def)
  have m: "map bus_speakers ((iobuses P)[i - 1 := (ibus P i)\<lparr>bus_oproc := src, bus_obusid := ob\<rparr>]) = map bus_speakers (iobuses P)"
    using list_update_id [of "map bus_speakers (iobuses P)" "i - 1"] k(1) by (simp add: map_update ibus_def)
  show "counter_of P' = counter_of P" "shape_of P' = shape_of P" "outputs P' = outputs P" "fbuffers P' = fbuffers P"
    "estreams P' = estreams P"
    using k m by (auto simp: P'_def upd_ibus_def counter_of_def obus_def shape_of_def fun_eq_iff)
qed

lemma upd_obus_same:
  fixes f :: "nat \<Rightarrow> nat"
  assumes ob: "is_obus P ob" and off: "output_offset P \<le> length (iobuses P)"
  defines "P' \<equiv> upd_obus ob (\<lambda>bus. bus\<lparr>fbuffer_concounter := f (fbuffer_concounter bus)\<rparr>) P"
  shows "link_of P' = link_of P" and "is_obus P ob' \<Longrightarrow> counter_of P' ob' = (if ob' = ob then f (counter_of P ob) else counter_of P ob')"
    and "outputs P' = outputs P" and "shape_of P' = shape_of P" and "fbuffers P' = fbuffers P" and "estreams P' = estreams P"
proof -
  let ?k = "output_offset P + (ob - 1)"
  have k: "?k < length (iobuses P)" using ob off by (auto simp: is_obus_def n_obuses_def)
  have same: "is_ibus P' j = is_ibus P j" for j by (simp add: P'_def upd_obus_def is_ibus_def n_ibuses_def)
  show "link_of P' = link_of P"
    unfolding link_of_def same fun_eq_iff
    by (auto simp: P'_def upd_obus_def ibus_def is_ibus_def n_ibuses_def)
  show "is_obus P ob' \<Longrightarrow> counter_of P' ob' = (if ob' = ob then f (counter_of P ob) else counter_of P ob')"
    using k ob by (auto simp: P'_def upd_obus_def counter_of_def obus_def is_obus_def)
  have m: "map bus_speakers ((iobuses P)[?k := (obus P ob)\<lparr>fbuffer_concounter := f (fbuffer_concounter (obus P ob))\<rparr>]) =
      map bus_speakers (iobuses P)"
    using list_update_id [of "map bus_speakers (iobuses P)" ?k] k by (simp add: map_update obus_def)
  show "shape_of P' = shape_of P" "outputs P' = outputs P" "fbuffers P' = fbuffers P" "estreams P' = estreams P"
    using k m by (auto simp: P'_def upd_obus_def shape_of_def)
qed

subsection \<open>Consistent links\<close>

definition link :: "('p, 'c, 'x) world_scheme \<Rightarrow> proc \<times> nat \<Rightarrow> (proc \<times> nat) option" where
  "link w e = link_of (procs w (fst e)) (snd e)"

text \<open>
  Every link is a backlink of its source, once; the counter of an output bus is the number of its links; and
  links lead to existing outputs.
\<close>

definition links_ok :: "('p, 'c, 'x) world_scheme \<Rightarrow> bool" where
  "links_ok w \<longleftrightarrow>
     (\<forall>q. distinct (outputs (procs w q)) \<and> (\<forall>e. e \<in> set (outputs (procs w q)) \<longleftrightarrow> (\<exists>ob. link w e = Some (q, ob))) \<and>
        (\<forall>ob. is_obus (procs w q) ob \<longrightarrow>
           counter_of (procs w q) ob = length (filter (\<lambda>e. link w e = Some (q, ob)) (outputs (procs w q)))) \<and>
        output_offset (procs w q) \<le> length (iobuses (procs w q)) \<and> n_ibuses (procs w q) < EVENT_ISTREAM) \<and>
     (\<forall>e q ob. link w e = Some (q, ob) \<longrightarrow>
        (if snd e = EVENT_ISTREAM then ob = 0 \<and> has_event_output (procs w q) \<and> has_event_input (procs w (fst e))
         else is_obus (procs w q) ob))"

lemma links_okI:
  assumes "\<And>q. distinct (outputs (procs w q))"
    and "\<And>q e. e \<in> set (outputs (procs w q)) \<longleftrightarrow> (\<exists>ob. link w e = Some (q, ob))"
    and "\<And>q ob. is_obus (procs w q) ob \<Longrightarrow>
       counter_of (procs w q) ob = length (filter (\<lambda>e. link w e = Some (q, ob)) (outputs (procs w q)))"
    and "\<And>q. output_offset (procs w q) \<le> length (iobuses (procs w q))" "\<And>q. n_ibuses (procs w q) < EVENT_ISTREAM"
    and link: "\<And>e q ob. link w e = Some (q, ob) \<Longrightarrow> snd e \<noteq> EVENT_ISTREAM \<Longrightarrow> is_obus (procs w q) ob"
      "\<And>e q ob. link w e = Some (q, ob) \<Longrightarrow> snd e = EVENT_ISTREAM \<Longrightarrow>
         ob = 0 \<and> has_event_output (procs w q) \<and> has_event_input (procs w (fst e))"
  shows "links_ok w"
  unfolding links_ok_def
proof (intro conjI allI impI)
  fix e q ob assume "link w e = Some (q, ob)"
  then show "if snd e = EVENT_ISTREAM then ob = 0 \<and> has_event_output (procs w q) \<and> has_event_input (procs w (fst e))
      else is_obus (procs w q) ob"
    using link [of e q ob] by (cases "snd e = EVENT_ISTREAM") simp_all
qed (use assms(1-5) in simp_all)

lemma links_okD:
  assumes "links_ok w"
  shows "distinct (outputs (procs w q))" "e \<in> set (outputs (procs w q)) \<longleftrightarrow> (\<exists>ob. link w e = Some (q, ob))"
    "is_obus (procs w q) ob \<Longrightarrow>
       counter_of (procs w q) ob = length (filter (\<lambda>e. link w e = Some (q, ob)) (outputs (procs w q)))"
    "output_offset (procs w q) \<le> length (iobuses (procs w q))" "n_ibuses (procs w q) < EVENT_ISTREAM"
    "link w e = Some (q, ob) \<Longrightarrow> snd e \<noteq> EVENT_ISTREAM \<Longrightarrow> is_obus (procs w q) ob"
    "link w e = Some (q, ob) \<Longrightarrow> snd e = EVENT_ISTREAM \<Longrightarrow>
       ob = 0 \<and> has_event_output (procs w q) \<and> has_event_input (procs w (fst e))"
  using assms unfolding links_ok_def by (meson, meson, meson, meson, meson, meson, meson)

text \<open>Two worlds of one shape, with the links, outputs and counters that a change of one link leads to.\<close>

definition same_shape :: "('p, 'c, 'x) world_scheme \<Rightarrow> ('p, 'c, 'x) world_scheme \<Rightarrow> bool" where
  "same_shape w w' \<longleftrightarrow> (\<forall>p. shape_of (procs w' p) = shape_of (procs w p) \<and> fbuffers (procs w' p) = fbuffers (procs w p))"

definition unlinked :: "proc \<times> nat \<Rightarrow> ('p, 'c, 'x) world_scheme \<Rightarrow> ('p, 'c, 'x) world_scheme \<Rightarrow> bool" where
  "unlinked e w w' \<longleftrightarrow> same_shape w w' \<and> link w' = (link w)(e := None) \<and>
     (\<forall>q. outputs (procs w' q) = remove1 e (outputs (procs w q))) \<and>
     (\<forall>q ob. is_obus (procs w q) ob \<longrightarrow>
        counter_of (procs w' q) ob = counter_of (procs w q) ob - (if link w e = Some (q, ob) then 1 else 0))"

definition linked :: "proc \<times> nat \<Rightarrow> proc \<times> nat \<Rightarrow> ('p, 'c, 'x) world_scheme \<Rightarrow> ('p, 'c, 'x) world_scheme \<Rightarrow> bool" where
  "linked e s w w' \<longleftrightarrow> same_shape w w' \<and> link w' = (link w)(e \<mapsto> s) \<and>
     (\<forall>q. outputs (procs w' q) = outputs (procs w q) @ (if q = fst s then [e] else [])) \<and>
     (\<forall>q ob. is_obus (procs w q) ob \<longrightarrow>
        counter_of (procs w' q) ob = counter_of (procs w q) ob + (if s = (q, ob) then 1 else 0))"

lemma same_shapeD:
  assumes "same_shape w w'"
  shows "is_ibus (procs w' p) = is_ibus (procs w p)" "is_obus (procs w' p) = is_obus (procs w p)"
    "n_ibuses (procs w' p) = n_ibuses (procs w p)" "has_event_input (procs w' p) = has_event_input (procs w p)"
    "has_event_output (procs w' p) = has_event_output (procs w p)" "fbuffers (procs w' p) = fbuffers (procs w p)"
    "output_offset (procs w' p) = output_offset (procs w p)" "length (iobuses (procs w' p)) = length (iobuses (procs w p))"
proof -
  have "shape_of (procs w' p) = shape_of (procs w p)" using assms by (simp add: same_shape_def)
  note s = shape_eqD [OF this]
  show "is_ibus (procs w' p) = is_ibus (procs w p)" "is_obus (procs w' p) = is_obus (procs w p)"
    "n_ibuses (procs w' p) = n_ibuses (procs w p)" "has_event_input (procs w' p) = has_event_input (procs w p)"
    "has_event_output (procs w' p) = has_event_output (procs w p)" "fbuffers (procs w' p) = fbuffers (procs w p)"
    "output_offset (procs w' p) = output_offset (procs w p)" "length (iobuses (procs w' p)) = length (iobuses (procs w p))"
    using s assms by (auto simp: fun_eq_iff same_shape_def)
qed

lemma remove1_filter_count:
  assumes "distinct xs" and "P e \<Longrightarrow> e \<in> set xs"
  shows "length (filter (\<lambda>x. x \<noteq> e \<and> P x) (remove1 e xs)) = length (filter P xs) - (if P e then 1 else 0)"
proof -
  have "filter (\<lambda>x. x \<noteq> e \<and> P x) (remove1 e xs) = remove1 e (filter P xs)"
    using assms(1) by (induction xs) (auto intro: filter_cong)
  then show ?thesis using assms(2) by (auto simp: length_remove1)
qed

lemma unlinked_ok:
  assumes ok: "links_ok w" and u: "unlinked e w w'"
  shows "links_ok w'"
proof -
  have s: "same_shape w w'" and l: "link w' = (link w)(e := None)"
    and o: "\<And>q. outputs (procs w' q) = remove1 e (outputs (procs w q))"
    and c: "\<And>q ob. is_obus (procs w q) ob \<Longrightarrow>
        counter_of (procs w' q) ob = counter_of (procs w q) ob - (if link w e = Some (q, ob) then 1 else 0)"
    using u by (auto simp: unlinked_def)
  note sh = same_shapeD [OF s] and D = links_okD [OF ok]
  have counter: "counter_of (procs w' q) ob = length (filter (\<lambda>x. link w' x = Some (q, ob)) (outputs (procs w' q)))"
    if "is_obus (procs w q) ob" for q ob
  proof -
    have "(\<lambda>x. link w' x = Some (q, ob)) = (\<lambda>x. x \<noteq> e \<and> link w x = Some (q, ob))" by (auto simp: l fun_eq_iff)
    then show ?thesis
      using remove1_filter_count [OF D(1) [of q], of "\<lambda>x. link w x = Some (q, ob)" e] D(2,3) that c [OF that]
      by (auto simp: o)
  qed
  have mem: "x \<in> set (outputs (procs w' q)) \<longleftrightarrow> (\<exists>ob. link w' x = Some (q, ob))" for x q
    using D(1,2) by (auto simp: o l set_remove1_eq)
  show ?thesis unfolding links_ok_def
    using counter mem D(1,4-7) by (auto simp: sh o l distinct_remove1)
qed

lemma linked_ok:
  assumes ok: "links_ok w" and fresh: "link w e = None" and k: "linked e s w w'"
    and dest: "if snd e = EVENT_ISTREAM then snd s = 0 \<and> has_event_output (procs w (fst s)) \<and> has_event_input (procs w (fst e))
      else is_obus (procs w (fst s)) (snd s)"
  shows "links_ok w'"
proof -
  have s: "same_shape w w'" and l: "link w' = (link w)(e \<mapsto> s)"
    and o: "\<And>q. outputs (procs w' q) = outputs (procs w q) @ (if q = fst s then [e] else [])"
    and c: "\<And>q ob. is_obus (procs w q) ob \<Longrightarrow>
        counter_of (procs w' q) ob = counter_of (procs w q) ob + (if s = (q, ob) then 1 else 0)"
    using k by (auto simp: linked_def)
  note sh = same_shapeD [OF s] and D = links_okD [OF ok]
  have new: "e \<notin> set (outputs (procs w q))" for q using D(2) fresh by simp
  have counter: "counter_of (procs w' q) ob = length (filter (\<lambda>x. link w' x = Some (q, ob)) (outputs (procs w' q)))"
    if "is_obus (procs w q) ob" for q ob
  proof -
    have "filter (\<lambda>x. link w' x = Some (q, ob)) (outputs (procs w q)) = filter (\<lambda>x. link w x = Some (q, ob)) (outputs (procs w q))"
      using new [of q] by (intro filter_cong) (auto simp: l)
    then show ?thesis using c [OF that] D(3) [OF that] by (auto simp: o l)
  qed
  have mem: "x \<in> set (outputs (procs w' q)) \<longleftrightarrow> (\<exists>ob. link w' x = Some (q, ob))" for x q
    using D(2) new by (cases s) (auto simp: o l)
  have "distinct (outputs (procs w' q))" for q using D(1) new by (simp add: o)
  moreover have "ob = 0 \<and> has_event_output (procs w q) \<and> has_event_input (procs w (fst x))"
    if "link w' x = Some (q, ob)" "snd x = EVENT_ISTREAM" for x q ob
    using that dest D(7) by (cases s) (auto simp: l split: if_splits)
  moreover have "is_obus (procs w q) ob" if "link w' x = Some (q, ob)" "snd x \<noteq> EVENT_ISTREAM" for x q ob
    using that dest D(6) by (cases s) (auto simp: l split: if_splits)
  ultimately show ?thesis
    by (intro links_okI) (use counter mem D(4,5) in \<open>simp_all add: sh\<close>)
qed

lemma unlinked_refl: "links_ok w \<Longrightarrow> link w e = None \<Longrightarrow> unlinked e w w"
  using links_okD(2) [of w e] by (auto simp: unlinked_def same_shape_def remove1_idem fun_eq_iff)

lemma has_event_streams: "has_event_output P \<Longrightarrow> estreams P \<noteq> None" "has_event_input P \<Longrightarrow> estreams P \<noteq> None"
  by (auto simp: has_event_output_def has_event_input_def split: option.splits)

lemma disconnect_event_unlinked:
  assumes ok: "links_ok w"
  shows "unlinked (p, EVENT_ISTREAM) w (disconnect_event_input p w)"
proof (cases "link w (p, EVENT_ISTREAM)")
  case None
  then have "disconnect_event_input p w = w"
    by (auto simp: disconnect_event_input_def link_def link_of_def split: option.splits)
  then show ?thesis using unlinked_refl [OF ok None] by simp
next
  case (Some s)
  obtain q ob where s: "s = (q, ob)" by (cases s)
  obtain es where es: "estreams (procs w p) = Some es" "es_oproc es = Some q" and ob: "ob = 0"
    using Some by (auto simp: s link_def link_of_def split: option.splits)
  obtain eq where q: "estreams (procs w q) = Some eq"
    using links_okD(7) [OF ok Some [unfolded s]] has_event_streams by fastforce
  have bl: "(p, EVENT_ISTREAM) \<in> set (outputs (procs w q))" using links_okD(2) [OF ok] Some s by auto
  let ?w = "upd p (set_event_source None) (upd q (erase_output p EVENT_ISTREAM) w)"
  have d: "disconnect_event_input p w = enotify_enqueue q {BUSDISCONNECT} (enotify_enqueue p {BUSDISCONNECT} (reschedule ?w))"
    using es q bl by (simp add: disconnect_event_input_def Let_def)
  have others: "(p, EVENT_ISTREAM) \<notin> set (outputs (procs w r))" if "r \<noteq> q" for r
    using links_okD(2) [OF ok] Some s that by auto
  have l: "link_of (set_event_source None P) i = (if i = EVENT_ISTREAM then None else link_of P i)" for P :: "('a, 'b) processor" and i
    by (simp add: graph split: option.splits)
  show ?thesis using others Some
    unfolding unlinked_def same_shape_def d
    by (auto simp: graph link_def s ob fun_eq_iff remove1_idem is_obus_def split: option.splits)
qed

lemma disconnect_unlinked:
  assumes ok: "links_ok w"
  shows "unlinked (p, i) w (disconnect p i w)"
proof (cases "i = EVENT_ISTREAM")
  case True
  then show ?thesis using disconnect_event_unlinked [OF ok] by (simp add: disconnect_def)
next
  case i: False
  show ?thesis
  proof (cases "link w (p, i)")
    case None
    then have "disconnect p i w = w"
      using i by (auto simp: disconnect_def link_def link_of_def split: if_splits option.splits)
    then show ?thesis using unlinked_refl [OF ok None] by simp
  next
    case (Some s)
    obtain q ob where s: "s = (q, ob)" by (cases s)
    have bus: "is_ibus (procs w p) i" "bus_oproc (ibus (procs w p) i) = Some q" "bus_obusid (ibus (procs w p) i) = ob"
      using Some i by (auto simp: s link_def link_of_def split: if_splits)
    have q: "is_obus (procs w q) ob" using links_okD(6) [OF ok Some [unfolded s]] i by simp
    have bl: "(p, i) \<in> set (outputs (procs w q))" using links_okD(2) [OF ok] Some s by auto
    then have "0 < counter_of (procs w q) ob"
      using links_okD(3) [OF ok q] Some s by (auto simp: filter_empty_conv)
    then have count: "fbuffer_concounter (obus (procs w q) ob) \<noteq> 0" by (simp add: counter_of_def)
    define w2 where "w2 = upd q (erase_output p i)
      (upd q (upd_obus ob (\<lambda>bus. bus\<lparr>fbuffer_concounter := fbuffer_concounter bus - 1\<rparr>)) w)"
    let ?f = "\<lambda>bus. bus\<lparr>bus_oproc := None, bus_obusid := 0\<rparr>"
    have others: "(p, i) \<notin> set (outputs (procs w r))" if "r \<noteq> q" for r
      using links_okD(2) [OF ok] Some s that by auto
    note uo = upd_obus_same [OF q links_okD(4) [OF ok], where f = "\<lambda>n. n - 1", unfolded One_nat_def]
    have w2: "link_of (procs w2 r) = link_of (procs w r)" "shape_of (procs w2 r) = shape_of (procs w r)"
      "outputs (procs w2 r) = remove1 (p, i) (outputs (procs w r))" "fbuffers (procs w2 r) = fbuffers (procs w r)"
      "is_obus (procs w r) ob' \<Longrightarrow> counter_of (procs w2 r) ob' =
         counter_of (procs w r) ob' - (if s = (r, ob') then 1 else 0)" for r ob'
      using others [of r] by (cases "r = q"; cases "ob' = ob"; simp add: w2_def graph uo s remove1_idem)+
    have d: "disconnect p i w =
        enotify_enqueue q {BUSDISCONNECT} (enotify_enqueue p {BUSDISCONNECT} (reschedule (upd p (upd_ibus i ?f) w2)))"
      using i bus q count bl unfolding disconnect_def w2_def by (simp add: Let_def uo)
    note sh = shape_eqD [OF w2(2) [of p]]
    have "is_ibus (procs w2 p) i" "output_offset (procs w2 p) \<le> length (iobuses (procs w2 p))"
      "n_ibuses (procs w2 p) < EVENT_ISTREAM" using bus(1) links_okD(4,5) [OF ok] by (simp_all add: sh)
    note ui = upd_ibus_same [OF this, where src = None and ob = 0]
    show ?thesis using Some
      unfolding unlinked_def same_shape_def d
      by (auto simp: graph ui w2 link_def s fun_eq_iff)
  qed
qed

lemma same_shape_trans: "same_shape w w1 \<Longrightarrow> same_shape w1 w2 \<Longrightarrow> same_shape w w2"
  by (simp add: same_shape_def)

lemma same_shape_refl [simp]: "same_shape w w"
  by (simp add: same_shape_def)

text \<open>One operation: it keeps the shape and the consistency, and leads to the links \<open>m\<close>.\<close>

definition leads :: "('p, 'c, 'x) world_scheme \<Rightarrow> (proc \<times> nat \<Rightarrow> (proc \<times> nat) option) \<Rightarrow> ('p, 'c, 'x) world_scheme \<Rightarrow> bool" where
  "leads w m w' \<longleftrightarrow> links_ok w' \<and> same_shape w w' \<and> link w' = m"

lemma leads_refl: "links_ok w \<Longrightarrow> leads w (link w) w"
  by (simp add: leads_def)

lemma unlinked_leads: "links_ok w \<Longrightarrow> unlinked e w w' \<Longrightarrow> leads w ((link w)(e := None)) w'"
  using unlinked_ok [of w e w'] unfolding leads_def by (simp add: unlinked_def)

lemma disconnect_leads: "links_ok w \<Longrightarrow> leads w ((link w)((p, i) := None)) (disconnect p i w)"
  by (rule unlinked_leads) (auto intro: disconnect_unlinked)

lemma connect_event_leads:
  assumes ok: "links_ok w"
  shows "leads w (if has_event_input (procs w p) \<and> has_event_output (procs w q)
      then (link w)((p, EVENT_ISTREAM) \<mapsto> (q, 0)) else link w) (connect_event_input p q w)"
proof (cases "has_event_input (procs w p) \<and> has_event_output (procs w q)")
  case False
  then show ?thesis using leads_refl [OF ok] by (auto simp: connect_event_input_def)
next
  case True
  define w0 where "w0 = disconnect_event_input p w"
  have "leads w ((link w)((p, EVENT_ISTREAM) := None)) w0"
    unfolding w0_def by (rule unlinked_leads [OF ok disconnect_event_unlinked [OF ok]])
  then have w0: "links_ok w0" "same_shape w w0" "link w0 = (link w)((p, EVENT_ISTREAM) := None)" by (auto simp: leads_def)
  have skip: "(if (case estreams (procs w p) of None \<Rightarrow> False | Some es \<Rightarrow> es_oproc es \<noteq> None)
      then disconnect_event_input p w else w) = w0"
    by (auto simp: w0_def disconnect_event_input_def split: option.splits)
  define w1 where "w1 = upd q (\<lambda>Q. Q\<lparr>outputs := outputs Q @ [(p, EVENT_ISTREAM)]\<rparr>) (upd p (set_event_source (Some q)) w0)"
  have c: "connect_event_input p q w = enotify_enqueue q {BUSCONNECT} (enotify_enqueue p {BUSCONNECT} (reschedule w1))"
    using True by (simp add: connect_event_input_def skip w1_def Let_def)
  have ev: "has_event_input (procs w0 p)" "has_event_output (procs w0 q)" using True same_shapeD [OF w0(2)] by auto
  then obtain es where es: "estreams (procs w0 p) = Some es" using has_event_streams by fastforce
  have k: "linked (p, EVENT_ISTREAM) (q, 0) w0 (connect_event_input p q w)"
    unfolding linked_def same_shape_def c w1_def
    by (auto simp: graph link_def fun_eq_iff is_obus_def es)
  have "links_ok (connect_event_input p q w)"
    by (rule linked_ok [OF w0(1) _ k]) (use ev w0(3) in auto)
  then show ?thesis using k True same_shape_trans [OF w0(2)] by (auto simp: leads_def linked_def w0(3))
qed

lemma connect_leads:
  assumes ok: "links_ok w"
  shows "leads w (if \<not> is_ibus (procs w p) i \<or> \<not> is_obus (procs w q) ob then link w
      else if channels_match (ibus (procs w p) i) (obus (procs w q) ob) then (link w)((p, i) \<mapsto> (q, ob))
      else (link w)((p, i) := None)) (connect p i q ob w)"
proof (cases "is_ibus (procs w p) i \<and> is_obus (procs w q) ob")
  case False
  then show ?thesis using leads_refl [OF ok] by (auto simp: connect_def)
next
  case True
  have i: "i \<noteq> EVENT_ISTREAM" using True links_okD(5) [OF ok, of p] by (auto simp: is_ibus_def)
  define w0 where "w0 = disconnect p i w"
  have l0: "leads w ((link w)((p, i) := None)) w0" unfolding w0_def by (rule disconnect_leads [OF ok])
  then have w0: "links_ok w0" "same_shape w w0" "link w0 = (link w)((p, i) := None)" by (auto simp: leads_def)
  note sh = same_shapeD [OF w0(2)]
  have sp: "shape_of (procs w0 r) = shape_of (procs w r)" for r using w0(2) by (simp add: same_shape_def)
  have match: "channels_match (ibus (procs w0 p) i) (obus (procs w0 q) ob) = channels_match (ibus (procs w p) i) (obus (procs w q) ob)"
    using True speakers_shape(1) [OF sp links_okD(4) [OF ok], of p i] speakers_shape(2) [OF sp links_okD(4) [OF ok], of q ob]
    by (simp add: channels_match_def n_channels_def)
  show ?thesis
  proof (cases "channels_match (ibus (procs w p) i) (obus (procs w q) ob)")
    case False
    then have "connect p i q ob w = w0" using True match by (simp add: connect_def w0_def)
    then show ?thesis using l0 True False by simp
  next
    case m: True
    let ?f = "\<lambda>bus. bus\<lparr>bus_oproc := Some q, bus_obusid := ob\<rparr>"
    define w1 where "w1 = upd p (upd_ibus i ?f) w0"
    define w2 where "w2 = upd q (upd_obus ob (\<lambda>bus. bus\<lparr>fbuffer_concounter := fbuffer_concounter bus + 1\<rparr>)) w1"
    define w3 where "w3 = upd q (\<lambda>Q. Q\<lparr>outputs := outputs Q @ [(p, i)]\<rparr>) w2"
    have c: "connect p i q ob w = enotify_enqueue q {BUSCONNECT} (enotify_enqueue p {BUSCONNECT} (reschedule w3))"
      using True m match by (simp add: connect_def w0_def w1_def w2_def w3_def Let_def)
    have "is_ibus (procs w0 p) i" using True sh by simp
    note ui = upd_ibus_same [OF this links_okD(4,5) [OF w0(1)], where src = "Some q" and ob = ob]
    have w1: "link_of (procs w1 r) j = (if r = p \<and> j = i then Some (q, ob) else link_of (procs w0 r) j)"
      "shape_of (procs w1 r) = shape_of (procs w0 r)" "outputs (procs w1 r) = outputs (procs w0 r)"
      "fbuffers (procs w1 r) = fbuffers (procs w0 r)" "counter_of (procs w1 r) = counter_of (procs w0 r)" for r j
      by (auto simp: w1_def ui)
    have qo: "is_obus (procs w1 q) ob" "output_offset (procs w1 q) \<le> length (iobuses (procs w1 q))"
      using True sh links_okD(4) [OF w0(1), of q] by (simp_all add: shape_eqD [OF w1(2)])
    note uo = upd_obus_same [OF qo, where f = "\<lambda>n. n + 1", unfolded Suc_eq_plus1 [symmetric]]
    have obus1: "is_obus (procs w1 q) ob' = is_obus (procs w0 q) ob'" for ob' by (simp add: shape_eqD [OF w1(2)])
    have w3: "link_of (procs w3 r) = link_of (procs w1 r)" "shape_of (procs w3 r) = shape_of (procs w1 r)"
      "outputs (procs w3 r) = outputs (procs w1 r) @ (if r = q then [(p, i)] else [])"
      "fbuffers (procs w3 r) = fbuffers (procs w1 r)" for r
      by (auto simp: w3_def w2_def graph uo)
    have count: "counter_of (procs w3 r) ob' = counter_of (procs w0 r) ob' + (if (q, ob) = (r, ob') then 1 else 0)"
      if "is_obus (procs w0 r) ob'" for r ob'
      using that by (cases "r = q"; cases "ob' = ob") (simp_all add: w3_def w2_def graph uo w1 obus1)
    have k: "linked (p, i) (q, ob) w0 (connect p i q ob w)"
      unfolding linked_def same_shape_def c by (auto simp: graph link_def fun_eq_iff w3 w1 count)
    have "links_ok (connect p i q ob w)"
      by (rule linked_ok [OF w0(1) _ k]) (use i True sh w0(3) in auto)
    then show ?thesis using k True m same_shape_trans [OF w0(2)] by (auto simp: leads_def linked_def w0(3))
  qed
qed

lemma leads_trans:
  assumes "leads w m w1" and "leads w1 m' w2"
  shows "leads w m' w2"
  using assms same_shape_trans [of w w1 w2] by (simp add: leads_def)

lemma leadsD: "leads w m w' \<Longrightarrow> links_ok w'" "leads w m w' \<Longrightarrow> link w' = m" "leads w m w' \<Longrightarrow> same_shape w w'"
  by (simp_all add: leads_def)

lemma leads_reschedule: "leads w m (reschedule w') = leads w m w'"
proof -
  have "link (reschedule w') = link w'" by (simp add: link_def fun_eq_iff)
  then show ?thesis by (simp add: leads_def links_ok_def same_shape_def)
qed

lemma disconnect_fold_leads:
  assumes "links_ok w"
  shows "leads w (\<lambda>e. if fst e = p \<and> snd e \<in> set is then None else link w e) (fold (disconnect p) is w)"
  using assms
proof (induction "is" arbitrary: w)
  case (Cons i "is")
  note d = disconnect_leads [OF Cons.prems, of p i]
  note r = Cons.IH [OF leadsD(1) [OF d]]
  have "(\<lambda>e. if fst e = p \<and> snd e \<in> set is then None else link (disconnect p i w) e) =
      (\<lambda>e. if fst e = p \<and> snd e \<in> set (i # is) then None else link w e)"
    by (auto simp: leadsD(2) [OF d] fun_eq_iff)
  then show ?case using leads_trans [OF d r] by simp
qed (simp add: leads_refl)

lemma disconnect_ibuses_leads:
  assumes ok: "links_ok w"
  shows "leads w (\<lambda>e. if fst e = p then None else link w e) (disconnect_ibuses p w)"
proof -
  define n where "n = n_ibuses (procs w p)"
  note d = disconnect_leads [OF ok, of p EVENT_ISTREAM]
  define w1 where "w1 = (if n \<noteq> 0 then reschedule (disconnect p EVENT_ISTREAM w) else disconnect p EVENT_ISTREAM w)"
  have l1: "leads w ((link w)((p, EVENT_ISTREAM) := None)) w1" using d by (simp add: w1_def leads_reschedule)
  have n1: "n_ibuses (procs (disconnect p EVENT_ISTREAM w) p) = n" using same_shapeD(3) [OF leadsD(3) [OF d]] by (simp add: n_def)
  have "disconnect_ibuses p w = fold (disconnect p) (map (\<lambda>i. 1 + i) [0..<n]) w1"
    by (simp add: disconnect_ibuses_def Let_def n1 w1_def fold_map comp_def)
  moreover have "(\<lambda>e. if fst e = p \<and> snd e \<in> set (map (\<lambda>i. 1 + i) [0..<n]) then None else link w1 e) =
      (\<lambda>e. if fst e = p then None else link w e)"
  proof
    fix e :: "proc \<times> nat"
    have "link w e = None" if "fst e = p" "snd e \<noteq> EVENT_ISTREAM" "snd e \<notin> set (map (\<lambda>i. 1 + i) [0..<n])"
    proof -
      have "\<not> is_ibus (procs w p) (snd e)" using that(3) by (auto simp: is_ibus_def n_def image_iff)
      then show ?thesis using that(1,2) by (simp add: link_def link_of_def)
    qed
    then show "(if fst e = p \<and> snd e \<in> set (map (\<lambda>i. 1 + i) [0..<n]) then None else link w1 e) =
        (if fst e = p then None else link w e)" by (cases e) (auto simp: leadsD(2) [OF l1])
  qed
  ultimately show ?thesis
    using leads_trans [OF l1 disconnect_fold_leads [OF leadsD(1) [OF l1], of p "map (\<lambda>i. 1 + i) [0..<n]"]]
    by (simp only:)
qed

text \<open>The loop ends: each turn removes the last output.\<close>

lemma disconnect_loop_leads:
  assumes "links_ok w"
  shows "\<exists>w'. disconnect_loop q w = Some w' \<and>
    leads w (\<lambda>e. case link w e of Some (r, ob) \<Rightarrow> if r = q then None else Some (r, ob) | None \<Rightarrow> None) w'"
  using assms
proof (induction "length (outputs (procs w q))" arbitrary: w)
  case 0
  have "(\<lambda>e. case link w e of Some (r, ob) \<Rightarrow> if r = q then None else Some (r, ob) | None \<Rightarrow> None) = link w"
    using links_okD(2) [OF 0(2), of _ q] 0(1) by (auto simp: fun_eq_iff split: option.splits)
  then show ?case using 0 leads_refl by (subst disconnect_loop.simps) auto
next
  case (Suc n)
  obtain p i where pi: "last (outputs (procs w q)) = (p, i)" by fastforce
  have ne: "outputs (procs w q) \<noteq> []" using Suc(2) by auto
  then have mem: "(p, i) \<in> set (outputs (procs w q))" using pi last_in_set by metis
  then obtain ob where l: "link w (p, i) = Some (q, ob)" using links_okD(2) [OF Suc(3)] by auto
  have "outputs (procs (disconnect p i w) q) = remove1 (p, i) (outputs (procs w q))"
    using disconnect_unlinked [OF Suc(3)] by (simp add: unlinked_def)
  then have "n = length (outputs (procs (disconnect p i w) q))" using Suc(2) mem by (simp add: length_remove1)
  note d = disconnect_leads [OF Suc(3), of p i]
  obtain w' where w': "disconnect_loop q (disconnect p i w) = Some w'"
      "leads (disconnect p i w) (\<lambda>e. case link (disconnect p i w) e of
         Some (r, ob) \<Rightarrow> if r = q then None else Some (r, ob) | None \<Rightarrow> None) w'"
    using Suc(1) [OF \<open>n = _\<close> leadsD(1) [OF d]] by blast
  have "(\<lambda>e. case link (disconnect p i w) e of Some (r, ob) \<Rightarrow> if r = q then None else Some (r, ob) | None \<Rightarrow> None) =
      (\<lambda>e. case link w e of Some (r, ob) \<Rightarrow> if r = q then None else Some (r, ob) | None \<Rightarrow> None)"
    using l by (auto simp: leadsD(2) [OF d] fun_eq_iff)
  then have "leads w (\<lambda>e. case link w e of Some (r, ob) \<Rightarrow> if r = q then None else Some (r, ob) | None \<Rightarrow> None) w'"
    using leads_trans [OF d w'(2)] by simp
  then show ?case using ne pi w'(1) by (subst disconnect_loop.simps) auto
qed

end
