(* ===== verification/ProcGraph.thy ===== *)
theory ProcGraph
  imports Processor
begin

section \<open>The graph of audio processors\<close>

text \<open>
  Sessions of connecting and disconnecting refine a map of links; the outputs of processors that have no
  audio buffers stay connected; the channels of output buses have buffers of their own.
\<close>

subsection \<open>Sessions of connections\<close>

datatype graph_op =
    Connect proc nat proc nat
  | Connect_events proc proc
  | Disconnect proc nat
  | Disconnect_inputs proc
  | Disconnect_outputs proc

fun graph_step :: "graph_op \<Rightarrow> ('p, 'c, 'x) world_scheme \<Rightarrow> ('p, 'c, 'x) world_scheme option" where
  "graph_step (Connect p i q ob) w = Some (connect p i q ob w)"
| "graph_step (Connect_events p q) w = Some (connect_event_input p q w)"
| "graph_step (Disconnect p i) w = Some (disconnect p i w)"
| "graph_step (Disconnect_inputs p) w = Some (disconnect_ibuses p w)"
| "graph_step (Disconnect_outputs q) w = disconnect_obuses q w"

fun graph_run :: "graph_op list \<Rightarrow> ('p, 'c, 'x) world_scheme \<Rightarrow> ('p, 'c, 'x) world_scheme option" where
  "graph_run [] w = Some w"
| "graph_run (a # as) w = (case graph_step a w of None \<Rightarrow> None | Some w \<Rightarrow> graph_run as w)"

text \<open>The specification: a map from inputs to outputs, with the buses of \<open>w\<close>.\<close>

fun spec_step :: "('p, 'c, 'x) world_scheme \<Rightarrow> graph_op \<Rightarrow> (proc \<times> nat \<Rightarrow> (proc \<times> nat) option) \<Rightarrow>
    (proc \<times> nat \<Rightarrow> (proc \<times> nat) option)" where
  "spec_step w (Connect p i q ob) m =
     (if \<not> is_ibus (procs w p) i \<or> \<not> is_obus (procs w q) ob then m
      else if channels_match (ibus (procs w p) i) (obus (procs w q) ob) then m((p, i) \<mapsto> (q, ob)) else m((p, i) := None))"
| "spec_step w (Connect_events p q) m =
     (if has_event_input (procs w p) \<and> has_event_output (procs w q) then m((p, EVENT_ISTREAM) \<mapsto> (q, 0)) else m)"
| "spec_step w (Disconnect p i) m = m((p, i) := None)"
| "spec_step w (Disconnect_inputs p) m = (\<lambda>e. if fst e = p then None else m e)"
| "spec_step w (Disconnect_outputs q) m =
     (if fbuffers (procs w q) = None then m
      else (\<lambda>e. case m e of Some (r, ob) \<Rightarrow> if r = q then None else Some (r, ob) | None \<Rightarrow> None))"

lemma graph_step_leads:
  assumes ok: "links_ok w"
  shows "\<exists>w'. graph_step a w = Some w' \<and> leads w (spec_step w a (link w)) w'"
proof (cases a)
  case (Disconnect_outputs q)
  define w1 where "w1 = (if outputs (procs w q) \<noteq> [] then reschedule w else w)"
  have l1: "leads w (link w) w1" using leads_refl [OF ok] by (simp add: w1_def leads_reschedule)
  obtain w' where w': "disconnect_loop q w1 = Some w'"
      "leads w1 (\<lambda>e. case link w1 e of Some (r, ob) \<Rightarrow> if r = q then None else Some (r, ob) | None \<Rightarrow> None) w'"
    using disconnect_loop_leads [OF leadsD(1) [OF l1]] by blast
  show ?thesis
    using leads_refl [OF ok] w'(1) leads_trans [OF l1 w'(2)]
    by (simp add: Disconnect_outputs disconnect_obuses_def w1_def [symmetric] leadsD(2) [OF l1])
qed (use connect_leads [OF ok] connect_event_leads [OF ok] disconnect_leads [OF ok] disconnect_ibuses_leads [OF ok] in simp_all)

lemma spec_step_shape:
  assumes "same_shape w w'" and "links_ok w"
  shows "spec_step w' a m = spec_step w a m"
proof -
  have sp: "shape_of (procs w' r) = shape_of (procs w r)" for r using assms(1) by (simp add: same_shape_def)
  have "channels_match (ibus (procs w' p) i) (obus (procs w' q) ob) = channels_match (ibus (procs w p) i) (obus (procs w q) ob)"
    if "is_ibus (procs w p) i" "is_obus (procs w q) ob" for p i q ob
    using that speakers_shape [OF sp links_okD(4) [OF assms(2)]]
    by (simp add: channels_match_def n_channels_def)
  then show ?thesis by (cases a) (auto simp: same_shapeD [OF assms(1)])
qed


text \<open>A world for examples: processor 0 has an output bus, 1 an input bus, the others only events.\<close>

definition sample_proc :: "IOBus list \<Rightarrow> nat \<Rightarrow> (unit, unit) processor" where
  "sample_proc buses offset =
     \<lparr>flags = {INITIALIZED}, output_offset = offset, fbuffers = Some [], iobuses = buses, params = no_params,
      outputs = [], estreams = Some \<lparr>es_oproc = None, es_output = [], has_input = True, has_output = True\<rparr>,
      render_stamp = 0, proc_t0events = None, sched_next = None, nqueue_next = Unqueued, has_device = True, impl = ()\<rparr>"

definition sample_graph :: "(unit, unit) world" where
  "sample_graph =
     \<lparr>procs = (\<lambda>p. if p = 0 then assign_iobufs 0 (sample_proc [new_bus OBUS ''out'' ''Out'' STEREO] 0)
                  else if p = 1 then assign_iobufs 1 (sample_proc [new_bus IBUS ''in'' ''In'' STEREO] 1)
                  else assign_iobufs p (sample_proc [] 0)),
      schedule_invalid = False, enotify_head = Qtail\<rparr>"

lemma sample_graph_links: "link sample_graph e = None"
  by (cases e) (auto simp: sample_graph_def link_def link_of_def sample_proc_def assign_iobufs_def is_ibus_def n_ibuses_def
      n_obuses_def upd_obus_def obus_def ibus_def new_bus_def Let_def case_prod_unfold)

lemma sample_graph_ok: "links_ok sample_graph"
proof (rule links_okI)
  fix q ob
  show "distinct (outputs (procs sample_graph q))"
    "e \<in> set (outputs (procs sample_graph q)) \<longleftrightarrow> (\<exists>ob. link sample_graph e = Some (q, ob))" for e
    by (auto simp: sample_graph_links) (auto simp: sample_graph_def sample_proc_def assign_iobufs_def n_obuses_def
        upd_obus_def obus_def case_prod_unfold Let_def split: if_splits)
  show "output_offset (procs sample_graph q) \<le> length (iobuses (procs sample_graph q))"
    "n_ibuses (procs sample_graph q) < EVENT_ISTREAM"
    by (auto simp: sample_graph_def sample_proc_def assign_iobufs_def n_obuses_def n_ibuses_def EVENT_ISTREAM_def
        upd_obus_def obus_def case_prod_unfold Let_def)
  show "counter_of (procs sample_graph q) ob =
      length (filter (\<lambda>e. link sample_graph e = Some (q, ob)) (outputs (procs sample_graph q)))"
    if "is_obus (procs sample_graph q) ob"
    using that unfolding sample_graph_links
    by (auto simp: sample_graph_def sample_proc_def assign_iobufs_def n_obuses_def is_obus_def counter_of_def new_bus_def
        upd_obus_def obus_def case_prod_unfold Let_def split: if_splits)
qed (simp_all add: sample_graph_links)


lemma fold_upd_obus_same:
  "outputs (fold (\<lambda>ob. upd_obus ob f) obs P) = outputs P" "estreams (fold (\<lambda>ob. upd_obus ob f) obs P) = estreams P"
  by (induction obs arbitrary: P) (simp_all add: upd_obus_def)

text \<open>
  The outputs of a processor without audio buffers are not disconnected: when all its buses are removed,
  as its destructor does, the processors that read its events still refer to it.
\<close>

theorem event_links_survive:
  assumes "links_ok w" and "fbuffers (procs w q) = None" and "link w (p, EVENT_ISTREAM) = Some (q, 0)" and "p \<noteq> q"
  shows "\<exists>w'. remove_all_buses q w = Some w' \<and> link w' (p, EVENT_ISTREAM) = Some (q, 0) \<and>
    estreams (procs w' q) \<noteq> None"
proof -
  define w1 where "w1 = disconnect_ibuses q w"
  have l: "leads w (\<lambda>e. if fst e = q then None else link w e) w1" unfolding w1_def by (rule disconnect_ibuses_leads [OF assms(1)])
  note sh = same_shapeD [OF leadsD(3) [OF l]]
  have "link w1 (p, EVENT_ISTREAM) = Some (q, 0)" using assms(3,4) by (simp add: leadsD(2) [OF l])
  moreover from this have "outputs (procs w1 q) \<noteq> []" using links_okD(2) [OF leadsD(1) [OF l], of "(p, EVENT_ISTREAM)" q] by auto
  moreover have "has_event_output (procs w1 q)"
    using links_okD(7) [OF leadsD(1) [OF l], of "(p, EVENT_ISTREAM)" q 0] calculation(1) by simp
  moreover define w2 where "w2 = upd q (\<lambda>P.
      (fold (\<lambda>ob. upd_obus ob (\<lambda>bus. bus\<lparr>fbuffer_index := None, fbuffer_count := 0\<rparr>)) [1..<n_obuses P + 1] P)
        \<lparr>fbuffers := None\<rparr>) w1"
  have "disconnect_obuses q w1 = Some w1" using assms(2) sh by (simp add: disconnect_obuses_def)
  then have "release_iobufs q w = Some w2" by (simp add: release_iobufs_def w1_def [symmetric] w2_def)
  moreover have "outputs (procs w2 q) = outputs (procs w1 q)" "estreams (procs w2 q) = estreams (procs w1 q)"
    by (simp_all add: w2_def fold_upd_obus_same del: upt_Suc)
  moreover have "procs w2 p = procs w1 p" using assms(4) by (simp add: w2_def)
  ultimately show ?thesis
    using assms(4) has_event_streams [of "procs w1 q"]
    by (auto simp: remove_all_buses_def Let_def link_def link_of_def split: option.splits)
qed

lemma event_links_survive_witness:
  "\<exists>w'. remove_all_buses 2 (connect_event_input 1 2 sample_graph) = Some w' \<and>
     link w' (1, EVENT_ISTREAM) = Some (2, 0) \<and> estreams (procs w' 2) \<noteq> None"
proof -
  let ?w = "connect_event_input 1 2 sample_graph"
  have "has_event_input (procs sample_graph 1)" "has_event_output (procs sample_graph 2)" "fbuffers (procs sample_graph 2) = None"
    by code_simp+
  then have "links_ok ?w" "fbuffers (procs ?w 2) = None" "link ?w (1, EVENT_ISTREAM) = Some (2, 0)"
    using connect_event_leads [OF sample_graph_ok, of 1 2] by (auto simp: leads_def same_shape_def)
  then show ?thesis by (rule event_links_survive) simp
qed

subsection \<open>Buffers of channels\<close>

definition first_buffer :: "('p, 'c) processor \<Rightarrow> nat \<Rightarrow> nat" where
  "first_buffer P ob = (\<Sum>k = 1..<ob. n_channels (obus P k))"

lemma assign_buses_law:
  assumes "output_offset P \<le> length (iobuses P)" and "a + m = n_obuses P + 1" and "0 < a"
    and "assign_buses c [a..<a + m] P = (c', P')"
  shows "c' = c + (\<Sum>k = a..<a + m. n_channels (obus P k)) \<and> output_offset P' = output_offset P \<and>
    length (iobuses P') = length (iobuses P) \<and>
    (\<forall>ob. is_obus P ob \<longrightarrow> obus P' ob = (if ob < a then obus P ob else
       (obus P ob)\<lparr>fbuffer_index := Some (c + (\<Sum>k = a..<ob. n_channels (obus P k))), fbuffer_count := n_channels (obus P ob)\<rparr>))"
  using assms
proof (induction m arbitrary: a c P)
  case 0
  then show ?case by (auto simp: is_obus_def)
next
  case (Suc m)
  let ?Q = "upd_obus a (\<lambda>bus. bus\<lparr>fbuffer_index := Some c, fbuffer_count := n_channels bus\<rparr>) P"
  have a: "is_obus P a" using Suc.prems(2,3) by (auto simp: is_obus_def)
  have len: "output_offset P + (ob - 1) < length (iobuses P)" if "is_obus P ob" for ob
    using that Suc.prems(1) by (auto simp: is_obus_def n_obuses_def)
  have Q: "output_offset ?Q = output_offset P" "length (iobuses ?Q) = length (iobuses P)" "n_obuses ?Q = n_obuses P"
    "is_obus ?Q ob = is_obus P ob" for ob
    by (simp_all add: upd_obus_def n_obuses_def is_obus_def)
  have obus: "obus ?Q ob = (if ob = a then (obus P a)\<lparr>fbuffer_index := Some c, fbuffer_count := n_channels (obus P a)\<rparr> else obus P ob)"
    if "is_obus P ob" for ob
    using len [OF that] that a by (auto simp: upd_obus_def obus_def is_obus_def)
  have chan: "n_channels (obus ?Q ob) = n_channels (obus P ob)" if "is_obus P ob" for ob
    using obus [OF that] by (simp add: n_channels_def)
  have in_range: "is_obus P k" if "k \<in> {Suc a..<Suc a + m}" for k
    using that Suc.prems(2) by (auto simp: is_obus_def)
  have sums: "(\<Sum>k = Suc a..<ob. n_channels (obus ?Q k)) = (\<Sum>k = Suc a..<ob. n_channels (obus P k))" if "ob \<le> Suc a + m" for ob
    using that by (intro sum.cong refl chan in_range) auto
  have r: "assign_buses (c + n_channels (obus P a)) [Suc a..<Suc a + m] ?Q = (c', P')"
    using Suc.prems(4) obus [OF a] by (simp add: upt_rec Let_def)
  note IH = Suc.IH [OF _ _ _ r]
  have "(\<Sum>k = a..<a + Suc m. n_channels (obus P k)) = n_channels (obus P a) + (\<Sum>k = Suc a..<Suc a + m. n_channels (obus P k))"
    by (simp add: sum.atLeast_Suc_lessThan)
  moreover have "(\<Sum>k = a..<ob. n_channels (obus P k)) = n_channels (obus P a) + (\<Sum>k = Suc a..<ob. n_channels (obus P k))"
    if "a < ob" for ob
    using that by (simp add: sum.atLeast_Suc_lessThan)
  moreover have "is_obus P ob \<Longrightarrow> ob \<le> Suc a + m" for ob using Suc.prems(2) by (auto simp: is_obus_def)
  ultimately show ?case
    using IH Suc.prems(1-3) Q obus chan sums [of "Suc a + m"] sums by (auto simp: less_Suc_eq not_less)
qed

text \<open>
  Every channel of every output bus has a buffer of its own, within the allocated ones and with its own
  block, and no two channels share one.
\<close>

theorem channels_have_buffers:
  assumes "output_offset P \<le> length (iobuses P)"
  shows "\<forall>ob c. is_obus P ob \<and> c < n_channels (obus P ob) \<longrightarrow>
    fbuffer_count (obus (assign_iobufs p P) ob) = n_channels (obus P ob) \<and>
    (\<exists>k bufs. fbuffer_index (obus (assign_iobufs p P) ob) = Some k \<and> fbuffers (assign_iobufs p P) = Some bufs \<and>
       k + c < length bufs \<and> bufs ! (k + c) = Fblock p (k + c) \<and>
       (\<forall>ob' c' k'. is_obus P ob' \<and> c' < n_channels (obus P ob') \<and> fbuffer_index (obus (assign_iobufs p P) ob') = Some k' \<and>
          k + c = k' + c' \<longrightarrow> ob = ob' \<and> c = c'))"
proof -
  obtain n Q where a: "assign_buses 0 [1..<n_obuses P + 1] P = (n, Q)" by fastforce
  have law: "n = first_buffer P (n_obuses P + 1)" "output_offset Q = output_offset P"
    "is_obus P ob \<Longrightarrow> obus Q ob = (obus P ob)\<lparr>fbuffer_index := Some (first_buffer P ob), fbuffer_count := n_channels (obus P ob)\<rparr>" for ob
    using assign_buses_law [OF assms, of 1 "n_obuses P" 0 n Q] a by (auto simp: first_buffer_def is_obus_def)
  have step: "first_buffer P ob + n_channels (obus P ob) \<le> first_buffer P ob'" if "0 < ob" "ob < ob'" for ob ob'
  proof -
    have "first_buffer P ob + n_channels (obus P ob) = (\<Sum>k = 1..<Suc ob. n_channels (obus P k))"
      using that(1) by (simp add: first_buffer_def)
    also have "\<dots> \<le> first_buffer P ob'" unfolding first_buffer_def using that by (intro sum_mono2) auto
    finally show ?thesis .
  qed
  define R where "R = assign_iobufs p P"
  have R: "obus R ob = obus Q ob" "fbuffers R = (if n > 0 then Some (map (Fblock p) [0..<n]) else None)" for ob
    using a law(2) by (simp_all add: R_def assign_iobufs_def obus_def)
  have below: "first_buffer P ob + c < n" if "is_obus P ob" "c < n_channels (obus P ob)" for ob c
  proof -
    have "0 < ob" "ob < n_obuses P + 1" using that(1) by (auto simp: is_obus_def)
    from step [OF this] show ?thesis using that(2) law(1) by simp
  qed
  have inj: "ob = ob' \<and> c = c'" if "is_obus P ob" "c < n_channels (obus P ob)" "is_obus P ob'" "c' < n_channels (obus P ob')"
      "first_buffer P ob + c = first_buffer P ob' + c'" for ob c ob' c'
    using that step [of ob ob'] step [of ob' ob] by (cases ob ob' rule: linorder_cases) (auto simp: is_obus_def)
  show ?thesis
    unfolding R_def [symmetric] using below inj by (fastforce simp: R law(3))
qed

lemma channels_have_buffers_witness:
  "\<exists>k bufs. fbuffer_index (obus (assign_iobufs 4 (sample_proc [new_bus OBUS ''a'' ''A'' MONO, new_bus OBUS ''b'' ''B'' STEREO] 0)) 2) = Some k \<and>
     fbuffers (assign_iobufs 4 (sample_proc [new_bus OBUS ''a'' ''A'' MONO, new_bus OBUS ''b'' ''B'' STEREO] 0)) = Some bufs \<and> k + 1 < length bufs"
proof -
  let ?P = "sample_proc [new_bus OBUS ''a'' ''A'' MONO, new_bus OBUS ''b'' ''B'' STEREO] 0"
  have "output_offset ?P \<le> length (iobuses ?P)" "is_obus ?P 2 \<and> 1 < n_channels (obus ?P 2)" by code_simp+
  then show ?thesis using channels_have_buffers [of ?P 4] by blast
qed

end
