(* ===== verification/AudioChain.thy ===== *)
theory AudioChain
  imports ProcGraph
begin

section \<open>Chains of audio processors (ase/combo.hh, ase/combo.cc)\<close>

text \<open>
  An \<open>AudioChain\<close> keeps a list of processors and connects neighbours; its inlet is a processor that hands the
  input of the chain to the first of them.  The field \<open>impl\<close> of a processor says which class it has; a
  processor of any other class has state of type \<open>'d\<close>.  The methods of a chain are called on processors with
  \<open>Chain\<close>.  The two probes hold levels of sound pressure, computed from a block of samples by the argument
  \<open>dbspl\<close>.
\<close>

subsection \<open>State\<close>

record audio_chain =
  processors :: "proc list"
  eproc :: "proc option"
  ispeakers :: SpeakerArrangement
  ospeakers :: SpeakerArrangement
  inlet :: proc
  last_output :: "proc option"
  probes :: "real list"
  probes_enabled :: bool

datatype 'd kind = Inlet proc | Chain audio_chain | Other 'd

type_synonym ('p, 'd, 'x) chains = "('p, 'd kind, 'x) world_scheme"

definition new_chain :: "SpeakerArrangement \<Rightarrow> proc \<Rightarrow> audio_chain" where
  "new_chain iospeakers inlet0 =
     \<lparr>processors = [], eproc = None, ispeakers = iospeakers, ospeakers = iospeakers, inlet = inlet0, last_output = None,
      probes = [-192, -192], probes_enabled = False\<rparr>"

definition the_chain :: "proc \<Rightarrow> ('p, 'd, 'x) chains \<Rightarrow> audio_chain" where
  "the_chain a w = (case impl (procs w a) of Chain c \<Rightarrow> c | _ \<Rightarrow> new_chain NONE a)"

definition upd_chain :: "proc \<Rightarrow> (audio_chain \<Rightarrow> audio_chain) \<Rightarrow> ('p, 'd, 'x) chains \<Rightarrow> ('p, 'd, 'x) chains" where
  "upd_chain a f w = upd a (\<lambda>P. P\<lparr>impl := Chain (f (the_chain a w))\<rparr>) w"

subsection \<open>The list of processors\<close>

definition chain_at :: "nat \<Rightarrow> audio_chain \<Rightarrow> proc option" where
  "chain_at n c = (if n < length (processors c) then Some (processors c ! n) else None)"

text \<open>\<open>find_pos\<close> gives \<open>~0\<close>, which is -1 as a \<open>ssize_t\<close>, for a processor that is not in the list.\<close>

fun index_of :: "('e \<Rightarrow> bool) \<Rightarrow> 'e list \<Rightarrow> int" where
  "index_of P [] = -1"
| "index_of P (x # xs) = (if P x then 0 else let i = index_of P xs in if i = -1 then -1 else 1 + i)"

definition find_pos :: "proc \<Rightarrow> audio_chain \<Rightarrow> int" where
  "find_pos p c = index_of (\<lambda>q. q = p) (processors c)"

definition set_chain_source :: "proc option \<Rightarrow> proc \<Rightarrow> ('p, 'd, 'x) chains \<Rightarrow> ('p, 'd, 'x) chains" where
  "set_chain_source e a w =
     (case e of
        Some q \<Rightarrow> if has_event_output (procs w q) then upd_chain a (\<lambda>c. c\<lparr>eproc := e\<rparr>) w else w
      | None \<Rightarrow> upd_chain a (\<lambda>c. c\<lparr>eproc := e\<rparr>) w)"

subsection \<open>Connecting neighbours\<close>

definition speakers_fit :: "SpeakerArrangement \<Rightarrow> SpeakerArrangement \<Rightarrow> bool" where
  "speakers_fit ispa ospa \<longleftrightarrow> ispa AND NOT ospa = 0 \<or> ospa = MONO \<and> ispa = STEREO"

definition chain_up :: "proc \<Rightarrow> proc \<Rightarrow> proc \<Rightarrow> ('p, 'd, 'x) chains \<Rightarrow> nat \<times> ('p, 'd, 'x) chains" where
  "chain_up a prev next w =
     (if a = prev \<or> a = next then (0, w)
      else
        let ni = n_ibuses (procs w next); no = n_obuses (procs w prev);
            w = (case eproc (the_chain a w) of
                   None \<Rightarrow> w
                 | Some e \<Rightarrow>
                     let w = (if has_event_input (procs w prev) then connect_event_input prev e w else w) in
                     if has_event_input (procs w next) then connect_event_input next e w else w) in
        if ni = 0 \<or> no = 0 then (0, w)
        else
          let ospa = speaker_arrangement_channels (bus_speakers (obus (procs w prev) 1));
              ispa = speaker_arrangement_channels (bus_speakers (ibus (procs w next) 1)) in
          if speakers_fit ispa ospa then (speaker_arrangement_count_channels ispa, connect next 1 prev 1 w)
          else (0, w))"

definition predecessor :: "audio_chain \<Rightarrow> nat \<Rightarrow> proc" where
  "predecessor c i = (if i \<noteq> 0 then processors c ! (i - 1) else inlet c)"

definition reconnect :: "nat \<Rightarrow> proc \<Rightarrow> ('p, 'd, 'x) chains \<Rightarrow> ('p, 'd, 'x) chains" where
  "reconnect start a w =
     (let c = the_chain a w; positions = [start..<length (processors c)];
          w = fold (\<lambda>i. disconnect_ibuses (processors c ! i)) positions w in
      fold (\<lambda>i w. snd (chain_up a (predecessor c i) (processors c ! i) w)) positions w)"

text \<open>
  \<open>insert\<close> and \<open>remove\<close>.  A position of -1 stands for the end; other positions are clamped.  \<open>None\<close> means that
  the disconnection of the outputs does not return.
\<close>

definition insert_proc :: "proc \<Rightarrow> int \<Rightarrow> proc \<Rightarrow> ('p, 'd, 'x) chains \<Rightarrow> ('p, 'd, 'x) chains" where
  "insert_proc p pos a w =
     (let size = length (processors (the_chain a w));
          pos = (if pos = -1 then int size else pos);
          start = (if pos < 0 then 0 else if pos > int size then size else nat pos);
          w = upd_chain a (\<lambda>c. c\<lparr>processors := insert_at start p (processors c)\<rparr>) w in
      enotify_enqueue a {INSERTION} (reschedule (reconnect start a w)))"

definition remove_proc :: "proc \<Rightarrow> proc \<Rightarrow> ('p, 'd, 'x) chains \<Rightarrow> (bool \<times> ('p, 'd, 'x) chains) option" where
  "remove_proc p a w =
     (let pos = find_pos p (the_chain a w) in
      if pos = -1 then Some (False, w)
      else
        let pos = nat pos;
            w = upd_chain a (\<lambda>c. c\<lparr>processors := take pos (processors c) @ drop (pos + 1) (processors c)\<rparr>) w in
        case disconnect_obuses p (disconnect_ibuses p w) of
          None \<Rightarrow> None
        | Some w \<Rightarrow> Some (True, reschedule (enotify_enqueue a {REMOVAL} (reconnect pos a w))))"

subsection \<open>Construction and rendering\<close>

definition chain_initialize :: "(u32 \<Rightarrow> u32) \<Rightarrow> audio_chain \<Rightarrow> ('p, 'd kind) processor \<Rightarrow> ('p, 'd kind) processor" where
  "chain_initialize lower c P =
     snd (add_output_bus lower ''Output'' (ospeakers c) [] []
       (snd (add_input_bus lower ''Input'' (ispeakers c) [] [] P)))"

definition inlet_initialize ::
  "(u32 \<Rightarrow> u32) \<Rightarrow> proc \<Rightarrow> ('p, 'd, 'x) chains \<Rightarrow> ('p, 'd, 'x) chains option" where
  "inlet_initialize lower p w =
     (case impl (procs w p) of
        Inlet a \<Rightarrow>
          (case remove_all_buses p w of
             None \<Rightarrow> None
           | Some w \<Rightarrow> Some (upd p (\<lambda>P. snd (add_output_bus lower ''Output'' (ispeakers (the_chain a w)) [] [] P)) w))
      | _ \<Rightarrow> Some w)"

definition n_ichannels :: "nat \<Rightarrow> ('p, 'c) processor \<Rightarrow> nat" where
  "n_ichannels i P = n_channels (ibus P i)"

definition n_ochannels :: "nat \<Rightarrow> ('p, 'c) processor \<Rightarrow> nat" where
  "n_ochannels ob P = n_channels (obus P ob)"

text \<open>
  Rendering redirects the output blocks: the inlet to the input of its chain, a chain to the output of the last
  processor.  A read outside of a list of buffers is \<open>None\<close>.
\<close>

definition inlet_render :: "proc \<Rightarrow> ('p, 'd, 'x) chains \<Rightarrow> ('p, 'd, 'x) chains option" where
  "inlet_render p w =
     (case impl (procs w p) of
        Inlet a \<Rightarrow>
          let ni = n_ichannels 1 (procs w a); no = n_ochannels 1 (procs w p) in
          if ni \<noteq> no then Some w
          else fold (\<lambda>i w. Option.bind w (\<lambda>w.
                 map_option (\<lambda>block. redirect_oblock 1 i (Some block) p w) (ifloats 1 i a w))) [0..<ni] (Some w)
      | _ \<Rightarrow> Some w)"

definition set_probe :: "nat \<Rightarrow> real \<Rightarrow> proc \<Rightarrow> ('p, 'd, 'x) chains \<Rightarrow> ('p, 'd, 'x) chains" where
  "set_probe k v a = upd_chain a (\<lambda>c. c\<lparr>probes := (probes c)[k := v]\<rparr>)"

definition chain_render ::
  "(float_ptr \<Rightarrow> real) \<Rightarrow> proc \<Rightarrow> ('p, 'd, 'x) chains \<Rightarrow> ('p, 'd, 'x) chains option" where
  "chain_render dbspl a w =
     (let n_och = n_ochannels 1 (procs w a); last_out = last_output (the_chain a w);
          nlastchannels = (case last_out of Some q \<Rightarrow> n_ochannels 1 (procs w q) | None \<Rightarrow> 0) in
      fold (\<lambda>k w. Option.bind w (\<lambda>w.
        case last_out of
          None \<Rightarrow>
            let w = redirect_oblock 1 k None a w in
            Some (if n_och \<le> 2 then set_probe k (-192) a w else w)
        | Some q \<Rightarrow>
            map_option (\<lambda>cblock.
              let w = redirect_oblock 1 k (Some cblock) a w in
              if n_och \<le> 2 then set_probe k (dbspl cblock) a w else w)
              (ofloats 1 (min k (nlastchannels - 1)) q w))) [0..<n_och] (Some w))"

definition run_probes :: "bool \<Rightarrow> audio_chain \<Rightarrow> real list option \<times> audio_chain" where
  "run_probes enable c =
     (let c = (if enable \<and> \<not> probes_enabled c then c\<lparr>probes := map (\<lambda>_. -192) (probes c)\<rparr> else c);
          c = c\<lparr>probes_enabled := enable\<rparr> in
      (if probes_enabled c then Some (probes c) else None, c))"


subsection \<open>What connections leave alone\<close>

lemma impl_fields [simp]:
  "impl (erase_output p i Q) = impl Q" "impl (upd_ibus i f Q) = impl Q" "impl (upd_obus i f Q) = impl Q"
  "impl (set_event_source s Q) = impl Q"
  by (simp_all add: erase_output_def upd_ibus_def upd_obus_def set_event_source_def)

lemma impl_enotify [simp]: "impl (procs (enotify_enqueue p m w) q) = impl (procs w q)"
  by (simp add: enotify_enqueue_def Let_def)

lemma impl_disconnect_event [simp]: "impl (procs (disconnect_event_input p w) q) = impl (procs w q)"
  by (simp add: disconnect_event_input_def Let_def split: option.split)

lemma impl_disconnect [simp]: "impl (procs (disconnect p i w) q) = impl (procs w q)"
  by (simp add: disconnect_def Let_def split: option.split)

lemma impl_connect [simp]: "impl (procs (connect p i q ob w) r) = impl (procs w r)"
  by (simp add: connect_def Let_def)

lemma impl_connect_event [simp]: "impl (procs (connect_event_input p q w) r) = impl (procs w r)"
  by (simp add: connect_event_input_def Let_def)

lemma impl_disconnect_fold [simp]: "impl (procs (fold (\<lambda>i. disconnect p (Suc i)) is w) q) = impl (procs w q)"
  by (induction "is" arbitrary: w) simp_all

lemma impl_disconnect_ibuses [simp]: "impl (procs (disconnect_ibuses p w) q) = impl (procs w q)"
  by (simp add: disconnect_ibuses_def Let_def)

lemma impl_disconnect_loop:
  assumes "disconnect_loop p w = Some w'"
  shows "impl (procs w' q) = impl (procs w q)"
proof -
  have "\<forall>q. impl (procs w' q) = impl (procs w q)"
    by (rule disconnect_loop.raw_induct [where P = "\<lambda>p w w'. \<forall>q. impl (procs w' q) = impl (procs w q)", OF _ assms])
      (auto split: if_splits prod.splits)
  then show ?thesis by simp
qed

lemma impl_disconnect_obuses: "disconnect_obuses p w = Some w' \<Longrightarrow> impl (procs w' q) = impl (procs w q)"
  by (auto simp: disconnect_obuses_def dest: impl_disconnect_loop [where q = q] split: if_splits)

lemma the_chain_cong: "(\<And>q. impl (procs w' q) = impl (procs w q)) \<Longrightarrow> the_chain a w' = the_chain a w"
  by (simp add: the_chain_def)

lemma impl_chain_up [simp]: "impl (procs (snd (chain_up a prev next w)) q) = impl (procs w q)"
  by (simp add: chain_up_def Let_def split: option.split)

lemma upd_chain_same [simp]:
  "link_of (procs (upd_chain a f w) q) = link_of (procs w q)"
  "counter_of (procs (upd_chain a f w) q) = counter_of (procs w q)"
  "outputs (procs (upd_chain a f w) q) = outputs (procs w q)"
  "shape_of (procs (upd_chain a f w) q) = shape_of (procs w q)"
  "fbuffers (procs (upd_chain a f w) q) = fbuffers (procs w q)"
  "the_chain a (upd_chain a f w) = f (the_chain a w)"
  by (auto simp: upd_chain_def fun_eq_iff link_of_def counter_of_def shape_of_def is_ibus_def n_ibuses_def ibus_def
      obus_def the_chain_def)


lemma link_upd_chain [simp]: "link (upd_chain a f w) = link w"
  by (simp add: link_def fun_eq_iff)

lemma same_shape_upd_chain [simp]: "same_shape w (upd_chain a f w)"
  by (simp add: same_shape_def)

lemma links_ok_upd_chain [simp]: "links_ok w \<Longrightarrow> links_ok (upd_chain a f w)"
proof -
  assume ok: "links_ok w"
  note sh = same_shapeD [OF same_shape_upd_chain [of w a f]]
  show ?thesis
    by (rule links_okI) (use links_okD [OF ok] in \<open>auto simp: sh\<close>)
qed

lemma leads_enotify [simp]: "leads w m (enotify_enqueue p f w') = leads w m w'"
proof -
  have "link (enotify_enqueue p f w') = link w'" by (simp add: link_def fun_eq_iff graph)
  moreover have "links_ok (enotify_enqueue p f w') = links_ok w'"
  proof -
    have "same_shape w' (enotify_enqueue p f w')" by (simp add: same_shape_def graph)
    note sh = same_shapeD [OF this]
    show ?thesis by (simp add: links_ok_def calculation graph sh)
  qed
  ultimately show ?thesis by (simp add: leads_def same_shape_def graph)
qed

subsection \<open>When two processors are joined\<close>

lemma popcount_mono:
  assumes "v AND NOT w = 0"
  shows "popcount v \<le> popcount w"
proof -
  have "bit w i" if "bit v i" for i
  proof -
    have "bit (v AND NOT w) i \<longleftrightarrow> bit v i \<and> \<not> bit w i"
      using bit_imp_le_length [OF that] by (simp add: bit_simps)
    then show ?thesis using assms that by simp
  qed
  then show ?thesis by (simp add: popcount_def length_filter_conv_card) (rule card_mono; auto)
qed

text \<open>
  The contract of \<open>chain_up\<close>: the channels of the input are among those of the output, or a mono output feeds
  a stereo input.
\<close>

definition can_join :: "('p, 'c) processor \<Rightarrow> ('p, 'c) processor \<Rightarrow> bool" where
  "can_join P N \<longleftrightarrow> 0 < n_ibuses N \<and> 0 < n_obuses P \<and>
     (let i = bus_speakers (ibus N 1); out = bus_speakers (obus P 1) in
      speaker_arrangement_channels i AND NOT (speaker_arrangement_channels out) = 0 \<or> i = STEREO \<and> out = MONO)"

lemma count_channels_bits:
  "speaker_arrangement_channels sa = MONO \<Longrightarrow> speaker_arrangement_count_channels sa = 1"
  "speaker_arrangement_channels sa = STEREO \<Longrightarrow> speaker_arrangement_count_channels sa = 2"
proof -
  have "popcount MONO = 1" "popcount STEREO = 2" by code_simp+
  then show "speaker_arrangement_channels sa = MONO \<Longrightarrow> speaker_arrangement_count_channels sa = 1"
    "speaker_arrangement_channels sa = STEREO \<Longrightarrow> speaker_arrangement_count_channels sa = 2"
    by (simp_all add: speaker_arrangement_count_channels_def)
qed

lemma can_join_iff:
  "can_join P N \<longleftrightarrow> 0 < n_ibuses N \<and> 0 < n_obuses P \<and>
     speakers_fit (speaker_arrangement_channels (bus_speakers (ibus N 1))) (speaker_arrangement_channels (bus_speakers (obus P 1))) \<and>
     channels_match (ibus N 1) (obus P 1)"
proof -
  define i out where io: "i = bus_speakers (ibus N 1)" "out = bus_speakers (obus P 1)"
  have sub: "n_channels (ibus N 1) \<le> n_channels (obus P 1)"
    if "speaker_arrangement_channels i AND NOT (speaker_arrangement_channels out) = 0"
    using popcount_mono [OF that] by (simp add: n_channels_def speaker_arrangement_count_channels_def io)
  have sm: "speaker_arrangement_channels STEREO = STEREO" "speaker_arrangement_channels MONO = MONO" by code_simp+
  have raw: "i = STEREO \<and> out = MONO"
    if "speaker_arrangement_channels out = MONO" "speaker_arrangement_channels i = STEREO" "channels_match (ibus N 1) (obus P 1)"
    using that count_channels_bits [of i] count_channels_bits [of out] by (auto simp: channels_match_def n_channels_def io)
  show ?thesis
    using sub sm raw unfolding can_join_def speakers_fit_def io [symmetric] Let_def
    by (auto simp: channels_match_def io)
qed

lemma can_join_shape:
  assumes "same_shape w w'" and "links_ok w"
  shows "can_join (procs w' p) (procs w' q) = can_join (procs w p) (procs w q)"
proof -
  have sp: "shape_of (procs w' r) = shape_of (procs w r)" for r using assms(1) by (simp add: same_shape_def)
  have "is_ibus (procs w q) 1 \<Longrightarrow> bus_speakers (ibus (procs w' q) 1) = bus_speakers (ibus (procs w q) 1)"
    "is_obus (procs w p) 1 \<Longrightarrow> bus_speakers (obus (procs w' p) 1) = bus_speakers (obus (procs w p) 1)"
    using speakers_shape [OF sp links_okD(4) [OF assms(2)]] by blast+
  then show ?thesis
    using shape_eqD(5,6) [OF sp] by (auto simp: can_join_def is_ibus_def is_obus_def)
qed

definition event_link :: "proc option \<Rightarrow> proc \<Rightarrow> ('p, 'c, 'x) world_scheme \<Rightarrow> (proc \<times> nat) option" where
  "event_link e p w = (case e of
     Some q \<Rightarrow> if has_event_input (procs w p) \<and> has_event_output (procs w q) then Some (q, 0) else None | None \<Rightarrow> None)"

lemma event_link_shape: "same_shape w w' \<Longrightarrow> event_link e p w' = event_link e p w"
  by (simp add: event_link_def same_shapeD split: option.split)

lemma join_events_leads:
  assumes "links_ok w"
  shows "leads w (\<lambda>x. if x = (p, EVENT_ISTREAM) \<and> event_link (Some e) p w \<noteq> None then Some (e, 0) else link w x)
    (if has_event_input (procs w p) then connect_event_input p e w else w)"
proof (cases "has_event_input (procs w p)")
  case True
  have "(if has_event_input (procs w p) \<and> has_event_output (procs w e) then (link w)((p, EVENT_ISTREAM) \<mapsto> (e, 0)) else link w) =
      (\<lambda>x. if x = (p, EVENT_ISTREAM) \<and> event_link (Some e) p w \<noteq> None then Some (e, 0) else link w x)"
    using True by (auto simp: event_link_def)
  then show ?thesis using connect_event_leads [OF assms, of p e] True by simp
next
  case False
  then have "(\<lambda>x. if x = (p, EVENT_ISTREAM) \<and> event_link (Some e) p w \<noteq> None then Some (e, 0) else link w x) = link w"
    by (auto simp: event_link_def)
  then show ?thesis using leads_refl [OF assms] False by simp
qed


subsection \<open>Links after reconnecting\<close>

lemma chain_up_leads:
  assumes ok: "links_ok w" and ne: "a \<noteq> prev" "a \<noteq> next" and free: "link w (next, 1) = None"
  shows "leads w (\<lambda>x. if x = (next, 1) \<and> can_join (procs w prev) (procs w next) then Some (prev, 1)
      else if (x = (prev, EVENT_ISTREAM) \<or> x = (next, EVENT_ISTREAM)) \<and> event_link (eproc (the_chain a w)) (fst x) w \<noteq> None
      then event_link (eproc (the_chain a w)) (fst x) w else link w x)
    (snd (chain_up a prev next w))"
proof -
  define e where "e = eproc (the_chain a w)"
  define w1 where "w1 = (case e of None \<Rightarrow> w | Some q \<Rightarrow> if has_event_input (procs w prev) then connect_event_input prev q w else w)"
  define w2 where "w2 = (case e of None \<Rightarrow> w1 | Some q \<Rightarrow> if has_event_input (procs w1 next) then connect_event_input next q w1 else w1)"
  define m1 where "m1 = (\<lambda>x. if x = (prev, EVENT_ISTREAM) \<and> event_link e prev w \<noteq> None then event_link e prev w else link w x)"
  have l1: "leads w m1 w1"
  proof (cases e)
    case (Some q)
    have "(\<lambda>x. if x = (prev, EVENT_ISTREAM) \<and> event_link (Some q) prev w \<noteq> None then Some (q, 0) else link w x) = m1"
      by (auto simp: fun_eq_iff m1_def event_link_def Some)
    then show ?thesis using join_events_leads [OF ok, of prev q] by (simp add: w1_def Some)
  qed (use leads_refl [OF ok] in \<open>simp add: w1_def m1_def event_link_def\<close>)
  note ok1 = leadsD(1) [OF l1] and k1 = leadsD(2) [OF l1] and sh1 = leadsD(3) [OF l1]
  define m2 where "m2 = (\<lambda>x. if (x = (prev, EVENT_ISTREAM) \<or> x = (next, EVENT_ISTREAM)) \<and> event_link e (fst x) w \<noteq> None
      then event_link e (fst x) w else link w x)"
  have l2: "leads w1 m2 w2"
  proof (cases e)
    case (Some q)
    have "(\<lambda>x. if x = (next, EVENT_ISTREAM) \<and> event_link (Some q) next w1 \<noteq> None then Some (q, 0) else link w1 x) = m2"
      by (auto simp: fun_eq_iff m1_def m2_def k1 event_link_def Some same_shapeD [OF sh1])
    then show ?thesis using join_events_leads [OF ok1, of "next" q] by (simp add: w2_def Some)
  next
    case None
    then have "m2 = link w1" by (simp add: k1 m1_def m2_def event_link_def)
    then show ?thesis using leads_refl [OF ok1] None by (simp add: w2_def)
  qed
  note ok2 = leadsD(1) [OF l2] and k2 = leadsD(2) [OF l2] and l02 = leads_trans [OF l1 l2]
  note sh2 = leadsD(3) [OF l02]
  let ?j = "can_join (procs w prev) (procs w next)"
  have j2: "can_join (procs w2 prev) (procs w2 next) = ?j" by (rule can_join_shape [OF sh2 ok])
  have u: "snd (chain_up a prev next w) =
      (if 0 < n_ibuses (procs w2 next) \<and> 0 < n_obuses (procs w2 prev) \<and>
          speakers_fit (speaker_arrangement_channels (bus_speakers (ibus (procs w2 next) 1)))
            (speaker_arrangement_channels (bus_speakers (obus (procs w2 prev) 1)))
       then connect next 1 prev 1 w2 else w2)"
    using ne same_shapeD [OF sh2]
    by (simp add: chain_up_def Let_def e_def [symmetric] w1_def w2_def n_obuses_def split: option.split)
  have b2: "is_ibus (procs w2 next) 1 \<longleftrightarrow> 0 < n_ibuses (procs w2 next)" "is_obus (procs w2 prev) 1 \<longleftrightarrow> 0 < n_obuses (procs w2 prev)"
    by (auto simp: is_ibus_def is_obus_def)
  have ev: "EVENT_ISTREAM \<noteq> 1" by (simp add: EVENT_ISTREAM_def)
  have free2: "link w2 (next, 1) = None" using free ev by (simp add: k2 m2_def)
  have "leads w2 (if can_join (procs w2 prev) (procs w2 next) then (link w2)((next, 1) \<mapsto> (prev, 1)) else link w2)
      (snd (chain_up a prev next w))"
  proof (cases "0 < n_ibuses (procs w2 next) \<and> 0 < n_obuses (procs w2 prev) \<and>
          speakers_fit (speaker_arrangement_channels (bus_speakers (ibus (procs w2 next) 1)))
            (speaker_arrangement_channels (bus_speakers (obus (procs w2 prev) 1)))")
    case True
    have "(link w2)((next, 1) := None) = link w2" using free2 by auto
    then show ?thesis
      using connect_leads [OF ok2, of "next" 1 prev 1] True unfolding u can_join_iff b2 by (auto simp del: One_nat_def)
  next
    case False
    then show ?thesis using leads_refl [OF ok2] unfolding u can_join_iff by auto
  qed
  from leads_trans [OF l02 this] show ?thesis
    by (rule back_subst [where P = "\<lambda>m. leads w m (snd (chain_up a prev next w))"])
      (auto simp: j2 k2 m2_def e_def [symmetric] ev fun_eq_iff)
qed

text \<open>What a processor at position \<open>i\<close> of a chain is connected to.\<close>

definition chain_link :: "audio_chain \<Rightarrow> nat \<Rightarrow> ('p, 'c, 'x) world_scheme \<Rightarrow> nat \<Rightarrow> (proc \<times> nat) option" where
  "chain_link c i w k =
     (if k = EVENT_ISTREAM then event_link (eproc c) (processors c ! i) w
      else if k = 1 \<and> can_join (procs w (predecessor c i)) (procs w (processors c ! i)) then Some (predecessor c i, 1)
      else None)"

lemma chain_link_shape: "same_shape w w' \<Longrightarrow> links_ok w \<Longrightarrow> chain_link c i w' k = chain_link c i w k"
  by (simp add: chain_link_def event_link_shape can_join_shape)

definition linked_at :: "audio_chain \<Rightarrow> ('p, 'c, 'x) world_scheme \<Rightarrow> nat \<Rightarrow> bool" where
  "linked_at c w i \<longleftrightarrow> (\<forall>k. link w (processors c ! i, k) = chain_link c i w k)"

definition members_ok :: "proc \<Rightarrow> audio_chain \<Rightarrow> bool" where
  "members_ok a c \<longleftrightarrow> distinct (inlet c # processors c) \<and> a \<noteq> inlet c \<and> a \<notin> set (processors c) \<and>
     (\<forall>e. eproc c = Some e \<longrightarrow> e \<notin> set (processors c))"

lemma predecessor_props:
  assumes "members_ok a c" and "i < length (processors c)"
  shows "predecessor c i \<noteq> a" "predecessor c i \<noteq> processors c ! i" "processors c ! i \<noteq> a"
    "j < length (processors c) \<Longrightarrow> predecessor c i = processors c ! j \<longleftrightarrow> i = Suc j"
proof -
  have d: "distinct (processors c)" "inlet c \<notin> set (processors c)" "a \<notin> set (processors c)" "a \<noteq> inlet c"
    using assms(1) by (auto simp: members_ok_def)
  show "processors c ! i \<noteq> a" "predecessor c i \<noteq> a" using d(3,4) assms(2) nth_mem by (auto simp: predecessor_def)
  have *: "predecessor c i = processors c ! j \<longleftrightarrow> i = Suc j" if "j < length (processors c)" for j
    using d(1,2) that assms(2) nth_mem [OF that] nth_eq_iff_index_eq [OF d(1), of "i - 1" j]
    by (cases i) (auto simp: predecessor_def)
  show "j < length (processors c) \<Longrightarrow> predecessor c i = processors c ! j \<longleftrightarrow> i = Suc j" by (rule *)
  show "predecessor c i \<noteq> processors c ! i" using * [OF assms(2)] by simp
qed


text \<open>The loop of \<open>reconnect\<close> before position \<open>j\<close>: the processors from \<open>j\<close> on have no inputs yet.\<close>

definition chain_upto :: "proc \<Rightarrow> audio_chain \<Rightarrow> ('p, 'd, 'x) chains \<Rightarrow> nat \<Rightarrow> ('p, 'd, 'x) chains \<Rightarrow> bool" where
  "chain_upto a c v j w \<longleftrightarrow> links_ok w \<and> same_shape v w \<and> (\<forall>p. impl (procs w p) = impl (procs v p)) \<and> the_chain a w = c \<and>
     (\<forall>i<j. linked_at c w i) \<and> (\<forall>i k. j \<le> i \<and> i < length (processors c) \<longrightarrow> link w (processors c ! i, k) = None) \<and>
     (\<forall>x. fst x \<notin> set (inlet c # processors c) \<longrightarrow> link w x = link v x)"

lemma chain_upto_step:
  assumes m: "members_ok a c" and j: "j < length (processors c)" and inv: "chain_upto a c v j w"
  shows "chain_upto a c v (Suc j) (snd (chain_up a (predecessor c j) (processors c ! j) w))"
proof -
  define w' where "w' = snd (chain_up a (predecessor c j) (processors c ! j) w)"
  have ok: "links_ok w" and sh: "same_shape v w" and c: "the_chain a w = c" and before: "\<And>i. i < j \<Longrightarrow> linked_at c w i"
    and after: "\<And>i k. j \<le> i \<Longrightarrow> i < length (processors c) \<Longrightarrow> link w (processors c ! i, k) = None"
    and others: "\<And>x. fst x \<notin> set (inlet c # processors c) \<Longrightarrow> link w x = link v x"
    and impls: "\<And>p. impl (procs w p) = impl (procs v p)"
    using inv by (auto simp: chain_upto_def)
  note P = predecessor_props [OF m j]
  have d: "distinct (processors c)" using m by (simp add: members_ok_def)
  have l: "leads w (\<lambda>x. if x = (processors c ! j, 1) \<and> can_join (procs w (predecessor c j)) (procs w (processors c ! j))
       then Some (predecessor c j, 1)
      else if (x = (predecessor c j, EVENT_ISTREAM) \<or> x = (processors c ! j, EVENT_ISTREAM)) \<and> event_link (eproc c) (fst x) w \<noteq> None
      then event_link (eproc c) (fst x) w else link w x) w'"
    unfolding w'_def by (rule chain_up_leads [OF ok, of a, unfolded c]) (use P(1,3) after [of j] j in auto)
  note k = leadsD(2) [OF l] and sh' = leadsD(3) [OF l]
  have ev: "EVENT_ISTREAM \<noteq> 1" by (simp add: EVENT_ISTREAM_def)
  have c': "the_chain a w' = c" by (simp add: w'_def c the_chain_cong [where w' = "snd (chain_up _ _ _ w)" and w = w])
  have eq: "linked_at c w' i \<longleftrightarrow> (\<forall>k. link w' (processors c ! i, k) = chain_link c i w k)" for i
    by (simp add: linked_at_def chain_link_shape [OF sh' ok])
  have now: "linked_at c w' i" if i: "i < Suc j" for i
  proof (cases "i = j")
    case True
    have "link w (processors c ! j, k) = None" for k using after [of j] j by simp
    then show ?thesis
      using P(2) ev unfolding eq
      by (cases "event_link (eproc c) (processors c ! j) w") (auto simp: True k chain_link_def)
  next
    case False
    then have b: "linked_at c w i" "i < length (processors c)" using before [of i] i j by auto
    have ne: "processors c ! i \<noteq> processors c ! j" using nth_eq_iff_index_eq [OF d b(2) j] False by simp
    show ?thesis
      using b(1) ne unfolding eq by (auto simp: linked_at_def k chain_link_def)
  qed
  have later: "link w' (processors c ! i, k') = None" if i: "Suc j \<le> i" "i < length (processors c)" for i k'
  proof -
    have "processors c ! i \<noteq> processors c ! j" "processors c ! i \<noteq> predecessor c j"
      using nth_eq_iff_index_eq [OF d i(2) j] P(4) [OF i(2)] i(1) by auto
    then show ?thesis using after [of i k'] i by (simp add: k)
  qed
  have pm: "predecessor c j \<in> set (inlet c # processors c)" "processors c ! j \<in> set (processors c)"
    using j by (auto simp: predecessor_def)
  have "link w' x = link v x" if "fst x \<notin> set (inlet c # processors c)" for x
    using that pm others [OF that] by (cases x) (auto simp: k)
  then show ?thesis
    unfolding chain_upto_def w'_def [symmetric]
    using leadsD(1) [OF l] same_shape_trans [OF sh sh'] c' now later impls by (auto simp: w'_def)
qed

lemma chain_upto_loop:
  assumes "members_ok a c" and "chain_upto a c v j w" and "j \<le> length (processors c)"
  shows "chain_upto a c v (length (processors c))
    (fold (\<lambda>i w. snd (chain_up a (predecessor c i) (processors c ! i) w)) [j..<length (processors c)] w)"
  using assms(2,3)
proof (induction "length (processors c) - j" arbitrary: j w)
  case (Suc n)
  then have j: "j < length (processors c)" by simp
  then have "[j..<length (processors c)] = j # [Suc j..<length (processors c)]" by (simp add: upt_conv_Cons)
  then show ?case using Suc.hyps(1) [of "Suc j"] chain_upto_step [OF assms(1) j Suc.prems(1)] Suc.hyps(2) j by simp
qed simp

lemma disconnect_members_leads:
  assumes "links_ok w"
  shows "leads w (\<lambda>x. if fst x \<in> set ps then None else link w x) (fold disconnect_ibuses ps w)"
  using assms
proof (induction ps arbitrary: w)
  case (Cons p ps)
  note d = disconnect_ibuses_leads [OF Cons.prems, of p]
  have "(\<lambda>x. if fst x \<in> set ps then None else link (disconnect_ibuses p w) x) =
      (\<lambda>x. if fst x \<in> set (p # ps) then None else link w x)"
    by (auto simp: leadsD(2) [OF d])
  then show ?case using leads_trans [OF d Cons.IH [OF leadsD(1) [OF d]]] by simp
qed (simp add: leads_refl)

lemma impl_disconnect_members [simp]: "impl (procs (fold disconnect_ibuses ps w) q) = impl (procs w q)"
  by (induction ps arbitrary: w) simp_all

lemma reconnect_links:
  assumes ok: "links_ok w" and m: "members_ok a (the_chain a w)"
    and before: "\<And>i. i < start \<Longrightarrow> linked_at (the_chain a w) w i" and start: "start \<le> length (processors (the_chain a w))"
  shows "chain_upto a (the_chain a w) w (length (processors (the_chain a w))) (reconnect start a w)"
proof -
  define c where "c = the_chain a w"
  define w1 where "w1 = fold disconnect_ibuses (drop start (processors c)) w"
  have len: "start \<le> length (processors c)" using start by (simp add: c_def)
  have f: "fold (\<lambda>i. disconnect_ibuses (processors c ! i)) [start..<length (processors c)] w = w1"
  proof -
    have "map (\<lambda>i. processors c ! i) [start..<length (processors c)] = drop start (processors c)"
      using len by (simp add: list_eq_iff_nth_eq)
    then have "w1 = fold disconnect_ibuses (map (\<lambda>i. processors c ! i) [start..<length (processors c)]) w"
      by (simp only: w1_def)
    then show ?thesis by (simp add: fold_map comp_def)
  qed
  have l: "leads w (\<lambda>x. if fst x \<in> set (drop start (processors c)) then None else link w x) w1"
    unfolding w1_def by (rule disconnect_members_leads [OF ok])
  have d: "distinct (processors c)" using m by (simp add: members_ok_def c_def)
  have i: "\<forall>p. impl (procs w1 p) = impl (procs w p)" by (simp add: w1_def)
  have "chain_upto a c w start w1"
    unfolding chain_upto_def
  proof (intro conjI allI impI)
    show "links_ok w1" "same_shape w w1" "impl (procs w1 p) = impl (procs w p)" for p using l i by (auto simp: leads_def)
    show "the_chain a w1 = c" using i the_chain_cong [of w1 w] by (simp add: c_def)
    show "linked_at c w1 i" if "i < start" for i
    proof -
      have "processors c ! i \<notin> set (drop start (processors c))"
        using that len d by (auto simp: in_set_conv_nth nth_eq_iff_index_eq)
      then show ?thesis
        using before [OF that] by (simp add: linked_at_def leadsD(2) [OF l] chain_link_shape [OF leadsD(3) [OF l] ok] c_def)
    qed
    show "link w1 (processors c ! i, k) = None" if "start \<le> i \<and> i < length (processors c)" for i k
    proof -
      have "i - start < length (drop start (processors c))" using that by auto
      from nth_mem [OF this] have "processors c ! i \<in> set (drop start (processors c))" using that by simp
      then show ?thesis by (simp add: leadsD(2) [OF l])
    qed
    show "link w1 x = link w x" if "fst x \<notin> set (inlet c # processors c)" for x
      using that set_drop_subset [of start "processors c"] by (auto simp: leadsD(2) [OF l])
  qed
  then have "chain_upto a c w (length (processors c))
      (fold (\<lambda>i w. snd (chain_up a (predecessor c i) (processors c ! i) w)) [start..<length (processors c)] w1)"
    by (rule chain_upto_loop [rotated]) (use m len in \<open>simp_all add: c_def\<close>)
  then show ?thesis by (simp add: reconnect_def Let_def c_def [symmetric] f)
qed


subsection \<open>Sessions of inserting and removing\<close>

lemma index_of_cases:
  "index_of P xs = -1 \<and> (\<forall>x\<in>set xs. \<not> P x) \<or>
   (\<exists>i<length xs. index_of P xs = int i \<and> P (xs ! i) \<and> (\<forall>j<i. \<not> P (xs ! j)))"
proof (induction xs)
  case (Cons x xs)
  consider (neg) "\<not> P x" "index_of P xs = -1" "\<forall>x\<in>set xs. \<not> P x" | (here) "P x"
    | (later) i where "\<not> P x" "i < length xs" "index_of P xs = int i" "P (xs ! i)" "\<forall>j<i. \<not> P (xs ! j)"
    using Cons.IH by blast
  then show ?case
  proof cases
    case later
    then have "Suc i < length (x # xs) \<and> index_of P (x # xs) = int (Suc i) \<and> P ((x # xs) ! Suc i) \<and> (\<forall>j<Suc i. \<not> P ((x # xs) ! j))"
      by (auto simp: less_Suc_eq_0_disj)
    then show ?thesis by blast
  qed auto
qed simp

lemma find_pos_cases:
  assumes "distinct (processors c)"
  obtains "find_pos p c = -1" "p \<notin> set (processors c)"
  | i where "i < length (processors c)" "find_pos p c = int i" "processors c ! i = p"
      "take i (processors c) @ drop (i + 1) (processors c) = remove1 p (processors c)"
proof -
  note c = index_of_cases [of "\<lambda>q. q = p" "processors c"]
  have "take i (processors c) @ drop (i + 1) (processors c) = remove1 p (processors c)"
    if i: "i < length (processors c)" "processors c ! i = p" for i
  proof -
    have "processors c = take i (processors c) @ p # drop (i + 1) (processors c)" using id_take_nth_drop [OF i(1)] i(2) by simp
    moreover from this have "p \<notin> set (take i (processors c))" using assms by (metis distinct_append list.set_intros(1) disjoint_iff)
    ultimately show ?thesis by (metis remove1_append remove1.simps(2))
  qed
  then show thesis using c that unfolding find_pos_def by auto
qed

definition chain_ok :: "proc \<Rightarrow> ('p, 'd, 'x) chains \<Rightarrow> bool" where
  "chain_ok a w \<longleftrightarrow> links_ok w \<and> members_ok a (the_chain a w) \<and>
     (\<forall>i<length (processors (the_chain a w)). linked_at (the_chain a w) w i)"

lemma chain_ok_cong:
  assumes "leads w (link w) w'" and "\<And>p. impl (procs w' p) = impl (procs w p)" and "links_ok w"
  shows "chain_ok a w' = chain_ok a w"
proof -
  have "the_chain a w' = the_chain a w" by (rule the_chain_cong) (rule assms(2))
  moreover have "linked_at c w' i = linked_at c w i" for c i
    by (simp add: linked_at_def leadsD(2) [OF assms(1)] chain_link_shape [OF leadsD(3) [OF assms(1)] assms(3)])
  ultimately show ?thesis using leadsD(1) [OF assms(1)] assms(3) by (simp add: chain_ok_def)
qed

lemma chain_ok_notify: "links_ok w \<Longrightarrow> chain_ok a (enotify_enqueue b f w) = chain_ok a w"
  by (rule chain_ok_cong) (simp_all add: leads_refl)

lemma chain_ok_reschedule: "links_ok w \<Longrightarrow> chain_ok a (reschedule w) = chain_ok a w"
  by (rule chain_ok_cong) (simp_all add: leads_refl leads_reschedule)

lemma links_ok_notify: "links_ok w \<Longrightarrow> links_ok (enotify_enqueue b f w)" "links_ok w \<Longrightarrow> links_ok (reschedule w)"
  using leads_refl [of w] leads_enotify [of w "link w" b f w] leads_reschedule [of w "link w" w] by (auto simp: leads_def)

lemma chain_upto_ok:
  assumes "chain_upto a c v (length (processors c)) w" and "members_ok a c"
  shows "chain_ok a w" and "the_chain a w = c" and "links_ok w"
  using assms by (auto simp: chain_upto_def chain_ok_def)

text \<open>A prefix of the list keeps its links when the list changes behind it.\<close>

lemma linked_prefix:
  assumes "take start (processors c') = take start (processors c)" and "inlet c' = inlet c" and "eproc c' = eproc c"
    and "start \<le> length (processors c)" "start \<le> length (processors c')" and "i < start"
  shows "linked_at c' w i = linked_at c w i"
proof -
  have nth: "processors c' ! j = processors c ! j" if "j < start" for j
    using nth_take [OF that, of "processors c'"] nth_take [OF that, of "processors c"] assms(1) by simp
  then have "predecessor c' i = predecessor c i" using assms(2,6) by (simp add: predecessor_def)
  then show ?thesis by (simp add: linked_at_def chain_link_def nth [OF assms(6)] assms(3))
qed

lemma linked_upd_chain:
  assumes "links_ok w"
  shows "linked_at c (upd_chain b f w) i = linked_at c w i"
  by (simp add: linked_at_def chain_link_shape [OF same_shape_upd_chain assms])

lemma the_chain_fold [simp]:
  "the_chain a (enotify_enqueue b f w) = the_chain a w" "the_chain a (reschedule w) = the_chain a w"
  by (simp_all add: the_chain_def)

definition insert_index :: "int \<Rightarrow> nat \<Rightarrow> nat" where
  "insert_index pos n = (if pos = -1 \<or> pos > int n then n else if pos < 0 then 0 else nat pos)"

lemma insert_ok:
  assumes ok: "chain_ok a w" and p: "p \<noteq> a" "p \<noteq> inlet (the_chain a w)" "p \<notin> set (processors (the_chain a w))"
    "eproc (the_chain a w) \<noteq> Some p"
  shows "chain_ok a (insert_proc p pos a w)"
    and "the_chain a (insert_proc p pos a w) = (the_chain a w)\<lparr>processors :=
      insert_at (insert_index pos (length (processors (the_chain a w)))) p (processors (the_chain a w))\<rparr>"
proof -
  define c where "c = the_chain a w"
  define start where "start = insert_index pos (length (processors c))"
  define c' where "c' = c\<lparr>processors := insert_at start p (processors c)\<rparr>"
  define w1 where "w1 = upd_chain a (\<lambda>c. c\<lparr>processors := insert_at start p (processors c)\<rparr>) w"
  have len: "start \<le> length (processors c)" by (auto simp: start_def insert_index_def)
  have links: "links_ok w" and m: "members_ok a c" and lk: "\<And>i. i < length (processors c) \<Longrightarrow> linked_at c w i"
    using ok by (auto simp: chain_ok_def c_def)
  have ps: "processors c' = take start (processors c) @ p # drop start (processors c)" by (simp add: c'_def insert_at_def)
  have c1: "the_chain a w1 = c'" by (simp add: w1_def c'_def c_def)
  have "distinct (xs @ p # ys) = distinct (p # xs @ ys)" "set (xs @ p # ys) = set (p # xs @ ys)" for xs ys by auto
  note mid = this [of "take start (processors c)" "drop start (processors c)", unfolded append_take_drop_id]
  have m': "members_ok a c'"
    using m p mid unfolding members_ok_def ps distinct.simps by (auto simp: c'_def c_def)
  have ok1: "links_ok w1" using links by (simp add: w1_def)
  have "linked_at c' w1 i" if "i < start" for i
    using linked_prefix [of start c' c i w1] that len lk [of i] linked_upd_chain [OF links]
    by (simp add: c'_def insert_at_def w1_def)
  then have r: "chain_upto a c' w1 (length (processors c')) (reconnect start a w1)"
    using reconnect_links [OF ok1, of a start] m' len unfolding c1 by (simp add: ps)
  note R = chain_upto_ok [OF r m']
  have "(let pos' = if pos = -1 then int (length (processors c)) else pos in
      if pos' < 0 then 0 else if pos' > int (length (processors c)) then length (processors c) else nat pos') = start"
    by (auto simp: start_def insert_index_def Let_def)
  then have "insert_proc p pos a w = enotify_enqueue a {INSERTION} (reschedule (reconnect start a w1))"
    by (simp add: insert_proc_def c_def [symmetric] w1_def Let_def)
  then show "chain_ok a (insert_proc p pos a w)"
    "the_chain a (insert_proc p pos a w) = (the_chain a w)\<lparr>processors :=
      insert_at (insert_index pos (length (processors (the_chain a w)))) p (processors (the_chain a w))\<rparr>"
    using R by (simp_all add: chain_ok_notify chain_ok_reschedule links_ok_notify c'_def c_def start_def)
qed


lemma disconnect_obuses_leads:
  assumes "links_ok w"
  obtains w' where "disconnect_obuses q w = Some w'" and "leads w (link w') w'"
    and "\<And>x. link w' x = link w x \<or> (\<exists>ob. link w x = Some (q, ob) \<and> link w' x = None)"
proof -
  obtain w' where w': "graph_step (Disconnect_outputs q) w = Some w'" "leads w (spec_step w (Disconnect_outputs q) (link w)) w'"
    using graph_step_leads [OF assms] by blast
  have "link w' x = link w x \<or> (\<exists>ob. link w x = Some (q, ob) \<and> link w' x = None)" for x
    unfolding leadsD(2) [OF w'(2)] by (cases "link w x") (auto split: if_splits)
  moreover have "leads w (link w') w'" using w'(2) by (simp add: leads_def)
  ultimately show thesis using that w'(1) by simp
qed

lemma remove_ok:
  assumes ok: "chain_ok a w"
  obtains w' where "remove_proc p a w = Some (p \<in> set (processors (the_chain a w)), w')" and "chain_ok a w'"
    and "the_chain a w' = (the_chain a w)\<lparr>processors := remove1 p (processors (the_chain a w))\<rparr>"
proof -
  define c where "c = the_chain a w"
  have links: "links_ok w" and m: "members_ok a c" and lk: "\<And>i. i < length (processors c) \<Longrightarrow> linked_at c w i"
    using ok by (auto simp: chain_ok_def c_def)
  have d: "distinct (processors c)" using m by (simp add: members_ok_def)
  from find_pos_cases [OF d, of p] show thesis
  proof cases
    case 1
    then show thesis
      by (intro that [of w]) (use ok in \<open>simp_all add: remove_proc_def c_def remove1_idem\<close>)
  next
    case (2 pos)
    define c' where "c' = c\<lparr>processors := remove1 p (processors c)\<rparr>"
    define w1 where "w1 = upd_chain a (\<lambda>c. c\<lparr>processors := take pos (processors c) @ drop (pos + 1) (processors c)\<rparr>) w"
    have p: "p \<in> set (processors c)" "p \<noteq> inlet c" "eproc c \<noteq> Some p" using 2(1,3) m nth_mem by (fastforce simp: members_ok_def)+
    have c1: "the_chain a w1 = c'" using 2(4) by (simp add: w1_def c'_def c_def)
    have ok1: "links_ok w1" using links by (simp add: w1_def)
    define w2 where "w2 = disconnect_ibuses p w1"
    have l2: "leads w1 (\<lambda>x. if fst x = p then None else link w1 x) w2"
      unfolding w2_def by (rule disconnect_ibuses_leads [OF ok1])
    obtain w3 where w3: "disconnect_obuses p w2 = Some w3" "leads w2 (link w3) w3"
      and out: "\<And>x. link w3 x = link w2 x \<or> (\<exists>ob. link w2 x = Some (p, ob) \<and> link w3 x = None)"
      by (rule disconnect_obuses_leads [OF leadsD(1) [OF l2], of p]) blast
    have l3: "leads w1 (link w3) w3" by (rule leads_trans [OF l2 w3(2)])
    have i3: "impl (procs w3 q) = impl (procs w1 q)" for q using impl_disconnect_obuses [OF w3(1), of q] by (simp add: w2_def)
    have c3: "the_chain a w3 = c'" using the_chain_cong [of w3 w1 a] i3 c1 by simp
    have m': "members_ok a c'"
      using m set_remove1_subset [of p "processors c"] by (auto simp: members_ok_def c'_def)
    have pre: "take pos (processors c') = take pos (processors c)" "pos \<le> length (processors c')"
      using 2(1) unfolding c'_def by (simp_all flip: 2(4))
    have "linked_at c' w3 i" if i: "i < pos" for i
    proof -
      have l: "link w1 (processors c ! i, k) = chain_link c i w k" for k
        using lk [of i] i 2(1) by (simp add: linked_at_def w1_def)
      have "processors c ! i \<noteq> p" using nth_eq_iff_index_eq [OF d, of i pos] i 2(1,3) by simp
      moreover have "predecessor c i \<noteq> p"
        using nth_eq_iff_index_eq [OF d, of "i - 1" pos] i 2(1,3) p(2) by (auto simp: predecessor_def)
      ultimately have "link w3 (processors c ! i, k) = link w1 (processors c ! i, k)" for k
        using out [of "(processors c ! i, k)"] p(3) unfolding leadsD(2) [OF l2]
        by (auto simp: l chain_link_def event_link_def split: option.splits if_splits)
      then have "linked_at c w3 i"
        using l chain_link_shape [OF leadsD(3) [OF l3] ok1] chain_link_shape [OF same_shape_upd_chain links]
        by (simp add: linked_at_def w1_def)
      then show ?thesis
        using linked_prefix [of pos c' c i w3] pre i 2(1) by (simp add: c'_def)
    qed
    then have r: "chain_upto a c' w3 (length (processors c')) (reconnect pos a w3)"
      using reconnect_links [OF leadsD(1) [OF l3], of a pos] m' pre(2) unfolding c3 by simp
    note R = chain_upto_ok [OF r m']
    have "remove_proc p a w = Some (True, reschedule (enotify_enqueue a {REMOVAL} (reconnect pos a w3)))"
      using 2(2) w3(1) by (simp add: remove_proc_def c_def [symmetric] w1_def w2_def Let_def)
    then show thesis
      by (intro that [of "reschedule (enotify_enqueue a {REMOVAL} (reconnect pos a w3))"]) (use R p(1) in \<open>simp_all add: chain_ok_notify chain_ok_reschedule links_ok_notify c'_def c_def\<close>)
  qed
qed

datatype chain_op = Insert proc int | Remove proc

fun chain_run :: "chain_op list \<Rightarrow> proc \<Rightarrow> ('p, 'd, 'x) chains \<Rightarrow> ('p, 'd, 'x) chains option" where
  "chain_run [] a w = Some w"
| "chain_run (Insert p pos # ops) a w = chain_run ops a (insert_proc p pos a w)"
| "chain_run (Remove p # ops) a w = (case remove_proc p a w of None \<Rightarrow> None | Some (_, w) \<Rightarrow> chain_run ops a w)"

text \<open>The same operations on a list, and that a processor is inserted only while the chain does not use it.\<close>

fun list_run :: "chain_op list \<Rightarrow> proc list \<Rightarrow> proc list" where
  "list_run [] ps = ps"
| "list_run (Insert p pos # ops) ps = list_run ops (insert_at (insert_index pos (length ps)) p ps)"
| "list_run (Remove p # ops) ps = list_run ops (remove1 p ps)"

fun fresh_inserts :: "proc set \<Rightarrow> chain_op list \<Rightarrow> proc list \<Rightarrow> bool" where
  "fresh_inserts used [] ps \<longleftrightarrow> True"
| "fresh_inserts used (Insert p pos # ops) ps \<longleftrightarrow>
     p \<notin> used \<and> p \<notin> set ps \<and> fresh_inserts used ops (insert_at (insert_index pos (length ps)) p ps)"
| "fresh_inserts used (Remove p # ops) ps \<longleftrightarrow> fresh_inserts used ops (remove1 p ps)"

text \<open>
  C3: Any session of inserting and removing processors returns; the chain then holds the processors in the
  order of the list operations, and each is connected exactly to its predecessor, the first one to the inlet,
  if their speakers fit, and to the event source of the chain.
\<close>

theorem chain_keeps_neighbours_connected:
  assumes "chain_ok a w"
    and "fresh_inserts ({a, inlet (the_chain a w)} \<union> set_option (eproc (the_chain a w))) ops (processors (the_chain a w))"
  shows "\<exists>w'. chain_run ops a w = Some w' \<and> processors (the_chain a w') = list_run ops (processors (the_chain a w)) \<and>
    (\<forall>i<length (processors (the_chain a w')). \<forall>k.
       link w' (processors (the_chain a w') ! i, k) = chain_link (the_chain a w') i w' k)"
proof -
  have "\<exists>w'. chain_run ops a w = Some w' \<and> processors (the_chain a w') = list_run ops (processors (the_chain a w)) \<and> chain_ok a w'"
    using assms
  proof (induction ops arbitrary: w)
    case (Cons op ops)
    show ?case
    proof (cases op)
      case (Insert p pos)
      have n: "p \<noteq> a" "p \<noteq> inlet (the_chain a w)" "p \<notin> set (processors (the_chain a w))" "eproc (the_chain a w) \<noteq> Some p"
        using Cons.prems(2) by (auto simp: Insert)
      note i = insert_ok [OF Cons.prems(1) n, of pos]
      show ?thesis using Cons.IH [OF i(1)] Cons.prems(2) by (simp add: Insert i(2))
    next
      case (Remove p)
      obtain w1 where r: "remove_proc p a w = Some (p \<in> set (processors (the_chain a w)), w1)" "chain_ok a w1"
        "the_chain a w1 = (the_chain a w)\<lparr>processors := remove1 p (processors (the_chain a w))\<rparr>"
        by (rule remove_ok [OF Cons.prems(1), of p])
      show ?thesis using Cons.IH [OF r(2)] Cons.prems(2) by (simp add: Remove r(1,3))
    qed
  qed simp
  then show ?thesis by (auto simp: chain_ok_def linked_at_def)
qed


lemma unconnected_links_ok:
  assumes "\<And>p. outputs (procs w p) = []" "\<And>p i. link_of (procs w p) i = None"
    "\<And>p ob. is_obus (procs w p) ob \<Longrightarrow> counter_of (procs w p) ob = 0"
    "\<And>p. output_offset (procs w p) \<le> length (iobuses (procs w p))" "\<And>p. n_ibuses (procs w p) < EVENT_ISTREAM"
  shows "links_ok w"
  by (rule links_okI) (use assms in \<open>auto simp: link_def\<close>)

text \<open>
  A chain 0 with its inlet 1 for examples; 2 is stereo, 3 plays events without an input, 4 is mono, and 5 is a
  source of events.
\<close>

definition sample_member :: "proc \<Rightarrow> IOBus list \<Rightarrow> nat \<Rightarrow> bool \<Rightarrow> bool \<Rightarrow> unit kind \<Rightarrow> (unit, unit kind) processor" where
  "sample_member p buses offset ev_in ev_out k =
     \<lparr>flags = {INITIALIZED}, output_offset = offset, fbuffers = Some [Fblock p 0, Fblock p 1], iobuses = buses,
      params = no_params, outputs = [], estreams = Some \<lparr>es_oproc = None, es_output = [], has_input = ev_in, has_output = ev_out\<rparr>,
      render_stamp = 0, proc_t0events = None, sched_next = None, nqueue_next = Unqueued, has_device = False, impl = k\<rparr>"

definition sample_chain :: "(unit, unit kind) world" where
  "sample_chain =
     (let i = new_bus IBUS ''in'' ''In'';
          out = (\<lambda>sa n. (new_bus OBUS ''out'' ''Out'' sa)\<lparr>fbuffer_count := n, fbuffer_index := Some 0\<rparr>) in
      \<lparr>procs = (\<lambda>p.
         if p = 0 then sample_member p [i STEREO, out STEREO 2] 1 False False (Chain ((new_chain STEREO 1)\<lparr>eproc := Some 5\<rparr>))
         else if p = 1 then sample_member p [out STEREO 2] 0 False False (Inlet 0)
         else if p = 2 then sample_member p [i STEREO, out STEREO 2] 1 False False (Other ())
         else if p = 3 then sample_member p [out STEREO 2] 0 True False (Other ())
         else if p = 4 then sample_member p [i MONO, out MONO 1] 1 False False (Other ())
         else sample_member p [] 0 False True (Other ())),
       schedule_invalid = False, enotify_head = Qtail\<rparr>)"

lemma sample_chain_ok: "chain_ok 0 sample_chain"
proof -
  have "links_ok sample_chain"
    by (rule unconnected_links_ok)
      (auto simp: sample_chain_def sample_member_def Let_def link_of_def ibus_def is_ibus_def is_obus_def n_ibuses_def
        n_obuses_def counter_of_def obus_def new_bus_def EVENT_ISTREAM_def
        split: if_splits)
  moreover have "impl (procs sample_chain 0) = Chain ((new_chain STEREO 1)\<lparr>eproc := Some 5\<rparr>)" by code_simp
  ultimately show ?thesis by (simp add: chain_ok_def members_ok_def the_chain_def new_chain_def)
qed

lemma chain_keeps_neighbours_connected_witness:
  "\<exists>w'. chain_run [Insert 2 (-1), Insert 4 (-1), Insert 3 1, Remove 3] 0 sample_chain = Some w' \<and>
     processors (the_chain 0 w') = [2, 4] \<and>
     (\<forall>i<length (processors (the_chain 0 w')). \<forall>k.
        link w' (processors (the_chain 0 w') ! i, k) = chain_link (the_chain 0 w') i w' k)"
proof -
  define ops where "ops = [Insert 2 (-1), Insert 4 (-1), Insert 3 1, Remove 3]"
  have c: "the_chain 0 sample_chain = (new_chain STEREO 1)\<lparr>eproc := Some 5\<rparr>"
    by code_simp
  have r: "list_run ops [] = [2, 4]" "fresh_inserts {0, 1, 5} ops []"
    by (simp_all add: ops_def insert_at_def insert_index_def)
  show ?thesis
    using chain_keeps_neighbours_connected [OF sample_chain_ok, of ops] r
    unfolding c ops_def [symmetric] by (simp add: new_chain_def insert_commute)
qed

subsection \<open>What a chain plays\<close>

lemma fold_upto:
  assumes "R 0 v" and "\<And>i v. i < n \<Longrightarrow> R i v \<Longrightarrow> \<exists>v'. f i (Some v) = Some v' \<and> R (Suc i) v'"
  shows "\<exists>v'. fold f [0..<n] (Some v) = Some v' \<and> R n v'"
  using assms(2)
proof (induction n)
  case (Suc n)
  then obtain v' where v': "fold f [0..<n] (Some v) = Some v'" "R n v'" by (meson less_Suc_eq)
  then show ?case using Suc.prems [OF lessI v'(2)] by auto
qed (simp add: assms(1))

text \<open>An output bus whose channels have buffers, as \<open>assign_iobufs\<close> leaves it.\<close>

definition buffered :: "('p, 'c) processor \<Rightarrow> nat \<Rightarrow> bool" where
  "buffered P ob \<longleftrightarrow> is_obus P ob \<and> fbuffer_count (obus P ob) = n_ochannels ob P \<and>
     (case (fbuffers P, fbuffer_index (obus P ob)) of
        (Some bufs, Some k) \<Rightarrow> k + n_ochannels ob P \<le> length bufs | _ \<Rightarrow> False)"

definition out_blocks :: "('p, 'c) processor \<Rightarrow> float_ptr list" where
  "out_blocks P = take (n_ochannels 1 P) (drop (the (fbuffer_index (obus P 1))) (the (fbuffers P)))"

lemma ofloats_buffered:
  assumes "buffered (procs w p) 1" and "k < n_ochannels 1 (procs w p)"
  shows "ofloats 1 k p w = Some (out_blocks (procs w p) ! k)"
  using assms
  by (auto simp: ofloats_def output_buffer_def floats_at_def buffered_def out_blocks_def split: option.splits prod.splits)

lemma redirect_buffered:
  assumes "buffered (procs w p) 1" and "k < n_ochannels 1 (procs w p)"
  shows "buffered (procs (redirect_oblock 1 k b p w) p) 1"
    "out_blocks (procs (redirect_oblock 1 k b p w) p) = (out_blocks (procs w p))[k := case b of Some ptr \<Rightarrow> ptr | None \<Rightarrow> Const_float_zeros]"
    "iobuses (procs (redirect_oblock 1 k b p w) p) = iobuses (procs w p)"
    "output_offset (procs (redirect_oblock 1 k b p w) p) = output_offset (procs w p)"
    "impl (procs (redirect_oblock 1 k b p w) p) = impl (procs w p)"
    "q \<noteq> p \<Longrightarrow> procs (redirect_oblock 1 k b p w) q = procs w q"
proof -
  obtain bufs k0 where b: "fbuffers (procs w p) = Some bufs" "fbuffer_index (obus (procs w p) 1) = Some k0"
      "k0 + n_ochannels 1 (procs w p) \<le> length bufs" "is_obus (procs w p) 1"
      "fbuffer_count (obus (procs w p) 1) = n_ochannels 1 (procs w p)"
    using assms(1) by (auto simp: buffered_def split: option.splits prod.splits)
  let ?v = "case b of Some ptr \<Rightarrow> ptr | None \<Rightarrow> Const_float_zeros"
  have r: "redirect_oblock 1 k b p w = upd p (\<lambda>P. P\<lparr>fbuffers := Some (bufs[k0 + k := ?v])\<rparr>) w"
    using assms(2) b by (simp add: redirect_oblock_def output_buffer_def set_buffer_def upd_def)
  show "buffered (procs (redirect_oblock 1 k b p w) p) 1"
    "iobuses (procs (redirect_oblock 1 k b p w) p) = iobuses (procs w p)"
    "output_offset (procs (redirect_oblock 1 k b p w) p) = output_offset (procs w p)"
    "impl (procs (redirect_oblock 1 k b p w) p) = impl (procs w p)"
    "q \<noteq> p \<Longrightarrow> procs (redirect_oblock 1 k b p w) q = procs w q"
    using b unfolding r by (simp_all add: buffered_def is_obus_def n_obuses_def obus_def n_ochannels_def)
  have "take n (drop k0 (bufs[k0 + k := v])) = (take n (drop k0 bufs))[k := v]" for n v
    by (simp add: drop_update_swap take_update_swap)
  then show "out_blocks (procs (redirect_oblock 1 k b p w) p) = (out_blocks (procs w p))[k := ?v]"
    using b unfolding r by (simp add: out_blocks_def obus_def n_ochannels_def)
qed


lemma length_out_blocks: "buffered P 1 \<Longrightarrow> length (out_blocks P) = n_ochannels 1 P"
  by (auto simp: buffered_def out_blocks_def split: option.splits prod.splits)

lemma n_ochannels_cong:
  "iobuses P = iobuses Q \<Longrightarrow> output_offset P = output_offset Q \<Longrightarrow> n_ochannels ob P = n_ochannels ob Q"
  by (simp add: n_ochannels_def obus_def)

lemma n_ochannels_impl [simp]: "n_ochannels ob (P\<lparr>impl := c\<rparr>) = n_ochannels ob P"
  by (simp add: n_ochannels_def obus_def)

lemma probe_same [simp]:
  "q \<noteq> a \<Longrightarrow> procs (set_probe k x a w) q = procs w q" "iobuses (procs (set_probe k x a w) a) = iobuses (procs w a)"
  "output_offset (procs (set_probe k x a w) a) = output_offset (procs w a)"
  "buffered (procs (set_probe k x a w) a) ob = buffered (procs w a) ob"
  "out_blocks (procs (set_probe k x a w) a) = out_blocks (procs w a)"
  by (simp_all add: set_probe_def upd_chain_def buffered_def is_obus_def n_obuses_def obus_def out_blocks_def
      split: option.split)

text \<open>Rendering up to channel \<open>n\<close>: the blocks of \<open>p\<close> are those of \<open>block\<close>, all else is as in \<open>w\<close>.\<close>

definition redirected :: "proc \<Rightarrow> (nat \<Rightarrow> float_ptr) \<Rightarrow> ('p, 'd, 'x) chains \<Rightarrow> nat \<Rightarrow> ('p, 'd, 'x) chains \<Rightarrow> bool" where
  "redirected p block w n v \<longleftrightarrow> (\<forall>q. q \<noteq> p \<longrightarrow> procs v q = procs w q) \<and> iobuses (procs v p) = iobuses (procs w p) \<and>
     output_offset (procs v p) = output_offset (procs w p) \<and> buffered (procs v p) 1 \<and>
     (\<forall>k<n. out_blocks (procs v p) ! k = block k)"

lemma redirected_step:
  assumes "redirected p block w n v" and "n < n_ochannels 1 (procs w p)"
    and "(case b of Some ptr \<Rightarrow> ptr | None \<Rightarrow> Const_float_zeros) = block n"
  shows "redirected p block w (Suc n) (redirect_oblock 1 n b p v)"
proof -
  have b: "buffered (procs v p) 1" using assms(1) by (simp add: redirected_def)
  have n: "n_ochannels 1 (procs v p) = n_ochannels 1 (procs w p)" using assms(1) by (intro n_ochannels_cong) (simp_all add: redirected_def)
  then have n': "n < n_ochannels 1 (procs v p)" using assms(2) by simp
  note r = redirect_buffered [OF b n', where b = b]
  show ?thesis
    using assms(1,3) r n' length_out_blocks [OF b] by (auto simp: redirected_def less_Suc_eq)
qed

lemma redirected_probe: "redirected p block w n v \<Longrightarrow> redirected p block w n (set_probe k x p v)"
  by (simp add: redirected_def)

lemma redirected_ofloats:
  assumes "redirected p block w n v" and "k < n" "n \<le> n_ochannels 1 (procs w p)"
  shows "ofloats 1 k p v = Some (block k)"
proof -
  have "n_ochannels 1 (procs v p) = n_ochannels 1 (procs w p)" using assms(1) by (intro n_ochannels_cong) (simp_all add: redirected_def)
  then show ?thesis using assms ofloats_buffered [of v p k] by (simp add: redirected_def)
qed

lemma ofloats_cong: "procs v q = procs w q \<Longrightarrow> ofloats ob k q v = ofloats ob k q w"
  by (simp add: ofloats_def output_buffer_def floats_at_def split: option.split)

text \<open>
  When a chain renders, each of its output channels becomes the channel of the last processor with an
  output, the last channel of that being repeated, and silence when there is no such processor; nothing but the
  chain changes.
\<close>

theorem chain_plays_last_output:
  assumes "buffered (procs w a) 1"
    and "\<And>q. last_output (the_chain a w) = Some q \<Longrightarrow> q \<noteq> a \<and> buffered (procs w q) 1 \<and> 0 < n_ochannels 1 (procs w q)"
  shows "\<exists>w'. chain_render dbspl a w = Some w' \<and> (\<forall>p. p \<noteq> a \<longrightarrow> procs w' p = procs w p) \<and>
    (\<forall>k<n_ochannels 1 (procs w a). ofloats 1 k a w' =
       (case last_output (the_chain a w) of
          None \<Rightarrow> Some Const_float_zeros
        | Some q \<Rightarrow> ofloats 1 (min k (n_ochannels 1 (procs w q) - 1)) q w))"
proof -
  define n where "n = n_ochannels 1 (procs w a)"
  define lo where "lo = last_output (the_chain a w)"
  define m where "m q = n_ochannels 1 (procs w q) - 1" for q
  define block where "block k = (case lo of None \<Rightarrow> Const_float_zeros | Some q \<Rightarrow> the (ofloats 1 (min k (m q)) q w))" for k
  have blk: "ofloats 1 (min k (m q)) q w = Some (block k)" if "lo = Some q" for k q
  proof -
    have "buffered (procs w q) 1" "min k (m q) < n_ochannels 1 (procs w q)" using assms(2) [of q] that by (auto simp: lo_def m_def)
    then show ?thesis using that by (simp add: block_def ofloats_buffered [simplified])
  qed
  let ?f = "\<lambda>k w. Option.bind w (\<lambda>w.
        case lo of
          None \<Rightarrow>
            let w = redirect_oblock 1 k None a w in
            Some (if n \<le> 2 then set_probe k (-192) a w else w)
        | Some q \<Rightarrow>
            map_option (\<lambda>cblock.
              let w = redirect_oblock 1 k (Some cblock) a w in
              if n \<le> 2 then set_probe k (dbspl cblock) a w else w)
              (ofloats 1 (min k (m q)) q w))"
  have "chain_render dbspl a w = fold ?f [0..<n] (Some w)"
    unfolding chain_render_def lo_def [symmetric] n_def [symmetric] Let_def m_def
    by (cases lo) simp_all
  moreover have "\<exists>w'. fold ?f [0..<n] (Some w) = Some w' \<and> redirected a block w n w'"
  proof (rule fold_upto)
    show "redirected a block w 0 w" using assms(1) by (simp add: redirected_def)
    fix k v assume k: "k < n" and v: "redirected a block w k v"
    show "\<exists>v'. ?f k (Some v) = Some v' \<and> redirected a block w (Suc k) v'"
    proof (cases lo)
      case None
      have "redirected a block w (Suc k) (redirect_oblock 1 k None a v)"
        using redirected_step [OF v, of None] k by (simp add: n_def block_def None)
      then show ?thesis by (auto simp: None Let_def intro: redirected_probe)
    next
      case (Some q)
      have "q \<noteq> a" using assms(2) Some by (simp add: lo_def)
      then have "ofloats 1 (min k (m q)) q v = Some (block k)"
        using blk [OF Some, of k] ofloats_cong [of v q w] v by (simp add: redirected_def)
      moreover have "redirected a block w (Suc k) (redirect_oblock 1 k (Some (block k)) a v)"
        using redirected_step [OF v, of "Some (block k)"] k by (simp add: n_def)
      ultimately show ?thesis by (auto simp: Some Let_def intro: redirected_probe)
    qed
  qed
  ultimately obtain w' where w': "chain_render dbspl a w = Some w'" "redirected a block w n w'" by auto
  have "ofloats 1 k a w' = (case lo of None \<Rightarrow> Some Const_float_zeros | Some q \<Rightarrow> ofloats 1 (min k (m q)) q w)" if "k < n" for k
    using redirected_ofloats [OF w'(2) that] blk by (simp add: n_def block_def split: option.split)
  then show ?thesis using w' by (auto simp: redirected_def n_def lo_def m_def split: option.split)
qed

text \<open>The input of a chain reaches its first processor through the inlet.\<close>

lemma inlet_render_redirects:
  assumes "impl (procs w p) = Inlet a" and "p \<noteq> a" and "buffered (procs w p) 1"
    and "n_ichannels 1 (procs w a) = n_ochannels 1 (procs w p)"
    and src: "bus_oproc (ibus (procs w a) 1) \<noteq> Some p"
    and blk: "\<And>k. k < n_ichannels 1 (procs w a) \<Longrightarrow> ifloats 1 k a w = Some (block k)"
  shows "\<exists>w'. inlet_render p w = Some w' \<and> redirected p block w (n_ichannels 1 (procs w a)) w'"
proof -
  define n where "n = n_ichannels 1 (procs w a)"
  let ?f = "\<lambda>i w. Option.bind w (\<lambda>w. map_option (\<lambda>block. redirect_oblock 1 i (Some block) p w) (ifloats 1 i a w))"
  have "inlet_render p w = fold ?f [0..<n] (Some w)" using assms(1,4) by (simp add: inlet_render_def n_def)
  moreover have "\<exists>w'. fold ?f [0..<n] (Some w) = Some w' \<and> redirected p block w n w'"
  proof (rule fold_upto)
    show "redirected p block w 0 w" using assms(3) by (simp add: redirected_def)
    fix k v assume k: "k < n" and v: "redirected p block w k v"
    have same: "procs v q = procs w q" if "q \<noteq> p" for q using v that by (simp add: redirected_def)
    have "input_buffer 1 k a v = input_buffer 1 k a w"
      using same [of a] assms(2) same src by (auto simp: input_buffer_def Let_def split: option.split)
    moreover have "floats_at (input_buffer 1 k a w) v = floats_at (input_buffer 1 k a w) w"
      using same src by (auto simp: floats_at_def input_buffer_def Let_def split: option.split if_splits prod.splits)
    ultimately have "ifloats 1 k a v = Some (block k)" using blk [of k] k by (simp add: ifloats_def n_def)
    moreover have "redirected p block w (Suc k) (redirect_oblock 1 k (Some (block k)) p v)"
      using redirected_step [OF v, of "Some (block k)"] k assms(4) by (simp add: n_def)
    ultimately show "\<exists>v'. ?f k (Some v) = Some v' \<and> redirected p block w (Suc k) v'" by auto
  qed
  ultimately show ?thesis by (simp add: n_def)
qed


text \<open>
  After a chain's inlet has rendered, the first processor of the chain reads at its input the blocks that
  the chain has at its own input, the last channel being repeated.
\<close>

theorem chain_input_reaches_first:
  assumes ok: "chain_ok a w" and first: "processors (the_chain a w) = p # ps"
    and inlet: "inlet (the_chain a w) = t" "impl (procs w t) = Inlet a" "buffered (procs w t) 1"
    and join: "can_join (procs w t) (procs w p)" and n: "n_ichannels 1 (procs w a) = n_ochannels 1 (procs w t)"
    and src: "bus_oproc (ibus (procs w a) 1) \<noteq> Some t"
    and blocks: "\<And>k. k < n_ichannels 1 (procs w a) \<Longrightarrow> ifloats 1 k a w \<noteq> None" "0 < n_ichannels 1 (procs w a)"
  shows "\<exists>w'. inlet_render t w = Some w' \<and> (\<forall>k. ifloats 1 k p w' = ifloats 1 (min k (n_ichannels 1 (procs w a) - 1)) a w)"
proof -
  have m: "t \<noteq> a" "p \<noteq> t" using ok first inlet(1) by (auto simp: chain_ok_def members_ok_def)
  have ev: "EVENT_ISTREAM \<noteq> 1" by (simp add: EVENT_ISTREAM_def)
  have "linked_at (the_chain a w) w 0" using ok first by (simp add: chain_ok_def)
  then have "link w (p, 1) = Some (t, 1)"
    using first inlet(1) join ev by (auto simp: linked_at_def chain_link_def predecessor_def)
  then have l: "is_ibus (procs w p) 1" "bus_oproc (ibus (procs w p) 1) = Some t" "bus_obusid (ibus (procs w p) 1) = 1"
    using ev by (auto simp: link_def link_of_def split: if_splits)
  obtain w' where w': "inlet_render t w = Some w'"
      "redirected t (\<lambda>k. the (ifloats 1 k a w)) w (n_ichannels 1 (procs w a)) w'"
    using inlet_render_redirects [OF inlet(2) m(1) inlet(3) n src, of "\<lambda>k. the (ifloats 1 k a w)"] blocks(1) by auto
  have same: "procs w' p = procs w p" using w'(2) m(2) by (simp add: redirected_def)
  have b: "buffered (procs w' t) 1" using w'(2) by (simp add: redirected_def)
  have n': "n_ochannels 1 (procs w' t) = n_ochannels 1 (procs w t)"
    using w'(2) by (intro n_ochannels_cong) (simp_all add: redirected_def)
  have "ifloats 1 k p w' = ifloats 1 (min k (n_ichannels 1 (procs w a) - 1)) a w" for k
  proof -
    let ?k = "min k (n_ichannels 1 (procs w a) - 1)"
    have lt: "?k < n_ochannels 1 (procs w' t)" "?k < n_ichannels 1 (procs w a)" using blocks(2) n n' by auto
    have "fbuffer_count (obus (procs w' t) 1) = n_ichannels 1 (procs w a)" "is_obus (procs w' t) 1"
      using b n n' by (auto simp: buffered_def)
    then have "input_buffer 1 k p w' = output_buffer 1 ?k t w'"
      using l lt(2) by (auto simp: input_buffer_def output_buffer_def same Let_def min_def)
    then have "ifloats 1 k p w' = ofloats 1 ?k t w'" by (simp add: ifloats_def ofloats_def)
    also have "\<dots> = Some (out_blocks (procs w' t) ! ?k)" by (rule ofloats_buffered [OF b lt(1)])
    also have "\<dots> = ifloats 1 ?k a w" using w'(2) lt(2) blocks(1) [OF lt(2)] by (auto simp: redirected_def)
    finally show ?thesis .
  qed
  then show ?thesis using w'(1) by blast
qed


lemma chain_plays_last_output_witness:
  "\<exists>w'. chain_render (\<lambda>_. 0) 0 (upd_chain 0 (\<lambda>c. c\<lparr>last_output := Some 4\<rparr>) sample_chain) = Some w' \<and>
     ofloats 1 1 0 w' = Some (Fblock 4 0)"
proof -
  define w where "w = upd_chain 0 (\<lambda>c. c\<lparr>last_output := Some 4\<rparr>) sample_chain"
  have "buffered (procs w 0) 1" "buffered (procs w 4) 1" "n_ochannels 1 (procs w 0) = 2" "n_ochannels 1 (procs w 4) = 1"
    "last_output (the_chain 0 w) = Some 4" "ofloats 1 0 4 w = Some (Fblock 4 0)"
    unfolding w_def by code_simp+
  then show ?thesis using chain_plays_last_output [of w 0 "\<lambda>_. 0"] by (auto simp: w_def [symmetric])
qed

definition sample_linked :: "(unit, unit kind) world" where
  "sample_linked = connect 2 1 1 1 (upd_chain 0 (\<lambda>c. c\<lparr>processors := [2]\<rparr>) sample_chain)"

lemma sample_linked_ok: "chain_ok 0 sample_linked" "the_chain 0 sample_linked = (new_chain STEREO 1)\<lparr>processors := [2], eproc := Some 5\<rparr>"
proof -
  define w where "w = upd_chain 0 (\<lambda>c. c\<lparr>processors := [2]\<rparr>) sample_chain"
  have ok: "links_ok w" using sample_chain_ok by (simp add: w_def chain_ok_def)
  have f: "is_ibus (procs w 2) 1" "is_obus (procs w 1) 1" "channels_match (ibus (procs w 2) 1) (obus (procs w 1) 1)"
    "can_join (procs w 1) (procs w 2)" "\<not> has_event_input (procs w 2)" "the_chain 0 w = (new_chain STEREO 1)\<lparr>processors := [2], eproc := Some 5\<rparr>"
    unfolding w_def by code_simp+
  have l: "leads w ((link w)((2, 1) \<mapsto> (1, 1))) sample_linked"
    using connect_leads [OF ok, of 2 1 1 1] f(1-3) by (simp add: sample_linked_def w_def [symmetric])
  have none: "link sample_chain e = None" for e
    by (cases e) (auto simp: sample_chain_def sample_member_def Let_def link_def link_of_def ibus_def is_ibus_def n_ibuses_def
        n_obuses_def obus_def new_bus_def split: if_splits)
  show c: "the_chain 0 sample_linked = (new_chain STEREO 1)\<lparr>processors := [2], eproc := Some 5\<rparr>"
    using f(6) by (simp add: sample_linked_def w_def the_chain_def)
  have "linked_at (the_chain 0 sample_linked) sample_linked 0"
    using f(4,5) by (simp add: c linked_at_def leadsD(2) [OF l] chain_link_shape [OF leadsD(3) [OF l] ok])
      (simp add: chain_link_def predecessor_def new_chain_def event_link_def w_def none EVENT_ISTREAM_def)
  then show "chain_ok 0 sample_linked"
    using leadsD(1) [OF l] by (simp add: chain_ok_def members_ok_def c) (simp add: new_chain_def)
qed

lemma sample_linked_procs:
  "procs sample_linked 0 = procs (upd_chain 0 (\<lambda>c. c\<lparr>processors := [2]\<rparr>) sample_chain) 0"
  "procs sample_linked 1 = (upd_obus 1 (\<lambda>bus. bus\<lparr>fbuffer_concounter := fbuffer_concounter bus + 1\<rparr>) (procs sample_chain 1))\<lparr>outputs := [(2, 1)]\<rparr>"
  "procs sample_linked 2 = upd_ibus 1 (\<lambda>bus. bus\<lparr>bus_oproc := Some 1, bus_obusid := 1\<rparr>) (procs sample_chain 2)"
proof -
  define w where "w = upd_chain 0 (\<lambda>c. c\<lparr>processors := [2]\<rparr>) sample_chain"
  have f: "is_ibus (procs w 2) 1" "is_obus (procs w 1) 1" "channels_match (ibus (procs w 2) 1) (obus (procs w 1) 1)"
    "bus_oproc (ibus (procs w 2) 1) = None" "\<not> has_device (procs w 1)" "\<not> has_device (procs w 2)" "outputs (procs w 1) = []"
    unfolding w_def by code_simp+
  have s: "procs w 1 = procs sample_chain 1" "procs w 2 = procs sample_chain 2" by (simp_all add: w_def upd_chain_def)
  have "disconnect 2 1 w = w" using f by (simp add: disconnect_def EVENT_ISTREAM_def)
  then show "procs sample_linked 0 = procs (upd_chain 0 (\<lambda>c. c\<lparr>processors := [2]\<rparr>) sample_chain) 0"
    "procs sample_linked 1 = (upd_obus 1 (\<lambda>bus. bus\<lparr>fbuffer_concounter := fbuffer_concounter bus + 1\<rparr>) (procs sample_chain 1))\<lparr>outputs := [(2, 1)]\<rparr>"
    "procs sample_linked 2 = upd_ibus 1 (\<lambda>bus. bus\<lparr>bus_oproc := Some 1, bus_obusid := 1\<rparr>) (procs sample_chain 2)"
    using f s by (simp_all add: sample_linked_def w_def [symmetric] connect_def Let_def enotify_enqueue_def upd_ibus_def upd_obus_def)
qed

lemma chain_input_reaches_first_witness:
  "\<exists>w'. inlet_render 1 sample_linked = Some w' \<and> ifloats 1 1 2 w' = Some Zero_buffer"
proof -
  have c: "processors (the_chain 0 sample_linked) = [2]" "inlet (the_chain 0 sample_linked) = 1"
    by (simp_all add: sample_linked_ok(2)) (simp add: new_chain_def)
  have "is_ibus (procs sample_linked 0) 1" "bus_oproc (ibus (procs sample_linked 0) 1) = None"
    unfolding sample_linked_procs by code_simp+
  then have i: "ifloats 1 k 0 sample_linked = Some Zero_buffer" for k
    by (simp add: ifloats_def input_buffer_def floats_at_def)
  have f: "impl (procs sample_linked 1) = Inlet 0" "buffered (procs sample_linked 1) 1"
    "can_join (procs sample_linked 1) (procs sample_linked 2)"
    "n_ichannels 1 (procs sample_linked 0) = n_ochannels 1 (procs sample_linked 1)"
    "bus_oproc (ibus (procs sample_linked 0) 1) \<noteq> Some 1" "0 < n_ichannels 1 (procs sample_linked 0)"
    unfolding sample_linked_procs by code_simp+
  have "ifloats 1 k 0 sample_linked \<noteq> None" for k unfolding i by simp
  from chain_input_reaches_first [OF sample_linked_ok(1) c(1,2) f(1-5) this f(6), unfolded i] show ?thesis by blast
qed

end
