(* ===== verification/DeviceChain.thy ===== *)
theory DeviceChain
  imports AudioChain
begin

section \<open>Devices with sub-devices (ase/nativedevice.cc)\<close>

text \<open>
  A device with an \<open>AudioCombo\<close> lists its sub-devices in the main thread; the list of processors in the engine
  follows through asynchronous jobs, which run in order.  Creating a device, which may fail, is left to the
  caller: \<open>insert_device\<close> gets the new device.  The engine's jobs other than those of the device are not
  modelled here, nor whether a device is active.
\<close>

type_synonym device = nat

datatype device_job = Insert_job proc "proc option" | Remove_job proc device

record ('p, 'd) devices = "('p, 'd kind) world" +
  children :: "device list"
  parent_of :: "device \<Rightarrow> device option"
  audio_processor :: "device \<Rightarrow> proc option"
  jobs :: "device_job list"

text \<open>
  \<open>insert_device\<close> of the device \<open>self\<close> with the combo \<open>a\<close>: the child goes before its sibling or to the end.  The
  position in the list of processors is looked up when the job runs.
\<close>

definition insert_device ::
  "device \<Rightarrow> device \<Rightarrow> device option \<Rightarrow> ('p, 'd, 'x) devices_scheme \<Rightarrow> device option \<times> ('p, 'd, 'x) devices_scheme" where
  "insert_device self d sibling w =
     (let siblingp = Option.bind sibling (audio_processor w);
          cpos = index_of (\<lambda>c. sibling = Some c) (children w);
          w = w\<lparr>children := (if cpos < 0 then children w @ [d] else insert_at (nat cpos) d (children w)),
                parent_of := (parent_of w)(d := Some self)\<rparr> in
      case audio_processor w d of
        None \<Rightarrow> (None, w)
      | Some sproc \<Rightarrow> (Some d, w\<lparr>jobs := jobs w @ [Insert_job sproc siblingp]\<rparr>))"

text \<open>The child keeps its parent until the job has run.\<close>

definition remove_device :: "device \<Rightarrow> device \<Rightarrow> ('p, 'd, 'x) devices_scheme \<Rightarrow> ('p, 'd, 'x) devices_scheme" where
  "remove_device self sub w =
     (let nth = index_of (\<lambda>c. c = sub) (children w) in
      if parent_of w sub \<noteq> Some self \<or> nth < 0 then w
      else
        let w = w\<lparr>children := take (nat nth) (children w) @ drop (nat nth + 1) (children w)\<rparr> in
        case audio_processor w sub of
          None \<Rightarrow> w
        | Some sproc \<Rightarrow> w\<lparr>jobs := jobs w @ [Remove_job sproc sub]\<rparr>)"

text \<open>The loop ends when there is no child; a removal that fails would repeat for ever.\<close>

partial_function (option) remove_all_devices :: "device \<Rightarrow> ('p, 'd, 'x) devices_scheme \<Rightarrow> ('p, 'd, 'x) devices_scheme option" where
  "remove_all_devices self w =
     (if children w = [] then Some w else remove_all_devices self (remove_device self (last (children w)) w))"

text \<open>The jobs, as the engine runs them; the parent is reset when a removal is destroyed.\<close>

fun run_job :: "proc \<Rightarrow> device_job \<Rightarrow> ('p, 'd, 'x) devices_scheme \<Rightarrow> ('p, 'd, 'x) devices_scheme option" where
  "run_job a (Insert_job sproc siblingp) w =
     (let pos = (case siblingp of Some s \<Rightarrow> find_pos s (the_chain a w) | None \<Rightarrow> -1) in Some (insert_proc sproc pos a w))"
| "run_job a (Remove_job sproc sub) w =
     map_option (\<lambda>(_, w). w\<lparr>parent_of := (parent_of w)(sub := None)\<rparr>) (remove_proc sproc a w)"

definition engine_job :: "proc \<Rightarrow> ('p, 'd, 'x) devices_scheme \<Rightarrow> ('p, 'd, 'x) devices_scheme option" where
  "engine_job a w = (case jobs w of [] \<Rightarrow> Some w | j # js \<Rightarrow> run_job a j (w\<lparr>jobs := js\<rparr>))"


declare remove_all_devices.simps [code]

subsection \<open>The lists of devices and processors agree\<close>

datatype device_op = New_device device "device option" | Drop_device device | Engine_job

fun device_step :: "device \<Rightarrow> proc \<Rightarrow> device_op \<Rightarrow> ('p, 'd, 'x) devices_scheme \<Rightarrow> ('p, 'd, 'x) devices_scheme option" where
  "device_step self a (New_device d sibling) w = Some (snd (insert_device self d sibling w))"
| "device_step self a (Drop_device d) w = Some (remove_device self d w)"
| "device_step self a Engine_job w = engine_job a w"

fun device_run :: "device \<Rightarrow> proc \<Rightarrow> device_op list \<Rightarrow> ('p, 'd, 'x) devices_scheme \<Rightarrow> ('p, 'd, 'x) devices_scheme option" where
  "device_run self a [] w = Some w"
| "device_run self a (op # ops) w = (case device_step self a op w of None \<Rightarrow> None | Some w \<Rightarrow> device_run self a ops w)"

fun new_devices :: "device_op list \<Rightarrow> device list" where
  "new_devices [] = []"
| "new_devices (New_device d _ # ops) = d # new_devices ops"
| "new_devices (_ # ops) = new_devices ops"

text \<open>The effect of jobs on the list of processors.\<close>

fun job_list :: "device_job \<Rightarrow> proc list \<Rightarrow> proc list" where
  "job_list (Insert_job p sp) ps =
     insert_at (insert_index (case sp of Some s \<Rightarrow> index_of (\<lambda>q. q = s) ps | None \<Rightarrow> -1) (length ps)) p ps"
| "job_list (Remove_job p d) ps = remove1 p ps"

fun jobs_fresh :: "proc set \<Rightarrow> device_job list \<Rightarrow> proc list \<Rightarrow> bool" where
  "jobs_fresh used [] ps \<longleftrightarrow> True"
| "jobs_fresh used (j # js) ps \<longleftrightarrow>
     (case j of Insert_job p _ \<Rightarrow> p \<notin> used \<and> p \<notin> set ps | _ \<Rightarrow> True) \<and> jobs_fresh used js (job_list j ps)"

lemma jobs_fresh_append:
  "jobs_fresh used (js @ [j]) ps \<longleftrightarrow> jobs_fresh used js ps \<and> jobs_fresh used [j] (fold job_list js ps)"
  by (induction js arbitrary: ps) auto

lemma index_of_map: "index_of P (map f xs) = index_of (\<lambda>x. P (f x)) xs"
  by (induction xs) simp_all

lemma map_insert_at: "map f (insert_at k x xs) = insert_at k (f x) (map f xs)"
  by (simp add: insert_at_def take_map drop_map)

lemma index_of_bounds: "index_of P xs = -1 \<or> (0 \<le> index_of P xs \<and> index_of P xs < int (length xs) \<and> P (xs ! nat (index_of P xs)))"
  using index_of_cases [of P xs] by auto

lemma remove_at_index:
  assumes "x \<in> set xs"
  shows "0 \<le> index_of (\<lambda>y. y = x) xs" and
    "take (nat (index_of (\<lambda>y. y = x) xs)) xs @ drop (nat (index_of (\<lambda>y. y = x) xs) + 1) xs = remove1 x xs"
proof -
  have "0 \<le> index_of (\<lambda>y. y = x) xs \<and> take (nat (index_of (\<lambda>y. y = x) xs)) xs @ drop (nat (index_of (\<lambda>y. y = x) xs) + 1) xs = remove1 x xs"
    using assms
  proof (induction xs)
    case (Cons y ys)
    show ?case
    proof (cases "y = x")
      case False
      then have ih: "0 \<le> index_of (\<lambda>y. y = x) ys"
        "take (nat (index_of (\<lambda>y. y = x) ys)) ys @ drop (nat (index_of (\<lambda>y. y = x) ys) + 1) ys = remove1 x ys"
        using Cons by auto
      then have "nat (1 + index_of (\<lambda>y. y = x) ys) = Suc (nat (index_of (\<lambda>y. y = x) ys))" by simp
      then show ?thesis using ih False by (simp add: Let_def)
    qed simp
  qed simp
  then show "0 \<le> index_of (\<lambda>y. y = x) xs"
    "take (nat (index_of (\<lambda>y. y = x) xs)) xs @ drop (nat (index_of (\<lambda>y. y = x) xs) + 1) xs = remove1 x xs" by auto
qed

text \<open>The jobs that wait lead from the processors of the chain to those of the devices.\<close>

definition mirrors :: "device \<Rightarrow> proc \<Rightarrow> (device \<Rightarrow> proc) \<Rightarrow> device set \<Rightarrow> ('p, 'd, 'x) devices_scheme \<Rightarrow> bool" where
  "mirrors self a pr seen w \<longleftrightarrow> chain_ok a w \<and> audio_processor w = Some \<circ> pr \<and>
     fold job_list (jobs w) (processors (the_chain a w)) = map pr (children w) \<and>
     jobs_fresh ({a, inlet (the_chain a w)} \<union> set_option (eproc (the_chain a w))) (jobs w) (processors (the_chain a w)) \<and>
     distinct (children w) \<and> set (children w) \<subseteq> seen \<and> (\<forall>d\<in>set (children w). parent_of w d = Some self) \<and>
     (\<forall>p d. Remove_job p d \<in> set (jobs w) \<longrightarrow> d \<in> seen \<and> d \<notin> set (children w)) \<and>
     (\<forall>d. pr d \<notin> {a, inlet (the_chain a w)} \<union> set_option (eproc (the_chain a w)))"


subsection \<open>Operations of the engine leave the devices alone\<close>

lemma more_elementary [simp]:
  "world.more (upd p f w) = world.more w" "world.more (reschedule w) = world.more w"
  "world.more (enotify_enqueue p m w) = world.more w"
  by (simp_all add: upd_def reschedule_def enotify_enqueue_def Let_def)

lemma more_upd_chain [simp]: "world.more (upd_chain a g w) = world.more w"
  by (simp add: upd_chain_def)

lemma more_disconnect_event [simp]: "world.more (disconnect_event_input p w) = world.more w"
  by (simp add: disconnect_event_input_def Let_def split: option.split)

lemma more_disconnect [simp]: "world.more (disconnect p i w) = world.more w"
  by (simp add: disconnect_def Let_def split: option.split)

lemma more_connect [simp]:
  "world.more (connect_event_input p q w) = world.more w" "world.more (connect p i q ob w) = world.more w"
  by (simp_all add: connect_event_input_def connect_def Let_def)

lemma more_fold: "(\<And>x w. world.more (f x w) = world.more w) \<Longrightarrow> world.more (fold f xs w) = world.more w"
  by (induction xs arbitrary: w) simp_all

lemma more_disconnect_ibuses [simp]: "world.more (disconnect_ibuses p w) = world.more w"
  by (simp add: disconnect_ibuses_def Let_def more_fold)

lemma more_disconnect_obuses: "disconnect_obuses p w = Some w' \<Longrightarrow> world.more w' = world.more w"
proof -
  have "world.more w' = world.more w" if "disconnect_loop p w = Some w'" for w
    by (rule disconnect_loop.raw_induct [where P = "\<lambda>p w w'. world.more w' = world.more w", OF _ that])
      (auto split: if_splits prod.splits)
  then show "disconnect_obuses p w = Some w' \<Longrightarrow> world.more w' = world.more w"
    by (auto simp: disconnect_obuses_def split: if_splits)
qed

lemma more_chain_up [simp]: "world.more (snd (chain_up a p q w)) = world.more w"
  by (simp add: chain_up_def Let_def split: option.split)

lemma more_reconnect [simp]: "world.more (reconnect k a w) = world.more w"
  by (simp add: reconnect_def Let_def more_fold)

lemma more_insert_proc [simp]: "world.more (insert_proc p k a w) = world.more w"
  by (simp add: insert_proc_def Let_def)

lemma more_remove_proc: "remove_proc p a w = Some (b, w') \<Longrightarrow> world.more w' = world.more w"
  by (auto simp: remove_proc_def Let_def dest!: more_disconnect_obuses split: if_splits option.splits)

lemma devices_more:
  assumes "world.more w' = world.more w"
  shows "children w' = children w" "parent_of w' = parent_of w" "audio_processor w' = audio_processor w" "jobs w' = jobs w"
  using assms by (cases w; cases w'; simp)+

lemma chain_ok_procs:
  assumes "procs w' = procs w"
  shows "chain_ok a w' = chain_ok a w" "the_chain a w' = the_chain a w"
  unfolding chain_ok_def links_ok_def link_def linked_at_def chain_link_def event_link_def the_chain_def assms
  by (rule refl)+

subsection \<open>Sessions\<close>

lemma mirrors_insert:
  assumes m: "mirrors self a pr seen w" and inj: "inj pr" and d: "d \<notin> seen"
  shows "mirrors self a pr (insert d seen) (snd (insert_device self d sibling w))"
proof -
  define ps where "ps = fold job_list (jobs w) (processors (the_chain a w))"
  define cpos where "cpos = index_of (\<lambda>c. sibling = Some c) (children w)"
  define cs where "cs = (if cpos < 0 then children w @ [d] else insert_at (nat cpos) d (children w))"
  have ps: "ps = map pr (children w)" and ap: "audio_processor w = Some \<circ> pr" using m by (simp_all add: mirrors_def ps_def)
  define w' where "w' = w\<lparr>children := cs, parent_of := (parent_of w)(d := Some self),
    jobs := jobs w @ [Insert_job (pr d) (map_option pr sibling)]\<rparr>"
  have w': "snd (insert_device self d sibling w) = w'"
    by (cases sibling) (simp_all add: insert_device_def ap cpos_def cs_def w'_def Let_def)
  have find: "index_of (\<lambda>q. q = pr s) ps = index_of (\<lambda>c. c = s) (children w)" for s
    by (simp add: ps index_of_map inj_eq [OF inj])
  have "(case map_option pr sibling of Some s \<Rightarrow> index_of (\<lambda>q. q = s) ps | None \<Rightarrow> -1) = cpos"
  proof (cases sibling)
    case None
    have "index_of (\<lambda>c. False) xs = -1" for xs :: "device list" by (induction xs) simp_all
    then show ?thesis by (simp add: None cpos_def)
  qed (simp add: find cpos_def eq_commute)
  then have "job_list (Insert_job (pr d) (map_option pr sibling)) ps = insert_at (insert_index cpos (length ps)) (pr d) ps" by simp
  also have "\<dots> = map pr cs"
    using index_of_bounds [of "\<lambda>c. sibling = Some c" "children w"] unfolding cpos_def [symmetric]
    by (auto simp: cs_def insert_index_def map_insert_at ps insert_at_def take_map drop_map)
  finally have list: "fold job_list (jobs w') (processors (the_chain a w)) = map pr cs" by (simp add: w'_def ps_def)
  have set: "set cs = insert d (set (children w))" "distinct cs"
  proof -
    have "set (insert_at k d xs) = insert d (set xs)" "distinct (insert_at k d xs) = distinct (d # xs)" for k and xs :: "device list"
    proof -
      have "distinct (ys @ d # zs) = distinct (d # ys @ zs)" "set (ys @ d # zs) = insert d (set (ys @ zs))" for ys zs by auto
      from this [of "take k xs" "drop k xs", unfolded append_take_drop_id]
      show "set (insert_at k d xs) = insert d (set xs)" "distinct (insert_at k d xs) = distinct (d # xs)" by (simp_all add: insert_at_def)
    qed
    then show "set cs = insert d (set (children w))" "distinct cs"
      using m d by (auto simp: cs_def mirrors_def)
  qed
  have "pr d \<notin> set ps" using m d inj by (auto simp: ps mirrors_def inj_eq)
  then have "jobs_fresh ({a, inlet (the_chain a w)} \<union> set_option (eproc (the_chain a w))) (jobs w') (processors (the_chain a w))"
    using m unfolding w'_def by (auto simp: mirrors_def jobs_fresh_append ps_def)
  moreover have "procs w' = procs w" by (simp add: w'_def)
  note cong = chain_ok_procs [OF this]
  ultimately show ?thesis
    unfolding w' using m list set d by (auto simp: mirrors_def cong) (auto simp: w'_def)
qed

lemma mirrors_remove:
  assumes m: "mirrors self a pr seen w" and inj: "inj pr"
  shows "mirrors self a pr seen (remove_device self d w)"
proof (cases "d \<in> set (children w)")
  case False
  then have "index_of (\<lambda>c. c = d) (children w) = -1" using index_of_cases [of "\<lambda>c. c = d" "children w"] nth_mem by fastforce
  then show ?thesis using m by (simp add: remove_device_def)
next
  case True
  define w' where "w' = w\<lparr>children := remove1 d (children w), jobs := jobs w @ [Remove_job (pr d) d]\<rparr>"
  have w': "remove_device self d w = w'"
    using m True remove_at_index [OF True] by (simp add: remove_device_def mirrors_def w'_def Let_def)
  have "remove1 (pr d) (map pr xs) = map pr (remove1 d xs)" for xs by (induction xs) (simp_all add: inj_eq [OF inj])
  then have list: "fold job_list (jobs w') (processors (the_chain a w)) = map pr (children w')"
    using m by (simp add: w'_def mirrors_def)
  have "procs w' = procs w" by (simp add: w'_def)
  note cong = chain_ok_procs [OF this]
  have "set (remove1 d (children w)) = set (children w) - {d}" using m by (simp add: mirrors_def set_remove1_eq)
  then show ?thesis
    unfolding w' using m list True by (auto simp: mirrors_def cong jobs_fresh_append) (auto simp: w'_def jobs_fresh_append)
qed

lemma mirrors_engine:
  assumes m: "mirrors self a pr seen w"
  shows "\<exists>w'. engine_job a w = Some w' \<and> mirrors self a pr seen w'"
proof (cases "jobs w")
  case Nil
  then show ?thesis using m by (simp add: engine_job_def)
next
  case (Cons j js)
  define v where "v = w\<lparr>jobs := js\<rparr>"
  have procs: "procs v = procs w" by (simp add: v_def)
  note cong = chain_ok_procs [OF procs]
  have vf: "children v = children w" "parent_of v = parent_of w" "audio_processor v = audio_processor w" "jobs v = js"
    by (simp_all add: v_def)
  have ok: "chain_ok a v" using m by (simp add: mirrors_def cong)
  show ?thesis
  proof (cases j)
    case (Insert_job p sp)
    define pos where "pos = (case sp of Some s \<Rightarrow> find_pos s (the_chain a v) | None \<Rightarrow> -1)"
    define w' where "w' = insert_proc p pos a v"
    have n: "p \<noteq> a" "p \<noteq> inlet (the_chain a v)" "p \<notin> set (processors (the_chain a v))" "eproc (the_chain a v) \<noteq> Some p"
      using m by (auto simp: mirrors_def Cons Insert_job cong)
    note i = insert_ok [OF ok n, of pos, folded w'_def, unfolded cong(2)]
    have "world.more w' = world.more v" by (simp add: w'_def)
    note f = devices_more [OF this, unfolded vf]
    have "processors (the_chain a w') = job_list j (processors (the_chain a w))"
      by (simp add: i(2) Insert_job pos_def find_pos_def cong(2) cong: option.case_cong)
    then have "mirrors self a pr seen w'"
      using m i f by (auto simp: mirrors_def Cons)
    moreover have "engine_job a w = Some w'"
      by (cases sp) (simp_all add: engine_job_def Cons Insert_job v_def [symmetric] w'_def pos_def Let_def)
    ultimately show ?thesis by blast
  next
    case (Remove_job p d)
    obtain u where r: "remove_proc p a v = Some (p \<in> set (processors (the_chain a v)), u)" "chain_ok a u"
        "the_chain a u = (the_chain a v)\<lparr>processors := remove1 p (processors (the_chain a v))\<rparr>"
      by (rule remove_ok [OF ok, of p])
    define w' where "w' = u\<lparr>parent_of := (parent_of u)(d := None)\<rparr>"
    have "procs w' = procs u" by (simp add: w'_def)
    note cong' = chain_ok_procs [OF this]
    note f = devices_more [OF more_remove_proc [OF r(1)], unfolded vf]
    have wf: "children w' = children w" "parent_of w' = (parent_of w)(d := None)" "audio_processor w' = audio_processor w" "jobs w' = js"
      using f by (simp_all add: w'_def)
    have "d \<notin> set (children w)" using m by (auto simp: mirrors_def Cons Remove_job)
    then have "mirrors self a pr seen w'"
      using m r(2,3) by (auto simp: mirrors_def Cons Remove_job cong cong' wf)
    moreover have "engine_job a w = Some w'" using r(1) by (simp add: engine_job_def Cons Remove_job v_def w'_def)
    ultimately show ?thesis by blast
  qed
qed


text \<open>
  C20: However insertions and removals of sub-devices interleave with the jobs of the engine, the session
  returns, the chain stays connected, and once no job waits its processors are those of the sub-devices, in
  their order.
\<close>

theorem devices_mirror_processors:
  assumes "chain_ok a w" and "jobs w = []" and "audio_processor w = Some \<circ> pr" and "inj pr"
    and "processors (the_chain a w) = map pr (children w)"
    and "\<forall>d. pr d \<notin> {a, inlet (the_chain a w)} \<union> set_option (eproc (the_chain a w))"
    and "\<forall>d\<in>set (children w). parent_of w d = Some self"
    and "distinct (children w @ new_devices ops)"
  shows "\<exists>w'. device_run self a ops w = Some w' \<and> chain_ok a w' \<and>
    fold job_list (jobs w') (processors (the_chain a w')) = map pr (children w') \<and>
    (jobs w' = [] \<longrightarrow> processors (the_chain a w') = map pr (children w'))"
proof -
  have "\<exists>w'. device_run self a ops v = Some w' \<and> chain_ok a w' \<and>
      fold job_list (jobs w') (processors (the_chain a w')) = map pr (children w')"
    if "mirrors self a pr seen v" "distinct (new_devices ops)" "set (new_devices ops) \<inter> seen = {}" for v seen
    using that
  proof (induction ops arbitrary: v seen)
    case Nil
    then show ?case by (simp add: mirrors_def)
  next
    case (Cons op ops)
    show ?case
    proof (cases op)
      case (New_device d sibling)
      have "d \<notin> seen" using Cons.prems(3) by (simp add: New_device)
      note i = mirrors_insert [OF Cons.prems(1) assms(4) this, of sibling]
      show ?thesis using Cons.IH [OF i] Cons.prems(2,3) by (auto simp: New_device)
    next
      case (Drop_device d)
      show ?thesis
        using Cons.IH [OF mirrors_remove [OF Cons.prems(1) assms(4)], of d] Cons.prems(2,3) by (simp add: Drop_device)
    next
      case Engine_job
      obtain v' where "engine_job a v = Some v'" "mirrors self a pr seen v'"
        using mirrors_engine [OF Cons.prems(1)] by blast
      then show ?thesis using Cons.IH [of seen v'] Cons.prems(2,3) by (simp add: Engine_job)
    qed
  qed
  moreover have "mirrors self a pr (set (children w)) w" using assms by (simp add: mirrors_def)
  moreover have "distinct (new_devices ops)" "set (new_devices ops) \<inter> set (children w) = {}" using assms(8) by auto
  ultimately obtain w' where "device_run self a ops w = Some w'" "chain_ok a w'"
      "fold job_list (jobs w') (processors (the_chain a w')) = map pr (children w')" by blast
  then show ?thesis by (intro exI [of _ w']) auto
qed

definition sample_devices :: "(unit, unit) devices" where
  "sample_devices = world.extend sample_chain
     (devices.fields [] (\<lambda>_. None) (\<lambda>d. Some (d + 10)) [])"

lemma devices_mirror_processors_witness:
  "\<exists>w'. device_run 0 0 [New_device 7 None, New_device 8 (Some 7), Engine_job, Drop_device 7, Engine_job, Engine_job]
       sample_devices = Some w' \<and> chain_ok 0 w' \<and>
     fold job_list (jobs w') (processors (the_chain 0 w')) = map (\<lambda>d. d + 10) (children w') \<and>
     (jobs w' = [] \<longrightarrow> processors (the_chain 0 w') = map (\<lambda>d. d + 10) (children w'))"
proof -
  have p: "procs sample_devices = procs sample_chain" by (simp add: sample_devices_def world.defs devices.defs)
  have c: "chain_ok 0 sample_devices"
    using sample_chain_ok
    unfolding chain_ok_def links_ok_def link_def linked_at_def chain_link_def event_link_def the_chain_def p .
  have t: "the_chain 0 sample_devices = (new_chain STEREO 1)\<lparr>eproc := Some 5\<rparr>"
    unfolding the_chain_def p by code_simp
  have f: "children sample_devices = []" "jobs sample_devices = []" "audio_processor sample_devices = Some \<circ> (\<lambda>d. d + 10)"
    by (simp_all add: sample_devices_def world.defs devices.defs comp_def)
  show ?thesis
    by (rule devices_mirror_processors [OF c]) (simp_all add: t f inj_def, simp_all add: new_chain_def)
qed

end
