(* ===== verification/Engine.thy ===== *)
theory Engine
  imports AudioChain
begin

section \<open>The schedule of the audio engine (ase/engine.cc, ase/processor.cc)\<close>

text \<open>
  The engine keeps an array of levels, each the first processor of a list that is linked through
  \<open>sched_next\<close>.  The virtual \<open>reset\<close> of a processor is the argument \<open>do_reset\<close>.
\<close>

subsection \<open>State\<close>

record ('p, 'd) engine = "('p, 'd kind) world" +
  schedule :: "proc option list"
  engine_stamp :: nat
  oprocs :: "proc list"

type_synonym ('p, 'd, 'x) engines = "('p, 'd, 'x) engine_scheme"

definition schedule_queue_update :: "('p, 'd, 'x) engines \<Rightarrow> ('p, 'd, 'x) engines" where
  "schedule_queue_update w = w\<lparr>schedule_invalid := True\<rparr>"

subsection \<open>Adding and clearing\<close>

text \<open>The inner loop of \<open>schedule_clear\<close> follows the links of one level.\<close>

partial_function (option) clear_level :: "proc option \<Rightarrow> ('p, 'd, 'x) engines \<Rightarrow> ('p, 'd, 'x) engines option" where
  "clear_level cur w =
     (case cur of
        None \<Rightarrow> Some w
      | Some p \<Rightarrow>
          let cur = sched_next (procs w p) in
          clear_level cur (upd p (\<lambda>P. P\<lparr>flags := flags P - {SCHEDULED}, sched_next := None\<rparr>) w))"

fun clear_levels :: "proc option list \<Rightarrow> ('p, 'd, 'x) engines \<Rightarrow> ('p, 'd, 'x) engines option" where
  "clear_levels [] w = Some w"
| "clear_levels (cur # levels) w = Option.bind (clear_level cur w) (clear_levels levels)"

definition schedule_clear :: "('p, 'd, 'x) engines \<Rightarrow> ('p, 'd, 'x) engines option" where
  "schedule_clear w =
     map_option (\<lambda>w. w\<lparr>schedule_invalid := True\<rparr>) (clear_levels (rev (schedule w)) (w\<lparr>schedule := []\<rparr>))"

definition schedule_add ::
  "(proc \<Rightarrow> nat \<Rightarrow> ('p, 'd, 'x) engines \<Rightarrow> ('p, 'd, 'x) engines) \<Rightarrow> proc \<Rightarrow> nat \<Rightarrow>
   ('p, 'd, 'x) engines \<Rightarrow> ('p, 'd, 'x) engines" where
  "schedule_add do_reset p level w =
     (if SCHEDULED \<in> flags (procs w p) \<or> sched_next (procs w p) \<noteq> None then w
      else
        let sch = schedule w @ replicate (level + 1 - length (schedule w)) None;
            w = upd p (\<lambda>P. P\<lparr>sched_next := sch ! level\<rparr>) w;
            w = w\<lparr>schedule := sch[level := Some p]\<rparr>;
            w = upd p (\<lambda>P. P\<lparr>flags := insert SCHEDULED (flags P)\<rparr>) w in
        if render_stamp (procs w p) \<noteq> engine_stamp w then reset_state do_reset (engine_stamp w) p w else w)"

subsection \<open>Scheduling a processor after its inputs\<close>

text \<open>
  Input 0 is the event source, the others are the input buses.  The recursion has no guard against cycles, so
  it runs on fuel: \<open>None\<close> for every fuel means that it does not return.
\<close>

definition source_of :: "('p, 'c) processor \<Rightarrow> nat \<Rightarrow> proc option" where
  "source_of P i =
     (if i = 0 then (case estreams P of None \<Rightarrow> None | Some es \<Rightarrow> es_oproc es) else bus_oproc (ibus P i))"

text \<open>The argument \<open>sched\<close> is the recursive call.\<close>

type_synonym ('p, 'd, 'x) scheduling = "proc \<Rightarrow> ('p, 'd, 'x) engines \<Rightarrow> (nat \<times> ('p, 'd, 'x) engines) option"

fun schedule_inputs :: "('p, 'd, 'x) scheduling \<Rightarrow> proc \<Rightarrow> nat list \<Rightarrow> nat \<Rightarrow> ('p, 'd, 'x) engines \<Rightarrow>
    (nat \<times> ('p, 'd, 'x) engines) option" where
  "schedule_inputs sched p [] level w = Some (level, w)"
| "schedule_inputs sched p (i # is) level w =
     (case source_of (procs w p) i of
        None \<Rightarrow> schedule_inputs sched p is level w
      | Some q \<Rightarrow> Option.bind (sched q w) (\<lambda>(l, w). schedule_inputs sched p is (max level l) w))"

fun schedule_members :: "('p, 'd, 'x) scheduling \<Rightarrow> proc \<Rightarrow> proc list \<Rightarrow> nat \<Rightarrow> ('p, 'd, 'x) engines \<Rightarrow>
    (nat \<times> ('p, 'd, 'x) engines) option" where
  "schedule_members sched a [] level w = Some (level, w)"
| "schedule_members sched a (q # qs) level w =
     Option.bind (sched q w) (\<lambda>(l, w).
       let w = (if n_obuses (procs w q) \<noteq> 0 then upd_chain a (\<lambda>c. c\<lparr>last_output := Some q\<rparr>) w else w) in
       schedule_members sched a qs (max level l) w)"

definition schedule_children :: "('p, 'd, 'x) scheduling \<Rightarrow> proc \<Rightarrow> ('p, 'd, 'x) engines \<Rightarrow>
    (nat \<times> ('p, 'd, 'x) engines) option" where
  "schedule_children sched p w =
     (case impl (procs w p) of
        Chain c \<Rightarrow>
          let w = upd_chain p (\<lambda>c. c\<lparr>last_output := None\<rparr>) w in
          Option.bind (sched (inlet c) w) (\<lambda>(level, w).
            schedule_members sched p (processors (the_chain p w)) level w)
      | _ \<Rightarrow> Some (0, w))"

primrec schedule_processor ::
  "(proc \<Rightarrow> nat \<Rightarrow> ('p, 'd, 'x) engines \<Rightarrow> ('p, 'd, 'x) engines) \<Rightarrow> nat \<Rightarrow> ('p, 'd, 'x) scheduling" where
  "schedule_processor do_reset 0 = (\<lambda>p w. None)"
| "schedule_processor do_reset (Suc n) = (\<lambda>p w.
     Option.bind (schedule_inputs (schedule_processor do_reset n) p [0..<n_ibuses (procs w p) + 1] 0 w) (\<lambda>(level, w).
     Option.bind (schedule_children (schedule_processor do_reset n) p w) (\<lambda>(l, w).
       let level = max level l in
       Some (level + 1, schedule_add do_reset p level w))))"

text \<open>The part of \<open>driver_dispatcher\<close> that renews the schedule, with fuel for each output processor.\<close>

fun schedule_oprocs ::
  "(proc \<Rightarrow> nat \<Rightarrow> ('p, 'd, 'x) engines \<Rightarrow> ('p, 'd, 'x) engines) \<Rightarrow> nat \<Rightarrow> proc list \<Rightarrow> ('p, 'd, 'x) engines \<Rightarrow>
   ('p, 'd, 'x) engines option" where
  "schedule_oprocs do_reset n [] w = Some w"
| "schedule_oprocs do_reset n (p # ps) w =
     Option.bind (schedule_processor do_reset n p w) (\<lambda>(_, w). schedule_oprocs do_reset n ps w)"

definition renew_schedule ::
  "(proc \<Rightarrow> nat \<Rightarrow> ('p, 'd, 'x) engines \<Rightarrow> ('p, 'd, 'x) engines) \<Rightarrow> nat \<Rightarrow> ('p, 'd, 'x) engines \<Rightarrow>
   ('p, 'd, 'x) engines option" where
  "renew_schedule do_reset n w =
     (if \<not> schedule_invalid w then Some w
      else Option.bind (schedule_clear w) (\<lambda>w.
        map_option (\<lambda>w. w\<lparr>schedule_invalid := False\<rparr>) (schedule_oprocs do_reset n (oprocs w) w)))"

definition enable_output :: "proc \<Rightarrow> bool \<Rightarrow> ('p, 'd, 'x) engines \<Rightarrow> ('p, 'd, 'x) engines" where
  "enable_output p onoff w =
     (if onoff \<and> ENGINE_OUTPUT \<notin> flags (procs w p) then
        schedule_queue_update (upd p (\<lambda>P. P\<lparr>flags := insert ENGINE_OUTPUT (flags P)\<rparr>) (w\<lparr>oprocs := oprocs w @ [p]\<rparr>))
      else if \<not> onoff \<and> ENGINE_OUTPUT \<in> flags (procs w p) then
        schedule_queue_update (upd p (\<lambda>P. P\<lparr>flags := flags P - {ENGINE_OUTPUT}\<rparr>)
          (w\<lparr>oprocs := snd (erase_first (\<lambda>q. q = p) (oprocs w))\<rparr>))
      else w)"

definition enable_engine_output :: "proc \<Rightarrow> bool \<Rightarrow> ('p, 'd, 'x) engines \<Rightarrow> ('p, 'd, 'x) engines" where
  "enable_engine_output p onoff w =
     (if onoff \<and> n_obuses (procs w p) = 0 \<and> \<not> has_event_output (procs w p) then w else enable_output p onoff w)"


subsection \<open>The levels as lists\<close>

fun sched_path :: "('p, 'd, 'x) engines \<Rightarrow> proc option \<Rightarrow> proc list \<Rightarrow> bool" where
  "sched_path w cur [] \<longleftrightarrow> cur = None"
| "sched_path w cur (p # ps) \<longleftrightarrow> cur = Some p \<and> sched_path w (sched_next (procs w p)) ps"

definition sched_levels :: "('p, 'd, 'x) engines \<Rightarrow> proc list list \<Rightarrow> bool" where
  "sched_levels w ls \<longleftrightarrow> list_all2 (sched_path w) (schedule w) ls \<and> distinct (concat ls) \<and>
     (\<forall>p. SCHEDULED \<in> flags (procs w p) \<longleftrightarrow> p \<in> set (concat ls)) \<and>
     (\<forall>p. p \<notin> set (concat ls) \<longrightarrow> sched_next (procs w p) = None)"

definition members_of :: "('p, 'd kind) processor \<Rightarrow> proc list" where
  "members_of P = (case impl P of Chain c \<Rightarrow> inlet c # processors c | _ \<Rightarrow> [])"

text \<open>What the recursion reads of the graph, and what the lists of levels read.\<close>

definition same_graph :: "('p, 'd, 'x) engines \<Rightarrow> ('p, 'd, 'x) engines \<Rightarrow> bool" where
  "same_graph w w' \<longleftrightarrow> (\<forall>q. source_of (procs w' q) = source_of (procs w q) \<and> n_ibuses (procs w' q) = n_ibuses (procs w q) \<and>
     members_of (procs w' q) = members_of (procs w q))"

definition same_schedule :: "('p, 'd, 'x) engines \<Rightarrow> ('p, 'd, 'x) engines \<Rightarrow> bool" where
  "same_schedule w w' \<longleftrightarrow> schedule w' = schedule w \<and>
     (\<forall>q. (SCHEDULED \<in> flags (procs w' q) \<longleftrightarrow> SCHEDULED \<in> flags (procs w q)) \<and> sched_next (procs w' q) = sched_next (procs w q))"

definition quiet_reset :: "(proc \<Rightarrow> nat \<Rightarrow> ('p, 'd, 'x) engines \<Rightarrow> ('p, 'd, 'x) engines) \<Rightarrow> bool" where
  "quiet_reset do_reset \<longleftrightarrow> (\<forall>p n w. same_graph w (do_reset p n w) \<and> same_schedule w (do_reset p n w))"

lemma same_graph_refl [simp]: "same_graph w w" and same_schedule_refl [simp]: "same_schedule w w"
  by (simp_all add: same_graph_def same_schedule_def)

lemma same_graph_trans: "same_graph w w1 \<Longrightarrow> same_graph w1 w2 \<Longrightarrow> same_graph w w2"
  by (simp add: same_graph_def)

lemma same_graphD:
  assumes "same_graph w w'"
  shows "source_of (procs w' q) = source_of (procs w q)" "n_ibuses (procs w' q) = n_ibuses (procs w q)"
    "members_of (procs w' q) = members_of (procs w q)"
  using assms by (simp_all add: same_graph_def)

lemma sched_path_cong:
  assumes "\<And>p. p \<in> set ps \<Longrightarrow> sched_next (procs w' p) = sched_next (procs w p)"
  shows "sched_path w' cur ps = sched_path w cur ps"
  using assms by (induction ps arbitrary: cur) simp_all

lemma sched_levels_cong:
  assumes "same_schedule w w'"
  shows "sched_levels w' ls = sched_levels w ls"
proof -
  have "sched_path w' = sched_path w" using assms by (intro ext sched_path_cong) (simp add: same_schedule_def)
  then show ?thesis using assms by (simp add: sched_levels_def same_schedule_def)
qed

lemma upd_same_graph:
  assumes "\<And>P. source_of (f P) = source_of P" "\<And>P. n_ibuses (f P) = n_ibuses P" "\<And>P. members_of (f P) = members_of P"
  shows "same_graph w (upd p f w)"
  using assms by (simp add: same_graph_def)

lemma update_fields [simp]:
  "source_of (P\<lparr>sched_next := x\<rparr>) = source_of P" "n_ibuses (P\<lparr>sched_next := x\<rparr>) = n_ibuses P"
  "members_of (P\<lparr>sched_next := x\<rparr>) = members_of P"
  "source_of (P\<lparr>flags := fl\<rparr>) = source_of P" "n_ibuses (P\<lparr>flags := fl\<rparr>) = n_ibuses P" "members_of (P\<lparr>flags := fl\<rparr>) = members_of P"
  "source_of (P\<lparr>render_stamp := st\<rparr>) = source_of P" "n_ibuses (P\<lparr>render_stamp := st\<rparr>) = n_ibuses P"
  "members_of (P\<lparr>render_stamp := st\<rparr>) = members_of P"
  by (auto simp: source_of_def n_ibuses_def members_of_def ibus_def fun_eq_iff)

lemma clear_events_fields [simp]:
  "source_of (P\<lparr>estreams := map_option (\<lambda>es. es\<lparr>es_output := evs\<rparr>) (estreams P)\<rparr>) = source_of P"
  "n_ibuses (P\<lparr>estreams := x\<rparr>) = n_ibuses P" "members_of (P\<lparr>estreams := x\<rparr>) = members_of P"
  by (auto simp: source_of_def n_ibuses_def members_of_def ibus_def fun_eq_iff split: option.split)

lemma upd_engine_fields [simp]:
  "schedule (upd p f w) = schedule w" "engine_stamp (upd p f w) = engine_stamp w" "oprocs (upd p f w) = oprocs w"
  by (simp_all add: upd_def)

lemma upd_same_schedule:
  assumes "\<And>P. (SCHEDULED \<in> flags (f P) \<longleftrightarrow> SCHEDULED \<in> flags P)" "\<And>P. sched_next (f P) = sched_next P"
  shows "same_schedule w (upd p f w)"
  using assms by (simp add: same_schedule_def)

lemma same_schedule_trans: "same_schedule w w1 \<Longrightarrow> same_schedule w1 w2 \<Longrightarrow> same_schedule w w2"
  by (simp add: same_schedule_def)

lemma reset_state_quiet:
  assumes "quiet_reset do_reset"
  shows "same_graph w (reset_state do_reset n p w)" "same_schedule w (reset_state do_reset n p w)"
proof -
  define w1 where "w1 = upd p (\<lambda>P. P\<lparr>estreams := map_option (\<lambda>es. es\<lparr>es_output := []\<rparr>) (estreams P)\<rparr>) w"
  have 1: "same_graph w w1" "same_schedule w w1"
    unfolding w1_def by (rule upd_same_graph; simp) (rule upd_same_schedule; simp)
  have 2: "same_graph w1 (do_reset p n w1)" "same_schedule w1 (do_reset p n w1)"
    using assms by (simp_all add: quiet_reset_def)
  let ?w2 = "do_reset p n w1"
  have 3: "same_graph ?w2 (upd p (\<lambda>P. P\<lparr>render_stamp := n\<rparr>) ?w2)" "same_schedule ?w2 (upd p (\<lambda>P. P\<lparr>render_stamp := n\<rparr>) ?w2)"
    by (rule upd_same_graph; simp) (rule upd_same_schedule; simp)
  show "same_graph w (reset_state do_reset n p w)"
    using same_graph_trans [OF 1(1) same_graph_trans [OF 2(1) 3(1)]] by (simp add: reset_state_def w1_def [symmetric])
  show "same_schedule w (reset_state do_reset n p w)"
    using same_schedule_trans [OF 1(2) same_schedule_trans [OF 2(2) 3(2)]] by (simp add: reset_state_def w1_def [symmetric])
qed

definition add_at :: "nat \<Rightarrow> proc \<Rightarrow> proc list list \<Rightarrow> proc list list" where
  "add_at level p ls = (let ls = ls @ replicate (level + 1 - length ls) [] in ls[level := p # ls ! level])"

lemma concat_update: "l < length ls \<Longrightarrow> set (concat (ls[l := p # ls ! l])) = insert p (set (concat ls)) \<and>
    (distinct (concat (ls[l := p # ls ! l])) \<longleftrightarrow> distinct (concat ls) \<and> p \<notin> set (concat ls))"
proof -
  assume l: "l < length ls"
  have ls: "ls = take l ls @ ls ! l # drop (Suc l) ls" by (rule id_take_nth_drop [OF l])
  have up: "ls[l := p # ls ! l] = take l ls @ (p # ls ! l) # drop (Suc l) ls" by (rule upd_conv_take_nth_drop [OF l])
  have c: "concat ls = concat (take l ls) @ ls ! l @ concat (drop (Suc l) ls)" by (subst ls) simp
  have "concat (ls[l := p # ls ! l]) = concat (take l ls) @ p # ls ! l @ concat (drop (Suc l) ls)" by (simp add: up)
  then show ?thesis by (simp only: c) auto
qed

lemma add_at_props:
  "set (concat (add_at level p ls)) = insert p (set (concat ls))"
  "distinct (concat (add_at level p ls)) \<longleftrightarrow> distinct (concat ls) \<and> p \<notin> set (concat ls)"
  "length (add_at level p ls) = max (length ls) (level + 1)"
proof -
  define r where "r = ls @ replicate (level + 1 - length ls) []"
  have r: "level < length r" "concat r = concat ls" by (auto simp: r_def concat_replicate_trivial)
  have a: "add_at level p ls = r[level := p # r ! level]" by (simp add: add_at_def r_def Let_def)
  show "set (concat (add_at level p ls)) = insert p (set (concat ls))"
    "distinct (concat (add_at level p ls)) \<longleftrightarrow> distinct (concat ls) \<and> p \<notin> set (concat ls)"
    using concat_update [OF r(1), of p] by (simp_all add: a r(2))
  show "length (add_at level p ls) = max (length ls) (level + 1)" by (simp add: a r_def)
qed

lemma nth_add_at:
  assumes "l < length (add_at level p ls)"
  shows "set (add_at level p ls ! l) = (if l < length ls then set (ls ! l) else {}) \<union> (if l = level then {p} else {})"
  using assms by (auto simp: add_at_def Let_def nth_append nth_list_update)

lemma schedule_add_scheduled: "sched_levels w ls \<Longrightarrow> p \<in> set (concat ls) \<Longrightarrow> schedule_add do_reset p level w = w"
  by (simp add: sched_levels_def schedule_add_def)

lemma schedule_add_graph:
  assumes q: "quiet_reset do_reset"
  shows "same_graph w (schedule_add do_reset p level w)"
proof (cases "SCHEDULED \<in> flags (procs w p) \<or> sched_next (procs w p) \<noteq> None")
  case False
  define sch where "sch = schedule w @ replicate (level + 1 - length (schedule w)) None"
  define w1 where "w1 = upd p (\<lambda>P. P\<lparr>flags := insert SCHEDULED (flags P)\<rparr>)
    ((upd p (\<lambda>P. P\<lparr>sched_next := sch ! level\<rparr>) w)\<lparr>schedule := sch[level := Some p]\<rparr>)"
  have e: "schedule_add do_reset p level w =
      (if render_stamp (procs w1 p) \<noteq> engine_stamp w1 then reset_state do_reset (engine_stamp w1) p w1 else w1)"
    using False by (simp add: schedule_add_def sch_def w1_def Let_def)
  have g1: "same_graph w w1" by (simp add: same_graph_def w1_def)
  then show ?thesis using same_graph_trans [OF g1 reset_state_quiet(1) [OF q]] by (simp add: e)
qed (simp add: schedule_add_def)

lemma schedule_add_levels:
  assumes q: "quiet_reset do_reset" and s: "sched_levels w ls" and p: "p \<notin> set (concat ls)"
  shows "sched_levels (schedule_add do_reset p level w) (add_at level p ls)"
proof -
  define sch where "sch = schedule w @ replicate (level + 1 - length (schedule w)) None"
  define w1 where "w1 = upd p (\<lambda>P. P\<lparr>flags := insert SCHEDULED (flags P)\<rparr>)
    ((upd p (\<lambda>P. P\<lparr>sched_next := sch ! level\<rparr>) w)\<lparr>schedule := sch[level := Some p]\<rparr>)"
  have f: "SCHEDULED \<notin> flags (procs w p)" "sched_next (procs w p) = None" using s p by (simp_all add: sched_levels_def)
  have e: "schedule_add do_reset p level w =
      (if render_stamp (procs w1 p) \<noteq> engine_stamp w1 then reset_state do_reset (engine_stamp w1) p w1 else w1)"
    using f by (simp add: schedule_add_def sch_def w1_def Let_def)
  have path: "sched_path w1 cur ps = sched_path w cur ps" if "p \<notin> set ps" for cur ps
    using that by (intro sched_path_cong) (auto simp: w1_def)
  define r where "r = ls @ replicate (level + 1 - length ls) []"
  have len: "length (schedule w) = length ls" using s by (auto simp: sched_levels_def dest: list_all2_lengthD)
  have a: "add_at level p ls = r[level := p # r ! level]" by (simp add: add_at_def r_def Let_def)
  have "list_all2 (sched_path w) sch r"
    using s len by (auto simp: sched_levels_def sch_def r_def list_all2_conv_all_nth nth_append)
  moreover have "p \<notin> set (r ! l)" if "l < length r" for l
    using p that by (auto simp: r_def nth_append split: if_splits dest: nth_mem)
  ultimately have r: "list_all2 (sched_path w1) sch r" using path by (simp add: list_all2_conv_all_nth)
  have lt: "level < length r" "level < length sch" using len by (auto simp: r_def sch_def)
  have "sched_next (procs w1 p) = sch ! level" "schedule w1 = sch[level := Some p]" by (simp_all add: w1_def)
  then have "list_all2 (sched_path w1) (schedule w1) (add_at level p ls)"
    using r lt unfolding a by (auto simp: list_all2_conv_all_nth nth_list_update)
  moreover have "SCHEDULED \<in> flags (procs w1 x) \<longleftrightarrow> x \<in> set (concat (add_at level p ls))" for x
    using s unfolding add_at_props by (auto simp: sched_levels_def w1_def)
  moreover have "sched_next (procs w1 x) = None" if "x \<notin> set (concat (add_at level p ls))" for x
    using s that unfolding add_at_props by (auto simp: sched_levels_def w1_def)
  ultimately have "sched_levels w1 (add_at level p ls)"
    using s p unfolding sched_levels_def add_at_props(2) by blast
  then show ?thesis
    using sched_levels_cong [OF reset_state_quiet(2) [OF q]] by (simp add: e)
qed


subsection \<open>Dependencies and heights\<close>

text \<open>
  A processor depends on its sources and, for a chain, on its inlet and members.  A height is one more than
  that of the highest dependency; it exists when there is no cycle.
\<close>

definition deps :: "('p, 'd, 'x) engines \<Rightarrow> proc \<Rightarrow> proc set" where
  "deps w p = {q. \<exists>i\<in>set [0..<n_ibuses (procs w p) + 1]. source_of (procs w p) i = Some q} \<union> set (members_of (procs w p))"

definition is_height :: "('p, 'd, 'x) engines \<Rightarrow> (proc \<Rightarrow> nat) \<Rightarrow> bool" where
  "is_height w h \<longleftrightarrow> (\<forall>p. (\<forall>d\<in>deps w p. h d < h p) \<and> (h p = 0 \<or> (\<exists>d\<in>deps w p. h p = Suc (h d))))"

definition needed :: "('p, 'd, 'x) engines \<Rightarrow> proc \<Rightarrow> proc set" where
  "needed w p = {d. (d, p) \<in> {(d, q). d \<in> deps w q}\<^sup>*}"

lemma needed_unfold: "needed w p = insert p (\<Union>d\<in>deps w p. needed w d)"
proof -
  have "(d, p) \<in> {(d, q). d \<in> deps w q}\<^sup>* \<longleftrightarrow> d = p \<or> (\<exists>e\<in>deps w p. (d, e) \<in> {(d, q). d \<in> deps w q}\<^sup>*)" for d
    by (subst rtrancl_unfold) auto
  then show ?thesis by (auto simp: needed_def)
qed

definition level_reached :: "(proc \<Rightarrow> nat) \<Rightarrow> nat \<Rightarrow> proc set \<Rightarrow> nat \<Rightarrow> bool" where
  "level_reached h level D l \<longleftrightarrow> level \<le> l \<and> (\<forall>q\<in>D. Suc (h q) \<le> l) \<and> (l = level \<or> (\<exists>q\<in>D. l = Suc (h q)))"

lemma level_reached_step: "level_reached h (max level (Suc (h q))) D l \<Longrightarrow> level_reached h level (insert q D) l"
  by (auto simp: level_reached_def max_def split: if_splits)

lemma level_reached_height:
  assumes "is_height w h" and "level_reached h 0 D l" "level_reached h 0 E m" and "deps w p = D \<union> E"
  shows "max l m = h p"
proof (rule antisym)
  have lt: "Suc (h d) \<le> h p" if "d \<in> D \<union> E" for d using assms(1,4) that by (auto simp: is_height_def Suc_le_eq)
  have "l \<le> h p" "m \<le> h p" using assms(2,3) lt by (auto simp: level_reached_def)
  then show "max l m \<le> h p" by simp
  have "h p = 0 \<or> (\<exists>d\<in>D \<union> E. h p = Suc (h d))" using assms(1) unfolding is_height_def assms(4) [symmetric] by blast
  then show "h p \<le> max l m" using assms(2,3) by (auto simp: level_reached_def le_max_iff_disj)
qed

text \<open>The schedule while it grows: a processor stands on the level of its height, after all it needs.\<close>

definition growing :: "(proc \<Rightarrow> nat) \<Rightarrow> ('p, 'd, 'x) engines \<Rightarrow> ('p, 'd, 'x) engines \<Rightarrow> proc list list \<Rightarrow> bool" where
  "growing h w0 w ls \<longleftrightarrow> same_graph w0 w \<and> sched_levels w ls \<and> (\<forall>l<length ls. \<forall>q\<in>set (ls ! l). h q = l) \<and>
     (\<forall>q\<in>set (concat ls). deps w0 q \<subseteq> set (concat ls))"

lemma growing_graph:
  assumes "growing h w0 w ls"
  shows "source_of (procs w q) = source_of (procs w0 q)" "n_ibuses (procs w q) = n_ibuses (procs w0 q)"
    "members_of (procs w q) = members_of (procs w0 q)"
  using assms by (auto simp: growing_def dest: same_graphD)

text \<open>What a scheduling call does for the processors \<open>D\<close>.\<close>

definition schedules ::
  "(proc \<Rightarrow> nat) \<Rightarrow> ('p, 'd, 'x) engines \<Rightarrow> proc set \<Rightarrow> proc list list \<Rightarrow> ('p, 'd, 'x) engines \<Rightarrow> bool" where
  "schedules h w0 D ls w' \<longleftrightarrow> (\<exists>ls'. growing h w0 w' ls' \<and> set (concat ls') = set (concat ls) \<union> (\<Union>d\<in>D. needed w0 d))"

definition sched_correct :: "(proc \<Rightarrow> nat) \<Rightarrow> ('p, 'd, 'x) engines \<Rightarrow> nat \<Rightarrow> ('p, 'd, 'x) scheduling \<Rightarrow> bool" where
  "sched_correct h w0 n sched \<longleftrightarrow> (\<forall>q w ls. h q < n \<longrightarrow> growing h w0 w ls \<longrightarrow>
     (\<exists>w'. sched q w = Some (Suc (h q), w') \<and> schedules h w0 {q} ls w'))"

lemma sched_correctD:
  assumes "sched_correct h w0 n sched" and "h q < n" and "growing h w0 w ls"
  obtains w' ls' where "sched q w = Some (Suc (h q), w')" and "growing h w0 w' ls'"
    and "set (concat ls') = set (concat ls) \<union> needed w0 q"
  using assms unfolding sched_correct_def schedules_def by fastforce

lemma schedule_inputs_correct:
  assumes c: "sched_correct h w0 n sched" and g: "growing h w0 w ls"
    and lt: "\<forall>i\<in>set is. \<forall>q. source_of (procs w0 p) i = Some q \<longrightarrow> h q < n"
  shows "\<exists>l w'. schedule_inputs sched p is level w = Some (l, w') \<and>
    level_reached h level {q. \<exists>i\<in>set is. source_of (procs w0 p) i = Some q} l \<and>
    schedules h w0 {q. \<exists>i\<in>set is. source_of (procs w0 p) i = Some q} ls w'"
  using g lt
proof (induction "is" arbitrary: w ls level)
  case Nil
  then show ?case by (auto simp: level_reached_def schedules_def)
next
  case (Cons i "is")
  have src: "source_of (procs w p) i = source_of (procs w0 p) i"
    by (simp add: growing_graph [OF Cons.prems(1)])
  show ?case
  proof (cases "source_of (procs w0 p) i")
    case None
    then show ?thesis using Cons.IH [OF Cons.prems(1), of level] Cons.prems(2) src by simp
  next
    case (Some q)
    have D: "{q'. \<exists>j\<in>set (i # is). source_of (procs w0 p) j = Some q'} = insert q {q. \<exists>i\<in>set is. source_of (procs w0 p) i = Some q}"
      using Some by auto
    have "h q < n" using Cons.prems(2) Some by simp
    then obtain w1 ls1 where 1: "sched q w = Some (Suc (h q), w1)" "growing h w0 w1 ls1"
        "set (concat ls1) = set (concat ls) \<union> needed w0 q"
      by (rule sched_correctD [OF c _ Cons.prems(1)])
    obtain l w' where 2: "schedule_inputs sched p is (max level (Suc (h q))) w1 = Some (l, w')"
        "level_reached h (max level (Suc (h q))) {q. \<exists>i\<in>set is. source_of (procs w0 p) i = Some q} l"
        "schedules h w0 {q. \<exists>i\<in>set is. source_of (procs w0 p) i = Some q} ls1 w'"
      using Cons.IH [OF 1(2), of "max level (Suc (h q))"] Cons.prems(2) by auto
    have "schedules h w0 (insert q {q. \<exists>i\<in>set is. source_of (procs w0 p) i = Some q}) ls w'"
      using 2(3) unfolding schedules_def 1(3) by (simp add: Un_assoc)
    then show ?thesis unfolding D using 1(1) 2(1) level_reached_step [OF 2(2)] Some src by auto
  qed
qed

lemma last_output_growing:
  assumes "growing h w0 w ls" and "members_of (procs w a) \<noteq> []"
  shows "growing h w0 (upd_chain a (\<lambda>c. c\<lparr>last_output := lo\<rparr>) w) ls"
proof -
  let ?w = "upd_chain a (\<lambda>c. c\<lparr>last_output := lo\<rparr>) w"
  obtain c where c: "impl (procs w a) = Chain c" using assms(2) by (auto simp: members_of_def split: kind.splits)
  have "same_graph w ?w"
    using c by (auto simp: same_graph_def upd_chain_def source_of_def ibus_def n_ibuses_def members_of_def the_chain_def fun_eq_iff)
  moreover have "same_schedule w ?w" unfolding upd_chain_def by (rule upd_same_schedule) simp_all
  ultimately show ?thesis
    using assms(1) sched_levels_cong [of w ?w ls] same_graph_trans by (auto simp: growing_def)
qed

lemma schedule_members_correct:
  assumes c: "sched_correct h w0 n sched" and g: "growing h w0 w ls" and a: "members_of (procs w0 a) \<noteq> []"
    and lt: "\<And>q. q \<in> set qs \<Longrightarrow> h q < n"
  shows "\<exists>l w'. schedule_members sched a qs level w = Some (l, w') \<and> level_reached h level (set qs) l \<and>
    schedules h w0 (set qs) ls w'"
  using g lt
proof (induction qs arbitrary: w ls level)
  case Nil
  then show ?case by (auto simp: level_reached_def schedules_def)
next
  case (Cons q qs)
  have "h q < n" using Cons.prems(2) by simp
  then obtain w1 ls1 where 1: "sched q w = Some (Suc (h q), w1)" "growing h w0 w1 ls1"
      "set (concat ls1) = set (concat ls) \<union> needed w0 q"
    by (rule sched_correctD [OF c _ Cons.prems(1)])
  define w2 where "w2 = (if n_obuses (procs w1 q) \<noteq> 0 then upd_chain a (\<lambda>c. c\<lparr>last_output := Some q\<rparr>) w1 else w1)"
  have "members_of (procs w1 a) \<noteq> []" using a by (simp add: growing_graph [OF 1(2)])
  then have g2: "growing h w0 w2 ls1" using last_output_growing [OF 1(2), of a "Some q"] 1(2) by (simp add: w2_def)
  obtain l w' where 2: "schedule_members sched a qs (max level (Suc (h q))) w2 = Some (l, w')"
      "level_reached h (max level (Suc (h q))) (set qs) l" "schedules h w0 (set qs) ls1 w'"
    using Cons.IH [OF g2, of "max level (Suc (h q))"] Cons.prems(2) by auto
  have "schedules h w0 (set (q # qs)) ls w'"
    using 2(3) unfolding schedules_def 1(3) by (simp add: Un_assoc)
  moreover have "schedule_members sched a (q # qs) level w = Some (l, w')" using 1(1) 2(1) by (simp add: w2_def Let_def)
  ultimately show ?case using level_reached_step [OF 2(2)] by simp
qed

lemma schedule_children_correct:
  assumes c: "sched_correct h w0 n sched" and g: "growing h w0 w ls"
    and lt: "\<And>q. q \<in> set (members_of (procs w0 p)) \<Longrightarrow> h q < n"
  shows "\<exists>l w'. schedule_children sched p w = Some (l, w') \<and> level_reached h 0 (set (members_of (procs w0 p))) l \<and>
    schedules h w0 (set (members_of (procs w0 p))) ls w'"
proof (cases "impl (procs w p)")
  case (Chain ch)
  have m: "members_of (procs w0 p) = inlet ch # processors ch"
    unfolding growing_graph [OF g, symmetric] by (simp add: members_of_def Chain)
  define w1 where "w1 = upd_chain p (\<lambda>c. c\<lparr>last_output := None\<rparr>) w"
  have g1: "growing h w0 w1 ls" unfolding w1_def by (rule last_output_growing [OF g]) (simp add: members_of_def Chain)
  have "h (inlet ch) < n" using lt m by simp
  then obtain w2 ls2 where 2: "sched (inlet ch) w1 = Some (Suc (h (inlet ch)), w2)" "growing h w0 w2 ls2"
      "set (concat ls2) = set (concat ls) \<union> needed w0 (inlet ch)"
    by (rule sched_correctD [OF c _ g1])
  have "members_of (procs w2 p) = inlet ch # processors ch" using m by (simp add: growing_graph [OF 2(2)])
  then have "processors (the_chain p w2) = processors ch" by (auto simp: members_of_def the_chain_def split: kind.splits)
  moreover obtain l w' where 3: "schedule_members sched p (processors ch) (Suc (h (inlet ch))) w2 = Some (l, w')"
      "level_reached h (Suc (h (inlet ch))) (set (processors ch)) l" "schedules h w0 (set (processors ch)) ls2 w'"
    using schedule_members_correct [OF c 2(2), of p "processors ch" "Suc (h (inlet ch))"] lt m by auto
  moreover have "schedules h w0 (set (inlet ch # processors ch)) ls w'"
    using 3(3) unfolding schedules_def 2(3) by (simp add: Un_assoc)
  moreover have "level_reached h 0 (set (inlet ch # processors ch)) l"
    using level_reached_step [of h 0 "inlet ch" "set (processors ch)" l] 3(2) by simp
  ultimately show ?thesis using 2(1) by (simp add: schedule_children_def Chain w1_def [symmetric] m)
qed (use g growing_graph(3) [OF g, of p] in
    \<open>auto simp: schedule_children_def members_of_def level_reached_def schedules_def split: kind.splits\<close>)


lemma schedule_processor_correct:
  assumes q: "quiet_reset do_reset" and hh: "is_height w0 h"
  shows "sched_correct h w0 n (schedule_processor do_reset n)"
proof (induction n)
  case 0
  then show ?case by (simp add: sched_correct_def)
next
  case (Suc n)
  show ?case
    unfolding sched_correct_def
  proof (intro allI impI)
    fix p w ls assume p: "h p < Suc n" and g: "growing h w0 w ls"
    define D where "D = {q. \<exists>i\<in>set [0..<n_ibuses (procs w0 p) + 1]. source_of (procs w0 p) i = Some q}"
    define E where "E = set (members_of (procs w0 p))"
    have de: "deps w0 p = D \<union> E" by (simp add: deps_def D_def E_def)
    have lt: "h d < n" if "d \<in> D \<union> E" for d using hh p that unfolding is_height_def de [symmetric] by fastforce
    have "\<forall>i\<in>set [0..<n_ibuses (procs w0 p) + 1]. \<forall>q. source_of (procs w0 p) i = Some q \<longrightarrow> h q < n"
      using lt by (auto simp: D_def)
    from schedule_inputs_correct [OF Suc.IH g this, of 0]
    obtain l1 w1 ls1 where 1: "schedule_inputs (schedule_processor do_reset n) p [0..<n_ibuses (procs w0 p) + 1] 0 w = Some (l1, w1)"
        "level_reached h 0 D l1" "growing h w0 w1 ls1" "set (concat ls1) = set (concat ls) \<union> (\<Union>d\<in>D. needed w0 d)"
      unfolding D_def [symmetric] schedules_def by blast
    obtain l2 w2 ls2 where 2: "schedule_children (schedule_processor do_reset n) p w1 = Some (l2, w2)"
        "level_reached h 0 E l2" "growing h w0 w2 ls2" "set (concat ls2) = set (concat ls1) \<union> (\<Union>d\<in>E. needed w0 d)"
      using schedule_children_correct [OF Suc.IH 1(3), of p] lt unfolding E_def [symmetric] schedules_def by blast
    have level: "max l1 l2 = h p" by (rule level_reached_height [OF hh 1(2) 2(2) de])
    define w' where "w' = schedule_add do_reset p (h p) w2"
    have r: "schedule_processor do_reset (Suc n) p w = Some (Suc (h p), w')"
      using 1(1) 2(1) level by (simp add: w'_def growing_graph(2) [OF g] Let_def del: upt_Suc)
    have s2: "set (concat ls2) = set (concat ls) \<union> (\<Union>d\<in>deps w0 p. needed w0 d)" using 1(4) 2(4) by (auto simp: de)
    have dsub: "deps w0 p \<subseteq> set (concat ls2)" unfolding s2 using needed_unfold by fastforce
    have g2: "same_graph w0 w2" "sched_levels w2 ls2" using 2(3) by (auto simp: growing_def)
    have "schedules h w0 {p} ls w'"
    proof (cases "p \<in> set (concat ls2)")
      case True
      have "w' = w2" unfolding w'_def by (rule schedule_add_scheduled [OF g2(2) True])
      moreover have "set (concat ls2) = set (concat ls) \<union> needed w0 p" using s2 True needed_unfold [of w0 p] by auto
      ultimately show ?thesis using 2(3) by (auto simp: schedules_def)
    next
      case False
      define ls' where "ls' = add_at (h p) p ls2"
      have set': "set (concat ls') = insert p (set (concat ls2))" by (simp only: ls'_def add_at_props)
      have "growing h w0 w' ls'"
        unfolding growing_def
      proof (intro conjI)
        show "same_graph w0 w'" using same_graph_trans [OF g2(1) schedule_add_graph [OF q]] by (simp add: w'_def)
        show "sched_levels w' ls'" unfolding w'_def ls'_def by (rule schedule_add_levels [OF q g2(2) False])
        show "\<forall>l<length ls'. \<forall>q\<in>set (ls' ! l). h q = l"
          using 2(3) unfolding ls'_def growing_def by (auto simp: nth_add_at split: if_splits)
        show "\<forall>q\<in>set (concat ls'). deps w0 q \<subseteq> set (concat ls')"
          using 2(3) dsub unfolding set' growing_def by blast
      qed
      moreover have "set (concat ls') = set (concat ls) \<union> needed w0 p"
        unfolding set' s2 using needed_unfold [of w0 p] by auto
      ultimately show ?thesis unfolding schedules_def by (intro exI [of _ ls']) simp
    qed
    with r show "\<exists>w'. schedule_processor do_reset (Suc n) p w = Some (Suc (h p), w') \<and> schedules h w0 {p} ls w'" by blast
  qed
qed

lemma schedule_oprocs_correct:
  assumes "quiet_reset do_reset" and "is_height w0 h" and "growing h w0 w ls" and "\<forall>p\<in>set ps. h p < n"
  shows "\<exists>w'. schedule_oprocs do_reset n ps w = Some w' \<and> schedules h w0 (set ps) ls w'"
  using assms(3,4)
proof (induction ps arbitrary: w ls)
  case Nil
  then show ?case by (auto simp: schedules_def)
next
  case (Cons p ps)
  have "h p < n" using Cons.prems(2) by simp
  then obtain w1 ls1 where 1: "schedule_processor do_reset n p w = Some (Suc (h p), w1)" "growing h w0 w1 ls1"
      "set (concat ls1) = set (concat ls) \<union> needed w0 p"
    by (rule sched_correctD [OF schedule_processor_correct [OF assms(1,2)] _ Cons.prems(1)])
  obtain w' where "schedule_oprocs do_reset n ps w1 = Some w'" "schedules h w0 (set ps) ls1 w'"
    using Cons.IH [OF 1(2)] Cons.prems(2) by auto
  moreover from this(2) have "schedules h w0 (set (p # ps)) ls w'" unfolding schedules_def 1(3) by (simp add: Un_assoc)
  ultimately show ?case using 1(1) by simp
qed

subsection \<open>Clearing\<close>

definition unschedule :: "proc \<Rightarrow> ('p, 'd, 'x) engines \<Rightarrow> ('p, 'd, 'x) engines" where
  "unschedule p = upd p (\<lambda>P. P\<lparr>flags := flags P - {SCHEDULED}, sched_next := None\<rparr>)"

lemma unschedule_fold:
  "procs (fold unschedule ps w) q =
     (if q \<in> set ps then (procs w q)\<lparr>flags := flags (procs w q) - {SCHEDULED}, sched_next := None\<rparr> else procs w q)"
  "schedule (fold unschedule ps w) = schedule w" "oprocs (fold unschedule ps w) = oprocs w"
  by (induction ps arbitrary: w) (auto simp: unschedule_def)

lemma clear_level_path:
  assumes "sched_path w cur ps" and "distinct ps"
  shows "clear_level cur w = Some (fold unschedule ps w)"
  using assms
proof (induction ps arbitrary: cur w)
  case (Cons p ps)
  have "sched_path (unschedule p w) (sched_next (procs w p)) ps"
    using Cons.prems by (subst sched_path_cong [where w = w]) (auto simp: unschedule_def)
  then show ?case
    using Cons.IH [of "unschedule p w" "sched_next (procs w p)"] Cons.prems
    by (subst clear_level.simps) (simp add: Let_def flip: unschedule_def)
qed (simp add: clear_level.simps)

lemma clear_levels_paths:
  assumes "list_all2 (sched_path w) cs pss" and "distinct (concat pss)"
  shows "clear_levels cs w = Some (fold unschedule (concat pss) w)"
  using assms
proof (induction cs arbitrary: pss w)
  case (Cons c cs)
  obtain ps pss' where p: "pss = ps # pss'" "sched_path w c ps" "list_all2 (sched_path w) cs pss'"
    using Cons.prems(1) by (auto simp: list_all2_Cons1)
  have "sched_path (fold unschedule ps w) c' ps' = sched_path w c' ps'" if "ps' \<in> set pss'" for c' ps'
    using that Cons.prems(2) by (intro sched_path_cong) (auto simp: p(1) unschedule_fold)
  then have "list_all2 (sched_path (fold unschedule ps w)) cs pss'"
    using p(3) by (auto simp: list_all2_conv_all_nth)
  then show ?case
    using Cons.IH [of "fold unschedule ps w" pss'] Cons.prems(2) clear_level_path [OF p(2)] by (simp add: p(1))
qed simp

lemma schedule_clear_correct:
  assumes s: "sched_levels w ls"
  obtains w' where "schedule_clear w = Some w'" "sched_levels w' []" "same_graph w w'" "oprocs w' = oprocs w"
    "schedule_invalid w'"
proof -
  define v where "v = w\<lparr>schedule := []\<rparr>"
  have "list_all2 (sched_path w) (rev (schedule w)) (rev ls)" using s by (simp add: sched_levels_def list_all2_rev)
  moreover have "sched_path v = sched_path w" by (intro ext sched_path_cong) (simp add: v_def)
  ultimately have "list_all2 (sched_path v) (rev (schedule w)) (rev ls)" by simp
  moreover have "distinct (concat (rev ls))"
  proof -
    have "distinct (concat (rev xs)) = distinct (concat xs)" for xs :: "proc list list" by (induction xs) auto
    then show ?thesis using s by (simp add: sched_levels_def)
  qed
  ultimately have c: "clear_levels (rev (schedule w)) v = Some (fold unschedule (concat (rev ls)) v)" by (rule clear_levels_paths)
  define u where "u = fold unschedule (concat (rev ls)) v"
  have p: "procs u q = (if q \<in> set (concat ls) then (procs w q)\<lparr>flags := flags (procs w q) - {SCHEDULED}, sched_next := None\<rparr> else procs w q)" for q
    unfolding u_def unschedule_fold by (simp add: v_def)
  have su: "schedule u = []" "oprocs u = oprocs w" unfolding u_def unschedule_fold by (simp_all add: v_def)
  show thesis
  proof (rule that [of "u\<lparr>schedule_invalid := True\<rparr>"])
    show "schedule_clear w = Some (u\<lparr>schedule_invalid := True\<rparr>)" by (simp add: schedule_clear_def v_def [symmetric] c u_def)
    show "sched_levels (u\<lparr>schedule_invalid := True\<rparr>) []"
      using s su by (auto simp: sched_levels_def p)
    show "same_graph w (u\<lparr>schedule_invalid := True\<rparr>)" by (simp add: same_graph_def p)
  qed (simp_all add: su)
qed


subsection \<open>The order of the schedule\<close>

lemma finite_deps: "finite (deps w p)"
proof -
  have "{q. \<exists>i\<in>set is. f i = Some q} = the ` f ` {i \<in> set is. f i \<noteq> None}" for f :: "nat \<Rightarrow> proc option" and "is"
    by (auto simp: image_iff) force
  then have "finite {q. \<exists>i\<in>set is. f i = Some q}" for f :: "nat \<Rightarrow> proc option" and "is" by simp
  then show ?thesis unfolding deps_def by (intro finite_UnI) (blast, simp)
qed

lemma height_exists:
  assumes "wf {(d, q). d \<in> deps w q}"
  obtains h where "is_height w h"
proof -
  define F where "F f q = (if deps w q = {} then 0 else Suc (Max (f ` deps w q)))" for f :: "proc \<Rightarrow> nat" and q
  define h where "h = wfrec {(d, q). d \<in> deps w q} F"
  have h: "h q = (if deps w q = {} then 0 else Suc (Max (h ` deps w q)))" for q
  proof -
    have "cut h {(d, q). d \<in> deps w q} q ` deps w q = h ` deps w q" by (rule image_cong) (simp_all add: cut_apply)
    then show ?thesis unfolding h_def by (subst wfrec [OF assms]) (simp add: F_def h_def [symmetric])
  qed
  have "h d < h q" if "d \<in> deps w q" for d q
    using that h [of q] finite_deps [of w q] by (auto simp: less_Suc_eq_le)
  moreover have "h q = 0 \<or> (\<exists>d\<in>deps w q. h q = Suc (h d))" for q
  proof (cases "deps w q = {}")
    case False
    then have "Max (h ` deps w q) \<in> h ` deps w q" using finite_deps [of w q] by (intro Max_in) auto
    then show ?thesis using h [of q] False by auto
  qed (simp add: h)
  ultimately have "is_height w h" unfolding is_height_def by blast
  then show thesis by (rule that)
qed

lemma levels_sorted:
  assumes "\<And>l q. l < length ls \<Longrightarrow> q \<in> set (ls ! l) \<Longrightarrow> h q = base + l"
  shows "sorted (map h (concat ls))"
  using assms
proof (induction ls arbitrary: base)
  case (Cons xs ls)
  have "sorted (map h (concat ls))"
    by (rule Cons.IH [of "Suc base"]) (use Cons.prems [of "Suc _"] in auto)
  moreover have eq: "h q = base" if "q \<in> set xs" for q using Cons.prems [of 0 q] that by simp
  then have "map h xs = replicate (length xs) base" by (simp add: map_replicate_const [symmetric] list_eq_iff_nth_eq)
  moreover have "base \<le> h q" if q: "q \<in> set (concat ls)" for q
  proof -
    obtain ys where "ys \<in> set ls" "q \<in> set ys" using q by auto
    then obtain l where "l < length ls" "q \<in> set (ls ! l)" by (metis in_set_conv_nth)
    then show ?thesis using Cons.prems [of "Suc l" q] by simp
  qed
  ultimately show ?case by (auto simp: sorted_append eq)
qed simp

lemma same_graph_deps: "same_graph w w' \<Longrightarrow> deps w' = deps w"
  by (simp add: deps_def same_graphD fun_eq_iff)


text \<open>An engine for examples: the chain 0 with its inlet and the member 2 is its output.\<close>

definition sample_engine :: "(unit, unit) engine" where
  "sample_engine = world.extend ((upd_chain 0 (\<lambda>c. c\<lparr>processors := [2]\<rparr>) sample_chain)\<lparr>schedule_invalid := True\<rparr>)
     (engine.fields [] 4096 [0])"

lemma sample_engine_procs:
  "procs sample_engine p = procs (upd_chain 0 (\<lambda>c. c\<lparr>processors := [2]\<rparr>) sample_chain) p"
  by (simp add: sample_engine_def world.defs engine.defs)

lemma sample_engine_deps: "deps sample_engine p = (if p = 0 then {1, 2} else {})"
proof -
  have "source_of (procs sample_engine p) i = None" if "i < n_ibuses (procs sample_engine p) + 1" for i
    using that by (auto simp: sample_engine_procs upd_chain_def source_of_def sample_chain_def sample_member_def new_bus_def ibus_def
        n_ibuses_def Let_def less_Suc_eq split: if_splits)
  moreover have "impl (procs sample_chain 0) = Chain ((new_chain STEREO 1)\<lparr>eproc := Some 5\<rparr>)" by code_simp
  then have "members_of (procs sample_engine p) = (if p = 0 then [1, 2] else [])"
    by (auto simp: sample_engine_procs upd_chain_def the_chain_def members_of_def new_chain_def)
      (auto simp: sample_chain_def sample_member_def Let_def)
  ultimately show ?thesis by (auto simp: deps_def simp del: upt_Suc)
qed

lemma sample_engine_levels: "sched_levels sample_engine []"
  by (auto simp: sched_levels_def sample_engine_procs upd_chain_def)
    (auto simp: sample_engine_def world.defs engine.defs sample_chain_def sample_member_def Let_def split: if_splits)


subsection \<open>Feedback\<close>

lemma schedule_inputs_acc:
  assumes rec: "\<And>q w l w'. sched q w = Some (l, w') \<Longrightarrow> same_graph w0 w \<Longrightarrow> same_graph w0 w' \<and> q \<in> A"
    and "schedule_inputs sched p is level w = Some (l, w')" and "same_graph w0 w"
  shows "same_graph w0 w' \<and> (\<forall>i\<in>set is. \<forall>q. source_of (procs w0 p) i = Some q \<longrightarrow> q \<in> A)"
  using assms(2,3)
proof (induction "is" arbitrary: level w)
  case (Cons i "is")
  show ?case
  proof (cases "source_of (procs w0 p) i")
    case None
    then show ?thesis using Cons.IH [of level w] Cons.prems same_graphD(1) [OF Cons.prems(2)] by auto
  next
    case (Some q)
    then obtain l1 w1 where 1: "sched q w = Some (l1, w1)" "schedule_inputs sched p is (max level l1) w1 = Some (l, w')"
      using Cons.prems same_graphD(1) [OF Cons.prems(2), of p] by (auto split: Option.bind_splits)
    then show ?thesis using rec [OF 1(1) Cons.prems(2)] Cons.IH [OF 1(2)] Some by auto
  qed
qed simp

lemma last_output_graph:
  assumes "members_of (procs w a) \<noteq> []"
  shows "same_graph w (upd_chain a (\<lambda>c. c\<lparr>last_output := lo\<rparr>) w)"
proof -
  obtain c where c: "impl (procs w a) = Chain c" using assms by (auto simp: members_of_def split: kind.splits)
  then show ?thesis
    by (auto simp: same_graph_def upd_chain_def source_of_def ibus_def n_ibuses_def members_of_def the_chain_def fun_eq_iff)
qed

lemma schedule_members_acc:
  assumes rec: "\<And>q w l w'. sched q w = Some (l, w') \<Longrightarrow> same_graph w0 w \<Longrightarrow> same_graph w0 w' \<and> q \<in> A"
    and a: "members_of (procs w0 a) \<noteq> []"
    and "schedule_members sched a qs level w = Some (l, w')" and "same_graph w0 w"
  shows "same_graph w0 w' \<and> set qs \<subseteq> A"
  using assms(3,4)
proof (induction qs arbitrary: level w)
  case (Cons q qs)
  obtain l1 w1 where 1: "sched q w = Some (l1, w1)"
      "schedule_members sched a qs (max level l1)
        (if n_obuses (procs w1 q) \<noteq> 0 then upd_chain a (\<lambda>c. c\<lparr>last_output := Some q\<rparr>) w1 else w1) = Some (l, w')"
    using Cons.prems(1) by (auto simp: Let_def split: Option.bind_splits)
  have g: "same_graph w0 w1" "q \<in> A" using rec [OF 1(1) Cons.prems(2)] by auto
  have "members_of (procs w1 a) \<noteq> []" using a same_graphD(3) [OF g(1)] by simp
  note same_graph_trans [OF g(1) last_output_graph [OF this, of "Some q"]]
  then show ?case using Cons.IH [OF 1(2)] g by (auto split: if_splits)
qed simp

lemma schedule_returns_acc:
  assumes "quiet_reset do_reset" and "schedule_processor do_reset n p w = Some (l, w')" and "same_graph w0 w"
  shows "same_graph w0 w' \<and> p \<in> Wellfounded.acc {(d, q). d \<in> deps w0 q}"
  using assms(2,3)
proof (induction n arbitrary: p w l w')
  case (Suc n)
  let ?A = "Wellfounded.acc {(d, q). d \<in> deps w0 q}"
  obtain l1 w1 l2 w2 where
      1: "schedule_inputs (schedule_processor do_reset n) p [0..<n_ibuses (procs w0 p) + 1] 0 w = Some (l1, w1)"
    and 2: "schedule_children (schedule_processor do_reset n) p w1 = Some (l2, w2)"
    and 3: "w' = schedule_add do_reset p (max l1 l2) w2"
    using Suc.prems(1) unfolding same_graphD(2) [OF Suc.prems(2), symmetric]
    by (auto simp: Let_def simp del: upt_Suc split: Option.bind_splits)
  from schedule_inputs_acc [OF Suc.IH 1 Suc.prems(2)]
  have i: "same_graph w0 w1" "\<forall>i\<in>set [0..<n_ibuses (procs w0 p) + 1]. \<forall>q. source_of (procs w0 p) i = Some q \<longrightarrow> q \<in> ?A"
    by auto
  have c: "same_graph w0 w2 \<and> set (members_of (procs w0 p)) \<subseteq> ?A"
  proof (cases "impl (procs w1 p)")
    case (Chain ch)
    have m: "members_of (procs w0 p) = inlet ch # processors ch"
      unfolding same_graphD(3) [OF i(1), symmetric] by (simp add: members_of_def Chain)
    define v where "v = upd_chain p (\<lambda>c. c\<lparr>last_output := None\<rparr>) w1"
    have "same_graph w0 v"
      unfolding v_def by (rule same_graph_trans [OF i(1) last_output_graph]) (simp add: members_of_def Chain)
    moreover obtain l3 w3 where 4: "schedule_processor do_reset n (inlet ch) v = Some (l3, w3)"
        "schedule_members (schedule_processor do_reset n) p (processors (the_chain p w3)) l3 w3 = Some (l2, w2)"
      using 2 by (auto simp: schedule_children_def Chain v_def Let_def split: Option.bind_splits)
    ultimately have 5: "same_graph w0 w3" "inlet ch \<in> ?A" using Suc.IH by blast+
    have "members_of (procs w3 p) = inlet ch # processors ch" using m same_graphD(3) [OF 5(1)] by simp
    then have "processors (the_chain p w3) = processors ch" by (auto simp: members_of_def the_chain_def split: kind.splits)
    then show ?thesis using schedule_members_acc [OF Suc.IH _ 4(2) 5(1)] 5(2) m by simp
  qed (use 2 i(1) same_graphD(3) [OF i(1), of p] in \<open>auto simp: schedule_children_def members_of_def split: kind.splits\<close>)
  have "same_graph w0 w'" using c same_graph_trans [OF _ schedule_add_graph [OF assms(1)]] by (simp add: 3)
  moreover have "\<forall>d\<in>deps w0 p. d \<in> ?A" using i(2) c by (auto simp: deps_def)
  then have "p \<in> ?A" by (auto intro: acc.intros)
  ultimately show ?case by simp
qed simp

text \<open>
  C31: Nothing keeps a processor from feeding back into itself, directly or through others; scheduling such a
  processor recurses without end, for every amount of fuel.
\<close>

theorem feedback_never_scheduled:
  assumes "quiet_reset do_reset" and "(p, p) \<in> {(d, q). d \<in> deps w q}\<^sup>+"
  shows "schedule_processor do_reset n p w = None"
proof (rule ccontr)
  let ?R = "{(d, q). d \<in> deps w q}"
  assume "schedule_processor do_reset n p w \<noteq> None"
  then obtain l w' where "schedule_processor do_reset n p w = Some (l, w')" by auto
  then have "p \<in> Wellfounded.acc ?R" using schedule_returns_acc [OF assms(1)] by auto
  then have "(p, p) \<notin> ?R\<^sup>+"
  proof (rule acc_induct)
    fix x assume ih: "\<forall>y. (y, x) \<in> ?R \<longrightarrow> (y, y) \<notin> ?R\<^sup>+"
    show "(x, x) \<notin> ?R\<^sup>+"
    proof
      assume "(x, x) \<in> ?R\<^sup>+"
      then obtain y where y: "(y, x) \<in> ?R" "(x, y) \<in> ?R\<^sup>*" by (meson tranclD2)
      then have "(y, y) \<in> ?R\<^sup>+" by (meson rtrancl_into_trancl2)
      then show False using ih y(1) by blast
    qed
  qed
  then show False using assms(2) by simp
qed

lemma feedback_never_scheduled_witness:
  "schedule_processor (\<lambda>p n w. w) 5 2 (upd 2 (upd_ibus 1 (\<lambda>bus. bus\<lparr>bus_oproc := Some 2\<rparr>)) sample_engine) = None"
proof (rule feedback_never_scheduled)
  show "quiet_reset (\<lambda>p n w. w)" by (simp add: quiet_reset_def)
  have "source_of (procs (upd 2 (upd_ibus 1 (\<lambda>bus. bus\<lparr>bus_oproc := Some 2\<rparr>)) sample_engine) 2) 1 = Some 2"
    "n_ibuses (procs (upd 2 (upd_ibus 1 (\<lambda>bus. bus\<lparr>bus_oproc := Some 2\<rparr>)) sample_engine) 2) = 1"
    by (simp_all add: sample_engine_procs upd_chain_def)
      (simp_all add: sample_chain_def sample_member_def source_of_def upd_ibus_def ibus_def n_ibuses_def Let_def)
  then have "2 \<in> deps (upd 2 (upd_ibus 1 (\<lambda>bus. bus\<lparr>bus_oproc := Some 2\<rparr>)) sample_engine) 2" by (force simp: deps_def)
  then show "(2, 2) \<in> {(d, q). d \<in> deps (upd 2 (upd_ibus 1 (\<lambda>bus. bus\<lparr>bus_oproc := Some 2\<rparr>)) sample_engine) q}\<^sup>+"
    by (intro r_into_trancl) simp
qed

end
