(* ===== verification/EngineRender.thy ===== *)
theory EngineRender
  imports Engine Transport
begin

section \<open>The audio engine's rendering and output (ase/engine.cc, ase/processor.cc)\<close>

text \<open>
  The state of the engine thread beside the schedule.  Jobs are numbers, in the order in which they were
  pushed; the argument \<open>job_func\<close> runs one.  The blocks that went to the driver and to the file of a capture are
  kept in order.  Arguments are the driver's answer \<open>io\<close> (ready, and the time until it is), the render method
  \<open>rend\<close> of processors other than chains, the samples \<open>smp\<close> in a block of floats, the addition \<open>add\<close> of
  floats, and the rounding \<open>f\<close> of the transport.
\<close>

subsection \<open>State\<close>

definition MAX_BUFFER_SIZE :: nat where "MAX_BUFFER_SIZE = 2048"
definition fixed_n_channels :: nat where "fixed_n_channels = 2"

record ('p, 'd) audio_engine = "('p, 'd) engine" +
  transport :: AudioTransport
  buffer_size :: nat
  write_stamp :: nat
  chbuffer_data :: "real list"
  output_needsrunning :: bool
  wwriter :: "real list list option"
  autostop :: nat
  autostopped :: bool
  pcm_blocks :: "real list list"
  async_jobs :: "nat list"
  const_jobs :: "nat list"
  trash_jobs :: "nat list"
  user_notes :: "nat list"
  wakeups :: nat

type_synonym ('p, 'd, 'x) audio_engines = "('p, 'd, 'x) audio_engine_scheme"

subsection \<open>Rendering the schedule\<close>

text \<open>
  \<open>render_block\<close> hands the pending parameter events to the render method.  The method is by class of the
  processor; \<open>None\<close> is a read outside of the buffers.
\<close>

type_synonym ('p, 'd, 'x) render_method =
  "proc \<Rightarrow> nat \<Rightarrow> t0events \<Rightarrow> ('p, 'd, 'x) audio_engines \<Rightarrow> ('p, 'd, 'x) audio_engines option"

definition render_class :: "(float_ptr \<Rightarrow> real) \<Rightarrow> ('p, 'd, 'x) render_method \<Rightarrow> ('p, 'd, 'x) render_method" where
  "render_class dbspl rend p n evs w =
     (case impl (procs w p) of
        Inlet _ \<Rightarrow> inlet_render p w
      | Chain _ \<Rightarrow> chain_render dbspl p w
      | Other _ \<Rightarrow> rend p n evs w)"

definition render_block :: "('p, 'd, 'x) render_method \<Rightarrow> nat \<Rightarrow> proc \<Rightarrow> ('p, 'd, 'x) audio_engines \<Rightarrow>
    ('p, 'd, 'x) audio_engines option" where
  "render_block rend target_stamp p w =
     (if \<not> render_stamp (procs w p) < target_stamp \<or> \<not> target_stamp - render_stamp (procs w p) \<le> MAX_BUFFER_SIZE then Some w
      else
        let w = upd p (\<lambda>P. P\<lparr>estreams := map_option (\<lambda>es. es\<lparr>es_output := []\<rparr>) (estreams P)\<rparr>) w;
            evs = proc_t0events (procs w p);
            w = upd p (\<lambda>P. P\<lparr>proc_t0events := None\<rparr>) w in
        map_option (\<lambda>w.
          let w = upd p (\<lambda>P. P\<lparr>render_stamp := target_stamp\<rparr>) w in
          if ap_changed (params (procs w p)) then
            enotify_enqueue p {PARAMCHANGE} (upd p (\<lambda>P. P\<lparr>params := (params P)\<lparr>ap_changed := False\<rparr>\<rparr>) w)
          else w)
          (rend p (target_stamp - render_stamp (procs w p)) evs w))"

text \<open>The loop over one level reads the link after the processor has rendered.\<close>

partial_function (option) render_level :: "('p, 'd, 'x) render_method \<Rightarrow> nat \<Rightarrow> proc option \<Rightarrow>
    ('p, 'd, 'x) audio_engines \<Rightarrow> ('p, 'd, 'x) audio_engines option" where
  "render_level rend target_stamp cur w =
     (case cur of
        None \<Rightarrow> Some w
      | Some p \<Rightarrow> Option.bind (render_block rend target_stamp p w) (\<lambda>w.
          render_level rend target_stamp (sched_next (procs w p)) w))"

text \<open>The bound of the loop over levels is read in each turn.\<close>

partial_function (option) render_levels :: "('p, 'd, 'x) render_method \<Rightarrow> nat \<Rightarrow> nat \<Rightarrow>
    ('p, 'd, 'x) audio_engines \<Rightarrow> ('p, 'd, 'x) audio_engines option" where
  "render_levels rend target_stamp l w =
     (if \<not> l < length (schedule w) then Some w
      else Option.bind (render_level rend target_stamp (schedule w ! l) w) (render_levels rend target_stamp (l + 1)))"

subsection \<open>Mixing\<close>

text \<open>
  The body of the loop of \<open>interleaved_stereo\<close> runs at least once; \<open>d\<close> counts the values written.  With
  \<open>adding\<close> a value is added to what the buffer holds.
\<close>

definition put :: "(real \<Rightarrow> real \<Rightarrow> real) \<Rightarrow> bool \<Rightarrow> nat \<Rightarrow> real \<Rightarrow> real list \<Rightarrow> real list" where
  "put add adding d v buf = buf[d := (if adding then add (buf ! d) v else v)]"

function stereo_loop :: "(real \<Rightarrow> real \<Rightarrow> real) \<Rightarrow> bool \<Rightarrow> nat \<Rightarrow> (nat \<Rightarrow> real) \<Rightarrow> (nat \<Rightarrow> real) \<Rightarrow> nat \<Rightarrow> nat \<Rightarrow>
    real list \<Rightarrow> real list" where
  "stereo_loop add adding n_frames src0 src1 i d buf =
     (let buf = put add adding (d + 1) (src1 i) (put add adding d (src0 i) buf); d = d + 2 in
      if d < n_frames then stereo_loop add adding n_frames src0 src1 (i + 1) d buf else buf)"
  by pat_completeness auto
termination by (relation "measure (\<lambda>(add, adding, n_frames, src0, src1, i, d, buf). n_frames - d)") auto

declare stereo_loop.simps [simp del]

definition interleaved_stereo ::
  "(real \<Rightarrow> real \<Rightarrow> real) \<Rightarrow> (('p, 'd, 'x) audio_engines \<Rightarrow> float_ptr \<Rightarrow> nat \<Rightarrow> real) \<Rightarrow> bool \<Rightarrow> nat \<Rightarrow> proc \<Rightarrow> nat \<Rightarrow>
   ('p, 'd, 'x) audio_engines \<Rightarrow> real list \<Rightarrow> real list option" where
  "interleaved_stereo add smp adding n_frames p ob w buf =
     (if n_ochannels ob (procs w p) \<ge> 2 then
        (case (ofloats ob 0 p w, ofloats ob 1 p w) of
           (Some b0, Some b1) \<Rightarrow> Some (stereo_loop add adding n_frames (smp w b0) (smp w b1) 0 0 buf)
         | _ \<Rightarrow> None)
      else if n_ochannels ob (procs w p) \<ge> 1 then
        map_option (\<lambda>b. stereo_loop add adding n_frames (smp w b) (smp w b) 0 0 buf) (ofloats ob 0 p w)
      else Some buf)"

text \<open>The loop over the output processors, with the number \<open>n\<close> of those that were mixed.\<close>

fun mix_oprocs ::
  "(real \<Rightarrow> real \<Rightarrow> real) \<Rightarrow> (('p, 'd, 'x) audio_engines \<Rightarrow> float_ptr \<Rightarrow> nat \<Rightarrow> real) \<Rightarrow> proc list \<Rightarrow> nat \<Rightarrow>
   ('p, 'd, 'x) audio_engines \<Rightarrow> real list \<Rightarrow> (nat \<times> real list) option" where
  "mix_oprocs add smp [] n w buf = Some (n, buf)"
| "mix_oprocs add smp (p # ps) n w buf =
     (if n_obuses (procs w p) = 0 then mix_oprocs add smp ps n w buf
      else Option.bind (interleaved_stereo add smp (n \<noteq> 0) (buffer_size w * fixed_n_channels) p 1 w buf)
        (mix_oprocs add smp ps (n + 1) w))"

definition mix :: "(real \<Rightarrow> real \<Rightarrow> real) \<Rightarrow> (('p, 'd, 'x) audio_engines \<Rightarrow> float_ptr \<Rightarrow> nat \<Rightarrow> real) \<Rightarrow>
    ('p, 'd, 'x) audio_engines \<Rightarrow> real list option" where
  "mix add smp w =
     map_option (\<lambda>(n, buf).
       if n = 0 then replicate (buffer_size w * fixed_n_channels) 0 @ drop (buffer_size w * fixed_n_channels) buf else buf)
       (mix_oprocs add smp (oprocs w) 0 w (chbuffer_data w))"

definition schedule_render ::
  "(real \<Rightarrow> real) \<Rightarrow> (real \<Rightarrow> real \<Rightarrow> real) \<Rightarrow> (('p, 'd, 'x) audio_engines \<Rightarrow> float_ptr \<Rightarrow> nat \<Rightarrow> real) \<Rightarrow>
   ('p, 'd, 'x) render_method \<Rightarrow> nat \<Rightarrow> ('p, 'd, 'x) audio_engines \<Rightarrow> ('p, 'd, 'x) audio_engines option" where
  "schedule_render f add smp rend frames w =
     (if frames mod 8 \<noteq> 0 then Some w
      else
        let target_stamp = engine_stamp w + frames in
        Option.bind (render_levels rend target_stamp 0 w) (\<lambda>w.
        Option.bind (mix add smp w) (\<lambda>buf.
        let w = w\<lparr>chbuffer_data := buf, engine_stamp := target_stamp\<rparr> in
        map_option (\<lambda>t. w\<lparr>transport := t\<rparr>) (advance f (int frames) (transport w)))))"

subsection \<open>Jobs\<close>

text \<open>A job may push further jobs, which wait for the next call.  The result tells whether there was a job.\<close>

fun run_jobs :: "(nat \<Rightarrow> ('p, 'd, 'x) audio_engines \<Rightarrow> ('p, 'd, 'x) audio_engines) \<Rightarrow> nat list \<Rightarrow>
    ('p, 'd, 'x) audio_engines \<Rightarrow> ('p, 'd, 'x) audio_engines" where
  "run_jobs job_func js w = fold job_func js w"

definition trash :: "nat list \<Rightarrow> ('p, 'd, 'x) audio_engines \<Rightarrow> ('p, 'd, 'x) audio_engines" where
  "trash js w =
     (if js = [] then w
      else w\<lparr>trash_jobs := trash_jobs w @ js, wakeups := wakeups w + (if trash_jobs w = [] then 1 else 0)\<rparr>)"

definition process_async_jobs :: "(nat \<Rightarrow> ('p, 'd, 'x) audio_engines \<Rightarrow> ('p, 'd, 'x) audio_engines) \<Rightarrow>
    ('p, 'd, 'x) audio_engines \<Rightarrow> ('p, 'd, 'x) audio_engines" where
  "process_async_jobs job_func w = (let js = async_jobs w in trash js (run_jobs job_func js (w\<lparr>async_jobs := []\<rparr>)))"

definition process_const_jobs :: "(nat \<Rightarrow> ('p, 'd, 'x) audio_engines \<Rightarrow> ('p, 'd, 'x) audio_engines) \<Rightarrow>
    ('p, 'd, 'x) audio_engines \<Rightarrow> ('p, 'd, 'x) audio_engines" where
  "process_const_jobs job_func w = (let js = const_jobs w in trash js (run_jobs job_func js (w\<lparr>const_jobs := []\<rparr>)))"

definition ipc_pending :: "('p, 'd, 'x) audio_engines \<Rightarrow> bool" where
  "ipc_pending w \<longleftrightarrow> trash_jobs w \<noteq> [] \<or> user_notes w \<noteq> [] \<or> enotify_head w \<noteq> Qtail"

subsection \<open>Writing to the driver\<close>

text \<open>The driver's answer is whether it can take a block, and the time until it can.\<close>

definition pcm_check_write :: "bool \<Rightarrow> bool \<times> int \<Rightarrow> ('p, 'd, 'x) audio_engines \<Rightarrow>
    bool \<times> ('p, 'd, 'x) audio_engines" where
  "pcm_check_write write_buffer io w =
     (let can_write = fst io \<or> snd io = 0 in
      if \<not> write_buffer then (can_write, w)
      else if \<not> can_write \<or> write_stamp w \<ge> engine_stamp w then (False, w)
      else
        let block = take (buffer_size w * fixed_n_channels) (chbuffer_data w);
            w = w\<lparr>pcm_blocks := pcm_blocks w @ [block]\<rparr>;
            w = (if write_stamp w < autostop w \<and> (\<not> output_needsrunning w \<or> running (transport w))
                 then w\<lparr>wwriter := map_option (\<lambda>bs. bs @ [block]) (wwriter w)\<rparr> else w);
            w = w\<lparr>write_stamp := write_stamp w + buffer_size w\<rparr> in
        (False, if write_stamp w \<ge> autostop w then w\<lparr>autostopped := True\<rparr> else w))"

text \<open>The phases of the dispatcher: \<open>prepare_check\<close> for PREPARE and CHECK, and DISPATCH.\<close>

definition prepare_check :: "bool \<Rightarrow> bool \<times> int \<Rightarrow> ('p, 'd, 'x) audio_engines \<Rightarrow> bool" where
  "prepare_check atquit_triggered io w =
     (if atquit_triggered then False
      else if const_jobs w \<noteq> [] \<or> async_jobs w \<noteq> [] then True
      else if engine_stamp w \<le> write_stamp w then True
      else fst (pcm_check_write False io w))"

text \<open>Each of the two writes asks the driver again.\<close>

definition dispatch ::
  "(real \<Rightarrow> real) \<Rightarrow> (real \<Rightarrow> real \<Rightarrow> real) \<Rightarrow> (('p, 'd, 'x) audio_engines \<Rightarrow> float_ptr \<Rightarrow> nat \<Rightarrow> real) \<Rightarrow>
   ('p, 'd, 'x) render_method \<Rightarrow> (proc \<Rightarrow> nat \<Rightarrow> ('p, 'd, 'x) audio_engines \<Rightarrow> ('p, 'd, 'x) audio_engines) \<Rightarrow> nat \<Rightarrow>
   (nat \<Rightarrow> ('p, 'd, 'x) audio_engines \<Rightarrow> ('p, 'd, 'x) audio_engines) \<Rightarrow> bool \<times> int \<Rightarrow> bool \<times> int \<Rightarrow>
   ('p, 'd, 'x) audio_engines \<Rightarrow> ('p, 'd, 'x) audio_engines option" where
  "dispatch f add smp rend do_reset fuel job_func io io' w =
     (let w = snd (pcm_check_write True io w) in
      Option.bind
        (if \<not> engine_stamp w \<le> write_stamp w then Some w
         else
           Option.bind (renew_schedule do_reset fuel (process_async_jobs job_func w)) (\<lambda>w.
             map_option (\<lambda>w. snd (pcm_check_write True io' w))
               (if engine_stamp w \<le> write_stamp w then schedule_render f add smp rend (buffer_size w) w else Some w)))
        (\<lambda>w.
           let w = (if const_jobs w \<noteq> [] then process_const_jobs job_func (process_async_jobs job_func w) else w) in
           Some (if ipc_pending w then w\<lparr>wakeups := wakeups w + 1\<rparr> else w)))"

text \<open>
  At the start of the thread and for a new driver the buffer is cleared, and an initial block of zeros is due.
  The first argument is the length of the driver's blocks.
\<close>

definition attach_driver :: "nat \<Rightarrow> ('p, 'd, 'x) audio_engines \<Rightarrow> ('p, 'd, 'x) audio_engines" where
  "attach_driver block_length w =
     (let size = min MAX_BUFFER_SIZE block_length in
      w\<lparr>chbuffer_data := replicate (MAX_BUFFER_SIZE * fixed_n_channels) 0, buffer_size := size,
        write_stamp := engine_stamp w - size\<rparr>)"


subsection \<open>Each scheduled processor renders once, in the order of the levels\<close>

text \<open>Rendering may change anything but the schedule.\<close>

definition quiet_render :: "('p, 'd, 'x) render_method \<Rightarrow> bool" where
  "quiet_render rend \<longleftrightarrow> (\<forall>p n evs w w'. rend p n evs w = Some w' \<longrightarrow> same_schedule w w')"

definition render_all :: "('p, 'd, 'x) render_method \<Rightarrow> nat \<Rightarrow> proc list \<Rightarrow> ('p, 'd, 'x) audio_engines \<Rightarrow>
    ('p, 'd, 'x) audio_engines option" where
  "render_all rend target_stamp ps w = fold (\<lambda>p w. Option.bind w (render_block rend target_stamp p)) ps (Some w)"

lemma render_all_simps [simp]:
  "render_all rend t [] w = Some w"
  "render_all rend t (p # ps) w = Option.bind (render_block rend t p w) (render_all rend t ps)"
proof -
  have "fold (\<lambda>p w. Option.bind w (render_block rend t p)) ps None = None" for ps by (induction ps) simp_all
  then show "render_all rend t (p # ps) w = Option.bind (render_block rend t p w) (render_all rend t ps)"
    by (cases "render_block rend t p w") (simp_all add: render_all_def)
qed (simp add: render_all_def)

lemma render_all_append: "render_all rend t (ps @ qs) w = Option.bind (render_all rend t ps w) (render_all rend t qs)"
  by (induction ps arbitrary: w) (simp_all split: Option.bind_split)

lemma enotify_schedule: "same_schedule w (enotify_enqueue p m w)"
  by (auto simp: same_schedule_def enotify_enqueue_def Let_def upd_def NOTIFYMASK_def)

lemma render_block_schedule:
  assumes "quiet_render rend" and "render_block rend t p w = Some w'"
  shows "same_schedule w w'"
proof -
  have u: "same_schedule v (upd p f v)" if "\<And>P. flags (f P) = flags P" "\<And>P. sched_next (f P) = sched_next P" for v f
    using that by (intro upd_same_schedule) simp_all
  show ?thesis
  proof (cases "\<not> render_stamp (procs w p) < t \<or> \<not> t - render_stamp (procs w p) \<le> MAX_BUFFER_SIZE")
    case False
    define w1 where "w1 = upd p (\<lambda>P. P\<lparr>proc_t0events := None\<rparr>)
      (upd p (\<lambda>P. P\<lparr>estreams := map_option (\<lambda>es. es\<lparr>es_output := []\<rparr>) (estreams P)\<rparr>) w)"
    have 1: "same_schedule w w1" unfolding w1_def by (rule same_schedule_trans; rule u; simp)
    have "render_stamp (procs w1 p) = render_stamp (procs w p)" "proc_t0events (procs (upd p (\<lambda>P. P\<lparr>estreams :=
        map_option (\<lambda>es. es\<lparr>es_output := []\<rparr>) (estreams P)\<rparr>) w) p) = proc_t0events (procs w p)" by (simp_all add: w1_def)
    then obtain w2 where 2: "rend p (t - render_stamp (procs w p)) (proc_t0events (procs w p)) w1 = Some w2"
      and w': "w' = (let v = upd p (\<lambda>P. P\<lparr>render_stamp := t\<rparr>) w2 in
          if ap_changed (params (procs v p)) then
            enotify_enqueue p {PARAMCHANGE} (upd p (\<lambda>P. P\<lparr>params := (params P)\<lparr>ap_changed := False\<rparr>\<rparr>) v)
          else v)"
      using assms(2) False unfolding render_block_def Let_def w1_def [symmetric] by auto
    have 3: "same_schedule w1 w2" using assms(1) 2 by (auto simp: quiet_render_def)
    have "same_schedule w2 w'"
      unfolding w' Let_def
      by (auto intro!: u same_schedule_trans [OF _ enotify_schedule] same_schedule_trans [OF u u])
    then show ?thesis using 1 3 same_schedule_trans by blast
  qed (use assms(2) in \<open>simp add: render_block_def\<close>)
qed

lemma render_level_path:
  assumes "quiet_render rend" and "sched_path w cur ps"
  shows "render_level rend t cur w = render_all rend t ps w"
  using assms(2)
proof (induction ps arbitrary: cur w)
  case (Cons p ps)
  show ?case
  proof (cases "render_block rend t p w")
    case None
    then show ?thesis using Cons.prems by (subst render_level.simps) simp
  next
    case (Some w1)
    have "same_schedule w w1" by (rule render_block_schedule [OF assms(1) Some])
    then have "sched_path w1 (sched_next (procs w1 p)) ps"
      using Cons.prems by (subst sched_path_cong [where w = w]) (auto simp: same_schedule_def)
    then show ?thesis using Cons.IH Cons.prems Some by (subst render_level.simps) simp
  qed
qed (simp add: render_level.simps)

lemma render_all_schedule:
  assumes "quiet_render rend" and "render_all rend t ps w = Some w'"
  shows "same_schedule w w'"
  using assms(2)
proof (induction ps arbitrary: w)
  case (Cons p ps)
  then obtain w1 where "render_block rend t p w = Some w1" "render_all rend t ps w1 = Some w'"
    by (auto split: Option.bind_splits)
  then show ?case using Cons.IH render_block_schedule [OF assms(1)] same_schedule_trans by blast
qed simp

lemma render_levels_paths:
  assumes "quiet_render rend" and "list_all2 (sched_path w) (schedule w) ls" and "l \<le> length ls"
  shows "render_levels rend t l w = render_all rend t (concat (drop l ls)) w"
  using assms(2,3)
proof (induction "length ls - l" arbitrary: l w)
  case 0
  then have "l = length (schedule w)" "l = length ls" by (auto dest: list_all2_lengthD)
  then show ?case by (subst render_levels.simps) simp
next
  case (Suc n)
  then have l: "l < length ls" "l < length (schedule w)" by (auto dest: list_all2_lengthD)
  have "sched_path w (schedule w ! l) (ls ! l)" using Suc.prems(1) l by (simp add: list_all2_conv_all_nth)
  note p = render_level_path [OF assms(1) this, of t]
  have c: "concat (drop l ls) = ls ! l @ concat (drop (l + 1) ls)" using l(1) by (simp flip: Cons_nth_drop_Suc)
  show ?case
  proof (cases "render_all rend t (ls ! l) w")
    case None
    then show ?thesis using l p by (subst render_levels.simps) (simp add: c render_all_append)
  next
    case (Some w1)
    have s: "same_schedule w w1" by (rule render_all_schedule [OF assms(1) Some])
    have "sched_path w1 = sched_path w" using s by (intro ext sched_path_cong) (simp add: same_schedule_def)
    then have "list_all2 (sched_path w1) (schedule w1) ls" using Suc.prems(1) s by (simp add: same_schedule_def)
    then have "render_levels rend t (l + 1) w1 = render_all rend t (concat (drop (l + 1) ls)) w1"
      using Suc.hyps(1) [of "l + 1" w1] Suc.hyps(2) l by simp
    then show ?thesis using l p Some by (subst render_levels.simps) (simp add: c render_all_append)
  qed
qed

text \<open>
  Walking the levels through the links of the processors renders the scheduled processors one after the
  other in the order of the schedule, each exactly once, whatever rendering does to the processors.
\<close>

theorem schedule_renders_in_order:
  assumes "quiet_render rend" and "sched_levels w ls"
  shows "render_levels rend target_stamp 0 w = render_all rend target_stamp (concat ls) w \<and> distinct (concat ls)"
  using assms render_levels_paths [OF assms(1), of w ls 0] by (simp add: sched_levels_def)


text \<open>An engine for examples: nothing is scheduled, the chain and the mono processor are outputs.\<close>

definition sample_audio :: "(unit, unit) audio_engine" where
  "sample_audio = engine.extend (world.extend sample_chain (engine.fields [None] 4096 [0, 4]))
     (audio_engine.fields
       \<lparr>rate = 48000, tick_sig = new_signature id 60 4 4, current_frame = 0, current_tick = 0, current_tick_d = 0,
        current_bar = 0, current_beat = 0, current_semiquaver = 0, current_bpm = 0, current_minutes = 0,
        current_seconds = 0, current_bar_tick = 0, next_bar_tick = 0\<rparr>
       8 4096 (replicate 16 0) False None (2 ^ 64 - 1) False [] [] [] [] [] 0)"

lemmas sample_audio_fields = sample_audio_def world.defs engine.defs audio_engine.defs

lemma schedule_renders_in_order_witness:
  "render_levels (\<lambda>p n evs w. Some w) 4104 0 sample_audio = render_all (\<lambda>p n evs w. Some w) 4104 (concat [[]]) sample_audio \<and>
   distinct (concat ([[]] :: proc list list))"
proof (rule schedule_renders_in_order)
  show "quiet_render (\<lambda>p n evs w. Some w)" by (simp add: quiet_render_def)
  show "sched_levels sample_audio [[]]"
    by (auto simp: sched_levels_def sample_audio_fields) (auto simp: sample_chain_def sample_member_def Let_def split: if_splits)
qed

subsection \<open>The mix\<close>

lemma stereo_loop_nth:
  assumes "d < 2 * m" and "2 * m \<le> length buf" and "d = 2 * i"
  shows "length (stereo_loop add adding (2 * m) src0 src1 i d buf) = length buf \<and>
    (\<forall>j<length buf. stereo_loop add adding (2 * m) src0 src1 i d buf ! j =
      (if d \<le> j \<and> j < 2 * m then
         let v = (if even j then src0 else src1) (j div 2) in if adding then add (buf ! j) v else v
       else buf ! j))"
  using assms
proof (induction "2 * m - d" arbitrary: d i buf rule: less_induct)
  case less
  define b where "b = put add adding (d + 1) (src1 i) (put add adding d (src0 i) buf)"
  have len: "length b = length buf" by (simp add: b_def put_def)
  have bn: "b ! j = (if j = d \<or> j = d + 1 then
      let v = (if even j then src0 else src1) (j div 2) in if adding then add (buf ! j) v else v else buf ! j)"
    if "j < length buf" for j
    using that less.prems by (auto simp: b_def put_def nth_list_update Let_def)
  show ?case
  proof (cases "d + 2 < 2 * m")
    case True
    have r: "stereo_loop add adding (2 * m) src0 src1 i d buf = stereo_loop add adding (2 * m) src0 src1 (i + 1) (d + 2) b"
      using True by (subst stereo_loop.simps) (simp add: b_def Let_def)
    have "length (stereo_loop add adding (2 * m) src0 src1 (i + 1) (d + 2) b) = length b \<and>
      (\<forall>j<length b. stereo_loop add adding (2 * m) src0 src1 (i + 1) (d + 2) b ! j =
        (if d + 2 \<le> j \<and> j < 2 * m then
           let v = (if even j then src0 else src1) (j div 2) in if adding then add (b ! j) v else v
         else b ! j))"
      by (rule less.hyps) (use True less.prems len in auto)
    then show ?thesis unfolding r using len bn less.prems(1,3) by (auto simp: Let_def)
  next
    case False
    then have "d + 2 = 2 * m" using less.prems by presburger
    then have r: "stereo_loop add adding (2 * m) src0 src1 i d buf = b"
      by (subst stereo_loop.simps) (simp add: b_def Let_def)
    show ?thesis unfolding r using len bn \<open>d + 2 = 2 * m\<close> less.prems(2) by (auto simp: Let_def)
  qed
qed

text \<open>The sample that a processor contributes to a channel of a frame, and the sum of several.\<close>

definition channel_sample :: "(('p, 'd, 'x) audio_engines \<Rightarrow> float_ptr \<Rightarrow> nat \<Rightarrow> real) \<Rightarrow> ('p, 'd, 'x) audio_engines \<Rightarrow>
    nat \<Rightarrow> nat \<Rightarrow> proc \<Rightarrow> real" where
  "channel_sample smp w c k p = smp w (out_blocks (procs w p) ! (if n_ochannels 1 (procs w p) = 1 then 0 else c)) k"

fun mix_value :: "(real \<Rightarrow> real \<Rightarrow> real) \<Rightarrow> real list \<Rightarrow> real" where
  "mix_value add [] = 0"
| "mix_value add (v # vs) = foldl add v vs"

lemma mix_value_snoc: "vs \<noteq> [] \<Longrightarrow> mix_value add (vs @ [v]) = add (mix_value add vs) v"
  by (cases vs) simp_all

lemma interleaved_nth:
  assumes "buffered (procs w p) 1" and "0 < n_ochannels 1 (procs w p)" and "0 < m" and "2 * m \<le> length buf"
  shows "\<exists>buf'. interleaved_stereo add smp adding (m * 2) p 1 w buf = Some buf' \<and> length buf' = length buf \<and>
    (\<forall>k<m. \<forall>c<2. buf' ! (2 * k + c) =
       (if adding then add (buf ! (2 * k + c)) (channel_sample smp w c k p) else channel_sample smp w c k p))"
proof -
  note blk = ofloats_buffered [OF assms(1)]
  define s where "s c = smp w (out_blocks (procs w p) ! (if n_ochannels 1 (procs w p) = 1 then 0 else c))" for c :: nat
  have i: "interleaved_stereo add smp adding (m * 2) p 1 w buf = Some (stereo_loop add adding (2 * m) (s 0) (s 1) 0 0 buf)"
    using assms(2) blk [of 0] blk [of 1] by (auto simp: interleaved_stereo_def s_def mult.commute numeral_2_eq_2)
  note n = stereo_loop_nth [of 0 m buf 0 add adding "s 0" "s 1"]
  have "stereo_loop add adding (2 * m) (s 0) (s 1) 0 0 buf ! (2 * k + c) =
      (if adding then add (buf ! (2 * k + c)) (channel_sample smp w c k p) else channel_sample smp w c k p)"
    if "k < m" "c < 2" for k c
  proof -
    have j: "2 * k + c < 2 * m" "2 * k + c < length buf" using that assms(4) by linarith+
    have "(if even (2 * k + c) then s 0 else s 1) ((2 * k + c) div 2) = channel_sample smp w c k p"
      using that(2) by (cases "c = 0") (auto simp: channel_sample_def s_def less_2_cases_iff)
    then show ?thesis using n assms(3,4) j by (auto simp: Let_def)
  qed
  then show ?thesis using i n assms(3,4) by simp
qed

lemma mix_oprocs_values:
  assumes ps: "\<And>p. p \<in> set ps \<Longrightarrow> 0 < n_obuses (procs w p) \<Longrightarrow> buffered (procs w p) 1 \<and> 0 < n_ochannels 1 (procs w p)"
    and m: "0 < buffer_size w" "2 * buffer_size w \<le> length buf"
    and done_: "n = length qs" "n \<noteq> 0 \<Longrightarrow> \<forall>k<buffer_size w. \<forall>c<2. buf ! (2 * k + c) = mix_value add (map (channel_sample smp w c k) qs)"
  shows "\<exists>buf' qs'. mix_oprocs add smp ps n w buf = Some (length qs', buf') \<and> length buf' = length buf \<and>
    qs' = qs @ filter (\<lambda>p. 0 < n_obuses (procs w p)) ps \<and>
    (qs' \<noteq> [] \<longrightarrow> (\<forall>k<buffer_size w. \<forall>c<2. buf' ! (2 * k + c) = mix_value add (map (channel_sample smp w c k) qs')))"
  using ps m(2) done_
proof (induction ps arbitrary: n buf qs)
  case (Cons p ps)
  show ?case
  proof (cases "n_obuses (procs w p) = 0")
    case True
    then show ?thesis using Cons.IH [OF _ Cons.prems(2,3,4)] Cons.prems(1) by simp
  next
    case False
    then have b: "buffered (procs w p) 1" "0 < n_ochannels 1 (procs w p)" using Cons.prems(1) by auto
    obtain buf1 where 1: "interleaved_stereo add smp (n \<noteq> 0) (buffer_size w * 2) p 1 w buf = Some buf1"
        "length buf1 = length buf"
        "\<forall>k<buffer_size w. \<forall>c<2. buf1 ! (2 * k + c) =
          (if n \<noteq> 0 then add (buf ! (2 * k + c)) (channel_sample smp w c k p) else channel_sample smp w c k p)"
      using interleaved_nth [OF b m(1) Cons.prems(2)] by blast
    have "\<forall>k<buffer_size w. \<forall>c<2. buf1 ! (2 * k + c) = mix_value add (map (channel_sample smp w c k) (qs @ [p]))"
    proof (cases "n = 0")
      case True
      then show ?thesis using 1(3) Cons.prems(3) by simp
    next
      case False
      then have "qs \<noteq> []" using Cons.prems(3) by auto
      then show ?thesis using 1(3) Cons.prems(4) False by (simp add: mix_value_snoc)
    qed
    then obtain buf' qs' where "mix_oprocs add smp ps (n + 1) w buf1 = Some (length qs', buf')" "length buf' = length buf1"
        "qs' = (qs @ [p]) @ filter (\<lambda>p. 0 < n_obuses (procs w p)) ps"
        "qs' \<noteq> [] \<longrightarrow> (\<forall>k<buffer_size w. \<forall>c<2. buf' ! (2 * k + c) = mix_value add (map (channel_sample smp w c k) qs'))"
      using Cons.IH [of buf1 "n + 1" "qs @ [p]"] Cons.prems(1-3) 1(2) by auto
    then show ?thesis using False 1(1,2) by (auto simp: fixed_n_channels_def)
  qed
qed auto

text \<open>
  In each frame of the block that goes to the driver, each of the two channels is the sum, in order, of what
  the output processors with audio buses have in that channel; a mono processor adds to both, and without such
  processors the block is silent.
\<close>

theorem mix_is_sum_of_outputs:
  assumes "\<And>p. p \<in> set (oprocs w) \<Longrightarrow> 0 < n_obuses (procs w p) \<Longrightarrow> buffered (procs w p) 1 \<and> 0 < n_ochannels 1 (procs w p)"
    and "0 < buffer_size w" and "2 * buffer_size w \<le> length (chbuffer_data w)"
  shows "\<exists>buf. mix add smp w = Some buf \<and> length buf = length (chbuffer_data w) \<and>
    (\<forall>k<buffer_size w. \<forall>c<2. buf ! (2 * k + c) =
       mix_value add (map (channel_sample smp w c k) (filter (\<lambda>p. 0 < n_obuses (procs w p)) (oprocs w))))"
proof -
  obtain buf qs where b: "mix_oprocs add smp (oprocs w) 0 w (chbuffer_data w) = Some (length qs, buf)"
      "length buf = length (chbuffer_data w)" "qs = filter (\<lambda>p. 0 < n_obuses (procs w p)) (oprocs w)"
      "qs \<noteq> [] \<longrightarrow> (\<forall>k<buffer_size w. \<forall>c<2. buf ! (2 * k + c) = mix_value add (map (channel_sample smp w c k) qs))"
    using mix_oprocs_values [OF assms(1) assms(2,3), where ps = "oprocs w" and n = 0 and qs = "[]" and add = add and smp = smp] by auto
  define buf' where "buf' = (if qs = [] then replicate (buffer_size w * 2) 0 @ drop (buffer_size w * 2) buf else buf)"
  have m: "mix add smp w = Some buf'" by (simp add: mix_def b(1) buf'_def fixed_n_channels_def)
  have "buf' ! (2 * k + c) = mix_value add (map (channel_sample smp w c k) qs)" if "k < buffer_size w" "c < 2" for k c
  proof (cases "qs = []")
    case True
    have "2 * k + c < buffer_size w * 2" using that by linarith
    then show ?thesis using True by (simp add: buf'_def nth_append)
  qed (use b(4) that in \<open>simp add: buf'_def\<close>)
  moreover have "length buf' = length (chbuffer_data w)" using b(2) assms(3) by (simp add: buf'_def)
  ultimately show ?thesis unfolding b(3) [symmetric] using m by blast
qed

subsection \<open>No block is lost or written twice\<close>

definition keeps_output :: "('p, 'd, 'x) audio_engines \<Rightarrow> ('p, 'd, 'x) audio_engines \<Rightarrow> bool" where
  "keeps_output w w' \<longleftrightarrow> engine_stamp w' = engine_stamp w \<and> write_stamp w' = write_stamp w \<and>
     buffer_size w' = buffer_size w \<and> chbuffer_data w' = chbuffer_data w \<and> pcm_blocks w' = pcm_blocks w"

named_theorems kept \<open>operations that leave the output alone\<close>

lemma keeps_output_refl [simp]: "keeps_output w w"
  by (simp add: keeps_output_def)

lemma keeps_output_trans: "keeps_output w w1 \<Longrightarrow> keeps_output w1 w2 \<Longrightarrow> keeps_output w w2"
  by (simp add: keeps_output_def)

lemma keeps_updates [kept]:
  "keeps_output w (upd p f w)" "keeps_output w (w\<lparr>schedule := s\<rparr>)" "keeps_output w (w\<lparr>schedule_invalid := b\<rparr>)"
  "keeps_output w (enotify_enqueue p m w)" "keeps_output w (w\<lparr>async_jobs := js\<rparr>)" "keeps_output w (w\<lparr>const_jobs := js\<rparr>)"
  "keeps_output w (trash js w)" "keeps_output w (w\<lparr>wakeups := n\<rparr>)"
  by (simp_all add: keeps_output_def upd_def enotify_enqueue_def Let_def trash_def)

lemma keeps_upd_chain [kept]: "keeps_output w (upd_chain a f w)"
  unfolding upd_chain_def by (rule kept)

lemma keeps_upd_trans: "keeps_output (upd p f w) w' \<Longrightarrow> keeps_output w w'"
  by (rule keeps_output_trans [OF keeps_updates(1)])

lemma keeps_clear_level:
  assumes "clear_level cur w = Some w'"
  shows "keeps_output w w'"
  by (rule clear_level.raw_induct [where P = "\<lambda>cur w w'. keeps_output w w'", OF _ assms])
    (auto simp: Let_def split: option.splits intro: keeps_upd_trans)

lemma keeps_clear_levels: "clear_levels cs w = Some w' \<Longrightarrow> keeps_output w w'"
proof (induction cs arbitrary: w)
  case (Cons c cs)
  then obtain w1 where "clear_level c w = Some w1" "clear_levels cs w1 = Some w'" by (auto split: Option.bind_splits)
  then show ?case using Cons.IH keeps_clear_level keeps_output_trans by blast
qed simp

lemma keeps_schedule_clear:
  assumes "schedule_clear w = Some w'"
  shows "keeps_output w w'"
proof -
  obtain w1 where "clear_levels (rev (schedule w)) (w\<lparr>schedule := []\<rparr>) = Some w1" "w' = w1\<lparr>schedule_invalid := True\<rparr>"
    using assms by (auto simp: schedule_clear_def)
  then show ?thesis
    using keeps_output_trans [OF keeps_updates(2) keeps_output_trans [OF keeps_clear_levels keeps_updates(3)]] by simp
qed

lemma keeps_schedule_add:
  assumes "\<forall>p n w. keeps_output w (do_reset p n w)"
  shows "keeps_output w (schedule_add do_reset p level w)"
proof -
  have r: "keeps_output w (reset_state do_reset n p w)" for n w
    unfolding reset_state_def Let_def using assms
    by (auto intro: keeps_output_trans [OF keeps_updates(1) keeps_output_trans [OF _ keeps_updates(1)]])
  have u: "keeps_output w (upd p g ((upd p f w)\<lparr>schedule := s\<rparr>))" for f g s
    by (rule keeps_output_trans [OF keeps_output_trans [OF keeps_updates(1) keeps_updates(2)] keeps_updates(1)])
  show ?thesis
    unfolding schedule_add_def Let_def using u keeps_output_trans [OF u r] by simp
qed

lemma keeps_inputs:
  assumes "\<And>q w l w'. sched q w = Some (l, w') \<Longrightarrow> keeps_output w w'" and "schedule_inputs sched p is level w = Some (l, w')"
  shows "keeps_output w w'"
  using assms(2)
proof (induction "is" arbitrary: level w)
  case (Cons i "is")
  then show ?case
    by (auto split: option.splits Option.bind_splits) (blast intro: keeps_output_trans assms(1))+
qed simp

lemma keeps_members:
  assumes "\<And>q w l w'. sched q w = Some (l, w') \<Longrightarrow> keeps_output w w'" and "schedule_members sched a qs level w = Some (l, w')"
  shows "keeps_output w w'"
  using assms(2)
proof (induction qs arbitrary: level w)
  case (Cons q qs)
  obtain l1 w1 where 1: "sched q w = Some (l1, w1)"
      "schedule_members sched a qs (max level l1)
        (if n_obuses (procs w1 q) \<noteq> 0 then upd_chain a (\<lambda>c. c\<lparr>last_output := Some q\<rparr>) w1 else w1) = Some (l, w')"
    using Cons.prems by (auto simp: Let_def split: Option.bind_splits)
  have "keeps_output w1 (if n_obuses (procs w1 q) \<noteq> 0 then upd_chain a (\<lambda>c. c\<lparr>last_output := Some q\<rparr>) w1 else w1)"
    by (simp add: kept)
  then show ?case using assms(1) [OF 1(1)] Cons.IH [OF 1(2)] keeps_output_trans by blast
qed simp

lemma keeps_schedule_processor:
  assumes "\<forall>p n w. keeps_output w (do_reset p n w)" and "schedule_processor do_reset n p w = Some (l, w')"
  shows "keeps_output w w'"
  using assms(2)
proof (induction n arbitrary: p w l w')
  case (Suc n)
  obtain l1 w1 l2 w2 where
      1: "schedule_inputs (schedule_processor do_reset n) p [0..<n_ibuses (procs w p) + 1] 0 w = Some (l1, w1)"
    and 2: "schedule_children (schedule_processor do_reset n) p w1 = Some (l2, w2)"
    and 3: "w' = schedule_add do_reset p (max l1 l2) w2"
    using Suc.prems by (auto simp: Let_def simp del: upt_Suc split: Option.bind_splits)
  have "keeps_output w w1" by (rule keeps_inputs [OF Suc.IH 1])
  moreover have "keeps_output w1 w2"
  proof (cases "impl (procs w1 p)")
    case (Chain ch)
    obtain l3 w3 where 4: "schedule_processor do_reset n (inlet ch) (upd_chain p (\<lambda>c. c\<lparr>last_output := None\<rparr>) w1) = Some (l3, w3)"
        "schedule_members (schedule_processor do_reset n) p (processors (the_chain p w3)) l3 w3 = Some (l2, w2)"
      using 2 by (auto simp: schedule_children_def Chain Let_def split: Option.bind_splits)
    show ?thesis
      by (rule keeps_output_trans [OF keeps_upd_chain keeps_output_trans [OF Suc.IH [OF 4(1)] keeps_members [OF Suc.IH 4(2)]]])
  qed (use 2 in \<open>auto simp: schedule_children_def\<close>)
  moreover have "keeps_output w2 w'" unfolding 3 by (rule keeps_schedule_add [OF assms(1)])
  ultimately show ?case using keeps_output_trans by blast
qed simp

lemma keeps_schedule_oprocs:
  assumes "\<forall>p n w. keeps_output w (do_reset p n w)" and "schedule_oprocs do_reset n ps w = Some w'"
  shows "keeps_output w w'"
  using assms(2)
proof (induction ps arbitrary: w)
  case (Cons p ps)
  then obtain l w1 where "schedule_processor do_reset n p w = Some (l, w1)" "schedule_oprocs do_reset n ps w1 = Some w'"
    by (auto split: Option.bind_splits)
  then show ?case using Cons.IH keeps_schedule_processor [OF assms(1)] keeps_output_trans by blast
qed simp

lemma keeps_renew:
  assumes "\<forall>p n w. keeps_output w (do_reset p n w)" and "renew_schedule do_reset n w = Some w'"
  shows "keeps_output w w'"
proof (cases "schedule_invalid w")
  case True
  then obtain w1 w2 where "schedule_clear w = Some w1" "schedule_oprocs do_reset n (oprocs w1) w1 = Some w2"
      "w' = w2\<lparr>schedule_invalid := False\<rparr>"
    using assms(2) by (auto simp: renew_schedule_def split: Option.bind_splits)
  then show ?thesis
    using keeps_output_trans [OF keeps_schedule_clear keeps_output_trans [OF keeps_schedule_oprocs [OF assms(1)] keeps_updates(3)]]
    by simp
qed (use assms(2) in \<open>simp add: renew_schedule_def\<close>)


lemma keeps_render_block:
  assumes "\<forall>p n evs w w'. rend p n evs w = Some w' \<longrightarrow> keeps_output w w'" and "render_block rend t p w = Some w'"
  shows "keeps_output w w'"
proof (cases "\<not> render_stamp (procs w p) < t \<or> \<not> t - render_stamp (procs w p) \<le> MAX_BUFFER_SIZE")
  case False
  define w1 where "w1 = upd p (\<lambda>P. P\<lparr>proc_t0events := None\<rparr>)
    (upd p (\<lambda>P. P\<lparr>estreams := map_option (\<lambda>es. es\<lparr>es_output := []\<rparr>) (estreams P)\<rparr>) w)"
  have 1: "keeps_output w w1" unfolding w1_def by (rule keeps_output_trans [OF keeps_updates(1) keeps_updates(1)])
  obtain evs w2 where 2: "rend p (t - render_stamp (procs w p)) evs w1 = Some w2"
    and w': "w' = (let v = upd p (\<lambda>P. P\<lparr>render_stamp := t\<rparr>) w2 in
        if ap_changed (params (procs v p)) then
          enotify_enqueue p {PARAMCHANGE} (upd p (\<lambda>P. P\<lparr>params := (params P)\<lparr>ap_changed := False\<rparr>\<rparr>) v)
        else v)"
    using assms(2) False unfolding render_block_def Let_def w1_def [symmetric] by (auto simp: w1_def)
  have "keeps_output w2 w'"
    unfolding w' Let_def
    by (auto intro: keeps_updates(1) keeps_output_trans [OF keeps_updates(1) keeps_output_trans [OF keeps_updates(1) keeps_updates(4)]])
  then show ?thesis using 1 2 assms(1) keeps_output_trans by blast
qed (use assms(2) in \<open>simp add: render_block_def\<close>)

lemma keeps_render_level:
  assumes "\<forall>p n evs w w'. rend p n evs w = Some w' \<longrightarrow> keeps_output w w'" and "render_level rend t cur w = Some w'"
  shows "keeps_output w w'"
proof (rule render_level.raw_induct [where P = "\<lambda>rend' t' cur w w'. rend' = rend \<longrightarrow> keeps_output w w'", OF _ assms(2), THEN mp])
  fix rl rend' t' cur and w w' :: "('a, 'b, 'c) audio_engines"
  assume ih: "\<And>rend' t' cur (w :: ('a, 'b, 'c) audio_engines) w'. rl rend' t' cur w = Some w' \<Longrightarrow> rend' = rend \<longrightarrow> keeps_output w w'"
    and body: "(case cur of None \<Rightarrow> Some w
      | Some p \<Rightarrow> Option.bind (render_block rend' t' p w) (\<lambda>w. rl rend' t' (sched_next (procs w p)) w)) = Some w'"
  show "rend' = rend \<longrightarrow> keeps_output w w'"
  proof
    assume r: "rend' = rend"
    show "keeps_output w w'"
    proof (cases cur)
      case (Some p)
      then obtain w1 where "render_block rend t' p w = Some w1" "rl rend t' (sched_next (procs w1 p)) w1 = Some w'"
        using body r by (auto split: Option.bind_splits)
      then show ?thesis using ih keeps_render_block [OF assms(1)] keeps_output_trans by blast
    qed (use body in simp)
  qed
qed simp

lemma keeps_render_levels:
  assumes "\<forall>p n evs w w'. rend p n evs w = Some w' \<longrightarrow> keeps_output w w'" and "render_levels rend t l w = Some w'"
  shows "keeps_output w w'"
proof (rule render_levels.raw_induct [where P = "\<lambda>rend' t' l w w'. rend' = rend \<longrightarrow> keeps_output w w'", OF _ assms(2), THEN mp])
  fix rl rend' t' l and w w' :: "('a, 'b, 'c) audio_engines"
  assume ih: "\<And>rend' t' l (w :: ('a, 'b, 'c) audio_engines) w'. rl rend' t' l w = Some w' \<Longrightarrow> rend' = rend \<longrightarrow> keeps_output w w'"
    and body: "(if \<not> l < length (schedule w) then Some w
      else Option.bind (render_level rend' t' (schedule w ! l) w) (rl rend' t' (l + 1))) = Some w'"
  show "rend' = rend \<longrightarrow> keeps_output w w'"
  proof
    assume r: "rend' = rend"
    show "keeps_output w w'"
    proof (cases "l < length (schedule w)")
      case True
      then obtain w1 where "render_level rend t' (schedule w ! l) w = Some w1" "rl rend t' (l + 1) w1 = Some w'"
        using body r by (auto split: Option.bind_splits)
      then show ?thesis using ih keeps_render_level [OF assms(1)] keeps_output_trans by blast
    qed (use body in simp)
  qed
qed simp

text \<open>The stamps are equal, or one block is ready that is not yet written.\<close>

definition stamps_ok :: "('p, 'd, 'x) audio_engines \<Rightarrow> bool" where
  "stamps_ok w \<longleftrightarrow> (engine_stamp w = write_stamp w \<or> engine_stamp w = write_stamp w + buffer_size w) \<and>
     0 < buffer_size w \<and> buffer_size w mod 8 = 0"

definition ready_block :: "('p, 'd, 'x) audio_engines \<Rightarrow> real list" where
  "ready_block w = take (buffer_size w * fixed_n_channels) (chbuffer_data w)"

text \<open>All blocks so far: those written, and the one that is ready.\<close>

definition all_blocks :: "('p, 'd, 'x) audio_engines \<Rightarrow> real list list" where
  "all_blocks w = pcm_blocks w @ (if write_stamp w < engine_stamp w then [ready_block w] else [])"

lemma keeps_outputD:
  assumes "keeps_output w w'"
  shows "stamps_ok w' = stamps_ok w" "all_blocks w' = all_blocks w" "engine_stamp w' = engine_stamp w"
    "write_stamp w' = write_stamp w" "buffer_size w' = buffer_size w"
  using assms by (simp_all add: keeps_output_def stamps_ok_def all_blocks_def ready_block_def)

lemma pcm_check_write_blocks:
  assumes "stamps_ok w"
  shows "stamps_ok (snd (pcm_check_write True io w))" "all_blocks (snd (pcm_check_write True io w)) = all_blocks w"
    "engine_stamp (snd (pcm_check_write True io w)) = engine_stamp w"
    "buffer_size (snd (pcm_check_write True io w)) = buffer_size w"
    "write_stamp (snd (pcm_check_write True io w)) = (if fst io \<or> snd io = 0 then engine_stamp w else write_stamp w)"
  using assms by (auto simp: pcm_check_write_def Let_def stamps_ok_def all_blocks_def ready_block_def)

lemma keeps_jobs:
  assumes "\<And>j w. keeps_output w (job_func j w)"
  shows "keeps_output w (process_async_jobs job_func w)" "keeps_output w (process_const_jobs job_func w)"
proof -
  have f: "keeps_output w (fold job_func js w)" for js w
    by (induction js arbitrary: w) (auto intro: keeps_output_trans assms)
  show "keeps_output w (process_async_jobs job_func w)"
    unfolding process_async_jobs_def Let_def
    by (simp, rule keeps_output_trans [OF keeps_output_trans [OF keeps_updates(5) f] keeps_updates(7)])
  show "keeps_output w (process_const_jobs job_func w)"
    unfolding process_const_jobs_def Let_def
    by (simp, rule keeps_output_trans [OF keeps_output_trans [OF keeps_updates(6) f] keeps_updates(7)])
qed



lemma mix_is_sum_of_outputs_witness:
  "\<exists>buf. mix (+) (\<lambda>w b k. 1) sample_audio = Some buf \<and> length buf = length (chbuffer_data sample_audio) \<and>
     (\<forall>k<buffer_size sample_audio. \<forall>c<2. buf ! (2 * k + c) =
       mix_value (+) (map (channel_sample (\<lambda>w b k. 1) sample_audio c k)
         (filter (\<lambda>p. 0 < n_obuses (procs sample_audio p)) (oprocs sample_audio))))"
proof (rule mix_is_sum_of_outputs)
  have "procs sample_audio = procs sample_chain" by (simp add: sample_audio_fields)
  moreover have "buffered (procs sample_chain 0) 1" "buffered (procs sample_chain 4) 1"
    "0 < n_ochannels 1 (procs sample_chain 0)" "0 < n_ochannels 1 (procs sample_chain 4)" by code_simp+
  moreover have "oprocs sample_audio = [0, 4]" by (simp add: sample_audio_fields)
  ultimately show "buffered (procs sample_audio p) 1 \<and> 0 < n_ochannels 1 (procs sample_audio p)"
    if "p \<in> set (oprocs sample_audio)" for p using that by auto
qed (simp_all add: sample_audio_fields)


text \<open>A new driver starts with a block of zeros; a block that was ready for the old driver is dropped.\<close>

lemma attach_driver_blocks:
  assumes "0 < block_length" and "min MAX_BUFFER_SIZE block_length mod 8 = 0" and "MAX_BUFFER_SIZE \<le> engine_stamp w"
  shows "stamps_ok (attach_driver block_length w)"
    and "all_blocks (attach_driver block_length w) = pcm_blocks w @ [replicate (2 * min MAX_BUFFER_SIZE block_length) 0]"
proof -
  have p: "0 < MAX_BUFFER_SIZE" by (simp add: MAX_BUFFER_SIZE_def)
  define size where "size = min MAX_BUFFER_SIZE block_length"
  have sz: "0 < size" "size \<le> MAX_BUFFER_SIZE" "size \<le> engine_stamp w" using assms(1,3) p by (auto simp: size_def)
  show "stamps_ok (attach_driver block_length w)"
    using assms(2) sz by (simp add: attach_driver_def size_def [symmetric] stamps_ok_def Let_def)
  have "engine_stamp w - size < engine_stamp w" using sz by simp
  moreover have "take (size * 2) (replicate (MAX_BUFFER_SIZE * 2) (0::real)) = replicate (2 * size) 0"
    using sz by (simp add: take_replicate mult.commute min_absorb1)
  ultimately show "all_blocks (attach_driver block_length w) = pcm_blocks w @ [replicate (2 * min MAX_BUFFER_SIZE block_length) 0]"
    unfolding size_def [symmetric]
    by (simp add: attach_driver_def size_def [symmetric] all_blocks_def ready_block_def fixed_n_channels_def Let_def)
qed

end
