(* ===== verification/EngineDrivers.thy ===== *)
theory EngineDrivers
  imports Prelude
begin

section \<open>The drivers of the audio engine (ase/engine.cc)\<close>

text \<open>
  \<open>update_drivers\<close> opens the drivers that the preferences name.  Drivers have any type \<open>'v\<close>; the arguments
  \<open>open_pcm\<close> and \<open>open_midi\<close> give the driver for a name, if any, and whether there was an error.  A user note is
  its channel and the name of the device.
\<close>

record 'v DriverSet =
  null_pcm_driver :: "'v option"
  pcm_name :: string
  pcm_driver :: "'v option"
  midi_names :: "string list"
  midi_drivers :: "'v option list"

definition null_driver :: string where "null_driver = ''null''"

definition FIXED_N_MIDI_DRIVERS :: nat where "FIXED_N_MIDI_DRIVERS = 4"

definition resize :: "nat \<Rightarrow> 'a \<Rightarrow> 'a list \<Rightarrow> 'a list" where
  "resize n x xs = take n xs @ replicate (n - length xs) x"

text \<open>The loop over the MIDI names replaces empty ones and repetitions by the null driver.\<close>

definition dedup_midi :: "nat \<Rightarrow> string list \<Rightarrow> string list" where
  "dedup_midi i midis =
     (if midis ! i = [] then midis[i := null_driver]
      else if \<exists>j\<in>set [0..<i]. midis ! i \<noteq> null_driver \<and> midis ! i = midis ! j then midis[i := null_driver]
      else midis)"

definition dedup_midis :: "string list \<Rightarrow> string list" where
  "dedup_midis prefs =
     (let midis = resize FIXED_N_MIDI_DRIVERS [] prefs in fold dedup_midi [0..<length midis] midis)"

definition update_midi ::
  "(string \<Rightarrow> 'v option \<times> bool) \<Rightarrow> string list \<Rightarrow> nat \<Rightarrow> nat \<times> 'v DriverSet \<times> (string \<times> string) list \<Rightarrow>
   nat \<times> 'v DriverSet \<times> (string \<times> string) list" where
  "update_midi open_midi midis i = (\<lambda>(must_update, dset, notes).
     if midis ! i = midi_names dset ! i then (must_update, dset, notes)
     else
       let dset = dset\<lparr>midi_names := (midi_names dset)[i := midis ! i]\<rparr>;
           (driver, er) = (if midi_names dset ! i = null_driver then (None, False) else open_midi (midi_names dset ! i)) in
       if er then (must_update + 1, dset\<lparr>midi_drivers := (midi_drivers dset)[i := None]\<rparr>,
                   notes @ [(''driver.midi'', midi_names dset ! i)])
       else (must_update + 1, dset\<lparr>midi_drivers := (midi_drivers dset)[i := driver]\<rparr>, notes))"

definition update_pcm ::
  "(string \<Rightarrow> 'v option \<times> bool) \<Rightarrow> string \<Rightarrow> 'v DriverSet \<Rightarrow> nat \<times> 'v DriverSet \<times> (string \<times> string) list" where
  "update_pcm open_pcm name dset =
     (if name = pcm_name dset then (0, dset, [])
      else
        let dset = dset\<lparr>pcm_name := name\<rparr>;
            (driver, er) = (if name = null_driver then (null_pcm_driver dset, False) else open_pcm name) in
        if driver = None \<or> er then
          (1, dset\<lparr>pcm_driver := null_pcm_driver dset\<rparr>, [(''driver.pcm'', name)])
        else (1, dset\<lparr>pcm_driver := driver\<rparr>, []))"

text \<open>
  The result is whether the engine gets a new driver set, that set, and the notes; \<open>None\<close> is the fatal error when
  the internal driver does not open.
\<close>

definition update_drivers ::
  "(string \<Rightarrow> 'v option \<times> bool) \<Rightarrow> (string \<Rightarrow> 'v option \<times> bool) \<Rightarrow> string \<Rightarrow> string list \<Rightarrow> 'v DriverSet \<Rightarrow>
   (bool \<times> 'v DriverSet \<times> (string \<times> string) list) option" where
  "update_drivers open_pcm open_midi name midi_prefs dset =
     (let must_update = (if null_pcm_driver dset = None then 1 else 0);
          (null_ok, dset) = (if null_pcm_driver dset = None then
              (let (driver, er) = open_pcm null_driver in (driver \<noteq> None \<and> \<not> er, dset\<lparr>null_pcm_driver := driver\<rparr>))
            else (True, dset)) in
      if \<not> null_ok then None
      else
        let (n, dset, notes) = update_pcm open_pcm name dset;
            midis = dedup_midis midi_prefs;
            dset = dset\<lparr>midi_names := resize (length midis) [] (midi_names dset)\<rparr>;
            dset = dset\<lparr>midi_drivers := resize (length (midi_names dset)) None (midi_drivers dset)\<rparr>;
            (m, dset, notes) = fold (update_midi open_midi midis) [0..<length (midi_drivers dset)] (must_update + n, dset, notes) in
        Some (m \<noteq> 0, dset, notes))"

subsection \<open>No device is opened twice\<close>

lemma length_resize [simp]: "length (resize n x xs) = n"
  by (simp add: resize_def)

lemma dedup_loop:
  assumes "n \<le> length midis"
  shows "length (fold dedup_midi [0..<n] midis) = length midis \<and>
    (\<forall>i<length midis. fold dedup_midi [0..<n] midis ! i =
       (if i < n \<and> (midis ! i = [] \<or> midis ! i \<in> set (take i midis)) then null_driver else midis ! i))"
  using assms
proof (induction n)
  case (Suc n)
  define ms where "ms = fold dedup_midi [0..<n] midis"
  have len: "length ms = length midis" and nth: "\<And>i. i < length midis \<Longrightarrow> ms ! i =
      (if i < n \<and> (midis ! i = [] \<or> midis ! i \<in> set (take i midis)) then null_driver else midis ! i)"
    using Suc by (simp_all add: ms_def)
  have n: "n < length midis" using Suc.prems by simp
  have msn: "ms ! n = midis ! n" using nth [OF n] by simp
  have rep: "(\<exists>j\<in>set [0..<n]. ms ! n \<noteq> null_driver \<and> ms ! n = ms ! j) \<longleftrightarrow>
      midis ! n \<noteq> null_driver \<and> midis ! n \<noteq> [] \<and> midis ! n \<in> set (take n midis)" if "midis ! n \<noteq> []"
  proof
    assume "\<exists>j\<in>set [0..<n]. ms ! n \<noteq> null_driver \<and> ms ! n = ms ! j"
    then obtain j where j: "j < n" "midis ! n \<noteq> null_driver" "midis ! n = ms ! j" using msn by auto
    then have "midis ! n = midis ! j" using nth [of j] n by (auto split: if_splits)
    then show "midis ! n \<noteq> null_driver \<and> midis ! n \<noteq> [] \<and> midis ! n \<in> set (take n midis)"
      using j n that by (auto simp: in_set_conv_nth)
  next
    assume a: "midis ! n \<noteq> null_driver \<and> midis ! n \<noteq> [] \<and> midis ! n \<in> set (take n midis)"
    define j where "j = (LEAST j. j < n \<and> midis ! j = midis ! n)"
    obtain k where "k < n \<and> midis ! k = midis ! n" using a n by (auto simp: in_set_conv_nth)
    then have j: "j < n" "midis ! j = midis ! n" using LeastI [of "\<lambda>j. j < n \<and> midis ! j = midis ! n" k] by (simp_all add: j_def)
    have "midis ! j \<notin> set (take j midis)"
    proof
      assume "midis ! j \<in> set (take j midis)"
      then obtain i where "i < j" "midis ! i = midis ! j" using j(1) n by (auto simp: in_set_conv_nth)
      then show False using not_less_Least [of i "\<lambda>j. j < n \<and> midis ! j = midis ! n"] j by (auto simp: j_def)
    qed
    then have "ms ! j = midis ! n" using nth [of j] j n a by auto
    then show "\<exists>j\<in>set [0..<n]. ms ! n \<noteq> null_driver \<and> ms ! n = ms ! j"
      using j \<open>ms ! j = _\<close> msn a by (intro bexI [of _ j]) auto
  qed
  have "fold dedup_midi [0..<Suc n] midis = dedup_midi n ms" by (simp add: ms_def)
  also have "\<dots> = (if midis ! n = [] \<or> midis ! n \<in> set (take n midis) then ms[n := null_driver] else ms)"
  proof (cases "midis ! n = [] \<or> midis ! n = null_driver")
    case True
    have "ms[n := null_driver] = ms" if "midis ! n = null_driver" using msn that list_update_id [of ms n] by simp
    then show ?thesis using True msn by (auto simp: dedup_midi_def)
  next
    case False
    then show ?thesis using rep msn by (simp add: dedup_midi_def)
  qed
  finally show ?case using len nth n by (auto simp: nth_list_update less_Suc_eq)
qed simp

text \<open>
  The MIDI drivers that are opened are the first four preferences, where empty ones and repetitions of an
  earlier one are off; so no device is opened twice.
\<close>

theorem midi_drivers_distinct:
  "length (dedup_midis prefs) = 4 \<and>
   (\<forall>i<4. dedup_midis prefs ! i =
      (if i < length prefs \<and> prefs ! i \<noteq> [] \<and> prefs ! i \<notin> set (take i prefs) then prefs ! i else null_driver)) \<and>
   distinct (filter (\<lambda>m. m \<noteq> null_driver) (dedup_midis prefs))"
proof -
  define midis where "midis = resize 4 [] prefs"
  have len: "length midis = 4" by (simp add: midis_def)
  have d: "dedup_midis prefs = fold dedup_midi [0..<4] midis"
    by (simp add: dedup_midis_def FIXED_N_MIDI_DRIVERS_def midis_def [symmetric] len)
  note loop = dedup_loop [of 4 midis, unfolded len, simplified]
  have mn: "midis ! i = (if i < length prefs then prefs ! i else [])" if "i < 4" for i
    using that by (auto simp: midis_def resize_def nth_append)
  have tk: "prefs ! i \<in> set (take i midis) \<longleftrightarrow> prefs ! i \<in> set (take i prefs)" if "i < 4" "i < length prefs" for i
    using that by (simp add: midis_def resize_def min_def)
  have nth: "dedup_midis prefs ! i =
      (if i < length prefs \<and> prefs ! i \<noteq> [] \<and> prefs ! i \<notin> set (take i prefs) then prefs ! i else null_driver)" if "i < 4" for i
    using loop that mn [OF that] tk [OF that] by (auto simp: d)
  have l: "length (dedup_midis prefs) = 4" using loop by (simp add: d)
  have ne: "dedup_midis prefs ! i \<noteq> dedup_midis prefs ! j" if "i < j" "j < 4" "dedup_midis prefs ! j \<noteq> null_driver" for i j
  proof -
    have j: "j < length prefs" "prefs ! j \<noteq> []" "prefs ! j \<notin> set (take j prefs)" "dedup_midis prefs ! j = prefs ! j"
      using nth [OF that(2)] that(3) by (auto split: if_splits)
    have "prefs ! i \<in> set (take j prefs)" using that(1) j(1) by (auto simp: in_set_conv_nth)
    then show ?thesis using nth [of i] j that by auto
  qed
  have "distinct (filter P xs)" if "\<And>i j. i < j \<Longrightarrow> j < length xs \<Longrightarrow> P (xs ! j) \<Longrightarrow> xs ! i \<noteq> xs ! j" for P and xs :: "string list"
    using that
  proof (induction xs rule: rev_induct)
    case (snoc x xs)
    have "distinct (filter P xs)"
    proof (rule snoc.IH)
      fix i j assume "i < j" "j < length xs" "P (xs ! j)"
      then show "xs ! i \<noteq> xs ! j" using snoc.prems [of i j] by (simp add: nth_append)
    qed
    moreover have "x \<notin> set xs" if "P x"
      using snoc.prems [of _ "length xs"] that by (auto simp: in_set_conv_nth nth_append)
    ultimately show ?case by auto
  qed simp
  then have "distinct (filter (\<lambda>m. m \<noteq> null_driver) (dedup_midis prefs))" using ne l by simp
  then show ?thesis using l nth by blast
qed

lemma midi_drivers_distinct_witness:
  "let ms = dedup_midis [''a'', [], ''a'', ''b'', ''c''] in
   ms ! 0 = ''a'' \<and> ms ! 1 = null_driver \<and> ms ! 2 = null_driver \<and> ms ! 3 = ''b'' \<and>
   distinct (filter (\<lambda>m. m \<noteq> null_driver) ms)"
proof -
  note d = midi_drivers_distinct [of "[''a'', [], ''a'', ''b'', ''c'']"]
  note n = d [THEN conjunct2, THEN conjunct1, rule_format]
  show ?thesis
    using n [of 0] n [of 1] n [of 2] n [of 3] d by (simp add: Let_def numeral_eq_Suc null_driver_def)
qed

subsection \<open>The drivers follow the preferences\<close>

definition midi_driver_for :: "(string \<Rightarrow> 'v option \<times> bool) \<Rightarrow> string \<Rightarrow> 'v option" where
  "midi_driver_for open_midi name =
     (if name = null_driver \<or> snd (open_midi name) then None else fst (open_midi name))"

lemma update_midi_loop:
  assumes "length midis = N" and "length (midi_names dset) = N" and "length (midi_drivers dset) = N" and "n \<le> N"
    and "fold (update_midi open_midi midis) [0..<n] (m, dset, notes) = (m', dset', notes')"
  shows "null_pcm_driver dset' = null_pcm_driver dset \<and> pcm_name dset' = pcm_name dset \<and> pcm_driver dset' = pcm_driver dset \<and>
    length (midi_names dset') = N \<and> length (midi_drivers dset') = N \<and>
    (\<forall>i<N. midi_names dset' ! i = (if i < n then midis ! i else midi_names dset ! i) \<and>
       midi_drivers dset' ! i = (if i < n \<and> midi_names dset ! i \<noteq> midis ! i then midi_driver_for open_midi (midis ! i)
         else midi_drivers dset ! i))"
  using assms(4,5)
proof (induction n arbitrary: m' dset' notes')
  case (Suc n)
  obtain m1 d1 n1 where 1: "fold (update_midi open_midi midis) [0..<n] (m, dset, notes) = (m1, d1, n1)"
    by (cases "fold (update_midi open_midi midis) [0..<n] (m, dset, notes)")
  note ih = Suc.IH [OF _ 1]
  have n: "n < N" using Suc.prems(1) by simp
  have step: "(m', dset', notes') = update_midi open_midi midis n (m1, d1, n1)" using Suc.prems(2) 1 by simp
  have nd: "midi_names d1 ! n = midi_names dset ! n" "midi_drivers d1 ! n = midi_drivers dset ! n" "length (midi_names d1) = N"
    "length (midi_drivers d1) = N" using ih n by auto
  show ?case
  proof (cases "midis ! n = midi_names dset ! n")
    case True
    then show ?thesis using ih n step nd by (auto simp: update_midi_def less_Suc_eq)
  next
    case False
    then have "dset' = d1\<lparr>midi_names := (midi_names d1)[n := midis ! n],
        midi_drivers := (midi_drivers d1)[n := midi_driver_for open_midi (midis ! n)]\<rparr>"
      using step nd n by (auto simp: update_midi_def Let_def midi_driver_for_def split: if_splits prod.splits)
    then show ?thesis using ih n False nd by (auto simp: nth_list_update less_Suc_eq)
  qed
qed (use assms in auto)

lemma update_midi_unchanged:
  assumes "\<forall>i<n. midi_names dset ! i = midis ! i"
  shows "fold (update_midi open_midi midis) [0..<n] (m, dset, notes) = (m, dset, notes)"
  using assms by (induction n) (simp_all add: update_midi_def)

lemma length_dedup: "length (dedup_midis prefs) = 4"
  using dedup_loop [of 4 "resize 4 [] prefs"] by (simp add: dedup_midis_def FIXED_N_MIDI_DRIVERS_def)

lemma resize_same: "length xs = n \<Longrightarrow> resize n x xs = xs"
  by (simp add: resize_def)

lemma update_pcm_fields:
  "update_pcm open_pcm name dset = (n, dset', notes) \<Longrightarrow> pcm_name dset' = name \<and> midi_names dset' = midi_names dset \<and>
     midi_drivers dset' = midi_drivers dset \<and> null_pcm_driver dset' = null_pcm_driver dset"
  by (auto simp: update_pcm_def Let_def split: if_splits prod.splits)

text \<open>
  C33: After an update each MIDI driver is the one opened for its preference, or is kept where the name has not
  changed, and is off where opening failed; updating again with the same preferences opens nothing, keeps
  all drivers and does not disturb the engine, also where opening had failed.
\<close>

theorem drivers_follow_preferences:
  assumes "update_drivers open_pcm open_midi name prefs dset = Some (b, dset', notes)"
  shows "midi_names dset' = dedup_midis prefs \<and> pcm_name dset' = name \<and>
    (\<forall>i<4. midi_drivers dset' ! i =
       (if resize 4 [] (midi_names dset) ! i = dedup_midis prefs ! i then resize 4 None (midi_drivers dset) ! i
        else midi_driver_for open_midi (dedup_midis prefs ! i))) \<and>
    update_drivers open_pcm' open_midi' name prefs dset' = Some (False, dset', [])"
proof -
  obtain d0 where d0: "null_pcm_driver d0 \<noteq> None" "midi_names d0 = midi_names dset" "midi_drivers d0 = midi_drivers dset"
    and u: "(let (n, d, notes) = update_pcm open_pcm name d0;
            midis = dedup_midis prefs;
            d = d\<lparr>midi_names := resize (length midis) [] (midi_names d)\<rparr>;
            d = d\<lparr>midi_drivers := resize (length (midi_names d)) None (midi_drivers d)\<rparr>;
            (m, d, notes) = fold (update_midi open_midi midis) [0..<length (midi_drivers d)]
              ((if null_pcm_driver dset = None then 1 else 0) + n, d, notes) in
        Some (m \<noteq> 0, d, notes)) = Some (b, dset', notes)"
  proof (cases "null_pcm_driver dset")
    case (Some v)
    then show thesis using assms by (intro that [of dset]) (simp_all add: update_drivers_def)
  next
    case None
    obtain driver er where o: "open_pcm null_driver = (driver, er)" by (cases "open_pcm null_driver")
    then have "driver \<noteq> None \<and> \<not> er" using assms None by (auto simp: update_drivers_def Let_def split: if_splits)
    then show thesis using assms None o by (intro that [of "dset\<lparr>null_pcm_driver := driver\<rparr>"]) (simp_all add: update_drivers_def)
  qed
  obtain n d1 n1 where p: "update_pcm open_pcm name d0 = (n, d1, n1)" by (cases "update_pcm open_pcm name d0")
  note pf = update_pcm_fields [OF p]
  define d2 where "d2 = d1\<lparr>midi_names := resize 4 [] (midi_names dset), midi_drivers := resize 4 None (midi_drivers dset)\<rparr>"
  obtain m' where f: "fold (update_midi open_midi (dedup_midis prefs)) [0..<4]
      ((if null_pcm_driver dset = None then 1 else 0) + n, d2, n1) = (m', dset', notes)"
    using u p pf d0 by (simp add: Let_def length_dedup d2_def del: upt_Suc split: prod.splits)
  have len: "length (dedup_midis prefs) = 4" "length (midi_names d2) = 4" "length (midi_drivers d2) = 4"
    by (simp_all add: length_dedup d2_def)
  note l = update_midi_loop [OF len order.refl f]
  have names: "midi_names dset' = dedup_midis prefs" using l len by (auto simp: list_eq_iff_nth_eq)
  have l4: "length (midi_names dset') = 4" "length (midi_drivers dset') = 4" using l by auto
  obtain v where pn: "pcm_name dset' = name" "null_pcm_driver dset' = Some v" using l pf d0 by (auto simp: d2_def)
  have fx: "fold (update_midi open_midi' (dedup_midis prefs)) [0..<4] (0, dset', []) = (0, dset', [])"
    by (rule update_midi_unchanged) (simp add: names)
  have r: "dset'\<lparr>midi_names := resize 4 [] (midi_names dset')\<rparr> = dset'" "dset'\<lparr>midi_drivers := resize 4 None (midi_drivers dset')\<rparr> = dset'"
    using l4 by (simp_all add: resize_same)
  have "update_drivers open_pcm' open_midi' name prefs dset' = Some (False, dset', [])"
    using pn l4 fx r by (simp add: update_drivers_def update_pcm_def Let_def len(1) del: upt_Suc)
  then show ?thesis using names pn l by (auto simp: d2_def)
qed

lemma drivers_follow_preferences_witness:
  "let dset = \<lparr>null_pcm_driver = Some (0 :: nat), pcm_name = ''null'', pcm_driver = Some 0, midi_names = [], midi_drivers = []\<rparr>;
       open_midi = (\<lambda>name. if name = ''kbd'' then (Some 1, False) else (None, True)) in
   \<exists>dset'. update_drivers (\<lambda>_. (Some 0, False)) open_midi ''null'' [''kbd'', ''pad''] dset =
       Some (True, dset', [(''driver.midi'', ''pad'')]) \<and> midi_drivers dset' ! 0 = Some 1 \<and> midi_drivers dset' ! 1 = None \<and>
     update_drivers (\<lambda>_. (None, True)) open_midi ''null'' [''kbd'', ''pad''] dset' = Some (False, dset', [])"
proof -
  define dset where "dset = \<lparr>null_pcm_driver = Some (0 :: nat), pcm_name = ''null'', pcm_driver = Some 0, midi_names = [], midi_drivers = []\<rparr>"
  define open_midi where "open_midi = (\<lambda>name. if name = ''kbd'' then (Some (1 :: nat), False) else (None, True))"
  obtain b dset' nts where u: "update_drivers (\<lambda>_. (Some 0, False)) open_midi ''null'' [''kbd'', ''pad''] dset = Some (b, dset', nts)"
    and n: "b" "nts = [(''driver.midi'', ''pad'')]" "midi_drivers dset' ! 0 = Some 1" "midi_drivers dset' ! 1 = None"
  proof -
    have "(case update_drivers (\<lambda>_. (Some 0, False)) open_midi ''null'' [''kbd'', ''pad''] dset of
        Some (b, d, ns) \<Rightarrow> b \<and> ns = [(''driver.midi'', ''pad'')] \<and> midi_drivers d ! 0 = Some 1 \<and> midi_drivers d ! 1 = None
      | None \<Rightarrow> False)"
      unfolding dset_def open_midi_def by code_simp
    then show thesis using that by (auto split: option.splits prod.splits)
  qed
  show ?thesis
    using drivers_follow_preferences [OF u, of "\<lambda>_. (None, True)" open_midi] u n
    by (auto simp: dset_def [symmetric] open_midi_def [symmetric] Let_def)
qed

end
