(* ===== verification/Keccak.thy ===== *)
theory Keccak
  imports Prelude
begin

section \<open>The Keccak permutation (ase/randomhash.cc)\<close>

text \<open>
  \<open>KeccakF1600\<close> holds 25 words, which are also read and written as 200 bytes in little endian order.  The loops of
  \<open>permute\<close> are folds over the indices in the order of the code, on the list of words.
\<close>

subsection \<open>The state and its bytes\<close>

type_synonym keccak = "u64 list"

definition keccak_reset :: keccak where
  "keccak_reset = replicate 25 0"

definition keccak_byte :: "keccak \<Rightarrow> nat \<Rightarrow> u8" where
  "keccak_byte A i = ucast (drop_bit (8 * (i mod 8)) (A ! (i div 8)))"

definition xor_byte :: "nat \<Rightarrow> u8 \<Rightarrow> keccak \<Rightarrow> keccak" where
  "xor_byte i b A = A[i div 8 := A ! (i div 8) XOR push_bit (8 * (i mod 8)) (ucast b)]"

subsection \<open>One round\<close>

definition KECCAK_RHO_OFFSETS :: "nat list" where
  "KECCAK_RHO_OFFSETS =
    [0, 1, 62, 28, 27, 36, 44, 6, 55, 20, 3, 10, 43, 25, 39, 41, 45, 15, 21, 8, 18, 2, 61, 56, 14]"

definition KECCAK_ROUND_CONSTANTS :: "u64 list" where
  "KECCAK_ROUND_CONSTANTS = [
     1, 32898, 0x800000000000808a, 0x8000000080008000, 32907, 0x80000001, 0x8000000080008081,
     0x8000000000008009, 138, 136, 0x80008009, 0x8000000a, 0x8000808b, 0x800000000000008b,
     0x8000000000008089, 0x8000000000008003, 0x8000000000008002, 0x8000000000000080, 32778,
     0x800000008000000a, 0x8000000080008081, 0x8000000000008080, 0x80000001, 0x8000000080008008,
     0x8000000080008082, 0x800000008000800a, 0x8000000000000003, 0x8000000080000009, 0x8000000000008082,
     32777, 0x8000000000000080, 32899, 0x8000000000000081, 1, 32779, 0x8000000080008001, 128,
     0x8000000000008000, 0x8000000080008001, 9, 0x800000008000808b, 129, 0x8000000000000082, 0x8000008b,
     0x8000000080008009, 0x8000000080000000, 0x80000080, 0x80008003, 0x8000000080008082,
     0x8000000080008083, 0x8000000080000088, 32905, 32777, 0x8000000000000009, 0x80008008, 0x80008001,
     0x800000000000008a, 0x800000000000000b, 137, 0x80000002, 0x800000000000800b, 0x8000800b, 32907,
     0x80000088, 0x800000000000800a, 0x80000089, 0x8000000000000001, 0x8000000000008088,
     0x8000000000000081, 136, 0x80008080, 129, 0x800000000000000b, 0, 137, 0x8000008b, 0x8000000080008080,
     0x800000000000008b, 0x8000000000008000, 0x8000000080008088, 0x80000082, 11, 0x800000000000000a, 32898,
     0x8000000000008003, 0x800000000000808b, 0x800000008000000b, 0x800000008000008a, 0x80000081,
     0x80000081, 0x80000008, 131, 0x8000000080008003, 0x80008088, 0x8000000080000088, 32768, 0x80008082,
     0x80008089, 0x8000000080008083, 0x8000000080000001, 0x80008002, 0x8000000080000089, 130,
     0x8000000080000008, 0x8000000000000089, 0x8000000080000008, 0x8000000000000000, 0x8000000000000083,
     0x80008080, 8, 0x8000000080000080, 0x8000000080008080, 0x8000000000000002, 0x800000008000808b, 8,
     0x8000000080000009, 0x800000000000800b, 0x80008082, 0x80008000, 0x8000000000008008, 32897,
     0x8000000080008089, 0x80008089, 0x800000008000800a, 0x800000000000008a, 0x8000000000000082,
     0x80000002, 0x8000000000008082, 32896, 0x800000008000000b, 0x8000000080000003, 10, 0x8000000000008001,
     0x8000000080000083, 0x8000000000008083, 139, 32778, 0x8000000080000083, 0x800000000000800a,
     0x80000000, 0x800000008000008a, 0x80000008, 10, 0x8000000000008088, 0x8000000000000008, 0x80000003,
     0x8000000000000000, 0x800000000000000a, 32779, 0x8000000080008088, 0x8000000b, 0x80000080, 0x8000808a,
     0x8000000000008009, 3, 0x80000003, 0x8000000000000089, 0x8000000080000081, 0x800000008000008b,
     0x80008003, 0x800000008000800b, 0x8000000000008008, 32776, 0x8000000000008002, 0x8000000000000009,
     0x80008081, 32906, 0x8000800a, 128, 0x8000000000008089, 0x800000000000808a, 0x8000000080008089,
     0x80008000, 0x8000000000008081, 0x8000800a, 9, 0x8000000080008002, 0x8000000a, 0x80008002,
     0x8000000080000000, 0x80000009, 32904, 2, 0x80008008, 0x80008088, 0x8000000080000001, 0x8000808b,
     0x8000000000000002, 0x8000000080008002, 0x80000083, 32905, 32896, 0x8000000080000082,
     0x8000000000000088, 0x800000008000808a, 32906, 0x80008083, 0x8000000b, 0x80000009, 32769, 0x80000089,
     0x8000000000000088, 0x8000000080008003, 0x80008001, 0x8000000000000003, 0x8000000080000080,
     0x8000000080008009, 0x8000000080000089, 11, 0x8000000000000083, 0x80008009, 0x80000083, 32768,
     0x8000800b, 32770, 3, 0x8000008a, 0x8000000080000002, 32769, 0x80000000, 0x8000000080000003, 131,
     0x800000008000808a, 32771, 32776, 0x800000000000808b, 0x8000000080000082, 0x8000000000000001,
     0x8000000000008001, 0x800000008000000a, 0x8000000080008008, 0x800000008000800b, 0x8000000000008081,
     0x80008083, 0x80000082, 130, 0x8000000080000081, 0x8000000080000002, 32904, 139, 32899,
     0x8000000000000008, 0x8000008a, 0x800000008000008b, 0x8000808a, 0x8000000000008080, 0x80000088,
     0x8000000000008083, 2, 0x80008081, 32771, 32897, 0x8000000080008000, 32770, 138]"

definition bit_rotate64 :: "u64 \<Rightarrow> nat \<Rightarrow> u64" where
  "bit_rotate64 bits offset = (if offset = 0 then bits else push_bit offset bits OR drop_bit (64 - offset) bits)"

definition keccak_theta :: "keccak \<Rightarrow> keccak" where
  "keccak_theta A =
     (let C = map (\<lambda>x. fold (\<lambda>y c. c XOR A ! (x + 5 * y)) [1..<5] (A ! x)) [0..<5] in
      fold (\<lambda>x A.
        let D = C ! ((5 + x - 1) mod 5) XOR bit_rotate64 (C ! ((x + 1) mod 5)) 1 in
        fold (\<lambda>y A. A[x + 5 * y := A ! (x + 5 * y) XOR D]) [0..<5] A) [0..<5] A)"

text \<open>The loops that go through planes at the offsets 0, 5, 10, 15 and 20.\<close>

definition planes :: "nat list" where
  "planes = [0, 5, 10, 15, 20]"

definition keccak_rho :: "keccak \<Rightarrow> keccak" where
  "keccak_rho A =
     fold (\<lambda>y A. fold (\<lambda>x A. A[y + x := bit_rotate64 (A ! (y + x)) (KECCAK_RHO_OFFSETS ! (x + y))]) [0..<5] A) planes A"

definition keccak_pi :: "keccak \<Rightarrow> keccak" where
  "keccak_pi A =
     (let a = A in
      fold (\<lambda>y A. fold (\<lambda>x A.
        let X = (0 * x + 1 * y) mod 5; Y = (2 * x + 3 * y) mod 5 in
        A[X + 5 * Y := a ! (x + 5 * y)]) [0..<5] A) [0..<5] A)"

definition keccak_chi :: "keccak \<Rightarrow> keccak" where
  "keccak_chi A =
     fold (\<lambda>y A.
       let C = map (\<lambda>x. A ! (y + x) XOR (NOT (A ! (y + (x + 1) mod 5)) AND A ! (y + (x + 2) mod 5))) [0..<5] in
       fold (\<lambda>x A. A[y + x := C ! x]) [0..<5] A) planes A"

definition keccak_iota :: "nat \<Rightarrow> keccak \<Rightarrow> keccak" where
  "keccak_iota round_index A = A[0 := A ! 0 XOR KECCAK_ROUND_CONSTANTS ! round_index]"

definition keccak_round :: "nat \<Rightarrow> keccak \<Rightarrow> keccak" where
  "keccak_round round_index A = keccak_iota round_index (keccak_chi (keccak_pi (keccak_rho (keccak_theta A))))"

text \<open>Too many rounds are refused.\<close>

definition permute :: "nat \<Rightarrow> keccak \<Rightarrow> keccak" where
  "permute n_rounds A = (if \<not> n_rounds < 255 then A else fold keccak_round [0..<n_rounds] A)"


subsection \<open>Loops that update one index at a time\<close>

lemma fold_nested:
  "fold (\<lambda>x A. fold (\<lambda>y A. h x y A) ys A) xs A = fold (\<lambda>(x, y). h x y) (List.product xs ys) A"
  by (induction xs arbitrary: A) (simp_all add: fold_map comp_def)

lemma length_fold_update [simp]: "length (fold (\<lambda>i A. A[f i := g i A]) is A) = length A"
  by (induction "is" arbitrary: A) simp_all

lemma nth_fold_update:
  assumes "distinct is" and "inj_on f (set is)" and "\<forall>i\<in>set is. f i < length A"
  shows "(\<forall>i\<in>set is. fold (\<lambda>i A. A[f i := g i (A ! f i)]) is A ! f i = g i (A ! f i)) \<and>
    (\<forall>j. j \<notin> f ` set is \<longrightarrow> fold (\<lambda>i A. A[f i := g i (A ! f i)]) is A ! j = A ! j)"
  using assms
proof (induction "is" arbitrary: A)
  case (Cons i "is")
  let ?A = "A[f i := g i (A ! f i)]"
  have ih: "\<forall>k\<in>set is. fold (\<lambda>i A. A[f i := g i (A ! f i)]) is ?A ! f k = g k (?A ! f k)"
    "\<forall>j. j \<notin> f ` set is \<longrightarrow> fold (\<lambda>i A. A[f i := g i (A ! f i)]) is ?A ! j = ?A ! j"
    using Cons.IH [of ?A] Cons.prems by auto
  have "f i \<notin> f ` set is" using Cons.prems by auto
  then have "f k \<noteq> f i" if "k \<in> set is" for k
    using that by (metis imageI)
  then show ?case using ih Cons.prems by (auto simp: nth_list_update)
qed simp

lemma length_keccak_reset [simp]: "length keccak_reset = 25"
  by (simp add: keccak_reset_def)

definition col :: "keccak \<Rightarrow> nat \<Rightarrow> u64" where
  "col A x = A ! x XOR A ! (x + 5) XOR A ! (x + 10) XOR A ! (x + 15) XOR A ! (x + 20)"

definition effect :: "keccak \<Rightarrow> nat \<Rightarrow> u64" where
  "effect A x = col A ((x + 4) mod 5) XOR bit_rotate64 (col A ((x + 1) mod 5)) 1"

text \<open>The lane at the column \<open>x\<close> of the plane \<open>y\<close>.\<close>

lemma lanes:
  assumes "\<And>x y. x < 5 \<Longrightarrow> y < 5 \<Longrightarrow> A ! (x + 5 * y) = B ! (x + 5 * y)" and "length A = 25" and "length B = 25"
  shows "A = B"
proof (rule nth_equalityI)
  fix i assume "i < length A"
  then have "i mod 5 < 5" "i div 5 < 5" "i = i mod 5 + 5 * (i div 5)" using assms by auto
  then show "A ! i = B ! i" using assms(1) [of "i mod 5" "i div 5"] by simp
qed (simp add: assms)

lemma lane_eq: "x < 5 \<Longrightarrow> x' < 5 \<Longrightarrow> x + 5 * y = x' + 5 * y' \<longleftrightarrow> x = x' \<and> y = y'" for x x' y y' :: nat
  by presburger

lemma lane_eq': "x < 5 \<Longrightarrow> x' < 5 \<Longrightarrow> 5 * y + x = 5 * y' + x' \<longleftrightarrow> y = y' \<and> x = x'" for x x' y y' :: nat
  by presburger

lemma nth_lane_loop:
  assumes "length A = 25" and "x < 5" and "y < 5"
  shows "fold (\<lambda>(x, y) A. A[x + 5 * y := g x y (A ! (x + 5 * y))]) (List.product [0..<5] [0..<5]) A ! (x + 5 * y) =
    g x y (A ! (x + 5 * y))"
proof -
  have "inj_on (\<lambda>(x, y). x + 5 * y) (set (List.product [0..<5] [0..<5]))"
    by (auto simp: inj_on_def lane_eq)
  from nth_fold_update [OF _ this, of A "\<lambda>(x, y). g x y"] assms
  show ?thesis by (auto simp: case_prod_unfold distinct_product)
qed

lemma length_theta [simp]: "length (keccak_theta A) = length A"
  by (simp add: keccak_theta_def Let_def fold_nested case_prod_unfold)

lemma theta_lane:
  assumes "length A = 25" and "x < 5" and "y < 5"
  shows "keccak_theta A ! (x + 5 * y) = A ! (x + 5 * y) XOR effect A x"
proof -
  define C where "C = map (\<lambda>x. fold (\<lambda>y c. c XOR A ! (x + 5 * y)) [1..<5] (A ! x)) [0..<5]"
  have C: "C ! x = col A x" if "x < 5" for x
  proof -
    have "[1..<5] = [1, 2, 3, 4 :: nat]" by code_simp
    then show ?thesis using that by (simp add: C_def col_def xor.assoc del: upt_Suc)
  qed
  have "keccak_theta A ! (x + 5 * y) = A ! (x + 5 * y) XOR (C ! ((5 + x - 1) mod 5) XOR bit_rotate64 (C ! ((x + 1) mod 5)) 1)"
    unfolding keccak_theta_def Let_def C_def [symmetric] fold_nested by (rule nth_lane_loop [OF assms])
  then show ?thesis by (simp add: C effect_def add.commute)
qed

lemma planes_upto: "planes = map (\<lambda>y. 5 * y) [0..<5]"
  by code_simp

lemma length_rho [simp]: "length (keccak_rho A) = length A"
  by (simp add: keccak_rho_def fold_nested case_prod_unfold)

lemma rho_lane:
  assumes "length A = 25" and "x < 5" and "y < 5"
  shows "keccak_rho A ! (x + 5 * y) = bit_rotate64 (A ! (x + 5 * y)) (KECCAK_RHO_OFFSETS ! (x + 5 * y))"
proof -
  have inj: "inj_on (\<lambda>(y, x). y + x) (set (List.product planes [0..<5]))"
    by (auto simp: planes_upto inj_on_def lane_eq')
  have "distinct (List.product planes [0..<5])" by (intro distinct_product) code_simp+
  from nth_fold_update [OF this inj, of A "\<lambda>(y, x) w. bit_rotate64 w (KECCAK_RHO_OFFSETS ! (x + y))"]
  have "keccak_rho A ! (5 * y + x) = bit_rotate64 (A ! (5 * y + x)) (KECCAK_RHO_OFFSETS ! (x + 5 * y))"
    using assms by (force simp: keccak_rho_def fold_nested case_prod_unfold planes_upto)
  then show ?thesis by (simp add: add.commute)
qed

lemma length_pi [simp]: "length (keccak_pi A) = length A"
  by (simp add: keccak_pi_def Let_def fold_nested case_prod_unfold)

lemma pi_inj:
  fixes x x' y :: nat
  assumes "x < 5" and "x' < 5" and "y < 5" and "(2 * x + 3 * y) mod 5 = (2 * x' + 3 * y) mod 5"
  shows "x = x'"
proof -
  have "u \<in> {0, 1, 2, 3, 4}" if "u < 5" for u :: nat using that by auto
  then have "x \<in> {0, 1, 2, 3, 4}" "x' \<in> {0, 1, 2, 3, 4}" "y \<in> {0, 1, 2, 3, 4}" using assms by blast+
  then show ?thesis using assms(4) by auto
qed

lemma pi_lane:
  assumes "length A = 25" and "x < 5" and "y < 5"
  shows "keccak_pi A ! (y + 5 * ((2 * x + 3 * y) mod 5)) = A ! (x + 5 * y)"
proof -
  let ?f = "\<lambda>(y, x). (0 * x + 1 * y) mod 5 + 5 * ((2 * x + 3 * y) mod 5)"
  have inj: "inj_on ?f (set (List.product [0..<5] [0..<5]))"
    by (auto simp: inj_on_def lane_eq dest: pi_inj)
  from nth_fold_update [OF distinct_product [OF distinct_upt distinct_upt] this, of A "\<lambda>(y, x) w. A ! (x + 5 * y)"]
  show ?thesis using assms
    by (force simp: keccak_pi_def Let_def fold_nested case_prod_unfold)
qed

subsection \<open>Chi acts on the rows\<close>

definition chi_plane :: "nat \<Rightarrow> keccak \<Rightarrow> keccak" where
  "chi_plane y A =
     (let C = map (\<lambda>x. A ! (y + x) XOR (NOT (A ! (y + (x + 1) mod 5)) AND A ! (y + (x + 2) mod 5))) [0..<5] in
      fold (\<lambda>x A. A[y + x := C ! x]) [0..<5] A)"

lemma length_chi_plane [simp]: "length (chi_plane y A) = length A"
  by (simp add: chi_plane_def Let_def)

lemma chi_plane_nth:
  assumes "y + 5 \<le> length A"
  shows "x < 5 \<Longrightarrow> chi_plane y A ! (y + x) = A ! (y + x) XOR (NOT (A ! (y + (x + 1) mod 5)) AND A ! (y + (x + 2) mod 5))"
    and "j < y \<or> y + 5 \<le> j \<Longrightarrow> chi_plane y A ! j = A ! j"
proof -
  define C where "C = map (\<lambda>x. A ! (y + x) XOR (NOT (A ! (y + (x + 1) mod 5)) AND A ! (y + (x + 2) mod 5))) [0..<5]"
  have inj: "inj_on ((+) y) (set [0..<5])" by (simp add: inj_on_def)
  note u = nth_fold_update [OF distinct_upt inj, of A "\<lambda>x w. C ! x"]
  have cp: "chi_plane y A = fold (\<lambda>x A. A[y + x := C ! x]) [0..<5] A" by (simp add: chi_plane_def C_def)
  show "x < 5 \<Longrightarrow> chi_plane y A ! (y + x) = A ! (y + x) XOR (NOT (A ! (y + (x + 1) mod 5)) AND A ! (y + (x + 2) mod 5))"
    unfolding cp using u assms by (auto simp: C_def)
  show "j < y \<or> y + 5 \<le> j \<Longrightarrow> chi_plane y A ! j = A ! j"
    unfolding cp using u assms by auto
qed

lemma chi_planes: "keccak_chi A = fold chi_plane planes A"
  unfolding keccak_chi_def chi_plane_def [abs_def] by (rule refl)

lemma length_chi [simp]: "length (keccak_chi A) = length A"
proof -
  have "length (fold chi_plane ps A) = length A" for ps by (induction ps arbitrary: A) simp_all
  then show ?thesis by (simp add: chi_planes)
qed

lemma chi_lane:
  assumes "length A = 25" and "x < 5" and "y < 5"
  shows "keccak_chi A ! (x + 5 * y) =
    A ! (x + 5 * y) XOR (NOT (A ! ((x + 1) mod 5 + 5 * y)) AND A ! ((x + 2) mod 5 + 5 * y))"
proof -
  have "k \<le> 5 \<Longrightarrow> length (fold chi_plane (map (\<lambda>y. 5 * y) [0..<k]) A) = 25 \<and>
      (\<forall>y<k. \<forall>x<5. fold chi_plane (map (\<lambda>y. 5 * y) [0..<k]) A ! (5 * y + x) =
        A ! (5 * y + x) XOR (NOT (A ! (5 * y + (x + 1) mod 5)) AND A ! (5 * y + (x + 2) mod 5))) \<and>
      (\<forall>j\<ge>5 * k. fold chi_plane (map (\<lambda>y. 5 * y) [0..<k]) A ! j = A ! j)" for k
  proof (induction k)
    case 0
    then show ?case using assms by simp
  next
    case (Suc k)
    define B where "B = fold chi_plane (map (\<lambda>y. 5 * y) [0..<k]) A"
    have B: "length B = 25" "\<forall>y<k. \<forall>x<5. B ! (5 * y + x) =
        A ! (5 * y + x) XOR (NOT (A ! (5 * y + (x + 1) mod 5)) AND A ! (5 * y + (x + 2) mod 5))" "\<forall>j\<ge>5 * k. B ! j = A ! j"
      using Suc by (simp_all add: B_def)
    have le: "5 * k + 5 \<le> length B" using Suc.prems B by simp
    note n = chi_plane_nth [OF le]
    have "chi_plane (5 * k) B ! (5 * y + x) = B ! (5 * y + x)" if "y < k" "x < 5" for x y
      using n(2) [of "5 * y + x"] that by simp
    then show ?case
      using B n by (auto simp: B_def [symmetric] less_Suc_eq)
  qed
  from this [of 5] have "keccak_chi A ! (5 * y + x) =
      A ! (5 * y + x) XOR (NOT (A ! (5 * y + (x + 1) mod 5)) AND A ! (5 * y + (x + 2) mod 5))"
    using assms(2,3) by (simp add: chi_planes planes_upto del: upt_Suc)
  then show ?thesis by (simp add: add.commute)
qed

text \<open>A row of five bits can be recovered.\<close>

lemma chi_bits:
  fixes a b c d e a' b' c' d' e' :: bool
  assumes "(a \<noteq> (\<not> b \<and> c)) = (a' \<noteq> (\<not> b' \<and> c'))" and "(b \<noteq> (\<not> c \<and> d)) = (b' \<noteq> (\<not> c' \<and> d'))"
    and "(c \<noteq> (\<not> d \<and> e)) = (c' \<noteq> (\<not> d' \<and> e'))" and "(d \<noteq> (\<not> e \<and> a)) = (d' \<noteq> (\<not> e' \<and> a'))"
    and "(e \<noteq> (\<not> a \<and> b)) = (e' \<noteq> (\<not> a' \<and> b'))"
  shows "a = a' \<and> b = b' \<and> c = c' \<and> d = d' \<and> e = e'"
  using assms by (cases a; cases b; cases c; cases d; cases e) auto

lemma chi_row:
  fixes a b :: "nat \<Rightarrow> bool"
  assumes "\<And>i. i < 5 \<Longrightarrow> (a i \<noteq> (\<not> a ((i + 1) mod 5) \<and> a ((i + 2) mod 5))) = (b i \<noteq> (\<not> b ((i + 1) mod 5) \<and> b ((i + 2) mod 5)))"
    and "i < 5"
  shows "a i = b i"
proof -
  have m: "(0 + 1) mod 5 = (1 :: nat)" "(0 + 2) mod 5 = (2 :: nat)" "(1 + 1) mod 5 = (2 :: nat)" "(1 + 2) mod 5 = (3 :: nat)"
    "(2 + 1) mod 5 = (3 :: nat)" "(2 + 2) mod 5 = (4 :: nat)" "(3 + 1) mod 5 = (4 :: nat)" "(3 + 2) mod 5 = (0 :: nat)"
    "(4 + 1) mod 5 = (0 :: nat)" "(4 + 2) mod 5 = (1 :: nat)" by simp_all
  have "a 0 = b 0 \<and> a 1 = b 1 \<and> a 2 = b 2 \<and> a 3 = b 3 \<and> a 4 = b 4"
    using chi_bits [OF assms(1) [of 0, unfolded m] assms(1) [of 1, unfolded m] assms(1) [of 2, unfolded m]
        assms(1) [of 3, unfolded m] assms(1) [of 4, unfolded m]] by simp
  moreover have "i \<in> {0, 1, 2, 3, 4}" using assms(2) by auto
  ultimately show ?thesis by auto
qed

lemma xor_cancel: "a XOR c = b XOR c \<Longrightarrow> a = b" for a b c :: "'a::len word"
  by (metis xor.assoc xor_self_eq xor.right_neutral)


subsection \<open>Every step can be undone\<close>

lemma bit_rotate64_bit:
  assumes "n < 64"
  shows "bit (bit_rotate64 w n) i \<longleftrightarrow> i < 64 \<and> bit w ((i + 64 - n) mod 64)"
proof (cases "n = 0")
  case True
  then show ?thesis using bit_imp_le_length [of w i] by (auto simp: bit_rotate64_def)
next
  case False
  have "bit (bit_rotate64 w n) i \<longleftrightarrow> i < 64 \<and> (n \<le> i \<and> bit w (i - n) \<or> bit w (64 - n + i))"
    using False bit_imp_le_length [of w "64 - n + i"] by (auto simp: bit_rotate64_def bit_simps)
  moreover have "(i + 64 - n) mod 64 = i - n" "\<not> bit w (64 - n + i)" if "n \<le> i" "i < 64"
    using that assms bit_imp_le_length [of w "64 - n + i"] by (auto simp: mod_if)
  moreover have "(i + 64 - n) mod 64 = 64 - n + i" if "i < n"
    using that assms by (auto simp: mod_if)
  ultimately show ?thesis by (cases "n \<le> i") auto
qed

lemma rotate_inj:
  assumes "bit_rotate64 v n = bit_rotate64 w n" and "n < 64"
  shows "v = w"
proof (rule bit_word_eqI)
  fix k assume "k < LENGTH(64)"
  then have k: "k < 64" by simp
  have "((k + n) mod 64 + 64 - n) mod 64 = k" using k assms(2) by (auto simp: mod_if)
  then show "bit v k = bit w k"
    using assms bit_rotate64_bit [of n v "(k + n) mod 64"] bit_rotate64_bit [of n w "(k + n) mod 64"] by simp
qed

text \<open>
  The parities of the columns as a function of the column and the bit, repeating with the periods 5 and 64.  Theta
  adds to each its neighbours at the distances (4, 0) and (1, 63).
\<close>

definition parity :: "keccak \<Rightarrow> nat \<Rightarrow> nat \<Rightarrow> bool" where
  "parity A x z = bit (col A (x mod 5)) (z mod 64)"

definition spread :: "nat \<Rightarrow> nat \<Rightarrow> nat \<Rightarrow> nat \<Rightarrow> (nat \<Rightarrow> nat \<Rightarrow> bool) \<Rightarrow> nat \<Rightarrow> nat \<Rightarrow> bool" where
  "spread a p b q c x z = (c x z \<noteq> (c (x + a) (z + p) \<noteq> c (x + b) (z + q)))"

lemma spread_twice: "spread a p b q (spread a p b q c) = spread (a + a) (p + p) (b + b) (q + q) c"
  by (intro ext) (auto simp: spread_def algebra_simps)

lemma spread_twice_eq:
  "spread a p b q c = spread a p b q d \<Longrightarrow> spread (a + a) (p + p) (b + b) (q + q) c = spread (a + a) (p + p) (b + b) (q + q) d"
  by (simp flip: spread_twice)

lemma parity_period: "parity A (x + 5 * i) (z + 64 * j) = parity A x z"
  by (simp add: parity_def)

lemma parity_spread_inj:
  assumes "spread 4 0 1 63 (parity A) = spread 4 0 1 63 (parity B)"
  shows "parity A = parity B"
proof -
  have "spread 256 0 64 4032 (parity A) = spread 256 0 64 4032 (parity B)"
    using assms [THEN spread_twice_eq, THEN spread_twice_eq, THEN spread_twice_eq, THEN spread_twice_eq,
        THEN spread_twice_eq, THEN spread_twice_eq] by (simp del: One_nat_def)
  moreover have "spread 256 0 64 4032 (parity A) = spread 1 0 4 0 (parity A)" for A
  proof (intro ext)
    fix x z
    have "parity A (x + 256) z = parity A (x + 1) z" "parity A (x + 64) (z + 4032) = parity A (x + 4) z"
      using parity_period [of A "x + 1" 51 z 0] parity_period [of A "x + 4" 12 z 63] by (simp_all add: add.commute)
    then show "spread 256 0 64 4032 (parity A) x z = spread 1 0 4 0 (parity A) x z" by (simp add: spread_def)
  qed
  ultimately have e: "spread 1 0 4 0 (parity A) = spread 1 0 4 0 (parity B)" by simp
  have "spread 1 0 4 0 (spread 2 0 3 0 (parity A)) = parity A" for A
  proof (intro ext)
    fix x z
    have "parity A (x + 5) z = parity A x z" "parity A (x + 6) z = parity A (x + 1) z" "parity A (x + 7) z = parity A (x + 2) z"
      using parity_period [of A x 1 z 0] parity_period [of A "x + 1" 1 z 0] parity_period [of A "x + 2" 1 z 0] by (simp_all add: add.commute)
    moreover have "x + 1 + 2 = x + 3" "x + 1 + 3 = x + 4" "x + 4 + 2 = x + 6" "x + 4 + 3 = x + 7" by simp_all
    ultimately show "spread 1 0 4 0 (spread 2 0 3 0 (parity A)) x z = parity A x z"
      by (simp only: spread_def add_0_right) blast
  qed
  moreover have "spread 1 0 4 0 (spread 2 0 3 0 c) = spread 2 0 3 0 (spread 1 0 4 0 c)" for c
    by (intro ext) (auto simp: spread_def algebra_simps)
  ultimately show ?thesis using e by metis
qed

lemma theta_col:
  assumes "length A = 25" and "x < 5"
  shows "col (keccak_theta A) x = col A x XOR effect A x"
proof -
  have "keccak_theta A ! (x + 5 * y) = A ! (x + 5 * y) XOR effect A x" if "y < 5" for y
    by (rule theta_lane [OF assms that])
  from this [of 0] this [of 1] this [of 2] this [of 3] this [of 4]
  have l: "keccak_theta A ! x = A ! x XOR effect A x" "keccak_theta A ! (x + 5) = A ! (x + 5) XOR effect A x"
    "keccak_theta A ! (x + 10) = A ! (x + 10) XOR effect A x" "keccak_theta A ! (x + 15) = A ! (x + 15) XOR effect A x"
    "keccak_theta A ! (x + 20) = A ! (x + 20) XOR effect A x" by simp_all
  show ?thesis unfolding col_def l by (rule bit_eqI) (auto simp: bit_simps)
qed

lemma theta_parity:
  assumes "length A = 25"
  shows "parity (keccak_theta A) = spread 4 0 1 63 (parity A)"
proof (intro ext)
  fix x z
  have "bit (bit_rotate64 (col A ((x mod 5 + 1) mod 5)) 1) (z mod 64) = bit (col A ((x mod 5 + 1) mod 5)) ((z mod 64 + 63) mod 64)"
    by (simp add: bit_rotate64_bit add.commute)
  moreover have "(x mod 5 + 4) mod 5 = (x + 4) mod 5" "(x mod 5 + 1) mod 5 = (x + 1) mod 5" "(z mod 64 + 63) mod 64 = (z + 63) mod 64"
    by (rule mod_add_left_eq)+
  ultimately show "parity (keccak_theta A) x z = spread 4 0 1 63 (parity A) x z"
    by (simp add: parity_def spread_def theta_col assms effect_def bit_simps)
qed

lemma col_of_parity:
  assumes "parity A = parity B" and "x < 5"
  shows "col A x = col B x"
proof (rule bit_word_eqI)
  fix k assume "k < LENGTH(64)"
  then show "bit (col A x) k = bit (col B x) k"
    using fun_cong [OF fun_cong [OF assms(1), of x], of k] assms(2) by (simp add: parity_def)
qed

lemma theta_inj:
  assumes "keccak_theta A = keccak_theta B" and A: "length A = 25" and B: "length B = 25"
  shows "A = B"
proof -
  have "parity A = parity B"
    using assms(1) theta_parity [OF A] theta_parity [OF B] by (intro parity_spread_inj) simp
  from col_of_parity [OF this] have "col A x = col B x" if "x < 5" for x using that .
  then have c: "effect A x = effect B x" for x by (simp add: effect_def)
  show ?thesis
  proof (rule lanes [OF _ A B])
    fix x y :: nat assume xy: "x < 5" "y < 5"
    have "A ! (x + 5 * y) XOR effect B x = B ! (x + 5 * y) XOR effect B x"
      using theta_lane [OF A xy] theta_lane [OF B xy] assms(1) c [of x] by simp
    then show "A ! (x + 5 * y) = B ! (x + 5 * y)" by (rule xor_cancel)
  qed
qed

lemma rho_inj:
  assumes "keccak_rho A = keccak_rho B" and A: "length A = 25" and B: "length B = 25"
  shows "A = B"
proof (rule lanes [OF _ A B])
  fix x y :: nat assume xy: "x < 5" "y < 5"
  have "\<forall>n\<in>set KECCAK_RHO_OFFSETS. n < 64" "length KECCAK_RHO_OFFSETS = 25" by code_simp+
  then have "KECCAK_RHO_OFFSETS ! (x + 5 * y) < 64" using xy by (simp add: nth_mem)
  then show "A ! (x + 5 * y) = B ! (x + 5 * y)"
    using rho_lane [OF A xy] rho_lane [OF B xy] assms(1) by (auto dest: rotate_inj)
qed

lemma pi_undo:
  assumes "keccak_pi A = keccak_pi B" and A: "length A = 25" and B: "length B = 25"
  shows "A = B"
  by (rule lanes [OF _ A B]) (metis pi_lane A B assms(1))

lemma chi_inj:
  assumes eq: "keccak_chi A = keccak_chi B" and A: "length A = 25" and B: "length B = 25"
  shows "A = B"
proof (rule lanes [OF _ A B])
  fix x y :: nat assume xy: "x < 5" "y < 5"
  show "A ! (x + 5 * y) = B ! (x + 5 * y)"
  proof (rule bit_word_eqI)
    fix k assume k: "k < LENGTH(64)"
    have b: "bit (A ! (i + 5 * y) XOR (NOT (A ! ((i + 1) mod 5 + 5 * y)) AND A ! ((i + 2) mod 5 + 5 * y))) k =
        bit (B ! (i + 5 * y) XOR (NOT (B ! ((i + 1) mod 5 + 5 * y)) AND B ! ((i + 2) mod 5 + 5 * y))) k" if "i < 5" for i
      using chi_lane [OF A that xy(2)] chi_lane [OF B that xy(2)] eq by simp
    show "bit (A ! (x + 5 * y)) k = bit (B ! (x + 5 * y)) k"
    proof (rule chi_row [where a = "\<lambda>i. bit (A ! (i + 5 * y)) k" and b = "\<lambda>i. bit (B ! (i + 5 * y)) k", OF _ xy(1)])
      fix i :: nat assume "i < 5"
      from b [OF this] k
      show "(bit (A ! (i + 5 * y)) k \<noteq> (\<not> bit (A ! ((i + 1) mod 5 + 5 * y)) k \<and> bit (A ! ((i + 2) mod 5 + 5 * y)) k)) =
          (bit (B ! (i + 5 * y)) k \<noteq> (\<not> bit (B ! ((i + 1) mod 5 + 5 * y)) k \<and> bit (B ! ((i + 2) mod 5 + 5 * y)) k))"
        by (simp add: bit_simps)
    qed
  qed
qed

lemma iota_inj:
  assumes eq: "keccak_iota n A = keccak_iota n B" and A: "length A = 25" and B: "length B = 25"
  shows "A = B"
proof (rule nth_equalityI)
  fix i assume "i < length A"
  then have "keccak_iota n C ! i = (if i = 0 then C ! 0 XOR KECCAK_ROUND_CONSTANTS ! n else C ! i)" if "length C = 25" for C
    using that A by (simp add: keccak_iota_def)
  from this [OF A] this [OF B] show "A ! i = B ! i"
    using eq by (auto split: if_splits dest: xor_cancel)
qed (simp add: assms)

lemma length_iota [simp]: "length (keccak_iota n A) = length A"
  by (simp add: keccak_iota_def)

lemma length_round [simp]: "length (keccak_round n A) = length A"
  by (simp add: keccak_round_def)

lemma length_permute [simp]: "length (permute n A) = length A"
proof -
  have "length (fold keccak_round ns A) = length A" for ns by (induction ns arbitrary: A) simp_all
  then show ?thesis by (simp add: permute_def)
qed

lemma round_inj: "keccak_round n A = keccak_round n B \<Longrightarrow> length A = 25 \<Longrightarrow> length B = 25 \<Longrightarrow> A = B"
  unfolding keccak_round_def by (auto dest!: iota_inj chi_inj pi_undo rho_inj theta_inj)

lemma permute_inj: 
  assumes "permute n A = permute n B" and A: "length A = 25" and B: "length B = 25"
  shows "A = B"
proof -
  have "fold keccak_round ns A = fold keccak_round ns B \<Longrightarrow> A = B" for ns
    using A B
  proof (induction ns arbitrary: A B)
    case (Cons n ns)
    have "keccak_round n A = keccak_round n B" by (rule Cons.IH) (use Cons.prems in simp_all)
    then show ?case using Cons.prems round_inj by blast
  qed simp
  then show ?thesis using assms(1) by (auto simp: permute_def split: if_splits)
qed

text \<open>
  C36: For any number of rounds \<open>permute\<close> is a permutation of the states of 25 words: no state is lost, and none is
  reached twice.
\<close>

theorem permute_is_permutation: "bij_betw (permute n) {A. length A = 25} {A. length A = 25}"
proof -
  have inj: "inj_on (permute n) {A. length A = 25}" by (auto intro!: inj_onI dest: permute_inj)
  have "finite {A :: keccak. length A = 25}"
    using finite_lists_length_eq [of "UNIV :: u64 set" 25] by simp
  moreover have "permute n ` {A. length A = 25} \<subseteq> {A. length A = 25}" by auto
  ultimately show ?thesis using inj by (simp add: bij_betw_def endo_inj_surj)
qed

subsection \<open>The tables are those of the specification\<close>

text \<open>
  The specification of Keccak generates the round constants by a linear feedback shift register of eight bits, and
  the offsets of rho along the path of pi.
\<close>

definition lfsr_step :: "bool list \<Rightarrow> bool list" where
  "lfsr_step R =
     (let r = R ! 7 in
      [r, R ! 0, R ! 1, R ! 2, R ! 3 \<noteq> r, R ! 4 \<noteq> r, R ! 5 \<noteq> r, R ! 6])"

fun lfsr_bits :: "nat \<Rightarrow> bool list \<Rightarrow> bool list" where
  "lfsr_bits 0 R = []"
| "lfsr_bits (Suc n) R = hd R # lfsr_bits n (lfsr_step R)"

fun bits_of_rounds :: "nat \<Rightarrow> bool list \<Rightarrow> u64 list" where
  "bits_of_rounds 0 bs = []"
| "bits_of_rounds (Suc n) bs =
     ((if bs ! 0 then 0x1 else 0) OR (if bs ! 1 then 0x2 else 0) OR (if bs ! 2 then 0x8 else 0) OR
      (if bs ! 3 then 0x80 else 0) OR (if bs ! 4 then 0x8000 else 0) OR (if bs ! 5 then 0x80000000 else 0) OR
      (if bs ! 6 then 0x8000000000000000 else 0)) # bits_of_rounds n (drop 7 bs)"

fun rho_path :: "nat \<Rightarrow> nat \<Rightarrow> nat \<Rightarrow> nat \<Rightarrow> nat list \<Rightarrow> nat list" where
  "rho_path 0 t x y offs = offs"
| "rho_path (Suc n) t x y offs =
     rho_path n (t + 1) y ((2 * x + 3 * y) mod 5) (offs[x + 5 * y := ((t + 1) * (t + 2) div 2) mod 64])"

text \<open>
  The tables of the code are those that the specification defines: 255 round constants from the register, and
  the offsets of rho as the triangular numbers modulo 64 along the path of pi.
\<close>

theorem keccak_tables_generated:
  "KECCAK_ROUND_CONSTANTS = bits_of_rounds 255 (lfsr_bits 1785 (True # replicate 7 False)) \<and>
   KECCAK_RHO_OFFSETS = rho_path 24 0 1 0 (replicate 25 0)"
  by code_simp

end
