(* ===== verification/Sha3.thy ===== *)
theory Sha3
  imports Keccak
begin

section \<open>SHA3 and SHAKE (ase/randomhash.cc)\<close>

text \<open>
  \<open>SHAKE_Base\<close> absorbs bytes into the Keccak state, pads, and reads a hash or a stream of bytes.  The template
  arguments are \<open>hashbits\<close> and \<open>domainbits\<close>.  Loops that could run for ever on a bad position are \<open>None\<close> then.
\<close>

record SHAKE_Base =
  sh_state :: keccak
  rate :: nat
  iopos :: nat
  feeding_mode :: bool

definition new_shake :: "nat \<Rightarrow> SHAKE_Base" where
  "new_shake r = \<lparr>sh_state = keccak_reset, rate = r, iopos = 0, feeding_mode = True\<rparr>"

definition byte_rate :: "SHAKE_Base \<Rightarrow> nat" where
  "byte_rate s = rate s div 8"

definition shake_reset :: "SHAKE_Base \<Rightarrow> SHAKE_Base" where
  "shake_reset s = s\<lparr>sh_state := keccak_reset, iopos := 0, feeding_mode := True\<rparr>"

definition xor_state :: "nat \<Rightarrow> u8 list \<Rightarrow> nat \<Rightarrow> SHAKE_Base \<Rightarrow> SHAKE_Base" where
  "xor_state offset input n_in s =
     (if \<not> offset + n_in \<le> byte_rate s then s
      else s\<lparr>sh_state := fold (\<lambda>i. xor_byte i (input ! (i - offset))) [offset..<offset + n_in] (sh_state s)\<rparr>)"

definition absorb_padding :: "nat \<Rightarrow> u8 \<Rightarrow> SHAKE_Base \<Rightarrow> SHAKE_Base" where
  "absorb_padding offset trail s =
     (if \<not> offset < byte_rate s \<or> trail = 0 then s
      else
        let A = xor_byte offset trail (sh_state s);
            lastbyte = byte_rate s - 1;
            A = (if offset = lastbyte \<and> trail \<ge> 0x80 then permute 24 A else A) in
        s\<lparr>sh_state := xor_byte lastbyte 0x80 A\<rparr>)"

partial_function (option) update_loop :: "u8 list \<Rightarrow> SHAKE_Base \<Rightarrow> SHAKE_Base option" where
  "update_loop data s =
     (if data = [] then Some s
      else
        let count = min (byte_rate s - iopos s) (length data);
            s = xor_state (iopos s) data count s;
            s = s\<lparr>iopos := iopos s + count\<rparr>;
            data = drop count data;
            s = (if iopos s \<ge> byte_rate s then s\<lparr>sh_state := permute 24 (sh_state s), iopos := 0\<rparr> else s) in
        update_loop data s)"

definition shake_update :: "u8 list \<Rightarrow> SHAKE_Base \<Rightarrow> SHAKE_Base option" where
  "shake_update data s = (if \<not> feeding_mode s then Some s else update_loop data s)"

definition end_feeding :: "u8 \<Rightarrow> SHAKE_Base \<Rightarrow> SHAKE_Base" where
  "end_feeding domainbits s =
     (if feeding_mode s then
        let s = absorb_padding (iopos s) domainbits s;
            s = s\<lparr>feeding_mode := False\<rparr> in
        s\<lparr>sh_state := permute 24 (sh_state s), iopos := 0\<rparr>
      else s)"

definition get_hash :: "nat \<Rightarrow> u8 \<Rightarrow> SHAKE_Base \<Rightarrow> u8 list \<times> SHAKE_Base" where
  "get_hash hashbits domainbits s =
     (let s = end_feeding domainbits s in (map (keccak_byte (sh_state s)) [0..<hashbits div 8], s))"

partial_function (option) squeeze_loop :: "nat \<Rightarrow> u8 list \<Rightarrow> SHAKE_Base \<Rightarrow> (u8 list \<times> SHAKE_Base) option" where
  "squeeze_loop n_out output s =
     (if n_out = 0 then Some (output, s)
      else
        let count = min n_out (byte_rate s - iopos s);
            output = output @ map (\<lambda>i. keccak_byte (sh_state s) (iopos s + i)) [0..<count];
            s = s\<lparr>iopos := iopos s + count\<rparr>;
            s = (if iopos s \<ge> byte_rate s then s\<lparr>sh_state := permute 24 (sh_state s), iopos := 0\<rparr> else s) in
        squeeze_loop (n_out - count) output s)"

definition squeeze_digest :: "nat \<Rightarrow> u8 \<Rightarrow> nat \<Rightarrow> SHAKE_Base \<Rightarrow> (u8 list \<times> SHAKE_Base) option" where
  "squeeze_digest hashbits domainbits n_out s =
     (if hashbits \<noteq> 0 then Some ([], s)
      else let (_, s) = get_hash hashbits domainbits s in squeeze_loop n_out [] s)"

subsection \<open>The hash functions\<close>

definition sha3_hash :: "nat \<Rightarrow> nat \<Rightarrow> u8 list \<Rightarrow> u8 list option" where
  "sha3_hash hashbits r data = map_option (\<lambda>s. fst (get_hash hashbits 0x06 s)) (shake_update data (new_shake r))"

definition sha3_224_hash :: "u8 list \<Rightarrow> u8 list option" where "sha3_224_hash = sha3_hash 224 1152"
definition sha3_256_hash :: "u8 list \<Rightarrow> u8 list option" where "sha3_256_hash = sha3_hash 256 1088"
definition sha3_384_hash :: "u8 list \<Rightarrow> u8 list option" where "sha3_384_hash = sha3_hash 384 832"
definition sha3_512_hash :: "u8 list \<Rightarrow> u8 list option" where "sha3_512_hash = sha3_hash 512 576"

definition shake_hash :: "nat \<Rightarrow> u8 list \<Rightarrow> nat \<Rightarrow> u8 list option" where
  "shake_hash r data n =
     Option.bind (shake_update data (new_shake r)) (\<lambda>s. map_option fst (squeeze_digest 0 0x1f n s))"

definition shake128_hash :: "u8 list \<Rightarrow> nat \<Rightarrow> u8 list option" where "shake128_hash = shake_hash 1344"
definition shake256_hash :: "u8 list \<Rightarrow> nat \<Rightarrow> u8 list option" where "shake256_hash = shake_hash 1088"

declare update_loop.simps [code] squeeze_loop.simps [code]


subsection \<open>Feeding byte by byte\<close>

text \<open>What one byte does, whatever the calls of \<open>update\<close> were.\<close>

definition feed :: "nat \<Rightarrow> u8 \<Rightarrow> keccak \<times> nat \<Rightarrow> keccak \<times> nat" where
  "feed r b = (\<lambda>(A, pos). let A = xor_byte pos b A in if r \<le> pos + 1 then (permute 24 A, 0) else (A, pos + 1))"

definition xor_bytes :: "nat \<Rightarrow> u8 list \<Rightarrow> keccak \<Rightarrow> keccak" where
  "xor_bytes offset bs A = fold (\<lambda>i. xor_byte i (bs ! (i - offset))) [offset..<offset + length bs] A"

lemma xor_bytes_Nil [simp]: "xor_bytes k [] A = A"
  by (simp add: xor_bytes_def)

lemma xor_bytes_Cons [simp]: "xor_bytes k (b # bs) A = xor_bytes (Suc k) bs (xor_byte k b A)"
proof -
  have "fold (\<lambda>i. xor_byte i ((b # bs) ! (i - k))) [Suc k..<k + length (b # bs)] B =
      fold (\<lambda>i. xor_byte i (bs ! (i - Suc k))) [Suc k..<Suc k + length bs] B" for B
    by (rule fold_cong) (auto simp: nth_Cons')
  moreover have "[k..<k + length (b # bs)] = k # [Suc k..<k + length (b # bs)]" by (simp add: upt_conv_Cons del: upt_Suc)
  ultimately show ?thesis by (simp add: xor_bytes_def del: upt_Suc)
qed

lemma xor_state_bytes:
  assumes "offset + n \<le> byte_rate s" and "n \<le> length input"
  shows "xor_state offset input n s = s\<lparr>sh_state := xor_bytes offset (take n input) (sh_state s)\<rparr>"
proof -
  have "fold (\<lambda>i. xor_byte i (input ! (i - offset))) [offset..<offset + n] A = xor_bytes offset (take n input) A" for A
    using assms(2) unfolding xor_bytes_def by (intro fold_cong) auto
  then show ?thesis using assms(1) by (simp add: xor_state_def)
qed

lemma feed_chunk:
  assumes "bs \<noteq> []" and "pos + length bs \<le> r"
  shows "fold (feed r) bs (A, pos) =
    (let A = xor_bytes pos bs A in if r \<le> pos + length bs then (permute 24 A, 0) else (A, pos + length bs))"
  using assms
proof (induction bs arbitrary: A pos)
  case (Cons b bs)
  show ?case
  proof (cases bs)
    case Nil
    then show ?thesis using Cons.prems by (simp add: feed_def Let_def)
  next
    case (Cons c cs)
    then have "feed r b (A, pos) = (xor_byte pos b A, Suc pos)" using Cons.prems(2) by (simp add: feed_def)
    then show ?thesis using Cons.IH [of "Suc pos"] Cons.prems(2) Cons by (simp add: Let_def)
  qed
qed simp

definition shake_ok :: "SHAKE_Base \<Rightarrow> bool" where
  "shake_ok s \<longleftrightarrow> iopos s < byte_rate s"

lemma byte_rate_simps [simp]:
  "byte_rate (s\<lparr>sh_state := A\<rparr>) = byte_rate s" "byte_rate (s\<lparr>iopos := i\<rparr>) = byte_rate s"
  "byte_rate (s\<lparr>feeding_mode := b\<rparr>) = byte_rate s"
  by (simp_all add: byte_rate_def)

lemma update_loop_feeds:
  assumes "shake_ok s"
  shows "\<exists>A pos. fold (feed (byte_rate s)) data (sh_state s, iopos s) = (A, pos) \<and> pos < byte_rate s \<and>
    update_loop data s = Some (s\<lparr>sh_state := A, iopos := pos\<rparr>)"
  using assms
proof (induction "length data" arbitrary: data s rule: less_induct)
  case less
  show ?case
  proof (cases "data = []")
    case True
    then show ?thesis using less.prems by (subst update_loop.simps) (simp add: shake_ok_def)
  next
    case False
    define r where "r = byte_rate s"
    define count where "count = min (r - iopos s) (length data)"
    have c: "0 < count" "count \<le> length data" "iopos s + count \<le> r"
      using less.prems False by (auto simp: count_def r_def shake_ok_def)
    define A where "A = xor_bytes (iopos s) (take count data) (sh_state s)"
    define s' where "s' = (if r \<le> iopos s + count then s\<lparr>sh_state := permute 24 A, iopos := 0\<rparr>
      else s\<lparr>sh_state := A, iopos := iopos s + count\<rparr>)"
    have xs: "xor_state (iopos s) data count s = s\<lparr>sh_state := A\<rparr>"
      using c by (simp add: xor_state_bytes A_def r_def)
    have step: "update_loop data s = update_loop (drop count data) s'"
      using False xs by (subst update_loop.simps) (simp add: Let_def s'_def count_def [symmetric] r_def [symmetric])
    have ok: "shake_ok s'" "byte_rate s' = r" using c less.prems by (auto simp: s'_def shake_ok_def r_def)
    have "fold (feed r) (take count data) (sh_state s, iopos s) = (sh_state s', iopos s')"
      using c False by (subst feed_chunk) (auto simp: s'_def A_def Let_def min_def)
    then have f: "fold (feed r) data (sh_state s, iopos s) = fold (feed r) (drop count data) (sh_state s', iopos s')"
      by (metis append_take_drop_id fold_append comp_apply)
    have "length (drop count data) < length data" using c False by simp
    from less.hyps [OF this ok(1)] obtain A' pos where
      "fold (feed r) (drop count data) (sh_state s', iopos s') = (A', pos)" "pos < r"
      "update_loop (drop count data) s' = Some (s'\<lparr>sh_state := A', iopos := pos\<rparr>)" by (auto simp: ok)
    then show ?thesis using step f by (auto simp: r_def [symmetric] s'_def)
  qed
qed

lemma shake_ok_update:
  assumes "shake_ok s"
  obtains s' where "shake_update data s = Some s'" "shake_ok s'" "feeding_mode s' = feeding_mode s" "rate s' = rate s"
    "feeding_mode s \<Longrightarrow> (sh_state s', iopos s') = fold (feed (byte_rate s)) data (sh_state s, iopos s)"
proof (cases "feeding_mode s")
  case True
  from update_loop_feeds [OF assms, of data] obtain A pos where
    "fold (feed (byte_rate s)) data (sh_state s, iopos s) = (A, pos)" "pos < byte_rate s"
    "update_loop data s = Some (s\<lparr>sh_state := A, iopos := pos\<rparr>)" by blast
  then show thesis using True by (intro that [of "s\<lparr>sh_state := A, iopos := pos\<rparr>"]) (auto simp: shake_update_def shake_ok_def)
next
  case False
  then show thesis using assms by (intro that [of s]) (auto simp: shake_update_def)
qed

text \<open>
  Data may be fed in pieces of any length: two updates have the effect of one with the concatenation, and both
  return.
\<close>

theorem update_in_pieces:
  assumes "shake_ok s"
  shows "Option.bind (shake_update d1 s) (shake_update d2) = shake_update (d1 @ d2) s \<and> shake_update (d1 @ d2) s \<noteq> None"
proof -
  obtain s1 where 1: "shake_update d1 s = Some s1" "shake_ok s1" "feeding_mode s1 = feeding_mode s"
    by (rule shake_ok_update [OF assms, of d1])
  show ?thesis
  proof (cases "feeding_mode s")
    case False
    then show ?thesis by (simp add: shake_update_def)
  next
    case True
    from update_loop_feeds [OF assms, of d1] obtain A pos where
      a: "fold (feed (byte_rate s)) d1 (sh_state s, iopos s) = (A, pos)" "pos < byte_rate s"
      "update_loop d1 s = Some (s\<lparr>sh_state := A, iopos := pos\<rparr>)" by blast
    let ?s = "s\<lparr>sh_state := A, iopos := pos\<rparr>"
    have "shake_ok ?s" using a by (simp add: shake_ok_def)
    from update_loop_feeds [OF this, of d2] update_loop_feeds [OF assms, of "d1 @ d2"] a True
    show ?thesis by (auto simp: shake_update_def)
  qed
qed

lemma update_in_pieces_witness:
  "Option.bind (shake_update [1] (new_shake 1344)) (shake_update [2, 3]) = shake_update [1, 2, 3] (new_shake 1344) \<and>
   shake_update [1, 2, 3] (new_shake 1344) \<noteq> None"
  using update_in_pieces [of "new_shake 1344" "[1]" "[2, 3]"] by (simp add: shake_ok_def new_shake_def byte_rate_def)


subsection \<open>The sponge of the specification\<close>

text \<open>
  The message with its padding is cut into blocks of \<open>r\<close> bytes; each is added to the state, which is then permuted.
  The output is read from the first \<open>r\<close> bytes of successive states.
\<close>

function chunks :: "nat \<Rightarrow> 'a list \<Rightarrow> 'a list list" where
  "chunks r xs = (if xs = [] \<or> r = 0 then [] else take r xs # chunks r (drop r xs))"
  by pat_completeness auto
termination by (relation "measure (\<lambda>(r, xs). length xs)") auto

declare chunks.simps [simp del]

definition multi_rate_padding :: "nat \<Rightarrow> u8 \<Rightarrow> nat \<Rightarrow> u8 list" where
  "multi_rate_padding r domainbits n =
     (let q = r - n mod r in if q = 1 then [domainbits XOR 0x80] else domainbits # replicate (q - 2) 0 @ [0x80])"

definition absorb :: "nat \<Rightarrow> u8 list \<Rightarrow> keccak" where
  "absorb r msg = fold (\<lambda>block A. permute 24 (xor_bytes 0 block A)) (chunks r msg) keccak_reset"

definition sponge :: "nat \<Rightarrow> u8 \<Rightarrow> u8 list \<Rightarrow> nat \<Rightarrow> u8 list" where
  "sponge r domainbits data n =
     (let A = absorb r (data @ multi_rate_padding r domainbits (length data)) in
      map (\<lambda>i. keccak_byte ((permute 24 ^^ (i div r)) A) (i mod r)) [0..<n])"

lemma feed_blocks:
  assumes "r dvd length msg" and "0 < r"
  shows "fold (feed r) msg (A, 0) = (fold (\<lambda>block A. permute 24 (xor_bytes 0 block A)) (chunks r msg) A, 0)"
  using assms
proof (induction "length msg" arbitrary: msg A rule: less_induct)
  case less
  show ?case
  proof (cases "msg = []")
    case False
    then have len: "r \<le> length msg" using less.prems by (simp add: dvd_imp_le)
    have "fold (feed r) (take r msg) (A, 0) = (permute 24 (xor_bytes 0 (take r msg) A), 0)"
      using len less.prems False by (subst feed_chunk) (auto simp: Let_def)
    then have "fold (feed r) msg (A, 0) = fold (feed r) (drop r msg) (permute 24 (xor_bytes 0 (take r msg) A), 0)"
      by (metis append_take_drop_id fold_append comp_apply)
    moreover have "r dvd length (drop r msg)" using less.prems len by (auto simp: dvd_diff_nat)
    moreover have "length (drop r msg) < length msg" using less.prems len False by simp
    ultimately show ?thesis using less.hyps less.prems(2) False by (simp add: chunks.simps [of r msg])
  qed (simp add: chunks.simps)
qed

lemma feed_pos:
  assumes "pos < r"
  shows "snd (fold (feed r) data (A, pos)) = (pos + length data) mod r"
  using assms
proof (induction data arbitrary: A pos)
  case (Cons b data)
  show ?case
  proof (cases "r \<le> pos + 1")
    case True
    then have "pos + length (b # data) = r + length data" using Cons.prems by simp
    then have "(pos + length (b # data)) mod r = length data mod r" by (simp only: mod_add_self1)
    then show ?thesis using True Cons.IH [of 0] Cons.prems by (simp add: feed_def [of r b] Let_def)
  next
    case False
    then show ?thesis using Cons.IH [of "pos + 1"] by (simp add: feed_def [of r b] Let_def)
  qed
qed simp

lemma xor_byte_0 [simp]: "xor_byte i 0 A = A"
  by (simp add: xor_byte_def)

lemma xor_byte_twice:
  assumes "i div 8 < length A"
  shows "xor_byte i c (xor_byte i b A) = xor_byte i (b XOR c) A"
proof -
  have "push_bit k (ucast (b XOR c) :: u64) = push_bit k (ucast b) XOR push_bit k (ucast c)" for k
    by (rule bit_word_eqI) (auto simp: bit_simps)
  then show ?thesis using assms by (simp add: xor_byte_def xor.assoc)
qed

lemma xor_bytes_append [simp]: "xor_bytes k (bs @ cs) A = xor_bytes (k + length bs) cs (xor_bytes k bs A)"
  by (induction bs arbitrary: k A) simp_all

lemma xor_bytes_zeros [simp]: "xor_bytes k (replicate n 0) A = A"
  by (induction n arbitrary: k) simp_all

lemma length_xor_byte [simp]: "length (xor_byte i b A) = length A"
  by (simp add: xor_byte_def)

lemma length_feed: "length (fst (fold (feed r) data (A, pos))) = length A"
  by (induction data arbitrary: A pos) (auto simp: feed_def Let_def)

lemma padding_feeds:
  assumes "pos < r" and "r \<le> 200" and "length A = 25" and "n mod r = pos" and "d < 0x80" and "d \<noteq> 0"
  shows "fold (feed r) (multi_rate_padding r d n) (A, pos) =
    (permute 24 (sh_state (absorb_padding pos d \<lparr>sh_state = A, rate = 8 * r, iopos = pos, feeding_mode = True\<rparr>)), 0)"
proof (cases "pos = r - 1")
  case True
  moreover have "\<not> 0x80 \<le> d" using assms(5) by (simp add: not_le)
  moreover have "multi_rate_padding r d n = [d XOR 0x80]" using True assms by (simp add: multi_rate_padding_def)
  moreover have "(r - Suc 0) div 8 < 25" using assms by auto
  ultimately show ?thesis
    using assms by (simp add: feed_def absorb_padding_def byte_rate_def xor_byte_twice Let_def)
next
  case False
  define q where "q = r - pos"
  have q: "2 \<le> q" "pos + q = r" using False assms by (auto simp: q_def)
  have p: "multi_rate_padding r d n = d # replicate (q - 2) 0 @ [0x80]"
    using assms q by (simp add: multi_rate_padding_def q_def [symmetric])
  have "pos + (q - 2) + 1 = r - 1" using q by simp
  then have "fold (feed r) (multi_rate_padding r d n) (A, pos) = (permute 24 (xor_byte (r - 1) 0x80 (xor_byte pos d A)), 0)"
    unfolding p using q by (subst feed_chunk) (auto simp: Let_def)
  then show ?thesis using assms False by (simp add: absorb_padding_def byte_rate_def Let_def)
qed

lemma fed_state:
  assumes "0 < r" and "r \<le> 200" and "d < 0x80" and "d \<noteq> 0"
  obtains s where "shake_update data (new_shake (8 * r)) = Some s"
    "end_feeding d s = \<lparr>sh_state = absorb r (data @ multi_rate_padding r d (length data)), rate = 8 * r, iopos = 0, feeding_mode = False\<rparr>"
proof -
  let ?s = "new_shake (8 * r)"
  have ok: "shake_ok ?s" "byte_rate ?s = r" using assms by (simp_all add: shake_ok_def new_shake_def byte_rate_def)
  from update_loop_feeds [OF ok(1), of data] obtain A pos where
    f: "fold (feed r) data (keccak_reset, 0) = (A, pos)" "pos < r"
      "shake_update data ?s = Some \<lparr>sh_state = A, rate = 8 * r, iopos = pos, feeding_mode = True\<rparr>"
    using ok by (auto simp: new_shake_def shake_update_def)
  have pos: "length data mod r = pos" using feed_pos [of 0 r data keccak_reset] f assms by simp
  have lA: "length A = 25" using length_feed [of r data keccak_reset 0] f by simp
  let ?p = "multi_rate_padding r d (length data)"
  have "length ?p = r - pos" using f(2) by (auto simp: multi_rate_padding_def pos Let_def)
  then have "length (data @ ?p) = length data - pos + r" using f(2) pos mod_less_eq_dividend [of "length data" r] by simp
  moreover have "r dvd length data - pos" by (simp add: pos [symmetric] dvd_minus_mod)
  ultimately have dvd: "r dvd length (data @ ?p)" by simp
  let ?s1 = "\<lparr>sh_state = A, rate = 8 * r, iopos = pos, feeding_mode = True\<rparr>"
  have "fold (feed r) (data @ ?p) (keccak_reset, 0) = (permute 24 (sh_state (absorb_padding pos d ?s1)), 0)"
    using padding_feeds [OF f(2) assms(2) lA pos assms(3,4)] f(1) by simp
  then have a: "absorb r (data @ ?p) = permute 24 (sh_state (absorb_padding pos d ?s1))"
    using feed_blocks [OF dvd assms(1), of keccak_reset] by (simp add: absorb_def)
  have "rate (absorb_padding pos d s) = rate s" "feeding_mode (absorb_padding pos d s) = feeding_mode s" for s
    by (simp_all add: absorb_padding_def Let_def)
  then have e: "end_feeding d ?s1 = \<lparr>sh_state = absorb r (data @ ?p), rate = 8 * r, iopos = 0, feeding_mode = False\<rparr>"
    by (simp add: end_feeding_def a Let_def)
  then show thesis using f(3) by (intro that)
qed

lemma sha3_sponge:
  assumes "0 < r" and "r \<le> 200" and "h div 8 \<le> r"
  shows "sha3_hash h (8 * r) data = Some (sponge r 0x06 data (h div 8))"
proof -
  have "(0x06 :: u8) < 0x80" "(0x06 :: u8) \<noteq> 0" by simp_all
  then obtain s where s: "shake_update data (new_shake (8 * r)) = Some s"
    "end_feeding 0x06 s = \<lparr>sh_state = absorb r (data @ multi_rate_padding r 0x06 (length data)), rate = 8 * r, iopos = 0, feeding_mode = False\<rparr>"
    using fed_state [OF assms(1,2)] by blast
  have "sponge r 0x06 data (h div 8) = map (keccak_byte (absorb r (data @ multi_rate_padding r 0x06 (length data)))) [0..<h div 8]"
    using assms(3) by (auto simp: sponge_def Let_def)
  then show ?thesis by (simp add: sha3_hash_def s get_hash_def Let_def)
qed

text \<open>
  C37: The four SHA3 functions return for every input, and their results are those of the sponge of the
  specification with the rates 144, 136, 104 and 72 bytes and the domain bits 01.
\<close>

theorem sha3_is_sponge:
  "sha3_224_hash data = Some (sponge 144 0x06 data 28) \<and> sha3_256_hash data = Some (sponge 136 0x06 data 32) \<and>
   sha3_384_hash data = Some (sponge 104 0x06 data 48) \<and> sha3_512_hash data = Some (sponge 72 0x06 data 64)"
  using sha3_sponge [of 144 224 data] sha3_sponge [of 136 256 data] sha3_sponge [of 104 384 data] sha3_sponge [of 72 512 data]
  by (simp add: sha3_224_hash_def sha3_256_hash_def sha3_384_hash_def sha3_512_hash_def)


subsection \<open>Reading a stream\<close>

lemma squeeze_loop_stream:
  assumes "iopos s < byte_rate s"
  shows "squeeze_loop n out s =
    Some (out @ map (\<lambda>i. keccak_byte ((permute 24 ^^ ((iopos s + i) div byte_rate s)) (sh_state s)) ((iopos s + i) mod byte_rate s)) [0..<n],
      s\<lparr>sh_state := (permute 24 ^^ ((iopos s + n) div byte_rate s)) (sh_state s), iopos := (iopos s + n) mod byte_rate s\<rparr>)"
  using assms
proof (induction n arbitrary: out s rule: less_induct)
  case (less n)
  define r where "r = byte_rate s"
  show ?case
  proof (cases "n = 0")
    case True
    then show ?thesis using less.prems by (subst squeeze_loop.simps) simp
  next
    case False
    define count where "count = min n (r - iopos s)"
    have c: "0 < count" "count \<le> n" "iopos s + count \<le> r" "iopos s < r"
      using less.prems False by (auto simp: count_def r_def)
    define block where "block = map (\<lambda>i. keccak_byte (sh_state s) (iopos s + i)) [0..<count]"
    define s' where "s' = (if r \<le> iopos s + count then s\<lparr>sh_state := permute 24 (sh_state s), iopos := 0\<rparr> else s\<lparr>iopos := iopos s + count\<rparr>)"
    have step: "squeeze_loop n out s = squeeze_loop (n - count) (out @ block) s'"
      using False by (subst squeeze_loop.simps) (simp add: Let_def s'_def count_def [symmetric] r_def [symmetric] block_def)
    have s': "byte_rate s' = r" "iopos s' < r" using c by (auto simp: s'_def r_def)
    have shift: "(permute 24 ^^ ((iopos s' + i) div r)) (sh_state s') = (permute 24 ^^ ((iopos s + (count + i)) div r)) (sh_state s)"
      "(iopos s' + i) mod r = (iopos s + (count + i)) mod r" for i
    proof -
      have "(iopos s' + i) div r + (if r \<le> iopos s + count then 1 else 0) = (iopos s + (count + i)) div r \<and>
          (iopos s' + i) mod r = (iopos s + (count + i)) mod r"
      proof (cases "r \<le> iopos s + count")
        case True
        then have e: "iopos s + (count + i) = i + r" and r0: "r \<noteq> 0" using c by simp_all
        show ?thesis unfolding e using True r0 by (simp add: s'_def div_add_self2)
      qed (simp add: s'_def add.assoc)
      then have d: "(iopos s + (count + i)) div r = (iopos s' + i) div r + (if r \<le> iopos s + count then 1 else 0)"
        and m: "(iopos s' + i) mod r = (iopos s + (count + i)) mod r" by simp_all
      have "sh_state s' = (permute 24 ^^ (if r \<le> iopos s + count then 1 else 0)) (sh_state s)" by (simp add: s'_def)
      then show "(permute 24 ^^ ((iopos s' + i) div r)) (sh_state s') = (permute 24 ^^ ((iopos s + (count + i)) div r)) (sh_state s)"
        unfolding d funpow_add by simp
      show "(iopos s' + i) mod r = (iopos s + (count + i)) mod r" by (rule m)
    qed
    have "keccak_byte (sh_state s) (iopos s + i) =
        keccak_byte ((permute 24 ^^ ((iopos s + i) div r)) (sh_state s)) ((iopos s + i) mod r)" if "i < count" for i
      using that c by simp
    then have b: "block = map (\<lambda>i. keccak_byte ((permute 24 ^^ ((iopos s + i) div r)) (sh_state s)) ((iopos s + i) mod r)) [0..<count]"
      by (simp add: block_def)
    have split: "map f [0..<n] = map f [0..<count] @ map (\<lambda>i. f (count + i)) [0..<n - count]" for f :: "nat \<Rightarrow> u8"
    proof (rule nth_equalityI)
      show "length (map f [0..<n]) = length (map f [0..<count] @ map (\<lambda>i. f (count + i)) [0..<n - count])" using c by simp
    qed (use c in \<open>auto simp: nth_append\<close>)
    have "n - count < n" using c False by simp
    from less.IH [OF this, of s' "out @ block"] s' have "squeeze_loop n out s =
      Some (out @ block @ map (\<lambda>i. keccak_byte ((permute 24 ^^ ((iopos s + (count + i)) div r)) (sh_state s)) ((iopos s + (count + i)) mod r)) [0..<n - count],
        s'\<lparr>sh_state := (permute 24 ^^ ((iopos s + (count + (n - count))) div r)) (sh_state s), iopos := (iopos s + (count + (n - count))) mod r\<rparr>)"
      unfolding step by (simp add: shift)
    then show ?thesis
      unfolding r_def [symmetric] split [of "\<lambda>i. keccak_byte ((permute 24 ^^ ((iopos s + i) div r)) (sh_state s)) ((iopos s + i) mod r)"] b
      using c by (simp add: s'_def)
  qed
qed

lemma squeeze_stream:
  assumes "\<not> feeding_mode s" and "iopos s < byte_rate s"
  shows "squeeze_digest 0 d n s = squeeze_loop n [] s"
  using assms by (simp add: squeeze_digest_def get_hash_def end_feeding_def)

lemma shake_sponge:
  assumes "0 < r" and "r \<le> 200"
  shows "shake_hash (8 * r) data n = Some (sponge r 0x1f data n)"
proof -
  have "(0x1f :: u8) < 0x80" "(0x1f :: u8) \<noteq> 0" by simp_all
  then obtain s where s: "shake_update data (new_shake (8 * r)) = Some s"
    "end_feeding 0x1f s = \<lparr>sh_state = absorb r (data @ multi_rate_padding r 0x1f (length data)), rate = 8 * r, iopos = 0, feeding_mode = False\<rparr>"
    using fed_state [OF assms(1,2)] by blast
  have "iopos (end_feeding 0x1f s) < byte_rate (end_feeding 0x1f s)" "byte_rate (end_feeding 0x1f s) = r"
    using assms by (simp_all add: s byte_rate_def)
  from squeeze_loop_stream [OF this(1), of n "[]"] this(2) show ?thesis
    by (simp add: shake_hash_def s squeeze_digest_def get_hash_def sponge_def Let_def)
qed

text \<open>
  Both extendable functions return for every input and length, with the stream of the sponge of the specification
  for the rates 168 and 136 bytes and the domain bits 1111.
\<close>

theorem shake_is_sponge:
  "shake128_hash data n = Some (sponge 168 0x1f data n) \<and> shake256_hash data n = Some (sponge 136 0x1f data n)"
  using shake_sponge [of 168 data n] shake_sponge [of 136 data n] by (simp add: shake128_hash_def shake256_hash_def)

lemma end_feeding_pos:
  assumes "shake_ok s"
  shows "iopos (end_feeding d s) < byte_rate (end_feeding d s)" "\<not> feeding_mode (end_feeding d s)"
  using assms by (auto simp: end_feeding_def shake_ok_def absorb_padding_def byte_rate_def Let_def)

text \<open>Reading in pieces gives the same stream.\<close>

theorem squeeze_in_pieces:
  assumes "shake_ok s"
  shows "Option.bind (squeeze_digest 0 d n s) (\<lambda>(out, s). map_option (\<lambda>(out', s). (out @ out', s)) (squeeze_digest 0 d m s)) =
    squeeze_digest 0 d (n + m) s"
proof -
  define t where "t = end_feeding d s"
  define r where "r = byte_rate t"
  have t: "iopos t < r" "\<not> feeding_mode t" using end_feeding_pos [OF assms] by (simp_all add: t_def r_def)
  have q: "squeeze_digest 0 d k s = squeeze_loop k [] t" for k
    by (simp add: squeeze_digest_def get_hash_def t_def Let_def)
  define u where "u = t\<lparr>sh_state := (permute 24 ^^ ((iopos t + n) div r)) (sh_state t), iopos := (iopos t + n) mod r\<rparr>"
  have u: "iopos u < byte_rate u" "\<not> feeding_mode u" "byte_rate u = r" using t by (simp_all add: u_def r_def)
  have e: "(permute 24 ^^ ((iopos u + i) div r)) (sh_state u) = (permute 24 ^^ ((iopos t + (n + i)) div r)) (sh_state t)"
    "(iopos u + i) mod r = (iopos t + (n + i)) mod r" for i
  proof -
    have "iopos t + (n + i) = (iopos t + n) div r * r + ((iopos t + n) mod r + i)" by simp
    then have "(iopos t + (n + i)) div r = ((iopos t + n) mod r + i) div r + (iopos t + n) div r"
      using t(1) by (metis add.commute div_mult_self3 less_nat_zero_code)
    then show "(permute 24 ^^ ((iopos u + i) div r)) (sh_state u) = (permute 24 ^^ ((iopos t + (n + i)) div r)) (sh_state t)"
      by (simp add: u_def funpow_add)
    show "(iopos u + i) mod r = (iopos t + (n + i)) mod r" by (simp add: u_def mod_add_left_eq add.assoc)
  qed
  have "map f [0..<n + m] = map f [0..<n] @ map (\<lambda>i. f (n + i)) [0..<m]" for f :: "nat \<Rightarrow> u8"
    by (rule nth_equalityI) (auto simp: nth_append)
  note split = this [of "\<lambda>i. keccak_byte ((permute 24 ^^ ((iopos t + i) div r)) (sh_state t)) ((iopos t + i) mod r)"]
  show ?thesis
    unfolding q using squeeze_loop_stream [of t n "[]"] squeeze_loop_stream [of t "n + m" "[]"] squeeze_loop_stream [OF u(1), of m "[]"] t u
    by (simp add: r_def [symmetric] u_def [symmetric] squeeze_stream e split) (simp add: u_def)
qed

end
