(* ===== verification/KeccakRandom.thy ===== *)
theory KeccakRandom
  imports Keccak
begin

section \<open>The Keccak generator (ase/randomhash.cc, ase/randomhash.hh)\<close>

text \<open>
  \<open>KeccakRng\<close> permutes a state and hands out its first words.  Loops that do not return when no word may be handed
  out are \<open>None\<close> then.
\<close>

record KeccakRng =
  bit_rate :: nat
  n_rounds :: nat
  opos :: nat
  rng_state :: keccak

definition n_nums :: "KeccakRng \<Rightarrow> nat" where
  "n_nums g = bit_rate g div 64"

definition new_rng :: "nat \<Rightarrow> nat \<Rightarrow> KeccakRng" where
  "new_rng hidden_state_capacity rounds =
     (let r = 1600 - hidden_state_capacity in
      \<lparr>bit_rate = r, n_rounds = rounds, opos = r div 64, rng_state = keccak_reset\<rparr>)"

definition permute1600 :: "KeccakRng \<Rightarrow> KeccakRng" where
  "permute1600 g = g\<lparr>rng_state := permute (n_rounds g) (rng_state g), opos := 0\<rparr>"

definition forget :: "KeccakRng \<Rightarrow> KeccakRng" where
  "forget g = permute1600 (g\<lparr>rng_state := fold (\<lambda>i A. A[i := 0]) [0..<256 div 64] (rng_state g)\<rparr>)"

partial_function (option) discard :: "nat \<Rightarrow> KeccakRng \<Rightarrow> KeccakRng option" where
  "discard cnt g =
     (if cnt = 0 then Some g
      else
        let g = (if opos g \<ge> n_nums g then permute1600 g else g);
            ull = min (n_nums g - opos g) cnt in
        discard (cnt - ull) (g\<lparr>opos := opos g + ull\<rparr>))"

text \<open>The variable \<open>i\<close> is the position after the last seed of a block.\<close>

partial_function (option) xor_seed_loop :: "nat \<Rightarrow> u64 list \<Rightarrow> KeccakRng \<Rightarrow> (nat \<times> KeccakRng) option" where
  "xor_seed_loop i seeds g =
     (if seeds = [] then Some (i, g)
      else
        let g = (if i > 0 then permute1600 g else g);
            count = min (n_nums g) (length seeds);
            g = g\<lparr>rng_state := fold (\<lambda>i A. A[i := A ! i XOR seeds ! i]) [0..<count] (rng_state g)\<rparr> in
        xor_seed_loop count (drop count seeds) g)"

definition xor_seed :: "u64 list \<Rightarrow> KeccakRng \<Rightarrow> KeccakRng option" where
  "xor_seed seeds g =
     map_option (\<lambda>(i, g).
       permute1600 (if i < 25 then g\<lparr>rng_state := (rng_state g)[i := rng_state g ! i XOR 0x1]\<rparr> else g))
       (xor_seed_loop 0 seeds g)"

definition rng_seed :: "u64 list \<Rightarrow> KeccakRng \<Rightarrow> KeccakRng option" where
  "rng_seed seeds g = xor_seed seeds (g\<lparr>rng_state := keccak_reset\<rparr>)"

definition random :: "KeccakRng \<Rightarrow> u64 \<times> KeccakRng" where
  "random g =
     (let g = (if opos g \<ge> n_nums g then permute1600 g else g) in
      (rng_state g ! opos g, g\<lparr>opos := opos g + 1\<rparr>))"

text \<open>\<open>generate\<close> for values of 64 and of 32 bits; a 64 bit number gives two of the latter.\<close>

fun generate64 :: "nat \<Rightarrow> KeccakRng \<Rightarrow> u64 list \<times> KeccakRng" where
  "generate64 0 g = ([], g)"
| "generate64 (Suc n) g = (let (rbits, g) = random g; (xs, g) = generate64 n g in (rbits # xs, g))"

fun generate32 :: "nat \<Rightarrow> KeccakRng \<Rightarrow> u32 list \<times> KeccakRng" where
  "generate32 0 g = ([], g)"
| "generate32 (Suc 0) g = (let (rbits, g) = random g in ([ucast rbits], g))"
| "generate32 (Suc (Suc n)) g =
     (let (rbits, g) = random g; (xs, g) = generate32 n g in (ucast rbits # ucast (drop_bit 32 rbits) # xs, g))"

text \<open>Seeding from 50 values of 32 bits.\<close>

definition seed_words :: "u32 list \<Rightarrow> u64 list" where
  "seed_words u = map (\<lambda>i. ucast (u ! (i * 2)) OR push_bit 32 (ucast (u ! (i * 2 + 1)))) [0..<25]"

definition seed_sequence :: "(nat \<Rightarrow> u32 list) \<Rightarrow> KeccakRng \<Rightarrow> KeccakRng option" where
  "seed_sequence generate g = rng_seed (seed_words (generate 50)) g"

definition rng_eq :: "KeccakRng \<Rightarrow> KeccakRng \<Rightarrow> bool" where
  "rng_eq lhs rhs \<longleftrightarrow> (\<forall>i\<in>set [0..<25]. \<not> rng_state lhs ! i \<noteq> rng_state rhs ! i) \<and> opos lhs = opos rhs \<and> bit_rate lhs = bit_rate rhs"

definition rng_destroy :: "KeccakRng \<Rightarrow> KeccakRng" where
  "rng_destroy g =
     (let g = forget (g\<lparr>rng_state := fold (\<lambda>i A. A[i := 0xaffeaffeaffeaffe]) [0..<25] (rng_state g)\<rparr>) in
      g\<lparr>opos := n_nums g\<rparr>)"

declare discard.simps [code] xor_seed_loop.simps [code]

subsection \<open>The sequence of numbers\<close>

text \<open>The constructor asks for a capacity that is a multiple of 64 with at least one word of each kind.\<close>

definition rng_ok :: "KeccakRng \<Rightarrow> bool" where
  "rng_ok g \<longleftrightarrow> length (rng_state g) = 25 \<and> 0 < n_nums g \<and> n_nums g < 25 \<and> opos g \<le> n_nums g"

lemma n_nums_simps [simp]:
  "n_nums (g\<lparr>opos := k\<rparr>) = n_nums g" "n_nums (g\<lparr>rng_state := A\<rparr>) = n_nums g" "n_nums (permute1600 g) = n_nums g"
  by (simp_all add: n_nums_def permute1600_def)

lemma permute1600_simps [simp]:
  "opos (permute1600 g) = 0" "n_rounds (permute1600 g) = n_rounds g" "bit_rate (permute1600 g) = bit_rate g"
  "rng_state (permute1600 g) = permute (n_rounds g) (rng_state g)"
  by (simp_all add: permute1600_def)

lemma rng_ok_random: "rng_ok g \<Longrightarrow> rng_ok (snd (random g)) \<and> n_nums (snd (random g)) = n_nums g"
  by (auto simp: random_def rng_ok_def Let_def)

lemma random_iter:
  assumes "rng_ok g" and "opos g + n \<le> n_nums g"
  shows "((\<lambda>g. snd (random g)) ^^ n) g = g\<lparr>opos := opos g + n\<rparr>"
  using assms(2)
proof (induction n)
  case (Suc n)
  then show ?case by (simp add: random_def Let_def)
qed simp

lemma rng_ok_iter: "rng_ok g \<Longrightarrow> rng_ok (((\<lambda>g. snd (random g)) ^^ n) g) \<and> n_nums (((\<lambda>g. snd (random g)) ^^ n) g) = n_nums g"
  by (induction n) (auto simp: rng_ok_random)

text \<open>
  Discarding numbers returns, and leaves the generator as that many calls of \<open>random\<close> do.
\<close>

theorem discard_is_random:
  assumes "rng_ok g"
  shows "discard cnt g = Some (((\<lambda>g. snd (random g)) ^^ cnt) g)"
  using assms
proof (induction cnt arbitrary: g rule: less_induct)
  case (less cnt)
  show ?case
  proof (cases "cnt = 0")
    case True
    then show ?thesis by (subst discard.simps) simp
  next
    case False
    define h where "h = (if opos g \<ge> n_nums g then permute1600 g else g)"
    define ull where "ull = min (n_nums g - opos h) cnt"
    have h: "rng_ok h" "n_nums h = n_nums g" "opos h < n_nums g"
      using less.prems by (auto simp: h_def rng_ok_def)
    have u: "0 < ull" "ull \<le> cnt" "opos h + ull \<le> n_nums h" using h False by (auto simp: ull_def)
    have hg: "snd (random h) = snd (random g)"
      using h(3) by (auto simp: random_def h_def Let_def)
    have "((\<lambda>g. snd (random g)) ^^ ull) h = ((\<lambda>g. snd (random g)) ^^ ull) g"
      using u(1) hg by (cases ull) (simp_all add: funpow_Suc_right del: funpow.simps(2))
    then have hu: "h\<lparr>opos := opos h + ull\<rparr> = ((\<lambda>g. snd (random g)) ^^ ull) g"
      using random_iter [OF h(1) u(3)] by simp
    have "discard cnt g = discard (cnt - ull) (h\<lparr>opos := opos h + ull\<rparr>)"
      using False by (subst discard.simps) (simp add: Let_def h_def [symmetric] h(2) ull_def)
    also have "\<dots> = Some (((\<lambda>g. snd (random g)) ^^ (cnt - ull)) (((\<lambda>g. snd (random g)) ^^ ull) g))"
      unfolding hu by (rule less.IH) (use u False rng_ok_iter [OF less.prems] in auto)
    also have "((\<lambda>g. snd (random g)) ^^ (cnt - ull)) (((\<lambda>g. snd (random g)) ^^ ull) g) = ((\<lambda>g. snd (random g)) ^^ cnt) g"
      by (metis comp_apply funpow_add le_add_diff_inverse2 u(2))
    finally show ?thesis .
  qed
qed

lemma discard_is_random_witness:
  "discard 30 (new_rng 256 8) = Some (((\<lambda>g. snd (random g)) ^^ 30) (new_rng 256 8))"
  by (rule discard_is_random) (simp add: rng_ok_def new_rng_def n_nums_def)

lemma length_fold_set: "length (fold (\<lambda>i A. A[i := f i A]) is A) = length A" for f :: "nat \<Rightarrow> 'a list \<Rightarrow> 'a"
  by (induction "is" arbitrary: A) simp_all

lemma xor_seed_loop_returns:
  assumes "rng_ok g" and "i \<le> n_nums g"
  shows "\<exists>j g'. xor_seed_loop i seeds g = Some (j, g') \<and> rng_ok g' \<and> j \<le> n_nums g \<and>
    n_nums g' = n_nums g \<and> n_rounds g' = n_rounds g \<and> bit_rate g' = bit_rate g"
  using assms
proof (induction "length seeds" arbitrary: seeds i g rule: less_induct)
  case less
  show ?case
  proof (cases "seeds = []")
    case True
    then show ?thesis using less.prems by (subst xor_seed_loop.simps) simp
  next
    case False
    define h where "h = (if i > 0 then permute1600 g else g)"
    define count where "count = min (n_nums h) (length seeds)"
    define k where "k = h\<lparr>rng_state := fold (\<lambda>i A. A[i := A ! i XOR seeds ! i]) [0..<count] (rng_state h)\<rparr>"
    have c: "0 < count" "count \<le> n_nums g" using False less.prems by (auto simp: count_def h_def rng_ok_def)
    have k: "rng_ok k" "n_nums k = n_nums g" "n_rounds k = n_rounds g" "bit_rate k = bit_rate g"
      using less.prems by (auto simp: k_def h_def rng_ok_def length_fold_set)
    have "xor_seed_loop i seeds g = xor_seed_loop count (drop count seeds) k"
      using False by (subst xor_seed_loop.simps) (simp add: Let_def h_def [symmetric] count_def [symmetric] k_def [symmetric])
    moreover have "length (drop count seeds) < length seeds" using c False by simp
    ultimately show ?thesis using less.hyps [OF _ k(1), of "drop count seeds" count] k c by auto
  qed
qed

text \<open>
  Seeding returns for any number of seeds and leaves a fresh block: the k-th number after it is a word of the
  state that is reached by one permutation per block of numbers, and of its first words only.
\<close>

theorem random_sequence_after_seed:
  assumes "rng_ok g"
  shows "\<exists>g'. xor_seed seeds g = Some g' \<and> rng_ok g' \<and> n_nums g' = n_nums g \<and>
    fst (generate64 n g') = map (\<lambda>k. (permute (n_rounds g) ^^ (k div n_nums g)) (rng_state g') ! (k mod n_nums g)) [0..<n]"
proof -
  obtain j h where l: "xor_seed_loop 0 seeds g = Some (j, h)" "rng_ok h" "n_nums h = n_nums g" "n_rounds h = n_rounds g"
    using xor_seed_loop_returns [OF assms, of 0 seeds] by auto
  define g' where "g' = permute1600 (if j < 25 then h\<lparr>rng_state := (rng_state h)[j := rng_state h ! j XOR 0x1]\<rparr> else h)"
  have s: "xor_seed seeds g = Some g'" by (simp add: xor_seed_def l g'_def)
  have g': "rng_ok g'" "opos g' = 0" "n_nums g' = n_nums g" "n_rounds g' = n_rounds g"
    using l by (auto simp: g'_def rng_ok_def)
  have "fst (generate64 n u) = map (\<lambda>k. (permute (n_rounds u) ^^ ((opos u + k) div n_nums u)) (rng_state u) ! ((opos u + k) mod n_nums u)) [0..<n]"
    if "rng_ok u" for u
    using that
  proof (induction n arbitrary: u)
    case (Suc n)
    define v where "v = snd (random u)"
    have r: "0 < n_nums u" using Suc.prems by (simp add: rng_ok_def)
    have v: "rng_ok v" "n_nums v = n_nums u" "n_rounds v = n_rounds u"
      using rng_ok_random [OF Suc.prems] by (auto simp: v_def random_def Let_def)
    have step: "(permute (n_rounds v) ^^ ((opos v + k) div n_nums v)) (rng_state v) =
        (permute (n_rounds u) ^^ ((opos u + Suc k) div n_nums u)) (rng_state u) \<and>
        (opos v + k) mod n_nums v = (opos u + Suc k) mod n_nums u" for k
    proof (cases "opos u \<ge> n_nums u")
      case True
      then have o: "opos u + Suc k = Suc k + n_nums u" using Suc.prems by (simp add: rng_ok_def)
      have "(Suc k + n_nums u) div n_nums u = Suc (Suc k div n_nums u)" "(Suc k + n_nums u) mod n_nums u = Suc k mod n_nums u"
        using r by (simp_all only: div_add_self2 mod_add_self2)
      note o = o [THEN arg_cong [of _ _ "\<lambda>n. n div n_nums u"], unfolded this] o [THEN arg_cong [of _ _ "\<lambda>n. n mod n_nums u"], unfolded this]
      have "v = (permute1600 u)\<lparr>opos := 1\<rparr>" using True by (simp add: v_def random_def Let_def)
      then show ?thesis using o by (simp add: funpow_Suc_right del: funpow.simps(2))
    next
      case False
      then have "v = u\<lparr>opos := opos u + 1\<rparr>" by (simp add: v_def random_def Let_def)
      then show ?thesis by simp
    qed
    have "fst (random u) = (permute (n_rounds u) ^^ ((opos u + 0) div n_nums u)) (rng_state u) ! ((opos u + 0) mod n_nums u)"
      using Suc.prems by (auto simp: random_def Let_def rng_ok_def)
    moreover have "[0..<Suc n] = 0 # map Suc [0..<n]" by (simp add: upt_conv_Cons map_Suc_upt del: upt_Suc)
    moreover have "fst (generate64 (Suc n) u) = fst (random u) # fst (generate64 n v)"
      by (simp add: v_def case_prod_unfold Let_def)
    ultimately show ?case using Suc.IH [OF v(1)] step by simp
  qed simp
  from this [OF g'(1)] g' show ?thesis using s by simp
qed

lemma random_sequence_after_seed_witness:
  "\<exists>g'. xor_seed [7, 8] (new_rng 192 13) = Some g' \<and> rng_ok g' \<and> n_nums g' = 22 \<and>
    fst (generate64 50 g') = map (\<lambda>k. (permute 13 ^^ (k div 22)) (rng_state g') ! (k mod 22)) [0..<50]"
  using random_sequence_after_seed [of "new_rng 192 13" "[7, 8]" 50]
  by (simp add: rng_ok_def new_rng_def n_nums_def del: upt_Suc)

end
