(* ===== verification/RandomNumbers.thy ===== *)
theory RandomNumbers
  imports Prelude
begin

section \<open>Congruential generators, byte hashes and ranges (ase/randomhash.cc, ase/randomhash.hh)\<close>

text \<open>All arithmetic is on words of the width of the code, so products and sums wrap.\<close>

subsection \<open>Pcg32Rng\<close>

record Pcg32Rng =
  increment :: u64
  accu :: u64

definition PCG_A :: u64 where "PCG_A = 6364136223846793005"

definition ror32 :: "u32 \<Rightarrow> u32 \<Rightarrow> u32" where
  "ror32 bits offset = drop_bit (unat offset) bits OR push_bit (unat ((32 - offset) AND 31)) bits"

definition pcg_xsh_rr :: "u64 \<Rightarrow> u32" where
  "pcg_xsh_rr input = ror32 (ucast (drop_bit 27 (input XOR drop_bit 18 input))) (ucast (drop_bit 59 input))"

definition pcg_seed :: "u64 \<Rightarrow> u64 \<Rightarrow> Pcg32Rng" where
  "pcg_seed offset sequence =
     (let accu0 = sequence; increment0 = push_bit 1 sequence OR 1; accu0 = accu0 + offset in
      \<lparr>increment = increment0, accu = PCG_A * accu0 + increment0\<rparr>)"

definition pcg_random :: "Pcg32Rng \<Rightarrow> u32 \<times> Pcg32Rng" where
  "pcg_random g =
     (let lcgout = accu g in (pcg_xsh_rr lcgout, g\<lparr>accu := PCG_A * accu g + increment g\<rparr>))"

subsection \<open>Byte hashes\<close>

definition fnv_step :: "u8 \<Rightarrow> u64 \<Rightarrow> u64" where
  "fnv_step b hash = 0x100000001b3 * (ucast b XOR hash)"

definition fnv1a_consthash64 :: "u8 list \<Rightarrow> u64" where
  "fnv1a_consthash64 data = fold fnv_step data 0xcbf29ce484222325"

text \<open>The variant for strings stops at the terminating NUL.\<close>

fun fnv1a_zt_loop :: "u64 \<Rightarrow> u8 list \<Rightarrow> u64" where
  "fnv1a_zt_loop hash [] = hash"
| "fnv1a_zt_loop hash (b # ztdata) = (if b = 0 then hash else fnv1a_zt_loop (fnv_step b hash) ztdata)"

definition fnv1a_zt :: "u8 list \<Rightarrow> u64" where
  "fnv1a_zt ztdata = fnv1a_zt_loop 0xcbf29ce484222325 ztdata"

definition pcg_step :: "u8 \<Rightarrow> u64 \<Rightarrow> u64" where
  "pcg_step b h = (h - ucast b) * 6364136223846793005"

definition pcg_absorb :: "u8 list \<Rightarrow> u64 \<Rightarrow> u64" where
  "pcg_absorb data seed = fold pcg_step data (seed XOR 0x14057b7ef767814f)"

definition rxs_m_xs :: "u64 \<Rightarrow> u64" where
  "rxs_m_xs h =
     (let rsh = unat (drop_bit 59 h);
          rxs = h XOR drop_bit (5 + rsh) h;
          m = rxs * 12605985483714917081 in
      m XOR drop_bit 43 m)"

definition pcg_hash64 :: "u8 list \<Rightarrow> u64 \<Rightarrow> u64" where
  "pcg_hash64 data seed = rxs_m_xs (pcg_absorb data seed)"

fun pcg_zt_loop :: "u8 list \<Rightarrow> u64 \<Rightarrow> u64" where
  "pcg_zt_loop [] h = h"
| "pcg_zt_loop (b # ztdata) h = (if b = 0 then h else pcg_zt_loop ztdata (pcg_step b h))"

definition pcg_hash64_zt :: "u8 list \<Rightarrow> u64 \<Rightarrow> u64" where
  "pcg_hash64_zt ztdata seed = rxs_m_xs (pcg_zt_loop ztdata (seed XOR 0x14057b7ef767814f))"

text \<open>
  The left shift of \<open>pcg_hash32\<close> by 32 bits, which is undefined in C++, is \<open>None\<close>.
\<close>

definition pcg_hash32 :: "u8 list \<Rightarrow> u64 \<Rightarrow> u32 option" where
  "pcg_hash32 data seed =
     (let h = pcg_absorb data seed;
          rsh = unat (drop_bit 59 h);
          xsh = ucast (drop_bit 27 (h XOR drop_bit 18 h)) :: u32 in
      if 32 - rsh < 32 then Some (drop_bit rsh xsh OR push_bit (32 - rsh) xsh) else None)"

subsection \<open>Numbers in a range\<close>

text \<open>
  \<open>draw\<close> is the loop that repeats while the number is too large; \<open>rand k\<close> is the k-th result of
  \<open>global_random64\<close>, and the number of results taken so far is threaded.
\<close>

partial_function (option) draw :: "(nat \<Rightarrow> u64) \<Rightarrow> u64 \<Rightarrow> nat \<Rightarrow> (u64 \<times> nat) option" where
  "draw rand bound k = (if rand k \<ge> bound then draw rand bound (k + 1) else Some (rand k, k + 1))"

definition irange_quotient :: "u64 \<Rightarrow> u64 \<Rightarrow> u64" where
  "irange_quotient lo hi = 0xffffffffffffffff div (hi - lo)"

definition irange_bound :: "u64 \<Rightarrow> u64 \<Rightarrow> u64" where
  "irange_bound lo hi = irange_quotient lo hi * (hi - lo)"

definition random_irange :: "(nat \<Rightarrow> u64) \<Rightarrow> u64 \<Rightarrow> u64 \<Rightarrow> nat \<Rightarrow> (u64 \<times> nat) option" where
  "random_irange rand lo hi k =
     (if \<not> lo <s hi then Some (lo, k)
      else map_option (\<lambda>(r, k). (lo + r div irange_quotient lo hi, k)) (draw rand (irange_bound lo hi) k))"

text \<open>A secret is drawn once, and is not 0.\<close>

partial_function (option) draw_nonzero :: "(nat \<Rightarrow> u64) \<Rightarrow> nat \<Rightarrow> (u64 \<times> nat) option" where
  "draw_nonzero rand k = (if rand k = 0 then draw_nonzero rand (k + 1) else Some (rand k, k + 1))"

definition random_secret :: "(nat \<Rightarrow> u64) \<Rightarrow> u64 \<Rightarrow> nat \<Rightarrow> (u64 \<times> nat) option" where
  "random_secret rand secret_var k = (if secret_var = 0 then draw_nonzero rand k else Some (secret_var, k))"

definition random_nonce :: "(nat \<Rightarrow> u64) \<Rightarrow> u64 \<Rightarrow> nat \<Rightarrow> (u64 \<times> nat) option" where
  "random_nonce rand cached_nonce k = (if cached_nonce = 0 then random_secret rand cached_nonce k else Some (cached_nonce, k))"

declare draw.simps [code] draw_nonzero.simps [code]

subsection \<open>The period of the congruential generator\<close>

fun power_sum :: "nat \<Rightarrow> nat \<Rightarrow> nat" where
  "power_sum a 0 = 0"
| "power_sum a (Suc n) = 1 + a * power_sum a n"

lemma power_sum_add: "power_sum a (m + n) = power_sum a m + a ^ m * power_sum a n"
  by (induction m) (simp_all add: algebra_simps)

lemma odd_power_sum: "odd a \<Longrightarrow> odd (power_sum a n) \<longleftrightarrow> odd n"
  by (induction n) auto

lemma power_mod_4: "a mod 4 = 1 \<Longrightarrow> a ^ n mod 4 = 1" for a :: nat
  using power_mod [of a 4 n] by simp

text \<open>A power of two divides the sum exactly when it divides the number of terms.\<close>

lemma power_sum_dvd:
  assumes "a mod 4 = 1"
  shows "2 ^ k dvd power_sum a n \<longleftrightarrow> 2 ^ k dvd n"
proof (induction k arbitrary: n)
  case (Suc k)
  have odd: "odd a" using assms by presburger
  show ?case
  proof (cases "odd n")
    case True
    then show ?thesis using odd_power_sum [OF odd, of n] by (metis dvd_trans power_Suc dvd_triv_left)
  next
    case False
    then obtain m where n: "n = m + m" by (metis evenE mult_2)
    have four: "(1 + a ^ m) mod 4 = 2" using power_mod_4 [OF assms, of m] by presburger
    define c where "c = (1 + a ^ m) div 2"
    have c: "1 + a ^ m = 2 * c" "odd c" using four unfolding c_def by presburger+
    have "power_sum a n = (1 + a ^ m) * power_sum a m"
      using power_sum_add [of a m m] by (simp add: n algebra_simps)
    then have "2 ^ Suc k dvd power_sum a n \<longleftrightarrow> 2 * 2 ^ k dvd 2 * (c * power_sum a m)" by (simp only: c mult.assoc power_Suc)
    also have "\<dots> \<longleftrightarrow> 2 ^ k dvd c * power_sum a m" by (rule dvd_times_left_cancel_iff) simp
    also have "\<dots> \<longleftrightarrow> 2 ^ k dvd power_sum a m" using c(2) by (simp add: coprime_dvd_mult_right_iff)
    also have "\<dots> \<longleftrightarrow> 2 ^ Suc k dvd n" using Suc.IH [of m] by (simp add: n mult_2 [symmetric])
    finally show ?thesis .
  qed
qed simp


text \<open>The step of the generator on its accumulator.\<close>

definition lcg :: "u64 \<Rightarrow> u64 \<Rightarrow> u64" where
  "lcg i x = PCG_A * x + i"

abbreviation pcg_nat :: nat where "pcg_nat \<equiv> 6364136223846793005"

lemma PCG_A_nat: "PCG_A = of_nat pcg_nat"
  by (simp add: PCG_A_def)

lemma lcg_iter: "(lcg i ^^ n) x = PCG_A ^ n * x + i * of_nat (power_sum pcg_nat n)"
  unfolding PCG_A_nat by (induction n) (simp_all add: lcg_def PCG_A_nat algebra_simps del: of_nat_numeral)

lemma power_minus_1: "PCG_A ^ n = 1 + (PCG_A - 1) * of_nat (power_sum pcg_nat n)"
proof (induction n)
  case (Suc n)
  have "PCG_A ^ Suc n = PCG_A * (1 + (PCG_A - 1) * of_nat (power_sum pcg_nat n))" by (simp add: Suc)
  then show ?case by (simp add: PCG_A_nat algebra_simps del: of_nat_numeral)
qed simp

lemma odd_word_mult_0:
  fixes w v :: u64
  assumes "odd (unat w)"
  shows "w * v = 0 \<longleftrightarrow> v = 0"
proof
  assume "w * v = 0"
  then have "2 ^ 64 dvd unat w * unat v" by (simp add: word_unat_eq_iff unat_word_ariths mod_eq_0_iff_dvd)
  moreover have "coprime (2 ^ 64) (unat w)" using assms by (simp only: coprime_power_left_iff coprime_left_2_iff_odd simp_thms)
  ultimately have "2 ^ 64 dvd unat v" by (simp only: coprime_dvd_mult_right_iff)
  moreover have "unat v < 2 ^ 64" using unsigned_less [of v] by simp
  ultimately have "unat v = 0" using nat_dvd_not_less by blast
  then show "v = 0" by (simp add: unat_eq_zero)
qed simp

lemma odd_unat_iff: "odd (unat w) \<longleftrightarrow> bit w 0" for w :: u64
  by (simp flip: bit_0 add: bit_unsigned_iff)

lemma of_nat_eq_0_dvd: "(of_nat n :: u64) = 0 \<longleftrightarrow> 2 ^ 64 dvd n"
  by (simp add: word_unat_eq_iff unat_of_nat mod_eq_0_iff_dvd)

lemma lcg_period:
  assumes "bit i 0"
  shows "(lcg i ^^ n) x = x \<longleftrightarrow> 2 ^ 64 dvd n"
proof -
  define w where "w = (PCG_A - 1) * x + i"
  have "(lcg i ^^ n) x - x = w * of_nat (power_sum pcg_nat n)"
    by (simp add: lcg_iter power_minus_1 w_def algebra_simps)
  then have "(lcg i ^^ n) x = x \<longleftrightarrow> w * of_nat (power_sum pcg_nat n) = 0" by (metis eq_iff_diff_eq_0)
  also have "odd (unat w)"
  proof -
    have "even (unat ((PCG_A - 1) * x))"
      by (simp add: PCG_A_def unat_word_ariths dvd_mod_iff)
    moreover have "odd (unat i)" using assms by (simp add: odd_unat_iff)
    ultimately have "odd ((unat ((PCG_A - 1) * x) + unat i) mod 2 ^ 64)" by (simp add: dvd_mod_iff)
    then show ?thesis by (simp add: w_def unat_word_ariths)
  qed
  from odd_word_mult_0 [OF this] have "w * of_nat (power_sum pcg_nat n) = 0 \<longleftrightarrow> 2 ^ 64 dvd power_sum pcg_nat n"
    by (simp only: of_nat_eq_0_dvd)
  also have "\<dots> \<longleftrightarrow> 2 ^ 64 dvd n" by (rule power_sum_dvd) simp
  finally show ?thesis .
qed

lemma pcg_iter: "((\<lambda>g. snd (pcg_random g)) ^^ n) g = g\<lparr>accu := (lcg (increment g) ^^ n) (accu g)\<rparr>"
  by (induction n) (simp_all add: pcg_random_def lcg_def Let_def)

text \<open>
  C40: Whatever the seed, the generator comes back to its state after exactly the multiples of 2 ^ 64 steps, as its
  documentation says.
\<close>

theorem pcg_period: "((\<lambda>g. snd (pcg_random g)) ^^ n) (pcg_seed offset sequence) = pcg_seed offset sequence \<longleftrightarrow> 2 ^ 64 dvd n"
proof -
  let ?g = "pcg_seed offset sequence"
  have "bit (increment ?g) 0" by (simp add: pcg_seed_def Let_def bit_or_iff)
  moreover have "g\<lparr>accu := v\<rparr> = g \<longleftrightarrow> v = accu g" for g :: Pcg32Rng and v by (cases g) simp
  ultimately show ?thesis using lcg_period unfolding pcg_iter by blast
qed


subsection \<open>Hashes tell single bytes apart\<close>

lemma xorshift_inj:
  fixes v w :: u64
  assumes "v XOR drop_bit k v = w XOR drop_bit k w" and "0 < k"
  shows "v = w"
proof (rule bit_word_eqI)
  fix n assume "n < LENGTH(64)"
  show "bit v n = bit w n"
  proof (induction "64 - n" arbitrary: n rule: less_induct)
    case less
    show ?case
    proof (cases "n < 64")
      case True
      then have "64 - (n + k) < 64 - n" using assms(2) by linarith
      then have "bit v (n + k) = bit w (n + k)" by (rule less)
      moreover have "bit (v XOR drop_bit k v) n = bit (w XOR drop_bit k w) n" by (simp only: assms(1))
      ultimately show ?thesis by (simp add: bit_simps add.commute) blast
    next
      case False
      then show ?thesis using bit_imp_le_length [of v n] bit_imp_le_length [of w n] by auto
    qed
  qed
qed

lemma odd_mult_inj:
  fixes v w c :: u64
  assumes "v * c = w * c" and "odd (unat c)"
  shows "v = w"
proof -
  have "c * (v - w) = 0" using assms(1) by (simp add: algebra_simps)
  then show ?thesis using odd_word_mult_0 [OF assms(2)] by simp
qed

lemma rxs_m_xs_inj:
  assumes "rxs_m_xs v = rxs_m_xs w"
  shows "v = w"
proof -
  define rx where "rx h = h XOR drop_bit (5 + unat (drop_bit 59 h)) h" for h :: u64
  have top: "drop_bit 59 (rx h) = drop_bit 59 h" for h
  proof (rule bit_word_eqI)
    fix n assume "n < LENGTH(64)"
    have "\<not> bit h (5 + unat (drop_bit 59 h) + (59 + n))"
      using bit_imp_le_length [of h "5 + unat (drop_bit 59 h) + (59 + n)"] by auto
    then show "bit (drop_bit 59 (rx h)) n = bit (drop_bit 59 h) n" by (simp add: rx_def bit_simps)
  qed
  have "rx v * 12605985483714917081 = rx w * 12605985483714917081"
    by (rule xorshift_inj [where k = 43]) (use assms in \<open>simp_all add: rxs_m_xs_def rx_def Let_def\<close>)
  then have e: "rx v = rx w" by (rule odd_mult_inj) simp
  then have "drop_bit 59 v = drop_bit 59 w" using top by metis
  then show ?thesis using e unfolding rx_def by (metis xorshift_inj add_gr_0 zero_less_numeral)
qed

lemma xor_left_cancel: "b XOR v = b XOR w \<longleftrightarrow> v = w" for b v w :: "'a::len word"
  by (metis xor.assoc xor_self_eq xor.left_neutral)

lemma xor_right_cancel: "v XOR b = w XOR b \<longleftrightarrow> v = w" for b v w :: "'a::len word"
  by (simp only: xor.commute [of _ b] xor_left_cancel)

lemma ucast_u8_inj: "(ucast b :: u64) = ucast c \<longleftrightarrow> b = c" for b c :: u8
proof
  assume e: "(ucast b :: u64) = ucast c"
  have "bit (ucast w :: u64) n = bit w n" if "n < 8" for w :: u8 and n using that by (simp add: bit_simps)
  then show "b = c" using e by (intro bit_word_eqI) (simp, metis)
qed simp

lemma pcg_step_inj: "pcg_step b v = pcg_step b w \<longleftrightarrow> v = w" "pcg_step b v = pcg_step c v \<longleftrightarrow> b = c"
  using odd_mult_inj [of "v - ucast b" 6364136223846793005 "w - ucast b"] odd_mult_inj [of "v - ucast b" 6364136223846793005 "v - ucast c"]
  by (auto simp add: pcg_step_def ucast_u8_inj)

lemma fnv_step_inj: "fnv_step b v = fnv_step b w \<longleftrightarrow> v = w" "fnv_step b v = fnv_step c v \<longleftrightarrow> b = c"
proof -
  have "(0x100000001b3 :: u64) * x = 0x100000001b3 * y \<longleftrightarrow> x = y" for x y
    using odd_mult_inj [of x "0x100000001b3" y] by (auto simp: mult.commute)
  then show "fnv_step b v = fnv_step b w \<longleftrightarrow> v = w" "fnv_step b v = fnv_step c v \<longleftrightarrow> b = c"
    by (simp_all add: fnv_step_def xor_left_cancel xor_right_cancel ucast_u8_inj)
qed

lemma fold_inj: "(\<And>b v w. f b v = f b w \<longleftrightarrow> v = w) \<Longrightarrow> fold f bs v = fold f bs w \<longleftrightarrow> v = w"
  by (induction bs arbitrary: v w) simp_all

lemmas hash_inj = pcg_step_inj fnv_step_inj fold_inj [of pcg_step, OF pcg_step_inj(1)] fold_inj [of fnv_step, OF fnv_step_inj(1)]
  xor_left_cancel xor_right_cancel

text \<open>
  Two byte strings that differ in one byte never have the same 64 bit hash, with either hash function and any
  seed; and different seeds hash one string differently.
\<close>

theorem hashes_tell_bytes_apart:
  "(pcg_hash64 (p @ b # q) seed = pcg_hash64 (p @ c # q) seed \<longleftrightarrow> b = c) \<and>
   (fnv1a_consthash64 (p @ b # q) = fnv1a_consthash64 (p @ c # q) \<longleftrightarrow> b = c) \<and>
   (pcg_hash64 p seed = pcg_hash64 p seed' \<longleftrightarrow> seed = seed')"
proof -
  have mix: "rxs_m_xs v = rxs_m_xs w \<longleftrightarrow> v = w" for v w using rxs_m_xs_inj by blast
  have "pcg_hash64 (p @ b # q) seed = pcg_hash64 (p @ c # q) seed \<longleftrightarrow> b = c"
    by (simp add: pcg_hash64_def mix pcg_absorb_def hash_inj)
  moreover have "fnv1a_consthash64 (p @ b # q) = fnv1a_consthash64 (p @ c # q) \<longleftrightarrow> b = c"
    by (simp add: fnv1a_consthash64_def hash_inj)
  moreover have "pcg_hash64 p seed = pcg_hash64 p seed' \<longleftrightarrow> seed = seed'"
    by (simp add: pcg_hash64_def mix pcg_absorb_def hash_inj)
  ultimately show ?thesis by blast
qed

lemma hash_of_strings:
  "fnv1a_zt s = fnv1a_consthash64 (c_str s)" "pcg_hash64_zt s seed = pcg_hash64 (c_str s) seed"
proof -
  have "fnv1a_zt_loop h s = fold fnv_step (c_str s) h" for h
    by (induction s arbitrary: h) auto
  then show "fnv1a_zt s = fnv1a_consthash64 (c_str s)" by (simp add: fnv1a_zt_def fnv1a_consthash64_def)
  have "pcg_zt_loop s h = fold pcg_step (c_str s) h" for h
    by (induction s arbitrary: h) auto
  then show "pcg_hash64_zt s seed = pcg_hash64 (c_str s) seed" by (simp add: pcg_hash64_zt_def pcg_hash64_def pcg_absorb_def)
qed

text \<open>The undefined shift of \<open>pcg_hash32\<close> is met when the upper five bits of the absorbed state are 0.\<close>

lemma pcg_hash32_undefined: "pcg_hash32 data seed = None \<longleftrightarrow> drop_bit 59 (pcg_absorb data seed) = 0"
proof -
  have "(32 - n < (32 :: nat)) = (n \<noteq> 0)" for n by arith
  then show ?thesis by (simp add: pcg_hash32_def Let_def unat_gt_0)
qed

lemma pcg_hash32_undefined_example: "pcg_hash32 [] 0x14057b7ef767814f = None"
  by (simp add: pcg_hash32_undefined pcg_absorb_def)

subsection \<open>Ranges\<close>

lemma unat_u64_less: "unat (w :: u64) < 2 ^ 64"
  using unsigned_less [of w] by simp

lemma irange_nat:
  assumes "lo <s hi"
  shows "int (unat (hi - lo)) = sint hi - sint lo" and "0 < unat (hi - lo)"
    and "irange_quotient lo hi \<noteq> 0" and "unat (irange_quotient lo hi) = (2 ^ 64 - 1) div unat (hi - lo)"
    and "unat (irange_bound lo hi) = unat (irange_quotient lo hi) * unat (hi - lo)"
proof -
  have l: "sint lo < sint hi" using assms by (simp add: word_sless_alt)
  have b: "- (2 ^ 63) \<le> sint w" "sint w < 2 ^ 63" for w :: u64
    using sint_range_size [of w] by (simp_all add: word_size)
  have "hi - lo = of_int (sint hi - sint lo)" by simp
  moreover have "uint (of_int i :: u64) = i mod 2 ^ 64" for i by (simp add: unsigned_of_int take_bit_eq_mod)
  ultimately have "uint (hi - lo) = (sint hi - sint lo) mod 2 ^ 64" by metis
  then show r: "int (unat (hi - lo)) = sint hi - sint lo" using l b [of lo] b [of hi] by simp
  then show R: "0 < unat (hi - lo)" using l by linarith
  show q: "unat (irange_quotient lo hi) = (2 ^ 64 - 1) div unat (hi - lo)" by (simp add: irange_quotient_def unat_div)
  have lt: "unat (hi - lo) \<le> 2 ^ 64 - 1"
    using unat_u64_less [of "hi - lo"] by simp
  then have "0 < (2 ^ 64 - 1) div unat (hi - lo)" using R by (simp add: div_greater_zero_iff)
  then show "irange_quotient lo hi \<noteq> 0" using q by (metis unat_0 less_irrefl)
  have "unat (irange_quotient lo hi) * unat (hi - lo) < 2 ^ 64"
    unfolding q by (rule le_less_trans [OF div_times_less_eq_dividend]) simp
  then show "unat (irange_bound lo hi) = unat (irange_quotient lo hi) * unat (hi - lo)"
    by (simp add: irange_bound_def unat_mult_lem [symmetric])
qed


lemma irange_value:
  fixes lo hi :: u64
  assumes "lo <s hi" and "d < unat (hi - lo)"
  shows "sint (lo + of_nat d) = sint lo + int d"
proof -
  have "lo + of_nat d = of_int (sint lo + int d)" by simp
  moreover have "sint hi < 2 ^ 63" "- (2 ^ 63) \<le> sint lo"
    using sint_range_size [of hi] sint_range_size [of lo] by (simp_all add: word_size)
  then have "- (2 ^ 63) \<le> sint lo + int d" "sint lo + int d < 2 ^ 63"
    using irange_nat(1) [OF assms(1)] assms(2) by linarith+
  ultimately show ?thesis by (simp only: signed_of_int) (simp add: signed_take_bit_int_eq_self)
qed

lemma accepted_value:
  assumes "lo <s hi" and "r < irange_bound lo hi"
  shows "lo \<le>s lo + r div irange_quotient lo hi" and "lo + r div irange_quotient lo hi <s hi"
proof -
  note n = irange_nat [OF assms(1)]
  have "unat r < unat (irange_quotient lo hi) * unat (hi - lo)" using assms(2) n(5) by (simp add: word_less_nat_alt)
  then have d: "unat (r div irange_quotient lo hi) < unat (hi - lo)"
    by (simp add: unat_div less_mult_imp_div_less mult.commute)
  have "sint (lo + r div irange_quotient lo hi) = sint lo + int (unat (r div irange_quotient lo hi))"
    using irange_value [OF assms(1) d] by simp
  then show "lo \<le>s lo + r div irange_quotient lo hi" "lo + r div irange_quotient lo hi <s hi"
    using d n(1) unfolding word_sless_alt word_sle_eq by linarith+
qed

lemma card_accepted:
  assumes "lo <s hi" and "lo \<le>s v" and "v <s hi"
  shows "card {r. r < irange_bound lo hi \<and> lo + r div irange_quotient lo hi = v} = unat (irange_quotient lo hi)"
proof -
  note n = irange_nat [OF assms(1)]
  define Q where "Q = unat (irange_quotient lo hi)"
  define R where "R = unat (hi - lo)"
  define d where "d = unat (v - lo)"
  have Q: "0 < Q" using n(3) by (simp add: Q_def unat_gt_0)
  have QR: "unat (irange_bound lo hi) = Q * R" using n(5) by (simp add: Q_def R_def)
  have "int d = sint v - sint lo"
  proof (cases "lo = v")
    case False
    then have "lo <s v" using assms(2) by (simp add: word_sless_eq)
    from irange_nat(1) [OF this] show ?thesis by (simp add: d_def)
  qed (simp add: d_def)
  then have d: "d < R" using n(1) assms(3) unfolding R_def word_sless_alt by linarith
  have iff: "lo + r div irange_quotient lo hi = v \<longleftrightarrow> unat r div Q = d" for r
  proof -
    have "lo + r div irange_quotient lo hi = v \<longleftrightarrow> r div irange_quotient lo hi = v - lo" by (simp add: algebra_simps eq_diff_eq)
    then show ?thesis by (simp add: word_unat_eq_iff unat_div Q_def d_def)
  qed
  have "unat ` {r. r < irange_bound lo hi \<and> lo + r div irange_quotient lo hi = v} = {d * Q..<d * Q + Q}"
  proof (rule set_eqI)
    fix k
    have "k \<in> unat ` {r. r < irange_bound lo hi \<and> lo + r div irange_quotient lo hi = v} \<longleftrightarrow> k < Q * R \<and> k div Q = d"
    proof
      assume "k < Q * R \<and> k div Q = d"
      moreover have "Q * R < 2 ^ 64" using QR unat_u64_less [of "irange_bound lo hi"] by simp
      ultimately have "unat (of_nat k :: u64) = k" "k < Q * R" "k div Q = d" by (simp_all add: unat_of_nat)
      then show "k \<in> unat ` {r. r < irange_bound lo hi \<and> lo + r div irange_quotient lo hi = v}"
        using QR iff by (intro image_eqI [of _ _ "of_nat k"]) (simp_all add: word_less_nat_alt)
    qed (use QR iff in \<open>auto simp: word_less_nat_alt\<close>)
    also have "\<dots> \<longleftrightarrow> k \<in> {d * Q..<d * Q + Q}"
    proof -
      have "k div Q = d \<longleftrightarrow> d * Q \<le> k \<and> k < d * Q + Q"
        using Q by (auto simp: div_nat_eqI algebra_simps dividend_less_times_div)
      moreover have "d * Q + Q \<le> Q * R" using d by (metis Suc_leI add.commute mult.commute mult_Suc mult_le_mono1)
      ultimately show ?thesis by auto
    qed
    finally show "k \<in> unat ` {r. r < irange_bound lo hi \<and> lo + r div irange_quotient lo hi = v} \<longleftrightarrow> k \<in> {d * Q..<d * Q + Q}" .
  qed
  moreover have "inj_on unat S" for S :: "u64 set" by (simp add: inj_on_def word_unat_eq_iff)
  ultimately show ?thesis by (metis (no_types, lifting) card_atLeastLessThan card_image diff_add_inverse Q_def)
qed

lemma irange_half:
  assumes "lo <s hi"
  shows "2 ^ 63 \<le> unat (irange_bound lo hi)"
proof -
  note n = irange_nat [OF assms]
  define R where "R = unat (hi - lo)"
  have R: "0 < R" "R < 2 ^ 64" using n(2) unat_u64_less [of "hi - lo"] by (simp_all add: R_def)
  have b: "unat (irange_bound lo hi) = (2 ^ 64 - 1) div R * R" using n(4,5) by (simp add: R_def)
  show ?thesis
  proof (cases "R < 2 ^ 63")
    case True
    have "2 ^ 63 \<le> q" if "q + m = 2 ^ 64 - 1" "m < R" for q m :: nat using that True by simp
    moreover have "(2 ^ 64 - 1) div R * R + (2 ^ 64 - 1) mod R = (2 ^ 64 - 1 :: nat)" by (rule div_mult_mod_eq)
    moreover have "(2 ^ 64 - 1) mod R < R" using R by simp
    ultimately show ?thesis unfolding b by blast
  next
    case False
    have "0 < (2 ^ 64 - 1) div R" using R by (simp add: div_greater_zero_iff)
    then have "R \<le> (2 ^ 64 - 1) div R * R" by simp
    then show ?thesis using False unfolding b by linarith
  qed
qed

lemma draw_first:
  assumes "rand j < bound" and "k \<le> j"
  shows "\<exists>r k'. draw rand bound k = Some (r, k') \<and> r < bound \<and> k' \<le> j + 1"
  using assms(2)
proof (induction "j - k" arbitrary: k)
  case 0
  then show ?case using assms(1) by (subst draw.simps) auto
next
  case (Suc n)
  show ?case
  proof (cases "rand k \<ge> bound")
    case True
    then show ?thesis using Suc by (subst draw.simps) auto
  next
    case False
    then show ?thesis using Suc by (subst draw.simps) auto
  qed
qed



end
