(* ===== verification/Mwc256.thy ===== *)
theory Mwc256
  imports Prelude
begin

section \<open>The multiply-with-carry generator (ase/randomhash.cc, ase/randomhash.hh)\<close>

text \<open>
  \<open>Mwc256\<close> keeps four words, the last one a carry.  Copies that jump ahead are made by multiplication modulo a
  fixed number, with numbers of five words and the functions \<open>mpc_...\<close>; \<open>unsigned __int128\<close> is a word of 128 bits.
\<close>

definition MWC_A3 :: u64 where "MWC_A3 = 0xff377e26f82da74a"

definition rotl :: "u64 \<Rightarrow> nat \<Rightarrow> u64" where
  "rotl bits offset = push_bit offset bits OR drop_bit (64 - offset) bits"

text \<open>\<open>next\<close> returns the new \<open>state[2]\<close>.\<close>

definition mwc_next :: "u64 list \<Rightarrow> u64 \<times> u64 list" where
  "mwc_next state =
     (let t = ucast MWC_A3 * ucast (state ! 0) + ucast (state ! 3) :: 128 word;
          state = state[0 := state ! 1];
          state = state[1 := state ! 2];
          state = state[3 := ucast (drop_bit 64 t)];
          state = state[2 := ucast t] in
      (state ! 2, state))"

definition mwc_step :: "u64 list \<Rightarrow> u64 list" where
  "mwc_step state = snd (mwc_next state)"

text \<open>The loop brings the carry into its range.\<close>

function fix_carry :: "u64 \<Rightarrow> u64" where
  "fix_carry c = (if c = 0 \<or> c \<ge> MWC_A3 - 1 then fix_carry (c div 2 OR 1) else c)"
  by pat_completeness auto
termination
proof (relation "measure (\<lambda>c. if c = 0 then 2 ^ 64 else unat c)")
  fix c :: u64 assume c: "c = 0 \<or> c \<ge> MWC_A3 - 1"
  have "unat (c div 2 OR 1) \<le> unat c div 2 + 1"
  proof -
    have "w OR 1 = (if bit w 0 then w else w + 1)" for w :: u64
      by (simp add: one_or_eq or.commute [of w] bit_0 of_bool_def)
    then show ?thesis by (simp add: unat_div unat_word_ariths split: if_split)
  qed
  moreover have "c div 2 OR 1 \<noteq> 0"
  proof
    assume "c div 2 OR 1 = 0"
    then have "bit (c div 2 OR 1) 0 = bit (0 :: u64) 0" by simp
    then show False by (simp add: bit_or_iff)
  qed
  ultimately show "(c div 2 OR 1, c) \<in> measure (\<lambda>c. if c = 0 then 2 ^ 64 else unat c)"
    using c by (auto simp: MWC_A3_def word_le_nat_alt)
qed simp

declare fix_carry.simps [simp del]

definition mwc_seed :: "u64 \<Rightarrow> u64 \<Rightarrow> u64 \<Rightarrow> u64 \<Rightarrow> u64 list" where
  "mwc_seed x y z c =
     (mwc_step ^^ 37) [x XOR 0xAAAAAAAAAAAAAAAA, y * 0x25363F651FC21EB5, rotl z 37, fix_carry (c XOR 0x5555555555555555)]"

subsection \<open>Numbers of five words\<close>

definition mwc256_MP_SIZE :: nat where "mwc256_MP_SIZE = 5"

text \<open>The comparison starts at the highest word.\<close>

fun mpc_cmp_loop :: "nat \<Rightarrow> u64 list \<Rightarrow> u64 list \<Rightarrow> int" where
  "mpc_cmp_loop 0 a b = 0"
| "mpc_cmp_loop (Suc i) a b = (if a ! i < b ! i then -1 else if a ! i > b ! i then 1 else mpc_cmp_loop i a b)"

definition mpc_cmp :: "u64 list \<Rightarrow> u64 list \<Rightarrow> int" where
  "mpc_cmp a b = mpc_cmp_loop mwc256_MP_SIZE a b"

text \<open>The difference of two words fits into the signed type, so it is an integer here.\<close>

definition bsub_word :: "u64 list \<Rightarrow> nat \<Rightarrow> int \<times> u64 list \<Rightarrow> int \<times> u64 list" where
  "bsub_word b i = (\<lambda>(borrow, a).
     let d = uint (a ! i) - uint (b ! i) - borrow in
     (if d < 0 then 1 else 0, a[i := of_int (2 ^ 64 + d)]))"

definition mpc_bsub :: "u64 list \<Rightarrow> u64 list \<Rightarrow> u64 list" where
  "mpc_bsub a b = snd (fold (bsub_word b) [0..<mwc256_MP_SIZE] (0, a))"

partial_function (option) mpc_rem :: "u64 list \<Rightarrow> u64 list \<Rightarrow> u64 list option" where
  "mpc_rem a m = (if mpc_cmp a m < 0 then Some a else mpc_rem (mpc_bsub a m) m)"

definition add_word :: "u64 list \<Rightarrow> nat \<Rightarrow> 128 word \<times> u64 list \<Rightarrow> 128 word \<times> u64 list" where
  "add_word b i = (\<lambda>(carry, a).
     let s = ucast (a ! i) + ucast (b ! i) + carry in
     (if s > 0xffffffffffffffff then 1 else 0, a[i := ucast s]))"

definition mpc_add :: "u64 list \<Rightarrow> u64 list \<Rightarrow> u64 list \<Rightarrow> u64 list option" where
  "mpc_add a b m = mpc_rem (snd (fold (add_word b) [0..<mwc256_MP_SIZE] (0, a))) m"

text \<open>The loop that skips the zero words at the top gives the number of words left.\<close>

fun used_words :: "nat \<Rightarrow> u64 list \<Rightarrow> nat" where
  "used_words 0 b = 0"
| "used_words (Suc d) b = (if b ! d = 0 then used_words d b else Suc d)"

fun mpc_mul_loop :: "nat list \<Rightarrow> u64 list \<Rightarrow> u64 list \<Rightarrow> u64 list \<Rightarrow> u64 list \<Rightarrow> u64 list option" where
  "mpc_mul_loop [] b m r t = Some r"
| "mpc_mul_loop (i # is) b m r t =
     Option.bind (if b ! (i div 64) AND push_bit (i mod 64) 1 \<noteq> 0 then mpc_add r t m else Some r) (\<lambda>r.
     Option.bind (mpc_add t t m) (\<lambda>t. mpc_mul_loop is b m r t))"

definition mpc_mul :: "u64 list \<Rightarrow> u64 list \<Rightarrow> u64 list \<Rightarrow> u64 list option" where
  "mpc_mul a b m =
     mpc_mul_loop [0..<used_words mwc256_MP_SIZE b * 64] b m (replicate mwc256_MP_SIZE 0) a"

definition mwc256_mod :: "u64 list" where
  "mwc256_mod = [0xffffffffffffffff, 0xffffffffffffffff, 0xffffffffffffffff, MWC_A3 - 1, 0]"

definition jump128 :: "u64 list" where
  "jump128 = [0x49ffebb8aed35da, 0x8aeb90fc17d34f8c, 0x3e78ff9958b436d9, 0x377fc42deaad8b46, 0]"

definition jump192 :: "u64 list" where
  "jump192 = [0x7cbd7641a0db932f, 0x1eafd94d7d3ac65c, 0xf4fc97e3b80db1b, 0x630e9c671e238c8a, 0]"

definition mwc_jump :: "u64 list \<Rightarrow> u64 list \<Rightarrow> u64 list option" where
  "mwc_jump jump state = map_option (take 4) (mpc_mul (take 4 state @ [0]) jump mwc256_mod)"

definition clone128 :: "u64 list \<Rightarrow> u64 list option" where "clone128 = mwc_jump jump128"
definition clone192 :: "u64 list \<Rightarrow> u64 list option" where "clone192 = mwc_jump jump192"

declare mpc_rem.simps [code]

subsection \<open>The numbers that lists of words stand for\<close>

fun val :: "u64 list \<Rightarrow> nat" where
  "val [] = 0"
| "val (w # ws) = unat w + 2 ^ 64 * val ws"

lemma unat_u64_bound: "unat (w :: u64) < 2 ^ 64"
  using unsigned_less [of w] by simp

lemma val_append: "val (xs @ ys) = val xs + 2 ^ (64 * length xs) * val ys"
  by (induction xs) (simp_all add: algebra_simps power_add)

lemma val_less: "val ws < 2 ^ (64 * length ws)"
proof (induction ws)
  case (Cons w ws)
  have "val (w # ws) < 2 ^ 64 * Suc (val ws)" using unat_u64_bound [of w] by simp
  also have "\<dots> \<le> 2 ^ 64 * 2 ^ (64 * length ws)" by (rule mult_le_mono2) (use Cons in simp)
  finally show ?case by (simp only: power_add [symmetric]) simp
qed simp

lemma digits_unique: "a + B * b = c + B * d \<Longrightarrow> a < B \<Longrightarrow> c < B \<Longrightarrow> a = c \<and> b = d" for B :: nat
  by (metis add.commute div_mult_self2 div_less less_nat_zero_code mod_less mod_mult_self2 add_0)

lemma val_inj: "length xs = length ys \<Longrightarrow> val xs = val ys \<Longrightarrow> xs = ys"
proof (induction xs ys rule: list_induct2)
  case (Cons x xs y ys)
  from Cons.prems have "unat x + 2 ^ 64 * val xs = unat y + 2 ^ 64 * val ys" by (simp only: val.simps)
  from digits_unique [OF this unat_u64_bound unat_u64_bound] Cons.IH show ?case by (simp add: word_unat_eq_iff)
qed simp

lemma val_zeros [simp]: "val (replicate n 0) = 0"
  by (induction n) simp_all

lemma val_take_Suc: "i < length ws \<Longrightarrow> val (take (Suc i) ws) = val (take i ws) + 2 ^ (64 * i) * unat (ws ! i)"
  by (simp add: take_Suc_conv_app_nth val_append)

text \<open>The comparison compares the numbers.\<close>

lemma mpc_cmp_loop_val:
  assumes "n \<le> length a" and "n \<le> length b"
  shows "mpc_cmp_loop n a b < 0 \<longleftrightarrow> val (take n a) < val (take n b)"
  using assms
proof (induction n)
  case (Suc n)
  define e where "e = (2 :: nat) ^ (64 * n)"
  have l: "val (take n a) < e" "val (take n b) < e"
    using val_less [of "take n a"] val_less [of "take n b"] Suc.prems by (simp_all add: e_def min_def)
  have v: "val (take (Suc n) a) = val (take n a) + e * unat (a ! n)" "val (take (Suc n) b) = val (take n b) + e * unat (b ! n)"
    using Suc.prems by (simp_all add: val_take_Suc e_def)
  have lt: "x + e * i < y + e * j" if "i < j" "x < e" for x y i j :: nat
  proof -
    have "e * Suc i \<le> e * j" by (rule mult_le_mono2) (use that in simp)
    then show ?thesis using that by simp
  qed
  show ?case
  proof (cases "unat (a ! n)" "unat (b ! n)" rule: linorder_cases)
    case less
    then show ?thesis using lt [OF less l(1)] by (simp add: v word_less_nat_alt)
  next
    case equal
    then show ?thesis using Suc by (simp add: v word_less_nat_alt)
  next
    case greater
    then have "val (take (Suc n) b) < val (take (Suc n) a)" using lt [OF greater l(2)] by (simp add: v)
    then show ?thesis using greater by (simp add: word_less_nat_alt)
  qed
qed simp


subsection \<open>Difference, remainder, sum and product\<close>

lemma val_update:
  assumes "i < length ws"
  shows "val (take i (ws[i := w])) = val (take i ws)" "val (take (Suc i) (ws[i := w])) = val (take i ws) + 2 ^ (64 * i) * unat w"
  using assms by (simp_all add: val_take_Suc)

lemma drop_Suc_of: "drop n u = drop n a \<Longrightarrow> drop (Suc n) u = drop (Suc n) a"
  by (metis drop_Suc drop_tl)

lemma bsub_loop:
  assumes "n \<le> length a" and "n \<le> length b" and "fold (bsub_word b) [0..<n] (0, a) = (borrow, a')"
  shows "length a' = length a \<and> drop n a' = drop n a \<and> borrow \<in> {0, 1} \<and>
    int (val (take n a')) = int (val (take n a)) - int (val (take n b)) + borrow * 2 ^ (64 * n)"
  using assms
proof (induction n arbitrary: borrow a')
  case (Suc n)
  obtain c u where f: "fold (bsub_word b) [0..<n] (0, a) = (c, u)" by (cases "fold (bsub_word b) [0..<n] (0, a)")
  have u: "length u = length a" "drop n u = drop n a" "c \<in> {0, 1}"
    "int (val (take n u)) = int (val (take n a)) - int (val (take n b)) + c * 2 ^ (64 * n)"
    using Suc.IH [OF _ _ f] Suc.prems by auto
  define d where "d = uint (u ! n) - uint (b ! n) - c"
  have n: "n < length a" "n < length b" using Suc.prems by simp_all
  have un: "u ! n = a ! n" using u(1,2) n by (metis hd_drop_conv_nth)
  have "bsub_word b n (c, u) = (borrow, a')" using Suc.prems(3) by (simp add: f)
  then have r: "borrow = (if d < 0 then 1 else 0)" "a' = u[n := of_int (2 ^ 64 + d)]"
    by (simp_all add: bsub_word_def Let_def d_def)
  have "uint (of_int z :: u64) = z mod 2 ^ 64" for z by (simp add: unsigned_of_int take_bit_eq_mod)
  then have "int (unat (of_int (2 ^ 64 + d) :: u64)) = (2 ^ 64 + d) mod 2 ^ 64" by (simp only: of_nat_unat)
  also have "\<dots> = d + borrow * 2 ^ 64"
  proof -
    have w: "0 \<le> uint w \<and> uint w < 2 ^ 64" for w :: u64 using unsigned_less [of w] by simp
    have c: "0 \<le> c \<and> c \<le> 1" using u(3) by auto
    have "- (2 ^ 64) \<le> d \<and> d < 2 ^ 64" using w [of "u ! n"] w [of "b ! n"] c unfolding d_def by linarith
    moreover have "(B + d) mod B = d + (if d < 0 then B else 0)" if "- B \<le> d \<and> d < B" for B :: int
      using that mod_pos_pos_trivial [of "B + d" B] by simp
    ultimately have "(2 ^ 64 + d) mod 2 ^ 64 = d + (if d < 0 then 2 ^ 64 else 0)" by blast
    then show ?thesis by (simp add: r(1))
  qed
  finally have w: "int (unat (of_int (2 ^ 64 + d) :: u64)) = d + borrow * 2 ^ 64" .
  have "int (val (take (Suc n) a')) = int (val (take n u)) + 2 ^ (64 * n) * (d + borrow * 2 ^ 64)"
  proof -
    have "n < length u" using n u(1) by simp
    from val_update(2) [OF this, of "of_int (2 ^ 64 + d)"]
    have "val (take (Suc n) a') = val (take n u) + 2 ^ (64 * n) * unat (of_int (2 ^ 64 + d) :: u64)" by (simp only: r(2))
    then have "int (val (take (Suc n) a')) = int (val (take n u)) + 2 ^ (64 * n) * int (unat (of_int (2 ^ 64 + d) :: u64))"
      by (simp only: of_nat_add of_nat_mult of_nat_power of_nat_numeral)
    then show ?thesis by (simp only: w)
  qed
  also have "\<dots> = int (val (take (Suc n) a)) - int (val (take (Suc n) b)) + borrow * 2 ^ (64 * Suc n)"
    using n by (simp add: u(4) val_take_Suc d_def un algebra_simps power_add)
  finally have v: "int (val (take (Suc n) a')) = int (val (take (Suc n) a)) - int (val (take (Suc n) b)) + borrow * 2 ^ (64 * Suc n)" .
  have "length a' = length a" "drop (Suc n) a' = drop (Suc n) a" using r(2) u(1) drop_Suc_of [OF u(2)] by simp_all
  then show ?case using v r(1) by simp
qed simp

lemma mpc_bsub_val:
  assumes "length a = 5" and "length b = 5" and "val b \<le> val a"
  shows "length (mpc_bsub a b) = 5" "val (mpc_bsub a b) = val a - val b"
proof -
  obtain c u where f: "fold (bsub_word b) [0..<5] (0, a) = (c, u)" by (cases "fold (bsub_word b) [0..<5] (0, a)")
  have u: "length u = 5" "c \<in> {0, 1}" "int (val u) = int (val a) - int (val b) + c * 2 ^ 320"
    using bsub_loop [OF _ _ f] assms by auto
  have "val u < 2 ^ 320" using val_less [of u] u(1) by simp
  then have "int (val u) < 2 ^ 320" by (metis of_nat_less_iff of_nat_numeral of_nat_power)
  then have "c = 0" using u(2,3) assms(3) by auto
  then show "length (mpc_bsub a b) = 5" "val (mpc_bsub a b) = val a - val b"
    using u assms(3) by (simp_all add: mpc_bsub_def mwc256_MP_SIZE_def f)
qed

lemma mpc_cmp_val:
  assumes "length a = 5" and "length b = 5"
  shows "mpc_cmp a b < 0 \<longleftrightarrow> val a < val b"
  using mpc_cmp_loop_val [of 5 a b] assms by (simp add: mpc_cmp_def mwc256_MP_SIZE_def)

lemma mpc_rem_val:
  assumes "length a = 5" and "length m = 5" and "0 < val m"
  shows "\<exists>r. mpc_rem a m = Some r \<and> length r = 5 \<and> val r = val a mod val m"
  using assms(1)
proof (induction "val a" arbitrary: a rule: less_induct)
  case less
  show ?case
  proof (cases "val a < val m")
    case True
    then show ?thesis using less.prems assms by (subst mpc_rem.simps) (simp add: mpc_cmp_val)
  next
    case False
    note s = mpc_bsub_val [OF less.prems assms(2)]
    have "val (mpc_bsub a m) < val a" using s False assms(3) by simp
    from less.hyps [OF this] obtain r where "mpc_rem (mpc_bsub a m) m = Some r" "length r = 5" "val r = val (mpc_bsub a m) mod val m"
      using s False by auto
    then show ?thesis using False less.prems assms s by (subst mpc_rem.simps) (simp add: mpc_cmp_val le_mod_geq)
  qed
qed

lemma add_loop:
  assumes "n \<le> length a" and "n \<le> length b" and "fold (add_word b) [0..<n] (0, a) = (carry, a')"
  shows "length a' = length a \<and> drop n a' = drop n a \<and> carry \<in> {0, 1} \<and>
    val (take n a') + unat carry * 2 ^ (64 * n) = val (take n a) + val (take n b)"
  using assms
proof (induction n arbitrary: carry a')
  case (Suc n)
  obtain c u where f: "fold (add_word b) [0..<n] (0, a) = (c, u)" by (cases "fold (add_word b) [0..<n] (0, a)")
  have u: "length u = length a" "drop n u = drop n a" "c \<in> {0, 1}"
    "val (take n u) + unat c * 2 ^ (64 * n) = val (take n a) + val (take n b)"
    using Suc.IH [OF _ _ f] Suc.prems by auto
  have n: "n < length a" "n < length b" using Suc.prems by simp_all
  have un: "u ! n = a ! n" using u(1,2) n by (metis hd_drop_conv_nth)
  define t where "t = (ucast (u ! n) + ucast (b ! n) + c :: 128 word)"
  have "add_word b n (c, u) = (carry, a')" using Suc.prems(3) by (simp add: f)
  then have r: "carry = (if t > 0xffffffffffffffff then 1 else 0)" "a' = u[n := ucast t]"
    by (simp_all add: add_word_def Let_def t_def)
  define x where "x = unat (u ! n) + unat (b ! n) + unat c"
  have c1: "unat c \<le> 1" using u(3) by auto
  have x: "x < 2 ^ 65" using unat_u64_bound [of "u ! n"] unat_u64_bound [of "b ! n"] c1 by (simp add: x_def)
  have t: "unat t = x"
  proof -
    have "unat t = ((unat (u ! n) + unat (b ! n)) mod 2 ^ 128 + unat c) mod 2 ^ 128"
      using unat_u64_bound [of "u ! n"] unat_u64_bound [of "b ! n"] by (simp add: t_def unat_word_ariths unat_ucast_mod)
    also have "\<dots> = x mod 2 ^ 128" by (simp add: x_def mod_simps)
    finally show ?thesis using x by simp
  qed
  have w: "unat (ucast t :: u64) + unat carry * 2 ^ 64 = x"
  proof -
    have "unat (ucast t :: u64) = x mod 2 ^ 64" by (simp add: unat_ucast_mod t)
    moreover have "unat carry = x div 2 ^ 64"
    proof -
      have "t > 0xffffffffffffffff \<longleftrightarrow> 2 ^ 64 \<le> x" by (simp add: word_less_nat_alt t) arith
      moreover have "x div 2 ^ 64 = (if 2 ^ 64 \<le> x then 1 else 0)" using x by (simp add: div_nat_eqI)
      ultimately show ?thesis by (simp add: r(1))
    qed
    ultimately show ?thesis by (metis mod_div_mult_eq mult.commute)
  qed
  have "val (take (Suc n) a') + unat carry * 2 ^ (64 * Suc n) =
      val (take n u) + 2 ^ (64 * n) * (unat (ucast t :: u64) + unat carry * 2 ^ 64)"
    using val_update(2) [of n u "ucast t"] n u(1) by (simp add: r(2) algebra_simps power_add)
  also have "\<dots> = val (take n u) + unat c * 2 ^ (64 * n) + 2 ^ (64 * n) * (unat (a ! n) + unat (b ! n))"
    by (simp only: w) (simp add: x_def un algebra_simps)
  also have "\<dots> = val (take n a) + val (take n b) + 2 ^ (64 * n) * (unat (a ! n) + unat (b ! n))" by (simp only: u(4))
  also have "\<dots> = val (take (Suc n) a) + val (take (Suc n) b)"
    using n by (simp add: val_take_Suc algebra_simps)
  finally have v: "val (take (Suc n) a') + unat carry * 2 ^ (64 * Suc n) = val (take (Suc n) a) + val (take (Suc n) b)" .
  have "length a' = length a" "drop (Suc n) a' = drop (Suc n) a" using r(2) u(1) drop_Suc_of [OF u(2)] by simp_all
  then show ?case using v r(1) by simp
qed simp

lemma mpc_add_val:
  assumes "length a = 5" and "length b = 5" and "length m = 5" and "0 < val m" and "val a + val b < 2 ^ 320"
  shows "\<exists>r. mpc_add a b m = Some r \<and> length r = 5 \<and> val r = (val a + val b) mod val m"
proof -
  obtain c u where f: "fold (add_word b) [0..<5] (0, a) = (c, u)" by (cases "fold (add_word b) [0..<5] (0, a)")
  have u: "length u = 5" "c \<in> {0, 1}" "val u + unat c * 2 ^ 320 = val a + val b"
    using add_loop [OF _ _ f] assms by auto
  then have "val u = val a + val b" using assms(5) by auto
  then show ?thesis using mpc_rem_val [OF u(1) assms(3,4)] by (simp add: mpc_add_def mwc256_MP_SIZE_def f)
qed

lemma bit_val:
  assumes "i div 64 < length ws"
  shows "bit (val ws) i \<longleftrightarrow> bit (ws ! (i div 64)) (i mod 64)"
proof -
  define k where "k = i div 64"
  have d: "drop k ws = ws ! k # drop (Suc k) ws" using assms by (simp add: k_def Cons_nth_drop_Suc)
  have len: "length (take k ws) = k" using assms by (simp add: k_def)
  have "val ws = val (take k ws) + 2 ^ (64 * k) * val (drop k ws)"
    using val_append [of "take k ws" "drop k ws"] len by simp
  moreover have "val (take k ws) < 2 ^ (64 * k)" using val_less [of "take k ws"] len by simp
  ultimately have "val ws div 2 ^ (64 * k) = val (drop k ws)" by simp
  moreover have i: "i = 64 * k + i mod 64" by (simp add: k_def)
  ultimately have "bit (val ws) i \<longleftrightarrow> bit (val (drop k ws)) (i mod 64)"
    by (metis bit_drop_bit_eq comp_apply drop_bit_eq_div)
  also have "\<dots> \<longleftrightarrow> bit (take_bit 64 (val (drop k ws))) (i mod 64)" by (simp add: bit_take_bit_iff)
  also have "take_bit 64 (val (drop k ws)) = unat (ws ! k)"
    using unat_u64_bound [of "ws ! k"] by (simp add: d take_bit_eq_mod)
  finally show ?thesis by (simp add: k_def bit_unsigned_iff)
qed

lemma mpc_mul_loop_val:
  assumes len: "length b = 5" "length m = 5" "length r = 5" "length t = 5"
    and m: "0 < val m" "val m \<le> 2 ^ 319" and r: "val r < val m" and t: "val t < 2 ^ 319" and "i \<le> n" "n \<le> 320"
  shows "\<exists>p. mpc_mul_loop [i..<n] b m r t = Some p \<and> length p = 5 \<and>
    val p = (val r + val t * (take_bit n (val b) div 2 ^ i)) mod val m"
  using len(3,4) r t \<open>i \<le> n\<close>
proof (induction "n - i" arbitrary: i r t)
  case 0
  have "take_bit n (val b) div 2 ^ n = 0" by (simp add: take_bit_eq_mod)
  then show ?case using 0 by simp
next
  case (Suc k)
  then have i: "i < n" by simp
  define bt where "bt = bit (val b) i"
  have b: "b ! (i div 64) AND push_bit (i mod 64) 1 \<noteq> 0 \<longleftrightarrow> bt"
  proof -
    have "b ! (i div 64) AND push_bit (i mod 64) 1 \<noteq> 0 \<longleftrightarrow> bit (b ! (i div 64)) (i mod 64)"
      by (simp add: push_bit_of_1 and_exp_eq_0_iff_not_bit)
    then show ?thesis using bit_val [of i b] len(1) i assms(10) by (simp add: bt_def)
  qed
  have e319: "(2 :: nat) ^ 320 = 2 ^ 319 + 2 ^ 319" by simp
  obtain r' where r': "(if b ! (i div 64) AND push_bit (i mod 64) 1 \<noteq> 0 then mpc_add r t m else Some r) = Some r'"
    "length r' = 5" "val r' = (val r + (if bt then val t else 0)) mod val m" "val r' < val m"
  proof (cases bt)
    case True
    have "val r + val t < 2 ^ 320" using Suc.prems(3,4) m(2) unfolding e319 by linarith
    from mpc_add_val [OF Suc.prems(1,2) len(2) m(1) this] obtain r' where
      "mpc_add r t m = Some r'" "length r' = 5" "val r' = (val r + val t) mod val m" by blast
    then show thesis using True b m(1) by (intro that [of r']) auto
  next
    case False
    then show thesis using b Suc.prems by (intro that [of r]) auto
  qed
  have "val t + val t < 2 ^ 320" using Suc.prems(4) unfolding e319 by linarith
  from mpc_add_val [OF Suc.prems(2,2) len(2) m(1) this] obtain t' where
    t': "mpc_add t t m = Some t'" "length t' = 5" "val t' = (val t + val t) mod val m" by blast
  have "val t' < 2 ^ 319" using t'(3) m by (metis mod_less_divisor less_le_trans)
  moreover have "k = n - Suc i" "Suc i \<le> n" using i Suc.hyps(2) by simp_all
  ultimately obtain p where
    p: "mpc_mul_loop [Suc i..<n] b m r' t' = Some p" "length p = 5"
      "val p = (val r' + val t' * (take_bit n (val b) div 2 ^ Suc i)) mod val m"
    using Suc.hyps(1) [of "Suc i" r' t'] r'(2,4) t'(2) by blast
  have x: "take_bit n (val b) div 2 ^ i = (if bt then 1 else 0) + 2 * (take_bit n (val b) div 2 ^ Suc i)"
  proof -
    have "(take_bit n (val b) div 2 ^ i) mod 2 = (if bt then 1 else 0)"
      using i by (simp add: bt_def bit_iff_odd [of "take_bit n (val b)", symmetric] mod_2_eq_odd bit_take_bit_iff)
    moreover have "take_bit n (val b) div 2 ^ i div 2 = take_bit n (val b) div 2 ^ Suc i" 
      by (simp only: power_Suc2 div_mult2_eq)
    ultimately show ?thesis by (metis mod_mult_div_eq)
  qed
  define X where "X = take_bit n (val b) div 2 ^ Suc i"
  have "val p = ((val r + (if bt then val t else 0)) mod val m + (val t + val t) mod val m * X) mod val m"
    by (simp add: p(3) r'(3) t'(3) X_def)
  also have "\<dots> = ((val r + (if bt then val t else 0)) + (val t + val t) * X) mod val m"
    by (metis mod_add_eq mod_add_left_eq mod_mult_left_eq)
  also have "(val r + (if bt then val t else 0)) + (val t + val t) * X = val r + val t * (take_bit n (val b) div 2 ^ i)"
    unfolding x X_def by (simp add: algebra_simps)
  finally have "val p = (val r + val t * (take_bit n (val b) div 2 ^ i)) mod val m" .
  moreover have "mpc_mul_loop [i..<n] b m r t = Some p" using i r'(1) t'(1) p(1) by (simp add: upt_conv_Cons)
  ultimately show ?case using p(2) by blast
qed

lemma used_words_val:
  "n \<le> length b \<Longrightarrow> used_words n b \<le> n \<and> val (take n b) = val (take (used_words n b) b)"
  by (induction n) (auto simp: val_take_Suc le_SucI)

text \<open>
  Multiplication modulo a number returns, and is multiplication modulo that number, when the factor and the
  modulus leave the top bit free, so that no sum overflows the five words.
\<close>

lemma mpc_mul_total:
  assumes "length a = 5" and "length b = 5" and "length m = 5" and "0 < val m" and "val m \<le> 2 ^ 319" and "val a < 2 ^ 319"
  shows "\<exists>p. mpc_mul a b m = Some p \<and> length p = 5 \<and> val p = (val a * val b) mod val m"
proof -
  define d where "d = used_words 5 b"
  have d: "d \<le> 5" "val b = val (take d b)" using used_words_val [of 5 b] assms(2) by (simp_all add: d_def)
  have "length (take d b) = d" using d(1) assms(2) by simp
  then have "val b < 2 ^ (64 * d)" using val_less [of "take d b"] d(2) by simp
  then have "take_bit (d * 64) (val b) = val b" by (simp add: take_bit_eq_mod mult.commute)
  then show ?thesis
    using mpc_mul_loop_val [of b m "replicate 5 0" a 0 "d * 64"] assms d(1)
    by (simp add: mpc_mul_def mwc256_MP_SIZE_def d_def [symmetric])
qed


subsection \<open>The generator as arithmetic modulo a number\<close>

definition mwc_ok :: "u64 list \<Rightarrow> bool" where
  "mwc_ok s \<longleftrightarrow> length s = 4 \<and> 0 < val s \<and> val s < val mwc256_mod"

lemma mwc_mod_val: "val mwc256_mod = unat MWC_A3 * 2 ^ 192 - 1"
  by (simp add: mwc256_mod_def MWC_A3_def)

lemma mwc_mod_facts: "length mwc256_mod = 5" "0 < val mwc256_mod" "val mwc256_mod \<le> 2 ^ 319" "val mwc256_mod < 2 ^ 256" "odd (val mwc256_mod)"
  by (simp_all add: mwc256_mod_def MWC_A3_def)

lemma four_words: "length s = 4 \<longleftrightarrow> (\<exists>a b c d. s = [a, b, c, d])"
  by (auto simp: length_Suc_conv numeral_eq_Suc)

lemma four_access:
  "[a, b, c, d] ! 0 = a" "[a, b, c, d] ! 1 = b" "[a, b, c, d] ! 2 = c" "[a, b, c, d] ! 3 = d"
  "[a, b, c, d][0 := x] = [x, b, c, d]" "[a, b, c, d][1 := x] = [a, x, c, d]"
  "[a, b, c, d][2 := x] = [a, b, x, d]" "[a, b, c, d][3 := x] = [a, b, c, x]"
  by (simp_all add: numeral_3_eq_3 numeral_2_eq_2)

lemma mwc_next_words:
  "mwc_next [a, b, c, d] =
     (let t = ucast MWC_A3 * ucast a + ucast d :: 128 word in (ucast t, [b, c, ucast t, ucast (drop_bit 64 t)]))"
  unfolding mwc_next_def four_access by (simp only: Let_def) (simp only: four_access)

text \<open>One step divides by the number \<open>2 ^ 64\<close>.\<close>

lemma mwc_step_val:
  assumes "length s = 4"
  shows "length (mwc_step s) = 4 \<and> 2 ^ 64 * val (mwc_step s) = val s + unat (s ! 0) * val mwc256_mod"
proof -
  from assms have "\<exists>a b c d. s = [a, b, c, d]" by (simp only: four_words)
  then obtain a b c d where s: "s = [a, b, c, d]" by (elim exE)
  define t :: "128 word" where "t = ucast MWC_A3 * ucast a + ucast d"
  have step: "mwc_step s = [b, c, ucast t, ucast (drop_bit 64 t)]"
    unfolding s mwc_step_def mwc_next_words t_def Let_def snd_conv ..
  define x where "x = unat MWC_A3 * unat a + unat d"
  have x: "x < 2 ^ 128"
  proof -
    have "unat MWC_A3 * unat a \<le> (2 ^ 64 - 1) * (2 ^ 64 - 1)"
      by (rule mult_le_mono) (use unat_u64_bound [of MWC_A3] unat_u64_bound [of a] in simp_all)
    then show ?thesis using unat_u64_bound [of d] by (simp add: x_def)
  qed
  have t: "unat t = x"
  proof -
    have small: "unat (ucast w :: 128 word) = unat w" for w :: u64 using unat_u64_bound [of w] by (simp add: unat_ucast_mod)
    have "unat t = ((unat MWC_A3 * unat a) mod 2 ^ 128 + unat d) mod 2 ^ 128"
      by (simp add: t_def unat_word_ariths small)
    also have "\<dots> = x mod 2 ^ 128" by (simp add: x_def mod_simps)
    finally show ?thesis using x by simp
  qed
  have "x div 2 ^ 64 < 2 ^ 64" using x by (simp add: less_mult_imp_div_less)
  then have "unat (ucast t :: u64) + 2 ^ 64 * unat (ucast (drop_bit 64 t) :: u64) = x"
    by (simp add: unat_ucast_mod drop_bit_eq_div unat_div t)
  moreover have "2 ^ 64 * val (mwc_step s) = 2 ^ 64 * unat b + 2 ^ 128 * unat c + 2 ^ 192 * (unat (ucast t :: u64) + 2 ^ 64 * unat (ucast (drop_bit 64 t) :: u64))"
    by (simp add: step algebra_simps)
  ultimately have "2 ^ 64 * val (mwc_step s) = 2 ^ 64 * unat b + 2 ^ 128 * unat c + 2 ^ 192 * x" by (simp only:)
  moreover have "val s = unat a + 2 ^ 64 * unat b + 2 ^ 128 * unat c + 2 ^ 192 * unat d" by (simp add: s)
  moreover have "unat a * val mwc256_mod + unat a = unat a * unat MWC_A3 * 2 ^ 192"
    by (simp add: mwc_mod_val MWC_A3_def)
  moreover have "val mwc256_mod = unat MWC_A3 * 2 ^ 192 - 1" by (rule mwc_mod_val)
  moreover have "length (mwc_step s) = 4" by (simp add: step)
  ultimately show ?thesis by (simp add: s x_def MWC_A3_def)
qed

lemma mwc_step_ok: "mwc_ok s \<Longrightarrow> mwc_ok (mwc_step s)"
proof -
  assume s: "mwc_ok s"
  define m where "m = val mwc256_mod"
  note v = mwc_step_val [of s, folded m_def]
  have "unat (s ! 0) * m \<le> (2 ^ 64 - 1) * m" by (rule mult_le_mono1) (use unat_u64_bound [of "s ! 0"] in simp)
  moreover have "val s < m" "2 ^ 64 * val (mwc_step s) = val s + unat (s ! 0) * m"
    using v s by (simp_all add: mwc_ok_def m_def)
  moreover have "m + (2 ^ 64 - 1) * m = 2 ^ 64 * m" by simp
  ultimately have "2 ^ 64 * val (mwc_step s) < 2 ^ 64 * m" by linarith
  moreover have "0 < 2 ^ 64 * val (mwc_step s)" using v s by (simp add: mwc_ok_def)
  ultimately show "mwc_ok (mwc_step s)" using v s by (simp add: mwc_ok_def m_def [symmetric])
qed

lemma mwc_steps_ok: "mwc_ok s \<Longrightarrow> mwc_ok ((mwc_step ^^ n) s)"
  by (induction n) (simp_all add: mwc_step_ok)

lemma mwc_ok_inj: "mwc_ok s \<Longrightarrow> mwc_ok t \<Longrightarrow> val s mod val mwc256_mod = val t mod val mwc256_mod \<Longrightarrow> s = t"
  by (rule val_inj) (simp_all add: mwc_ok_def)

lemma fix_carry_range: "fix_carry c \<noteq> 0 \<and> fix_carry c < MWC_A3 - 1"
  by (induction c rule: fix_carry.induct) (subst (1 2) fix_carry.simps, simp add: not_le)


subsection \<open>Copies that jump ahead\<close>

lemma mwc_jump_val:
  assumes "mwc_ok s" and "length j = 5" and "coprime (val j) (val mwc256_mod)"
  shows "\<exists>c. mwc_jump j s = Some c \<and> mwc_ok c \<and> val c = (val s * val j) mod val mwc256_mod"
proof -
  define m where "m = val mwc256_mod"
  have s: "length s = 4" "0 < val s" "val s < m" using assms(1) by (simp_all add: mwc_ok_def m_def)
  have v: "val (take 4 s @ [0]) = val s" "length (take 4 s @ [0 :: u64]) = 5" using s(1) by (simp_all add: val_append)
  have "val s < 2 ^ 319" using s(3) mwc_mod_facts(3) unfolding m_def by linarith
  then obtain p where p: "mpc_mul (take 4 s @ [0]) j mwc256_mod = Some p" "length p = 5" "val p = (val s * val j) mod m"
    using mpc_mul_total [of "take 4 s @ [0]" j mwc256_mod] v assms(2) mwc_mod_facts unfolding m_def by auto
  have "val p < 2 ^ 256" using p(3) mwc_mod_facts(2,4) unfolding m_def by (metis mod_less_divisor less_trans)
  moreover have "val p = val (take 4 p) + 2 ^ 256 * unat (p ! 4)"
    using val_take_Suc [of 4 p] p(2) by simp
  ultimately have t: "val (take 4 p) = val p" by (cases "unat (p ! 4)") auto
  have "\<not> m dvd val s * val j"
    using assms(3) s(2,3) by (metis m_def coprime_commute coprime_dvd_mult_left_iff dvd_imp_le not_le)
  then have "0 < (val s * val j) mod m" by (simp add: dvd_eq_mod_eq_0)
  moreover have "(val s * val j) mod m < m" using mwc_mod_facts(2) by (simp add: m_def)
  ultimately have "mwc_ok (take 4 p)" using p t by (simp add: mwc_ok_def m_def)
  then show ?thesis using p t by (auto simp: mwc_jump_def m_def)
qed

lemma coprime_by_inverse: "j * k = 1 + q * m \<Longrightarrow> coprime j m" for j k q m :: nat
proof (rule coprimeI)
  fix d assume "j * k = 1 + q * m" "d dvd j" "d dvd m"
  then have "d dvd 1 + q * m" "d dvd q * m" by (metis dvd_mult2, simp)
  then show "is_unit d" by (metis dvd_add_left_iff)
qed

lemma jump_facts:
  "length jump128 = 5" "coprime (val jump128) (val mwc256_mod)"
  "length jump192 = 5" "coprime (val jump192) (val mwc256_mod)"
proof -
  have j: "val jump128 * 0x96849dbe87c1b6ccbc66909d9cea62ad902dd6ebdca47758bebf8b017d77448 =
      1 + 925303293435694432128635207870536122273560893969918064085123504317127201457 * val mwc256_mod"
    "val jump192 * 0x387406b146ced6f78626115bb5dc5566af30cb68940e8b799d28e2f9855659ae =
      1 + 9910692184331647133688872238339874860567569590749211435625234969043042869007 * val mwc256_mod"
    by (simp_all add: jump128_def jump192_def mwc256_mod_def MWC_A3_def)
  show "length jump128 = 5" "coprime (val jump128) (val mwc256_mod)"
    "length jump192 = 5" "coprime (val jump192) (val mwc256_mod)"
    using coprime_by_inverse [OF j(1)] coprime_by_inverse [OF j(2)] by (simp_all add: jump128_def jump192_def)
qed

end
