(* ===== verification/MwcJump.thy ===== *)
theory MwcJump
  imports Mwc256
begin

section \<open>How far the copies of Mwc256 jump (ase/randomhash.cc)\<close>

text \<open>
  One step of the generator divides the state by \<open>2 ^ 64\<close>, modulo the number \<open>mwc256_mod\<close>, so a jump by \<open>n\<close> steps
  multiplies it by a constant, the inverse of \<open>(2 ^ 64) ^ n\<close>.  Here the two constants of the code are computed, by
  squaring 128 and 192 times.  As \<open>MWC_A3 * 2 ^ 192\<close> is 1, the division by \<open>2 ^ 192\<close> that \<open>divided\<close> makes needs
  no quotient: the low words are multiplied by \<open>MWC_A3\<close> and added to the high words.
\<close>

definition modulus :: int where
  "modulus = int (val mwc256_mod)"

definition square :: "int \<Rightarrow> int" where
  "square x = x * x"

lemma square_code [code]:
  "square 0 = 0" "square (Int.Pos n) = Int.Pos (Num.sqr n)" "square (Int.Neg n) = Int.Pos (Num.sqr n)"
  by (simp_all add: square_def Int.Pos_def Int.Neg_def Num.sqr_conv_mult)

definition divided :: "int \<Rightarrow> int" where
  "divided p = (let q = drop_bit 192 p in q + (p - push_bit 192 q) * 0xff377e26f82da74a)"

fun squarings :: "nat \<Rightarrow> int \<Rightarrow> int" where
  "squarings 0 x = x"
| "squarings (Suc n) x = squarings n (divided (divided (square x)))"

lemma modulus_eq: "modulus = 0xff377e26f82da74a * 2 ^ 192 - 1"
  by (simp add: modulus_def mwc256_mod_def MWC_A3_def)

lemma divided_mod: "modulus dvd 2 ^ 192 * divided p - p"
proof -
  define q where "q = drop_bit 192 p"
  have "2 ^ 192 * divided p - p = (p - q * 2 ^ 192) * modulus"
    by (simp add: divided_def q_def [symmetric] modulus_eq Let_def push_bit_eq_mult algebra_simps)
  then show ?thesis by simp
qed

lemma dvd_diff_trans: "(m :: int) dvd a - b \<Longrightarrow> m dvd b - c \<Longrightarrow> m dvd a - c"
  using dvd_add [of m "a - b" "b - c"] by simp

lemma divided_twice_mod: "modulus dvd 2 ^ 384 * divided (divided p) - p"
proof -
  have "2 ^ 384 * divided (divided p) - 2 ^ 192 * divided p = 2 ^ 192 * (2 ^ 192 * divided (divided p) - divided p)"
    by (simp add: right_diff_distrib)
  then have "modulus dvd 2 ^ 384 * divided (divided p) - 2 ^ 192 * divided p"
    by (simp only: dvd_mult [OF divided_mod])
  then show ?thesis using divided_mod [of p] by (rule dvd_diff_trans)
qed

lemma modulus_coprime: "coprime modulus (2 ^ n)"
  unfolding coprime_power_right_iff coprime_right_2_iff_odd using mwc_mod_facts(5) by (simp add: modulus_def)

lemma modulus_cancel: "modulus dvd 2 ^ n * x - 2 ^ n * y \<longleftrightarrow> modulus dvd x - y"
  using modulus_coprime [of n] by (simp add: coprime_dvd_mult_right_iff flip: right_diff_distrib)

text \<open>The number \<open>x\<close> is the inverse of \<open>(2 ^ 64) ^ (2 ^ k)\<close>, up to the factor \<open>2 ^ 384\<close>.\<close>

definition inverse_at :: "nat \<Rightarrow> int \<Rightarrow> bool" where
  "inverse_at k x \<longleftrightarrow> modulus dvd (2 ^ 64) ^ (2 ^ k) * x - 2 ^ 384"

lemma inverse_square:
  assumes "inverse_at k x"
  shows "inverse_at (Suc k) (divided (divided (square x)))"
proof -
  define B :: int where "B = (2 ^ 64) ^ (2 ^ k)"
  define y where "y = divided (divided (square x))"
  have "modulus dvd B * B * (2 ^ 384 * y - x * x)"
    using divided_twice_mod [of "x * x"] by (simp add: y_def square_def)
  moreover have "modulus dvd (B * x - 2 ^ 384) * (B * x + 2 ^ 384)"
    using assms by (simp add: inverse_at_def B_def)
  ultimately have "modulus dvd B * B * (2 ^ 384 * y - x * x) + (B * x - 2 ^ 384) * (B * x + 2 ^ 384)" by (rule dvd_add)
  moreover have "B * B * (2 ^ 384 * y - x * x) + (B * x - 2 ^ 384) * (B * x + 2 ^ 384) =
      2 ^ 384 * (B * B * y) - 2 ^ 384 * 2 ^ 384" by algebra
  ultimately have "modulus dvd 2 ^ 384 * (B * B * y) - 2 ^ 384 * 2 ^ 384" by (simp only:)
  then have "modulus dvd B * B * y - 2 ^ 384" by (rule modulus_cancel [THEN iffD1])
  moreover have "(2 ^ 64 :: int) ^ (2 ^ Suc k) = B * B" by (simp add: B_def power_mult_distrib mult_2 power_add)
  ultimately show ?thesis by (simp add: inverse_at_def y_def)
qed

lemma inverse_squarings: "inverse_at k x \<Longrightarrow> squarings n x = y \<Longrightarrow> inverse_at (k + n) y"
  by (induction n arbitrary: k x) (use inverse_square in fastforce)+

text \<open>The squarings, 16 at a time.\<close>

lemma squared_16:
  "squarings 16 0x100000000000000000000000000000000000000000000000000000000000000000000000000000000 =
     0x7ad6d48744a04b3122b39cda6211a4c84d5022bca1e7e55eb3f855862aeb887f"
  by code_simp

lemma squared_32:
  "squarings 16 0x7ad6d48744a04b3122b39cda6211a4c84d5022bca1e7e55eb3f855862aeb887f =
     0x4d86bdd9e7c6a08713bbcae88abd629010cf9e67e62d493b8f208b842207779e"
  by code_simp

lemma squared_48:
  "squarings 16 0x4d86bdd9e7c6a08713bbcae88abd629010cf9e67e62d493b8f208b842207779e =
     0x63ddc0b43cbe0701844b6915879685d43dd238bf6705d332d80329b852c57d74"
  by code_simp

lemma squared_64:
  "squarings 16 0x63ddc0b43cbe0701844b6915879685d43dd238bf6705d332d80329b852c57d74 =
     0xb01de529f7e054e931168c8203ba71a55dad6d5bbde97d76efce0f549e73b02f"
  by code_simp

lemma squared_80:
  "squarings 16 0xb01de529f7e054e931168c8203ba71a55dad6d5bbde97d76efce0f549e73b02f =
     0xbf251d424c721004c7cbaead177abf5351eb523f132d712fca5006a086dc4d5c"
  by code_simp

lemma squared_96:
  "squarings 16 0xbf251d424c721004c7cbaead177abf5351eb523f132d712fca5006a086dc4d5c =
     0x37d71d5e0923494e6f7645a6205aacd2c97054aed470c8b8255079622992a20b"
  by code_simp

lemma squared_112:
  "squarings 16 0x37d71d5e0923494e6f7645a6205aacd2c97054aed470c8b8255079622992a20b =
     0x167bd92d655c1bfc2ae07075cafd160d4ca2976ed0d52441e41e23097e003dd"
  by code_simp

lemma squared_128:
  "squarings 16 0x167bd92d655c1bfc2ae07075cafd160d4ca2976ed0d52441e41e23097e003dd =
     0x76ea8a8d36dda03fe4b54d3dd35c37943d995f97ed76a16cf65d7686250aae9f"
  by code_simp

lemma squared_144:
  "squarings 16 0x76ea8a8d36dda03fe4b54d3dd35c37943d995f97ed76a16cf65d7686250aae9f =
     0x7d8c41d034f06d22701d71623c4623d8b7189d82bf533d2fd4f109a762048cab"
  by code_simp

lemma squared_160:
  "squarings 16 0x7d8c41d034f06d22701d71623c4623d8b7189d82bf533d2fd4f109a762048cab =
     0x3a475c9d41effc225d0b837dbb1c9b6796364916d576d3af71ec764a14aa34f0"
  by code_simp

lemma squared_176:
  "squarings 16 0x3a475c9d41effc225d0b837dbb1c9b6796364916d576d3af71ec764a14aa34f0 =
     0x60b3d6d11553b0aaed79b586e2321da59001ef5d23df528183853cb93a375eb9"
  by code_simp

lemma squared_192:
  "squarings 16 0x60b3d6d11553b0aaed79b586e2321da59001ef5d23df528183853cb93a375eb9 =
     0xf403580270108835637811332e71fe384e9bbfd8f1473906acef3cc273a4dff3"
  by code_simp

lemma squared:
  "inverse_at 128 0x76ea8a8d36dda03fe4b54d3dd35c37943d995f97ed76a16cf65d7686250aae9f"
  "inverse_at 192 0xf403580270108835637811332e71fe384e9bbfd8f1473906acef3cc273a4dff3"
proof -
  have s0: "inverse_at 0 0x100000000000000000000000000000000000000000000000000000000000000000000000000000000" by (simp add: inverse_at_def)
  note s1 = inverse_squarings [OF s0 squared_16, simplified]
  note s2 = inverse_squarings [OF s1 squared_32, simplified]
  note s3 = inverse_squarings [OF s2 squared_48, simplified]
  note s4 = inverse_squarings [OF s3 squared_64, simplified]
  note s5 = inverse_squarings [OF s4 squared_80, simplified]
  note s6 = inverse_squarings [OF s5 squared_96, simplified]
  note s7 = inverse_squarings [OF s6 squared_112, simplified]
  note s8 = inverse_squarings [OF s7 squared_128, simplified]
  note s9 = inverse_squarings [OF s8 squared_144, simplified]
  note s10 = inverse_squarings [OF s9 squared_160, simplified]
  note s11 = inverse_squarings [OF s10 squared_176, simplified]
  note s12 = inverse_squarings [OF s11 squared_192, simplified]
  show "inverse_at 128 0x76ea8a8d36dda03fe4b54d3dd35c37943d995f97ed76a16cf65d7686250aae9f" by (rule s8)
  show "inverse_at 192 0xf403580270108835637811332e71fe384e9bbfd8f1473906acef3cc273a4dff3" by (rule s12)
qed

lemma jumps:
  "divided (divided 0x76ea8a8d36dda03fe4b54d3dd35c37943d995f97ed76a16cf65d7686250aae9f) mod modulus = int (val jump128)"
  "divided (divided 0xf403580270108835637811332e71fe384e9bbfd8f1473906acef3cc273a4dff3) mod modulus = int (val jump192)"
  by (simp_all add: jump128_def jump192_def divided_def modulus_eq drop_bit_eq_div push_bit_eq_mult)

subsection \<open>Copies\<close>

lemma steps_val:
  assumes "mwc_ok s"
  shows "modulus dvd (2 ^ 64) ^ n * int (val ((mwc_step ^^ n) s)) - int (val s)"
proof (induction n)
  case (Suc n)
  define t where "t = (mwc_step ^^ n) s"
  have "length t = 4" using mwc_steps_ok [OF assms, of n] by (simp add: t_def mwc_ok_def)
  then have "2 ^ 64 * val (mwc_step t) = val t + unat (t ! 0) * val mwc256_mod" using mwc_step_val by blast
  then have "int (2 ^ 64 * val (mwc_step t)) = int (val t + unat (t ! 0) * val mwc256_mod)" by (simp only:)
  then have "2 ^ 64 * int (val (mwc_step t)) - int (val t) = int (unat (t ! 0)) * modulus" by (simp add: modulus_def)
  then have "modulus dvd (2 ^ 64) ^ n * (2 ^ 64 * int (val (mwc_step t)) - int (val t))" by simp
  then have "modulus dvd (2 ^ 64) ^ Suc n * int (val (mwc_step t)) - (2 ^ 64) ^ n * int (val t)"
    by (simp only: right_diff_distrib power_Suc2 mult.assoc)
  then show ?case using Suc.IH by (simp add: t_def dvd_diff_trans)
qed simp

text \<open>A jump by a constant that is the inverse is the same as all the steps.\<close>

lemma jump_is_steps:
  assumes "mwc_ok s" and j: "length j = 5" "coprime (val j) (val mwc256_mod)"
    and x: "inverse_at k x" "divided (divided x) mod modulus = int (val j)"
  shows "mwc_jump j s = Some ((mwc_step ^^ (2 ^ k)) s)"
proof -
  define B :: int where "B = (2 ^ 64) ^ (2 ^ k)"
  define z where "z = (mwc_step ^^ (2 ^ k)) s"
  have z: "mwc_ok z" using assms(1) by (simp add: z_def mwc_steps_ok)
  obtain c where c: "mwc_jump j s = Some c" "mwc_ok c" "val c = (val s * val j) mod val mwc256_mod"
    using mwc_jump_val [OF assms(1) j] by blast
  have "modulus dvd divided (divided x) - int (val j)" using x(2) by (metis mod_eq_dvd_iff mod_mod_trivial)
  then have "modulus dvd 2 ^ 384 * divided (divided x) - 2 ^ 384 * int (val j)" by (rule modulus_cancel [THEN iffD2])
  moreover have "modulus dvd x - 2 ^ 384 * divided (divided x)"
    using divided_twice_mod [of x] by (simp only: dvd_diff_commute)
  ultimately have "modulus dvd x - 2 ^ 384 * int (val j)" using dvd_diff_trans by blast
  then have "modulus dvd B * (x - 2 ^ 384 * int (val j))" by simp
  moreover have "modulus dvd B * x - 2 ^ 384" using x(1) by (simp only: inverse_at_def B_def)
  ultimately have "modulus dvd (B * x - 2 ^ 384) - B * (x - 2 ^ 384 * int (val j))" by (rule dvd_diff [rotated])
  moreover have "(B * x - 2 ^ 384) - B * (x - 2 ^ 384 * int (val j)) = 2 ^ 384 * (B * int (val j)) - 2 ^ 384 * 1"
    by algebra
  ultimately have "modulus dvd 2 ^ 384 * (B * int (val j)) - 2 ^ 384 * 1" by (simp only:)
  then have J: "modulus dvd B * int (val j) - 1" by (rule modulus_cancel [THEN iffD1])
  have "int (val c) mod modulus = (int (val s) * int (val j)) mod modulus"
    by (simp add: c(3) modulus_def zmod_int)
  then have "modulus dvd int (val c) - int (val s) * int (val j)" by (simp only: mod_eq_dvd_iff)
  then have "modulus dvd B * (int (val c) - int (val s) * int (val j)) + int (val s) * (B * int (val j) - 1)"
    using J by simp
  then have 1: "modulus dvd B * int (val c) - int (val s)" by (simp add: algebra_simps)
  have "modulus dvd B * int (val z) - int (val s)" using steps_val [OF assms(1), of "2 ^ k"] by (simp only: B_def z_def)
  then have "modulus dvd B * int (val c) - B * int (val z)" using 1 by (metis dvd_diff_commute dvd_diff_trans)
  moreover have "B = 2 ^ (64 * 2 ^ k)" by (simp only: B_def power_mult)
  ultimately have "modulus dvd int (val c) - int (val z)" by (simp only: modulus_cancel)
  then have "int (val c) mod modulus = int (val z) mod modulus" by (simp only: mod_eq_dvd_iff)
  then have "val c mod val mwc256_mod = val z mod val mwc256_mod" by (simp only: modulus_def zmod_int [symmetric] of_nat_eq_iff)
  then have "c = z" using mwc_ok_inj c(2) z by blast
  then show ?thesis using c(1) by (simp add: z_def)
qed

text \<open>
  C30: The copy that \<open>clone128\<close> makes is \<open>2 ^ 128\<close> steps ahead, and that of \<open>clone192\<close> \<open>2 ^ 192\<close> steps: the constants
  of the code are right, and its multiplication of long numbers returns.
\<close>

theorem mwc_clones_jump:
  assumes "mwc_ok s"
  shows "clone128 s = Some ((mwc_step ^^ (2 ^ 128)) s) \<and> clone192 s = Some ((mwc_step ^^ (2 ^ 192)) s)"
proof
  show "clone128 s = Some ((mwc_step ^^ (2 ^ 128)) s)" unfolding clone128_def
    by (rule jump_is_steps [OF assms jump_facts(1,2) squared(1) jumps(1)])
  show "clone192 s = Some ((mwc_step ^^ (2 ^ 192)) s)" unfolding clone192_def
    by (rule jump_is_steps [OF assms jump_facts(3,4) squared(2) jumps(2)])
qed

theorem mwc_clones_jump_witness:
  "clone128 [1, 2, 3, 4] = Some ((mwc_step ^^ (2 ^ 128)) [1, 2, 3, 4]) \<and>
   clone192 [1, 2, 3, 4] = Some ((mwc_step ^^ (2 ^ 192)) [1, 2, 3, 4])"
proof -
  have "mwc_ok [1, 2, 3, 4]" by (simp add: mwc_ok_def mwc256_mod_def MWC_A3_def)
  then show ?thesis using mwc_clones_jump by blast
qed

end
