(* ===== verification/StringDistance.thy ===== *)
theory StringDistance
  imports Prelude
begin

section \<open>Distance of strings (ase/levenshtein.cc)\<close>

text \<open>
  The costs are integers here, for which \<open>float\<close> is exact up to \<open>2 ^ 24\<close>; the program calls the function with the
  default costs, which are all 1.  Strings are lists of bytes; the pointers \<open>a\<close>, \<open>b\<close> with the lengths \<open>n\<close>, \<open>m\<close> are
  the lists that are left and the lengths that are used of them.  The three rows of the matrix are three lists that
  change their roles after each round.
\<close>

subsection \<open>Restricted transpositions\<close>

text \<open>The loop that removes the common prefix, and the one that removes the common suffix.\<close>

fun skip_prefix :: "u8 list \<Rightarrow> u8 list \<Rightarrow> u8 list \<times> u8 list" where
  "skip_prefix (x # a) (y # b) = (if x = y then skip_prefix a b else (x # a, y # b))"
| "skip_prefix a b = (a, b)"

fun skip_suffix :: "u8 list \<Rightarrow> u8 list \<Rightarrow> nat \<Rightarrow> nat \<Rightarrow> nat \<times> nat" where
  "skip_suffix a b (Suc n) (Suc m) = (if a ! n = b ! m then skip_suffix a b n m else (Suc n, Suc m))"
| "skip_suffix a b n m = (n, m)"

definition min3 :: "int \<Rightarrow> int \<Rightarrow> int \<Rightarrow> int" where
  "min3 a b c = min a (min b c)"

definition restricted_cell ::
  "int \<Rightarrow> int \<Rightarrow> int \<Rightarrow> int \<Rightarrow> u8 list \<Rightarrow> u8 list \<Rightarrow> int list \<Rightarrow> int list \<Rightarrow> nat \<Rightarrow> nat \<Rightarrow> int list \<Rightarrow> int list" where
  "restricted_cell ci cd cs ct a b row2 row1 i j row0 =
     (let ue = a ! (i - 1) \<noteq> b ! (j - 1);
          row0 = row0[j := min3 (row1 ! j + cd) (row0 ! (j - 1) + ci) (row1 ! (j - 1) + cs * of_bool ue)] in
      if ue \<and> i > 1 \<and> j > 1 \<and> a ! (i - 1) = b ! (j - 2) \<and> a ! (i - 2) = b ! (j - 1)
      then row0[j := min (row0 ! j) (row2 ! (j - 2) + ct)] else row0)"

definition restricted_row ::
  "int \<Rightarrow> int \<Rightarrow> int \<Rightarrow> int \<Rightarrow> u8 list \<Rightarrow> u8 list \<Rightarrow> nat \<Rightarrow> nat \<Rightarrow> int list \<times> int list \<times> int list \<Rightarrow> int list \<times> int list \<times> int list" where
  "restricted_row ci cd cs ct a b m i = (\<lambda>(row2, row1, row0).
     let row0 = row0[0 := int i * cd];
         row0 = fold (restricted_cell ci cd cs ct a b row2 row1 i) [1..<m + 1] row0 in
     (row1, row0, row2))"

definition restricted_matrix :: "int \<Rightarrow> int \<Rightarrow> int \<Rightarrow> int \<Rightarrow> u8 list \<Rightarrow> u8 list \<Rightarrow> nat \<Rightarrow> nat \<Rightarrow> int" where
  "restricted_matrix ci cd cs ct a b n m =
     (let row2 = replicate (m + 1) 0; row0 = replicate (m + 1) 0; row1 = map (\<lambda>j. int j * ci) [0..<m + 1];
          (row2, row1, row0) = fold (restricted_row ci cd cs ct a b m) [1..<n + 1] (row2, row1, row0) in
      row1 ! m)"

definition restricted_ordered :: "u8 list \<Rightarrow> u8 list \<Rightarrow> int \<Rightarrow> int \<Rightarrow> int \<Rightarrow> int \<Rightarrow> int" where
  "restricted_ordered source target ci cd cs ct =
     (let (a, b) = skip_prefix source target; (n, m) = skip_suffix a b (length a) (length b) in
      if n = 0 then int m * ci else if m = 0 then int n * cd else restricted_matrix ci cd cs ct a b n m)"

text \<open>The call with swapped strings happens once, as the strings are in order then.\<close>

definition damerau_levenshtein_restricted :: "u8 list \<Rightarrow> u8 list \<Rightarrow> int \<Rightarrow> int \<Rightarrow> int \<Rightarrow> int \<Rightarrow> int" where
  "damerau_levenshtein_restricted source target ci cd cs ct =
     (if length target > length source then restricted_ordered target source cd ci cs ct
      else restricted_ordered source target ci cd cs ct)"

subsection \<open>What a distance is\<close>

text \<open>
  An alignment is a list of edits.  \<open>Swap x us y vs\<close> exchanges \<open>x\<close> and \<open>y\<close> and replaces what is between them, \<open>us\<close>, by
  \<open>vs\<close>; the restricted distance admits it for neighbours only.  Nothing is edited twice.
\<close>

datatype edit = Change u8 u8 | Insert u8 | Delete u8 | Swap u8 "u8 list" u8 "u8 list"

fun from_edit :: "edit \<Rightarrow> u8 list" where
  "from_edit (Change x y) = [x]" | "from_edit (Insert y) = []" | "from_edit (Delete x) = [x]"
| "from_edit (Swap x us y vs) = x # us @ [y]"

fun to_edit :: "edit \<Rightarrow> u8 list" where
  "to_edit (Change x y) = [y]" | "to_edit (Insert y) = [y]" | "to_edit (Delete x) = []"
| "to_edit (Swap x us y vs) = y # vs @ [x]"

fun admitted :: "bool \<Rightarrow> edit \<Rightarrow> bool" where
  "admitted wide (Swap x us y vs) = (wide \<or> us = [] \<and> vs = [])" | "admitted wide e = True"

fun edit_cost :: "int \<Rightarrow> int \<Rightarrow> int \<Rightarrow> int \<Rightarrow> edit \<Rightarrow> int" where
  "edit_cost ci cd cs ct (Change x y) = (if x = y then 0 else cs)" | "edit_cost ci cd cs ct (Insert y) = ci"
| "edit_cost ci cd cs ct (Delete x) = cd"
| "edit_cost ci cd cs ct (Swap x us y vs) = ct + int (length us) * cd + int (length vs) * ci"

definition aligns :: "bool \<Rightarrow> edit list \<Rightarrow> u8 list \<Rightarrow> u8 list \<Rightarrow> bool" where
  "aligns wide es s t \<longleftrightarrow> list_all (admitted wide) es \<and> concat (map from_edit es) = s \<and> concat (map to_edit es) = t"

definition align_cost :: "int \<Rightarrow> int \<Rightarrow> int \<Rightarrow> int \<Rightarrow> edit list \<Rightarrow> int" where
  "align_cost ci cd cs ct es = sum_list (map (edit_cost ci cd cs ct) es)"

definition least_cost :: "bool \<Rightarrow> int \<Rightarrow> int \<Rightarrow> int \<Rightarrow> int \<Rightarrow> u8 list \<Rightarrow> u8 list \<Rightarrow> int \<Rightarrow> bool" where
  "least_cost wide ci cd cs ct s t d \<longleftrightarrow>
     (\<exists>es. aligns wide es s t \<and> align_cost ci cd cs ct es = d) \<and> (\<forall>es. aligns wide es s t \<longrightarrow> d \<le> align_cost ci cd cs ct es)"

lemma aligns_Nil [simp]: "aligns w [] s t \<longleftrightarrow> s = [] \<and> t = []"
  by (auto simp: aligns_def)

lemma aligns_Cons [simp]:
  "aligns w (e # es) s t \<longleftrightarrow> admitted w e \<and> (\<exists>s' t'. s = from_edit e @ s' \<and> t = to_edit e @ t' \<and> aligns w es s' t')"
  by (auto simp: aligns_def)

lemma aligns_append: "aligns w es s t \<Longrightarrow> aligns w fs s' t' \<Longrightarrow> aligns w (es @ fs) (s @ s') (t @ t')"
  by (auto simp: aligns_def)

lemma aligns_snoc:
  "aligns w (es @ [e]) s t \<longleftrightarrow> admitted w e \<and> (\<exists>s' t'. s = s' @ from_edit e \<and> t = t' @ to_edit e \<and> aligns w es s' t')"
  by (auto simp: aligns_def)

lemma align_cost_simps [simp]:
  "align_cost ci cd cs ct [] = 0"
  "align_cost ci cd cs ct (e # es) = edit_cost ci cd cs ct e + align_cost ci cd cs ct es"
  "align_cost ci cd cs ct (es @ fs) = align_cost ci cd cs ct es + align_cost ci cd cs ct fs"
  by (simp_all add: align_cost_def)

lemma aligns_deletes [simp]: "aligns w (map Delete us) s t \<longleftrightarrow> s = us \<and> t = []"
  and aligns_inserts [simp]: "aligns w (map Insert vs) s t \<longleftrightarrow> s = [] \<and> t = vs"
  by (induction us arbitrary: s; auto) (induction vs arbitrary: t; auto)

lemma align_cost_moves [simp]:
  "align_cost ci cd cs ct (map Delete us) = int (length us) * cd" "align_cost ci cd cs ct (map Insert vs) = int (length vs) * ci"
  by (induction us; simp add: algebra_simps) (induction vs; simp add: algebra_simps)

text \<open>Reading an alignment from the target to the source, and from its end.\<close>

fun turn_edit :: "edit \<Rightarrow> edit" where
  "turn_edit (Change x y) = Change y x" | "turn_edit (Insert y) = Delete y" | "turn_edit (Delete x) = Insert x"
| "turn_edit (Swap x us y vs) = Swap y vs x us"

fun flip_edit :: "edit \<Rightarrow> edit" where
  "flip_edit (Swap x us y vs) = Swap y (rev us) x (rev vs)" | "flip_edit e = e"

lemma turn_edit [simp]: "from_edit (turn_edit e) = to_edit e" "to_edit (turn_edit e) = from_edit e"
  "edit_cost cd ci cs ct (turn_edit e) = edit_cost ci cd cs ct e" "admitted w (turn_edit e) = admitted w e"
  by (cases e; auto)+

lemma flip_edit [simp]: "from_edit (flip_edit e) = rev (from_edit e)" "to_edit (flip_edit e) = rev (to_edit e)"
  "edit_cost ci cd cs ct (flip_edit e) = edit_cost ci cd cs ct e" "admitted w (flip_edit e) = admitted w e"
  by (cases e; simp)+

lemma turn_alignment: "aligns w (map turn_edit es) t s \<longleftrightarrow> aligns w es s t"
  "align_cost cd ci cs ct (map turn_edit es) = align_cost ci cd cs ct es"
  by (auto simp: aligns_def align_cost_def comp_def list_all_iff)

lemma flip_alignment: "aligns w es s t \<Longrightarrow> aligns w (rev (map flip_edit es)) (rev s) (rev t)"
  "align_cost ci cd cs ct (rev (map flip_edit es)) = align_cost ci cd cs ct es"
  by (auto simp: aligns_def align_cost_def comp_def rev_concat rev_map sum_list_rev list_all_iff simp flip: rev_map)

lemma least_cost_turn: "least_cost w cd ci cs ct t s d \<longleftrightarrow> least_cost w ci cd cs ct s t d"
proof -
  have "least_cost w ci cd cs ct s t d" if "least_cost w cd ci cs ct t s d" for ci cd s t
    using that turn_alignment unfolding least_cost_def by metis
  then show ?thesis by blast
qed

lemma least_cost_flip: "least_cost w ci cd cs ct (rev s) (rev t) d \<longleftrightarrow> least_cost w ci cd cs ct s t d"
proof -
  have "least_cost w ci cd cs ct (rev s) (rev t) d" if "least_cost w ci cd cs ct s t d" for s t
    using that flip_alignment unfolding least_cost_def by (metis rev_rev_ident)
  then show ?thesis by (metis rev_rev_ident)
qed

text \<open>Taking a first letter away costs at most one deletion or insertion; equal first letters cost nothing.\<close>

lemma drop_first_to:
  assumes "aligns w es s (c # t)" and "0 \<le> ci" "0 \<le> cd" "0 \<le> cs" "0 \<le> ct"
  shows "\<exists>fs. aligns w fs s t \<and> align_cost ci cd cs ct fs \<le> align_cost ci cd cs ct es + cd"
  using assms(1)
proof (induction es arbitrary: s)
  case (Cons e es)
  show ?case
  proof (cases e)
    case (Change x y)
    then show ?thesis using Cons.prems assms by (intro exI [of _ "Delete x # es"]) auto
  next
    case (Insert y)
    then show ?thesis using Cons.prems assms by (intro exI [of _ es]) auto
  next
    case (Delete x)
    then obtain s' where s: "s = x # s'" "aligns w es s' (c # t)" using Cons.prems by auto
    from Cons.IH [OF s(2)] obtain fs where "aligns w fs s' t" "align_cost ci cd cs ct fs \<le> align_cost ci cd cs ct es + cd" by blast
    then show ?thesis using Delete s by (intro exI [of _ "Delete x # fs"]) auto
  next
    case (Swap x us y vs)
    then obtain s' t' where s: "s = x # us @ y # s'" "t = vs @ x # t'" "aligns w es s' t'" using Cons.prems by auto
    have "aligns w (map Insert vs @ Change x x # map Delete us @ Delete y # es) ([] @ x # us @ y # s') (vs @ x # t')"
      by (rule aligns_append) (use s(3) aligns_append [of w "map Delete us" us "[]" "Delete y # es" "y # s'" t'] in auto)
    then show ?thesis using s(1,2) Swap assms by (intro exI [of _ "map Insert vs @ Change x x # map Delete us @ Delete y # es"]) auto
  qed
qed simp

lemma drop_first_from:
  assumes "aligns w es (c # s) t" and "0 \<le> ci" "0 \<le> cd" "0 \<le> cs" "0 \<le> ct"
  shows "\<exists>fs. aligns w fs s t \<and> align_cost ci cd cs ct fs \<le> align_cost ci cd cs ct es + ci"
proof -
  have "aligns w (map turn_edit es) t (c # s)" using assms(1) by (simp add: turn_alignment)
  from drop_first_to [OF this assms(3,2,4,5)] obtain fs where
    "aligns w fs t s" "align_cost cd ci cs ct fs \<le> align_cost ci cd cs ct es + ci" by (auto simp: turn_alignment)
  then show ?thesis using turn_alignment(2) [of ci cd cs ct fs] by (intro exI [of _ "map turn_edit fs"]) (simp add: turn_alignment(1))
qed

lemma drop_first_both:
  assumes "aligns w es (c # s) (c # t)" and "0 \<le> ci" "0 \<le> cd" "0 \<le> cs" "0 \<le> ct"
  shows "\<exists>fs. aligns w fs s t \<and> align_cost ci cd cs ct fs \<le> align_cost ci cd cs ct es"
proof (cases es)
  case (Cons e es')
  show ?thesis
  proof (cases e)
    case (Change x y)
    then show ?thesis using assms Cons by (intro exI [of _ es']) auto
  next
    case (Insert y)
    then have "aligns w es' (c # s) t" using assms Cons by auto
    from drop_first_from [OF this assms(2-)] show ?thesis using Cons Insert by auto
  next
    case (Delete x)
    then have "aligns w es' s (c # t)" using assms Cons by auto
    from drop_first_to [OF this assms(2-)] show ?thesis using Cons Delete by auto
  next
    case (Swap x us y vs)
    then obtain s' t' where s: "x = c" "y = c" "s = us @ c # s'" "t = vs @ c # t'" "aligns w es' s' t'" using assms Cons by auto
    have "aligns w (map Delete us @ map Insert vs @ Change c c # es') (us @ [] @ c # s') ([] @ vs @ c # t')"
      by (intro aligns_append) (use s(5) in auto)
    then show ?thesis using s Swap Cons assms by (intro exI [of _ "map Delete us @ map Insert vs @ Change c c # es'"]) auto
  qed
qed (use assms in simp)

lemma least_cost_same_first:
  assumes "least_cost w ci cd cs ct s t d" and "0 \<le> ci" "0 \<le> cd" "0 \<le> cs" "0 \<le> ct"
  shows "least_cost w ci cd cs ct (c # s) (c # t) d"
  unfolding least_cost_def
proof (intro conjI allI impI)
  from assms(1) obtain es where "aligns w es s t" "align_cost ci cd cs ct es = d" by (auto simp: least_cost_def)
  then show "\<exists>es. aligns w es (c # s) (c # t) \<and> align_cost ci cd cs ct es = d"
    by (intro exI [of _ "Change c c # es"]) auto
  fix es assume "aligns w es (c # s) (c # t)"
  from drop_first_both [OF this assms(2-)] assms(1) show "d \<le> align_cost ci cd cs ct es"
    by (force simp: least_cost_def)
qed

lemma least_cost_same_last:
  assumes "least_cost w ci cd cs ct s t d" and "0 \<le> ci" "0 \<le> cd" "0 \<le> cs" "0 \<le> ct"
  shows "least_cost w ci cd cs ct (s @ [c]) (t @ [c]) d"
  using least_cost_same_first [of w ci cd cs ct "rev s" "rev t" d c] assms
  by (simp add: least_cost_flip flip: least_cost_flip [of w ci cd cs ct "s @ [c]"])

lemma skip_prefix_least:
  assumes "skip_prefix s t = (a, b)" and "least_cost w ci cd cs ct a b d" and "0 \<le> ci" "0 \<le> cd" "0 \<le> cs" "0 \<le> ct"
  shows "least_cost w ci cd cs ct s t d"
  using assms by (induction s t rule: skip_prefix.induct) (auto split: if_splits intro: least_cost_same_first)

lemma skip_suffix_least:
  assumes "skip_suffix a b n m = (n', m')" and "n \<le> length a" "m \<le> length b"
    and "least_cost w ci cd cs ct (take n' a) (take m' b) d" and "0 \<le> ci" "0 \<le> cd" "0 \<le> cs" "0 \<le> ct"
  shows "least_cost w ci cd cs ct (take n a) (take m b) d"
  using assms
proof (induction a b n m rule: skip_suffix.induct)
  case (1 a b n m)
  then show ?case
    by (auto simp: take_Suc_conv_app_nth split: if_splits intro: least_cost_same_last)
qed auto

lemma skip_suffix_le: "skip_suffix a b n m = (n', m') \<Longrightarrow> n' \<le> n \<and> m' \<le> m"
  by (induction a b n m rule: skip_suffix.induct) (auto split: if_splits)

subsection \<open>The matrix\<close>

text \<open>The entry of the matrix for the first \<open>i\<close> and \<open>j\<close> letters.\<close>

function osa :: "int \<Rightarrow> int \<Rightarrow> int \<Rightarrow> int \<Rightarrow> u8 list \<Rightarrow> u8 list \<Rightarrow> nat \<Rightarrow> nat \<Rightarrow> int" where
  "osa ci cd cs ct a b i j =
     (if i = 0 then int j * ci else if j = 0 then int i * cd
      else (let ue = a ! (i - 1) \<noteq> b ! (j - 1);
                d = min3 (osa ci cd cs ct a b (i - 1) j + cd) (osa ci cd cs ct a b i (j - 1) + ci)
                  (osa ci cd cs ct a b (i - 1) (j - 1) + cs * of_bool ue) in
            if ue \<and> i > 1 \<and> j > 1 \<and> a ! (i - 1) = b ! (j - 2) \<and> a ! (i - 2) = b ! (j - 1)
            then min d (osa ci cd cs ct a b (i - 2) (j - 2) + ct) else d))"
  by pat_completeness auto
termination by (relation "measure (\<lambda>(ci, cd, cs, ct, a, b, i, j). i + j)") auto

declare osa.simps [simp del]

lemma osa_0 [simp]: "osa ci cd cs ct a b 0 j = int j * ci" "osa ci cd cs ct a b i 0 = int i * cd"
  by (simp_all add: osa.simps)

lemma cells:
  assumes "row2 = map (osa ci cd cs ct a b (i - 2)) [0..<m + 1] \<or> i = 1" and "row1 = map (osa ci cd cs ct a b (i - 1)) [0..<m + 1]"
    and "0 < i" and "length row0 = m + 1" and "row0 ! 0 = int i * cd" and "k \<le> m"
  shows "length (fold (restricted_cell ci cd cs ct a b row2 row1 i) [1..<k + 1] row0) = m + 1 \<and>
    (\<forall>j \<le> k. fold (restricted_cell ci cd cs ct a b row2 row1 i) [1..<k + 1] row0 ! j = osa ci cd cs ct a b i j)"
  using assms(6)
proof (induction k)
  case (Suc k)
  define r where "r = fold (restricted_cell ci cd cs ct a b row2 row1 i) [1..<k + 1] row0"
  have r: "length r = m + 1" "\<forall>j \<le> k. r ! j = osa ci cd cs ct a b i j" using Suc by (simp_all add: r_def)
  have row1: "row1 ! Suc k = osa ci cd cs ct a b (i - 1) (Suc k)" "row1 ! k = osa ci cd cs ct a b (i - 1) k"
    using assms(2) Suc.prems by (simp_all del: upt_Suc)
  have row2: "row2 ! (Suc k - 2) = osa ci cd cs ct a b (i - 2) (Suc k - 2)" if "i > 1"
    using assms(1) that Suc.prems by (auto simp del: upt_Suc)
  have "restricted_cell ci cd cs ct a b row2 row1 i (Suc k) r = r[Suc k := osa ci cd cs ct a b i (Suc k)]"
    using assms(3) r Suc.prems row1 row2
    by (subst osa.simps) (auto simp: restricted_cell_def Let_def)
  moreover have "fold (restricted_cell ci cd cs ct a b row2 row1 i) [1..<Suc k + 1] row0 = restricted_cell ci cd cs ct a b row2 row1 i (Suc k) r"
    by (simp add: r_def)
  ultimately show ?case using r Suc.prems by (simp add: nth_list_update le_Suc_eq del: upt_Suc)
qed (use assms in simp)

lemma rows:
  "\<exists>row2 row1 row0. fold (restricted_row ci cd cs ct a b m) [1..<k + 1]
      (replicate (m + 1) 0, map (\<lambda>j. int j * ci) [0..<m + 1], replicate (m + 1) 0) = (row2, row1, row0) \<and>
    row1 = map (osa ci cd cs ct a b k) [0..<m + 1] \<and> (k = 0 \<or> row2 = map (osa ci cd cs ct a b (k - 1)) [0..<m + 1]) \<and>
    length row0 = m + 1 \<and> length row2 = m + 1"
proof (induction k)
  case (Suc k)
  then obtain row2 row1 row0 where IH: "fold (restricted_row ci cd cs ct a b m) [1..<k + 1]
      (replicate (m + 1) 0, map (\<lambda>j. int j * ci) [0..<m + 1], replicate (m + 1) 0) = (row2, row1, row0)"
    "row1 = map (osa ci cd cs ct a b k) [0..<m + 1]" "k = 0 \<or> row2 = map (osa ci cd cs ct a b (k - 1)) [0..<m + 1]"
    "length row0 = m + 1" "length row2 = m + 1" by (auto simp del: upt_Suc)
  define f where "f = fold (restricted_cell ci cd cs ct a b row2 row1 (Suc k)) [1..<m + 1] (row0[0 := int (Suc k) * cd])"
  have f: "length f = m + 1" "\<forall>j \<le> m. f ! j = osa ci cd cs ct a b (Suc k) j"
    using cells [of row2 ci cd cs ct a b "Suc k" m row1 "row0[0 := int (Suc k) * cd]" m] IH
    by (auto simp: f_def simp del: upt_Suc)
  then have "f = map (osa ci cd cs ct a b (Suc k)) [0..<m + 1]" by (intro nth_equalityI) (simp_all del: upt_Suc)
  moreover have "[1..<Suc k + 1] = [1..<k + 1] @ [Suc k]" by simp
  moreover have "restricted_row ci cd cs ct a b m (Suc k) (row2, row1, row0) = (row1, f, row2)"
    by (simp add: restricted_row_def Let_def f_def del: upt_Suc)
  ultimately show ?case using IH by (simp del: upt_Suc)
qed simp

lemma restricted_matrix_osa: "restricted_matrix ci cd cs ct a b n m = osa ci cd cs ct a b n m"
  using rows [of ci cd cs ct a b m n] by (auto simp: restricted_matrix_def Let_def simp del: upt_Suc)

text \<open>A least cost from those of shorter strings: the cases of the last edit.\<close>

lemma least_cost_inserts: "least_cost w ci cd cs ct [] t (int (length t) * ci)"
proof -
  have "align_cost ci cd cs ct es = int (length t) * ci" if "aligns w es [] t" for es
    using that
  proof (induction es arbitrary: t)
    case (Cons e es)
    then obtain y t' where "e = Insert y" "t = y # t'" "aligns w es [] t'" by (cases e) auto
    then show ?case using Cons.IH [of t'] by (simp add: algebra_simps)
  qed simp
  moreover have "aligns w (map Insert t) [] t" by simp
  ultimately show ?thesis unfolding least_cost_def by fastforce
qed

lemma least_cost_deletes: "least_cost w ci cd cs ct s [] (int (length s) * cd)"
  using least_cost_inserts [of w cd ci cs ct s] by (simp add: least_cost_turn)

lemma least_cost_snoc:
  assumes del: "least_cost w ci cd cs ct s (t @ [y]) d1" and ins: "least_cost w ci cd cs ct (s @ [x]) t d2"
    and chg: "least_cost w ci cd cs ct s t d3"
    and swap: "\<And>fs u us v vs. s = u @ y # us \<Longrightarrow> t = v @ x # vs \<Longrightarrow> w \<or> us = [] \<and> vs = [] \<Longrightarrow> aligns w fs u v \<Longrightarrow>
      r \<le> align_cost ci cd cs ct fs + ct + int (length us) * cd + int (length vs) * ci"
    and r: "r \<le> min3 (d1 + cd) (d2 + ci) (d3 + cs * of_bool (x \<noteq> y))"
    and made: "r = min3 (d1 + cd) (d2 + ci) (d3 + cs * of_bool (x \<noteq> y)) \<or> (\<exists>es. aligns w es (s @ [x]) (t @ [y]) \<and> align_cost ci cd cs ct es = r)"
  shows "least_cost w ci cd cs ct (s @ [x]) (t @ [y]) r"
proof -
  define d where "d = min3 (d1 + cd) (d2 + ci) (d3 + cs * of_bool (x \<noteq> y))"
  obtain e1 e2 e3 where "aligns w e1 s (t @ [y])" "align_cost ci cd cs ct e1 = d1" "aligns w e2 (s @ [x]) t"
    "align_cost ci cd cs ct e2 = d2" "aligns w e3 s t" "align_cost ci cd cs ct e3 = d3"
    using del ins chg unfolding least_cost_def by blast
  then have "aligns w (e1 @ [Delete x]) (s @ [x]) (t @ [y]) \<and> align_cost ci cd cs ct (e1 @ [Delete x]) = d1 + cd"
    "aligns w (e2 @ [Insert y]) (s @ [x]) (t @ [y]) \<and> align_cost ci cd cs ct (e2 @ [Insert y]) = d2 + ci"
    "aligns w (e3 @ [Change x y]) (s @ [x]) (t @ [y]) \<and> align_cost ci cd cs ct (e3 @ [Change x y]) = d3 + cs * of_bool (x \<noteq> y)"
    by (auto simp: aligns_snoc)
  moreover have "d = d1 + cd \<or> d = d2 + ci \<or> d = d3 + cs * of_bool (x \<noteq> y)" by (auto simp: d_def min3_def min_def)
  ultimately have "\<exists>es. aligns w es (s @ [x]) (t @ [y]) \<and> align_cost ci cd cs ct es = d" by blast
  then have "\<exists>es. aligns w es (s @ [x]) (t @ [y]) \<and> align_cost ci cd cs ct es = r" using made by (auto simp: d_def)
  moreover have "r \<le> align_cost ci cd cs ct es" if al: "aligns w es (s @ [x]) (t @ [y])" for es
  proof (cases es rule: rev_cases)
    case (snoc fs e)
    have le: "r \<le> d1 + cd" "r \<le> d2 + ci" "r \<le> d3 + cs * of_bool (x \<noteq> y)" using r by (auto simp: min3_def)
    show ?thesis
    proof (cases e)
      case (Change x' y')
      then have "aligns w fs s t" "x' = x" "y' = y" using al snoc by (auto simp: aligns_snoc)
      then have "d3 \<le> align_cost ci cd cs ct fs" using chg by (simp add: least_cost_def)
      then show ?thesis using le(3) snoc Change \<open>x' = x\<close> \<open>y' = y\<close> by (auto split: if_splits)
    next
      case (Insert y')
      then have "aligns w fs (s @ [x]) t" using al snoc by (auto simp: aligns_snoc)
      then have "d2 \<le> align_cost ci cd cs ct fs" using ins by (simp add: least_cost_def)
      then show ?thesis using le(2) snoc Insert by simp
    next
      case (Delete x')
      then have "aligns w fs s (t @ [y])" using al snoc by (auto simp: aligns_snoc)
      then have "d1 \<le> align_cost ci cd cs ct fs" using del by (simp add: least_cost_def)
      then show ?thesis using le(1) snoc Delete by simp
    next
      case (Swap y' us x' vs)
      then obtain u v where uv: "s @ [x] = u @ y' # us @ [x']" "t @ [y] = v @ x' # vs @ [y']" "aligns w fs u v" "w \<or> us = [] \<and> vs = []"
        using al snoc by (auto simp: aligns_snoc)
      then have "s @ [x] = (u @ y' # us) @ [x']" "t @ [y] = (v @ x' # vs) @ [y']" by simp_all
      then have "s = u @ y # us" "t = v @ x # vs" by (simp_all only: append1_eq_conv)
      from swap [OF this uv(4,3)] show ?thesis using snoc Swap by simp
    qed
  qed (use al in simp)
  ultimately show ?thesis by (simp add: least_cost_def)
qed

lemma osa_least:
  assumes "i \<le> length a" and "j \<le> length b" and "0 \<le> ct"
  shows "least_cost False ci cd cs ct (take i a) (take j b) (osa ci cd cs ct a b i j)"
  using assms(1,2)
proof (induction "i + j" arbitrary: i j rule: less_induct)
  case less
  show ?case
  proof (cases i; cases j)
    fix i' j' assume ij: "i = Suc i'" "j = Suc j'"
    define x y where "x = a ! i'" and "y = b ! j'"
    have ta: "take i a = take i' a @ [x]" and tb: "take j b = take j' b @ [y]"
      using less.prems by (simp_all add: ij x_def y_def take_Suc_conv_app_nth)
    define d where "d = min3 (osa ci cd cs ct a b i' j + cd) (osa ci cd cs ct a b i j' + ci)
      (osa ci cd cs ct a b i' j' + cs * of_bool (x \<noteq> y))"
    define fits where "fits \<longleftrightarrow> 0 < i' \<and> 0 < j' \<and> a ! (i' - 1) = y \<and> b ! (j' - 1) = x"
    have osa: "osa ci cd cs ct a b i j = (if x \<noteq> y \<and> fits then min d (osa ci cd cs ct a b (i' - 1) (j' - 1) + ct) else d)"
      by (subst osa.simps) (auto simp: ij x_def y_def Let_def d_def fits_def)
    have sw: "take i' a = take (i' - 1) a @ [y]" "take j' b = take (j' - 1) b @ [x]" if fits
      using that less.prems unfolding ij fits_def by (cases i'; cases j'; simp add: take_Suc_conv_app_nth)+
    note IH = less.hyps [of "i' - 1" "j' - 1"]
    have IH4: "least_cost False ci cd cs ct (take (i' - 1) a) (take (j' - 1) b) (osa ci cd cs ct a b (i' - 1) (j' - 1))"
      using IH less.prems ij by simp
    show ?thesis
      unfolding ta tb
    proof (rule least_cost_snoc [of False ci cd cs ct _ _ _ "osa ci cd cs ct a b i' j" _ "osa ci cd cs ct a b i j'" "osa ci cd cs ct a b i' j'"])
      fix fs u us v vs
      assume u: "take i' a = u @ y # us" "take j' b = v @ x # vs" "False \<or> us = [] \<and> vs = []" "aligns False fs u v"
      then have e: "take i' a = u @ [y]" "take j' b = v @ [x]" by simp_all
      then have fits: fits using less.prems by (cases i'; cases j') (auto simp: ij fits_def take_Suc_conv_app_nth)
      then have uv: "u = take (i' - 1) a" "v = take (j' - 1) b" using sw e by auto
      show "osa ci cd cs ct a b i j \<le> align_cost ci cd cs ct fs + ct + int (length us) * cd + int (length vs) * ci"
      proof (cases "x = y")
        case True
        have "aligns False (fs @ [Change x x]) (take i' a) (take j' b)" using u(4) e True by (simp add: aligns_snoc)
        then have "osa ci cd cs ct a b i' j' \<le> align_cost ci cd cs ct fs"
          using less.hyps [of i' j'] less.prems ij by (fastforce simp: least_cost_def)
        moreover have "osa ci cd cs ct a b i j \<le> osa ci cd cs ct a b i' j'" using True by (simp add: osa d_def min3_def)
        ultimately show ?thesis using u(3) assms(3) by simp
      next
        case False
        have "osa ci cd cs ct a b (i' - 1) (j' - 1) \<le> align_cost ci cd cs ct fs"
          using IH4 u(4) uv by (simp add: least_cost_def)
        then show ?thesis using u(3) False fits by (simp add: osa)
      qed
    next
      have "\<exists>es. aligns False es (take i' a @ [x]) (take j' b @ [y]) \<and> align_cost ci cd cs ct es = osa ci cd cs ct a b (i' - 1) (j' - 1) + ct" if fits
      proof -
        from IH4 obtain es where es: "aligns False es (take (i' - 1) a) (take (j' - 1) b)"
          "align_cost ci cd cs ct es = osa ci cd cs ct a b (i' - 1) (j' - 1)" by (auto simp: least_cost_def)
        then have "aligns False (es @ [Swap y [] x []]) (take i' a @ [x]) (take j' b @ [y])"
          unfolding sw [OF that] by (simp add: aligns_snoc)
        then show ?thesis using es(2) by (intro exI [of _ "es @ [Swap y [] x []]"]) simp
      qed
      then show "osa ci cd cs ct a b i j = min3 (osa ci cd cs ct a b i' j + cd) (osa ci cd cs ct a b i j' + ci)
          (osa ci cd cs ct a b i' j' + cs * of_bool (x \<noteq> y)) \<or>
        (\<exists>es. aligns False es (take i' a @ [x]) (take j' b @ [y]) \<and> align_cost ci cd cs ct es = osa ci cd cs ct a b i j)"
        unfolding osa d_def [symmetric] by (simp add: min_def)
    next
      show "osa ci cd cs ct a b i j \<le> min3 (osa ci cd cs ct a b i' j + cd) (osa ci cd cs ct a b i j' + ci)
          (osa ci cd cs ct a b i' j' + cs * of_bool (x \<noteq> y))"
        unfolding osa d_def [symmetric] by simp
    qed (use less.hyps [of i' j] less.hyps [of i j'] less.hyps [of i' j'] less.prems in \<open>simp_all add: ij flip: ta tb\<close>)
  qed (use least_cost_inserts [of False ci cd cs ct "take j b"] least_cost_deletes [of False ci cd cs ct "take i a"] less.prems
      in \<open>simp_all add: min_absorb2\<close>)
qed

text \<open>
  C32: The restricted distance is the least cost of an alignment of the two strings, in which letters are kept,
  changed, inserted, deleted or exchanged with their neighbour, each at its own cost; the removal of common ends, the
  exchange of the strings and the reuse of the rows do not change that.
\<close>

theorem restricted_distance_least:
  assumes "0 \<le> ci" "0 \<le> cd" "0 \<le> cs" "0 \<le> ct"
  shows "least_cost False ci cd cs ct source target (damerau_levenshtein_restricted source target ci cd cs ct)"
proof -
  have ordered: "least_cost False ci cd cs ct s t (restricted_ordered s t ci cd cs ct)"
    if "0 \<le> ci" "0 \<le> cd" "0 \<le> cs" "0 \<le> ct" for s t ci cd cs ct
  proof -
    obtain a b where ab: "skip_prefix s t = (a, b)" by fastforce
    obtain n m where nm: "skip_suffix a b (length a) (length b) = (n, m)" by fastforce
    have "restricted_ordered s t ci cd cs ct = osa ci cd cs ct a b n m"
      by (simp add: restricted_ordered_def ab nm restricted_matrix_osa)
    moreover have "least_cost False ci cd cs ct (take n a) (take m b) (osa ci cd cs ct a b n m)"
      using osa_least skip_suffix_le [OF nm] that by blast
    ultimately show ?thesis
      using skip_prefix_least [OF ab] skip_suffix_least [OF nm] that by simp
  qed
  then show ?thesis
    using assms ordered [of ci cd cs ct source target] ordered [of cd ci cs ct target source]
    by (simp add: damerau_levenshtein_restricted_def least_cost_turn [of False cd ci cs ct target source])
qed

theorem restricted_distance_least_witness:
  "damerau_levenshtein_restricted [65, 66, 67] [67, 65] 1 1 1 1 = 3 \<and>
   least_cost False 1 1 1 1 [65, 66, 67] [67, 65] (damerau_levenshtein_restricted [65, 66, 67] [67, 65] 1 1 1 1)"
proof
  show "damerau_levenshtein_restricted [65, 66, 67] [67, 65] 1 1 1 1 = 3" by code_simp
qed (rule restricted_distance_least; simp)

subsection \<open>Unrestricted transpositions\<close>

text \<open>The matrix is a vector; an access out of range reads and writes a static variable.\<close>

record L2DMatrix =
  v :: "int list"
  sa :: nat
  sb :: nat
  tmp :: int

definition new_matrix :: "nat \<Rightarrow> nat \<Rightarrow> L2DMatrix" where
  "new_matrix a b = \<lparr>v = replicate (a * b) 0, sa = a, sb = b, tmp = 0\<rparr>"

definition mat_get :: "L2DMatrix \<Rightarrow> nat \<Rightarrow> nat \<Rightarrow> int" where
  "mat_get C a b = (if \<not> a < sa C then tmp C else if \<not> b < sb C then tmp C else v C ! (a * sb C + b))"

definition mat_set :: "nat \<Rightarrow> nat \<Rightarrow> int \<Rightarrow> L2DMatrix \<Rightarrow> L2DMatrix" where
  "mat_set a b x C =
     (if \<not> a < sa C then C\<lparr>tmp := x\<rparr> else if \<not> b < sb C then C\<lparr>tmp := x\<rparr> else C\<lparr>v := (v C)[a * sb C + b := x]\<rparr>)"

definition unrestricted_cell ::
  "int \<Rightarrow> int \<Rightarrow> int \<Rightarrow> int \<Rightarrow> u8 list \<Rightarrow> u8 list \<Rightarrow> nat list \<Rightarrow> nat \<Rightarrow> nat \<Rightarrow> L2DMatrix \<times> nat \<Rightarrow> L2DMatrix \<times> nat" where
  "unrestricted_cell ci cd cs ct p s CP i j = (\<lambda>(C, CS).
     let d = if p ! (i - 1) = s ! (j - 1) then 0 else cs;
         C = mat_set i j (min (mat_get C (i - 1) j + ci) (mat_get C i (j - 1) + cd)) C;
         C = mat_set i j (min (mat_get C i j) (mat_get C (i - 1) (j - 1) + d)) C;
         i' = CP ! unat (s ! (j - 1)); j' = CS;
         C = if i' > 0 \<and> j' > 0
             then mat_set i j (min (mat_get C i j)
               (mat_get C (i' - 1) (j' - 1) + (int i - int i') - 1 + (int j - int j') - 1 + ct)) C
             else C in
     (C, if p ! (i - 1) = s ! (j - 1) then j else CS))"

definition unrestricted_row ::
  "int \<Rightarrow> int \<Rightarrow> int \<Rightarrow> int \<Rightarrow> u8 list \<Rightarrow> u8 list \<Rightarrow> nat \<Rightarrow> L2DMatrix \<times> nat list \<Rightarrow> L2DMatrix \<times> nat list" where
  "unrestricted_row ci cd cs ct p s i = (\<lambda>(C, CP).
     (fst (fold (unrestricted_cell ci cd cs ct p s CP i) [1..<length s + 1] (C, 0)), CP[unat (p ! (i - 1)) := i]))"

definition damerau_levenshtein_unrestricted :: "u8 list \<Rightarrow> u8 list \<Rightarrow> int \<Rightarrow> int \<Rightarrow> int \<Rightarrow> int \<Rightarrow> int" where
  "damerau_levenshtein_unrestricted p s ci cd cs ct =
     (let C = new_matrix (length p + 1) (length s + 1);
          CP = replicate 256 0;
          C = fold (\<lambda>i. mat_set i 0 (int i * ci)) [0..<length p + 1] C;
          C = fold (\<lambda>j. mat_set 0 j (int j * cd)) [0..<length s + 1] C;
          (C, CP) = fold (unrestricted_row ci cd cs ct p s) [1..<length p + 1] (C, CP) in
      mat_get C (length p) (length s))"

definition damerau_levenshtein_distance :: "u8 list \<Rightarrow> u8 list \<Rightarrow> int \<Rightarrow> int \<Rightarrow> int \<Rightarrow> int \<Rightarrow> int" where
  "damerau_levenshtein_distance source target ci cd cs ct =
     (let (a, b) = skip_prefix source target; (n, m) = skip_suffix a b (length a) (length b) in
      if n = 0 then int m else if m = 0 then int n
      else if m \<le> n then damerau_levenshtein_unrestricted (take n a) (take m b) ci cd cs ct
      else damerau_levenshtein_unrestricted (take m b) (take n a) cd ci cs ct)"

subsubsection \<open>The matrix as a recursion\<close>

fun last_occ :: "u8 list \<Rightarrow> u8 \<Rightarrow> nat \<Rightarrow> nat" where
  "last_occ p c 0 = 0"
| "last_occ p c (Suc n) = (if p ! n = c then Suc n else last_occ p c n)"

lemma last_occ_le: "last_occ p c n \<le> n"
  by (induction n) auto

lemma last_occ_hit: "0 < last_occ p c n \<Longrightarrow> p ! (last_occ p c n - 1) = c"
  by (induction n) (auto split: if_splits)

lemma last_occ_max: "k < n \<Longrightarrow> p ! k = c \<Longrightarrow> k < last_occ p c n"
  by (induction n) (auto simp: less_Suc_eq)

function dl :: "int \<Rightarrow> int \<Rightarrow> int \<Rightarrow> int \<Rightarrow> u8 list \<Rightarrow> u8 list \<Rightarrow> nat \<Rightarrow> nat \<Rightarrow> int" where
  "dl ci cd cs ct p s i j =
     (if i = 0 then int j * cd else if j = 0 then int i * ci
      else (let m = min3 (dl ci cd cs ct p s (i - 1) j + ci) (dl ci cd cs ct p s i (j - 1) + cd)
                  (dl ci cd cs ct p s (i - 1) (j - 1) + cs * of_bool (p ! (i - 1) \<noteq> s ! (j - 1)));
                i' = last_occ p (s ! (j - 1)) (i - 1); j' = last_occ s (p ! (i - 1)) (j - 1) in
            if i' > 0 \<and> j' > 0
            then min m (dl ci cd cs ct p s (i' - 1) (j' - 1) + (int i - int i') - 1 + (int j - int j') - 1 + ct) else m))"
  by pat_completeness auto
termination
proof (relation "measure (\<lambda>(ci, cd, cs, ct, p, s, i, j). i + j)", goal_cases)
  case (5 ci cd cs ct p s i j m i' j')
  then have "i' \<le> i - 1" "j' \<le> j - 1" using last_occ_le by blast+
  then have "(i' - 1) + (j' - 1) < i + j" using 5(1,2) by linarith
  then show ?case by simp
qed auto

declare dl.simps [simp del]

lemma dl_0 [simp]: "dl ci cd cs ct p s 0 j = int j * cd" "dl ci cd cs ct p s i 0 = int i * ci"
  by (simp_all add: dl.simps)

definition mat_ok :: "nat \<Rightarrow> nat \<Rightarrow> L2DMatrix \<Rightarrow> bool" where
  "mat_ok a b C \<longleftrightarrow> sa C = a \<and> sb C = b \<and> length (v C) = a * b"

lemma mat_index: "i < a \<Longrightarrow> j < b \<Longrightarrow> i * b + j < a * b" for i j a b :: nat
proof -
  assume "i < a" "j < b"
  then have "Suc i * b \<le> a * b" by (intro mult_le_mono1) simp
  then show ?thesis using \<open>j < b\<close> by simp
qed

lemma mat_set_ok [simp]: "mat_ok a b C \<Longrightarrow> mat_ok a b (mat_set i j x C)"
  by (simp add: mat_ok_def mat_set_def)

lemma mat_get_set:
  assumes "mat_ok a b C" and "i < a" "j < b" "k < a" "l < b"
  shows "mat_get (mat_set i j x C) k l = (if k = i \<and> l = j then x else mat_get C k l)"
proof -
  have "k * b + l = i * b + j \<longleftrightarrow> k = i \<and> l = j" using assms(3,5)
    by (metis add.commute div_mult_self1 div_less less_nat_zero_code mod_less mod_mult_self1 add_0)
  then show ?thesis using assms mat_index [OF assms(2,3)] by (auto simp: mat_ok_def mat_get_def mat_set_def nth_list_update)
qed

lemma mat_get_set':
  "mat_ok (a + 1) (b + 1) C \<Longrightarrow> i \<le> a \<Longrightarrow> j \<le> b \<Longrightarrow> k \<le> a \<Longrightarrow> l \<le> b \<Longrightarrow>
    mat_get (mat_set i j x C) k l = (if k = i \<and> l = j then x else mat_get C k l)"
  using mat_get_set [of "a + 1" "b + 1"] by simp

lemma unrestricted_cells:
  assumes C: "mat_ok (length p + 1) (length s + 1) C" and i: "0 < i" "i \<le> length p" and k: "k \<le> length s"
    and CP: "\<And>c. CP ! unat c = last_occ p c (i - 1)"
    and get: "\<And>x y. x \<le> length p \<Longrightarrow> y \<le> length s \<Longrightarrow> x < i \<or> y = 0 \<Longrightarrow> mat_get C x y = dl ci cd cs ct p s x y"
  shows "mat_ok (length p + 1) (length s + 1) (fst (fold (unrestricted_cell ci cd cs ct p s CP i) [1..<k + 1] (C, 0))) \<and>
    snd (fold (unrestricted_cell ci cd cs ct p s CP i) [1..<k + 1] (C, 0)) = last_occ s (p ! (i - 1)) k \<and>
    (\<forall>x y. x \<le> length p \<longrightarrow> y \<le> length s \<longrightarrow> x < i \<or> y = 0 \<or> x = i \<and> y \<le> k \<longrightarrow>
      mat_get (fst (fold (unrestricted_cell ci cd cs ct p s CP i) [1..<k + 1] (C, 0))) x y = dl ci cd cs ct p s x y)"
  using k
proof (induction k)
  case 0
  then show ?case using C get by auto
next
  case (Suc k)
  obtain D CS where f: "fold (unrestricted_cell ci cd cs ct p s CP i) [1..<k + 1] (C, 0) = (D, CS)" by fastforce
  from Suc.IH Suc.prems f have D: "mat_ok (length p + 1) (length s + 1) D" and CS: "CS = last_occ s (p ! (i - 1)) k"
    and g: "\<And>x y. x \<le> length p \<Longrightarrow> y \<le> length s \<Longrightarrow> x < i \<or> y = 0 \<or> x = i \<and> y \<le> k \<Longrightarrow> mat_get D x y = dl ci cd cs ct p s x y"
    by (auto simp del: dl_0 upt_Suc)
  define i' where "i' = last_occ p (s ! k) (i - 1)"
  have le: "i' \<le> i - 1" "CS \<le> k" by (simp_all add: i'_def CS last_occ_le)
  have step: "fold (unrestricted_cell ci cd cs ct p s CP i) [1..<Suc k + 1] (C, 0) = unrestricted_cell ci cd cs ct p s CP i (Suc k) (D, CS)"
    using f by simp
  have "\<exists>E. unrestricted_cell ci cd cs ct p s CP i (Suc k) (D, CS) = (E, last_occ s (p ! (i - 1)) (Suc k)) \<and>
      mat_ok (length p + 1) (length s + 1) E \<and>
      (\<forall>x y. x \<le> length p \<longrightarrow> y \<le> length s \<longrightarrow>
        mat_get E x y = (if x = i \<and> y = Suc k then dl ci cd cs ct p s i (Suc k) else mat_get D x y))"
  proof -
    define m where "m = min (dl ci cd cs ct p s (i - 1) (Suc k) + ci) (dl ci cd cs ct p s i k + cd)"
    define d where "d = (if p ! (i - 1) = s ! k then 0 else cs)"
    define E1 where "E1 = mat_set i (Suc k) m D"
    define E2 where "E2 = mat_set i (Suc k) (min m (dl ci cd cs ct p s (i - 1) k + d)) E1"
    have E1: "mat_ok (length p + 1) (length s + 1) E1" and E2: "mat_ok (length p + 1) (length s + 1) E2"
      using D by (simp_all add: E1_def E2_def)
    have g1: "mat_get E1 x y = (if x = i \<and> y = Suc k then m else mat_get D x y)" if "x \<le> length p" "y \<le> length s" for x y
      using mat_get_set [OF D] that i Suc.prems by (simp add: E1_def)
    have g2: "mat_get E2 x y = (if x = i \<and> y = Suc k then min m (dl ci cd cs ct p s (i - 1) k + d) else mat_get D x y)"
      if "x \<le> length p" "y \<le> length s" for x y
      using mat_get_set [OF E1] that i Suc.prems g1 by (simp add: E2_def)
    have m: "min (mat_get D (i - 1) (Suc k) + ci) (mat_get D i k + cd) = m" using g i Suc.prems by (simp add: m_def)
    have s1: "mat_get E1 i (Suc k) = m" "mat_get E1 (i - 1) k = dl ci cd cs ct p s (i - 1) k"
      using g1 g i Suc.prems by simp_all
    have s2: "mat_get E2 i (Suc k) = min m (dl ci cd cs ct p s (i - 1) k + d)"
      "mat_get E2 (i' - 1) (CS - 1) = dl ci cd cs ct p s (i' - 1) (CS - 1)"
    proof -
      have "i' - 1 < i" "i' - 1 \<le> length p" "CS - 1 \<le> length s" using le i Suc.prems by linarith+
      then show "mat_get E2 (i' - 1) (CS - 1) = dl ci cd cs ct p s (i' - 1) (CS - 1)" using g2 g by simp
    qed (use g2 i Suc.prems in simp)
    define E where "E = (if i' > 0 \<and> CS > 0
      then mat_set i (Suc k) (min (min m (dl ci cd cs ct p s (i - 1) k + d))
        (dl ci cd cs ct p s (i' - 1) (CS - 1) + (int i - int i') - 1 + (int (Suc k) - int CS) - 1 + ct)) E2 else E2)"
    have "unrestricted_cell ci cd cs ct p s CP i (Suc k) (D, CS) = (E, last_occ s (p ! (i - 1)) (Suc k))"
      unfolding unrestricted_cell_def Let_def prod.case diff_Suc_1 m E1_def [symmetric] d_def [symmetric] s1
        E2_def [symmetric] CP i'_def [symmetric] s2 E_def [symmetric]
      by (simp add: CS)
    moreover have "mat_ok (length p + 1) (length s + 1) E" using E2 by (simp add: E_def)
    moreover have "mat_get E x y = (if x = i \<and> y = Suc k then dl ci cd cs ct p s i (Suc k) else mat_get D x y)"
      if "x \<le> length p" "y \<le> length s" for x y
    proof -
      have "dl ci cd cs ct p s i (Suc k) = (if i' > 0 \<and> CS > 0 then min (min m (dl ci cd cs ct p s (i - 1) k + d))
          (dl ci cd cs ct p s (i' - 1) (CS - 1) + (int i - int i') - 1 + (int (Suc k) - int CS) - 1 + ct)
        else min m (dl ci cd cs ct p s (i - 1) k + d))"
        using i by (subst dl.simps) (simp add: Let_def CS i'_def m_def d_def min3_def min.assoc del: last_occ.simps)
      then show ?thesis using mat_get_set [OF E2] that i Suc.prems g2 by (simp add: E_def)
    qed
    ultimately show ?thesis by blast
  qed
  then show ?case unfolding step using g i by (auto simp: le_Suc_eq simp del: dl_0)
qed

lemma unrestricted_rows:
  assumes C: "mat_ok (length p + 1) (length s + 1) C" and CP: "CP = replicate 256 0" and n: "n \<le> length p"
    and get: "\<And>x y. x \<le> length p \<Longrightarrow> y \<le> length s \<Longrightarrow> x = 0 \<or> y = 0 \<Longrightarrow> mat_get C x y = dl ci cd cs ct p s x y"
  shows "mat_ok (length p + 1) (length s + 1) (fst (fold (unrestricted_row ci cd cs ct p s) [1..<n + 1] (C, CP))) \<and>
    length (snd (fold (unrestricted_row ci cd cs ct p s) [1..<n + 1] (C, CP))) = 256 \<and>
    (\<forall>c. snd (fold (unrestricted_row ci cd cs ct p s) [1..<n + 1] (C, CP)) ! unat c = last_occ p c n) \<and>
    (\<forall>x y. x \<le> length p \<longrightarrow> y \<le> length s \<longrightarrow> x \<le> n \<or> y = 0 \<longrightarrow>
      mat_get (fst (fold (unrestricted_row ci cd cs ct p s) [1..<n + 1] (C, CP))) x y = dl ci cd cs ct p s x y)"
  using n
proof (induction n)
  case 0
  have "replicate 256 0 ! unat c = (0 :: nat)" for c :: u8 using unat_u8_less [of c] by simp
  then show ?case using C get by (auto simp: CP)
next
  case (Suc n)
  obtain D P where f: "fold (unrestricted_row ci cd cs ct p s) [1..<n + 1] (C, CP) = (D, P)" by fastforce
  from Suc.IH Suc.prems f have D: "mat_ok (length p + 1) (length s + 1) D" "length P = 256"
    and P: "\<And>c. P ! unat c = last_occ p c n"
    and g: "\<And>x y. x \<le> length p \<Longrightarrow> y \<le> length s \<Longrightarrow> x \<le> n \<or> y = 0 \<Longrightarrow> mat_get D x y = dl ci cd cs ct p s x y"
    by (auto simp del: dl_0 upt_Suc)
  have "fold (unrestricted_row ci cd cs ct p s) [1..<Suc n + 1] (C, CP) =
      (fst (fold (unrestricted_cell ci cd cs ct p s P (Suc n)) [1..<length s + 1] (D, 0)), P[unat (p ! n) := Suc n])"
    using f by (simp add: unrestricted_row_def del: upt_Suc) (simp add: unrestricted_row_def)
  moreover have "P[unat (p ! n) := Suc n] ! unat c = last_occ p c (Suc n)" for c
    using D(2) P unat_u8_less [of "p ! n"] by (simp add: nth_list_update word_unat_eq_iff)
  moreover note unrestricted_cells [OF D(1) _ Suc.prems order.refl, of P ci cd cs ct]
  ultimately show ?case using P g D(2) by (auto simp: le_Suc_eq less_Suc_eq_le simp del: dl_0 last_occ.simps(2) upt_Suc)
qed

lemma unrestricted_dl: "damerau_levenshtein_unrestricted p s ci cd cs ct = dl ci cd cs ct p s (length p) (length s)"
proof -
  define C0 where "C0 = new_matrix (length p + 1) (length s + 1)"
  have C0: "mat_ok (length p + 1) (length s + 1) C0" by (simp add: C0_def new_matrix_def mat_ok_def)
  define C1 where "C1 n = fold (\<lambda>i. mat_set i 0 (int i * ci)) [0..<n] C0" for n
  have C1: "mat_ok (length p + 1) (length s + 1) (C1 n) \<and> (\<forall>x < n. mat_get (C1 n) x 0 = int x * ci)" if "n \<le> length p + 1" for n
    using that
  proof (induction n)
    case (Suc n)
    moreover have "C1 (Suc n) = mat_set n 0 (int n * ci) (C1 n)" by (simp add: C1_def)
    ultimately show ?case using mat_get_set' [of "length p" "length s" "C1 n"] by (auto simp: less_Suc_eq)
  qed (use C0 in \<open>simp add: C1_def\<close>)
  define C2 where "C2 n = fold (\<lambda>j. mat_set 0 j (int j * cd)) [0..<n] (C1 (length p + 1))" for n
  have C2: "mat_ok (length p + 1) (length s + 1) (C2 n) \<and> (\<forall>y < n. mat_get (C2 n) 0 y = int y * cd) \<and>
    (\<forall>x \<le> length p. mat_get (C2 n) x 0 = int x * ci)" if "n \<le> length s + 1" for n
    using that
  proof (induction n)
    case (Suc n)
    moreover have "C2 (Suc n) = mat_set 0 n (int n * cd) (C2 n)" by (simp add: C2_def)
    ultimately show ?case using mat_get_set' [of "length p" "length s" "C2 n"] by (auto simp: less_Suc_eq)
  qed (use C1 [of "length p + 1"] in \<open>simp add: C2_def less_Suc_eq_le\<close>)
  have "mat_get (C2 (length s + 1)) x y = dl ci cd cs ct p s x y" if "x \<le> length p" "y \<le> length s" "x = 0 \<or> y = 0" for x y
    using C2 [of "length s + 1"] that by auto
  from unrestricted_rows [OF _ refl order.refl this] C2 [of "length s + 1"]
  have "mat_get (fst (fold (unrestricted_row ci cd cs ct p s) [1..<length p + 1] (C2 (length s + 1), replicate 256 0)))
      (length p) (length s) = dl ci cd cs ct p s (length p) (length s)" by simp
  then show ?thesis
    unfolding damerau_levenshtein_unrestricted_def C2_def C1_def C0_def Let_def by (simp only: prod.case_eq_if)
qed

text \<open>With unit costs of insertions and deletions its entries are least costs.\<close>

lemma least_cost_grow:
  assumes "aligns w es u t" and "least_cost w 1 1 cs ct (u @ us) (t @ vs) e"
  shows "e \<le> align_cost 1 1 cs ct es + int (length us) + int (length vs)"
proof -
  have "aligns w (es @ map Delete us @ map Insert vs) (u @ us @ []) (t @ [] @ vs)"
    by (intro aligns_append assms(1)) simp_all
  then have "aligns w (es @ map Delete us @ map Insert vs) (u @ us) (t @ vs)" by (simp only: append_Nil append_Nil2)
  then have "e \<le> align_cost 1 1 cs ct (es @ map Delete us @ map Insert vs)" using assms(2) unfolding least_cost_def by blast
  then show ?thesis by simp
qed

lemma last_occ_split:
  assumes "n \<le> length p" and "0 < last_occ p c n"
  shows "take n p = take (last_occ p c n - 1) p @ c # drop (last_occ p c n) (take n p)"
proof -
  define k where "k = last_occ p c n - 1"
  have k: "last_occ p c n = Suc k" "Suc k \<le> n" using assms(2) last_occ_le [of p c n] by (simp_all add: k_def)
  have c: "p ! k = c" using last_occ_hit [OF assms(2)] by (simp add: k_def)
  have "take n p = take k (take n p) @ take n p ! k # drop (Suc k) (take n p)"
    by (rule id_take_nth_drop) (use k assms(1) in simp)
  then show ?thesis using k c by (simp add: min_absorb1)
qed

lemma dl_least:
  assumes "i \<le> length p" and "j \<le> length s"
  shows "least_cost True 1 1 cs ct (take i p) (take j s) (dl 1 1 cs ct p s i j)"
  using assms
proof (induction "i + j" arbitrary: i j rule: less_induct)
  case less
  show ?case
  proof (cases i; cases j)
    fix i' j' assume ij: "i = Suc i'" "j = Suc j'"
    define x y where "x = p ! i'" and "y = s ! j'"
    have tp: "take i p = take i' p @ [x]" and ts: "take j s = take j' s @ [y]"
      using less.prems by (simp_all add: ij x_def y_def take_Suc_conv_app_nth)
    define d where "d = min3 (dl 1 1 cs ct p s i' j + 1) (dl 1 1 cs ct p s i j' + 1) (dl 1 1 cs ct p s i' j' + cs * of_bool (x \<noteq> y))"
    define k l where "k = last_occ p y i'" and "l = last_occ s x j'"
    define D where "D = dl 1 1 cs ct p s (k - 1) (l - 1)"
    have kl: "k \<le> i'" "l \<le> j'" by (simp_all add: k_def l_def last_occ_le)
    have dl: "dl 1 1 cs ct p s i j = (if k > 0 \<and> l > 0 then min d (D + int (i' - k) + int (j' - l) + ct) else d)"
    proof -
      have "dl 1 1 cs ct p s i j = (if k > 0 \<and> l > 0 then min d (D + (int i - int k) - 1 + (int j - int l) - 1 + ct) else d)"
        by (subst dl.simps) (simp add: ij x_def y_def Let_def d_def k_def l_def D_def)
      moreover have "D + (int i - int k) - 1 + (int j - int l) - 1 + ct = D + int (i' - k) + int (j' - l) + ct"
        using kl by (simp add: ij of_nat_diff)
      ultimately show ?thesis by (simp only:)
    qed
    have IH: "least_cost True 1 1 cs ct (take (k - 1) p) (take (l - 1) s) D"
      using less.hyps [of "k - 1" "l - 1"] kl less.prems by (simp add: ij D_def)
    show ?thesis
      unfolding tp ts
    proof (rule least_cost_snoc [of True 1 1 cs ct _ _ _ "dl 1 1 cs ct p s i' j" _ "dl 1 1 cs ct p s i j'" "dl 1 1 cs ct p s i' j'"])
      fix fs u us t vs
      assume u: "take i' p = u @ y # us" "take j' s = t @ x # vs" "aligns True fs u t"
      have len: "length u + Suc (length us) = i'" "length t + Suc (length vs) = j'"
        using arg_cong [OF u(1), of length] arg_cong [OF u(2), of length] less.prems by (simp_all add: ij)
      have "take i' p ! length u = y" "take j' s ! length t = x" by (simp_all add: u(1,2))
      then have lt: "length u < k" "length t < l" using len by (auto simp: k_def l_def intro!: last_occ_max)
      have ut: "u = take (length u) p" "t = take (length t) s"
        using arg_cong [OF u(1), of "take (length u)"] arg_cong [OF u(2), of "take (length t)"] len by simp_all
      have "take (k - 1) p = u @ drop (length u) (take (k - 1) p)" "take (l - 1) s = t @ drop (length t) (take (l - 1) s)"
        using lt append_take_drop_id [of "length u" "take (k - 1) p"] append_take_drop_id [of "length t" "take (l - 1) s"] ut
        by (simp_all add: min_absorb1)
      then have "D \<le> align_cost 1 1 cs ct fs + int (length (drop (length u) (take (k - 1) p))) + int (length (drop (length t) (take (l - 1) s)))"
        using least_cost_grow [OF u(3)] IH by metis
      moreover have "length (drop (length u) (take (k - 1) p)) = k - 1 - length u" "length (drop (length t) (take (l - 1) s)) = l - 1 - length t"
        using kl less.prems ij by simp_all
      moreover have "dl 1 1 cs ct p s i j \<le> D + int (i' - k) + int (j' - l) + ct" using lt by (simp add: dl)
      ultimately show "dl 1 1 cs ct p s i j \<le> align_cost 1 1 cs ct fs + ct + int (length us) * 1 + int (length vs) * 1"
        using len lt kl by linarith
    next
      have "\<exists>es. aligns True es (take i' p @ [x]) (take j' s @ [y]) \<and> align_cost 1 1 cs ct es = D + int (i' - k) + int (j' - l) + ct"
        if "k > 0" "l > 0"
      proof -
        from IH obtain es where es: "aligns True es (take (k - 1) p) (take (l - 1) s)" "align_cost 1 1 cs ct es = D"
          by (auto simp: least_cost_def)
        define us vs where "us = drop k (take i' p)" and "vs = drop l (take j' s)"
        have "take i' p = take (k - 1) p @ y # us" "take j' s = take (l - 1) s @ x # vs"
          unfolding us_def vs_def k_def l_def using last_occ_split that less.prems by (simp_all add: ij k_def l_def)
        then have "aligns True (es @ [Swap y us x vs]) (take i' p @ [x]) (take j' s @ [y])"
          using es(1) by (simp add: aligns_snoc)
        moreover have "length us = i' - k" "length vs = j' - l" using less.prems by (simp_all add: us_def vs_def ij)
        ultimately show ?thesis using es(2) by (intro exI [of _ "es @ [Swap y us x vs]"]) simp
      qed
      then show "dl 1 1 cs ct p s i j = min3 (dl 1 1 cs ct p s i' j + 1) (dl 1 1 cs ct p s i j' + 1)
          (dl 1 1 cs ct p s i' j' + cs * of_bool (x \<noteq> y)) \<or>
        (\<exists>es. aligns True es (take i' p @ [x]) (take j' s @ [y]) \<and> align_cost 1 1 cs ct es = dl 1 1 cs ct p s i j)"
        unfolding dl d_def [symmetric] by (simp add: min_def)
    next
      show "dl 1 1 cs ct p s i j \<le> min3 (dl 1 1 cs ct p s i' j + 1) (dl 1 1 cs ct p s i j' + 1)
          (dl 1 1 cs ct p s i' j' + cs * of_bool (x \<noteq> y))"
        unfolding dl d_def [symmetric] by simp
    qed (use less.hyps [of i' j] less.hyps [of i j'] less.hyps [of i' j'] less.prems in \<open>simp_all add: ij flip: tp ts\<close>)
  qed (use least_cost_inserts [of True 1 1 cs ct "take j s"] least_cost_deletes [of True 1 1 cs ct "take i p"] less.prems
      in \<open>simp_all add: min_absorb2\<close>)
qed

text \<open>
  C39: With unit costs of insertions and deletions, the unrestricted distance is the least cost of an alignment that may
  exchange two letters with other text between them: remembering only the last place of each letter loses no better
  alignment.
\<close>

theorem unrestricted_distance_least:
  assumes "0 \<le> cs" "0 \<le> ct"
  shows "least_cost True 1 1 cs ct source target (damerau_levenshtein_distance source target 1 1 cs ct)"
proof -
  obtain a b where ab: "skip_prefix source target = (a, b)" by fastforce
  obtain n m where nm: "skip_suffix a b (length a) (length b) = (n, m)" by fastforce
  have le: "n \<le> length a" "m \<le> length b" using skip_suffix_le [OF nm] by simp_all
  define r where "r = damerau_levenshtein_distance source target 1 1 cs ct"
  have full: "least_cost True 1 1 cs ct p s (damerau_levenshtein_unrestricted p s 1 1 cs ct)" for p s
    using dl_least [of "length p" p "length s" s cs ct] by (simp add: unrestricted_dl)
  have "least_cost True 1 1 cs ct (take n a) (take m b) r"
  proof (cases "n = 0 \<or> m = 0")
    case True
    then show ?thesis
      using least_cost_inserts [of True 1 1 cs ct "take m b"] least_cost_deletes [of True 1 1 cs ct "take n a"] le
      by (auto simp: r_def damerau_levenshtein_distance_def ab nm min_absorb2)
  next
    case False
    then show ?thesis
      using full [of "take n a" "take m b"] full [of "take m b" "take n a", folded least_cost_turn [of True 1 1 cs ct "take n a" "take m b"]]
      by (simp add: r_def damerau_levenshtein_distance_def ab nm)
  qed
  then show ?thesis using skip_prefix_least [OF ab] skip_suffix_least [OF nm] assms by (simp add: r_def)
qed

theorem unrestricted_distance_least_witness:
  "damerau_levenshtein_distance [49] [49, 50] 1 1 1 1 = 1 \<and>
   least_cost True 1 1 1 1 [65, 66, 67] [67, 65] (damerau_levenshtein_distance [65, 66, 67] [67, 65] 1 1 1 1)"
proof
  show "damerau_levenshtein_distance [49] [49, 50] 1 1 1 1 = 1" by (simp add: damerau_levenshtein_distance_def)
qed (rule unrestricted_distance_least; simp)

text \<open>Other costs are not respected: two letters are inserted at the cost of 1 each, and deleted at that of insertions.\<close>

lemma distance_ignores_costs:
  "damerau_levenshtein_distance [] [49, 50] 5 1 1 1 = 2"
  "damerau_levenshtein_unrestricted [49] [50] 5 1 9 9 = 6 \<and> damerau_levenshtein_unrestricted [49, 50] [51] 5 1 99 99 = 11"
  by (simp_all add: damerau_levenshtein_distance_def unrestricted_dl dl.simps min3_def)

end
