(* ===== verification/ConfigFile.thy ===== *)
theory ConfigFile
  imports StringCodec "HOL-Library.List_Lexorder" "HOL-Library.AList"
begin

section \<open>Configuration files (ase/inifile.cc, ase/inifile.hh)\<close>

text \<open>
  The functions of the parser read at a pointer into a NUL terminated string and count lines; here the pointer is the
  rest of the string, empty at the NUL, and a function that fails, and then changes neither, returns \<open>None\<close>.
\<close>

definition ISASCIINLSPACE :: "char \<Rightarrow> bool" where
  "ISASCIINLSPACE c \<longleftrightarrow> c = CHR '' '' \<or> (CHR 0x09 \<le> c \<and> c \<le> CHR 0x0D)"

definition ISASCIIWHITESPACE :: "char \<Rightarrow> bool" where
  "ISASCIIWHITESPACE c \<longleftrightarrow> c = CHR '' '' \<or> c = CHR 0x09 \<or> (CHR 0x0B \<le> c \<and> c \<le> CHR 0x0D)"

definition parse_whitespaces :: "string \<Rightarrow> nat \<Rightarrow> string option" where
  "parse_whitespaces string min_spaces =
     (let p = dropWhile ISASCIIWHITESPACE string in
      if length string - length p \<ge> min_spaces then Some p else None)"

text \<open>\<open>skip_whitespaces\<close> asks for no space and never fails.\<close>

definition skip_whitespaces :: "string \<Rightarrow> string" where
  "skip_whitespaces string = (case parse_whitespaces string 0 of Some p \<Rightarrow> p | None \<Rightarrow> string)"

text \<open>A newline behind a backslash is not counted, as in the code.\<close>

fun scan_escaped :: "char \<Rightarrow> string \<Rightarrow> nat \<Rightarrow> (string \<times> nat) option" where
  "scan_escaped term [] lineno = None"
| "scan_escaped term [c] lineno = (if c = term then Some ([], lineno) else None)"
| "scan_escaped term (c # d # p) lineno =
     (if c = term then Some (d # p, lineno)
      else if c = CHR 0x5C then scan_escaped term p lineno
      else scan_escaped term (d # p) (if c = CHR 0x0A then lineno + 1 else lineno))"

definition string_rtrim :: "string \<Rightarrow> string" where
  "string_rtrim str = rev (dropWhile ISASCIINLSPACE (rev str))"

lemma scan_escaped_shorter: "scan_escaped term p lineno = Some (q, l) \<Longrightarrow> length q < length p"
  by (induction "term" p lineno rule: scan_escaped.induct) (auto split: if_splits)

text \<open>\<open>v\<close> is the value collected so far; the text between quotes keeps them.\<close>

function scan_value_loop :: "string \<Rightarrow> string \<Rightarrow> nat \<Rightarrow> string \<Rightarrow> (string \<times> nat \<times> string) option" where
  "scan_value_loop termchars [] lineno v = Some ([], lineno, string_rtrim v)"
| "scan_value_loop termchars (c # p) lineno v =
     (if c = CHR 0x5C then
        if take 1 p = [CHR 0x0A] then scan_value_loop termchars (drop 1 p) (lineno + 1) v
        else if take 2 p = [CHR 0x0D, CHR 0x0A] then scan_value_loop termchars (drop 2 p) (lineno + 1) v
        else if p = [] then scan_value_loop termchars p lineno v
        else scan_value_loop termchars (drop 1 p) lineno (v @ [c, hd p])
      else if c = CHR 0x22 \<or> c = CHR 0x27 then
        case scan_escaped c p lineno of
          Some (q, l) \<Rightarrow> scan_value_loop termchars q l (v @ take (length (c # p) - length q) (c # p))
        | None \<Rightarrow> None
      else if c = CHR 0x0D then
        scan_value_loop termchars p lineno (if p \<noteq> [] \<and> hd p \<noteq> CHR 0x0A then v @ '' '' else v)
      else if c = CHR 0x0A \<or> c = CHR '';'' \<or> c = CHR ''#'' \<or> strchr termchars c then Some (c # p, lineno, string_rtrim v)
      else scan_value_loop termchars p lineno (v @ [c]))"
  by pat_completeness auto
termination
  by (relation "measure (\<lambda>(_, p, _, _). length p)") (auto dest: scan_escaped_shorter)

declare scan_value_loop.simps [simp del]

definition scan_value :: "string \<Rightarrow> nat \<Rightarrow> string \<Rightarrow> (string \<times> nat \<times> string) option" where
  "scan_value p lineno termchars = scan_value_loop termchars p lineno []"

text \<open>\<open>skip_line\<close> returns the rest, the line number and the text, and never fails.\<close>

definition skip_line :: "string \<Rightarrow> nat \<Rightarrow> string \<times> nat \<times> string" where
  "skip_line start lineno =
     (let p = dropWhile (\<lambda>c. c \<noteq> CHR 0x0A) start; text = takeWhile (\<lambda>c. c \<noteq> CHR 0x0A) start in
      case p of [] \<Rightarrow> (p, lineno, text) | _ # q \<Rightarrow> (q, lineno + 1, text))"

definition skip_commentline :: "string \<Rightarrow> nat \<Rightarrow> (string \<times> nat \<times> string) option" where
  "skip_commentline string lineno =
     (case skip_whitespaces string of
        c # p \<Rightarrow> if c \<noteq> CHR ''#'' \<and> c \<noteq> CHR '';'' then None else Some (skip_line p lineno)
      | [] \<Rightarrow> None)"

definition skip_to_eol :: "string \<Rightarrow> nat \<Rightarrow> (string \<times> nat) option" where
  "skip_to_eol p lineno =
     (if take 1 p = ''#'' \<or> take 1 p = '';''
      then map_option (\<lambda>(q, l, _). (q, l)) (skip_commentline p lineno)
      else
        let p = (if take 1 p = [CHR 0x0D] then drop 1 p else p) in
        if take 1 p = [CHR 0x0A] then Some (drop 1 p, lineno + 1) else if p = [] then Some (p, lineno) else None)"

text \<open>The part in brackets of an assignment: the locale.\<close>

definition parse_locale :: "string \<Rightarrow> nat \<Rightarrow> (string \<times> nat \<times> string) option" where
  "parse_locale p lineno =
     (if take 1 p = ''['' then
        case scan_value (skip_whitespaces (drop 1 p)) lineno ''[]'' of
          None \<Rightarrow> None
        | Some (p, lineno, locale) \<Rightarrow>
            let p = skip_whitespaces p in
            if take 1 p \<noteq> '']'' then None else Some (skip_whitespaces (drop 1 p), lineno, locale)
      else Some (p, lineno, []))"

text \<open>The rest, the line number, and the key, the locale and the value.\<close>

definition parse_assignment :: "string \<Rightarrow> nat \<Rightarrow> (string \<times> nat \<times> string \<times> string \<times> string) option" where
  "parse_assignment string lineno =
     (case scan_value (skip_whitespaces string) lineno ''[]=:'' of
        None \<Rightarrow> None
      | Some (p, lineno, key) \<Rightarrow>
          case parse_locale (skip_whitespaces p) lineno of
            None \<Rightarrow> None
          | Some (p, lineno, locale) \<Rightarrow>
              if take 1 p \<noteq> ''='' \<and> take 1 p \<noteq> '':'' then None
              else
                case scan_value (skip_whitespaces (drop 1 p)) lineno [] of
                  None \<Rightarrow> None
                | Some (p, lineno, value) \<Rightarrow>
                    map_option (\<lambda>(p, lineno). (p, lineno, key, locale, value)) (skip_to_eol p lineno))"

definition parse_section :: "string \<Rightarrow> nat \<Rightarrow> (string \<times> nat \<times> string) option" where
  "parse_section string lineno =
     (let p = skip_whitespaces string in
      if take 1 p \<noteq> ''['' then None
      else
        case scan_value (skip_whitespaces (drop 1 p)) lineno ''[]'' of
          None \<Rightarrow> None
        | Some (p, lineno, section) \<Rightarrow>
            let p = skip_whitespaces p in
            if take 1 p \<noteq> '']'' then None
            else map_option (\<lambda>(p, lineno). (p, lineno, section)) (skip_to_eol (skip_whitespaces (drop 1 p)) lineno))"

subsection \<open>Loading\<close>

text \<open>\<open>SectionMap\<close>, a map in the order of its keys, with \<open>sections_[section].push_back (entry)\<close>.\<close>

type_synonym section_map = "(string \<times> string list) list"

fun push_entry :: "string \<Rightarrow> string \<Rightarrow> section_map \<Rightarrow> section_map" where
  "push_entry section entry [] = [(section, [entry])]"
| "push_entry section entry ((n, es) # ss) =
     (if section = n then (n, es @ [entry]) # ss
      else if section < n then (section, [entry]) # (n, es) # ss
      else (n, es) # push_entry section entry ss)"

text \<open>The path of a section like \<open>branch "devel.wip"\<close>; \<open>maxn\<close> is the largest number.\<close>

definition section_path :: "string \<Rightarrow> string" where
  "section_path section =
     (if strchr section (CHR 0x22)
      then string_join ''.'' (map (\<lambda>s. if take 1 s = [CHR 0x22] then string_from_cquote s else s)
             (string_split section [] (2 ^ 64 - 1)))
      else section)"

definition add_assignment :: "string \<Rightarrow> string \<Rightarrow> string \<Rightarrow> string \<Rightarrow> section_map \<Rightarrow> section_map" where
  "add_assignment section key locale text sections =
     (let k = (if locale \<noteq> [] then key @ ''['' @ locale @ '']'' else key) in
      if strchr section CHR ''='' \<or> strchr key CHR ''.'' then sections
      else push_entry section (k @ ''='' @ text) sections)"

lemma skip_whitespaces_eq: "skip_whitespaces p = dropWhile ISASCIIWHITESPACE p"
  by (simp add: skip_whitespaces_def parse_whitespaces_def Let_def)

lemma skip_whitespaces_le: "length (skip_whitespaces p) \<le> length p"
  by (simp add: skip_whitespaces_eq length_dropWhile_le)

text \<open>The loop, one case at a time.\<close>

lemma scan_value_cases:
  "scan_value_loop t [] lineno v = Some ([], lineno, string_rtrim v)"
  "take 1 p = [CHR 0x0A] \<Longrightarrow> scan_value_loop t (CHR 0x5C # p) lineno v = scan_value_loop t (drop 1 p) (lineno + 1) v"
  "take 1 p \<noteq> [CHR 0x0A] \<Longrightarrow> take 2 p = [CHR 0x0D, CHR 0x0A] \<Longrightarrow>
    scan_value_loop t (CHR 0x5C # p) lineno v = scan_value_loop t (drop 2 p) (lineno + 1) v"
  "scan_value_loop t [CHR 0x5C] lineno v = scan_value_loop t [] lineno v"
  "take 1 p \<noteq> [CHR 0x0A] \<Longrightarrow> take 2 p \<noteq> [CHR 0x0D, CHR 0x0A] \<Longrightarrow> p \<noteq> [] \<Longrightarrow>
    scan_value_loop t (CHR 0x5C # p) lineno v = scan_value_loop t (drop 1 p) lineno (v @ [CHR 0x5C, hd p])"
  "c = CHR 0x22 \<or> c = CHR 0x27 \<Longrightarrow> scan_value_loop t (c # p) lineno v =
    (case scan_escaped c p lineno of
       Some (q, l) \<Rightarrow> scan_value_loop t q l (v @ take (length (c # p) - length q) (c # p)) | None \<Rightarrow> None)"
  "scan_value_loop t (CHR 0x0D # p) lineno v =
    scan_value_loop t p lineno (if p \<noteq> [] \<and> hd p \<noteq> CHR 0x0A then v @ '' '' else v)"
  by (subst scan_value_loop.simps; auto)+

lemma scan_value_ends:
  "c \<noteq> CHR 0x5C \<Longrightarrow> c \<noteq> CHR 0x22 \<Longrightarrow> c \<noteq> CHR 0x27 \<Longrightarrow> c \<noteq> CHR 0x0D \<Longrightarrow>
    c = CHR 0x0A \<or> c = CHR '';'' \<or> c = CHR ''#'' \<or> strchr t c \<Longrightarrow>
    scan_value_loop t (c # p) lineno v = Some (c # p, lineno, string_rtrim v)"
  by (subst scan_value_loop.simps) simp

lemma scan_value_plain:
  "c \<noteq> CHR 0x5C \<Longrightarrow> c \<noteq> CHR 0x22 \<Longrightarrow> c \<noteq> CHR 0x27 \<Longrightarrow> c \<noteq> CHR 0x0D \<Longrightarrow>
    \<not> (c = CHR 0x0A \<or> c = CHR '';'' \<or> c = CHR ''#'' \<or> strchr t c) \<Longrightarrow>
    scan_value_loop t (c # p) lineno v = scan_value_loop t p lineno (v @ [c])"
  by (subst scan_value_loop.simps) simp

lemma scan_value_loop_le: "scan_value_loop t p lineno v = Some (q, l, w) \<Longrightarrow> length q \<le> length p"
proof (induction t p lineno v rule: scan_value_loop.induct)
  case (2 t c p lineno v)
  consider (nl) "c = CHR 0x5C" "take 1 p = [CHR 0x0A]"
    | (crnl) "c = CHR 0x5C" "take 1 p \<noteq> [CHR 0x0A]" "take 2 p = [CHR 0x0D, CHR 0x0A]"
    | (none) "c = CHR 0x5C" "p = []"
    | (esc) "c = CHR 0x5C" "take 1 p \<noteq> [CHR 0x0A]" "take 2 p \<noteq> [CHR 0x0D, CHR 0x0A]" "p \<noteq> []"
    | (quote) "c \<noteq> CHR 0x5C" "c = CHR 0x22 \<or> c = CHR 0x27"
    | (cr) "c = CHR 0x0D"
    | (stop) "c \<noteq> CHR 0x5C" "\<not> (c = CHR 0x22 \<or> c = CHR 0x27)" "c \<noteq> CHR 0x0D"
      "c = CHR 0x0A \<or> c = CHR '';'' \<or> c = CHR ''#'' \<or> strchr t c"
    | (plain) "c \<noteq> CHR 0x5C" "\<not> (c = CHR 0x22 \<or> c = CHR 0x27)" "c \<noteq> CHR 0x0D"
      "\<not> (c = CHR 0x0A \<or> c = CHR '';'' \<or> c = CHR ''#'' \<or> strchr t c)" by blast
  then show ?case
  proof cases
    case nl
    from 2(1) [OF nl] 2(8) nl show ?thesis by (simp only: scan_value_cases) simp
  next
    case crnl
    from 2(8) have "scan_value_loop t (drop 2 p) (lineno + 1) v = Some (q, l, w)"
      by (simp only: crnl(1) scan_value_cases(3) [OF crnl(2,3)])
    from 2(2) [OF crnl this] show ?thesis by simp
  next
    case none
    from 2(8) none show ?thesis by (simp add: scan_value_cases)
  next
    case esc
    from 2(8) have "scan_value_loop t (drop 1 p) lineno (v @ [c, hd p]) = Some (q, l, w)"
      by (simp only: esc(1) scan_value_cases(5) [OF esc(2-4)])
    from 2(4) [OF esc this] show ?thesis by simp
  next
    case quote
    then obtain q' l' where sc: "scan_escaped c p lineno = Some (q', l')"
      and r: "scan_value_loop t q' l' (v @ take (length (c # p) - length q') (c # p)) = Some (q, l, w)"
      using 2(8) scan_value_cases(6) [OF quote(2), of t p lineno v] by (cases "scan_escaped c p lineno") auto
    show ?thesis using 2(5) [OF quote sc refl r] scan_escaped_shorter [OF sc] by simp
  next
    case cr
    then show ?thesis using 2(6) 2(8) by (simp add: scan_value_cases(7) split del: if_split)
  next
    case stop
    then show ?thesis using 2(8) by (simp add: scan_value_ends)
  next
    case plain
    then have "scan_value_loop t p lineno (v @ [c]) = Some (q, l, w)" using 2(8) scan_value_plain [of c t p lineno v] by auto
    from 2(7) [OF plain this] show ?thesis by simp
  qed
qed (simp add: scan_value_cases)

lemma scan_value_le: "scan_value p lineno t = Some (q, l, w) \<Longrightarrow> length q \<le> length p"
  by (simp add: scan_value_def scan_value_loop_le)

lemma skip_line_le: "skip_line p lineno = (q, l, t) \<Longrightarrow> length q \<le> length p"
  using length_dropWhile_le [of "\<lambda>c. c \<noteq> CHR 0x0A" p]
  by (cases "dropWhile (\<lambda>c. c \<noteq> CHR 0x0A) p") (simp_all add: skip_line_def Let_def)

lemma skip_commentline_shorter: "skip_commentline p lineno = Some (q, l, t) \<Longrightarrow> length q < length p"
  using skip_whitespaces_le [of p] by (auto simp: skip_commentline_def split: list.splits if_splits dest!: skip_line_le)

lemma skip_to_eol_le: "skip_to_eol p lineno = Some (q, l) \<Longrightarrow> length q \<le> length p"
  by (auto simp: skip_to_eol_def Let_def split: if_splits dest!: skip_commentline_shorter)

lemma parse_section_shorter: "parse_section p lineno = Some (q, l, t) \<Longrightarrow> length q < length p"
proof -
  assume a: "parse_section p lineno = Some (q, l, t)"
  define p1 where "p1 = skip_whitespaces p"
  have n1: "take 1 p1 = ''[''" using a by (auto simp: parse_section_def Let_def p1_def split: if_splits)
  obtain p2 l2 where p2: "scan_value (skip_whitespaces (drop 1 p1)) lineno ''[]'' = Some (p2, l2, t)"
    and eol: "skip_to_eol (skip_whitespaces (drop 1 (skip_whitespaces p2))) l2 = Some (q, l)"
    using a n1 by (auto simp: parse_section_def Let_def p1_def split: if_splits option.splits)
  have "length q \<le> length p2"
    using skip_to_eol_le [OF eol] skip_whitespaces_le [of "drop 1 (skip_whitespaces p2)"] skip_whitespaces_le [of p2] by simp
  also have "\<dots> \<le> length (drop 1 p1)" using scan_value_le [OF p2] skip_whitespaces_le [of "drop 1 p1"] by simp
  also have "\<dots> < length p1" using n1 by (cases p1) auto
  also have "\<dots> \<le> length p" by (simp add: p1_def skip_whitespaces_le)
  finally show ?thesis .
qed

lemma parse_locale_le: "parse_locale p lineno = Some (q, l, t) \<Longrightarrow> length q \<le> length p"
proof -
  assume a: "parse_locale p lineno = Some (q, l, t)"
  show ?thesis
  proof (cases "take 1 p = ''[''")
    case True
    obtain p2 where p2: "scan_value (skip_whitespaces (drop 1 p)) lineno ''[]'' = Some (p2, l, t)"
      and q: "q = skip_whitespaces (drop 1 (skip_whitespaces p2))"
      using a True by (auto simp: parse_locale_def Let_def split: if_splits option.splits)
    have "length q \<le> length p2" unfolding q
      using skip_whitespaces_le [of "drop 1 (skip_whitespaces p2)"] skip_whitespaces_le [of p2] by simp
    then show ?thesis using scan_value_le [OF p2] skip_whitespaces_le [of "drop 1 p"] by simp
  qed (use a in \<open>simp add: parse_locale_def\<close>)
qed

lemma parse_assignment_shorter: "parse_assignment p lineno = Some (q, l, k, t, u) \<Longrightarrow> length q < length p"
proof -
  assume a: "parse_assignment p lineno = Some (q, l, k, t, u)"
  obtain p1 l1 p2 l2 p3 l3 where
    p1: "scan_value (skip_whitespaces p) lineno ''[]=:'' = Some (p1, l1, k)" and
    p2: "parse_locale (skip_whitespaces p1) l1 = Some (p2, l2, t)" and
    n: "take 1 p2 = ''='' \<or> take 1 p2 = '':''" and
    p3: "scan_value (skip_whitespaces (drop 1 p2)) l2 [] = Some (p3, l3, u)" and
    eol: "skip_to_eol p3 l3 = Some (q, l)"
    using a by (auto simp: parse_assignment_def split: if_splits option.splits)
  have "length q \<le> length (drop 1 p2)"
    using skip_to_eol_le [OF eol] scan_value_le [OF p3] skip_whitespaces_le [of "drop 1 p2"] by simp
  also have "\<dots> < length p2" using n by (cases p2) auto
  also have "\<dots> \<le> length p1" using parse_locale_le [OF p2] skip_whitespaces_le [of p1] by simp
  also have "\<dots> \<le> length p" using scan_value_le [OF p1] skip_whitespaces_le [of p] by simp
  finally show ?thesis .
qed

lemma skip_line_shorter: "skip_line (c # p) lineno = (q, l, t) \<Longrightarrow> length q < length (c # p)"
  using length_dropWhile_le [of "\<lambda>c. c \<noteq> CHR 0x0A" p]
  by (cases "dropWhile (\<lambda>c. c \<noteq> CHR 0x0A) p"; cases "c = CHR 0x0A") (simp_all add: skip_line_def Let_def)

text \<open>The loop of \<open>load_ini\<close>; what it prints for debugging is left out.\<close>

function load_loop :: "string \<Rightarrow> nat \<Rightarrow> string \<Rightarrow> section_map \<Rightarrow> section_map" where
  "load_loop [] nextno section sections = sections"
| "load_loop (c # p) nextno section sections =
     (case skip_commentline (c # p) nextno of
        Some (q, l, _) \<Rightarrow> load_loop q l section sections
      | None \<Rightarrow>
          case parse_section (c # p) nextno of
            Some (q, l, text) \<Rightarrow> load_loop q l (section_path text) sections
          | None \<Rightarrow>
              case parse_assignment (c # p) nextno of
                Some (q, l, key, locale, text) \<Rightarrow>
                  load_loop q l section (add_assignment section key locale text sections)
              | None \<Rightarrow> case skip_line (c # p) nextno of (q, l, _) \<Rightarrow> load_loop q l section sections)"
  by pat_completeness auto
termination
  by (relation "measure (\<lambda>(p, _, _, _). length p)")
    (auto dest: skip_commentline_shorter parse_section_shorter parse_assignment_shorter dest!: skip_line_shorter [OF sym])

declare load_loop.simps(2) [simp del]

definition load_ini :: "string \<Rightarrow> section_map \<Rightarrow> section_map" where
  "load_ini data sections = load_loop (cstr data) 1 [] sections"

definition IniFile :: "string \<Rightarrow> section_map" where
  "IniFile inidata = load_ini inidata []"

text \<open>A blob has a string or is not there.\<close>

definition IniFile_blob :: "string option \<Rightarrow> section_map" where
  "IniFile_blob blob = (case blob of Some string \<Rightarrow> load_ini string [] | None \<Rightarrow> [])"

subsection \<open>Queries\<close>

definition has_sections :: "section_map \<Rightarrow> bool" where
  "has_sections ini \<longleftrightarrow> ini \<noteq> []"

definition ini_section :: "section_map \<Rightarrow> string \<Rightarrow> string list" where
  "ini_section ini name = (case map_of ini name of Some es \<Rightarrow> es | None \<Rightarrow> [])"

definition has_section :: "section_map \<Rightarrow> string \<Rightarrow> bool" where
  "has_section ini section \<longleftrightarrow> map_of ini section \<noteq> None"

definition ini_sections :: "section_map \<Rightarrow> string list" where
  "ini_sections ini = map fst ini"

definition attributes :: "section_map \<Rightarrow> string \<Rightarrow> string list" where
  "attributes ini section =
     (case map_of ini section of Some es \<Rightarrow> map (takeWhile (\<lambda>c. c \<noteq> CHR ''='')) es | None \<Rightarrow> [])"

definition entry_has_key :: "string \<Rightarrow> string \<Rightarrow> bool" where
  "entry_has_key key s \<longleftrightarrow> length s > length key \<and> s ! length key = CHR ''='' \<and> take (length key) s = key"

definition has_attribute :: "section_map \<Rightarrow> string \<Rightarrow> string \<Rightarrow> bool" where
  "has_attribute ini section key =
     (case map_of ini section of None \<Rightarrow> False | Some es \<Rightarrow> \<exists>s\<in>set es. entry_has_key key s)"

definition raw_values :: "section_map \<Rightarrow> string list" where
  "raw_values ini = concat (map (\<lambda>(n, es). map (\<lambda>s. n @ ''.'' @ s) es) ini)"

text \<open>\<open>strrchr (p, '.')\<close> looks in the part before a NUL; the key is what follows the point, NULs included.\<close>

definition last_dot :: "string \<Rightarrow> nat option" where
  "last_dot dotpath =
     (let p = cstr dotpath in
      if CHR ''.'' \<in> set p then Some (length p - 1 - length (takeWhile (\<lambda>c. c \<noteq> CHR ''.'') (rev p))) else None)"

definition has_raw_value :: "section_map \<Rightarrow> string \<Rightarrow> string option" where
  "has_raw_value ini dotpath =
     (case last_dot dotpath of
        None \<Rightarrow> None
      | Some d \<Rightarrow>
          let secname = take d dotpath; key = drop (d + 1) dotpath; sv = ini_section ini secname in
          map_option (drop (length key + 1)) (find (entry_has_key key) sv))"

definition raw_value :: "section_map \<Rightarrow> string \<Rightarrow> string" where
  "raw_value ini dotpath = (case has_raw_value ini dotpath of Some v \<Rightarrow> v | None \<Rightarrow> [])"

text \<open>
  A backslash at the end makes the loop step over the NUL; so does a quote at the end that has no partner.  Then
  the code reads behind the string, which is \<open>None\<close> here.
\<close>

definition cooked_escape :: "char \<Rightarrow> char" where
  "cooked_escape c =
     (if c = CHR ''n'' then CHR 0x0A else if c = CHR ''r'' then CHR 0x0D else if c = CHR ''t'' then CHR 0x09
      else if c = CHR ''b'' then CHR 0x08 else if c = CHR ''f'' then CHR 0x0C else if c = CHR ''v'' then CHR 0x0B else c)"

function cook_loop :: "string \<Rightarrow> string \<Rightarrow> string option" where
  "cook_loop [] v = Some v"
| "cook_loop (c # p) v =
     (if c = CHR 0x5C then
        (case p of [] \<Rightarrow> None | d # q \<Rightarrow> cook_loop q (v @ [cooked_escape d]))
      else if c = CHR 0x22 \<or> c = CHR 0x27 then
        (case scan_escaped c p 0 of
           Some (q, _) \<Rightarrow> cook_loop q (v @ string_from_cquote (take (length p - length q - 1) p))
         | None \<Rightarrow> case p of [] \<Rightarrow> None | d # q \<Rightarrow> cook_loop q (v @ [d]))
      else cook_loop p (v @ [c]))"
  by pat_completeness auto
termination
  by (relation "measure (\<lambda>(p, _). length p)") (auto dest: scan_escaped_shorter)

declare cook_loop.simps(2) [simp del]

definition cook_string :: "string \<Rightarrow> string option" where
  "cook_string input = cook_loop (cstr input) []"

text \<open>\<open>None\<close> where there is no value, \<open>Some None\<close> where cooking it reads behind the string.\<close>

definition has_value :: "section_map \<Rightarrow> string \<Rightarrow> string option option" where
  "has_value ini dotpath = map_option cook_string (has_raw_value ini dotpath)"

definition value_as_string :: "section_map \<Rightarrow> string \<Rightarrow> string option" where
  "value_as_string ini dotpath = cook_string (raw_value ini dotpath)"

subsection \<open>Writing\<close>

record Section =
  sec_name :: string
  entries :: "string list"

fun find_section_index :: "nat \<Rightarrow> Section list \<Rightarrow> string \<Rightarrow> nat option" where
  "find_section_index i [] name = None"
| "find_section_index i (s # ss) name = (if sec_name s = name then Some i else find_section_index (Suc i) ss name)"

text \<open>The sections and the index of the one found or made.\<close>

definition find_section :: "Section list \<Rightarrow> string \<Rightarrow> bool \<Rightarrow> Section list \<times> nat option" where
  "find_section sections name create =
     (case find_section_index 0 sections name of
        Some i \<Rightarrow> (sections, Some i)
      | None \<Rightarrow> if create then (sections @ [\<lparr>sec_name = name, entries = []\<rparr>], Some (length sections)) else (sections, None))"

fun find_entry_index :: "nat \<Rightarrow> string list \<Rightarrow> string \<Rightarrow> nat option" where
  "find_entry_index i [] name = None"
| "find_entry_index i (e # es) name = (if entry_has_key name e then Some i else find_entry_index (Suc i) es name)"

definition find_entry :: "string list \<Rightarrow> string \<Rightarrow> bool \<Rightarrow> string list \<times> nat option" where
  "find_entry es name create =
     (case find_entry_index 0 es name of
        Some i \<Rightarrow> (es, Some i)
      | None \<Rightarrow> if create then (es @ [name @ ''=''], Some (length es)) else (es, None))"

text \<open>
  \<open>rfind\<close> gives \<open>npos\<close> where there is no point, and \<open>npos + 1\<close> is 0: the test refuses only the empty key then, and
  the whole key is the section as well as the entry.
\<close>

definition rfind_dot :: "string \<Rightarrow> nat" where
  "rfind_dot key =
     (if CHR ''.'' \<in> set key then length key - 1 - length (takeWhile (\<lambda>c. c \<noteq> CHR ''.'') (rev key)) else 2 ^ 64 - 1)"

definition ini_set :: "string \<Rightarrow> string \<Rightarrow> Section list \<Rightarrow> Section list" where
  "ini_set key value sections =
     (let p = rfind_dot key; p1 = (p + 1) mod 2 ^ 64 in
      if p = 0 \<or> p1 \<ge> length key then sections
      else
        case find_section sections (take p key) True of
          (sections, Some i) \<Rightarrow>
            (let entry_key = drop p1 key in
             case find_entry (entries (sections ! i)) entry_key True of
               (es, Some idx) \<Rightarrow> sections[i := (sections ! i)\<lparr>entries := es[idx := entry_key @ ''='' @ value]\<rparr>]
             | (es, None) \<Rightarrow> sections)
        | (sections, None) \<Rightarrow> sections)"

definition allowed_chars :: string where
  "allowed_chars = string_set_ascii_alnum @ ''<>,;.:-_~*/+^!$=?''"

definition written_value :: "string \<Rightarrow> string" where
  "written_value v = (if string_is_canonified v allowed_chars then v else string_to_cquote v)"

definition output_entry :: "string \<Rightarrow> string" where
  "output_entry raw =
     (let k = takeWhile (\<lambda>c. c \<noteq> CHR ''='') raw; v = drop (length k + 1) raw in
      [CHR 0x09] @ k @ '' = '' @ written_value v @ [CHR 0x0A])"

definition output_section :: "Section \<Rightarrow> string" where
  "output_section s =
     (if entries s \<noteq> [] then
        let d = length (takeWhile (\<lambda>c. c \<noteq> CHR ''.'') (sec_name s));
            sec = (if d < length (sec_name s) then take d (sec_name s) @ '' '' @ string_to_cquote (drop (d + 1) (sec_name s))
                   else sec_name s) in
        ''['' @ sec @ '']'' @ [CHR 0x0A] @ concat (map output_entry (entries s))
      else [])"

definition ini_output :: "Section list \<Rightarrow> string" where
  "ini_output sections = concat (map output_section sections)"


subsection \<open>Writing and reading\<close>

definition name_char :: "char \<Rightarrow> bool" where
  "name_char c \<longleftrightarrow> c_isalnum c \<or> c = CHR ''_'' \<or> c = CHR ''-''"

definition plain_name :: "string \<Rightarrow> bool" where
  "plain_name s \<longleftrightarrow> s \<noteq> [] \<and> list_all name_char s"

text \<open>A section is a name, or a name, a point and text without spaces, equal signs and NULs.\<close>

definition section_ok :: "string \<Rightarrow> bool" where
  "section_ok s \<longleftrightarrow> (let a = takeWhile (\<lambda>c. c \<noteq> CHR ''.'') s; b = drop (length a) s in
     length s < 2 ^ 63 \<and> plain_name a \<and> length b \<noteq> 1 \<and> list_all (\<lambda>c. c \<noteq> CHR '' '' \<and> c \<noteq> CHR ''='' \<and> c \<noteq> NUL) b)"

definition value_ok :: "string \<Rightarrow> bool" where
  "value_ok v \<longleftrightarrow> (string_is_canonified v allowed_chars \<longrightarrow> CHR '';'' \<notin> set v \<and> NUL \<notin> set v)"

lemma name_char_above: "name_char c \<Longrightarrow> CHR 0x0D < c \<and> CHR '' '' < c"
proof -
  assume "name_char c"
  then consider "CHR ''A'' \<le> c" | "CHR ''a'' \<le> c" | "CHR ''0'' \<le> c" | "c = CHR ''_''" | "c = CHR ''-''"
    by (auto simp: name_char_def c_isalnum_def)
  then show ?thesis
    by cases (simp_all add: less_le_trans [of "CHR 0x0D" "CHR ''A''" c] less_le_trans [of "CHR '' ''" "CHR ''A''" c]
      less_le_trans [of "CHR 0x0D" "CHR ''a''" c] less_le_trans [of "CHR '' ''" "CHR ''a''" c]
      less_le_trans [of "CHR 0x0D" "CHR ''0''" c] less_le_trans [of "CHR '' ''" "CHR ''0''" c])
qed

lemma name_char_facts:
  assumes "name_char c"
  shows "c \<noteq> CHR 0x5C" "c \<noteq> CHR 0x22" "c \<noteq> CHR 0x27" "c \<noteq> CHR 0x0D" "c \<noteq> CHR 0x0A" "c \<noteq> CHR '';''" "c \<noteq> CHR ''#''"
    "c \<noteq> CHR ''[''" "c \<noteq> CHR '']''" "c \<noteq> CHR ''=''" "c \<noteq> CHR '':''" "c \<noteq> CHR ''.''" "c \<noteq> NUL" "c \<noteq> CHR '' ''"
    "\<not> ISASCIINLSPACE c" "\<not> ISASCIIWHITESPACE c" "\<not> strchr whitespaces c"
  using assms name_char_above [OF assms]
  by (auto simp: name_char_def c_isalnum_def ISASCIINLSPACE_def ISASCIIWHITESPACE_def strchr_def whitespaces_def cstr_def not_le)

definition allowed_plain :: "char \<Rightarrow> bool" where
  "allowed_plain c \<longleftrightarrow> c \<noteq> CHR 0x5C \<and> c \<noteq> CHR 0x22 \<and> c \<noteq> CHR 0x27 \<and> c \<noteq> CHR 0x0D \<and> c \<noteq> CHR 0x0A \<and> c \<noteq> CHR ''#'' \<and> c \<noteq> NUL \<and>
     \<not> ISASCIINLSPACE c \<and> \<not> ISASCIIWHITESPACE c"

lemma allowed_char_facts: "strchr allowed_chars c \<Longrightarrow> c \<noteq> NUL \<Longrightarrow> allowed_plain c"
proof -
  have "\<forall>c\<in>set (cstr allowed_chars). allowed_plain c" by code_simp
  then show "strchr allowed_chars c \<Longrightarrow> c \<noteq> NUL \<Longrightarrow> allowed_plain c" by (auto simp: strchr_def)
qed

text \<open>Scanning plain text and quoted text.\<close>

lemma scan_plain:
  assumes "\<And>c. c \<in> set s \<Longrightarrow> c \<noteq> CHR 0x5C \<and> c \<noteq> CHR 0x22 \<and> c \<noteq> CHR 0x27 \<and> c \<noteq> CHR 0x0D \<and> c \<noteq> CHR 0x0A \<and>
    c \<noteq> CHR '';'' \<and> c \<noteq> CHR ''#'' \<and> \<not> strchr t c"
  shows "scan_value_loop t (s @ rest) l v = scan_value_loop t rest l (v @ s)"
  using assms by (induction s arbitrary: v) (simp_all add: scan_value_plain)

lemma scan_escaped_steps:
  "c \<noteq> t \<Longrightarrow> c \<noteq> CHR 0x5C \<Longrightarrow> c \<noteq> CHR 0x0A \<Longrightarrow> scan_escaped t (c # p) l = scan_escaped t p l"
  "t \<noteq> CHR 0x5C \<Longrightarrow> scan_escaped t (CHR 0x5C # d # p) l = scan_escaped t p l"
  "scan_escaped t (t # p) l = Some (p, l)"
  by (cases p; simp)+

lemma digit_char_plain: "digit_char (n mod 8) \<notin> {CHR 0x22, CHR 0x5C, CHR 0x0A, CHR '' '', CHR 0x09, CHR 0x0D, CHR 0x0C, CHR 0x0B, NUL}"
proof -
  have "\<forall>n\<in>set [0..<8]. digit_char n \<notin> {CHR 0x22, CHR 0x5C, CHR 0x0A, CHR '' '', CHR 0x09, CHR 0x0D, CHR 0x0C, CHR 0x0B, NUL}"
    by code_simp
  then show ?thesis by simp
qed

lemma scan_cescape_char: "scan_escaped (CHR 0x22) (cescape_char d @ p) l = scan_escaped (CHR 0x22) p l"
proof -
  have d: "d \<noteq> CHR 0x22 \<Longrightarrow> d \<noteq> CHR 0x5C \<Longrightarrow> d \<noteq> CHR 0x0A \<Longrightarrow> scan_escaped (CHR 0x22) (d # p) l = scan_escaped (CHR 0x22) p l"
    by (rule scan_escaped_steps(1))
  show ?thesis
    using digit_char_plain [of "of_char d div 8"] digit_char_plain [of "of_char d"]
    by (simp add: cescape_char_def scan_escaped_steps(1,2) d)
qed

lemma scan_cescape: "scan_escaped (CHR 0x22) (string_to_cescape v @ CHR 0x22 # rest) l = Some (rest, l)"
  unfolding string_to_cescape_def by (induction v) (simp_all add: scan_cescape_char scan_escaped_steps)

lemma scan_cquote: "scan_value_loop t (string_to_cquote v @ rest) l w = scan_value_loop t rest l (w @ string_to_cquote v)"
  using scan_cescape [of v rest l] by (simp add: string_to_cquote_def scan_value_cases)

lemma rtrim_keeps: "s = [] \<or> \<not> ISASCIINLSPACE (last s) \<Longrightarrow> string_rtrim s = s"
  by (cases s rule: rev_cases) (auto simp: string_rtrim_def)

lemma rtrim_space: "string_rtrim (s @ '' '') = string_rtrim s"
  by (simp add: string_rtrim_def ISASCIINLSPACE_def)

lemma skip_ws [simp]:
  "ISASCIIWHITESPACE c \<Longrightarrow> skip_whitespaces (c # p) = skip_whitespaces p"
  "\<not> ISASCIIWHITESPACE c \<Longrightarrow> skip_whitespaces (c # p) = c # p" "skip_whitespaces [] = []"
  by (simp_all add: skip_whitespaces_eq)

lemma ws_chars [simp]: "ISASCIIWHITESPACE CHR '' ''" "ISASCIIWHITESPACE (CHR 0x09)" "\<not> ISASCIIWHITESPACE (CHR 0x0A)"
  "\<not> ISASCIIWHITESPACE CHR ''[''" "\<not> ISASCIIWHITESPACE CHR '']''" "\<not> ISASCIIWHITESPACE CHR ''=''" "\<not> ISASCIIWHITESPACE (CHR 0x22)"
  by (simp_all add: ISASCIIWHITESPACE_def)

lemma skip_one_space: "x = [] \<or> \<not> ISASCIIWHITESPACE (hd x) \<Longrightarrow>
    skip_whitespaces (x @ CHR 0x0A # rest) = x @ CHR 0x0A # rest"
  by (cases x) simp_all

lemma scan_written_value:
  assumes "value_ok v"
  shows "scan_value (skip_whitespaces (CHR '' '' # written_value v @ CHR 0x0A # rest)) l [] = Some (CHR 0x0A # rest, l, written_value v)"
proof (cases "string_is_canonified v allowed_chars")
  case True
  have p: "allowed_plain c \<and> c \<noteq> CHR '';'' \<and> c \<noteq> NUL" if "c \<in> set v" for c
    using assms True that allowed_char_facts [of c] by (auto simp: value_ok_def string_is_canonified_def list_all_iff)
  then have "v = [] \<or> \<not> ISASCIIWHITESPACE (hd v)" "v = [] \<or> \<not> ISASCIINLSPACE (last v)"
    by (auto simp: allowed_plain_def neq_Nil_conv)
  moreover have "scan_value_loop [] (v @ CHR 0x0A # rest) l [] = scan_value_loop [] (CHR 0x0A # rest) l ([] @ v)"
    by (rule scan_plain) (use p in \<open>auto simp: allowed_plain_def strchr_def cstr_def\<close>)
  ultimately show ?thesis
    using True by (simp add: written_value_def skip_one_space scan_value_def scan_value_ends rtrim_keeps)
next
  case False
  have "\<not> ISASCIIWHITESPACE (hd (string_to_cquote v))" "\<not> ISASCIINLSPACE (last (string_to_cquote v))"
    by (simp_all add: string_to_cquote_def ISASCIINLSPACE_def)
  then show ?thesis
    using False by (simp add: written_value_def skip_one_space scan_value_def scan_cquote scan_value_ends rtrim_keeps)
qed

lemma plain_nameD: "plain_name k \<Longrightarrow> \<exists>c r. k = c # r \<and> name_char c" "plain_name k \<Longrightarrow> c \<in> set k \<Longrightarrow> name_char c"
  by (cases k; auto simp: plain_name_def list_all_iff)+

lemma scan_name:
  assumes "plain_name k" and "set t \<subseteq> set ''[]=:''"
  shows "scan_value_loop t (k @ rest) l v = scan_value_loop t rest l (v @ k)"
proof (rule scan_plain)
  fix c assume "c \<in> set k"
  then have c: "name_char c" using plain_nameD(2) [OF assms(1)] by blast
  have "c \<notin> set t" using name_char_facts(8-11) [OF c] assms(2) by auto
  then have "\<not> strchr t c" using name_char_facts(13) [OF c] unfolding strchr_def cstr_def by (meson set_takeWhileD)
  then show "c \<noteq> CHR 0x5C \<and> c \<noteq> CHR 0x22 \<and> c \<noteq> CHR 0x27 \<and> c \<noteq> CHR 0x0D \<and> c \<noteq> CHR 0x0A \<and>
    c \<noteq> CHR '';'' \<and> c \<noteq> CHR ''#'' \<and> \<not> strchr t c" using name_char_facts [OF c] by simp
qed

lemma plain_name_last: "plain_name k \<Longrightarrow> \<not> ISASCIINLSPACE (last k)"
  using name_char_facts(15) [of "last k"] plain_nameD(2) [of k "last k"] by (auto simp: plain_name_def)

lemma output_entry_eq: "plain_name k \<Longrightarrow>
    output_entry (k @ ''='' @ v) = CHR 0x09 # k @ '' = '' @ written_value v @ [CHR 0x0A]"
proof -
  assume "plain_name k"
  then have "takeWhile (\<lambda>c. c \<noteq> CHR ''='') (k @ ''='' @ v) = k"
    using plain_nameD(2) [of k] name_char_facts(10) by (subst takeWhile_append2) auto
  then show ?thesis unfolding output_entry_def Let_def by simp
qed

lemma load_entry:
  assumes "plain_name k" and "value_ok v"
  shows "load_loop (output_entry (k @ ''='' @ v) @ rest) l n ss = load_loop rest (l + 1) n (add_assignment n k [] (written_value v) ss)"
proof -
  obtain c r where k: "k = c # r" "name_char c" using plain_nameD(1) [OF assms(1)] by blast
  define p where "p = k @ '' = '' @ written_value v @ CHR 0x0A # rest"
  have o: "output_entry (k @ ''='' @ v) @ rest = CHR 0x09 # p" unfolding output_entry_eq [OF assms(1)] p_def by simp
  have ws: "skip_whitespaces (CHR 0x09 # p) = p" using name_char_facts [OF k(2)] by (simp add: p_def k(1))
  have "skip_commentline (CHR 0x09 # p) l = None"
    unfolding skip_commentline_def ws using name_char_facts [OF k(2)] by (simp add: p_def k(1))
  moreover have "parse_section (CHR 0x09 # p) l = None"
    unfolding parse_section_def ws using name_char_facts [OF k(2)] by (simp add: p_def k(1))
  moreover have key: "scan_value p l ''[]=:'' = Some (''= '' @ written_value v @ CHR 0x0A # rest, l, k)"
  proof -
    have "scan_value p l ''[]=:'' = scan_value_loop ''[]=:'' ('' = '' @ written_value v @ CHR 0x0A # rest) l k"
      unfolding scan_value_def p_def by (subst scan_name) (use assms(1) in auto)
    also have "\<dots> = scan_value_loop ''[]=:'' (''= '' @ written_value v @ CHR 0x0A # rest) l (k @ '' '')"
      by (simp add: scan_value_plain strchr_def cstr_def)
    also have "\<dots> = Some (''= '' @ written_value v @ CHR 0x0A # rest, l, string_rtrim (k @ '' ''))"
      by (simp add: scan_value_ends strchr_def cstr_def)
    finally show ?thesis using plain_name_last [OF assms(1)] by (simp add: rtrim_space rtrim_keeps)
  qed
  moreover have "parse_assignment (CHR 0x09 # p) l = Some (rest, l + 1, k, [], written_value v)"
    unfolding parse_assignment_def ws key
    using scan_written_value [OF assms(2), of rest l] by (simp add: parse_locale_def skip_to_eol_def)
  ultimately show ?thesis unfolding o by (subst load_loop.simps) simp
qed

text \<open>The text of a section between its brackets.\<close>

definition sec_text :: "string \<Rightarrow> string" where
  "sec_text n =
     (let d = length (takeWhile (\<lambda>c. c \<noteq> CHR ''.'') n) in
      if d < length n then take d n @ '' '' @ string_to_cquote (drop (d + 1) n) else n)"

lemma whitesplit_run:
  assumes "\<And>k. i \<le> k \<Longrightarrow> k < j \<Longrightarrow> \<not> strchr whitespaces (s ! k)" and "i \<le> j" "j \<le> length s" "length sv < maxn"
  shows "whitesplit_loop s maxn i l sv = whitesplit_loop s maxn j l sv"
  using assms
proof (induction "j - i" arbitrary: i)
  case (Suc d)
  then have "i < j" by simp
  then have "whitesplit_loop s maxn i l sv = whitesplit_loop s maxn (Suc i) l sv"
    using Suc.prems by (subst whitesplit_loop.simps) simp
  also have "\<dots> = whitesplit_loop s maxn j l sv" using Suc \<open>i < j\<close> by simp
  finally show ?case .
qed simp

lemma split_two:
  assumes "\<And>c. c \<in> set a \<Longrightarrow> \<not> strchr whitespaces c" "\<And>c. c \<in> set q \<Longrightarrow> \<not> strchr whitespaces c" "a \<noteq> []" "q \<noteq> []" "1 < maxn"
  shows "string_split (a @ '' '' @ q) [] maxn = [a, q]"
proof -
  define s where "s = a @ '' '' @ q"
  have n: "length s = length a + 1 + length q" by (simp add: s_def)
  have "whitesplit_loop s maxn 0 0 [] = whitesplit_loop s maxn (length a) 0 []"
    by (rule whitesplit_run) (use assms in \<open>auto simp: s_def nth_append\<close>)
  also have "\<dots> = whitesplit_loop s maxn (Suc (length a)) (Suc (length a)) [a]"
    using assms by (subst whitesplit_loop.simps) (auto simp: s_def nth_append substr_def strchr_def whitespaces_def cstr_def)
  also have "\<dots> = whitesplit_loop s maxn (length s) (Suc (length a)) [a]"
    by (rule whitesplit_run) (use assms(2,5) n in \<open>auto simp: s_def nth_append nth_Cons'\<close>)
  also have "\<dots> = [a, q]"
    using assms(4,5) by (subst whitesplit_loop.simps) (simp add: n substr_def, simp add: s_def)
  finally show ?thesis by (simp add: string_split_def string_whitesplit_def s_def)
qed

lemma cescape_char_visible:
  assumes "d \<noteq> CHR '' ''" and "c \<in> set (cescape_char d)"
  shows "\<not> strchr whitespaces c \<and> c \<noteq> NUL"
proof -
  have ws: "strchr whitespaces c \<longleftrightarrow> c \<in> {CHR '' '', CHR 0x09, CHR 0x0A, CHR 0x0D, CHR 0x0C, CHR 0x0B, NUL}"
    by (auto simp: strchr_def whitespaces_def cstr_def)
  consider (self) "c = d" "of_char d \<ge> (32 :: nat)" | "c \<in> set [CHR 0x5C, CHR ''a'', CHR ''b'', CHR ''t'', CHR ''n'', CHR ''v'', CHR ''f'', CHR ''r'', CHR 0x22]"
    | (digit) n :: nat where "c = digit_char (n mod 8)"
  proof (cases "of_char d < (32 :: nat) \<or> of_char d > (126 :: nat)")
    case True
    have "of_char d div 64 = of_char d div 16 div (4 :: nat)" by (simp add: div_mult2_eq [symmetric])
    then have "of_char d div 64 < (8 :: nat)" using of_char_nibbles(1) [of d] by linarith
    then have "\<exists>n. of_char d div 64 = (n :: nat) mod 8" by (intro exI [of _ "of_char d div 64"]) simp
    then show thesis using that assms(2) True by (auto simp: cescape_char_def split: if_splits)
  next
    case False
    then show thesis using that(1,2) assms(2) by (auto simp: cescape_char_def split: if_splits)
  qed
  then show ?thesis
  proof cases
    case self
    then show ?thesis using assms(1) unfolding ws by auto
  next
    case 2
    then show ?thesis unfolding ws by auto
  next
    case digit
    then show ?thesis using digit_char_plain [of n] unfolding ws by auto
  qed
qed

lemma cquote_visible:
  assumes "CHR '' '' \<notin> set s" and "c \<in> set (string_to_cquote s)"
  shows "\<not> strchr whitespaces c"
proof (cases "c = CHR 0x22")
  case True
  then show ?thesis by (simp add: strchr_def whitespaces_def cstr_def)
next
  case False
  then obtain d where "d \<in> set s" "c \<in> set (cescape_char d)"
    using assms(2) by (auto simp: string_to_cquote_def string_to_cescape_def)
  then show ?thesis using cescape_char_visible [of d c] assms(1) by auto
qed

lemma unquote_back: "string_from_cquote (CHR 0x22 # string_to_cescape s @ [CHR 0x22]) = s"
  by (simp add: string_from_cquote_def unquote_cescape unquote.simps(2))

text \<open>A section: its name, or its two parts.\<close>

lemma section_cases:
  assumes "section_ok n"
  obtains (name) "plain_name n" "sec_text n = n"
  | (path) a b where "n = a @ CHR ''.'' # b" "plain_name a" "b \<noteq> []" "CHR '' '' \<notin> set b" "CHR ''='' \<notin> set b" "NUL \<notin> set b"
      "sec_text n = a @ '' '' @ string_to_cquote b"
proof -
  define a where "a = takeWhile (\<lambda>c. c \<noteq> CHR ''.'') n"
  define r where "r = dropWhile (\<lambda>c. c \<noteq> CHR ''.'') n"
  have n: "n = a @ r" by (simp add: a_def r_def)
  then have r: "drop (length a) n = r" by simp
  have ok: "plain_name a" "length r \<noteq> 1" "list_all (\<lambda>c. c \<noteq> CHR '' '' \<and> c \<noteq> CHR ''='' \<and> c \<noteq> NUL) r"
    using assms unfolding section_ok_def Let_def a_def [symmetric] r by blast+
  show thesis
  proof (cases r)
    case Nil
    have "n = a" using n Nil by simp
    then have "sec_text n = n" "plain_name n" unfolding sec_text_def Let_def a_def [symmetric] using ok(1) by simp_all
    then show thesis by (rule name [rotated])
  next
    case (Cons c b)
    then have "c = CHR ''.''" using hd_dropWhile [of "\<lambda>c. c \<noteq> CHR ''.''" n] by (simp add: r_def)
    then have "n = a @ CHR ''.'' # b" using n Cons by simp
    moreover have "sec_text n = a @ '' '' @ string_to_cquote b"
      unfolding sec_text_def Let_def a_def [symmetric] using \<open>n = a @ CHR ''.'' # b\<close> by simp
    ultimately show thesis using path [of a b] ok Cons by (auto simp: list_all_iff)
  qed
qed

lemma scan_section:
  assumes "section_ok n"
  shows "scan_value (skip_whitespaces (sec_text n @ '']'' @ rest)) l ''[]'' = Some ('']'' @ rest, l, sec_text n) \<and> section_path (sec_text n) = n"
  using assms
proof (cases rule: section_cases)
  case name
  obtain c r where k: "n = c # r" "name_char c" using plain_nameD(1) [OF name(1)] by blast
  have "CHR 0x22 \<notin> set n" using plain_nameD(2) [OF name(1)] name_char_facts(2) by blast
  then have "\<not> strchr n (CHR 0x22)" unfolding strchr_def cstr_def by (auto dest: set_takeWhileD)
  moreover have "scan_value_loop ''[]'' (n @ '']'' @ rest) l [] = Some ('']'' @ rest, l, n)"
    using plain_name_last [OF name(1)] by (subst scan_name) (simp_all add: name(1) scan_value_ends strchr_def cstr_def rtrim_keeps)
  moreover have "skip_whitespaces (n @ '']'' @ rest) = n @ '']'' @ rest" using name_char_facts(16) [OF k(2)] by (simp add: k(1))
  ultimately show ?thesis by (simp add: name(2) section_path_def scan_value_def)
next
  case (path a b)
  obtain c r where k: "a = c # r" "name_char c" using plain_nameD(1) [OF path(2)] by blast
  have ws: "skip_whitespaces (sec_text n @ '']'' @ rest) = sec_text n @ '']'' @ rest"
    using name_char_facts(16) [OF k(2)] by (simp add: path(7) k(1))
  have "scan_value_loop ''[]'' (sec_text n @ '']'' @ rest) l [] = scan_value_loop ''[]'' ('' '' @ string_to_cquote b @ '']'' @ rest) l a"
    unfolding path(7) append_assoc by (subst scan_name) (simp_all add: path(2))
  also have "\<dots> = scan_value_loop ''[]'' (string_to_cquote b @ '']'' @ rest) l (a @ '' '')"
    by (simp add: scan_value_plain strchr_def cstr_def)
  also have "\<dots> = scan_value_loop ''[]'' ('']'' @ rest) l (a @ '' '' @ string_to_cquote b)" by (simp add: scan_cquote)
  also have "\<dots> = Some ('']'' @ rest, l, string_rtrim (a @ '' '' @ string_to_cquote b))"
    by (simp add: scan_value_ends strchr_def cstr_def)
  also have "string_rtrim (a @ '' '' @ string_to_cquote b) = a @ '' '' @ string_to_cquote b"
    by (rule rtrim_keeps) (simp add: string_to_cquote_def ISASCIINLSPACE_def)
  finally have "scan_value (skip_whitespaces (sec_text n @ '']'' @ rest)) l ''[]'' = Some ('']'' @ rest, l, sec_text n)"
    using ws by (simp only: scan_value_def path(7))
  moreover have "section_path (sec_text n) = n"
  proof -
    have "NUL \<notin> set (a @ '' '')" using plain_nameD(2) [OF path(2)] name_char_facts(13) by auto
    then have "strchr (sec_text n) (CHR 0x22)"
      unfolding path(7) strchr_def cstr_def string_to_cquote_def append_assoc [symmetric, of a]
      by (subst takeWhile_append2) auto
    moreover have "string_split (sec_text n) [] (2 ^ 64 - 1) = [a, string_to_cquote b]"
      unfolding path(7)
      by (rule split_two) (use plain_nameD(2) [OF path(2)] name_char_facts(17) cquote_visible [OF path(4)] k in \<open>auto simp: string_to_cquote_def\<close>)
    moreover have "take 1 a \<noteq> [CHR 0x22]" using name_char_facts(2) [OF k(2)] by (simp add: k(1))
    ultimately show ?thesis by (simp add: section_path_def path(1) string_join_def string_to_cquote_def unquote_back)
  qed
  ultimately show ?thesis by blast
qed

text \<open>What a writer holds: its sections in order, each with keys and values in order.\<close>

type_synonym settings = "(string \<times> (string \<times> string) list) list"

definition entry :: "string \<times> string \<Rightarrow> string" where
  "entry kv = fst kv @ ''='' @ snd kv"

definition render :: "settings \<Rightarrow> Section list" where
  "render M = map (\<lambda>(n, m). \<lparr>sec_name = n, entries = map entry m\<rparr>) M"

definition setting :: "string \<Rightarrow> string \<Rightarrow> string \<Rightarrow> settings \<Rightarrow> settings" where
  "setting n k v M = AList.update n (AList.update k v (case map_of M n of Some m \<Rightarrow> m | None \<Rightarrow> [])) M"

definition settings_ok :: "settings \<Rightarrow> bool" where
  "settings_ok M \<longleftrightarrow> distinct (map fst M) \<and>
     (\<forall>(n, m)\<in>set M. section_ok n \<and> m \<noteq> [] \<and> distinct (map fst m) \<and> (\<forall>(k, v)\<in>set m. plain_name k \<and> value_ok v))"

fun first_index :: "('a \<Rightarrow> bool) \<Rightarrow> nat \<Rightarrow> 'a list \<Rightarrow> nat option" where
  "first_index P i [] = None"
| "first_index P i (x # xs) = (if P x then Some i else first_index P (Suc i) xs)"

lemma find_first_index: "find_section_index i ss name = first_index (\<lambda>s. sec_name s = name) i ss"
  "find_entry_index i es name = first_index (entry_has_key name) i es"
  by (induction ss arbitrary: i; simp) (induction es arbitrary: i; simp)

lemma first_index_cases:
  obtains "first_index P i xs = None" "\<And>x. x \<in> set xs \<Longrightarrow> \<not> P x"
  | ys x zs where "first_index P i xs = Some (i + length ys)" "xs = ys @ x # zs" "P x" "\<And>y. y \<in> set ys \<Longrightarrow> \<not> P y"
proof -
  have "first_index P i xs = None \<and> (\<forall>x\<in>set xs. \<not> P x) \<or>
    (\<exists>ys x zs. first_index P i xs = Some (i + length ys) \<and> xs = ys @ x # zs \<and> P x \<and> (\<forall>y\<in>set ys. \<not> P y))"
  proof (induction xs arbitrary: i)
    case (Cons a xs)
    show ?case
    proof (cases "P a")
      case True
      then show ?thesis by (intro disjI2 exI [of _ "[]"] exI [of _ a] exI [of _ xs]) simp
    next
      case False
      from Cons.IH [of "Suc i"] show ?thesis
      proof
        assume "\<exists>ys x zs. first_index P (Suc i) xs = Some (Suc i + length ys) \<and> xs = ys @ x # zs \<and> P x \<and> (\<forall>y\<in>set ys. \<not> P y)"
        then obtain ys x zs where "first_index P (Suc i) xs = Some (Suc i + length ys)" "xs = ys @ x # zs" "P x" "\<forall>y\<in>set ys. \<not> P y" by blast
        then show ?thesis using False by (intro disjI2 exI [of _ "a # ys"] exI [of _ x] exI [of _ zs]) simp
      qed (use False in simp)
    qed
  qed simp
  then show thesis using that by blast
qed

lemma entry_has_key_entry:
  assumes "CHR ''='' \<notin> set k" and "CHR ''='' \<notin> set (fst e)"
  shows "entry_has_key k (entry e) \<longleftrightarrow> fst e = k"
proof
  assume h: "entry_has_key k (entry e)"
  then have l: "entry e ! length k = CHR ''=''" "take (length k) (entry e) = k" by (simp_all add: entry_has_key_def)
  consider "length k < length (fst e)" | "length k = length (fst e)" | "length (fst e) < length k" by linarith
  then show "fst e = k"
  proof cases
    case 1
    then show ?thesis using l(1) assms(2) by (simp add: entry_def nth_append) (metis nth_mem)
  next
    case 2
    then show ?thesis using l(2) by (simp add: entry_def)
  next
    case 3
    then have "CHR ''='' \<in> set (take (length k) (entry e))" by (simp add: entry_def take_Cons')
    then show ?thesis using l(2) assms(1) by simp
  qed
qed (auto simp: entry_has_key_def entry_def)

lemma update_split: "k \<notin> fst ` set ys \<Longrightarrow> AList.update k v (ys @ (k, u) # zs) = ys @ (k, v) # zs"
  by (induction ys) auto

lemma update_new: "k \<notin> fst ` set ys \<Longrightarrow> AList.update k v ys = ys @ [(k, v)]"
  by (induction ys) auto

lemma rfind_dot_path:
  assumes "CHR ''.'' \<notin> set k"
  shows "rfind_dot (n @ CHR ''.'' # k) = length n"
proof -
  have "takeWhile (\<lambda>c. c \<noteq> CHR ''.'') (rev k @ CHR ''.'' # rev n) = rev k" using assms by (subst takeWhile_append2) auto
  then show ?thesis by (simp add: rfind_dot_def)
qed

lemma no_sign:
  assumes "plain_name k"
  shows "CHR ''='' \<notin> set k" "CHR ''.'' \<notin> set k" "NUL \<notin> set k" "k \<noteq> []"
  using assms plain_nameD(2) [OF assms] name_char_facts(10,12,13) by (auto simp: plain_name_def)

lemma render_append: "render (M @ N) = render M @ render N" "render [(n, m)] = [\<lparr>sec_name = n, entries = map entry m\<rparr>]"
  by (simp_all add: render_def)

lemma ini_set_render:
  assumes M: "settings_ok M" and n: "section_ok n" and k: "plain_name k"
  shows "ini_set (n @ CHR ''.'' # k) v (render M) = render (setting n k v M)"
proof -
  have "n \<noteq> []" "length n < 2 ^ 63" using n by (auto simp: section_ok_def plain_name_def Let_def)
  then have p: "rfind_dot (n @ CHR ''.'' # k) = length n" "(length n + 1) mod 2 ^ 64 = length n + 1" "length n \<noteq> 0"
    using no_sign(2) [OF k] by (simp_all add: rfind_dot_path)
  have entries: "(case find_entry (map entry m) k True of
      (es, Some idx) \<Rightarrow> es[idx := k @ ''='' @ v] | (es, None) \<Rightarrow> es) = map entry (AList.update k v m) \<and>
      snd (find_entry (map entry m) k True) \<noteq> None"
    if m: "\<And>e. e \<in> set m \<Longrightarrow> plain_name (fst e)" for m
  proof (cases rule: first_index_cases [of "entry_has_key k" 0 "map entry m"])
    case 1
    then have "k \<notin> fst ` set m" using m no_sign(1) [OF k] entry_has_key_entry no_sign(1) by fastforce
    then show ?thesis using 1(1) by (simp add: find_entry_def find_first_index update_new entry_def list_update_append)
  next
    case (2 ys x zs)
    then obtain as a bs where m': "m = as @ a # bs" "ys = map entry as" "x = entry a" "zs = map entry bs"
      by (auto simp: map_eq_append_conv map_eq_Cons_conv)
    have "fst a = k" "k \<notin> fst ` set as" using 2(3,4) m no_sign(1) [OF k] entry_has_key_entry no_sign(1)
      unfolding m' by fastforce+
    then have "AList.update k v m = as @ (k, v) # bs" using update_split [of k as v "snd a" bs] by (cases a) (simp add: m')
    then show ?thesis using 2(1) by (simp add: find_entry_def find_first_index m' entry_def list_update_append)
  qed
  show ?thesis
  proof (cases rule: first_index_cases [of "\<lambda>s. sec_name s = n" 0 "render M"])
    case 1
    then have new: "n \<notin> fst ` set M" by (force simp: render_def)
    then have "map_of M n = None" by (simp add: map_of_eq_None_iff)
    then have "setting n k v M = M @ [(n, [(k, v)])]" using new by (simp add: setting_def update_new)
    moreover have "find_section (render M) n True = (render M @ [\<lparr>sec_name = n, entries = []\<rparr>], Some (length (render M)))"
      using 1(1) by (simp add: find_section_def find_first_index)
    ultimately show ?thesis
      using p no_sign(4) [OF k]
      by (simp add: ini_set_def Let_def find_entry_def render_append nth_append list_update_append entry_def)
  next
    case (2 ys x zs)
    then obtain as a bs where M': "M = as @ a # bs" "ys = render as" "x = \<lparr>sec_name = fst a, entries = map entry (snd a)\<rparr>" "zs = render bs"
      by (auto simp: map_eq_append_conv map_eq_Cons_conv render_def prod.case_eq_if)
    have a: "fst a = n" "n \<notin> fst ` set as" using 2(3,4) unfolding M' by (force simp: render_def)+
    moreover have "map_of as n = None" using a(2) by (simp only: map_of_eq_None_iff) blast
    ultimately have "map_of M n = Some (snd a)" by (cases a) (simp add: M' map_add_def)
    then have s: "setting n k v M = as @ (n, AList.update k v (snd a)) # bs"
      using update_split [OF a(2), of _ "snd a" bs] a(1) by (cases a) (simp add: setting_def M')
    have "e \<in> set (snd a) \<Longrightarrow> plain_name (fst e)" for e using M by (force simp: settings_ok_def M')
    note e = entries [of "snd a", OF this]
    obtain es idx where es: "find_entry (map entry (snd a)) k True = (es, Some idx)"
      using e by (cases "find_entry (map entry (snd a)) k True") auto
    have "find_section (render M) n True = (render M, Some (length ys))"
      using 2(1) by (simp add: find_section_def find_first_index)
    moreover have "es[idx := k @ ''='' @ v] = map entry (AList.update k v (snd a))" using e es by simp
    ultimately have "ini_set (n @ CHR ''.'' # k) v (render M) =
        ys @ \<lparr>sec_name = n, entries = map entry (AList.update k v (snd a))\<rparr> # zs"
      using p no_sign(4) [OF k] es a(1)
      by (simp add: ini_set_def Let_def 2(2) M'(3) nth_append list_update_append)
    then show ?thesis by (simp add: s M'(2,4) render_def)
  qed
qed

lemma settings_ok_setting:
  assumes "settings_ok M" and "section_ok n" "plain_name k" "value_ok v"
  shows "settings_ok (setting n k v M)"
proof -
  define m where "m = (case map_of M n of Some m \<Rightarrow> m | None \<Rightarrow> [])"
  have m: "distinct (map fst m)" "\<forall>(k, v)\<in>set m. plain_name k \<and> value_ok v"
  proof -
    have "distinct (map fst m) \<and> (\<forall>(k, v)\<in>set m. plain_name k \<and> value_ok v)"
    proof (cases "map_of M n")
      case (Some u)
      have "section_ok n \<and> u \<noteq> [] \<and> distinct (map fst u) \<and> (\<forall>(k, v)\<in>set u. plain_name k \<and> value_ok v)"
        using assms(1) map_of_SomeD [OF Some] unfolding settings_ok_def by blast
      then show ?thesis by (simp add: m_def Some)
    qed (simp add: m_def)
    then show "distinct (map fst m)" "\<forall>(k, v)\<in>set m. plain_name k \<and> value_ok v" by blast+
  qed
  have upd: "set (AList.update x y al) \<subseteq> insert (x, y) (set al)" for x :: string and y :: 'x and al
    by (induction al) auto
  define u where "u = AList.update k v m"
  have "\<forall>(k, v)\<in>set u. plain_name k \<and> value_ok v" using m(2) assms(3,4) upd [of k v m] unfolding u_def by blast
  moreover have "distinct (map fst u)" unfolding u_def using m(1) by (rule distinct_update)
  moreover have "u \<noteq> []" unfolding u_def by (cases m) auto
  ultimately have n: "case (n, u) of (n, m) \<Rightarrow> section_ok n \<and> m \<noteq> [] \<and> distinct (map fst m) \<and> (\<forall>(k, v)\<in>set m. plain_name k \<and> value_ok v)"
    using assms(2) by simp
  have M: "distinct (map fst M)" "\<forall>(n, m)\<in>set M. section_ok n \<and> m \<noteq> [] \<and> distinct (map fst m) \<and> (\<forall>(k, v)\<in>set m. plain_name k \<and> value_ok v)"
    using assms(1) unfolding settings_ok_def by blast+
  have "distinct (map fst (AList.update n u M))" using M(1) by (rule distinct_update)
  moreover have "\<forall>(n, m)\<in>set (AList.update n u M). section_ok n \<and> m \<noteq> [] \<and> distinct (map fst m) \<and> (\<forall>(k, v)\<in>set m. plain_name k \<and> value_ok v)"
    using n M(2) upd [of n u M] by blast
  ultimately show ?thesis unfolding setting_def m_def [symmetric] u_def [symmetric] settings_ok_def by (rule conjI)
qed

lemma map_of_setting:
  "(case map_of (setting n k v M) n' of Some m \<Rightarrow> map_of m k' | None \<Rightarrow> None) =
   (if n' = n \<and> k' = k then Some v else case map_of M n' of Some m \<Rightarrow> map_of m k' | None \<Rightarrow> None)"
  by (auto simp: setting_def update_conv split: option.splits)

text \<open>Loading the text of a section, and of all sections.\<close>

definition push_section :: "string \<times> (string \<times> string) list \<Rightarrow> section_map \<Rightarrow> section_map" where
  "push_section = (\<lambda>(n, m). fold (\<lambda>(k, v). push_entry n (k @ ''='' @ written_value v)) m)"

lemma load_entries:
  assumes "\<forall>(k, v)\<in>set m. plain_name k \<and> value_ok v" and "\<not> strchr n CHR ''=''"
  shows "load_loop (concat (map output_entry (map entry m)) @ rest) l n ss =
    load_loop rest (l + length m) n (fold (\<lambda>(k, v). push_entry n (k @ ''='' @ written_value v)) m ss)"
  using assms(1)
proof (induction m arbitrary: l ss)
  case (Cons e m)
  obtain k v where e: "e = (k, v)" "plain_name k" "value_ok v" using Cons.prems by (cases e) auto
  have "\<not> strchr k CHR ''.''" using no_sign(2) [OF e(2)] by (auto simp: strchr_def cstr_def dest: set_takeWhileD)
  then have "add_assignment n k [] (written_value v) ss = push_entry n (k @ ''='' @ written_value v) ss"
    using assms(2) by (simp add: add_assignment_def)
  moreover have "load_loop (concat (map output_entry (map entry (e # m))) @ rest) l n ss =
      load_loop (output_entry (k @ ''='' @ v) @ concat (map output_entry (map entry m)) @ rest) l n ss"
    by (simp add: e(1) entry_def)
  ultimately show ?case using Cons.IH [of "l + 1"] Cons.prems unfolding load_entry [OF e(2,3)] by (simp add: e(1))
qed simp

lemma load_section:
  assumes "section_ok n" and "\<forall>(k, v)\<in>set m. plain_name k \<and> value_ok v" and "m \<noteq> []"
  shows "load_loop (output_section \<lparr>sec_name = n, entries = map entry m\<rparr> @ rest) l cur ss =
    load_loop rest (l + 1 + length m) n (push_section (n, m) ss)"
proof -
  define p where "p = sec_text n @ '']'' @ CHR 0x0A # concat (map output_entry (map entry m)) @ rest"
  have o: "output_section \<lparr>sec_name = n, entries = map entry m\<rparr> @ rest = CHR ''['' # p"
    using assms(3) by (simp add: output_section_def p_def sec_text_def Let_def)
  have "skip_commentline (CHR ''['' # p) l = None" by (simp add: skip_commentline_def)
  moreover have "parse_section (CHR ''['' # p) l = Some (concat (map output_entry (map entry m)) @ rest, l + 1, sec_text n)"
    using scan_section [OF assms(1), of "CHR 0x0A # concat (map output_entry (map entry m)) @ rest" l]
    by (simp add: parse_section_def p_def skip_to_eol_def)
  moreover have "\<not> strchr n CHR ''=''"
  proof -
    have "CHR ''='' \<notin> set n" using assms(1)
    proof (cases rule: section_cases)
      case (path a b)
      then show ?thesis using no_sign(1) [OF path(2)] by simp
    qed (use no_sign(1) in blast)
    then show ?thesis by (auto simp: strchr_def cstr_def dest: set_takeWhileD)
  qed
  ultimately show ?thesis
    unfolding o using scan_section [OF assms(1), of "[]"] load_entries [OF assms(2), of n rest "l + 1" ss]
    by (subst load_loop.simps) (simp add: push_section_def)
qed

lemma load_sections:
  assumes "settings_ok M"
  shows "load_loop (ini_output (render M)) l cur ss = fold push_section M ss"
proof -
  have "\<forall>(n, m)\<in>set M. section_ok n \<and> m \<noteq> [] \<and> (\<forall>(k, v)\<in>set m. plain_name k \<and> value_ok v) \<Longrightarrow>
      load_loop (ini_output (render M)) l cur ss = fold push_section M ss"
  proof (induction M arbitrary: l cur ss)
    case (Cons e M)
    obtain n m where e: "e = (n, m)" by fastforce
    have "ini_output (render (e # M)) = output_section \<lparr>sec_name = n, entries = map entry m\<rparr> @ ini_output (render M)"
      by (simp add: ini_output_def render_def e)
    then show ?case using Cons by (auto simp: load_section e)
  qed (simp add: ini_output_def render_def)
  then show ?thesis using assms unfolding settings_ok_def by blast
qed

text \<open>The map that is loaded.\<close>

lemma push_entry_map:
  assumes "sorted_wrt (<) (map fst ss)"
  shows "sorted_wrt (<) (map fst (push_entry n e ss))"
    "map_of (push_entry n e ss) = (map_of ss)(n \<mapsto> (case map_of ss n of Some es \<Rightarrow> es | None \<Rightarrow> []) @ [e])"
proof -
  have keys: "fst ` set (push_entry n e ss) = insert n (fst ` set ss)" for n e ss
    by (induction n e ss rule: push_entry.induct) auto
  show "sorted_wrt (<) (map fst (push_entry n e ss))" using assms
  proof (induction n e ss rule: push_entry.induct)
    case (2 s e n es ss)
    show ?case
    proof (cases s n rule: linorder_cases)
      case less
      then have "\<forall>y\<in>fst ` set ss. s < y" using 2(2) less_trans by (simp add: ball_simps) blast
      then show ?thesis using 2(2) less by simp
    next
      case equal
      then show ?thesis using 2(2) by simp
    next
      case greater
      then have "\<not> s < n" "s \<noteq> n" by auto
      then show ?thesis using 2 keys [of s e ss] greater by simp
    qed
  qed simp
  show "map_of (push_entry n e ss) = (map_of ss)(n \<mapsto> (case map_of ss n of Some es \<Rightarrow> es | None \<Rightarrow> []) @ [e])" using assms
  proof (induction n e ss rule: push_entry.induct)
    case (2 s e n es ss)
    have "map_of ss s = None" if "s < n"
      using 2(2) that less_trans [OF that] unfolding map_of_eq_None_iff by fastforce
    then show ?case using 2 by (auto simp: fun_eq_iff)
  qed auto
qed

lemma push_section_map:
  assumes "sorted_wrt (<) (map fst ss)" and "m \<noteq> []"
  shows "sorted_wrt (<) (map fst (push_section (n, m) ss))"
    "map_of (push_section (n, m) ss) =
      (map_of ss)(n \<mapsto> (case map_of ss n of Some es \<Rightarrow> es | None \<Rightarrow> []) @ map (\<lambda>(k, v). k @ ''='' @ written_value v) m)"
proof -
  have "sorted_wrt (<) (map fst (push_section (n, m) ss)) \<and> (m \<noteq> [] \<longrightarrow>
    map_of (push_section (n, m) ss) =
      (map_of ss)(n \<mapsto> (case map_of ss n of Some es \<Rightarrow> es | None \<Rightarrow> []) @ map (\<lambda>(k, v). k @ ''='' @ written_value v) m))"
    using assms(1)
  proof (induction m arbitrary: ss)
    case (Cons e m)
    obtain k v where e: "e = (k, v)" by fastforce
    note p = push_entry_map [OF Cons.prems, of n "k @ ''='' @ written_value v"]
    show ?case
    proof (cases "m = []")
      case True
      then show ?thesis using p by (simp add: push_section_def e)
    next
      case False
      then show ?thesis using Cons.IH [OF p(1)] p(2) by (auto simp: push_section_def e fun_eq_iff)
    qed
  qed (simp add: push_section_def)
  then show "sorted_wrt (<) (map fst (push_section (n, m) ss))"
    "map_of (push_section (n, m) ss) =
      (map_of ss)(n \<mapsto> (case map_of ss n of Some es \<Rightarrow> es | None \<Rightarrow> []) @ map (\<lambda>(k, v). k @ ''='' @ written_value v) m)"
    using assms(2) by simp_all
qed

lemma push_sections_map:
  assumes "distinct (map fst M)" and "\<forall>(n, m)\<in>set M. m \<noteq> []" and "sorted_wrt (<) (map fst ss)" and "fst ` set M \<inter> dom (map_of ss) = {}"
  shows "map_of (fold push_section M ss) n =
    (case map_of M n of Some m \<Rightarrow> Some (map (\<lambda>(k, v). k @ ''='' @ written_value v) m) | None \<Rightarrow> map_of ss n)"
  using assms
proof (induction M arbitrary: ss)
  case (Cons e M)
  obtain n' m where e: "e = (n', m)" "m \<noteq> []" using Cons.prems(2) by (cases e) auto
  note p = push_section_map [OF Cons.prems(3) e(2), of n']
  have none: "map_of ss n' = None" using Cons.prems(4) by (auto simp: e(1))
  have "map_of (fold push_section M (push_section (n', m) ss)) n =
      (case map_of M n of Some m \<Rightarrow> Some (map (\<lambda>(k, v). k @ ''='' @ written_value v) m) | None \<Rightarrow> map_of (push_section (n', m) ss) n)"
  proof (intro Cons.IH p(1))
    have "dom (map_of (push_section (n', m) ss)) = insert n' (dom (map_of ss))" unfolding p(2) by auto
    then show "fst ` set M \<inter> dom (map_of (push_section (n', m) ss)) = {}" using Cons.prems(1,4) by (auto simp: e(1))
  qed (use Cons.prems in auto)
  moreover have "map_of M n' = None" using Cons.prems(1) by (simp add: e(1) map_of_eq_None_iff)
  moreover have "map_of (push_section (n', m) ss) n = (if n = n' then Some (map (\<lambda>(k, v). k @ ''='' @ written_value v) m) else map_of ss n)"
    by (simp only: p(2) fun_upd_apply none option.case append_Nil)
  ultimately show ?case by (auto simp: e(1) split: option.split)
qed simp

lemma last_dot_path:
  assumes "NUL \<notin> set n" "NUL \<notin> set k" "CHR ''.'' \<notin> set k"
  shows "last_dot (n @ CHR ''.'' # k) = Some (length n)"
proof -
  have "cstr (n @ CHR ''.'' # k) = n @ CHR ''.'' # k" using assms(1,2) by (auto simp: cstr_def takeWhile_eq_all_conv)
  moreover have "takeWhile (\<lambda>c. c \<noteq> CHR ''.'') (rev k @ CHR ''.'' # rev n) = rev k" using assms(3) by (subst takeWhile_append2) auto
  ultimately show ?thesis by (simp add: last_dot_def)
qed

lemma section_no_nul: "section_ok n \<Longrightarrow> NUL \<notin> set n"
proof -
  assume "section_ok n"
  then show ?thesis
  proof (cases rule: section_cases)
    case (path a b)
    then show ?thesis using no_sign(3) [OF path(2)] by simp
  qed (use no_sign(3) in blast)
qed

lemma written_no_nul: "value_ok v \<Longrightarrow> NUL \<notin> set (written_value v)"
proof -
  assume v: "value_ok v"
  have "NUL \<notin> set (cescape_char d)" for d
  proof (cases "d = CHR '' ''")
    case True
    have "NUL \<notin> set (cescape_char CHR '' '')" by code_simp
    then show ?thesis by (simp add: True)
  qed (use cescape_char_visible [of d NUL] in blast)
  then have "NUL \<notin> set (string_to_cquote v)" by (simp add: string_to_cquote_def string_to_cescape_def)
  then show ?thesis using v by (simp add: written_value_def value_ok_def)
qed

lemma output_no_nul:
  assumes "settings_ok M"
  shows "cstr (ini_output (render M)) = ini_output (render M)"
proof -
  have "NUL \<notin> set (output_section \<lparr>sec_name = n, entries = map entry m\<rparr>)" if "(n, m) \<in> set M" for n m
  proof -
    have n: "section_ok n" and m: "\<forall>(k, v)\<in>set m. plain_name k \<and> value_ok v"
      using assms that unfolding settings_ok_def by blast+
    have "NUL \<notin> set (sec_text n)"
      using n
    proof (cases rule: section_cases)
      case (path a b)
      have "NUL \<notin> set (string_to_cquote b)"
      proof
        assume "NUL \<in> set (string_to_cquote b)"
        from cquote_visible [OF path(4) this] show False by (simp add: strchr_def)
      qed
      then show ?thesis using no_sign(3) [OF path(2)] by (simp add: path(7))
    qed (use no_sign(3) in simp)
    moreover have "NUL \<notin> set (output_entry (entry e))" if em: "e \<in> set m" for e
    proof -
      obtain k v where e: "e = (k, v)" "plain_name k" "value_ok v" using m em by (cases e) auto
      then show ?thesis using output_entry_eq [OF e(2), of v] no_sign(3) [OF e(2)] written_no_nul [OF e(3)] by (simp add: entry_def)
    qed
    ultimately show ?thesis by (auto simp: output_section_def sec_text_def Let_def)
  qed
  then have "NUL \<notin> set (ini_output (render M))" by (auto simp: ini_output_def render_def)
  then show ?thesis unfolding cstr_def by (auto simp: takeWhile_eq_all_conv)
qed

lemma raw_value_written:
  assumes M: "settings_ok M" and n: "section_ok n" and k: "plain_name k"
  shows "has_raw_value (IniFile (ini_output (render M))) (n @ CHR ''.'' # k) =
    (case map_of M n of Some m \<Rightarrow> map_option written_value (map_of m k) | None \<Rightarrow> None)"
proof -
  have Mok: "distinct (map fst M)" "\<forall>(n, m)\<in>set M. section_ok n \<and> m \<noteq> [] \<and> distinct (map fst m) \<and> (\<forall>(k, v)\<in>set m. plain_name k \<and> value_ok v)"
    using M unfolding settings_ok_def by blast+
  have ini: "map_of (IniFile (ini_output (render M))) n = map_option (map (\<lambda>(k, v). k @ ''='' @ written_value v)) (map_of M n)"
  proof -
    have "IniFile (ini_output (render M)) = fold push_section M []"
      by (simp only: IniFile_def load_ini_def output_no_nul [OF M] load_sections [OF M])
    moreover have "\<forall>(n, m)\<in>set M. m \<noteq> []" using Mok(2) by blast
    ultimately show ?thesis using push_sections_map [OF Mok(1), of "[]" n] by (simp split: option.split)
  qed
  have find: "find (entry_has_key k) (map (\<lambda>(k, v). k @ ''='' @ written_value v) m) = map_option (\<lambda>v. k @ ''='' @ written_value v) (map_of m k)"
    if "\<forall>(k, v)\<in>set m. plain_name k \<and> value_ok v" for m
    using that
  proof (induction m)
    case (Cons e m)
    obtain k' v where e: "e = (k', v)" "plain_name k'" using Cons.prems by (cases e) auto
    have "entry_has_key k (k' @ ''='' @ written_value v) \<longleftrightarrow> k' = k"
      using entry_has_key_entry [of k "(k', written_value v)"] no_sign(1) [OF k] no_sign(1) [OF e(2)] by (simp add: entry_def)
    then show ?case using Cons by (simp add: e(1))
  qed simp
  have "last_dot (n @ CHR ''.'' # k) = Some (length n)"
    by (rule last_dot_path) (use section_no_nul [OF n] no_sign [OF k] in auto)
  moreover have "drop (length k + 1) (k @ ''='' @ w) = w" for w :: string by simp
  moreover have "\<forall>(k, v)\<in>set m. plain_name k \<and> value_ok v" if "map_of M n = Some m" for m
    using Mok(2) map_of_SomeD [OF that] by blast
  ultimately show ?thesis
    using find by (cases "map_of M n") (auto simp: has_raw_value_def ini_section_def ini option.map_comp comp_def)
qed

text \<open>Cooking gives the value back where it has no character that is escaped.\<close>

definition printable :: "string \<Rightarrow> bool" where
  "printable v \<longleftrightarrow> list_all (\<lambda>c. of_char c \<ge> (32 :: nat) \<and> of_char c \<le> (126 :: nat) \<and> c \<noteq> CHR 0x22 \<and> c \<noteq> CHR 0x5C) v \<and>
     (v = [] \<or> hd v \<noteq> CHR 0x27)"

lemma cook_plain:
  "list_all (\<lambda>c. c \<noteq> CHR 0x5C \<and> c \<noteq> CHR 0x22 \<and> c \<noteq> CHR 0x27) v \<Longrightarrow> cook_loop v w = Some (w @ v)"
  by (induction v arbitrary: w) (simp_all add: cook_loop.simps(2))

lemma cook_written:
  assumes "value_ok v" and "printable v"
  shows "cook_string (written_value v) = Some v"
proof -
  have c: "cstr (written_value v) = written_value v"
    using written_no_nul [OF assms(1)] unfolding cstr_def by (auto simp: takeWhile_eq_all_conv)
  show ?thesis
  proof (cases "string_is_canonified v allowed_chars")
    case True
    have "list_all (\<lambda>c. c \<noteq> CHR 0x5C \<and> c \<noteq> CHR 0x22 \<and> c \<noteq> CHR 0x27) v"
    proof (unfold list_all_iff, intro ballI)
      fix c assume "c \<in> set v"
      then have "strchr allowed_chars c" "c \<noteq> NUL" using True assms(1) by (auto simp: string_is_canonified_def list_all_iff value_ok_def)
      from allowed_char_facts [OF this] show "c \<noteq> CHR 0x5C \<and> c \<noteq> CHR 0x22 \<and> c \<noteq> CHR 0x27" by (simp add: allowed_plain_def)
    qed
    from cook_plain [OF this] show ?thesis using c True by (simp add: cook_string_def written_value_def)
  next
    case False
    have "cescape_char d = [d]" if "d \<in> set v" for d
    proof -
      have "of_char d \<ge> (32 :: nat)" "of_char d \<le> (126 :: nat)" "d \<noteq> CHR 0x22" "d \<noteq> CHR 0x5C"
        using assms(2) that by (auto simp: printable_def list_all_iff)
      moreover from this have "d \<notin> {CHR 0x07, CHR 0x08, CHR 0x09, CHR 0x0A, CHR 0x0B, CHR 0x0C, CHR 0x0D}" by auto
      ultimately show ?thesis by (simp add: cescape_char_def not_less)
    qed
    then have "string_to_cescape v = v" unfolding string_to_cescape_def by (induction v) auto
    then have q: "string_to_cquote v = CHR 0x22 # v @ [CHR 0x22]" by (simp add: string_to_cquote_def)
    have "string_from_cquote v = v"
      using assms(2) by (cases v) (simp_all add: string_from_cquote_def printable_def)
    moreover have "scan_escaped (CHR 0x22) (v @ [CHR 0x22]) 0 = Some ([], 0)"
      using scan_cescape [of v "[]" 0] \<open>string_to_cescape v = v\<close> by simp
    ultimately have "cook_loop (CHR 0x22 # v @ [CHR 0x22]) [] = Some v" by (subst cook_loop.simps) simp
    then show ?thesis using c False by (simp add: cook_string_def written_value_def q)
  qed
qed



text \<open>
  What is not read back: the text after a semicolon, which the writer takes for a plain character and the reader for a
  comment, and characters that the writer escapes and the reader leaves escaped.  A key without a point is not refused.
  A backslash before spaces at the end of a line makes cooking read behind the string.
\<close>

lemma ini_defects:
  "has_value (IniFile (ini_output (ini_set ''a.k'' ''x;y'' []))) ''a.k'' = Some (Some ''x'')"
  "has_value (IniFile (ini_output (ini_set ''a.k'' [CHR ''x'', CHR 0x0A] []))) ''a.k'' = Some (Some [CHR ''x'', CHR 0x5C, CHR ''n''])"
  "ini_set ''key'' ''v'' [] = [\<lparr>sec_name = ''key'', entries = [''key=v'']\<rparr>]"
  "has_value (IniFile (''[a]'' @ [CHR 0x0A] @ ''k=v'' @ [CHR 0x5C, CHR '' '', CHR 0x0A])) ''a.k'' = Some None"
proof -
  have s: "ini_set ''a.k'' v [] = [\<lparr>sec_name = ''a'', entries = [''k='' @ v]\<rparr>]" for v
    by (simp add: ini_set_def rfind_dot_def find_section_def find_entry_def)
  show "has_value (IniFile (ini_output (ini_set ''a.k'' ''x;y'' []))) ''a.k'' = Some (Some ''x'')"
    unfolding s by code_simp
  show "has_value (IniFile (ini_output (ini_set ''a.k'' [CHR ''x'', CHR 0x0A] []))) ''a.k'' = Some (Some [CHR ''x'', CHR 0x5C, CHR ''n''])"
    unfolding s by code_simp
  show "ini_set ''key'' ''v'' [] = [\<lparr>sec_name = ''key'', entries = [''key=v'']\<rparr>]"
    by (simp add: ini_set_def rfind_dot_def find_section_def find_entry_def)
  show "has_value (IniFile (''[a]'' @ [CHR 0x0A] @ ''k=v'' @ [CHR 0x5C, CHR '' '', CHR 0x0A])) ''a.k'' = Some None"
    by code_simp
qed

end
