(* ===== verification/Loft.thy ===== *)
theory Loft
  imports Prelude
begin

section \<open>The Loft allocator (ase/loft.cc, ase/loft.hh)\<close>

text \<open>
  Sizes and addresses are natural numbers, reduced modulo \<open>2 ^ 64\<close> where the code can wrap around.  A bucket is the
  list of its free blocks: its \<open>MpmcStack\<close> is an atomic stack (theory \<open>MpmcStack\<close>), and \<open>bump_alloc\<close> takes effect in the
  one exchange that moves the offset, so every call is one step on the state.  What is undefined in C++, and a loop
  that does not end, is \<open>None\<close>.  The debug option that replaces the allocator by \<open>aligned_alloc\<close> is left out.
\<close>

subsection \<open>Buckets\<close>

definition SMALL_BLOCK_LIMIT :: nat where "SMALL_BLOCK_LIMIT = 8192"
definition SMALL_BLOCK_BUCKETS :: nat where "SMALL_BLOCK_BUCKETS = SMALL_BLOCK_LIMIT div 64"
definition NUMBER_OF_POWER2_BUCKETS :: nat where "NUMBER_OF_POWER2_BUCKETS = 8 * 8"
definition NUMBER_OF_BUCKETS :: nat where "NUMBER_OF_BUCKETS = NUMBER_OF_POWER2_BUCKETS + SMALL_BLOCK_BUCKETS"

text \<open>\<open>1 << index\<close> is an \<open>int\<close>: its top bit makes a negative number, which becomes a large \<open>size_t\<close>; further shifts are undefined.\<close>

definition bucket_size :: "nat \<Rightarrow> nat option" where
  "bucket_size i =
     (if i < NUMBER_OF_POWER2_BUCKETS
      then (if i < 31 then Some (2 ^ i) else if i = 31 then Some (2 ^ 64 - 2 ^ 31) else None)
      else Some ((i - NUMBER_OF_POWER2_BUCKETS + 1) * 64))"

text \<open>\<open>64 - __builtin_clzll (n)\<close>, the number of bits of \<open>n\<close>.\<close>

fun bit_length :: "nat \<Rightarrow> nat" where
  "bit_length n = (if n = 0 then 0 else Suc (bit_length (n div 2)))"

declare bit_length.simps [simp del]

definition bucket_index :: "nat \<Rightarrow> nat" where
  "bucket_index n =
     (let n = n + of_bool (n = 0) in
      if n \<le> SMALL_BLOCK_LIMIT then NUMBER_OF_POWER2_BUCKETS + (n - 1) div 64 else bit_length (n - 1))"

subsection \<open>The bump allocator\<close>

definition MINIMUM_HUGEPAGE :: nat where "MINIMUM_HUGEPAGE = 2 * 1024 * 1024"

definition MEM_ALIGN :: "nat \<Rightarrow> nat \<Rightarrow> nat" where
  "MEM_ALIGN addr ALIGNMENT = (ALIGNMENT * (((addr + ALIGNMENT - 1) mod 2 ^ 64) div ALIGNMENT)) mod 2 ^ 64"

record MMSpan =
  mmstart :: nat
  offset :: nat
  mmsize :: nat

record BumpAllocator =
  totalmem :: nat
  spans :: "MMSpan list"

text \<open>
  The system calls, which know what is mapped: whether \<open>mremap\<close> grows a region in place, and where \<open>mmap\<close> puts a new
  one.  The search for an address with headroom only gives \<open>mmap\<close> a hint.
\<close>

record Os =
  mremap :: "MMSpan list \<Rightarrow> nat \<Rightarrow> nat \<Rightarrow> nat \<Rightarrow> bool"
  mmap :: "MMSpan list \<Rightarrow> nat \<Rightarrow> nat option"

definition remap :: "Os \<Rightarrow> MMSpan list \<Rightarrow> nat \<Rightarrow> nat \<Rightarrow> nat \<Rightarrow> nat option" where
  "remap os ss addr oldsize sz =
     (if MEM_ALIGN sz MINIMUM_HUGEPAGE \<noteq> sz then None
      else if mremap os ss addr oldsize sz then Some addr else None)"

text \<open>The unaligned head and the tail of the new region are unmapped again.\<close>

definition memmap :: "Os \<Rightarrow> MMSpan list \<Rightarrow> nat \<Rightarrow> nat option" where
  "memmap os ss sz =
     (if MEM_ALIGN sz MINIMUM_HUGEPAGE \<noteq> sz then None
      else
        case mmap os ss ((sz + MINIMUM_HUGEPAGE) mod 2 ^ 64) of
          None \<Rightarrow> None
        | Some memory \<Rightarrow> Some (memory + (MEM_ALIGN memory MINIMUM_HUGEPAGE - memory)))"

partial_function (option) double_until :: "nat \<Rightarrow> nat \<Rightarrow> nat option" where
  "double_until needed n = (if n < needed then double_until needed ((n * 2) mod 2 ^ 64) else Some n)"

definition new_span :: "Os \<Rightarrow> nat \<Rightarrow> nat \<Rightarrow> BumpAllocator \<Rightarrow> (nat \<times> BumpAllocator) option" where
  "new_span os others needed B =
     Option.bind (double_until needed MINIMUM_HUGEPAGE) (\<lambda>sz.
     let sz = MEM_ALIGN sz MINIMUM_HUGEPAGE in
     Some (case memmap os (spans B) sz of
       None \<Rightarrow> (0, B)
     | Some start \<Rightarrow>
         (sz, B\<lparr>spans := spans B @ [\<lparr>mmstart = start, offset = MEM_ALIGN 32 64, mmsize = sz\<rparr>],
                totalmem := (others + sz) mod 2 ^ 64\<rparr>)))"

text \<open>
  \<open>entry_total\<close> is the total read before the lock was taken.  The sum runs over all spans but the last.
\<close>

definition grow_spans :: "Os \<Rightarrow> nat \<Rightarrow> nat \<Rightarrow> BumpAllocator \<Rightarrow> (nat \<times> BumpAllocator) option" where
  "grow_spans os entry_total needed B =
     (if entry_total < totalmem B then Some (0, B)
      else
        let others = sum_list (map mmsize (butlast (spans B))) mod 2 ^ 64 in
        if spans B = [] then new_span os others needed B
        else
          let lspan = last (spans B); oldsize = mmsize lspan in
          Option.bind (double_until needed ((oldsize * 2) mod 2 ^ 64)) (\<lambda>newsize.
          if remap os (spans B) (mmstart lspan) oldsize newsize = Some (mmstart lspan)
          then Some (newsize - oldsize,
            B\<lparr>spans := butlast (spans B) @ [lspan\<lparr>mmsize := newsize\<rparr>], totalmem := (others + newsize) mod 2 ^ 64\<rparr>)
          else new_span os others needed B))"

definition free_block :: "BumpAllocator \<Rightarrow> nat" where
  "free_block B = (if spans B = [] then 0 else mmsize (last (spans B)) - offset (last (spans B)))"

text \<open>The first span with room; the flag tells that the last span has fallen below the watermark.\<close>

fun bump_in :: "nat \<Rightarrow> nat \<Rightarrow> MMSpan list \<Rightarrow> (nat \<times> MMSpan list \<times> bool) option" where
  "bump_in watermark sz [] = None"
| "bump_in watermark sz (s # ss) =
     (let omark = offset s; nmark = (omark + sz) mod 2 ^ 64 in
      if nmark > mmsize s then map_option (\<lambda>(a, ss, low). (a, s # ss, low)) (bump_in watermark sz ss)
      else Some (mmstart s + omark, s\<lparr>offset := nmark\<rparr> # ss, ss = [] \<and> mmsize s - nmark < watermark))"

subsection \<open>The state and its operations\<close>

text \<open>
  The tags are the \<open>BoundaryTag\<close>s in memory by their address; \<open>memory\<close> is read by callers only.  The notifier is
  called at most once until \<open>lowmem_notified\<close> is reset; \<open>lowmem_calls\<close> counts its calls.
\<close>

record Loft =
  bump :: BumpAllocator
  buckets :: "nat \<Rightarrow> nat list"
  canary0 :: "nat \<Rightarrow> nat"
  tags :: "nat \<Rightarrow> nat \<times> nat"
  memory :: "nat \<Rightarrow> u8"
  config_flags :: nat
  config_watermark :: nat
  config_preallocate :: nat
  lowmem_cb :: bool
  lowmem_notified :: nat
  lowmem_calls :: nat

definition new_loft :: "(nat \<Rightarrow> u8) \<Rightarrow> Loft" where
  "new_loft mem =
     \<lparr>bump = \<lparr>totalmem = 0, spans = []\<rparr>, buckets = \<lambda>_. [], canary0 = \<lambda>_. 0, tags = \<lambda>_. (0, 0), memory = mem, config_flags = 0,
      config_watermark = MINIMUM_HUGEPAGE, config_preallocate = 2 * MINIMUM_HUGEPAGE,
      lowmem_cb = False, lowmem_notified = 0, lowmem_calls = 0\<rparr>"

definition notify_low :: "bool \<Rightarrow> Loft \<Rightarrow> Loft" where
  "notify_low low S =
     (if low then
        S\<lparr>lowmem_notified := lowmem_notified S + 1,
          lowmem_calls := lowmem_calls S + of_bool (lowmem_notified S = 0 \<and> lowmem_cb S)\<rparr>
      else S)"

partial_function (option) bump_alloc :: "Os \<Rightarrow> nat \<Rightarrow> Loft \<Rightarrow> (nat option \<times> Loft) option" where
  "bump_alloc os sz S =
     (if sz = 0 \<or> sz mod 64 \<noteq> 0 then Some (None, S)
      else
        case bump_in (config_watermark S) sz (spans (bump S)) of
          Some (a, ss, low) \<Rightarrow> Some (Some a, notify_low low (S\<lparr>bump := (bump S)\<lparr>spans := ss\<rparr>\<rparr>))
        | None \<Rightarrow>
            Option.bind (grow_spans os (totalmem (bump S)) sz (bump S)) (\<lambda>(_, B).
            bump_alloc os sz (S\<lparr>bump := B\<rparr>)))"

definition CANARY0 :: nat where "CANARY0 = 0xbe4da62f087c3519"

definition do_alloc :: "Os \<Rightarrow> nat \<Rightarrow> nat \<Rightarrow> Loft \<Rightarrow> ((nat \<times> nat) option \<times> Loft) option" where
  "do_alloc os sz align S =
     (if align > 64 then Some (None, S)
      else
        let sz = sz + of_bool (sz = 0); bindex = bucket_index sz in
        if bindex \<ge> NUMBER_OF_BUCKETS then Some (None, S)
        else
          Option.bind (bucket_size bindex) (\<lambda>bsize.
          case buckets S bindex of
            block # rest \<Rightarrow>
              Some (Some (block, bsize), S\<lparr>buckets := (buckets S)(bindex := rest), canary0 := (canary0 S)(block := 0)\<rparr>)
          | [] \<Rightarrow>
              Option.bind (bump_alloc os bsize S) (\<lambda>(block, S).
              case block of
                None \<Rightarrow> None
              | Some block \<Rightarrow> Some (Some (block, bsize), S\<lparr>canary0 := (canary0 S)(block := 0)\<rparr>))))"

definition do_free :: "nat \<Rightarrow> nat \<Rightarrow> Loft \<Rightarrow> Loft" where
  "do_free mem sz S =
     (if mem = 0 then S
      else
        let bindex = bucket_index sz in
        if \<not> bindex < NUMBER_OF_BUCKETS then S
        else if bucket_size bindex \<noteq> Some sz then S
        else S\<lparr>canary0 := (canary0 S)(mem := CANARY0), buckets := (buckets S)(bindex := mem # buckets S bindex)\<rparr>)"

definition loft_alloc :: "Os \<Rightarrow> nat \<Rightarrow> nat \<Rightarrow> Loft \<Rightarrow> ((nat \<times> nat) option \<times> Loft) option" where
  "loft_alloc os sz align S = do_alloc os sz align S"

text \<open>The memory is cleared in units of \<open>wchar_t\<close>, of 4 bytes; for a null pointer that is undefined unless there is no unit.\<close>

definition loft_calloc :: "Os \<Rightarrow> nat \<Rightarrow> nat \<Rightarrow> nat \<Rightarrow> Loft \<Rightarrow> ((nat \<times> nat) option \<times> Loft) option" where
  "loft_calloc os nelem elemsize align S =
     (if elemsize > 1 \<and> nelem > (2 ^ 64 - 1) div elemsize then Some (None, S)
      else
        let sz = nelem * elemsize; words = sz div 4 in
        Option.bind (do_alloc os sz align S) (\<lambda>(ptr, S).
        case ptr of
          None \<Rightarrow> if words = 0 then Some (None, S) else None
        | Some (mem, n) \<Rightarrow>
            Some (Some (mem, n), S\<lparr>memory := (\<lambda>a. if mem \<le> a \<and> a < mem + words * 4 then 0 else memory S a)\<rparr>)))"

definition align_forward :: "nat \<Rightarrow> nat \<Rightarrow> nat" where
  "align_forward ptr alignment = ((ptr + (alignment - 1)) mod 2 ^ 64) div alignment * alignment"

text \<open>\<open>sizeof (BoundaryTag)\<close> is 16, twice the size of a pointer, and the least alignment 64.\<close>

definition loft_btalloc :: "Os \<Rightarrow> nat \<Rightarrow> Loft \<Rightarrow> (nat option \<times> Loft) option" where
  "loft_btalloc os sz S =
     (let minalign = max 64 (max (2 * 8) 16); asize = (sz + 16 + minalign) mod 2 ^ 64 in
      Option.bind (do_alloc os asize minalign S) (\<lambda>(uptr, S).
      case uptr of
        None \<Rightarrow> Some (None, S)
      | Some (mem, n) \<Rightarrow>
          if \<not> n \<ge> asize then Some (None, do_free mem n S)
          else
            let alptr = align_forward (1 + mem) minalign in
            if alptr mod minalign \<noteq> 0 then Some (None, S)
            else if \<not> alptr \<ge> mem + 16 then Some (None, S)
            else if \<not> mem + asize \<ge> alptr + sz then Some (None, S)
            else Some (Some alptr, S\<lparr>tags := (tags S)(alptr - 16 := (mem, n))\<rparr>)))"

definition loft_btfree :: "nat \<Rightarrow> nat \<Rightarrow> Loft \<Rightarrow> Loft" where
  "loft_btfree p sz S =
     (if p = 0 then S
      else if \<not> p > 16 then S
      else
        let minalign = max 64 16 in
        if p mod minalign \<noteq> 0 then S
        else
          let (mem, n) = tags S (p - 16) in
          if mem = 0 then S else if \<not> mem \<le> p - 16 then S else if \<not> n \<ge> 16 then S
          else if n mod minalign \<noteq> 0 then S else if \<not> p + sz \<le> mem + n then S
          else do_free mem n S)"

definition loft_bucket_size :: "nat \<Rightarrow> nat option" where
  "loft_bucket_size nbytes =
     (let bindex = bucket_index nbytes in if bindex \<ge> NUMBER_OF_BUCKETS then Some 0 else bucket_size bindex)"

definition loft_set_notifier :: "Loft \<Rightarrow> Loft" where
  "loft_set_notifier S = (if lowmem_cb S then S else S\<lparr>lowmem_cb := True\<rparr>)"

record LoftConfig =
  cfg_preallocate :: nat
  cfg_watermark :: nat
  cfg_flags :: nat

definition loft_set_config :: "LoftConfig \<Rightarrow> Loft \<Rightarrow> Loft" where
  "loft_set_config config S =
     (let S = S\<lparr>config_watermark := 0\<rparr>; S = S\<lparr>config_flags := cfg_flags config\<rparr>;
          S = S\<lparr>config_preallocate := cfg_preallocate config\<rparr> in S\<lparr>config_watermark := cfg_watermark config\<rparr>)"

definition loft_get_config :: "Loft \<Rightarrow> LoftConfig" where
  "loft_get_config S =
     \<lparr>cfg_preallocate = config_preallocate S, cfg_watermark = config_watermark S, cfg_flags = config_flags S\<rparr>"

definition loft_grow_preallocate :: "Os \<Rightarrow> nat \<Rightarrow> Loft \<Rightarrow> (nat \<times> Loft) option" where
  "loft_grow_preallocate os preallocation_amount S =
     (let total = totalmem (bump S);
          amount = max (config_preallocate S) total - total;
          maxchunk = free_block (bump S);
          amount = (if maxchunk \<le> config_watermark S then max amount (config_watermark S) else amount) in
      if maxchunk < amount then
        Option.bind (grow_spans os total amount (bump S)) (\<lambda>(allocated, B).
        Some (allocated, S\<lparr>lowmem_notified := 0, bump := B, config_preallocate := max (config_preallocate S) (totalmem B)\<rparr>))
      else Some (0, S))"

subsection \<open>Statistics\<close>

definition list_arenas :: "BumpAllocator \<Rightarrow> (nat \<times> nat \<times> nat) list" where
  "list_arenas B = map (\<lambda>s. (mmstart s, offset s, mmsize s)) (spans B)"

definition maybeok :: "Loft \<Rightarrow> nat \<Rightarrow> (nat \<times> nat \<times> nat) list \<Rightarrow> bool" where
  "maybeok S addr arenas \<longleftrightarrow>
     (if addr mod 64 \<noteq> 0 then False
      else (\<exists>(a, _, n)\<in>set arenas. addr \<ge> a \<and> addr < a + n) \<and> canary0 S addr = CANARY0)"

definition bucket_count :: "Loft \<Rightarrow> nat \<Rightarrow> (nat \<times> nat \<times> nat) list \<Rightarrow> nat" where
  "bucket_count S bindex arenas =
     (if \<not> bindex < NUMBER_OF_BUCKETS then 0 else length (takeWhile (\<lambda>b. maybeok S b arenas) (buckets S bindex)))"

record LoftStats =
  stat_buckets :: "(nat \<times> nat) list"
  narenas :: nat
  available :: nat
  allocated :: nat
  maxchunk :: nat

text \<open>Buckets that are empty are left out; those of undefined size stay empty.\<close>

definition loft_get_stats :: "Loft \<Rightarrow> LoftStats" where
  "loft_get_stats S =
     (let arenas = list_arenas (bump S);
          counts = filter (\<lambda>(_, n). n \<noteq> 0) (map (\<lambda>i. (case bucket_size i of Some b \<Rightarrow> b | None \<Rightarrow> 0, bucket_count S i arenas)) [0..<NUMBER_OF_BUCKETS]) in
      \<lparr>stat_buckets = sort_key fst counts, narenas = length arenas,
       available = sum_list (map (\<lambda>(_, off, n). n - off) arenas),
       allocated = sum_list (map (\<lambda>(_, _, n). n) arenas),
       maxchunk = fold (\<lambda>(_, off, n) m. max m (n - off)) arenas 0\<rparr>)"

subsection \<open>Bucket sizes\<close>

lemma bit_length_le: "bit_length n \<le> k \<longleftrightarrow> n < 2 ^ k"
proof (induction n arbitrary: k rule: bit_length.induct)
  case (1 n)
  show ?case
  proof (cases "n = 0")
    case False
    have "bit_length n \<le> k \<longleftrightarrow> Suc (bit_length (n div 2)) \<le> k" using False by (subst bit_length.simps) simp
    also have "\<dots> \<longleftrightarrow> n < 2 ^ k"
    proof (cases k)
      case (Suc j)
      then show ?thesis using 1 [OF False, of j] by (simp add: less_mult_imp_div_less div_less_iff_less_mult mult.commute)
    qed (use False in simp)
    finally show ?thesis .
  qed (subst bit_length.simps, simp)
qed

lemma bit_length_eq: "2 ^ k \<le> n \<Longrightarrow> n < 2 ^ Suc k \<Longrightarrow> bit_length n = Suc k"
  using bit_length_le [of n k] bit_length_le [of n "Suc k"] by linarith

lemmas bucket_defs = NUMBER_OF_BUCKETS_def NUMBER_OF_POWER2_BUCKETS_def SMALL_BLOCK_BUCKETS_def SMALL_BLOCK_LIMIT_def

definition fits :: "nat \<Rightarrow> nat \<Rightarrow> bool" where
  "fits n b \<longleftrightarrow> bucket_size (bucket_index n) = Some b \<and> n \<le> b \<and> 0 < b \<and> 64 dvd b \<and> b \<le> 2 ^ 30 \<and>
     (b < n + 64 \<or> b < 2 * n) \<and> bucket_index b = bucket_index n \<and> bucket_index n < NUMBER_OF_BUCKETS"

lemma bucket_fits:
  assumes "0 < n" and "n \<le> 2 ^ 30"
  shows "\<exists>b. fits n b"
proof (cases "n \<le> SMALL_BLOCK_LIMIT")
  case True
  define q where "q = (n - 1) div 64"
  have q: "q < 128" using True assms(1) by (simp add: q_def SMALL_BLOCK_LIMIT_def less_mult_imp_div_less)
  have n: "q * 64 < n" "n \<le> (q + 1) * 64"
  proof -
    have "n - 1 < 64 + 64 * q" unfolding q_def by (rule dividend_less_times_div) simp
    moreover have "64 * q \<le> n - 1" by (simp add: q_def)
    ultimately show "q * 64 < n" "n \<le> (q + 1) * 64" using assms(1) by arith+
  qed
  have "bucket_index n = 64 + q" using True assms(1) by (simp add: bucket_index_def bucket_defs q_def)
  moreover have "bucket_index ((q + 1) * 64) = 64 + q"
  proof -
    have "((q + 1) * 64 - 1) div 64 = q" by simp
    moreover have "(q + 1) * 64 \<le> 8192" using q by simp
    ultimately show ?thesis by (simp add: bucket_index_def bucket_defs)
  qed
  ultimately show ?thesis using n q by (intro exI [of _ "(q + 1) * 64"]) (simp add: fits_def bucket_size_def bucket_defs)
next
  case False
  define k where "k = bit_length (n - 1)"
  have k: "n - 1 < 2 ^ k" "13 < k" "k \<le> 30"
    using bit_length_le [of "n - 1" k] bit_length_le [of "n - 1" 13] bit_length_le [of "n - 1" 30]
      False assms by (simp_all add: k_def SMALL_BLOCK_LIMIT_def not_le [symmetric])
  moreover have "\<not> bit_length (n - 1) \<le> k - 1" using k(2) by (simp add: k_def)
  ultimately have k2: "\<not> n - 1 < 2 ^ (k - 1)" by (simp only: bit_length_le not_False_eq_True)
  obtain j where j: "k = Suc j" using k(2) by (cases k) auto
  have "(2 :: nat) ^ 13 < 2 ^ k" using k(2) by (intro power_strict_increasing) simp_all
  then have "SMALL_BLOCK_LIMIT < 2 ^ k" by (simp add: SMALL_BLOCK_LIMIT_def)
  moreover have "bit_length (2 ^ k - 1) = k" unfolding j by (rule bit_length_eq) simp_all
  ultimately have "bucket_index (2 ^ k) = k" by (simp add: bucket_index_def)
  moreover have "bucket_index n = k" using False assms(1) by (simp add: bucket_index_def k_def)
  moreover have "(2 :: nat) ^ k \<le> 2 ^ 30" using k(3) by (intro power_increasing) simp_all
  moreover have "64 dvd (2 :: nat) ^ k"
    using k(2) le_imp_power_dvd [of 6 k "2 :: nat"] by simp
  ultimately show ?thesis using k k2 j assms(1) by (intro exI [of _ "2 ^ k"]) (auto simp: fits_def bucket_size_def bucket_defs)
qed

text \<open>
  Larger requests: above \<open>2 ^ 30\<close> the size of the bucket is negative as an \<open>int\<close>, then undefined, and above \<open>2 ^ 63\<close>
  the number of the bucket is that of the smallest blocks.
\<close>

lemma bucket_overflow:
  "bucket_size (bucket_index (2 ^ 30 + 1)) = Some (2 ^ 64 - 2 ^ 31)"
  "bucket_size (bucket_index (2 ^ 31 + 1)) = None"
  "loft_bucket_size (2 ^ 63 + 1) = Some 64"
proof -
  have "bit_length (2 ^ 30) = 31" "bit_length (2 ^ 31) = 32" "bit_length (2 ^ 63) = 64"
    using bit_length_eq [of 30 "2 ^ 30"] bit_length_eq [of 31 "2 ^ 31"] bit_length_eq [of 63 "2 ^ 63"] by simp_all
  then show "bucket_size (bucket_index (2 ^ 30 + 1)) = Some (2 ^ 64 - 2 ^ 31)"
    "bucket_size (bucket_index (2 ^ 31 + 1)) = None" "loft_bucket_size (2 ^ 63 + 1) = Some 64"
    by (simp_all add: bucket_index_def bucket_size_def loft_bucket_size_def bucket_defs)
qed

subsection \<open>Spans\<close>

definition span_region :: "MMSpan \<Rightarrow> nat set" where
  "span_region s = {mmstart s ..< mmstart s + mmsize s}"

text \<open>What the system calls promise: new regions, and grown ones, are user space that is not mapped yet.\<close>

definition os_ok :: "Os \<Rightarrow> bool" where
  "os_ok os \<longleftrightarrow>
     (\<forall>ss n a. mmap os ss n = Some a \<longrightarrow> 0 < a \<and> 0 < n \<and> a + n \<le> 2 ^ 63 \<and> (\<forall>s\<in>set ss. {a..<a + n} \<inter> span_region s = {})) \<and>
     (\<forall>ss i n. i < length ss \<longrightarrow> mremap os ss (mmstart (ss ! i)) (mmsize (ss ! i)) n \<longrightarrow>
        mmstart (ss ! i) + n \<le> 2 ^ 63 \<and>
        (\<forall>j < length ss. j \<noteq> i \<longrightarrow> {mmstart (ss ! i)..<mmstart (ss ! i) + n} \<inter> span_region (ss ! j) = {}))"

definition span_ok :: "MMSpan \<Rightarrow> bool" where
  "span_ok s \<longleftrightarrow> 0 < mmstart s \<and> 64 dvd mmstart s \<and> 64 dvd offset s \<and> 64 \<le> offset s \<and> offset s \<le> mmsize s \<and>
     MINIMUM_HUGEPAGE \<le> mmsize s \<and> mmstart s + mmsize s \<le> 2 ^ 63"

definition spans_ok :: "MMSpan list \<Rightarrow> bool" where
  "spans_ok ss \<longleftrightarrow> list_all span_ok ss \<and> sorted_wrt (\<lambda>s t. span_region s \<inter> span_region t = {}) ss"

text \<open>The memory that has been handed out.\<close>

definition used :: "MMSpan list \<Rightarrow> nat set" where
  "used ss = (\<Union>s\<in>set ss. {mmstart s + 64 ..< mmstart s + offset s})"

lemma used_simps [simp]: "used [] = {}" "used (s # ss) = {mmstart s + 64 ..< mmstart s + offset s} \<union> used ss"
  "used (ss @ tt) = used ss \<union> used tt"
  by (simp_all add: used_def)

lemma used_in_regions: "spans_ok ss \<Longrightarrow> used ss \<subseteq> (\<Union>s\<in>set ss. span_region s)"
  by (force simp: used_def spans_ok_def span_ok_def span_region_def list_all_iff)

lemma MEM_ALIGN_page:
  assumes "a + MINIMUM_HUGEPAGE \<le> 2 ^ 64"
  shows "MINIMUM_HUGEPAGE dvd MEM_ALIGN a MINIMUM_HUGEPAGE \<and> a \<le> MEM_ALIGN a MINIMUM_HUGEPAGE \<and>
    MEM_ALIGN a MINIMUM_HUGEPAGE < a + MINIMUM_HUGEPAGE"
proof -
  define P where "P = MINIMUM_HUGEPAGE"
  have P: "0 < P" by (simp add: P_def MINIMUM_HUGEPAGE_def)
  define q where "q = (a + P - 1) div P"
  have "P * q \<le> a + P - 1" "a + P - 1 < P * q + P"
    using dividend_less_times_div [OF P, of "a + P - 1"] by (simp_all add: q_def)
  then have b: "a \<le> P * q" "P * q < a + P" using P by linarith+
  have "(a + P - 1) mod 2 ^ 64 = a + P - 1" "(P * q) mod 2 ^ 64 = P * q"
    using assms b P by (simp_all add: P_def [symmetric])
  then have "MEM_ALIGN a P = P * q" by (simp add: MEM_ALIGN_def q_def)
  then show ?thesis using b by (simp add: P_def)
qed

text \<open>Bumping takes fresh memory from one span.\<close>

lemma bump_in_fresh:
  assumes "bump_in w n ss = Some (a, ss', low)" and "spans_ok ss" and "0 < n" "64 dvd n" "n \<le> 2 ^ 63"
  shows "spans_ok ss' \<and> 64 dvd a \<and> 0 < a \<and> used ss' = used ss \<union> {a..<a + n} \<and> used ss \<inter> {a..<a + n} = {} \<and>
    map span_region ss' = map span_region ss"
  using assms(1,2)
proof (induction ss arbitrary: a ss' low)
  case (Cons s ss)
  have ok: "span_ok s" "spans_ok ss" "\<forall>t\<in>set ss. span_region s \<inter> span_region t = {}"
    using Cons.prems(2) by (auto simp: spans_ok_def)
  have m: "(offset s + n) mod 2 ^ 64 = offset s + n" using ok(1) assms(5) by (simp add: span_ok_def)
  show ?case
  proof (cases "offset s + n > mmsize s")
    case True
    then obtain tt where t: "bump_in w n ss = Some (a, tt, low)" "ss' = s # tt"
      using Cons.prems(1) m by (auto simp: Let_def)
    note IH = Cons.IH [OF t(1) ok(2)]
    have "{a..<a + n} \<subseteq> (\<Union>t\<in>set ss. span_region t)"
    proof -
      have "{a..<a + n} \<subseteq> used tt" using IH by blast
      also have "\<dots> \<subseteq> (\<Union>t\<in>set tt. span_region t)" using IH used_in_regions by blast
      also have "\<dots> = (\<Union>t\<in>set ss. span_region t)" using IH by (metis set_map)
      finally show ?thesis .
    qed
    moreover have "{mmstart s + 64 ..< mmstart s + offset s} \<subseteq> span_region s"
      using ok(1) by (auto simp: span_ok_def span_region_def)
    ultimately have "{mmstart s + 64 ..< mmstart s + offset s} \<inter> {a..<a + n} = {}" using ok(3) by blast
    moreover have "\<forall>t\<in>set tt. span_region s \<inter> span_region t = {}" using ok(3) IH by (metis (mono_tags) image_iff set_map)
    ultimately show ?thesis using IH ok(1) by (auto simp: t(2) spans_ok_def)
  next
    case False
    then have t: "a = mmstart s + offset s" "ss' = s\<lparr>offset := offset s + n\<rparr> # ss"
      using Cons.prems(1) m by (auto simp: Let_def)
    have "span_ok (s\<lparr>offset := offset s + n\<rparr>)" using ok(1) False assms(4) by (simp add: span_ok_def)
    moreover have r: "span_region (s\<lparr>offset := offset s + n\<rparr>) = span_region s" by (simp add: span_region_def)
    moreover have "{a..<a + n} \<subseteq> span_region s" using False by (auto simp: t span_region_def)
    then have "used ss \<inter> {a..<a + n} = {}" using used_in_regions [OF ok(2)] ok(3) by blast
    moreover have "{mmstart s + 64..<mmstart s + (offset s + n)} = {mmstart s + 64..<mmstart s + offset s} \<union> {a..<a + n}"
      using ok(1) by (auto simp: t span_ok_def)
    ultimately show ?thesis using ok by (auto simp: t spans_ok_def span_ok_def)
  qed
qed simp

lemma page_facts: "0 < MINIMUM_HUGEPAGE" "64 dvd MINIMUM_HUGEPAGE" "MINIMUM_HUGEPAGE dvd 2 ^ 64" "64 \<le> MINIMUM_HUGEPAGE"
  "MINIMUM_HUGEPAGE < 2 ^ 64"
  by (simp_all add: MINIMUM_HUGEPAGE_def)

lemma page_below: "MINIMUM_HUGEPAGE dvd n \<Longrightarrow> n < 2 ^ 64 \<Longrightarrow> n + MINIMUM_HUGEPAGE \<le> 2 ^ 64"
proof -
  assume n: "MINIMUM_HUGEPAGE dvd n" "n < 2 ^ 64"
  then have "MINIMUM_HUGEPAGE dvd 2 ^ 64 - n" using page_facts(3) by (intro dvd_diff_nat)
  then have "MINIMUM_HUGEPAGE \<le> 2 ^ 64 - n" using n(2) by (intro dvd_imp_le) simp_all
  then show ?thesis using n(2) by linarith
qed

lemma double_until_facts:
  assumes "double_until needed n = Some m"
  shows "needed \<le> m \<and> (MINIMUM_HUGEPAGE dvd n \<longrightarrow> MINIMUM_HUGEPAGE dvd m) \<and> (n < 2 ^ 64 \<longrightarrow> m < 2 ^ 64)"
proof (rule double_until.raw_induct [OF _ assms, where P = "\<lambda>needed n m. needed \<le> m \<and>
    (MINIMUM_HUGEPAGE dvd n \<longrightarrow> MINIMUM_HUGEPAGE dvd m) \<and> (n < 2 ^ 64 \<longrightarrow> m < 2 ^ 64)"])
  fix self :: "nat \<Rightarrow> nat \<Rightarrow> nat option" and needed n m
  assume IH: "\<And>needed n m. self needed n = Some m \<Longrightarrow>
      needed \<le> m \<and> (MINIMUM_HUGEPAGE dvd n \<longrightarrow> MINIMUM_HUGEPAGE dvd m) \<and> (n < 2 ^ 64 \<longrightarrow> m < 2 ^ 64)"
    and m: "(if n < needed then self needed ((n * 2) mod 2 ^ 64) else Some n) = Some m"
  show "needed \<le> m \<and> (MINIMUM_HUGEPAGE dvd n \<longrightarrow> MINIMUM_HUGEPAGE dvd m) \<and> (n < 2 ^ 64 \<longrightarrow> m < 2 ^ 64)"
  proof (cases "n < needed")
    case True
    then have "self needed ((n * 2) mod 2 ^ 64) = Some m" using m by simp
    note IH [OF this]
    moreover have "MINIMUM_HUGEPAGE dvd n \<Longrightarrow> MINIMUM_HUGEPAGE dvd (n * 2) mod 2 ^ 64"
      by (rule dvd_mod) (use page_facts(3) in auto)
    ultimately show ?thesis by simp
  qed (use m in auto)
qed

lemma double_until_start: "double_until needed n = Some m \<Longrightarrow> n \<le> m"
  using double_until_facts [of needed n m] by (cases "n < needed") (auto simp: double_until.simps [of needed n])

lemma new_span_ok:
  assumes "new_span os others needed B = Some (n, B')" and "os_ok os" and "spans_ok (spans B)"
  shows "spans_ok (spans B') \<and> used (spans B') = used (spans B) \<and>
    (spans B' = spans B \<and> B' = B \<or> (\<exists>s. spans B' = spans B @ [s] \<and> offset s = 64 \<and> needed \<le> mmsize s))"
proof -
  obtain m where m: "double_until needed MINIMUM_HUGEPAGE = Some m"
    using assms(1) by (cases "double_until needed MINIMUM_HUGEPAGE") (auto simp: new_span_def)
  define z where "z = MEM_ALIGN m MINIMUM_HUGEPAGE"
  have "(case memmap os (spans B) z of None \<Rightarrow> (0, B)
     | Some start \<Rightarrow> (z, B\<lparr>spans := spans B @ [\<lparr>mmstart = start, offset = MEM_ALIGN 32 64, mmsize = z\<rparr>], totalmem := (others + z) mod 2 ^ 64\<rparr>)) = (n, B')"
    using assms(1) m by (simp add: new_span_def flip: z_def)
  then consider (none) "B' = B" | (new) start where "memmap os (spans B) z = Some start"
    "spans B' = spans B @ [\<lparr>mmstart = start, offset = MEM_ALIGN 32 64, mmsize = z\<rparr>]"
    by (auto split: option.splits)
  then show ?thesis
  proof cases
    case none
    then show ?thesis using assms(3) by simp
  next
    case new
    obtain mem where mem: "mmap os (spans B) ((z + MINIMUM_HUGEPAGE) mod 2 ^ 64) = Some mem"
      "start = mem + (MEM_ALIGN mem MINIMUM_HUGEPAGE - mem)" "MEM_ALIGN z MINIMUM_HUGEPAGE = z"
      using new(1) by (auto simp: memmap_def split: if_splits option.splits)
    define len where "len = (z + MINIMUM_HUGEPAGE) mod 2 ^ 64"
    have os: "0 < mem" "0 < len" "mem + len \<le> 2 ^ 63" "\<And>s. s \<in> set (spans B) \<Longrightarrow> {mem..<mem + len} \<inter> span_region s = {}"
      using assms(2) mem(1) unfolding os_ok_def len_def by blast+
    have pm: "MINIMUM_HUGEPAGE dvd m" "m < 2 ^ 64" "0 < m" "needed \<le> m"
      using double_until_facts [OF m] double_until_start [OF m] page_facts by auto
    note mz = MEM_ALIGN_page [OF page_below [OF pm(1,2)], folded z_def]
    have z: "z < 2 ^ 64" by (simp add: z_def MEM_ALIGN_def)
    have "z + MINIMUM_HUGEPAGE \<le> 2 ^ 64" using page_below [OF _ z] mz by blast
    then have len: "len = z + MINIMUM_HUGEPAGE" using os(2) by (cases "z + MINIMUM_HUGEPAGE = 2 ^ 64") (simp_all add: len_def)
    have "mem + MINIMUM_HUGEPAGE \<le> 2 ^ 64" using os(3) len by simp
    note a = MEM_ALIGN_page [OF this]
    have st: "start = MEM_ALIGN mem MINIMUM_HUGEPAGE" using mem(2) a by simp
    have d: "64 dvd start" using a page_facts(2) st dvd_trans by blast
    define s where "s = \<lparr>mmstart = start, offset = MEM_ALIGN 32 64, mmsize = z\<rparr>"
    have off: "offset s = 64" by (simp add: s_def MEM_ALIGN_def)
    have "0 < z" using mz pm(3) by linarith
    then have "MINIMUM_HUGEPAGE \<le> z" using mz by (intro dvd_imp_le) simp_all
    moreover from this have "64 \<le> z" using page_facts(4) by linarith
    moreover have in_new: "start + z \<le> mem + len" "mem \<le> start" using a st len by linarith+
    ultimately have "span_ok s" using off d os(1,3) by (simp add: s_def span_ok_def)
    moreover have "span_region t \<inter> span_region s = {}" if "t \<in> set (spans B)" for t
    proof -
      have "span_region s \<subseteq> {mem..<mem + len}" using in_new by (auto simp: s_def span_region_def)
      then show ?thesis using os(4) [OF that] by blast
    qed
    ultimately have "spans_ok (spans B @ [s])" using assms(3) by (auto simp: spans_ok_def sorted_wrt_append)
    moreover have "used (spans B @ [s]) = used (spans B)" by (simp add: off)
    moreover have "needed \<le> mmsize s" using mz pm(4) by (simp add: s_def)
    ultimately show ?thesis using new(2) off unfolding s_def [symmetric] by (intro conjI disjI2 exI [of _ s]) simp_all
  qed
qed

lemma grow_spans_ok:
  assumes "grow_spans os total0 needed B = Some (n, B')" and "os_ok os" and "spans_ok (spans B)"
  shows "spans_ok (spans B') \<and> used (spans B') = used (spans B)"
proof -
  define others where "others = sum_list (map mmsize (butlast (spans B))) mod 2 ^ 64"
  consider "B' = B" | "new_span os others needed B = Some (n, B')"
    | (grown) m where "spans B \<noteq> []" "double_until needed ((mmsize (last (spans B)) * 2) mod 2 ^ 64) = Some m"
      "remap os (spans B) (mmstart (last (spans B))) (mmsize (last (spans B))) m = Some (mmstart (last (spans B)))"
      "spans B' = butlast (spans B) @ [last (spans B)\<lparr>mmsize := m\<rparr>]"
  proof (cases "total0 < totalmem B \<or> spans B = []")
    case True
    then show ?thesis using assms(1) that(1,2) by (cases "total0 < totalmem B") (simp_all add: grow_spans_def others_def)
  next
    case False
    define m0 where "m0 = (mmsize (last (spans B)) * 2) mod 2 ^ 64"
    from False have g: "Option.bind (double_until needed m0) (\<lambda>m.
        if remap os (spans B) (mmstart (last (spans B))) (mmsize (last (spans B))) m = Some (mmstart (last (spans B)))
        then Some (m - mmsize (last (spans B)),
          B\<lparr>spans := butlast (spans B) @ [last (spans B)\<lparr>mmsize := m\<rparr>], totalmem := (others + m) mod 2 ^ 64\<rparr>)
        else new_span os others needed B) = Some (n, B')"
      using assms(1) unfolding grow_spans_def Let_def others_def m0_def by (simp only: if_False de_Morgan_disj)
    then obtain m where m: "double_until needed m0 = Some m" by (cases "double_until needed m0") simp_all
    show ?thesis
    proof (cases "remap os (spans B) (mmstart (last (spans B))) (mmsize (last (spans B))) m = Some (mmstart (last (spans B)))")
      case True
      then show ?thesis using g m False by (intro that(3) [of m]) (auto simp: m0_def)
    next
      case False
      then show ?thesis using g m by (intro that(2)) simp
    qed
  qed
  then show ?thesis
  proof cases
    case 1
    then show ?thesis using assms(3) by simp
  next
    case 2
    from new_span_ok [OF this assms(2,3)] show ?thesis by blast
  next
    case grown
    define ss s where "ss = butlast (spans B)" and "s = last (spans B)"
    have B: "spans B = ss @ [s]" using grown(1) by (simp add: ss_def s_def)
    have "mremap os (spans B) (mmstart s) (mmsize s) m"
      using grown(3) by (auto simp: remap_def s_def split: if_splits)
    then have o: "mmstart s + m \<le> 2 ^ 63"
      "\<forall>j<length (spans B). j \<noteq> length ss \<longrightarrow> {mmstart s..<mmstart s + m} \<inter> span_region (spans B ! j) = {}"
      using assms(2) [unfolded os_ok_def, THEN conjunct2, rule_format, of "length ss" "spans B" m] by (simp_all add: B)
    have os: "mmstart s + m \<le> 2 ^ 63" "\<And>t. t \<in> set ss \<Longrightarrow> {mmstart s..<mmstart s + m} \<inter> span_region t = {}"
    proof -
      fix t assume "t \<in> set ss"
      then obtain j where "j < length ss" "t = ss ! j" by (auto simp: in_set_conv_nth)
      then show "{mmstart s..<mmstart s + m} \<inter> span_region t = {}"
        using o(2) [rule_format, of j] by (simp add: B nth_append)
    qed (rule o(1))
    have ok: "span_ok s" "spans_ok ss" "\<And>t. t \<in> set ss \<Longrightarrow> span_region t \<inter> span_region s = {}"
      using assms(3) by (auto simp: B spans_ok_def sorted_wrt_append)
    have "(mmsize s * 2) mod 2 ^ 64 = mmsize s * 2" using ok(1) by (simp add: span_ok_def)
    then have "double_until needed (mmsize s * 2) = Some m" using grown(2) by (simp add: s_def)
    then have m: "mmsize s * 2 \<le> m" by (rule double_until_start)
    define s' where "s' = s\<lparr>mmsize := m\<rparr>"
    have B': "spans B' = ss @ [s']" using grown(4) by (simp add: ss_def s_def s'_def)
    have "span_ok s'" using ok(1) os(1) m by (simp add: span_ok_def s'_def)
    moreover have "span_region t \<inter> span_region s' = {}" if "t \<in> set ss" for t
    proof -
      have "span_region s' = {mmstart s..<mmstart s + m}" by (simp add: span_region_def s'_def)
      then show ?thesis using os(2) [OF that] by blast
    qed
    ultimately have "spans_ok (spans B')" using ok(2) by (auto simp: B' spans_ok_def sorted_wrt_append)
    moreover have "used (spans B') = used (spans B)" by (simp add: B B' s'_def)
    ultimately show ?thesis by blast
  qed
qed

text \<open>An allocation is fresh; only the spans and the notifications change.\<close>

definition fresh_block :: "nat \<Rightarrow> Loft \<Rightarrow> nat \<Rightarrow> Loft \<Rightarrow> bool" where
  "fresh_block n S a S' \<longleftrightarrow> spans_ok (spans (bump S')) \<and> 64 dvd a \<and> 0 < a \<and>
     used (spans (bump S')) = used (spans (bump S)) \<union> {a..<a + n} \<and> used (spans (bump S)) \<inter> {a..<a + n} = {} \<and>
     buckets S' = buckets S \<and> tags S' = tags S \<and> memory S' = memory S"

lemma notify_low_simps [simp]:
  "bump (notify_low b S) = bump S" "buckets (notify_low b S) = buckets S" "tags (notify_low b S) = tags S"
  "memory (notify_low b S) = memory S" "canary0 (notify_low b S) = canary0 S"
  by (simp_all add: notify_low_def)

lemma bump_alloc_fresh_block:
  assumes "bump_alloc os n S = Some y" and "os_ok os" and "spans_ok (spans (bump S))" and "0 < n" "64 dvd n" "n \<le> 2 ^ 63"
  shows "\<exists>a S'. y = (Some a, S') \<and> fresh_block n S a S'"
proof -
  have "os_ok os \<longrightarrow> spans_ok (spans (bump S)) \<longrightarrow> 0 < n \<longrightarrow> 64 dvd n \<longrightarrow> n \<le> 2 ^ 63 \<longrightarrow> (\<exists>a S'. y = (Some a, S') \<and> fresh_block n S a S')"
  proof (rule bump_alloc.raw_induct [OF _ assms(1), where P = "\<lambda>os n S y. os_ok os \<longrightarrow> spans_ok (spans (bump S)) \<longrightarrow>
      0 < n \<longrightarrow> 64 dvd n \<longrightarrow> n \<le> 2 ^ 63 \<longrightarrow> (\<exists>a S'. y = (Some a, S') \<and> fresh_block n S a S')"], intro impI)
    fix self :: "Os \<Rightarrow> nat \<Rightarrow> Loft \<Rightarrow> (nat option \<times> Loft) option" and os n S y
    assume IH: "\<And>os n S y. self os n S = Some y \<Longrightarrow> os_ok os \<longrightarrow> spans_ok (spans (bump S)) \<longrightarrow>
        0 < n \<longrightarrow> 64 dvd n \<longrightarrow> n \<le> 2 ^ 63 \<longrightarrow> (\<exists>a S'. y = (Some a, S') \<and> fresh_block n S a S')"
      and y: "(if n = 0 \<or> n mod 64 \<noteq> 0 then Some (None, S)
          else case bump_in (config_watermark S) n (spans (bump S)) of
            None \<Rightarrow> Option.bind (grow_spans os (totalmem (bump S)) n (bump S)) (\<lambda>(_, B). self os n (S\<lparr>bump := B\<rparr>))
          | Some (a, ss, low) \<Rightarrow> Some (Some a, notify_low low (S\<lparr>bump := (bump S)\<lparr>spans := ss\<rparr>\<rparr>))) = Some y"
      and ok: "os_ok os" "spans_ok (spans (bump S))" and n: "0 < n" "64 dvd n" "n \<le> 2 ^ 63"
    have n0: "n \<noteq> 0" "n mod 64 = 0" using n by simp_all
    show "\<exists>a S'. y = (Some a, S') \<and> fresh_block n S a S'"
    proof (cases "bump_in (config_watermark S) n (spans (bump S))")
      case None
      then obtain k B where g: "grow_spans os (totalmem (bump S)) n (bump S) = Some (k, B)" "self os n (S\<lparr>bump := B\<rparr>) = Some y"
        using y n0 by (auto simp: bind_eq_Some_conv)
      note grown = grow_spans_ok [OF g(1) ok]
      obtain a S' where "y = (Some a, S')" "fresh_block n (S\<lparr>bump := B\<rparr>) a S'"
        using IH [OF g(2)] ok(1) n grown by auto
      then show ?thesis using grown by (simp add: fresh_block_def)
    next
      case (Some r)
      obtain a ss low where r: "r = (a, ss, low)" by (metis prod_cases3)
      have "y = (Some a, notify_low low (S\<lparr>bump := (bump S)\<lparr>spans := ss\<rparr>\<rparr>))" using y n0 Some by (simp add: r)
      then show ?thesis using bump_in_fresh [OF Some [unfolded r] ok(2) n] by (simp add: fresh_block_def)
    qed
  qed
  then show ?thesis using assms by blast
qed

text \<open>
  A request above \<open>2 ^ 30\<close> bytes, which the bucket turns into \<open>2 ^ 64 - 2 ^ 31\<close>, moves the offset of a large span back, over
  memory that is in use.  A block of the size of a new span does not fit into it, because of the header.
\<close>

lemma huge_request_moves_back:
  assumes "2 ^ 31 \<le> offset s" and "offset s \<le> mmsize s" and "mmsize s < 2 ^ 63"
  shows "\<exists>low. bump_in w (2 ^ 64 - 2 ^ 31) (s # ss) = Some (mmstart s + offset s, s\<lparr>offset := offset s - 2 ^ 31\<rparr> # ss, low)"
proof -
  have "offset s + (2 ^ 64 - 2 ^ 31) = (offset s - 2 ^ 31) + 2 ^ 64" using assms(1) by simp
  then have "(offset s + (2 ^ 64 - 2 ^ 31)) mod 2 ^ 64 = (offset s - 2 ^ 31) mod 2 ^ 64" by (simp only: mod_add_self2)
  also have "\<dots> = offset s - 2 ^ 31" using assms by simp
  finally have "(offset s + (2 ^ 64 - 2 ^ 31)) mod 2 ^ 64 = offset s - 2 ^ 31" .
  moreover have "\<not> mmsize s < offset s - 2 ^ 31" using assms(2) by linarith
  ultimately show ?thesis by (simp add: Let_def)
qed

lemma page_block_does_not_fit: "bump_in w n [\<lparr>mmstart = a, offset = 64, mmsize = n\<rparr>] = None" if "0 < n" "n < 2 ^ 63"
  using that by (simp add: Let_def)

end
