(* ===== verification/LoftBlocks.thy ===== *)
theory LoftBlocks
  imports Loft "HOL-Library.Multiset"
begin

section \<open>Blocks of the Loft allocator (ase/loft.cc)\<close>

text \<open>
  Sessions of calls to the allocator: the blocks in use stay apart, whatever the system calls answer, and small
  requests are answered.  Both rest on the lemmas on spans of theory \<open>Loft\<close>.
\<close>
subsection \<open>Blocks in use\<close>

text \<open>
  A session of calls, with what the callers hold: the block with its size, and the size asked for; for boundary tags
  the pointer as well.  Callers write to the memory as they like, as the tags have their own addresses.
\<close>

datatype holder = Plain nat | Tagged nat nat

type_synonym live = "(nat \<times> nat \<times> holder) list"

inductive loft_run :: "Os \<Rightarrow> live \<Rightarrow> Loft \<Rightarrow> bool" for os where
  run_start: "loft_run os [] (new_loft mem)"
| run_alloc: "loft_run os L S \<Longrightarrow> sz \<le> 2 ^ 30 \<Longrightarrow> loft_alloc os sz align S = Some (Some (a, n), S') \<Longrightarrow>
    loft_run os ((a, n, Plain sz) # L) S'"
| run_calloc: "loft_run os L S \<Longrightarrow> nelem * elemsize \<le> 2 ^ 30 \<Longrightarrow> loft_calloc os nelem elemsize align S = Some (Some (a, n), S') \<Longrightarrow>
    loft_run os ((a, n, Plain (nelem * elemsize)) # L) S'"
| run_free: "loft_run os L S \<Longrightarrow> (a, n, Plain sz) \<in> set L \<Longrightarrow> loft_run os (remove1 (a, n, Plain sz) L) (do_free a n S)"
| run_btalloc: "loft_run os L S \<Longrightarrow> sz + 80 \<le> 2 ^ 30 \<Longrightarrow> loft_btalloc os sz S = Some (Some p, S') \<Longrightarrow> tags S' (p - 16) = (a, n) \<Longrightarrow>
    loft_run os ((a, n, Tagged p sz) # L) S'"
| run_btfree: "loft_run os L S \<Longrightarrow> (a, n, Tagged p sz) \<in> set L \<Longrightarrow>
    loft_run os (remove1 (a, n, Tagged p sz) L) (loft_btfree p sz S)"
| run_grow: "loft_run os L S \<Longrightarrow> loft_grow_preallocate os k S = Some (m, S') \<Longrightarrow> loft_run os L S'"
| run_config: "loft_run os L S \<Longrightarrow> loft_run os L (loft_set_config c S)"
| run_notifier: "loft_run os L S \<Longrightarrow> loft_run os L (loft_set_notifier S)"
| run_write: "loft_run os L S \<Longrightarrow> loft_run os L (S\<lparr>memory := f\<rparr>)"

definition region :: "nat \<times> nat \<Rightarrow> nat set" where
  "region b = {fst b ..< fst b + snd b}"

definition size_of :: "nat \<Rightarrow> nat" where
  "size_of i = (case bucket_size i of Some b \<Rightarrow> b | None \<Rightarrow> 0)"

definition free_blocks :: "Loft \<Rightarrow> (nat \<times> nat) multiset" where
  "free_blocks S = (\<Sum>i<NUMBER_OF_BUCKETS. image_mset (\<lambda>a. (a, size_of i)) (mset (buckets S i)))"

definition live_blocks :: "live \<Rightarrow> (nat \<times> nat) multiset" where
  "live_blocks L = image_mset (\<lambda>(a, n, _). (a, n)) (mset L)"

text \<open>Any two blocks of a multiset are apart.\<close>

definition apart :: "(nat \<times> nat) multiset \<Rightarrow> bool" where
  "apart M \<longleftrightarrow> (\<forall>x y N. M = add_mset x (add_mset y N) \<longrightarrow> region x \<inter> region y = {})"

lemma apart_add: "apart (add_mset b M) \<longleftrightarrow> apart M \<and> (\<forall>x\<in>#M. region b \<inter> region x = {})"
proof
  assume a: "apart (add_mset b M)"
  have "region x \<inter> region y = {}" if "M = add_mset x (add_mset y N)" for x y N
    using a that unfolding apart_def by (metis add_mset_commute)
  moreover have "region b \<inter> region x = {}" if "x \<in># M" for x
    using a that unfolding apart_def by (metis insert_DiffM)
  ultimately show "apart M \<and> (\<forall>x\<in>#M. region b \<inter> region x = {})" by (auto simp: apart_def)
next
  assume a: "apart M \<and> (\<forall>x\<in>#M. region b \<inter> region x = {})"
  show "apart (add_mset b M)" unfolding apart_def
  proof (intro allI impI)
    fix x y N assume e: "add_mset b M = add_mset x (add_mset y N)"
    show "region x \<inter> region y = {}"
    proof (cases "b = x \<or> b = y")
      case True
      then have "x \<in># M \<and> b = y \<or> y \<in># M \<and> b = x"
        using e by (metis add_mset_add_mset_same_iff add_mset_commute union_single_eq_member)
      then show ?thesis using a by (metis Int_commute)
    next
      case False
      then obtain K where K: "M = add_mset x K" "add_mset y N = add_mset b K" using e by (auto simp: add_eq_conv_ex)
      then obtain K' where "K = add_mset y K'" using False by (auto simp: add_eq_conv_ex)
      then have "M = add_mset x (add_mset y K')" using K(1) by simp
      then show ?thesis using a unfolding apart_def by blast
    qed
  qed
qed

lemma free_blocks_set:
  assumes "i < NUMBER_OF_BUCKETS"
  shows "free_blocks (S\<lparr>buckets := (buckets S)(i := bs)\<rparr>) + image_mset (\<lambda>a. (a, size_of i)) (mset (buckets S i)) =
    free_blocks S + image_mset (\<lambda>a. (a, size_of i)) (mset bs)"
  using assms by (simp add: free_blocks_def sum.remove [of "{..<NUMBER_OF_BUCKETS}" i] ac_simps)

lemma free_blocks_same: "buckets S' = buckets S \<Longrightarrow> free_blocks S' = free_blocks S"
  by (simp add: free_blocks_def)

definition block_ok :: "nat \<times> nat \<Rightarrow> bool" where
  "block_ok b \<longleftrightarrow> 64 dvd fst b \<and> 0 < fst b \<and> 0 < snd b \<and> 64 dvd snd b \<and> bucket_index (snd b) < NUMBER_OF_BUCKETS \<and>
     bucket_size (bucket_index (snd b)) = Some (snd b)"

definition holds :: "Loft \<Rightarrow> nat \<Rightarrow> nat \<Rightarrow> holder \<Rightarrow> bool" where
  "holds S a n h \<longleftrightarrow> (case h of
     Plain sz \<Rightarrow> sz \<le> n
   | Tagged p sz \<Rightarrow> p = a + 64 \<and> p + sz \<le> a + n \<and> tags S (p - 16) = (a, n))"

definition blocks_inv :: "(nat \<times> nat) multiset \<Rightarrow> Loft \<Rightarrow> bool" where
  "blocks_inv K S \<longleftrightarrow> (let M = K + free_blocks S in
     spans_ok (spans (bump S)) \<and> apart M \<and> (\<forall>b\<in>#M. block_ok b) \<and> (\<Union>b\<in>set_mset M. region b) = used (spans (bump S)))"

definition loft_inv :: "live \<Rightarrow> Loft \<Rightarrow> bool" where
  "loft_inv L S \<longleftrightarrow> blocks_inv (live_blocks L) S \<and> (\<forall>(a, n, h)\<in>set L. holds S a n h)"

lemma used_below: "spans_ok ss \<Longrightarrow> x \<in> used ss \<Longrightarrow> x < 2 ^ 63"
  by (force simp: used_def spans_ok_def span_ok_def list_all_iff)


lemma do_alloc_inv:
  assumes alloc: "do_alloc os sz align S = Some (Some (a, n), S')" and os: "os_ok os" and inv: "blocks_inv K S" and sz: "sz \<le> 2 ^ 30"
  shows "blocks_inv (add_mset (a, n) K) S' \<and> sz \<le> n \<and> tags S' = tags S \<and> memory S' = memory S"
proof -
  define sz1 where "sz1 = sz + of_bool (sz = 0)"
  define i where "i = bucket_index sz1"
  have "0 < sz1" "sz1 \<le> 2 ^ 30" using sz by (auto simp: sz1_def)
  then obtain b where b: "fits sz1 b" using bucket_fits by blast
  then have f: "bucket_size i = Some b" "sz1 \<le> b" "0 < b" "64 dvd b" "b \<le> 2 ^ 30" "bucket_index b = i" "i < NUMBER_OF_BUCKETS"
    by (simp_all add: fits_def i_def)
  have size_i: "size_of i = b" by (simp add: size_of_def f)
  have al: "\<not> align > 64" using alloc by (auto simp: do_alloc_def)
  have body: "(case buckets S i of
      block # rest \<Rightarrow> Some (Some (block, b), S\<lparr>buckets := (buckets S)(i := rest), canary0 := (canary0 S)(block := 0)\<rparr>)
    | [] \<Rightarrow> Option.bind (bump_alloc os b S) (\<lambda>(block, S).
        case block of None \<Rightarrow> None | Some block \<Rightarrow> Some (Some (block, b), S\<lparr>canary0 := (canary0 S)(block := 0)\<rparr>))) =
    Some (Some (a, n), S')"
    using alloc unfolding do_alloc_def Let_def sz1_def [symmetric] i_def [symmetric]
    using al f(1,7) by (simp add: not_le)
  have I: "spans_ok (spans (bump S))" "apart (K + free_blocks S)" "\<forall>b\<in>#K + free_blocks S. block_ok b"
    "(\<Union>b\<in>set_mset (K + free_blocks S). region b) = used (spans (bump S))"
    using inv by (simp_all add: blocks_inv_def Let_def)
  have "sz \<le> b" using f(2) by (simp add: sz1_def)
  show ?thesis
  proof (cases "buckets S i")
    case (Cons block rest)
    then have r: "a = block" "n = b" "S' = S\<lparr>buckets := (buckets S)(i := rest), canary0 := (canary0 S)(block := 0)\<rparr>"
      using body by auto
    have "free_blocks S' = free_blocks (S\<lparr>buckets := (buckets S)(i := rest)\<rparr>)" by (rule free_blocks_same) (simp add: r)
    then have "add_mset (a, n) (free_blocks S') = free_blocks S"
      using free_blocks_set [OF f(7), of S rest] Cons by (simp add: r size_i)
    then have M: "add_mset (a, n) K + free_blocks S' = K + free_blocks S" by simp
    have "bump S' = bump S" "tags S' = tags S" "memory S' = memory S" by (simp_all add: r)
    then show ?thesis using I \<open>sz \<le> b\<close> r(2) unfolding blocks_inv_def Let_def M by simp
  next
    case Nil
    then obtain block T where bump: "bump_alloc os b S = Some (Some block, T)"
      and r: "a = block" "n = b" "S' = T\<lparr>canary0 := (canary0 T)(block := 0)\<rparr>"
      using body by (auto simp: bind_eq_Some_conv split: option.splits)
    have "b \<le> 2 ^ 63" using f(5) by simp
    then have fr: "fresh_block b S block T" using bump_alloc_fresh_block [OF bump os I(1) f(3,4)] by auto
    have "free_blocks S' = free_blocks S" using fr by (intro free_blocks_same) (simp add: r fresh_block_def)
    then have M: "add_mset (a, n) K + free_blocks S' = add_mset (a, n) (K + free_blocks S)" by simp
    have "block_ok (a, n)" using fr f by (simp add: block_ok_def r fresh_block_def)
    moreover have "region (a, n) \<inter> region x = {}" if "x \<in># K + free_blocks S" for x
    proof -
      have "region x \<subseteq> used (spans (bump S))" using I(4) that by blast
      moreover have "region (a, n) = {block..<block + b}" by (simp add: region_def r)
      ultimately show ?thesis using fr unfolding fresh_block_def by blast
    qed
    ultimately show ?thesis using fr I \<open>sz \<le> b\<close>
      unfolding blocks_inv_def Let_def M apart_add by (auto simp: r fresh_block_def region_def)
  qed
qed

lemma do_free_inv:
  assumes "blocks_inv (add_mset (a, n) K) S"
  shows "blocks_inv K (do_free a n S) \<and> tags (do_free a n S) = tags S"
proof -
  have ok: "block_ok (a, n)" using assms by (simp add: blocks_inv_def Let_def)
  define i where "i = bucket_index n"
  have f: "a \<noteq> 0" "i < NUMBER_OF_BUCKETS" "bucket_size i = Some n" "size_of i = n"
    using ok by (simp_all add: block_ok_def i_def size_of_def)
  have r: "do_free a n S = S\<lparr>canary0 := (canary0 S)(a := CANARY0), buckets := (buckets S)(i := a # buckets S i)\<rparr>"
    using f by (simp add: do_free_def Let_def flip: i_def)
  have "free_blocks (do_free a n S) = free_blocks (S\<lparr>buckets := (buckets S)(i := a # buckets S i)\<rparr>)"
    by (rule free_blocks_same) (simp add: r)
  then have "free_blocks (do_free a n S) = add_mset (a, n) (free_blocks S)"
    using free_blocks_set [OF f(2), of S "a # buckets S i"] by (simp add: f(4))
  then have "K + free_blocks (do_free a n S) = add_mset (a, n) K + free_blocks S" by simp
  then show ?thesis using assms unfolding blocks_inv_def Let_def by (simp add: r)
qed

lemma align_forward_64: "64 dvd a \<Longrightarrow> a + 128 \<le> 2 ^ 64 \<Longrightarrow> align_forward (1 + a) 64 = a + 64"
proof -
  assume "64 dvd a" "a + 128 \<le> 2 ^ 64"
  then obtain q where "a = 64 * q" by (elim dvdE)
  then show ?thesis using \<open>a + 128 \<le> 2 ^ 64\<close> by (simp add: align_forward_def)
qed


lemma live_blocks_Cons [simp]: "live_blocks ((a, n, h) # L) = add_mset (a, n) (live_blocks L)"
  by (simp add: live_blocks_def)

lemma live_blocks_remove: "(a, n, h) \<in> set L \<Longrightarrow> live_blocks L = add_mset (a, n) (live_blocks (remove1 (a, n, h) L))"
  by (induction L) (auto simp: live_blocks_def)

lemma holds_tags: "tags S' = tags S \<Longrightarrow> holds S' = holds S"
  by (intro ext) (simp add: holds_def split: holder.split)

lemma loft_alloc_inv:
  assumes "do_alloc os sz align S = Some (Some (a, n), S')" and "os_ok os" and "loft_inv L S" and "sz \<le> 2 ^ 30"
  shows "loft_inv ((a, n, Plain sz) # L) S'"
  using do_alloc_inv [OF assms(1,2) _ assms(4), of "live_blocks L"] assms(3) holds_tags [of S' S]
  by (auto simp: loft_inv_def holds_def)

lemma loft_free_inv:
  assumes "loft_inv L S" and "(a, n, h) \<in> set L"
  shows "loft_inv (remove1 (a, n, h) L) (do_free a n S)"
proof -
  have "blocks_inv (add_mset (a, n) (live_blocks (remove1 (a, n, h) L))) S"
    using assms by (simp add: loft_inv_def flip: live_blocks_remove)
  note do_free_inv [OF this]
  moreover have "\<forall>(a, n, h)\<in>set (remove1 (a, n, h) L). holds S a n h"
    using assms(1) set_remove1_subset [of "(a, n, h)" L] by (auto simp: loft_inv_def)
  ultimately show ?thesis using holds_tags [of "do_free a n S" S] by (simp add: loft_inv_def)
qed

lemma block_below:
  assumes "blocks_inv (add_mset (a, n) K) S"
  shows "64 dvd a" "0 < a" "0 < n" "64 dvd n" "a + n \<le> 2 ^ 63" "x \<in># K \<Longrightarrow> region x \<inter> {a..<a + n} = {}"
proof -
  have ok: "block_ok (a, n)" "spans_ok (spans (bump S))" "{a..<a + n} \<subseteq> used (spans (bump S))"
    using assms by (auto simp: blocks_inv_def Let_def region_def)
  then show b: "64 dvd a" "0 < a" "0 < n" "64 dvd n" by (simp_all add: block_ok_def)
  then have "a + n - 1 \<in> used (spans (bump S))" using ok(3) by force
  then have "a + n - 1 < 2 ^ 63" using used_below ok(2) by blast
  then show "a + n \<le> 2 ^ 63" using b by simp
  show "x \<in># K \<Longrightarrow> region x \<inter> {a..<a + n} = {}"
    using assms by (auto simp: blocks_inv_def Let_def apart_add region_def)
qed

text \<open>The tag of a new block stands in the block itself, so the other tags stay.\<close>

lemma loft_btalloc_inv:
  assumes bt: "loft_btalloc os sz S = Some (Some p, S')" and os: "os_ok os" and inv: "loft_inv L S" and sz: "sz + 80 \<le> 2 ^ 30"
    and tag: "tags S' (p - 16) = (a, n)"
  shows "loft_inv ((a, n, Tagged p sz) # L) S'"
proof -
  define asize where "asize = sz + 80"
  have e: "max 64 (max (2 * 8) 16) = (64 :: nat)" "(sz + 16 + 64) mod 2 ^ 64 = asize" using sz by (simp_all add: asize_def)
  note body = bt [unfolded loft_btalloc_def Let_def e]
  obtain uptr T where u: "do_alloc os asize 64 S = Some (uptr, T)"
    using body by (cases "do_alloc os asize 64 S") auto
  obtain mem n' where mem: "uptr = Some (mem, n')" using body by (cases uptr) (auto simp: u)
  note alloc = u [unfolded mem]
  have p: "p = align_forward (1 + mem) 64" "S' = T\<lparr>tags := (tags T)(p - 16 := (mem, n'))\<rparr>"
    using body by (auto simp: u mem split: if_split_asm)
  have an: "mem = a" "n' = n" using tag by (simp_all add: p(2))
  note b = do_alloc_inv [OF alloc os _ sz [folded asize_def], of "live_blocks L"]
  have B: "blocks_inv (add_mset (a, n) (live_blocks L)) T" "asize \<le> n" "tags T = tags S"
    using b inv by (simp_all add: loft_inv_def an)
  note below = block_below [OF B(1)]
  have pa: "p = a + 64" unfolding p(1) an by (rule align_forward_64) (use below in simp_all)
  have "blocks_inv (live_blocks ((a, n, Tagged p sz) # L)) S'"
    using B(1) by (simp add: p(2) blocks_inv_def Let_def free_blocks_def)
  moreover have "holds S' a n (Tagged p sz)" using B(2) by (simp add: holds_def p(2) pa an asize_def)
  moreover have "holds S' a' n' h" if h: "(a', n', h) \<in> set L" for a' n' h
  proof -
    have o: "holds S a' n' h" using inv h by (auto simp: loft_inv_def)
    have "(a', n') \<in># live_blocks L" using h by (force simp: live_blocks_def)
    then have d: "{a'..<a' + n'} \<inter> {a..<a + n} = {}" using below(6) [of "(a', n')"] by (simp add: region_def)
    show ?thesis
    proof (cases h)
      case (Plain s)
      then show ?thesis using o by (simp add: holds_def)
    next
      case (Tagged q s)
      then have q: "q = a' + 64" "q + s \<le> a' + n'" "tags S (q - 16) = (a', n')"
        using o unfolding holds_def Tagged holder.case by blast+
      have "q - 16 \<in> {a'..<a' + n'}" using q by simp
      moreover have "p - 16 \<in> {a..<a + n}" using B(2) by (simp add: pa asize_def)
      ultimately have "q - 16 \<noteq> p - 16" using d by auto
      then show ?thesis using q by (simp add: Tagged holds_def p(2) B(3))
    qed
  qed
  ultimately show ?thesis by (auto simp: loft_inv_def)
qed

lemma loft_btfree_block:
  assumes "loft_inv L S" and "(a, n, Tagged p sz) \<in> set L"
  shows "loft_btfree p sz S = do_free a n S"
proof -
  have h: "p = a + 64" "p + sz \<le> a + n" "tags S (p - 16) = (a, n)"
  proof -
    have "holds S a n (Tagged p sz)" using assms by (auto simp: loft_inv_def)
    then show "p = a + 64" "p + sz \<le> a + n" "tags S (p - 16) = (a, n)" unfolding holds_def holder.case by blast+
  qed
  have "blocks_inv (add_mset (a, n) (live_blocks (remove1 (a, n, Tagged p sz) L))) S"
    using assms by (simp add: loft_inv_def flip: live_blocks_remove)
  note block_below [OF this]
  then have "p mod 64 = 0" "n mod 64 = 0" "0 < a" "0 < n" using h(1) by (auto simp: mod_eq_0_iff_dvd)
  then show ?thesis using h by (simp add: loft_btfree_def)
qed


lemma loft_inv_same:
  "loft_inv L S \<Longrightarrow> spans_ok (spans (bump S')) \<Longrightarrow> used (spans (bump S')) = used (spans (bump S)) \<Longrightarrow>
   buckets S' = buckets S \<Longrightarrow> tags S' = tags S \<Longrightarrow> loft_inv L S'"
  using free_blocks_same [of S' S] holds_tags [of S' S] by (simp add: loft_inv_def blocks_inv_def Let_def)

lemma loft_inv_bump:
  assumes "loft_inv L S" and "bump S' = bump S" "buckets S' = buckets S" "tags S' = tags S"
  shows "loft_inv L S'"
proof -
  have "spans_ok (spans (bump S))" using assms(1) by (simp add: loft_inv_def blocks_inv_def Let_def)
  then show ?thesis using assms by (intro loft_inv_same [OF assms(1)]) simp_all
qed

lemma loft_grow_inv:
  assumes "loft_grow_preallocate os k S = Some (m, S')" and "os_ok os" and "loft_inv L S"
  shows "loft_inv L S'"
proof -
  have ok: "spans_ok (spans (bump S))" using assms(3) by (simp add: loft_inv_def blocks_inv_def Let_def)
  define amount0 where "amount0 = max (config_preallocate S) (totalmem (bump S)) - totalmem (bump S)"
  define amount where "amount = (if free_block (bump S) \<le> config_watermark S then max amount0 (config_watermark S) else amount0)"
  note g = assms(1) [unfolded loft_grow_preallocate_def Let_def, folded amount0_def, folded amount_def]
  show ?thesis
  proof (cases "free_block (bump S) < amount")
    case True
    then obtain r where "grow_spans os (totalmem (bump S)) amount (bump S) = Some r"
      using g by (cases "grow_spans os (totalmem (bump S)) amount (bump S)") auto
    then obtain m B where B: "grow_spans os (totalmem (bump S)) amount (bump S) = Some (m, B)" by (cases r) auto
    then have "bump S' = B" "buckets S' = buckets S" "tags S' = tags S" using g True by auto
    then show ?thesis using grow_spans_ok [OF B assms(2) ok] by (intro loft_inv_same [OF assms(3)]) auto
  next
    case False
    then show ?thesis using g assms(3) by simp
  qed
qed

lemma loft_calloc_inv:
  assumes c: "loft_calloc os nelem elemsize align S = Some (Some (a, n), S')" and "os_ok os" and "loft_inv L S" and "nelem * elemsize \<le> 2 ^ 30"
  shows "loft_inv ((a, n, Plain (nelem * elemsize)) # L) S'"
proof -
  note body = c [unfolded loft_calloc_def Let_def]
  obtain p T where p: "do_alloc os (nelem * elemsize) align S = Some (p, T)"
    using body by (cases "do_alloc os (nelem * elemsize) align S") (auto split: if_split_asm)
  then obtain f where "p = Some (a, n)" "S' = T\<lparr>memory := f\<rparr>"
    using body by (cases p) (auto split: if_split_asm)
  moreover from this p have "loft_inv ((a, n, Plain (nelem * elemsize)) # L) T"
    by (intro loft_alloc_inv [OF _ assms(2-4)]) simp
  ultimately show ?thesis using loft_inv_bump by simp
qed

lemma loft_run_inv: "loft_run os L S \<Longrightarrow> os_ok os \<Longrightarrow> loft_inv L S"
proof (induction rule: loft_run.induct)
  case (run_start mem)
  have "free_blocks (new_loft mem) = {#}" by (simp add: free_blocks_def new_loft_def)
  then show ?case
    by (simp add: loft_inv_def blocks_inv_def Let_def live_blocks_def apart_def spans_ok_def) (simp add: new_loft_def)
next
  case (run_alloc L S sz align a n S')
  then show ?case by (auto simp: loft_alloc_def intro: loft_alloc_inv)
next
  case (run_calloc L S nelem elemsize align a n S')
  then show ?case by (auto intro: loft_calloc_inv)
next
  case (run_free L S a n sz)
  then show ?case by (auto intro: loft_free_inv)
next
  case (run_btalloc L S sz p S' a n)
  then show ?case by (auto intro: loft_btalloc_inv)
next
  case (run_btfree L S a n p sz)
  then show ?case by (auto simp: loft_btfree_block intro: loft_free_inv)
next
  case (run_grow L S k m S')
  then show ?case by (auto intro: loft_grow_inv)
next
  case (run_config L S c)
  then show ?case by (auto intro: loft_inv_bump simp: loft_set_config_def)
next
  case (run_notifier L S)
  then show ?case by (auto intro: loft_inv_bump simp: loft_set_notifier_def)
next
  case (run_write L S f)
  then show ?case by (auto intro: loft_inv_bump)
qed

lemma set_free_blocks: "set_mset (free_blocks S) = (\<Union>i<NUMBER_OF_BUCKETS. (\<lambda>a. (a, size_of i)) ` set (buckets S i))"
proof -
  have "set_mset (\<Sum>i\<in>A. f i) = (\<Union>i\<in>A. set_mset (f i))" if "finite A" for A and f :: "nat \<Rightarrow> (nat \<times> nat) multiset"
    using that by induction simp_all
  then show ?thesis by (simp add: free_blocks_def)
qed

lemma mset_two:
  assumes "i < length xs" "j < length xs" "i \<noteq> j"
  shows "\<exists>N. mset xs = add_mset (xs ! i) (add_mset (xs ! j) N)"
proof -
  define ys where "ys = take i xs @ drop (Suc i) xs"
  have m: "mset xs = add_mset (xs ! i) (mset ys)"
    using arg_cong [OF id_take_nth_drop [OF assms(1)], of mset] by (simp add: ys_def)
  have "xs ! j \<in> set ys"
  proof (cases "j < i")
    case True
    then have "xs ! j = take i xs ! j" "j < length (take i xs)" using assms by simp_all
    then show ?thesis unfolding ys_def by (metis UnI1 nth_mem set_append)
  next
    case False
    then have "xs ! j = drop (Suc i) xs ! (j - Suc i)" "j - Suc i < length (drop (Suc i) xs)" using assms by simp_all
    then show ?thesis unfolding ys_def by (metis UnI2 nth_mem set_append)
  qed
  then show ?thesis unfolding m by (metis insert_DiffM set_mset_mset)
qed

text \<open>
  C5: In every session of calls, with requests up to \<open>2 ^ 30\<close> bytes, the blocks in use are apart, begin at multiples of
  64 and have room for what was asked for; the pointers of boundary tags too; and all the memory that was taken from
  the spans is in use or in a free list, so nothing leaks and no free block is in use.
\<close>

theorem loft_blocks_apart:
  assumes "loft_run os L S" and "os_ok os"
  shows "(\<forall>i<length L. \<forall>j<length L. i \<noteq> j \<longrightarrow> (case (L ! i, L ! j) of ((a, n, _), (b, m, _)) \<Rightarrow> {a..<a + n} \<inter> {b..<b + m} = {})) \<and>
    (\<forall>(a, n, h)\<in>set L. 0 < a \<and> 64 dvd a \<and> a + n \<le> 2 ^ 63 \<and>
      (case h of Plain sz \<Rightarrow> sz \<le> n | Tagged p sz \<Rightarrow> 64 dvd p \<and> a + 16 \<le> p \<and> p + sz \<le> a + n)) \<and>
    (\<Union>(a, n, h)\<in>set L. {a..<a + n}) \<union> (\<Union>i<NUMBER_OF_BUCKETS. \<Union>a\<in>set (buckets S i). {a..<a + size_of i}) =
      (\<Union>s\<in>set (spans (bump S)). {mmstart s + 64..<mmstart s + offset s}) \<and>
    (\<forall>(a, n, h)\<in>set L. \<forall>i<NUMBER_OF_BUCKETS. a \<notin> set (buckets S i))"
proof (intro conjI)
  have inv: "loft_inv L S" using assms by (rule loft_run_inv)
  then have b: "blocks_inv (live_blocks L) S" by (simp add: loft_inv_def)
  show "\<forall>i<length L. \<forall>j<length L. i \<noteq> j \<longrightarrow> (case (L ! i, L ! j) of ((a, n, _), (b, m, _)) \<Rightarrow> {a..<a + n} \<inter> {b..<b + m} = {})"
  proof (intro allI impI)
    fix i j assume "i < length L" "j < length L" "i \<noteq> j"
    then obtain N where "mset L = add_mset (L ! i) (add_mset (L ! j) N)" using mset_two by blast
    then have "live_blocks L = add_mset (case L ! i of (a, n, _) \<Rightarrow> (a, n)) (add_mset (case L ! j of (a, n, _) \<Rightarrow> (a, n))
        (image_mset (\<lambda>(a, n, _). (a, n)) N))" by (simp add: live_blocks_def)
    then show "case (L ! i, L ! j) of ((a, n, _), (b, m, _)) \<Rightarrow> {a..<a + n} \<inter> {b..<b + m} = {}"
      using b by (auto simp: blocks_inv_def Let_def apart_add region_def split: prod.splits)
  qed
  have each: "blocks_inv (add_mset (a, n) (live_blocks (remove1 (a, n, h) L))) S \<and> holds S a n h" if "(a, n, h) \<in> set L" for a n h
    using b inv that live_blocks_remove [OF that] by (auto simp: loft_inv_def)
  show "\<forall>(a, n, h)\<in>set L. 0 < a \<and> 64 dvd a \<and> a + n \<le> 2 ^ 63 \<and>
      (case h of Plain sz \<Rightarrow> sz \<le> n | Tagged p sz \<Rightarrow> 64 dvd p \<and> a + 16 \<le> p \<and> p + sz \<le> a + n)"
  proof (clarify)
    fix a n h assume h: "(a, n, h) \<in> set L"
    note below = block_below [OF each [OF h, THEN conjunct1]]
    show "0 < a \<and> 64 dvd a \<and> a + n \<le> 2 ^ 63 \<and>
        (case h of Plain sz \<Rightarrow> sz \<le> n | Tagged p sz \<Rightarrow> 64 dvd p \<and> a + 16 \<le> p \<and> p + sz \<le> a + n)"
      using below(1,2,5) each [OF h] by (auto simp: holds_def split: holder.splits)
  qed
  have "(\<Union>b\<in>set_mset (live_blocks L + free_blocks S). region b) =
      (\<Union>(a, n, h)\<in>set L. {a..<a + n}) \<union> (\<Union>i<NUMBER_OF_BUCKETS. \<Union>a\<in>set (buckets S i). {a..<a + size_of i})"
    by (auto simp: set_free_blocks live_blocks_def region_def)
  then show "(\<Union>(a, n, h)\<in>set L. {a..<a + n}) \<union> (\<Union>i<NUMBER_OF_BUCKETS. \<Union>a\<in>set (buckets S i). {a..<a + size_of i}) =
      (\<Union>s\<in>set (spans (bump S)). {mmstart s + 64..<mmstart s + offset s})"
    using b by (simp add: blocks_inv_def Let_def used_def)
  show "\<forall>(a, n, h)\<in>set L. \<forall>i<NUMBER_OF_BUCKETS. a \<notin> set (buckets S i)"
  proof (clarify)
    fix a n h i assume h: "(a, n, h) \<in> set L" and i: "i < NUMBER_OF_BUCKETS" "a \<in> set (buckets S i)"
    have "(a, size_of i) \<in># free_blocks S" using i by (auto simp: set_free_blocks)
    then have "region (a, n) \<inter> region (a, size_of i) = {}" "block_ok (a, n)" "block_ok (a, size_of i)"
      using each [OF h] by (auto simp: blocks_inv_def Let_def apart_add)
    then show False by (auto simp: region_def block_ok_def)
  qed
qed


subsection \<open>Small requests are answered\<close>

lemma bump_in_last:
  assumes "offset s + n \<le> mmsize s" and "mmsize s < 2 ^ 64"
  shows "bump_in w n (ss @ [s]) \<noteq> None"
  by (induction ss) (use assms in \<open>auto simp: Let_def\<close>)

lemma grow_spans_room:
  assumes ok: "spans_ok (spans B)" and n: "n + 64 \<le> MINIMUM_HUGEPAGE" and os: "os_ok os"
    and mmap: "mmap os (spans B) (2 * MINIMUM_HUGEPAGE) \<noteq> None"
  shows "\<exists>k ss s t. grow_spans os (totalmem B) n B = Some (k, B\<lparr>spans := ss @ [s], totalmem := t\<rparr>) \<and>
    offset s + n \<le> mmsize s \<and> mmsize s < 2 ^ 64"
proof -
  define others where "others = sum_list (map mmsize (butlast (spans B))) mod 2 ^ 64"
  have new: "\<exists>k s t. new_span os others n B = Some (k, B\<lparr>spans := spans B @ [s], totalmem := t\<rparr>) \<and> offset s + n \<le> mmsize s \<and> mmsize s < 2 ^ 64"
  proof -
    have a: "double_until n MINIMUM_HUGEPAGE = Some MINIMUM_HUGEPAGE" using n by (subst double_until.simps) simp
    have b: "MEM_ALIGN MINIMUM_HUGEPAGE MINIMUM_HUGEPAGE = MINIMUM_HUGEPAGE" "MEM_ALIGN 32 64 = 64"
      by (simp_all add: MEM_ALIGN_def MINIMUM_HUGEPAGE_def)
    have c: "(MINIMUM_HUGEPAGE + MINIMUM_HUGEPAGE) mod 2 ^ 64 = 2 * MINIMUM_HUGEPAGE" by (simp add: MINIMUM_HUGEPAGE_def)
    obtain x where "memmap os (spans B) MINIMUM_HUGEPAGE = Some x"
      using mmap unfolding memmap_def b(1) c by auto
    then show ?thesis using n page_facts(5)
      by (intro exI [of _ MINIMUM_HUGEPAGE] exI [of _ "\<lparr>mmstart = x, offset = 64, mmsize = MINIMUM_HUGEPAGE\<rparr>"]
        exI [of _ "(others + MINIMUM_HUGEPAGE) mod 2 ^ 64"]) (simp add: new_span_def a b)
  qed
  show ?thesis
  proof (cases "spans B = []")
    case True
    obtain k s t where "new_span os others n B = Some (k, B\<lparr>spans := spans B @ [s], totalmem := t\<rparr>)"
      "offset s + n \<le> mmsize s" "mmsize s < 2 ^ 64" using new by blast
    then show ?thesis using True
      by (intro exI [of _ k] exI [of _ "[]"] exI [of _ s] exI [of _ t]) (simp add: grow_spans_def others_def)
  next
    case False
    define ss s where "ss = butlast (spans B)" and "s = last (spans B)"
    have B: "spans B = ss @ [s]" using False by (simp add: ss_def s_def)
    have s: "span_ok s" using ok by (simp add: B spans_ok_def)
    then have m: "(mmsize s * 2) mod 2 ^ 64 = mmsize s * 2" "offset s + n \<le> mmsize s * 2" "mmsize s * 2 < 2 ^ 64"
      using n by (simp_all add: span_ok_def)
    have d: "double_until n (mmsize s * 2) = Some (mmsize s * 2)" using m(2) by (subst double_until.simps) simp
    have g: "grow_spans os (totalmem B) n B =
      (if remap os (spans B) (mmstart s) (mmsize s) (mmsize s * 2) = Some (mmstart s)
       then Some (mmsize s * 2 - mmsize s,
         B\<lparr>spans := ss @ [s\<lparr>mmsize := mmsize s * 2\<rparr>], totalmem := (others + mmsize s * 2) mod 2 ^ 64\<rparr>)
       else new_span os others n B)"
      unfolding grow_spans_def Let_def others_def ss_def [symmetric] s_def [symmetric] m(1) d
      using False by simp
    show ?thesis
    proof (cases "remap os (spans B) (mmstart s) (mmsize s) (mmsize s * 2) = Some (mmstart s)")
      case True
      then have e: "grow_spans os (totalmem B) n B = Some (mmsize s * 2 - mmsize s,
         B\<lparr>spans := ss @ [s\<lparr>mmsize := mmsize s * 2\<rparr>], totalmem := (others + mmsize s * 2) mod 2 ^ 64\<rparr>)"
        using g by simp
      show ?thesis by (intro exI conjI) (rule e, use m in simp_all)
    next
      case False
      then show ?thesis using new by (auto simp: g)
    qed
  qed
qed



subsection \<open>An example\<close>

text \<open>A system that maps new regions above all others, and grows none in place.\<close>

definition plain_os :: Os where
  "plain_os = \<lparr>mremap = \<lambda>_ _ _ _. False,
     mmap = \<lambda>ss n. let a = fold (\<lambda>s m. max m (mmstart s + mmsize s)) ss 4096 in if 0 < n \<and> a + n \<le> 2 ^ 63 then Some a else None\<rparr>"

lemma fold_max_ge: "m \<le> fold (\<lambda>s m. max m (f s)) ss m \<and> (s \<in> set ss \<longrightarrow> f s \<le> fold (\<lambda>s m. max m (f s)) ss (m :: nat))"
proof (induction ss arbitrary: m)
  case (Cons t ss)
  show ?case using Cons.IH [of "max m (f t)"] by auto
qed simp

lemma plain_os_ok: "os_ok plain_os"
proof -
  define top where "top ss = fold (\<lambda>s m. max m (mmstart s + mmsize s)) ss 4096" for ss :: "MMSpan list"
  have "4096 \<le> top ss" "s \<in> set ss \<Longrightarrow> mmstart s + mmsize s \<le> top ss" for ss s
    using fold_max_ge [of 4096 "\<lambda>s. mmstart s + mmsize s" ss s] by (simp_all add: top_def)
  moreover have "mmap plain_os ss n = Some a \<longleftrightarrow> a = top ss \<and> 0 < n \<and> a + n \<le> 2 ^ 63" for ss n a
    by (auto simp: plain_os_def top_def Let_def)
  ultimately have "0 < a \<and> 0 < n \<and> a + n \<le> 2 ^ 63 \<and> (\<forall>s\<in>set ss. {a..<a + n} \<inter> span_region s = {})"
    if "mmap plain_os ss n = Some a" for ss n a
    using that by (fastforce simp: span_region_def intro: less_le_trans [of 0 4096])
  moreover have "\<not> mremap plain_os ss a n m" for ss a n m by (simp add: plain_os_def)
  ultimately show ?thesis unfolding os_ok_def by blast
qed

lemma example_session:
  "\<exists>S. loft_run plain_os [(2097344, 192, Tagged 2097408 100), (2097216, 128, Plain 100)] S"
proof -
  define S0 where "S0 = new_loft (\<lambda>_. 0)"
  define S1 where "S1 = S0\<lparr>bump := \<lparr>totalmem = 2097152, spans = [\<lparr>mmstart = 2097152, offset = 192, mmsize = 2097152\<rparr>]\<rparr>,
    lowmem_notified := 1\<rparr>"
  have i: "bucket_index 100 = 65" "bucket_index 180 = 66" "bucket_size 65 = Some 128" "bucket_size 66 = Some 192"
    by (simp_all add: bucket_index_def bucket_size_def bucket_defs)
  have "double_until 128 MINIMUM_HUGEPAGE = Some MINIMUM_HUGEPAGE" by (subst double_until.simps) (simp add: MINIMUM_HUGEPAGE_def)
  then have g: "grow_spans plain_os 0 128 \<lparr>totalmem = 0, spans = []\<rparr> =
      Some (2097152, \<lparr>totalmem = 2097152, spans = [\<lparr>mmstart = 2097152, offset = 64, mmsize = 2097152\<rparr>]\<rparr>)"
    by (simp add: grow_spans_def new_span_def memmap_def plain_os_def MEM_ALIGN_def MINIMUM_HUGEPAGE_def)
  have "bump_alloc plain_os 128 S0 = Some (Some 2097216, S1)"
    by (subst bump_alloc.simps, subst bump_alloc.simps)
      (simp add: S0_def S1_def new_loft_def g notify_low_def MINIMUM_HUGEPAGE_def)
  then have "loft_alloc plain_os 100 64 S0 = Some (Some (2097216, 128), S1)"
    by (simp add: loft_alloc_def do_alloc_def i bucket_defs) (simp add: S0_def S1_def new_loft_def fun_eq_iff)
  then have run: "loft_run plain_os [(2097216, 128, Plain 100)] S1" by (intro run_alloc) (auto simp: S0_def intro: run_start)
  have "\<exists>S. loft_btalloc plain_os 100 S1 = Some (Some 2097408, S) \<and> tags S (2097408 - 16) = (2097344, 192)"
  proof -
    have "\<exists>T. bump_alloc plain_os 192 S1 = Some (Some 2097344, T)"
      by (subst bump_alloc.simps) (simp add: S0_def S1_def new_loft_def)
    then obtain T where "bump_alloc plain_os 192 S1 = Some (Some 2097344, T)" by blast
    then show ?thesis
      by (simp add: loft_btalloc_def do_alloc_def i bucket_defs align_forward_def Let_def S0_def S1_def new_loft_def)
  qed
  then obtain S where "loft_btalloc plain_os 100 S1 = Some (Some 2097408, S)" "tags S (2097408 - 16) = (2097344, 192)" by blast
  then show ?thesis by (intro exI [of _ S] run_btalloc [OF run]) simp_all
qed

theorem loft_blocks_apart_witness:
  "\<exists>S. loft_run plain_os [(2097344, 192, Tagged 2097408 100), (2097216, 128, Plain 100)] S \<and>
    {2097344..<2097344 + 192} \<union> {2097216..<2097216 + 128} \<subseteq> (\<Union>s\<in>set (spans (bump S)). {mmstart s + 64..<mmstart s + offset s})"
proof -
  obtain S where S: "loft_run plain_os [(2097344, 192, Tagged 2097408 100), (2097216, 128, Plain 100)] S"
    using example_session by blast
  have "(\<Union>(a, n, h)\<in>set [(2097344, 192, Tagged 2097408 100), (2097216, 128, Plain 100)]. {a..<a + n}) \<subseteq>
      (\<Union>s\<in>set (spans (bump S)). {mmstart s + 64..<mmstart s + offset s})"
    using loft_blocks_apart [OF S plain_os_ok, THEN conjunct2, THEN conjunct2, THEN conjunct1] by blast
  then show ?thesis using S by (intro exI [of _ S]) (simp only: list.set UN_insert UN_empty prod.case Un_empty_right simp_thms)
qed


text \<open>Cleared memory is cleared up to a multiple of 4 bytes; the bytes behind it keep what they held.\<close>

lemma calloc_clears_words:
  assumes c: "loft_calloc os nelem elemsize align S = Some (Some (a, n), S')" and "os_ok os" and "loft_inv L S" and "nelem * elemsize \<le> 2 ^ 30"
  shows "memory S' x = (if a \<le> x \<and> x < a + nelem * elemsize div 4 * 4 then 0 else memory S x)"
proof -
  note body = c [unfolded loft_calloc_def Let_def]
  obtain p T where p: "do_alloc os (nelem * elemsize) align S = Some (p, T)"
    using body by (cases "do_alloc os (nelem * elemsize) align S") (auto split: if_split_asm)
  then have "p = Some (a, n)" "memory S' x = (if a \<le> x \<and> x < a + nelem * elemsize div 4 * 4 then 0 else memory T x)"
    using body by (cases p; auto split: if_split_asm)+
  then show ?thesis using do_alloc_inv [of os "nelem * elemsize" align S a n T "live_blocks L"] p assms(2-4) by (simp add: loft_inv_def)
qed

end
